(* ===== verification/Prelude.thy ===== *)
theory Prelude
  imports Main "HOL-Library.Word" "HOL-Library.Monad_Syntax"
begin

text \<open>
  What the components of the development share: names for Go's machine integers, slice
  indexing with its run-time check, and lemmas about the bits of words.

  Conventions.  \<open>uint\<close>, \<open>uint64\<close> and \<open>uintptr\<close> are 64-bit words (the model is for a 64-bit
  target), so \<open>+\<close>, \<open>-\<close> and \<open>*\<close> wrap as they do in Go.  A shift \<open>x << n\<close> is
  \<open>push_bit (unat n) x\<close> and \<open>x >> n\<close> is \<open>drop_bit (unat n) x\<close>; both are 0 from \<open>n = 64\<close> on, as
  in Go.  Inside the runtime an out-of-range index, a nil dereference and a call of \<open>throw\<close>
  all end the process; the models return \<open>None\<close> there (\<open>'a go = 'a option\<close>) and
  \<open>Some v\<close> where the code returns normally with \<open>v\<close>.
\<close>

unbundle bit_operations_syntax

subsection \<open>Types and slice access\<close>

type_synonym uint8 = "8 word"
type_synonym uint16 = "16 word"
type_synonym uint32 = "32 word"
type_synonym uint64 = "64 word"
type_synonym uint = "64 word"
type_synonym uintptr = "64 word"

type_synonym 'a go = "'a option"

text \<open>\<open>b[i]\<close> and \<open>b[i] = v\<close>: the bounds check of Go, then the access.\<close>

definition idx :: "'a list \<Rightarrow> uint \<Rightarrow> 'a go" where
  "idx xs i = (if unat i < length xs then Some (xs ! unat i) else None)"

definition upd :: "'a list \<Rightarrow> uint \<Rightarrow> 'a \<Rightarrow> 'a list go" where
  "upd xs i v = (if unat i < length xs then Some (xs[unat i := v]) else None)"

named_theorems go_access \<open>slice access that stays in bounds\<close>

lemma idx_ok [go_access]: "unat i < length xs \<Longrightarrow> idx xs i = Some (xs ! unat i)"
  by (simp add: idx_def)

lemma upd_ok [go_access]: "unat i < length xs \<Longrightarrow> upd xs i v = Some (xs[unat i := v])"
  by (simp add: upd_def)

lemma idx_out [go_access]: "length xs \<le> unat i \<Longrightarrow> idx xs i = None"
  by (simp add: idx_def)

lemma upd_out [go_access]: "length xs \<le> unat i \<Longrightarrow> upd xs i v = None"
  by (simp add: upd_def)

lemma idx_Some_iff: "idx xs i = Some v \<longleftrightarrow> unat i < length xs \<and> v = xs ! unat i"
  by (auto simp: idx_def)

lemma upd_Some_iff: "upd xs i v = Some ys \<longleftrightarrow> unat i < length xs \<and> ys = xs[unat i := v]"
  by (auto simp: upd_def)

text \<open>\<open>xs[i] = f(xs[i])\<close>, the shape of \<open>|=\<close>, \<open>&^=\<close> and \<open>+=\<close> on an element.\<close>

definition modify :: "'a list \<Rightarrow> uint \<Rightarrow> ('a \<Rightarrow> 'a) \<Rightarrow> 'a list go" where
  "modify xs i f = do { x \<leftarrow> idx xs i; upd xs i (f x) }"

lemma modify_ok [go_access]:
  "unat i < length xs \<Longrightarrow> modify xs i f = Some (xs[unat i := f (xs ! unat i)])"
  by (simp add: modify_def idx_def upd_def)

lemma modify_out [go_access]: "length xs \<le> unat i \<Longrightarrow> modify xs i f = None"
  by (simp add: modify_def idx_def)

subsection \<open>Arithmetic on words that does not wrap\<close>

lemma unat_add_small:
  fixes a b :: "'a::len word"
  assumes "unat a + unat b < 2 ^ LENGTH('a)"
  shows "unat (a + b) = unat a + unat b"
  using assms by (simp add: unat_word_ariths)

lemma unat_add_le:
  fixes a b :: uint64
  assumes "unat a + unat b \<le> 2 ^ 63"
  shows "unat (a + b) = unat a + unat b"
  using assms by (simp add: unat_word_ariths)

lemma unat_sub_small:
  fixes a b :: "'a::len word"
  assumes "unat b \<le> unat a"
  shows "unat (a - b) = unat a - unat b"
  using assms by (simp add: unat_sub word_le_nat_alt)

lemma unat_mult_small:
  fixes a b :: "'a::len word"
  assumes "unat a * unat b < 2 ^ LENGTH('a)"
  shows "unat (a * b) = unat a * unat b"
  using assms by (simp add: unat_word_ariths)

lemma unat_of_nat_small:
  assumes "n < 2 ^ LENGTH('a::len)"
  shows "unat (of_nat n :: 'a word) = n"
  using assms by (simp add: unat_of_nat)

lemma unat_of_nat64 [simp]: "n < 18446744073709551616 \<Longrightarrow> unat (of_nat n :: uint64) = n"
  by (simp add: unat_of_nat)

lemma unat_less_2p64: "unat (x :: uint64) < 2 ^ 64"
proof -
  have "unat x < 2 ^ LENGTH(64)" by (rule unsigned_less)
  then show ?thesis by simp
qed

lemma unat_div64: "unat (i div 64 :: uint64) = unat i div 64"
  by (simp add: unat_div_distrib)

lemma unat_mod64: "unat (i mod 64 :: uint64) = unat i mod 64"
  by (simp add: unat_mod_distrib)

lemma unat_mod64_less [simp]: "unat (i mod 64 :: uint64) < 64"
  by (simp add: unat_mod_distrib)

lemma unat_plus_one:
  fixes k e :: "'a::len word"
  assumes "k < e"
  shows "unat (k + 1) = unat k + 1"
proof -
  from assms have "unat k + 1 \<le> unat e" by (simp add: word_less_nat_alt)
  also have "\<dots> < 2 ^ LENGTH('a)" by (rule unsigned_less)
  finally show ?thesis using unat_add_small [of k 1] by simp
qed

lemma div_eq_interval:
  assumes "0 < d"
  shows "(k::nat) div d = c \<longleftrightarrow> c * d \<le> k \<and> k < c * d + d"
proof
  assume "k div d = c"
  then have "k = c * d + k mod d" by (metis div_mult_mod_eq)
  moreover have "k mod d < d" using assms by simp
  ultimately show "c * d \<le> k \<and> k < c * d + d" by linarith
next
  assume "c * d \<le> k \<and> k < c * d + d"
  then show "k div d = c" by (intro div_nat_eqI) (simp_all add: mult.commute)
qed

text \<open>The order of page numbers, block by block.\<close>

lemma le_block64: "(a::nat) \<le> b \<longleftrightarrow> a div 64 < b div 64 \<or> a div 64 = b div 64 \<and> a mod 64 \<le> b mod 64"
proof -
  have "p * 64 + q \<le> r * 64 + s \<longleftrightarrow> p < r \<or> p = r \<and> q \<le> s" if "q < 64" "s < 64" for p q r s :: nat
    using that by (cases p r rule: linorder_cases) auto
  from this [of "a mod 64" "b mod 64" "a div 64" "b div 64"] show ?thesis by simp
qed

subsection \<open>Bits of words\<close>

text \<open>A word splits at bit \<open>m\<close> into the part above and the \<open>m\<close> lowest bits.\<close>

lemma word_eq_zero_iff_bits: "x = 0 \<longleftrightarrow> (\<forall>k<LENGTH('a). \<not> bit x k)"
  for x :: "'a::len word"
  by (auto intro: bit_word_eqI)

lemma word_eq_all_ones_iff_bits: "x = - 1 \<longleftrightarrow> (\<forall>k<LENGTH('a). bit x k)"
  for x :: "'a::len word"
  by (auto intro: bit_word_eqI)

lemma bit_minus_one_word [simp]: "bit (- 1 :: 'a::len word) k \<longleftrightarrow> k < LENGTH('a)"
  by simp

lemma plus_disjoint_or:
  fixes x y :: "'a::len word"
  assumes "\<And>k. \<not> (bit x k \<and> bit y k)"
  shows "x + y = x OR y"
  using assms by (intro disjunctive_add) blast

text \<open>Adding one clears the trailing ones and sets the lowest zero.\<close>

lemma bit_plus_one:
  fixes x :: "'a::len word"
  assumes m: "m < LENGTH('a)" "\<not> bit x m" and low: "\<And>k. k < m \<Longrightarrow> bit x k"
  shows "bit (x + 1) k \<longleftrightarrow> k = m \<or> m < k \<and> bit x k"
proof -
  define y where "y = x AND NOT (mask (Suc m))"
  have x: "x = y + mask m"
  proof -
    have "y + mask m = y OR mask m"
      by (rule plus_disjoint_or) (auto simp: y_def bit_simps)
    also have "\<dots> = x"
    proof (rule bit_word_eqI)
      fix n assume n: "n < LENGTH('a)"
      show "bit (y OR mask m) n = bit x n"
        using m low [of n] n less_Suc_eq [of n m]
        by (cases "n = m") (auto simp: y_def bit_simps)
    qed
    finally show ?thesis by simp
  qed
  have "x + 1 = y + 2 ^ m"
    by (subst x) (simp add: mask_eq_decr_exp)
  also have "\<dots> = y OR 2 ^ m"
    by (rule plus_disjoint_or) (auto simp: y_def bit_simps)
  finally show ?thesis
    using m(1) by (auto simp: y_def bit_simps dest: bit_imp_le_length)
qed

text \<open>Subtracting one sets the trailing zeros and clears the lowest one.\<close>

lemma bit_minus_one:
  fixes x :: "'a::len word"
  assumes m: "m < LENGTH('a)" "bit x m" and low: "\<And>k. k < m \<Longrightarrow> \<not> bit x k"
  shows "bit (x - 1) k \<longleftrightarrow> k < LENGTH('a) \<and> (k < m \<or> m < k \<and> bit x k)"
proof -
  have "x - 1 = NOT (NOT x + 1)"
    by (simp add: not_eq_complement)
  moreover have "bit (NOT x + 1) k \<longleftrightarrow> k = m \<or> m < k \<and> bit (NOT x) k"
    using m low by (intro bit_plus_one) (auto simp: bit_simps)
  ultimately show ?thesis
    using m(1) by (auto simp: bit_simps)
qed

lemma push_bit_one_minus_one: "push_bit n 1 - 1 = (mask n :: 'a::len word)"
  by (simp add: mask_eq_decr_exp push_bit_eq_mult)

lemma lowest_bit_obtain:
  fixes x :: "'a::len word"
  assumes "x \<noteq> 0"
  obtains m where "m < LENGTH('a)" "bit x m" "\<And>k. k < m \<Longrightarrow> \<not> bit x k"
proof -
  from assms obtain k where k: "bit x k" "k < LENGTH('a)"
    by (auto simp: word_eq_zero_iff_bits)
  define m where "m = (LEAST n. bit x n)"
  have "bit x m" unfolding m_def using k by (rule_tac LeastI)
  moreover have "\<And>k. k < m \<Longrightarrow> \<not> bit x k" unfolding m_def by (rule not_less_Least)
  moreover have "m < LENGTH('a)" using \<open>bit x m\<close> by (rule bit_imp_le_length)
  ultimately show ?thesis by (rule_tac that)
qed

lemma and_minus_lowest:
  fixes x :: "'a::len word"
  assumes m: "m < LENGTH('a)" "bit x m" and low: "\<And>k. k < m \<Longrightarrow> \<not> bit x k"
  shows "x AND - x = 2 ^ m"
proof (rule bit_word_eqI)
  fix n assume n: "n < LENGTH('a)"
  have "- x = NOT (x - 1)"
    by (simp add: not_eq_complement)
  then have "bit (- x) n \<longleftrightarrow> n < LENGTH('a) \<and> \<not> bit (x - 1) n"
    by (simp add: bit_simps)
  then show "bit (x AND - x) n = bit (2 ^ m :: 'a word) n"
    using m low [of n] n by (auto simp: bit_simps bit_minus_one [OF m low])
qed

end
