(* ===== verification/Sys.thy ===== *)
theory Sys
  imports Prelude
begin

text \<open>
  The bit intrinsics of the runtime, \<open>runtime/internal/sys/intrinsics.go\<close>: the portable bodies
  with their de Bruijn and byte tables, and Hacker's Delight's parallel bit count.  The Go
  functions return an \<open>int\<close> that is never negative; here it is a \<open>nat\<close>.  The lemmas show that
  each returns what its comment says, in terms of the bits of the argument.
\<close>

subsection \<open>Tables\<close>

definition deBruijn32tab :: "nat list" where
  "deBruijn32tab =
    [0, 1, 28, 2, 29, 14, 24, 3, 30, 22, 20, 15, 25, 17, 4, 8,
     31, 27, 13, 23, 21, 19, 16, 7, 26, 12, 18, 6, 11, 5, 10, 9]"

definition deBruijn32 :: uint32 where
  "deBruijn32 = 0x077CB531"

definition deBruijn64tab :: "nat list" where
  "deBruijn64tab =
    [0, 1, 56, 2, 57, 49, 28, 3, 61, 58, 42, 50, 38, 29, 17, 4,
     62, 47, 59, 36, 45, 43, 51, 22, 53, 39, 33, 30, 24, 18, 12, 5,
     63, 55, 48, 27, 60, 41, 37, 16, 46, 35, 44, 21, 52, 32, 23, 11,
     54, 26, 40, 15, 34, 20, 31, 10, 25, 14, 19, 9, 13, 8, 7, 6]"

definition deBruijn64 :: uint64 where
  "deBruijn64 = 0x03f79d71b4ca8b09"

definition ntz8tab :: "nat list" where
  "ntz8tab =
    [8, 0, 1, 0, 2, 0, 1, 0, 3, 0, 1, 0, 2, 0, 1, 0,
     4, 0, 1, 0, 2, 0, 1, 0, 3, 0, 1, 0, 2, 0, 1, 0,
     5, 0, 1, 0, 2, 0, 1, 0, 3, 0, 1, 0, 2, 0, 1, 0,
     4, 0, 1, 0, 2, 0, 1, 0, 3, 0, 1, 0, 2, 0, 1, 0,
     6, 0, 1, 0, 2, 0, 1, 0, 3, 0, 1, 0, 2, 0, 1, 0,
     4, 0, 1, 0, 2, 0, 1, 0, 3, 0, 1, 0, 2, 0, 1, 0,
     5, 0, 1, 0, 2, 0, 1, 0, 3, 0, 1, 0, 2, 0, 1, 0,
     4, 0, 1, 0, 2, 0, 1, 0, 3, 0, 1, 0, 2, 0, 1, 0,
     7, 0, 1, 0, 2, 0, 1, 0, 3, 0, 1, 0, 2, 0, 1, 0,
     4, 0, 1, 0, 2, 0, 1, 0, 3, 0, 1, 0, 2, 0, 1, 0,
     5, 0, 1, 0, 2, 0, 1, 0, 3, 0, 1, 0, 2, 0, 1, 0,
     4, 0, 1, 0, 2, 0, 1, 0, 3, 0, 1, 0, 2, 0, 1, 0,
     6, 0, 1, 0, 2, 0, 1, 0, 3, 0, 1, 0, 2, 0, 1, 0,
     4, 0, 1, 0, 2, 0, 1, 0, 3, 0, 1, 0, 2, 0, 1, 0,
     5, 0, 1, 0, 2, 0, 1, 0, 3, 0, 1, 0, 2, 0, 1, 0,
     4, 0, 1, 0, 2, 0, 1, 0, 3, 0, 1, 0, 2, 0, 1, 0]"

definition len8tab :: "nat list" where
  "len8tab =
    [0, 1, 2, 2, 3, 3, 3, 3, 4, 4, 4, 4, 4, 4, 4, 4,
     5, 5, 5, 5, 5, 5, 5, 5, 5, 5, 5, 5, 5, 5, 5, 5,
     6, 6, 6, 6, 6, 6, 6, 6, 6, 6, 6, 6, 6, 6, 6, 6,
     6, 6, 6, 6, 6, 6, 6, 6, 6, 6, 6, 6, 6, 6, 6, 6,
     7, 7, 7, 7, 7, 7, 7, 7, 7, 7, 7, 7, 7, 7, 7, 7,
     7, 7, 7, 7, 7, 7, 7, 7, 7, 7, 7, 7, 7, 7, 7, 7,
     7, 7, 7, 7, 7, 7, 7, 7, 7, 7, 7, 7, 7, 7, 7, 7,
     7, 7, 7, 7, 7, 7, 7, 7, 7, 7, 7, 7, 7, 7, 7, 7,
     8, 8, 8, 8, 8, 8, 8, 8, 8, 8, 8, 8, 8, 8, 8, 8,
     8, 8, 8, 8, 8, 8, 8, 8, 8, 8, 8, 8, 8, 8, 8, 8,
     8, 8, 8, 8, 8, 8, 8, 8, 8, 8, 8, 8, 8, 8, 8, 8,
     8, 8, 8, 8, 8, 8, 8, 8, 8, 8, 8, 8, 8, 8, 8, 8,
     8, 8, 8, 8, 8, 8, 8, 8, 8, 8, 8, 8, 8, 8, 8, 8,
     8, 8, 8, 8, 8, 8, 8, 8, 8, 8, 8, 8, 8, 8, 8, 8,
     8, 8, 8, 8, 8, 8, 8, 8, 8, 8, 8, 8, 8, 8, 8, 8,
     8, 8, 8, 8, 8, 8, 8, 8, 8, 8, 8, 8, 8, 8, 8, 8]"

subsection \<open>Trailing and leading zeros, bit length\<close>

definition TrailingZeros32 :: "uint32 \<Rightarrow> nat" where
  "TrailingZeros32 x =
     (if x = 0 then 32
      else deBruijn32tab ! unat (drop_bit (32 - 5) ((x AND - x) * deBruijn32)))"

definition TrailingZeros64 :: "uint64 \<Rightarrow> nat" where
  "TrailingZeros64 x =
     (if x = 0 then 64
      else deBruijn64tab ! unat (drop_bit (64 - 6) ((x AND - x) * deBruijn64)))"

definition TrailingZeros8 :: "uint8 \<Rightarrow> nat" where
  "TrailingZeros8 x = ntz8tab ! unat x"

definition Len64 :: "uint64 \<Rightarrow> nat" where
  "Len64 x =
     (let (x, n) = (if x \<ge> 2 ^ 32 then (drop_bit 32 x, 32) else (x, 0));
          (x, n) = (if x \<ge> 2 ^ 16 then (drop_bit 16 x, n + 16) else (x, n));
          (x, n) = (if x \<ge> 2 ^ 8 then (drop_bit 8 x, n + 8) else (x, n))
      in n + len8tab ! unat x)"

definition LeadingZeros64 :: "uint64 \<Rightarrow> nat" where
  "LeadingZeros64 x = 64 - Len64 x"

definition Len8 :: "uint8 \<Rightarrow> nat" where
  "Len8 x = len8tab ! unat x"

definition LeadingZeros8 :: "uint8 \<Rightarrow> nat" where
  "LeadingZeros8 x = 8 - Len8 x"

subsection \<open>Bit count and byte swap\<close>

definition m0 :: uint64 where "m0 = 0x5555555555555555"

definition m1 :: uint64 where "m1 = 0x3333333333333333"

definition m2 :: uint64 where "m2 = 0x0f0f0f0f0f0f0f0f"

definition OnesCount64 :: "uint64 \<Rightarrow> nat" where
  "OnesCount64 x =
     (let m = (- 1 :: uint64);
          x = (drop_bit 1 x AND (m0 AND m)) + (x AND (m0 AND m));
          x = (drop_bit 2 x AND (m1 AND m)) + (x AND (m1 AND m));
          x = (drop_bit 4 x + x) AND (m2 AND m);
          x = x + drop_bit 8 x;
          x = x + drop_bit 16 x;
          x = x + drop_bit 32 x
      in unat (x AND (2 ^ 7 - 1)))"

definition Bswap64 :: "uint64 \<Rightarrow> uint64" where
  "Bswap64 x =
     (let c8 = 0x00ff00ff00ff00ff;
          a = drop_bit 8 x AND c8;
          b = push_bit 8 (x AND c8);
          x = a OR b;
          c16 = 0x0000ffff0000ffff;
          a = drop_bit 16 x AND c16;
          b = push_bit 16 (x AND c16);
          x = a OR b;
          c32 = 0x00000000ffffffff;
          a = drop_bit 32 x AND c32;
          b = push_bit 32 (x AND c32);
          x = a OR b
      in x)"

definition Bswap32 :: "uint32 \<Rightarrow> uint32" where
  "Bswap32 x =
     (let c8 = 0x00ff00ff;
          a = drop_bit 8 x AND c8;
          b = push_bit 8 (x AND c8);
          x = a OR b;
          c16 = 0x0000ffff;
          a = drop_bit 16 x AND c16;
          b = push_bit 16 (x AND c16);
          x = a OR b
      in x)"


subsection \<open>Trailing zeros\<close>

lemma deBruijn64_table:
  "m < 64 \<Longrightarrow> deBruijn64tab ! unat (drop_bit 58 (2 ^ m * deBruijn64)) = m"
proof -
  have "\<forall>m \<in> set [0..<64]. deBruijn64tab ! unat (drop_bit 58 (2 ^ m * deBruijn64)) = m"
    by (simp add: upt_rec deBruijn64tab_def deBruijn64_def)
  then show "m < 64 \<Longrightarrow> ?thesis" by simp
qed

lemma deBruijn32_table:
  "m < 32 \<Longrightarrow> deBruijn32tab ! unat (drop_bit 27 (2 ^ m * deBruijn32)) = m"
proof -
  have "\<forall>m \<in> set [0..<32]. deBruijn32tab ! unat (drop_bit 27 (2 ^ m * deBruijn32)) = m"
    by (simp add: upt_rec deBruijn32tab_def deBruijn32_def)
  then show "m < 32 \<Longrightarrow> ?thesis" by simp
qed

lemma TrailingZeros64_eq:
  assumes "m < 64" "bit x m" "\<And>k. k < m \<Longrightarrow> \<not> bit x k"
  shows "TrailingZeros64 x = m"
proof -
  from assms(2) have "x \<noteq> 0" by auto
  moreover have "x AND - x = 2 ^ m"
    using assms by (intro and_minus_lowest) auto
  ultimately show ?thesis
    using deBruijn64_table [OF assms(1)] by (simp add: TrailingZeros64_def)
qed

lemma TrailingZeros64_zero [simp]: "TrailingZeros64 0 = 64"
  by (simp add: TrailingZeros64_def)

lemma TrailingZeros64_spec:
  assumes "x \<noteq> 0"
  shows "TrailingZeros64 x < 64 \<and> bit x (TrailingZeros64 x) \<and>
    (\<forall>k < TrailingZeros64 x. \<not> bit x k)"
proof -
  obtain m where m: "m < 64" "bit x m" "\<And>k. k < m \<Longrightarrow> \<not> bit x k"
    using lowest_bit_obtain [OF assms] by auto
  then show ?thesis using TrailingZeros64_eq [of m x] by auto
qed

lemma bit_TrailingZeros64: "x \<noteq> 0 \<Longrightarrow> bit x (TrailingZeros64 x)"
  using TrailingZeros64_spec by blast

lemma TrailingZeros64_low: "k < TrailingZeros64 x \<Longrightarrow> \<not> bit x k"
  using TrailingZeros64_spec [of x] by (cases "x = 0") auto

lemma TrailingZeros64_le: "TrailingZeros64 x \<le> 64"
  using TrailingZeros64_spec [of x] by (cases "x = 0") auto

lemma TrailingZeros64_less_iff: "TrailingZeros64 x < 64 \<longleftrightarrow> x \<noteq> 0"
  using TrailingZeros64_spec [of x] by (cases "x = 0") auto

lemma TrailingZeros64_eq_64_iff: "TrailingZeros64 x = 64 \<longleftrightarrow> x = 0"
  using TrailingZeros64_less_iff [of x] TrailingZeros64_le [of x] by auto

lemma TrailingZeros64_leD: "bit x k \<Longrightarrow> TrailingZeros64 x \<le> k"
  using TrailingZeros64_low [of k x] by (meson not_le)

lemma TrailingZeros32_spec:
  assumes "x \<noteq> 0"
  shows "TrailingZeros32 x < 32 \<and> bit x (TrailingZeros32 x) \<and>
    (\<forall>k < TrailingZeros32 x. \<not> bit x k)"
proof -
  obtain m where m: "m < 32" "bit x m" "\<And>k. k < m \<Longrightarrow> \<not> bit x k"
    using lowest_bit_obtain [OF assms] by auto
  then have "x AND - x = 2 ^ m"
    by (intro and_minus_lowest) auto
  then have "TrailingZeros32 x = m"
    using deBruijn32_table [OF m(1)] assms by (simp add: TrailingZeros32_def)
  with m show ?thesis by auto
qed

lemma TrailingZeros32_zero [simp]: "TrailingZeros32 0 = 32"
  by (simp add: TrailingZeros32_def)

subsection \<open>Bit length and leading zeros\<close>

text \<open>The table in closed form: its breakpoints are the powers of two.\<close>

definition len8_ref :: "nat \<Rightarrow> nat" where
  "len8_ref n = (if n = 0 then 0 else if n < 2 then 1 else if n < 4 then 2 else if n < 8 then 3
     else if n < 16 then 4 else if n < 32 then 5 else if n < 64 then 6 else if n < 128 then 7
     else 8)"

lemma len8tab_ref: "len8tab = map len8_ref [0..<256]"
  by (simp add: len8tab_def len8_ref_def upt_conv_Cons)

text \<open>The number of binary digits of a natural number, as the tables and \<open>Len64\<close> give it.\<close>

definition is_bit_len :: "nat \<Rightarrow> nat \<Rightarrow> bool" where
  "is_bit_len n l \<longleftrightarrow> n < 2 ^ l \<and> (n = 0 \<and> l = 0 \<or> l \<noteq> 0 \<and> 2 ^ (l - 1) \<le> n)"

lemma len8tab_bit_len: "n < 256 \<Longrightarrow> is_bit_len n (len8tab ! n) \<and> len8tab ! n \<le> 8"
  by (simp add: len8tab_ref) (simp add: len8_ref_def is_bit_len_def)

lemma is_bit_len_shift:
  assumes "is_bit_len (n div 2 ^ k) l" "n div 2 ^ k \<noteq> 0"
  shows "is_bit_len n (l + k)"
proof -
  from assms have l: "n div 2 ^ k < 2 ^ l" "l \<noteq> 0" "2 ^ (l - 1) \<le> n div 2 ^ k"
    by (auto simp: is_bit_len_def)
  have "n < 2 ^ l * 2 ^ k" using l(1) by (simp add: div_less_iff_less_mult)
  moreover have "2 ^ (l - 1) * 2 ^ k \<le> n"
    using l(3) by (simp add: less_eq_div_iff_mult_less_eq)
  moreover have "l + k - 1 = l - 1 + k" using l(2) by simp
  ultimately have "n < 2 ^ (l + k)" "2 ^ (l + k - 1) \<le> n"
    by (simp_all only: power_add)
  then show ?thesis using l(2) by (simp add: is_bit_len_def)
qed

lemma Len64_bit_len: "is_bit_len (unat x) (Len64 x) \<and> Len64 x \<le> 64"
proof -
  have d: "unat (drop_bit k y) = unat y div 2 ^ k" for k and y :: uint64
    by (metis unat_drop_bit_eq drop_bit_eq_div)
  define a where "a = (if x \<ge> 2 ^ 32 then (32::nat) else 0)"
  define x1 where "x1 = drop_bit a x"
  define b where "b = (if x1 \<ge> 2 ^ 16 then (16::nat) else 0)"
  define x2 where "x2 = drop_bit b x1"
  define c where "c = (if x2 \<ge> 2 ^ 8 then (8::nat) else 0)"
  define x3 where "x3 = drop_bit c x2"
  have L: "Len64 x = a + b + c + len8tab ! unat x3"
    by (simp add: Len64_def a_def b_def c_def x1_def x2_def x3_def)
  have n1: "unat x1 < 2 ^ 32" using unat_less_2p64 [of x]
    by (auto simp: x1_def a_def d word_le_nat_alt div_less_iff_less_mult)
  then have n2: "unat x2 < 2 ^ 16"
    by (auto simp: x2_def b_def d word_le_nat_alt div_less_iff_less_mult)
  then have n3: "unat x3 < 256"
    by (auto simp: x3_def c_def d word_le_nat_alt div_less_iff_less_mult)
  have step: "is_bit_len (unat y) (l + k)"
    if "is_bit_len (unat (drop_bit k y)) l" "k = 0 \<or> 2 ^ k \<le> unat y" for y :: uint64 and k l
    using that by (cases "k = 0") (auto intro!: is_bit_len_shift simp: d div_greater_zero_iff)
  have "is_bit_len (unat x2) (len8tab ! unat x3 + c)"
    using len8tab_bit_len [OF n3] unfolding x3_def
    by (intro step) (auto simp: c_def word_le_nat_alt)
  then have "is_bit_len (unat x1) (len8tab ! unat x3 + c + b)"
    by (intro step [of b x1]) (auto simp: b_def x2_def word_le_nat_alt)
  then have "is_bit_len (unat x) (len8tab ! unat x3 + c + b + a)"
    by (intro step [of a x]) (auto simp: a_def x1_def word_le_nat_alt)
  moreover have "a + b + c + len8tab ! unat x3 \<le> 64"
    using len8tab_bit_len [OF n3] by (simp add: a_def b_def c_def)
  ultimately show ?thesis by (simp add: L add_ac)
qed

lemma LeadingZeros64_zero [simp]: "LeadingZeros64 0 = 64"
  using Len64_bit_len [of 0] by (simp add: LeadingZeros64_def is_bit_len_def)

lemma LeadingZeros64_spec:
  assumes "x \<noteq> 0"
  shows "LeadingZeros64 x < 64 \<and> bit x (63 - LeadingZeros64 x) \<and>
    (\<forall>k > 63 - LeadingZeros64 x. \<not> bit x k)"
proof -
  define l where "l = Len64 x"
  have l: "unat x < 2 ^ l" "l \<noteq> 0" "2 ^ (l - 1) \<le> unat x" "l \<le> 64"
    using Len64_bit_len [of x] assms by (auto simp: is_bit_len_def l_def unat_eq_zero)
  have z: "LeadingZeros64 x = 64 - l" by (simp add: LeadingZeros64_def l_def)
  have bits: "bit x k \<longleftrightarrow> odd (unat x div 2 ^ k)" for k
    by (simp add: bit_unsigned_iff flip: bit_iff_odd)
  have "unat x div 2 ^ (l - 1) = 1"
  proof -
    have "unat x < 2 * 2 ^ (l - 1)" using l by (simp flip: power_Suc)
    with l(3) show ?thesis by (simp add: div_nat_eqI)
  qed
  then have "bit x (l - 1)" by (simp add: bits)
  moreover have "\<not> bit x k" if "k > l - 1" for k
  proof -
    have "(2::nat) ^ l \<le> 2 ^ k" using that by (intro power_increasing) auto
    with l(1) have "unat x < 2 ^ k" by (rule less_le_trans)
    then have "unat x div 2 ^ k = 0" by simp
    then show ?thesis by (simp add: bits)
  qed
  ultimately show ?thesis using l by (simp add: z)
qed

lemma LeadingZeros64_le: "LeadingZeros64 x \<le> 64"
  by (simp add: LeadingZeros64_def)

lemma LeadingZeros64_less_iff: "LeadingZeros64 x < 64 \<longleftrightarrow> x \<noteq> 0"
  using LeadingZeros64_spec [of x] by (cases "x = 0") auto

lemma LeadingZeros64_high: "64 - LeadingZeros64 x \<le> k \<Longrightarrow> \<not> bit x k"
  using LeadingZeros64_spec [of x] by (cases "x = 0") auto

subsection \<open>Bit count\<close>

text \<open>
  A word read as \<open>m\<close> fields of \<open>w\<close> bits: \<open>fields w f m\<close> has the value \<open>f i\<close> in field \<open>i\<close>.
  Masked shifts and additions of such words act field by field while no field overflows.
\<close>

definition fields :: "nat \<Rightarrow> (nat \<Rightarrow> nat) \<Rightarrow> nat \<Rightarrow> nat" where
  "fields w f m = (\<Sum>i<m. f i * 2 ^ (w * i))"

lemma fields_less:
  assumes "\<And>i. i < m \<Longrightarrow> f i < 2 ^ w"
  shows "fields w f m < 2 ^ (w * m)"
  using assms
proof (induction m)
  case 0
  then show ?case by (simp add: fields_def)
next
  case (Suc m)
  have "fields w f m < 2 ^ (w * m)" using Suc by simp
  moreover have "(f m + 1) * 2 ^ (w * m) \<le> 2 ^ w * 2 ^ (w * m)"
    using Suc.prems [of m] by (intro mult_right_mono) auto
  ultimately show ?case by (simp add: fields_def power_add algebra_simps)
qed

lemma bit_add_high:
  fixes a b :: nat
  assumes "a < 2 ^ p"
  shows "bit (a + b * 2 ^ p) n \<longleftrightarrow> (if n < p then bit a n else bit b (n - p))"
proof -
  have "take_bit p (a + b * 2 ^ p) = a"
    using assms by (simp add: take_bit_eq_mod)
  moreover have "drop_bit p (a + b * 2 ^ p) = b"
    using assms by (simp add: drop_bit_eq_div)
  ultimately have "bit a n = (n < p \<and> bit (a + b * 2 ^ p) n)"
    and "bit b (n - p) = bit (a + b * 2 ^ p) (p + (n - p))"
    by (metis bit_take_bit_iff, metis bit_drop_bit_eq comp_apply)
  then show ?thesis by auto
qed

lemma bit_fields:
  assumes "\<And>i. i < m \<Longrightarrow> f i < 2 ^ w" "w > 0"
  shows "bit (fields w f m) n \<longleftrightarrow> n < w * m \<and> bit (f (n div w)) (n mod w)"
  using assms
proof (induction m)
  case 0
  then show ?case by (simp add: fields_def)
next
  case (Suc m)
  have "fields w f m < 2 ^ (w * m)" using Suc.prems by (intro fields_less) auto
  then have *: "bit (fields w f (Suc m)) n \<longleftrightarrow>
      (if n < w * m then bit (fields w f m) n else bit (f m) (n - w * m))"
    by (simp add: fields_def bit_add_high)
  show ?case
  proof (cases "n < w * m")
    case True
    then show ?thesis using Suc * by auto
  next
    case False
    show ?thesis
    proof (cases "n < w * Suc m")
      case True
      define r where "r = n - w * m"
      have r: "n = w * m + r" "r < w" using False True by (auto simp: r_def)
      then have "n div w = m" "n mod w = n - w * m"
        using Suc.prems(2) by simp_all
      then show ?thesis using * False True by simp
    next
      case b: False
      have "f m < 2 ^ (n - w * m)"
        using Suc.prems(1) [of m] b by (auto intro: less_le_trans power_increasing)
      then have "\<not> bit (f m) (n - w * m)" by (simp add: bit_iff_odd)
      then show ?thesis using * False b by simp
    qed
  qed
qed

text \<open>Neighbouring fields add up into fields of twice the width.\<close>

definition pairs :: "(nat \<Rightarrow> nat) \<Rightarrow> nat \<Rightarrow> nat" where
  "pairs f i = f (2 * i) + f (2 * i + 1)"

lemma sum_pairs: "(\<Sum>i<m. pairs f i) = (\<Sum>i<2 * m. f i)"
  by (induction m) (simp_all add: pairs_def)

lemma mask_fields_even:
  fixes k :: nat
  assumes f: "\<And>i. f i < 2 ^ w" and w: "w > 0" and m: "2 * w * m = 64"
    and c: "\<And>n. n < 64 \<Longrightarrow> bit (c :: uint64) n \<longleftrightarrow> n mod (2 * w) < w"
  shows "of_nat (fields w f (2 * m)) AND c = (of_nat (fields (2 * w) (\<lambda>i. f (2 * i)) m) :: uint64)"
proof (rule bit_word_eqI)
  fix n assume "n < LENGTH(64)"
  then have n: "n < 64" by simp
  have f2: "f (2 * i) < 2 ^ (2 * w)" for i
    using f [of "2 * i"] by (rule less_le_trans) (simp add: power_increasing)
  have small: "\<not> bit (f (2 * i)) j" if "w \<le> j" for i j
  proof -
    have "f (2 * i) < 2 ^ j" using f [of "2 * i"] that by (auto intro: less_le_trans power_increasing)
    then show ?thesis by (simp add: bit_iff_odd)
  qed
  have "n div w = 2 * (n div (2 * w)) \<and> n mod w = n mod (2 * w)" if "n mod (2 * w) < w"
  proof -
    define q r where "q = n div (2 * w)" and "r = n mod (2 * w)"
    have "n = q * (2 * w) + r" unfolding q_def r_def by (rule div_mult_mod_eq [symmetric])
    then have "n = w * (2 * q) + r" "r < w" using that by (simp_all add: r_def ac_simps)
    then have "n div w = 2 * q \<and> n mod w = r" using w by simp
    then show ?thesis by (simp add: q_def r_def)
  qed
  moreover have "bit (of_nat (fields w f (2 * m)) :: uint64) n \<longleftrightarrow> bit (f (n div w)) (n mod w)"
    using bit_fields [of "2 * m" f w n] n m w f by (simp add: bit_of_nat_iff ac_simps)
  moreover have "bit (of_nat (fields (2 * w) (\<lambda>i. f (2 * i)) m) :: uint64) n \<longleftrightarrow>
      bit (f (2 * (n div (2 * w)))) (n mod (2 * w))"
    using bit_fields [of m "\<lambda>i. f (2 * i)" "2 * w" n] n m w f2 by (simp add: bit_of_nat_iff)
  ultimately show "bit (of_nat (fields w f (2 * m)) AND c) n =
      bit (of_nat (fields (2 * w) (\<lambda>i. f (2 * i)) m) :: uint64) n"
    using n c [of n] small [of "n mod (2 * w)" "n div (2 * w)"]
    by (cases "n mod (2 * w) < w") (auto simp only: bit_and_iff not_less)
qed

lemma drop_fields:
  assumes f: "\<And>i. f i < 2 ^ w" and w: "w > 0" and m: "w * m = 64"
    and z: "\<And>i. m \<le> i \<Longrightarrow> f i = 0"
  shows "drop_bit (w * k) (of_nat (fields w f m)) = (of_nat (fields w (\<lambda>i. f (i + k)) m) :: uint64)"
proof (rule bit_word_eqI)
  fix n assume "n < LENGTH(64)"
  then have n: "n < 64" by simp
  have d: "(w * k + n) div w = n div w + k" using w by simp
  have "f (n div w + k) = 0" if "64 \<le> w * k + n"
  proof (rule z)
    have "64 div w \<le> (w * k + n) div w" using that by (rule div_le_mono)
    moreover have "64 div w = m" using w m by (metis nonzero_mult_div_cancel_left less_numeral_extra(3))
    ultimately show "m \<le> n div w + k" by (simp only: d)
  qed
  then show "bit (drop_bit (w * k) (of_nat (fields w f m)) :: uint64) n =
      bit (of_nat (fields w (\<lambda>i. f (i + k)) m) :: uint64) n"
    using n w m by (cases "w * k + n < 64") (auto simp: bit_drop_bit_eq bit_of_nat_iff bit_fields f d not_less)
qed

lemma fields_add: "fields w f m + fields w g m = fields w (\<lambda>i. f i + g i) m"
  by (simp add: fields_def sum.distrib algebra_simps)

lemma fields_Suc: "fields w f (Suc m) = f 0 + 2 ^ w * fields w (\<lambda>i. f (Suc i)) m"
  unfolding fields_def sum.lessThan_Suc_shift
  by (simp add: sum_distrib_left power_add ac_simps)

lemma fields_cong: "(\<And>i. i < m \<Longrightarrow> f i = g i) \<Longrightarrow> fields w f m = fields w g m"
  by (simp add: fields_def)

lemma fields_ext:
  assumes "m \<le> n" "\<And>i. m \<le> i \<Longrightarrow> f i = 0"
  shows "fields w f n = fields w f m"
  unfolding fields_def using assms by (intro sum.mono_neutral_right) auto

lemma word_bit_fields: "x = of_nat (fields 1 (\<lambda>i. of_bool (bit x i)) 64)" for x :: uint64
proof (rule bit_word_eqI)
  fix n assume n: "n < LENGTH(64)"
  have "bit (fields 1 (\<lambda>i. of_bool (bit x i)) 64) n \<longleftrightarrow> n < 1 * 64 \<and> bit (of_bool (bit x (n div 1)) :: nat) (n mod 1)"
    by (rule bit_fields) auto
  then show "bit x n = bit (of_nat (fields 1 (\<lambda>i. of_bool (bit x i)) 64) :: uint64) n"
    using n by (simp add: bit_of_nat_iff del: One_nat_def)
qed

lemma m0_bits: "n < 64 \<Longrightarrow> bit m0 n \<longleftrightarrow> n mod (2 * 1) < 1"
  and m1_bits: "n < 64 \<Longrightarrow> bit m1 n \<longleftrightarrow> n mod (2 * 2) < 2"
  and m2_bits: "n < 64 \<Longrightarrow> bit m2 n \<longleftrightarrow> n mod (2 * 4) < 4"
proof -
  have "\<forall>n \<in> set [0..<64]. (bit m0 n \<longleftrightarrow> n mod (2 * 1) < 1) \<and>
      (bit m1 n \<longleftrightarrow> n mod (2 * 2) < 2) \<and> (bit m2 n \<longleftrightarrow> n mod (2 * 4) < 4)"
    by (simp add: upt_rec m0_def m1_def m2_def bit_numeral_rec)
  then show "n < 64 \<Longrightarrow> bit m0 n \<longleftrightarrow> n mod (2 * 1) < 1"
    and "n < 64 \<Longrightarrow> bit m1 n \<longleftrightarrow> n mod (2 * 2) < 2"
    and "n < 64 \<Longrightarrow> bit m2 n \<longleftrightarrow> n mod (2 * 4) < 4" by simp_all
qed

lemma pair_step:
  assumes f: "\<And>i. f i < 2 ^ w" and w: "w > 0" and m: "2 * w * m = 64"
    and c: "\<And>n. n < 64 \<Longrightarrow> bit (c :: uint64) n \<longleftrightarrow> n mod (2 * w) < w"
    and z: "\<And>i. 2 * m \<le> i \<Longrightarrow> f i = 0"
    and x: "x = of_nat (fields w f (2 * m))"
  shows "(drop_bit w x AND c) + (x AND c) = of_nat (fields (2 * w) (pairs f) m)"
proof -
  have "drop_bit w x = of_nat (fields w (\<lambda>i. f (i + 1)) (2 * m))"
    unfolding x using drop_fields [of f w "2 * m" 1] f w m z by (simp add: ac_simps)
  then have "(drop_bit w x AND c) + (x AND c) =
      of_nat (fields (2 * w) (\<lambda>i. f (2 * i + 1)) m) + of_nat (fields (2 * w) (\<lambda>i. f (2 * i)) m)"
    using mask_fields_even [of f w m c] mask_fields_even [of "\<lambda>i. f (i + 1)" w m c] f w m c x by simp
  then show ?thesis
    by (simp add: fields_add pairs_def [abs_def] add.commute flip: of_nat_add)
qed

lemma shift_step:
  assumes f: "\<And>i. f i < 2 ^ w" and w: "w > 0" and m: "w * m = 64"
    and z: "\<And>i. m \<le> i \<Longrightarrow> f i = 0" and x: "x = of_nat (fields w f m)"
  shows "x + drop_bit (w * k) x = (of_nat (fields w (\<lambda>i. f i + f (i + k)) m) :: uint64)"
  using drop_fields [of f w m k] assms by (simp add: fields_add flip: of_nat_add)

lemma OnesCount64_eq: "OnesCount64 x = (\<Sum>i<64. of_bool (bit x i))"
proof -
  define f0 where "f0 = (\<lambda>i. of_bool (bit x i) :: nat)"
  define f1 where "f1 = pairs f0"
  define f2 where "f2 = pairs f1"
  define f3 where "f3 = pairs f2"
  define f4 where "f4 i = f3 i + f3 (i + 1)" for i
  define f5 where "f5 i = f4 i + f4 (i + 2)" for i
  define f6 where "f6 i = f5 i + f5 (i + 4)" for i
  have z: "f0 i = 0" if "64 \<le> i" for i
    using that by (auto simp: f0_def dest: bit_imp_le_length)
  have b: "f0 i \<le> 1" "f1 i \<le> 2" "f2 i \<le> 4" "f3 i \<le> 8" "f4 i \<le> 16" "f5 i \<le> 32" "f6 i \<le> 64" for i
  proof -
    show b0: "f0 i \<le> 1" for i by (simp add: f0_def)
    show b1: "f1 i \<le> 2" for i using b0 [of "2 * i"] b0 [of "2 * i + 1"] by (simp add: f1_def pairs_def)
    show b2: "f2 i \<le> 4" for i using b1 [of "2 * i"] b1 [of "2 * i + 1"] by (simp add: f2_def pairs_def)
    show b3: "f3 i \<le> 8" for i using b2 [of "2 * i"] b2 [of "2 * i + 1"] by (simp add: f3_def pairs_def)
    show b4: "f4 i \<le> 16" for i using b3 [of i] b3 [of "i + 1"] by (simp add: f4_def)
    show b5: "f5 i \<le> 32" for i using b4 [of i] b4 [of "i + 2"] by (simp add: f5_def)
    show "f6 i \<le> 64" using b5 [of i] b5 [of "i + 4"] by (simp add: f6_def)
  qed
  have z1: "f1 i = 0" if "32 \<le> i" for i using that by (simp add: f1_def pairs_def z)
  have z2: "f2 i = 0" if "16 \<le> i" for i using that by (simp add: f2_def pairs_def z1)
  have z3: "f3 i = 0" if "8 \<le> i" for i using that by (simp add: f3_def pairs_def z2)
  have z4: "f4 i = 0" if "8 \<le> i" for i using that by (simp add: f4_def z3)
  have z5: "f5 i = 0" if "8 \<le> i" for i using that by (simp add: f5_def z4)
  have lt: "f0 i < 2 ^ 1" "f1 i < 2 ^ 2" "f2 i < 2 ^ 4" "f3 i < 2 ^ 8" "f4 i < 2 ^ 8" "f5 i < 2 ^ 8" for i
    using b [of i] by simp_all
  have x0: "x = of_nat (fields 1 f0 (2 * 32))"
    using word_bit_fields [of x] by (simp add: f0_def [abs_def])
  define x1 where "x1 = (drop_bit 1 x AND m0) + (x AND m0)"
  have x1: "x1 = of_nat (fields 2 f1 (2 * 16))"
    unfolding x1_def f1_def
    using pair_step [of f0 1 32 m0 x, OF lt(1) _ _ _ _ x0] z m0_bits by simp
  define x2 where "x2 = (drop_bit 2 x1 AND m1) + (x1 AND m1)"
  have x2: "x2 = of_nat (fields 4 f2 (2 * 8))"
    unfolding x2_def f2_def
    using pair_step [of f1 2 16 m1 x1, OF lt(2)] z1 m1_bits x1 by simp
  define x3 where "x3 = (drop_bit 4 x2 + x2) AND m2"
  have "x2 + drop_bit 4 x2 = of_nat (fields 4 (\<lambda>i. f2 i + f2 (i + 1)) (2 * 8))"
    using shift_step [of f2 4 16 x2 1, OF lt(3)] z2 x2 by simp
  moreover have "f2 i + f2 (i + 1) < 2 ^ 4" for i using b(3) [of i] b(3) [of "i + 1"] by simp
  ultimately have x3: "x3 = of_nat (fields 8 f3 8)"
    using mask_fields_even [of "\<lambda>i. f2 i + f2 (i + 1)" 4 8 m2] m2_bits
    by (simp add: x3_def f3_def pairs_def [abs_def] add.commute)
  define x4 where "x4 = x3 + drop_bit 8 x3"
  have x4: "x4 = of_nat (fields 8 f4 8)"
    unfolding x4_def f4_def
    using shift_step [of f3 8 8 x3 1, OF lt(4)] z3 x3 by simp
  define x5 where "x5 = x4 + drop_bit 16 x4"
  have x5: "x5 = of_nat (fields 8 f5 8)"
    unfolding x5_def f5_def
    using shift_step [of f4 8 8 x4 2, OF lt(5)] z4 x4 by simp
  define x6 where "x6 = x5 + drop_bit 32 x5"
  have x6: "x6 = of_nat (fields 8 f6 8)"
    unfolding x6_def f6_def
    using shift_step [of f5 8 8 x5 4, OF lt(6)] z5 x5 by simp
  have "OnesCount64 x = unat (x6 AND mask 7)"
    by (simp only: OnesCount64_def Let_def x1_def x2_def x3_def x4_def x5_def x6_def
        mask_eq_exp_minus_1 and.right_neutral)
  also have "\<dots> = fields 8 f6 8 mod 2 ^ 7"
  proof -
    have "unat (x6 AND mask 7) = take_bit 7 (unat x6)"
      by (simp only: unsigned_take_bit_eq flip: take_bit_eq_mask)
    then show ?thesis by (simp add: x6 unat_of_nat take_bit_eq_mod mod_mod_cancel)
  qed
  also have "\<dots> = f6 0"
  proof -
    have "fields 8 f6 8 = f6 0 + 2 ^ 7 * (2 * fields 8 (\<lambda>i. f6 (Suc i)) 7)"
      using fields_Suc [of 8 f6 7] by simp
    then show ?thesis using b(7) [of 0] by (simp only: mod_mult_self2) simp
  qed
  also have "\<dots> = (\<Sum>i<8. f3 i)"
    by (simp add: f6_def f5_def f4_def lessThan_nat_numeral lessThan_Suc numeral_eq_Suc)
  also have "\<dots> = (\<Sum>i<64. f0 i)"
    using sum_pairs [of f2 8] sum_pairs [of f1 16] sum_pairs [of f0 32] by (simp add: f1_def f2_def f3_def)
  finally show ?thesis by (simp add: f0_def)
qed

lemma OnesCount64_card: "OnesCount64 x = card {i. bit x i}"
proof -
  have "{i. bit x i} = {i \<in> {..<64}. bit x i}" by (auto dest: bit_imp_le_length)
  then show ?thesis by (simp add: OnesCount64_eq sum.inter_filter [symmetric] of_bool_def)
qed

subsection \<open>Byte swap\<close>

lemma bits_of_masks:
  "n < 64 \<Longrightarrow> bit (0x00ff00ff00ff00ff :: uint64) n \<longleftrightarrow> n mod 16 < 8"
  "n < 64 \<Longrightarrow> bit (0x0000ffff0000ffff :: uint64) n \<longleftrightarrow> n mod 32 < 16"
  "n < 64 \<Longrightarrow> bit (0x00000000ffffffff :: uint64) n \<longleftrightarrow> n < 32"
proof -
  have "\<forall>n \<in> set [0..<64]. (bit (0x00ff00ff00ff00ff :: uint64) n \<longleftrightarrow> n mod 16 < 8) \<and>
      (bit (0x0000ffff0000ffff :: uint64) n \<longleftrightarrow> n mod 32 < 16) \<and>
      (bit (0x00000000ffffffff :: uint64) n \<longleftrightarrow> n < 32)"
    by (simp add: upt_rec bit_numeral_rec)
  then show "n < 64 \<Longrightarrow> bit (0x00ff00ff00ff00ff :: uint64) n \<longleftrightarrow> n mod 16 < 8"
    "n < 64 \<Longrightarrow> bit (0x0000ffff0000ffff :: uint64) n \<longleftrightarrow> n mod 32 < 16"
    "n < 64 \<Longrightarrow> bit (0x00000000ffffffff :: uint64) n \<longleftrightarrow> n < 32" by simp_all
qed

text \<open>One stage swaps neighbouring groups of \<open>w\<close> bits.\<close>

definition swap_stage :: "nat \<Rightarrow> uint64 \<Rightarrow> uint64 \<Rightarrow> uint64" where
  "swap_stage w c x = (drop_bit w x AND c) OR push_bit w (x AND c)"

lemma bit_swap_stage:
  assumes c: "\<And>n. n < 64 \<Longrightarrow> bit c n \<longleftrightarrow> n mod (2 * w) < w" and w: "w > 0" "2 * w * m = 64"
    and n: "n < 64"
  shows "bit (swap_stage w c x) n \<longleftrightarrow> bit x (if n mod (2 * w) < w then n + w else n - w)"
proof -
  define q r where "q = n div (2 * w)" and "r = n mod (2 * w)"
  have e: "n = q * (2 * w) + r" unfolding q_def r_def by (rule div_mult_mod_eq [symmetric])
  have r: "r < 2 * w" using w by (simp add: r_def)
  have q: "q < m"
  proof (rule ccontr)
    assume "\<not> q < m"
    then have "m * (2 * w) \<le> q * (2 * w)" by (intro mult_le_mono1) simp
    moreover have "m * (2 * w) = 64" using w(2) by (simp only: mult.commute)
    ultimately show False using n e by linarith
  qed
  have cn: "bit c n \<longleftrightarrow> r < w" using c [OF n] by (simp only: r_def)
  have "bit (swap_stage w c x) n \<longleftrightarrow> bit x (if r < w then n + w else n - w)"
  proof (cases "r < w")
    case True
    have "n + w < q * (2 * w) + 2 * w" using True e by simp
    also have "\<dots> \<le> m * (2 * w)" using q by (metis add.commute mult_Suc mult_le_mono1 Suc_leI)
    finally have nw: "n + w < 64" using w by (simp add: ac_simps)
    have "\<not> bit c (n - w) \<or> n < w"
    proof (cases "n < w")
      case False
      with True e have "q \<noteq> 0" by (cases q) auto
      then obtain p where "q = Suc p" by (cases q) auto
      with e True have "n - w = p * (2 * w) + (w + r)" by simp
      then have "(n - w) mod (2 * w) = w + r" using True by simp
      then show ?thesis using c [of "n - w"] n by simp
    qed simp
    then show ?thesis using True n nw cn
      by (auto simp: swap_stage_def bit_simps add.commute)
  next
    case False
    then have "n - w = q * (2 * w) + (r - w)" "w \<le> n" using e by simp_all
    moreover from this(1) have "(n - w) mod (2 * w) = r - w" using r by simp
    ultimately show ?thesis using False n cn c [of "n - w"] r
      by (auto simp: swap_stage_def bit_simps)
  qed
  then show ?thesis by (simp only: r_def)
qed

lemma Bswap64_stages:
  "Bswap64 x = swap_stage 32 0xffffffff (swap_stage 16 0x0000ffff0000ffff (swap_stage 8 0x00ff00ff00ff00ff x))"
  by (simp only: Bswap64_def swap_stage_def Let_def)

text \<open>Bit \<open>n\<close> of the swapped word is the bit of the same place in the mirrored byte.\<close>

lemma bit_Bswap64:
  assumes n: "n < 64"
  shows "bit (Bswap64 x) n \<longleftrightarrow> bit x (8 * (7 - n div 8) + n mod 8)"
proof -
  define s where "s = (\<lambda>w n::nat. if n mod (2 * w) < w then n + w else n - w)"
  have 8: "bit (swap_stage 8 0x00ff00ff00ff00ff x) k \<longleftrightarrow> bit x (s 8 k)" if "k < 64" for k x
    using bit_swap_stage [of "0x00ff00ff00ff00ff" 8 4 k x] bits_of_masks(1) that by (simp add: s_def)
  have 16: "bit (swap_stage 16 0x0000ffff0000ffff x) k \<longleftrightarrow> bit x (s 16 k)" if "k < 64" for k x
    using bit_swap_stage [of "0x0000ffff0000ffff" 16 2 k x] bits_of_masks(2) that by (simp add: s_def)
  have 32: "bit (swap_stage 32 0xffffffff x) k \<longleftrightarrow> bit x (s 32 k)" if "k < 64" for k x
    using bit_swap_stage [of "0xffffffff" 32 1 k x] bits_of_masks(3) that by (simp add: s_def)
  have "\<forall>n \<in> set [0..<64]. s 32 n < 64 \<and> s 16 (s 32 n) < 64 \<and>
      s 8 (s 16 (s 32 n)) = 8 * (7 - n div 8) + n mod 8"
    by (simp add: upt_rec s_def)
  with n have "s 32 n < 64" "s 16 (s 32 n) < 64" "s 8 (s 16 (s 32 n)) = 8 * (7 - n div 8) + n mod 8"
    by auto
  then show ?thesis by (simp add: Bswap64_stages 8 16 32 n)
qed

lemma Bswap64_involution: "Bswap64 (Bswap64 x) = x"
proof (rule bit_word_eqI)
  fix n assume "n < LENGTH(64)"
  then have n: "n < 64" by simp
  define k where "k = 8 * (7 - n div 8) + n mod 8"
  have "n div 8 \<le> 7" using n by simp
  then have k: "k < 64" "k div 8 = 7 - n div 8" "k mod 8 = n mod 8" by (auto simp: k_def)
  then have "8 * (7 - k div 8) + k mod 8 = n" using \<open>n div 8 \<le> 7\<close> by simp
  then show "bit (Bswap64 (Bswap64 x)) n = bit x n"
    using n k(1) by (simp add: bit_Bswap64 flip: k_def)
qed
end
