(* ===== verification/PageBits.thy ===== *)
theory PageBits
  imports Prelude Sys
begin

text \<open>
  The bitmap of one palloc chunk, the first half of \<open>runtime/mpallocbits.go\<close>: \<open>pageBits\<close> and its
  methods.  \<open>pageBits\<close> is the array \<open>[pallocChunkPages / 64]uint64\<close>; here a list with the
  invariant \<open>pageBits_ok\<close> (eight words).  The abstraction \<open>pages\<close> is the set of page numbers whose
  bit is 1, and each method is shown to act on that set as its comment says.
\<close>

subsection \<open>The bitmap and its methods\<close>

definition pallocChunkPages :: uint where
  "pallocChunkPages = 512"

type_synonym pageBits = "uint64 list"

definition pageBits_ok :: "pageBits \<Rightarrow> bool" where
  "pageBits_ok b \<longleftrightarrow> length b = unat pallocChunkPages div 64"

definition get :: "pageBits \<Rightarrow> uint \<Rightarrow> uint go" where
  "get b i = do { x \<leftarrow> idx b (i div 64); Some (drop_bit (unat (i mod 64)) x AND 1) }"

definition block64 :: "pageBits \<Rightarrow> uint \<Rightarrow> uint64 go" where
  "block64 b i = idx b (i div 64)"

definition pset :: "pageBits \<Rightarrow> uint \<Rightarrow> pageBits go" where
  "pset b i = modify b (i div 64) (\<lambda>x. x OR push_bit (unat (i mod 64)) 1)"

text \<open>The loop \<open>for k := i/64 + 1; k < j/64; k++\<close> of \<open>setRange\<close>.\<close>

function setRange_loop :: "pageBits \<Rightarrow> uint \<Rightarrow> uint \<Rightarrow> pageBits go" where
  "setRange_loop b k e =
     (if k < e then do { b \<leftarrow> upd b k (NOT 0); setRange_loop b (k + 1) e } else Some b)"
  by pat_completeness auto
termination
  by (relation "measure (\<lambda>(b, k, e). unat e - unat k)")
    (auto simp: unat_plus_one word_less_nat_alt)

definition setRange :: "pageBits \<Rightarrow> uint \<Rightarrow> uint \<Rightarrow> pageBits go" where
  "setRange b i n = do {
     _ \<leftarrow> idx b (i div 64);
     if n = 1 then pset b i
     else let j = i + n - 1 in
       if i div 64 = j div 64
       then modify b (i div 64) (\<lambda>x. x OR push_bit (unat (i mod 64)) (push_bit (unat n) 1 - 1))
       else do {
         _ \<leftarrow> idx b (j div 64);
         b \<leftarrow> modify b (i div 64) (\<lambda>x. x OR push_bit (unat (i mod 64)) (NOT 0));
         b \<leftarrow> setRange_loop b (i div 64 + 1) (j div 64);
         modify b (j div 64) (\<lambda>x. x OR (push_bit (unat (j mod 64 + 1)) 1 - 1))
       }
   }"

definition setAll :: "pageBits \<Rightarrow> pageBits" where
  "setAll b = map (\<lambda>_. NOT 0) b"

definition setBlock64 :: "pageBits \<Rightarrow> uint \<Rightarrow> uint64 \<Rightarrow> pageBits go" where
  "setBlock64 b i v = modify b (i div 64) (\<lambda>x. x OR v)"

definition pclear :: "pageBits \<Rightarrow> uint \<Rightarrow> pageBits go" where
  "pclear b i = modify b (i div 64) (\<lambda>x. x AND NOT (push_bit (unat (i mod 64)) 1))"

text \<open>\<open>clear(b[lo:hi])\<close>: the slice expression checks its bounds, then the words are zeroed.\<close>

definition clear_slice :: "pageBits \<Rightarrow> uint \<Rightarrow> uint \<Rightarrow> pageBits go" where
  "clear_slice b lo hi =
     (if unat lo \<le> unat hi \<and> unat hi \<le> length b
      then Some (take (unat lo) b @ replicate (unat hi - unat lo) 0 @ drop (unat hi) b)
      else None)"

definition clearRange :: "pageBits \<Rightarrow> uint \<Rightarrow> uint \<Rightarrow> pageBits go" where
  "clearRange b i n = do {
     _ \<leftarrow> idx b (i div 64);
     if n = 1 then pclear b i
     else let j = i + n - 1 in
       if i div 64 = j div 64
       then modify b (i div 64) (\<lambda>x. x AND NOT (push_bit (unat (i mod 64)) (push_bit (unat n) 1 - 1)))
       else do {
         _ \<leftarrow> idx b (j div 64);
         b \<leftarrow> modify b (i div 64) (\<lambda>x. x AND NOT (push_bit (unat (i mod 64)) (NOT 0)));
         b \<leftarrow> clear_slice b (i div 64 + 1) (j div 64);
         modify b (j div 64) (\<lambda>x. x AND NOT (push_bit (unat (j mod 64 + 1)) 1 - 1))
       }
   }"

definition clearAll :: "pageBits \<Rightarrow> pageBits" where
  "clearAll b = map (\<lambda>_. 0) b"

definition clearBlock64 :: "pageBits \<Rightarrow> uint \<Rightarrow> uint64 \<Rightarrow> pageBits go" where
  "clearBlock64 b i v = modify b (i div 64) (\<lambda>x. x AND NOT v)"

function popcntRange_loop :: "pageBits \<Rightarrow> uint \<Rightarrow> uint \<Rightarrow> uint \<Rightarrow> uint go" where
  "popcntRange_loop b k e s =
     (if k < e then do { x \<leftarrow> idx b k; popcntRange_loop b (k + 1) e (s + of_nat (OnesCount64 x)) }
      else Some s)"
  by pat_completeness auto
termination
  by (relation "measure (\<lambda>(b, k, e, s). unat e - unat k)")
    (auto simp: unat_plus_one word_less_nat_alt)

definition popcntRange :: "pageBits \<Rightarrow> uint \<Rightarrow> uint \<Rightarrow> uint go" where
  "popcntRange b i n =
     (if n = 1 then do { x \<leftarrow> idx b (i div 64); Some (drop_bit (unat (i mod 64)) x AND 1) }
      else do {
        x \<leftarrow> idx b (i div 64);
        let j = i + n - 1;
        if i div 64 = j div 64
        then Some (of_nat (OnesCount64 (drop_bit (unat (i mod 64)) x AND (push_bit (unat n) 1 - 1))))
        else do {
          y \<leftarrow> idx b (j div 64);
          let s = of_nat (OnesCount64 (drop_bit (unat (i mod 64)) x));
          s \<leftarrow> popcntRange_loop b (i div 64 + 1) (j div 64) s;
          Some (s + of_nat (OnesCount64 (y AND (push_bit (unat (j mod 64 + 1)) 1 - 1))))
        }
      })"

declare setRange_loop.simps [simp del] popcntRange_loop.simps [simp del]


subsection \<open>Abstraction: the set of pages whose bit is set\<close>

definition pb_bit :: "pageBits \<Rightarrow> nat \<Rightarrow> bool" where
  "pb_bit b k \<longleftrightarrow> bit (b ! (k div 64)) (k mod 64)"

definition pages :: "pageBits \<Rightarrow> nat set" where
  "pages b = {k. k < 512 \<and> pb_bit b k}"

text \<open>The pages of a range that starts at \<open>i\<close> and has \<open>n\<close> pages.\<close>

abbreviation page_range :: "uint \<Rightarrow> uint \<Rightarrow> nat set" where
  "page_range i n \<equiv> {unat i ..< unat i + unat n}"

abbreviation in_chunk :: "uint \<Rightarrow> uint \<Rightarrow> bool" where
  "in_chunk i n \<equiv> 0 < n \<and> unat i + unat n \<le> 512"

lemma pageBits_ok_length: "pageBits_ok b \<longleftrightarrow> length b = 8"
  by (simp add: pageBits_ok_def pallocChunkPages_def)

lemma pages_subset: "pages b \<subseteq> {..<512}"
  by (auto simp: pages_def)

lemma finite_pages [simp]: "finite (pages b)"
  using pages_subset by (rule finite_subset) simp

lemma in_pages_iff: "k \<in> pages b \<longleftrightarrow> k < 512 \<and> bit (b ! (k div 64)) (k mod 64)"
  by (simp add: pages_def pb_bit_def)

text \<open>Two bitmaps with the same pages are the same bitmap.\<close>

lemma pages_inject:
  assumes "pageBits_ok b" "pageBits_ok c" "pages b = pages c"
  shows "b = c"
proof (rule nth_equalityI)
  show "length b = length c" using assms by (simp add: pageBits_ok_length)
  fix w assume w: "w < length b"
  show "b ! w = c ! w"
  proof (rule bit_word_eqI)
    fix r assume "r < LENGTH(64)"
    then have "(w * 64 + r) div 64 = w" "(w * 64 + r) mod 64 = r" "w * 64 + r < 512"
      using w assms by (simp_all add: pageBits_ok_length)
    moreover have "w * 64 + r \<in> pages b \<longleftrightarrow> w * 64 + r \<in> pages c" using assms(3) by simp
    ultimately show "bit (b ! w) r = bit (c ! w) r" by (simp add: in_pages_iff)
  qed
qed

text \<open>
  Every range operation of \<open>pageBits\<close> combines each word with one word of a mask: all ones from
  \<open>i mod 64\<close> on in the first word, up to \<open>j mod 64\<close> in the last, and all ones in between.
\<close>

definition range_mask :: "nat \<Rightarrow> nat \<Rightarrow> nat \<Rightarrow> uint64" where
  "range_mask i j w =
     (if w = i div 64 \<and> w = j div 64 then push_bit (i mod 64) (mask (j + 1 - i))
      else if w = i div 64 then push_bit (i mod 64) (NOT 0)
      else if w = j div 64 then mask (j mod 64 + 1)
      else if i div 64 < w \<and> w < j div 64 then NOT 0 else 0)"

lemma range_mask_bit:
  assumes "i \<le> j" "r < 64"
  shows "bit (range_mask i j w) r \<longleftrightarrow> i \<le> w * 64 + r \<and> w * 64 + r \<le> j"
proof -
  define I ir J jr where "I = i div 64" and "ir = i mod 64" and "J = j div 64" and "jr = j mod 64"
  have i: "i = I * 64 + ir" "ir < 64" and j: "j = J * 64 + jr" "jr < 64"
    by (simp_all add: I_def ir_def J_def jr_def)
  have "I < J \<or> I = J \<and> ir \<le> jr"
    using assms(1) le_block64 [of i j] by (simp add: I_def ir_def J_def jr_def)
  moreover have "i \<le> w * 64 + r \<longleftrightarrow> I < w \<or> I = w \<and> ir \<le> r"
    using assms(2) le_block64 [of i "w * 64 + r"] by (simp add: I_def ir_def)
  moreover have "w * 64 + r \<le> j \<longleftrightarrow> w < J \<or> w = J \<and> r \<le> jr"
    using assms(2) le_block64 [of "w * 64 + r" j] by (simp add: J_def jr_def)
  moreover have "j + 1 - i = jr + 1 - ir" if "I = J" using that i j by simp
  ultimately show ?thesis using assms(2) i(2) j(2)
    by (auto simp: range_mask_def bit_simps simp flip: I_def ir_def J_def jr_def)
qed

lemma in_range_mask:
  assumes "in_chunk i n"
  shows "bit (range_mask (unat i) (unat (i + n - 1)) (k div 64)) (k mod 64) \<longleftrightarrow> k \<in> page_range i n"
    and "unat (i + n - 1) = unat i + unat n - 1" and "unat (i + n - 1) < 512" and "unat n > 0"
proof -
  from assms show n: "unat n > 0" by (simp add: unat_gt_0 word_greater_zero_iff)
  have "unat (i + n) = unat i + unat n" using assms by (intro unat_add_small) simp
  then show j: "unat (i + n - 1) = unat i + unat n - 1"
    using n by (subst unat_sub_small) simp_all
  from assms have "unat i + unat n \<le> 512" by simp
  with n j show "unat (i + n - 1) < 512" by linarith
  show "bit (range_mask (unat i) (unat (i + n - 1)) (k div 64)) (k mod 64) \<longleftrightarrow> k \<in> page_range i n"
    using n range_mask_bit [of "unat i" "unat (i + n - 1)" "k mod 64" "k div 64"] by (auto simp: j)
qed

subsection \<open>Setting and clearing ranges\<close>

lemma setRange_loop_spec:
  "unat e \<le> length b \<Longrightarrow> setRange_loop b k e =
     Some (map (\<lambda>w. if unat k \<le> w \<and> w < unat e then - 1 else b ! w) [0..<length b])"
proof (induction b k e rule: setRange_loop.induct)
  case (1 b k e)
  show ?case
  proof (cases "k < e")
    case True
    then have k: "unat k < length b" "unat (k + 1) = unat k + 1" "unat k < unat e"
      using "1.prems" by (simp_all add: unat_plus_one word_less_nat_alt)
    then have "setRange_loop b k e = setRange_loop (b[unat k := - 1]) (k + 1) e"
      using True by (subst setRange_loop.simps) (simp add: go_access)
    also have "\<dots> = Some (map (\<lambda>w. if unat k + 1 \<le> w \<and> w < unat e then - 1 else b[unat k := - 1] ! w)
        [0..<length b])"
      using "1.IH" [OF True, of "b[unat k := - 1]"] "1.prems" k by (simp add: go_access)
    also have "\<dots> = Some (map (\<lambda>w. if unat k \<le> w \<and> w < unat e then - 1 else b ! w) [0..<length b])"
      using k by (auto simp: nth_list_update)
    finally show ?thesis .
  next
    case False
    then have "map (\<lambda>w. if unat k \<le> w \<and> w < unat e then - 1 else b ! w) [0..<length b] = b"
      by (intro nth_equalityI) (auto simp: word_less_nat_alt)
    with False show ?thesis by (subst setRange_loop.simps) simp
  qed
qed

text \<open>Word by word, \<open>setRange\<close> and \<open>clearRange\<close> apply the range mask.\<close>

lemma setRange_mask:
  assumes "pageBits_ok b" "in_chunk i n"
  shows "setRange b i n =
    Some (map (\<lambda>w. b ! w OR range_mask (unat i) (unat (i + n - 1)) w) [0..<8])"
proof -
  define j where "j = i + n - 1"
  have "unat j = unat i + unat n - 1" "unat n > 0"
    using in_range_mask [OF assms(2)] by (simp_all add: j_def)
  then have j: "unat i \<le> unat j" "unat n = unat j + 1 - unat i" by simp_all
  have j8: "unat j div 64 < 8" using in_range_mask(3) [OF assms(2)] by (simp add: j_def)
  have b: "length b = 8" using assms by (simp add: pageBits_ok_length)
  have i: "unat i div 64 < 8" using div_le_mono [OF j(1)] j8 by (rule le_less_trans)
  have ij: "unat i div 64 \<le> unat j div 64" using j by (simp add: div_le_mono)
  have j1: "unat (j mod 64 + 1) = unat j mod 64 + 1"
    by (subst unat_add_small) (simp_all add: unat_mod64 less_imp_le_nat)
  have i1: "unat (i div 64 + 1) = unat i div 64 + 1"
    using i by (subst unat_add_small) (simp_all add: unat_div64)
  note simps = go_access unat_div64 unat_mod64 range_mask_def mask_eq_decr_exp nth_list_update b i j8 less_imp_le [OF j8]
  consider (one) "n = 1" | (same) "n \<noteq> 1" "i div 64 = j div 64" | (many) "n \<noteq> 1" "i div 64 \<noteq> j div 64"
    by blast
  then show ?thesis
  proof cases
    case one
    then have "j = i" by (simp add: j_def)
    then show ?thesis using one
      by (auto simp: setRange_def pset_def simps simp flip: j_def intro!: nth_equalityI)
  next
    case same
    then have "unat i div 64 = unat j div 64" by (metis unat_div64)
    then show ?thesis using same j(2)
      by (auto simp: setRange_def Let_def simps simp flip: j_def intro!: nth_equalityI)
  next
    case many
    then have "unat i div 64 \<noteq> unat j div 64" by (metis unat_div64 word_unat_eq_iff)
    with ij have "unat i div 64 < unat j div 64" by simp
    then show ?thesis using many j1 i1
      by (auto simp: setRange_def Let_def simps setRange_loop_spec simp flip: j_def intro!: nth_equalityI)
  qed
qed

lemma clear_slice_map:
  "unat lo \<le> unat hi \<Longrightarrow> unat hi \<le> length b \<Longrightarrow> clear_slice b lo hi =
     Some (map (\<lambda>w. if unat lo \<le> w \<and> w < unat hi then 0 else b ! w) [0..<length b])"
  by (auto simp: clear_slice_def nth_append intro!: nth_equalityI)

lemma clearRange_mask:
  assumes "pageBits_ok b" "in_chunk i n"
  shows "clearRange b i n =
    Some (map (\<lambda>w. b ! w AND NOT (range_mask (unat i) (unat (i + n - 1)) w)) [0..<8])"
proof -
  define j where "j = i + n - 1"
  have "unat j = unat i + unat n - 1" "unat n > 0"
    using in_range_mask [OF assms(2)] by (simp_all add: j_def)
  then have j: "unat i \<le> unat j" "unat n = unat j + 1 - unat i" by simp_all
  have j8: "unat j div 64 < 8" using in_range_mask(3) [OF assms(2)] by (simp add: j_def)
  have b: "length b = 8" using assms by (simp add: pageBits_ok_length)
  have i: "unat i div 64 < 8" using div_le_mono [OF j(1)] j8 by (rule le_less_trans)
  have ij: "unat i div 64 \<le> unat j div 64" using j by (simp add: div_le_mono)
  have j1: "unat (j mod 64 + 1) = unat j mod 64 + 1"
    by (subst unat_add_small) (simp_all add: unat_mod64 less_imp_le_nat)
  have i1: "unat (i div 64 + 1) = unat i div 64 + 1"
    using i by (subst unat_add_small) (simp_all add: unat_div64)
  note simps = go_access unat_div64 unat_mod64 range_mask_def mask_eq_decr_exp nth_list_update b i j8
    less_imp_le [OF j8]
  consider (one) "n = 1" | (same) "n \<noteq> 1" "i div 64 = j div 64" | (many) "n \<noteq> 1" "i div 64 \<noteq> j div 64"
    by blast
  then show ?thesis
  proof cases
    case one
    then have "j = i" by (simp add: j_def)
    then show ?thesis using one
      by (auto simp: clearRange_def pclear_def simps simp flip: j_def intro!: nth_equalityI)
  next
    case same
    then have "unat i div 64 = unat j div 64" by (metis unat_div64)
    then show ?thesis using same j(2)
      by (auto simp: clearRange_def Let_def simps simp flip: j_def intro!: nth_equalityI)
  next
    case many
    then have "unat i div 64 \<noteq> unat j div 64" by (metis unat_div64 word_unat_eq_iff)
    with ij have "unat i div 64 < unat j div 64" by simp
    then show ?thesis using many j1 i1
      by (auto simp: clearRange_def Let_def simps clear_slice_map simp flip: j_def intro!: nth_equalityI)
  qed
qed

lemma pages_map_word:
  assumes "\<And>k. k < 512 \<Longrightarrow> bit (f (k div 64)) (k mod 64) \<longleftrightarrow> P k"
  shows "pages (map f [0..<8]) = {k. k < 512 \<and> P k}"
  using assms by (auto simp: in_pages_iff)

text \<open>\<open>setRange\<close> and \<open>clearRange\<close> on a range inside the chunk: they return, and exactly the pages
  of the range change.\<close>

lemma setRange_pages:
  assumes "pageBits_ok b" "in_chunk i n"
  shows "\<exists>b'. setRange b i n = Some b' \<and> pageBits_ok b' \<and> pages b' = pages b \<union> page_range i n"
proof -
  have "pages (map (\<lambda>w. b ! w OR range_mask (unat i) (unat (i + n - 1)) w) [0..<8]) =
      {k. k < 512 \<and> (k \<in> pages b \<or> k \<in> page_range i n)}"
    using in_range_mask(1) [OF assms(2)] by (intro pages_map_word) (auto simp: bit_or_iff in_pages_iff)
  also have "\<dots> = pages b \<union> page_range i n" using assms(2) pages_subset by fastforce
  finally show ?thesis using setRange_mask [OF assms] by (simp add: pageBits_ok_length)
qed

lemma clearRange_pages:
  assumes "pageBits_ok b" "in_chunk i n"
  shows "\<exists>b'. clearRange b i n = Some b' \<and> pageBits_ok b' \<and> pages b' = pages b - page_range i n"
proof -
  have "pages (map (\<lambda>w. b ! w AND NOT (range_mask (unat i) (unat (i + n - 1)) w)) [0..<8]) =
      {k. k < 512 \<and> (k \<in> pages b \<and> k \<notin> page_range i n)}"
    using in_range_mask(1) [OF assms(2)]
    by (intro pages_map_word) (auto simp: bit_and_iff bit_not_iff in_pages_iff)
  also have "\<dots> = pages b - page_range i n" using pages_subset by fastforce
  finally show ?thesis using clearRange_mask [OF assms] by (simp add: pageBits_ok_length)
qed

lemma pset_pages:
  assumes "pageBits_ok b" "unat i < 512"
  shows "\<exists>b'. pset b i = Some b' \<and> pageBits_ok b' \<and> pages b' = insert (unat i) (pages b)"
proof -
  have c: "in_chunk i 1" using assms by simp
  have "setRange b i 1 = pset b i"
    using assms by (simp add: setRange_def go_access unat_div64 pageBits_ok_length)
  then show ?thesis using setRange_pages [OF assms(1) c] by simp
qed

lemma pclear_pages:
  assumes "pageBits_ok b" "unat i < 512"
  shows "\<exists>b'. pclear b i = Some b' \<and> pageBits_ok b' \<and> pages b' = pages b - {unat i}"
proof -
  have c: "in_chunk i 1" using assms by simp
  have "clearRange b i 1 = pclear b i"
    using assms by (simp add: clearRange_def go_access unat_div64 pageBits_ok_length)
  then show ?thesis using clearRange_pages [OF assms(1) c] by simp
qed

lemma setAll_pages: "pageBits_ok b \<Longrightarrow> pageBits_ok (setAll b) \<and> pages (setAll b) = {..<512}"
  by (auto simp: setAll_def pageBits_ok_length in_pages_iff)

lemma clearAll_pages: "pageBits_ok b \<Longrightarrow> pageBits_ok (clearAll b) \<and> pages (clearAll b) = {}"
  by (auto simp: clearAll_def pageBits_ok_length in_pages_iff)

lemma block_less: "(w::nat) < 8 \<Longrightarrow> r < 64 \<Longrightarrow> w * 64 + r < 512"
  by simp

text \<open>The pages of the aligned block of 64 that contains page \<open>i\<close>, as selected by \<open>v\<close>.\<close>

definition block_pages :: "uint \<Rightarrow> uint64 \<Rightarrow> nat set" where
  "block_pages i v = {unat i div 64 * 64 + r | r. r < 64 \<and> bit v r}"

lemma in_block_pages: "k \<in> block_pages i v \<longleftrightarrow> k div 64 = unat i div 64 \<and> bit v (k mod 64)"
proof
  assume "k \<in> block_pages i v"
  then obtain r where "k = unat i div 64 * 64 + r" "r < 64" "bit v r" by (auto simp: block_pages_def)
  then show "k div 64 = unat i div 64 \<and> bit v (k mod 64)" by simp
next
  assume *: "k div 64 = unat i div 64 \<and> bit v (k mod 64)"
  then have "k = unat i div 64 * 64 + k mod 64" by (metis div_mult_mod_eq)
  with * show "k \<in> block_pages i v" unfolding block_pages_def by (intro CollectI exI [of _ "k mod 64"]) simp
qed

lemma setBlock64_pages:
  assumes "pageBits_ok b" "unat i < 512"
  shows "\<exists>b'. setBlock64 b i v = Some b' \<and> pageBits_ok b' \<and> pages b' = pages b \<union> block_pages i v"
proof -
  have i: "unat i div 64 < 8" using assms(2) by simp
  then have "k < 512" if "k div 64 = unat i div 64" for k using that by simp
  then show ?thesis using assms(1) i
    by (auto simp: setBlock64_def go_access unat_div64 pageBits_ok_length in_pages_iff in_block_pages
        nth_list_update bit_or_iff split: if_splits)
qed

lemma clearBlock64_pages:
  assumes "pageBits_ok b" "unat i < 512"
  shows "\<exists>b'. clearBlock64 b i v = Some b' \<and> pageBits_ok b' \<and> pages b' = pages b - block_pages i v"
proof -
  have i: "unat i div 64 < 8" using assms(2) by simp
  then have "k < 512" if "k div 64 = unat i div 64" for k using that by simp
  then show ?thesis using assms(1) i
    by (auto simp: clearBlock64_def go_access unat_div64 pageBits_ok_length in_pages_iff in_block_pages
        nth_list_update bit_and_iff bit_not_iff split: if_splits)
qed

lemma get_pages:
  assumes "pageBits_ok b" "unat i < 512"
  shows "get b i = Some (of_bool (unat i \<in> pages b))"
proof -
  have "drop_bit n x AND 1 = of_bool (bit x n)" for n and x :: uint64
    by (rule bit_word_eqI) (auto simp: bit_simps)
  then show ?thesis using assms
    by (simp add: get_def go_access unat_div64 unat_mod64 pageBits_ok_length in_pages_iff)
qed

lemma block64_pages:
  assumes "pageBits_ok b" "unat i < 512"
  shows "\<exists>x. block64 b i = Some x \<and> (\<forall>r<64. bit x r \<longleftrightarrow> unat i div 64 * 64 + r \<in> pages b)"
proof -
  have "unat i div 64 < 8" using assms(2) by simp
  then show ?thesis using assms block_less [of "unat i div 64"] by (auto simp: block64_def go_access unat_div64 pageBits_ok_length in_pages_iff)
qed

subsection \<open>Counting the pages of a range\<close>

lemma card_block_split:
  fixes S :: "nat set"
  assumes "S \<subseteq> {..<512}"
  shows "card S = (\<Sum>w<8. card {r. r < 64 \<and> w * 64 + r \<in> S})"
proof -
  have "S = (\<Union>w<8. (\<lambda>r. w * 64 + r) ` {r. r < 64 \<and> w * 64 + r \<in> S})"
  proof (intro set_eqI iffI)
    fix k assume k: "k \<in> S"
    then have "k div 64 < 8" "k div 64 * 64 + k mod 64 = k" using assms by auto
    with k show "k \<in> (\<Union>w<8. (\<lambda>r. w * 64 + r) ` {r. r < 64 \<and> w * 64 + r \<in> S})"
      by (intro UN_I [of "k div 64"] image_eqI [of _ _ "k mod 64"]) auto
  qed auto
  then have "card S = card (\<Union>w<8. (\<lambda>r. w * 64 + r) ` {r. r < 64 \<and> w * 64 + r \<in> S})" by simp
  also have "\<dots> = (\<Sum>w<8. card ((\<lambda>r. w * 64 + r) ` {r. r < 64 \<and> w * 64 + r \<in> S}))"
    by (intro card_UN_disjoint) auto
  also have "\<dots> = (\<Sum>w<8. card {r. r < 64 \<and> w * 64 + r \<in> S})"
    by (intro sum.cong refl card_image) (auto simp: inj_on_def)
  finally show ?thesis .
qed

lemma popcntRange_loop_spec:
  "unat e \<le> length b \<Longrightarrow> popcntRange_loop b k e s =
     Some (s + of_nat (\<Sum>w\<in>{unat k..<unat e}. OnesCount64 (b ! w)))"
proof (induction b k e s rule: popcntRange_loop.induct)
  case (1 b k e s)
  show ?case
  proof (cases "k < e")
    case True
    then have k: "unat k < length b" "unat (k + 1) = unat k + 1" "unat k < unat e"
      using "1.prems" by (simp_all add: unat_plus_one word_less_nat_alt)
    then have "{unat k..<unat e} = insert (unat k) {unat k + 1..<unat e}" by auto
    then show ?thesis
      using "1.IH" [OF True, of "b ! unat k"] "1.prems" k True
      by (subst popcntRange_loop.simps) (simp add: go_access ac_simps)
  next
    case False
    then show ?thesis by (subst popcntRange_loop.simps) (simp add: word_less_nat_alt)
  qed
qed

lemma OnesCount64_shift: "OnesCount64 (drop_bit k x AND m) = OnesCount64 (x AND push_bit k m)"
proof -
  have "{r. bit (x AND push_bit k m) r} = (+) k ` {r. bit (drop_bit k x AND m) r}"
  proof (intro set_eqI iffI)
    fix r assume "r \<in> {r. bit (x AND push_bit k m) r}"
    then show "r \<in> (+) k ` {r. bit (drop_bit k x AND m) r}"
      by (intro image_eqI [of _ _ "r - k"]) (auto simp: bit_simps)
  qed (auto simp: bit_simps dest: bit_imp_le_length)
  then show ?thesis by (simp add: OnesCount64_card card_image)
qed

lemma OnesCount64_zero [simp]: "OnesCount64 0 = 0"
  by (simp add: OnesCount64_card)

lemma card_range_pages:
  assumes "pageBits_ok b" "in_chunk i n"
  shows "card (pages b \<inter> page_range i n) =
    (\<Sum>w<8. OnesCount64 (b ! w AND range_mask (unat i) (unat (i + n - 1)) w))"
proof -
  have "{r. r < 64 \<and> w * 64 + r \<in> pages b \<inter> page_range i n} =
      {r. bit (b ! w AND range_mask (unat i) (unat (i + n - 1)) w) r}" if "w < 8" for w
  proof (intro set_eqI)
    fix r
    show "r \<in> {r. r < 64 \<and> w * 64 + r \<in> pages b \<inter> page_range i n} \<longleftrightarrow>
        r \<in> {r. bit (b ! w AND range_mask (unat i) (unat (i + n - 1)) w) r}"
    proof (cases "r < 64")
      case True
      then show ?thesis using in_range_mask(1) [OF assms(2), of "w * 64 + r"] block_less [OF that True]
        by (auto simp: bit_and_iff in_pages_iff)
    qed (auto simp: bit_and_iff dest: bit_imp_le_length)
  qed
  then show ?thesis using pages_subset [of b]
    by (subst card_block_split) (auto simp: OnesCount64_card intro!: sum.cong)
qed

lemma popcntRange_pages:
  assumes "pageBits_ok b" "in_chunk i n"
  shows "popcntRange b i n = Some (of_nat (card (pages b \<inter> page_range i n)))"
proof -
  define j where "j = i + n - 1"
  define f where "f w = OnesCount64 (b ! w AND range_mask (unat i) (unat j) w)" for w
  have "unat j = unat i + unat n - 1" "unat n > 0"
    using in_range_mask [OF assms(2)] by (simp_all add: j_def)
  then have j: "unat i \<le> unat j" "unat n = unat j + 1 - unat i" by simp_all
  have j8: "unat j div 64 < 8" using in_range_mask(3) [OF assms(2)] by (simp add: j_def)
  have b: "length b = 8" using assms by (simp add: pageBits_ok_length)
  have i: "unat i div 64 < 8" using div_le_mono [OF j(1)] j8 by (rule le_less_trans)
  have ij: "unat i div 64 \<le> unat j div 64" using j by (simp add: div_le_mono)
  have j1: "unat (j mod 64 + 1) = unat j mod 64 + 1"
    by (subst unat_add_small) (simp_all add: unat_mod64 less_imp_le_nat)
  have i1: "unat (i div 64 + 1) = unat i div 64 + 1"
    using i by (subst unat_add_small) (simp_all add: unat_div64)
  note simps = go_access unat_div64 unat_mod64 mask_eq_decr_exp b i j8 less_imp_le [OF j8]
  have zero: "f w = 0" if "w < unat i div 64 \<or> unat j div 64 < w" for w
    using that ij by (auto simp: f_def range_mask_def)
  have sum: "(\<Sum>w<8. f w) = (\<Sum>w\<in>{unat i div 64..unat j div 64}. f w)"
    using i j8 zero by (intro sum.mono_neutral_right) auto
  have goal: "card (pages b \<inter> page_range i n) = (\<Sum>w\<in>{unat i div 64..unat j div 64}. f w)"
    using card_range_pages [OF assms] sum by (simp add: f_def flip: j_def)
  consider (one) "n = 1" | (same) "n \<noteq> 1" "i div 64 = j div 64" | (many) "n \<noteq> 1" "i div 64 \<noteq> j div 64"
    by blast
  then show ?thesis
  proof cases
    case one
    have "unat i < 512" using assms(2) one by simp
    then have "popcntRange b i n = get b i" "page_range i n = {unat i}"
      using one by (simp_all add: popcntRange_def get_def)
    then show ?thesis using get_pages [OF assms(1) \<open>unat i < 512\<close>] by simp
  next
    case same
    then have e: "unat i div 64 = unat j div 64" by (metis unat_div64)
    then have "f (unat j div 64) = OnesCount64 (drop_bit (unat i mod 64) (b ! (unat j div 64)) AND mask (unat n))"
      using j(2) by (simp add: f_def range_mask_def OnesCount64_shift)
    with e goal show ?thesis using same
      by (simp add: popcntRange_def Let_def simps flip: j_def)
  next
    case many
    then have "unat i div 64 \<noteq> unat j div 64" by (metis unat_div64 word_unat_eq_iff)
    with ij have lt: "unat i div 64 < unat j div 64" by simp
    then have "{unat i div 64..unat j div 64} =
        insert (unat i div 64) (insert (unat j div 64) {unat i div 64 + 1..<unat j div 64})" by auto
    then have "card (pages b \<inter> page_range i n) =
        f (unat i div 64) + (\<Sum>w\<in>{unat i div 64 + 1..<unat j div 64}. f w) + f (unat j div 64)"
      using goal lt by simp
    moreover have "f (unat i div 64) = OnesCount64 (drop_bit (unat i mod 64) (b ! (unat i div 64)))"
      using lt OnesCount64_shift [of "unat i mod 64" "b ! (unat i div 64)" "- 1"]
      by (simp add: f_def range_mask_def)
    moreover have "f (unat j div 64) = OnesCount64 (b ! (unat j div 64) AND mask (unat j mod 64 + 1))"
      using lt by (simp add: f_def range_mask_def)
    moreover have "(\<Sum>w\<in>{unat i div 64 + 1..<unat j div 64}. f w) =
        (\<Sum>w\<in>{unat i div 64 + 1..<unat j div 64}. OnesCount64 (b ! w))"
      by (intro sum.cong) (auto simp: f_def range_mask_def)
    ultimately show ?thesis using many j1 i1
      by (simp add: popcntRange_def Let_def simps popcntRange_loop_spec flip: j_def)
  qed
qed

subsection \<open>The interface a client of a chunk bitmap relies on\<close>

text \<open>
  What \<open>pallocBits\<close>, \<open>pallocData\<close> and the page allocator rely on: ranges can be set, cleared and
  counted, and the effect is the obvious one on the set \<open>used\<close>.  The lemmas of the block hold for
  every bitmap with these laws.
\<close>

locale chunk_bitmap =
  fixes ok :: "'b \<Rightarrow> bool" and used :: "'b \<Rightarrow> nat set"
    and set_range :: "'b \<Rightarrow> uint \<Rightarrow> uint \<Rightarrow> 'b go"
    and clear_range :: "'b \<Rightarrow> uint \<Rightarrow> uint \<Rightarrow> 'b go"
    and count :: "'b \<Rightarrow> uint \<Rightarrow> uint \<Rightarrow> uint go"
  assumes set_range: "ok b \<Longrightarrow> in_chunk i n \<Longrightarrow>
      \<exists>b'. set_range b i n = Some b' \<and> ok b' \<and> used b' = used b \<union> page_range i n"
    and clear_range: "ok b \<Longrightarrow> in_chunk i n \<Longrightarrow>
      \<exists>b'. clear_range b i n = Some b' \<and> ok b' \<and> used b' = used b - page_range i n"
    and count: "ok b \<Longrightarrow> in_chunk i n \<Longrightarrow> count b i n = Some (of_nat (card (used b \<inter> page_range i n)))"
    and determined: "ok b \<Longrightarrow> ok c \<Longrightarrow> used b = used c \<Longrightarrow> b = c"
begin

lemma set_then_clear:
  assumes "ok b" "in_chunk i n" "used b \<inter> page_range i n = {}"
  shows "Option.bind (set_range b i n) (\<lambda>b'. clear_range b' i n) = Some b"
proof -
  obtain b' where b': "set_range b i n = Some b'" "ok b'" "used b' = used b \<union> page_range i n"
    using set_range [OF assms(1,2)] by blast
  obtain c where c: "clear_range b' i n = Some c" "ok c" "used c = used b' - page_range i n"
    using clear_range [OF b'(2) assms(2)] by blast
  have "used c = used b" using b'(3) c(3) assms(3) by blast
  then have "c = b" using c(2) assms(1) by (intro determined)
  with b' c show ?thesis by simp
qed

lemma count_after_set:
  assumes "ok b" "in_chunk i n" "set_range b i n = Some b'"
  shows "count b' i n = Some n"
proof -
  obtain c where c: "set_range b i n = Some c" "ok c" "used c = used b \<union> page_range i n"
    using set_range [OF assms(1,2)] by blast
  then have "used b' \<inter> page_range i n = page_range i n" "ok b'" using assms(3) by auto
  then show ?thesis using count [where b = b' and i = i and n = n] assms(2) by (simp only: card_atLeastLessThan) simp
qed

lemma set_commutes:
  assumes "ok b" "in_chunk i n" "in_chunk j m"
  shows "Option.bind (set_range b i n) (\<lambda>b'. set_range b' j m) =
    Option.bind (set_range b j m) (\<lambda>b'. set_range b' i n)"
proof -
  obtain b1 where b1: "set_range b i n = Some b1" "ok b1" "used b1 = used b \<union> page_range i n"
    using set_range [OF assms(1,2)] by blast
  obtain b2 where b2: "set_range b j m = Some b2" "ok b2" "used b2 = used b \<union> page_range j m"
    using set_range [OF assms(1,3)] by blast
  obtain c1 where c1: "set_range b1 j m = Some c1" "ok c1" "used c1 = used b1 \<union> page_range j m"
    using set_range [OF b1(2) assms(3)] by blast
  obtain c2 where c2: "set_range b2 i n = Some c2" "ok c2" "used c2 = used b2 \<union> page_range i n"
    using set_range [OF b2(2) assms(2)] by blast
  have "c1 = c2" using b1(3) b2(3) c1 c2 by (intro determined) auto
  with b1 b2 c1 c2 show ?thesis by simp
qed

end

interpretation pb: chunk_bitmap pageBits_ok pages setRange clearRange popcntRange
  by unfold_locales (fact setRange_pages clearRange_pages popcntRange_pages pages_inject)+

subsection \<open>Properties\<close>

text \<open>C21: on a range inside the chunk \<open>setRange\<close> returns (no index is out of range) and sets
  exactly the bits of \<open>[i, i+n)\<close>, on the one-bit path, the one-word path and the path over several
  words.\<close>

theorem setRange_correct:
  assumes "pageBits_ok b" "in_chunk i n"
  shows "\<exists>b'. setRange b i n = Some b' \<and> pageBits_ok b' \<and> pages b' = pages b \<union> page_range i n"
  using pb.set_range [OF assms] .

theorem setRange_correct_witness:
  "\<exists>b'. setRange (replicate 8 0) 60 200 = Some b' \<and> pageBits_ok b' \<and>
     pages b' = pages (replicate 8 0) \<union> {60..<260}"
  using setRange_correct [where b = "replicate 8 0" and i = 60 and n = 200] by (simp add: pageBits_ok_length)

text \<open>\<open>clearRange\<close> undoes \<open>setRange\<close> on a range of free pages: the bitmap is the one before.\<close>

theorem setRange_clearRange:
  assumes "pageBits_ok b" "in_chunk i n" "pages b \<inter> page_range i n = {}"
  shows "Option.bind (setRange b i n) (\<lambda>b'. clearRange b' i n) = Some b"
  using assms by (rule pb.set_then_clear)

theorem setRange_clearRange_witness:
  "Option.bind (setRange (replicate 8 0) 63 130) (\<lambda>b'. clearRange b' 63 130) = Some (replicate 8 0)"
proof -
  have "pages (replicate 8 0) = {}" by (auto simp: in_pages_iff)
  then show ?thesis using setRange_clearRange [where b = "replicate 8 0" and i = 63 and n = 130] by (simp add: pageBits_ok_length)
qed

text \<open>\<open>popcntRange\<close> returns the number of set bits in \<open>[i, i+n)\<close>.\<close>

theorem popcntRange_correct:
  assumes "pageBits_ok b" "in_chunk i n"
  shows "popcntRange b i n = Some (of_nat (card (pages b \<inter> page_range i n)))"
  using assms by (rule pb.count)

theorem popcntRange_correct_witness:
  "popcntRange (replicate 8 5) 1 100 = Some (of_nat (card (pages (replicate 8 5) \<inter> {1..<101})))"
  using popcntRange_correct [where b = "replicate 8 5" and i = 1 and n = 100] by (simp add: pageBits_ok_length)

text \<open>C22: the comment of \<open>setRange\<close> promises the bits of \<open>[i, i+n)\<close>; for an empty range that
  starts at a word boundary the code sets the 64 bits before \<open>i\<close> and the 64 bits from \<open>i\<close> on,
  because \<open>j = i - 1\<close> lies in the word before.  (No caller passes \<open>n = 0\<close>.)\<close>

theorem setRange_empty_range:
  assumes "pageBits_ok b" "0 < i" "unat i < 512" "unat i mod 64 = 0"
  shows "\<exists>b'. setRange b i 0 = Some b' \<and> pages b' = pages b \<union> {unat i - 64 ..< unat i + 64}"
proof -
  define q where "q = unat i div 64"
  have i: "unat i = q * 64" using assms(4) by (simp add: q_def mod_0_imp_dvd)
  have "unat i > 0" using assms(2) by (simp add: word_less_nat_alt)
  then obtain p where p: "q = Suc p" using i by (cases q) auto
  have q8: "q < 8" using assms(3) i by simp
  have j: "unat (i - 1) = p * 64 + 63" using \<open>unat i > 0\<close> i p by (subst unat_sub_small) simp_all
  have jw: "unat ((i - 1) div 64) = p" "unat ((i - 1) mod 64) = 63" "unat (i div 64) = q" "unat (i mod 64) = 0"
    using j assms(4) by (simp_all add: unat_div64 unat_mod64 q_def)
  then have ne: "i div 64 \<noteq> (i - 1) div 64" using p by auto
  have i1: "unat (i div 64 + 1) = q + 1" using jw q8 by (subst unat_add_small) simp_all
  have "unat ((i - 1) mod 64 + 1) = 64" using jw by (subst unat_add_small) simp_all
  moreover have "setRange_loop c (i div 64 + 1) ((i - 1) div 64) = Some c" for c
    using i1 jw p by (subst setRange_loop.simps) (simp add: word_less_nat_alt)
  moreover have "x OR 18446744073709551615 = - 1" for x :: uint64
  proof -
    have "(18446744073709551615 :: uint64) = - 1" by simp
    then show ?thesis by (simp only: or_minus_numerals or.right_neutral bit.disj_one_right)
  qed
  ultimately have "setRange b i 0 = Some (b[q := - 1, p := - 1])"
    using assms(1) ne jw q8 p
    by (simp add: setRange_def Let_def go_access pageBits_ok_length nth_list_update)
  moreover have "pages (b[q := - 1, p := - 1]) = pages b \<union> {unat i - 64 ..< unat i + 64}"
  proof -
    have iv: "k div 64 = q \<or> k div 64 = p \<longleftrightarrow> k \<in> {unat i - 64 ..< unat i + 64}" for k
    proof -
      have "k div 64 = c \<longleftrightarrow> c * 64 \<le> k \<and> k < c * 64 + 64" for c :: nat by (rule div_eq_interval) simp
      from this [of q] this [of p] have "k div 64 = q \<or> k div 64 = p \<longleftrightarrow> p * 64 \<le> k \<and> k < p * 64 + 128"
        unfolding p by linarith
      then show ?thesis using i p by (simp add: add.commute)
    qed
    have "k \<in> pages (b[q := - 1, p := - 1]) \<longleftrightarrow> k < 512 \<and> (k div 64 = q \<or> k div 64 = p \<or> k \<in> pages b)" for k
      using assms(1) q8 p by (auto simp: in_pages_iff pageBits_ok_length nth_list_update)
    moreover have "k < 512" if "k \<in> {unat i - 64 ..< unat i + 64}" for k using that i q8 by simp
    ultimately show ?thesis using iv pages_subset [of b] by blast
  qed
  ultimately show ?thesis by blast
qed

theorem setRange_empty_range_witness:
  "\<exists>b'. setRange (replicate 8 0) 64 0 = Some b' \<and> pages b' = pages (replicate 8 0) \<union> {0..<128}"
  using setRange_empty_range [of "replicate 8 0" 64] by (simp add: pageBits_ok_length)

end
