(* ===== verification/PallocSum.thy ===== *)
theory PallocSum
  imports PageBits
begin

text \<open>
  Summaries of the page allocator (\<open>runtime/mpagealloc.go\<close>, the 64-bit configuration of
  \<open>mpagealloc_64bit.go\<close>): the packed \<open>pallocSum\<close> with its three fields, and \<open>mergeSummaries\<close>.
  A summary describes a region as a list of pages, \<open>True\<close> for a free page; \<open>region_sum\<close> is the
  specification (free pages at the start, longest free run, free pages at the end).
\<close>

subsection \<open>Constants\<close>

definition logPallocChunkPages :: nat where "logPallocChunkPages = 9"
definition summaryLevels :: nat where "summaryLevels = 5"
definition summaryLevelBits :: nat where "summaryLevelBits = 3"

definition logMaxPackedValue :: nat where
  "logMaxPackedValue = logPallocChunkPages + (summaryLevels - 1) * summaryLevelBits"

definition maxPackedValue :: uint64 where
  "maxPackedValue = push_bit logMaxPackedValue 1"

subsection \<open>The packed summary\<close>

type_synonym pallocSum = uint64

definition packPallocSum :: "uint \<Rightarrow> uint \<Rightarrow> uint \<Rightarrow> pallocSum" where
  "packPallocSum start mx end =
     (if mx = maxPackedValue then push_bit 63 1
      else (start AND (maxPackedValue - 1)) OR
        push_bit logMaxPackedValue (mx AND (maxPackedValue - 1)) OR
        push_bit (2 * logMaxPackedValue) (end AND (maxPackedValue - 1)))"

definition sum_start :: "pallocSum \<Rightarrow> uint" where
  "sum_start p = (if p AND push_bit 63 1 \<noteq> 0 then maxPackedValue else p AND (maxPackedValue - 1))"

definition sum_max :: "pallocSum \<Rightarrow> uint" where
  "sum_max p = (if p AND push_bit 63 1 \<noteq> 0 then maxPackedValue
     else drop_bit logMaxPackedValue p AND (maxPackedValue - 1))"

definition sum_end :: "pallocSum \<Rightarrow> uint" where
  "sum_end p = (if p AND push_bit 63 1 \<noteq> 0 then maxPackedValue
     else drop_bit (2 * logMaxPackedValue) p AND (maxPackedValue - 1))"

definition unpack :: "pallocSum \<Rightarrow> uint \<times> uint \<times> uint" where
  "unpack p = (if p AND push_bit 63 1 \<noteq> 0 then (maxPackedValue, maxPackedValue, maxPackedValue)
     else (p AND (maxPackedValue - 1), drop_bit logMaxPackedValue p AND (maxPackedValue - 1),
       drop_bit (2 * logMaxPackedValue) p AND (maxPackedValue - 1)))"

definition freeChunkSum :: pallocSum where
  "freeChunkSum = pallocChunkPages OR push_bit logMaxPackedValue pallocChunkPages OR
     push_bit (2 * logMaxPackedValue) pallocChunkPages"

subsection \<open>Merging\<close>

text \<open>The loop \<open>for i := 1; i < len(sums); i++\<close> over the remaining summaries.\<close>

fun mergeSummaries_loop :: "pallocSum list \<Rightarrow> uint \<Rightarrow> nat \<Rightarrow> uint \<Rightarrow> uint \<Rightarrow> uint \<Rightarrow> pallocSum" where
  "mergeSummaries_loop [] i logMaxPagesPerSum start most end = packPallocSum start most end"
| "mergeSummaries_loop (sm # sums) i logMaxPagesPerSum start most end =
     (let (si, mi, ei) = unpack sm;
          start = (if start = push_bit logMaxPagesPerSum i then start + si else start);
          most = max most (max (end + si) mi);
          end = (if ei = push_bit logMaxPagesPerSum 1 then end + push_bit logMaxPagesPerSum 1 else ei)
      in mergeSummaries_loop sums (i + 1) logMaxPagesPerSum start most end)"

definition mergeSummaries :: "pallocSum list \<Rightarrow> nat \<Rightarrow> pallocSum go" where
  "mergeSummaries sums logMaxPagesPerSum =
     (case sums of [] \<Rightarrow> None
      | s0 # rest \<Rightarrow> let (start, most, end) = unpack s0
          in Some (mergeSummaries_loop rest 1 logMaxPagesPerSum start most end))"

subsection \<open>Specification: the summary of a region\<close>

definition free_start :: "bool list \<Rightarrow> nat" where
  "free_start xs = length (takeWhile id xs)"

definition free_end :: "bool list \<Rightarrow> nat" where
  "free_end xs = free_start (rev xs)"

fun free_max :: "bool list \<Rightarrow> nat" where
  "free_max [] = 0"
| "free_max (x # xs) = max (free_start (x # xs)) (free_max xs)"

definition region_sum :: "bool list \<Rightarrow> nat \<times> nat \<times> nat" where
  "region_sum xs = (free_start xs, free_max xs, free_end xs)"

definition unpack_nat :: "pallocSum \<Rightarrow> nat \<times> nat \<times> nat" where
  "unpack_nat p = (unat (sum_start p), unat (sum_max p), unat (sum_end p))"

lemma free_start_simps [simp]:
  "free_start [] = 0" "free_start (True # xs) = Suc (free_start xs)" "free_start (False # xs) = 0"
  by (simp_all add: free_start_def)

lemma free_start_le: "free_start xs \<le> length xs"
  by (simp add: free_start_def length_takeWhile_le)

lemma free_end_le: "free_end xs \<le> length xs"
  using free_start_le [of "rev xs"] by (simp add: free_end_def)

lemma free_start_append:
  "free_start (xs @ ys) = (if free_start xs = length xs then length xs + free_start ys else free_start xs)"
  by (induction xs) (auto split: if_splits elim: bool.exhaust simp: free_start_def)

lemma free_start_all: "free_start xs = length xs \<longleftrightarrow> list_all id xs"
proof (induction xs)
  case (Cons x xs)
  then show ?case by (cases x) auto
qed simp

lemma free_end_all: "free_end xs = length xs \<longleftrightarrow> list_all id xs"
  using free_start_all [of "rev xs"] by (simp add: free_end_def list_all_iff)

lemma free_end_append:
  "free_end (xs @ ys) = (if free_end ys = length ys then length ys + free_end xs else free_end ys)"
  by (simp add: free_end_def free_start_append)

lemma free_start_max: "free_start xs \<le> free_max xs"
  by (cases xs) auto

lemma free_max_le: "free_max xs \<le> length xs"
proof (induction xs)
  case (Cons x xs)
  then show ?case using free_start_le [of "x # xs"] by simp
qed simp

lemma free_end_Cons: "free_end (x # xs) = (if free_end xs = length xs \<and> x then Suc (free_end xs) else free_end xs)"
  using free_end_append [of "[x]" xs] by (cases x) (auto simp: free_end_def)

lemma free_max_append:
  "free_max (xs @ ys) = max (max (free_max xs) (free_max ys)) (free_end xs + free_start ys)"
proof (induction xs)
  case Nil
  then show ?case using free_start_max [of ys] by (simp add: free_end_def)
next
  case (Cons x xs)
  show ?case
  proof (cases "free_start (x # xs) = length (x # xs)")
    case True
    then have x: "x" "free_start xs = length xs" "free_end xs = length xs"
      using True free_start_all [of "x # xs"] free_start_all [of xs] free_end_all [of xs] by auto
    then show ?thesis using Cons free_start_append [of "x # xs" ys] True
      by (simp add: free_end_Cons)
  next
    case False
    then have "\<not> (x \<and> free_end xs = length xs)"
      using free_start_all [of "x # xs"] free_end_all [of xs] by auto
    then have "free_end (x # xs) = free_end xs" by (auto simp: free_end_Cons)
    moreover have "free_start (x # xs @ ys) = free_start (x # xs)"
      using False free_start_append [of "x # xs" ys] by simp
    ultimately show ?thesis using Cons by simp
  qed
qed

lemma free_end_max: "free_end xs \<le> free_max xs"
  using free_max_append [of xs "[]"] by simp

text \<open>The longest free run, in terms of runs.\<close>

definition run_at :: "bool list \<Rightarrow> nat \<Rightarrow> nat \<Rightarrow> bool" where
  "run_at xs i n \<longleftrightarrow> i + n \<le> length xs \<and> (\<forall>k<n. xs ! (i + k))"

lemma run_at_start: "run_at xs 0 n \<longleftrightarrow> n \<le> free_start xs"
proof (induction xs arbitrary: n)
  case Nil
  then show ?case by (auto simp: run_at_def)
next
  case (Cons x xs)
  show ?case
  proof (cases n)
    case (Suc m)
    have "run_at (x # xs) 0 n \<longleftrightarrow> x \<and> run_at xs 0 m"
      by (auto simp: run_at_def Suc All_less_Suc2)
    then show ?thesis using Cons Suc by (cases x) auto
  qed (simp add: run_at_def)
qed

lemma run_at_Cons: "run_at (x # xs) (Suc i) n \<longleftrightarrow> run_at xs i n"
  by (auto simp: run_at_def)

lemma free_max_greatest: "run_at xs i n \<Longrightarrow> n \<le> free_max xs"
proof (induction xs arbitrary: i)
  case Nil
  then show ?case by (simp add: run_at_def)
next
  case (Cons x xs)
  then show ?case
    using run_at_start [of "x # xs" n] by (cases i) (auto simp: run_at_Cons le_max_iff_disj simp del: free_start_simps)
qed

lemma free_max_attained: "\<exists>i. run_at xs i (free_max xs)"
proof (induction xs)
  case Nil
  then show ?case by (simp add: run_at_def)
next
  case (Cons x xs)
  show ?case
  proof (cases "free_start (x # xs) \<ge> free_max xs")
    case True
    then have "free_max (x # xs) = free_start (x # xs)" by simp
    then show ?thesis using run_at_start [of "x # xs" "free_start (x # xs)"] by auto
  next
    case False
    then have "free_max (x # xs) = free_max xs" by simp
    then show ?thesis using Cons run_at_Cons by metis
  qed
qed

lemma free_max_eqI:
  assumes "run_at xs i m" "\<And>j n. run_at xs j n \<Longrightarrow> n \<le> m"
  shows "free_max xs = m"
  using free_max_attained [of xs] free_max_greatest [OF assms(1)] assms(2) by (meson le_antisym)

lemma free_max_ge_iff: "n \<le> free_max xs \<longleftrightarrow> (\<exists>i. run_at xs i n)"
proof
  assume n: "n \<le> free_max xs"
  obtain i where "run_at xs i (free_max xs)" using free_max_attained by blast
  with n have "run_at xs i n" by (auto simp: run_at_def)
  then show "\<exists>i. run_at xs i n" ..
qed (auto intro: free_max_greatest)

lemma free_start_greatest: "n \<le> free_start xs \<longleftrightarrow> n \<le> length xs \<and> (\<forall>k<n. xs ! k)"
  using run_at_start [of xs n] by (auto simp: run_at_def)

lemma free_max_full: "free_max xs = length xs \<longleftrightarrow> list_all id xs"
proof
  assume "free_max xs = length xs"
  then obtain i where "run_at xs i (length xs)" using free_max_attained by metis
  then show "list_all id xs" by (auto simp: run_at_def list_all_length)
next
  assume "list_all id xs"
  then have "run_at xs 0 (length xs)" by (simp add: run_at_def list_all_length)
  then show "free_max xs = length xs" using free_max_greatest free_max_le by (meson le_antisym)
qed

subsection \<open>Packing and unpacking\<close>

lemma packed_constants:
  "logMaxPackedValue = 21" "maxPackedValue = 2 ^ 21" "maxPackedValue - 1 = mask 21"
  by (simp_all add: logMaxPackedValue_def logPallocChunkPages_def summaryLevels_def summaryLevelBits_def
      maxPackedValue_def mask_eq_exp_minus_1)

text \<open>The triples a \<open>pallocSum\<close> can hold: three counts below \<open>2^21\<close>, or three times \<open>2^21\<close>.\<close>

definition packable :: "uint \<Rightarrow> uint \<Rightarrow> uint \<Rightarrow> bool" where
  "packable s m e \<longleftrightarrow> s < 2 ^ 21 \<and> m < 2 ^ 21 \<and> e < 2 ^ 21 \<or> s = 2 ^ 21 \<and> m = 2 ^ 21 \<and> e = 2 ^ 21"

lemma not_bit_zero: "bit (0 :: uint64) n = False"
  by simp

lemma small_bits: "s < (2 ^ 21 :: uint64) \<Longrightarrow> bit s n \<Longrightarrow> n < 21"
proof -
  assume s: "s < 2 ^ 21" and n: "bit s n"
  have "s AND mask 21 = s" using s by (subst mask_eq_iff_w2p) (simp_all add: word_size)
  then have "take_bit 21 s = s" by (simp only: take_bit_eq_mask)
  with n show "n < 21" by (metis bit_take_bit_iff)
qed

lemma unpack_fields: "unpack p = (sum_start p, sum_max p, sum_end p)"
  by (simp add: unpack_def sum_start_def sum_max_def sum_end_def)

lemma unpack_pack:
  assumes "packable s m e"
  shows "unpack (packPallocSum s m e) = (s, m, e)"
proof (cases "m = 2 ^ 21")
  case True
  then have "s = 2 ^ 21" "e = 2 ^ 21" using assms by (auto simp: packable_def)
  then show ?thesis using True by (simp add: unpack_def packPallocSum_def packed_constants)
next
  case False
  then have b: "bit s n \<Longrightarrow> n < 21" "bit m n \<Longrightarrow> n < 21" "bit e n \<Longrightarrow> n < 21" for n
    using assms small_bits by (auto simp: packable_def)
  define p where "p = s OR push_bit 21 m OR push_bit 42 e"
  have tb: "take_bit 21 s = s" "take_bit 21 m = m" "take_bit 21 e = e"
    by (auto intro!: bit_word_eqI simp: bit_simps dest: b)
  then have "packPallocSum s m e = p"
  proof -
    have "packPallocSum s m e = take_bit 21 s OR push_bit 21 (take_bit 21 m) OR
        push_bit (2 * 21) (take_bit 21 e)"
      using False by (simp only: packPallocSum_def packed_constants if_False take_bit_eq_mask mask_eq_exp_minus_1)
    also have "\<dots> = p" unfolding tb p_def by simp
    finally show ?thesis .
  qed
  moreover have "p AND push_bit 63 1 = 0"
  proof (rule bit_word_eqI)
    fix n
    have "bit (push_bit 63 (1 :: uint64)) n \<longleftrightarrow> n = 63" unfolding bit_simps by auto
    moreover have "\<not> bit p 63" by (auto simp: p_def bit_simps dest: b)
    ultimately have "\<not> bit (p AND push_bit 63 1) n" by (auto simp only: bit_and_iff)
    then show "bit (p AND push_bit 63 1) n = bit (0 :: uint64) n" by simp
  qed
  moreover have "p AND mask 21 = s"
    by (rule bit_word_eqI) (auto simp: p_def bit_simps dest: b)
  moreover have "drop_bit 21 p AND mask 21 = m"
    by (rule bit_word_eqI) (auto simp: p_def bit_simps dest: b)
  moreover have "drop_bit (2 * 21) p AND mask 21 = e"
    by (rule bit_word_eqI) (auto simp: p_def bit_simps dest: b bit_imp_le_length)
  ultimately show ?thesis
    by (simp only: unpack_def packed_constants mask_eq_exp_minus_1 simp_thms if_False)
qed

subsection \<open>Regions and merging\<close>

abbreviation w_of :: "nat \<Rightarrow> uint" where
  "w_of \<equiv> of_nat"

text \<open>\<open>sums_to p xs\<close>: the packed summary \<open>p\<close> describes the region \<open>xs\<close>.\<close>

definition sums_to :: "pallocSum \<Rightarrow> bool list \<Rightarrow> bool" where
  "sums_to p xs \<longleftrightarrow> unpack p = (w_of (free_start xs), w_of (free_max xs), w_of (free_end xs))"

lemma packable_region:
  assumes "length xs \<le> 2 ^ 21" "free_max xs = 2 ^ 21 \<longrightarrow> length xs = 2 ^ 21"
  shows "packable (w_of (free_start xs)) (w_of (free_max xs)) (w_of (free_end xs))"
proof (cases "free_max xs = 2 ^ 21")
  case True
  with assms have "free_start xs = 2 ^ 21" "free_end xs = 2 ^ 21"
    using free_max_full [of xs] free_start_all [of xs] free_end_all [of xs] by simp_all
  with True show ?thesis by (simp add: packable_def)
next
  case False
  then have "free_max xs < 2 ^ 21" using free_max_le [of xs] assms by simp
  moreover have "free_start xs \<le> free_max xs" "free_end xs \<le> free_max xs"
    by (rule free_start_max, rule free_end_max)
  ultimately show ?thesis by (simp add: packable_def word_less_nat_alt)
qed

lemma pack_sums_to:
  assumes "length xs \<le> 2 ^ 21"
  shows "sums_to (packPallocSum (w_of (free_start xs)) (w_of (free_max xs)) (w_of (free_end xs))) xs"
  using assms free_max_le [of xs] unfolding sums_to_def by (intro unpack_pack packable_region) auto

lemma w_of_eq_iff:
  assumes "m < 2 ^ 64" "n < 2 ^ 64"
  shows "w_of m = w_of n \<longleftrightarrow> m = n"
proof -
  have "unat (w_of m) = m" "unat (w_of n) = n" using assms by (simp_all add: unat_of_nat)
  then show ?thesis by metis
qed

lemma w_of_max: "m < 2 ^ 64 \<Longrightarrow> n < 2 ^ 64 \<Longrightarrow> max (w_of m) (w_of n) = w_of (max m n)"
  by (simp add: max_def word_le_nat_alt)

lemma w_of_shift: "push_bit k (w_of i) = w_of (i * 2 ^ k)"
  by (simp add: push_bit_eq_mult)

text \<open>The loop keeps the summary of the regions merged so far.\<close>

lemma mergeSummaries_loop_sums:
  assumes "list_all2 sums_to sums xss" "\<forall>xs \<in> set xss. length xs = 2 ^ k"
    and "length pre = i * 2 ^ k" "length pre + length (concat xss) \<le> 2 ^ 21"
  shows "sums_to (mergeSummaries_loop sums (w_of i) k (w_of (free_start pre)) (w_of (free_max pre))
      (w_of (free_end pre))) (pre @ concat xss)"
  using assms
proof (induction sums xss arbitrary: i pre rule: list_all2_induct)
  case Nil
  then show ?case by (simp add: pack_sums_to)
next
  case (Cons sm sums xs xss)
  have u: "unpack sm = (w_of (free_start xs), w_of (free_max xs), w_of (free_end xs))"
    using Cons.hyps by (simp add: sums_to_def)
  have len: "length xs = 2 ^ k" "length pre = i * 2 ^ k" using Cons.prems by auto
  have bound: "length pre + length xs \<le> 2 ^ 21" using Cons.prems by simp
  have small: "free_start pre \<le> 2 ^ 21" "free_max pre \<le> 2 ^ 21" "free_end pre \<le> 2 ^ 21"
    "free_start xs \<le> 2 ^ 21" "free_max xs \<le> 2 ^ 21" "free_end xs \<le> 2 ^ 21" "i * 2 ^ k \<le> 2 ^ 21" "2 ^ k \<le> (2::nat) ^ 21"
    using bound len free_start_le [of pre] free_max_le [of pre] free_end_le [of pre]
      free_start_le [of xs] free_max_le [of xs] free_end_le [of xs] by linarith+
  have 1: "(if w_of (free_start pre) = push_bit k (w_of i) then w_of (free_start pre) + w_of (free_start xs)
      else w_of (free_start pre)) = w_of (free_start (pre @ xs))"
  proof -
    have "w_of (free_start pre) = push_bit k (w_of i) \<longleftrightarrow> free_start pre = i * 2 ^ k"
      unfolding w_of_shift using small by (intro w_of_eq_iff) simp_all
    then show ?thesis using len by (simp only: free_start_append) simp
  qed
  have 2: "max (w_of (free_max pre)) (max (w_of (free_end pre) + w_of (free_start xs)) (w_of (free_max xs))) =
      w_of (free_max (pre @ xs))"
    using small by (simp add: w_of_max free_max_append max.commute max.left_commute flip: of_nat_add)
  have 3: "(if w_of (free_end xs) = push_bit k 1 then w_of (free_end pre) + push_bit k 1 else w_of (free_end xs)) =
      w_of (free_end (pre @ xs))"
  proof -
    have p1: "push_bit k 1 = w_of (2 ^ k)" using w_of_shift [of k 1] by simp
    then have "w_of (free_end xs) = push_bit k 1 \<longleftrightarrow> free_end xs = 2 ^ k"
      using w_of_eq_iff [of "free_end xs" "2 ^ k"] small by simp
    then show ?thesis using len by (simp only: free_end_append) (simp add: p1 add.commute)
  qed
  have "w_of i + 1 = w_of (Suc i)" by simp
  moreover have "sums_to (mergeSummaries_loop sums (w_of (Suc i)) k (w_of (free_start (pre @ xs)))
      (w_of (free_max (pre @ xs))) (w_of (free_end (pre @ xs)))) ((pre @ xs) @ concat xss)"
    using Cons.prems len by (intro Cons.IH) auto
  ultimately show ?case
    by (simp only: u 1 2 3 mergeSummaries_loop.simps Let_def prod.case concat.simps append_assoc)
qed

lemma mergeSummaries_sums:
  assumes "list_all2 sums_to sums xss" "xss \<noteq> []" "\<forall>xs \<in> set xss. length xs = 2 ^ k"
    and "length xss * 2 ^ k \<le> 2 ^ 21"
  shows "\<exists>p. mergeSummaries sums k = Some p \<and> sums_to p (concat xss)"
proof -
  obtain xs ys where x: "xss = xs # ys" using assms(2) by (cases xss) auto
  then obtain s0 rest where s: "sums = s0 # rest" "sums_to s0 xs" "list_all2 sums_to rest ys"
    using assms(1) by (auto simp: list_all2_Cons2)
  have "length (concat zs) = length zs * 2 ^ k" if "\<forall>xs \<in> set zs. length xs = 2 ^ k" for zs :: "bool list list"
    using that by (induction zs) auto
  then have "length xs + length (concat ys) \<le> 2 ^ 21" using assms(3,4) x by simp
  then have "sums_to (mergeSummaries_loop rest (w_of 1) k (w_of (free_start xs)) (w_of (free_max xs))
      (w_of (free_end xs))) (xs @ concat ys)"
    using assms(3) x s by (intro mergeSummaries_loop_sums) auto
  then show ?thesis using s x by (simp add: mergeSummaries_def sums_to_def)
qed

lemma free_uniform:
  "free_start (replicate n True) = n" "free_end (replicate n True) = n" "free_max (replicate n True) = n"
  "free_start (replicate n False) = 0" "free_end (replicate n False) = 0" "free_max (replicate n False) = 0"
proof -
  show "free_start (replicate n True) = n" for n by (induction n) auto
  then show "free_end (replicate n True) = n" for n by (simp add: free_end_def)
  show "free_max (replicate n True) = n"
    using free_max_full [of "replicate n True"] by (simp add: list_all_iff)
  show "free_start (replicate n False) = 0" for n by (cases n) auto
  then show "free_end (replicate n False) = 0" for n by (simp add: free_end_def)
  have "free_start (False # replicate n False) = 0" for n by simp
  then show "free_max (replicate n False) = 0" by (induction n) auto
qed

lemma sums_to_free_chunk: "sums_to freeChunkSum (replicate 512 True)"
  and sums_to_full_chunk: "sums_to 0 (replicate 512 False)"
  by (simp_all only: sums_to_def free_uniform)
    (simp_all add: unpack_def freeChunkSum_def pallocChunkPages_def packed_constants)

subsection \<open>Properties\<close>

text \<open>Packing loses nothing.  Three counts that each fit in 21 bits, and the all-free root
  region of \<open>2^21\<close> pages (which is kept in bit 63 alone), unpack to what was packed.\<close>

theorem unpack_packPallocSum:
  assumes "packable s m e"
  shows "unpack (packPallocSum s m e) = (s, m, e) \<and> sum_start (packPallocSum s m e) = s \<and>
    sum_max (packPallocSum s m e) = m \<and> sum_end (packPallocSum s m e) = e"
  using unpack_pack [OF assms] unpack_fields [of "packPallocSum s m e"] by simp

theorem unpack_packPallocSum_witness:
  "unpack (packPallocSum 3 100 7) = (3, 100, 7) \<and> sum_start (packPallocSum 3 100 7) = 3 \<and>
    sum_max (packPallocSum 3 100 7) = 100 \<and> sum_end (packPallocSum 3 100 7) = 7"
  by (rule unpack_packPallocSum) (simp add: packable_def word_less_nat_alt)

text \<open>C20: \<open>mergeSummaries\<close> computes the summary of the concatenation.  If each entry describes a
  block of \<open>2^k\<close> pages and the whole has at most \<open>2^21\<close> pages, the result describes the blocks
  side by side: free pages at the start, longest free run (also across block boundaries), free
  pages at the end.\<close>

theorem mergeSummaries_correct:
  assumes "list_all2 sums_to sums xss" "xss \<noteq> []" "\<forall>xs \<in> set xss. length xs = 2 ^ k"
    and "length xss * 2 ^ k \<le> 2 ^ 21"
  shows "\<exists>p. mergeSummaries sums k = Some p \<and> sums_to p (concat xss)"
  using assms by (rule mergeSummaries_sums)

theorem mergeSummaries_correct_witness:
  "\<exists>p. mergeSummaries [packPallocSum 1 1 0, packPallocSum 2 2 2, packPallocSum 1 1 0] 1 = Some p \<and>
     sums_to p (concat [[True, False], [True, True], [True, False]])"
proof (rule mergeSummaries_correct)
  have "sums_to (packPallocSum 1 1 0) [True, False]" "sums_to (packPallocSum 2 2 2) [True, True]"
    unfolding sums_to_def by (subst unpack_pack, simp add: packable_def word_less_nat_alt,
      simp add: free_end_def)+
  then show "list_all2 sums_to [packPallocSum 1 1 0, packPallocSum 2 2 2, packPallocSum 1 1 0]
      [[True, False], [True, True], [True, False]]" by simp
qed auto

end
