(* ===== verification/PallocBits.thy ===== *)
theory PallocBits
  imports PallocSum
begin

text \<open>
  The allocation bitmap of one palloc chunk, the second half of \<open>runtime/mpallocbits.go\<close>:
  \<open>pallocBits\<close> (a \<open>pageBits\<close> in which 0 is a free page), its summary and its first-fit searches,
  \<open>findBitRange64\<close>, and \<open>pallocData\<close>, which pairs it with the scavenged bitmap.
  \<open>free_list b\<close> reads the bitmap as the list of its 512 pages, \<open>True\<close> for a free one; the
  searches are shown to find the first fit in that list and \<open>summarize\<close> its summary.
\<close>

type_synonym pallocBits = pageBits

subsection \<open>Runs of ones in a word\<close>

text \<open>
  The loop of \<open>findBitRange64\<close> either returns early (\<open>Inl\<close> the result) or is left with the
  shrunk word (\<open>Inr\<close>).  It has no bound that holds for every start value of \<open>k\<close>, so it is a
  partial function; \<open>findBitRange64_returns\<close> shows that it returns from every call.
\<close>

partial_function (option) findBitRange64_loop :: "uint64 \<Rightarrow> uint \<Rightarrow> uint \<Rightarrow> (uint + uint64) option" where
  "findBitRange64_loop c p k =
     (if p > 0 then
        if p \<le> k then Some (Inr (c AND drop_bit (unat (p AND 63)) c))
        else let c = c AND drop_bit (unat (k AND 63)) c in
          if c = 0 then Some (Inl 64) else findBitRange64_loop c (p - k) (k * 2)
      else Some (Inr c))"

definition findBitRange64 :: "uint64 \<Rightarrow> uint \<Rightarrow> uint go" where
  "findBitRange64 c n = do {
     r \<leftarrow> findBitRange64_loop c (n - 1) 1;
     Some (case r of Inl v \<Rightarrow> v | Inr c \<Rightarrow> of_nat (TrailingZeros64 c))
   }"

subsection \<open>The summary\<close>

text \<open>First pass: runs that touch a word boundary.\<close>

fun summarize_pass1 :: "uint64 list \<Rightarrow> uint \<Rightarrow> uint \<Rightarrow> uint \<Rightarrow> uint \<times> uint \<times> uint" where
  "summarize_pass1 [] start most cur = (start, most, cur)"
| "summarize_pass1 (x # xs) start most cur =
     (if x = 0 then summarize_pass1 xs start most (cur + 64)
      else
        let t = of_nat (TrailingZeros64 x);
            l = of_nat (LeadingZeros64 x);
            cur = cur + t;
            start = (if start = NOT 0 then cur else start);
            most = max most cur;
            cur = l
        in summarize_pass1 xs start most cur)"

text \<open>Second pass: runs inside a word.  \<open>for p > 0\<close> shrinks all runs of zeros by \<open>p\<close>; it ends the
  word when no zeros are left.\<close>

datatype shrink_result = NoMoreZeros | Shrunk uint64 uint

partial_function (option) summarize_shrink :: "uint64 \<Rightarrow> uint \<Rightarrow> uint \<Rightarrow> shrink_result option" where
  "summarize_shrink x p k =
     (if p > 0 then
        if p \<le> k then
          let x = x OR drop_bit (unat (p AND 63)) x in
          if x AND (x + 1) = 0 then Some NoMoreZeros else Some (Shrunk x k)
        else
          let x = x OR drop_bit (unat (k AND 63)) x in
          if x AND (x + 1) = 0 then Some NoMoreZeros else summarize_shrink x (p - k) (k * 2)
      else Some (Shrunk x k))"

partial_function (option) summarize_runs :: "uint64 \<Rightarrow> uint \<Rightarrow> uint \<Rightarrow> uint \<Rightarrow> uint option" where
  "summarize_runs x p k most =
     Option.bind (summarize_shrink x p k) (\<lambda>r. case r of
       NoMoreZeros \<Rightarrow> Some most
     | Shrunk x k \<Rightarrow>
         let j = (of_nat (TrailingZeros64 (NOT x)) :: uint);
             x = drop_bit (unat (j AND 63)) x;
             j = (of_nat (TrailingZeros64 x) :: uint);
             x = drop_bit (unat (j AND 63)) x;
             most = most + j
         in if x AND (x + 1) = 0 then Some most else summarize_runs x j k most)"

fun summarize_pass2 :: "uint64 list \<Rightarrow> uint \<Rightarrow> uint go" where
  "summarize_pass2 [] most = Some most"
| "summarize_pass2 (x # xs) most =
     (let x = drop_bit (unat ((of_nat (TrailingZeros64 x) :: uint) AND 63)) x in
      if x AND (x + 1) = 0 then summarize_pass2 xs most
      else do { most \<leftarrow> summarize_runs x most 1 most; summarize_pass2 xs most })"

definition summarize :: "pallocBits \<Rightarrow> pallocSum go" where
  "summarize b =
     (let (start, most, cur) = summarize_pass1 b (NOT 0) 0 0 in
      if start = NOT 0 then
        let n = of_nat (64 * length b) in Some (packPallocSum n n n)
      else
        let most = max most cur in
        if most \<ge> 64 - 2 then Some (packPallocSum start most cur)
        else do { most \<leftarrow> summarize_pass2 b most; Some (packPallocSum start most cur) })"

subsection \<open>Searching\<close>

function find1_loop :: "pallocBits \<Rightarrow> uint \<Rightarrow> uint" where
  "find1_loop b i =
     (if i < of_nat (length b) then
        let x = b ! unat i in
        if NOT x = 0 then find1_loop b (i + 1)
        else i * 64 + of_nat (TrailingZeros64 (NOT x))
      else NOT 0)"
  by pat_completeness auto
termination
  by (relation "measure (\<lambda>(b, i). unat (of_nat (length b) :: uint) - unat i)")
    (auto simp: unat_plus_one word_less_nat_alt)

function findSmallN_loop :: "pallocBits \<Rightarrow> uintptr \<Rightarrow> uint \<Rightarrow> uint \<Rightarrow> uint \<Rightarrow> (uint \<times> uint) go" where
  "findSmallN_loop b npages i end newSearchIdx =
     (if i < of_nat (length b) then
        let bi = b ! unat i in
        if NOT bi = 0 then findSmallN_loop b npages (i + 1) 0 newSearchIdx
        else
          let newSearchIdx = (if newSearchIdx = NOT 0
                then i * 64 + of_nat (TrailingZeros64 (NOT bi)) else newSearchIdx);
              start = of_nat (TrailingZeros64 bi)
          in if end + start \<ge> npages then Some (i * 64 - end, newSearchIdx)
             else do {
               j \<leftarrow> findBitRange64 (NOT bi) npages;
               if j < 64 then Some (i * 64 + j, newSearchIdx)
               else findSmallN_loop b npages (i + 1) (of_nat (LeadingZeros64 bi)) newSearchIdx
             }
      else Some (NOT 0, newSearchIdx))"
  by pat_completeness auto
termination
  by (relation "measure (\<lambda>(b, npages, i, end, newSearchIdx). unat (of_nat (length b) :: uint) - unat i)")
    (auto simp: unat_plus_one word_less_nat_alt)

function findLargeN_loop :: "pallocBits \<Rightarrow> uintptr \<Rightarrow> uint \<Rightarrow> uint \<Rightarrow> uint \<Rightarrow> uint \<Rightarrow> uint \<times> uint" where
  "findLargeN_loop b npages i start sz newSearchIdx =
     (if i < of_nat (length b) then
        let x = b ! unat i in
        if x = NOT 0 then findLargeN_loop b npages (i + 1) start 0 newSearchIdx
        else
          let newSearchIdx = (if newSearchIdx = NOT 0
                then i * 64 + of_nat (TrailingZeros64 (NOT x)) else newSearchIdx)
          in if sz = 0 then
               let sz = of_nat (LeadingZeros64 x); start = i * 64 + 64 - sz
               in findLargeN_loop b npages (i + 1) start sz newSearchIdx
             else
               let s = of_nat (TrailingZeros64 x) in
               if s + sz \<ge> npages then (start, newSearchIdx)
               else if s < 64 then
                 let sz = of_nat (LeadingZeros64 x); start = i * 64 + 64 - sz
                 in findLargeN_loop b npages (i + 1) start sz newSearchIdx
               else findLargeN_loop b npages (i + 1) start (sz + 64) newSearchIdx
      else if sz < npages then (NOT 0, newSearchIdx) else (start, newSearchIdx))"
  by pat_completeness auto
termination
  by (relation "measure (\<lambda>(b, npages, i, start, sz, newSearchIdx). unat (of_nat (length b) :: uint) - unat i)")
    (auto simp: unat_plus_one word_less_nat_alt)

declare find1_loop.simps [simp del] findSmallN_loop.simps [simp del] findLargeN_loop.simps [simp del]

definition find1 :: "pallocBits \<Rightarrow> uint \<Rightarrow> uint" where
  "find1 b searchIdx = find1_loop b (searchIdx div 64)"

definition findSmallN :: "pallocBits \<Rightarrow> uintptr \<Rightarrow> uint \<Rightarrow> (uint \<times> uint) go" where
  "findSmallN b npages searchIdx = findSmallN_loop b npages (searchIdx div 64) 0 (NOT 0)"

definition findLargeN :: "pallocBits \<Rightarrow> uintptr \<Rightarrow> uint \<Rightarrow> uint \<times> uint" where
  "findLargeN b npages searchIdx = findLargeN_loop b npages (searchIdx div 64) (NOT 0) 0 (NOT 0)"

definition palloc_find :: "pallocBits \<Rightarrow> uintptr \<Rightarrow> uint \<Rightarrow> (uint \<times> uint) go" where
  "palloc_find b npages searchIdx =
     (if npages = 1 then let addr = find1 b searchIdx in Some (addr, addr)
      else if npages \<le> 64 then findSmallN b npages searchIdx
      else Some (findLargeN b npages searchIdx))"

subsection \<open>Allocating and freeing\<close>

definition allocRange :: "pallocBits \<Rightarrow> uint \<Rightarrow> uint \<Rightarrow> pallocBits go" where
  "allocRange b i n = setRange b i n"

definition allocAll :: "pallocBits \<Rightarrow> pallocBits" where
  "allocAll b = setAll b"

definition free1 :: "pallocBits \<Rightarrow> uint \<Rightarrow> pallocBits go" where
  "free1 b i = pclear b i"

definition free :: "pallocBits \<Rightarrow> uint \<Rightarrow> uint \<Rightarrow> pallocBits go" where
  "free b i n = clearRange b i n"

definition freeAll :: "pallocBits \<Rightarrow> pallocBits" where
  "freeAll b = clearAll b"

definition pages64 :: "pallocBits \<Rightarrow> uint \<Rightarrow> uint64 go" where
  "pages64 b i = block64 b i"

definition allocPages64 :: "pallocBits \<Rightarrow> uint \<Rightarrow> uint64 \<Rightarrow> pallocBits go" where
  "allocPages64 b i alloc = setBlock64 b i alloc"

record pallocData =
  pallocBits :: pallocBits
  scavenged :: pageBits

definition pallocData_allocRange :: "pallocData \<Rightarrow> uint \<Rightarrow> uint \<Rightarrow> pallocData go" where
  "pallocData_allocRange m i n = do {
     bits \<leftarrow> allocRange (pallocBits m) i n;
     scav \<leftarrow> clearRange (scavenged m) i n;
     Some (m\<lparr>pallocBits := bits, scavenged := scav\<rparr>)
   }"

definition pallocData_allocAll :: "pallocData \<Rightarrow> pallocData" where
  "pallocData_allocAll m =
     m\<lparr>pallocBits := allocAll (pallocBits m), scavenged := clearAll (scavenged m)\<rparr>"

subsection \<open>Runs of ones in a word: correctness\<close>

text \<open>\<open>ones c i n\<close>: \<open>n\<close> consecutive ones of \<open>c\<close> from bit \<open>i\<close> on.\<close>

definition ones :: "uint64 \<Rightarrow> nat \<Rightarrow> nat \<Rightarrow> bool" where
  "ones c i n \<longleftrightarrow> (\<forall>k<n. bit c (i + k))"

lemma and_shift_ones:
  assumes "\<And>i. bit d i \<longleftrightarrow> ones c i s" "t \<le> s"
  shows "bit (d AND drop_bit t d) i \<longleftrightarrow> ones c i (s + t)"
proof -
  have "bit (d AND drop_bit t d) i \<longleftrightarrow> ones c i s \<and> ones c (t + i) s"
    by (simp add: bit_and_iff bit_drop_bit_eq assms(1))
  also have "\<dots> \<longleftrightarrow> ones c i (s + t)"
  proof
    assume *: "ones c i s \<and> ones c (t + i) s"
    show "ones c i (s + t)" unfolding ones_def
    proof (intro allI impI)
      fix k assume "k < s + t"
      then consider "k < s" | "t \<le> k" "k - t < s" using assms(2) by linarith
      then show "bit c (i + k)"
      proof cases
        case 2
        then have "bit c (t + i + (k - t))" using * by (auto simp: ones_def)
        with 2 show ?thesis by (simp add: ac_simps)
      qed (use * in \<open>auto simp: ones_def\<close>)
    qed
  next
    assume *: "ones c i (s + t)"
    have "bit c (t + i + k)" if "k < s" for k
    proof -
      have "t + k < s + t" using that by simp
      then have "bit c (i + (t + k))" using * unfolding ones_def by blast
      then show ?thesis by (simp add: ac_simps)
    qed
    with * show "ones c i s \<and> ones c (t + i) s" by (auto simp: ones_def)
  qed
  finally show ?thesis .
qed

lemma ones_mono: "ones c i n \<Longrightarrow> m \<le> n \<Longrightarrow> ones c i m"
  by (auto simp: ones_def)

lemma and63: "unat (p AND 63 :: uint64) = unat p mod 64"
proof -
  have "p AND 63 = take_bit 6 p" by (simp add: take_bit_eq_mask mask_eq_exp_minus_1)
  moreover have "unat (take_bit 6 p) = take_bit 6 (unat p)" by (rule unsigned_take_bit_eq)
  moreover have "take_bit 6 (unat p) = unat p mod 64" by (simp add: take_bit_eq_mod)
  ultimately show ?thesis by (simp only:)
qed

lemma findBitRange64_loop_spec:
  assumes "unat p < 64" "0 < unat k" "\<And>i. bit d i \<longleftrightarrow> ones c i (unat k)"
  shows "\<exists>r. findBitRange64_loop d p k = Some r \<and>
    (case r of Inl v \<Rightarrow> v = 64 \<and> (\<forall>i. \<not> ones c i (unat k + unat p))
     | Inr e \<Rightarrow> \<forall>i. bit e i \<longleftrightarrow> ones c i (unat k + unat p))"
  using assms
proof (induction "unat p" arbitrary: p k d rule: less_induct)
  case less
  consider "p = 0" | "0 < p" "p \<le> k" | "k < p"
    by (cases "p = 0"; cases "p \<le> k") (auto simp: word_gt_0 not_le)
  then show ?case
  proof cases
    case 1
    then show ?thesis using less.prems by (simp add: findBitRange64_loop.simps)
  next
    case 2
    then have "bit (d AND drop_bit (unat p) d) i \<longleftrightarrow> ones c i (unat k + unat p)" for i
      using less.prems by (intro and_shift_ones) (auto simp: word_le_nat_alt)
    then show ?thesis using 2 less.prems(1) by (simp add: findBitRange64_loop.simps and63)
  next
    case 3
    define d' where "d' = d AND drop_bit (unat k) d"
    have k: "unat k < unat p" "unat k < 64" using 3 less.prems(1) by (simp_all add: word_less_nat_alt)
    have bits: "bit d' i \<longleftrightarrow> ones c i (unat k + unat k)" for i
      unfolding d'_def using less.prems by (intro and_shift_ones) auto
    have u: "unat (p - k) = unat p - unat k" "unat (k * 2) = unat k + unat k"
      using k by (simp_all add: unat_sub_small unat_mult_small)
    have eq: "findBitRange64_loop d p k = (if d' = 0 then Some (Inl 64) else findBitRange64_loop d' (p - k) (k * 2))"
      using 3 k by (subst findBitRange64_loop.simps) (auto simp: and63 d'_def word_gt_0 not_le Let_def)
    show ?thesis
    proof (cases "d' = 0")
      case True
      then have "\<not> ones c i (unat k + unat k)" for i using bits [of i] by simp
      then have "\<not> ones c i (unat k + unat p)" for i using ones_mono k by (meson add_left_mono less_imp_le_nat)
      then show ?thesis using True eq by simp
    next
      case False
      have IH: "\<exists>r. findBitRange64_loop d' (p - k) (k * 2) = Some r \<and>
          (case r of Inl v \<Rightarrow> v = 64 \<and> (\<forall>i. \<not> ones c i (unat (k * 2) + unat (p - k)))
           | Inr e \<Rightarrow> \<forall>i. bit e i \<longleftrightarrow> ones c i (unat (k * 2) + unat (p - k)))"
        using less.prems k bits by (intro less.hyps) (simp_all add: u)
      have "unat (k * 2) + unat (p - k) = unat k + unat p" using k by (simp add: u)
      from IH [unfolded this] show ?thesis using False eq by simp
    qed
  qed
qed

lemma findBitRange64_spec:
  assumes "0 < n" "n \<le> 64"
  shows "\<exists>r. findBitRange64 c n = Some r \<and>
    (if \<exists>i. ones c i (unat n) then unat r < 64 \<and> ones c (unat r) (unat n) \<and> (\<forall>i<unat r. \<not> ones c i (unat n))
     else r = 64)"
proof -
  have n: "unat (n - 1) = unat n - 1" "0 < unat n" "unat n \<le> 64"
    using assms by (simp_all add: unat_sub_small word_less_nat_alt word_le_nat_alt)
  have "\<exists>r. findBitRange64_loop c (n - 1) 1 = Some r \<and>
      (case r of Inl v \<Rightarrow> v = 64 \<and> (\<forall>i. \<not> ones c i (unat (1 :: uint) + unat (n - 1)))
       | Inr e \<Rightarrow> \<forall>i. bit e i \<longleftrightarrow> ones c i (unat (1 :: uint) + unat (n - 1)))"
    using n by (intro findBitRange64_loop_spec) (auto simp: ones_def)
  then obtain r where r0: "findBitRange64_loop c (n - 1) 1 = Some r"
    "case r of Inl v \<Rightarrow> v = 64 \<and> (\<forall>i. \<not> ones c i (unat (1 :: uint) + unat (n - 1)))
       | Inr e \<Rightarrow> \<forall>i. bit e i \<longleftrightarrow> ones c i (unat (1 :: uint) + unat (n - 1))" by blast
  have "unat (1 :: uint) + unat (n - 1) = unat n" using n by simp
  note r = r0 [unfolded this]
  show ?thesis
  proof (cases r)
    case (Inl v)
    then show ?thesis using r by (simp add: findBitRange64_def)
  next
    case (Inr e)
    then have e: "bit e i \<longleftrightarrow> ones c i (unat n)" for i using r by simp
    have eq: "findBitRange64 c n = Some (of_nat (TrailingZeros64 e))" using r Inr by (simp add: findBitRange64_def)
    show ?thesis
    proof (cases "e = 0")
      case True
      then show ?thesis using eq e by simp
    next
      case False
      then have "TrailingZeros64 e < 64" "bit e (TrailingZeros64 e)" "\<forall>k<TrailingZeros64 e. \<not> bit e k"
        using TrailingZeros64_spec by auto
      then show ?thesis using eq e by auto
    qed
  qed
qed

lemma findBitRange64_loop_total: "0 < k \<Longrightarrow> unat k + unat p \<le> 2 ^ 64 \<Longrightarrow> \<exists>r. findBitRange64_loop d p k = Some r"
proof (induction "unat p" arbitrary: p k d rule: less_induct)
  case less
  show ?case
  proof (cases "k < p")
    case True
    then have k: "unat k < unat p" "0 < unat k" using less.prems by (simp_all add: word_less_nat_alt)
    then have u: "unat (p - k) = unat p - unat k" "unat (k * 2) = unat k * 2"
      using less.prems by (simp_all add: unat_sub_small unat_mult_small)
    have "\<exists>r. findBitRange64_loop (d AND drop_bit (unat (k AND 63)) d) (p - k) (k * 2) = Some r"
      using less.prems k u by (intro less.hyps) (simp_all add: word_less_nat_alt)
    then show ?thesis by (subst findBitRange64_loop.simps) (simp add: Let_def)
  qed (subst findBitRange64_loop.simps, simp)
qed

lemma findBitRange64_returns: "\<exists>r. findBitRange64 c n = Some r"
proof -
  have "unat (1 :: uint) + unat (n - 1) \<le> 2 ^ 64" using unat_less_2p64 [of "n - 1"] by simp
  then show ?thesis using findBitRange64_loop_total [of 1 "n - 1" c] by (auto simp: findBitRange64_def)
qed

subsection \<open>The bitmap as a list of pages\<close>

text \<open>\<open>True\<close> is a free page (bit 0).\<close>

definition word_free :: "uint64 \<Rightarrow> bool list" where
  "word_free x = map (\<lambda>r. \<not> bit x r) [0..<64]"

definition free_list :: "pallocBits \<Rightarrow> bool list" where
  "free_list b = concat (map word_free b)"

lemma length_word_free [simp]: "length (word_free x) = 64"
  by (simp add: word_free_def)

lemma nth_word_free: "r < 64 \<Longrightarrow> word_free x ! r \<longleftrightarrow> \<not> bit x r"
  by (simp add: word_free_def)

lemma length_free_list [simp]: "length (free_list b) = 64 * length b"
  by (induction b) (simp_all add: free_list_def)

lemma free_list_append: "free_list (b @ c) = free_list b @ free_list c"
  by (simp add: free_list_def)

lemma free_list_Cons: "free_list (x # b) = word_free x @ free_list b"
  by (simp add: free_list_def)

lemma nth_free_list: "k < 64 * length b \<Longrightarrow> free_list b ! k \<longleftrightarrow> \<not> pb_bit b k"
proof (induction b arbitrary: k)
  case (Cons x b)
  show ?case
  proof (cases "k < 64")
    case True
    then show ?thesis by (simp add: free_list_Cons nth_append nth_word_free pb_bit_def)
  next
    case False
    then have "pb_bit (x # b) k = pb_bit b (k - 64)"
    proof -
      have "k div 64 = Suc ((k - 64) div 64)" "k mod 64 = (k - 64) mod 64"
        using False by (simp_all add: le_div_geq le_mod_geq)
      then show ?thesis by (simp add: pb_bit_def)
    qed
    then show ?thesis using False Cons by (simp add: free_list_Cons nth_append)
  qed
qed simp

lemma free_list_pages: "pageBits_ok b \<Longrightarrow> k < 512 \<Longrightarrow> free_list b ! k \<longleftrightarrow> k \<notin> pages b"
  by (simp add: nth_free_list pageBits_ok_length pages_def)

lemma free_start_eqI:
  assumes "m \<le> length xs" "\<And>k. k < m \<Longrightarrow> xs ! k" "m < length xs \<Longrightarrow> \<not> xs ! m"
  shows "free_start xs = m"
proof (rule le_antisym)
  show "m \<le> free_start xs" using assms(1,2) by (simp add: free_start_greatest)
  show "free_start xs \<le> m"
    using assms(3) free_start_greatest [of "Suc m" xs] free_start_le [of xs] by fastforce
qed

lemma free_start_word: "free_start (word_free x) = TrailingZeros64 x"
proof (rule free_start_eqI)
  show "TrailingZeros64 x \<le> length (word_free x)" by (simp add: TrailingZeros64_le)
  show "word_free x ! k" if "k < TrailingZeros64 x" for k
    using that TrailingZeros64_le [of x] TrailingZeros64_low [of k x] by (simp add: nth_word_free)
  show "\<not> word_free x ! TrailingZeros64 x" if "TrailingZeros64 x < length (word_free x)"
    using that bit_TrailingZeros64 [of x] by (auto simp: nth_word_free TrailingZeros64_less_iff)
qed

lemma free_end_word: "free_end (word_free x) = LeadingZeros64 x"
  unfolding free_end_def
proof (rule free_start_eqI)
  have le: "LeadingZeros64 x \<le> 64" by (rule LeadingZeros64_le)
  then show "LeadingZeros64 x \<le> length (rev (word_free x))" by simp
  show "rev (word_free x) ! k" if "k < LeadingZeros64 x" for k
    using that le LeadingZeros64_high [of x "63 - k"] by (simp add: rev_nth nth_word_free)
  show "\<not> rev (word_free x) ! LeadingZeros64 x" if "LeadingZeros64 x < length (rev (word_free x))"
    using that LeadingZeros64_spec [of x] LeadingZeros64_less_iff [of x] by (auto simp: rev_nth nth_word_free)
qed

lemma run_at_word: "run_at (word_free x) i n \<longleftrightarrow> i + n \<le> 64 \<and> ones (NOT x) i n"
  by (auto simp: run_at_def ones_def nth_word_free bit_not_iff)

subsection \<open>First fit\<close>

definition first_fit :: "bool list \<Rightarrow> nat \<Rightarrow> nat \<Rightarrow> bool" where
  "first_fit xs n i \<longleftrightarrow> run_at xs i n \<and> (\<forall>j<i. \<not> run_at xs j n)"

lemma run_at_appendD: "run_at (xs @ ys) i n \<Longrightarrow> i + n \<le> length xs \<Longrightarrow> run_at xs i n"
  by (auto simp: run_at_def nth_append)

lemma run_at_appendI: "run_at xs i n \<Longrightarrow> run_at (xs @ ys) i n"
  by (auto simp: run_at_def nth_append)

lemma run_at_append_right: "run_at (xs @ ys) (length xs + i) n \<longleftrightarrow> run_at ys i n"
  by (auto simp: run_at_def nth_append add.assoc)

lemma first_fit_append: "first_fit xs n i \<Longrightarrow> first_fit (xs @ ys) n i"
  unfolding first_fit_def
proof (elim conjE, intro conjI allI impI)
  fix j assume *: "run_at xs i n" "\<forall>j<i. \<not> run_at xs j n" "j < i"
  then have "j + n \<le> length xs" by (simp add: run_at_def)
  then show "\<not> run_at (xs @ ys) j n" using * run_at_appendD by blast
qed (rule run_at_appendI)

text \<open>A run that starts before the boundary and is not inside \<open>xs\<close> ends \<open>xs\<close> with free pages.\<close>

lemma crossing_run:
  assumes "run_at (xs @ ys) j n" "j < length xs" "length xs < j + n"
  shows "length xs - j \<le> free_end xs" "j + n - length xs \<le> free_start ys"
proof -
  have r: "\<forall>k<n. (xs @ ys) ! (j + k)" "j + n \<le> length xs + length ys" using assms(1) by (auto simp: run_at_def)
  show "length xs - j \<le> free_end xs"
    unfolding free_end_def free_start_greatest
  proof (intro conjI allI impI)
    fix k assume "k < length xs - j"
    then have "length xs - Suc k = j + (length xs - Suc k - j)" "length xs - Suc k - j < n"
      "length xs - Suc k < length xs" using assms(2,3) by linarith+
    then have "(xs @ ys) ! (length xs - Suc k)" using r(1) by metis
    then show "rev xs ! k" using \<open>k < length xs - j\<close> by (simp add: nth_append rev_nth)
  qed simp
  show "j + n - length xs \<le> free_start ys"
    unfolding free_start_greatest
  proof (intro conjI allI impI)
    fix k assume k: "k < j + n - length xs"
    have i: "length xs - j + k < n" "j + (length xs - j + k) = length xs + k" using k assms(2,3) by linarith+
    have "(xs @ ys) ! (j + (length xs - j + k))" using r(1) i(1) by blast
    then have "(xs @ ys) ! (length xs + k)" by (simp only: i(2))
    then show "ys ! k" by (simp add: nth_append)
  qed (use r in simp)
qed

lemma back_index:
  fixes l e k :: nat
  assumes "k < e" "e \<le> l"
  shows "l - Suc (e - Suc k) = l - e + k" "l - e + k < l" "e - Suc k < l"
proof -
  obtain a where a: "l = e + a" using assms(2) le_Suc_ex by blast
  obtain b where b: "e = Suc (k + b)" using assms(1) less_iff_Suc_add by auto
  show "l - Suc (e - Suc k) = l - e + k" "l - e + k < l" "e - Suc k < l" by (simp_all add: a b)
qed

lemma no_run_free_max: "free_max xs < n \<longleftrightarrow> (\<forall>i. \<not> run_at xs i n)"
  using free_max_ge_iff [of n xs] by (auto simp flip: not_le)

lemma first_fit_boundary:
  assumes "free_max xs < n" "n \<le> free_end xs + free_start ys"
  shows "first_fit (xs @ ys) n (length xs - free_end xs)"
  unfolding first_fit_def
proof (intro conjI allI impI)
  have e: "free_end xs \<le> length xs" by (rule free_end_le)
  show "run_at (xs @ ys) (length xs - free_end xs) n"
    unfolding run_at_def
  proof (intro conjI allI impI)
    show "length xs - free_end xs + n \<le> length (xs @ ys)"
      using assms(2) e free_start_le [of ys] by simp
    fix k assume k: "k < n"
    show "(xs @ ys) ! (length xs - free_end xs + k)"
    proof (cases "k < free_end xs")
      case True
      then have "rev xs ! (free_end xs - Suc k)"
        using free_start_greatest [of "free_end xs" "rev xs"] by (simp add: free_end_def)
      moreover have "length xs - Suc (free_end xs - Suc k) = length xs - free_end xs + k"
        "length xs - free_end xs + k < length xs" "free_end xs - Suc k < length xs"
        by (rule back_index [OF True e])+
      ultimately show ?thesis by (metis length_rev nth_append rev_nth)
    next
      case False
      then have "k - free_end xs < free_start ys" using k assms(2) by simp
      then have "ys ! (k - free_end xs)" using free_start_greatest [of "free_start ys" ys] by simp
      moreover have "length xs - free_end xs + k = length xs + (k - free_end xs)" using False e by linarith
      ultimately show ?thesis by (simp add: nth_append)
    qed
  qed
  fix j assume j: "j < length xs - free_end xs"
  show "\<not> run_at (xs @ ys) j n"
  proof
    assume r: "run_at (xs @ ys) j n"
    show False
    proof (cases "j + n \<le> length xs")
      case True
      then show False using r assms(1) run_at_appendD no_run_free_max by blast
    next
      case False
      then show False using crossing_run(1) [OF r] j by linarith
    qed
  qed
qed

lemma first_fit_inside:
  assumes "free_max xs < n" "free_end xs + free_start ys < n" "first_fit ys n i"
  shows "first_fit (xs @ ys) n (length xs + i)"
  unfolding first_fit_def
proof (intro conjI allI impI)
  show "run_at (xs @ ys) (length xs + i) n" using assms(3) by (simp add: run_at_append_right first_fit_def)
  fix j assume j: "j < length xs + i"
  show "\<not> run_at (xs @ ys) j n"
  proof
    assume r: "run_at (xs @ ys) j n"
    consider "j + n \<le> length xs" | "j < length xs" "length xs < j + n" | "length xs \<le> j" by linarith
    then show False
    proof cases
      case 1
      then show False using r assms(1) run_at_appendD no_run_free_max by blast
    next
      case 2
      then show False using crossing_run [OF r 2] assms(2) by simp
    next
      case 3
      then have "run_at ys (j - length xs) n" "j - length xs < i"
        using r run_at_append_right [of xs ys "j - length xs" n] j by auto
      then show False using assms(3) by (auto simp: first_fit_def)
    qed
  qed
qed

subsection \<open>Allocating and freeing: correctness\<close>

text \<open>\<open>allocRange\<close> and \<open>free\<close> are the chunk bitmap's range operations.\<close>

interpretation plb: chunk_bitmap pageBits_ok pages allocRange free popcntRange
  by unfold_locales (simp_all add: allocRange_def free_def setRange_pages clearRange_pages popcntRange_pages pages_inject)

text \<open>\<open>findBitRange64\<close> returns for every argument, and for \<open>0 < n \<le> 64\<close> it returns the first index
  of \<open>n\<close> consecutive ones in \<open>c\<close>, or 64 when there are none.\<close>

theorem findBitRange64_correct:
  "\<exists>r. findBitRange64 c n = Some r \<and> (0 < n \<and> n \<le> 64 \<longrightarrow>
    (if \<exists>i. ones c i (unat n) then unat r < 64 \<and> ones c (unat r) (unat n) \<and> (\<forall>i<unat r. \<not> ones c i (unat n))
     else r = 64))"
  using findBitRange64_spec [of n c] findBitRange64_returns [of c n] by blast

theorem findBitRange64_correct_witness:
  "\<exists>r. findBitRange64 0xF0 3 = Some r \<and> (if \<exists>i. ones 0xF0 i (unat (3 :: uint))
     then unat r < 64 \<and> ones 0xF0 (unat r) (unat (3 :: uint)) \<and> (\<forall>i<unat r. \<not> ones 0xF0 i (unat (3 :: uint)))
     else r = 64)"
proof -
  have "0 < (3 :: uint) \<and> (3 :: uint) \<le> 64" by simp
  then show ?thesis using findBitRange64_correct [of "0xF0" 3] by blast
qed

lemma mask_step: "a \<le> 64 \<Longrightarrow> (mask a :: uint64) AND drop_bit k (mask a) = mask (a - k)"
  by (rule bit_word_eqI) (auto simp: bit_simps)

lemma loop_mask:
  assumes "a \<le> 64" "unat k < a" "k < p" "unat k < 64"
  shows "findBitRange64_loop (mask a) p k = findBitRange64_loop (mask (a - unat k)) (p - k) (k * 2)"
proof -
  have "(mask (a - unat k) :: uint64) \<noteq> 0" using assms by (simp add: mask_eq_0_iff)
  then show ?thesis using assms
    by (subst findBitRange64_loop.simps) (auto simp: Let_def and63 mask_step word_gt_0 not_le)
qed

lemma findBitRange64_loop_wide: "findBitRange64_loop (mask 64) 127 1 = Some (Inr (mask 1))"
proof -
  have "findBitRange64_loop (mask 64) 127 1 = findBitRange64_loop (mask 63) 126 2" using loop_mask [of 64 1 127] by simp
  also have "\<dots> = findBitRange64_loop (mask 61) 124 4" using loop_mask [of 63 2 126] by simp
  also have "\<dots> = findBitRange64_loop (mask 57) 120 8" using loop_mask [of 61 4 124] by simp
  also have "\<dots> = findBitRange64_loop (mask 49) 112 16" using loop_mask [of 57 8 120] by simp
  also have "\<dots> = findBitRange64_loop (mask 33) 96 32" using loop_mask [of 49 16 112] by simp
  also have "\<dots> = findBitRange64_loop (mask 1) 64 64" using loop_mask [of 33 32 96] by simp
  also have "\<dots> = Some (Inr (mask 1))" by (subst findBitRange64_loop.simps) simp
  finally show ?thesis .
qed

text \<open>The comment of \<open>findBitRange64\<close> promises a result of at least 64 when there is no run of
  \<open>n\<close> ones, for every \<open>n\<close>; for \<open>n = 128\<close> the last shift is by \<open>64 AND 63 = 0\<close> and the search reports a
  run at index 0 of the full word.  (All callers pass \<open>n \<le> 64\<close>.)\<close>

theorem findBitRange64_wide: "findBitRange64 (NOT 0) 128 = Some 0 \<and> (\<forall>i. \<not> ones (NOT 0) i 128)"
proof
  have "TrailingZeros64 (mask 1) = 0" by (rule TrailingZeros64_eq) simp_all
  moreover have "NOT 0 = (mask 64 :: uint64)" by (rule bit_word_eqI) (simp add: bit_simps)
  ultimately show "findBitRange64 (NOT 0) 128 = Some 0"
    using findBitRange64_loop_wide by (simp only: findBitRange64_def) simp
  show "\<forall>i. \<not> ones (NOT 0) i 128"
  proof
    fix i
    have "\<not> bit (NOT 0 :: uint64) (i + 100)" using bit_imp_le_length [of "NOT 0 :: uint64" "i + 100"] by auto
    then show "\<not> ones (NOT 0) i 128" unfolding ones_def by (meson numeral_less_iff semiring_norm)
  qed
qed

text \<open>\<open>pallocData.allocRange\<close> marks the range allocated and no longer scavenged, leaves all other
  pages as they are, and freeing a range that was free before gives back the allocation bitmap.\<close>

theorem pallocData_allocRange_correct:
  assumes "pageBits_ok (pallocBits m)" "pageBits_ok (scavenged m)" "in_chunk i n"
    "pages (pallocBits m) \<inter> page_range i n = {}"
  shows "\<exists>m'. pallocData_allocRange m i n = Some m' \<and>
    pages (pallocBits m') = pages (pallocBits m) \<union> page_range i n \<and>
    pages (scavenged m') = pages (scavenged m) - page_range i n \<and>
    free (pallocBits m') i n = Some (pallocBits m)"
proof -
  obtain b where b: "allocRange (pallocBits m) i n = Some b" "pages b = pages (pallocBits m) \<union> page_range i n"
    using plb.set_range [OF assms(1,3)] by blast
  obtain s where s: "clearRange (scavenged m) i n = Some s" "pages s = pages (scavenged m) - page_range i n"
    using pb.clear_range [OF assms(2,3)] by blast
  have "free b i n = Some (pallocBits m)" using plb.set_then_clear [OF assms(1,3,4)] b(1) by simp
  then show ?thesis using b s by (simp add: pallocData_allocRange_def)
qed

theorem pallocData_allocRange_correct_witness:
  "\<exists>m'. pallocData_allocRange \<lparr>pallocBits = replicate 8 0, scavenged = replicate 8 (- 1)\<rparr> 60 100 = Some m' \<and>
    pages (pallocBits m') = pages (replicate 8 0) \<union> {60..<160} \<and>
    pages (scavenged m') = pages (replicate 8 (- 1)) - {60..<160} \<and>
    free (pallocBits m') 60 100 = Some (replicate 8 0)"
proof -
  have "pages (replicate 8 0) = {}" by (auto simp: in_pages_iff)
  then show ?thesis
    using pallocData_allocRange_correct [where m = "\<lparr>pallocBits = replicate 8 0, scavenged = replicate 8 (- 1)\<rparr>" and i = 60 and n = 100]
    by (simp add: pageBits_ok_length)
qed

end
