(* ===== verification/PallocFind.thy ===== *)
theory PallocFind
  imports PallocBits
begin

text \<open>
  The searches of \<open>pallocBits.find\<close> (\<open>runtime/mpallocbits.go\<close>: \<open>find1\<close>, \<open>findSmallN\<close>,
  \<open>findLargeN\<close>) return the first fit.  The three loops share one invariant: the pages of the words
  already visited are a list \<open>pre\<close> with no run of \<open>npages\<close> free pages, of which the loop keeps
  only the free pages at its end.
\<close>

subsection \<open>What a search returns\<close>

text \<open>\<open>found off xs n r\<close>: \<open>r\<close> is the index, offset by \<open>off\<close>, of the first run of \<open>n\<close> free pages of
  \<open>xs\<close>, or \<open>^uint(0)\<close> when there is none.\<close>

definition found :: "nat \<Rightarrow> bool list \<Rightarrow> nat \<Rightarrow> uint \<Rightarrow> bool" where
  "found off xs n r \<longleftrightarrow>
     (if free_max xs < n then r = NOT 0 else \<exists>i. first_fit xs n i \<and> r = of_nat (off + i))"

lemma found_none: "free_max xs < n \<Longrightarrow> found off xs n (NOT 0)"
  by (simp add: found_def)

lemma first_fit_free_max: "first_fit xs n i \<Longrightarrow> n \<le> free_max xs"
  by (auto simp: first_fit_def dest: free_max_greatest)

lemma found_some: "first_fit xs n i \<Longrightarrow> r = of_nat (off + i) \<Longrightarrow> found off xs n r"
  using first_fit_free_max by (fastforce simp: found_def)

lemma found_append:
  assumes "found off xs n r" "n \<le> free_max xs"
  shows "found off (xs @ ys) n r"
proof -
  obtain i where "first_fit xs n i" "r = of_nat (off + i)" using assms by (auto simp: found_def)
  then show ?thesis using first_fit_append found_some by blast
qed

lemma first_fit_one: "first_fit xs (Suc 0) i \<longleftrightarrow> i < length xs \<and> xs ! i \<and> (\<forall>j<i. \<not> xs ! j)"
  by (auto simp: first_fit_def run_at_def Suc_le_eq)

lemma not_not_zero: "NOT x = 0 \<longleftrightarrow> x = (NOT 0 :: uint64)"
  by (metis bit.double_compl)

lemma word_free_first:
  assumes "x \<noteq> NOT 0"
  shows "first_fit (word_free x) 1 (TrailingZeros64 (NOT x))"
proof -
  have "NOT x \<noteq> 0" using assms by (simp add: not_not_zero)
  then have "TrailingZeros64 (NOT x) < 64" "bit (NOT x) (TrailingZeros64 (NOT x))"
    by (simp_all add: TrailingZeros64_less_iff bit_TrailingZeros64)
  moreover have "bit x k" if "k < TrailingZeros64 (NOT x)" for k
    using that TrailingZeros64_low [of k "NOT x"] \<open>TrailingZeros64 (NOT x) < 64\<close> by (simp add: bit_not_iff)
  ultimately show ?thesis by (auto simp: first_fit_one nth_word_free bit_not_iff)
qed

lemma word_free_full [simp]: "free_max (word_free (- 1)) = 0"
proof -
  have "\<not> run_at (word_free (- 1)) i 1" for i by (auto simp: run_at_def nth_word_free)
  then have "\<not> 1 \<le> free_max (word_free (- 1))" using free_max_ge_iff by blast
  then show ?thesis by simp
qed

lemma word_free_full_ends [simp]: "free_start (word_free (- 1)) = 0" "free_end (word_free (- 1)) = 0"
  using word_free_full free_start_max [of "word_free (NOT 0)"] free_end_max [of "word_free (NOT 0)"] by simp_all

lemma free_max_word_le: "free_max (word_free x) \<le> 64"
  using free_max_le [of "word_free x"] by simp

text \<open>The update of \<open>newSearchIdx\<close> at each word, which all three searches make.\<close>

lemma small_idx: "n < 2 ^ 63 \<Longrightarrow> (of_nat n :: uint) \<noteq> NOT 0"
proof
  assume n: "n < 2 ^ 63" and eq: "of_nat n = (NOT 0 :: uint)"
  have "unat (of_nat n :: uint) = n" using n by (intro unat_of_nat_small) simp
  moreover have "unat (NOT 0 :: uint) = 2 ^ 64 - 1" by (simp add: unsigned_minus_1_eq_mask mask_eq_exp_minus_1)
  ultimately show False using n eq by simp
qed

lemma newSearchIdx_step:
  assumes "found base pre 1 si" "base + length pre = 64 * i" "64 * i < 2 ^ 63"
  shows "x = NOT 0 \<Longrightarrow> found base (pre @ word_free x) 1 si"
    and "x \<noteq> NOT 0 \<Longrightarrow> found base (pre @ word_free x) 1
      (if si = NOT 0 then of_nat i * 64 + of_nat (TrailingZeros64 (NOT x)) else si)"
proof -
  assume x: "x = NOT 0"
  show "found base (pre @ word_free x) 1 si"
  proof (cases "free_max pre < 1")
    case True
    then have "free_end pre = 0" using free_end_max [of pre] by simp
    then have "free_max (pre @ word_free x) < 1"
      using True by (simp add: free_max_append x word_free_full word_free_full_ends)
    then show ?thesis using assms(1) True by (simp add: found_def)
  next
    case False
    then show ?thesis using found_append assms(1) by (simp add: not_less)
  qed
next
  assume x: "x \<noteq> NOT 0"
  show "found base (pre @ word_free x) 1
      (if si = NOT 0 then of_nat i * 64 + of_nat (TrailingZeros64 (NOT x)) else si)"
  proof (cases "free_max pre < 1")
    case True
    then have si: "si = NOT 0" using assms(1) by (simp add: found_def)
    have "\<not> pre ! j" if "j < length pre" for j
      using that True no_run_free_max [of pre 1] by (auto simp: run_at_def)
    then have ff: "first_fit (pre @ word_free x) 1 (length pre + TrailingZeros64 (NOT x))"
      using word_free_first [OF x] by (auto simp: first_fit_one nth_append)
    have eq: "of_nat i * 64 + of_nat (TrailingZeros64 (NOT x)) =
        (of_nat (base + (length pre + TrailingZeros64 (NOT x))) :: uint)"
      unfolding add.assoc [symmetric] assms(2) of_nat_add by (simp add: assms(2) [symmetric] ac_simps)
    show ?thesis using found_some [OF ff eq] si by (simp only: if_True simp_thms)
  next
    case False
    then obtain k where k: "first_fit pre 1 k" "si = of_nat (base + k)" using assms(1) by (auto simp: found_def)
    have "k < length pre" using k(1) by (simp add: first_fit_one)
    then have "base + k < 2 ^ 63" using assms(2,3) by linarith
    then have "si \<noteq> NOT 0" unfolding k(2) by (rule small_idx)
    then show ?thesis using found_append assms(1) False by (simp add: not_less)
  qed
qed

subsection \<open>The loops\<close>

lemma loop_word:
  assumes "i < length b"
  shows "free_list (drop i b) = word_free (b ! i) @ free_list (drop (Suc i) b)"
  using assms by (simp add: Cons_nth_drop_Suc free_list_Cons [symmetric])

lemma loop_guard: "i \<le> 2 ^ 32 \<Longrightarrow> n \<le> 2 ^ 32 \<Longrightarrow> (of_nat i :: uint) < of_nat n \<longleftrightarrow> i < n"
  by (simp add: word_less_nat_alt)

lemma loop_next: "of_nat i + 1 = (of_nat (Suc i) :: uint)"
  by simp

lemma find1_loop_correct:
  assumes "length b \<le> 2 ^ 32" "i \<le> length b" "free_max pre < 1" "base + length pre = 64 * i"
  shows "found base (pre @ free_list (drop i b)) 1 (find1_loop b (of_nat i))"
  using assms(2-)
proof (induction "length b - i" arbitrary: i pre)
  case 0
  then have "find1_loop b (of_nat i) = NOT 0" by (subst find1_loop.simps) simp
  then show ?case using 0 by (simp add: free_list_def found_def)
next
  case (Suc m)
  then have i: "i < length b" by simp
  have si: "found base pre 1 (NOT 0)" using Suc.prems by (simp add: found_def)
  have step: "find1_loop b (of_nat i) = (if b ! i = NOT 0 then find1_loop b (of_nat (Suc i))
      else of_nat i * 64 + of_nat (TrailingZeros64 (NOT (b ! i))))"
    using i assms(1) by (subst find1_loop.simps) (simp add: loop_guard not_not_zero ac_simps)
  have bound: "64 * i < 2 ^ 63" using i assms(1) by simp
  show ?case
  proof (cases "b ! i = NOT 0")
    case True
    have "found base (pre @ word_free (b ! i)) 1 (NOT 0)"
      using newSearchIdx_step(1) [OF si Suc.prems(3) bound True] .
    moreover have "free_max (pre @ word_free (b ! i)) < 1"
      using Suc.prems(2) free_end_max [of pre] by (simp add: free_max_append True word_free_full word_free_full_ends)
    ultimately have "found base ((pre @ word_free (b ! i)) @ free_list (drop (Suc i) b)) 1 (find1_loop b (of_nat (Suc i)))"
      using Suc i by (intro Suc.hyps) simp_all
    then show ?thesis by (simp only: step True if_True simp_thms loop_word [OF i] append_assoc)
  next
    case False
    have f: "found base (pre @ word_free (b ! i)) 1 (of_nat i * 64 + of_nat (TrailingZeros64 (NOT (b ! i))))"
      using newSearchIdx_step(2) [OF si Suc.prems(3) bound False] by simp
    have "1 \<le> free_max (word_free (b ! i))" using word_free_first [OF False] first_fit_free_max by blast
    then have "1 \<le> free_max (pre @ word_free (b ! i))" by (simp add: free_max_append le_max_iff_disj)
    with f show ?thesis using found_append
      by (simp only: step False if_False loop_word [OF i] append_assoc [symmetric])
  qed
qed

text \<open>One more visited word keeps the invariant when the run is neither across its lower border nor
  inside it.\<close>

lemma free_max_step:
  assumes "free_max pre < n" "free_end pre + free_start (word_free x) < n" "free_max (word_free x) < n"
  shows "free_max (pre @ word_free x) < n"
  using assms by (simp add: free_max_append)

lemma free_end_step:
  "free_end (pre @ word_free x) = (if x = 0 then 64 + free_end pre else LeadingZeros64 x)"
  by (simp add: free_end_append free_end_word) (metis LeadingZeros64_less_iff less_irrefl)

lemma findBitRange64_word:
  assumes "0 < n" "n \<le> 64"
  shows "\<exists>j. findBitRange64 (NOT x) (of_nat n) = Some j \<and>
    (if free_max (word_free x) < n then j = 64 else unat j < 64 \<and> first_fit (word_free x) n (unat j))"
proof -
  have n: "0 < (of_nat n :: uint)" "(of_nat n :: uint) \<le> 64" "unat (of_nat n :: uint) = n"
    using assms by (simp_all add: word_less_nat_alt word_le_nat_alt)
  have in64: "i + n \<le> 64" if "ones (NOT x) i n" for i
  proof -
    have "bit (NOT x) (i + (n - 1))" using that assms(1) unfolding ones_def by (metis diff_less zero_less_one)
    then show ?thesis using bit_imp_le_length [of "NOT x" "i + (n - 1)"] assms(1) by simp
  qed
  have ex: "(\<exists>i. ones (NOT x) i n) \<longleftrightarrow> \<not> free_max (word_free x) < n"
    using in64 by (auto simp: no_run_free_max run_at_word)
  show ?thesis
    using findBitRange64_spec [OF n(1,2), of "NOT x"] ex in64
    by (auto simp: n(3) first_fit_def run_at_word)
qed

lemma sum_ge: "a \<le> 2 ^ 40 \<Longrightarrow> c \<le> 64 \<Longrightarrow> n \<le> (of_nat a + of_nat c :: uint) \<longleftrightarrow> unat n \<le> a + c" for n :: uint
  by (simp add: word_le_nat_alt unat_add_small)

lemma findSmallN_loop_correct:
  assumes "length b \<le> 2 ^ 32" "0 < npages" "npages \<le> 64"
    and "i \<le> length b" "base + length pre = 64 * i" "free_max pre < unat npages" "found base pre 1 si"
  shows "\<exists>r si'. findSmallN_loop b npages (of_nat i) (of_nat (free_end pre)) si = Some (r, si') \<and>
     found base (pre @ free_list (drop i b)) (unat npages) r \<and> found base (pre @ free_list (drop i b)) 1 si'"
  using assms(4-)
proof (induction "length b - i" arbitrary: i pre si)
  case 0
  then have "findSmallN_loop b npages (of_nat i) (of_nat (free_end pre)) si = Some (NOT 0, si)"
    by (subst findSmallN_loop.simps) simp
  then show ?case using 0 by (simp add: free_list_def found_def)
next
  case (Suc m)
  then have i: "i < length b" by simp
  define x where "x = b ! i"
  define n where "n = unat npages"
  have n: "0 < n" "n \<le> 64" "npages = of_nat n"
    using assms(2,3) by (simp_all add: n_def word_less_nat_alt word_le_nat_alt)
  have len: "length pre \<le> 64 * i" using Suc.prems(2) by linarith
  have bound: "64 * i < 2 ^ 63" using i assms(1) by simp
  have e: "free_end pre < n" using Suc.prems(3) free_end_max [of pre] by (simp add: n_def)
  define si' where "si' = (if si = NOT 0 then of_nat i * 64 + of_nat (TrailingZeros64 (NOT x)) else si)"
  have step: "findSmallN_loop b npages (of_nat i) (of_nat (free_end pre)) si =
     (if x = NOT 0 then findSmallN_loop b npages (of_nat (Suc i)) 0 si
      else if n \<le> free_end pre + TrailingZeros64 x then Some (of_nat i * 64 - of_nat (free_end pre), si')
      else do {
        j \<leftarrow> findBitRange64 (NOT x) npages;
        if j < 64 then Some (of_nat i * 64 + j, si')
        else findSmallN_loop b npages (of_nat (Suc i)) (of_nat (LeadingZeros64 x)) si' })"
    using i e n(2) assms(1) TrailingZeros64_le [of x]
    unfolding x_def si'_def n_def of_nat_Suc add.commute [of 1]
    by (subst findSmallN_loop.simps) (simp add: loop_guard not_not_zero sum_ge Let_def)
  have rest: "\<exists>r si''. findSmallN_loop b npages (of_nat (Suc i)) (of_nat (free_end (pre @ word_free x))) s = Some (r, si'') \<and>
     found base (pre @ free_list (drop i b)) n r \<and> found base (pre @ free_list (drop i b)) 1 si''"
    if "free_max (pre @ word_free x) < n" "found base (pre @ word_free x) 1 s" for s
  proof -
    have "m = length b - Suc i" "Suc i \<le> length b" "base + length (pre @ word_free x) = 64 * Suc i"
      using Suc.hyps(2) i Suc.prems(2) by simp_all
    from Suc.hyps(1) [OF this(1,2,3) that [unfolded n_def]]
    show ?thesis by (simp only: n_def loop_word [OF i] x_def append_assoc)
  qed
  show ?case
  proof (cases "x = NOT 0")
    case True
    have "found base (pre @ word_free x) 1 si"
      using newSearchIdx_step(1) [OF Suc.prems(4,2) bound True] .
    moreover have "free_max (pre @ word_free x) < n" "free_end (pre @ word_free x) = 0"
      using Suc.prems(3) e by (simp_all add: True free_max_append free_end_append n_def)
    ultimately show ?thesis using rest [of si] True by (simp add: step n_def)
  next
    case False
    have s1: "found base (pre @ word_free x) 1 si'"
      using newSearchIdx_step(2) [OF Suc.prems(4,2) bound False] unfolding si'_def .
    have "1 \<le> free_max (word_free x)" using word_free_first [OF False] first_fit_free_max by blast
    then have "1 \<le> free_max (pre @ word_free x)" by (simp add: free_max_append le_max_iff_disj)
    from found_append [OF s1 this, of "free_list (drop (Suc i) b)"]
    have s2: "found base (pre @ free_list (drop i b)) 1 si'" by (simp only: loop_word [OF i] x_def append_assoc)
    have fm: "free_max pre < n" using Suc.prems(3) by (simp add: n_def)
    show ?thesis
    proof (cases "n \<le> free_end pre + TrailingZeros64 x")
      case True
      have "first_fit (pre @ word_free x) n (length pre - free_end pre)"
        using first_fit_boundary [OF fm] True by (simp add: free_start_word)
      then have "first_fit (pre @ free_list (drop i b)) n (length pre - free_end pre)"
        using first_fit_append by (simp only: loop_word [OF i] x_def append_assoc [symmetric])
      moreover have "of_nat i * 64 - of_nat (free_end pre) = (of_nat (base + (length pre - free_end pre)) :: uint)"
        using Suc.prems(2) free_end_le [of pre]
        by (simp add: of_nat_diff flip: add_diff_assoc of_nat_mult) (metis mult.commute of_nat_add of_nat_mult of_nat_numeral)
      ultimately have "found base (pre @ free_list (drop i b)) n (of_nat i * 64 - of_nat (free_end pre))"
        by (rule found_some)
      then show ?thesis using True False s2 by (simp add: step n_def)
    next
      case nb: False
      obtain j where j: "findBitRange64 (NOT x) npages = Some j"
        "if free_max (word_free x) < n then j = 64 else unat j < 64 \<and> first_fit (word_free x) n (unat j)"
        using findBitRange64_word [OF n(1,2), of x] n(3) by blast
      have lt: "free_end pre + free_start (word_free x) < n" using nb by (simp add: free_start_word)
      show ?thesis
      proof (cases "free_max (word_free x) < n")
        case True
        have "x \<noteq> 0" using nb n(2) by auto
        then have "free_end (pre @ word_free x) = LeadingZeros64 x" by (simp add: free_end_step)
        moreover have "j = 64" using j(2) True by simp
        ultimately show ?thesis
          using rest [OF free_max_step [OF fm lt True] s1] nb False j(1) by (simp add: step n_def)
      next
        case inside: False
        then have jj: "unat j < 64" "first_fit (word_free x) n (unat j)" using j(2) by simp_all
        have "first_fit ((pre @ word_free x) @ free_list (drop (Suc i) b)) n (length pre + unat j)"
          using first_fit_append [OF first_fit_inside [OF fm lt jj(2)]] .
        then have ff: "first_fit (pre @ free_list (drop i b)) n (length pre + unat j)"
          by (simp only: loop_word [OF i] x_def append_assoc)
        have "of_nat i * 64 + j = of_nat (base + (length pre + unat j))"
          unfolding add.assoc [symmetric] Suc.prems(2) of_nat_add by (simp add: ac_simps)
        from found_some [OF ff this] show ?thesis
          using jj(1) nb False j(1) s2 by (simp add: step n_def word_less_nat_alt)
      qed
    qed
  qed
qed

lemma findLargeN_loop_correct:
  assumes "length b \<le> 2 ^ 32" "64 < npages"
    and "i \<le> length b" "base + length pre = 64 * i" "free_max pre < unat npages" "found base pre 1 si"
    and "free_end pre = 0 \<or> start = of_nat (base + (length pre - free_end pre))"
  shows "\<exists>r si'. findLargeN_loop b npages (of_nat i) start (of_nat (free_end pre)) si = (r, si') \<and>
     found base (pre @ free_list (drop i b)) (unat npages) r \<and> found base (pre @ free_list (drop i b)) 1 si'"
  using assms(3-)
proof (induction "length b - i" arbitrary: i pre si start)
  case 0
  then have len: "free_end pre \<le> 2 ^ 40" using free_end_le [of pre] assms(1) by simp
  have "free_end pre < unat npages" using 0(4) free_end_max [of pre] by simp
  then have "findLargeN_loop b npages (of_nat i) start (of_nat (free_end pre)) si = (NOT 0, si)"
    using 0 len by (subst findLargeN_loop.simps) (simp add: word_less_nat_alt)
  then show ?case using 0 by (simp add: free_list_def found_def)
next
  case (Suc m)
  then have i: "i < length b" by simp
  define x where "x = b ! i"
  define n where "n = unat npages"
  have n: "64 < n" using assms(2) by (simp add: n_def word_less_nat_alt)
  have len: "length pre \<le> 64 * i" using Suc.prems(2) by linarith
  have bound: "64 * i < 2 ^ 63" using i assms(1) by simp
  have fm: "free_max pre < n" using Suc.prems(3) by (simp add: n_def)
  have e: "free_end pre < n" using fm free_end_max [of pre] by simp
  have e40: "free_end pre \<le> 2 ^ 39" using free_end_le [of pre] len i assms(1) by simp
  define si' where "si' = (if si = NOT 0 then of_nat i * 64 + of_nat (TrailingZeros64 (NOT x)) else si)"
  define st' where "st' = of_nat i * 64 + 64 - (of_nat (LeadingZeros64 x) :: uint)"
  have step: "findLargeN_loop b npages (of_nat i) start (of_nat (free_end pre)) si =
     (if x = NOT 0 then findLargeN_loop b npages (of_nat (Suc i)) start 0 si
      else if free_end pre = 0 then findLargeN_loop b npages (of_nat (Suc i)) st' (of_nat (LeadingZeros64 x)) si'
      else if n \<le> free_end pre + TrailingZeros64 x then (start, si')
      else if x \<noteq> 0 then findLargeN_loop b npages (of_nat (Suc i)) st' (of_nat (LeadingZeros64 x)) si'
      else findLargeN_loop b npages (of_nat (Suc i)) start (of_nat (free_end pre) + 64) si')"
    using i e n e40 assms(1) TrailingZeros64_le [of x] TrailingZeros64_less_iff [of x]
    unfolding x_def si'_def n_def of_nat_Suc add.commute [of 1] st'_def
    by (subst findLargeN_loop.simps)
      (simp add: loop_guard not_not_zero sum_ge Let_def word_less_nat_alt add.commute [of "of_nat (TrailingZeros64 _)"]
        unat_eq_zero [symmetric])
  have rest: "\<exists>r si''. findLargeN_loop b npages (of_nat (Suc i)) s (of_nat (free_end (pre @ word_free x))) s0 = (r, si'') \<and>
     found base (pre @ free_list (drop i b)) n r \<and> found base (pre @ free_list (drop i b)) 1 si''"
    if "free_max (pre @ word_free x) < n" "found base (pre @ word_free x) 1 s0"
       "free_end (pre @ word_free x) = 0 \<or> s = of_nat (base + (length (pre @ word_free x) - free_end (pre @ word_free x)))" for s s0
  proof -
    have "m = length b - Suc i" "Suc i \<le> length b" "base + length (pre @ word_free x) = 64 * Suc i"
      using Suc.hyps(2) i Suc.prems(2) by simp_all
    from Suc.hyps(1) [OF this(1,2,3) that(1) [unfolded n_def] that(2,3)]
    show ?thesis by (simp only: n_def loop_word [OF i] x_def append_assoc)
  qed
  show ?case
  proof (cases "x = NOT 0")
    case True
    have "found base (pre @ word_free x) 1 si"
      using newSearchIdx_step(1) [OF Suc.prems(4,2) bound True] .
    moreover have "free_max (pre @ word_free x) < n" "free_end (pre @ word_free x) = 0"
      using fm e by (simp_all add: True free_max_append free_end_append)
    ultimately show ?thesis using rest [of si] True by (simp add: step n_def)
  next
    case False
    have s1: "found base (pre @ word_free x) 1 si'"
      using newSearchIdx_step(2) [OF Suc.prems(4,2) bound False] unfolding si'_def .
    have "1 \<le> free_max (word_free x)" using word_free_first [OF False] first_fit_free_max by blast
    then have "1 \<le> free_max (pre @ word_free x)" by (simp add: free_max_append le_max_iff_disj)
    from found_append [OF s1 this, of "free_list (drop (Suc i) b)"]
    have s2: "found base (pre @ free_list (drop i b)) 1 si'" by (simp only: loop_word [OF i] x_def append_assoc)
    have wlt: "free_max (word_free x) < n" using free_max_word_le [of x] n by linarith
    have st: "st' = of_nat (base + (length (pre @ word_free x) - LeadingZeros64 x))"
    proof -
      have "base + (length (pre @ word_free x) - LeadingZeros64 x) = (64 * i + 64) - LeadingZeros64 x"
        using Suc.prems(2) LeadingZeros64_le [of x] by simp
      then show ?thesis using LeadingZeros64_le [of x] by (simp add: st'_def of_nat_diff)
    qed
    consider "free_end pre = 0" | "free_end pre \<noteq> 0" "n \<le> free_end pre + TrailingZeros64 x"
      | "free_end pre \<noteq> 0" "\<not> n \<le> free_end pre + TrailingZeros64 x" "x \<noteq> 0"
      | "free_end pre \<noteq> 0" "\<not> n \<le> free_end pre + TrailingZeros64 x" "x = 0" by blast
    then show ?thesis
    proof cases
      case 1
      have lt: "free_end pre + free_start (word_free x) < n"
        using 1 n free_start_le [of "word_free x"] by simp
      have fe: "free_end (pre @ word_free x) = LeadingZeros64 x" using 1 by (simp add: free_end_step)
      have eq: "findLargeN_loop b npages (of_nat i) start (of_nat (free_end pre)) si =
          findLargeN_loop b npages (of_nat (Suc i)) st' (of_nat (LeadingZeros64 x)) si'"
        unfolding step using 1 False by simp
      have c: "free_end (pre @ word_free x) = 0 \<or>
          st' = of_nat (base + (length (pre @ word_free x) - free_end (pre @ word_free x)))"
        by (rule disjI2) (unfold fe, rule st)
      show ?thesis unfolding eq
        by (rule rest [OF free_max_step [OF fm lt wlt] s1 c, unfolded fe n_def])
    next
      case 2
      have "first_fit (pre @ word_free x) n (length pre - free_end pre)"
        using first_fit_boundary [OF fm] 2 by (simp add: free_start_word)
      then have ff: "first_fit (pre @ free_list (drop i b)) n (length pre - free_end pre)"
        using first_fit_append by (simp only: loop_word [OF i] x_def append_assoc [symmetric])
      have "start = of_nat (base + (length pre - free_end pre))" using 2(1) Suc.prems(5) by simp
      from found_some [OF ff this] have "found base (pre @ free_list (drop i b)) n start" .
      moreover have "findLargeN_loop b npages (of_nat i) start (of_nat (free_end pre)) si = (start, si')"
        unfolding step using 2 False by simp
      ultimately show ?thesis using s2 by (simp add: n_def)
    next
      case 3
      have lt: "free_end pre + free_start (word_free x) < n" using 3 by (simp add: free_start_word)
      have "free_end (pre @ word_free x) = LeadingZeros64 x" using 3 by (simp add: free_end_step)
      then show ?thesis
        using rest [OF free_max_step [OF fm lt wlt] s1, of st'] st False 3 by (simp add: step n_def)
    next
      case 4
      have lt: "free_end pre + free_start (word_free x) < n" using 4 by (simp add: free_start_word)
      have fe: "free_end (pre @ word_free x) = 64 + free_end pre" using 4 by (simp add: free_end_step)
      have eq: "findLargeN_loop b npages (of_nat i) start (of_nat (free_end pre)) si =
          findLargeN_loop b npages (of_nat (Suc i)) start (of_nat (64 + free_end pre)) si'"
        unfolding step using 4 False by (simp add: add.commute)
      have "start = of_nat (base + (length (pre @ word_free x) - free_end (pre @ word_free x)))"
        using Suc.prems(5) 4(1) fe by simp
      then have c: "free_end (pre @ word_free x) = 0 \<or>
          start = of_nat (base + (length (pre @ word_free x) - free_end (pre @ word_free x)))" ..
      show ?thesis unfolding eq
        by (rule rest [OF free_max_step [OF fm lt wlt] s1 c, unfolded fe n_def])
    qed
  qed
qed

subsection \<open>The search of a chunk\<close>

text \<open>The specification: try every start page in order.\<close>

definition first_run :: "bool list \<Rightarrow> nat \<Rightarrow> nat option" where
  "first_run xs n = List.find (\<lambda>i. run_at xs i n) [0..<length xs]"

definition idx_or_none :: "nat option \<Rightarrow> uint" where
  "idx_or_none r = (case r of None \<Rightarrow> NOT 0 | Some i \<Rightarrow> of_nat i)"

lemma first_run_eq:
  assumes "0 < n"
  shows "first_run xs n = Some i \<longleftrightarrow> first_fit xs n i"
proof -
  have l: "i < length xs" if "run_at xs i n" for i using that assms by (simp add: run_at_def)
  show ?thesis
  proof
    assume "first_run xs n = Some i"
    then show "first_fit xs n i" unfolding first_run_def find_Some_iff first_fit_def by auto
  next
    assume "first_fit xs n i"
    then have i: "run_at xs i n" "\<forall>j<i. \<not> run_at xs j n" by (auto simp: first_fit_def)
    have "\<not> run_at xs ([0..<length xs] ! j) n" if "j < i" for j
      using i(2) that l [OF i(1)] by simp
    then show "first_run xs n = Some i"
      unfolding first_run_def find_Some_iff using i l [OF i(1)] by (auto intro!: exI [of _ i])
  qed
qed

lemma found_first_run:
  assumes "found 0 xs n r" "0 < n"
  shows "r = idx_or_none (first_run xs n)"
proof (cases "free_max xs < n")
  case True
  then have "\<not> first_fit xs n i" for i using first_fit_free_max by fastforce
  then have "first_run xs n = None" using first_run_eq [OF assms(2)] by (cases "first_run xs n") auto
  then show ?thesis using True assms(1) by (simp add: found_def idx_or_none_def)
next
  case False
  then obtain i where i: "first_fit xs n i" "r = of_nat i" using assms(1) by (auto simp: found_def)
  then have "first_run xs n = Some i" using first_run_eq [OF assms(2)] by simp
  then show ?thesis using i(2) by (simp add: idx_or_none_def)
qed

text \<open>The search starts at the word of \<open>searchIdx\<close>; when no page below that word is free this finds
  the first fit of the chunk.\<close>

lemma found_from_base:
  assumes "found base (drop base xs) n r" "0 < n" "base \<le> length xs" "\<forall>k<base. \<not> xs ! k"
  shows "found 0 xs n r"
proof -
  have pre: "\<not> run_at xs j n" if "j < base" for j
    using that assms(2,4) by (auto simp: run_at_def)
  have post: "run_at xs (base + j) n \<longleftrightarrow> run_at (drop base xs) j n" for j
    using run_at_append_right [of "take base xs" "drop base xs" j n] assms(3) by simp
  show ?thesis
  proof (cases "free_max (drop base xs) < n")
    case True
    have "\<not> run_at xs j n" for j
    proof (cases "j < base")
      case False
      then show ?thesis using post [of "j - base"] True no_run_free_max [of "drop base xs" n] by simp
    qed (rule pre)
    then have "free_max xs < n" using no_run_free_max by blast
    then show ?thesis using True assms(1) by (simp add: found_def)
  next
    case False
    then obtain i where i: "first_fit (drop base xs) n i" "r = of_nat (base + i)"
      using assms(1) by (auto simp: found_def)
    have "\<not> run_at xs j n" if "j < base + i" for j
    proof (cases "j < base")
      case False
      then have "base + (j - base) = j" "j - base < i" using that by simp_all
      then show ?thesis using post [of "j - base"] i(1) by (auto simp: first_fit_def)
    qed (rule pre)
    then have ff: "first_fit xs n (base + i)" using i(1) post [of i] by (auto simp: first_fit_def)
    show ?thesis by (rule found_some [OF ff]) (use i(2) in simp)
  qed
qed

lemma drop_free_list: "drop (64 * i) (free_list b) = free_list (drop i b)"
proof (induction i arbitrary: b)
  case (Suc i)
  show ?case
  proof (cases b)
    case (Cons x b')
    then show ?thesis using Suc [of b'] by (simp add: free_list_Cons)
  qed (simp add: free_list_def)
qed simp

lemma palloc_find_from_word:
  assumes "pageBits_ok b" "0 < npages" "searchIdx < 512"
  defines "base \<equiv> 64 * (unat searchIdx div 64)"
  shows "\<exists>r si. palloc_find b npages searchIdx = Some (r, si) \<and>
    found base (drop base (free_list b)) (unat npages) r \<and> found base (drop base (free_list b)) 1 si"
proof -
  define i where "i = unat searchIdx div 64"
  have b: "length b = 8" using assms(1) by (simp add: pageBits_ok_length)
  have "i < 8" using assms(3) by (simp add: i_def word_less_nat_alt less_mult_imp_div_less)
  then have i: "i \<le> length b" and w: "searchIdx div 64 = of_nat i"
    using b by (simp_all add: i_def unat_div64 [symmetric])
  have base: "base + length ([] :: bool list) = 64 * i" by (simp add: base_def i_def)
  have l: "length b \<le> 2 ^ 32" using b by simp
  have none: "found base [] 1 (NOT 0)" "free_max [] < unat npages" "free_end [] = 0"
    using assms(2) by (simp_all add: found_def word_less_nat_alt free_end_def)
  have drop: "drop base (free_list b) = free_list (drop i b)" using drop_free_list by (simp add: base_def i_def)
  consider "npages = 1" | "npages \<noteq> 1" "npages \<le> 64" | "64 < npages" "npages \<noteq> 1" by force
  then show ?thesis
  proof cases
    case 1
    have "found base ([] @ free_list (drop i b)) 1 (find1_loop b (of_nat i))"
      using find1_loop_correct [OF l i _ base] by simp
    then show ?thesis using 1 by (simp add: palloc_find_def find1_def w drop Let_def)
  next
    case 2
    from findSmallN_loop_correct [OF l assms(2) 2(2) i base none(2,1)]
    show ?thesis using 2 none(3) by (simp add: palloc_find_def findSmallN_def w drop)
  next
    case 3
    from findLargeN_loop_correct [OF l 3(1) i base none(2,1), of "NOT 0"]
    moreover have "\<not> npages \<le> 64" using 3(1) by simp
    ultimately show ?thesis using 3(2) none(3) by (simp add: palloc_find_def findLargeN_def w drop)
  qed
qed

lemma palloc_find_found:
  assumes "pageBits_ok b" "0 < npages" "searchIdx < 512" "\<forall>k<unat searchIdx. k \<in> pages b"
  shows "\<exists>r si. palloc_find b npages searchIdx = Some (r, si) \<and> found 0 (free_list b) (unat npages) r \<and> found 0 (free_list b) 1 si"
proof -
  define base where "base = 64 * (unat searchIdx div 64)"
  have s: "unat searchIdx < 512" using assms(3) by (simp add: word_less_nat_alt)
  have le: "base \<le> unat searchIdx" by (simp add: base_def)
  have base: "base \<le> length (free_list b)" using s le assms(1) by (simp add: pageBits_ok_length)
  have free: "\<forall>k<base. \<not> free_list b ! k"
    using assms(1,4) le s by (auto simp: free_list_pages)
  obtain r si where *: "palloc_find b npages searchIdx = Some (r, si)"
    "found base (drop base (free_list b)) (unat npages) r" "found base (drop base (free_list b)) 1 si"
    using palloc_find_from_word [OF assms(1-3)] unfolding base_def by blast
  have n: "0 < unat npages" using assms(2) by (simp add: word_less_nat_alt)
  show ?thesis
    using *(1) found_from_base [OF *(2) n base free] found_from_base [OF *(3) zero_less_one base free] by blast
qed

text \<open>C18:  \<open>pallocBits.find\<close> terminates and, when no page before \<open>searchIdx\<close> is free (what its comment
  asks of the hint), returns the first run of \<open>npages\<close> free pages of the chunk, or \<open>^uint(0)\<close> when there
  is none, and as the new hint the first free page of the chunk: the three search routines agree with
  trying every start page in order.\<close>

theorem palloc_find_first_fit:
  assumes "pageBits_ok b" "0 < npages" "searchIdx < 512" "\<forall>k<unat searchIdx. k \<in> pages b"
  shows "palloc_find b npages searchIdx =
    Some (idx_or_none (first_run (free_list b) (unat npages)), idx_or_none (first_run (free_list b) 1))"
proof -
  have "0 < unat npages" using assms(2) by (simp add: word_less_nat_alt)
  then show ?thesis using palloc_find_found [OF assms] found_first_run by (metis zero_less_one)
qed

definition sample_bits :: pallocBits where
  "sample_bits = [NOT 0, 0x8000000000000001, 0, 0, 1, NOT 0, NOT 0, NOT 0]"

theorem palloc_find_first_fit_witness:
  "palloc_find sample_bits 100 64 =
    Some (idx_or_none (first_run (free_list sample_bits) 100), idx_or_none (first_run (free_list sample_bits) 1))"
proof -
  have "k \<in> pages sample_bits" if "k < 64" for k
    using that by (simp add: pages_def pb_bit_def sample_bits_def)
  then have "\<forall>k<unat (64 :: uint). k \<in> pages sample_bits" by simp
  moreover have "pageBits_ok sample_bits" by (simp add: sample_bits_def pageBits_ok_def pallocChunkPages_def)
  ultimately show ?thesis using palloc_find_first_fit [of sample_bits 100 64] by simp
qed

end
