(* ===== verification/PallocSummarize.thy ===== *)
theory PallocSummarize
  imports PallocBits
begin

text \<open>
  \<open>pallocBits.summarize\<close> (\<open>runtime/mpallocbits.go\<close>) computes the summary of a chunk in two passes
  over its words.  The first finds the runs of free pages that touch a word boundary.  The second
  looks inside each word for a longer run: it shrinks all runs of zeros at once by or-ing the word
  with shifted copies of itself, so that only a run longer than the best so far survives.
\<close>

subsection \<open>Gaps of a word\<close>

text \<open>\<open>gap X i n\<close>: \<open>n\<close> zeros from bit \<open>i\<close> on with a one above them.\<close>

definition gap :: "uint64 \<Rightarrow> nat \<Rightarrow> nat \<Rightarrow> bool" where
  "gap X i n \<longleftrightarrow> (\<forall>j<n. \<not> bit X (i + j)) \<and> bit X (i + n)"

text \<open>\<open>window X o q x\<close>: \<open>x\<close> is \<open>X\<close> with its runs of zeros shrunk by \<open>q\<close>, shifted down by \<open>o\<close>.\<close>

definition window :: "uint64 \<Rightarrow> nat \<Rightarrow> nat \<Rightarrow> uint64 \<Rightarrow> bool" where
  "window X off q x \<longleftrightarrow> (\<forall>i. bit x i \<longleftrightarrow> (\<exists>d\<le>q. bit X (off + i + d)))"

text \<open>\<open>spaced x k\<close>: above every zero that ends a run of zeros there are at least \<open>k\<close> ones.\<close>

definition spaced :: "uint64 \<Rightarrow> nat \<Rightarrow> bool" where
  "spaced x k \<longleftrightarrow> (\<forall>i j. \<not> bit x i \<and> bit x (Suc i) \<and> j < k \<longrightarrow> bit x (Suc i + j))"

lemma spacedD: "spaced x k \<Longrightarrow> \<not> bit x i \<Longrightarrow> bit x (Suc i) \<Longrightarrow> j < k \<Longrightarrow> bit x (Suc i + j)"
  by (simp add: spaced_def)

lemma bit64_less: "bit (x :: uint64) k \<Longrightarrow> k < 64"
  using bit_imp_le_length [of x k] by simp

lemma no_zero_below_one: "x AND (x + 1) = (0 :: uint64) \<longleftrightarrow> (\<forall>k. bit x k \<longrightarrow> (\<forall>j<k. bit x j))"
proof (cases "NOT x = 0")
  case True
  then have "x = - 1" by (metis bit.double_compl bit.compl_zero)
  then show ?thesis by (auto dest: order.strict_trans)
next
  case False
  then obtain m where m: "m < 64" "\<not> bit x m" "\<And>k. k < m \<Longrightarrow> bit x k"
    by (rule lowest_bit_obtain) (auto simp: bit_not_iff)
  have plus: "bit (x + 1) k \<longleftrightarrow> k = m \<or> m < k \<and> bit x k" for k
    using m by (intro bit_plus_one) auto
  have "x AND (x + 1) = 0 \<longleftrightarrow> (\<forall>k. \<not> (bit x k \<and> m < k))"
    using m(2) by (auto simp: word_eq_zero_iff_bits bit_and_iff plus dest: bit64_less)
  also have "\<dots> \<longleftrightarrow> (\<forall>k. bit x k \<longrightarrow> (\<forall>j<k. bit x j))"
    using m(2,3) by (metis nat_neq_iff order.strict_trans)
  finally show ?thesis .
qed

lemma window_one: "window X off q x \<Longrightarrow> bit X (off + i) \<Longrightarrow> bit x i"
  by (force simp: window_def)

lemma ascent:
  assumes "\<not> bit x i" "bit x (i + d)"
  shows "\<exists>e<d. \<not> bit x (i + e) \<and> bit x (Suc (i + e))"
proof (rule ccontr)
  assume *: "\<not> (\<exists>e<d. \<not> bit x (i + e) \<and> bit x (Suc (i + e)))"
  have "\<not> bit x (i + e)" if "e \<le> d" for e using that
  proof (induction e)
    case (Suc e)
    then have "\<not> bit x (i + e)" "e < d" by simp_all
    then show ?case using * by auto
  qed (use assms(1) in simp)
  then show False using assms(2) by blast
qed

lemma window_shrink:
  assumes "window X off q x" "spaced x k" "t \<le> k"
  shows "window X off (q + t) (x OR drop_bit t x)"
  unfolding window_def
proof (intro allI iffI)
  fix i assume "bit (x OR drop_bit t x) i"
  then consider "bit x i" | "bit x (t + i)" by (auto simp: bit_or_iff bit_drop_bit_eq)
  then show "\<exists>d\<le>q + t. bit X (off + i + d)"
  proof cases
    case 1
    then obtain d where "d \<le> q" "bit X (off + i + d)" using assms(1) by (auto simp: window_def)
    then show ?thesis by (intro exI [of _ d]) simp
  next
    case 2
    then obtain d where "d \<le> q" "bit X (off + (t + i) + d)" using assms(1) by (auto simp: window_def)
    then show ?thesis by (intro exI [of _ "t + d"]) (simp add: ac_simps)
  qed
next
  fix i assume "\<exists>d\<le>q + t. bit X (off + i + d)"
  then obtain d where d: "d \<le> q + t" "bit X (off + i + d)" by blast
  consider "d \<le> q" | "t \<le> d" | "d < t" by linarith
  then have "bit x i \<or> bit x (t + i)"
  proof cases
    case 1
    then show ?thesis using d assms(1) by (auto simp: window_def)
  next
    case 2
    then have "d - t \<le> q" "off + (t + i) + (d - t) = off + i + d" using d(1) by simp_all
    then show ?thesis using d(2) assms(1) unfolding window_def by metis
  next
    case 3
    show ?thesis
    proof (cases "bit x i")
      case False
      have "bit x (i + d)" using window_one [OF assms(1)] d(2) by (simp add: ac_simps)
      then obtain e where e: "e < d" "\<not> bit x (i + e)" "bit x (Suc (i + e))" using ascent False by blast
      have "t - Suc e < k" using e(1) 3 assms(3) by linarith
      then have "bit x (Suc (i + e) + (t - Suc e))" using spacedD [OF assms(2) e(2,3)] by blast
      moreover have "Suc (i + e) + (t - Suc e) = t + i" using e(1) 3 by simp
      ultimately show ?thesis by metis
    qed simp
  qed
  then show "bit (x OR drop_bit t x) i" by (simp add: bit_or_iff bit_drop_bit_eq)
qed

lemma spaced_shrink:
  assumes "spaced x k" "0 < t" "t \<le> k"
  shows "spaced (x OR drop_bit t x) (k + t)"
  unfolding spaced_def
proof (intro allI impI, elim conjE)
  fix i j assume i: "\<not> bit (x OR drop_bit t x) i" "bit (x OR drop_bit t x) (Suc i)" and j: "j < k + t"
  then have x: "\<not> bit x i" "\<not> bit x (t + i)" "bit x (Suc i) \<or> bit x (Suc (t + i))"
    by (auto simp: bit_or_iff bit_drop_bit_eq)
  have "\<not> bit x (Suc i)"
  proof
    assume "bit x (Suc i)"
    moreover have "t - 1 < k" "Suc i + (t - 1) = t + i" using assms(2,3) by simp_all
    ultimately show False using x(2) spacedD [OF assms(1) x(1)] by metis
  qed
  then have up: "bit x (Suc (t + i))" using x by blast
  have ones: "bit x (Suc (t + i) + j')" if "j' < k" for j'
    using spacedD [OF assms(1) x(2) up that] .
  show "bit (x OR drop_bit t x) (Suc i + j)"
  proof (cases "j < k")
    case True
    then show ?thesis using ones [OF True] by (simp add: bit_or_iff bit_drop_bit_eq ac_simps)
  next
    case False
    then have "j - t < k" "Suc (t + i) + (j - t) = Suc i + j" using j assms by simp_all
    then show ?thesis using ones [of "j - t"] by (simp add: bit_or_iff)
  qed
qed

lemma window_drop:
  assumes "window X off q x"
  shows "window X (off + j) q (drop_bit j x)"
  using assms by (simp add: window_def bit_drop_bit_eq ac_simps)

lemma spaced_drop: "spaced x k \<Longrightarrow> spaced (drop_bit j x) k"
  by (auto simp: spaced_def bit_drop_bit_eq) (metis add_Suc_right add.assoc)

lemma spaced_mono: "spaced x k \<Longrightarrow> k' \<le> k \<Longrightarrow> spaced x k'"
  unfolding spaced_def by (meson order.strict_trans2)

text \<open>When no zero is left below a one, no gap above the offset is longer than the shrinkage.\<close>

lemma window_done:
  assumes "window X off q x" "x AND (x + 1) = 0" "gap X (off + i) n"
  shows "n \<le> q"
proof (rule ccontr)
  assume n: "\<not> n \<le> q"
  have "bit X (off + (i + n))" using assms(3) by (simp add: gap_def ac_simps)
  then have "bit x (i + n)" by (rule window_one [OF assms(1)])
  then have "bit x i" using assms(2) n by (simp add: no_zero_below_one)
  then obtain d where "d \<le> q" "bit X (off + i + d)" using assms(1) by (auto simp: window_def)
  then show False using assms(3) n by (auto simp: gap_def)
qed

subsection \<open>The loops of the second pass\<close>

lemma and63_small: "unat p < 64 \<Longrightarrow> unat (p AND 63 :: uint64) = unat p"
  by (simp only: and63) simp

lemma summarize_shrink_spec:
  assumes "window X off q x" "spaced x (unat k)" "0 < unat k" "unat p < 64" "x AND (x + 1) \<noteq> 0"
  shows "\<exists>r. summarize_shrink x p k = Some r \<and> (case r of
      NoMoreZeros \<Rightarrow> \<exists>q'\<le>q + unat p. \<exists>y. window X off q' y \<and> y AND (y + 1) = 0
    | Shrunk y k' \<Rightarrow> window X off (q + unat p) y \<and> spaced y (unat k') \<and> 0 < unat k' \<and> y AND (y + 1) \<noteq> 0)"
  using assms
proof (induction "unat p" arbitrary: p k x q rule: less_induct)
  case less
  consider "p = 0" | "0 < p" "p \<le> k" | "k < p"
    by (cases "p = 0"; cases "p \<le> k") (auto simp: word_gt_0 not_le)
  then show ?case
  proof cases
    case 1
    then show ?thesis using less.prems by (simp add: summarize_shrink.simps)
  next
    case 2
    define y where "y = x OR drop_bit (unat p) x"
    have p: "0 < unat p" "unat p \<le> unat k" using 2 by (simp_all add: word_less_nat_alt word_le_nat_alt)
    have w: "window X off (q + unat p) y"
      unfolding y_def by (rule window_shrink [OF less.prems(1,2) p(2)])
    have s: "spaced y (unat k)"
      unfolding y_def by (rule spaced_mono [OF spaced_shrink [OF less.prems(2) p]]) simp
    have eq: "summarize_shrink x p k = (if y AND (y + 1) = 0 then Some NoMoreZeros else Some (Shrunk y k))"
      using 2 by (subst summarize_shrink.simps) (simp add: y_def and63_small [OF less.prems(4)] Let_def)
    show ?thesis
    proof (cases "y AND (y + 1) = 0")
      case True
      have "\<exists>q'\<le>q + unat p. \<exists>y. window X off q' y \<and> y AND (y + 1) = 0" using w True by blast
      then show ?thesis using True by (simp add: eq)
    next
      case False
      then show ?thesis using w s less.prems(3) by (simp add: eq)
    qed
  next
    case 3
    define y where "y = x OR drop_bit (unat k) x"
    have k: "unat k < unat p" "unat k < 64" using 3 less.prems(4) by (simp_all add: word_less_nat_alt)
    have u: "unat (p - k) = unat p - unat k" "unat (k * 2) = unat k + unat k"
      using k by (simp_all add: unat_sub_small unat_mult_small)
    have w: "window X off (q + unat k) y"
      unfolding y_def by (rule window_shrink [OF less.prems(1,2)]) simp
    have s: "spaced y (unat (k * 2))"
      unfolding y_def u by (rule spaced_shrink [OF less.prems(2,3)]) simp
    have eq: "summarize_shrink x p k =
        (if y AND (y + 1) = 0 then Some NoMoreZeros else summarize_shrink y (p - k) (k * 2))"
      using 3 by (subst summarize_shrink.simps)
        (auto simp: y_def and63_small [OF k(2)] Let_def word_gt_0 not_le)
    show ?thesis
    proof (cases "y AND (y + 1) = 0")
      case True
      have "\<exists>q'\<le>q + unat p. \<exists>y. window X off q' y \<and> y AND (y + 1) = 0"
        using w True k by (intro exI [of _ "q + unat k"]) auto
      then show ?thesis using True by (simp add: eq)
    next
      case False
      have total: "q + unat k + unat (p - k) = q + unat p" using k by (simp add: u)
      have "\<exists>r. summarize_shrink y (p - k) (k * 2) = Some r \<and> (case r of
          NoMoreZeros \<Rightarrow> \<exists>q'\<le>q + unat k + unat (p - k). \<exists>y. window X off q' y \<and> y AND (y + 1) = 0
        | Shrunk y k' \<Rightarrow> window X off (q + unat k + unat (p - k)) y \<and> spaced y (unat k') \<and> 0 < unat k' \<and>
            y AND (y + 1) \<noteq> 0)"
        using less.prems(3,4) k w s False by (intro less.hyps) (simp_all only: u, simp_all)
      then show ?thesis using False by (simp only: eq total if_False)
    qed
  qed
qed

text \<open>One round: the lowest gap that survived the shrinkage is the longest so far.\<close>

lemma surviving_gap:
  assumes w: "window X off m y" and ones: "\<forall>i<j1. bit y i"
    and zeros: "\<forall>i<j2. \<not> bit y (j1 + i)" and one: "bit y (j1 + j2)" and "0 < j2"
    and below: "\<forall>i n. i < off \<longrightarrow> gap X i n \<longrightarrow> n \<le> m"
  shows "gap X (off + j1) (m + j2)"
    and "\<And>i n. i < off + (j1 + j2) \<Longrightarrow> gap X i n \<Longrightarrow> n \<le> m + j2"
proof -
  have z: "\<not> bit X (off + j1 + t)" if "t < m + j2" for t
  proof (cases "t < j2")
    case True
    then show ?thesis using zeros True window_one [OF w, of "j1 + t"] by (auto simp: add.assoc)
  next
    case False
    then have t: "j2 - 1 < j2" "t - (j2 - 1) \<le> m" using that assms(5) by simp_all
    then have "\<not> bit y (j1 + (j2 - 1))" using zeros by blast
    moreover have "off + (j1 + (j2 - 1)) + (t - (j2 - 1)) = off + j1 + t" using False assms(5) by simp
    ultimately show ?thesis using w t(2) unfolding window_def by metis
  qed
  obtain d where d: "d \<le> m" "bit X (off + (j1 + j2) + d)" using one w by (auto simp: window_def)
  have "d = m"
  proof (rule ccontr)
    assume "d \<noteq> m"
    then have "j2 + d < m + j2" using d(1) by simp
    from z [OF this] show False using d(2) by (simp add: add.assoc)
  qed
  then have top: "bit X (off + j1 + (m + j2))" using d(2) by (simp add: ac_simps)
  then show "gap X (off + j1) (m + j2)" using z by (simp add: gap_def)
  fix i n assume i: "i < off + (j1 + j2)" and g: "gap X i n"
  show "n \<le> m + j2"
  proof (rule ccontr)
    assume n: "\<not> n \<le> m + j2"
    consider "i < off" | "off \<le> i" "i - off < j1" | "off + j1 \<le> i" using i by linarith
    then show False
    proof cases
      case 1
      then show False using below g n by (meson le_add1 order_trans)
    next
      case 2
      then obtain d where "d \<le> m" "bit X (off + (i - off) + d)"
        using ones w by (auto simp: window_def)
      then show False using g n 2 by (auto simp: gap_def)
    next
      case 3
      have "off + j1 + (m + j2) - i < n" "i + (off + j1 + (m + j2) - i) = off + j1 + (m + j2)"
        using 3 n i by simp_all
      then show False using g top unfolding gap_def by metis
    qed
  qed
qed

text \<open>\<open>longest X b0 m\<close>: \<open>m\<close> is the longest gap of \<open>X\<close>, or \<open>b0\<close> when no gap is longer.\<close>

definition longest :: "uint64 \<Rightarrow> nat \<Rightarrow> nat \<Rightarrow> bool" where
  "longest X b0 m \<longleftrightarrow> b0 \<le> m \<and> (m = b0 \<or> (\<exists>i. gap X i m)) \<and> (\<forall>i n. gap X i n \<longrightarrow> n \<le> m)"

lemma gap_less: "gap X i n \<Longrightarrow> i + n < 64"
  by (auto simp: gap_def dest: bit64_less)

lemma gap_split: "(\<forall>i n. gap X i n \<longrightarrow> n \<le> m) \<longleftrightarrow>
    (\<forall>i n. i < off \<longrightarrow> gap X i n \<longrightarrow> n \<le> m) \<and> (\<forall>i n. gap X (off + i) n \<longrightarrow> n \<le> m)"
  by (metis le_add_diff_inverse not_less)

lemma summarize_runs_spec:
  assumes "window X off q x" "spaced x (unat k)" "0 < unat k" "x AND (x + 1) \<noteq> 0"
    and "q + unat p = unat most" "unat most < 64" "b0 \<le> unat most"
    and "unat most = b0 \<or> (\<exists>i. gap X i (unat most))"
    and "\<forall>i n. i < off \<longrightarrow> gap X i n \<longrightarrow> n \<le> unat most"
  shows "\<exists>r. summarize_runs x p k most = Some r \<and> longest X b0 (unat r) \<and> unat r < 64"
  using assms
proof (induction "64 - off" arbitrary: x p k most q off rule: less_induct)
  case less
  have p: "unat p < 64" using less.prems(5,6) by simp
  obtain r where r: "summarize_shrink x p k = Some r" "case r of
      NoMoreZeros \<Rightarrow> \<exists>q'\<le>unat most. \<exists>y. window X off q' y \<and> y AND (y + 1) = 0
    | Shrunk y k' \<Rightarrow> window X off (unat most) y \<and> spaced y (unat k') \<and> 0 < unat k' \<and> y AND (y + 1) \<noteq> 0"
    using summarize_shrink_spec [OF less.prems(1-3) p less.prems(4), unfolded less.prems(5)] by (elim exE conjE)
  show ?case
  proof (cases r)
    case NoMoreZeros
    then obtain q' y where "q' \<le> unat most" "window X off q' y" "y AND (y + 1) = 0" using r(2) by auto
    then have "n \<le> unat most" if "gap X (off + i) n" for i n
      using window_done that by (meson order_trans)
    then have "\<forall>i n. gap X i n \<longrightarrow> n \<le> unat most" using gap_split [of X _ off] less.prems(9) by blast
    then have "longest X b0 (unat most)" using less.prems(7,8) by (simp add: longest_def)
    then show ?thesis using NoMoreZeros r(1) less.prems(6) by (simp add: summarize_runs.simps)
  next
    case (Shrunk y k')
    then have y: "window X off (unat most) y" "spaced y (unat k')" "0 < unat k'" "y AND (y + 1) \<noteq> 0"
      using r(2) by simp_all
    define j1 where "j1 = TrailingZeros64 (NOT y)"
    define z where "z = drop_bit j1 y"
    define j2 where "j2 = TrailingZeros64 z"
    define v where "v = drop_bit j2 z"
    have ny: "NOT y \<noteq> 0"
    proof
      assume "NOT y = 0"
      then have "y = - 1" by (metis bit.double_compl bit.compl_zero)
      then show False using y(4) by simp
    qed
    then have j1: "j1 < 64" "\<not> bit y j1" using TrailingZeros64_less_iff bit_TrailingZeros64 [OF ny]
      by (auto simp: j1_def bit_not_iff)
    have ones: "bit y i" if "i < j1" for i
      using TrailingZeros64_low [of i "NOT y"] that j1(1) by (simp add: j1_def bit_not_iff)
    obtain a c where "bit y a" "c < a" "\<not> bit y c" using y(4) by (auto simp: no_zero_below_one)
    moreover have "j1 \<le> c" using ones \<open>\<not> bit y c\<close> by (meson not_le)
    ultimately have "bit z (a - j1)" by (simp add: z_def bit_drop_bit_eq)
    then have z: "z \<noteq> 0" by auto
    then have j2: "j2 < 64" "bit z j2" by (simp_all add: j2_def TrailingZeros64_less_iff bit_TrailingZeros64)
    have zeros: "\<not> bit y (j1 + i)" if "i < j2" for i
      using TrailingZeros64_low [of i z] that by (simp add: j2_def z_def bit_drop_bit_eq)
    have one: "bit y (j1 + j2)" using j2(2) by (simp add: z_def bit_drop_bit_eq)
    have j2pos: "0 < j2" using one j1(2) by (cases j2) auto
    have below: "\<forall>i n. i < off \<longrightarrow> gap X i n \<longrightarrow> n \<le> unat most" using less.prems(9) by blast
    have "\<forall>i<j1. bit y i" "\<forall>i<j2. \<not> bit y (j1 + i)" using ones zeros by blast+
    note sg = surviving_gap [OF y(1) this one j2pos below]
    define most' where "most' = most + of_nat j2"
    have lt: "unat most + j2 < 64" using gap_less [OF sg(1)] by simp
    then have m': "unat most' = unat most + j2"
      using j2(1) by (simp add: most'_def unat_add_small)
    have w: "window X (off + (j1 + j2)) (unat most) v"
      unfolding v_def z_def add.assoc [symmetric] by (intro window_drop y(1))
    have sp: "spaced v (unat k')" unfolding v_def z_def by (intro spaced_drop y(2))
    have eq: "summarize_runs x p k most =
        (if v AND (v + 1) = 0 then Some most' else summarize_runs v (of_nat j2) k' most')"
      using r(1) Shrunk j1(1) j2(1) unfolding v_def j2_def z_def j1_def most'_def
      by (subst summarize_runs.simps) (simp add: Let_def and63_small del: drop_bit_drop_bit)
    have gap': "\<exists>i. gap X i (unat most')" using sg(1) m' by metis
    have below': "\<forall>i n. i < off + (j1 + j2) \<longrightarrow> gap X i n \<longrightarrow> n \<le> unat most'"
      using sg(2) m' by auto
    show ?thesis
    proof (cases "v AND (v + 1) = 0")
      case True
      have "n \<le> unat most'" if "gap X (off + (j1 + j2) + i) n" for i n
        using window_done [OF w True that] m' by simp
      then have "\<forall>i n. gap X i n \<longrightarrow> n \<le> unat most'"
        using gap_split [of X _ "off + (j1 + j2)"] below' by blast
      then have "longest X b0 (unat most')" using gap' m' less.prems(7) by (simp add: longest_def)
      then show ?thesis using True lt m' by (simp add: eq)
    next
      case False
      have "off < 64"
      proof -
        have "bit X (off + j1 + (unat most + j2))" using sg(1) by (simp add: gap_def)
        then show ?thesis using bit64_less by fastforce
      qed
      then have dec: "64 - (off + (j1 + j2)) < 64 - off" using j2pos by linarith
      have tot: "unat most + unat (of_nat j2 :: uint) = unat most'" using m' j2(1) by simp
      have "\<exists>r. summarize_runs v (of_nat j2) k' most' = Some r \<and> longest X b0 (unat r) \<and> unat r < 64"
        using less.hyps [OF dec w sp y(3) False tot _ _ _ below'] lt m' less.prems(7) gap' by simp
      then show ?thesis using False by (simp add: eq)
    qed
  qed
qed

subsection \<open>Runs of a word\<close>

lemma gap_run:
  assumes "gap (drop_bit t w) i n"
  shows "run_at (word_free w) (t + i) n"
proof -
  have "bit w (t + (i + n))" using assms by (simp add: gap_def bit_drop_bit_eq)
  then have "t + i + n < 64" using bit64_less by fastforce
  then show ?thesis using assms by (auto simp: run_at_def gap_def bit_drop_bit_eq nth_word_free add.assoc)
qed

lemma run_end:
  assumes "run_at xs i n" "i + n = length xs"
  shows "n \<le> free_end xs"
  unfolding free_end_def free_start_greatest
proof (intro conjI allI impI)
  show "n \<le> length (rev xs)" using assms(2) by simp
  fix k assume k: "k < n"
  then have "i + (n - Suc k) = length xs - Suc k" "n - Suc k < n" "k < length xs" using assms(2) by linarith+
  then show "rev xs ! k" using assms(1) unfolding run_at_def by (metis rev_nth)
qed

lemma run_start: "run_at xs 0 n \<Longrightarrow> n \<le> free_start xs"
  by (simp add: run_at_start)

text \<open>A run that touches no border of a word has at most 62 pages.\<close>

lemma inner_run: "free_max (word_free w) \<le> max 62 (max (TrailingZeros64 w) (LeadingZeros64 w))"
proof -
  obtain i where i: "run_at (word_free w) i (free_max (word_free w))" using free_max_attained by blast
  have le: "i + free_max (word_free w) \<le> 64" using i by (simp add: run_at_def)
  consider "i = 0" | "i + free_max (word_free w) = 64" | "free_max (word_free w) \<le> 62" using le by linarith
  then show ?thesis
  proof cases
    case 1
    then show ?thesis using run_start i by (fastforce simp: free_start_word)
  next
    case 2
    then show ?thesis using run_end [OF i] by (simp add: free_end_word)
  qed simp
qed

text \<open>All runs of a word are at its borders or are gaps of the word shifted past its trailing zeros.\<close>

lemma run_bound:
  assumes "w \<noteq> 0" "\<forall>i n. gap (drop_bit (TrailingZeros64 w) w) i n \<longrightarrow> n \<le> r"
  shows "free_max (word_free w) \<le> max r (max (TrailingZeros64 w) (LeadingZeros64 w))"
proof -
  define n where "n = free_max (word_free w)"
  obtain i where "run_at (word_free w) i n" using free_max_attained unfolding n_def by blast
  then have i: "i + n \<le> 64" "\<forall>k<n. \<not> bit w (i + k)" by (auto simp: run_at_def nth_word_free)
  define t where "t = TrailingZeros64 w"
  have t: "bit w t" using assms(1) by (simp add: t_def bit_TrailingZeros64)
  consider "i < t" | "t \<le> i" "\<exists>e\<ge>i + n. bit w e" | "\<forall>e\<ge>i + n. \<not> bit w e" by (meson not_le)
  then have "n \<le> max r (max t (LeadingZeros64 w))"
  proof cases
    case 1
    have "\<not> t - i < n"
    proof
      assume "t - i < n"
      then have "\<not> bit w (i + (t - i))" using i(2) by blast
      then show False using t 1 by simp
    qed
    then show ?thesis by simp
  next
    case 2
    define e where "e = (LEAST e. i + n \<le> e \<and> bit w e)"
    have e: "i + n \<le> e" "bit w e" using LeastI_ex [OF 2(2)] 2(2) LeastI_ex [of "\<lambda>e. i + n \<le> e \<and> bit w e"]
      unfolding e_def by blast+
    have low: "\<not> bit w k" if "i \<le> k" "k < e" for k
    proof (cases "k < i + n")
      case True
      then have "k - i < n" using that by linarith
      then have "\<not> bit w (i + (k - i))" using i(2) by blast
      then show ?thesis using that by simp
    next
      case False
      then show ?thesis using that(2) not_less_Least [of k "\<lambda>e. i + n \<le> e \<and> bit w e"] unfolding e_def by auto
    qed
    have "\<not> bit w (t + (i - t + j))" if "j < e - i" for j
      using that low [of "i + j"] 2(1) by simp
    then have "gap (drop_bit t w) (i - t) (e - i)"
      using e 2(1) by (auto simp: gap_def bit_drop_bit_eq)
    then have "e - i \<le> r" using assms(2) by (simp add: t_def)
    then show ?thesis using e(1) by simp
  next
    case 3
    have "\<not> bit w k" if "i \<le> k" for k
    proof (cases "k < i + n")
      case True
      then have "k - i < n" using that by linarith
      then have "\<not> bit w (i + (k - i))" using i(2) by blast
      then show ?thesis using that by simp
    next
      case False
      then show ?thesis using 3 by simp
    qed
    then have "run_at (word_free w) i (64 - i)" using i(1) by (simp add: run_at_def nth_word_free)
    then have "64 - i \<le> LeadingZeros64 w" using run_end [of "word_free w" i "64 - i"] i(1) by (simp add: free_end_word)
    then show ?thesis using i(1) by simp
  qed
  then show ?thesis by (simp add: n_def t_def)
qed

subsection \<open>The second pass\<close>

fun inner_max :: "uint64 list \<Rightarrow> nat" where
  "inner_max [] = 0"
| "inner_max (x # xs) = (if x = 0 then inner_max xs else max (free_max (word_free x)) (inner_max xs))"

fun border_max :: "uint64 list \<Rightarrow> nat" where
  "border_max [] = 0"
| "border_max (x # xs) =
     (if x = 0 then border_max xs else max (max (TrailingZeros64 x) (LeadingZeros64 x)) (border_max xs))"

lemma inner_le_border: "inner_max ws \<le> max 62 (border_max ws)"
proof (induction ws)
  case (Cons x xs)
  then show ?case using inner_run [of x] by auto
qed simp

lemma inner_max_append: "inner_max (xs @ ys) = max (inner_max xs) (inner_max ys)"
  by (induction xs) (simp_all add: max.assoc)

lemma border_max_append: "border_max (xs @ ys) = max (border_max xs) (border_max ys)"
  by (induction xs) (simp_all add: max.assoc)

lemma free_max_word_mem: "x \<in> set b \<Longrightarrow> free_max (word_free x) \<le> free_max (free_list b)"
  by (induction b) (auto simp: free_list_Cons free_max_append)

lemma summarize_word:
  assumes "x \<noteq> 0" "unat most < 64"
  defines "X \<equiv> drop_bit (TrailingZeros64 x) x"
  shows "X AND (X + 1) = 0 \<Longrightarrow> longest X (unat most) (unat most)"
    and "X AND (X + 1) \<noteq> 0 \<Longrightarrow>
      \<exists>r. summarize_runs X most 1 most = Some r \<and> longest X (unat most) (unat r) \<and> unat r < 64"
proof -
  have w: "window X 0 0 X" by (simp add: window_def)
  show "longest X (unat most) (unat most)" if "X AND (X + 1) = 0"
    using window_done [OF w that] by (fastforce simp: longest_def)
  have "spaced X (unat (1 :: uint))" by (simp add: spaced_def)
  then show "\<exists>r. summarize_runs X most 1 most = Some r \<and> longest X (unat most) (unat r) \<and> unat r < 64"
    if "X AND (X + 1) \<noteq> 0"
    using summarize_runs_spec [OF w _ _ that, of 1 most most "unat most"] assms(2) by simp
qed

lemma summarize_pass2_spec:
  assumes "unat most < 64"
  shows "\<exists>r. summarize_pass2 ws most = Some r \<and> unat most \<le> unat r \<and> unat r < 64 \<and>
    unat r \<le> max (unat most) (free_max (free_list ws)) \<and> inner_max ws \<le> max (unat r) (border_max ws)"
  using assms
proof (induction ws arbitrary: most)
  case (Cons x ws)
  define X where "X = drop_bit (TrailingZeros64 x) x"
  show ?case
  proof (cases "x = 0")
    case True
    then show ?thesis using Cons
      by (auto simp: free_list_Cons free_max_append le_max_iff_disj)
  next
    case False
    have eq: "summarize_pass2 (x # ws) most = (if X AND (X + 1) = 0 then summarize_pass2 ws most
        else do { most \<leftarrow> summarize_runs X most 1 most; summarize_pass2 ws most })"
      using False TrailingZeros64_less_iff [of x] by (simp add: X_def Let_def and63_small)
    obtain m where m: "summarize_pass2 (x # ws) most = summarize_pass2 ws m"
      "longest X (unat most) (unat m)" "unat m < 64"
      using summarize_word [OF False Cons.prems] Cons.prems unfolding X_def [symmetric] eq
      by (cases "X AND (X + 1) = 0") auto
    obtain r where r: "summarize_pass2 ws m = Some r" "unat m \<le> unat r" "unat r < 64"
      "unat r \<le> max (unat m) (free_max (free_list ws))" "inner_max ws \<le> max (unat r) (border_max ws)"
      using Cons.IH [OF m(3)] by blast
    have 1: "unat m \<le> max (unat most) (free_max (word_free x))"
      using m(2) gap_run [of "TrailingZeros64 x" x] free_max_greatest
      unfolding longest_def X_def by (metis max.cobounded1 max.coboundedI2)
    have 2: "free_max (word_free x) \<le> max (unat m) (max (TrailingZeros64 x) (LeadingZeros64 x))"
      using run_bound [OF False] m(2) by (simp add: longest_def X_def)
    have 3: "unat most \<le> unat m" using m(2) by (simp add: longest_def)
    have "unat r \<le> max (unat most) (free_max (free_list (x # ws)))"
      using r(4) 1 by (auto simp: free_list_Cons free_max_append)
    moreover have "inner_max (x # ws) \<le> max (unat r) (border_max (x # ws))"
      using r(2,5) 2 False by auto
    ultimately show ?thesis using m(1) r(1-3) 3 by auto
  qed
qed simp

subsection \<open>The first pass\<close>

definition start_of :: "bool list \<Rightarrow> uint" where
  "start_of xs = (if list_all id xs then NOT 0 else w_of (free_start xs))"

text \<open>What the first pass knows after the words \<open>ws\<close>: \<open>m\<close> is a run of the region, and only runs inside
  a word may be longer than it and the run at the end.\<close>

definition pass1_inv :: "uint64 list \<Rightarrow> nat \<Rightarrow> bool" where
  "pass1_inv ws m \<longleftrightarrow> (let xs = free_list ws; c = max m (free_end xs) in
     m \<le> free_max xs \<and> free_max xs \<le> max c (inner_max ws) \<and> border_max ws \<le> c)"

lemma free_list_snoc: "free_list (ws @ [x]) = free_list ws @ word_free x"
  by (simp add: free_list_append) (simp add: free_list_def)

lemma list_all_word_free: "list_all id (word_free x) \<longleftrightarrow> x = 0"
  using free_start_all [of "word_free x"] TrailingZeros64_eq_64_iff [of x] by (simp add: free_start_word)

lemma pass1_step_zero:
  assumes "pass1_inv ws m"
  shows "pass1_inv (ws @ [0]) m" "free_end (free_list (ws @ [0])) = free_end (free_list ws) + 64"
    "start_of (free_list (ws @ [0])) = start_of (free_list ws)"
proof -
  show fe: "free_end (free_list (ws @ [0])) = free_end (free_list ws) + 64"
    by (simp add: free_list_snoc free_end_append free_end_word)
  show "start_of (free_list (ws @ [0])) = start_of (free_list ws)"
    using free_start_all [of "free_list ws"]
    by (simp add: free_list_snoc start_of_def list_all_word_free free_start_append)
  have "free_max (word_free 0) = 64" using free_max_full [of "word_free 0"] list_all_word_free [of 0] by simp
  then have fm: "free_max (free_list (ws @ [0])) = max (free_max (free_list ws)) (free_end (free_list ws) + 64)"
    by (simp add: free_list_snoc free_max_append free_start_word)
  show "pass1_inv (ws @ [0]) m"
    using assms unfolding pass1_inv_def Let_def fe fm by (auto simp: inner_max_append border_max_append)
qed

lemma pass1_step:
  assumes "pass1_inv ws m" "x \<noteq> 0"
  shows "pass1_inv (ws @ [x]) (max m (free_end (free_list ws) + TrailingZeros64 x))"
    "free_end (free_list (ws @ [x])) = LeadingZeros64 x"
    "start_of (free_list (ws @ [x])) = (if start_of (free_list ws) = NOT 0 \<and> list_all id (free_list ws)
      then w_of (free_end (free_list ws) + TrailingZeros64 x) else start_of (free_list ws))"
proof -
  have lz: "LeadingZeros64 x \<noteq> 64" "TrailingZeros64 x \<noteq> 64"
    using assms(2) LeadingZeros64_less_iff [of x] TrailingZeros64_less_iff [of x] by simp_all
  show fe: "free_end (free_list (ws @ [x])) = LeadingZeros64 x"
    using lz by (simp add: free_list_snoc free_end_append free_end_word)
  show "start_of (free_list (ws @ [x])) = (if start_of (free_list ws) = NOT 0 \<and> list_all id (free_list ws)
      then w_of (free_end (free_list ws) + TrailingZeros64 x) else start_of (free_list ws))"
    using assms(2) free_start_all [of "free_list ws"] free_end_all [of "free_list ws"]
    by (auto simp: free_list_snoc start_of_def list_all_word_free free_start_append free_start_word)
  have fm: "free_max (free_list (ws @ [x])) = max (max (free_max (free_list ws)) (free_max (word_free x)))
      (free_end (free_list ws) + TrailingZeros64 x)"
    by (simp add: free_list_snoc free_max_append free_start_word)
  show "pass1_inv (ws @ [x]) (max m (free_end (free_list ws) + TrailingZeros64 x))"
    using assms unfolding pass1_inv_def Let_def fe fm by (auto simp: inner_max_append border_max_append)
qed

lemma start_of_none: "length xs < 2 ^ 63 \<Longrightarrow> start_of xs = NOT 0 \<longleftrightarrow> list_all id xs"
proof -
  assume l: "length xs < 2 ^ 63"
  have "unat (w_of (free_start xs)) = free_start xs"
    using l free_start_le [of xs] by (intro unat_of_nat_small) simp
  moreover have "unat (NOT 0 :: uint) = 2 ^ 64 - 1" by (simp add: unsigned_minus_1_eq_mask mask_eq_exp_minus_1)
  moreover have "free_start xs < 2 ^ 64 - 1" using l free_start_le [of xs] by simp
  ultimately have "w_of (free_start xs) \<noteq> NOT 0" by (metis less_irrefl)
  then show ?thesis by (simp add: start_of_def)
qed

lemma summarize_pass1_spec:
  assumes "64 * (length pre + length ws) \<le> 2 ^ 21" "pass1_inv pre m" "m \<le> 2 ^ 21"
  shows "\<exists>m'. summarize_pass1 ws (start_of (free_list pre)) (w_of m) (w_of (free_end (free_list pre))) =
      (start_of (free_list (pre @ ws)), w_of m', w_of (free_end (free_list (pre @ ws)))) \<and>
    pass1_inv (pre @ ws) m' \<and> m' \<le> 2 ^ 21"
  using assms
proof (induction ws arbitrary: pre m)
  case (Cons x ws)
  have fe: "free_end (free_list pre) + 64 \<le> 2 ^ 21"
    using Cons.prems(1) free_end_le [of "free_list pre"] by simp
  have len: "64 * (length (pre @ [x]) + length ws) \<le> 2 ^ 21" using Cons.prems(1) by simp
  show ?case
  proof (cases "x = 0")
    case True
    have *: "pass1_inv (pre @ [x]) m" "free_end (free_list (pre @ [x])) = free_end (free_list pre) + 64"
      "start_of (free_list (pre @ [x])) = start_of (free_list pre)"
      using pass1_step_zero [OF Cons.prems(2)] True by simp_all
    show ?thesis using Cons.IH [OF len *(1) Cons.prems(3)] True unfolding *(2,3) by simp
  next
    case False
    define m' where "m' = max m (free_end (free_list pre) + TrailingZeros64 x)"
    note * = pass1_step [OF Cons.prems(2) False, folded m'_def]
    have m': "m' \<le> 2 ^ 21" using Cons.prems(3) fe TrailingZeros64_le [of x] by (simp add: m'_def)
    have mx: "max (w_of m) (w_of (free_end (free_list pre)) + w_of (TrailingZeros64 x)) = w_of m'"
      using Cons.prems(3) fe TrailingZeros64_le [of x] unfolding m'_def
      by (subst w_of_max [symmetric]) simp_all
    have "length (free_list pre) < 2 ^ 63" using Cons.prems(1) by simp
    then have st: "start_of (free_list pre) = NOT 0 \<longleftrightarrow> list_all id (free_list pre)" by (rule start_of_none)
    have eq: "summarize_pass1 (x # ws) (start_of (free_list pre)) (w_of m) (w_of (free_end (free_list pre))) =
        summarize_pass1 ws (start_of (free_list (pre @ [x]))) (w_of m') (w_of (free_end (free_list (pre @ [x]))))"
      unfolding *(2,3) using False mx st by (simp add: Let_def)
    show ?thesis using Cons.IH [OF len *(1) m'] unfolding eq by simp
  qed
qed auto

lemma summarize_sums:
  assumes "pageBits_ok b"
  shows "\<exists>p. summarize b = Some p \<and> sums_to p (free_list b)"
proof -
  define xs where "xs = free_list b"
  have len: "length xs = 512" "length b = 8" using assms by (simp_all add: xs_def pageBits_ok_length)
  have pk: "sums_to (packPallocSum (w_of (free_start xs)) (w_of (free_max xs)) (w_of (free_end xs))) xs"
    using len free_max_le [of xs] by (intro pack_sums_to) simp_all
  have "pass1_inv [] 0" by (simp add: pass1_inv_def free_list_def)
  then obtain m where m: "summarize_pass1 b (NOT 0) 0 0 = (start_of xs, w_of m, w_of (free_end xs))"
    "pass1_inv b m" "m \<le> 2 ^ 21"
    using summarize_pass1_spec [of "[]" b 0] len(2)
    by (auto simp: xs_def start_of_def free_list_def free_end_def)
  have fe: "free_end xs \<le> 512" using free_end_le [of xs] len by simp
  define c where "c = max m (free_end xs)"
  have inv: "m \<le> free_max xs" "free_max xs \<le> max c (inner_max b)" "border_max b \<le> c"
    using m(2) by (simp_all add: pass1_inv_def c_def xs_def Let_def)
  have c: "c \<le> free_max xs" using inv(1) free_end_max [of xs] by (simp add: c_def)
  then have c512: "c \<le> 512" using free_max_le [of xs] len by simp
  have mx: "max (w_of m) (w_of (free_end xs)) = w_of c"
    using m(3) fe by (simp add: c_def w_of_max)
  have st: "start_of xs = NOT 0 \<longleftrightarrow> list_all id xs" using len by (intro start_of_none) simp
  show ?thesis
  proof (cases "list_all id xs")
    case True
    then have all: "free_start xs = 512" "free_max xs = 512" "free_end xs = 512"
      using len free_start_all [of xs] free_max_full [of xs] free_end_all [of xs] by simp_all
    have "summarize b = Some (packPallocSum 512 512 512)"
      using m(1) True st len(2) by (simp add: summarize_def)
    then show ?thesis using pk by (simp add: all xs_def [symmetric])
  next
    case False
    then have start: "start_of xs = w_of (free_start xs)" by (simp add: start_of_def)
    have eq: "summarize b = (if 62 \<le> c then Some (packPallocSum (w_of (free_start xs)) (w_of c) (w_of (free_end xs)))
        else do { most \<leftarrow> summarize_pass2 b (w_of c);
          Some (packPallocSum (w_of (free_start xs)) most (w_of (free_end xs))) })"
      using m(1) False st c512 unfolding start
      by (simp add: summarize_def mx word_le_nat_alt)
    show ?thesis
    proof (cases "62 \<le> c")
      case True
      then have "free_max xs = c" using inv c inner_le_border [of b] by auto
      then show ?thesis using pk True eq by (simp add: xs_def)
    next
      case small: False
      then have u: "unat (w_of c) = c" "unat (w_of c) < 64" by simp_all
      obtain r where r: "summarize_pass2 b (w_of c) = Some r" "c \<le> unat r" "unat r < 64"
        "unat r \<le> max c (free_max xs)" "inner_max b \<le> max (unat r) (border_max b)"
        using summarize_pass2_spec [OF u(2), of b] u(1) unfolding xs_def by auto
      have "free_max xs = unat r" using r(2,4,5) inv c by auto
      then have "r = w_of (free_max xs)" by simp
      then show ?thesis using pk small eq r(1) by (simp add: xs_def)
    qed
  qed
qed

text \<open>C19:  \<open>pallocBits.summarize\<close> terminates without a panic and its two passes, with the shrinking
  of zero runs, compute the exact summary of the chunk: the free pages at its start, its longest run
  of free pages and the free pages at its end.\<close>

theorem summarize_correct:
  assumes "pageBits_ok b"
  shows "\<exists>p. summarize b = Some p \<and>
    unpack p = (of_nat (free_start (free_list b)), of_nat (free_max (free_list b)), of_nat (free_end (free_list b)))"
  using summarize_sums [OF assms] by (simp add: sums_to_def)

definition gap_bits :: pallocBits where
  "gap_bits = [0xF00F000000000001, NOT 0, 0, 3, 0x8000000000000000, NOT 0, 1, 0x8000000000000001]"

theorem summarize_correct_witness:
  "\<exists>p. summarize gap_bits = Some p \<and>
    unpack p = (of_nat (free_start (free_list gap_bits)), of_nat (free_max (free_list gap_bits)),
      of_nat (free_end (free_list gap_bits)))"
  by (rule summarize_correct) (simp add: gap_bits_def pageBits_ok_def pallocChunkPages_def)

end
