(* ===== verification/AddrRanges.thy ===== *)
theory AddrRanges
  imports Prelude
begin

text \<open>
  \<open>runtime/mranges.go\<close>: offset addresses, address ranges and the sorted, eagerly coalesced
  collection \<open>addrRanges\<close>, with the alignment helpers of \<open>runtime/stubs.go\<close>.  An \<open>offAddr\<close> is a
  virtual address compared in the offset view \<open>x - arenaBaseOffset\<close>; \<open>off x\<close> is that view as a
  number.  A collection stands for the set \<open>addrs\<close> of offsets it covers.  The backing arrays come
  from \<open>persistentalloc\<close> and are never shared, so a slice is a list and its capacity.
\<close>

subsection \<open>Alignment\<close>

definition alignUp :: "uintptr \<Rightarrow> uintptr \<Rightarrow> uintptr" where
  "alignUp n a = (n + a - 1) AND NOT (a - 1)"

definition alignDown :: "uintptr \<Rightarrow> uintptr \<Rightarrow> uintptr" where
  "alignDown n a = n AND NOT (a - 1)"

definition divRoundUp :: "uintptr \<Rightarrow> uintptr \<Rightarrow> uintptr" where
  "divRoundUp n a = (n + a - 1) div a"

subsection \<open>Offset addresses\<close>

definition arenaBaseOffset :: uintptr where
  "arenaBaseOffset = 0xffff800000000000"

definition heapAddrBits :: nat where
  "heapAddrBits = 48"

type_synonym offAddr = uintptr

definition minOffAddr :: offAddr where
  "minOffAddr = arenaBaseOffset"

definition maxOffAddr :: offAddr where
  "maxOffAddr = (push_bit heapAddrBits 1 - 1) + arenaBaseOffset"

definition off_add :: "offAddr \<Rightarrow> uintptr \<Rightarrow> offAddr" where
  "off_add l bytes = l + bytes"

definition off_sub :: "offAddr \<Rightarrow> uintptr \<Rightarrow> offAddr" where
  "off_sub l bytes = l - bytes"

definition off_diff :: "offAddr \<Rightarrow> offAddr \<Rightarrow> uintptr" where
  "off_diff l1 l2 = l1 - l2"

definition lessThan :: "offAddr \<Rightarrow> offAddr \<Rightarrow> bool" where
  "lessThan l1 l2 \<longleftrightarrow> l1 - arenaBaseOffset < l2 - arenaBaseOffset"

definition lessEqual :: "offAddr \<Rightarrow> offAddr \<Rightarrow> bool" where
  "lessEqual l1 l2 \<longleftrightarrow> l1 - arenaBaseOffset \<le> l2 - arenaBaseOffset"

subsection \<open>Marked addresses\<close>

text \<open>\<open>atomicOffAddr\<close> holds an \<open>int64\<close>, here as a word compared with the signed order.  The retry
  loops of \<open>Clear\<close> and \<open>StoreMin\<close> are \<open>atomic_step\<close>s: one iteration whose compare-and-swap sees
  the value \<open>cur\<close> of the box, which is the loaded \<open>old\<close> unless another thread has written in
  between; \<open>None\<close> asks for another iteration.\<close>

type_synonym atomicOffAddr = uint64

definition compareAndSwap :: "uint64 \<Rightarrow> uint64 \<Rightarrow> uint64 \<Rightarrow> uint64 \<times> bool" where
  "compareAndSwap cur old new = (if cur = old then (new, True) else (cur, False))"

definition Clear_step :: "uint64 \<Rightarrow> uint64 \<Rightarrow> uint64 \<times> bool" where
  "Clear_step old cur =
     (if old <s 0 then (cur, True)
      else compareAndSwap cur old (minOffAddr - arenaBaseOffset))"

definition StoreMin_step :: "uintptr \<Rightarrow> uint64 \<Rightarrow> uint64 \<Rightarrow> uint64 \<times> bool" where
  "StoreMin_step addr old cur =
     (let new = addr - arenaBaseOffset in
      if old <s new then (cur, True) else compareAndSwap cur old new)"

definition StoreUnmark :: "uintptr \<Rightarrow> uintptr \<Rightarrow> atomicOffAddr \<Rightarrow> atomicOffAddr" where
  "StoreUnmark markedAddr newAddr b =
     fst (compareAndSwap b (- (markedAddr - arenaBaseOffset)) (newAddr - arenaBaseOffset))"

definition StoreMarked :: "uintptr \<Rightarrow> atomicOffAddr \<Rightarrow> atomicOffAddr" where
  "StoreMarked addr b = - (addr - arenaBaseOffset)"

definition Load :: "atomicOffAddr \<Rightarrow> uintptr \<times> bool" where
  "Load b = (if b <s 0 then (- b + arenaBaseOffset, True) else (b + arenaBaseOffset, False))"

subsection \<open>Ranges\<close>

record addrRange =
  r_base :: offAddr
  r_limit :: offAddr

abbreviation mk_range :: "offAddr \<Rightarrow> offAddr \<Rightarrow> addrRange" where
  "mk_range b l \<equiv> \<lparr>r_base = b, r_limit = l\<rparr>"

definition makeAddrRange :: "uintptr \<Rightarrow> uintptr \<Rightarrow> addrRange go" where
  "makeAddrRange b l =
     (if (b - arenaBaseOffset \<ge> b) \<noteq> (l - arenaBaseOffset \<ge> l) then None else Some (mk_range b l))"

definition range_size :: "addrRange \<Rightarrow> uintptr" where
  "range_size a = (if \<not> lessThan (r_base a) (r_limit a) then 0 else off_diff (r_limit a) (r_base a))"

definition range_contains :: "addrRange \<Rightarrow> uintptr \<Rightarrow> bool" where
  "range_contains a addr \<longleftrightarrow> lessEqual (r_base a) addr \<and> lessThan addr (r_limit a)"

definition range_subtract :: "addrRange \<Rightarrow> addrRange \<Rightarrow> addrRange go" where
  "range_subtract a b =
     (if lessEqual (r_base b) (r_base a) \<and> lessEqual (r_limit a) (r_limit b) then Some (mk_range 0 0)
      else if lessThan (r_base a) (r_base b) \<and> lessThan (r_limit b) (r_limit a) then None
      else if lessThan (r_limit b) (r_limit a) \<and> lessThan (r_base a) (r_limit b)
        then Some (a\<lparr>r_base := r_limit b\<rparr>)
      else if lessThan (r_base a) (r_base b) \<and> lessThan (r_base b) (r_limit a)
        then Some (a\<lparr>r_limit := r_base b\<rparr>)
      else Some a)"

definition takeFromFront :: "addrRange \<Rightarrow> uintptr \<Rightarrow> uint8 \<Rightarrow> addrRange \<times> uintptr \<times> bool" where
  "takeFromFront a len align =
     (let base = alignUp (r_base a) (ucast align) + len in
      if base > r_limit a then (a, 0, False) else (a\<lparr>r_base := base\<rparr>, base - len, True))"

definition takeFromBack :: "addrRange \<Rightarrow> uintptr \<Rightarrow> uint8 \<Rightarrow> addrRange \<times> uintptr \<times> bool" where
  "takeFromBack a len align =
     (let limit = alignDown (r_limit a - len) (ucast align) in
      if r_base a > limit then (a, 0, False) else (a\<lparr>r_limit := limit\<rparr>, limit, True))"

definition range_removeGreaterEqual :: "addrRange \<Rightarrow> uintptr \<Rightarrow> addrRange go" where
  "range_removeGreaterEqual a addr =
     (if lessEqual addr (r_base a) then Some (mk_range 0 0)
      else if lessEqual (r_limit a) addr then Some a
      else makeAddrRange (r_base a) addr)"

subsection \<open>Collections of ranges\<close>

record addrRanges =
  ranges :: "addrRange list"
  ranges_cap :: nat
  totalBytes :: uintptr

definition init :: addrRanges where
  "init = \<lparr>ranges = [], ranges_cap = 16, totalBytes = 0\<rparr>"

text \<open>\<open>findSucc\<close>: the binary search (\<open>lo\<close>, \<open>hi\<close> are the code's \<open>bot\<close>, \<open>top\<close>), then the scan of at most eight candidates.\<close>

function findSucc_search :: "addrRange list \<Rightarrow> offAddr \<Rightarrow> nat \<Rightarrow> nat \<Rightarrow> nat + nat \<times> nat" where
  "findSucc_search rs addr lo hi =
     (if hi - lo > 8 then
        let i = (lo + hi) div 2 in
        if range_contains (rs ! i) addr then Inl (i + 1)
        else if lessThan addr (r_base (rs ! i)) then findSucc_search rs addr lo i
        else findSucc_search rs addr (i + 1) hi
      else Inr (lo, hi))"
  by pat_completeness auto
termination by (relation "measure (\<lambda>(rs, addr, lo, hi). hi - lo)") auto

function findSucc_scan :: "addrRange list \<Rightarrow> offAddr \<Rightarrow> nat \<Rightarrow> nat \<Rightarrow> nat" where
  "findSucc_scan rs addr i hi =
     (if i < hi then
        if lessThan addr (r_base (rs ! i)) then i else findSucc_scan rs addr (i + 1) hi
      else hi)"
  by pat_completeness auto
termination by (relation "measure (\<lambda>(rs, addr, i, hi). hi - i)") auto

declare findSucc_search.simps [simp del] findSucc_scan.simps [simp del]

definition findSucc :: "addrRanges \<Rightarrow> uintptr \<Rightarrow> nat" where
  "findSucc a addr =
     (case findSucc_search (ranges a) addr 0 (length (ranges a)) of
        Inl i \<Rightarrow> i
      | Inr (lo, hi) \<Rightarrow> findSucc_scan (ranges a) addr lo hi)"

definition findAddrGreaterEqual :: "addrRanges \<Rightarrow> uintptr \<Rightarrow> (uintptr \<times> bool) go" where
  "findAddrGreaterEqual a addr =
     (let i = findSucc a addr in
      if i = 0 then
        if ranges a = [] then None else Some (r_base (ranges a ! 0), True)
      else if range_contains (ranges a ! (i - 1)) addr then Some (addr, True)
      else if i < length (ranges a) then Some (r_base (ranges a ! i), True)
      else Some (0, False))"

definition contains :: "addrRanges \<Rightarrow> uintptr \<Rightarrow> bool" where
  "contains a addr =
     (let i = findSucc a addr in
      if i = 0 then False else range_contains (ranges a ! (i - 1)) addr)"

text \<open>\<open>add_at\<close> is the second half of \<open>add\<close>, once the insertion index and its neighbours are known.\<close>

definition add_at :: "addrRanges \<Rightarrow> addrRange \<Rightarrow> nat \<Rightarrow> bool \<Rightarrow> bool \<Rightarrow> addrRanges" where
  "add_at a r i coalescesUp coalescesDown =
     (let rs = ranges a;
          a' =
            (if coalescesUp \<and> coalescesDown then
               let rs = rs[i - 1 := (rs ! (i - 1))\<lparr>r_limit := r_limit (rs ! i)\<rparr>]
               in a\<lparr>ranges := take i rs @ drop (i + 1) rs\<rparr>
             else if coalescesDown then
               a\<lparr>ranges := rs[i - 1 := (rs ! (i - 1))\<lparr>r_limit := r_limit r\<rparr>]\<rparr>
             else if coalescesUp then
               a\<lparr>ranges := rs[i := (rs ! i)\<lparr>r_base := r_base r\<rparr>]\<rparr>
             else
               a\<lparr>ranges := take i rs @ [r] @ drop i rs,
                 ranges_cap := (if length rs + 1 > ranges_cap a then ranges_cap a * 2 else ranges_cap a)\<rparr>)
      in a'\<lparr>totalBytes := totalBytes a' + range_size r\<rparr>)"

definition add :: "addrRanges \<Rightarrow> addrRange \<Rightarrow> addrRanges go" where
  "add a r =
     (if range_size r = 0 then None
      else
        let i = findSucc a (r_base r);
            coalescesDown = (i > 0 \<and> r_limit (ranges a ! (i - 1)) = r_base r);
            coalescesUp = (i < length (ranges a) \<and> r_limit r = r_base (ranges a ! i))
        in Some (add_at a r i coalescesUp coalescesDown))"

definition removeLast :: "addrRanges \<Rightarrow> uintptr \<Rightarrow> addrRanges \<times> addrRange" where
  "removeLast a nBytes =
     (if ranges a = [] then (a, mk_range 0 0)
      else
        let r = ranges a ! (length (ranges a) - 1); sz = range_size r in
        if sz > nBytes then
          let newEnd = off_sub (r_limit r) nBytes
          in (a\<lparr>ranges := (ranges a)[length (ranges a) - 1 := r\<lparr>r_limit := newEnd\<rparr>],
                totalBytes := totalBytes a - nBytes\<rparr>, mk_range newEnd (r_limit r))
        else (a\<lparr>ranges := take (length (ranges a) - 1) (ranges a),
                totalBytes := totalBytes a - sz\<rparr>, r))"

definition removeGreaterEqual :: "addrRanges \<Rightarrow> uintptr \<Rightarrow> addrRanges go" where
  "removeGreaterEqual a addr =
     (let pivot = findSucc a addr; rs = ranges a in
      if pivot = 0 then Some (a\<lparr>totalBytes := 0, ranges := []\<rparr>)
      else
        let removed = (\<Sum>r\<leftarrow>drop pivot rs. range_size r); r = rs ! (pivot - 1) in
        if range_contains r addr then do {
          r' \<leftarrow> range_removeGreaterEqual r addr;
          let removed = removed + range_size r in
          if range_size r' = 0 then
            Some (a\<lparr>ranges := take (pivot - 1) rs, totalBytes := totalBytes a - removed\<rparr>)
          else
            Some (a\<lparr>ranges := take pivot (rs[pivot - 1 := r']),
              totalBytes := totalBytes a - (removed - range_size r')\<rparr>)
        }
        else Some (a\<lparr>ranges := take pivot rs, totalBytes := totalBytes a - removed\<rparr>))"

definition cloneInto :: "addrRanges \<Rightarrow> addrRanges \<Rightarrow> addrRanges" where
  "cloneInto a b =
     b\<lparr>ranges_cap := (if length (ranges a) > ranges_cap b then ranges_cap a else ranges_cap b),
       totalBytes := totalBytes a, ranges := ranges a\<rparr>"

subsection \<open>The offset view\<close>

definition off :: "uintptr \<Rightarrow> nat" where
  "off x = unat (x - arenaBaseOffset)"

lemma lessThan_off: "lessThan x y \<longleftrightarrow> off x < off y"
  by (simp add: lessThan_def off_def word_less_nat_alt)

lemma lessEqual_off: "lessEqual x y \<longleftrightarrow> off x \<le> off y"
  by (simp add: lessEqual_def off_def word_le_nat_alt)

lemma off_inj: "off x = off y \<longleftrightarrow> x = y"
  using word_unat_eq_iff [of "x - arenaBaseOffset" "y - arenaBaseOffset"] by (simp add: off_def)

lemma off_less: "off x < 2 ^ 64"
  unfolding off_def by (rule unat_less_2p64)

lemma unat_diff_off: "off x \<le> off y \<Longrightarrow> unat (y - x) = off y - off x"
proof -
  assume "off x \<le> off y"
  then have "unat ((y - arenaBaseOffset) - (x - arenaBaseOffset)) = off y - off x"
    unfolding off_def by (intro unat_sub_small)
  then show ?thesis by simp
qed

lemma off_minus: "unat n \<le> off x \<Longrightarrow> off (x - n) = off x - unat n"
proof -
  assume "unat n \<le> off x"
  then have "unat ((x - arenaBaseOffset) - n) = off x - unat n"
    unfolding off_def by (intro unat_sub_small)
  then show ?thesis by (simp add: off_def algebra_simps)
qed

lemma unat_range_size: "unat (range_size r) = off (r_limit r) - off (r_base r)"
  by (simp add: range_size_def lessThan_off off_diff_def unat_diff_off)

text \<open>An address is in the upper segment of the virtual address space iff it is in the lower part of
  the offset view; so between two addresses of one segment there is no gap.\<close>

definition lower_seg :: "uintptr \<Rightarrow> bool" where
  "lower_seg x \<longleftrightarrow> x - arenaBaseOffset \<ge> x"

lemma lower_seg_off: "lower_seg x \<longleftrightarrow> 2 ^ 47 \<le> off x"
proof -
  define y where "y = x - arenaBaseOffset"
  have x: "x = y + arenaBaseOffset" by (simp add: y_def)
  have "unat y < 2 ^ 64" by (rule unat_less_2p64)
  then show ?thesis
    by (simp add: lower_seg_def off_def x word_le_nat_alt unat_plus_if' arenaBaseOffset_def)
qed

lemma lower_seg_between:
  "lower_seg x = lower_seg y \<Longrightarrow> off x \<le> off z \<Longrightarrow> off z \<le> off y \<Longrightarrow> lower_seg z = lower_seg x"
  by (auto simp: lower_seg_off)

subsection \<open>The set of addresses of a collection\<close>

definition rset :: "addrRange \<Rightarrow> nat set" where
  "rset r = {off (r_base r) ..< off (r_limit r)}"

definition addrs :: "addrRange list \<Rightarrow> nat set" where
  "addrs rs = (\<Union>r\<in>set rs. rset r)"

definition range_ok :: "addrRange \<Rightarrow> bool" where
  "range_ok r \<longleftrightarrow> off (r_base r) < off (r_limit r) \<and> lower_seg (r_base r) = lower_seg (r_limit r)"

definition before :: "addrRange \<Rightarrow> addrRange \<Rightarrow> bool" where
  "before r s \<longleftrightarrow> off (r_limit r) < off (r_base s)"

text \<open>The invariant: nonempty ranges inside one segment, sorted, separated (eager coalescing), and the
  byte count is that of the set.\<close>

definition rs_ok :: "addrRange list \<Rightarrow> bool" where
  "rs_ok rs \<longleftrightarrow> (\<forall>r\<in>set rs. range_ok r) \<and> sorted_wrt before rs"

definition addrRanges_ok :: "addrRanges \<Rightarrow> bool" where
  "addrRanges_ok a \<longleftrightarrow> rs_ok (ranges a) \<and> length (ranges a) \<le> ranges_cap a \<and> 0 < ranges_cap a \<and>
     totalBytes a = of_nat (card (addrs (ranges a)))"

lemma range_contains_rset: "range_contains r x \<longleftrightarrow> off x \<in> rset r"
  by (simp add: range_contains_def lessEqual_off lessThan_off rset_def)

lemma card_rset: "card (rset r) = unat (range_size r)"
  by (simp add: rset_def unat_range_size)

lemma finite_rset [simp]: "finite (rset r)"
  by (simp add: rset_def)

lemma finite_addrs [simp]: "finite (addrs rs)"
  by (simp add: addrs_def rset_def)

lemma addrs_simps [simp]:
  "addrs [] = {}" "addrs (r # rs) = rset r \<union> addrs rs" "addrs (rs @ ss) = addrs rs \<union> addrs ss"
  by (simp_all add: addrs_def)

lemma rs_ok_append: "rs_ok (rs @ ss) \<longleftrightarrow>
    rs_ok rs \<and> rs_ok ss \<and> (\<forall>r\<in>set rs. \<forall>s\<in>set ss. before r s)"
  by (auto simp: rs_ok_def sorted_wrt_append)

lemma rs_ok_Cons: "rs_ok (r # rs) \<longleftrightarrow> range_ok r \<and> rs_ok rs \<and> (\<forall>s\<in>set rs. before r s)"
  by (auto simp: rs_ok_def)

lemma rs_ok_Nil [simp]: "rs_ok []"
  by (simp add: rs_ok_def)

lemma before_trans: "before r s \<Longrightarrow> range_ok s \<Longrightarrow> before s t \<Longrightarrow> before r t"
  by (simp add: before_def range_ok_def)

lemma rs_ok_nth:
  assumes "rs_ok rs" "i < j" "j < length rs"
  shows "off (r_limit (rs ! i)) < off (r_base (rs ! j))"
  using assms by (auto simp: rs_ok_def sorted_wrt_iff_nth_less before_def)

lemma rs_ok_nth_range: "rs_ok rs \<Longrightarrow> i < length rs \<Longrightarrow> off (r_base (rs ! i)) < off (r_limit (rs ! i))"
  by (auto simp: rs_ok_def range_ok_def)

subsection \<open>Finding the successor\<close>

definition is_succ :: "addrRange list \<Rightarrow> uintptr \<Rightarrow> nat \<Rightarrow> bool" where
  "is_succ rs addr k \<longleftrightarrow> k \<le> length rs \<and> (\<forall>j<k. off (r_base (rs ! j)) \<le> off addr) \<and>
     (\<forall>j<length rs. k \<le> j \<longrightarrow> off addr < off (r_base (rs ! j)))"

lemma findSucc_search_correct:
  assumes "rs_ok rs" "lo \<le> hi" "hi \<le> length rs"
    and "\<forall>j<lo. off (r_base (rs ! j)) \<le> off addr"
    and "\<forall>j<length rs. hi \<le> j \<longrightarrow> off addr < off (r_base (rs ! j))"
  shows "case findSucc_search rs addr lo hi of
      Inl k \<Rightarrow> is_succ rs addr k
    | Inr (lo', hi') \<Rightarrow> lo' \<le> hi' \<and> hi' \<le> length rs \<and> (\<forall>j<lo'. off (r_base (rs ! j)) \<le> off addr) \<and>
        (\<forall>j<length rs. hi' \<le> j \<longrightarrow> off addr < off (r_base (rs ! j)))"
  using assms
proof (induction rs addr lo hi rule: findSucc_search.induct)
  case (1 rs addr lo hi)
  show ?case
  proof (cases "8 < hi - lo")
    case False
    then show ?thesis using "1.prems" by (simp add: findSucc_search.simps)
  next
    case True
    define i where "i = (lo + hi) div 2"
    have i: "lo \<le> i" "i < hi" "i < length rs" using True "1.prems" by (auto simp: i_def)
    have below: "off (r_base (rs ! j)) \<le> off addr" if "j \<le> i" "off (r_base (rs ! i)) \<le> off addr" for j
    proof (cases "j = i")
      case False
      then have "off (r_limit (rs ! j)) < off (r_base (rs ! i))"
        using that i(3) by (intro rs_ok_nth [OF "1.prems"(1)]) simp_all
      moreover have "off (r_base (rs ! j)) < off (r_limit (rs ! j))"
        using that i(3) by (intro rs_ok_nth_range [OF "1.prems"(1)]) simp
      ultimately show ?thesis using that(2) by simp
    qed (use that in simp)
    have above: "off addr < off (r_base (rs ! j))" if "i < j" "j < length rs" "off addr < off (r_limit (rs ! i))" for j
      using that rs_ok_nth [OF "1.prems"(1) that(1,2)] by simp
    consider "range_contains (rs ! i) addr" | "\<not> range_contains (rs ! i) addr" "lessThan addr (r_base (rs ! i))"
      | "\<not> range_contains (rs ! i) addr" "\<not> lessThan addr (r_base (rs ! i))" by blast
    then show ?thesis
    proof cases
      case 1
      then have c: "off (r_base (rs ! i)) \<le> off addr" "off addr < off (r_limit (rs ! i))"
        by (auto simp: range_contains_rset rset_def)
      then have "is_succ rs addr (Suc i)" using i below above by (auto simp: is_succ_def less_Suc_eq_le)
      then show ?thesis using True 1 by (simp add: findSucc_search.simps Let_def i_def)
    next
      case 2
      then have "off addr < off (r_base (rs ! j))" if "j < length rs" "i \<le> j" for j
        using above [of j] rs_ok_nth_range [OF "1.prems"(1) i(3)] that
        by (cases "i = j") (auto simp: lessThan_off)
      then show ?thesis
        using "1.IH"(1) [OF True refl] 2 i "1.prems" True
        by (subst findSucc_search.simps) (simp add: Let_def i_def)
    next
      case 3
      then have "off (r_base (rs ! j)) \<le> off addr" if "j < Suc i" for j
        using below [of j] that by (simp add: lessThan_off)
      then show ?thesis
        using "1.IH"(2) [OF True refl] 3 i "1.prems" True
        by (subst findSucc_search.simps) (simp add: Let_def i_def)
    qed
  qed
qed

lemma findSucc_scan_correct:
  assumes "lo \<le> hi" "hi \<le> length rs"
    and "\<forall>j<lo. off (r_base (rs ! j)) \<le> off addr"
    and "\<forall>j<length rs. hi \<le> j \<longrightarrow> off addr < off (r_base (rs ! j))" and "rs_ok rs"
  shows "is_succ rs addr (findSucc_scan rs addr lo hi)"
  using assms
proof (induction rs addr lo hi rule: findSucc_scan.induct)
  case (1 rs addr i hi)
  show ?case
  proof (cases "i < hi \<and> \<not> lessThan addr (r_base (rs ! i))")
    case True
    then have "\<forall>j<Suc i. off (r_base (rs ! j)) \<le> off addr"
      using "1.prems" by (auto simp: lessThan_off less_Suc_eq)
    then show ?thesis using True "1.IH" "1.prems" by (subst findSucc_scan.simps) simp
  next
    case False
    show ?thesis
    proof (cases "i < hi")
      case True
      then have lt: "off addr < off (r_base (rs ! i))" "i < length rs" using False "1.prems" by (auto simp: lessThan_off)
      have "off addr < off (r_base (rs ! j))" if "i \<le> j" "j < length rs" for j
        using that lt rs_ok_nth [OF "1.prems"(5), of i j] rs_ok_nth_range [OF "1.prems"(5) lt(2)]
        by (cases "i = j") auto
      then have "is_succ rs addr i" using "1.prems" lt by (auto simp: is_succ_def)
      then show ?thesis using True False by (subst findSucc_scan.simps) simp
    next
      case False
      then have "i = hi" using "1.prems" by simp
      then have "is_succ rs addr hi" using "1.prems" by (auto simp: is_succ_def)
      then show ?thesis using False by (subst findSucc_scan.simps) simp
    qed
  qed
qed

lemma findSucc_is_succ:
  assumes "rs_ok (ranges a)"
  shows "is_succ (ranges a) addr (findSucc a addr)"
proof -
  have *: "case findSucc_search (ranges a) addr 0 (length (ranges a)) of
      Inl k \<Rightarrow> is_succ (ranges a) addr k
    | Inr (lo', hi') \<Rightarrow> lo' \<le> hi' \<and> hi' \<le> length (ranges a) \<and>
        (\<forall>j<lo'. off (r_base (ranges a ! j)) \<le> off addr) \<and>
        (\<forall>j<length (ranges a). hi' \<le> j \<longrightarrow> off addr < off (r_base (ranges a ! j)))"
    using assms by (intro findSucc_search_correct) simp_all
  show ?thesis
  proof (cases "findSucc_search (ranges a) addr 0 (length (ranges a))")
    case (Inl k)
    then show ?thesis using * by (simp add: findSucc_def)
  next
    case (Inr p)
    obtain lo hi where "p = (lo, hi)" by (cases p)
    then show ?thesis using * Inr findSucc_scan_correct [OF _ _ _ _ assms] by (simp add: findSucc_def)
  qed
qed

text \<open>The successor splits the collection into the ranges that start at or below the address and
  those above it; of the former only the last can reach the address.\<close>

lemma succ_split:
  assumes "is_succ rs addr k"
  shows "\<forall>r\<in>set (take k rs). off (r_base r) \<le> off addr" "\<forall>r\<in>set (drop k rs). off addr < off (r_base r)"
    "k \<le> length rs"
proof -
  show "k \<le> length rs" using assms by (simp add: is_succ_def)
  show "\<forall>r\<in>set (take k rs). off (r_base r) \<le> off addr"
    using assms by (auto simp: is_succ_def in_set_conv_nth)
  show "\<forall>r\<in>set (drop k rs). off addr < off (r_base r)"
    using assms by (auto simp: is_succ_def in_set_conv_nth)
qed

lemma split_at_succ:
  assumes "rs_ok rs" "is_succ rs addr k"
  obtains (low) "k = 0" "\<forall>r\<in>set rs. off addr < off (r_base r)"
  | (mid) L p U where "rs = L @ p # U" "k = Suc (length L)" "off (r_base p) \<le> off addr"
      "\<forall>r\<in>set U. off addr < off (r_base r)" "\<forall>r\<in>set L. off (r_limit r) < off (r_base p)"
proof (cases k)
  case 0
  then show ?thesis using succ_split(2) [OF assms(2)] low by simp
next
  case (Suc j)
  have k: "k \<le> length rs" using assms(2) by (simp add: is_succ_def)
  then have rs: "rs = take j rs @ rs ! j # drop k rs" using Suc by (simp add: id_take_nth_drop)
  have "rs ! j \<in> set (take k rs)" using Suc k by (auto simp: in_set_conv_nth)
  then have p: "off (r_base (rs ! j)) \<le> off addr" using succ_split(1) [OF assms(2)] by blast
  have "\<forall>r\<in>set (take j rs). off (r_limit r) < off (r_base (rs ! j))"
  proof -
    have "rs_ok (take j rs @ rs ! j # drop k rs)" using assms(1) rs by metis
    then show ?thesis by (auto simp: rs_ok_append before_def)
  qed
  then show ?thesis using mid [OF rs _ p succ_split(2) [OF assms(2)]] Suc k by simp
qed

lemma addrs_bounds:
  "\<forall>r\<in>set rs. off (r_limit r) \<le> m \<Longrightarrow> x \<in> addrs rs \<Longrightarrow> x < m"
  "\<forall>r\<in>set rs. m < off (r_base r) \<Longrightarrow> x \<in> addrs rs \<Longrightarrow> m < x"
  by (fastforce simp: addrs_def rset_def)+

lemma contains_addrs:
  assumes "rs_ok (ranges a)"
  shows "contains a addr \<longleftrightarrow> off addr \<in> addrs (ranges a)"
proof -
  have succ: "is_succ (ranges a) addr (findSucc a addr)" by (rule findSucc_is_succ [OF assms])
  from assms succ show ?thesis
  proof (cases rule: split_at_succ)
    case low
    then show ?thesis using addrs_bounds(2) [OF low(2)] by (auto simp: contains_def Let_def)
  next
    case (mid L p U)
    have "off addr \<notin> addrs U" using addrs_bounds(2) [OF mid(4)] by blast
    moreover have "off addr \<notin> addrs L"
      using addrs_bounds(1) [of L "off addr" "off addr"] mid(3,5) by fastforce
    ultimately show ?thesis using mid(1,2) by (simp add: contains_def Let_def range_contains_rset)
  qed
qed

subsection \<open>Adding a range\<close>

lemma add_neighbours:
  assumes ok: "rs_ok rs" and r: "range_ok r" "rset r \<inter> addrs rs = {}" and succ: "is_succ rs (r_base r) i"
  obtains L U where "rs = L @ U" "i = length L"
    "\<forall>s\<in>set L. off (r_limit s) \<le> off (r_base r)" "\<forall>s\<in>set U. off (r_limit r) \<le> off (r_base s)"
    "\<forall>s\<in>set (butlast L). off (r_limit s) < off (r_base r)" "\<forall>s\<in>set (tl U). off (r_limit r) < off (r_base s)"
proof -
  define L U where "L = take i rs" and "U = drop i rs"
  have rs: "rs = L @ U" by (simp add: L_def U_def)
  have i: "i = length L" using succ_split(3) [OF succ] by (simp add: L_def)
  have Lb: "\<forall>s\<in>set L. off (r_base s) \<le> off (r_base r)" and Ub: "\<forall>s\<in>set U. off (r_base r) < off (r_base s)"
    using succ_split(1,2) [OF succ] by (auto simp: L_def U_def)
  have disj: "rset r \<inter> rset s = {}" if "s \<in> set rs" for s using r(2) that by (auto simp: addrs_def)
  have okr: "range_ok s" if "s \<in> set rs" for s using ok that by (auto simp: rs_ok_def)
  have 1: "off (r_limit s) \<le> off (r_base r)" if "s \<in> set L" for s
  proof (rule ccontr)
    assume "\<not> off (r_limit s) \<le> off (r_base r)"
    then have "off (r_base r) \<in> rset s" "off (r_base r) \<in> rset r"
      using Lb that r(1) by (auto simp: rset_def range_ok_def)
    then show False using disj [of s] that rs by auto
  qed
  have 2: "off (r_limit r) \<le> off (r_base s)" if "s \<in> set U" for s
  proof (rule ccontr)
    assume "\<not> off (r_limit r) \<le> off (r_base s)"
    then have "off (r_base s) \<in> rset r" "off (r_base s) \<in> rset s"
      using Ub that okr [of s] rs by (auto simp: rset_def range_ok_def)
    then show False using disj [of s] that rs by auto
  qed
  have 3: "off (r_limit s) < off (r_base r)" if "s \<in> set (butlast L)" for s
  proof -
    have ne: "L \<noteq> []" using that by auto
    then have "L = butlast L @ [last L]" by simp
    then have "before s (last L)" using ok that unfolding rs by (metis rs_ok_append list.set_intros(1))
    moreover have "off (r_base (last L)) \<le> off (r_base r)" using Lb last_in_set [OF ne] by blast
    ultimately show ?thesis by (simp add: before_def)
  qed
  have 4: "off (r_limit r) < off (r_base s)" if "s \<in> set (tl U)" for s
  proof -
    have ne: "U = hd U # tl U" using that by (cases U) auto
    have "rs_ok U" using ok unfolding rs by (simp add: rs_ok_append)
    then have "before (hd U) s" "range_ok (hd U)" using that ne by (metis rs_ok_Cons)+
    moreover have "off (r_limit r) \<le> off (r_base (hd U))" using 2 ne by (metis list.set_intros(1))
    ultimately show ?thesis by (simp add: before_def range_ok_def)
  qed
  show ?thesis using that rs i 1 2 3 4 by blast
qed

lemma range_ok_join:
  assumes "range_ok r" "range_ok s" "r_limit r = r_base s"
  shows "range_ok (mk_range (r_base r) (r_limit s))" "rset (mk_range (r_base r) (r_limit s)) = rset r \<union> rset s"
  using assms by (auto simp: range_ok_def rset_def)

lemma update_fields: "p\<lparr>r_limit := x\<rparr> = mk_range (r_base p) x" "p\<lparr>r_base := x\<rparr> = mk_range x (r_limit p)"
  for p :: addrRange
  by simp_all

lemma rs_ok_insert:
  assumes "rs_ok L" "rs_ok U" "range_ok q" "\<forall>s\<in>set L. before s q" "\<forall>s\<in>set U. before q s"
  shows "rs_ok (L @ q # U)"
  using assms before_trans by (simp add: rs_ok_append rs_ok_Cons) blast

lemma add_ranges:
  assumes "rs_ok (ranges a)" "range_ok r" "rset r \<inter> addrs (ranges a) = {}"
  shows "\<exists>a'. add a r = Some a' \<and> rs_ok (ranges a') \<and> addrs (ranges a') = addrs (ranges a) \<union> rset r \<and>
    totalBytes a' = totalBytes a + range_size r \<and>
    (length (ranges a) \<le> ranges_cap a \<and> 0 < ranges_cap a \<longrightarrow>
      length (ranges a') \<le> ranges_cap a' \<and> 0 < ranges_cap a')"
proof -
  have "unat (range_size r) > 0" using assms(2) by (simp add: unat_range_size range_ok_def)
  then have nz: "range_size r \<noteq> 0" by auto
  define i where "i = findSucc a (r_base r)"
  have "is_succ (ranges a) (r_base r) i" unfolding i_def by (rule findSucc_is_succ [OF assms(1)])
  from add_neighbours [OF assms this] obtain L U where LU: "ranges a = L @ U" "i = length L"
    "\<forall>s\<in>set L. off (r_limit s) \<le> off (r_base r)" "\<forall>s\<in>set U. off (r_limit r) \<le> off (r_base s)"
    "\<forall>s\<in>set (butlast L). off (r_limit s) < off (r_base r)" "\<forall>s\<in>set (tl U). off (r_limit r) < off (r_base s)"
    by blast
  have okLU: "rs_ok L" "rs_ok U" "\<forall>x\<in>set L. \<forall>y\<in>set U. before x y"
    using assms(1) LU(1) by (simp_all add: rs_ok_append)
  define down where "down \<longleftrightarrow> L \<noteq> [] \<and> r_limit (last L) = r_base r"
  define up where "up \<longleftrightarrow> U \<noteq> [] \<and> r_limit r = r_base (hd U)"
  have guards: "(i > 0 \<and> r_limit (ranges a ! (i - 1)) = r_base r) = down"
    "(i < length (ranges a) \<and> r_limit r = r_base (ranges a ! i)) = up"
    by (auto simp: down_def up_def LU(1,2) nth_append last_conv_nth hd_conv_nth)
  have Lr: "before s r" if "s \<in> set L" "\<not> down" for s
  proof (cases "s = last L")
    case True
    then have "r_limit s \<noteq> r_base r" using that by (auto simp: down_def)
    then have "off (r_limit s) \<noteq> off (r_base r)" by (simp add: off_inj)
    moreover have "off (r_limit s) \<le> off (r_base r)" using LU(3) that(1) by blast
    ultimately show ?thesis by (simp add: before_def)
  next
    case False
    then have "s \<in> set (butlast L)" using that(1) by (cases L rule: rev_cases) auto
    then show ?thesis using LU(5) by (auto simp: before_def)
  qed
  have rU: "before r s" if "s \<in> set U" "\<not> up" for s
  proof (cases "s = hd U")
    case True
    then have "r_limit r \<noteq> r_base s" using that by (auto simp: up_def)
    then have "off (r_limit r) \<noteq> off (r_base s)" by (simp add: off_inj)
    moreover have "off (r_limit r) \<le> off (r_base s)" using LU(4) that(1) by blast
    ultimately show ?thesis by (simp add: before_def)
  next
    case False
    then have "s \<in> set (tl U)" using that(1) by (cases U) auto
    then show ?thesis using LU(6) by (auto simp: before_def)
  qed
  have eq: "add a r = Some (add_at a r i up down)"
    using nz guards by (simp add: add_def Let_def flip: i_def)
  have Ucons: "\<exists>n U'. U = n # U'" if up using that by (cases U) (auto simp: up_def)
  have Lsnoc: "\<exists>L' p. L = L' @ [p]" if down using that by (cases L rule: rev_cases) (auto simp: down_def)
  consider (both) L' p n U' where "up" "down" "L = L' @ [p]" "U = n # U'"
    | (down) L' p where "\<not> up" "down" "L = L' @ [p]"
    | (up) n U' where "up" "\<not> down" "U = n # U'"
    | (none) "\<not> up" "\<not> down"
    using Ucons Lsnoc by blast
  then show ?thesis
  proof cases
    case both
    have j: "r_limit p = r_base r" "r_limit r = r_base n" using both by (auto simp: down_def up_def)
    have okp: "rs_ok L'" "range_ok p" "\<forall>s\<in>set L'. before s p" "rs_ok U'" "range_ok n" "\<forall>s\<in>set U'. before n s"
      using okLU(1,2) both(3,4) by (simp_all add: rs_ok_append rs_ok_Cons)
    note j1 = range_ok_join [OF okp(2) assms(2) j(1)]
    note j2 = range_ok_join [OF j1(1) okp(5), simplified, OF j(2)]
    have "add a r = Some (a\<lparr>ranges := L' @ mk_range (r_base p) (r_limit n) # U',
        totalBytes := totalBytes a + range_size r\<rparr>)"
      unfolding eq using both LU(2) by (simp add: add_at_def LU(1) Let_def nth_append list_update_append update_fields)
    moreover have "rs_ok (L' @ mk_range (r_base p) (r_limit n) # U')"
      using okp j2(1) by (intro rs_ok_insert) (auto simp: before_def)
    moreover have "rset (mk_range (r_base p) (r_limit n)) = rset p \<union> rset r \<union> rset n"
      using j1(2) j2(2) j(2) by simp
    ultimately show ?thesis using both by (auto simp: LU(1))
  next
    case down
    have j: "r_limit p = r_base r" using down by (auto simp: down_def)
    have okp: "rs_ok L'" "range_ok p" "\<forall>s\<in>set L'. before s p"
      using okLU(1) down(3) by (simp_all add: rs_ok_append rs_ok_Cons)
    note j1 = range_ok_join [OF okp(2) assms(2) j(1)]
    have "add a r = Some (a\<lparr>ranges := L' @ mk_range (r_base p) (r_limit r) # U,
        totalBytes := totalBytes a + range_size r\<rparr>)"
      unfolding eq using down LU(2) by (simp add: add_at_def LU(1) Let_def nth_append list_update_append update_fields)
    moreover have "rs_ok (L' @ mk_range (r_base p) (r_limit r) # U)"
      using okp j1(1) okLU(2) rU [OF _ down(1)] by (intro rs_ok_insert) (auto simp: before_def)
    ultimately show ?thesis using down j1(2) by (auto simp: LU(1))
  next
    case up
    have j: "r_limit r = r_base n" using up by (auto simp: up_def)
    have okp: "rs_ok U'" "range_ok n" "\<forall>s\<in>set U'. before n s"
      using okLU(2) up(3) by (simp_all add: rs_ok_Cons)
    note j1 = range_ok_join [OF assms(2) okp(2) j]
    have "add a r = Some (a\<lparr>ranges := L @ mk_range (r_base r) (r_limit n) # U',
        totalBytes := totalBytes a + range_size r\<rparr>)"
      unfolding eq using up LU(2) by (simp add: add_at_def LU(1) Let_def nth_append list_update_append update_fields)
    moreover have "rs_ok (L @ mk_range (r_base r) (r_limit n) # U')"
      using okp j1(1) okLU(1) Lr [OF _ up(2)] by (intro rs_ok_insert) (auto simp: before_def)
    ultimately show ?thesis using up j1(2) by (auto simp: LU(1))
  next
    case none
    have "rs_ok (L @ r # U)"
      using assms(2) okLU(1,2) Lr [OF _ none(2)] rU [OF _ none(1)] by (intro rs_ok_insert) auto
    then show ?thesis unfolding eq using none by (auto simp: add_at_def LU(1,2) Let_def)
  qed
qed

lemma card_addrs_less: "rs_ok rs \<Longrightarrow> card (addrs rs) < 2 ^ 64"
proof -
  assume ok: "rs_ok rs"
  show ?thesis
  proof (cases rs rule: rev_cases)
    case (snoc L p)
    have "\<forall>r\<in>set rs. off (r_limit r) \<le> off (r_limit p)"
      using ok by (auto simp: snoc rs_ok_append rs_ok_Cons before_def range_ok_def)
    then have "addrs rs \<subseteq> {..<off (r_limit p)}" using addrs_bounds(1) by blast
    then have "card (addrs rs) \<le> off (r_limit p)" by (metis card_lessThan card_mono finite_lessThan)
    then show ?thesis using off_less [of "r_limit p"] by simp
  qed simp
qed

lemma add_spec:
  assumes "addrRanges_ok a" "range_ok r" "rset r \<inter> addrs (ranges a) = {}"
  shows "\<exists>a'. add a r = Some a' \<and> addrRanges_ok a' \<and> addrs (ranges a') = addrs (ranges a) \<union> rset r"
proof -
  have ok: "rs_ok (ranges a)" "length (ranges a) \<le> ranges_cap a" "0 < ranges_cap a"
    "totalBytes a = of_nat (card (addrs (ranges a)))" using assms(1) by (simp_all add: addrRanges_ok_def)
  obtain a' where a': "add a r = Some a'" "rs_ok (ranges a')" "addrs (ranges a') = addrs (ranges a) \<union> rset r"
    "totalBytes a' = totalBytes a + range_size r" "length (ranges a') \<le> ranges_cap a'" "0 < ranges_cap a'"
    using add_ranges [OF ok(1) assms(2,3)] ok(2,3) by blast
  have "finite (rset r)" by (simp add: rset_def)
  then have "card (addrs (ranges a')) = card (addrs (ranges a)) + card (rset r)"
    using assms(3) unfolding a'(3) by (subst card_Un_disjoint) auto
  then have "totalBytes a' = of_nat (card (addrs (ranges a')))"
    using a'(4) ok(4) by (simp add: card_rset)
  then show ?thesis using a' by (simp add: addrRanges_ok_def)
qed

subsection \<open>Removing\<close>

lemma removeLast_spec:
  assumes "addrRanges_ok a" "ranges a \<noteq> []" "removeLast a nBytes = (a', r)"
  shows "addrRanges_ok a' \<and> addrs (ranges a) = addrs (ranges a') \<union> rset r \<and> addrs (ranges a') \<inter> rset r = {} \<and>
    (\<forall>x\<in>addrs (ranges a'). \<forall>y\<in>rset r. x < y) \<and>
    card (rset r) = min (unat nBytes) (unat (range_size (last (ranges a))))"
proof -
  obtain L p where rs: "ranges a = L @ [p]" using assms(2) by (cases "ranges a" rule: rev_cases) auto
  have ok: "rs_ok L" "range_ok p" "\<forall>s\<in>set L. before s p"
    using assms(1) by (simp_all add: addrRanges_ok_def rs rs_ok_append rs_ok_Cons)
  have cap: "length L < ranges_cap a" "0 < ranges_cap a" "totalBytes a = of_nat (card (addrs L \<union> rset p))"
    using assms(1) by (simp_all add: addrRanges_ok_def rs)
  have lt: "x < off (r_base p)" if "x \<in> addrs L" for x
  proof -
    have "\<forall>s\<in>set L. off (r_limit s) \<le> off (r_base p)" using ok(3) by (auto simp: before_def)
    then show ?thesis using addrs_bounds(1) that by blast
  qed
  have fin: "finite (rset p)" by (simp add: rset_def)
  have disj: "addrs L \<inter> rset p = {}" using lt by (auto simp: rset_def) (metis leD)
  have tot: "totalBytes a = of_nat (card (addrs L)) + range_size p"
    using cap(3) disj fin by (simp add: card_Un_disjoint card_rset)
  show ?thesis
  proof (cases "range_size p > nBytes")
    case False
    then have "r = p" "a' = a\<lparr>ranges := L, totalBytes := totalBytes a - range_size p\<rparr>"
      using assms(3) by (auto simp: removeLast_def rs nth_append Let_def)
    moreover have "unat (range_size p) \<le> unat nBytes" using False by (simp add: word_less_nat_alt)
    ultimately show ?thesis
      using ok cap(1,2) tot disj
      by (auto simp: addrRanges_ok_def rs rset_def card_rset unat_range_size intro: less_le_trans [OF lt])
  next
    case True
    define e where "e = r_limit p - nBytes"
    have n: "unat nBytes < off (r_limit p) - off (r_base p)"
      using True by (simp add: word_less_nat_alt unat_range_size)
    then have e: "off e = off (r_limit p) - unat nBytes" unfolding e_def by (intro off_minus) simp
    have r: "r = mk_range e (r_limit p)"
      and a': "a' = a\<lparr>ranges := L @ [mk_range (r_base p) e], totalBytes := totalBytes a - nBytes\<rparr>"
      using assms(3) True by (auto simp: removeLast_def rs nth_append Let_def off_sub_def e_def list_update_append)
    have "off (r_base p) \<le> off e" "off e \<le> off (r_limit p)" using n e by linarith+
    then have "lower_seg e = lower_seg (r_base p)"
      using lower_seg_between [of "r_base p" "r_limit p" e] ok(2) by (simp add: range_ok_def)
    then have okq: "range_ok (mk_range (r_base p) e)" using n e by (simp add: range_ok_def)
    then have oka: "rs_ok (L @ [mk_range (r_base p) e])"
      using ok by (intro rs_ok_insert) (auto simp: before_def)
    have sets: "rset p = rset (mk_range (r_base p) e) \<union> rset r" "rset (mk_range (r_base p) e) \<inter> rset r = {}"
      using n e by (auto simp: rset_def r)
    have cr: "card (rset r) = unat nBytes" using n e by (simp add: r rset_def)
    have "card (rset p) = card (rset (mk_range (r_base p) e)) + card (rset r)"
      using sets by (simp add: card_Un_disjoint rset_def)
    moreover have "range_size p = of_nat (card (rset p))" by (simp add: card_rset)
    ultimately have "range_size p = of_nat (card (rset (mk_range (r_base p) e))) + nBytes"
      using cr by simp
    moreover have "card (addrs L \<union> rset (mk_range (r_base p) e)) = card (addrs L) + card (rset (mk_range (r_base p) e))"
      using disj sets(1) by (intro card_Un_disjoint) (auto simp: rset_def)
    ultimately have "totalBytes a' = of_nat (card (addrs (ranges a')))"
      using tot by (simp add: a')
    then have "addrRanges_ok a'" using oka cap by (simp add: addrRanges_ok_def a')
    moreover have "addrs (ranges a) = addrs (ranges a') \<union> rset r" using sets(1) by (auto simp: rs a')
    moreover have "addrs (ranges a') \<inter> rset r = {}" using sets disj by (auto simp: a')
    moreover have "\<forall>x\<in>addrs (ranges a'). \<forall>y\<in>rset r. x < y"
    proof (intro ballI)
      fix x y assume x: "x \<in> addrs (ranges a')" and y: "y \<in> rset r"
      have "off e \<le> y" "off (r_base p) \<le> off e" using y n e by (auto simp: r rset_def)
      then show "x < y" using x lt [of x] by (auto simp: a' rset_def)
    qed
    moreover have "card (rset r) = min (unat nBytes) (unat (range_size (last (ranges a))))"
      using cr n by (simp add: rs unat_range_size)
    ultimately show ?thesis by blast
  qed
qed

lemma sum_range_size: "rs_ok rs \<Longrightarrow> (\<Sum>r\<leftarrow>rs. range_size r) = of_nat (card (addrs rs))"
proof (induction rs)
  case (Cons r rs)
  have "off (r_limit r) < off (r_base s)" if "s \<in> set rs" for s
    using Cons.prems that by (simp add: rs_ok_Cons before_def)
  then have "\<forall>x\<in>addrs rs. off (r_limit r) < x" using addrs_bounds(2) by blast
  then have "rset r \<inter> addrs rs = {}" by (fastforce simp: rset_def)
  then have "card (addrs (r # rs)) = card (rset r) + card (addrs rs)"
    by (simp add: card_Un_disjoint rset_def)
  then show ?case using Cons by (simp add: rs_ok_Cons card_rset)
qed simp

lemma removeGreaterEqual_spec:
  assumes "addrRanges_ok a"
  shows "\<exists>a'. removeGreaterEqual a addr = Some a' \<and> addrRanges_ok a' \<and>
    addrs (ranges a') = {x \<in> addrs (ranges a). x < off addr}"
proof -
  have ok: "rs_ok (ranges a)" "length (ranges a) \<le> ranges_cap a" "0 < ranges_cap a"
    and tot: "totalBytes a = of_nat (card (addrs (ranges a)))" using assms by (simp_all add: addrRanges_ok_def)
  have succ: "is_succ (ranges a) addr (findSucc a addr)" by (rule findSucc_is_succ [OF ok(1)])
  from ok(1) succ show ?thesis
  proof (cases rule: split_at_succ)
    case low
    have "\<not> x < off addr" if "x \<in> addrs (ranges a)" for x using addrs_bounds(2) [OF low(2) that] by simp
    then have "{x \<in> addrs (ranges a). x < off addr} = {}" by blast
    then show ?thesis using low ok(3) by (simp add: removeGreaterEqual_def addrRanges_ok_def)
  next
    case (mid L p U)
    have okp: "rs_ok L" "range_ok p" "rs_ok U" "\<forall>s\<in>set L. before s p" "\<forall>s\<in>set U. before p s"
      using ok(1) by (auto simp: mid(1) rs_ok_append rs_ok_Cons)
    have okLp: "rs_ok (L @ [p])" using okp by (intro rs_ok_insert) simp_all
    have xU: "off addr < x \<and> off (r_limit p) < x" if "x \<in> addrs U" for x
      using addrs_bounds(2) [of U _ x] mid(4) okp(5) that by (simp add: before_def)
    have xL: "x < off (r_base p)" if "x \<in> addrs L" for x
    proof -
      have "\<forall>s\<in>set L. off (r_limit s) \<le> off (r_base p)" using mid(5) by auto
      then show ?thesis using addrs_bounds(1) that by blast
    qed
    have cut: "{x \<in> addrs (ranges a). x < off addr} = addrs L \<union> {x \<in> rset p. x < off addr}"
    proof -
      have "x < off addr" if "x \<in> addrs L" for x using xL [OF that] mid(3) by simp
      moreover have "\<not> x < off addr" if "x \<in> addrs U" for x using xU [OF that] by simp
      ultimately show ?thesis by (auto simp: mid(1))
    qed
    have disj: "addrs (L @ [p]) \<inter> addrs U = {}" "addrs L \<inter> rset p = {}"
    proof -
      show "addrs L \<inter> rset p = {}" using xL by (force simp: rset_def)
      have "x < off (r_limit p)" if "x \<in> addrs (L @ [p])" for x
        using that xL okp(2) by (force simp: rset_def range_ok_def)
      then show "addrs (L @ [p]) \<inter> addrs U = {}" using xU by (meson disjoint_iff less_asym)
    qed
    have cards: "card (addrs (ranges a)) = card (addrs (L @ [p])) + card (addrs U)"
      "card (addrs (L @ [p])) = card (addrs L) + card (rset p)"
    proof -
      have "addrs (ranges a) = addrs (L @ [p]) \<union> addrs U" by (simp add: mid(1) Un_assoc)
      then show "card (addrs (ranges a)) = card (addrs (L @ [p])) + card (addrs U)"
        using card_Un_disjoint [OF finite_addrs finite_addrs disj(1)] by simp
      show "card (addrs (L @ [p])) = card (addrs L) + card (rset p)"
        using card_Un_disjoint [OF finite_addrs finite_rset disj(2)] by simp
    qed
    have sumU: "(\<Sum>r\<leftarrow>U. range_size r) = of_nat (card (addrs U))" by (rule sum_range_size [OF okp(3)])
    have sz: "range_size p = of_nat (card (rset p))" by (simp add: card_rset)
    have eq: "removeGreaterEqual a addr =
      (if range_contains p addr then do {
          r' \<leftarrow> range_removeGreaterEqual p addr;
          let removed = (\<Sum>r\<leftarrow>U. range_size r) + range_size p in
          if range_size r' = 0 then
            Some (a\<lparr>ranges := L, totalBytes := totalBytes a - removed\<rparr>)
          else
            Some (a\<lparr>ranges := L @ [r'], totalBytes := totalBytes a - (removed - range_size r')\<rparr>)
        }
        else Some (a\<lparr>ranges := L @ [p], totalBytes := totalBytes a - (\<Sum>r\<leftarrow>U. range_size r)\<rparr>))"
      by (cases "range_removeGreaterEqual p addr")
        (simp_all add: removeGreaterEqual_def mid(1,2) nth_append list_update_append Let_def)
    show ?thesis
    proof (cases "range_contains p addr")
      case False
      then have "off (r_limit p) \<le> off addr" using mid(3) by (auto simp: range_contains_rset rset_def)
      then have "{x \<in> addrs (ranges a). x < off addr} = addrs (L @ [p])"
        unfolding cut by (auto simp: rset_def)
      moreover have "totalBytes a - (\<Sum>r\<leftarrow>U. range_size r) = of_nat (card (addrs (L @ [p])))"
        using tot cards(1) sumU by simp
      ultimately show ?thesis using False okLp ok(2,3) by (simp add: eq addrRanges_ok_def mid(1))
    next
      case True
      then have c: "off (r_base p) \<le> off addr" "off addr < off (r_limit p)" by (auto simp: range_contains_rset rset_def)
      show ?thesis
      proof (cases "off addr = off (r_base p)")
        case same: True
        have "range_removeGreaterEqual p addr = Some (mk_range 0 0)"
          using same by (simp add: range_removeGreaterEqual_def lessEqual_off)
        moreover have "range_size (mk_range 0 0) = 0" by (simp add: range_size_def lessThan_off)
        moreover have "{x \<in> addrs (ranges a). x < off addr} = addrs L"
          unfolding cut using same by (auto simp: rset_def)
        moreover have "totalBytes a - ((\<Sum>r\<leftarrow>U. range_size r) + range_size p) = of_nat (card (addrs L))"
          using tot cards sumU sz by simp
        ultimately show ?thesis using True okp(1) ok(2,3) by (simp add: eq addrRanges_ok_def mid(1))
      next
        case inside: False
        have seg: "lower_seg addr = lower_seg (r_base p)"
          using lower_seg_between [of "r_base p" "r_limit p" addr] okp(2) c by (simp add: range_ok_def)
        define q where "q = mk_range (r_base p) addr"
        have rq: "range_removeGreaterEqual p addr = Some q"
          using inside c seg by (simp add: range_removeGreaterEqual_def lessEqual_off makeAddrRange_def q_def lower_seg_def)
        have okq: "range_ok q" using inside c seg by (simp add: range_ok_def q_def)
        then have "unat (range_size q) \<noteq> 0" by (simp add: unat_range_size range_ok_def)
        then have nz: "range_size q \<noteq> 0" by auto
        have okLq: "rs_ok (L @ [q])" using okp(1,4) okq by (intro rs_ok_insert) (auto simp: before_def q_def)
        have sets: "{x \<in> addrs (ranges a). x < off addr} = addrs (L @ [q])"
          unfolding cut using c by (auto simp: rset_def q_def)
        have "addrs L \<inter> rset q = {}" using xL by (force simp: rset_def q_def)
        then have "card (addrs (L @ [q])) = card (addrs L) + card (rset q)"
          using card_Un_disjoint [OF finite_addrs finite_rset] by simp
        moreover have szq: "range_size q = of_nat (card (rset q))" by (simp add: card_rset)
        ultimately have "totalBytes a - ((\<Sum>r\<leftarrow>U. range_size r) + range_size p - range_size q) = of_nat (card (addrs (L @ [q])))"
          using tot cards sumU sz szq by simp
        then show ?thesis using True okLq ok(2,3) sets nz rq by (simp add: eq addrRanges_ok_def mid(1) Let_def)
      qed
    qed
  qed
qed

lemma findAddrGreaterEqual_spec:
  assumes "rs_ok (ranges a)" "ranges a \<noteq> []"
  shows "\<exists>v. findAddrGreaterEqual a addr = Some v \<and>
    (if \<exists>x\<in>addrs (ranges a). off addr \<le> x
     then snd v \<and> off (fst v) \<in> addrs (ranges a) \<and> off addr \<le> off (fst v) \<and>
       (\<forall>x\<in>addrs (ranges a). off addr \<le> x \<longrightarrow> off (fst v) \<le> x)
     else v = (0, False))"
proof -
  have base_in: "off (r_base r) \<in> rset r" if "range_ok r" for r using that by (simp add: range_ok_def rset_def)
  have base_le: "off (r_base r) \<le> x" if "rs_ok (r # rs)" "x \<in> addrs (r # rs)" for r rs x
  proof (cases "x \<in> rset r")
    case True
    then show ?thesis by (simp add: rset_def)
  next
    case False
    have "\<forall>s\<in>set rs. off (r_base r) < off (r_base s)"
      using that(1) by (auto simp: rs_ok_Cons before_def range_ok_def)
    then show ?thesis using addrs_bounds(2) that(2) False by fastforce
  qed
  have succ: "is_succ (ranges a) addr (findSucc a addr)" by (rule findSucc_is_succ [OF assms(1)])
  from assms(1) succ show ?thesis
  proof (cases rule: split_at_succ)
    case low
    obtain r rs where rs: "ranges a = r # rs" using assms(2) by (cases "ranges a") auto
    have "off (r_base r) \<in> addrs (ranges a)" "off addr \<le> off (r_base r)"
      using assms(1) low(2) base_in [of r] by (auto simp: rs rs_ok_Cons)
    moreover have "findAddrGreaterEqual a addr = Some (r_base r, True)"
      using low(1) by (simp add: findAddrGreaterEqual_def rs)
    ultimately show ?thesis using base_le assms(1) by (auto simp: rs)
  next
    case (mid L p U)
    have okp: "range_ok p" "rs_ok U" using assms(1) by (auto simp: mid(1) rs_ok_append rs_ok_Cons)
    have low: "\<not> off addr \<le> x" if "x \<in> addrs L" for x
      using addrs_bounds(1) [of L "off (r_base p)" x] mid(3,5) that by fastforce
    have eq: "findAddrGreaterEqual a addr =
        (if range_contains p addr then Some (addr, True)
         else case U of [] \<Rightarrow> Some (0, False) | r # _ \<Rightarrow> Some (r_base r, True))"
      by (cases U) (simp_all add: findAddrGreaterEqual_def mid(1,2) Let_def nth_append)
    show ?thesis
    proof (cases "off addr \<in> rset p")
      case True
      then show ?thesis by (auto simp: eq range_contains_rset mid(1))
    next
      case False
      then have np: "\<not> off addr \<le> x" if "x \<in> rset p" for x using mid(3) that by (auto simp: rset_def)
      show ?thesis
      proof (cases U)
        case Nil
        then have "\<not> (\<exists>x\<in>addrs (ranges a). off addr \<le> x)" using low np by (auto simp: mid(1))
        then show ?thesis using False Nil by (simp add: eq range_contains_rset)
      next
        case (Cons r rs)
        have r: "off (r_base r) \<in> addrs (ranges a)" "off addr \<le> off (r_base r)"
          using okp(2) mid(4) base_in [of r] by (auto simp: mid(1) Cons rs_ok_Cons)
        have "off (r_base r) \<le> x" if "x \<in> addrs (ranges a)" "off addr \<le> x" for x
          using that low np base_le [of r rs x] okp(2) by (auto simp: mid(1) Cons)
        then show ?thesis using False Cons r by (auto simp: eq range_contains_rset)
      qed
    qed
  qed
qed

subsection \<open>The interface of a set of addresses\<close>

text \<open>
  What the page allocator relies on (\<open>pageAlloc.inUse\<close>): a collection of address ranges behaves as
  a set of addresses under adding a new range, cutting off the top and asking for membership.
\<close>

locale address_set =
  fixes ok :: "'a \<Rightarrow> bool" and set_of :: "'a \<Rightarrow> nat set"
    and add_range :: "'a \<Rightarrow> addrRange \<Rightarrow> 'a go"
    and cut :: "'a \<Rightarrow> uintptr \<Rightarrow> 'a go"
    and mem :: "'a \<Rightarrow> uintptr \<Rightarrow> bool"
  assumes add_law: "ok a \<Longrightarrow> range_ok r \<Longrightarrow> rset r \<inter> set_of a = {} \<Longrightarrow>
      \<exists>a'. add_range a r = Some a' \<and> ok a' \<and> set_of a' = set_of a \<union> rset r"
    and cut_law: "ok a \<Longrightarrow> \<exists>a'. cut a x = Some a' \<and> ok a' \<and> set_of a' = {y \<in> set_of a. y < off x}"
    and mem_law: "ok a \<Longrightarrow> mem a x \<longleftrightarrow> off x \<in> set_of a"
begin

fun add_all :: "'a \<Rightarrow> addrRange list \<Rightarrow> 'a go" where
  "add_all a [] = Some a"
| "add_all a (r # rs) = Option.bind (add_range a r) (\<lambda>a. add_all a rs)"

text \<open>A sequence of pairwise disjoint new ranges can be added, in any order.\<close>

lemma add_all_ok:
  assumes "ok a" "\<forall>r\<in>set rs. range_ok r \<and> rset r \<inter> set_of a = {}"
    "sorted_wrt (\<lambda>r s. rset r \<inter> rset s = {}) rs"
  shows "\<exists>a'. add_all a rs = Some a' \<and> ok a' \<and> (\<forall>x. mem a' x \<longleftrightarrow> mem a x \<or> off x \<in> addrs rs)"
  using assms
proof (induction rs arbitrary: a)
  case (Cons r rs)
  obtain b where b: "add_range a r = Some b" "ok b" "set_of b = set_of a \<union> rset r"
    using add_law [OF Cons.prems(1), of r] Cons.prems(2) by (meson list.set_intros(1))
  have "\<forall>s\<in>set rs. range_ok s \<and> rset s \<inter> set_of b = {}"
    using Cons.prems(2,3) b(3) by auto
  then obtain c where "add_all b rs = Some c" "ok c" "\<forall>x. mem c x \<longleftrightarrow> mem b x \<or> off x \<in> addrs rs"
    using Cons.IH [OF b(2)] Cons.prems(3) by auto
  then show ?case using b Cons.prems(1) by (auto simp: mem_law)
qed simp

lemma add_then_cut:
  assumes "ok a" "range_ok r" "rset r \<inter> set_of a = {}" "\<forall>y\<in>set_of a. y < off (r_base r)"
  shows "\<exists>b c. add_range a r = Some b \<and> cut b (r_base r) = Some c \<and> ok c \<and> set_of c = set_of a"
proof -
  obtain b where b: "add_range a r = Some b" "ok b" "set_of b = set_of a \<union> rset r"
    using add_law [OF assms(1-3)] by blast
  obtain c where c: "cut b (r_base r) = Some c" "ok c" "set_of c = {y \<in> set_of b. y < off (r_base r)}"
    using cut_law [OF b(2)] by blast
  have "set_of c = set_of a" using b(3) c(3) assms(4) by (auto simp: rset_def)
  then show ?thesis using b(1) c by blast
qed

end

interpretation ars: address_set addrRanges_ok "\<lambda>a. addrs (ranges a)" add removeGreaterEqual contains
proof unfold_locales
  show "\<exists>a'. add a r = Some a' \<and> addrRanges_ok a' \<and> addrs (ranges a') = addrs (ranges a) \<union> rset r"
    if "addrRanges_ok a" "range_ok r" "rset r \<inter> addrs (ranges a) = {}" for a r
    using that by (rule add_spec)
  show "\<exists>a'. removeGreaterEqual a x = Some a' \<and> addrRanges_ok a' \<and> addrs (ranges a') = {y \<in> addrs (ranges a). y < off x}"
    if "addrRanges_ok a" for a x
    using that by (rule removeGreaterEqual_spec)
  show "contains a x \<longleftrightarrow> off x \<in> addrs (ranges a)" if "addrRanges_ok a" for a x
    using that by (simp add: contains_addrs addrRanges_ok_def)
qed

subsection \<open>Alignment\<close>

lemma and_not_mask_div: "unat (x AND NOT (mask k) :: uint64) = unat x div 2 ^ k * 2 ^ k"
proof -
  have "x = (x AND NOT (mask k)) + take_bit k x"
  proof -
    have "(x AND NOT (mask k)) + take_bit k x = (x AND NOT (mask k)) OR take_bit k x"
      by (rule plus_disjoint_or) (auto simp: bit_simps)
    also have "\<dots> = x" by (rule bit_word_eqI) (auto simp: bit_simps)
    finally show ?thesis by simp
  qed
  then have "x AND NOT (mask k) = x - take_bit k x" by (metis add_diff_cancel_right')
  moreover have t: "unat (take_bit k x) = unat x mod 2 ^ k" by (simp only: unsigned_take_bit_eq take_bit_eq_mod [of k "unat x"])
  moreover have "unat (x - take_bit k x) = unat x - unat x mod 2 ^ k"
    using t mod_less_eq_dividend [of "unat x" "2 ^ k"] by (subst unat_sub_small) simp_all
  ultimately show ?thesis by (simp add: minus_mod_eq_div_mult)
qed

lemma pow2_minus_one: "(2 ^ k - 1 :: uint64) = mask k"
  by (simp add: mask_eq_decr_exp)

lemma unat_alignDown: "unat (alignDown n (2 ^ k)) = unat n div 2 ^ k * 2 ^ k"
  by (simp only: alignDown_def pow2_minus_one and_not_mask_div)

lemma unat_alignUp:
  assumes "unat n + (2 ^ k - 1) < 2 ^ 64" "k < 64"
  shows "unat (alignUp n (2 ^ k)) = (unat n + (2 ^ k - 1)) div 2 ^ k * 2 ^ k"
proof -
  have "unat (mask k :: uint64) = 2 ^ k - 1"
  proof -
    have eq: "(mask k :: uint64) = of_nat (2 ^ k - 1)" by (simp add: mask_eq_exp_minus_1 of_nat_diff)
    have "2 ^ k - 1 < (2 :: nat) ^ 64" using assms(1) by linarith
    then show ?thesis unfolding eq by (intro unat_of_nat_small) simp
  qed
  then have "unat (n + mask k) = unat n + (2 ^ k - 1)" using assms(1) by (subst unat_add_small) simp_all
  moreover have "n + 2 ^ k - 1 = n + mask k" by (simp add: mask_eq_decr_exp)
  ultimately show ?thesis unfolding alignUp_def pow2_minus_one by (simp only: and_not_mask_div)
qed

subsection \<open>Properties\<close>

text \<open>C23: adding a range that is nonempty, inside one memory segment and disjoint from the
  collection never throws, keeps the invariant (sorted, separated because neighbours are coalesced,
  within the capacity, exact byte count) and adds exactly the addresses of the range.\<close>

theorem addrRanges_add:
  assumes "addrRanges_ok a" "range_ok r" "rset r \<inter> addrs (ranges a) = {}"
  shows "\<exists>a'. add a r = Some a' \<and> addrRanges_ok a' \<and> (\<forall>x. contains a' x \<longleftrightarrow> contains a x \<or> range_contains r x)"
proof -
  obtain a' where "add a r = Some a'" "addrRanges_ok a'" "addrs (ranges a') = addrs (ranges a) \<union> rset r"
    using ars.add_law [OF assms] by blast
  then show ?thesis using assms(1) by (auto simp: ars.mem_law range_contains_rset)
qed

definition sample_ranges :: addrRanges where
  "sample_ranges = \<lparr>ranges = [mk_range 0x1000 0x2000, mk_range 0x3000 0x4000], ranges_cap = 16, totalBytes = 0x2000\<rparr>"

lemma sample_ranges_ok: "addrRanges_ok sample_ranges"
proof -
  have "{off 0x1000..<off 0x2000} \<inter> {off 0x3000..<off 0x4000} = {}" by (simp add: off_def arenaBaseOffset_def)
  then have "card ({off 0x1000..<off 0x2000} \<union> {off 0x3000..<off 0x4000}) = 0x2000"
    by (subst card_Un_disjoint) (simp_all add: off_def arenaBaseOffset_def)
  then show ?thesis
    by (simp add: sample_ranges_def addrRanges_ok_def rs_ok_def range_ok_def before_def rset_def lower_seg_off)
      (simp add: off_def arenaBaseOffset_def)
qed

theorem addrRanges_add_witness:
  "\<exists>a'. add sample_ranges (mk_range 0x2000 0x3000) = Some a' \<and> addrRanges_ok a' \<and>
    (\<forall>x. contains a' x \<longleftrightarrow> contains sample_ranges x \<or> range_contains (mk_range 0x2000 0x3000) x)"
proof (rule addrRanges_add [OF sample_ranges_ok])
  show "range_ok (mk_range 0x2000 0x3000)"
    by (simp add: range_ok_def lower_seg_off off_def arenaBaseOffset_def)
  have "x \<notin> addrs (ranges sample_ranges)" if "x \<in> rset (mk_range 0x2000 0x3000)" for x
    using that by (auto simp: rset_def sample_ranges_def off_def arenaBaseOffset_def)
  then show "rset (mk_range 0x2000 0x3000) \<inter> addrs (ranges sample_ranges) = {}" by blast
qed

text \<open>\<open>removeGreaterEqual\<close> never throws, keeps the invariant with its byte count, and removes
  exactly the addresses at or above \<open>addr\<close>.\<close>

theorem addrRanges_removeGreaterEqual:
  assumes "addrRanges_ok a"
  shows "\<exists>a'. removeGreaterEqual a addr = Some a' \<and> addrRanges_ok a' \<and>
    (\<forall>x. contains a' x \<longleftrightarrow> contains a x \<and> lessThan x addr)"
proof -
  obtain a' where "removeGreaterEqual a addr = Some a'" "addrRanges_ok a'"
    "addrs (ranges a') = {y \<in> addrs (ranges a). y < off addr}"
    using ars.cut_law [OF assms] by blast
  then show ?thesis using assms by (auto simp: ars.mem_law lessThan_off)
qed

theorem addrRanges_removeGreaterEqual_witness:
  "\<exists>a'. removeGreaterEqual sample_ranges 0x3800 = Some a' \<and> addrRanges_ok a' \<and>
    (\<forall>x. contains a' x \<longleftrightarrow> contains sample_ranges x \<and> lessThan x 0x3800)"
  using addrRanges_removeGreaterEqual [OF sample_ranges_ok] .

text \<open>\<open>removeLast\<close> takes the top \<open>min nBytes size\<close> bytes of the last range: the returned range
  and what is left partition the addresses, every returned address is above every one left, and the
  invariant with its byte count is kept.\<close>

theorem addrRanges_removeLast:
  assumes "addrRanges_ok a" "ranges a \<noteq> []"
  shows "case removeLast a nBytes of (a', r) \<Rightarrow>
    addrRanges_ok a' \<and> addrs (ranges a) = addrs (ranges a') \<union> rset r \<and>
    (\<forall>x\<in>addrs (ranges a'). \<forall>y\<in>rset r. x < y) \<and>
    card (rset r) = min (unat nBytes) (unat (range_size (last (ranges a))))"
  using removeLast_spec [OF assms] by (cases "removeLast a nBytes") auto

theorem addrRanges_removeLast_witness:
  "case removeLast sample_ranges 0x800 of (a', r) \<Rightarrow>
    addrRanges_ok a' \<and> addrs (ranges sample_ranges) = addrs (ranges a') \<union> rset r \<and>
    (\<forall>x\<in>addrs (ranges a'). \<forall>y\<in>rset r. x < y) \<and>
    card (rset r) = min (unat (0x800 :: uintptr)) (unat (range_size (last (ranges sample_ranges))))"
  by (rule addrRanges_removeLast [OF sample_ranges_ok]) (simp add: sample_ranges_def)

text \<open>C24: on a nonempty collection \<open>findAddrGreaterEqual\<close> returns the smallest address of the
  collection at or above \<open>addr\<close> in the offset order, and false exactly when there is none.\<close>

theorem findAddrGreaterEqual_correct:
  assumes "addrRanges_ok a" "ranges a \<noteq> []"
  shows "\<exists>v. findAddrGreaterEqual a addr = Some v \<and>
    (if \<exists>x. contains a x \<and> lessEqual addr x
     then snd v \<and> contains a (fst v) \<and> lessEqual addr (fst v) \<and>
       (\<forall>x. contains a x \<and> lessEqual addr x \<longrightarrow> lessEqual (fst v) x)
     else v = (0, False))"
proof -
  have ok: "rs_ok (ranges a)" using assms(1) by (simp add: addrRanges_ok_def)
  have surj: "\<exists>y. off y = x" if "x \<in> addrs (ranges a)" for x
  proof -
    have "x < 2 ^ 64"
      using that off_less less_trans unfolding addrs_def rset_def by fastforce
    then have "off (of_nat x + arenaBaseOffset) = x" by (simp add: off_def unat_of_nat_small)
    then show ?thesis by blast
  qed
  have ex: "(\<exists>x. contains a x \<and> lessEqual addr x) \<longleftrightarrow> (\<exists>x\<in>addrs (ranges a). off addr \<le> x)"
    using surj by (auto simp: contains_addrs [OF ok] lessEqual_off)
  from findAddrGreaterEqual_spec [OF ok assms(2), of addr] obtain v where
    "findAddrGreaterEqual a addr = Some v"
    "if \<exists>x\<in>addrs (ranges a). off addr \<le> x
     then snd v \<and> off (fst v) \<in> addrs (ranges a) \<and> off addr \<le> off (fst v) \<and>
       (\<forall>x\<in>addrs (ranges a). off addr \<le> x \<longrightarrow> off (fst v) \<le> x)
     else v = (0, False)" by blast
  then show ?thesis
    unfolding ex by (intro exI [of _ v]) (auto simp: contains_addrs [OF ok] lessEqual_off split: if_splits)
qed

theorem findAddrGreaterEqual_correct_witness:
  "\<exists>v. findAddrGreaterEqual sample_ranges 0x2800 = Some v \<and>
    (if \<exists>x. contains sample_ranges x \<and> lessEqual 0x2800 x
     then snd v \<and> contains sample_ranges (fst v) \<and> lessEqual 0x2800 (fst v) \<and>
       (\<forall>x. contains sample_ranges x \<and> lessEqual 0x2800 x \<longrightarrow> lessEqual (fst v) x)
     else v = (0, False))"
  by (rule findAddrGreaterEqual_correct [OF sample_ranges_ok]) (simp add: sample_ranges_def)

subsection \<open>Marked addresses\<close>

lemma neg_iff: "(b :: uint64) <s 0 \<longleftrightarrow> 2 ^ 63 \<le> unat b"
proof -
  have lt: "unat b div 2 ^ 63 < 2" using unat_less_2p64 [of b] by (simp add: div_less_iff_less_mult)
  have "b <s 0 \<longleftrightarrow> bit b 63" using bit_last_iff [of b] by (simp add: word_sless_alt)
  also have "\<dots> \<longleftrightarrow> bit (unat b) 63" by (simp add: bit_unsigned_iff)
  also have "\<dots> \<longleftrightarrow> odd (unat b div 2 ^ 63)" by (rule bit_iff_odd)
  also have "\<dots> \<longleftrightarrow> 2 ^ 63 \<le> unat b" using lt by (cases "unat b div 2 ^ 63") auto
  finally show ?thesis .
qed

lemma marked_neg:
  assumes "0 < off m" "off m < 2 ^ 63"
  shows "StoreMarked m b <s 0" "- StoreMarked m b = m - arenaBaseOffset"
proof -
  define y where "y = m - arenaBaseOffset"
  have "- y = of_nat (2 ^ 64 - unat y)" using unat_less_2p64 [of y] by (simp add: of_nat_diff)
  then have "unat (- y) = 2 ^ 64 - unat y"
    using assms(1) by (simp only:) (intro unat_of_nat_small, simp add: off_def y_def)
  then have "unat (- (m - arenaBaseOffset)) = 2 ^ 64 - off m" by (simp add: off_def y_def)
  then show "StoreMarked m b <s 0" using assms(2) unfolding StoreMarked_def neg_iff by simp
qed (simp add: StoreMarked_def)

text \<open>What the threads that share the box do to it.  The value \<open>old\<close> that a retry loop has loaded may
  be out of date by the time of its compare-and-swap.\<close>

datatype box_op = Op_Clear uint64 | Op_StoreMin uintptr uint64 | Op_StoreUnmark uintptr uintptr

fun do_op :: "box_op \<Rightarrow> atomicOffAddr \<Rightarrow> atomicOffAddr" where
  "do_op (Op_Clear old) b = fst (Clear_step old b)"
| "do_op (Op_StoreMin addr old) b = fst (StoreMin_step addr old b)"
| "do_op (Op_StoreUnmark markedAddr newAddr) b = StoreUnmark markedAddr newAddr b"

inductive box_run :: "(box_op \<Rightarrow> bool) \<Rightarrow> atomicOffAddr \<Rightarrow> atomicOffAddr \<Rightarrow> bool" for allowed where
  start: "box_run allowed b b"
| step: "box_run allowed b c \<Longrightarrow> allowed op \<Longrightarrow> box_run allowed b (do_op op c)"

inductive_cases box_runE: "box_run allowed b c"

lemma box_run_stable:
  assumes "box_run allowed b c" "\<And>op. allowed op \<Longrightarrow> do_op op b = b"
  shows "c = b"
  using assms by (induction rule: box_run.induct) auto

lemma marked_stable:
  assumes "0 < off m" "off m < 2 ^ 63"
    and "case op of Op_StoreMin addr old \<Rightarrow> off addr < 2 ^ 63 | Op_StoreUnmark markedAddr newAddr \<Rightarrow> markedAddr \<noteq> m
      | _ \<Rightarrow> True"
  shows "do_op op (StoreMarked m b) = StoreMarked m b"
proof (cases op)
  case (Op_Clear old)
  then show ?thesis using marked_neg(1) [OF assms(1,2), of b]
    by (auto simp: Clear_step_def compareAndSwap_def)
next
  case (Op_StoreMin addr old)
  have "\<not> old <s addr - arenaBaseOffset \<Longrightarrow> \<not> old <s 0"
  proof
    assume old: "\<not> old <s addr - arenaBaseOffset" "old <s 0"
    have "\<not> addr - arenaBaseOffset <s 0" using assms(3) Op_StoreMin unfolding neg_iff by (simp add: off_def)
    then show False using old by (simp add: word_sless_alt)
  qed
  then show ?thesis using Op_StoreMin marked_neg(1) [OF assms(1,2), of b]
    by (auto simp: StoreMin_step_def compareAndSwap_def Let_def)
next
  case (Op_StoreUnmark markedAddr newAddr)
  then show ?thesis using assms(3) by (auto simp: StoreUnmark_def StoreMarked_def compareAndSwap_def)
qed

subsection \<open>Taking from a range\<close>

lemma div_plus_pred: "0 < d \<Longrightarrow> (c * d + (d - Suc 0)) div d = (c :: nat)"
  by (rule div_nat_eqI) (simp_all add: ac_simps)

lemma takeFromFront_spec:
  assumes "unat (r_base a) + (2 ^ k - 1) + unat n < 2 ^ 64" "k < 8"
  defines "p \<equiv> (unat (r_base a) + (2 ^ k - 1)) div 2 ^ k * 2 ^ k"
  shows "takeFromFront a n (2 ^ k) =
    (if p + unat n \<le> unat (r_limit a) then (a\<lparr>r_base := of_nat (p + unat n)\<rparr>, of_nat p, True) else (a, 0, False))"
proof -
  have uc: "ucast (2 ^ k :: uint8) = (2 ^ k :: uint64)"
    using assms(2) by (intro bit_word_eqI) (auto simp: bit_simps)
  have up: "unat (alignUp (r_base a) (2 ^ k)) = p"
    unfolding p_def using assms(1,2) by (intro unat_alignUp) simp_all
  have ple: "p \<le> unat (r_base a) + (2 ^ k - 1)" unfolding p_def by simp
  have b: "alignUp (r_base a) (2 ^ k) = of_nat p" by (simp flip: up)
  have s: "unat (of_nat p + n) = p + unat n" using ple assms(1) up b by (subst unat_add_small) simp_all
  have "of_nat p + n = of_nat (p + unat n)" by simp
  then show ?thesis using s unfolding takeFromFront_def uc b by (auto simp: word_less_nat_alt Let_def)
qed

text \<open>C26: a marked address survives everything the other threads can do to the box by \<open>Clear\<close>,
  \<open>StoreMin\<close> and \<open>StoreUnmark\<close> of other addresses, in any order and with any outdated loads: it is
  still what \<open>Load\<close> returns, marked.\<close>

theorem marked_address_survives:
  assumes "0 < off m" "off m < 2 ^ 63"
    and "box_run (\<lambda>op. case op of Op_StoreMin addr old \<Rightarrow> off addr < 2 ^ 63
        | Op_StoreUnmark markedAddr newAddr \<Rightarrow> markedAddr \<noteq> m | _ \<Rightarrow> True) (StoreMarked m b) c"
  shows "Load c = (m, True)"
proof -
  have "c = StoreMarked m b"
    using box_run_stable [OF assms(3)] marked_stable [OF assms(1,2)] by blast
  then show ?thesis using marked_neg [OF assms(1,2), of b] by (simp add: Load_def)
qed

theorem marked_address_survives_witness:
  "Load (do_op (Op_StoreMin 0x1000 5) (do_op (Op_Clear 7) (StoreMarked 0x2000 0))) = (0x2000, True)"
proof (rule marked_address_survives)
  show "box_run (\<lambda>op. case op of Op_StoreMin addr old \<Rightarrow> off addr < 2 ^ 63
        | Op_StoreUnmark markedAddr newAddr \<Rightarrow> markedAddr \<noteq> 0x2000 | _ \<Rightarrow> True) (StoreMarked 0x2000 0)
      (do_op (Op_StoreMin 0x1000 5) (do_op (Op_Clear 7) (StoreMarked 0x2000 0)))"
    by (intro box_run.intros) (simp_all add: off_def arenaBaseOffset_def)
qed (simp_all add: off_def arenaBaseOffset_def)

text \<open>When the sums do not wrap, \<open>takeFromFront\<close> takes \<open>n\<close> bytes from the lowest multiple of the
  alignment in the range on, or leaves the range as it is when they do not fit.\<close>

theorem takeFromFront_correct:
  assumes "unat (r_base a) + (2 ^ k - 1) + unat n < 2 ^ 64" "k < 8" "takeFromFront a n (2 ^ k) = (a', p, ok)"
  shows "if ok then unat p mod 2 ^ k = 0 \<and> unat (r_base a) \<le> unat p \<and> unat p < unat (r_base a) + 2 ^ k \<and>
      unat (r_base a') = unat p + unat n \<and> unat (r_base a') \<le> unat (r_limit a) \<and> r_limit a' = r_limit a
    else a' = a \<and> (\<forall>q\<ge>unat (r_base a). q mod 2 ^ k = 0 \<longrightarrow> unat (r_limit a) < q + unat n)"
proof -
  define b where "b = unat (r_base a)"
  define q where "q = (b + (2 ^ k - 1)) div 2 ^ k * 2 ^ k"
  have spec: "takeFromFront a n (2 ^ k) =
    (if q + unat n \<le> unat (r_limit a) then (a\<lparr>r_base := of_nat (q + unat n)\<rparr>, of_nat q, True) else (a, 0, False))"
    unfolding q_def b_def by (rule takeFromFront_spec [OF assms(1,2)])
  have md: "q mod 2 ^ k = 0" "q \<le> b + (2 ^ k - 1)" by (simp_all add: q_def)
  have "b + (2 ^ k - 1) < q + 2 ^ k"
    unfolding q_def by (metis dividend_less_div_times add.commute mult.commute zero_less_numeral zero_less_power)
  then have lo: "b \<le> q" by simp
  have least: "q \<le> r" if br: "b \<le> r" and rm: "r mod 2 ^ k = 0" for r
  proof -
    obtain c where c: "r = c * 2 ^ k" using rm by (metis dvd_eq_mod_eq_0 dvd_div_mult_self)
    have "(b + (2 ^ k - 1)) div 2 ^ k \<le> (c * 2 ^ k + (2 ^ k - Suc 0)) div 2 ^ k"
      using br c by (intro div_le_mono) simp
    also have "\<dots> = c" by (rule div_plus_pred) simp
    finally show ?thesis unfolding q_def c by (rule mult_le_mono1)
  qed
  have u: "unat (of_nat q :: uint64) = q" "unat (of_nat (q + unat n) :: uint64) = q + unat n"
    using md(2) assms(1) by (intro unat_of_nat_small; simp add: b_def)+
  have q2: "q < b + 2 ^ k" using md(2) by (metis Suc_diff_1 add_Suc_right le_imp_less_Suc zero_less_numeral zero_less_power)
  show ?thesis
  proof (cases "q + unat n \<le> unat (r_limit a)")
    case True
    then show ?thesis using spec assms(3) u md(1) lo q2 by (auto simp: b_def)
  next
    case False
    then have "unat (r_limit a) < r + unat n" if "b \<le> r" "r mod 2 ^ k = 0" for r using least [OF that] by simp
    then show ?thesis using False spec assms(3) by (auto simp: b_def)
  qed
qed

theorem takeFromFront_correct_witness:
  "case takeFromFront (mk_range 0x1001 0x2000) 100 (2 ^ 4) of (a', p, ok) \<Rightarrow>
    (if ok then unat p mod 2 ^ 4 = 0 \<and> unat (0x1001 :: uintptr) \<le> unat p \<and> unat p < unat (0x1001 :: uintptr) + 2 ^ 4 \<and>
      unat (r_base a') = unat p + unat (100 :: uintptr) \<and> unat (r_base a') \<le> unat (0x2000 :: uintptr) \<and> r_limit a' = 0x2000
    else a' = mk_range 0x1001 0x2000 \<and>
      (\<forall>q\<ge>unat (0x1001 :: uintptr). q mod 2 ^ 4 = 0 \<longrightarrow> unat (0x2000 :: uintptr) < q + unat (100 :: uintptr)))"
proof -
  obtain a' p ok where *: "takeFromFront (mk_range 0x1001 0x2000) 100 (2 ^ 4) = (a', p, ok)"
    by (metis prod_cases3)
  have 1: "unat (r_base (mk_range 0x1001 0x2000)) + (2 ^ 4 - 1) + unat (100 :: uintptr) < 2 ^ 64" by simp
  have 2: "(4 :: nat) < 8" by simp
  show ?thesis
    using takeFromFront_correct [OF 1 2 *] unfolding * by (simp only: prod.case addrRange.select_convs)
qed

end
