(* ===== verification/Perm.thy ===== *)
theory Perm
  imports Main "HOL-Library.Multiset" "HOL-Library.Monad_Syntax"
begin

text \<open>
  Lists that are rearranged in place, for the algorithms that only swap elements (\<open>container/heap\<close>, \<open>sort\<close>), and
  weakest preconditions for the code that may panic: \<open>returns m Q\<close> says that \<open>m\<close> returns a value with \<open>Q\<close>.
\<close>

subsection \<open>Swapping\<close>

definition swap_at :: "'x list \<Rightarrow> nat \<Rightarrow> nat \<Rightarrow> 'x list" where
  "swap_at xs i j = xs[i := xs ! j, j := xs ! i]"

lemma length_swap_at [simp]: "length (swap_at xs i j) = length xs"
  by (simp add: swap_at_def)

lemma nth_swap_at:
  "i < length xs \<Longrightarrow> j < length xs \<Longrightarrow> k < length xs \<Longrightarrow>
    swap_at xs i j ! k = (if k = i then xs ! j else if k = j then xs ! i else xs ! k)"
  by (auto simp: swap_at_def nth_list_update)

lemma swap_at_same [simp]: "swap_at xs i i = xs"
  by (simp add: swap_at_def)

lemma swap_at_commute: "swap_at xs i j = swap_at xs j i"
  by (cases "i = j") (simp_all add: swap_at_def list_update_swap)

lemma mset_swap_at [simp]: "i < length xs \<Longrightarrow> j < length xs \<Longrightarrow> mset (swap_at xs i j) = mset xs"
  unfolding swap_at_def by (rule mset_swap)

subsection \<open>Rearranging a range\<close>

text \<open>\<open>ys\<close> is \<open>xs\<close> with the elements of the range \<open>[a, b)\<close> rearranged.\<close>

definition perm_in :: "nat \<Rightarrow> nat \<Rightarrow> 'x list \<Rightarrow> 'x list \<Rightarrow> bool" where
  "perm_in a b xs ys \<longleftrightarrow> length ys = length xs \<and> mset ys = mset xs \<and> (\<forall>k<length xs. k < a \<or> b \<le> k \<longrightarrow> ys ! k = xs ! k)"

lemma perm_in_refl [simp, intro!]: "perm_in a b xs xs"
  by (simp add: perm_in_def)

lemma perm_in_trans: "perm_in a b xs ys \<Longrightarrow> perm_in a b ys zs \<Longrightarrow> perm_in a b xs zs"
  by (simp add: perm_in_def)

lemma perm_in_mono: "perm_in a b xs ys \<Longrightarrow> a' \<le> a \<Longrightarrow> b \<le> b' \<Longrightarrow> perm_in a' b' xs ys"
  by (auto simp: perm_in_def)

lemma perm_in_length: "perm_in a b xs ys \<Longrightarrow> length ys = length xs"
  by (simp add: perm_in_def)

lemma perm_in_mset: "perm_in a b xs ys \<Longrightarrow> mset ys = mset xs"
  by (simp add: perm_in_def)

lemma perm_in_outside: "perm_in a b xs ys \<Longrightarrow> k < length xs \<Longrightarrow> k < a \<or> b \<le> k \<Longrightarrow> ys ! k = xs ! k"
  unfolding perm_in_def by blast

lemma perm_in_swap:
  "a \<le> i \<Longrightarrow> i < b \<Longrightarrow> a \<le> j \<Longrightarrow> j < b \<Longrightarrow> b \<le> length xs \<Longrightarrow> perm_in a b xs (swap_at xs i j)"
  by (auto simp: perm_in_def nth_swap_at)

lemma list_parts: "a \<le> b \<Longrightarrow> b \<le> length xs \<Longrightarrow> xs = take a xs @ take (b - a) (drop a xs) @ drop b xs"
  by (metis append_take_drop_id drop_drop le_add_diff_inverse2)

lemma perm_in_range:
  assumes "perm_in a b xs ys" "a \<le> b" "b \<le> length xs"
  shows "mset (take (b - a) (drop a ys)) = mset (take (b - a) (drop a xs))"
proof -
  have l: "length ys = length xs" using assms(1) by (rule perm_in_length)
  have t: "take a ys = take a xs" "drop b ys = drop b xs"
    using assms l by (auto intro!: nth_equalityI simp: perm_in_def)
  have "mset ys = mset (take a xs) + mset (take (b - a) (drop a ys)) + mset (drop b xs)"
    using list_parts [of a b ys] assms(2,3) l t by (metis mset_append add.assoc)
  moreover have "mset xs = mset (take a xs) + mset (take (b - a) (drop a xs)) + mset (drop b xs)"
    using list_parts [OF assms(2,3)] by (metis mset_append add.assoc)
  ultimately show ?thesis using perm_in_mset [OF assms(1)] by simp
qed

lemma perm_in_from:
  assumes "perm_in a b xs ys" "b \<le> length xs" "a \<le> k" "k < b"
  obtains m where "a \<le> m" "m < b" "ys ! k = xs ! m"
proof -
  have l: "length ys = length xs" using assms(1) by (rule perm_in_length)
  have "set (take (b - a) (drop a ys)) = set (take (b - a) (drop a xs))"
    using perm_in_range [OF assms(1) _ assms(2)] assms(3,4) by (metis set_mset_mset le_trans less_imp_le)
  moreover have "ys ! k \<in> set (take (b - a) (drop a ys))"
    using assms l by (auto simp: in_set_conv_nth intro!: exI [of _ "k - a"])
  ultimately obtain n where "n < length (take (b - a) (drop a xs))" "take (b - a) (drop a xs) ! n = ys ! k"
    unfolding in_set_conv_nth by (metis in_set_conv_nth)
  then show ?thesis using assms(2) by (intro that [of "a + n"]) auto
qed

lemma perm_in_all:
  assumes "perm_in a b xs ys" "b \<le> length xs" "\<And>k. a \<le> k \<Longrightarrow> k < b \<Longrightarrow> P (xs ! k)" "a \<le> k" "k < b"
  shows "P (ys ! k)"
  using perm_in_from [OF assms(1,2,4,5)] assms(3) by metis

subsection \<open>Binary trees in an array\<close>

abbreviation parent :: "nat \<Rightarrow> nat" where
  "parent j \<equiv> (j - 1) div 2"

lemma parent_less: "0 < j \<Longrightarrow> parent j < j"
  by simp

lemma parent_iff: "0 < j \<Longrightarrow> parent j = i \<longleftrightarrow> j = 2 * i + 1 \<or> j = 2 * i + 2"
  by auto

subsection \<open>Code that returns\<close>

definition returns :: "'a option \<Rightarrow> ('a \<Rightarrow> bool) \<Rightarrow> bool" where
  "returns m Q \<longleftrightarrow> (\<exists>r. m = Some r \<and> Q r)"

lemma returns_Some [simp]: "returns (Some r) Q \<longleftrightarrow> Q r"
  by (simp add: returns_def)

lemma returns_None [simp]: "\<not> returns None Q"
  by (simp add: returns_def)

lemma returns_bind [simp]: "returns (m \<bind> f) Q \<longleftrightarrow> returns m (\<lambda>r. returns (f r) Q)"
  by (cases m) simp_all

lemma returns_case_prod [simp]: "returns (case p of (a, b) \<Rightarrow> f a b) Q \<longleftrightarrow> (case p of (a, b) \<Rightarrow> returns (f a b) Q)"
  by (simp split: prod.split)

lemma returns_if [simp]: "returns (if c then m else n) Q \<longleftrightarrow> (if c then returns m Q else returns n Q)"
  by simp

lemma returns_mono: "returns m P \<Longrightarrow> (\<And>r. P r \<Longrightarrow> Q r) \<Longrightarrow> returns m Q"
  by (auto simp: returns_def)

lemma returns_mono2: "returns m (\<lambda>(a, b). P a b) \<Longrightarrow> (\<And>a b. P a b \<Longrightarrow> Q a b) \<Longrightarrow> returns m (\<lambda>(a, b). Q a b)"
  by (auto simp: returns_def)

lemma returns_conj: "returns m P \<Longrightarrow> returns m Q \<Longrightarrow> returns m (\<lambda>r. P r \<and> Q r)"
  by (auto simp: returns_def)

lemma returnsE:
  assumes "returns m Q"
  obtains r where "m = Some r" "Q r"
  using assms by (auto simp: returns_def)

end
