(* ===== verification/Heap.thy ===== *)
theory Heap
  imports Perm
begin

text \<open>
  \<open>container/heap/heap.go\<close> over the interface \<open>heap.Interface\<close>, which is a record of the five
  methods that the algorithms call, and the queue of ready actions of the go command
  (\<open>cmd/go/internal/work/action.go\<close>), one of its implementations.  Indices are natural numbers
  (\<open>down\<close>'s test for an overflowed \<open>2*i+1\<close> has no counterpart: a slice has fewer than \<open>2^62\<close>
  elements).  The locale states what the algorithms need of an implementation; its lemmas are
  interpreted on the action queue.
\<close>

subsection \<open>The interface and the algorithms\<close>

record ('h, 'x) heap_interface =
  Len :: "'h \<Rightarrow> nat"
  Less :: "'h \<Rightarrow> nat \<Rightarrow> nat \<Rightarrow> bool"
  Swap :: "'h \<Rightarrow> nat \<Rightarrow> nat \<Rightarrow> 'h"
  PushLast :: "'h \<Rightarrow> 'x \<Rightarrow> 'h"
  PopLast :: "'h \<Rightarrow> 'h \<times> 'x"

function up :: "('h, 'x) heap_interface \<Rightarrow> 'h \<Rightarrow> nat \<Rightarrow> 'h" where
  "up I h j =
     (let i = (j - 1) div 2 in
      if i = j \<or> \<not> Less I h j i then h else up I (Swap I h i j) i)"
  by pat_completeness auto
termination by (relation "measure (\<lambda>(I, h, j). j)") auto

function down_loop :: "('h, 'x) heap_interface \<Rightarrow> 'h \<Rightarrow> nat \<Rightarrow> nat \<Rightarrow> 'h \<times> nat" where
  "down_loop I h i n =
     (let j1 = 2 * i + 1 in
      if j1 \<ge> n then (h, i)
      else
        let j2 = j1 + 1; j = (if j2 < n \<and> Less I h j2 j1 then j2 else j1) in
        if \<not> Less I h j i then (h, i) else down_loop I (Swap I h i j) j n)"
  by pat_completeness auto
termination by (relation "measure (\<lambda>(I, h, i, n). n - i)") (auto simp: Let_def split: if_splits)

declare up.simps [simp del] down_loop.simps [simp del]

definition down :: "('h, 'x) heap_interface \<Rightarrow> 'h \<Rightarrow> nat \<Rightarrow> nat \<Rightarrow> 'h \<times> bool" where
  "down I h i0 n = (let (h, i) = down_loop I h i0 n in (h, i > i0))"

text \<open>\<open>for i := n/2 - 1; i >= 0; i--\<close>: \<open>k = i + 1\<close> counts down to 0.\<close>

fun Init_loop :: "('h, 'x) heap_interface \<Rightarrow> 'h \<Rightarrow> nat \<Rightarrow> nat \<Rightarrow> 'h" where
  "Init_loop I h n 0 = h"
| "Init_loop I h n (Suc i) = Init_loop I (fst (down I h i n)) n i"

definition Init :: "('h, 'x) heap_interface \<Rightarrow> 'h \<Rightarrow> 'h" where
  "Init I h = (let n = Len I h in Init_loop I h n (n div 2))"

definition Push :: "('h, 'x) heap_interface \<Rightarrow> 'h \<Rightarrow> 'x \<Rightarrow> 'h" where
  "Push I h x = (let h = PushLast I h x in up I h (Len I h - 1))"

definition Pop :: "('h, 'x) heap_interface \<Rightarrow> 'h \<Rightarrow> 'h \<times> 'x" where
  "Pop I h = (let n = Len I h - 1; h = Swap I h 0 n; h = fst (down I h 0 n) in PopLast I h)"

definition Remove :: "('h, 'x) heap_interface \<Rightarrow> 'h \<Rightarrow> nat \<Rightarrow> 'h \<times> 'x" where
  "Remove I h i =
     (let n = Len I h - 1;
          h = (if n \<noteq> i then
                 let h = Swap I h i n; (h, moved) = down I h i n
                 in if \<not> moved then up I h i else h
               else h)
      in PopLast I h)"

definition Fix :: "('h, 'x) heap_interface \<Rightarrow> 'h \<Rightarrow> nat \<Rightarrow> 'h" where
  "Fix I h i = (let (h, moved) = down I h i (Len I h) in if \<not> moved then up I h i else h)"

subsection \<open>Heap order\<close>

definition is_heap :: "('x \<Rightarrow> 'k::linorder) \<Rightarrow> 'x list \<Rightarrow> nat \<Rightarrow> bool" where
  "is_heap key xs n \<longleftrightarrow> (\<forall>j<n. 0 < j \<longrightarrow> key (xs ! parent j) \<le> key (xs ! j))"

text \<open>Heap order except between \<open>j\<close> and its parent (\<open>up\<close>), or between \<open>i\<close> and its children (\<open>down\<close>).\<close>

definition heap_but_up :: "('x \<Rightarrow> 'k::linorder) \<Rightarrow> 'x list \<Rightarrow> nat \<Rightarrow> nat \<Rightarrow> bool" where
  "heap_but_up key xs n j \<longleftrightarrow> (\<forall>c<n. 0 < c \<longrightarrow> c \<noteq> j \<longrightarrow> key (xs ! parent c) \<le> key (xs ! c)) \<and>
     (\<forall>c<n. 0 < c \<longrightarrow> 0 < j \<longrightarrow> parent c = j \<longrightarrow> key (xs ! parent j) \<le> key (xs ! c))"

definition heap_but_down :: "('x \<Rightarrow> 'k::linorder) \<Rightarrow> 'x list \<Rightarrow> nat \<Rightarrow> nat \<Rightarrow> nat \<Rightarrow> bool" where
  "heap_but_down key xs l n i \<longleftrightarrow>
     (\<forall>c<n. 0 < c \<longrightarrow> l \<le> parent c \<longrightarrow> parent c \<noteq> i \<longrightarrow> key (xs ! parent c) \<le> key (xs ! c)) \<and>
     (\<forall>c<n. 0 < c \<longrightarrow> 0 < i \<longrightarrow> l \<le> parent i \<longrightarrow> parent c = i \<longrightarrow> key (xs ! parent i) \<le> key (xs ! c))"

definition heap_from :: "('x \<Rightarrow> 'k::linorder) \<Rightarrow> 'x list \<Rightarrow> nat \<Rightarrow> nat \<Rightarrow> bool" where
  "heap_from key xs l n \<longleftrightarrow> (\<forall>c<n. 0 < c \<longrightarrow> l \<le> parent c \<longrightarrow> key (xs ! parent c) \<le> key (xs ! c))"

lemma heap_from_0: "heap_from key xs 0 n = is_heap key xs n"
  by (simp add: heap_from_def is_heap_def)

lemma is_heap_root: "is_heap key xs n \<Longrightarrow> k < n \<Longrightarrow> key (xs ! 0) \<le> key (xs ! k)"
proof (induction k rule: less_induct)
  case (less k)
  show ?case
  proof (cases "k = 0")
    case False
    then have "key (xs ! 0) \<le> key (xs ! parent k)" using less by simp
    moreover have "key (xs ! parent k) \<le> key (xs ! k)" using False less.prems by (simp add: is_heap_def)
    ultimately show ?thesis by (rule order_trans)
  qed simp
qed

subsection \<open>What the algorithms need of an implementation\<close>

locale heap_impl =
  fixes I :: "('h, 'x) heap_interface" and elems :: "'h \<Rightarrow> 'x list" and key :: "'x \<Rightarrow> 'k::linorder"
  assumes Len: "Len I h = length (elems h)"
    and Less: "i < length (elems h) \<Longrightarrow> j < length (elems h) \<Longrightarrow>
      Less I h i j \<longleftrightarrow> key (elems h ! i) < key (elems h ! j)"
    and Swap: "i < length (elems h) \<Longrightarrow> j < length (elems h) \<Longrightarrow> elems (Swap I h i j) = swap_at (elems h) i j"
    and PushLast: "elems (PushLast I h x) = elems h @ [x]"
    and PopLast: "elems h \<noteq> [] \<Longrightarrow> elems (fst (PopLast I h)) = butlast (elems h) \<and> snd (PopLast I h) = last (elems h)"
begin

lemma up_heap:
  assumes "j < n" "n \<le> length (elems h)" "heap_but_up key (elems h) n j"
  shows "is_heap key (elems (up I h j)) n \<and> mset (elems (up I h j)) = mset (elems h) \<and>
    (\<forall>k\<ge>n. elems (up I h j) ! k = elems h ! k)"
  using assms
proof (induction j arbitrary: h rule: less_induct)
  case (less j)
  have len: "j < length (elems h)" "parent j < length (elems h)" using less.prems by simp_all
  show ?case
  proof (cases "0 < j \<and> key (elems h ! j) < key (elems h ! parent j)")
    case False
    then have "up I h j = h" using len by (subst up.simps) (auto simp: Let_def Less)
    moreover have "is_heap key (elems h) n"
      using less.prems(3) False unfolding is_heap_def heap_but_up_def by (metis leI)
    ultimately show ?thesis by simp
  next
    case True
    define h' where "h' = Swap I h (parent j) j"
    have el: "elems h' = swap_at (elems h) (parent j) j" unfolding h'_def using len by (simp add: Swap)
    have eq: "up I h j = up I h' (parent j)"
      using True len parent_less [of j] by (subst up.simps) (simp add: Let_def Less h'_def)
    have nth: "elems h' ! k = (if k = parent j then elems h ! j else if k = j then elems h ! parent j else elems h ! k)"
      if "k < length (elems h)" for k
      using that len by (simp add: el nth_swap_at)
    have "heap_but_up key (elems h') n (parent j)"
      unfolding heap_but_up_def
    proof (intro conjI allI impI)
      fix c assume c: "c < n" "0 < c" "c \<noteq> parent j"
      have cl: "c < length (elems h)" "parent c < length (elems h)" using c less.prems(2) by simp_all
      show "key (elems h' ! parent c) \<le> key (elems h' ! c)"
      proof (cases "c = j")
        case True
        then show ?thesis using \<open>0 < j \<and> _\<close> nth [OF cl(1)] nth [OF cl(2)] parent_less [of j] by auto
      next
        case False
        then have "key (elems h ! parent c) \<le> key (elems h ! c)" using c less.prems(3) by (simp add: heap_but_up_def)
        moreover have "parent c = j \<Longrightarrow> key (elems h ! parent j) \<le> key (elems h ! c)"
          using c True less.prems(3) by (simp add: heap_but_up_def)
        ultimately show ?thesis using nth [OF cl(1)] nth [OF cl(2)] False c(3) True by auto
      qed
    next
      fix c assume c: "c < n" "0 < c" "0 < parent j" "parent c = parent j"
      have cl: "c < length (elems h)" "parent (parent j) < length (elems h)"
        using c less.prems(2) len parent_less [of "parent j"] by linarith+
      have pp: "parent (parent j) \<noteq> parent j" "parent (parent j) \<noteq> j" "c \<noteq> parent j"
        using c(3,4) True parent_less [of "parent j"] parent_less [of c] c(2) by auto
      have "key (elems h ! parent (parent j)) \<le> key (elems h ! parent j)"
        using c less.prems(1,3) True by (simp add: heap_but_up_def)
      moreover have "c \<noteq> j \<Longrightarrow> key (elems h ! parent j) \<le> key (elems h ! c)"
        using c less.prems(3) unfolding heap_but_up_def by metis
      ultimately show "key (elems h' ! parent (parent j)) \<le> key (elems h' ! c)"
        using nth [OF cl(1)] nth [OF cl(2)] pp by auto
    qed
    moreover have "parent j < j" using True parent_less by blast
    moreover from this have "parent j < n" "n \<le> length (elems h')" using less.prems el by simp_all
    ultimately have IH: "is_heap key (elems (up I h' (parent j))) n \<and>
        mset (elems (up I h' (parent j))) = mset (elems h') \<and>
        (\<forall>k\<ge>n. elems (up I h' (parent j)) ! k = elems h' ! k)"
      by (intro less.IH)
    have "elems h' ! k = elems h ! k" if "n \<le> k" for k
      using that less.prems True unfolding el swap_at_def by (simp add: nth_list_update)
    then show ?thesis using IH eq len el by simp
  qed
qed

lemma down_loop_heap:
  assumes "n \<le> length (elems h)" "heap_but_down key (elems h) l n i" "l \<le> i"
    "down_loop I h i n = (h', i')"
  shows "heap_from key (elems h') l n \<and> mset (elems h') = mset (elems h) \<and> i \<le> i' \<and>
    (\<forall>k. k < i \<or> n \<le> k \<longrightarrow> elems h' ! k = elems h ! k) \<and> (i' = i \<longrightarrow> h' = h)"
  using assms
proof (induction "n - i" arbitrary: h i rule: less_induct)
  case less
  show ?case
  proof (cases "2 * i + 1 \<ge> n")
    case True
    then have "h' = h" "i' = i" using less.prems(4) by (simp_all add: down_loop.simps)
    moreover have "heap_from key (elems h) l n"
      unfolding heap_from_def
    proof (intro allI impI)
      fix c assume "c < n" "0 < c" "l \<le> parent c"
      moreover from this have "parent c \<noteq> i" using True by (auto simp: parent_iff)
      ultimately show "key (elems h ! parent c) \<le> key (elems h ! c)"
        using less.prems(2) by (simp add: heap_but_down_def)
    qed
    ultimately show ?thesis by simp
  next
    case False
    define j where "j = (if 2 * i + 2 < n \<and> Less I h (2 * i + 2) (2 * i + 1) then 2 * i + 2 else 2 * i + 1)"
    have j: "j < n" "0 < j" "parent j = i" "i < j" using False by (auto simp: j_def)
    have len: "j < length (elems h)" "i < length (elems h)" using j less.prems(1) by simp_all
    have minj: "key (elems h ! j) \<le> key (elems h ! c)" if "c < n" "0 < c" "parent c = i" for c
    proof -
      have "c = 2 * i + 1 \<or> c = 2 * i + 2" using that parent_iff by blast
      then show ?thesis using that(1) less.prems(1) False by (auto simp: j_def Less)
    qed
    have eq: "down_loop I h i n = (if \<not> Less I h j i then (h, i) else down_loop I (Swap I h i j) j n)"
      using False by (subst down_loop.simps) (simp add: Let_def j_def)
    show ?thesis
    proof (cases "key (elems h ! j) < key (elems h ! i)")
      case lt: False
      then have "h' = h" "i' = i" using less.prems(4) eq len by (simp_all add: Less)
      moreover have "heap_from key (elems h) l n"
        unfolding heap_from_def
      proof (intro allI impI)
        fix c assume c: "c < n" "0 < c" "l \<le> parent c"
        show "key (elems h ! parent c) \<le> key (elems h ! c)"
        proof (cases "parent c = i")
          case True
          then show ?thesis using minj [OF c(1,2) True] lt by (metis leI order_trans)
        qed (use c less.prems(2) in \<open>simp add: heap_but_down_def\<close>)
      qed
      ultimately show ?thesis by simp
    next
      case True
      define g where "g = Swap I h i j"
      have el: "elems g = swap_at (elems h) i j" unfolding g_def using len by (simp add: Swap)
      have nth: "elems g ! k = (if k = i then elems h ! j else if k = j then elems h ! i else elems h ! k)"
        if "k < length (elems h)" for k
        using that len by (simp add: el nth_swap_at)
      have "heap_but_down key (elems g) l n j"
        unfolding heap_but_down_def
      proof (intro conjI allI impI)
        fix c assume c: "c < n" "0 < c" "l \<le> parent c" "parent c \<noteq> j"
        have cl: "c < length (elems h)" "parent c < length (elems h)" using c less.prems(1) by simp_all
        consider "parent c = i" "c = j" | "parent c = i" "c \<noteq> j" "c \<noteq> i" | "parent c \<noteq> i" "c = i" | "parent c \<noteq> i" "c \<noteq> i" "c \<noteq> j"
          using parent_less [OF c(2)] j(3) by (metis less_irrefl)
        then show "key (elems g ! parent c) \<le> key (elems g ! c)"
        proof cases
          case 1
          then show ?thesis using nth [OF cl(1)] nth [OF cl(2)] True j(4) by auto
        next
          case 2
          then show ?thesis using nth [OF cl(1)] nth [OF cl(2)] minj [OF c(1,2)] by auto
        next
          case 3
          then have "key (elems h ! parent i) \<le> key (elems h ! j)"
            using less.prems(2) c j by (simp add: heap_but_down_def)
          then show ?thesis using 3 nth [OF cl(1)] nth [OF cl(2)] c(4) by auto
        next
          case 4
          then have "key (elems h ! parent c) \<le> key (elems h ! c)" using less.prems(2) c by (simp add: heap_but_down_def)
          then show ?thesis using 4 nth [OF cl(1)] nth [OF cl(2)] c(4) by auto
        qed
      next
        fix c assume c: "c < n" "0 < c" "0 < j" "l \<le> parent j" "parent c = j"
        have cl: "c < length (elems h)" "parent j < length (elems h)" using c less.prems(1) len j by simp_all
        have "l \<le> parent c" "parent c \<noteq> i" using c(5) j(4) less.prems(3) by simp_all
        then have "key (elems h ! j) \<le> key (elems h ! c)"
          using less.prems(2) c unfolding heap_but_down_def by metis
        moreover have "c \<noteq> i" "c \<noteq> j" using parent_less [OF c(2)] c(5) j(4) by auto
        ultimately show "key (elems g ! parent j) \<le> key (elems g ! c)"
          using nth [OF cl(1)] nth [OF cl(2)] j(3) by auto
      qed
      moreover have "down_loop I g j n = (h', i')" using less.prems(4) eq True len by (simp add: Less g_def)
      moreover have "n - j < n - i" "n \<le> length (elems g)" "l \<le> j" using j less.prems el by simp_all
      ultimately have IH: "heap_from key (elems h') l n \<and> mset (elems h') = mset (elems g) \<and> j \<le> i' \<and>
          (\<forall>k. k < j \<or> n \<le> k \<longrightarrow> elems h' ! k = elems g ! k) \<and> (i' = j \<longrightarrow> h' = g)"
        by (intro less.hyps) simp_all
      have "elems g ! k = elems h ! k" if "k < i \<or> n \<le> k" for k
        using that j(1,4) unfolding el swap_at_def by (auto simp: nth_list_update)
      then show ?thesis using IH el len j(4) by auto
    qed
  qed
qed

lemma down_heap_from:
  assumes "n \<le> length (elems h)" "heap_but_down key (elems h) l n i" "l \<le> i" "down I h i n = (h', moved)"
  shows "heap_from key (elems h') l n" "mset (elems h') = mset (elems h)"
    "\<forall>k. k < i \<or> n \<le> k \<longrightarrow> elems h' ! k = elems h ! k" "\<not> moved \<Longrightarrow> h' = h"
proof -
  obtain i' where "down_loop I h i n = (h', i')" "moved = (i' > i)"
    using assms(4) by (auto simp: down_def split: prod.splits)
  with down_loop_heap [OF assms(1,2,3)]
  show "heap_from key (elems h') l n" "mset (elems h') = mset (elems h)"
    "\<forall>k. k < i \<or> n \<le> k \<longrightarrow> elems h' ! k = elems h ! k" "\<not> moved \<Longrightarrow> h' = h"
    by (auto simp: not_less)
qed

lemma Init_loop_heap:
  assumes "n = length (elems h)" "heap_from key (elems h) k n"
  shows "is_heap key (elems (Init_loop I h n k)) n \<and> mset (elems (Init_loop I h n k)) = mset (elems h)"
  using assms
proof (induction k arbitrary: h)
  case 0
  then show ?case by (simp add: heap_from_0)
next
  case (Suc i)
  obtain h' moved where d: "down I h i n = (h', moved)" by fastforce
  have "heap_but_down key (elems h) i n i"
    using Suc.prems(2) by (auto simp: heap_but_down_def heap_from_def)
  from down_heap_from [OF _ this _ d] Suc.prems(1)
  have "heap_from key (elems h') i n" "mset (elems h') = mset (elems h)" by simp_all
  moreover from this(2) have "n = length (elems h')" using Suc.prems(1) by (metis size_mset)
  ultimately show ?case using Suc.IH [of h'] d by simp
qed

lemma Init_heap: "is_heap key (elems (Init I h)) (length (elems h)) \<and> mset (elems (Init I h)) = mset (elems h)"
proof -
  have "heap_from key (elems h) (length (elems h) div 2) (length (elems h))"
    by (auto simp: heap_from_def)
  from Init_loop_heap [OF refl this] show ?thesis by (simp add: Init_def Len Let_def)
qed

lemma Push_heap:
  assumes "is_heap key (elems h) (length (elems h))"
  shows "is_heap key (elems (Push I h x)) (length (elems (Push I h x))) \<and>
    mset (elems (Push I h x)) = add_mset x (mset (elems h))"
proof -
  define g where "g = PushLast I h x"
  have el: "elems g = elems h @ [x]" by (simp add: g_def PushLast)
  have "heap_but_up key (elems g) (length (elems g)) (length (elems h))"
    unfolding heap_but_up_def
  proof (intro conjI allI impI)
    fix c assume c: "c < length (elems g)" "0 < c" "c \<noteq> length (elems h)"
    then have "c < length (elems h)" "parent c < length (elems h)" using el parent_less [of c] by simp_all
    then show "key (elems g ! parent c) \<le> key (elems g ! c)"
      using assms c(2) by (simp add: is_heap_def el nth_append)
  next
    fix c assume "c < length (elems g)" "0 < c" "parent c = length (elems h)"
    then show "key (elems g ! parent (length (elems h))) \<le> key (elems g ! c)"
      using parent_less [of c] el by simp
  qed
  then have up: "is_heap key (elems (up I g (length (elems h)))) (length (elems g)) \<and>
      mset (elems (up I g (length (elems h)))) = mset (elems g)"
    using up_heap [of "length (elems h)" "length (elems g)" g] el by simp
  have "Push I h x = up I g (length (elems h))" by (simp add: Push_def Len el flip: g_def)
  moreover have "length (elems (up I g (length (elems h)))) = length (elems g)"
    using up by (metis size_mset)
  ultimately show ?thesis using up el by simp
qed

text \<open>The element at \<open>i\<close> is arbitrary, the rest is in heap order around it: \<open>down\<close> and, when it does not
  move, \<open>up\<close> restore the order.\<close>

definition heap_around :: "'x list \<Rightarrow> nat \<Rightarrow> nat \<Rightarrow> bool" where
  "heap_around xs n i \<longleftrightarrow> (\<forall>c<n. 0 < c \<longrightarrow> c \<noteq> i \<longrightarrow> parent c \<noteq> i \<longrightarrow> key (xs ! parent c) \<le> key (xs ! c)) \<and>
     (\<forall>c<n. 0 < c \<longrightarrow> 0 < i \<longrightarrow> parent c = i \<longrightarrow> key (xs ! parent i) \<le> key (xs ! c))"

definition settle :: "'h \<Rightarrow> nat \<Rightarrow> nat \<Rightarrow> 'h" where
  "settle h i n = (let (h, moved) = down I h i n in if \<not> moved then up I h i else h)"

lemma settle_heap:
  assumes "n \<le> length (elems h)" "i < n" "heap_around (elems h) n i"
  shows "is_heap key (elems (settle h i n)) n \<and> mset (elems (settle h i n)) = mset (elems h) \<and>
    (\<forall>k\<ge>n. elems (settle h i n) ! k = elems h ! k)"
proof -
  obtain h' moved where d: "down I h i n = (h', moved)" by fastforce
  show ?thesis
  proof (cases "0 < i \<and> key (elems h ! i) < key (elems h ! parent i)")
    case True
    have child: "key (elems h ! i) < key (elems h ! c)" if "c < n" "0 < c" "parent c = i" for c
      using assms(3) that True unfolding heap_around_def by (metis less_le_trans)
    have "down_loop I h i n = (h, i)"
    proof (cases "2 * i + 1 \<ge> n")
      case False
      have "\<not> Less I h (2 * i + 1) i" using child [of "2 * i + 1"] False assms(1,2) by (simp add: Less)
      moreover have "2 * i + 2 < n \<Longrightarrow> \<not> Less I h (2 * i + 2) i"
        using child [of "2 * i + 2"] assms(1,2) by (simp add: Less)
      ultimately show ?thesis by (subst down_loop.simps) (simp add: Let_def)
    qed (simp add: down_loop.simps)
    then have "settle h i n = up I h i" by (simp add: settle_def down_def)
    moreover have "heap_but_up key (elems h) n i"
      unfolding heap_but_up_def
    proof (intro conjI allI impI)
      fix c assume c: "c < n" "0 < c" "c \<noteq> i"
      show "key (elems h ! parent c) \<le> key (elems h ! c)"
      proof (cases "parent c = i")
        case True
        then show ?thesis using child [OF c(1,2)] by simp
      qed (use assms(3) c in \<open>simp add: heap_around_def\<close>)
    qed (use assms(3) in \<open>simp add: heap_around_def\<close>)
    ultimately show ?thesis using up_heap [OF assms(2,1)] by simp
  next
    case False
    have "heap_but_down key (elems h) 0 n i"
      unfolding heap_but_down_def
    proof (intro conjI allI impI)
      fix c assume "c < n" "0 < c" "parent c \<noteq> i"
      then show "key (elems h ! parent c) \<le> key (elems h ! c)"
        using assms(3) False by (cases "c = i") (auto simp: heap_around_def)
    qed (use assms(3) in \<open>simp add: heap_around_def\<close>)
    note dh = down_heap_from [OF assms(1) this _ d]
    show ?thesis
    proof (cases moved)
      case True
      then show ?thesis using dh d by (simp add: settle_def heap_from_0)
    next
      case nm: False
      then have "h' = h" "is_heap key (elems h) n" using dh by (simp_all add: heap_from_0)
      moreover from this(2) have "heap_but_up key (elems h) n i"
        unfolding heap_but_up_def is_heap_def
        by (metis assms(3) heap_around_def)
      ultimately show ?thesis using up_heap [OF assms(2,1)] d nm by (simp add: settle_def)
    qed
  qed
qed

lemma Fix_heap:
  assumes "i < length (elems h)" "heap_around (elems h) (length (elems h)) i"
  shows "is_heap key (elems (Fix I h i)) (length (elems h)) \<and> mset (elems (Fix I h i)) = mset (elems h)"
proof -
  have "Fix I h i = settle h i (length (elems h))" by (simp add: Fix_def settle_def Len)
  then show ?thesis using settle_heap [OF order_refl assms] by simp
qed

lemma butlast_heap:
  assumes "is_heap key xs n" "length xs = Suc n" "mset ys = mset xs" "is_heap key ys n" "ys ! n = x"
  shows "is_heap key (butlast ys) (length (butlast ys))" "add_mset x (mset (butlast ys)) = mset xs" "last ys = x"
proof -
  have len: "length ys = Suc n" using assms(2,3) by (metis size_mset)
  then have ne: "ys \<noteq> []" by auto
  show lst: "last ys = x" using ne len assms(5) by (simp add: last_conv_nth)
  have "mset ys = add_mset (last ys) (mset (butlast ys))"
    using ne by (metis append_butlast_last_id mset.simps(1,2) mset_append union_mset_add_mset_right add.right_neutral)
  then show "add_mset x (mset (butlast ys)) = mset xs" using lst assms(3) by simp
  show "is_heap key (butlast ys) (length (butlast ys))"
    using assms(4) len parent_less by (auto simp: is_heap_def nth_butlast)
qed

lemma Remove_heap:
  assumes "is_heap key (elems h) (length (elems h))" "i < length (elems h)" "Remove I h i = (h', x)"
  shows "x = elems h ! i \<and> is_heap key (elems h') (length (elems h')) \<and> add_mset x (mset (elems h')) = mset (elems h)"
proof -
  obtain n where n: "length (elems h) = Suc n" using assms(2) by (cases "length (elems h)") auto
  define g where "g = (if n \<noteq> i then settle (Swap I h i n) i n else h)"
  have rem: "Remove I h i = PopLast I g"
    by (simp add: Remove_def Len n g_def settle_def Let_def)
  have hn: "is_heap key (elems h) n" using assms(1) by (simp add: is_heap_def n)
  have "is_heap key (elems g) n \<and> mset (elems g) = mset (elems h) \<and> elems g ! n = elems h ! i"
  proof (cases "n = i")
    case True
    then show ?thesis using hn by (simp add: g_def)
  next
    case False
    define k where "k = Swap I h i n"
    have el: "elems k = swap_at (elems h) i n" unfolding k_def using n assms(2) by (simp add: Swap)
    have nth: "elems k ! c = (if c = i then elems h ! n else if c = n then elems h ! i else elems h ! c)"
      if "c \<le> n" for c
      using that n assms(2) by (simp add: el nth_swap_at)
    have "heap_around (elems k) n i"
      unfolding heap_around_def
    proof (intro conjI allI impI)
      fix c assume "c < n" "0 < c" "c \<noteq> i" "parent c \<noteq> i"
      then show "key (elems k ! parent c) \<le> key (elems k ! c)"
        using hn nth [of c] nth [of "parent c"] parent_less [of c] by (simp add: is_heap_def)
    next
      fix c assume c: "c < n" "0 < c" "0 < i" "parent c = i"
      have pi: "parent i < i" "i < c" using parent_less [of i] parent_less [of c] c by auto
      have "key (elems h ! parent i) \<le> key (elems h ! i)" "key (elems h ! i) \<le> key (elems h ! c)"
        using hn c pi unfolding is_heap_def by auto
      then have "key (elems h ! parent i) \<le> key (elems h ! c)" by (rule order_trans)
      then show "key (elems k ! parent i) \<le> key (elems k ! c)"
        using nth [of c] nth [of "parent i"] pi c(1) by simp
    qed
    moreover have "i < n" "n \<le> length (elems k)" using False assms(2) n el by simp_all
    ultimately have st: "is_heap key (elems (settle k i n)) n \<and> mset (elems (settle k i n)) = mset (elems k) \<and>
      (\<forall>c\<ge>n. elems (settle k i n) ! c = elems k ! c)" by (intro settle_heap)
    have "g = settle k i n" using False by (simp add: g_def k_def)
    moreover have "mset (elems k) = mset (elems h)" using el n assms(2) by simp
    moreover have "elems k ! n = elems h ! i" using nth [of n] by simp
    ultimately show ?thesis using st by simp
  qed
  then have g: "is_heap key (elems g) n" "mset (elems g) = mset (elems h)" "elems g ! n = elems h ! i" by simp_all
  have "elems g \<noteq> []" using g(2) n by auto
  then have "elems h' = butlast (elems g)" "x = last (elems g)"
    using PopLast [of g] rem assms(3) by (metis fst_conv snd_conv)+
  then show ?thesis using butlast_heap [OF hn n g(2,1,3)] by simp
qed

lemma Pop_heap:
  assumes "is_heap key (elems h) (length (elems h))" "elems h \<noteq> []" "Pop I h = (h', x)"
  shows "x \<in> set (elems h) \<and> (\<forall>y\<in>set (elems h). key x \<le> key y) \<and>
    is_heap key (elems h') (length (elems h')) \<and> add_mset x (mset (elems h')) = mset (elems h)"
proof -
  obtain n where n: "length (elems h) = Suc n" using assms(2) by (cases "length (elems h)") auto
  define k where "k = Swap I h 0 n"
  have el: "elems k = swap_at (elems h) 0 n" unfolding k_def using n by (simp add: Swap)
  have nth: "elems k ! c = (if c = 0 then elems h ! n else if c = n then elems h ! 0 else elems h ! c)"
    if "c \<le> n" for c
    using that n by (simp add: el nth_swap_at)
  have hn: "is_heap key (elems h) n" using assms(1) by (simp add: is_heap_def n)
  have "heap_but_down key (elems k) 0 n 0"
    unfolding heap_but_down_def
  proof (intro conjI allI impI)
    fix c assume "c < n" "0 < c" "parent c \<noteq> 0"
    then show "key (elems k ! parent c) \<le> key (elems k ! c)"
      using hn nth [of c] nth [of "parent c"] parent_less [of c] by (simp add: is_heap_def)
  qed simp
  moreover obtain g moved where d: "down I k 0 n = (g, moved)" by fastforce
  moreover have "n \<le> length (elems k)" using el n by simp
  ultimately have g: "is_heap key (elems g) n" "mset (elems g) = mset (elems h)" "elems g ! n = elems h ! 0"
    using down_heap_from [of n k 0 0 g moved] el n nth [of n] by (auto simp: heap_from_0)
  have "Pop I h = PopLast I g" using d by (simp add: Pop_def Len n k_def Let_def)
  moreover have "elems g \<noteq> []" using g(2) n by auto
  ultimately have "elems h' = butlast (elems g)" "x = last (elems g)"
    using PopLast [of g] assms(3) by (metis fst_conv snd_conv)+
  moreover have "\<forall>y\<in>set (elems h). key (elems h ! 0) \<le> key y"
    using is_heap_root [OF assms(1)] by (auto simp: in_set_conv_nth)
  moreover have "elems h ! 0 \<in> set (elems h)" using n by simp
  ultimately show ?thesis using butlast_heap [OF hn n g(2,1,3)] by simp
qed

end

subsection \<open>The action queue of the go command\<close>

text \<open>Of an \<open>Action\<close> the queue reads the priority only; \<open>action_id\<close> stands for the pointer.\<close>

record action =
  action_id :: nat
  priority :: int

type_synonym actionQueue = "action list"

definition actionQueue_Len :: "actionQueue \<Rightarrow> nat" where
  "actionQueue_Len q = length q"

definition actionQueue_Swap :: "actionQueue \<Rightarrow> nat \<Rightarrow> nat \<Rightarrow> actionQueue" where
  "actionQueue_Swap q i j = q[i := q ! j, j := q ! i]"

definition actionQueue_Less :: "actionQueue \<Rightarrow> nat \<Rightarrow> nat \<Rightarrow> bool" where
  "actionQueue_Less q i j \<longleftrightarrow> priority (q ! i) < priority (q ! j)"

definition actionQueue_Push :: "actionQueue \<Rightarrow> action \<Rightarrow> actionQueue" where
  "actionQueue_Push q x = q @ [x]"

definition actionQueue_Pop :: "actionQueue \<Rightarrow> actionQueue \<times> action" where
  "actionQueue_Pop q = (let n = length q - 1 in (take n q, q ! n))"

definition actionQueue :: "(actionQueue, action) heap_interface" where
  "actionQueue = \<lparr>Len = actionQueue_Len, Less = actionQueue_Less, Swap = actionQueue_Swap,
     PushLast = actionQueue_Push, PopLast = actionQueue_Pop\<rparr>"

definition push :: "actionQueue \<Rightarrow> action \<Rightarrow> actionQueue" where
  "push q a = Push actionQueue q a"

definition pop :: "actionQueue \<Rightarrow> actionQueue \<times> action" where
  "pop q = Pop actionQueue q"

interpretation aq: heap_impl actionQueue "\<lambda>q. q" priority
  by unfold_locales
    (simp_all add: actionQueue_def actionQueue_Len_def actionQueue_Less_def actionQueue_Swap_def
      actionQueue_Push_def actionQueue_Pop_def swap_at_def butlast_conv_take last_conv_nth Let_def)

definition queue_ok :: "actionQueue \<Rightarrow> bool" where
  "queue_ok q \<longleftrightarrow> is_heap priority q (length q)"

subsection \<open>Properties\<close>

text \<open>C27: \<open>heap.Init\<close> turns any queue into a heap with the same elements, and \<open>heap.Push\<close> keeps the
  heap order and adds exactly the pushed element.\<close>

theorem action_queue_push:
  "queue_ok (Init actionQueue q) \<and> mset (Init actionQueue q) = mset q \<and>
    (queue_ok p \<longrightarrow> queue_ok (push p a) \<and> mset (push p a) = add_mset a (mset p))"
proof -
  have i: "is_heap priority (Init actionQueue q) (length q)" "mset (Init actionQueue q) = mset q"
    using aq.Init_heap [of q] by simp_all
  then have "length (Init actionQueue q) = length q" by (metis size_mset)
  then show ?thesis using i aq.Push_heap [of p a] by (simp add: queue_ok_def push_def)
qed

theorem action_queue_push_witness:
  "queue_ok (push [\<lparr>action_id = 1, priority = 5\<rparr>] \<lparr>action_id = 2, priority = 3\<rparr>) \<and>
    mset (push [\<lparr>action_id = 1, priority = 5\<rparr>] \<lparr>action_id = 2, priority = 3\<rparr>) =
      add_mset \<lparr>action_id = 2, priority = 3\<rparr> (mset [\<lparr>action_id = 1, priority = 5\<rparr>])"
proof -
  have "queue_ok [\<lparr>action_id = 1, priority = 5\<rparr>]" by (simp add: queue_ok_def is_heap_def)
  then show ?thesis using action_queue_push by blast
qed

text \<open>C28: \<open>heap.Pop\<close> on a nonempty queue returns an action of least priority and leaves a heap of the
  other actions.\<close>

theorem action_queue_pop:
  assumes "queue_ok q" "q \<noteq> []"
  shows "case pop q of (q', a) \<Rightarrow> a \<in> set q \<and> (\<forall>b\<in>set q. priority a \<le> priority b) \<and>
    queue_ok q' \<and> add_mset a (mset q') = mset q"
  using aq.Pop_heap [of q] assms by (cases "pop q") (auto simp: queue_ok_def pop_def)

theorem action_queue_pop_witness:
  "case pop [\<lparr>action_id = 1, priority = 5\<rparr>] of (q', a) \<Rightarrow>
    a \<in> set [\<lparr>action_id = 1, priority = 5\<rparr>] \<and>
    (\<forall>b\<in>set [\<lparr>action_id = 1, priority = 5\<rparr>]. priority a \<le> priority b) \<and>
    queue_ok q' \<and> add_mset a (mset q') = mset [\<lparr>action_id = 1, priority = 5\<rparr>]"
  by (rule action_queue_pop) (simp_all add: queue_ok_def is_heap_def)

text \<open>\<open>heap.Remove\<close> takes out the element at index \<open>i\<close> and \<open>heap.Fix\<close> puts a changed element in its
  place; both restore the heap order, whichever of \<open>down\<close> and \<open>up\<close> is needed.\<close>

theorem action_queue_remove_fix:
  assumes "queue_ok q" "i < length q"
  shows "(case Remove actionQueue q i of (q', a) \<Rightarrow> a = q ! i \<and> queue_ok q' \<and> add_mset a (mset q') = mset q) \<and>
    queue_ok (Fix actionQueue (q[i := b]) i) \<and> mset (Fix actionQueue (q[i := b]) i) = mset (q[i := b])"
proof
  show "case Remove actionQueue q i of (q', a) \<Rightarrow> a = q ! i \<and> queue_ok q' \<and> add_mset a (mset q') = mset q"
    using aq.Remove_heap [of q i] assms by (cases "Remove actionQueue q i") (auto simp: queue_ok_def)
  have "aq.heap_around (q[i := b]) (length (q[i := b])) i"
    unfolding aq.heap_around_def
  proof (intro conjI allI impI)
    fix c assume "c < length (q[i := b])" "0 < c" "c \<noteq> i" "parent c \<noteq> i"
    then show "priority (q[i := b] ! parent c) \<le> priority (q[i := b] ! c)"
      using assms(1) by (simp add: queue_ok_def is_heap_def)
  next
    fix c assume c: "c < length (q[i := b])" "0 < c" "0 < i" "parent c = i"
    have pi: "parent i < i" "i < c" using parent_less [of i] parent_less [of c] c by auto
    have "priority (q ! parent i) \<le> priority (q ! i)" "priority (q ! i) \<le> priority (q ! c)"
      using assms c pi unfolding queue_ok_def is_heap_def by auto
    then show "priority (q[i := b] ! parent i) \<le> priority (q[i := b] ! c)" using pi by simp
  qed
  from aq.Fix_heap [OF _ this] assms(2)
  have f: "is_heap priority (Fix actionQueue (q[i := b]) i) (length q)"
    "mset (Fix actionQueue (q[i := b]) i) = mset (q[i := b])" by simp_all
  then have "length (Fix actionQueue (q[i := b]) i) = length q" by (metis length_list_update size_mset)
  then show "queue_ok (Fix actionQueue (q[i := b]) i) \<and> mset (Fix actionQueue (q[i := b]) i) = mset (q[i := b])"
    using f by (simp add: queue_ok_def)
qed

theorem action_queue_remove_fix_witness:
  "(case Remove actionQueue [\<lparr>action_id = 1, priority = 5\<rparr>] 0 of (q', a) \<Rightarrow>
      a = [\<lparr>action_id = 1, priority = 5\<rparr>] ! 0 \<and> queue_ok q' \<and>
      add_mset a (mset q') = mset [\<lparr>action_id = 1, priority = 5\<rparr>]) \<and>
    queue_ok (Fix actionQueue ([\<lparr>action_id = 1, priority = 5\<rparr>][0 := \<lparr>action_id = 2, priority = 7\<rparr>]) 0) \<and>
    mset (Fix actionQueue ([\<lparr>action_id = 1, priority = 5\<rparr>][0 := \<lparr>action_id = 2, priority = 7\<rparr>]) 0) =
      mset ([\<lparr>action_id = 1, priority = 5\<rparr>][0 := \<lparr>action_id = 2, priority = 7\<rparr>])"
  by (rule action_queue_remove_fix) (simp_all add: queue_ok_def is_heap_def)

end
