(* ===== verification/Utf8.thy ===== *)
theory Utf8
  imports Prelude
begin

text \<open>
  \<open>unicode/utf8/utf8.go\<close>, complete: the tables, decoding forwards and backwards, encoding, counting
  and validation.  A \<open>[]byte\<close> and a \<open>string\<close> are both lists of bytes; the code has every
  function twice, and so has the model.  The specification is the encoding \<open>enc\<close> of the Unicode
  scalar values by arithmetic; decoding is shown to be its inverse and to reject everything else.
\<close>

subsection \<open>Constants and tables\<close>

type_synonym rune = "32 word"

definition RuneError :: rune where "RuneError = 0xFFFD"
definition RuneSelf :: "'a::{numeral}" where "RuneSelf = 0x80"
definition MaxRune :: "'a::{numeral}" where "MaxRune = 0x10FFFF"
definition UTFMax :: int where "UTFMax = 4"

definition surrogateMin :: "'a::{numeral}" where "surrogateMin = 0xD800"
definition surrogateMax :: "'a::{numeral}" where "surrogateMax = 0xDFFF"

definition tx :: uint8 where "tx = 0x80"
definition t2 :: uint8 where "t2 = 0xC0"
definition t3 :: uint8 where "t3 = 0xE0"
definition t4 :: uint8 where "t4 = 0xF0"

definition maskx :: uint8 where "maskx = 0x3F"
definition mask2 :: uint8 where "mask2 = 0x1F"
definition mask3 :: uint8 where "mask3 = 0x0F"
definition mask4 :: uint8 where "mask4 = 0x07"

definition rune1Max :: "'a::{numeral}" where "rune1Max = 0x7F"
definition rune2Max :: "'a::{numeral}" where "rune2Max = 0x7FF"
definition rune3Max :: "'a::{numeral}" where "rune3Max = 0xFFFF"

definition locb :: uint8 where "locb = 0x80"
definition hicb :: uint8 where "hicb = 0xBF"

definition xx :: uint8 where "xx = 0xF1"
definition asc :: uint8 where "asc = 0xF0"
definition s1 :: uint8 where "s1 = 0x02"
definition s2 :: uint8 where "s2 = 0x13"
definition s3 :: uint8 where "s3 = 0x03"
definition s4 :: uint8 where "s4 = 0x23"
definition s5 :: uint8 where "s5 = 0x34"
definition s6 :: uint8 where "s6 = 0x04"
definition s7 :: uint8 where "s7 = 0x44"

definition first :: "uint8 list" where
  "first =
   [asc, asc, asc, asc, asc, asc, asc, asc, asc, asc, asc, asc, asc, asc, asc, asc,
    asc, asc, asc, asc, asc, asc, asc, asc, asc, asc, asc, asc, asc, asc, asc, asc,
    asc, asc, asc, asc, asc, asc, asc, asc, asc, asc, asc, asc, asc, asc, asc, asc,
    asc, asc, asc, asc, asc, asc, asc, asc, asc, asc, asc, asc, asc, asc, asc, asc,
    asc, asc, asc, asc, asc, asc, asc, asc, asc, asc, asc, asc, asc, asc, asc, asc,
    asc, asc, asc, asc, asc, asc, asc, asc, asc, asc, asc, asc, asc, asc, asc, asc,
    asc, asc, asc, asc, asc, asc, asc, asc, asc, asc, asc, asc, asc, asc, asc, asc,
    asc, asc, asc, asc, asc, asc, asc, asc, asc, asc, asc, asc, asc, asc, asc, asc,
    xx, xx, xx, xx, xx, xx, xx, xx, xx, xx, xx, xx, xx, xx, xx, xx,
    xx, xx, xx, xx, xx, xx, xx, xx, xx, xx, xx, xx, xx, xx, xx, xx,
    xx, xx, xx, xx, xx, xx, xx, xx, xx, xx, xx, xx, xx, xx, xx, xx,
    xx, xx, xx, xx, xx, xx, xx, xx, xx, xx, xx, xx, xx, xx, xx, xx,
    xx, xx, s1, s1, s1, s1, s1, s1, s1, s1, s1, s1, s1, s1, s1, s1,
    s1, s1, s1, s1, s1, s1, s1, s1, s1, s1, s1, s1, s1, s1, s1, s1,
    s2, s3, s3, s3, s3, s3, s3, s3, s3, s3, s3, s3, s3, s4, s3, s3,
    s5, s6, s6, s6, s7, xx, xx, xx, xx, xx, xx, xx, xx, xx, xx, xx]"

record acceptRange =
  acc_lo :: uint8
  acc_hi :: uint8

definition acceptRanges :: "acceptRange list" where
  "acceptRanges =
    [\<lparr>acc_lo = locb, acc_hi = hicb\<rparr>, \<lparr>acc_lo = 0xA0, acc_hi = hicb\<rparr>, \<lparr>acc_lo = locb, acc_hi = 0x9F\<rparr>,
     \<lparr>acc_lo = 0x90, acc_hi = hicb\<rparr>, \<lparr>acc_lo = locb, acc_hi = 0x8F\<rparr>] @
    replicate 11 \<lparr>acc_lo = 0, acc_hi = 0\<rparr>"

subsection \<open>Decoding\<close>

definition FullRune :: "uint8 list \<Rightarrow> bool" where
  "FullRune p =
     (let n = length p in
      if n = 0 then False
      else
        let x = first ! unat (p ! 0) in
        if n \<ge> unat (x AND 7) then True
        else
          let accept = acceptRanges ! unat (drop_bit 4 x) in
          if n > 1 \<and> (p ! 1 < acc_lo accept \<or> acc_hi accept < p ! 1) then True
          else if n > 2 \<and> (p ! 2 < locb \<or> hicb < p ! 2) then True
          else False)"

definition FullRuneInString :: "uint8 list \<Rightarrow> bool" where
  "FullRuneInString s =
     (let n = length s in
      if n = 0 then False
      else
        let x = first ! unat (s ! 0) in
        if n \<ge> unat (x AND 7) then True
        else
          let accept = acceptRanges ! unat (drop_bit 4 x) in
          if n > 1 \<and> (s ! 1 < acc_lo accept \<or> acc_hi accept < s ! 1) then True
          else if n > 2 \<and> (s ! 2 < locb \<or> hicb < s ! 2) then True
          else False)"

definition DecodeRune :: "uint8 list \<Rightarrow> rune \<times> nat" where
  "DecodeRune p =
     (let n = length p in
      if n < 1 then (RuneError, 0)
      else
        let p0 = p ! 0; x = first ! unat p0 in
        if x \<ge> asc then
          let mask = signed_drop_bit 31 (push_bit 31 (ucast x :: rune))
          in ((ucast (p ! 0) AND NOT mask) OR (RuneError AND mask), 1)
        else
          let sz = unat (x AND 7); accept = acceptRanges ! unat (drop_bit 4 x) in
          if n < sz then (RuneError, 1)
          else
            let b1 = p ! 1 in
            if b1 < acc_lo accept \<or> acc_hi accept < b1 then (RuneError, 1)
            else if sz \<le> 2 then (push_bit 6 (ucast (p0 AND mask2)) OR ucast (b1 AND maskx), 2)
            else
              let b2 = p ! 2 in
              if b2 < locb \<or> hicb < b2 then (RuneError, 1)
              else if sz \<le> 3 then
                (push_bit 12 (ucast (p0 AND mask3)) OR push_bit 6 (ucast (b1 AND maskx)) OR ucast (b2 AND maskx), 3)
              else
                let b3 = p ! 3 in
                if b3 < locb \<or> hicb < b3 then (RuneError, 1)
                else
                  (push_bit 18 (ucast (p0 AND mask4)) OR push_bit 12 (ucast (b1 AND maskx)) OR
                   push_bit 6 (ucast (b2 AND maskx)) OR ucast (b3 AND maskx), 4))"

definition DecodeRuneInString :: "uint8 list \<Rightarrow> rune \<times> nat" where
  "DecodeRuneInString s =
     (let n = length s in
      if n < 1 then (RuneError, 0)
      else
        let s0 = s ! 0; x = first ! unat s0 in
        if x \<ge> asc then
          let mask = signed_drop_bit 31 (push_bit 31 (ucast x :: rune))
          in ((ucast (s ! 0) AND NOT mask) OR (RuneError AND mask), 1)
        else
          let sz = unat (x AND 7); accept = acceptRanges ! unat (drop_bit 4 x) in
          if n < sz then (RuneError, 1)
          else
            let b1 = s ! 1 in
            if b1 < acc_lo accept \<or> acc_hi accept < b1 then (RuneError, 1)
            else if sz \<le> 2 then (push_bit 6 (ucast (s0 AND mask2)) OR ucast (b1 AND maskx), 2)
            else
              let b2 = s ! 2 in
              if b2 < locb \<or> hicb < b2 then (RuneError, 1)
              else if sz \<le> 3 then
                (push_bit 12 (ucast (s0 AND mask3)) OR push_bit 6 (ucast (b1 AND maskx)) OR ucast (b2 AND maskx), 3)
              else
                let b3 = s ! 3 in
                if b3 < locb \<or> hicb < b3 then (RuneError, 1)
                else
                  (push_bit 18 (ucast (s0 AND mask4)) OR push_bit 12 (ucast (b1 AND maskx)) OR
                   push_bit 6 (ucast (b2 AND maskx)) OR ucast (b3 AND maskx), 4))"

definition RuneStart :: "uint8 \<Rightarrow> bool" where
  "RuneStart b \<longleftrightarrow> b AND 0xC0 \<noteq> 0x80"

text \<open>The backward scans for a start byte; \<open>start\<close> is an \<open>int\<close> that may reach \<open>-1\<close>.\<close>

function DecodeLastRune_loop :: "uint8 list \<Rightarrow> int \<Rightarrow> int \<Rightarrow> int" where
  "DecodeLastRune_loop p start lim =
     (if start \<ge> lim then if RuneStart (p ! nat start) then start else DecodeLastRune_loop p (start - 1) lim
      else start)"
  by pat_completeness auto
termination by (relation "measure (\<lambda>(p, start, lim). nat (start - lim + 1))") auto

declare DecodeLastRune_loop.simps [simp del]

definition DecodeLastRune :: "uint8 list \<Rightarrow> rune \<times> nat" where
  "DecodeLastRune p =
     (let end = length p in
      if end = 0 then (RuneError, 0)
      else
        let start = int end - 1; r = ucast (p ! nat start) in
        if sint (r :: rune) < RuneSelf then (r, 1)
        else
          let lim = int end - UTFMax; lim = (if lim < 0 then 0 else lim);
              start = DecodeLastRune_loop p (start - 1) lim;
              start = (if start < 0 then 0 else start);
              (r, sz) = DecodeRune (drop (nat start) p)
          in if start + int sz \<noteq> int end then (RuneError, 1) else (r, sz))"

function DecodeLastRuneInString_loop :: "uint8 list \<Rightarrow> int \<Rightarrow> int \<Rightarrow> int" where
  "DecodeLastRuneInString_loop s start lim =
     (if start \<ge> lim then if RuneStart (s ! nat start) then start else DecodeLastRuneInString_loop s (start - 1) lim
      else start)"
  by pat_completeness auto
termination by (relation "measure (\<lambda>(s, start, lim). nat (start - lim + 1))") auto

declare DecodeLastRuneInString_loop.simps [simp del]

definition DecodeLastRuneInString :: "uint8 list \<Rightarrow> rune \<times> nat" where
  "DecodeLastRuneInString s =
     (let end = length s in
      if end = 0 then (RuneError, 0)
      else
        let start = int end - 1; r = ucast (s ! nat start) in
        if sint (r :: rune) < RuneSelf then (r, 1)
        else
          let lim = int end - UTFMax; lim = (if lim < 0 then 0 else lim);
              start = DecodeLastRuneInString_loop s (start - 1) lim;
              start = (if start < 0 then 0 else start);
              (r, sz) = DecodeRuneInString (drop (nat start) s)
          in if start + int sz \<noteq> int end then (RuneError, 1) else (r, sz))"

subsection \<open>Encoding\<close>

definition RuneLen :: "rune \<Rightarrow> int" where
  "RuneLen r =
     (let v = sint r in
      if v < 0 then -1
      else if v \<le> rune1Max then 1
      else if v \<le> rune2Max then 2
      else if surrogateMin \<le> v \<and> v \<le> surrogateMax then -1
      else if v \<le> rune3Max then 3
      else if v \<le> MaxRune then 4
      else -1)"

text \<open>\<open>byte(r>>k)\<close>: the arithmetic shift of the signed rune, then its low byte.\<close>

definition shr_byte :: "rune \<Rightarrow> nat \<Rightarrow> uint8" where
  "shr_byte r k = ucast (signed_drop_bit k r)"

text \<open>\<open>EncodeRune\<close> writes into the buffer \<open>p\<close> (and panics if it is too short); the result is the buffer
  and the count.\<close>

definition EncodeRune_3 :: "uint8 list \<Rightarrow> rune \<Rightarrow> (uint8 list \<times> nat) go" where
  "EncodeRune_3 p r =
     (if length p < 3 then None
      else Some (p[0 := t3 OR shr_byte r 12, 1 := tx OR (shr_byte r 6 AND maskx), 2 := tx OR (shr_byte r 0 AND maskx)], 3))"

definition EncodeRune :: "uint8 list \<Rightarrow> rune \<Rightarrow> (uint8 list \<times> nat) go" where
  "EncodeRune p r =
     (if r \<le> rune1Max then if length p < 1 then None else Some (p[0 := shr_byte r 0], 1)
      else if r \<le> rune2Max then
        if length p < 2 then None
        else Some (p[0 := t2 OR shr_byte r 6, 1 := tx OR (shr_byte r 0 AND maskx)], 2)
      else if r > MaxRune \<or> surrogateMin \<le> r \<and> r \<le> surrogateMax then EncodeRune_3 p RuneError
      else if r \<le> rune3Max then EncodeRune_3 p r
      else if length p < 4 then None
      else Some (p[0 := t4 OR shr_byte r 18, 1 := tx OR (shr_byte r 12 AND maskx),
                   2 := tx OR (shr_byte r 6 AND maskx), 3 := tx OR (shr_byte r 0 AND maskx)], 4))"

definition append_3 :: "uint8 list \<Rightarrow> rune \<Rightarrow> uint8 list" where
  "append_3 p r = p @ [t3 OR shr_byte r 12, tx OR (shr_byte r 6 AND maskx), tx OR (shr_byte r 0 AND maskx)]"

definition appendRuneNonASCII :: "uint8 list \<Rightarrow> rune \<Rightarrow> uint8 list" where
  "appendRuneNonASCII p r =
     (if r \<le> rune2Max then p @ [t2 OR shr_byte r 6, tx OR (shr_byte r 0 AND maskx)]
      else if r > MaxRune \<or> surrogateMin \<le> r \<and> r \<le> surrogateMax then append_3 p RuneError
      else if r \<le> rune3Max then append_3 p r
      else p @ [t4 OR shr_byte r 18, tx OR (shr_byte r 12 AND maskx), tx OR (shr_byte r 6 AND maskx),
        tx OR (shr_byte r 0 AND maskx)])"

definition AppendRune :: "uint8 list \<Rightarrow> rune \<Rightarrow> uint8 list" where
  "AppendRune p r = (if r \<le> rune1Max then p @ [shr_byte r 0] else appendRuneNonASCII p r)"

definition ValidRune :: "rune \<Rightarrow> bool" where
  "ValidRune r =
     (let v = sint r in
      if 0 \<le> v \<and> v < surrogateMin then True
      else if surrogateMax < v \<and> v \<le> MaxRune then True
      else False)"

subsection \<open>Counting and validating\<close>

text \<open>The chain of tests on the bytes after the first that all four loops make: whether the \<open>sz\<close>
  bytes from index \<open>i\<close> on, with table entry \<open>x\<close>, are an encoded rune.\<close>

definition seq_ok :: "uint8 list \<Rightarrow> nat \<Rightarrow> uint8 \<Rightarrow> nat \<Rightarrow> bool" where
  "seq_ok p i x sz =
     (let accept = acceptRanges ! unat (drop_bit 4 x) in
      if p ! (i + 1) < acc_lo accept \<or> acc_hi accept < p ! (i + 1) then False
      else if sz = 2 then True
      else if p ! (i + 2) < locb \<or> hicb < p ! (i + 2) then False
      else if sz = 3 then True
      else if p ! (i + 3) < locb \<or> hicb < p ! (i + 3) then False
      else True)"

text \<open>The loops advance because a byte from \<open>RuneSelf\<close> on never has size 0 in the table.\<close>

lemma first_size_table: "list_all (\<lambda>x. x AND 7 \<noteq> 0) (drop 128 first)"
  by (simp add: first_def xx_def s1_def s2_def s3_def s4_def s5_def s6_def s7_def)

lemma first_size_pos:
  assumes "\<not> unat (c :: uint8) < RuneSelf"
  shows "0 < unat (first ! unat c AND 7)"
proof -
  have "unat c < 256" using unsigned_less [of c] by simp
  moreover have "length first = 256" by (simp add: first_def)
  ultimately have "first ! unat c = drop 128 first ! (unat c - 128)" "unat c - 128 < length (drop 128 first)"
    using assms by (simp_all add: RuneSelf_def)
  then have "first ! unat c AND 7 \<noteq> 0" using first_size_table by (simp add: list_all_length)
  then show ?thesis by (simp add: word_gt_0 unat_gt_0)
qed

lemma advance:
  "i < n \<Longrightarrow> \<not> unat (c :: uint8) < RuneSelf \<Longrightarrow> n - (i + unat (first ! unat c AND 7)) < n - i"
  using first_size_pos [of c] by simp

function RuneCount_loop :: "uint8 list \<Rightarrow> nat \<Rightarrow> nat \<Rightarrow> nat" where
  "RuneCount_loop p i n =
     (let np = length p in
      if i < np then
        let n = n + 1; c = p ! i in
        if unat c < RuneSelf then RuneCount_loop p (i + 1) n
        else
          let x = first ! unat c in
          if x = xx then RuneCount_loop p (i + 1) n
          else
            let sz = unat (x AND 7) in
            if i + sz > np then RuneCount_loop p (i + 1) n
            else
              RuneCount_loop p (i + (if seq_ok p i x sz then sz else 1)) n
      else n)"
  by pat_completeness auto
termination
  by (relation "measure (\<lambda>(p, i, n). length p - i)") (auto simp: advance split: if_splits)

declare RuneCount_loop.simps [simp del]

definition RuneCount :: "uint8 list \<Rightarrow> nat" where
  "RuneCount p = RuneCount_loop p 0 0"

function RuneCountInString_loop :: "uint8 list \<Rightarrow> nat \<Rightarrow> nat \<Rightarrow> nat" where
  "RuneCountInString_loop s i n =
     (let np = length s in
      if i < np then
        let n = n + 1; c = s ! i in
        if unat c < RuneSelf then RuneCountInString_loop s (i + 1) n
        else
          let x = first ! unat c in
          if x = xx then RuneCountInString_loop s (i + 1) n
          else
            let sz = unat (x AND 7) in
            if i + sz > np then RuneCountInString_loop s (i + 1) n
            else
              RuneCountInString_loop s (i + (if seq_ok s i x sz then sz else 1)) n
      else n)"
  by pat_completeness auto
termination
  by (relation "measure (\<lambda>(s, i, n). length s - i)") (auto simp: advance split: if_splits)

declare RuneCountInString_loop.simps [simp del]

definition RuneCountInString :: "uint8 list \<Rightarrow> nat" where
  "RuneCountInString s = RuneCountInString_loop s 0 0"

function Valid_ascii :: "uint8 list \<Rightarrow> uint8 list" where
  "Valid_ascii p =
     (if length p \<ge> 8 then
        let first32 = (ucast (p ! 0) OR push_bit 8 (ucast (p ! 1)) OR push_bit 16 (ucast (p ! 2)) OR
              push_bit 24 (ucast (p ! 3)) :: uint32);
            second32 = (ucast (p ! 4) OR push_bit 8 (ucast (p ! 5)) OR push_bit 16 (ucast (p ! 6)) OR
              push_bit 24 (ucast (p ! 7)))
        in if (first32 OR second32) AND 0x80808080 \<noteq> 0 then p else Valid_ascii (drop 8 p)
      else p)"
  by pat_completeness auto
termination by (relation "measure length") auto

function Valid_loop :: "uint8 list \<Rightarrow> nat \<Rightarrow> bool" where
  "Valid_loop p i =
     (let n = length p in
      if i < n then
        let pi = p ! i in
        if unat pi < RuneSelf then Valid_loop p (i + 1)
        else
          let x = first ! unat pi in
          if x = xx then False
          else
            let sz = unat (x AND 7) in
            if i + sz > n then False
            else
              if \<not> seq_ok p i x sz then False
              else Valid_loop p (i + sz)
      else True)"
  by pat_completeness auto
termination
  by (relation "measure (\<lambda>(p, i). length p - i)") (auto simp: advance)

declare Valid_ascii.simps [simp del] Valid_loop.simps [simp del]

definition Valid :: "uint8 list \<Rightarrow> bool" where
  "Valid p = Valid_loop (Valid_ascii p) 0"

function ValidString_ascii :: "uint8 list \<Rightarrow> uint8 list" where
  "ValidString_ascii s =
     (if length s \<ge> 8 then
        let first32 = (ucast (s ! 0) OR push_bit 8 (ucast (s ! 1)) OR push_bit 16 (ucast (s ! 2)) OR
              push_bit 24 (ucast (s ! 3)) :: uint32);
            second32 = (ucast (s ! 4) OR push_bit 8 (ucast (s ! 5)) OR push_bit 16 (ucast (s ! 6)) OR
              push_bit 24 (ucast (s ! 7)))
        in if (first32 OR second32) AND 0x80808080 \<noteq> 0 then s else ValidString_ascii (drop 8 s)
      else s)"
  by pat_completeness auto
termination by (relation "measure length") auto

function ValidString_loop :: "uint8 list \<Rightarrow> nat \<Rightarrow> bool" where
  "ValidString_loop s i =
     (let n = length s in
      if i < n then
        let pi = s ! i in
        if unat pi < RuneSelf then ValidString_loop s (i + 1)
        else
          let x = first ! unat pi in
          if x = xx then False
          else
            let sz = unat (x AND 7) in
            if i + sz > n then False
            else
              if \<not> seq_ok s i x sz then False
              else ValidString_loop s (i + sz)
      else True)"
  by pat_completeness auto
termination
  by (relation "measure (\<lambda>(s, i). length s - i)") (auto simp: advance)

declare ValidString_ascii.simps [simp del] ValidString_loop.simps [simp del]

definition ValidString :: "uint8 list \<Rightarrow> bool" where
  "ValidString s = ValidString_loop (ValidString_ascii s) 0"

subsection \<open>The tables, by ranges\<close>

definition lo2 :: "nat \<Rightarrow> nat" where
  "lo2 a = (if a = 224 then 160 else if a = 240 then 144 else 128)"

definition hi2 :: "nat \<Rightarrow> nat" where
  "hi2 a = (if a = 237 then 159 else if a = 244 then 143 else 191)"

definition seq_len :: "nat \<Rightarrow> nat" where
  "seq_len a = (if a < 224 then 2 else if a < 240 then 3 else 4)"

definition first_entry :: "nat \<Rightarrow> uint8" where
  "first_entry a =
     (if a < 128 then asc else if a < 194 then xx else if a < 224 then s1 else if a = 224 then s2
      else if a = 237 then s4 else if a < 240 then s3 else if a = 240 then s5 else if a < 244 then s6
      else if a = 244 then s7 else xx)"

lemma first_eq_map: "first = map first_entry [0..<256]"
  by (simp add: first_def first_entry_def upt_rec)

lemma first_nth: "a < 256 \<Longrightarrow> first ! a = first_entry a"
  by (simp add: first_eq_map)

lemmas table_defs = asc_def xx_def s1_def s2_def s3_def s4_def s5_def s6_def s7_def

lemma first_ge_asc: "a < 256 \<Longrightarrow> first ! a \<ge> asc \<longleftrightarrow> a < 194 \<or> 245 \<le> a"
  by (simp add: first_nth first_entry_def) (simp add: table_defs)

lemma first_eq_xx: "a < 256 \<Longrightarrow> first ! a = xx \<longleftrightarrow> 128 \<le> a \<and> (a < 194 \<or> 245 \<le> a)"
  by (simp add: first_nth first_entry_def) (simp add: table_defs)

lemma first_len: "194 \<le> a \<Longrightarrow> a < 245 \<Longrightarrow> unat (first ! a AND 7) = seq_len a"
  by (simp add: first_nth first_entry_def seq_len_def) (auto simp: table_defs)

lemma first_accept: "194 \<le> a \<Longrightarrow> a < 245 \<Longrightarrow>
    acceptRanges ! unat (drop_bit 4 (first ! a)) = \<lparr>acc_lo = of_nat (lo2 a), acc_hi = of_nat (hi2 a)\<rparr>"
  by (simp add: first_nth first_entry_def lo2_def hi2_def)
    (auto simp: table_defs acceptRanges_def locb_def hicb_def)

lemma unat8_less: "unat (b :: uint8) < 256"
  using unsigned_less [of b] by simp

lemma byte_less: "n < 256 \<Longrightarrow> (b :: uint8) < of_nat n \<longleftrightarrow> unat b < n"
  by (simp add: word_less_nat_alt unat_of_nat_small)

lemma byte_greater: "n < 256 \<Longrightarrow> of_nat n < (b :: uint8) \<longleftrightarrow> n < unat b"
  by (simp add: word_less_nat_alt unat_of_nat_small)

lemma lo2_hi2_less: "lo2 a < 256" "hi2 a < 256"
  by (simp_all add: lo2_def hi2_def)

lemma locb_iff: "(b :: uint8) < locb \<longleftrightarrow> unat b < 128" "hicb < (b :: uint8) \<longleftrightarrow> 191 < unat b"
  by (simp_all add: locb_def hicb_def word_less_nat_alt)

subsection \<open>The encoding of a scalar value\<close>

definition scalar :: "nat \<Rightarrow> bool" where
  "scalar c \<longleftrightarrow> c < 0x110000 \<and> \<not> (0xD800 \<le> c \<and> c < 0xE000)"

definition enc :: "nat \<Rightarrow> nat list" where
  "enc c =
     (if c < 0x80 then [c]
      else if c < 0x800 then [192 + c div 64, 128 + c mod 64]
      else if c < 0x10000 then [224 + c div 4096, 128 + c div 64 mod 64, 128 + c mod 64]
      else [240 + c div 262144, 128 + c div 4096 mod 64, 128 + c div 64 mod 64, 128 + c mod 64])"

text \<open>The scalar value at the front of a list of bytes, if there is one, and its length.\<close>

fun dv :: "nat list \<Rightarrow> (nat \<times> nat) option" where
  "dv [] = None"
| "dv (a # bs) =
     (if a < 128 then Some (a, 1)
      else if a < 194 \<or> 245 \<le> a then None
      else if length bs + 1 < seq_len a then None
      else if bs ! 0 < lo2 a \<or> hi2 a < bs ! 0 then None
      else if seq_len a = 2 then Some ((a - 192) * 64 + (bs ! 0 - 128), 2)
      else if bs ! 1 < 128 \<or> 191 < bs ! 1 then None
      else if seq_len a = 3 then Some ((a - 224) * 4096 + (bs ! 0 - 128) * 64 + (bs ! 1 - 128), 3)
      else if bs ! 2 < 128 \<or> 191 < bs ! 2 then None
      else Some ((a - 240) * 262144 + (bs ! 0 - 128) * 4096 + (bs ! 1 - 128) * 64 + (bs ! 2 - 128), 4))"

declare dv.simps(2) [simp del]

lemma digits2: "y < 64 \<Longrightarrow> (x * 64 + y) div 64 = x \<and> (x * 64 + y) mod 64 = (y :: nat)"
  by simp

lemma digits3:
  assumes "y < 64" "z < 64"
  shows "(x * 4096 + y * 64 + z) div 4096 = x \<and> (x * 4096 + y * 64 + z) div 64 mod 64 = y \<and>
    (x * 4096 + y * 64 + z) mod 64 = (z :: nat)"
proof -
  have e: "x * 4096 + y * 64 + z = (x * 64 + y) * 64 + z" by simp
  have "(x * 4096 + y * 64 + z) div 64 = x * 64 + y" "(x * 4096 + y * 64 + z) mod 64 = z"
    unfolding e using digits2 [OF assms(2), of "x * 64 + y"] by blast+
  moreover have "(x * 4096 + y * 64 + z) div 4096 = (x * 4096 + y * 64 + z) div 64 div 64"
    by (simp add: div_mult2_eq [symmetric])
  ultimately show ?thesis using digits2 [OF assms(1), of x] by simp
qed

lemma digits4:
  assumes "y < 64" "z < 64" "w < 64"
  shows "(x * 262144 + y * 4096 + z * 64 + w) div 262144 = x \<and>
    (x * 262144 + y * 4096 + z * 64 + w) div 4096 mod 64 = y \<and>
    (x * 262144 + y * 4096 + z * 64 + w) div 64 mod 64 = z \<and>
    (x * 262144 + y * 4096 + z * 64 + w) mod 64 = (w :: nat)"
proof -
  define n where "n = x * 262144 + y * 4096 + z * 64 + w"
  have n: "n = (x * 64 + y) * 4096 + z * 64 + w" by (simp add: n_def)
  note d = digits3 [OF assms(2,3), of "x * 64 + y", folded n]
  moreover have "n div 262144 = n div 4096 div 64" by (simp add: div_mult2_eq [symmetric])
  ultimately show ?thesis using digits2 [OF assms(1), of x] unfolding n_def [symmetric] by simp
qed

lemma enc_digits:
  "c < 0x80 \<Longrightarrow> enc c = [c]"
  "0x80 \<le> x * 64 + y \<Longrightarrow> x < 32 \<Longrightarrow> y < 64 \<Longrightarrow> enc (x * 64 + y) = [192 + x, 128 + y]"
  "0x800 \<le> x * 4096 + y * 64 + z \<Longrightarrow> x < 16 \<Longrightarrow> y < 64 \<Longrightarrow> z < 64 \<Longrightarrow>
    enc (x * 4096 + y * 64 + z) = [224 + x, 128 + y, 128 + z]"
  "0x10000 \<le> x * 262144 + y * 4096 + z * 64 + w \<Longrightarrow> y < 64 \<Longrightarrow> z < 64 \<Longrightarrow> w < 64 \<Longrightarrow>
    enc (x * 262144 + y * 4096 + z * 64 + w) = [240 + x, 128 + y, 128 + z, 128 + w]"
  using digits2 [of y x] digits3 [of y z x] digits4 [of y z w x] by (simp_all add: enc_def)

lemma dv_sound:
  assumes "dv bs = Some (c, n)"
  shows "scalar c \<and> n = length (enc c) \<and> take n bs = enc c"
proof (cases bs)
  case (Cons a bs')
  note dv = assms [unfolded Cons dv.simps]
  have "a < 128 \<or> 194 \<le> a \<and> a < 245" using dv by (auto split: if_splits)
  then consider "a < 128" | "194 \<le> a" "a < 224" | "224 \<le> a" "a < 240" | "240 \<le> a" "a < 245"
    by linarith
  then show ?thesis
  proof cases
    case 1
    then show ?thesis using dv by (auto simp: Cons scalar_def enc_def)
  next
    case 2
    then have len: "seq_len a = 2" by (simp add: seq_len_def)
    with 2 dv obtain b cs where bs': "bs' = b # cs" by (cases bs') (auto split: if_splits)
    have b: "128 \<le> b" "b < 192" "c = (a - 192) * 64 + (b - 128)" "n = 2"
      using dv 2 len by (auto simp: bs' lo2_def hi2_def split: if_splits)
    have "enc c = [192 + (a - 192), 128 + (b - 128)]"
      unfolding b(3) using 2 b(1,2) by (intro enc_digits(2)) simp_all
    moreover have "c < 0x800" using 2 b by simp
    ultimately show ?thesis using 2 b by (simp add: Cons bs' scalar_def)
  next
    case 3
    then have len: "seq_len a = 3" by (simp add: seq_len_def)
    with 3 dv obtain b d cs where bs': "bs' = b # d # cs"
      by (cases bs'; cases "tl bs'") (auto split: if_splits)
    have b: "lo2 a \<le> b" "b \<le> hi2 a" "128 \<le> d" "d < 192" "c = (a - 224) * 4096 + (b - 128) * 64 + (d - 128)" "n = 3"
      using dv 3 len by (auto simp: bs' split: if_splits)
    have r: "128 \<le> b" "b < 192" "a = 224 \<longrightarrow> 160 \<le> b" "a = 237 \<longrightarrow> b < 160"
      using b(1,2) 3 by (auto simp: lo2_def hi2_def split: if_splits)
    have ge: "0x800 \<le> c" using r 3 b by (cases "a = 224") auto
    have "enc c = [224 + (a - 224), 128 + (b - 128), 128 + (d - 128)]"
      unfolding b(5) using 3 b(3,4) r ge [unfolded b(5)] by (intro enc_digits(3)) simp_all
    moreover have "c < 0x10000" using 3 b r by simp
    moreover have "\<not> (0xD800 \<le> c \<and> c < 0xE000)"
    proof (cases "a = 237")
      case True
      then show ?thesis using r b by simp
    next
      case False
      then have "a \<le> 236 \<or> 238 \<le> a" by linarith
      then show ?thesis using r b by auto
    qed
    ultimately show ?thesis using 3 b r by (simp add: Cons bs' scalar_def)
  next
    case 4
    then have len: "seq_len a = 4" by (simp add: seq_len_def)
    with 4 dv obtain b d e cs where bs': "bs' = b # d # e # cs"
      by (cases bs'; cases "tl bs'"; cases "tl (tl bs')") (auto split: if_splits)
    have b: "lo2 a \<le> b" "b \<le> hi2 a" "128 \<le> d" "d < 192" "128 \<le> e" "e < 192"
      "c = (a - 240) * 262144 + (b - 128) * 4096 + (d - 128) * 64 + (e - 128)" "n = 4"
      using dv 4 len by (auto simp: bs' split: if_splits)
    have r: "128 \<le> b" "b < 192" "a = 240 \<longrightarrow> 144 \<le> b" "a = 244 \<longrightarrow> b < 144"
      using b(1,2) 4 by (auto simp: lo2_def hi2_def split: if_splits)
    have ge: "0x10000 \<le> c" using r 4 b by (cases "a = 240") auto
    have "enc c = [240 + (a - 240), 128 + (b - 128), 128 + (d - 128), 128 + (e - 128)]"
      unfolding b(7) using 4 b(3,4,5,6) r ge [unfolded b(7)] by (intro enc_digits(4)) simp_all
    moreover have "c < 0x110000" using 4 b r by (cases "a = 244") auto
    ultimately show ?thesis using 4 b r ge by (simp add: Cons bs' scalar_def)
  qed
qed (use assms in simp)

lemma split2: obtains x y where "c = x * 64 + y" "y < (64 :: nat)"
  using that [of "c div 64" "c mod 64"] by simp

lemma dv_complete:
  assumes "scalar c"
  shows "dv (enc c @ bs) = Some (c, length (enc c))"
proof -
  consider "c < 0x80" | "0x80 \<le> c" "c < 0x800" | "0x800 \<le> c" "c < 0x10000" | "0x10000 \<le> c" by linarith
  then show ?thesis
  proof cases
    case 1
    then show ?thesis by (simp add: enc_def dv.simps)
  next
    case 2
    obtain x y where c: "c = x * 64 + y" "y < 64" by (rule split2)
    then have x: "2 \<le> x" "x < 32" using 2 by simp_all
    then have "enc c = [192 + x, 128 + y]" using 2 c by (simp add: enc_digits)
    then show ?thesis using x c by (simp add: dv.simps seq_len_def lo2_def hi2_def)
  next
    case 3
    obtain u z where c0: "c = u * 64 + z" "z < 64" by (rule split2)
    obtain x y where u: "u = x * 64 + y" "y < 64" by (rule split2)
    have c: "c = x * 4096 + y * 64 + z" using c0 u by simp
    have x: "x < 16" "x = 0 \<longrightarrow> 32 \<le> y" using 3 c u c0 by auto
    have s: "x = 13 \<longrightarrow> y < 32" using assms c u c0 by (auto simp: scalar_def)
    have e: "enc c = [224 + x, 128 + y, 128 + z]" unfolding c using 3 c x u c0 by (intro enc_digits(3)) simp_all
    have "lo2 (224 + x) \<le> 128 + y" "128 + y \<le> hi2 (224 + x)" "seq_len (224 + x) = 3"
      using x s u by (auto simp: lo2_def hi2_def seq_len_def)
    then have "dv ([224 + x, 128 + y, 128 + z] @ bs) = Some (x * 4096 + y * 64 + z, 3)"
      using x u c0(2) by (simp add: dv.simps)
    then show ?thesis unfolding e by (simp add: c)
  next
    case 4
    obtain v w where c0: "c = v * 64 + w" "w < 64" by (rule split2)
    obtain u z where v: "v = u * 64 + z" "z < 64" by (rule split2)
    obtain x y where u: "u = x * 64 + y" "y < 64" by (rule split2)
    have c: "c = x * 262144 + y * 4096 + z * 64 + w" using c0 u v by simp
    have "c < 0x110000" using assms by (simp add: scalar_def)
    then have x: "x < 5" "x = 0 \<longrightarrow> 16 \<le> y" "x = 4 \<longrightarrow> y < 16" using 4 c u v c0 by auto
    have e: "enc c = [240 + x, 128 + y, 128 + z, 128 + w]" unfolding c using 4 c x u v c0 by (intro enc_digits(4)) simp_all
    have "lo2 (240 + x) \<le> 128 + y" "128 + y \<le> hi2 (240 + x)" "seq_len (240 + x) = 4"
      using x u by (auto simp: lo2_def hi2_def seq_len_def)
    then have "dv ([240 + x, 128 + y, 128 + z, 128 + w] @ bs) = Some (x * 262144 + y * 4096 + z * 64 + w, 4)"
      using x u v c0(2) by (simp add: dv.simps)
    then show ?thesis unfolding e by (simp add: c)
  qed
qed

lemma dv_iff: "dv bs = Some (c, n) \<longleftrightarrow> scalar c \<and> n = length (enc c) \<and> take n bs = enc c"
proof
  assume "scalar c \<and> n = length (enc c) \<and> take n bs = enc c"
  then show "dv bs = Some (c, n)" using dv_complete [of c "drop n bs"] by (metis append_take_drop_id)
qed (rule dv_sound)

lemma enc_length: "1 \<le> length (enc c)" "length (enc c) \<le> 4"
  by (simp_all add: enc_def)

subsection \<open>Decoding: correctness\<close>

abbreviation bytes :: "uint8 list \<Rightarrow> nat list" where
  "bytes \<equiv> map unat"

lemma or_shift:
  assumes "n < 2 ^ k"
  shows "push_bit k (of_nat m) OR of_nat n = (of_nat (m * 2 ^ k + n) :: 'a::len word)"
proof -
  have "push_bit k (of_nat m) OR of_nat n = push_bit k (of_nat m) + (of_nat n :: 'a word)"
  proof (rule plus_disjoint_or [symmetric])
    fix j
    have "bit (of_nat n :: 'a word) j \<Longrightarrow> j < k"
      using assms(1) by (metis bit_of_nat_iff bit_take_bit_iff take_bit_nat_eq_self)
    then show "\<not> (bit (push_bit k (of_nat m) :: 'a word) j \<and> bit (of_nat n :: 'a word) j)"
      by (auto simp: bit_push_bit_iff)
  qed
  then show ?thesis by (simp add: push_bit_eq_mult)
qed

lemma ucast_byte: "(ucast (b :: uint8) :: rune) = of_nat (unat b)"
  by simp

lemma unat_and_mask:
  "unat (b AND maskx) = unat b mod 64" "unat (b AND mask2) = unat b mod 32"
  "unat (b AND mask3) = unat b mod 16" "unat (b AND mask4) = unat b mod 8"
proof -
  have m: "maskx = mask 6" "mask2 = mask 5" "mask3 = mask 4" "mask4 = mask 3"
    by (simp_all add: maskx_def mask2_def mask3_def mask4_def mask_eq_exp_minus_1)
  show "unat (b AND maskx) = unat b mod 64" "unat (b AND mask2) = unat b mod 32"
    "unat (b AND mask3) = unat b mod 16" "unat (b AND mask4) = unat b mod 8"
    unfolding m by (simp_all only: take_bit_eq_mask [symmetric] unsigned_take_bit_eq, simp_all add: take_bit_eq_mod)
qed

lemma runes:
  "push_bit 6 (ucast (a AND mask2)) OR ucast (b AND maskx) = (of_nat (unat a mod 32 * 64 + unat b mod 64) :: rune)"
  "push_bit 12 (ucast (a AND mask3)) OR push_bit 6 (ucast (b AND maskx)) OR ucast (d AND maskx) =
    (of_nat (unat a mod 16 * 4096 + unat b mod 64 * 64 + unat d mod 64) :: rune)"
  "push_bit 18 (ucast (a AND mask4)) OR push_bit 12 (ucast (b AND maskx)) OR push_bit 6 (ucast (d AND maskx)) OR
    ucast (e AND maskx) =
    (of_nat (unat a mod 8 * 262144 + unat b mod 64 * 4096 + unat d mod 64 * 64 + unat e mod 64) :: rune)"
proof -
  have l: "unat b mod 64 * 64 + unat d mod 64 < 4096" for b d :: uint8
    using mod_less_divisor [of 64 "unat b"] mod_less_divisor [of 64 "unat d"] by linarith
  have l3: "unat b mod 64 * 4096 + (unat d mod 64 * 64 + unat e mod 64) < 262144"
    using mod_less_divisor [of 64 "unat b"] l [of d e] by linarith
  have 1: "push_bit 6 (of_nat m :: rune) OR of_nat (unat b mod 64) = of_nat (m * 64 + unat b mod 64)" for m and b :: uint8
    using or_shift [where 'a = 32, of "unat b mod 64" 6 m] by simp
  have 2: "push_bit 12 (of_nat m :: rune) OR of_nat (unat b mod 64 * 64 + unat d mod 64) =
      of_nat (m * 4096 + (unat b mod 64 * 64 + unat d mod 64))" for m and b d :: uint8
    using or_shift [where 'a = 32, of "unat b mod 64 * 64 + unat d mod 64" 12 m] l [of b d] by simp
  have 3: "push_bit 18 (of_nat m :: rune) OR of_nat (unat b mod 64 * 4096 + (unat d mod 64 * 64 + unat e mod 64)) =
      of_nat (m * 262144 + (unat b mod 64 * 4096 + (unat d mod 64 * 64 + unat e mod 64)))" for m
    using or_shift [where 'a = 32, of "unat b mod 64 * 4096 + (unat d mod 64 * 64 + unat e mod 64)" 18 m] l3 by simp
  show "push_bit 6 (ucast (a AND mask2)) OR ucast (b AND maskx) = (of_nat (unat a mod 32 * 64 + unat b mod 64) :: rune)"
    unfolding ucast_byte unat_and_mask by (rule 1)
  show "push_bit 12 (ucast (a AND mask3)) OR push_bit 6 (ucast (b AND maskx)) OR ucast (d AND maskx) =
    (of_nat (unat a mod 16 * 4096 + unat b mod 64 * 64 + unat d mod 64) :: rune)"
    unfolding ucast_byte unat_and_mask 1 2 by (simp only: add.assoc)
  show "push_bit 18 (ucast (a AND mask4)) OR push_bit 12 (ucast (b AND maskx)) OR push_bit 6 (ucast (d AND maskx)) OR
    ucast (e AND maskx) =
    (of_nat (unat a mod 8 * 262144 + unat b mod 64 * 4096 + unat d mod 64 * 64 + unat e mod 64) :: rune)"
    unfolding ucast_byte unat_and_mask 1 2 3 by (simp only: add.assoc)
qed

lemma mod_window:
  assumes "k \<le> a" "a < k + m" "m dvd k"
  shows "a mod m = a - (k :: nat)"
proof -
  obtain q where k: "k = m * q" using assms(3) by blast
  have "a = (a - k) + m * q" "a - k < m" using assms k by simp_all
  then show ?thesis by (metis mod_less mod_mult_self2)
qed

lemma first_val:
  assumes "unat (b :: uint8) < 194 \<or> 245 \<le> unat b"
  shows "first ! unat b = (if unat b < 128 then asc else xx)"
  using assms by (auto simp: first_nth [OF unat8_less] first_entry_def)

lemma DecodeRune_special:
  assumes "unat b < 194 \<or> 245 \<le> unat b"
  shows "DecodeRune (b # p) = (if unat b < 128 then of_nat (unat b) else RuneError, 1)"
  unfolding DecodeRune_def Let_def nth_Cons_0 first_val [OF assms]
  by (simp add: asc_def xx_def)

lemma DecodeRune_seq:
  assumes "\<not> (unat b < 194 \<or> 245 \<le> unat b)"
  shows "DecodeRune (b # p) =
    (let sz = seq_len (unat b) in
     if length p + 1 < sz then (RuneError, 1)
     else if unat (p ! 0) < lo2 (unat b) \<or> hi2 (unat b) < unat (p ! 0) then (RuneError, 1)
     else if sz \<le> 2 then (of_nat (unat b mod 32 * 64 + unat (p ! 0) mod 64), 2)
     else if unat (p ! 1) < 128 \<or> 191 < unat (p ! 1) then (RuneError, 1)
     else if sz \<le> 3 then (of_nat (unat b mod 16 * 4096 + unat (p ! 0) mod 64 * 64 + unat (p ! 1) mod 64), 3)
     else if unat (p ! 2) < 128 \<or> 191 < unat (p ! 2) then (RuneError, 1)
     else (of_nat (unat b mod 8 * 262144 + unat (p ! 0) mod 64 * 4096 + unat (p ! 1) mod 64 * 64 + unat (p ! 2) mod 64), 4))"
proof -
  have b: "194 \<le> unat b" "unat b < 245" using assms by simp_all
  have "\<not> asc \<le> first ! unat b" using assms first_ge_asc [OF unat8_less, of b] by simp
  then show ?thesis
    unfolding DecodeRune_def Let_def nth_Cons_0 runes first_len [OF b] first_accept [OF b] locb_iff
      acceptRange.simps byte_less [OF lo2_hi2_less(1)] byte_greater [OF lo2_hi2_less(2)]
    by (simp add: nth_Cons')
qed

lemma seq_mods:
  assumes "194 \<le> a" "a < 245"
  shows "seq_len a = 2 \<Longrightarrow> a mod 32 = a - 192" "seq_len a = 3 \<Longrightarrow> a mod 16 = a - 224"
    "seq_len a = 4 \<Longrightarrow> a mod 8 = a - 240" "seq_len a = 2 \<or> seq_len a = 3 \<or> seq_len a = 4"
  using assms mod_window [of 192 a 32] mod_window [of 224 a 16] mod_window [of 240 a 8]
  by (auto simp: seq_len_def split: if_splits)

lemma cont_mod: "\<not> (b < 128 \<or> 191 < b) \<Longrightarrow> b mod 64 = b - (128 :: nat)"
  using mod_window [of 128 b 64] by simp

lemma cont_mod2: "\<not> (b < lo2 a \<or> hi2 a < b) \<Longrightarrow> b mod 64 = b - (128 :: nat)"
  by (rule cont_mod) (auto simp: lo2_def hi2_def split: if_splits)

lemma DecodeRune_dv:
  "DecodeRune p = (case dv (bytes p) of Some (c, n) \<Rightarrow> (of_nat c, n) | None \<Rightarrow> (RuneError, if p = [] then 0 else 1))"
proof (cases p)
  case Nil
  then show ?thesis by (simp add: DecodeRune_def)
next
  case (Cons b p')
  show ?thesis
  proof (cases "unat b < 194 \<or> 245 \<le> unat b")
    case True
    then show ?thesis
      unfolding Cons DecodeRune_special [OF True] by (auto simp: dv.simps)
  next
    case False
    then have b: "194 \<le> unat b" "unat b < 245" by simp_all
    note m = seq_mods [OF b]
    have n: "length p' + 1 < seq_len (unat b) \<or> (bytes p' ! 0 = unat (p' ! 0) \<and>
        (3 \<le> seq_len (unat b) \<longrightarrow> bytes p' ! 1 = unat (p' ! 1)) \<and>
        (4 \<le> seq_len (unat b) \<longrightarrow> bytes p' ! 2 = unat (p' ! 2)))"
      using m(4) by (auto intro!: nth_map)
    show ?thesis
    proof (cases "length p' + 1 < seq_len (unat b)")
      case True
      then show ?thesis unfolding Cons DecodeRune_seq [OF False] using b by (simp add: dv.simps)
    next
      case ge: False
      then have n: "bytes p' ! 0 = unat (p' ! 0)"
        "3 \<le> seq_len (unat b) \<Longrightarrow> bytes p' ! 1 = unat (p' ! 1)"
        "4 \<le> seq_len (unat b) \<Longrightarrow> bytes p' ! 2 = unat (p' ! 2)"
        using n by blast+
      from m(4) show ?thesis
      proof (elim disjE)
        assume s: "seq_len (unat b) = 2"
        show ?thesis unfolding Cons DecodeRune_seq [OF False]
          using b ge n by (simp add: dv.simps s m(1) cont_mod2)
      next
        assume s: "seq_len (unat b) = 3"
        show ?thesis unfolding Cons DecodeRune_seq [OF False]
          using b ge n by (simp add: dv.simps s m(2) cont_mod2 cont_mod)
      next
        assume s: "seq_len (unat b) = 4"
        show ?thesis unfolding Cons DecodeRune_seq [OF False]
          using b ge n by (simp add: dv.simps s m(3) cont_mod2 cont_mod)
      qed
    qed
  qed
qed

lemma DecodeRuneInString_eq: "DecodeRuneInString = DecodeRune"
  by (rule ext) (simp only: DecodeRuneInString_def DecodeRune_def)

subsection \<open>Encoding: correctness\<close>

lemma shr_byte_eq:
  assumes "k \<le> 24"
  shows "shr_byte r k = of_nat (unat r div 2 ^ k)"
proof -
  have "shr_byte r k = ucast (drop_bit k r)"
    unfolding shr_byte_def
    by (rule bit_word_eqI) (use assms in \<open>auto simp: bit_simps bit_signed_drop_bit_iff bit_drop_bit_eq\<close>)
  also have "\<dots> = of_nat (unat r div 2 ^ k)"
    by (simp add: drop_bit_eq_div [symmetric] unat_drop_bit_eq [symmetric])
  finally show ?thesis .
qed

lemma shr_bytes:
  "shr_byte r 0 = of_nat (unat r)" "shr_byte r 6 = of_nat (unat r div 64)"
  "shr_byte r 12 = of_nat (unat r div 4096)" "shr_byte r 18 = of_nat (unat r div 262144)"
  by (simp_all add: shr_byte_eq)

lemma of_nat_byte_and_maskx: "(of_nat n :: uint8) AND maskx = of_nat (n mod 64)"
proof -
  have m: "maskx = mask 6" by (simp add: maskx_def mask_eq_exp_minus_1)
  show ?thesis
    unfolding m take_bit_eq_mask [symmetric] of_nat_take_bit [symmetric] by (simp add: take_bit_eq_mod)
qed

lemma lead_bytes:
  "tx OR (of_nat n AND maskx) = of_nat (128 + n mod 64)"
  "n < 32 \<Longrightarrow> t2 OR of_nat n = of_nat (192 + n)"
  "n < 16 \<Longrightarrow> t3 OR of_nat n = of_nat (224 + n)"
  "n < 8 \<Longrightarrow> t4 OR of_nat n = of_nat (240 + n)"
  unfolding of_nat_byte_and_maskx
  using or_shift [where 'a = 8, of "n mod 64" 6 2] or_shift [where 'a = 8, of n 5 6]
    or_shift [where 'a = 8, of n 4 14] or_shift [where 'a = 8, of n 3 30]
  by (simp_all add: tx_def t2_def t3_def t4_def)

definition enc_bytes :: "rune \<Rightarrow> uint8 list" where
  "enc_bytes r = map of_nat (enc (if scalar (unat r) then unat r else 0xFFFD))"

lemma enc_rune_3:
  assumes "0x800 \<le> unat r" "unat r < 0x10000"
  shows "[t3 OR shr_byte r 12, tx OR (shr_byte r 6 AND maskx), tx OR (shr_byte r 0 AND maskx)] = map of_nat (enc (unat r))"
proof -
  have "unat r div 4096 < 16" using assms by simp
  then show ?thesis using assms by (simp only: shr_bytes lead_bytes) (simp add: enc_def)
qed

lemma rune_tests:
  "(r :: rune) \<le> rune1Max \<longleftrightarrow> unat r < 0x80" "r \<le> rune2Max \<longleftrightarrow> unat r < 0x800"
  "r > MaxRune \<or> surrogateMin \<le> r \<and> r \<le> surrogateMax \<longleftrightarrow> \<not> scalar (unat r)" "r \<le> rune3Max \<longleftrightarrow> unat r < 0x10000"
  by (auto simp: rune1Max_def rune2Max_def rune3Max_def MaxRune_def surrogateMin_def surrogateMax_def scalar_def
      word_le_nat_alt word_less_nat_alt)

lemma RuneError_enc: "unat RuneError = 0xFFFD" "scalar 0xFFFD"
  by (simp_all add: RuneError_def scalar_def)

lemma scalar_small: "c < 0x800 \<Longrightarrow> scalar c"
  by (simp add: scalar_def)

lemma AppendRune_enc: "AppendRune p r = p @ enc_bytes r"
proof -
  consider "unat r < 0x80" | "0x80 \<le> unat r" "unat r < 0x800" | "0x800 \<le> unat r" "\<not> scalar (unat r)"
    | "0x800 \<le> unat r" "scalar (unat r)" "unat r < 0x10000"
    | "0x10000 \<le> unat r" "scalar (unat r)" by linarith
  then show ?thesis
  proof cases
    case 1
    then show ?thesis by (simp add: AppendRune_def rune_tests enc_bytes_def scalar_small enc_def shr_bytes)
  next
    case 2
    then have "unat r div 64 < 32" by simp
    then have "[t2 OR shr_byte r 6, tx OR (shr_byte r 0 AND maskx)] = map of_nat (enc (unat r))"
      using 2 by (simp only: shr_bytes lead_bytes) (simp add: enc_def)
    then show ?thesis
      using 2 by (simp add: AppendRune_def appendRuneNonASCII_def rune_tests enc_bytes_def scalar_small)
  next
    case 3
    then show ?thesis using enc_rune_3 [of RuneError]
      by (simp add: AppendRune_def appendRuneNonASCII_def rune_tests enc_bytes_def append_3_def RuneError_enc)
  next
    case 4
    then show ?thesis using enc_rune_3 [of r]
      by (simp add: AppendRune_def appendRuneNonASCII_def rune_tests enc_bytes_def append_3_def)
  next
    case 5
    then have "unat r div 262144 < 8" by (simp add: scalar_def)
    then have "[t4 OR shr_byte r 18, tx OR (shr_byte r 12 AND maskx), tx OR (shr_byte r 6 AND maskx),
        tx OR (shr_byte r 0 AND maskx)] = map of_nat (enc (unat r))"
      using 5 by (simp only: shr_bytes lead_bytes) (simp add: enc_def)
    then show ?thesis
      using 5 by (simp add: AppendRune_def appendRuneNonASCII_def rune_tests enc_bytes_def)
  qed
qed

lemma list_ge2: "2 \<le> length p \<Longrightarrow> \<exists>a b q. p = a # b # q"
  by (cases p; cases "tl p") auto

lemma list_ge3: "3 \<le> length p \<Longrightarrow> \<exists>a b c q. p = a # b # c # q"
  by (cases p; cases "tl p"; cases "tl (tl p)") auto

lemma list_ge4: "4 \<le> length p \<Longrightarrow> \<exists>a b c d q. p = a # b # c # d # q"
  by (cases p; cases "tl p"; cases "tl (tl p)"; cases "tl (tl (tl p))") auto

lemma EncodeRune_3_write:
  "EncodeRune_3 p r =
    (if length p < 3 then None
     else Some ([t3 OR shr_byte r 12, tx OR (shr_byte r 6 AND maskx), tx OR (shr_byte r 0 AND maskx)] @ drop 3 p, 3))"
  using list_ge3 [of p] by (auto simp: EncodeRune_3_def numeral_3_eq_3)

text \<open>\<open>EncodeRune\<close> writes what \<open>AppendRune\<close> appends.\<close>

lemma EncodeRune_Append:
  "EncodeRune p r =
    (let e = AppendRune [] r in if length p < length e then None else Some (e @ drop (length e) p, length e))"
proof -
  consider "unat r < 0x80" | "0x80 \<le> unat r" "unat r < 0x800" | "0x800 \<le> unat r" "\<not> scalar (unat r)"
    | "0x800 \<le> unat r" "scalar (unat r)" "unat r < 0x10000"
    | "0x10000 \<le> unat r" "scalar (unat r)" by linarith
  then show ?thesis
  proof cases
    case 1
    then show ?thesis by (cases p) (simp_all add: EncodeRune_def AppendRune_def rune_tests)
  next
    case 2
    then show ?thesis using list_ge2 [of p]
      by (auto simp: EncodeRune_def AppendRune_def appendRuneNonASCII_def rune_tests)
  next
    case 3
    then show ?thesis
      by (simp add: EncodeRune_def AppendRune_def appendRuneNonASCII_def rune_tests EncodeRune_3_write append_3_def numeral_3_eq_3)
  next
    case 4
    then show ?thesis
      by (simp add: EncodeRune_def AppendRune_def appendRuneNonASCII_def rune_tests EncodeRune_3_write append_3_def numeral_3_eq_3)
  next
    case 5
    then show ?thesis using list_ge4 [of p]
      by (auto simp: EncodeRune_def AppendRune_def appendRuneNonASCII_def rune_tests)
  qed
qed

lemma sint_rune:
  obtains n where "unat (r :: rune) = n" "n < 4294967296"
    "sint r = (if n < 2147483648 then int n else int n - 4294967296)"
proof (rule that [OF refl])
  show l: "unat r < 4294967296" using unsigned_less [of r] by simp
  define n where "n = unat r"
  have n: "uint r = int n" "n < 4294967296" using l by (simp_all add: n_def)
  have "(int n + 2147483648) mod 4294967296 =
      (if n < 2147483648 then int n + 2147483648 else int n - 2147483648)"
  proof (cases "n < 2147483648")
    case False
    then have "(int n - 2147483648 + 4294967296) mod 4294967296 = int n - 2147483648"
      using n(2) by (simp only: mod_add_self2) simp
    then show ?thesis using False by (simp add: add.commute)
  qed simp
  then show "sint r = (if unat r < 2147483648 then int (unat r) else int (unat r) - 4294967296)"
    unfolding n_def [symmetric]
    by (simp add: sint_uint signed_take_bit_eq_take_bit_shift take_bit_eq_mod n(1))
qed

lemma RuneLen_enc: "RuneLen r = (if scalar (unat r) then int (length (enc_bytes r)) else -1)"
proof -
  obtain n where n: "unat r = n" "n < 4294967296" "sint r = (if n < 2147483648 then int n else int n - 4294967296)"
    by (rule sint_rune)
  show ?thesis
    using n(2) unfolding RuneLen_def enc_bytes_def n(1,3)
    by (auto simp: Let_def enc_def scalar_def rune1Max_def rune2Max_def
        rune3Max_def MaxRune_def surrogateMin_def surrogateMax_def)
qed

lemma ValidRune_iff: "ValidRune r \<longleftrightarrow> scalar (unat r)"
proof -
  obtain n where n: "unat r = n" "n < 4294967296" "sint r = (if n < 2147483648 then int n else int n - 4294967296)"
    by (rule sint_rune)
  show ?thesis
    using n(2) unfolding ValidRune_def n(1,3)
    by (auto simp: Let_def scalar_def MaxRune_def surrogateMin_def surrogateMax_def)
qed

lemma enc_less: "scalar c \<Longrightarrow> b \<in> set (enc c) \<Longrightarrow> b < 256"
  by (auto simp: enc_def scalar_def split: if_splits)

lemma bytes_of_nat: "(\<forall>b \<in> set bs. b < 256) \<Longrightarrow> bytes (map of_nat bs) = bs"
  by (induction bs) (simp_all add: unat_of_nat_small)

lemma bytes_enc_bytes: "bytes (enc_bytes r) = enc (if scalar (unat r) then unat r else 0xFFFD)"
  unfolding enc_bytes_def by (rule bytes_of_nat) (use enc_less RuneError_enc in auto)

lemma bytes_inj: "bytes p = bytes q \<Longrightarrow> p = q"
  by (erule map_injective) (simp add: inj_def word_unat_eq_iff)

lemma DecodeRune_enc_bytes:
  "DecodeRune (enc_bytes r @ p) = (if scalar (unat r) then r else RuneError, length (enc_bytes r))"
proof -
  define c where "c = (if scalar (unat r) then unat r else 0xFFFD)"
  have c: "scalar c" "bytes (enc_bytes r) = enc c"
    by (simp_all add: c_def RuneError_enc bytes_enc_bytes)
  then have "dv (bytes (enc_bytes r @ p)) = Some (c, length (enc c))" by (simp add: dv_complete)
  moreover have "length (enc c) = length (enc_bytes r)" by (simp add: c(2) [symmetric])
  moreover have "of_nat c = (if scalar (unat r) then r else RuneError)" by (simp add: c_def RuneError_def)
  ultimately show ?thesis unfolding DecodeRune_dv by simp
qed
end
