(* ===== verification/Utf8Valid.thy ===== *)
theory Utf8Valid
  imports Utf8
begin

text \<open>
  The second half of \<open>unicode/utf8\<close>: counting, validation, \<open>FullRune\<close> and decoding the last rune
  are related to the encoding of theory Utf8.
\<close>

subsection \<open>Counting and validating: correctness\<close>

text \<open>What a \<open>range\<close> over the bytes yields: the runes that repeated decoding gives.\<close>

lemma DecodeRune_width: "p \<noteq> [] \<Longrightarrow> 1 \<le> snd (DecodeRune p) \<and> snd (DecodeRune p) \<le> length p"
proof -
  assume p: "p \<noteq> []"
  show ?thesis
  proof (cases "dv (bytes p)")
    case None
    then show ?thesis using p by (simp add: DecodeRune_dv Suc_le_eq)
  next
    case (Some cn)
    obtain c n where cn: "cn = (c, n)" by (cases cn)
    then have *: "n = length (enc c)" "take n (bytes p) = enc c" using Some dv_iff by blast+
    then have "length (take n (bytes p)) = n" by simp
    then show ?thesis using Some * enc_length [of c] unfolding cn DecodeRune_dv by simp
  qed
qed

lemma DecodeRune_progress: "p \<noteq> [] \<Longrightarrow> length p - snd (DecodeRune p) < length p"
  using DecodeRune_width [of p] by (cases p) auto

function range_runes :: "uint8 list \<Rightarrow> rune list" where
  "range_runes p = (if p = [] then [] else fst (DecodeRune p) # range_runes (drop (snd (DecodeRune p)) p))"
  by pat_completeness auto
termination by (relation "measure length") (auto simp: DecodeRune_progress)

declare range_runes.simps [simp del]

lemma seq_ok_dv:
  assumes i: "i < length p" and b: "\<not> unat (p ! i) < 128" and x: "first ! unat (p ! i) \<noteq> xx"
  defines "sz \<equiv> unat (first ! unat (p ! i) AND 7)"
  shows "map_option snd (dv (bytes (drop i p))) =
    (if i + sz > length p \<or> \<not> seq_ok p i (first ! unat (p ! i)) sz then None else Some sz)"
proof -
  define a where "a = unat (p ! i)"
  have a: "194 \<le> a" "a < 245" using b x first_eq_xx [OF unat8_less, of "p ! i"] unfolding a_def by auto
  have sz: "sz = seq_len a" using first_len [OF a] by (simp add: sz_def a_def)
  note m = seq_mods(4) [OF a]
  have d: "bytes (drop i p) = a # bytes (drop (i + 1) p)"
    using i by (simp add: a_def Cons_nth_drop_Suc [symmetric])
  have l: "length (bytes (drop (i + 1) p)) + 1 < seq_len a \<longleftrightarrow> i + sz > length p"
    using i m by (auto simp: sz)
  have n: "i + 1 + k < length p \<Longrightarrow> bytes (drop (i + 1) p) ! k = unat (p ! (i + 1 + k))" for k
    by simp
  have s: "seq_ok p i (first ! a) sz \<longleftrightarrow>
      \<not> (unat (p ! (i + 1)) < lo2 a \<or> hi2 a < unat (p ! (i + 1))) \<and>
      (seq_len a = 2 \<or> \<not> (unat (p ! (i + 2)) < 128 \<or> 191 < unat (p ! (i + 2))) \<and>
      (seq_len a = 3 \<or> \<not> (unat (p ! (i + 3)) < 128 \<or> 191 < unat (p ! (i + 3)))))"
    unfolding seq_ok_def Let_def first_accept [OF a] locb_iff acceptRange.simps byte_less [OF lo2_hi2_less(1)]
      byte_greater [OF lo2_hi2_less(2)] sz by auto
  show ?thesis
  proof (cases "i + sz > length p")
    case True
    then show ?thesis using a l unfolding d dv.simps by simp
  next
    case False
    then show ?thesis
      unfolding a_def [symmetric] s d dv.simps l using a m n [of 0] n [of 1] n [of 2] by (auto simp: sz numeral_3_eq_3)
  qed
qed

lemma ascii_dv: "i < length p \<Longrightarrow> unat (p ! i) < 128 \<Longrightarrow> dv (bytes (drop i p)) = Some (unat (p ! i), 1)"
  by (simp add: Cons_nth_drop_Suc [symmetric] dv.simps)

lemma xx_dv: "i < length p \<Longrightarrow> \<not> unat (p ! i) < 128 \<Longrightarrow> first ! unat (p ! i) = xx \<Longrightarrow> dv (bytes (drop i p)) = None"
  using first_eq_xx [OF unat8_less, of "p ! i"] by (auto simp: Cons_nth_drop_Suc [symmetric] dv.simps)

lemma width_dv: "p \<noteq> [] \<Longrightarrow> snd (DecodeRune p) = (case map_option snd (dv (bytes p)) of Some n \<Rightarrow> n | None \<Rightarrow> 1)"
  unfolding DecodeRune_dv by (simp split: option.splits)

lemma RuneCount_step:
  assumes i: "i < length p"
  shows "RuneCount_loop p i n = RuneCount_loop p (i + snd (DecodeRune (drop i p))) (n + 1)"
proof -
  have w: "snd (DecodeRune (drop i p)) = (case map_option snd (dv (bytes (drop i p))) of Some n \<Rightarrow> n | None \<Rightarrow> 1)"
    using i by (intro width_dv) simp
  consider "unat (p ! i) < 128" | "\<not> unat (p ! i) < 128" "first ! unat (p ! i) = xx"
    | "\<not> unat (p ! i) < 128" "first ! unat (p ! i) \<noteq> xx" by blast
  then show ?thesis
  proof cases
    case 1
    then show ?thesis using i ascii_dv [OF i 1] unfolding w by (subst RuneCount_loop.simps) (simp add: RuneSelf_def)
  next
    case 2
    then show ?thesis using i xx_dv [OF i 2] unfolding w by (subst RuneCount_loop.simps) (simp add: RuneSelf_def)
  next
    case 3
    show ?thesis unfolding w seq_ok_dv [OF i 3]
      using i 3 by (subst RuneCount_loop.simps) (auto simp: RuneSelf_def Let_def)
  qed
qed

lemma RuneCount_loop_range: "RuneCount_loop p i n = n + length (range_runes (drop i p))"
proof (induction "length p - i" arbitrary: i n rule: less_induct)
  case less
  show ?case
  proof (cases "i < length p")
    case True
    have "1 \<le> snd (DecodeRune (drop i p))" using DecodeRune_width [of "drop i p"] True by simp
    then have "length p - (i + snd (DecodeRune (drop i p))) < length p - i" using True by simp
    note IH = less [OF this]
    show ?thesis
      unfolding RuneCount_step [OF True] IH using True
      by (subst (2) range_runes.simps) (simp add: add.commute)
  next
    case False
    then show ?thesis by (simp add: RuneCount_loop.simps range_runes.simps)
  qed
qed

lemma RuneCountInString_loop_eq: "RuneCountInString_loop p i n = RuneCount_loop p i n"
proof (induction p i n rule: RuneCount_loop.induct)
  case (1 p i n)
  show ?case
    by (subst RuneCountInString_loop.simps, subst RuneCount_loop.simps) (use 1 in \<open>simp add: Let_def\<close>)
qed

lemma Valid_step:
  assumes i: "i < length p"
  shows "Valid_loop p i \<longleftrightarrow> dv (bytes (drop i p)) \<noteq> None \<and> Valid_loop p (i + snd (DecodeRune (drop i p)))"
proof -
  have w: "snd (DecodeRune (drop i p)) = (case map_option snd (dv (bytes (drop i p))) of Some n \<Rightarrow> n | None \<Rightarrow> 1)"
    using i by (intro width_dv) simp
  have o: "dv (bytes (drop i p)) \<noteq> None \<longleftrightarrow> map_option snd (dv (bytes (drop i p))) \<noteq> None" by simp
  consider "unat (p ! i) < 128" | "\<not> unat (p ! i) < 128" "first ! unat (p ! i) = xx"
    | "\<not> unat (p ! i) < 128" "first ! unat (p ! i) \<noteq> xx" by blast
  then show ?thesis
  proof cases
    case 1
    then show ?thesis using i ascii_dv [OF i 1] unfolding w by (subst Valid_loop.simps) (simp add: RuneSelf_def)
  next
    case 2
    then show ?thesis using i xx_dv [OF i 2] unfolding w by (subst Valid_loop.simps) (simp add: RuneSelf_def)
  next
    case 3
    show ?thesis unfolding o w seq_ok_dv [OF i 3]
      using i 3 by (subst Valid_loop.simps) (auto simp: RuneSelf_def Let_def)
  qed
qed

text \<open>Well-formed: a sequence of encoded scalar values.\<close>

definition utf8 :: "uint8 list \<Rightarrow> bool" where
  "utf8 p \<longleftrightarrow> (\<exists>cs. list_all scalar cs \<and> bytes p = concat (map enc cs))"

lemma utf8_Nil: "utf8 []"
  unfolding utf8_def by (rule exI [of _ "[]"]) simp

lemma utf8_unfold:
  assumes "p \<noteq> []"
  shows "utf8 p \<longleftrightarrow> dv (bytes p) \<noteq> None \<and> utf8 (drop (snd (DecodeRune p)) p)"
proof
  assume "utf8 p"
  then obtain cs where cs: "list_all scalar cs" "bytes p = concat (map enc cs)" unfolding utf8_def by blast
  with assms obtain c cs' where c: "cs = c # cs'" by (cases cs) auto
  then have d: "dv (bytes p) = Some (c, length (enc c))" using cs by (simp add: dv_complete)
  then have "bytes (drop (snd (DecodeRune p)) p) = concat (map enc cs')"
    using cs(2) c by (simp add: DecodeRune_dv drop_map [symmetric])
  then show "dv (bytes p) \<noteq> None \<and> utf8 (drop (snd (DecodeRune p)) p)"
    using d cs(1) c unfolding utf8_def by auto
next
  assume *: "dv (bytes p) \<noteq> None \<and> utf8 (drop (snd (DecodeRune p)) p)"
  then obtain c n where d: "dv (bytes p) = Some (c, n)" by auto
  from * obtain cs where cs: "list_all scalar cs" "bytes (drop (snd (DecodeRune p)) p) = concat (map enc cs)"
    unfolding utf8_def by blast
  have s: "scalar c" "take n (bytes p) = enc c" using d dv_iff by blast+
  have "drop n (bytes p) = concat (map enc cs)" using cs(2) d by (simp add: DecodeRune_dv drop_map)
  then have "bytes p = concat (map enc (c # cs))" using s(2) by (metis append_take_drop_id concat.simps(2) list.simps(9))
  then show "utf8 p" unfolding utf8_def using s(1) cs(1) by (intro exI [of _ "c # cs"]) simp
qed

lemma Valid_loop_utf8: "Valid_loop p i \<longleftrightarrow> utf8 (drop i p)"
proof (induction "length p - i" arbitrary: i rule: less_induct)
  case less
  show ?case
  proof (cases "i < length p")
    case True
    then have ne: "drop i p \<noteq> []" by simp
    have "1 \<le> snd (DecodeRune (drop i p))" using DecodeRune_width [OF ne] by simp
    then have "length p - (i + snd (DecodeRune (drop i p))) < length p - i" using True by simp
    note IH = less [OF this]
    show ?thesis
      unfolding Valid_step [OF True] IH utf8_unfold [OF ne] by (simp add: add.commute)
  next
    case False
    then show ?thesis by (simp add: Valid_loop.simps utf8_Nil)
  qed
qed

lemma utf8_ascii: "unat b < 128 \<Longrightarrow> utf8 (b # p) \<longleftrightarrow> utf8 p"
  by (subst utf8_unfold) (simp_all add: DecodeRune_dv dv.simps)

lemma byte_high: "bit (b :: uint8) 7 \<longleftrightarrow> 128 \<le> unat b"
proof -
  have b: "bit b 7 \<longleftrightarrow> odd (unat b div 128)"
  proof -
    have "bit b 7 \<longleftrightarrow> bit (unat b) 7" by (simp add: bit_unsigned_iff)
    then show ?thesis by (simp add: bit_iff_odd)
  qed
  show ?thesis
  proof (cases "unat b < 128")
    case False
    then have "unat b div 128 = 1" using unat8_less [of b] by (intro div_nat_eqI) simp_all
    then show ?thesis using False b by simp
  qed (simp add: b)
qed

text \<open>Eight bytes at once: the mask sees a byte from \<open>0x80\<close> on in either half.\<close>

lemma no_high_byte:
  assumes "((ucast b0 OR push_bit 8 (ucast b1) OR push_bit 16 (ucast b2) OR push_bit 24 (ucast b3))
     OR (ucast c0 OR push_bit 8 (ucast c1) OR push_bit 16 (ucast c2) OR push_bit 24 (ucast c3)) :: uint32) AND 0x80808080 = 0"
  shows "list_all (\<lambda>b. unat b < 128) [b0, b1, b2, b3, c0, c1, c2, c3 :: uint8]"
proof -
  have "\<not> bit ((ucast b0 OR push_bit 8 (ucast b1) OR push_bit 16 (ucast b2) OR push_bit 24 (ucast b3))
     OR (ucast c0 OR push_bit 8 (ucast c1) OR push_bit 16 (ucast c2) OR push_bit 24 (ucast c3)) :: uint32) k"
    if "bit (0x80808080 :: uint32) k" for k
    using that arg_cong [OF assms, of "\<lambda>w. bit w k"] by (simp add: bit_and_iff)
  from this [of 7] this [of 15] this [of 23] this [of 31] show ?thesis
    by (simp add: bit_or_iff bit_push_bit_iff bit_unsigned_iff byte_high not_le)
qed

lemma list_ge8: "8 \<le> length p \<Longrightarrow> \<exists>a b c d e f g h q. p = a # b # c # d # e # f # g # h # q"
  using list_ge4 [of p] list_ge4 [of "drop 4 p"] by auto

lemma utf8_Valid_ascii: "utf8 (Valid_ascii p) \<longleftrightarrow> utf8 p"
proof (induction p rule: Valid_ascii.induct)
  case (1 p)
  show ?case
  proof (cases "8 \<le> length p")
    case True
    then obtain b0 b1 b2 b3 c0 c1 c2 c3 q where p: "p = b0 # b1 # b2 # b3 # c0 # c1 # c2 # c3 # q"
      using list_ge8 by blast
    show ?thesis
    proof (cases "((ucast b0 OR push_bit 8 (ucast b1) OR push_bit 16 (ucast b2) OR push_bit 24 (ucast b3))
        OR (ucast c0 OR push_bit 8 (ucast c1) OR push_bit 16 (ucast c2) OR push_bit 24 (ucast c3)) :: uint32) AND 0x80808080 = 0")
      case low: True
      have "Valid_ascii p = Valid_ascii q" using low by (subst Valid_ascii.simps) (simp add: p)
      moreover have "utf8 (Valid_ascii q) \<longleftrightarrow> utf8 q" using 1 [OF True refl refl] low by (simp add: p)
      moreover have "utf8 p \<longleftrightarrow> utf8 q" using no_high_byte [OF low] by (simp add: p utf8_ascii)
      ultimately show ?thesis by simp
    next
      case False
      then have "Valid_ascii p = p" by (subst Valid_ascii.simps) (simp add: p)
      then show ?thesis by simp
    qed
  qed (simp add: Valid_ascii.simps)
qed

lemma ValidString_ascii_eq: "ValidString_ascii p = Valid_ascii p"
proof (induction p rule: Valid_ascii.induct)
  case (1 p)
  show ?case by (subst ValidString_ascii.simps, subst Valid_ascii.simps) (use 1 in \<open>simp add: Let_def\<close>)
qed

lemma ValidString_loop_eq: "ValidString_loop p i = Valid_loop p i"
proof (induction p i rule: Valid_loop.induct)
  case (1 p i)
  show ?case by (subst ValidString_loop.simps, subst Valid_loop.simps) (use 1 in \<open>simp add: Let_def\<close>)
qed

subsection \<open>Full runes and the last rune\<close>

lemma DecodeRune_wide:
  assumes "194 \<le> unat b" "unat b < 245" "seq_len (unat b) \<le> length p + 1"
    "lo2 (unat b) \<le> unat (p ! 0)" "unat (p ! 0) \<le> hi2 (unat b)"
    "3 \<le> seq_len (unat b) \<Longrightarrow> 128 \<le> unat (p ! 1) \<and> unat (p ! 1) \<le> 191"
    "4 \<le> seq_len (unat b) \<Longrightarrow> 128 \<le> unat (p ! 2) \<and> unat (p ! 2) \<le> 191"
  shows "snd (DecodeRune (b # p)) = seq_len (unat b)"
proof -
  have "\<not> (unat b < 194 \<or> 245 \<le> unat b)" using assms(1,2) by simp
  note seq = DecodeRune_seq [OF this, of p]
  from seq_mods(4) [OF assms(1,2)] assms(3-) show ?thesis
    unfolding seq by (auto simp: Let_def)
qed

lemma FullRune_Cons:
  assumes "194 \<le> unat b" "unat b < 245"
  shows "FullRune (b # p) \<longleftrightarrow> seq_len (unat b) \<le> length p + 1 \<or>
    1 \<le> length p \<and> (unat (p ! 0) < lo2 (unat b) \<or> hi2 (unat b) < unat (p ! 0)) \<or>
    2 \<le> length p \<and> (unat (p ! 1) < 128 \<or> 191 < unat (p ! 1))"
  unfolding FullRune_def Let_def nth_Cons_0 first_len [OF assms] first_accept [OF assms] locb_iff
    acceptRange.simps byte_less [OF lo2_hi2_less(1)] byte_greater [OF lo2_hi2_less(2)]
  by (auto simp: nth_Cons' Suc_le_eq)

lemma FullRune_special: "unat b < 194 \<or> 245 \<le> unat b \<Longrightarrow> FullRune (b # p)"
  unfolding FullRune_def Let_def nth_Cons_0 by (auto simp: first_val asc_def xx_def)

lemma completable:
  assumes b: "194 \<le> unat b" "unat b < 245" and n: "\<not> FullRune (b # p)"
  shows "\<exists>q. DecodeRune (b # p @ q) \<noteq> DecodeRune (b # p)"
proof -
  note s = seq_mods(4) [OF b]
  have len: "length p + 1 < seq_len (unat b)"
    and p0: "1 \<le> length p \<Longrightarrow> lo2 (unat b) \<le> unat (p ! 0) \<and> unat (p ! 0) \<le> hi2 (unat b)"
    and p1: "2 \<le> length p \<Longrightarrow> 128 \<le> unat (p ! 1) \<and> unat (p ! 1) \<le> 191"
    using n unfolding FullRune_Cons [OF b] by auto
  have "\<not> (unat b < 194 \<or> 245 \<le> unat b)" using b by simp
  then have d: "snd (DecodeRune (b # p)) = 1" using DecodeRune_seq [of b p] len by simp
  define q where "q = drop (length p) [of_nat (lo2 (unat b)), 0x80, 0x80 :: uint8]"
  have lo: "unat (of_nat (lo2 (unat b)) :: uint8) = lo2 (unat b)" "lo2 (unat b) \<le> hi2 (unat b)"
    by (simp_all add: lo2_def hi2_def)
  have "snd (DecodeRune (b # p @ q)) = seq_len (unat b)"
  proof (rule DecodeRune_wide [OF b])
    consider "p = []" | x where "p = [x]" | x y where "p = [x, y]"
      using len s by (cases p; cases "tl p"; cases "tl (tl p)") auto
    then have "seq_len (unat b) \<le> length (p @ q) + 1 \<and> lo2 (unat b) \<le> unat ((p @ q) ! 0) \<and>
        unat ((p @ q) ! 0) \<le> hi2 (unat b) \<and> 128 \<le> unat ((p @ q) ! 1) \<and> unat ((p @ q) ! 1) \<le> 191 \<and>
        128 \<le> unat ((p @ q) ! 2) \<and> unat ((p @ q) ! 2) \<le> 191"
      by cases (use p0 p1 lo s in \<open>auto simp: q_def\<close>)
    then show "seq_len (unat b) \<le> length (p @ q) + 1" "lo2 (unat b) \<le> unat ((p @ q) ! 0)"
      "unat ((p @ q) ! 0) \<le> hi2 (unat b)"
      "128 \<le> unat ((p @ q) ! 1) \<and> unat ((p @ q) ! 1) \<le> 191"
      "128 \<le> unat ((p @ q) ! 2) \<and> unat ((p @ q) ! 2) \<le> 191" by simp_all
  qed
  then have "snd (DecodeRune (b # p @ q)) \<noteq> snd (DecodeRune (b # p))" using d s by auto
  then show ?thesis by metis
qed

lemma settled:
  assumes "FullRune (b # p)"
  shows "DecodeRune (b # p @ q) = DecodeRune (b # p)"
proof (cases "unat b < 194 \<or> 245 \<le> unat b")
  case True
  then show ?thesis by (simp only: DecodeRune_special)
next
  case False
  then have b: "194 \<le> unat b" "unat b < 245" by simp_all
  note s = seq_mods(4) [OF b]
  have "seq_len (unat b) \<le> length p + 1 \<or>
    1 \<le> length p \<and> length p + 1 < seq_len (unat b) \<and> (unat (p ! 0) < lo2 (unat b) \<or> hi2 (unat b) < unat (p ! 0)) \<or>
    2 \<le> length p \<and> length p + 1 < seq_len (unat b) \<and> (unat (p ! 1) < 128 \<or> 191 < unat (p ! 1))"
    using assms unfolding FullRune_Cons [OF b] by linarith
  then show ?thesis
  proof (elim disjE)
    assume "seq_len (unat b) \<le> length p + 1"
    then show ?thesis unfolding DecodeRune_seq [OF False] Let_def using s by (elim disjE; cases p; cases "tl p"; cases "tl (tl p)") simp_all
  next
    assume "1 \<le> length p \<and> length p + 1 < seq_len (unat b) \<and> (unat (p ! 0) < lo2 (unat b) \<or> hi2 (unat b) < unat (p ! 0))"
    then show ?thesis unfolding DecodeRune_seq [OF False] Let_def by (cases p) auto
  next
    assume "2 \<le> length p \<and> length p + 1 < seq_len (unat b) \<and> (unat (p ! 1) < 128 \<or> 191 < unat (p ! 1))"
    then show ?thesis unfolding DecodeRune_seq [OF False] Let_def by (cases p; cases "tl p") auto
  qed
qed

lemma FullRuneInString_eq: "FullRuneInString = FullRune"
  by (rule ext) (simp only: FullRuneInString_def FullRune_def)

lemma RuneStart_iff: "RuneStart b \<longleftrightarrow> unat b < 128 \<or> 192 \<le> unat b"
proof -
  have c: "(0xC0 :: uint8) = NOT (mask 6)" by (simp add: mask_eq_exp_minus_1)
  have "b AND 0xC0 = push_bit 6 (drop_bit 6 b)"
    unfolding c by (rule bit_word_eqI) (auto simp: bit_simps simp del: mask_numeral)
  moreover have "unat (push_bit 6 (drop_bit 6 b)) = unat b div 64 * 64"
    using unat8_less [of b]
    unfolding unsigned_push_bit_eq unat_drop_bit_eq by (simp add: take_bit_eq_mod push_bit_eq_mult drop_bit_eq_div)
  ultimately have u: "unat (b AND 0xC0) = unat b div 64 * 64" by (simp only:)
  have "RuneStart b \<longleftrightarrow> unat (b AND 0xC0) \<noteq> 128"
    unfolding RuneStart_def word_unat_eq_iff by simp
  also have "\<dots> \<longleftrightarrow> unat b div 64 \<noteq> 2" unfolding u by simp
  also have "\<dots> \<longleftrightarrow> unat b < 128 \<or> 192 \<le> unat b" by (rule iffI; linarith)
  finally show ?thesis .
qed

lemma DecodeLastRune_loop_spec:
  assumes "start < int (length p)" "0 \<le> lim"
  shows "let s = DecodeLastRune_loop p start lim in
    s \<le> start \<and> (lim \<le> start + 1 \<longrightarrow> lim \<le> s + 1) \<and> (lim \<le> s \<longrightarrow> RuneStart (p ! nat s)) \<and>
    (\<forall>k. s < k \<and> k \<le> start \<longrightarrow> \<not> RuneStart (p ! nat k))"
  using assms
proof (induction p start lim rule: DecodeLastRune_loop.induct)
  case (1 p start lim)
  show ?case
  proof (cases "start \<ge> lim \<and> \<not> RuneStart (p ! nat start)")
    case True
    then have e: "DecodeLastRune_loop p start lim = DecodeLastRune_loop p (start - 1) lim"
      by (subst DecodeLastRune_loop.simps) simp
    have IH: "let s = DecodeLastRune_loop p (start - 1) lim in
      s \<le> start - 1 \<and> (lim \<le> start - 1 + 1 \<longrightarrow> lim \<le> s + 1) \<and> (lim \<le> s \<longrightarrow> RuneStart (p ! nat s)) \<and>
      (\<forall>k. s < k \<and> k \<le> start - 1 \<longrightarrow> \<not> RuneStart (p ! nat k))"
      using True 1 by simp
    have "k \<le> start - 1 \<or> k = start" if "k \<le> start" for k using that by linarith
    then show ?thesis using IH True unfolding e Let_def by force
  next
    case False
    then have "DecodeLastRune_loop p start lim = start" by (subst DecodeLastRune_loop.simps) auto
    then show ?thesis using False by auto
  qed
qed

lemma enc_cont: "0 < k \<Longrightarrow> k < length (enc c) \<Longrightarrow> 128 \<le> enc c ! k \<and> enc c ! k < 192"
  by (auto simp: enc_def less_Suc_eq nth_Cons' split: if_splits)

lemma enc_lead: "scalar c \<Longrightarrow> enc c ! 0 < 128 \<and> length (enc c) = 1 \<or> 192 \<le> enc c ! 0 \<and> 2 \<le> length (enc c)"
  by (auto simp: enc_def)

lemma DecodeRune_single: "128 \<le> unat b \<Longrightarrow> DecodeRune [b] = (RuneError, 1)"
  by (auto simp: DecodeRune_dv dv.simps seq_len_def)

definition last_start :: "uint8 list \<Rightarrow> nat" where
  "last_start p = nat (DecodeLastRune_loop p (int (length p) - 2) (if int (length p) - 4 < 0 then 0 else int (length p) - 4))"

lemma DecodeLastRune_unfold:
  assumes "p \<noteq> []"
  shows "DecodeLastRune p =
    (if unat (last p) < 128 then (of_nat (unat (last p)), 1)
     else let (r, sz) = DecodeRune (drop (last_start p) p)
       in if last_start p + sz \<noteq> length p then (RuneError, 1) else (r, sz))"
proof -
  have "nat (int (length p) - 1) = length p - 1" by linarith
  then have l: "p ! nat (int (length p) - 1) = last p"
    using assms by (simp add: last_conv_nth)
  have u: "sint (ucast (last p) :: rune) < RuneSelf \<longleftrightarrow> unat (last p) < 128"
  proof -
    obtain n where n: "unat (ucast (last p) :: rune) = n"
      "sint (ucast (last p) :: rune) = (if n < 2147483648 then int n else int n - 4294967296)" by (rule sint_rune)
    have "unat (of_nat (unat (last p)) :: rune) = unat (last p)"
      by (rule unat_of_nat_small) (use unat8_less [of "last p"] in simp)
    then have "n = unat (last p)" using n(1) unfolding ucast_byte by (simp only:)
    then show ?thesis using n(2) unat8_less [of "last p"] by (simp add: RuneSelf_def del: of_nat_unat)
  qed
  have s: "(if DecodeLastRune_loop p x y < 0 then 0 else DecodeLastRune_loop p x y) = int (nat (DecodeLastRune_loop p x y))" for x y
    by simp
  define ls where "ls = DecodeLastRune_loop p (int (length p) - 1 - 1) (if int (length p) - 4 < 0 then 0 else int (length p) - 4)"
  have ls: "last_start p = nat ls" by (simp add: last_start_def ls_def)
  show ?thesis
  proof (cases "unat (last p) < 128")
    case True
    then show ?thesis using assms unfolding DecodeLastRune_def Let_def l u by (simp add: RuneSelf_def)
  next
    case False
    have e: "int (nat ls) + int sz \<noteq> int (length p) \<longleftrightarrow> nat ls + sz \<noteq> length p" for sz by linarith
    show ?thesis using assms False
      unfolding DecodeLastRune_def Let_def l u UTFMax_def ls_def [symmetric] s ls nat_int e
      by (simp split del: if_split)
  qed
qed

lemma last_start_bounds:
  assumes "p \<noteq> []"
  shows "last_start p < length p"
proof -
  have "let s = DecodeLastRune_loop p (int (length p) - 2) (if int (length p) - 4 < 0 then 0 else int (length p) - 4) in
      s \<le> int (length p) - 2"
    using DecodeLastRune_loop_spec [of "int (length p) - 2" p "if int (length p) - 4 < 0 then 0 else int (length p) - 4"]
    unfolding Let_def by auto
  then show ?thesis using assms unfolding last_start_def Let_def by (cases p) auto
qed

lemma last_start_enc:
  assumes p: "bytes p = q @ enc c" and c: "scalar c" and ne: "\<not> unat (last p) < 128"
  shows "last_start p = length q"
proof -
  have len: "length p = length q + length (enc c)" using arg_cong [OF p, of length] by simp
  have nth: "unat (p ! (length q + k)) = enc c ! k" if "k < length (enc c)" for k
    using that len nth_map [of "length q + k" p unat] by (simp add: p nth_append)
  have "unat (last p) = enc c ! (length (enc c) - 1)"
    using nth [of "length (enc c) - 1"] enc_length(1) [of c] len by (subst last_conv_nth) auto
  then have two: "2 \<le> length (enc c)" using ne enc_lead [OF c] enc_length(1) [of c] by (cases "length (enc c) = 1") auto
  have "0 < length (enc c)" using two by linarith
  then have "unat (p ! length q) = enc c ! 0" using nth [of 0] by simp
  then have st: "RuneStart (p ! length q)" using enc_lead [OF c] by (auto simp: RuneStart_iff)
  have ct: "\<not> RuneStart (p ! nat k)" if "int (length q) < k" "k < int (length p)" for k
  proof -
    have "nat k = length q + (nat k - length q)" "0 < nat k - length q" "nat k - length q < length (enc c)"
      using that len by linarith+
    then show ?thesis using nth [of "nat k - length q"] enc_cont [of "nat k - length q" c] by (simp add: RuneStart_iff)
  qed
  define lim where "lim = (if int (length p) - 4 < 0 then 0 else int (length p) - 4)"
  have lim: "0 \<le> lim" "lim \<le> int (length q)" using enc_length(2) [of c] len by (auto simp: lim_def)
  define s where "s = DecodeLastRune_loop p (int (length p) - 2) lim"
  have s: "s \<le> int (length p) - 2" "lim \<le> s + 1" "lim \<le> s \<longrightarrow> RuneStart (p ! nat s)"
    "\<forall>k. s < k \<and> k \<le> int (length p) - 2 \<longrightarrow> \<not> RuneStart (p ! nat k)"
    using DecodeLastRune_loop_spec [of "int (length p) - 2" p lim] lim two len unfolding Let_def s_def [symmetric] by auto
  have "\<not> s < int (length q)"
  proof
    assume "s < int (length q)"
    then have "\<not> RuneStart (p ! nat (int (length q)))" using s(4) two len by auto
    then show False using st by simp
  qed
  moreover have "\<not> int (length q) < s" using ct [of s] s(1,3) lim by auto
  ultimately have "s = int (length q)" by linarith
  then show ?thesis unfolding last_start_def lim_def [symmetric] s_def [symmetric] by simp
qed

lemma drop_last: "p \<noteq> [] \<Longrightarrow> drop (length p - 1) p = [last p]"
  by (induction p) (auto simp: drop_Cons')

lemma last_ascii:
  assumes "p \<noteq> []" "unat (last p) < 128"
  shows "DecodeRune (drop (length p - 1) p) = (of_nat (unat (last p)), 1)"
    "bytes p = q @ enc c \<and> scalar c \<Longrightarrow> of_nat (unat (last p)) = (of_nat c :: rune) \<and> 1 = length (enc c)"
proof -
  show "DecodeRune (drop (length p - 1) p) = (of_nat (unat (last p)), 1)"
    unfolding drop_last [OF assms(1)] by (rule trans [OF DecodeRune_special]) (use assms(2) in simp_all)
  assume *: "bytes p = q @ enc c \<and> scalar c"
  have "enc c \<noteq> []" using enc_length(1) [of c] by auto
  then have "unat (last p) = last (enc c)" using * assms(1) last_map [of p unat] by simp
  then have "c < 128" using assms(2) by (auto simp: enc_def split: if_splits)
  then show "of_nat (unat (last p)) = (of_nat c :: rune) \<and> 1 = length (enc c)"
    using \<open>unat (last p) = last (enc c)\<close> by (simp add: enc_def del: of_nat_unat)
qed

lemma DecodeLastRuneInString_loop_eq: "DecodeLastRuneInString_loop p i n = DecodeLastRune_loop p i n"
proof (induction p i n rule: DecodeLastRune_loop.induct)
  case (1 p i n)
  show ?case
    by (subst DecodeLastRuneInString_loop.simps, subst DecodeLastRune_loop.simps) (use 1 in simp)
qed

lemma DecodeLastRuneInString_eq: "DecodeLastRuneInString p = DecodeLastRune p"
  by (simp only: DecodeLastRuneInString_def DecodeLastRune_def DecodeLastRuneInString_loop_eq DecodeRuneInString_eq)

subsection \<open>Properties\<close>

text \<open>C29: decoding (of a \<open>[]byte\<close> or a \<open>string\<close>) returns the scalar value whose encoding is at the
  front, with the length of the encoding, and \<open>RuneError\<close> with width 1 (0 on the empty input) when no
  encoding is: overlong forms, surrogates, values above \<open>MaxRune\<close>, stray and missing continuation
  bytes are all rejected.\<close>

theorem DecodeRune_correct:
  fixes p :: "uint8 list"
  shows "(\<forall>c q. scalar c \<longrightarrow> bytes p = enc c @ q \<longrightarrow> DecodeRune p = (of_nat c, length (enc c))) \<and>
    ((\<nexists>c q. scalar c \<and> bytes p = enc c @ q) \<longrightarrow> DecodeRune p = (RuneError, if p = [] then 0 else 1)) \<and>
    DecodeRuneInString p = DecodeRune p"
proof (intro conjI allI impI)
  fix c q assume "scalar c" "bytes p = enc c @ q"
  then show "DecodeRune p = (of_nat c, length (enc c))" by (simp add: DecodeRune_dv dv_complete)
next
  assume n: "\<nexists>c q. scalar c \<and> bytes p = enc c @ q"
  have "dv (bytes p) = None"
  proof (cases "dv (bytes p)")
    case (Some cn)
    then obtain c k where "dv (bytes p) = Some (c, k)" by (cases cn) auto
    then have "scalar c" "take k (bytes p) = enc c" using dv_sound by blast+
    then have "scalar c \<and> bytes p = enc c @ drop k (bytes p)" by (metis append_take_drop_id)
    then show ?thesis using n by blast
  qed
  then show "DecodeRune p = (RuneError, if p = [] then 0 else 1)" by (simp add: DecodeRune_dv)
qed (simp add: DecodeRuneInString_eq)

theorem DecodeRune_correct_witness:
  "DecodeRune [0xE2, 0x82, 0xAC, 0x21] = (0x20AC, 3) \<and> DecodeRune [] = (RuneError, 0)"
proof -
  have "scalar 0x20AC" "bytes [0xE2, 0x82, 0xAC, 0x21] = enc 0x20AC @ [0x21]"
    by (simp_all add: scalar_def enc_def)
  then have "DecodeRune [0xE2, 0x82, 0xAC, 0x21] = (of_nat 0x20AC, length (enc 0x20AC))"
    using DecodeRune_correct by blast
  moreover have "\<nexists>c q. scalar c \<and> bytes [] = enc c @ q" using enc_length(1) by (auto simp: Suc_le_eq)
  then have "DecodeRune [] = (RuneError, 0)" using DecodeRune_correct [of "[]"] by simp
  ultimately show ?thesis by (simp add: enc_def)
qed

text \<open>C30: encoding and decoding are inverse.  \<open>AppendRune\<close> appends bytes that decode to the rune they
  encode and consume exactly those bytes, whatever follows (a rune that is not a scalar value is
  replaced by \<open>RuneError\<close>); \<open>EncodeRune\<close> writes the same bytes at the front of its buffer and panics
  when they do not fit; \<open>RuneLen\<close> and \<open>ValidRune\<close> agree with it.\<close>

theorem encode_decode:
  "\<exists>e. AppendRune p r = p @ e \<and>
    DecodeRune (e @ q) = (if ValidRune r then r else RuneError, length e) \<and>
    EncodeRune buf r = (if length buf < length e then None else Some (e @ drop (length e) buf, length e)) \<and>
    RuneLen r = (if ValidRune r then int (length e) else -1)"
proof (intro exI conjI)
  show "AppendRune p r = p @ enc_bytes r" by (rule AppendRune_enc)
  show "DecodeRune (enc_bytes r @ q) = (if ValidRune r then r else RuneError, length (enc_bytes r))"
    by (simp add: DecodeRune_enc_bytes ValidRune_iff)
  show "EncodeRune buf r = (if length buf < length (enc_bytes r) then None
      else Some (enc_bytes r @ drop (length (enc_bytes r)) buf, length (enc_bytes r)))"
    by (simp add: EncodeRune_Append AppendRune_enc Let_def)
  show "RuneLen r = (if ValidRune r then int (length (enc_bytes r)) else -1)"
    by (simp add: RuneLen_enc ValidRune_iff)
qed

text \<open>C31: \<open>Valid\<close>, with its eight-bytes-at-a-time prefix scan and its table-driven loop, accepts
  exactly the concatenations of encoded scalar values; \<open>ValidString\<close> does the same.\<close>

theorem Valid_correct:
  "(Valid p \<longleftrightarrow> (\<exists>cs. list_all scalar cs \<and> bytes p = concat (map enc cs))) \<and> ValidString p = Valid p"
  by (simp add: Valid_def ValidString_def ValidString_ascii_eq ValidString_loop_eq Valid_loop_utf8
      utf8_Valid_ascii utf8_def [symmetric])

text \<open>\<open>RuneCount\<close> (\<open>RuneCountInString\<close>) counts the runes that decoding the input from the front
  yields, each invalid byte counted as one \<open>RuneError\<close>.\<close>

theorem RuneCount_correct:
  "RuneCount p = length (range_runes p) \<and> RuneCountInString p = RuneCount p"
  by (simp add: RuneCount_def RuneCountInString_def RuneCountInString_loop_eq RuneCount_loop_range)

text \<open>\<open>FullRune\<close> is true exactly when the input is not empty and no further byte could change
  what \<open>DecodeRune\<close> returns.\<close>

theorem FullRune_correct:
  "(FullRune p \<longleftrightarrow> p \<noteq> [] \<and> (\<forall>q. DecodeRune (p @ q) = DecodeRune p)) \<and> FullRuneInString p = FullRune p"
proof (cases p)
  case (Cons b p')
  show ?thesis
  proof (cases "FullRune (b # p')")
    case True
    then show ?thesis using settled [OF True] by (simp add: Cons FullRuneInString_eq)
  next
    case False
    then have "\<not> (unat b < 194 \<or> 245 \<le> unat b)" using FullRune_special by blast
    then have "\<exists>q. DecodeRune (b # p' @ q) \<noteq> DecodeRune (b # p')"
      using completable [OF _ _ False] by simp
    then show ?thesis using False by (auto simp: Cons FullRuneInString_eq)
  qed
qed (simp add: FullRuneInString_def FullRune_def)

text \<open>\<open>DecodeLastRune\<close> (\<open>DecodeLastRuneInString\<close>) inverts encoding at the end of the input, and in
  every case returns what decoding a suffix of the width it reports gives.\<close>

theorem DecodeLastRune_correct:
  assumes "p \<noteq> []"
  shows "(let (r, n) = DecodeLastRune p in
      1 \<le> n \<and> n \<le> length p \<and> DecodeRune (drop (length p - n) p) = (r, n) \<and>
      (\<forall>q c. bytes p = q @ enc c \<and> scalar c \<longrightarrow> r = of_nat c \<and> n = length (enc c))) \<and>
    DecodeLastRuneInString p = DecodeLastRune p"
proof
  show "let (r, n) = DecodeLastRune p in
      1 \<le> n \<and> n \<le> length p \<and> DecodeRune (drop (length p - n) p) = (r, n) \<and>
      (\<forall>q c. bytes p = q @ enc c \<and> scalar c \<longrightarrow> r = of_nat c \<and> n = length (enc c))"
  proof (cases "unat (last p) < 128")
    case True
    then show ?thesis using assms last_ascii [OF assms True] by (simp add: DecodeLastRune_unfold Suc_le_eq)
  next
    case False
    obtain r sz where d: "DecodeRune (drop (last_start p) p) = (r, sz)" by fastforce
    note b = last_start_bounds [OF assms]
    have e: "r = of_nat c \<and> sz = length (enc c) \<and> last_start p + sz = length p"
      if "bytes p = q @ enc c" "scalar c" for q c
    proof -
      have "bytes (drop (last_start p) p) = enc c"
        using that last_start_enc [OF that False] by (simp add: drop_map [symmetric])
      then have "DecodeRune (drop (last_start p) p) = (of_nat c, length (enc c))"
        using dv_complete [OF that(2), of "[]"] by (simp add: DecodeRune_dv)
      then show ?thesis
        using d last_start_enc [OF that False] arg_cong [OF that(1), of length] by simp
    qed
    show ?thesis
    proof (cases "last_start p + sz = length p")
      case True
      then have "length p - sz = last_start p" "1 \<le> sz" "sz \<le> length p" using b by linarith+
      then show ?thesis using True False assms d e by (simp add: DecodeLastRune_unfold)
    next
      case bad: False
      then have "\<not> (bytes p = q @ enc c \<and> scalar c)" for q c using e [of q c] by blast
      moreover have "DecodeLastRune p = (RuneError, 1)" using bad False assms d by (simp add: DecodeLastRune_unfold)
      moreover have "DecodeRune (drop (length p - 1) p) = (RuneError, 1)"
        unfolding drop_last [OF assms] by (rule DecodeRune_single) (use False in simp)
      ultimately show ?thesis using assms by (auto simp: Suc_le_eq)
    qed
  qed
  show "DecodeLastRuneInString p = DecodeLastRune p" by (simp add: DecodeLastRuneInString_eq)
qed

theorem DecodeLastRune_correct_witness:
  "DecodeLastRune [0x21, 0xE2, 0x82, 0xAC] = (0x20AC, 3)"
proof -
  have "bytes [0x21, 0xE2, 0x82, 0xAC] = [0x21] @ enc 0x20AC" "scalar 0x20AC" by (simp_all add: scalar_def enc_def)
  moreover obtain r n where d: "DecodeLastRune [0x21, 0xE2, 0x82, 0xAC] = (r, n)" by fastforce
  ultimately have "r = of_nat 0x20AC \<and> n = length (enc 0x20AC)"
    using DecodeLastRune_correct [of "[0x21, 0xE2, 0x82, 0xAC]"] unfolding Let_def d prod.case by blast
  then show ?thesis by (simp add: d enc_def)
qed
end
