(* ===== verification/JsonScanner.thy ===== *)
theory JsonScanner
  imports Prelude "HOL-Library.Char_ord" "HOL-Library.Word"
begin

text \<open>
  \<open>encoding/json/scanner.go\<close>, complete: the JSON state machine, its stack of parse states, \<open>checkValid\<close>
  and \<open>Valid\<close>.  A byte is a \<open>char\<close>.  The function pointer \<open>step\<close> is a value of the datatype \<open>state\<close>, one
  constructor per state function, and \<open>step_func\<close> calls the function it stands for.  Every state function
  takes the scanner and returns it updated with its opcode; \<open>None\<close> is a run-time panic (an index
  into an empty \<open>parseState\<close>).
\<close>

subsection \<open>The scanner\<close>

datatype state =
    BeginValueOrEmpty | BeginValue | BeginStringOrEmpty | BeginString | EndValue | EndTop
  | InString | InStringEsc | InStringEscU | InStringEscU1 | InStringEscU12 | InStringEscU123
  | Neg | State1 | State0 | Dot | Dot0 | StateE | ESign | E0
  | StateT | Tr | Tru | StateF | Fa | Fal | Fals | StateN | Nu | Nul | Error

datatype opcode =
    scanContinue | scanBeginLiteral | scanBeginObject | scanObjectKey | scanObjectValue | scanEndObject
  | scanBeginArray | scanArrayValue | scanEndArray | scanSkipSpace | scanEnd | scanError

text \<open>The value of the constant, by \<open>iota\<close>, and with it the order of the opcodes.\<close>

primrec iota :: "opcode \<Rightarrow> nat" where
  "iota scanContinue = 0"
| "iota scanBeginLiteral = 1"
| "iota scanBeginObject = 2"
| "iota scanObjectKey = 3"
| "iota scanObjectValue = 4"
| "iota scanEndObject = 5"
| "iota scanBeginArray = 6"
| "iota scanArrayValue = 7"
| "iota scanEndArray = 8"
| "iota scanSkipSpace = 9"
| "iota scanEnd = 10"
| "iota scanError = 11"

lemma iota_inj: "iota v = iota w \<Longrightarrow> v = w"
  by (cases v; cases w) simp_all

instantiation opcode :: linorder
begin

definition less_eq_opcode :: "opcode \<Rightarrow> opcode \<Rightarrow> bool" where
  "v \<le> w \<longleftrightarrow> iota v \<le> iota w"

definition less_opcode :: "opcode \<Rightarrow> opcode \<Rightarrow> bool" where
  "v < w \<longleftrightarrow> iota v < iota w"

instance
  by standard (auto simp: less_eq_opcode_def less_opcode_def iota_inj)

end

definition parseObjectKey :: int where "parseObjectKey = 0"
definition parseObjectValue :: int where "parseObjectValue = 1"
definition parseArrayValue :: int where "parseArrayValue = 2"

definition maxNestingDepth :: nat where "maxNestingDepth = 10000"

datatype SyntaxError = SyntaxError string "64 word"

record scanner =
  step :: state
  endTop :: bool
  parseState :: "int list"
  err :: "SyntaxError option"
  consumed :: "64 word"

text \<open>A scanner from the pool has the fields of its last use; \<open>newScanner\<close> and \<open>reset\<close> overwrite them all.\<close>

definition reset :: "scanner \<Rightarrow> scanner" where
  "reset s = s\<lparr>step := BeginValue, parseState := [], err := None, endTop := False\<rparr>"

definition newScanner :: "scanner \<Rightarrow> scanner" where
  "newScanner pooled = reset (pooled\<lparr>consumed := 0\<rparr>)"

subsection \<open>Errors\<close>

definition hexdigits :: string where
  "hexdigits = ''0123456789abcdef''"

text \<open>\<open>strconv.Quote(string(c))\<close> without its quotes, for a byte \<open>c\<close>: the rune is below \<open>0x100\<close>.\<close>

definition IsPrint_Latin1 :: "nat \<Rightarrow> bool" where
  "IsPrint_Latin1 r = (if 0x20 \<le> r \<and> r \<le> 0x7E then True else if 0xA1 \<le> r \<and> r \<le> 0xFF then r \<noteq> 0xAD else False)"

definition utf8_Latin1 :: "nat \<Rightarrow> string" where
  "utf8_Latin1 r = (if r < 0x80 then [char_of r] else [char_of (0xC0 + r div 64), char_of (0x80 + r mod 64)])"

definition appendEscapedRune_Latin1 :: "nat \<Rightarrow> string" where
  "appendEscapedRune_Latin1 r =
     (if r = of_char CHR 0x22 \<or> r = of_char CHR 0x5C then [CHR 0x5C, char_of r]
      else if IsPrint_Latin1 r then utf8_Latin1 r
      else if r = 7 then [CHR 0x5C, CHR ''a'']
      else if r = 8 then [CHR 0x5C, CHR ''b'']
      else if r = 12 then [CHR 0x5C, CHR ''f'']
      else if r = 10 then [CHR 0x5C, CHR ''n'']
      else if r = 13 then [CHR 0x5C, CHR ''r'']
      else if r = 9 then [CHR 0x5C, CHR ''t'']
      else if r = 11 then [CHR 0x5C, CHR ''v'']
      else if r < 0x20 \<or> r = 0x7F then
        [CHR 0x5C, CHR ''x'', hexdigits ! (r div 16), hexdigits ! (r mod 16)]
      else [CHR 0x5C, CHR ''u'', CHR ''0'', CHR ''0'', hexdigits ! (r div 16), hexdigits ! (r mod 16)])"

definition quoteChar :: "char \<Rightarrow> string" where
  "quoteChar c =
     (if c = CHR 0x27 then [CHR 0x27, CHR 0x5C, CHR 0x27, CHR 0x27]
      else if c = CHR 0x22 then [CHR 0x27, CHR 0x22, CHR 0x27]
      else [CHR 0x27] @ appendEscapedRune_Latin1 (of_char c) @ [CHR 0x27])"

definition fail :: "scanner \<Rightarrow> char \<Rightarrow> string \<Rightarrow> scanner \<times> opcode" where
  "fail s c ctxt =
     (s\<lparr>step := Error,
        err := Some (SyntaxError (''invalid character '' @ quoteChar c @ '' '' @ ctxt) (consumed s))\<rparr>, scanError)"

subsection \<open>The stack of parse states\<close>

definition pushParseState :: "scanner \<Rightarrow> char \<Rightarrow> int \<Rightarrow> opcode \<Rightarrow> scanner \<times> opcode" where
  "pushParseState s c newParseState successState =
     (let s = s\<lparr>parseState := parseState s @ [newParseState]\<rparr> in
      if length (parseState s) \<le> maxNestingDepth then (s, successState)
      else fail s c ''exceeded max depth'')"

definition popParseState :: "scanner \<Rightarrow> scanner go" where
  "popParseState s =
     (if parseState s = [] then None
      else
        let n = length (parseState s) - 1; s = s\<lparr>parseState := take n (parseState s)\<rparr> in
        Some (if n = 0 then s\<lparr>step := EndTop, endTop := True\<rparr> else s\<lparr>step := EndValue\<rparr>))"

text \<open>\<open>s.parseState[len(s.parseState)-1] = p\<close>\<close>

definition setTop :: "scanner \<Rightarrow> int \<Rightarrow> scanner go" where
  "setTop s p =
     (if parseState s = [] then None
      else Some (s\<lparr>parseState := (parseState s)[length (parseState s) - 1 := p]\<rparr>))"

subsection \<open>Character classes\<close>

definition isSpace :: "char \<Rightarrow> bool" where
  "isSpace c \<longleftrightarrow> c \<le> CHR '' '' \<and> (c = CHR '' '' \<or> c = CHR 0x09 \<or> c = CHR 0x0D \<or> c = CHR 0x0A)"

definition digit :: "char \<Rightarrow> bool" where
  "digit c \<longleftrightarrow> CHR ''0'' \<le> c \<and> c \<le> CHR ''9''"

definition digit19 :: "char \<Rightarrow> bool" where
  "digit19 c \<longleftrightarrow> CHR ''1'' \<le> c \<and> c \<le> CHR ''9''"

definition hexdigit :: "char \<Rightarrow> bool" where
  "hexdigit c \<longleftrightarrow> CHR ''0'' \<le> c \<and> c \<le> CHR ''9'' \<or> CHR ''a'' \<le> c \<and> c \<le> CHR ''f'' \<or>
     CHR ''A'' \<le> c \<and> c \<le> CHR ''F''"

subsection \<open>The state functions\<close>

type_synonym step_result = "(scanner \<times> opcode) go"

definition stateEndTop :: "scanner \<Rightarrow> char \<Rightarrow> step_result" where
  "stateEndTop s c =
     (let s = (if \<not> isSpace c then fst (fail s c ''after top-level value'') else s) in Some (s, scanEnd))"

definition stateEndValue :: "scanner \<Rightarrow> char \<Rightarrow> step_result" where
  "stateEndValue s c =
     (let n = length (parseState s) in
      if n = 0 then stateEndTop (s\<lparr>step := EndTop, endTop := True\<rparr>) c
      else if isSpace c then Some (s\<lparr>step := EndValue\<rparr>, scanSkipSpace)
      else
        let ps = parseState s ! (n - 1) in
        if ps = parseObjectKey then
          if c = CHR '':'' then do { s \<leftarrow> setTop s parseObjectValue; Some (s\<lparr>step := BeginValue\<rparr>, scanObjectKey) }
          else Some (fail s c ''after object key'')
        else if ps = parseObjectValue then
          if c = CHR '','' then do { s \<leftarrow> setTop s parseObjectKey; Some (s\<lparr>step := BeginString\<rparr>, scanObjectValue) }
          else if c = CHR ''}'' then do { s \<leftarrow> popParseState s; Some (s, scanEndObject) }
          else Some (fail s c ''after object key:value pair'')
        else if ps = parseArrayValue then
          if c = CHR '','' then Some (s\<lparr>step := BeginValue\<rparr>, scanArrayValue)
          else if c = CHR '']'' then do { s \<leftarrow> popParseState s; Some (s, scanEndArray) }
          else Some (fail s c ''after array element'')
        else Some (fail s c ''''))"

definition stateBeginValue :: "scanner \<Rightarrow> char \<Rightarrow> step_result" where
  "stateBeginValue s c =
     (if isSpace c then Some (s, scanSkipSpace)
      else if c = CHR ''{'' then
        Some (pushParseState (s\<lparr>step := BeginStringOrEmpty\<rparr>) c parseObjectKey scanBeginObject)
      else if c = CHR ''['' then
        Some (pushParseState (s\<lparr>step := BeginValueOrEmpty\<rparr>) c parseArrayValue scanBeginArray)
      else if c = CHR 0x22 then Some (s\<lparr>step := InString\<rparr>, scanBeginLiteral)
      else if c = CHR ''-'' then Some (s\<lparr>step := Neg\<rparr>, scanBeginLiteral)
      else if c = CHR ''0'' then Some (s\<lparr>step := State0\<rparr>, scanBeginLiteral)
      else if c = CHR ''t'' then Some (s\<lparr>step := StateT\<rparr>, scanBeginLiteral)
      else if c = CHR ''f'' then Some (s\<lparr>step := StateF\<rparr>, scanBeginLiteral)
      else if c = CHR ''n'' then Some (s\<lparr>step := StateN\<rparr>, scanBeginLiteral)
      else if digit19 c then Some (s\<lparr>step := State1\<rparr>, scanBeginLiteral)
      else Some (fail s c ''looking for beginning of value''))"

definition stateBeginValueOrEmpty :: "scanner \<Rightarrow> char \<Rightarrow> step_result" where
  "stateBeginValueOrEmpty s c =
     (if isSpace c then Some (s, scanSkipSpace)
      else if c = CHR '']'' then stateEndValue s c
      else stateBeginValue s c)"

definition stateBeginString :: "scanner \<Rightarrow> char \<Rightarrow> step_result" where
  "stateBeginString s c =
     (if isSpace c then Some (s, scanSkipSpace)
      else if c = CHR 0x22 then Some (s\<lparr>step := InString\<rparr>, scanBeginLiteral)
      else Some (fail s c ''looking for beginning of object key string''))"

definition stateBeginStringOrEmpty :: "scanner \<Rightarrow> char \<Rightarrow> step_result" where
  "stateBeginStringOrEmpty s c =
     (if isSpace c then Some (s, scanSkipSpace)
      else if c = CHR ''}'' then do { s \<leftarrow> setTop s parseObjectValue; stateEndValue s c }
      else stateBeginString s c)"

definition stateInString :: "scanner \<Rightarrow> char \<Rightarrow> step_result" where
  "stateInString s c =
     (if c = CHR 0x22 then Some (s\<lparr>step := EndValue\<rparr>, scanContinue)
      else if c = CHR 0x5C then Some (s\<lparr>step := InStringEsc\<rparr>, scanContinue)
      else if c < CHR 0x20 then Some (fail s c ''in string literal'')
      else Some (s, scanContinue))"

definition stateInStringEsc :: "scanner \<Rightarrow> char \<Rightarrow> step_result" where
  "stateInStringEsc s c =
     (if c = CHR ''b'' \<or> c = CHR ''f'' \<or> c = CHR ''n'' \<or> c = CHR ''r'' \<or> c = CHR ''t'' \<or>
         c = CHR 0x5C \<or> c = CHR ''/'' \<or> c = CHR 0x22 then Some (s\<lparr>step := InString\<rparr>, scanContinue)
      else if c = CHR ''u'' then Some (s\<lparr>step := InStringEscU\<rparr>, scanContinue)
      else Some (fail s c ''in string escape code''))"

text \<open>\<open>in \u hexadecimal character escape\<close>, the context of four messages.\<close>

definition hex_context :: string where
  "hex_context = ''in '' @ [CHR 0x5C] @ ''u hexadecimal character escape''"

definition stateInStringEscU :: "scanner \<Rightarrow> char \<Rightarrow> step_result" where
  "stateInStringEscU s c =
     (if hexdigit c then Some (s\<lparr>step := InStringEscU1\<rparr>, scanContinue) else Some (fail s c hex_context))"

definition stateInStringEscU1 :: "scanner \<Rightarrow> char \<Rightarrow> step_result" where
  "stateInStringEscU1 s c =
     (if hexdigit c then Some (s\<lparr>step := InStringEscU12\<rparr>, scanContinue) else Some (fail s c hex_context))"

definition stateInStringEscU12 :: "scanner \<Rightarrow> char \<Rightarrow> step_result" where
  "stateInStringEscU12 s c =
     (if hexdigit c then Some (s\<lparr>step := InStringEscU123\<rparr>, scanContinue) else Some (fail s c hex_context))"

definition stateInStringEscU123 :: "scanner \<Rightarrow> char \<Rightarrow> step_result" where
  "stateInStringEscU123 s c =
     (if hexdigit c then Some (s\<lparr>step := InString\<rparr>, scanContinue) else Some (fail s c hex_context))"

definition stateNeg :: "scanner \<Rightarrow> char \<Rightarrow> step_result" where
  "stateNeg s c =
     (if c = CHR ''0'' then Some (s\<lparr>step := State0\<rparr>, scanContinue)
      else if digit19 c then Some (s\<lparr>step := State1\<rparr>, scanContinue)
      else Some (fail s c ''in numeric literal''))"

definition state0 :: "scanner \<Rightarrow> char \<Rightarrow> step_result" where
  "state0 s c =
     (if c = CHR ''.'' then Some (s\<lparr>step := Dot\<rparr>, scanContinue)
      else if c = CHR ''e'' \<or> c = CHR ''E'' then Some (s\<lparr>step := StateE\<rparr>, scanContinue)
      else stateEndValue s c)"

definition state1 :: "scanner \<Rightarrow> char \<Rightarrow> step_result" where
  "state1 s c =
     (if digit c then Some (s\<lparr>step := State1\<rparr>, scanContinue)
      else state0 s c)"

definition stateDot :: "scanner \<Rightarrow> char \<Rightarrow> step_result" where
  "stateDot s c =
     (if digit c then Some (s\<lparr>step := Dot0\<rparr>, scanContinue)
      else Some (fail s c ''after decimal point in numeric literal''))"

definition stateDot0 :: "scanner \<Rightarrow> char \<Rightarrow> step_result" where
  "stateDot0 s c =
     (if digit c then Some (s, scanContinue)
      else if c = CHR ''e'' \<or> c = CHR ''E'' then Some (s\<lparr>step := StateE\<rparr>, scanContinue)
      else stateEndValue s c)"

definition stateESign :: "scanner \<Rightarrow> char \<Rightarrow> step_result" where
  "stateESign s c =
     (if digit c then Some (s\<lparr>step := E0\<rparr>, scanContinue)
      else Some (fail s c ''in exponent of numeric literal''))"

definition stateE :: "scanner \<Rightarrow> char \<Rightarrow> step_result" where
  "stateE s c =
     (if c = CHR ''+'' \<or> c = CHR ''-'' then Some (s\<lparr>step := ESign\<rparr>, scanContinue)
      else stateESign s c)"

definition stateE0 :: "scanner \<Rightarrow> char \<Rightarrow> step_result" where
  "stateE0 s c =
     (if digit c then Some (s, scanContinue)
      else stateEndValue s c)"

definition stateT :: "scanner \<Rightarrow> char \<Rightarrow> step_result" where
  "stateT s c =
     (if c = CHR ''r'' then Some (s\<lparr>step := Tr\<rparr>, scanContinue)
      else Some (fail s c (''in literal true (expecting '' @ [CHR 0x27, CHR ''r'', CHR 0x27] @ '')'')))"

definition stateTr :: "scanner \<Rightarrow> char \<Rightarrow> step_result" where
  "stateTr s c =
     (if c = CHR ''u'' then Some (s\<lparr>step := Tru\<rparr>, scanContinue)
      else Some (fail s c (''in literal true (expecting '' @ [CHR 0x27, CHR ''u'', CHR 0x27] @ '')'')))"

definition stateTru :: "scanner \<Rightarrow> char \<Rightarrow> step_result" where
  "stateTru s c =
     (if c = CHR ''e'' then Some (s\<lparr>step := EndValue\<rparr>, scanContinue)
      else Some (fail s c (''in literal true (expecting '' @ [CHR 0x27, CHR ''e'', CHR 0x27] @ '')'')))"

definition stateF :: "scanner \<Rightarrow> char \<Rightarrow> step_result" where
  "stateF s c =
     (if c = CHR ''a'' then Some (s\<lparr>step := Fa\<rparr>, scanContinue)
      else Some (fail s c (''in literal false (expecting '' @ [CHR 0x27, CHR ''a'', CHR 0x27] @ '')'')))"

definition stateFa :: "scanner \<Rightarrow> char \<Rightarrow> step_result" where
  "stateFa s c =
     (if c = CHR ''l'' then Some (s\<lparr>step := Fal\<rparr>, scanContinue)
      else Some (fail s c (''in literal false (expecting '' @ [CHR 0x27, CHR ''l'', CHR 0x27] @ '')'')))"

definition stateFal :: "scanner \<Rightarrow> char \<Rightarrow> step_result" where
  "stateFal s c =
     (if c = CHR ''s'' then Some (s\<lparr>step := Fals\<rparr>, scanContinue)
      else Some (fail s c (''in literal false (expecting '' @ [CHR 0x27, CHR ''s'', CHR 0x27] @ '')'')))"

definition stateFals :: "scanner \<Rightarrow> char \<Rightarrow> step_result" where
  "stateFals s c =
     (if c = CHR ''e'' then Some (s\<lparr>step := EndValue\<rparr>, scanContinue)
      else Some (fail s c (''in literal false (expecting '' @ [CHR 0x27, CHR ''e'', CHR 0x27] @ '')'')))"

definition stateN :: "scanner \<Rightarrow> char \<Rightarrow> step_result" where
  "stateN s c =
     (if c = CHR ''u'' then Some (s\<lparr>step := Nu\<rparr>, scanContinue)
      else Some (fail s c (''in literal null (expecting '' @ [CHR 0x27, CHR ''u'', CHR 0x27] @ '')'')))"

definition stateNu :: "scanner \<Rightarrow> char \<Rightarrow> step_result" where
  "stateNu s c =
     (if c = CHR ''l'' then Some (s\<lparr>step := Nul\<rparr>, scanContinue)
      else Some (fail s c (''in literal null (expecting '' @ [CHR 0x27, CHR ''l'', CHR 0x27] @ '')'')))"

definition stateNul :: "scanner \<Rightarrow> char \<Rightarrow> step_result" where
  "stateNul s c =
     (if c = CHR ''l'' then Some (s\<lparr>step := EndValue\<rparr>, scanContinue)
      else Some (fail s c (''in literal null (expecting '' @ [CHR 0x27, CHR ''l'', CHR 0x27] @ '')'')))"

definition stateError :: "scanner \<Rightarrow> char \<Rightarrow> step_result" where
  "stateError s c =
     (Some (s, scanError))"

primrec state_function :: "state \<Rightarrow> scanner \<Rightarrow> char \<Rightarrow> step_result" where
  "state_function BeginValueOrEmpty = stateBeginValueOrEmpty"
| "state_function BeginValue = stateBeginValue"
| "state_function BeginStringOrEmpty = stateBeginStringOrEmpty"
| "state_function BeginString = stateBeginString"
| "state_function EndValue = stateEndValue"
| "state_function EndTop = stateEndTop"
| "state_function InString = stateInString"
| "state_function InStringEsc = stateInStringEsc"
| "state_function InStringEscU = stateInStringEscU"
| "state_function InStringEscU1 = stateInStringEscU1"
| "state_function InStringEscU12 = stateInStringEscU12"
| "state_function InStringEscU123 = stateInStringEscU123"
| "state_function Neg = stateNeg"
| "state_function State1 = state1"
| "state_function State0 = state0"
| "state_function Dot = stateDot"
| "state_function Dot0 = stateDot0"
| "state_function StateE = stateE"
| "state_function ESign = stateESign"
| "state_function E0 = stateE0"
| "state_function StateT = stateT"
| "state_function Tr = stateTr"
| "state_function Tru = stateTru"
| "state_function StateF = stateF"
| "state_function Fa = stateFa"
| "state_function Fal = stateFal"
| "state_function Fals = stateFals"
| "state_function StateN = stateN"
| "state_function Nu = stateNu"
| "state_function Nul = stateNul"
| "state_function Error = stateError"

text \<open>\<open>s.step(s, c)\<close>\<close>

definition step_func :: "scanner \<Rightarrow> char \<Rightarrow> step_result" where
  "step_func s c = state_function (step s) s c"

subsection \<open>End of input, \<open>checkValid\<close>, \<open>Valid\<close>\<close>

definition eof :: "scanner \<Rightarrow> step_result" where
  "eof s =
     (if err s \<noteq> None then Some (s, scanError)
      else if endTop s then Some (s, scanEnd)
      else do {
        (s, v) \<leftarrow> step_func s (CHR '' '');
        Some (if endTop s then (s, scanEnd)
              else if err s = None then
                (s\<lparr>err := Some (SyntaxError ''unexpected end of JSON input'' (consumed s))\<rparr>, scanError)
              else (s, scanError)) })"

fun checkValid_loop :: "scanner \<Rightarrow> string \<Rightarrow> (scanner \<times> SyntaxError option) go" where
  "checkValid_loop s [] = do { (s, v) \<leftarrow> eof s; Some (s, if v = scanError then err s else None) }"
| "checkValid_loop s (c # cs) =
     do { (s, v) \<leftarrow> step_func (s\<lparr>consumed := consumed s + 1\<rparr>) c;
          if v = scanError then Some (s, err s) else checkValid_loop s cs }"

definition checkValid :: "string \<Rightarrow> scanner \<Rightarrow> (scanner \<times> SyntaxError option) go" where
  "checkValid data scan = checkValid_loop (reset scan) data"

definition Valid :: "scanner \<Rightarrow> string \<Rightarrow> bool go" where
  "Valid pooled data = do { (s, e) \<leftarrow> checkValid data (newScanner pooled); Some (e = None) }"

subsection \<open>Languages and their derivatives\<close>

text \<open>The grammar of JSON is given as sets of strings, built with concatenation and repetition.  The
  derivative \<open>deriv c A\<close> is what may follow \<open>c\<close> in \<open>A\<close>; the proofs compute it.\<close>

definition conc :: "string set \<Rightarrow> string set \<Rightarrow> string set" where
  "conc A B = {u @ v | u v. u \<in> A \<and> v \<in> B}"

inductive_set many :: "string set \<Rightarrow> string set" for A :: "string set" where
  many_Nil: "[] \<in> many A"
| many_app: "u \<in> A \<Longrightarrow> v \<in> many A \<Longrightarrow> u @ v \<in> many A"

definition deriv :: "char \<Rightarrow> string set \<Rightarrow> string set" where
  "deriv c A = {u. c # u \<in> A}"

definition chars :: "(char \<Rightarrow> bool) \<Rightarrow> string set" where
  "chars P = {[c] | c. P c}"

named_theorems lang \<open>derivatives and emptiness of languages\<close>

lemma in_deriv: "cs \<in> deriv c A \<longleftrightarrow> c # cs \<in> A"
  by (simp add: deriv_def)

lemma deriv_empty [lang]: "deriv c {} = {}"
  by (simp add: deriv_def)

lemma deriv_Un [lang]: "deriv c (A \<union> B) = deriv c A \<union> deriv c B"
  by (auto simp: deriv_def)

lemma deriv_chars [lang]: "deriv c (chars P) = (if P c then {[]} else {})"
  by (auto simp: deriv_def chars_def)

lemma deriv_eps [lang]: "deriv c {[]} = {}"
  by (auto simp: deriv_def)

lemma deriv_word [lang]: "deriv c {x # xs} = (if c = x then {xs} else {})"
  by (auto simp: deriv_def)

lemma deriv_conc [lang]: "deriv c (conc A B) = conc (deriv c A) B \<union> (if [] \<in> A then deriv c B else {})"
proof (rule set_eqI)
  fix w
  have "(\<exists>u v. c # w = u @ v \<and> u \<in> A \<and> v \<in> B) \<longleftrightarrow>
      ([] \<in> A \<and> c # w \<in> B) \<or> (\<exists>u v. w = u @ v \<and> c # u \<in> A \<and> v \<in> B)"
    by (auto simp: Cons_eq_append_conv)
  then show "w \<in> deriv c (conc A B) \<longleftrightarrow> w \<in> conc (deriv c A) B \<union> (if [] \<in> A then deriv c B else {})"
    by (auto simp: deriv_def conc_def)
qed

lemma many_Cons: "c # w \<in> many A \<Longrightarrow> \<exists>u v. w = u @ v \<and> c # u \<in> A \<and> v \<in> many A"
proof (induction "c # w" arbitrary: w rule: many.induct)
  case (many_app u v)
  then show ?case by (cases u) auto
qed

lemma deriv_many [lang]: "deriv c (many A) = conc (deriv c A) (many A)"
  using many_Cons many_app [of "c # u" A for u] by (fastforce simp: deriv_def conc_def)

lemma nil_conc [lang]: "[] \<in> conc A B \<longleftrightarrow> [] \<in> A \<and> [] \<in> B"
  by (auto simp: conc_def)

lemma nil_many [lang]: "[] \<in> many A"
  by (rule many_Nil)

lemma nil_chars [lang]: "[] \<notin> chars P"
  by (auto simp: chars_def)

lemma conc_empty [lang]: "conc {} A = {}" "conc A {} = {}"
  by (auto simp: conc_def)

lemma conc_eps [lang]: "conc {[]} A = A" "conc A {[]} = A"
  by (auto simp: conc_def)

lemma conc_Un [lang]: "conc (A \<union> B) C = conc A C \<union> conc B C"
  by (auto simp: conc_def)

lemma deriv_insert_Nil [lang]: "deriv c (insert [] A) = deriv c A"
  by (auto simp: deriv_def)

lemma deriv_insert_Cons [lang]:
  "deriv c (insert (x # xs) A) = (if c = x then insert xs (deriv c A) else deriv c A)"
  by (auto simp: deriv_def)

lemma conc_insert_Nil [lang]: "conc (insert [] A) B = B \<union> conc A B"
  by (auto simp: conc_def)

lemma conc_assoc [lang]: "conc (conc A B) C = conc A (conc B C)"
  by (auto simp: conc_def) (metis append.assoc)+

lemma conc_if [lang]: "conc (if b then A else B) C = (if b then conc A C else conc B C)"
  by simp

subsection \<open>The grammar of JSON (RFC 8259), values of bounded depth\<close>

text \<open>The character classes are written out here, apart from the code's tests; lemma \<open>json_classes\<close> relates them.\<close>

definition json_space :: "char \<Rightarrow> bool" where
  "json_space c \<longleftrightarrow> c \<in> set [CHR 0x20, CHR 0x09, CHR 0x0A, CHR 0x0D]"

definition json_digit :: "char \<Rightarrow> bool" where
  "json_digit c \<longleftrightarrow> c \<in> set ''0123456789''"

definition json_digit19 :: "char \<Rightarrow> bool" where
  "json_digit19 c \<longleftrightarrow> c \<in> set ''123456789''"

definition json_hexdigit :: "char \<Rightarrow> bool" where
  "json_hexdigit c \<longleftrightarrow> c \<in> set ''0123456789abcdefABCDEF''"

definition ws :: "string set" where
  "ws = many (chars json_space)"

definition ch :: "char \<Rightarrow> string set" where
  "ch x = chars (\<lambda>c. c = x)"

definition opt :: "string set \<Rightarrow> string set" where
  "opt A = A \<union> {[]}"

definition digits :: "string set" where
  "digits = many (chars json_digit)"

definition digits1 :: "string set" where
  "digits1 = conc (chars json_digit) digits"

definition int_part :: "string set" where
  "int_part = ch CHR ''0'' \<union> conc (chars json_digit19) digits"

definition frac :: "string set" where
  "frac = conc (ch CHR ''.'') digits1"

definition expo :: "string set" where
  "expo = conc (chars (\<lambda>c. c = CHR ''e'' \<or> c = CHR ''E''))
     (conc (opt (chars (\<lambda>c. c = CHR ''+'' \<or> c = CHR ''-''))) digits1)"

definition number :: "string set" where
  "number = conc (opt (ch CHR ''-'')) (conc int_part (conc (opt frac) (opt expo)))"

definition hex :: "string set" where
  "hex = chars json_hexdigit"

definition escape :: "string set" where
  "escape = chars (\<lambda>c. c = CHR ''b'' \<or> c = CHR ''f'' \<or> c = CHR ''n'' \<or> c = CHR ''r'' \<or> c = CHR ''t'' \<or>
       c = CHR 0x5C \<or> c = CHR ''/'' \<or> c = CHR 0x22) \<union>
     conc (ch CHR ''u'') (conc hex (conc hex (conc hex hex)))"

definition str_char :: "string set" where
  "str_char = chars (\<lambda>c. c \<noteq> CHR 0x22 \<and> c \<noteq> CHR 0x5C \<and> \<not> c < CHR 0x20) \<union> conc (ch CHR 0x5C) escape"

definition str_tail :: "string set" where
  "str_tail = conc (many str_char) (ch CHR 0x22)"

definition str :: "string set" where
  "str = conc (ch CHR 0x22) str_tail"

definition scalar_value :: "string set" where
  "scalar_value = {''true''} \<union> {''false''} \<union> {''null''} \<union> number \<union> str"

text \<open>Given the language \<open>V\<close> of the element values: the members after the first one and the bracket.\<close>

definition member_of :: "string set \<Rightarrow> string set" where
  "member_of V = conc str (conc ws (conc (ch CHR '':'') (conc ws V)))"

definition array_rest :: "string set \<Rightarrow> string set" where
  "array_rest V = conc (many (conc ws (conc (ch CHR '','') (conc ws V)))) (conc ws (ch CHR '']''))"

definition object_rest :: "string set \<Rightarrow> string set" where
  "object_rest V = conc (many (conc ws (conc (ch CHR '','') (conc ws (member_of V))))) (conc ws (ch CHR ''}''))"

definition array_of :: "string set \<Rightarrow> string set" where
  "array_of V = conc (ch CHR ''['') (conc ws (ch CHR '']'' \<union> conc V (array_rest V)))"

definition object_of :: "string set \<Rightarrow> string set" where
  "object_of V = conc (ch CHR ''{'') (conc ws (ch CHR ''}'' \<union> conc (member_of V) (object_rest V)))"

primrec json_value :: "nat \<Rightarrow> string set" where
  "json_value 0 = scalar_value"
| "json_value (Suc d) = scalar_value \<union> array_of (json_value d) \<union> object_of (json_value d)"

text \<open>A JSON text whose arrays and objects nest at most \<open>d\<close> deep.\<close>

definition json_text :: "nat \<Rightarrow> string set" where
  "json_text d = conc ws (conc (json_value d) ws)"

subsection \<open>The language of a scanner\<close>

fun tail_lang :: "int \<Rightarrow> nat \<Rightarrow> string set" where
  "tail_lang p d =
     (if p = parseObjectKey then
        conc ws (conc (ch CHR '':'') (conc ws (conc (json_value d) (object_rest (json_value d)))))
      else if p = parseObjectValue then object_rest (json_value d)
      else if p = parseArrayValue then array_rest (json_value d)
      else {})"

declare tail_lang.simps [simp del]

text \<open>What may follow a completed value: \<open>stk\<close> is the stack, innermost first.\<close>

primrec cont :: "int list \<Rightarrow> string set" where
  "cont [] = ws"
| "cont (p # stk) = conc (tail_lang p (maxNestingDepth - length (p # stk))) (cont stk)"

definition value_here :: "int list \<Rightarrow> string set" where
  "value_here stk = json_value (maxNestingDepth - length stk)"

fun state_lang :: "state \<Rightarrow> int list \<Rightarrow> string set" where
  "state_lang BeginValueOrEmpty stk =
     conc ws (conc (ch CHR '']'') (cont (tl stk)) \<union> conc (value_here stk) (cont stk))"
| "state_lang BeginValue stk = conc ws (conc (value_here stk) (cont stk))"
| "state_lang BeginStringOrEmpty stk =
     conc ws (conc (ch CHR ''}'') (cont (tl stk)) \<union> conc str (cont stk))"
| "state_lang BeginString stk = conc ws (conc str (cont stk))"
| "state_lang EndValue stk = cont stk"
| "state_lang EndTop stk = ws"
| "state_lang InString stk = conc str_tail (cont stk)"
| "state_lang InStringEsc stk = conc escape (conc str_tail (cont stk))"
| "state_lang InStringEscU stk = conc hex (conc hex (conc hex (conc hex (conc str_tail (cont stk)))))"
| "state_lang InStringEscU1 stk = conc hex (conc hex (conc hex (conc str_tail (cont stk))))"
| "state_lang InStringEscU12 stk = conc hex (conc hex (conc str_tail (cont stk)))"
| "state_lang InStringEscU123 stk = conc hex (conc str_tail (cont stk))"
| "state_lang Neg stk = conc int_part (conc (opt frac) (conc (opt expo) (cont stk)))"
| "state_lang State1 stk = conc digits (conc (opt frac) (conc (opt expo) (cont stk)))"
| "state_lang State0 stk = conc (opt frac) (conc (opt expo) (cont stk))"
| "state_lang Dot stk = conc digits1 (conc (opt expo) (cont stk))"
| "state_lang Dot0 stk = conc digits (conc (opt expo) (cont stk))"
| "state_lang StateE stk = conc (opt (chars (\<lambda>c. c = CHR ''+'' \<or> c = CHR ''-''))) (conc digits1 (cont stk))"
| "state_lang ESign stk = conc digits1 (cont stk)"
| "state_lang E0 stk = conc digits (cont stk)"
| "state_lang StateT stk = conc {''rue''} (cont stk)"
| "state_lang Tr stk = conc {''ue''} (cont stk)"
| "state_lang Tru stk = conc {''e''} (cont stk)"
| "state_lang StateF stk = conc {''alse''} (cont stk)"
| "state_lang Fa stk = conc {''lse''} (cont stk)"
| "state_lang Fal stk = conc {''se''} (cont stk)"
| "state_lang Fals stk = conc {''e''} (cont stk)"
| "state_lang StateN stk = conc {''ull''} (cont stk)"
| "state_lang Nu stk = conc {''ll''} (cont stk)"
| "state_lang Nul stk = conc {''l''} (cont stk)"
| "state_lang Error stk = {}"

definition scanner_lang :: "scanner \<Rightarrow> string set" where
  "scanner_lang s = state_lang (step s) (rev (parseState s))"

text \<open>The invariant of a scanner that has not seen an error.\<close>

definition wf_scanner :: "scanner \<Rightarrow> bool" where
  "wf_scanner s \<longleftrightarrow> err s = None \<and> step s \<noteq> Error \<and> (endTop s \<longleftrightarrow> step s = EndTop) \<and>
     (step s = EndTop \<longrightarrow> parseState s = []) \<and>
     (step s = BeginStringOrEmpty \<or> step s = BeginString \<longrightarrow>
        parseState s \<noteq> [] \<and> last (parseState s) = parseObjectKey) \<and>
     (step s = BeginValueOrEmpty \<longrightarrow> parseState s \<noteq> [] \<and> last (parseState s) = parseArrayValue) \<and>
     set (parseState s) \<subseteq> {parseObjectKey, parseObjectValue, parseArrayValue} \<and>
     length (parseState s) \<le> maxNestingDepth"

subsection \<open>Derivatives of the grammar\<close>

lemma conc_Un2: "conc A (B \<union> C) = conc A B \<union> conc A C"
  by (auto simp: conc_def)

lemma many_unfold: "many A = conc A (many A) \<union> {[]}"
proof (rule set_eqI)
  fix w
  show "w \<in> many A \<longleftrightarrow> w \<in> conc A (many A) \<union> {[]}"
    by (subst many.simps) (auto simp: conc_def)
qed

lemma isSpace_iff: "isSpace c \<longleftrightarrow> c = CHR '' '' \<or> c = CHR 0x09 \<or> c = CHR 0x0D \<or> c = CHR 0x0A"
  by (auto simp: isSpace_def)

lemma json_classes: "json_space = isSpace" "json_digit = digit" "json_digit19 = digit19" "json_hexdigit = hexdigit"
proof -
  have "\<forall>c. (json_digit c \<longleftrightarrow> digit c) \<and> (json_digit19 c \<longleftrightarrow> digit19 c) \<and> (json_hexdigit c \<longleftrightarrow> hexdigit c)"
    by code_simp
  then show "json_digit = digit" "json_digit19 = digit19" "json_hexdigit = hexdigit" by (simp_all add: fun_eq_iff)
  show "json_space = isSpace" by (auto simp: fun_eq_iff json_space_def isSpace_iff)
qed

lemma digit_iff: "digit c \<longleftrightarrow> c = CHR ''0'' \<or> digit19 c"
proof -
  have "of_char c \<noteq> (48 :: nat) \<longleftrightarrow> c \<noteq> CHR ''0''" using of_char_eq_iff [of c "CHR ''0''", where ?'a = nat] by simp
  then show ?thesis by (auto simp: digit_def digit19_def less_eq_char_def)
qed

lemma not_space [lang]:
  "isSpace CHR '' ''" "\<not> isSpace CHR '':''" "\<not> isSpace CHR '',''" "\<not> isSpace CHR ''}''" "\<not> isSpace CHR '']''" "\<not> isSpace CHR ''{''"
  "\<not> isSpace CHR ''[''" "\<not> isSpace CHR 0x22" "\<not> isSpace CHR ''-''" "\<not> isSpace CHR ''0''" "\<not> isSpace CHR ''t''"
  "\<not> isSpace CHR ''f''" "\<not> isSpace CHR ''n''" "\<not> isSpace CHR ''.''" "\<not> isSpace CHR ''e''" "\<not> isSpace CHR ''E''"
  by (simp_all add: isSpace_iff)

lemma not_digit [lang]:
  "\<not> digit19 CHR '':''" "\<not> digit19 CHR '',''" "\<not> digit19 CHR ''}''" "\<not> digit19 CHR '']''" "\<not> digit19 CHR ''{''"
  "\<not> digit19 CHR ''[''" "\<not> digit19 CHR 0x22" "\<not> digit19 CHR ''-''" "\<not> digit19 CHR ''0''" "\<not> digit19 CHR ''t''"
  "\<not> digit19 CHR ''f''" "\<not> digit19 CHR ''n''" "\<not> digit19 CHR ''.''" "\<not> digit19 CHR ''e''" "\<not> digit19 CHR ''E''"
  "\<not> digit19 CHR ''+''" "\<not> digit19 CHR '' ''"
  by (simp_all add: digit19_def)

lemma space_digit [lang]: "isSpace c \<Longrightarrow> \<not> digit19 c"
  by (auto simp: isSpace_iff digit19_def)

lemma deriv_ch [lang]: "deriv c (ch x) = (if c = x then {[]} else {})"
  by (simp add: ch_def lang)

lemma nil_ch [lang]: "[] \<notin> ch x"
  by (simp add: ch_def lang)

lemma deriv_ws [lang]: "deriv c ws = (if isSpace c then ws else {})"
  by (simp add: ws_def json_classes lang)

lemma nil_ws [lang]: "[] \<in> ws"
  by (simp add: ws_def json_classes lang)

lemma deriv_opt [lang]: "deriv c (opt A) = deriv c A"
  by (simp add: opt_def lang)

lemma nil_opt [lang]: "[] \<in> opt A"
  by (simp add: opt_def)

lemma deriv_digits [lang]: "deriv c digits = (if digit c then digits else {})"
  by (simp add: digits_def json_classes lang)

lemma nil_digits [lang]: "[] \<in> digits"
  by (simp add: digits_def json_classes lang)

lemma deriv_digits1 [lang]: "deriv c digits1 = (if digit c then digits else {})" "[] \<notin> digits1"
  by (simp_all add: digits1_def json_classes lang)

lemma deriv_int_part [lang]:
  "deriv c int_part = (if c = CHR ''0'' then {[]} else if digit19 c then digits else {})" "[] \<notin> int_part"
  by (auto simp: int_part_def json_classes lang)

lemma deriv_frac [lang]: "deriv c frac = (if c = CHR ''.'' then digits1 else {})" "[] \<notin> frac"
  by (simp_all add: frac_def lang)

lemma deriv_expo [lang]:
  "deriv c expo = (if c = CHR ''e'' \<or> c = CHR ''E''
     then conc (opt (chars (\<lambda>c. c = CHR ''+'' \<or> c = CHR ''-''))) digits1 else {})" "[] \<notin> expo"
  by (simp_all add: expo_def lang)

lemma deriv_number [lang]:
  "deriv c number = (if c = CHR ''-'' then conc int_part (conc (opt frac) (opt expo))
     else if c = CHR ''0'' then conc (opt frac) (opt expo)
     else if digit19 c then conc digits (conc (opt frac) (opt expo)) else {})" "[] \<notin> number"
  by (auto simp: number_def lang)

lemma deriv_str_tail [lang]:
  "deriv c str_tail = (if c = CHR 0x22 then {[]} else if c = CHR 0x5C then conc escape str_tail
     else if c < CHR 0x20 then {} else str_tail)" "[] \<notin> str_tail"
  by (auto simp: str_tail_def str_char_def lang)

lemma deriv_str [lang]: "deriv c str = (if c = CHR 0x22 then str_tail else {})" "[] \<notin> str"
  by (simp_all add: str_def lang)

lemma deriv_hex [lang]: "deriv c hex = (if hexdigit c then {[]} else {})" "[] \<notin> hex"
  by (simp_all add: hex_def json_classes lang)

lemma deriv_scalar_value [lang]:
  "deriv c scalar_value =
    (if c = CHR 0x22 then str_tail
     else if c = CHR ''-'' then conc int_part (conc (opt frac) (opt expo))
     else if c = CHR ''0'' then conc (opt frac) (opt expo)
     else if c = CHR ''t'' then {''rue''}
     else if c = CHR ''f'' then {''alse''}
     else if c = CHR ''n'' then {''ull''}
     else if digit19 c then conc digits (conc (opt frac) (opt expo)) else {})"
proof (cases "c = CHR 0x22 \<or> c = CHR ''-'' \<or> c = CHR ''0'' \<or> c = CHR ''t'' \<or> c = CHR ''f'' \<or> c = CHR ''n''")
  case True
  then show ?thesis by (elim disjE) (simp_all add: scalar_value_def lang)
next
  case False
  then show ?thesis by (simp add: scalar_value_def lang)
qed

lemma nil_scalar_value [lang]: "[] \<notin> scalar_value"
  by (simp add: scalar_value_def lang)

lemma array_rest_unfold:
  "array_rest V = conc ws (conc (ch CHR '','') (conc ws (conc V (array_rest V))) \<union> ch CHR '']'')"
  unfolding array_rest_def by (subst many_unfold) (simp add: lang conc_Un2 Un_commute)

lemma object_rest_unfold:
  "object_rest V = conc ws (conc (ch CHR '','') (conc ws (conc (member_of V) (object_rest V))) \<union> ch CHR ''}'')"
  unfolding object_rest_def by (subst many_unfold) (simp add: lang conc_Un2 Un_commute)

lemma deriv_array_rest [lang]:
  "deriv c (array_rest V) = (if isSpace c then array_rest V else if c = CHR '','' then conc ws (conc V (array_rest V))
     else if c = CHR '']'' then {[]} else {})" "[] \<notin> array_rest V"
proof -
  have "deriv c (array_rest V) = deriv c (conc ws (conc (ch CHR '','') (conc ws (conc V (array_rest V))) \<union> ch CHR '']''))"
    by (rule arg_cong [OF array_rest_unfold])
  also have "\<dots> = (if isSpace c then array_rest V else if c = CHR '','' then conc ws (conc V (array_rest V))
      else if c = CHR '']'' then {[]} else {})"
    by (simp only: deriv_conc deriv_ws nil_ws if_True) (simp add: lang array_rest_unfold [symmetric])
  finally show "deriv c (array_rest V) = (if isSpace c then array_rest V
      else if c = CHR '','' then conc ws (conc V (array_rest V)) else if c = CHR '']'' then {[]} else {})" .
  have "[] \<in> array_rest V \<longleftrightarrow> [] \<in> conc ws (conc (ch CHR '','') (conc ws (conc V (array_rest V))) \<union> ch CHR '']'')"
    by (rule arg_cong [OF array_rest_unfold])
  then show "[] \<notin> array_rest V" by (simp add: lang)
qed

lemma deriv_object_rest [lang]:
  "deriv c (object_rest V) = (if isSpace c then object_rest V
     else if c = CHR '','' then conc ws (conc (member_of V) (object_rest V))
     else if c = CHR ''}'' then {[]} else {})" "[] \<notin> object_rest V"
proof -
  have "deriv c (object_rest V) = deriv c (conc ws (conc (ch CHR '','') (conc ws (conc (member_of V) (object_rest V))) \<union> ch CHR ''}''))"
    by (rule arg_cong [OF object_rest_unfold])
  also have "\<dots> = (if isSpace c then object_rest V else if c = CHR '','' then conc ws (conc (member_of V) (object_rest V))
      else if c = CHR ''}'' then {[]} else {})"
    by (simp only: deriv_conc deriv_ws nil_ws if_True) (simp add: lang object_rest_unfold [symmetric])
  finally show "deriv c (object_rest V) = (if isSpace c then object_rest V
      else if c = CHR '','' then conc ws (conc (member_of V) (object_rest V)) else if c = CHR ''}'' then {[]} else {})" .
  have "[] \<in> object_rest V \<longleftrightarrow> [] \<in> conc ws (conc (ch CHR '','') (conc ws (conc (member_of V) (object_rest V))) \<union> ch CHR ''}'')"
    by (rule arg_cong [OF object_rest_unfold])
  then show "[] \<notin> object_rest V" by (simp add: lang)
qed

lemma nil_json_value [lang]: "[] \<notin> json_value d"
  by (cases d) (simp_all add: lang array_of_def object_of_def)

lemma deriv_json_value [lang]:
  "deriv c (json_value d) =
    (if c = CHR ''['' then
       (case d of 0 \<Rightarrow> {} | Suc d \<Rightarrow> conc ws (ch CHR '']'' \<union> conc (json_value d) (array_rest (json_value d))))
     else if c = CHR ''{'' then
       (case d of 0 \<Rightarrow> {} | Suc d \<Rightarrow>
         conc ws (ch CHR ''}'' \<union> conc (member_of (json_value d)) (object_rest (json_value d))))
     else deriv c scalar_value)"
  by (cases d) (simp_all add: lang array_of_def object_of_def)

declare json_value.simps [simp del]

lemma deriv_tail_lang [lang]:
  "deriv c (tail_lang p d) =
    (if p = parseObjectKey then
       if isSpace c then tail_lang p d
       else if c = CHR '':'' then conc ws (conc (json_value d) (object_rest (json_value d))) else {}
     else if p = parseObjectValue then deriv c (object_rest (json_value d))
     else if p = parseArrayValue then deriv c (array_rest (json_value d))
     else {})" "[] \<notin> tail_lang p d"
  by (auto simp: tail_lang.simps lang)

lemma nil_cont [lang]: "[] \<in> cont stk \<longleftrightarrow> stk = []"
  by (cases stk) (simp_all add: lang)

text \<open>What ends a value: nothing that could continue a number.\<close>

lemma digit_not: "digit c \<Longrightarrow> \<not> isSpace c \<and> c \<noteq> CHR '':'' \<and> c \<noteq> CHR '','' \<and> c \<noteq> CHR ''}'' \<and> c \<noteq> CHR '']''"
  using space_digit [of c] not_digit unfolding digit_iff by (elim disjE) (simp add: lang, metis)

lemma deriv_cont_none [lang]:
  "digit c \<Longrightarrow> deriv c (cont stk) = {}" "deriv CHR ''.'' (cont stk) = {}"
  "deriv CHR ''e'' (cont stk) = {}" "deriv CHR ''E'' (cont stk) = {}"
proof -
  show "deriv c (cont stk) = {}" if "digit c"
    using digit_not [OF that] by (cases stk) (simp_all add: lang)
qed (cases stk; simp add: lang)+

subsection \<open>Every step computes the derivative\<close>

text \<open>What a state function called with \<open>c\<close> in a scanner of language \<open>L\<close> returns: either a scanner
  without an error whose language is the derivative of \<open>L\<close>, or one in the error state when nothing in \<open>L\<close>
  starts with \<open>c\<close>.\<close>

definition stepped :: "char \<Rightarrow> string set \<Rightarrow> step_result \<Rightarrow> bool" where
  "stepped c L r \<longleftrightarrow> (case r of None \<Rightarrow> False
     | Some (s, v) \<Rightarrow> (v \<noteq> scanError \<and> wf_scanner s \<and> deriv c L = scanner_lang s) \<or>
         ((v = scanError \<or> v = scanEnd) \<and> err s \<noteq> None \<and> step s = Error \<and> deriv c L = {}))"

lemma stepped_ok:
  "v \<noteq> scanError \<Longrightarrow> wf_scanner s \<Longrightarrow> deriv c L = scanner_lang s \<Longrightarrow> stepped c L (Some (s, v))"
  by (simp add: stepped_def)

lemma stepped_fail: "deriv c L = {} \<Longrightarrow> stepped c L (Some (fail s c t))"
  by (simp add: stepped_def fail_def)

lemmas parse_consts = parseObjectKey_def parseObjectValue_def parseArrayValue_def

lemma parse_distinct [simp]:
  "parseObjectKey \<noteq> parseObjectValue" "parseObjectKey \<noteq> parseArrayValue" "parseObjectValue \<noteq> parseArrayValue"
  "parseObjectValue \<noteq> parseObjectKey" "parseArrayValue \<noteq> parseObjectKey" "parseArrayValue \<noteq> parseObjectValue"
  by (simp_all add: parse_consts)

lemma setTop_snoc: "parseState s = xs @ [p] \<Longrightarrow> setTop s q = Some (s\<lparr>parseState := xs @ [q]\<rparr>)"
  by (simp add: setTop_def)

lemma popParseState_snoc:
  "parseState s = xs @ [p] \<Longrightarrow> popParseState s =
     Some (if xs = [] then s\<lparr>parseState := xs, step := EndTop, endTop := True\<rparr>
           else s\<lparr>parseState := xs, step := EndValue\<rparr>)"
  by (simp add: popParseState_def)

text \<open>What holds of a scanner while a value is read, whatever its state function.\<close>

definition inside :: "scanner \<Rightarrow> bool" where
  "inside s \<longleftrightarrow> err s = None \<and> \<not> endTop s \<and>
     set (parseState s) \<subseteq> {parseObjectKey, parseObjectValue, parseArrayValue} \<and>
     length (parseState s) \<le> maxNestingDepth"

lemma inside_update [simp]: "inside (s\<lparr>step := x\<rparr>) \<longleftrightarrow> inside s"
  by (simp add: inside_def)

lemma wf_inside: "wf_scanner s \<Longrightarrow> step s \<noteq> EndTop \<Longrightarrow> inside s"
  by (simp add: wf_scanner_def inside_def)

lemma inside_wf:
  assumes "inside s" "step s \<notin> {Error, EndTop, BeginStringOrEmpty, BeginString, BeginValueOrEmpty}"
  shows "wf_scanner s"
  using assms by (simp add: wf_scanner_def inside_def)

lemma stateEndTop_step:
  assumes "err s = None" "parseState s = []" "step s = EndTop" "endTop s"
  shows "stepped c ws (stateEndTop s c)"
proof (cases "isSpace c")
  case True
  then show ?thesis
    using assms by (simp add: stateEndTop_def stepped_def wf_scanner_def scanner_lang_def lang)
next
  case False
  then show ?thesis by (simp add: stateEndTop_def stepped_def fail_def lang)
qed

lemma pop_step:
  assumes s: "inside s" and ps: "parseState s = xs @ [p]" and v: "v \<noteq> scanError"
    and d: "deriv c L = cont (rev xs)"
  shows "stepped c L (do { s \<leftarrow> popParseState s; Some (s, v) })"
proof (cases "xs = []")
  case True
  then show ?thesis
    using s v d by (simp add: popParseState_snoc [OF ps] stepped_def wf_scanner_def scanner_lang_def inside_def)
next
  case False
  then show ?thesis
    using s ps v d by (simp add: popParseState_snoc [OF ps] stepped_def wf_scanner_def scanner_lang_def inside_def)
qed

lemma cont_snoc: "cont (rev (xs @ [p])) = conc (tail_lang p (maxNestingDepth - Suc (length xs))) (cont (rev xs))"
  by simp

lemma deriv_cont_snoc:
  "deriv c (cont (rev (xs @ [p]))) = conc (deriv c (tail_lang p (maxNestingDepth - Suc (length xs)))) (cont (rev xs))"
  unfolding cont_snoc by (simp add: lang del: deriv_tail_lang(1))

lemma deriv_tail_space:
  assumes "isSpace c" "p = parseObjectKey \<or> p = parseObjectValue \<or> p = parseArrayValue"
  shows "deriv c (tail_lang p d) = tail_lang p d"
  using assms(2)
proof (elim disjE)
  assume "p = parseObjectKey"
  then show ?thesis using assms(1) by (simp add: deriv_tail_lang(1))
qed (use assms(1) in \<open>simp_all add: lang tail_lang.simps\<close>)

lemma stateEndValue_step:
  assumes s: "inside s"
  shows "stepped c (cont (rev (parseState s))) (stateEndValue s c)"
proof (cases "parseState s" rule: rev_cases)
  case Nil
  then show ?thesis
    using stateEndTop_step [of "s\<lparr>step := EndTop, endTop := True\<rparr>" c] s
    by (simp add: stateEndValue_def inside_def)
next
  case (snoc xs p)
  define d where "d = maxNestingDepth - Suc (length xs)"
  have p: "p = parseObjectKey \<or> p = parseObjectValue \<or> p = parseArrayValue"
    using s snoc by (simp add: inside_def)
  have top: "parseState s ! (length (parseState s) - 1) = p" "length (parseState s) \<noteq> 0"
    by (simp_all add: snoc)
  note D = deriv_cont_snoc [of c xs p, folded d_def snoc]
  show ?thesis
  proof (cases "isSpace c")
    case True
    have "deriv c (cont (rev (parseState s))) = cont (rev (parseState s))"
      unfolding D deriv_tail_space [OF True p] by (simp add: snoc d_def)
    then show ?thesis
      using True top(2) s by (simp add: stateEndValue_def stepped_def inside_wf scanner_lang_def)
  next
    case nsp: False
    from p show ?thesis
    proof (elim disjE)
      assume p: "p = parseObjectKey"
      show ?thesis
      proof (cases "c = CHR '':''")
        case True
        then have "stateEndValue s c = Some (s\<lparr>parseState := xs @ [parseObjectValue], step := BeginValue\<rparr>, scanObjectKey)"
          using nsp top p by (simp add: stateEndValue_def Let_def setTop_snoc [OF snoc])
        moreover have "deriv c (cont (rev (parseState s))) =
            scanner_lang (s\<lparr>parseState := xs @ [parseObjectValue], step := BeginValue\<rparr>)"
          using True p unfolding D by (simp add: lang scanner_lang_def value_here_def d_def tail_lang.simps)
        ultimately show ?thesis using s snoc by (simp add: stepped_ok inside_wf inside_def)
      next
        case False
        then have "stateEndValue s c = Some (fail s c ''after object key'')"
          using nsp top p by (simp add: stateEndValue_def Let_def)
        then show ?thesis using False nsp p unfolding D by (simp add: stepped_fail D lang)
      qed
    next
      assume p: "p = parseObjectValue"
      show ?thesis
      proof (cases "c = CHR '','' \<or> c = CHR ''}''")
        case True
        then show ?thesis
        proof
          assume c: "c = CHR '',''"
          then have "stateEndValue s c = Some (s\<lparr>parseState := xs @ [parseObjectKey], step := BeginString\<rparr>, scanObjectValue)"
            using nsp top p by (simp add: stateEndValue_def Let_def setTop_snoc [OF snoc])
          moreover have "deriv c (cont (rev (parseState s))) =
              scanner_lang (s\<lparr>parseState := xs @ [parseObjectKey], step := BeginString\<rparr>)"
            using c p unfolding D by (simp add: lang scanner_lang_def member_of_def d_def tail_lang.simps)
          moreover have "wf_scanner (s\<lparr>parseState := xs @ [parseObjectKey], step := BeginString\<rparr>)"
            using s snoc by (simp add: wf_scanner_def inside_def)
          ultimately show ?thesis by (simp add: stepped_ok)
        next
          assume c: "c = CHR ''}''"
          then have "stateEndValue s c = do { s \<leftarrow> popParseState s; Some (s, scanEndObject) }"
            using nsp top p by (simp add: stateEndValue_def Let_def)
          moreover have "deriv c (cont (rev (parseState s))) = cont (rev xs)"
            using c p unfolding D by (simp add: lang)
          ultimately show ?thesis using pop_step [OF s snoc] by simp
        qed
      next
        case False
        then have "stateEndValue s c = Some (fail s c ''after object key:value pair'')"
          using nsp top p by (simp add: stateEndValue_def Let_def)
        then show ?thesis using False nsp p by (simp add: stepped_fail D lang)
      qed
    next
      assume p: "p = parseArrayValue"
      show ?thesis
      proof (cases "c = CHR '','' \<or> c = CHR '']''")
        case True
        then show ?thesis
        proof
          assume c: "c = CHR '',''"
          then have "stateEndValue s c = Some (s\<lparr>step := BeginValue\<rparr>, scanArrayValue)"
            using nsp top p by (simp add: stateEndValue_def Let_def)
          moreover have "deriv c (cont (rev (parseState s))) = scanner_lang (s\<lparr>step := BeginValue\<rparr>)"
            using c p unfolding D by (simp add: lang scanner_lang_def snoc value_here_def d_def tail_lang.simps)
          ultimately show ?thesis using s by (simp add: stepped_ok inside_wf)
        next
          assume c: "c = CHR '']''"
          then have "stateEndValue s c = do { s \<leftarrow> popParseState s; Some (s, scanEndArray) }"
            using nsp top p by (simp add: stateEndValue_def Let_def)
          moreover have "deriv c (cont (rev (parseState s))) = cont (rev xs)"
            using c p unfolding D by (simp add: lang)
          ultimately show ?thesis using pop_step [OF s snoc] by simp
        qed
      next
        case False
        then have "stateEndValue s c = Some (fail s c ''after array element'')"
          using nsp top p by (simp add: stateEndValue_def Let_def)
        then show ?thesis using False nsp p by (simp add: stepped_fail D lang)
      qed
    qed
  qed
qed

text \<open>The other states.  A number is ended by the byte after it, so \<open>state0\<close>, \<open>state1\<close>, \<open>stateDot0\<close> and \<open>stateE0\<close> go on
  to \<open>stateEndValue\<close>.\<close>

lemma push_step:
  assumes s: "inside s" and p: "p \<in> {parseObjectKey, parseObjectValue, parseArrayValue}" and v: "v \<noteq> scanError"
    and wf: "wf_scanner (s\<lparr>parseState := parseState s @ [p]\<rparr>) \<or> length (parseState s) = maxNestingDepth"
    and d: "deriv c L = (if length (parseState s) = maxNestingDepth then {}
      else scanner_lang (s\<lparr>parseState := parseState s @ [p]\<rparr>))"
  shows "stepped c L (Some (pushParseState s c p v))"
proof (cases "length (parseState s) = maxNestingDepth")
  case True
  then show ?thesis using d by (simp add: pushParseState_def stepped_fail)
next
  case False
  then have "length (parseState s) + 1 \<le> maxNestingDepth" using s by (simp add: inside_def)
  then show ?thesis using False d wf v by (simp add: pushParseState_def stepped_ok)
qed

lemma stateBeginValue_step:
  assumes s: "inside s" and st: "step s = BeginValue \<or> step s = BeginValueOrEmpty"
    and nsp: "\<not> isSpace c"
  shows "stepped c (conc (value_here (rev (parseState s))) (cont (rev (parseState s)))) (stateBeginValue s c)"
proof -
  define d where "d = maxNestingDepth - length (parseState s)"
  have L: "value_here (rev (parseState s)) = json_value d" by (simp add: value_here_def d_def)
  have "d = 0 \<and> length (parseState s) = maxNestingDepth \<or>
      d = Suc (maxNestingDepth - Suc (length (parseState s))) \<and> length (parseState s) \<noteq> maxNestingDepth"
    using s unfolding d_def inside_def by linarith
  note depth = this
  consider "c = CHR ''{''" | "c = CHR ''[''"
    | "c = CHR 0x22 \<or> c = CHR ''-'' \<or> c = CHR ''0'' \<or> c = CHR ''t'' \<or> c = CHR ''f'' \<or> c = CHR ''n''"
    | "c \<noteq> CHR ''{''" "c \<noteq> CHR ''[''" "c \<noteq> CHR 0x22" "c \<noteq> CHR ''-''" "c \<noteq> CHR ''0''" "c \<noteq> CHR ''t''" "c \<noteq> CHR ''f''"
      "c \<noteq> CHR ''n''" by blast
  then show ?thesis
  proof cases
    case 1
    then have "stateBeginValue s c =
        Some (pushParseState (s\<lparr>step := BeginStringOrEmpty\<rparr>) c parseObjectKey scanBeginObject)"
      using nsp by (simp add: stateBeginValue_def)
    moreover have "stepped c (conc (json_value d) (cont (rev (parseState s))))
        (Some (pushParseState (s\<lparr>step := BeginStringOrEmpty\<rparr>) c parseObjectKey scanBeginObject))"
    proof (rule push_step)
      show "deriv c (conc (json_value d) (cont (rev (parseState s)))) =
        (if length (parseState (s\<lparr>step := BeginStringOrEmpty\<rparr>)) = maxNestingDepth then {}
         else scanner_lang (s\<lparr>step := BeginStringOrEmpty, parseState := parseState (s\<lparr>step := BeginStringOrEmpty\<rparr>) @ [parseObjectKey]\<rparr>))"
        using depth 1 by (elim disjE conjE) (simp_all add: lang scanner_lang_def tail_lang.simps member_of_def)
    qed (use s in \<open>auto simp: wf_scanner_def inside_def\<close>)
    ultimately show ?thesis unfolding L by simp
  next
    case 2
    then have "stateBeginValue s c =
        Some (pushParseState (s\<lparr>step := BeginValueOrEmpty\<rparr>) c parseArrayValue scanBeginArray)"
      using nsp by (simp add: stateBeginValue_def)
    moreover have "stepped c (conc (json_value d) (cont (rev (parseState s))))
        (Some (pushParseState (s\<lparr>step := BeginValueOrEmpty\<rparr>) c parseArrayValue scanBeginArray))"
    proof (rule push_step)
      show "deriv c (conc (json_value d) (cont (rev (parseState s)))) =
        (if length (parseState (s\<lparr>step := BeginValueOrEmpty\<rparr>)) = maxNestingDepth then {}
         else scanner_lang (s\<lparr>step := BeginValueOrEmpty, parseState := parseState (s\<lparr>step := BeginValueOrEmpty\<rparr>) @ [parseArrayValue]\<rparr>))"
        using depth 2 by (elim disjE conjE) (simp_all add: lang scanner_lang_def tail_lang.simps value_here_def)
    qed (use s in \<open>auto simp: wf_scanner_def inside_def\<close>)
    ultimately show ?thesis unfolding L by simp
  next
    case 3
    then show ?thesis
      unfolding L using s nsp
      by (elim disjE) (simp_all add: stateBeginValue_def stepped_ok inside_wf scanner_lang_def lang)
  next
    case 4
    then show ?thesis
      unfolding L using s nsp
      by (cases "digit19 c") (simp_all add: stateBeginValue_def stepped_ok stepped_fail inside_wf scanner_lang_def lang)
  qed
qed

lemma deriv_number_tail:
  assumes "c \<noteq> CHR ''.''" "c \<noteq> CHR ''e''" "c \<noteq> CHR ''E''"
  shows "deriv c (conc (opt frac) (conc (opt expo) (cont stk))) = deriv c (cont stk)"
    "deriv c (conc (opt expo) (cont stk)) = deriv c (cont stk)"
  using assms by (simp_all add: lang)

lemma stepped_cong: "stepped c L r \<Longrightarrow> deriv c L' = deriv c L \<Longrightarrow> stepped c L' r"
  by (cases r) (auto simp: stepped_def)

lemma state0_step:
  assumes s: "inside s"
  shows "stepped c (state_lang State0 (rev (parseState s))) (state0 s c)"
proof (cases "c = CHR ''.'' \<or> c = CHR ''e'' \<or> c = CHR ''E''")
  case True
  then show ?thesis
    using s by (elim disjE) (simp_all add: state0_def stepped_ok inside_wf scanner_lang_def lang)
next
  case False
  then have "state0 s c = stateEndValue s c" by (simp add: state0_def)
  then show ?thesis
    using stepped_cong [OF stateEndValue_step [OF s, of c]] deriv_number_tail(1) [of c] False by simp
qed

lemma digit_not_mark [lang]: "\<not> digit CHR ''.''" "\<not> digit CHR ''e''" "\<not> digit CHR ''E''"
  by (simp_all add: digit_iff lang)

lemma state1_step:
  assumes s: "inside s"
  shows "stepped c (state_lang State1 (rev (parseState s))) (state1 s c)"
proof (cases "digit c")
  case True
  then have "c \<noteq> CHR ''.''" "c \<noteq> CHR ''e''" "c \<noteq> CHR ''E''" by (auto simp: lang)
  then show ?thesis
    using s True by (simp add: state1_def stepped_ok inside_wf scanner_lang_def lang)
next
  case False
  then show ?thesis
    using stepped_cong [OF state0_step [OF s, of c], of "state_lang State1 (rev (parseState s))"]
    by (simp add: state1_def lang)
qed

lemma stateDot0_step:
  assumes s: "inside s" and st: "step s = Dot0"
  shows "stepped c (state_lang Dot0 (rev (parseState s))) (stateDot0 s c)"
proof (cases "digit c")
  case True
  then have "c \<noteq> CHR ''.''" "c \<noteq> CHR ''e''" "c \<noteq> CHR ''E''" by (auto simp: lang)
  then show ?thesis
    using s st True by (simp add: stateDot0_def stepped_ok inside_wf scanner_lang_def lang)
next
  case nd: False
  show ?thesis
  proof (cases "c = CHR ''e'' \<or> c = CHR ''E''")
    case True
    then show ?thesis
      using s by (elim disjE) (simp_all add: stateDot0_def stepped_ok inside_wf scanner_lang_def lang)
  next
    case False
    then have "stateDot0 s c = stateEndValue s c" using nd by (simp add: stateDot0_def)
    moreover have "deriv c (state_lang Dot0 (rev (parseState s))) = deriv c (cont (rev (parseState s)))"
      using nd False by (simp add: lang)
    ultimately show ?thesis using stepped_cong [OF stateEndValue_step [OF s, of c]] by simp
  qed
qed

lemma stateE0_step:
  assumes s: "inside s" and st: "step s = E0"
  shows "stepped c (state_lang E0 (rev (parseState s))) (stateE0 s c)"
proof (cases "digit c")
  case True
  then show ?thesis
    using s st by (simp add: stateE0_def stepped_ok inside_wf scanner_lang_def lang)
next
  case False
  then have "deriv c (state_lang E0 (rev (parseState s))) = deriv c (cont (rev (parseState s)))" by (simp add: lang)
  then show ?thesis using False stepped_cong [OF stateEndValue_step [OF s, of c]] by (simp add: stateE0_def)
qed

lemma sign_not_digit [lang]: "\<not> digit CHR ''+''" "\<not> digit CHR ''-''"
  by (simp_all add: digit_iff lang)

lemma stateE_step:
  assumes s: "inside s"
  shows "stepped c (state_lang StateE (rev (parseState s))) (stateE s c)"
proof (cases "c = CHR ''+'' \<or> c = CHR ''-''")
  case True
  then show ?thesis
    using s by (elim disjE) (simp_all add: stateE_def stepped_ok inside_wf scanner_lang_def lang)
next
  case False
  then show ?thesis
    using s by (cases "digit c") (simp_all add: stateE_def stateESign_def stepped_ok stepped_fail inside_wf scanner_lang_def lang)
qed

lemma bracket_not_value [lang]:
  "deriv CHR '']'' (value_here stk) = {}" "deriv CHR ''}'' str = {}"
  by (simp_all add: value_here_def lang)

lemma nil_value_here [lang]: "[] \<notin> value_here stk"
  by (simp add: value_here_def lang)

lemma space_not_value:
  assumes "isSpace c"
  shows "deriv c (value_here stk) = {}" "c \<noteq> CHR '']''" "c \<noteq> CHR ''}''" "c \<noteq> CHR 0x22"
  using assms by (auto simp: isSpace_iff value_here_def lang)

lemma stateBeginValueOrEmpty_step:
  assumes wf: "wf_scanner s" and st: "step s = BeginValueOrEmpty"
  shows "stepped c (scanner_lang s) (stateBeginValueOrEmpty s c)"
proof -
  have s: "inside s" using wf st by (simp add: wf_inside)
  obtain xs where ps: "parseState s = xs @ [parseArrayValue]"
    using wf st by (metis append_butlast_last_id wf_scanner_def)
  consider "isSpace c" | "\<not> isSpace c" "c = CHR '']''" | "\<not> isSpace c" "c \<noteq> CHR '']''" by blast
  then show ?thesis
  proof cases
    case 1
    then have "deriv c (scanner_lang s) = scanner_lang s"
      using st by (simp add: scanner_lang_def space_not_value lang)
    then show ?thesis using 1 wf by (simp add: stateBeginValueOrEmpty_def stepped_ok)
  next
    case 2
    have "deriv c (scanner_lang s) = deriv c (cont (rev (parseState s)))"
      using 2 st ps by (simp add: scanner_lang_def lang tail_lang.simps)
    then show ?thesis
      using 2 stepped_cong [OF stateEndValue_step [OF s, of c]] by (simp add: stateBeginValueOrEmpty_def)
  next
    case 3
    have "deriv c (scanner_lang s) = deriv c (conc (value_here (rev (parseState s))) (cont (rev (parseState s))))"
      using 3 st by (simp add: scanner_lang_def lang)
    then show ?thesis
      using 3 st stepped_cong [OF stateBeginValue_step [OF s _ 3(1)]] by (simp add: stateBeginValueOrEmpty_def)
  qed
qed

lemma stateBeginString_step:
  assumes wf: "wf_scanner s" and st: "step s = BeginString \<or> step s = BeginStringOrEmpty" and nsp: "\<not> isSpace c"
  shows "stepped c (conc str (cont (rev (parseState s)))) (stateBeginString s c)"
proof -
  have s: "inside s" using wf st by (auto simp: wf_inside)
  show ?thesis
    using s nsp by (cases "c = CHR 0x22")
      (simp_all add: stateBeginString_def stepped_ok stepped_fail inside_wf scanner_lang_def lang)
qed

lemma stateBeginStringOrEmpty_step:
  assumes wf: "wf_scanner s" and st: "step s = BeginStringOrEmpty"
  shows "stepped c (scanner_lang s) (stateBeginStringOrEmpty s c)"
proof -
  have s: "inside s" using wf st by (simp add: wf_inside)
  obtain xs where ps: "parseState s = xs @ [parseObjectKey]"
    using wf st by (metis append_butlast_last_id wf_scanner_def)
  consider "isSpace c" | "\<not> isSpace c" "c = CHR ''}''" | "\<not> isSpace c" "c \<noteq> CHR ''}''" by blast
  then show ?thesis
  proof cases
    case 1
    then have "deriv c (scanner_lang s) = scanner_lang s"
      using st by (simp add: scanner_lang_def space_not_value lang)
    then show ?thesis using 1 wf by (simp add: stateBeginStringOrEmpty_def stepped_ok)
  next
    case 2
    define s' where "s' = s\<lparr>parseState := xs @ [parseObjectValue]\<rparr>"
    have s': "inside s'" using s ps by (simp add: s'_def inside_def)
    have "deriv c (scanner_lang s) = deriv c (cont (rev (parseState s')))"
      using 2 st ps by (simp add: scanner_lang_def lang tail_lang.simps s'_def)
    then show ?thesis
      using 2 stepped_cong [OF stateEndValue_step [OF s', of c]]
      by (simp add: stateBeginStringOrEmpty_def setTop_snoc [OF ps] s'_def)
  next
    case 3
    have "deriv c (scanner_lang s) = deriv c (conc str (cont (rev (parseState s))))"
      using 3 st by (simp add: scanner_lang_def lang)
    then show ?thesis
      using 3 st stepped_cong [OF stateBeginString_step [OF wf _ 3(1)]] by (simp add: stateBeginStringOrEmpty_def)
  qed
qed

lemma string_step:
  assumes s: "inside s" and st: "step s \<in> {InString, InStringEsc, InStringEscU, InStringEscU1, InStringEscU12, InStringEscU123}"
  shows "stepped c (scanner_lang s) (step_func s c)"
proof -
  have esc: "(c = CHR ''b'' \<or> c = CHR ''f'' \<or> c = CHR ''n'' \<or> c = CHR ''r'' \<or> c = CHR ''t'' \<or>
         c = CHR 0x5C \<or> c = CHR ''/'' \<or> c = CHR 0x22) \<or> c = CHR ''u'' \<or>
      (c \<noteq> CHR ''b'' \<and> c \<noteq> CHR ''f'' \<and> c \<noteq> CHR ''n'' \<and> c \<noteq> CHR ''r'' \<and> c \<noteq> CHR ''t'' \<and>
         c \<noteq> CHR 0x5C \<and> c \<noteq> CHR ''/'' \<and> c \<noteq> CHR 0x22 \<and> c \<noteq> CHR ''u'')" by blast
  have "step s = InString \<or> step s = InStringEsc \<or> step s = InStringEscU \<or> step s = InStringEscU1 \<or>
      step s = InStringEscU12 \<or> step s = InStringEscU123" using st by simp
  then show ?thesis
  proof (elim disjE)
    assume st: "step s = InString"
    consider "c = CHR 0x22" | "c = CHR 0x5C" | "c \<noteq> CHR 0x22" "c \<noteq> CHR 0x5C" "c < CHR 0x20"
      | "c \<noteq> CHR 0x22" "c \<noteq> CHR 0x5C" "\<not> c < CHR 0x20" by blast
    then show ?thesis
      by cases (use s st in \<open>simp_all add: step_func_def stateInString_def stepped_ok stepped_fail inside_wf scanner_lang_def lang\<close>)
  next
    assume st: "step s = InStringEsc"
    show ?thesis
      using esc by (elim disjE) (use s st in \<open>simp_all add: step_func_def stateInStringEsc_def stepped_ok stepped_fail
          inside_wf scanner_lang_def escape_def lang\<close>)
  qed (use s in \<open>cases "hexdigit c";
      simp add: step_func_def stateInStringEscU_def stateInStringEscU1_def stateInStringEscU12_def
        stateInStringEscU123_def stepped_ok stepped_fail inside_wf scanner_lang_def lang\<close>)+
qed

lemma simple_step:
  assumes s: "inside s" and st: "step s \<in> {Neg, Dot, ESign, StateT, Tr, Tru, StateF, Fa, Fal, Fals, StateN, Nu, Nul}"
  shows "stepped c (scanner_lang s) (step_func s c)"
proof (cases "digit c")
  case True
  then have "c = CHR ''0'' \<or> c \<noteq> CHR ''0'' \<and> digit19 c" by (auto simp: digit_iff lang)
  moreover have "c \<notin> {CHR ''r'', CHR ''u'', CHR ''e'', CHR ''a'', CHR ''l'', CHR ''s''}"
    using True by (auto simp: digit_def)
  ultimately show ?thesis
    using s st True by (cases "step s") (auto simp: step_func_def stateNeg_def stateDot_def stateESign_def stateT_def stateTr_def
        stateTru_def stateF_def stateFa_def stateFal_def stateFals_def stateN_def stateNu_def stateNul_def
        stepped_ok stepped_fail inside_wf scanner_lang_def lang)
next
  case False
  then have "c \<noteq> CHR ''0''" "\<not> digit19 c" by (auto simp: digit_iff)
  then show ?thesis
    using s st False by (cases "step s"; simp add: step_func_def stateNeg_def stateDot_def stateESign_def stateT_def stateTr_def
        stateTru_def stateF_def stateFa_def stateFal_def stateFals_def stateN_def stateNu_def stateNul_def
        stepped_ok stepped_fail inside_wf scanner_lang_def lang)
qed

lemma step_stepped:
  assumes wf: "wf_scanner s"
  shows "stepped c (scanner_lang s) (step_func s c)"
proof (cases "step s = EndTop")
  case True
  then show ?thesis using wf stateEndTop_step [of s c] by (simp add: wf_scanner_def scanner_lang_def step_func_def)
next
  case False
  have s: "inside s" using wf False by (rule wf_inside)
  consider "step s = BeginValueOrEmpty" | "step s = BeginValue" | "step s = BeginStringOrEmpty" | "step s = BeginString"
    | "step s = EndValue" | "step s \<in> {State1, State0, Dot0, StateE, E0}"
    | "step s \<in> {InString, InStringEsc, InStringEscU, InStringEscU1, InStringEscU12, InStringEscU123}"
    | "step s \<in> {Neg, Dot, ESign, StateT, Tr, Tru, StateF, Fa, Fal, Fals, StateN, Nu, Nul}"
    using wf False by (cases "step s") (auto simp: wf_scanner_def)
  then show ?thesis
  proof cases
    case 1
    then show ?thesis using stateBeginValueOrEmpty_step [OF wf] by (simp add: step_func_def)
  next
    case 2
    show ?thesis
    proof (cases "isSpace c")
      case True
      then show ?thesis
        using 2 wf by (simp add: step_func_def stateBeginValue_def stepped_ok scanner_lang_def lang space_not_value)
    next
      case False
      then show ?thesis
        using 2 stepped_cong [OF stateBeginValue_step [OF s _ False]] by (simp add: step_func_def scanner_lang_def lang)
    qed
  next
    case 3
    then show ?thesis using stateBeginStringOrEmpty_step [OF wf] by (simp add: step_func_def)
  next
    case 4
    show ?thesis
    proof (cases "isSpace c")
      case True
      then have "deriv c (scanner_lang s) = scanner_lang s"
        using 4 by (simp add: scanner_lang_def space_not_value lang)
      then show ?thesis using 4 True wf by (simp add: step_func_def stateBeginString_def stepped_ok)
    next
      case False
      then show ?thesis
        using 4 stepped_cong [OF stateBeginString_step [OF wf _ False]] by (simp add: step_func_def scanner_lang_def lang)
    qed
  next
    case 5
    then show ?thesis using stateEndValue_step [OF s] by (simp add: step_func_def scanner_lang_def)
  next
    case 6
    then show ?thesis
      using state1_step [OF s] state0_step [OF s] stateDot0_step [OF s] stateE_step [OF s] stateE0_step [OF s]
      unfolding step_func_def scanner_lang_def by fastforce
  next
    case 7
    then show ?thesis by (rule string_step [OF s])
  next
    case 8
    then show ?thesis by (rule simple_step [OF s])
  qed
qed

subsection \<open>Whole inputs\<close>

lemma consumed_update [simp]:
  "wf_scanner (s\<lparr>consumed := n\<rparr>) \<longleftrightarrow> wf_scanner s" "scanner_lang (s\<lparr>consumed := n\<rparr>) = scanner_lang s"
  by (simp_all add: wf_scanner_def scanner_lang_def)

text \<open>Once in the error state, every call returns \<open>scanError\<close>.\<close>

lemma error_step: "step s = Error \<Longrightarrow> step_func s c = Some (s, scanError)"
  by (simp add: step_func_def stateError_def)

lemma checkValid_loop_error:
  assumes "step s = Error" "err s \<noteq> None"
  shows "\<exists>s'. checkValid_loop s cs = Some (s', err s)"
  using assms by (cases cs) (auto simp: eof_def error_step)

lemma nil_state_lang:
  assumes "\<not> endTop s" "step s \<noteq> EndTop"
  shows "[] \<in> scanner_lang s \<longleftrightarrow> parseState s = [] \<and> step s \<in> {EndValue, State1, State0, Dot0, E0}"
  using assms by (cases "step s") (auto simp: scanner_lang_def lang escape_def value_here_def)

lemma space_mark [lang]: "\<not> digit CHR '' ''" "\<not> hexdigit CHR '' ''"
  by (simp_all add: digit_iff lang hexdigit_def)

lemma space_end_value:
  assumes "stateEndValue s (CHR '' '') = Some (s', v)" "\<not> endTop s"
  shows "endTop s' \<longleftrightarrow> parseState s = []"
  using assms by (auto simp: stateEndValue_def stateEndTop_def lang Let_def split: if_splits)

lemma space_step:
  assumes wf: "wf_scanner s" and n: "\<not> endTop s" and s': "step_func s (CHR '' '') = Some (s', v)"
  shows "endTop s' \<longleftrightarrow> parseState s = [] \<and> step s \<in> {EndValue, State1, State0, Dot0, E0}"
proof (cases "step s \<in> {EndValue, State1, State0, Dot0, E0}")
  case True
  then have "stateEndValue s (CHR '' '') = Some (s', v)"
    using s' by (auto simp: step_func_def state1_def state0_def stateDot0_def stateE0_def lang)
  then show ?thesis using space_end_value n True by blast
next
  case False
  then show ?thesis using n s' wf
    by (cases "step s") (auto simp: step_func_def stateBeginValueOrEmpty_def stateBeginValue_def stateBeginStringOrEmpty_def
        stateBeginString_def stateInString_def stateInStringEsc_def stateInStringEscU_def stateInStringEscU1_def
        stateInStringEscU12_def stateInStringEscU123_def stateNeg_def stateDot_def stateE_def stateESign_def stateT_def
        stateTr_def stateTru_def stateF_def stateFa_def stateFal_def stateFals_def stateN_def stateNu_def stateNul_def
        fail_def wf_scanner_def lang)
qed

text \<open>At the end of the input the scanner tries a space: it completes exactly a value that is complete.\<close>

lemma eof_correct:
  assumes wf: "wf_scanner s"
  shows "\<exists>s' v. eof s = Some (s', v) \<and> (v = scanError \<longleftrightarrow> [] \<notin> scanner_lang s) \<and> (v = scanError \<longrightarrow> err s' \<noteq> None)"
proof (cases "endTop s")
  case True
  then show ?thesis using wf by (simp add: eof_def wf_scanner_def scanner_lang_def lang)
next
  case False
  then have ne: "step s \<noteq> EndTop" using wf by (simp add: wf_scanner_def)
  have e: "err s = None" using wf by (simp add: wf_scanner_def)
  obtain s' v where s': "step_func s (CHR '' '') = Some (s', v)"
    using step_stepped [OF wf, of "CHR '' ''"] by (cases "step_func s (CHR '' '')") (auto simp: stepped_def)
  have "endTop s' \<longleftrightarrow> [] \<in> scanner_lang s"
    using s' unfolding nil_state_lang [OF False ne] by (rule space_step [OF wf False])
  then show ?thesis using False e s' by (auto simp: eof_def)
qed

lemma checkValid_loop_correct:
  assumes "wf_scanner s"
  shows "\<exists>s' e. checkValid_loop s cs = Some (s', e) \<and> (e = None \<longleftrightarrow> cs \<in> scanner_lang s)"
  using assms
proof (induction cs arbitrary: s)
  case Nil
  then show ?case using eof_correct [OF Nil] by fastforce
next
  case (Cons c cs)
  define t where "t = s\<lparr>consumed := consumed s + 1\<rparr>"
  have t: "wf_scanner t" "scanner_lang t = scanner_lang s" using Cons.prems by (simp_all add: t_def)
  obtain s' v where s': "step_func t c = Some (s', v)"
    using step_stepped [OF t(1), of c] by (cases "step_func t c") (auto simp: stepped_def)
  consider "v \<noteq> scanError" "wf_scanner s'" "deriv c (scanner_lang s) = scanner_lang s'"
    | "err s' \<noteq> None" "step s' = Error" "deriv c (scanner_lang s) = {}"
    using step_stepped [OF t(1), of c] t(2) s' by (auto simp: stepped_def)
  then show ?case
  proof cases
    case 1
    have "c # cs \<in> scanner_lang s \<longleftrightarrow> cs \<in> scanner_lang s'" using 1(3) in_deriv by blast
    then show ?thesis using Cons.IH [OF 1(2)] 1(1) s' by (simp add: t_def [symmetric])
  next
    case 2
    have "c # cs \<notin> scanner_lang s" using 2(3) in_deriv by blast
    then show ?thesis
      using checkValid_loop_error [OF 2(2,1), of cs] s' 2(1) by (cases "v = scanError") (auto simp: t_def [symmetric])
  qed
qed

lemma wf_reset: "wf_scanner (reset s)"
  by (simp add: reset_def wf_scanner_def)

lemma lang_reset: "scanner_lang (reset s) = json_text maxNestingDepth"
  by (simp add: reset_def scanner_lang_def json_text_def value_here_def)

subsection \<open>Properties\<close>

text \<open>C32: \<open>Valid\<close> accepts exactly the JSON texts (RFC 8259) whose arrays and objects nest at most
  \<open>maxNestingDepth\<close> deep, whatever scanner the pool hands out; it always returns and never panics.\<close>

theorem Valid_iff_json_text: "Valid pooled data = Some (data \<in> json_text maxNestingDepth)"
proof -
  obtain s' e where "checkValid data (newScanner pooled) = Some (s', e)" "e = None \<longleftrightarrow> data \<in> json_text maxNestingDepth"
    unfolding checkValid_def
    using checkValid_loop_correct [OF wf_reset, of "newScanner pooled" data] unfolding lang_reset by blast
  then show ?thesis by (simp add: Valid_def)
qed


text \<open>A client feeds bytes to the scanner and looks at the opcodes (\<open>Compact\<close>, \<open>Indent\<close> and the decoder
  do), or ignores them.\<close>

primrec feed :: "scanner \<Rightarrow> string \<Rightarrow> (scanner \<times> opcode list) go" where
  "feed s [] = Some (s, [])"
| "feed s (c # cs) =
     do { (s, v) \<leftarrow> step_func s c; (s, vs) \<leftarrow> feed s cs; Some (s, v # vs) }"

definition opens :: "opcode list \<Rightarrow> nat" where
  "opens vs = length (filter (\<lambda>v. v = scanBeginObject \<or> v = scanBeginArray) vs)"

definition closes :: "opcode list \<Rightarrow> nat" where
  "closes vs = length (filter (\<lambda>v. v = scanEndObject \<or> v = scanEndArray) vs)"

lemma pushParseState_depth:
  "pushParseState s c p v = (s', w) \<Longrightarrow> err s' = None \<Longrightarrow> w = v \<and> length (parseState s') = length (parseState s) + 1"
  by (auto simp: pushParseState_def fail_def Let_def split: if_splits)

lemma stateEndValue_depth:
  assumes "stateEndValue s c = Some (s', v)" "err s' = None"
  shows "length (parseState s) + opens [v] = length (parseState s') + closes [v]"
  using assms
  by (cases "length (parseState s)")
    (auto simp: stateEndValue_def stateEndTop_def setTop_def popParseState_def fail_def opens_def closes_def Let_def
      split: if_splits bind_splits)

lemma stateBeginValue_depth:
  assumes "stateBeginValue s c = Some (s', v)" "err s' = None"
  shows "length (parseState s) + opens [v] = length (parseState s') + closes [v]"
  using assms
  by (auto simp: stateBeginValue_def pushParseState_def Let_def fail_def opens_def closes_def split: if_splits)

lemma stateBeginString_depth:
  assumes "stateBeginString s c = Some (s', v)" "err s' = None"
  shows "length (parseState s) + opens [v] = length (parseState s') + closes [v]"
  using assms by (auto simp: stateBeginString_def fail_def opens_def closes_def split: if_splits)

lemma simple_depth:
  assumes "v = scanContinue" "parseState s' = parseState s"
  shows "length (parseState s) + opens [v] = length (parseState s') + closes [v]"
  using assms by (simp add: opens_def closes_def)

lemma step_in_token:
  assumes "step s \<in> {InString, InStringEsc, InStringEscU, InStringEscU1, InStringEscU12, InStringEscU123,
      Neg, Dot, ESign, StateE, StateT, Tr, Tru, StateF, Fa, Fal, Fals, StateN, Nu, Nul}"
  shows "step_func s c = Some (s', v) \<longrightarrow> parseState s' = parseState s \<and> (v = scanContinue \<or> v = scanError)"
  using assms
  by (cases "step s")
    (auto simp: step_func_def stateInString_def stateInStringEsc_def stateInStringEscU_def
      stateInStringEscU1_def stateInStringEscU12_def stateInStringEscU123_def stateNeg_def
      stateDot_def stateE_def stateESign_def stateT_def
      stateTr_def stateTru_def stateF_def stateFa_def stateFal_def stateFals_def stateN_def stateNu_def stateNul_def
      fail_def split: if_splits)

lemma step_at_end:
  assumes "step s \<in> {EndValue, State1, State0, Dot0, E0}"
  shows "step_func s c = Some (s', v) \<longrightarrow>
    stateEndValue s c = Some (s', v) \<or> parseState s' = parseState s \<and> v = scanContinue"
  using assms
  by (cases "step s") (auto simp: step_func_def state1_def state0_def stateDot0_def stateE0_def)

lemma step_depth:
  assumes s': "step_func s c = Some (s', v)" and e: "err s' = None" and v: "v \<noteq> scanError"
  shows "length (parseState s) + opens [v] = length (parseState s') + closes [v]"
proof -
  note depth = stateEndValue_depth [OF _ e] stateBeginValue_depth [OF _ e] stateBeginString_depth [OF _ e]
  have "step s \<in> {InString, InStringEsc, InStringEscU, InStringEscU1, InStringEscU12, InStringEscU123,
        Neg, Dot, ESign, StateE, StateT, Tr, Tru, StateF, Fa, Fal, Fals, StateN, Nu, Nul} \<or>
      step s \<in> {EndValue, State1, State0, Dot0, E0} \<or> (step s = BeginValueOrEmpty \<or> step s = BeginValue) \<or>
      step s = BeginString \<or> step s = Error \<or> step s = BeginStringOrEmpty \<or> step s = EndTop"
    by (cases "step s") simp_all
  then show ?thesis
  proof (elim disjE)
    assume "step s \<in> {InString, InStringEsc, InStringEscU, InStringEscU1, InStringEscU12, InStringEscU123,
        Neg, Dot, ESign, StateE, StateT, Tr, Tru, StateF, Fa, Fal, Fals, StateN, Nu, Nul}"
    then have "parseState s' = parseState s" "v = scanContinue" using step_in_token s' v by blast+
    then show ?thesis by (simp add: opens_def closes_def)
  next
    assume "step s \<in> {EndValue, State1, State0, Dot0, E0}"
    then have "stateEndValue s c = Some (s', v) \<or> parseState s' = parseState s \<and> v = scanContinue"
      using step_at_end s' by blast
    then show ?thesis
    proof
      assume "stateEndValue s c = Some (s', v)"
      then show ?thesis by (rule depth)
    qed (simp add: opens_def closes_def)
  next
    assume "step s = BeginStringOrEmpty"
    then have "stateBeginString s c = Some (s', v) \<or> s' = s \<and> v = scanSkipSpace \<or>
        (\<exists>t. setTop s parseObjectValue = Some t \<and> stateEndValue t c = Some (s', v))"
      using s' by (auto simp: step_func_def stateBeginStringOrEmpty_def split: if_splits bind_splits)
    then show ?thesis
    proof (elim disjE exE conjE)
      fix t assume t: "setTop s parseObjectValue = Some t" "stateEndValue t c = Some (s', v)"
      then have "length (parseState t) = length (parseState s)" by (auto simp: setTop_def split: if_splits)
      then show ?thesis using stateEndValue_depth [OF t(2) e] by simp
    next
      assume "stateBeginString s c = Some (s', v)"
      then show ?thesis by (rule depth)
    qed (simp add: opens_def closes_def)
  next
    assume "step s = BeginValueOrEmpty"
    then have "stateEndValue s c = Some (s', v) \<or> stateBeginValue s c = Some (s', v) \<or> s' = s \<and> v = scanSkipSpace"
      using s' by (auto simp: step_func_def stateBeginValueOrEmpty_def split: if_splits)
    then show ?thesis
    proof (elim disjE conjE)
      assume "stateEndValue s c = Some (s', v)"
      then show ?thesis by (rule depth)
    next
      assume "stateBeginValue s c = Some (s', v)"
      then show ?thesis by (rule depth)
    qed (simp add: opens_def closes_def)
  next
    assume "step s = BeginValue"
    then show ?thesis using s' depth(2) by (simp add: step_func_def)
  next
    assume "step s = BeginString"
    then show ?thesis using s' depth(3) by (simp add: step_func_def)
  next
    assume "step s = Error"
    then show ?thesis using s' v by (simp add: step_func_def stateError_def)
  next
    assume "step s = EndTop"
    then show ?thesis using s'
      by (auto simp: step_func_def stateEndTop_def Let_def fail_def opens_def closes_def split: if_splits)
  qed
qed

lemma opens_closes_Cons: "opens (v # vs) = opens [v] + opens vs" "closes (v # vs) = closes [v] + closes vs"
  by (simp_all add: opens_def closes_def)

lemma feed_error: "step s = Error \<Longrightarrow> feed s cs = Some (s, replicate (length cs) scanError)"
  by (induction cs) (simp_all add: error_step)

lemma feed_safe:
  assumes "wf_scanner s"
  shows "\<exists>s' vs n. feed s cs = Some (s', vs @ replicate n scanError) \<and> scanError \<notin> set vs \<and>
     length vs + n = length cs \<and>
     (err s' \<noteq> None \<or> n = 0 \<and> length (parseState s) + opens vs = length (parseState s') + closes vs \<and> wf_scanner s')"
  using assms
proof (induction cs arbitrary: s)
  case Nil
  then show ?case by (intro exI [of _ s] exI [of _ "[]"] exI [of _ 0]) (simp add: opens_def closes_def)
next
  case (Cons c cs)
  obtain s1 v where s1: "step_func s c = Some (s1, v)"
    using step_stepped [OF Cons.prems, of c] by (cases "step_func s c") (auto simp: stepped_def)
  consider "v \<noteq> scanError" "wf_scanner s1" | "v = scanError" "err s1 \<noteq> None" "step s1 = Error"
    | "v = scanEnd" "err s1 \<noteq> None" "step s1 = Error"
    using step_stepped [OF Cons.prems, of c] s1 by (auto simp: stepped_def)
  then show ?case
  proof cases
    case 1
    obtain s' vs n where f: "feed s1 cs = Some (s', vs @ replicate n scanError)" "scanError \<notin> set vs"
      "length vs + n = length cs"
      "err s' \<noteq> None \<or> n = 0 \<and> length (parseState s1) + opens vs = length (parseState s') + closes vs \<and> wf_scanner s'"
      using Cons.IH [OF 1(2)] by blast
    have "length (parseState s) + opens [v] = length (parseState s1) + closes [v]"
      using step_depth [OF s1 _ 1(1)] 1(2) by (simp add: wf_scanner_def)
    then show ?thesis using f s1 1(1)
      by (intro exI [of _ s'] exI [of _ "v # vs"] exI [of _ n]) (auto simp: opens_closes_Cons [of v vs])
  next
    case 2
    then show ?thesis using s1 feed_error [OF 2(3), of cs]
      by (intro exI [of _ s1] exI [of _ "[]"] exI [of _ "Suc (length cs)"]) simp
  next
    case 3
    then show ?thesis using s1 feed_error [OF 3(3), of cs]
      by (intro exI [of _ s1] exI [of _ "[scanEnd]"] exI [of _ "length cs"]) simp
  qed
qed

text \<open>C33: for every sequence of bytes the scanner never panics, and the opcodes describe the nesting: as long as
  there is no error, \<open>parseState\<close> has one entry per open bracket, at most \<open>maxNestingDepth\<close>, each a
  valid parse state.  Once a call has returned \<open>scanError\<close>, every later one does.\<close>

theorem scanner_safe:
  "\<exists>s vs n. feed (reset s0) data = Some (s, vs @ replicate n scanError) \<and> scanError \<notin> set vs \<and>
     length vs + n = length data \<and>
     (case err s of Some _ \<Rightarrow> True
      | None \<Rightarrow> n = 0 \<and> length (parseState s) + closes vs = opens vs \<and> length (parseState s) \<le> maxNestingDepth \<and>
        set (parseState s) \<subseteq> {parseObjectKey, parseObjectValue, parseArrayValue})"
proof -
  obtain s vs n where f: "feed (reset s0) data = Some (s, vs @ replicate n scanError)" "scanError \<notin> set vs"
    "length vs + n = length data"
    "err s \<noteq> None \<or> n = 0 \<and> length (parseState (reset s0)) + opens vs = length (parseState s) + closes vs \<and> wf_scanner s"
    using feed_safe [OF wf_reset, of s0 data] by (elim exE conjE) (rule that)
  have "parseState (reset s0) = []" by (simp add: reset_def)
  then have "case err s of Some _ \<Rightarrow> True
      | None \<Rightarrow> n = 0 \<and> length (parseState s) + closes vs = opens vs \<and> length (parseState s) \<le> maxNestingDepth \<and>
        set (parseState s) \<subseteq> {parseObjectKey, parseObjectValue, parseArrayValue}"
    using f(4) unfolding wf_scanner_def by (cases "err s") simp_all
  then show ?thesis
    by (intro exI conjI) (rule f(1), rule f(2), rule f(3))
qed
end
