(* ===== verification/JsonIndent.thy ===== *)
theory JsonIndent
  imports JsonScanner
begin

text \<open>
  \<open>encoding/json/indent.go\<close>: \<open>Compact\<close>, \<open>HTMLEscape\<close> and \<open>Indent\<close> with the functions that do the work,
  and \<open>isValidNumber\<close> of \<open>encode.go\<close>.  A \<open>bytes.Buffer\<close> is its contents.  The reference functions
  \<open>strip\<close> (drop white space outside strings), \<open>html\<close> (escape) and \<open>indented\<close> (lay out) say what the loops compute.
\<close>

subsection \<open>The code\<close>

definition slice :: "string \<Rightarrow> nat \<Rightarrow> nat \<Rightarrow> string go" where
  "slice src a b = (if a \<le> b \<and> b \<le> length src then Some (take (b - a) (drop a src)) else None)"

definition escaped00 :: "char \<Rightarrow> string" where
  "escaped00 c = [CHR 0x5C, CHR ''u'', CHR ''0'', CHR ''0'', hexdigits ! (of_char c div 16), hexdigits ! (of_char c mod 16)]"

definition escaped202 :: "char \<Rightarrow> string" where
  "escaped202 c = [CHR 0x5C, CHR ''u'', CHR ''2'', CHR ''0'', CHR ''2'', hexdigits ! (of_char c mod 16)]"

text \<open>The test for the bytes of U+2028 and U+2029 at index \<open>i\<close>; \<open>x &^ 1\<close> clears the lowest bit.\<close>

definition line_sep :: "string \<Rightarrow> nat \<Rightarrow> bool" where
  "line_sep src i \<longleftrightarrow> src ! i = CHR 0xE2 \<and> i + 2 < length src \<and> src ! (i + 1) = CHR 0x80 \<and>
     (of_char (src ! (i + 2)) :: nat) div 2 * 2 = 0xA8"

definition appendHTMLEscape_step :: "string \<Rightarrow> nat \<Rightarrow> string \<times> nat \<Rightarrow> (string \<times> nat) go" where
  "appendHTMLEscape_step src i = (\<lambda>(dst, start).
     do { (dst, start) \<leftarrow>
            (if src ! i = CHR ''<'' \<or> src ! i = CHR ''>'' \<or> src ! i = CHR ''&'' then
               do { part \<leftarrow> slice src start i; Some (dst @ part @ escaped00 (src ! i), i + 1) }
             else Some (dst, start));
          if line_sep src i then
            do { part \<leftarrow> slice src start i; Some (dst @ part @ escaped202 (src ! (i + 2)), i + 3) }
          else Some (dst, start) })"

function appendHTMLEscape_loop :: "string \<Rightarrow> nat \<Rightarrow> string \<times> nat \<Rightarrow> (string \<times> nat) go" where
  "appendHTMLEscape_loop src i st =
     (if i < length src then
        (case appendHTMLEscape_step src i st of None \<Rightarrow> None | Some st \<Rightarrow> appendHTMLEscape_loop src (i + 1) st)
      else Some st)"
  by pat_completeness auto
termination by (relation "measure (\<lambda>(src, i, st). length src - i)") auto

declare appendHTMLEscape_loop.simps [simp del]

definition appendHTMLEscape :: "string \<Rightarrow> string \<Rightarrow> string go" where
  "appendHTMLEscape dst src =
     do { (dst, start) \<leftarrow> appendHTMLEscape_loop src 0 (dst, 0);
          part \<leftarrow> slice src start (length src);
          Some (dst @ part) }"

definition HTMLEscape :: "string \<Rightarrow> string \<Rightarrow> string go" where
  "HTMLEscape buffer src = do { b \<leftarrow> appendHTMLEscape [] src; Some (buffer @ b) }"

text \<open>\<open>if start < i { dst = append(dst, src[start:i]...) }\<close>\<close>

definition flush :: "string \<Rightarrow> nat \<Rightarrow> string \<times> nat \<Rightarrow> string" where
  "flush src i = (\<lambda>(dst, start). if start < i then dst @ take (i - start) (drop start src) else dst)"

definition appendCompact_escape :: "string \<Rightarrow> bool \<Rightarrow> nat \<Rightarrow> string \<times> nat \<Rightarrow> string \<times> nat" where
  "appendCompact_escape src esc i st =
     (let st = (if esc \<and> (src ! i = CHR ''<'' \<or> src ! i = CHR ''>'' \<or> src ! i = CHR ''&'')
                then (flush src i st @ escaped00 (src ! i), i + 1) else st)
      in if esc \<and> line_sep src i then (flush src i st @ escaped202 (src ! (i + 2)), i + 3) else st)"

function appendCompact_loop :: "string \<Rightarrow> bool \<Rightarrow> nat \<Rightarrow> scanner \<Rightarrow> string \<times> nat \<Rightarrow> (scanner \<times> string \<times> nat) go" where
  "appendCompact_loop src esc i scan st =
     (if i < length src then
        (let st = appendCompact_escape src esc i st in
         case step_func scan (src ! i) of
           None \<Rightarrow> None
         | Some (scan, v) \<Rightarrow>
             if v \<ge> scanSkipSpace then
               if v = scanError then Some (scan, st)
               else appendCompact_loop src esc (i + 1) scan (flush src i st, i + 1)
             else appendCompact_loop src esc (i + 1) scan st)
      else Some (scan, st))"
  by pat_completeness auto
termination by (relation "measure (\<lambda>(src, esc, i, scan, st). length src - i)") auto

declare appendCompact_loop.simps [simp del]

definition appendCompact :: "scanner \<Rightarrow> string \<Rightarrow> string \<Rightarrow> bool \<Rightarrow> (string \<times> SyntaxError option) go" where
  "appendCompact pooled dst src esc =
     do { (scan, dst', start) \<leftarrow> appendCompact_loop src esc 0 (newScanner pooled) (dst, 0);
          (scan, v) \<leftarrow> eof scan;
          Some (if v = scanError then (take (length dst) dst', err scan)
                else (if start < length src then dst' @ drop start src else dst', None)) }"

definition Compact :: "scanner \<Rightarrow> string \<Rightarrow> string \<Rightarrow> (string \<times> SyntaxError option) go" where
  "Compact pooled buffer src =
     do { (b, e) \<leftarrow> appendCompact pooled [] src False; Some (buffer @ b, e) }"

definition appendNewline :: "string \<Rightarrow> string \<Rightarrow> string \<Rightarrow> int \<Rightarrow> string" where
  "appendNewline dst prefix indent depth = dst @ [CHR 0x0A] @ prefix @ concat (replicate (nat depth) indent)"

record indenter =
  scan :: scanner
  needIndent :: bool
  depth :: int
  out :: string

text \<open>One iteration of \<open>appendIndent\<close> after \<open>scan.step\<close> has returned \<open>v\<close>, not \<open>scanSkipSpace\<close> or \<open>scanError\<close>.\<close>

definition appendIndent_emit :: "string \<Rightarrow> string \<Rightarrow> opcode \<Rightarrow> char \<Rightarrow> indenter \<Rightarrow> indenter" where
  "appendIndent_emit prefix indent v c m =
     (let m = (if needIndent m \<and> v \<noteq> scanEndObject \<and> v \<noteq> scanEndArray then
                 m\<lparr>needIndent := False, depth := depth m + 1, out := appendNewline (out m) prefix indent (depth m + 1)\<rparr>
               else m)
      in if v = scanContinue then m\<lparr>out := out m @ [c]\<rparr>
         else if c = CHR ''{'' \<or> c = CHR ''['' then m\<lparr>needIndent := True, out := out m @ [c]\<rparr>
         else if c = CHR '','' then m\<lparr>out := appendNewline (out m @ [c]) prefix indent (depth m)\<rparr>
         else if c = CHR '':'' then m\<lparr>out := out m @ [c, CHR '' '']\<rparr>
         else if c = CHR ''}'' \<or> c = CHR '']'' then
           (let m = (if needIndent m then m\<lparr>needIndent := False\<rparr>
                     else m\<lparr>depth := depth m - 1, out := appendNewline (out m) prefix indent (depth m - 1)\<rparr>)
            in m\<lparr>out := out m @ [c]\<rparr>)
         else m\<lparr>out := out m @ [c]\<rparr>)"

fun appendIndent_loop :: "string \<Rightarrow> string \<Rightarrow> indenter \<Rightarrow> string \<Rightarrow> indenter go" where
  "appendIndent_loop prefix indent m [] = Some m"
| "appendIndent_loop prefix indent m (c # cs) =
     (case step_func ((scan m)\<lparr>consumed := consumed (scan m) + 1\<rparr>) c of
        None \<Rightarrow> None
      | Some (s, v) \<Rightarrow>
          if v = scanSkipSpace then appendIndent_loop prefix indent (m\<lparr>scan := s\<rparr>) cs
          else if v = scanError then Some (m\<lparr>scan := s\<rparr>)
          else appendIndent_loop prefix indent (appendIndent_emit prefix indent v c (m\<lparr>scan := s\<rparr>)) cs)"

definition appendIndent :: "scanner \<Rightarrow> string \<Rightarrow> string \<Rightarrow> string \<Rightarrow> string \<Rightarrow> (string \<times> SyntaxError option) go" where
  "appendIndent pooled dst src prefix indent =
     do { m \<leftarrow> appendIndent_loop prefix indent
            \<lparr>scan = newScanner pooled, needIndent = False, depth = 0, out = dst\<rparr> src;
          (s, v) \<leftarrow> eof (scan m);
          Some (if v = scanError then (take (length dst) (out m), err s) else (out m, None)) }"

definition Indent :: "scanner \<Rightarrow> string \<Rightarrow> string \<Rightarrow> string \<Rightarrow> string \<Rightarrow> (string \<times> SyntaxError option) go" where
  "Indent pooled buffer src prefix indent =
     do { (b, e) \<leftarrow> appendIndent pooled [] src prefix indent; Some (buffer @ b, e) }"

fun skip_digits :: "string \<Rightarrow> string" where
  "skip_digits [] = []"
| "skip_digits (c # cs) = (if digit c then skip_digits cs else c # cs)"

definition isValidNumber :: "string \<Rightarrow> bool" where
  "isValidNumber s =
     (if s = [] then False
      else
        let s = (if hd s = CHR ''-'' then tl s else s) in
        if s = [] then False
        else if \<not> (hd s = CHR ''0'' \<or> digit19 (hd s)) then False
        else
          let s = (if hd s = CHR ''0'' then tl s else skip_digits (tl s));
              s = (if length s \<ge> 2 \<and> hd s = CHR ''.'' \<and> digit (s ! 1) then skip_digits (drop 2 s) else s)
          in if length s \<ge> 2 \<and> (hd s = CHR ''e'' \<or> hd s = CHR ''E'') then
               let s = tl s in
               if hd s = CHR ''+'' \<or> hd s = CHR ''-'' then
                 let s = tl s in if s = [] then False else skip_digits s = []
               else skip_digits s = []
             else s = [])"

subsection \<open>Reference functions\<close>

datatype mode = Outside | Inside | Backslash

fun next_mode :: "mode \<Rightarrow> char \<Rightarrow> mode" where
  "next_mode Outside c = (if c = CHR 0x22 then Inside else Outside)"
| "next_mode Inside c = (if c = CHR 0x22 then Outside else if c = CHR 0x5C then Backslash else Inside)"
| "next_mode Backslash c = Inside"

text \<open>Drop the white space outside string literals.\<close>

fun strip :: "mode \<Rightarrow> string \<Rightarrow> string" where
  "strip m [] = []"
| "strip m (c # cs) = (if m = Outside \<and> json_space c then strip m cs else c # strip (next_mode m c) cs)"

declare strip.simps(2) [simp del]

lemma strip_Cons [simp]: "strip m (c # cs) = (if m = Outside \<and> isSpace c then strip m cs else c # strip (next_mode m c) cs)"
  by (simp add: strip.simps(2) json_classes)

text \<open>The indented form.  \<open>pretty\<close> works on a text without white space outside strings, at depth \<open>d\<close>: every element of a
  non-empty array or object starts on a line of its own, and so does the closing bracket; an empty one is left as it is; a space follows the
  colon; string literals are copied.  White space at the end of the source is kept.\<close>

definition newline :: "string \<Rightarrow> string \<Rightarrow> int \<Rightarrow> string" where
  "newline prefix indent d = [CHR 0x0A] @ prefix @ concat (replicate (nat d) indent)"

function pretty :: "string \<Rightarrow> string \<Rightarrow> mode \<Rightarrow> int \<Rightarrow> string \<Rightarrow> string" where
  "pretty prefix indent m d [] = []"
| "pretty prefix indent m d (c # cs) =
     (if m \<noteq> Outside then c # pretty prefix indent (next_mode m c) d cs
      else if c = CHR ''{'' \<or> c = CHR ''['' then
        (if cs \<noteq> [] \<and> (hd cs = CHR ''}'' \<or> hd cs = CHR '']'') then c # hd cs # pretty prefix indent Outside d (tl cs)
         else c # newline prefix indent (d + 1) @ pretty prefix indent Outside (d + 1) cs)
      else if c = CHR '','' then c # newline prefix indent d @ pretty prefix indent Outside d cs
      else if c = CHR '':'' then c # CHR '' '' # pretty prefix indent Outside d cs
      else if c = CHR ''}'' \<or> c = CHR '']'' then
        newline prefix indent (d - 1) @ c # pretty prefix indent Outside (d - 1) cs
      else c # pretty prefix indent (next_mode m c) d cs)"
  by pat_completeness auto
termination by (relation "measure (\<lambda>(prefix, indent, m, d, cs). length cs)") auto

definition end_space :: "string \<Rightarrow> string" where
  "end_space src = rev (takeWhile json_space (rev src))"

definition indented :: "string \<Rightarrow> string \<Rightarrow> string \<Rightarrow> string" where
  "indented prefix indent src = pretty prefix indent Outside 0 (strip Outside src) @ end_space src"

text \<open>Escape \<open><\<close>, \<open>>\<close>, \<open>&\<close>, U+2028 and U+2029.\<close>

fun html :: "string \<Rightarrow> string" where
  "html [] = []"
| "html (c # cs) =
     (if c = CHR ''<'' \<or> c = CHR ''>'' \<or> c = CHR ''&'' then escaped00 c @ html cs
      else if line_sep (c # cs) 0 then escaped202 (cs ! 1) @ html (drop 2 cs)
      else c # html cs)"

lemma line_sep_iff:
  "line_sep src i \<longleftrightarrow> src ! i = CHR 0xE2 \<and> i + 2 < length src \<and> src ! (i + 1) = CHR 0x80 \<and>
     (src ! (i + 2) = CHR 0xA8 \<or> src ! (i + 2) = CHR 0xA9)"
proof -
  have "(of_char c :: nat) div 2 * 2 = 0xA8 \<longleftrightarrow> c = CHR 0xA8 \<or> c = CHR 0xA9" for c
  proof -
    have "n div 2 * 2 = 0xA8 \<longleftrightarrow> n = 0xA8 \<or> n = 0xA9" for n :: nat
      by presburger
    then have "(of_char c :: nat) div 2 * 2 = 0xA8 \<longleftrightarrow> (of_char c :: nat) = 0xA8 \<or> (of_char c :: nat) = 0xA9" .
    also have "\<dots> \<longleftrightarrow> c = CHR 0xA8 \<or> c = CHR 0xA9"
      using of_char_eq_iff [of c "CHR 0xA8", where ?'a = nat] of_char_eq_iff [of c "CHR 0xA9", where ?'a = nat] by simp
    finally show ?thesis .
  qed
  then show ?thesis unfolding line_sep_def by blast
qed

lemma line_sep_drop: "i < length src \<Longrightarrow> line_sep (drop i src) 0 \<longleftrightarrow> line_sep src i"
  by (auto simp: line_sep_iff add.commute)

lemma drop_nth_Cons: "i < length src \<Longrightarrow> drop i src = src ! i # drop (i + 1) src"
  by (simp add: Cons_nth_drop_Suc)

lemma html_drop:
  assumes i: "i < length src"
  shows "html (drop i src) =
    (if src ! i = CHR ''<'' \<or> src ! i = CHR ''>'' \<or> src ! i = CHR ''&'' then escaped00 (src ! i) @ html (drop (i + 1) src)
     else if line_sep src i then escaped202 (src ! (i + 2)) @ html (drop (i + 3) src)
     else src ! i # html (drop (i + 1) src))"
proof -
  have "html (drop i src) =
    (if src ! i = CHR ''<'' \<or> src ! i = CHR ''>'' \<or> src ! i = CHR ''&'' then escaped00 (src ! i) @ html (drop (i + 1) src)
     else if line_sep src i then escaped202 (drop (i + 1) src ! 1) @ html (drop 2 (drop (i + 1) src))
     else src ! i # html (drop (i + 1) src))"
    unfolding line_sep_drop [OF i, symmetric] drop_nth_Cons [OF i] by (rule html.simps)
  moreover have "drop (i + 1) src ! 1 = src ! (i + 2)" if "line_sep src i"
    using that by (simp add: line_sep_iff)
  moreover have "drop 2 (drop (i + 1) src) = drop (i + 3) src" by (simp add: numeral_3_eq_3)
  ultimately show ?thesis by simp
qed

lemma take_drop_snoc:
  "start \<le> i \<Longrightarrow> i < length src \<Longrightarrow> take (Suc i - start) (drop start src) = take (i - start) (drop start src) @ [src ! i]"
  by (simp add: Suc_diff_le take_Suc_conv_app_nth)

lemma take_drop_rest: "start \<le> i \<Longrightarrow> take (i - start) (drop start src) @ drop i src = drop start src"
  by (metis append_take_drop_id drop_drop le_add_diff_inverse2)

subsection \<open>\<open>appendHTMLEscape\<close>\<close>

lemma html_step_plain:
  assumes "src ! i \<noteq> CHR ''<''" "src ! i \<noteq> CHR ''>''" "src ! i \<noteq> CHR ''&''" "\<not> line_sep src i"
  shows "appendHTMLEscape_step src i st = Some st"
  using assms by (cases st) (simp add: appendHTMLEscape_step_def)

lemma html_loop_step:
  "i < length src \<Longrightarrow> appendHTMLEscape_step src i st = Some st' \<Longrightarrow>
    appendHTMLEscape_loop src i st = appendHTMLEscape_loop src (i + 1) st'"
  by (subst appendHTMLEscape_loop.simps) simp

lemma sep_chars:
  assumes "line_sep src i"
  shows "\<not> line_sep src (i + 1)" "\<not> line_sep src (i + 2)" "src ! i \<notin> {CHR ''<'', CHR ''>'', CHR ''&''}"
    "src ! (i + 1) \<notin> {CHR ''<'', CHR ''>'', CHR ''&''}" "src ! (i + 2) \<notin> {CHR ''<'', CHR ''>'', CHR ''&''}"
    "i + 2 < length src"
  using assms by (auto simp: line_sep_iff)

lemma appendHTMLEscape_loop_correct:
  assumes "start \<le> i" "i \<le> length src"
  shows "\<exists>dst' start'. appendHTMLEscape_loop src i (dst, start) = Some (dst', start') \<and> start' \<le> length src \<and>
    dst' @ drop start' src = dst @ take (i - start) (drop start src) @ html (drop i src)"
  using assms
proof (induction "length src - i" arbitrary: i dst start rule: less_induct)
  case less
  show ?case
  proof (cases "i = length src")
    case True
    then show ?thesis using less.prems by (subst appendHTMLEscape_loop.simps) simp
  next
    case False
    then have i: "i < length src" using less.prems by simp
    have sl: "slice src start i = Some (take (i - start) (drop start src))"
      using less.prems by (simp add: slice_def)
    consider "line_sep src i" | "\<not> line_sep src i" "src ! i = CHR ''<'' \<or> src ! i = CHR ''>'' \<or> src ! i = CHR ''&''"
      | "\<not> line_sep src i" "src ! i \<noteq> CHR ''<''" "src ! i \<noteq> CHR ''>''" "src ! i \<noteq> CHR ''&''" by blast
    then show ?thesis
    proof cases
      case 1
      note sep = sep_chars [OF 1]
      let ?dst = "dst @ take (i - start) (drop start src) @ escaped202 (src ! (i + 2))"
      have "appendHTMLEscape_step src i (dst, start) = Some (?dst, i + 3)"
        using 1 sep sl by (simp add: appendHTMLEscape_step_def)
      then have "appendHTMLEscape_loop src i (dst, start) = appendHTMLEscape_loop src (i + 1) (?dst, i + 3)"
        by (rule html_loop_step [OF i])
      also have "\<dots> = appendHTMLEscape_loop src (i + 2) (?dst, i + 3)"
        using html_loop_step [OF _ html_step_plain, of "i + 1" src] sep by simp
      also have "\<dots> = appendHTMLEscape_loop src (i + 3) (?dst, i + 3)"
        using html_loop_step [OF _ html_step_plain, of "i + 2" src] sep by (simp add: numeral_3_eq_3)
      finally have e: "appendHTMLEscape_loop src i (dst, start) = appendHTMLEscape_loop src (i + 3) (?dst, i + 3)" .
      have "html (drop i src) = escaped202 (src ! (i + 2)) @ html (drop (i + 3) src)"
        using sep(3) 1 by (simp add: html_drop [OF i])
      then show ?thesis using less.hyps [of "i + 3" "i + 3" ?dst] i sep(6) unfolding e by simp
    next
      case 2
      let ?dst = "dst @ take (i - start) (drop start src) @ escaped00 (src ! i)"
      have "appendHTMLEscape_step src i (dst, start) = Some (?dst, i + 1)"
        using 2 sl by (auto simp: appendHTMLEscape_step_def)
      then have e: "appendHTMLEscape_loop src i (dst, start) = appendHTMLEscape_loop src (i + 1) (?dst, i + 1)"
        by (rule html_loop_step [OF i])
      have "html (drop i src) = escaped00 (src ! i) @ html (drop (i + 1) src)"
        using 2 by (simp add: html_drop [OF i])
      then show ?thesis using less.hyps [of "i + 1" "i + 1" ?dst] i unfolding e by simp
    next
      case 3
      have e: "appendHTMLEscape_loop src i (dst, start) = appendHTMLEscape_loop src (i + 1) (dst, start)"
        using 3 by (intro html_loop_step [OF i] html_step_plain)
      have "html (drop i src) = src ! i # html (drop (i + 1) src)"
        using 3 by (simp add: html_drop [OF i])
      then show ?thesis using less.hyps [of "i + 1" start dst] less.prems i unfolding e by (simp add: take_drop_snoc)
    qed
  qed
qed

lemma html_no_markup: "c \<in> set (html s) \<Longrightarrow> c \<noteq> CHR ''<'' \<and> c \<noteq> CHR ''>'' \<and> c \<noteq> CHR ''&''"
proof (induction s rule: html.induct)
  case (2 d ds)
  have "set hexdigits \<inter> {CHR ''<'', CHR ''>'', CHR ''&''} = {}" by (simp add: hexdigits_def)
  moreover have "hexdigits ! (of_char x mod 16) \<in> set hexdigits" for x by (rule nth_mem) (simp add: hexdigits_def)
  moreover have "hexdigits ! (of_char x div 16) \<in> set hexdigits" for x :: char
    by (rule nth_mem) (use nat_of_char_less_256 [of x] in \<open>simp add: hexdigits_def less_mult_imp_div_less\<close>)
  ultimately have "c \<notin> set (escaped00 x)" "c \<notin> set (escaped202 x)" if "c = CHR ''<'' \<or> c = CHR ''>'' \<or> c = CHR ''&''" for x
    using that by (auto simp: escaped00_def escaped202_def)
  then show ?case using 2 by (auto split: if_splits)
qed simp

subsection \<open>The scanner and the modes of the text\<close>

definition mode_of :: "state \<Rightarrow> mode" where
  "mode_of st =
     (if st \<in> {InString, InStringEscU, InStringEscU1, InStringEscU12, InStringEscU123} then Inside
      else if st = InStringEsc then Backslash else Outside)"

definition plain :: "char \<Rightarrow> bool" where
  "plain c \<longleftrightarrow> c \<noteq> CHR ''<'' \<and> c \<noteq> CHR ''>'' \<and> c \<noteq> CHR ''&'' \<and> c \<noteq> CHR 0xE2"

text \<open>A scanner that skips white space in the middle of a text.\<close>

definition waiting :: "scanner \<Rightarrow> bool" where
  "waiting s \<longleftrightarrow> step s \<in> {BeginValue, BeginValueOrEmpty, BeginString, BeginStringOrEmpty} \<or> step s = EndValue \<and> parseState s \<noteq> []"

text \<open>What one accepted step outside a string literal does, and one inside.\<close>

definition step_outside :: "char \<Rightarrow> scanner \<Rightarrow> opcode \<Rightarrow> bool" where
  "step_outside c s v \<longleftrightarrow> (scanSkipSpace \<le> v \<longleftrightarrow> isSpace c) \<and> plain c \<and> mode_of (step s) = next_mode Outside c \<and>
     (v = scanEndObject \<or> v = scanEndArray \<longrightarrow> c = CHR ''}'' \<or> c = CHR '']'')"

definition step_layout :: "char \<Rightarrow> scanner \<Rightarrow> opcode \<Rightarrow> bool" where
  "step_layout c s v \<longleftrightarrow> (c = CHR ''}'' \<or> c = CHR '']'' \<longrightarrow> v = scanEndObject \<or> v = scanEndArray) \<and>
     (c = CHR '','' \<or> c = CHR '':'' \<longrightarrow> v \<noteq> scanContinue) \<and>
     (c = CHR ''{'' \<or> c = CHR ''['' \<longrightarrow> v \<noteq> scanContinue \<and> (step s = BeginStringOrEmpty \<or> step s = BeginValueOrEmpty)) \<and>
     (v = scanEnd \<longrightarrow> step s = EndTop) \<and> (v = scanSkipSpace \<longrightarrow> waiting s)"

lemma hexdigit_plain: "hexdigit c \<Longrightarrow> c \<noteq> CHR 0x22 \<and> c \<noteq> CHR 0x5C"
  by (auto simp: hexdigit_def)

lemma digit_plain: "digit c \<Longrightarrow> plain c \<and> \<not> isSpace c \<and> c \<noteq> CHR 0x22"
  by (auto simp: digit_def plain_def isSpace_iff)

lemma digit19_plain: "digit19 c \<Longrightarrow> plain c \<and> \<not> isSpace c \<and> c \<noteq> CHR 0x22"
  by (auto simp: digit19_def plain_def isSpace_iff)

lemma space_plain: "isSpace c \<Longrightarrow> plain c \<and> c \<noteq> CHR 0x22"
  by (auto simp: isSpace_iff plain_def)

lemma skip_codes [simp]:
  "scanSkipSpace \<le> scanSkipSpace" "scanSkipSpace \<le> scanEnd" "\<not> scanSkipSpace \<le> scanContinue"
  "\<not> scanSkipSpace \<le> scanBeginLiteral" "\<not> scanSkipSpace \<le> scanBeginObject" "\<not> scanSkipSpace \<le> scanObjectKey"
  "\<not> scanSkipSpace \<le> scanObjectValue" "\<not> scanSkipSpace \<le> scanEndObject" "\<not> scanSkipSpace \<le> scanBeginArray"
  "\<not> scanSkipSpace \<le> scanArrayValue" "\<not> scanSkipSpace \<le> scanEndArray" "scanSkipSpace \<le> scanError"
  by (simp_all add: less_eq_opcode_def)

lemma pushParseState_mode:
  "pushParseState s c p v = (s', w) \<Longrightarrow> err s' = None \<Longrightarrow> w = v \<and> step s' = step s"
  by (auto simp: pushParseState_def fail_def Let_def split: if_splits)

lemma stateEndValue_mode:
  assumes "stateEndValue s c = Some (s', v)" "err s' = None"
  shows "step_outside c s' v"
  using assms
  by (auto simp: stateEndValue_def stateEndTop_def setTop_def popParseState_def fail_def step_outside_def mode_of_def
      plain_def Let_def lang isSpace_iff split: if_splits bind_splits)

lemma stateBeginValue_mode:
  assumes "stateBeginValue s c = Some (s', v)" "err s' = None" "mode_of (step s) = Outside"
  shows "step_outside c s' v"
  using assms digit19_plain [of c]
  by (auto simp: stateBeginValue_def fail_def step_outside_def mode_of_def plain_def space_plain isSpace_iff
      dest!: pushParseState_mode split: if_splits)

lemma stateBeginString_mode:
  assumes "stateBeginString s c = Some (s', v)" "err s' = None" "mode_of (step s) = Outside"
  shows "step_outside c s' v"
  using assms
  by (auto simp: stateBeginString_def fail_def step_outside_def mode_of_def plain_def isSpace_iff split: if_splits)

lemma step_mode_string:
  assumes "step s \<in> {InString, InStringEsc, InStringEscU, InStringEscU1, InStringEscU12, InStringEscU123}"
  shows "step_func s c = Some (s', v) \<longrightarrow> v \<noteq> scanError \<longrightarrow>
    v = scanContinue \<and> mode_of (step s') = next_mode (mode_of (step s)) c"
  using assms hexdigit_plain [of c]
  by (cases "step s")
    (auto simp: step_func_def stateInString_def stateInStringEsc_def stateInStringEscU_def
      stateInStringEscU1_def stateInStringEscU12_def stateInStringEscU123_def fail_def mode_of_def split: if_splits)

lemma step_mode_token:
  assumes "step s \<in> {Neg, Dot, ESign, StateE, StateT, Tr, Tru, StateF, Fa, Fal, Fals, StateN, Nu, Nul}"
  shows "step_func s c = Some (s', v) \<longrightarrow> v \<noteq> scanError \<longrightarrow> step_outside c s' v"
  using assms digit_plain [of c] digit19_plain [of c]
  by (cases "step s")
    (auto simp: step_func_def stateNeg_def
      stateDot_def stateE_def stateESign_def stateT_def
      stateTr_def stateTru_def stateF_def stateFa_def stateFal_def stateFals_def stateN_def stateNu_def stateNul_def
      fail_def step_outside_def mode_of_def plain_def isSpace_iff split: if_splits)

lemma step_mode_end:
  assumes "step s \<in> {EndValue, State1, State0, Dot0, E0}"
  shows "step_func s c = Some (s', v) \<longrightarrow> err s' = None \<longrightarrow> step_outside c s' v"
proof -
  have "step_func s c = Some (s', v) \<longrightarrow> stateEndValue s c = Some (s', v) \<or> step_outside c s' v"
    using assms digit_plain [of c]
    by (cases "step s") (auto simp: step_func_def state1_def state0_def stateDot0_def stateE0_def
        step_outside_def mode_of_def plain_def isSpace_iff split: if_splits)
  then show ?thesis using stateEndValue_mode by blast
qed

lemma step_mode_outside:
  assumes o: "mode_of (step s) = Outside" and s': "step_func s c = Some (s', v)" and e: "err s' = None" and v: "v \<noteq> scanError"
  shows "step_outside c s' v"
proof -
  have "step s \<in> {Neg, Dot, ESign, StateE, StateT, Tr, Tru, StateF, Fa, Fal, Fals, StateN, Nu, Nul} \<or>
      step s \<in> {EndValue, State1, State0, Dot0, E0} \<or> step s = BeginValueOrEmpty \<or> step s = BeginValue \<or>
      step s = BeginString \<or> step s = Error \<or> step s = BeginStringOrEmpty \<or> step s = EndTop"
    using o by (cases "step s") (simp_all add: mode_of_def)
  then show ?thesis
  proof (elim disjE)
    assume "step s = BeginStringOrEmpty"
    then have "stateBeginString s c = Some (s', v) \<or> s' = s \<and> v = scanSkipSpace \<and> isSpace c \<or>
        (\<exists>t. setTop s parseObjectValue = Some t \<and> stateEndValue t c = Some (s', v))"
      using s' by (auto simp: step_func_def stateBeginStringOrEmpty_def split: if_splits bind_splits)
    then show ?thesis
    proof (elim disjE exE conjE)
      assume "stateBeginString s c = Some (s', v)"
      then show ?thesis by (rule stateBeginString_mode [OF _ e o])
    qed (use o stateEndValue_mode [OF _ e] in \<open>auto simp: step_outside_def space_plain\<close>)
  next
    assume "step s = BeginValueOrEmpty"
    then have "stateEndValue s c = Some (s', v) \<or> stateBeginValue s c = Some (s', v) \<or> s' = s \<and> v = scanSkipSpace \<and> isSpace c"
      using s' by (auto simp: step_func_def stateBeginValueOrEmpty_def split: if_splits)
    then show ?thesis
    proof (elim disjE conjE)
      assume "stateEndValue s c = Some (s', v)"
      then show ?thesis by (rule stateEndValue_mode [OF _ e])
    next
      assume "stateBeginValue s c = Some (s', v)"
      then show ?thesis by (rule stateBeginValue_mode [OF _ e o])
    qed (use o in \<open>simp add: step_outside_def space_plain\<close>)
  next
    assume "step s = EndTop"
    then show ?thesis using s' e
      by (auto simp: step_func_def stateEndTop_def Let_def fail_def step_outside_def mode_of_def space_plain split: if_splits)
  next
    assume "step s = BeginValue"
    then show ?thesis using s' stateBeginValue_mode [OF _ e o] by (simp add: step_func_def)
  next
    assume "step s = BeginString"
    then show ?thesis using s' stateBeginString_mode [OF _ e o] by (simp add: step_func_def)
  next
    assume "step s = Error"
    then show ?thesis using s' v by (simp add: step_func_def stateError_def)
  qed (use step_mode_token step_mode_end s' v e in blast)+
qed

lemma skip_layout: "isSpace c \<Longrightarrow> waiting s \<Longrightarrow> step_layout c s scanSkipSpace"
  by (auto simp: isSpace_iff step_layout_def)

lemma end_layout: "isSpace c \<Longrightarrow> step s = EndTop \<Longrightarrow> step_layout c s scanEnd"
  by (auto simp: isSpace_iff step_layout_def)

lemma layout_chars:
  "step_layout CHR '':'' s scanObjectKey" "step_layout CHR '','' s scanObjectValue" "step_layout CHR '','' s scanArrayValue"
  "step_layout CHR ''}'' s scanEndObject" "step_layout CHR '']'' s scanEndArray" "step_layout CHR 0x22 s scanBeginLiteral"
  "step_layout CHR ''-'' s scanBeginLiteral" "step_layout CHR ''0'' s scanBeginLiteral" "step_layout CHR ''t'' s scanBeginLiteral"
  "step_layout CHR ''f'' s scanBeginLiteral" "step_layout CHR ''n'' s scanBeginLiteral"
  by (simp_all add: step_layout_def)

lemma layout_open:
  "step s = BeginStringOrEmpty \<Longrightarrow> step_layout CHR ''{'' s scanBeginObject"
  "step s = BeginValueOrEmpty \<Longrightarrow> step_layout CHR ''['' s scanBeginArray"
  by (simp_all add: step_layout_def)

lemma layout_digit19: "digit19 c \<Longrightarrow> step_layout c s scanBeginLiteral"
  by (auto simp: digit19_def step_layout_def)

lemma stateEndValue_layout:
  assumes "stateEndValue s c = Some (s', v)" "err s' = None"
  shows "step_layout c s' v"
proof (cases "parseState s = []")
  case True
  then show ?thesis using assms
    by (auto simp: stateEndValue_def stateEndTop_def fail_def end_layout split: if_splits)
next
  case False
  then show ?thesis using assms
    by (auto simp: stateEndValue_def fail_def layout_chars skip_layout waiting_def Let_def split: if_splits bind_splits)
qed

lemma stateBeginValue_layout:
  assumes "stateBeginValue s c = Some (s', v)" "err s' = None" "waiting s"
  shows "step_layout c s' v"
  using assms unfolding stateBeginValue_def fail_def
  by (auto simp: layout_chars layout_open layout_digit19 skip_layout dest!: pushParseState_mode split: if_splits)

lemma stateBeginString_layout:
  assumes "stateBeginString s c = Some (s', v)" "err s' = None" "waiting s"
  shows "step_layout c s' v"
  using assms by (auto simp: stateBeginString_def fail_def layout_chars skip_layout split: if_splits)

lemma digit_not_special: "digit c \<Longrightarrow> c \<notin> set ''{}[],:''"
  by (auto simp: digit_def)

lemma digit19_not_special: "digit19 c \<Longrightarrow> c \<notin> set ''{}[],:''"
  by (auto simp: digit19_def)

lemma layout_continue: "c \<notin> set ''{}[],:'' \<Longrightarrow> step_layout c s scanContinue"
  by (auto simp: step_layout_def)

lemma step_layout_token:
  assumes "step s \<in> {Neg, Dot, ESign, StateE, StateT, Tr, Tru, StateF, Fa, Fal, Fals, StateN, Nu, Nul}"
    and s': "step_func s c = Some (s', v)" and v: "v \<noteq> scanError"
  shows "step_layout c s' v"
proof -
  have "v = scanContinue \<and> (digit c \<or> digit19 c \<or> c \<in> set ''+-0truefalsenull'')"
    using assms
    by (cases "step s")
      (auto simp: step_func_def stateNeg_def stateDot_def stateE_def stateESign_def stateT_def
        stateTr_def stateTru_def stateF_def stateFa_def stateFal_def stateFals_def stateN_def stateNu_def stateNul_def
        fail_def split: if_splits)
  then have "v = scanContinue" "c \<notin> set ''{}[],:''" using digit_not_special [of c] digit19_not_special [of c] by auto
  then show ?thesis using layout_continue by simp
qed

lemma step_layout_end:
  assumes "step s \<in> {EndValue, State1, State0, Dot0, E0}"
    and s': "step_func s c = Some (s', v)" and e: "err s' = None"
  shows "step_layout c s' v"
proof -
  have "stateEndValue s c = Some (s', v) \<or> v = scanContinue \<and> (digit c \<or> c \<in> set ''.eE'')"
    using assms by (cases "step s") (auto simp: step_func_def state1_def state0_def stateDot0_def stateE0_def split: if_splits)
  then show ?thesis
  proof
    assume "stateEndValue s c = Some (s', v)"
    then show ?thesis by (rule stateEndValue_layout [OF _ e])
  next
    assume "v = scanContinue \<and> (digit c \<or> c \<in> set ''.eE'')"
    then have "v = scanContinue" "c \<notin> set ''{}[],:''" using digit_not_special [of c] by auto
    then show ?thesis using layout_continue by simp
  qed
qed

lemma step_layout:
  assumes o: "mode_of (step s) = Outside" and s': "step_func s c = Some (s', v)" and e: "err s' = None" and v: "v \<noteq> scanError"
  shows "step_layout c s' v"
proof -
  have "step s \<in> {Neg, Dot, ESign, StateE, StateT, Tr, Tru, StateF, Fa, Fal, Fals, StateN, Nu, Nul} \<or>
      step s \<in> {EndValue, State1, State0, Dot0, E0} \<or> step s = BeginValueOrEmpty \<or> step s = BeginValue \<or>
      step s = BeginString \<or> step s = Error \<or> step s = BeginStringOrEmpty \<or> step s = EndTop"
    using o by (cases "step s") (simp_all add: mode_of_def)
  then show ?thesis
  proof (elim disjE)
    assume st: "step s = BeginStringOrEmpty"
    then have w: "waiting s" by (simp add: waiting_def)
    have "stateBeginString s c = Some (s', v) \<or> s' = s \<and> v = scanSkipSpace \<and> isSpace c \<or>
        (\<exists>t. setTop s parseObjectValue = Some t \<and> stateEndValue t c = Some (s', v))"
      using s' st by (auto simp: step_func_def stateBeginStringOrEmpty_def split: if_splits bind_splits)
    then show ?thesis
      using stateBeginString_layout [OF _ e w] stateEndValue_layout [OF _ e] skip_layout [OF _ w] by blast
  next
    assume st: "step s = BeginValueOrEmpty"
    then have w: "waiting s" by (simp add: waiting_def)
    have "stateEndValue s c = Some (s', v) \<or> stateBeginValue s c = Some (s', v) \<or> s' = s \<and> v = scanSkipSpace \<and> isSpace c"
      using s' st by (auto simp: step_func_def stateBeginValueOrEmpty_def split: if_splits)
    then show ?thesis
      using stateBeginValue_layout [OF _ e w] stateEndValue_layout [OF _ e] skip_layout [OF _ w] by blast
  next
    assume st: "step s = EndTop"
    then have "v = scanEnd" "isSpace c" "s' = s" using s' e
      by (auto simp: step_func_def stateEndTop_def Let_def fail_def split: if_splits)
    then show ?thesis using st end_layout by simp
  next
    assume "step s = BeginValue"
    then show ?thesis using s' stateBeginValue_layout [OF _ e] by (simp add: step_func_def waiting_def)
  next
    assume "step s = BeginString"
    then show ?thesis using s' stateBeginString_layout [OF _ e] by (simp add: step_func_def waiting_def)
  next
    assume "step s = Error"
    then show ?thesis using s' v by (simp add: step_func_def stateError_def)
  qed (use step_layout_token step_layout_end s' v e in blast)+
qed

lemma step_mode_inside:
  assumes "mode_of (step s) \<noteq> Outside" "step_func s c = Some (s', v)" "v \<noteq> scanError"
  shows "v = scanContinue \<and> mode_of (step s') = next_mode (mode_of (step s)) c"
proof -
  have "step s \<in> {InString, InStringEsc, InStringEscU, InStringEscU1, InStringEscU12, InStringEscU123}"
    using assms(1) by (auto simp: mode_of_def split: if_splits)
  then show ?thesis using step_mode_string assms(2,3) by blast
qed

text \<open>A step on the next byte of a text the scanner accepts.\<close>

lemma accepted_step:
  assumes "wf_scanner s" "c # cs \<in> scanner_lang s"
  obtains s' v where "step_func s c = Some (s', v)" "v \<noteq> scanError" "wf_scanner s'" "cs \<in> scanner_lang s'"
    "mode_of (step s) = Outside \<Longrightarrow> step_outside c s' v"
    "mode_of (step s) \<noteq> Outside \<Longrightarrow> v = scanContinue \<and> mode_of (step s') = next_mode (mode_of (step s)) c"
    "mode_of (step s) = Outside \<Longrightarrow> step_layout c s' v"
proof -
  obtain s' v where s': "step_func s c = Some (s', v)"
    using step_stepped [OF assms(1), of c] by (cases "step_func s c") (auto simp: stepped_def)
  have "cs \<in> deriv c (scanner_lang s)" using assms(2) by (simp add: in_deriv)
  then have ok: "v \<noteq> scanError" "wf_scanner s'" "deriv c (scanner_lang s) = scanner_lang s'"
    using step_stepped [OF assms(1), of c] s' by (auto simp: stepped_def)
  have e: "err s' = None" using ok(2) by (simp add: wf_scanner_def)
  show thesis
    by (rule that [OF s' ok(1,2)]) (use \<open>cs \<in> deriv c (scanner_lang s)\<close> ok(3) step_mode_outside [OF _ s' e ok(1)]
        step_mode_inside [OF _ s' ok(1)] step_layout [OF _ s' e ok(1)] in simp_all)
qed

lemma rejected_step:
  assumes "wf_scanner s" "c # cs \<notin> scanner_lang s"
  obtains s' v where "step_func s c = Some (s', v)" "v \<noteq> scanError" "wf_scanner s'" "cs \<notin> scanner_lang s'"
  | s' v where "step_func s c = Some (s', v)" "err s' \<noteq> None" "step s' = Error"
proof -
  obtain s' v where s': "step_func s c = Some (s', v)"
    using step_stepped [OF assms(1), of c] by (cases "step_func s c") (auto simp: stepped_def)
  have "cs \<notin> deriv c (scanner_lang s)" using assms(2) by (simp add: in_deriv)
  then show thesis using step_stepped [OF assms(1), of c] s' that by (auto simp: stepped_def)
qed

subsection \<open>\<open>appendCompact\<close>\<close>

definition html_if :: "bool \<Rightarrow> string \<Rightarrow> string" where
  "html_if esc s = (if esc then html s else s)"

lemma html_if_plain: "plain c \<Longrightarrow> html_if esc (c # s) = c # html_if esc s"
  by (simp add: html_if_def plain_def line_sep_iff)

lemma flush_eq: "start \<le> i \<Longrightarrow> flush src i (dst, start) = dst @ take (i - start) (drop start src)"
  by (auto simp: flush_def)

text \<open>The three bytes of a separator are in a string literal, so removing white space leaves them together.\<close>

lemma strip_Inside_sep:
  assumes "i < length src"
  shows "line_sep (src ! i # strip Inside (drop (i + 1) src)) 0 \<longleftrightarrow> line_sep src i"
proof -
  obtain r where r: "drop (i + 1) src = r" by blast
  have "line_sep (src ! i # strip Inside r) 0 \<longleftrightarrow> line_sep (src ! i # r) 0"
    by (cases r; cases "tl r") (auto simp: line_sep_iff nth_Cons' split: if_splits)
  then show ?thesis using line_sep_drop [OF assms] drop_nth_Cons [OF assms] r by simp
qed

lemma compact_step:
  assumes "i < length src" "step_func s (src ! i) = Some (s', v)" "v \<noteq> scanError"
  shows "appendCompact_loop src esc i s st =
    (let st = appendCompact_escape src esc i st in
     appendCompact_loop src esc (i + 1) s' (if scanSkipSpace \<le> v then (flush src i st, i + 1) else st))"
  using assms by (subst appendCompact_loop.simps) (simp add: Let_def)

lemma escape_plain:
  assumes "src ! i \<noteq> CHR ''<'' \<and> src ! i \<noteq> CHR ''>'' \<and> src ! i \<noteq> CHR ''&'' \<or> \<not> esc" "\<not> line_sep src i \<or> \<not> esc"
  shows "appendCompact_escape src esc i st = st"
  using assms by (auto simp: appendCompact_escape_def)

lemma not_sep_plain: "plain (src ! i) \<Longrightarrow> \<not> line_sep src i"
  by (auto simp: plain_def line_sep_iff)

lemma wf_InString_step:
  assumes wf: "wf_scanner s" and st: "mode_of (step s) \<noteq> Outside" and c: "c = CHR 0xE2 \<or> c = CHR 0x80 \<or> c = CHR 0xA8 \<or> c = CHR 0xA9"
    and acc: "c # cs \<in> scanner_lang s"
  obtains s' where "step_func s c = Some (s', scanContinue)" "wf_scanner s'" "cs \<in> scanner_lang s'" "mode_of (step s') = Inside"
    "mode_of (step s) = Inside"
proof -
  obtain s' v where s': "step_func s c = Some (s', v)" "v \<noteq> scanError" "wf_scanner s'" "cs \<in> scanner_lang s'"
    "v = scanContinue \<and> mode_of (step s') = next_mode (mode_of (step s)) c"
    using accepted_step [OF wf acc] st by metis
  have "step s \<noteq> InStringEsc"
  proof
    assume "step s = InStringEsc"
    then have "snd (the (step_func s c)) = scanError"
      using c by (auto simp: step_func_def stateInStringEsc_def fail_def)
    then show False using s' by simp
  qed
  then have m: "mode_of (step s) = Inside" using st by (auto simp: mode_of_def split: if_splits)
  then have "mode_of (step s') = Inside" using s'(5) c by auto
  then show thesis using that s' m by blast
qed

lemma appendCompact_loop_correct:
  assumes "wf_scanner s" "drop i src \<in> scanner_lang s" "start \<le> i" "i \<le> length src"
  shows "\<exists>s' dst' start'. appendCompact_loop src esc i s (dst, start) = Some (s', dst', start') \<and>
    wf_scanner s' \<and> [] \<in> scanner_lang s' \<and>
    dst' @ drop start' src =
      dst @ take (i - start) (drop start src) @ html_if esc (strip (mode_of (step s)) (drop i src))"
  using assms
proof (induction "length src - i" arbitrary: i s dst start rule: less_induct)
  case less
  show ?case
  proof (cases "i = length src")
    case True
    then show ?thesis
      using less.prems by (subst appendCompact_loop.simps) (simp add: html_if_def)
  next
    case False
    then have i: "i < length src" using less.prems by simp
    note d = drop_nth_Cons [OF i]
    obtain s' v where s': "step_func s (src ! i) = Some (s', v)" "v \<noteq> scanError" "wf_scanner s'" "drop (i + 1) src \<in> scanner_lang s'"
      and outside: "mode_of (step s) = Outside \<Longrightarrow> step_outside (src ! i) s' v"
      and inside: "mode_of (step s) \<noteq> Outside \<Longrightarrow> v = scanContinue \<and> mode_of (step s') = next_mode (mode_of (step s)) (src ! i)"
      using accepted_step [OF less.prems(1), of "src ! i" "drop (i + 1) src"] less.prems(2) unfolding d by metis
    note loop = compact_step [OF i s'(1,2), of esc "(dst, start)"]
    consider (out) "mode_of (step s) = Outside"
      | (sep) "mode_of (step s) \<noteq> Outside" "esc" "line_sep src i"
      | (markup) "mode_of (step s) \<noteq> Outside" "esc" "\<not> line_sep src i" "src ! i = CHR ''<'' \<or> src ! i = CHR ''>'' \<or> src ! i = CHR ''&''"
      | (other) "mode_of (step s) \<noteq> Outside" "src ! i \<noteq> CHR ''<'' \<and> src ! i \<noteq> CHR ''>'' \<and> src ! i \<noteq> CHR ''&'' \<or> \<not> esc"
          "\<not> line_sep src i \<or> \<not> esc" by blast
    then show ?thesis
    proof cases
      case out
      have o: "scanSkipSpace \<le> v \<longleftrightarrow> isSpace (src ! i)" "plain (src ! i)" "mode_of (step s') = next_mode Outside (src ! i)"
        using outside [OF out] by (simp_all add: step_outside_def)
      have e: "appendCompact_escape src esc i st = st" for st
        by (rule escape_plain) (use o(2) not_sep_plain in \<open>auto simp: plain_def\<close>)
      show ?thesis
      proof (cases "isSpace (src ! i)")
        case True
        then have m: "mode_of (step s') = Outside" using o(3) space_plain [of "src ! i"] by simp
        then have "strip (mode_of (step s)) (drop i src) = strip (mode_of (step s')) (drop (i + 1) src)"
          unfolding d using out True by simp
        moreover have "appendCompact_loop src esc i s (dst, start) =
            appendCompact_loop src esc (i + 1) s' (dst @ take (i - start) (drop start src), i + 1)"
          unfolding loop using e o(1) True by (simp add: flush_eq [OF less.prems(3)])
        ultimately show ?thesis
          using less.hyps [of "i + 1" s' "i + 1" "dst @ take (i - start) (drop start src)"] i s'(3,4) by simp
      next
        case nsp: False
        then have "strip (mode_of (step s)) (drop i src) = src ! i # strip (mode_of (step s')) (drop (i + 1) src)"
          unfolding d using out o(3) by simp
        moreover have "appendCompact_loop src esc i s (dst, start) = appendCompact_loop src esc (i + 1) s' (dst, start)"
          unfolding loop using e o(1) nsp by simp
        ultimately show ?thesis
          using less.hyps [of "i + 1" s' start dst] i s'(3,4) less.prems(3)
          by (simp add: html_if_plain [OF o(2)] take_drop_snoc)
      qed
    next
      case sep
      note sc = sep_chars [OF sep(3)]
      let ?dst = "dst @ take (i - start) (drop start src) @ escaped202 (src ! (i + 2))"
      have c: "src ! i = CHR 0xE2" "src ! (i + 1) = CHR 0x80" "src ! (i + 2) = CHR 0xA8 \<or> src ! (i + 2) = CHR 0xA9"
        using sep(3) by (auto simp: line_sep_iff)
      have d1: "drop (i + 1) src = src ! (i + 1) # drop (i + 2) src" "drop (i + 2) src = src ! (i + 2) # drop (i + 3) src"
        using drop_nth_Cons [of "i + 1" src] drop_nth_Cons [of "i + 2" src] sc(6) by (simp_all add: numeral_3_eq_3)
      obtain t1 where t1: "step_func s (src ! i) = Some (t1, scanContinue)" "wf_scanner t1" "drop (i + 1) src \<in> scanner_lang t1"
        "mode_of (step t1) = Inside" "mode_of (step s) = Inside"
        using wf_InString_step [OF less.prems(1) sep(1), of "src ! i" "drop (i + 1) src"] c(1) less.prems(2) unfolding d by metis
      obtain t2 where t2: "step_func t1 (src ! (i + 1)) = Some (t2, scanContinue)" "wf_scanner t2" "drop (i + 2) src \<in> scanner_lang t2"
        "mode_of (step t2) = Inside"
        using wf_InString_step [OF t1(2) _, of "src ! (i + 1)" "drop (i + 2) src"] c(2) t1(3,4) unfolding d1(1) by auto
      obtain t3 where t3: "step_func t2 (src ! (i + 2)) = Some (t3, scanContinue)" "wf_scanner t3" "drop (i + 3) src \<in> scanner_lang t3"
        "mode_of (step t3) = Inside"
        using wf_InString_step [OF t2(2) _, of "src ! (i + 2)" "drop (i + 3) src"] c(3) t2(3,4) unfolding d1(2) by auto
      have "appendCompact_loop src esc i s (dst, start) = appendCompact_loop src esc (i + 1) t1 (?dst, i + 3)"
        using compact_step [OF i t1(1), of esc "(dst, start)"] sep(2,3) sc(3)
        by (simp add: appendCompact_escape_def flush_eq [OF less.prems(3)])
      also have "\<dots> = appendCompact_loop src esc (i + 2) t2 (?dst, i + 3)"
        using compact_step [OF _ t2(1), of esc "(?dst, i + 3)"] escape_plain [of src "i + 1" esc] sc by simp
      also have "\<dots> = appendCompact_loop src esc (i + 3) t3 (?dst, i + 3)"
        using compact_step [OF _ t3(1), of esc "(?dst, i + 3)"] escape_plain [of src "i + 2" esc] sc by (simp add: numeral_3_eq_3)
      finally have loop3: "appendCompact_loop src esc i s (dst, start) = appendCompact_loop src esc (i + 3) t3 (?dst, i + 3)" .
      have "strip (mode_of (step s)) (drop i src) =
          src ! i # src ! (i + 1) # src ! (i + 2) # strip (mode_of (step t3)) (drop (i + 3) src)"
        unfolding d d1 using c t1(5) t3(4) by auto
      moreover have "html_if esc (src ! i # src ! (i + 1) # src ! (i + 2) # w) = escaped202 (src ! (i + 2)) @ html_if esc w" for w
        using c sep(2) by (auto simp: html_if_def line_sep_iff)
      ultimately show ?thesis
        using less.hyps [of "i + 3" t3 "i + 3" ?dst] i t3(2,3) sc(6) unfolding loop3 by simp
    next
      case markup
      have v: "v = scanContinue" "mode_of (step s') = next_mode (mode_of (step s)) (src ! i)" using inside markup(1) by blast+
      let ?dst = "dst @ take (i - start) (drop start src) @ escaped00 (src ! i)"
      have "appendCompact_loop src esc i s (dst, start) = appendCompact_loop src esc (i + 1) s' (?dst, i + 1)"
        unfolding loop using markup v(1) by (auto simp: appendCompact_escape_def flush_eq [OF less.prems(3)])
      moreover have "html_if esc (strip (mode_of (step s)) (drop i src)) =
          escaped00 (src ! i) @ html_if esc (strip (mode_of (step s')) (drop (i + 1) src))"
        unfolding d using markup v(2) by (simp add: html_if_def)
      ultimately show ?thesis using less.hyps [of "i + 1" s' "i + 1" ?dst] i s'(3,4) by simp
    next
      case other
      have v: "v = scanContinue" "mode_of (step s') = next_mode (mode_of (step s)) (src ! i)" using inside other(1) by blast+
      have "appendCompact_loop src esc i s (dst, start) = appendCompact_loop src esc (i + 1) s' (dst, start)"
        unfolding loop escape_plain [OF other(2,3)] using v(1) by simp
      moreover have "html_if esc (strip (mode_of (step s)) (drop i src)) =
          src ! i # html_if esc (strip (mode_of (step s')) (drop (i + 1) src))"
      proof (cases esc)
        case True
        have "\<not> line_sep (src ! i # strip (mode_of (step s')) (drop (i + 1) src)) 0"
        proof (cases "src ! i = CHR 0xE2")
          case c: True
          have "mode_of (step s') = Inside"
            using wf_InString_step [OF less.prems(1) other(1), of "src ! i" "drop (i + 1) src"] c less.prems(2) s'(1) unfolding d
            by (metis Pair_inject option.inject)
          then show ?thesis using strip_Inside_sep [OF i] other(3) True by simp
        qed (simp add: line_sep_iff)
        then show ?thesis unfolding d using other v(2) True by (simp add: html_if_def)
      qed (unfold d, use other(1) v(2) in \<open>simp add: html_if_def\<close>)
      ultimately show ?thesis
        using less.hyps [of "i + 1" s' start dst] i s'(3,4) less.prems(3) by (simp add: take_drop_snoc)
    qed
  qed
qed

lemma appendCompact_loop_extends:
  "appendCompact_loop src esc i s st = Some (s', st') \<Longrightarrow> \<exists>x. fst st' = fst st @ x"
proof (induction src esc i s st arbitrary: s' st' rule: appendCompact_loop.induct)
  case (1 src esc i s st)
  let ?st = "appendCompact_escape src esc i st"
  have fl: "\<exists>x. flush src i st = fst st @ x" for st by (cases st) (simp add: flush_def)
  have esc: "\<exists>x. fst ?st = fst st @ x"
  proof -
    define st1 where "st1 = (if esc \<and> (src ! i = CHR ''<'' \<or> src ! i = CHR ''>'' \<or> src ! i = CHR ''&'')
        then (flush src i st @ escaped00 (src ! i), i + 1) else st)"
    have "\<exists>x. fst st1 = fst st @ x" using fl [of st] by (auto simp: st1_def)
    moreover have "\<exists>x. fst ?st = fst st1 @ x"
      using fl [of st1] unfolding appendCompact_escape_def Let_def st1_def [symmetric] by auto
    ultimately show ?thesis by (metis append.assoc)
  qed
  show ?case
  proof (cases "i < length src")
    case False
    then show ?thesis using "1.prems" by (simp add: appendCompact_loop.simps)
  next
    case True
    obtain t v where t: "step_func s (src ! i) = Some (t, v)"
      using "1.prems" True by (cases "step_func s (src ! i)") (auto simp: appendCompact_loop.simps Let_def)
    show ?thesis
    proof (cases "v = scanError")
      case e: True
      then have "st' = ?st" using "1.prems" True t by (simp add: appendCompact_loop.simps [of src esc i] Let_def)
      then show ?thesis using esc by simp
    next
      case ne: False
      then have "appendCompact_loop src esc (i + 1) t (if scanSkipSpace \<le> v then (flush src i ?st, i + 1) else ?st) = Some (s', st')"
        using "1.prems" True by (simp add: compact_step [OF True t ne] Let_def)
      moreover note IH1 = "1.IH"(1) [OF True refl t refl] and IH2 = "1.IH"(2) [OF True refl t refl]
      ultimately have "(\<exists>x. fst st' = flush src i ?st @ x) \<or> (\<exists>x. fst st' = fst ?st @ x)"
        using ne by (auto split: if_splits)
      then show ?thesis using esc fl [of ?st] by fastforce
    qed
  qed
qed

lemma appendCompact_loop_error:
  assumes "step s = Error" "err s \<noteq> None"
  shows "\<exists>st'. appendCompact_loop src esc i s st = Some (s, st')"
  using assms by (subst appendCompact_loop.simps) (simp add: error_step Let_def)

lemma appendCompact_loop_rejects:
  assumes "wf_scanner s" "drop i src \<notin> scanner_lang s" "i \<le> length src"
  shows "\<exists>s' st'. appendCompact_loop src esc i s st = Some (s', st') \<and> (wf_scanner s' \<and> [] \<notin> scanner_lang s' \<or> err s' \<noteq> None)"
  using assms
proof (induction "length src - i" arbitrary: i s st rule: less_induct)
  case less
  show ?case
  proof (cases "i = length src")
    case True
    then show ?thesis using less.prems by (subst appendCompact_loop.simps) simp
  next
    case False
    then have i: "i < length src" using less.prems by simp
    have "src ! i # drop (i + 1) src \<notin> scanner_lang s" using less.prems(2) drop_nth_Cons [OF i] by simp
    from less.prems(1) this show ?thesis
    proof (cases rule: rejected_step)
      case (1 s' v)
      then show ?thesis unfolding compact_step [OF i 1(1,2)] Let_def using less.hyps [of "i + 1" s'] i by simp
    next
      case (2 s' v)
      show ?thesis
      proof (cases "v = scanError")
        case True
        then show ?thesis using 2 i by (subst appendCompact_loop.simps) (simp add: Let_def)
      next
        case False
        then show ?thesis unfolding compact_step [OF i 2(1) False] Let_def using appendCompact_loop_error [OF 2(3,2)] 2(2) by blast
      qed
    qed
  qed
qed

lemma eof_fails:
  assumes "wf_scanner s \<and> [] \<notin> scanner_lang s \<or> err s \<noteq> None"
  shows "\<exists>s' e. eof s = Some (s', scanError) \<and> err s' = Some e"
proof (cases "err s = None")
  case True
  then show ?thesis using eof_correct [of s] assms by auto
qed (auto simp: eof_def)

lemma eof_succeeds:
  assumes "wf_scanner s" "[] \<in> scanner_lang s"
  shows "\<exists>s' v. eof s = Some (s', v) \<and> v \<noteq> scanError"
  using eof_correct [OF assms(1)] assms(2) by auto

lemma newScanner_lang: "wf_scanner (newScanner s)" "scanner_lang (newScanner s) = json_text maxNestingDepth"
  "step (newScanner s) = BeginValue"
  using wf_reset lang_reset by (simp_all add: newScanner_def reset_def)

lemma mode_BeginValue: "mode_of BeginValue = Outside"
  by (simp add: mode_of_def)

subsection \<open>\<open>appendIndent\<close>\<close>

lemma strip_spaces: "list_all isSpace w \<Longrightarrow> strip Outside (w @ x) = strip Outside x"
  by (induction w) simp_all

lemma appendNewline_eq:
  assumes "list_all isSpace prefix" "list_all isSpace indent"
  obtains w where "appendNewline dst prefix indent d = dst @ w" "list_all isSpace w"
proof (rule that)
  show "appendNewline dst prefix indent d = dst @ ([CHR 0x0A] @ prefix @ concat (replicate (nat d) indent))"
    by (simp add: appendNewline_def)
  have "list_all isSpace (concat (replicate n indent))" for n using assms(2) by (induction n) simp_all
  then show "list_all isSpace ([CHR 0x0A] @ prefix @ concat (replicate (nat d) indent))"
    using assms(1) by (simp add: isSpace_iff)
qed

lemma indent_step:
  assumes "wf_scanner s" "c # cs \<in> scanner_lang s"
  shows "\<exists>s' v. step_func (s\<lparr>consumed := n\<rparr>) c = Some (s', v) \<and> v \<noteq> scanError \<and> wf_scanner s' \<and> cs \<in> scanner_lang s' \<and>
    (mode_of (step s) = Outside \<longrightarrow> step_outside c s' v \<and> step_layout c s' v) \<and>
    (mode_of (step s) \<noteq> Outside \<longrightarrow> v = scanContinue \<and> mode_of (step s') = next_mode (mode_of (step s)) c)"
proof -
  have wf: "wf_scanner (s\<lparr>consumed := n\<rparr>)" "c # cs \<in> scanner_lang (s\<lparr>consumed := n\<rparr>)" using assms by simp_all
  show ?thesis by (rule accepted_step [OF wf]) simp
qed

text \<open>What one iteration emits: the byte, with white space around it where white space may stand.\<close>

lemma appendIndent_emit_out:
  assumes sp: "list_all isSpace prefix" "list_all isSpace indent"
    and inside: "md \<noteq> Outside \<Longrightarrow> v = scanContinue" and ni: "needIndent m \<Longrightarrow> md = Outside"
    and nm: "md = Outside \<Longrightarrow> md' = next_mode Outside c"
    and en: "v = scanEndObject \<or> v = scanEndArray \<Longrightarrow> c = CHR ''}'' \<or> c = CHR '']''"
  obtains w1 w2 where "out (appendIndent_emit prefix indent v c m) = out m @ w1 @ [c] @ w2"
    "list_all isSpace w1" "list_all isSpace w2" "w1 \<noteq> [] \<Longrightarrow> md = Outside" "w2 \<noteq> [] \<Longrightarrow> md = Outside \<and> md' = Outside"
    "needIndent (appendIndent_emit prefix indent v c m) \<Longrightarrow> md' = Outside"
    "scan (appendIndent_emit prefix indent v c m) = scan m"
proof -
  define open' where "open' \<longleftrightarrow> needIndent m \<and> v \<noteq> scanEndObject \<and> v \<noteq> scanEndArray"
  define m1 where "m1 = (if open' then
      m\<lparr>needIndent := False, depth := depth m + 1, out := appendNewline (out m) prefix indent (depth m + 1)\<rparr> else m)"
  obtain w0 where w0: "appendNewline (out m) prefix indent (depth m + 1) = out m @ w0" "list_all isSpace w0"
    by (rule appendNewline_eq [OF sp])
  define u where "u = (if open' then w0 else [])"
  have u: "out m1 = out m @ u" "list_all isSpace u" "u \<noteq> [] \<Longrightarrow> md = Outside" "needIndent m1 \<Longrightarrow> md = Outside"
    "scan m1 = scan m"
    using w0 ni by (auto simp: u_def m1_def open'_def split: if_splits)
  note emit = appendIndent_emit_def [of prefix indent v c m, folded open'_def, folded m1_def, unfolded Let_def]
  consider "v = scanContinue" | "v \<noteq> scanContinue" "c = CHR ''{'' \<or> c = CHR ''[''" | "v \<noteq> scanContinue" "c = CHR '',''"
    | "v \<noteq> scanContinue" "c = CHR '':''" | "v \<noteq> scanContinue" "c = CHR ''}'' \<or> c = CHR '']''"
    | "v \<noteq> scanContinue" "c \<notin> {CHR ''{'', CHR ''['', CHR '','', CHR '':'', CHR ''}'', CHR '']''}" by blast
  then show thesis
  proof cases
    case 1
    have e: "appendIndent_emit prefix indent v c m = m1\<lparr>out := out m1 @ [c]\<rparr>" unfolding emit using 1 by simp
    have "\<not> needIndent m1" using 1 by (auto simp: m1_def open'_def)
    then show thesis using u by (intro that [of u "[]"]) (auto simp: e)
  next
    case 2
    have "md = Outside" using 2(1) inside by blast
    then have "md' = Outside" using nm 2(2) by auto
    then show thesis using 2 u by (intro that [of u "[]"]) (auto simp: emit)
  next
    case 3
    obtain w where "appendNewline (out m1 @ [c]) prefix indent (depth m1) = (out m1 @ [c]) @ w" "list_all isSpace w"
      using appendNewline_eq [OF sp] by blast
    moreover have "appendIndent_emit prefix indent v c m =
        m1\<lparr>out := appendNewline (out m1 @ [c]) prefix indent (depth m1)\<rparr>" unfolding emit using 3 by simp
    moreover have "md = Outside" using 3(1) inside by blast
    moreover have "md' = Outside" using calculation nm 3(2) by auto
    ultimately show thesis using u by (intro that [of u w]) auto
  next
    case 4
    have "appendIndent_emit prefix indent v c m = m1\<lparr>out := out m1 @ [c, CHR '' '']\<rparr>" unfolding emit using 4 by simp
    moreover have "md = Outside" using 4(1) inside by blast
    moreover have "md' = Outside" using calculation nm 4(2) by auto
    ultimately show thesis using u by (intro that [of u "'' ''"]) (auto simp: isSpace_iff)
  next
    case 5
    obtain w where "appendNewline (out m1) prefix indent (depth m1 - 1) = out m1 @ w" "list_all isSpace w"
      using appendNewline_eq [OF sp] by blast
    note w = this
    show thesis
    proof (cases "needIndent m1")
      case True
      then show thesis using 5 u ni inside nm by (intro that [of u "[]"]) (auto simp: emit)
    next
      case False
      have e: "appendIndent_emit prefix indent v c m =
          m1\<lparr>depth := depth m1 - 1, out := (out m @ u @ w) @ [c]\<rparr>"
        using 5 False w(1) u(1) by (auto simp: emit)
      have "md = Outside" using 5(1) inside by blast
      then show thesis using 5 u(2,5) False w(2) nm by (intro that [of "u @ w" "[]"]) (auto simp: e)
    qed
  next
    case 6
    then have e: "appendIndent_emit prefix indent v c m = m1\<lparr>out := out m1 @ [c]\<rparr>" unfolding emit by simp
    have md: "md = Outside" using 6(1) inside by blast
    show thesis
    proof (rule that [of u "[]"])
      show "needIndent (appendIndent_emit prefix indent v c m) \<Longrightarrow> md' = Outside"
        unfolding e using 6 en by (auto simp: m1_def open'_def split: if_splits)
    qed (use u e md in simp_all)
  qed
qed

lemma strip_emitted:
  assumes "list_all isSpace w1" "list_all isSpace w2" "w1 \<noteq> [] \<Longrightarrow> md = Outside" "w2 \<noteq> [] \<Longrightarrow> next_mode md c = Outside"
    and "\<not> (md = Outside \<and> isSpace c)"
  shows "strip md (w1 @ [c] @ w2 @ x) = c # strip (next_mode md c) x"
proof -
  have "strip (next_mode md c) (w2 @ x) = strip (next_mode md c) x"
    using assms(2,4) strip_spaces [of w2] by (cases "w2 = []") auto
  then have "strip md ([c] @ w2 @ x) = c # strip (next_mode md c) x" using assms(5) by auto
  then show ?thesis using assms(1,3) strip_spaces [of w1 "[c] @ w2 @ x"] by (cases "w1 = []") auto
qed

lemma appendIndent_loop_correct:
  assumes sp: "list_all isSpace prefix" "list_all isSpace indent"
    and "wf_scanner (scan m)" "cs \<in> scanner_lang (scan m)" "needIndent m \<Longrightarrow> mode_of (step (scan m)) = Outside"
  shows "\<exists>m' x. appendIndent_loop prefix indent m cs = Some m' \<and> wf_scanner (scan m') \<and> [] \<in> scanner_lang (scan m') \<and>
    out m' = out m @ x \<and> strip (mode_of (step (scan m))) x = strip (mode_of (step (scan m))) cs"
  using assms(3-)
proof (induction cs arbitrary: m)
  case Nil
  then show ?case by simp
next
  case (Cons c cs)
  let ?s = "(scan m)\<lparr>consumed := consumed (scan m) + 1\<rparr>" and ?md = "mode_of (step (scan m))"
  obtain s' v where s': "step_func ?s c = Some (s', v)" "v \<noteq> scanError" "wf_scanner s'" "cs \<in> scanner_lang s'"
    and outside: "?md = Outside \<longrightarrow> step_outside c s' v \<and> step_layout c s' v"
    and inside: "?md \<noteq> Outside \<longrightarrow> v = scanContinue \<and> mode_of (step s') = next_mode ?md c"
    using indent_step [OF Cons.prems(1,2)] by blast
  have nx: "mode_of (step s') = next_mode ?md c" using outside inside by (cases "?md = Outside") (auto simp: step_outside_def)
  show ?case
  proof (cases "v = scanSkipSpace")
    case True
    then have o: "?md = Outside" using inside by auto
    then have sc: "isSpace c" using outside True by (simp add: step_outside_def)
    have md': "mode_of (step s') = Outside" using nx o space_plain [OF sc] by simp
    have "appendIndent_loop prefix indent m (c # cs) = appendIndent_loop prefix indent (m\<lparr>scan := s'\<rparr>) cs"
      using s' True by simp
    then show ?thesis using Cons.IH [of "m\<lparr>scan := s'\<rparr>"] s'(3,4) md' o sc by simp
  next
    case False
    let ?m = "appendIndent_emit prefix indent v c (m\<lparr>scan := s'\<rparr>)"
    have en: "v = scanEndObject \<or> v = scanEndArray \<Longrightarrow> c = CHR ''}'' \<or> c = CHR '']''"
      using outside inside by (cases "?md = Outside") (auto simp: step_outside_def)
    obtain w1 w2 where w: "out ?m = out (m\<lparr>scan := s'\<rparr>) @ w1 @ [c] @ w2" "list_all isSpace w1" "list_all isSpace w2"
      "w1 \<noteq> [] \<Longrightarrow> ?md = Outside" "w2 \<noteq> [] \<Longrightarrow> ?md = Outside \<and> mode_of (step s') = Outside"
      "needIndent ?m \<Longrightarrow> mode_of (step s') = Outside" "scan ?m = scan (m\<lparr>scan := s'\<rparr>)"
      by (rule appendIndent_emit_out [OF sp, of ?md v "m\<lparr>scan := s'\<rparr>" "mode_of (step s')" c])
        (use inside Cons.prems(3) nx en in auto)
    have e: "appendIndent_loop prefix indent m (c # cs) = appendIndent_loop prefix indent ?m cs"
      using s' False by simp
    obtain m' x where m': "appendIndent_loop prefix indent ?m cs = Some m'" "wf_scanner (scan m')" "[] \<in> scanner_lang (scan m')"
      "out m' = out ?m @ x" "strip (mode_of (step s')) x = strip (mode_of (step s')) cs"
      using Cons.IH [of ?m] w(6,7) s'(3,4) by auto
    show ?thesis
    proof (cases "?md = Outside \<and> isSpace c")
      case True
      then have "mode_of (step s') = Outside" using nx space_plain [of c] by simp
      then have "strip ?md (w1 @ [c] @ w2 @ x) = strip ?md (c # cs)"
        using True m'(5) w(2,3) by (simp add: strip_spaces)
      then show ?thesis using m' w(1) unfolding e by (intro exI [of _ m'] exI [of _ "w1 @ [c] @ w2 @ x"]) simp
    next
      case nsp: False
      have "strip ?md (w1 @ [c] @ w2 @ x) = strip ?md (c # cs)"
      proof -
        have "strip ?md (w1 @ [c] @ w2 @ x) = c # strip (next_mode ?md c) x"
          by (rule strip_emitted) (use w(2-5) nx nsp in auto)
        then show ?thesis using nsp m'(5) nx by auto
      qed
      then show ?thesis using m' w(1) unfolding e by (intro exI [of _ m'] exI [of _ "w1 @ [c] @ w2 @ x"]) simp
    qed
  qed
qed

lemma appendIndent_loop_extends:
  "appendIndent_loop prefix indent m cs = Some m' \<Longrightarrow> \<exists>x. out m' = out m @ x"
proof (induction cs arbitrary: m)
  case (Cons c cs)
  have "\<exists>x. out (appendIndent_emit prefix indent v c n) = out n @ x" for v n
    by (auto simp: appendIndent_emit_def appendNewline_def Let_def)
  note emit = this
  show ?case
  proof (cases "step_func ((scan m)\<lparr>consumed := consumed (scan m) + 1\<rparr>) c")
    case None
    then show ?thesis using Cons.prems by simp
  next
    case (Some sv)
    obtain s v where sv: "sv = (s, v)" by fastforce
    have loop: "(if v = scanSkipSpace then appendIndent_loop prefix indent (m\<lparr>scan := s\<rparr>) cs
        else if v = scanError then Some (m\<lparr>scan := s\<rparr>)
        else appendIndent_loop prefix indent (appendIndent_emit prefix indent v c (m\<lparr>scan := s\<rparr>)) cs) = Some m'"
      using Cons.prems Some sv by simp
    then consider "appendIndent_loop prefix indent (m\<lparr>scan := s\<rparr>) cs = Some m'" | "m' = m\<lparr>scan := s\<rparr>"
      | "appendIndent_loop prefix indent (appendIndent_emit prefix indent v c (m\<lparr>scan := s\<rparr>)) cs = Some m'"
      by (cases "v = scanSkipSpace"; cases "v = scanError") simp_all
    then show ?thesis
    proof cases
      case 1
      then show ?thesis using Cons.IH [OF 1] by simp
    next
      case 3
      then show ?thesis using Cons.IH [OF 3] emit [of v "m\<lparr>scan := s\<rparr>"] by auto
    qed simp
  qed
qed simp

lemma appendIndent_loop_rejects:
  assumes "wf_scanner (scan m)" "cs \<notin> scanner_lang (scan m)"
  shows "\<exists>m'. appendIndent_loop prefix indent m cs = Some m' \<and>
    (wf_scanner (scan m') \<and> [] \<notin> scanner_lang (scan m') \<or> err (scan m') \<noteq> None)"
  using assms
proof (induction cs arbitrary: m)
  case (Cons c cs)
  let ?s = "(scan m)\<lparr>consumed := consumed (scan m) + 1\<rparr>"
  have scan: "scan (appendIndent_emit prefix indent v c n) = scan n" for v n
    by (simp add: appendIndent_emit_def Let_def)
  have "wf_scanner ?s" "c # cs \<notin> scanner_lang ?s" using Cons.prems by simp_all
  then show ?case
  proof (cases rule: rejected_step)
    case (1 s' v)
    then show ?thesis
      using Cons.IH [of "m\<lparr>scan := s'\<rparr>"] Cons.IH [of "appendIndent_emit prefix indent v c (m\<lparr>scan := s'\<rparr>)"]
      by (simp add: scan)
  next
    case (2 s' v)
    have er: "\<exists>m'. appendIndent_loop prefix indent n cs = Some m' \<and> err (scan m') \<noteq> None" if "scan n = s'" for n
      using that 2 error_step [of "s'\<lparr>consumed := consumed s' + 1\<rparr>"] by (cases cs) auto
    show ?thesis
    proof (cases "v = scanError")
      case False
      then show ?thesis using 2(1) er [of "m\<lparr>scan := s'\<rparr>"] er [of "appendIndent_emit prefix indent v c (m\<lparr>scan := s'\<rparr>)"]
        by (auto simp: scan)
    qed (use 2 in simp)
  qed
qed simp

subsection \<open>The exact layout\<close>

text \<open>What is still to be written for the rest \<open>cs\<close> of a text, when an opening bracket may be pending.\<close>

definition layout :: "string \<Rightarrow> string \<Rightarrow> bool \<Rightarrow> int \<Rightarrow> mode \<Rightarrow> string \<Rightarrow> string" where
  "layout prefix indent pend d m cs =
     (if \<not> pend then pretty prefix indent m d cs
      else if cs \<noteq> [] \<and> (hd cs = CHR ''}'' \<or> hd cs = CHR '']'') then hd cs # pretty prefix indent Outside d (tl cs)
      else newline prefix indent (d + 1) @ pretty prefix indent Outside (d + 1) cs)"

lemma appendNewline_newline: "appendNewline dst prefix indent d = dst @ newline prefix indent d"
  by (simp add: appendNewline_def newline_def)

lemma layout_inside: "m \<noteq> Outside \<Longrightarrow> layout prefix indent False d m (c # cs) = c # layout prefix indent False d (next_mode m c) cs"
  by (simp add: layout_def)

lemma emit_inside:
  assumes "\<not> needIndent m"
  shows "appendIndent_emit prefix indent scanContinue c m = m\<lparr>out := out m @ [c]\<rparr>"
  using assms by (simp add: appendIndent_emit_def)

lemma emit_outside:
  assumes lay: "step_layout c s v" and out: "step_outside c s v" and nsp: "\<not> isSpace c"
    and m'_def: "m' = appendIndent_emit prefix indent v c m"
  shows "out m' @ layout prefix indent (needIndent m') (depth m') (next_mode Outside c) cs =
    out m @ layout prefix indent (needIndent m) (depth m) Outside (c # cs)"
proof -
  consider (lbr) "c = CHR ''{'' \<or> c = CHR ''[''" | (comma) "c = CHR '',''" | (colon) "c = CHR '':''"
    | (rbr) "c = CHR ''}'' \<or> c = CHR '']''"
    | (other) "c \<noteq> CHR ''{''" "c \<noteq> CHR ''[''" "c \<noteq> CHR '',''" "c \<noteq> CHR '':''" "c \<noteq> CHR ''}''" "c \<noteq> CHR '']''" by blast
  then show ?thesis
  proof cases
    case lbr
    then have "v \<noteq> scanContinue" "v \<noteq> scanEndObject" "v \<noteq> scanEndArray"
      using lay out by (auto simp: step_layout_def step_outside_def)
    then show ?thesis using lbr
      by (cases "needIndent m") (auto simp: m'_def appendIndent_emit_def Let_def layout_def appendNewline_newline)
  next
    case comma
    then have "v \<noteq> scanContinue" "v \<noteq> scanEndObject" "v \<noteq> scanEndArray"
      using lay out by (auto simp: step_layout_def step_outside_def)
    then show ?thesis using comma
      by (cases "needIndent m") (simp_all add: m'_def appendIndent_emit_def Let_def layout_def appendNewline_newline)
  next
    case colon
    then have "v \<noteq> scanContinue" "v \<noteq> scanEndObject" "v \<noteq> scanEndArray"
      using lay out by (auto simp: step_layout_def step_outside_def)
    then show ?thesis using colon
      by (cases "needIndent m") (simp_all add: m'_def appendIndent_emit_def Let_def layout_def appendNewline_newline)
  next
    case rbr
    then have "v = scanEndObject \<or> v = scanEndArray" using lay by (auto simp: step_layout_def)
    then show ?thesis using rbr
      by (cases "needIndent m") (auto simp: m'_def appendIndent_emit_def Let_def layout_def appendNewline_newline)
  next
    case other
    then have "v \<noteq> scanEndObject" "v \<noteq> scanEndArray" using out by (auto simp: step_outside_def)
    then show ?thesis using other
      by (cases "needIndent m"; cases "v = scanContinue")
        (simp_all add: m'_def appendIndent_emit_def Let_def layout_def appendNewline_newline)
  qed
qed

text \<open>White space in the middle of a text is not its end.\<close>

lemma waiting_space:
  assumes "waiting s" "isSpace c" "step_func s c = Some (s', v)"
  shows "v = scanSkipSpace \<and> waiting s' \<and> step s' = step s"
  using assms
  by (auto simp: waiting_def step_func_def stateBeginValue_def stateBeginValueOrEmpty_def stateBeginString_def
      stateBeginStringOrEmpty_def stateEndValue_def Let_def)

lemma not_all_space:
  assumes "wf_scanner s" "cs \<in> scanner_lang s" "waiting s \<or> mode_of (step s) \<noteq> Outside"
  shows "\<not> list_all isSpace cs"
  using assms
proof (induction cs arbitrary: s)
  case Nil
  have "step s \<noteq> EndTop" "\<not> endTop s" using Nil.prems(1,3) by (auto simp: waiting_def mode_of_def wf_scanner_def)
  then have "parseState s = [] \<and> step s \<in> {EndValue, State1, State0, Dot0, E0}" using nil_state_lang Nil.prems(2) by blast
  then show ?case using Nil.prems(3) by (auto simp: waiting_def mode_of_def)
next
  case (Cons c cs)
  obtain s' v where s': "step_func s c = Some (s', v)" "v \<noteq> scanError" "wf_scanner s'" "cs \<in> scanner_lang s'"
    "mode_of (step s) \<noteq> Outside \<longrightarrow> v = scanContinue \<and> mode_of (step s') = next_mode (mode_of (step s)) c"
    using indent_step [OF Cons.prems(1,2), of "consumed s"] by auto
  show ?case
  proof (cases "isSpace c")
    case True
    have "waiting s' \<or> mode_of (step s') \<noteq> Outside"
    proof (cases "waiting s")
      case w: True
      then show ?thesis using waiting_space [OF w True s'(1)] by simp
    next
      case False
      then have md: "mode_of (step s) \<noteq> Outside" using Cons.prems(3) by simp
      have "next_mode (mode_of (step s)) c \<noteq> Outside" using md space_plain [OF True] by (cases "mode_of (step s)") auto
      then show ?thesis using s'(5) md by simp
    qed
    then show ?thesis using Cons.IH [OF s'(3,4)] by simp
  qed simp
qed

lemma end_space_Cons: "end_space (c # cs) =
    (if list_all isSpace (c # cs) then c # cs else end_space cs)"
proof -
  have a: "list_all isSpace xs \<Longrightarrow> takeWhile isSpace (xs @ ys) = xs @ takeWhile isSpace ys" for xs ys by (induction xs) auto
  show ?thesis
  proof (cases "list_all isSpace cs")
    case True
    then have t1: "takeWhile isSpace (rev cs @ [c]) = rev cs @ takeWhile isSpace [c]" by (intro a) (simp add: list_all_iff)
    have t2: "takeWhile isSpace (rev cs) = rev cs" using True by (simp add: list_all_iff takeWhile_eq_all_conv)
    show ?thesis using True by (simp add: end_space_def json_classes t1 t2)
  next
    case False
    then obtain x where "x \<in> set (rev cs)" "\<not> isSpace x" by (auto simp: list_all_iff)
    then have "takeWhile isSpace (rev cs @ [c]) = takeWhile isSpace (rev cs)" by (rule takeWhile_append1)
    then show ?thesis using False by (simp add: end_space_def json_classes)
  qed
qed

lemma end_top_rest:
  assumes "step s = EndTop" "cs \<in> scanner_lang s"
  shows "list_all isSpace cs"
proof -
  have "cs \<in> many (chars isSpace)" using assms by (simp add: scanner_lang_def ws_def json_classes)
  then show ?thesis by (induction rule: many.induct) (auto simp: chars_def)
qed

lemma strip_all_space: "list_all isSpace cs \<Longrightarrow> strip Outside cs = []"
  by (induction cs) auto

lemma appendIndent_loop_layout:
  assumes "wf_scanner (scan m)" "cs \<in> scanner_lang (scan m)"
    "needIndent m \<Longrightarrow> step (scan m) = BeginStringOrEmpty \<or> step (scan m) = BeginValueOrEmpty"
  shows "\<exists>m'. appendIndent_loop prefix indent m cs = Some m' \<and> wf_scanner (scan m') \<and> [] \<in> scanner_lang (scan m') \<and>
    out m' = out m @ layout prefix indent (needIndent m) (depth m) (mode_of (step (scan m)))
      (strip (mode_of (step (scan m))) cs) @ end_space cs"
  using assms
proof (induction cs arbitrary: m)
  case Nil
  have "\<not> needIndent m"
  proof
    assume "needIndent m"
    then have "waiting (scan m)" using Nil.prems(3) by (auto simp: waiting_def)
    then show False using not_all_space [OF Nil.prems(1,2)] by simp
  qed
  then show ?case using Nil.prems by (simp add: layout_def end_space_def)
next
  case (Cons c cs)
  let ?s = "(scan m)\<lparr>consumed := consumed (scan m) + 1\<rparr>" and ?md = "mode_of (step (scan m))"
  obtain s' v where s': "step_func ?s c = Some (s', v)" "v \<noteq> scanError" "wf_scanner s'" "cs \<in> scanner_lang s'"
    and outside: "?md = Outside \<longrightarrow> step_outside c s' v \<and> step_layout c s' v"
    and inside: "?md \<noteq> Outside \<longrightarrow> v = scanContinue \<and> mode_of (step s') = next_mode ?md c"
    using indent_step [OF Cons.prems(1,2)] by blast
  have nx: "mode_of (step s') = next_mode ?md c" using outside inside by (cases "?md = Outside") (auto simp: step_outside_def)
  have pend: "needIndent m \<Longrightarrow> ?md = Outside \<and> waiting ?s" using Cons.prems(3) by (auto simp: mode_of_def waiting_def)
  show ?case
  proof (cases "v = scanSkipSpace")
    case True
    then have o: "?md = Outside" using inside by auto
    then have sc: "isSpace c" and w: "waiting s'" using outside True by (auto simp: step_outside_def step_layout_def)
    have md': "mode_of (step s') = Outside" using nx o space_plain [OF sc] by simp
    have st: "needIndent m \<Longrightarrow> step s' = step (scan m)" using waiting_space [OF _ sc s'(1)] pend by simp
    have "\<not> list_all isSpace cs" by (rule not_all_space [OF s'(3,4)]) (simp add: w)
    then have "end_space (c # cs) = end_space cs" by (simp add: end_space_Cons)
    moreover have "appendIndent_loop prefix indent m (c # cs) = appendIndent_loop prefix indent (m\<lparr>scan := s'\<rparr>) cs"
      using s' True by simp
    ultimately show ?thesis using Cons.IH [of "m\<lparr>scan := s'\<rparr>"] s'(3,4) md' o sc Cons.prems(3) st by simp
  next
    case skip: False
    let ?m = "appendIndent_emit prefix indent v c (m\<lparr>scan := s'\<rparr>)"
    have sc': "scan ?m = s'" by (simp add: appendIndent_emit_def Let_def)
    have e: "appendIndent_loop prefix indent m (c # cs) = appendIndent_loop prefix indent ?m cs"
      using s' skip by simp
    consider (string) "?md \<noteq> Outside" | (end_top) "?md = Outside" "isSpace c" | (out) "?md = Outside" "\<not> isSpace c" by blast
    then show ?thesis
    proof cases
      case string
      then have ni: "\<not> needIndent m" using pend by blast
      have v: "v = scanContinue" using inside string by blast
      have m: "?m = m\<lparr>scan := s', out := out m @ [c]\<rparr>" using emit_inside [of "m\<lparr>scan := s'\<rparr>"] ni by (simp add: v)
      have "\<not> list_all isSpace (c # cs)" using not_all_space [OF Cons.prems(1,2)] string by blast
      then have "end_space (c # cs) = end_space cs" by (simp only: end_space_Cons if_False)
      then show ?thesis unfolding e m using Cons.IH [of "m\<lparr>scan := s', out := out m @ [c]\<rparr>"] s'(3,4) ni nx string
        by (simp add: layout_inside)
    next
      case end_top
      have ni: "\<not> needIndent m"
        using pend waiting_space [OF _ end_top(2) s'(1)] skip by blast
      have "v = scanEnd" using outside end_top skip s'(2) by (cases v) (auto simp: step_outside_def)
      then have top: "step s' = EndTop" and v: "v = scanEnd" using outside end_top by (auto simp: step_layout_def)
      have all: "list_all isSpace cs" by (rule end_top_rest [OF top s'(4)])
      have "c \<notin> set ''{}[],:''" using end_top(2) by (auto simp: isSpace_iff)
      then have m: "?m = m\<lparr>scan := s', out := out m @ [c]\<rparr>" using ni by (simp add: appendIndent_emit_def v)
      have md': "mode_of (step s') = Outside" by (simp add: top mode_of_def)
      have es: "end_space cs = cs" using all by (cases cs) (auto simp: end_space_Cons, simp add: end_space_def)
      show ?thesis unfolding e m using Cons.IH [of "m\<lparr>scan := s', out := out m @ [c]\<rparr>"] s'(3,4) ni end_top all md' es
        by (simp add: strip_all_space layout_def end_space_Cons)
    next
      case out
      have so: "step_outside c s' v" "step_layout c s' v" using outside out by simp_all
      have "needIndent ?m \<Longrightarrow> step s' = BeginStringOrEmpty \<or> step s' = BeginValueOrEmpty"
        using so by (auto simp: appendIndent_emit_def Let_def step_layout_def step_outside_def split: if_splits)
      moreover have "\<not> list_all isSpace (c # cs)" using out by simp
      then have "end_space (c # cs) = end_space cs" by (simp only: end_space_Cons if_False)
      ultimately obtain m' where m': "appendIndent_loop prefix indent ?m cs = Some m'" "wf_scanner (scan m')" "[] \<in> scanner_lang (scan m')"
        "out m' = out ?m @ layout prefix indent (needIndent ?m) (depth ?m) (next_mode Outside c) (strip (next_mode Outside c) cs) @ end_space cs"
        and es: "end_space (c # cs) = end_space cs"
        using Cons.IH [of ?m] s'(3,4) out(1) nx unfolding sc' by auto
      note em = emit_outside [OF so(2,1) out(2) refl, of prefix indent "m\<lparr>scan := s'\<rparr>" "strip (next_mode Outside c) cs"]
      have "out m' = (out ?m @ layout prefix indent (needIndent ?m) (depth ?m) (next_mode Outside c) (strip (next_mode Outside c) cs)) @ end_space cs"
        unfolding m'(4) by (simp only: append.assoc)
      then have "out m' = out m @ layout prefix indent (needIndent m) (depth m) Outside (c # strip (next_mode Outside c) cs) @ end_space cs"
        unfolding em by simp
      moreover have "strip ?md (c # cs) = c # strip (next_mode Outside c) cs" using out by simp
      ultimately show ?thesis unfolding e es using m'(1-3) out(1) by (intro exI [of _ m']) simp
    qed
  qed
qed

subsection \<open>Numbers\<close>

lemma skip_digits_lang:
  assumes "\<And>c. digit c \<Longrightarrow> deriv c L = {}"
  shows "s \<in> conc digits L \<longleftrightarrow> skip_digits s \<in> L"
proof (induction s)
  case (Cons c s)
  have "c # s \<in> conc digits L \<longleftrightarrow> s \<in> deriv c (conc digits L)" by (simp add: in_deriv)
  also have "\<dots> \<longleftrightarrow> (if digit c then s \<in> conc digits L else c # s \<in> L)"
    using assms [of c] by (cases "digit c") (simp add: lang, simp add: lang in_deriv)
  finally show ?case using Cons by simp
qed (simp add: lang)

lemma skip_digits_nil: "s \<in> digits \<longleftrightarrow> skip_digits s = []"
  using skip_digits_lang [of "{[]}" s] by (simp add: lang)

lemma Cons_in_lang: "c # s \<in> L \<longleftrightarrow> s \<in> deriv c L"
  by (simp add: in_deriv)

lemma digits1_nil: "s \<in> digits1 \<longleftrightarrow> s \<noteq> [] \<and> digit (hd s) \<and> skip_digits s = []"
  by (cases s) (simp_all add: lang Cons_in_lang skip_digits_nil [symmetric])

lemma expo_lang:
  "s \<in> opt expo \<longleftrightarrow>
    (if length s \<ge> 2 \<and> (hd s = CHR ''e'' \<or> hd s = CHR ''E'') then
       let s = tl s in
       if hd s = CHR ''+'' \<or> hd s = CHR ''-'' then let s = tl s in if s = [] then False else skip_digits s = []
       else skip_digits s = []
     else s = [])"
proof (cases s)
  case (Cons c t)
  have skip: "skip_digits u = [] \<and> u \<noteq> [] \<longrightarrow> digit (hd u)" for u by (cases u) auto
  have "s \<in> opt expo \<longleftrightarrow> (c = CHR ''e'' \<or> c = CHR ''E'') \<and>
      t \<in> conc (opt (chars (\<lambda>c. c = CHR ''+'' \<or> c = CHR ''-''))) digits1"
    unfolding Cons Cons_in_lang by (simp add: lang)
  also have "t \<in> conc (opt (chars (\<lambda>c. c = CHR ''+'' \<or> c = CHR ''-''))) digits1 \<longleftrightarrow>
      t \<noteq> [] \<and> (if hd t = CHR ''+'' \<or> hd t = CHR ''-'' then tl t \<in> digits1 else t \<in> digits1)"
    by (cases t) (auto simp: lang Cons_in_lang)
  finally show ?thesis using skip [of t] skip [of "tl t"] Cons
    by (cases t) (auto simp: digits1_nil Let_def Suc_le_eq)
qed (simp add: lang)

lemma frac_lang:
  "s \<in> conc (opt frac) (opt expo) \<longleftrightarrow>
    (if length s \<ge> 2 \<and> hd s = CHR ''.'' \<and> digit (s ! 1) then skip_digits (drop 2 s) else s) \<in> opt expo"
proof (cases s)
  case (Cons c t)
  have e: "deriv d (opt expo) = {}" if "digit d" for d
    using that by (auto simp: lang)
  show ?thesis
  proof (cases "c = CHR ''.''")
    case True
    then have "s \<in> conc (opt frac) (opt expo) \<longleftrightarrow> t \<in> conc digits1 (opt expo)"
      unfolding Cons Cons_in_lang by (simp add: lang)
    also have "\<dots> \<longleftrightarrow> t \<noteq> [] \<and> digit (hd t) \<and> skip_digits (tl t) \<in> opt expo"
      using skip_digits_lang [of "opt expo" "tl t"] e by (cases t) (auto simp: lang Cons_in_lang)
    moreover have "s \<notin> opt expo" using True unfolding Cons Cons_in_lang by (simp add: lang)
    ultimately show ?thesis using Cons True by (cases t) auto
  next
    case False
    then have "s \<in> conc (opt frac) (opt expo) \<longleftrightarrow> s \<in> opt expo" unfolding Cons Cons_in_lang by (simp add: lang)
    then show ?thesis using Cons False by simp
  qed
qed (simp add: lang)

lemma isValidNumber_unsigned:
  "u \<in> conc int_part (conc (opt frac) (opt expo)) \<longleftrightarrow>
    u \<noteq> [] \<and> (hd u = CHR ''0'' \<or> digit19 (hd u)) \<and>
    (if hd u = CHR ''0'' then tl u else skip_digits (tl u)) \<in> conc (opt frac) (opt expo)"
proof (cases u)
  case (Cons c t)
  have e: "deriv d (conc (opt frac) (opt expo)) = {}" if "digit d" for d
    using that by (auto simp: lang)
  show ?thesis
    using skip_digits_lang [OF e, of t] unfolding Cons Cons_in_lang by (auto simp: lang)
qed (simp add: lang)

subsection \<open>Properties\<close>

text \<open>\<open>appendHTMLEscape\<close> appends its input with the five characters escaped and nothing else changed, never
  panics, and its output holds no \<open><\<close>, \<open>>\<close> or \<open>&\<close>.\<close>

theorem appendHTMLEscape_correct:
  "appendHTMLEscape dst src = Some (dst @ html src) \<and> set (html src) \<inter> {CHR ''<'', CHR ''>'', CHR ''&''} = {} \<and>
   HTMLEscape buffer src = Some (buffer @ html src)"
proof -
  have a: "appendHTMLEscape dst src = Some (dst @ html src)" for dst
  proof -
    obtain dst' start' where "appendHTMLEscape_loop src 0 (dst, 0) = Some (dst', start')" "start' \<le> length src"
      "dst' @ drop start' src = dst @ html src"
      using appendHTMLEscape_loop_correct [of 0 0 src dst] by auto
    then show ?thesis by (simp add: appendHTMLEscape_def slice_def)
  qed
  show ?thesis using a html_no_markup by (auto simp: HTMLEscape_def)
qed

text \<open>C34: on a JSON text \<open>appendCompact\<close> appends it without the white space outside string literals (and escaped
  for HTML when asked to); on anything else it returns an error and leaves \<open>dst\<close> as it was.  \<open>Compact\<close> is its
  unescaped form on a buffer.\<close>

theorem appendCompact_correct:
  "(\<exists>e. appendCompact pooled dst src esc =
     Some (if src \<in> json_text maxNestingDepth
           then (dst @ (let s = strip Outside src in if esc then html s else s), None) else (dst, Some e))) \<and>
   Compact pooled buffer src =
     (case appendCompact pooled [] src False of None \<Rightarrow> None | Some (b, e) \<Rightarrow> Some (buffer @ b, e))"
proof
  show "\<exists>e. appendCompact pooled dst src esc =
     Some (if src \<in> json_text maxNestingDepth
           then (dst @ (let s = strip Outside src in if esc then html s else s), None) else (dst, Some e))"
  proof (cases "src \<in> json_text maxNestingDepth")
    case True
    have a: "drop 0 src \<in> scanner_lang (newScanner pooled)" using True by (simp add: newScanner_lang)
    obtain s' dst' start' where l: "appendCompact_loop src esc 0 (newScanner pooled) (dst, 0) = Some (s', dst', start')"
      "wf_scanner s'" "[] \<in> scanner_lang s'" "dst' @ drop start' src = dst @ html_if esc (strip Outside src)"
      using appendCompact_loop_correct [OF newScanner_lang(1) a, of 0 esc dst]
      by (auto simp: newScanner_lang mode_BeginValue)
    then obtain s'' v where "eof s' = Some (s'', v)" "v \<noteq> scanError" using eof_succeeds by blast
    then show ?thesis using True l by (auto simp: appendCompact_def html_if_def)
  next
    case False
    have a: "drop 0 src \<notin> scanner_lang (newScanner pooled)" using False by (simp add: newScanner_lang)
    obtain s' dst' start' where l: "appendCompact_loop src esc 0 (newScanner pooled) (dst, 0) = Some (s', dst', start')"
      "wf_scanner s' \<and> [] \<notin> scanner_lang s' \<or> err s' \<noteq> None"
      using appendCompact_loop_rejects [OF newScanner_lang(1) a, of esc "(dst, 0)"] by auto
    moreover obtain s'' e where "eof s' = Some (s'', scanError)" "err s'' = Some e" using eof_fails l(2) by blast
    moreover obtain x where "dst' = dst @ x" using appendCompact_loop_extends [OF l(1)] by auto
    ultimately show ?thesis using False by (auto simp: appendCompact_def)
  qed
qed (simp add: Compact_def split: bind_splits option.splits)

text \<open>C35: on a JSON text, and for every prefix and indent, \<open>appendIndent\<close> appends exactly the indented form: the members of a
  non-empty array or object each on a new line that starts with the prefix and one indent per level, empty ones as \<open>[]\<close>
  and \<open>{}\<close>, a space after each colon, string literals copied, leading white space dropped and trailing white space kept.  On
  anything else it returns an error and leaves \<open>dst\<close> as it was.  \<open>Indent\<close> does this to a buffer.  When prefix and indent
  are white space, the indented text has the same compact form as the source.\<close>

theorem appendIndent_correct:
  "(\<exists>e. appendIndent pooled dst src prefix indent =
     Some (if src \<in> json_text maxNestingDepth then (dst @ indented prefix indent src, None) else (dst, Some e))) \<and>
   Indent pooled buffer src prefix indent =
     (case appendIndent pooled [] src prefix indent of None \<Rightarrow> None | Some (b, e) \<Rightarrow> Some (buffer @ b, e)) \<and>
   (src \<in> json_text maxNestingDepth \<and> list_all json_space prefix \<and> list_all json_space indent \<longrightarrow>
     strip Outside (indented prefix indent src) = strip Outside src)"
proof (intro conjI impI)
  define m where "m = \<lparr>scan = newScanner pooled, needIndent = False, depth = 0, out = dst\<rparr>"
  have m: "wf_scanner (scan m)" "scanner_lang (scan m) = json_text maxNestingDepth" "mode_of (step (scan m)) = Outside"
    "out m = dst" "\<not> needIndent m" "depth m = 0"
    by (simp_all add: m_def newScanner_lang mode_BeginValue)
  have loop: "\<exists>m'. appendIndent_loop prefix indent m src = Some m' \<and> wf_scanner (scan m') \<and> [] \<in> scanner_lang (scan m') \<and>
      out m' = dst @ indented prefix indent src" if "src \<in> json_text maxNestingDepth"
    using appendIndent_loop_layout [OF m(1), of src prefix indent] m that by (simp add: layout_def indented_def)
  show "\<exists>e. appendIndent pooled dst src prefix indent =
     Some (if src \<in> json_text maxNestingDepth then (dst @ indented prefix indent src, None) else (dst, Some e))"
  proof (cases "src \<in> json_text maxNestingDepth")
    case True
    obtain m' where l: "appendIndent_loop prefix indent m src = Some m'" "wf_scanner (scan m')" "[] \<in> scanner_lang (scan m')"
      "out m' = dst @ indented prefix indent src"
      using loop [OF True] by blast
    moreover obtain s' v where "eof (scan m') = Some (s', v)" "v \<noteq> scanError" using eof_succeeds l by blast
    ultimately show ?thesis using True by (auto simp: appendIndent_def m_def [symmetric])
  next
    case False
    obtain m' where l: "appendIndent_loop prefix indent m src = Some m'"
      "wf_scanner (scan m') \<and> [] \<notin> scanner_lang (scan m') \<or> err (scan m') \<noteq> None"
      using appendIndent_loop_rejects [OF m(1), of src prefix indent] m(2) False by auto
    moreover obtain s' e where "eof (scan m') = Some (s', scanError)" "err s' = Some e" using eof_fails l(2) by blast
    moreover obtain x where "out m' = dst @ x" using appendIndent_loop_extends [OF l(1)] m(4) by auto
    ultimately show ?thesis using False by (auto simp: appendIndent_def m_def [symmetric])
  qed
  show "strip Outside (indented prefix indent src) = strip Outside src"
    if "src \<in> json_text maxNestingDepth \<and> list_all json_space prefix \<and> list_all json_space indent"
  proof -
    have sp: "list_all isSpace prefix" "list_all isSpace indent" and src: "src \<in> scanner_lang (scan m)"
      using that m(2) by (simp_all add: json_classes)
    show ?thesis using appendIndent_loop_correct [OF sp m(1) src] loop that m(3-5) by auto
  qed
qed (simp add: Indent_def split: bind_splits option.splits)

theorem appendIndent_correct_witness:
  "''[1,{}] '' \<in> json_text maxNestingDepth \<and>
   indented [CHR 0x09] '' '' ''[1,{}] '' = ''['' @ [CHR 0x0A, CHR 0x09] @ '' 1,'' @ [CHR 0x0A, CHR 0x09] @ '' {}'' @ [CHR 0x0A, CHR 0x09] @ ''] '' \<and>
   strip Outside (indented [CHR 0x09] '' '' ''[1,{}] '') = strip Outside ''[1,{}] ''"
proof -
  let ?P = "\<lparr>step = Error, endTop = False, parseState = [], err = None, consumed = 0\<rparr>"
  have o: "appendIndent ?P [] ''[1,{}] '' [CHR 0x09] '' '' =
      Some (''['' @ [CHR 0x0A, CHR 0x09] @ '' 1,'' @ [CHR 0x0A, CHR 0x09] @ '' {}'' @ [CHR 0x0A, CHR 0x09] @ ''] '', None)"
    by code_simp
  have sp: "list_all json_space [CHR 0x09]" "list_all json_space '' ''" by (simp_all add: json_space_def)
  show ?thesis
    using appendIndent_correct [of ?P "[]" "''[1,{}] ''" "[CHR 0x09]" "'' ''" "[]"] sp
    unfolding o by (cases "''[1,{}] '' \<in> json_text maxNestingDepth") simp_all
qed

text \<open>\<open>isValidNumber\<close>, a hand-written scanner over the string, accepts exactly the numbers of the JSON
  grammar, the language the state machine accepts.\<close>

theorem isValidNumber_iff: "isValidNumber s \<longleftrightarrow> s \<in> number"
proof -
  have n: "s \<in> number \<longleftrightarrow> s \<noteq> [] \<and> (if hd s = CHR ''-'' then tl s else s) \<in> conc int_part (conc (opt frac) (opt expo))"
  proof (cases s)
    case (Cons c t)
    then show ?thesis unfolding number_def by (auto simp: Cons_in_lang lang)
  qed (simp add: lang)
  show ?thesis
    unfolding n isValidNumber_unsigned frac_lang expo_lang isValidNumber_def Let_def by auto
qed
end
