(* ===== verification/RunQueue.thy ===== *)
theory RunQueue
  imports Prelude "HOL-Library.Word"
begin

text \<open>
  \<open>runtime/proc.go\<close>: the scheduler's queues of goroutines.  \<open>gQueue\<close> and \<open>gList\<close> are linked through
  \<open>g.schedlink\<close>, modelled as a store from goroutines to goroutines; a \<open>guintptr\<close> is a natural number,
  0 for nil.  A \<open>p\<close> has a ring of 256 slots with two \<open>uint32\<close> counters that wrap around.
  Other Ps move \<open>runqhead\<close> by compare-and-swap, so every function that takes from the ring is
  an attempt with the head it has loaded, and retries when the swap fails; the model has the attempt as
  its own function, with the loaded head as argument.  The constants of a normal build are \<open>haveSysmon = true\<close> and
  \<open>randomizeScheduler = raceenabled = false\<close>; the branches they switch off are left out.
  \<open>runqsize\<close> (an \<open>int32\<close>) and the batch sizes are integers: they count goroutines, far below \<open>2 ^ 31\<close>.
\<close>

subsection \<open>Queues linked through \<open>schedlink\<close>\<close>

type_synonym guintptr = nat
type_synonym schedlinks = "guintptr \<Rightarrow> guintptr"

record gQueue =
  q_head :: guintptr
  q_tail :: guintptr

definition q_nil :: gQueue where
  "q_nil = \<lparr>q_head = 0, q_tail = 0\<rparr>"

definition q_empty :: "gQueue \<Rightarrow> bool" where
  "q_empty q \<longleftrightarrow> q_head q = 0"

definition q_push :: "schedlinks \<Rightarrow> gQueue \<Rightarrow> guintptr \<Rightarrow> schedlinks \<times> gQueue" where
  "q_push sl q gp =
     (let sl = sl(gp := q_head q); q = q\<lparr>q_head := gp\<rparr> in
      (sl, if q_tail q = 0 then q\<lparr>q_tail := gp\<rparr> else q))"

definition q_pushBack :: "schedlinks \<Rightarrow> gQueue \<Rightarrow> guintptr \<Rightarrow> schedlinks \<times> gQueue" where
  "q_pushBack sl q gp =
     (let sl = sl(gp := 0);
          (sl, q) = (if q_tail q \<noteq> 0 then (sl(q_tail q := gp), q) else (sl, q\<lparr>q_head := gp\<rparr>))
      in (sl, q\<lparr>q_tail := gp\<rparr>))"

definition q_pushBackAll :: "schedlinks \<Rightarrow> gQueue \<Rightarrow> gQueue \<Rightarrow> schedlinks \<times> gQueue" where
  "q_pushBackAll sl q q2 =
     (if q_tail q2 = 0 then (sl, q)
      else
        let sl = sl(q_tail q2 := 0);
            (sl, q) = (if q_tail q \<noteq> 0 then (sl(q_tail q := q_head q2), q) else (sl, q\<lparr>q_head := q_head q2\<rparr>))
        in (sl, q\<lparr>q_tail := q_tail q2\<rparr>))"

definition q_pop :: "schedlinks \<Rightarrow> gQueue \<Rightarrow> gQueue \<times> guintptr" where
  "q_pop sl q =
     (let gp = q_head q in
      (if gp \<noteq> 0 then
         let q = q\<lparr>q_head := sl gp\<rparr> in if q_head q = 0 then q\<lparr>q_tail := 0\<rparr> else q
       else q, gp))"

record gList =
  l_head :: guintptr

definition q_popList :: "gQueue \<Rightarrow> gQueue \<times> gList" where
  "q_popList q = (q_nil, \<lparr>l_head = q_head q\<rparr>)"

definition l_empty :: "gList \<Rightarrow> bool" where
  "l_empty l \<longleftrightarrow> l_head l = 0"

definition l_push :: "schedlinks \<Rightarrow> gList \<Rightarrow> guintptr \<Rightarrow> schedlinks \<times> gList" where
  "l_push sl l gp = (sl(gp := l_head l), l\<lparr>l_head := gp\<rparr>)"

definition l_pushAll :: "schedlinks \<Rightarrow> gList \<Rightarrow> gQueue \<Rightarrow> schedlinks \<times> gList" where
  "l_pushAll sl l q =
     (if \<not> q_empty q then (sl(q_tail q := l_head l), l\<lparr>l_head := q_head q\<rparr>) else (sl, l))"

definition l_pop :: "schedlinks \<Rightarrow> gList \<Rightarrow> gList \<times> guintptr" where
  "l_pop sl l = (let gp = l_head l in (if gp \<noteq> 0 then l\<lparr>l_head := sl gp\<rparr> else l, gp))"

subsection \<open>The global queue\<close>

record schedt =
  schedlink :: schedlinks
  s_runq :: gQueue
  runqsize :: int

definition globrunqput :: "schedt \<Rightarrow> guintptr \<Rightarrow> schedt" where
  "globrunqput s gp =
     (let (sl, q) = q_pushBack (schedlink s) (s_runq s) gp
      in s\<lparr>schedlink := sl, s_runq := q, runqsize := runqsize s + 1\<rparr>)"

definition globrunqputhead :: "schedt \<Rightarrow> guintptr \<Rightarrow> schedt" where
  "globrunqputhead s gp =
     (let (sl, q) = q_push (schedlink s) (s_runq s) gp
      in s\<lparr>schedlink := sl, s_runq := q, runqsize := runqsize s + 1\<rparr>)"

definition globrunqputbatch :: "schedt \<Rightarrow> gQueue \<Rightarrow> int \<Rightarrow> schedt \<times> gQueue" where
  "globrunqputbatch s batch n =
     (let (sl, q) = q_pushBackAll (schedlink s) (s_runq s) batch
      in (s\<lparr>schedlink := sl, s_runq := q, runqsize := runqsize s + n\<rparr>, q_nil))"

subsection \<open>The ring of a P\<close>

record p =
  runqhead :: uint32
  runqtail :: uint32
  runq :: "guintptr list"
  runnext :: guintptr

definition runqempty :: "p \<Rightarrow> bool" where
  "runqempty pp \<longleftrightarrow> runqhead pp = runqtail pp \<and> runnext pp = 0"

text \<open>\<open>pp.runq[i%uint32(len(pp.runq))]\<close>\<close>

definition slot :: "guintptr list \<Rightarrow> uint32 \<Rightarrow> guintptr" where
  "slot r i = r ! unat (i mod 256)"

definition set_slot :: "guintptr list \<Rightarrow> uint32 \<Rightarrow> guintptr \<Rightarrow> guintptr list" where
  "set_slot r i gp = r[unat (i mod 256) := gp]"

text \<open>The memory operations of the ring: \<open>pp.runq[i%uint32(len(pp.runq))].set(gp)\<close>,
  \<open>atomic.StoreRel(&pp.runqtail, t)\<close> and \<open>atomic.CasRel(&pp.runqhead, old, new)\<close>.\<close>

definition put_slot :: "p \<Rightarrow> uint32 \<Rightarrow> guintptr \<Rightarrow> p" where
  "put_slot pp i gp = pp\<lparr>runq := set_slot (runq pp) i gp\<rparr>"

definition store_tail :: "p \<Rightarrow> uint32 \<Rightarrow> p" where
  "store_tail pp t = pp\<lparr>runqtail := t\<rparr>"

definition cas_head :: "p \<Rightarrow> uint32 \<Rightarrow> uint32 \<Rightarrow> p \<times> bool" where
  "cas_head pp old new = (if runqhead pp = old then (pp\<lparr>runqhead := new\<rparr>, True) else (pp, False))"

datatype 'a attempt = Retry | Done 'a

fun link_batch :: "schedlinks \<Rightarrow> guintptr list \<Rightarrow> schedlinks" where
  "link_batch sl (g1 # g2 # gs) = link_batch (sl(g1 := g2)) (g2 # gs)"
| "link_batch sl gs = sl"

definition runqputslow :: "p \<Rightarrow> schedt \<Rightarrow> guintptr \<Rightarrow> uint32 \<Rightarrow> uint32 \<Rightarrow> (p \<times> schedt \<times> bool) go" where
  "runqputslow pp s gp h t =
     (let n = (t - h) div 2 in
      if n \<noteq> 128 then None
      else
        let batch = map (\<lambda>i. slot (runq pp) (h + of_nat i)) [0 ..< unat n];
            (pp, ok) = cas_head pp h (h + n)
        in if \<not> ok then Some (pp, s, False)
           else
             let batch = batch @ [gp];
                 s = s\<lparr>schedlink := link_batch (schedlink s) batch\<rparr>;
                 q = \<lparr>q_head = hd batch, q_tail = last batch\<rparr>;
                 (s, _) = globrunqputbatch s q (int (unat n) + 1)
             in Some (pp, s, True))"

definition runqput_try :: "uint32 \<Rightarrow> p \<Rightarrow> schedt \<Rightarrow> guintptr \<Rightarrow> (p \<times> schedt) attempt go" where
  "runqput_try h pp s gp =
     (let t = runqtail pp in
      if t - h < 256 then Some (Done (store_tail (put_slot pp t gp) (t + 1), s))
      else do { (pp, s, ok) \<leftarrow> runqputslow pp s gp h t; Some (if ok then Done (pp, s) else Retry) })"

definition run_attempt :: "'a attempt go \<Rightarrow> 'a go" where
  "run_attempt a = do { r \<leftarrow> a; case r of Retry \<Rightarrow> None | Done x \<Rightarrow> Some x }"

text \<open>The functions as they run when no other P interferes: the loaded head is current and the
  first attempt succeeds (\<open>run_attempt\<close> would give \<open>None\<close> on a retry; the lemmas show that it does not happen).\<close>

definition runqput :: "p \<Rightarrow> schedt \<Rightarrow> guintptr \<Rightarrow> bool \<Rightarrow> (p \<times> schedt) go" where
  "runqput pp s gp next =
     (if next then
        let oldnext = runnext pp; pp = pp\<lparr>runnext := gp\<rparr> in
        if oldnext = 0 then Some (pp, s) else run_attempt (runqput_try (runqhead pp) pp s oldnext)
      else run_attempt (runqput_try (runqhead pp) pp s gp))"

lemma ring_room:
  assumes "t - h < (256 :: uint32)"
  shows "256 - unat (t + 1 - h) < 256 - unat (t - h)"
proof -
  have "unat (t - h) < 256" using assms by (simp add: word_less_nat_alt)
  moreover have "t + 1 - h = (t - h) + 1" by simp
  ultimately have "unat (t + 1 - h) = unat (t - h) + 1" by (simp only: unat_add_small) (simp add: unat_add_small)
  then show ?thesis using \<open>unat (t - h) < 256\<close> by simp
qed

function runqputbatch_loop ::
  "uint32 \<Rightarrow> schedlinks \<Rightarrow> gQueue \<Rightarrow> p \<Rightarrow> uint32 \<Rightarrow> uint32 \<Rightarrow> gQueue \<times> p \<times> uint32 \<times> uint32" where
  "runqputbatch_loop h sl q pp t n =
     (if \<not> q_empty q \<and> t - h < 256 then
        let (q, gp) = q_pop sl q in runqputbatch_loop h sl q (put_slot pp t gp) (t + 1) (n + 1)
      else (q, pp, t, n))"
  by pat_completeness auto
termination
  by (relation "measure (\<lambda>(h, sl, q, pp, t, n). 256 - unat (t - h))") (auto intro: ring_room)

declare runqputbatch_loop.simps [simp del]

definition runqputbatch :: "p \<Rightarrow> schedt \<Rightarrow> gQueue \<Rightarrow> int \<Rightarrow> p \<times> schedt \<times> gQueue" where
  "runqputbatch pp s q qsize =
     (let h = runqhead pp;
          (q, pp, t, n) = runqputbatch_loop h (schedlink s) q pp (runqtail pp) 0;
          qsize = qsize - int (unat n);
          pp = store_tail pp t
      in if \<not> q_empty q then let (s, q) = globrunqputbatch s q qsize in (pp, s, q) else (pp, s, q))"

definition runqget_try :: "uint32 \<Rightarrow> p \<Rightarrow> (p \<times> guintptr) attempt" where
  "runqget_try h pp =
     (if runqtail pp = h then Done (pp, 0)
      else
        let gp = slot (runq pp) h; (pp, ok) = cas_head pp h (h + 1)
        in if ok then Done (pp, gp) else Retry)"

definition runqget :: "p \<Rightarrow> (p \<times> guintptr \<times> bool) go" where
  "runqget pp =
     (let next = runnext pp in
      if next \<noteq> 0 then Some (pp\<lparr>runnext := 0\<rparr>, next, True)
      else do { (pp, gp) \<leftarrow> run_attempt (Some (runqget_try (runqhead pp) pp)); Some (pp, gp, False) })"

definition runqdrain_try :: "uint32 \<Rightarrow> p \<Rightarrow> (p \<times> guintptr list) attempt" where
  "runqdrain_try h pp =
     (let qn = runqtail pp - h in
      if qn = 0 then Done (pp, [])
      else if qn > 256 then Retry
      else
        let (pp, ok) = cas_head pp h (h + qn)
        in if ok then Done (pp, map (\<lambda>i. slot (runq pp) (h + of_nat i)) [0 ..< unat qn]) else Retry)"

fun pushBack_all :: "schedlinks \<Rightarrow> gQueue \<Rightarrow> guintptr list \<Rightarrow> schedlinks \<times> gQueue" where
  "pushBack_all sl q [] = (sl, q)"
| "pushBack_all sl q (gp # gs) = (let (sl, q) = q_pushBack sl q gp in pushBack_all sl q gs)"

definition runqdrain :: "p \<Rightarrow> schedlinks \<Rightarrow> (p \<times> schedlinks \<times> gQueue \<times> nat) go" where
  "runqdrain pp sl =
     (let oldNext = runnext pp;
          (pp, sl, drainQ, n) =
            (if oldNext \<noteq> 0 then let (sl, q) = q_pushBack sl q_nil oldNext in (pp\<lparr>runnext := 0\<rparr>, sl, q, 1)
             else (pp, sl, q_nil, 0))
      in do { (pp, gs) \<leftarrow> run_attempt (Some (runqdrain_try (runqhead pp) pp));
              let (sl, drainQ) = pushBack_all sl drainQ gs in Some (pp, sl, drainQ, n + length gs) })"

text \<open>\<open>runqgrab\<close>: how many goroutines to take, the body of the loop that copies them into the ring \<open>batch\<close> of
  the thief, the commit by compare-and-swap, and one round of the outer loop with the \<open>h\<close> and \<open>t\<close> it has loaded.\<close>

definition grab_count :: "uint32 \<Rightarrow> uint32 \<Rightarrow> uint32" where
  "grab_count h t = (let n = t - h in n - n div 2)"

definition grab_item :: "p \<Rightarrow> uint32 \<Rightarrow> guintptr list \<Rightarrow> uint32 \<Rightarrow> uint32 \<Rightarrow> guintptr list" where
  "grab_item pp h batch batchHead i = (let g = slot (runq pp) (h + i) in set_slot batch (batchHead + i) g)"

fun grab_copy :: "p \<Rightarrow> uint32 \<Rightarrow> guintptr list \<Rightarrow> uint32 \<Rightarrow> nat \<Rightarrow> guintptr list" where
  "grab_copy pp h batch batchHead 0 = batch"
| "grab_copy pp h batch batchHead (Suc i) = grab_item pp h (grab_copy pp h batch batchHead i) batchHead (of_nat i)"

definition grab_commit :: "uint32 \<Rightarrow> uint32 \<Rightarrow> p \<Rightarrow> guintptr list \<Rightarrow> (p \<times> guintptr list \<times> uint32) attempt" where
  "grab_commit h n pp batch = (let (pp, ok) = cas_head pp h (h + n) in if ok then Done (pp, batch, n) else Retry)"

definition runqgrab_try ::
  "uint32 \<Rightarrow> uint32 \<Rightarrow> p \<Rightarrow> guintptr list \<Rightarrow> uint32 \<Rightarrow> bool \<Rightarrow> (p \<times> guintptr list \<times> uint32) attempt" where
  "runqgrab_try h t pp batch batchHead stealRunNextG =
     (let n = grab_count h t in
      if n = 0 then
        if stealRunNextG \<and> runnext pp \<noteq> 0 then
          Done (pp\<lparr>runnext := 0\<rparr>, set_slot batch batchHead (runnext pp), 1)
        else Done (pp, batch, 0)
      else if n > 128 then Retry
      else grab_commit h n pp (grab_copy pp h batch batchHead (unat n)))"

definition runqgrab :: "p \<Rightarrow> guintptr list \<Rightarrow> uint32 \<Rightarrow> bool \<Rightarrow> (p \<times> guintptr list \<times> uint32) go" where
  "runqgrab pp batch batchHead stealRunNextG =
     run_attempt (Some (runqgrab_try (runqhead pp) (runqtail pp) pp batch batchHead stealRunNextG))"

text \<open>\<open>runqsteal\<close> grabs into its own ring behind its tail, and then publishes all but the last of the \<open>n\<close> it has got.\<close>

definition steal_publish :: "p \<Rightarrow> uint32 \<Rightarrow> (p \<times> guintptr) go" where
  "steal_publish pp n =
     (let t = runqtail pp in
      if n = 0 then Some (pp, 0)
      else
        let n = n - 1; gp = slot (runq pp) (t + n) in
        if n = 0 then Some (pp, gp)
        else
          let h = runqhead pp in
          if t - h + n \<ge> 256 then None
          else Some (store_tail pp (t + n), gp))"

definition runqsteal :: "p \<Rightarrow> p \<Rightarrow> bool \<Rightarrow> (p \<times> p \<times> guintptr) go" where
  "runqsteal pp p2 stealRunNextG =
     do { (p2, r, n) \<leftarrow> runqgrab p2 (runq pp) (runqtail pp) stealRunNextG;
          (pp, gp) \<leftarrow> steal_publish (pp\<lparr>runq := r\<rparr>) n;
          Some (pp, p2, gp) }"

fun globrunqget_loop :: "nat \<Rightarrow> p \<Rightarrow> schedt \<Rightarrow> (p \<times> schedt) go" where
  "globrunqget_loop 0 pp s = Some (pp, s)"
| "globrunqget_loop (Suc n) pp s =
     (let (q, gp1) = q_pop (schedlink s) (s_runq s) in
      case runqput pp (s\<lparr>s_runq := q\<rparr>) gp1 False of
        None \<Rightarrow> None | Some (pp, s) \<Rightarrow> globrunqget_loop n pp s)"

definition globrunqget :: "int \<Rightarrow> p \<Rightarrow> schedt \<Rightarrow> int \<Rightarrow> (p \<times> schedt \<times> guintptr) go" where
  "globrunqget gomaxprocs pp s lim =
     (if runqsize s = 0 then Some (pp, s, 0)
      else
        let n = runqsize s div gomaxprocs + 1;
            n = (if n > runqsize s then runqsize s else n);
            n = (if lim > 0 \<and> n > lim then lim else n);
            n = (if n > 128 then 128 else n);
            s = s\<lparr>runqsize := runqsize s - n\<rparr>;
            (q, gp) = q_pop (schedlink s) (s_runq s)
        in do { (pp, s) \<leftarrow> globrunqget_loop (nat (n - 1)) pp (s\<lparr>s_runq := q\<rparr>); Some (pp, s, gp) })"

subsection \<open>Masks of Ps\<close>

definition pmask_bit :: "nat \<Rightarrow> uint32" where
  "pmask_bit i = push_bit (i mod 32) 1"

definition pmask_read :: "uint32 list \<Rightarrow> nat \<Rightarrow> bool go" where
  "pmask_read m i = (if i div 32 < length m then Some (m ! (i div 32) AND pmask_bit i \<noteq> 0) else None)"

definition pmask_set :: "uint32 list \<Rightarrow> nat \<Rightarrow> uint32 list go" where
  "pmask_set m i = (if i div 32 < length m then Some (m[i div 32 := m ! (i div 32) OR pmask_bit i]) else None)"

definition pmask_clear :: "uint32 list \<Rightarrow> nat \<Rightarrow> uint32 list go" where
  "pmask_clear m i = (if i div 32 < length m then Some (m[i div 32 := m ! (i div 32) AND NOT (pmask_bit i)]) else None)"

subsection \<open>Enumerating the Ps in a random order\<close>

record randomOrder =
  ord_count :: uint32
  coprimes :: "uint32 list"

record randomEnum =
  enum_i :: uint32
  enum_count :: uint32
  pos :: uint32
  inc :: uint32

function gcd32 :: "uint32 \<Rightarrow> uint32 \<Rightarrow> uint32" where
  "gcd32 a b = (if b \<noteq> 0 then gcd32 b (a mod b) else a)"
  by pat_completeness auto
termination by (relation "measure (\<lambda>(a, b). unat b)") (auto simp: word_less_nat_alt [symmetric] word_mod_less_divisor word_greater_zero_iff)

declare gcd32.simps [simp del]

text \<open>\<open>reset\<close>; its loop \<open>for i := uint32(1); i <= count\<close> ends for every \<open>count\<close> but the largest \<open>uint32\<close>.  \<open>start\<close>
  divides by the count and indexes the list, so it panics when either is empty.\<close>

definition ord_reset :: "uint32 \<Rightarrow> randomOrder" where
  "ord_reset count = \<lparr>ord_count = count, coprimes = filter (\<lambda>i. gcd32 i count = 1) (map of_nat [1 ..< unat count + 1])\<rparr>"

definition ord_start :: "randomOrder \<Rightarrow> uint32 \<Rightarrow> randomEnum option" where
  "ord_start ord i =
     (if ord_count ord = 0 \<or> coprimes ord = [] then None
      else Some \<lparr>enum_i = 0, enum_count = ord_count ord, pos = i mod ord_count ord,
        inc = coprimes ord ! unat (i div ord_count ord mod of_nat (length (coprimes ord)))\<rparr>)"

definition enum_done :: "randomEnum \<Rightarrow> bool" where
  "enum_done e \<longleftrightarrow> enum_i e = enum_count e"

definition enum_next :: "randomEnum \<Rightarrow> randomEnum" where
  "enum_next e = e\<lparr>enum_i := enum_i e + 1, pos := (pos e + inc e) mod enum_count e\<rparr>"

definition enum_position :: "randomEnum \<Rightarrow> uint32" where
  "enum_position e = pos e"

subsection \<open>Linked queues as lists\<close>

text \<open>\<open>path sl x gs y\<close>: following \<open>schedlink\<close> from \<open>x\<close> visits \<open>gs\<close> and ends at \<open>y\<close>.\<close>

primrec path :: "schedlinks \<Rightarrow> guintptr \<Rightarrow> guintptr list \<Rightarrow> guintptr \<Rightarrow> bool" where
  "path sl x [] y \<longleftrightarrow> x = y"
| "path sl x (g # gs) y \<longleftrightarrow> x = g \<and> g \<noteq> 0 \<and> path sl (sl g) gs y"

lemma path_append [simp]: "path sl x (gs @ hs) y \<longleftrightarrow> (\<exists>z. path sl x gs z \<and> path sl z hs y)"
  by (induction gs arbitrary: x) auto

lemma path_upd [simp]: "g \<notin> set gs \<Longrightarrow> path (sl(g := v)) x gs y \<longleftrightarrow> path sl x gs y"
  by (induction gs arbitrary: x) auto

lemma path_nonzero: "path sl x gs y \<Longrightarrow> 0 \<notin> set gs"
  by (induction gs arbitrary: x) auto

text \<open>The queue \<open>q\<close> holds the goroutines \<open>gs\<close>; in \<open>batchq\<close> the last link may be anything, as in a
  batch before \<open>pushBackAll\<close> ends it.\<close>

definition isq :: "schedlinks \<Rightarrow> gQueue \<Rightarrow> guintptr list \<Rightarrow> bool" where
  "isq sl q gs \<longleftrightarrow> path sl (q_head q) gs 0 \<and> distinct gs \<and> q_tail q = (if gs = [] then 0 else last gs)"

definition batchq :: "schedlinks \<Rightarrow> gQueue \<Rightarrow> guintptr list \<Rightarrow> bool" where
  "batchq sl q gs \<longleftrightarrow> gs \<noteq> [] \<and> (\<exists>y. path sl (q_head q) gs y) \<and> distinct gs \<and> q_tail q = last gs"

lemma isq_batchq: "isq sl q gs \<Longrightarrow> gs \<noteq> [] \<Longrightarrow> batchq sl q gs"
  by (auto simp: isq_def batchq_def)

lemma isq_nil: "isq sl q_nil []"
  by (simp add: isq_def q_nil_def)

lemma isq_head: "isq sl q gs \<Longrightarrow> q_head q = (if gs = [] then 0 else hd gs)"
  by (cases gs) (auto simp: isq_def)

lemma isq_empty: "isq sl q gs \<Longrightarrow> q_empty q \<longleftrightarrow> gs = []"
  by (cases gs) (auto simp: isq_def q_empty_def)

lemma isq_tail_zero: "isq sl q gs \<Longrightarrow> q_tail q = 0 \<longleftrightarrow> gs = []"
  using path_nonzero [of sl "q_head q" gs 0] by (cases gs rule: rev_cases) (auto simp: isq_def)

lemma isq_push:
  assumes "isq sl q gs" "g \<noteq> 0" "g \<notin> set gs" "q_push sl q g = (sl', q')"
  shows "isq sl' q' (g # gs)"
  using assms isq_tail_zero [OF assms(1)] by (auto simp: q_push_def isq_def Let_def split: if_splits)

lemma isq_pushBack:
  assumes q: "isq sl q gs" and g: "g \<noteq> 0" "g \<notin> set gs" and e: "q_pushBack sl q g = (sl', q')"
  shows "isq sl' q' (gs @ [g])"
proof (cases gs rule: rev_cases)
  case Nil
  then show ?thesis using assms by (auto simp: q_pushBack_def isq_def Let_def)
next
  case (snoc hs t)
  then have t: "q_tail q = t" "t \<noteq> 0" "t \<noteq> g" "t \<notin> set hs" "g \<notin> set hs"
    using q g path_nonzero [of sl "q_head q" gs 0] by (auto simp: isq_def)
  then have "sl' = sl(g := 0, t := g)" "q' = q\<lparr>q_tail := g\<rparr>" using e by (auto simp: q_pushBack_def Let_def)
  then show ?thesis using q t g by (auto simp: isq_def snoc)
qed

lemma isq_pushBackAll:
  assumes q: "isq sl q gs" and q2: "batchq sl q2 hs" and d: "set gs \<inter> set hs = {}" and e: "q_pushBackAll sl q q2 = (sl', q')"
  shows "isq sl' q' (gs @ hs)"
proof -
  obtain ks u where hs: "hs = ks @ [u]" using q2 by (cases hs rule: rev_cases) (auto simp: batchq_def)
  then obtain y where y: "path sl (q_head q2) (ks @ [u]) y" "distinct (ks @ [u])" "q_tail q2 = u"
    using q2 by (auto simp: batchq_def)
  have u: "u \<noteq> 0" "u \<notin> set ks" using y by auto
  have p2: "path (sl(u := 0)) (q_head q2) hs 0" using y u by (auto simp: hs)
  show ?thesis
  proof (cases gs rule: rev_cases)
    case Nil
    then have "sl' = sl(u := 0)" "q' = q\<lparr>q_head := q_head q2, q_tail := u\<rparr>"
      using e q u y(3) by (auto simp: q_pushBackAll_def isq_def Let_def)
    then show ?thesis using p2 y(2) by (simp add: isq_def Nil hs)
  next
    case (snoc fs t)
    then have t: "q_tail q = t" "t \<noteq> 0" "t \<notin> set fs" "t \<notin> set hs" "u \<notin> set gs"
      using q d hs path_nonzero [of sl "q_head q" gs 0] by (auto simp: isq_def)
    then have e': "sl' = sl(u := 0, t := q_head q2)" "q' = q\<lparr>q_tail := u\<rparr>"
      using e u y(3) by (auto simp: q_pushBackAll_def Let_def)
    have "path sl' (q_head q) gs (q_head q2)" using q t by (auto simp: isq_def snoc e')
    moreover have "path sl' (q_head q2) hs 0" unfolding e'(1) using p2 t(4) by simp
    ultimately show ?thesis using q d y(2) by (auto simp: isq_def e'(2) hs)
  qed
qed

lemma isq_pop:
  assumes q: "isq sl q gs" and e: "q_pop sl q = (q', g)"
  shows "isq sl q' (tl gs) \<and> g = (if gs = [] then 0 else hd gs)"
proof (cases gs)
  case Nil
  then show ?thesis using assms by (auto simp: q_pop_def isq_def Let_def)
next
  case (Cons a hs)
  have a: "a \<noteq> 0" "path sl (sl a) hs 0" "distinct hs" "q_head q = a" using q by (auto simp: isq_def Cons)
  then have "q' = (if sl a = 0 then q\<lparr>q_head := 0, q_tail := 0\<rparr> else q\<lparr>q_head := sl a\<rparr>)" "g = a"
    using e by (auto simp: q_pop_def Let_def)
  moreover have "sl a = 0 \<longleftrightarrow> hs = []" using a(2) by (cases hs) auto
  ultimately show ?thesis using a q by (auto simp: isq_def Cons)
qed

lemma link_batch_path:
  assumes "distinct gs" "0 \<notin> set gs" "gs \<noteq> []"
  shows "\<exists>y. path (link_batch sl gs) (hd gs) gs y \<and> (\<forall>g. g \<notin> set gs \<longrightarrow> link_batch sl gs g = sl g)"
  using assms
proof (induction sl gs rule: link_batch.induct)
  case (1 sl g1 g2 gs)
  have n: "g1 \<notin> set (g2 # gs)" using 1 by simp
  obtain y where y: "path (link_batch (sl(g1 := g2)) (g2 # gs)) g2 (g2 # gs) y"
    "\<forall>g. g \<notin> set (g2 # gs) \<longrightarrow> link_batch (sl(g1 := g2)) (g2 # gs) g = (sl(g1 := g2)) g"
  proof -
    have "distinct (g2 # gs)" "0 \<notin> set (g2 # gs)" "g2 # gs \<noteq> []" using 1 by simp_all
    from "1.IH" [OF this] show thesis using that unfolding list.sel by blast
  qed
  have "link_batch (sl(g1 := g2)) (g2 # gs) g1 = g2" using y(2) n by simp
  then have "path (link_batch sl (g1 # g2 # gs)) g1 (g1 # g2 # gs) y" using y(1) 1 by simp
  moreover have "\<forall>g. g \<notin> set (g1 # g2 # gs) \<longrightarrow> link_batch sl (g1 # g2 # gs) g = sl g" using y(2) by auto
  ultimately show ?case by auto
qed auto

lemma path_agree: "(\<And>g. g \<in> set gs \<Longrightarrow> sl' g = sl g) \<Longrightarrow> path sl' x gs y = path sl x gs y"
  by (induction gs arbitrary: x) auto

lemma pushBack_all_isq:
  assumes "isq sl q gs" "distinct hs" "0 \<notin> set hs" "set gs \<inter> set hs = {}" "pushBack_all sl q hs = (sl', q')"
  shows "isq sl' q' (gs @ hs)"
  using assms
proof (induction hs arbitrary: sl q gs)
  case (Cons h hs)
  obtain sl1 q1 where e: "q_pushBack sl q h = (sl1, q1)" by fastforce
  have "isq sl1 q1 (gs @ [h])" using isq_pushBack [OF Cons.prems(1) _ _ e] Cons.prems by auto
  then have "isq sl' q' ((gs @ [h]) @ hs)" using Cons.IH [of sl1 q1 "gs @ [h]"] Cons.prems e by auto
  then show ?case by simp
qed simp

text \<open>Lists share the goroutines' links, without a tail.\<close>

definition isl :: "schedlinks \<Rightarrow> gList \<Rightarrow> guintptr list \<Rightarrow> bool" where
  "isl sl l gs \<longleftrightarrow> path sl (l_head l) gs 0 \<and> distinct gs"

lemma isl_push: "isl sl l gs \<Longrightarrow> g \<noteq> 0 \<Longrightarrow> g \<notin> set gs \<Longrightarrow> l_push sl l g = (sl', l') \<Longrightarrow> isl sl' l' (g # gs)"
  by (auto simp: isl_def l_push_def)

lemma isl_pop:
  "isl sl l gs \<Longrightarrow> l_pop sl l = (l', g) \<Longrightarrow> isl sl l' (tl gs) \<and> g = (if gs = [] then 0 else hd gs)"
  by (cases gs) (auto simp: isl_def l_pop_def Let_def split: if_splits)

lemma isl_pushAll:
  assumes l: "isl sl l gs" and q: "isq sl q hs" and d: "set gs \<inter> set hs = {}" and e: "l_pushAll sl l q = (sl', l')"
  shows "isl sl' l' (hs @ gs)"
proof (cases hs rule: rev_cases)
  case Nil
  then show ?thesis using l e isq_empty [OF q] by (simp add: l_pushAll_def)
next
  case (snoc ks u)
  then have u: "q_tail q = u" "u \<notin> set ks" "u \<notin> set gs" "\<not> q_empty q"
    using q d isq_empty [OF q] by (auto simp: isq_def)
  then have "sl' = sl(u := l_head l)" "l' = l\<lparr>l_head := q_head q\<rparr>" using e by (auto simp: l_pushAll_def)
  then show ?thesis using l q u d by (auto simp: isl_def isq_def snoc)
qed

lemma isq_popList: "isq sl q gs \<Longrightarrow> q_popList q = (q', l) \<Longrightarrow> isl sl l gs \<and> isq sl q' []"
  by (auto simp: q_popList_def isl_def isq_def q_nil_def)

subsection \<open>The ring as a list\<close>

definition rlist :: "guintptr list \<Rightarrow> uint32 \<Rightarrow> nat \<Rightarrow> guintptr list" where
  "rlist r h n = map (\<lambda>i. slot r (h + of_nat i)) [0 ..< n]"

definition rqueue :: "p \<Rightarrow> guintptr list" where
  "rqueue pp = rlist (runq pp) (runqhead pp) (unat (runqtail pp - runqhead pp))"

definition p_ok :: "p \<Rightarrow> bool" where
  "p_ok pp \<longleftrightarrow> length (runq pp) = 256 \<and> unat (runqtail pp - runqhead pp) \<le> 256"

lemma mod256: "unat ((x :: uint32) mod 256) = unat x mod 256"
  by (simp add: unat_mod)

lemma unat_ring: "unat ((h :: uint32) + of_nat i) mod 256 = (unat h + i) mod 256"
proof -
  have "unat (h + of_nat i) = (unat h + i) mod 4294967296" by (simp add: unat_word_ariths unat_of_nat mod_add_right_eq)
  then show ?thesis by (simp add: mod_mod_cancel)
qed

lemma slot_add: "slot r (h + of_nat i) = r ! ((unat h + i) mod 256)"
  by (simp only: slot_def mod256 unat_ring)

lemma set_slot_add: "set_slot r (h + of_nat i) g = r[(unat h + i) mod 256 := g]"
  by (simp only: set_slot_def mod256 unat_ring)

lemma ring_inj_le:
  assumes "(a + i) mod 256 = (a + j) mod 256" "i \<le> j" "j < (256 :: nat)"
  shows "i = j"
proof -
  have "256 dvd (a + j) - (a + i)" using assms(1,2) mod_eq_dvd_iff_nat [of "a + i" "a + j" 256] by simp
  then have "256 dvd j - i" by simp
  then show ?thesis using assms(2,3) dvd_imp_le [of 256 "j - i"] by linarith
qed

lemma ring_inj: "(a + i) mod 256 = (a + j) mod 256 \<Longrightarrow> i < 256 \<Longrightarrow> j < (256 :: nat) \<Longrightarrow> i = j"
  using ring_inj_le [of a i j] ring_inj_le [of a j i] by (cases "i \<le> j") auto

lemma length_rlist [simp]: "length (rlist r h n) = n"
  by (simp add: rlist_def)

lemma rlist_0 [simp]: "rlist r h 0 = []"
  by (simp add: rlist_def)

lemma rlist_append: "rlist r h (m + n) = rlist r h m @ rlist r (h + of_nat m) n"
  by (rule nth_equalityI) (auto simp: rlist_def nth_append add.assoc)

lemma rlist_take: "k \<le> n \<Longrightarrow> take k (rlist r h n) = rlist r h k \<and> drop k (rlist r h n) = rlist r (h + of_nat k) (n - k)"
  using rlist_append [of r h k "n - k"] by simp

lemma rlist_set_outside:
  assumes "n \<le> m" "m < 256" "length r = 256"
  shows "rlist (set_slot r (h + of_nat m) g) h n = rlist r h n"
proof (rule nth_equalityI)
  fix i assume "i < length (rlist (set_slot r (h + of_nat m) g) h n)"
  then have i: "i < n" by simp
  then have "(unat h + i) mod 256 \<noteq> (unat h + m) mod 256" using ring_inj [of "unat h" i m] assms by auto
  then show "rlist (set_slot r (h + of_nat m) g) h n ! i = rlist r h n ! i"
    using i by (simp add: rlist_def slot_add set_slot_add)
qed simp

lemma rlist_set_end:
  assumes "m < 256" "length r = 256"
  shows "rlist (set_slot r (h + of_nat m) g) h (m + 1) = rlist r h m @ [g]"
proof -
  have "(unat h + m) mod 256 < 256" by simp
  then have "slot (set_slot r (h + of_nat m) g) (h + of_nat m) = g"
    using assms by (simp add: slot_add set_slot_add)
  moreover have "rlist (set_slot r (h + of_nat m) g) h (m + 1) =
      rlist (set_slot r (h + of_nat m) g) h m @ [slot (set_slot r (h + of_nat m) g) (h + of_nat m)]"
    by (simp add: rlist_def)
  ultimately show ?thesis using rlist_set_outside [of m m r h g] assms by simp
qed

subsection \<open>The ring operations without interference\<close>

lemma ring_tail: "runqtail pp = runqhead pp + of_nat (unat (runqtail pp - runqhead pp))"
  by simp

lemma ring_less: "t - h < (256 :: uint32) \<longleftrightarrow> unat (t - h) < 256"
  by (simp add: word_less_nat_alt)

lemma put_done:
  assumes ok: "p_ok pp" and room: "length (rqueue pp) < 256"
  shows "p_ok (pp\<lparr>runq := set_slot (runq pp) (runqtail pp) g, runqtail := runqtail pp + 1\<rparr>) \<and>
    rqueue (pp\<lparr>runq := set_slot (runq pp) (runqtail pp) g, runqtail := runqtail pp + 1\<rparr>) = rqueue pp @ [g]"
proof -
  define m where "m = unat (runqtail pp - runqhead pp)"
  have m: "m < 256" using room by (simp add: rqueue_def m_def)
  have t: "runqtail pp = runqhead pp + of_nat m" unfolding m_def by (rule ring_tail)
  have "runqtail pp + 1 - runqhead pp = of_nat (m + 1)" unfolding t by simp
  then have d: "unat (runqtail pp + 1 - runqhead pp) = m + 1" using m by (simp only: unat_of_nat) simp
  have l: "length (runq pp) = 256" using ok by (simp add: p_ok_def)
  have "rlist (set_slot (runq pp) (runqtail pp) g) (runqhead pp) (m + 1) = rlist (runq pp) (runqhead pp) m @ [g]"
    unfolding t by (rule rlist_set_end [OF m l])
  then show ?thesis using d m l by (simp add: p_ok_def rqueue_def m_def set_slot_def)
qed

lemma advance_head:
  assumes ok: "p_ok pp" and k: "k \<le> length (rqueue pp)"
  shows "p_ok (pp\<lparr>runqhead := runqhead pp + of_nat k\<rparr>) \<and> rqueue (pp\<lparr>runqhead := runqhead pp + of_nat k\<rparr>) = drop k (rqueue pp) \<and>
    rlist (runq pp) (runqhead pp) k = take k (rqueue pp)"
proof -
  define m where "m = unat (runqtail pp - runqhead pp)"
  have k: "k \<le> m" using k by (simp add: rqueue_def m_def)
  have m: "m \<le> 256" using ok by (simp add: p_ok_def m_def)
  have "runqtail pp - (runqhead pp + of_nat k) = (runqtail pp - runqhead pp) - of_nat k" by simp
  moreover have "unat (of_nat k :: uint32) = k" using k m by (simp add: unat_of_nat)
  ultimately have d: "unat (runqtail pp - (runqhead pp + of_nat k)) = m - k"
    using k by (simp only: unat_sub_small m_def)
  have "m - k \<le> 256" using m by simp
  then show ?thesis using ok d rlist_take [OF k, of "runq pp" "runqhead pp"]
    by (simp add: p_ok_def rqueue_def m_def [symmetric])
qed

lemma slots_rlist: "map (\<lambda>i. slot r (h + of_nat i)) [0 ..< n] = rlist r h n"
  by (simp add: rlist_def)

lemma full_half:
  assumes "p_ok pp" "length (rqueue pp) = 256"
  shows "(runqtail pp - runqhead pp) div 2 = 128"
proof -
  have "unat (runqtail pp - runqhead pp) = 256" using assms(2) by (simp add: rqueue_def)
  then have "runqtail pp - runqhead pp = 256" by (simp add: word_unat_eq_iff)
  then show ?thesis by simp
qed

lemma runqput_try_room:
  assumes "p_ok pp" "length (rqueue pp) < 256"
  shows "runqput_try (runqhead pp) pp s g =
    Some (Done (pp\<lparr>runq := set_slot (runq pp) (runqtail pp) g, runqtail := runqtail pp + 1\<rparr>, s))"
  using assms by (simp add: runqput_try_def Let_def ring_less rqueue_def put_slot_def store_tail_def)

lemma last_append_single: "hd (xs @ [g]) # tl (xs @ [g]) = xs @ [g]"
  by (cases xs) auto

text \<open>On a full ring the older half goes to the global queue, with the new goroutine last.\<close>

lemma runqput_try_full:
  assumes ok: "p_ok pp" and full: "length (rqueue pp) = 256"
    and fresh: "distinct (rqueue pp @ [g])" "0 \<notin> set (rqueue pp @ [g])" "set gs \<inter> set (rqueue pp @ [g]) = {}"
    and q: "isq (schedlink s) (s_runq s) gs"
  shows "\<exists>s'. runqput_try (runqhead pp) pp s g = Some (Done (pp\<lparr>runqhead := runqhead pp + 128\<rparr>, s')) \<and>
    isq (schedlink s') (s_runq s') (gs @ take 128 (rqueue pp) @ [g]) \<and> runqsize s' = runqsize s + 129 \<and>
    (\<forall>x. x \<notin> set gs \<and> x \<notin> set (take 128 (rqueue pp) @ [g]) \<longrightarrow> schedlink s' x = schedlink s x)"
proof -
  define b where "b = take 128 (rqueue pp) @ [g]"
  have n: "(runqtail pp - runqhead pp) div 2 = 128" by (rule full_half [OF ok full])
  have b: "map (\<lambda>i. slot (runq pp) (runqhead pp + of_nat i)) [0 ..< 128] @ [g] = b"
    using advance_head [OF ok, of 128] full by (simp add: b_def slots_rlist)
  have bs: "distinct b" "0 \<notin> set b" "b \<noteq> []" "set gs \<inter> set b = {}"
    using fresh set_take_subset [of 128 "rqueue pp"] by (auto simp: b_def)
  obtain y where y: "path (link_batch (schedlink s) b) (hd b) b y" "\<forall>x. x \<notin> set b \<longrightarrow> link_batch (schedlink s) b x = schedlink s x"
    using link_batch_path [OF bs(1-3), of "schedlink s"] by blast
  have q': "isq (link_batch (schedlink s) b) (s_runq s) gs"
    using q y(2) bs(4) path_agree [of gs "link_batch (schedlink s) b" "schedlink s"] unfolding isq_def by blast
  have lb: "last b = g" by (simp add: b_def)
  obtain sl q2 where e: "q_pushBackAll (link_batch (schedlink s) b) (s_runq s) \<lparr>q_head = hd b, q_tail = last b\<rparr> = (sl, q2)" by fastforce
  have "batchq (link_batch (schedlink s) b) \<lparr>q_head = hd b, q_tail = last b\<rparr> b" using bs y(1) by (auto simp: batchq_def)
  then have "isq sl q2 (gs @ b)" by (rule isq_pushBackAll [OF q' _ bs(4) e])
  moreover have "\<forall>x. x \<notin> set gs \<and> x \<notin> set b \<longrightarrow> sl x = schedlink s x"
    using e y(2) bs(3) q' isq_tail_zero [OF q'] by (auto simp: q_pushBackAll_def Let_def isq_def split: if_splits)
  moreover have "runqput_try (runqhead pp) pp s g =
      Some (Done (pp\<lparr>runqhead := runqhead pp + 128\<rparr>, s\<lparr>schedlink := sl, s_runq := q2, runqsize := runqsize s + 129\<rparr>))"
    using full e [unfolded lb]
    by (simp add: runqput_try_def ring_less rqueue_def runqputslow_def n Let_def cas_head_def b globrunqputbatch_def del: upt_conv_Cons)
  ultimately show ?thesis by (auto simp: b_def)
qed

lemma runqget_try_correct:
  assumes ok: "p_ok pp"
  shows "if rqueue pp = [] then runqget_try (runqhead pp) pp = Done (pp, 0)
    else runqget_try (runqhead pp) pp = Done (pp\<lparr>runqhead := runqhead pp + 1\<rparr>, hd (rqueue pp)) \<and>
      p_ok (pp\<lparr>runqhead := runqhead pp + 1\<rparr>) \<and> rqueue (pp\<lparr>runqhead := runqhead pp + 1\<rparr>) = tl (rqueue pp)"
proof (cases "rqueue pp = []")
  case True
  then have "unat (runqtail pp - runqhead pp) = 0" by (metis length_0_conv length_rlist rqueue_def)
  then have "runqtail pp = runqhead pp" by (simp add: unat_eq_zero)
  then show ?thesis using True by (simp add: runqget_try_def)
next
  case False
  then have k: "1 \<le> length (rqueue pp)" by (simp add: Suc_le_eq)
  have "runqtail pp \<noteq> runqhead pp" using False by (auto simp: rqueue_def)
  moreover have "slot (runq pp) (runqhead pp) = hd (rqueue pp)"
    using advance_head [OF ok k] False by (cases "rqueue pp") (auto simp: rlist_def)
  ultimately show ?thesis
    using advance_head [OF ok k] False by (simp add: runqget_try_def cas_head_def drop_Suc)
qed

lemma grab_copy_rlist:
  assumes "n \<le> 256" "length batch = 256"
  shows "length (grab_copy pp h batch bh n) = 256 \<and> rlist (grab_copy pp h batch bh n) bh n = rlist (runq pp) h n"
  using assms
proof (induction n)
  case (Suc n)
  then have "rlist (grab_copy pp h batch bh (Suc n)) bh (n + 1) = rlist (grab_copy pp h batch bh n) bh n @ [slot (runq pp) (h + of_nat n)]"
    using rlist_set_end [of n "grab_copy pp h batch bh n" bh] by (simp add: grab_item_def)
  then show ?case using Suc by (simp add: rlist_def set_slot_def grab_item_def)
qed simp

lemma grab_copy_keeps:
  assumes "n + m \<le> 256" "length batch = 256"
  shows "rlist (grab_copy pp h batch (b + of_nat m) n) b m = rlist batch b m"
  using assms
proof (induction n)
  case (Suc n)
  have l: "length (grab_copy pp h batch (b + of_nat m) n) = 256" using grab_copy_rlist Suc.prems by simp
  have e: "b + of_nat m + of_nat n = b + of_nat (m + n)" by simp
  have "rlist (grab_copy pp h batch (b + of_nat m) (Suc n)) b m = rlist (grab_copy pp h batch (b + of_nat m) n) b m"
    unfolding grab_copy.simps grab_item_def Let_def e by (rule rlist_set_outside) (use l Suc.prems in simp_all)
  then show ?case using Suc by simp
qed simp

text \<open>Half of the queue, rounded up, is grabbed.\<close>

lemma half_up: "unat (w - w div 2) = unat w - unat (w :: uint32) div 2"
  by (subst unat_sub_small) (simp_all add: unat_div)

lemma runqgrab_some:
  assumes ok: "p_ok pp" and ne: "rqueue pp \<noteq> []" and b: "length batch = 256"
  defines "k \<equiv> length (rqueue pp) - length (rqueue pp) div 2"
  shows "\<exists>batch'. runqgrab pp batch bh st = Some (pp\<lparr>runqhead := runqhead pp + of_nat k\<rparr>, batch', of_nat k) \<and>
    batch' = grab_copy pp (runqhead pp) batch bh k \<and> rlist batch' bh k = take k (rqueue pp) \<and> length batch' = 256 \<and>
    1 \<le> k \<and> k \<le> 128 \<and>
    p_ok (pp\<lparr>runqhead := runqhead pp + of_nat k\<rparr>) \<and> rqueue (pp\<lparr>runqhead := runqhead pp + of_nat k\<rparr>) = drop k (rqueue pp)"
proof -
  define m where "m = unat (runqtail pp - runqhead pp)"
  have l: "length (rqueue pp) = m" by (simp add: rqueue_def m_def)
  have "m \<noteq> 0" using ne l by auto
  then have m: "1 \<le> m" "m \<le> 256" using ok by (simp_all add: p_ok_def m_def)
  have k: "k = m - m div 2" "1 \<le> k" "k \<le> 128" "k \<le> m" using m unfolding k_def l by linarith+
  have h: "unat ((runqtail pp - runqhead pp) - (runqtail pp - runqhead pp) div 2) = k"
    by (rule trans [OF half_up]) (simp only: m_def [symmetric] k(1))
  have uk: "unat (of_nat k :: uint32) = k" using k(3) by (simp add: unat_of_nat)
  have n: "(runqtail pp - runqhead pp) - (runqtail pp - runqhead pp) div 2 = of_nat k"
    by (rule word_unat_eq_iff [THEN iffD2]) (rule trans [OF h uk [symmetric]])
  have kz: "(of_nat k :: uint32) \<noteq> 0" using k(2) uk by auto
  have kl: "\<not> (128 :: uint32) < of_nat k" using k(3) uk by (simp add: word_less_nat_alt)
  have c: "rlist (grab_copy pp (runqhead pp) batch bh k) bh k = take k (rqueue pp)"
    "length (grab_copy pp (runqhead pp) batch bh k) = 256"
    using grab_copy_rlist [of k batch pp "runqhead pp" bh] advance_head [OF ok, of k] k b l by simp_all
  have "runqgrab pp batch bh st =
      Some (pp\<lparr>runqhead := runqhead pp + of_nat k\<rparr>, grab_copy pp (runqhead pp) batch bh k, of_nat k)"
    unfolding runqgrab_def runqgrab_try_def Let_def n using kz kl uk by (simp add: run_attempt_def grab_count_def grab_commit_def cas_head_def Let_def n)
  then show ?thesis using c k advance_head [OF ok, of k] l by simp
qed

subsection \<open>Interleavings of the owner and of thieves on one ring\<close>

text \<open>The ring of one P under the memory operations of the functions above, one step each: the owner's load of the head,
  its slot writes and its stores of the tail (\<open>runqput\<close>, \<open>runqputbatch\<close>, and \<open>runqsteal\<close> into its own empty ring), its
  compare-and-swaps (\<open>runqputslow\<close>, \<open>runqget\<close>, \<open>runqdrain\<close>), and for any number of thieves in \<open>runqgrab\<close> the loads of
  head and tail, each slot copied, and the commit.  The slots are written by the owner alone, so its own reads of them are part
  of the step that uses them.  The state has the ring, the local variables of the owner and of the thieves, and ghost
  fields: how often head and tail have moved in all (\<open>headN\<close>, \<open>tailN\<close>), what has been published into the ring and taken
  out of it, and in \<open>owner\<close> what has been written behind the tail and not yet published.

  Two assumptions are premises of the steps: the head moves by less than \<open>2 ^ 32\<close> between a thief's load and its
  swap (\<open>thief_commit\<close>; the code has no guard against a full turn of the counter), and \<open>runqsteal\<close> is called on an empty
  ring (\<open>steal_start\<close>; the scheduler calls it when \<open>runqget\<close> has found nothing).  The ring of the victim in
  \<open>steal_copy\<close> may be in any state.\<close>

datatype owner_state =
    Idle
  | Loaded uint32 nat "guintptr list"
  | Stealing "guintptr list"

record thief =
  th_h :: uint32
  th_H :: nat
  th_n :: "uint32 option"
  th_batch :: "guintptr list"
  th_bh :: uint32
  th_i :: nat

record ring =
  rp :: p
  headN :: nat
  tailN :: nat
  owner :: owner_state
  thieves :: "nat \<Rightarrow> thief option"
  ring_in :: "guintptr list"
  ring_out :: "guintptr list"

inductive rstep :: "ring \<Rightarrow> ring \<Rightarrow> bool" where
  runnext_change: "rstep s (s\<lparr>rp := (rp s)\<lparr>runnext := gp\<rparr>\<rparr>)"
| owner_load: "owner s = Idle \<Longrightarrow> rstep s (s\<lparr>owner := Loaded (runqhead (rp s)) (headN s) []\<rparr>)"
| owner_again: "owner s = Loaded h H [] \<Longrightarrow> rstep s (s\<lparr>owner := Idle\<rparr>)"
| owner_write:
    "owner s = Loaded h H gs \<Longrightarrow> t = runqtail (rp s) + of_nat (length gs) \<Longrightarrow> t - h < 256 \<Longrightarrow>
     rstep s (s\<lparr>rp := put_slot (rp s) t gp, owner := Loaded h H (gs @ [gp])\<rparr>)"
| owner_publish:
    "owner s = Loaded h H gs \<Longrightarrow>
     rstep s (s\<lparr>rp := store_tail (rp s) (runqtail (rp s) + of_nat (length gs)), tailN := tailN s + length gs,
       owner := Idle, ring_in := ring_in s @ gs\<rparr>)"
| owner_put_slow:
    "owner s = Loaded h H [] \<Longrightarrow> \<not> runqtail (rp s) - h < 256 \<Longrightarrow> runqput_try h (rp s) g gp = Some (Done (pp, g')) \<Longrightarrow>
     rstep s (s\<lparr>rp := pp, headN := headN s + 128, owner := Idle, ring_out := ring_out s @ rlist (runq (rp s)) h 128\<rparr>)"
| owner_get:
    "owner s = Loaded h H [] \<Longrightarrow> runqtail (rp s) \<noteq> h \<Longrightarrow> runqget_try h (rp s) = Done (pp, gp) \<Longrightarrow>
     rstep s (s\<lparr>rp := pp, headN := headN s + 1, owner := Idle, ring_out := ring_out s @ [gp]\<rparr>)"
| owner_drain:
    "owner s = Loaded h H [] \<Longrightarrow> runqdrain_try h (rp s) = Done (pp, gs) \<Longrightarrow>
     rstep s (s\<lparr>rp := pp, headN := headN s + length gs, owner := Idle, ring_out := ring_out s @ gs\<rparr>)"
| steal_start: "owner s = Idle \<Longrightarrow> runqhead (rp s) = runqtail (rp s) \<Longrightarrow> rstep s (s\<lparr>owner := Stealing []\<rparr>)"
| steal_copy:
    "owner s = Stealing gs \<Longrightarrow> length gs < 128 \<Longrightarrow>
     rstep s (s\<lparr>rp := (rp s)\<lparr>runq := grab_item p2 h (runq (rp s)) (runqtail (rp s)) (of_nat (length gs))\<rparr>,
       owner := Stealing (gs @ [slot (runq p2) (h + of_nat (length gs))])\<rparr>)"
| steal_runnext:
    "owner s = Stealing [] \<Longrightarrow> rstep s (s\<lparr>rp := put_slot (rp s) (runqtail (rp s)) gp, owner := Stealing [gp]\<rparr>)"
| steal_again: "owner s = Stealing gs \<Longrightarrow> rstep s (s\<lparr>owner := Stealing []\<rparr>)"
| steal_end:
    "owner s = Stealing gs \<Longrightarrow> steal_publish (rp s) (of_nat (length gs)) = Some (pp, gp) \<Longrightarrow>
     rstep s (s\<lparr>rp := pp, tailN := tailN s + (length gs - 1), owner := Idle, ring_in := ring_in s @ butlast gs\<rparr>)"
| thief_load_head:
    "length batch = 256 \<Longrightarrow>
     rstep s (s\<lparr>thieves := (thieves s)(i \<mapsto>
       \<lparr>th_h = runqhead (rp s), th_H = headN s, th_n = None, th_batch = batch, th_bh = bh, th_i = 0\<rparr>)\<rparr>)"
| thief_load_tail:
    "thieves s i = Some th \<Longrightarrow> th_n th = None \<Longrightarrow> n = grab_count (th_h th) (runqtail (rp s)) \<Longrightarrow> n \<noteq> 0 \<Longrightarrow> \<not> n > 128 \<Longrightarrow>
     rstep s (s\<lparr>thieves := (thieves s)(i \<mapsto> th\<lparr>th_n := Some n\<rparr>)\<rparr>)"
| thief_copy:
    "thieves s i = Some th \<Longrightarrow> th_n th = Some n \<Longrightarrow> th_i th < unat n \<Longrightarrow>
     rstep s (s\<lparr>thieves := (thieves s)(i \<mapsto>
       th\<lparr>th_batch := grab_item (rp s) (th_h th) (th_batch th) (th_bh th) (of_nat (th_i th)), th_i := th_i th + 1\<rparr>)\<rparr>)"
| thief_commit:
    "thieves s i = Some th \<Longrightarrow> th_n th = Some n \<Longrightarrow> th_i th = unat n \<Longrightarrow> headN s < th_H th + 2 ^ 32 \<Longrightarrow>
     grab_commit (th_h th) n (rp s) (th_batch th) = Done (pp, batch, k) \<Longrightarrow>
     rstep s (s\<lparr>rp := pp, headN := headN s + unat k, thieves := (thieves s)(i := None),
       ring_out := ring_out s @ rlist batch (th_bh th) (unat k)\<rparr>)"
| thief_again:
    "thieves s i = Some th \<Longrightarrow> th_n th = Some n \<Longrightarrow> th_i th = unat n \<Longrightarrow>
     grab_commit (th_h th) n (rp s) (th_batch th) = Retry \<Longrightarrow> rstep s (s\<lparr>thieves := (thieves s)(i := None)\<rparr>)"

definition ring_init :: "ring \<Rightarrow> bool" where
  "ring_init s \<longleftrightarrow> length (runq (rp s)) = 256 \<and> runqtail (rp s) = runqhead (rp s) \<and>
     headN s = unat (runqhead (rp s)) \<and> tailN s = headN s \<and> owner s = Idle \<and> thieves s = Map.empty \<and>
     ring_in s = [] \<and> ring_out s = []"

inductive ring_reach :: "ring \<Rightarrow> bool" where
  reach_init: "ring_init s \<Longrightarrow> ring_reach s"
| reach_step: "ring_reach s \<Longrightarrow> rstep s s' \<Longrightarrow> ring_reach s'"

primrec pending :: "owner_state \<Rightarrow> guintptr list" where
  "pending Idle = []"
| "pending (Loaded h H gs) = gs"
| "pending (Stealing gs) = gs"

primrec owner_ok :: "ring \<Rightarrow> owner_state \<Rightarrow> bool" where
  "owner_ok s Idle \<longleftrightarrow> True"
| "owner_ok s (Loaded h H gs) \<longleftrightarrow> h = of_nat H \<and> H \<le> headN s \<and> tailN s + length gs \<le> H + 256"
| "owner_ok s (Stealing gs) \<longleftrightarrow> headN s = tailN s \<and> length gs \<le> 128"

definition thief_ok :: "ring \<Rightarrow> thief \<Rightarrow> bool" where
  "thief_ok s th \<longleftrightarrow> th_h th = of_nat (th_H th) \<and> th_H th \<le> headN s \<and> length (th_batch th) = 256 \<and>
     (case th_n th of None \<Rightarrow> th_i th = 0 | Some n \<Rightarrow> th_i th \<le> unat n \<and> unat n \<le> 128) \<and>
     (th_H th = headN s \<longrightarrow>
       (case th_n th of None \<Rightarrow> True | Some n \<Rightarrow> unat n \<le> tailN s - headN s) \<and>
       rlist (th_batch th) (th_bh th) (th_i th) = rlist (runq (rp s)) (th_h th) (th_i th))"

definition ring_nums :: "ring \<Rightarrow> bool" where
  "ring_nums s \<longleftrightarrow> length (runq (rp s)) = 256 \<and> runqhead (rp s) = of_nat (headN s) \<and> runqtail (rp s) = of_nat (tailN s) \<and>
     headN s \<le> tailN s \<and> tailN s \<le> headN s + 256"

definition ring_ok :: "ring \<Rightarrow> bool" where
  "ring_ok s \<longleftrightarrow> ring_nums s \<and> owner_ok s (owner s) \<and>
     rlist (runq (rp s)) (runqtail (rp s)) (length (pending (owner s))) = pending (owner s) \<and>
     (\<forall>i th. thieves s i = Some th \<longrightarrow> thief_ok s th) \<and>
     ring_in s = ring_out s @ rqueue (rp s)"

lemma of_nat_diff32:
  assumes "a \<le> b" "b - a < 2 ^ 32"
  shows "unat (of_nat b - of_nat a :: uint32) = b - a"
proof -
  have "of_nat b - of_nat a = (of_nat (b - a) :: uint32)" using assms(1) by (simp add: of_nat_diff)
  then show ?thesis using assms(2) by (simp add: unat_of_nat_small)
qed

lemma of_nat_eq32:
  assumes "a \<le> b" "b - a < 2 ^ 32" "(of_nat a :: uint32) = of_nat b"
  shows "a = b"
  using of_nat_diff32 [OF assms(1,2)] assms by simp

lemma ring_nums_diff: "ring_nums s \<Longrightarrow> unat (runqtail (rp s) - runqhead (rp s)) = tailN s - headN s"
proof -
  assume n: "ring_nums s"
  then have le: "headN s \<le> tailN s" "tailN s \<le> headN s + 256" by (simp_all add: ring_nums_def)
  have b: "tailN s - headN s < 2 ^ 32" using le(2) by simp
  have w: "runqhead (rp s) = of_nat (headN s)" "runqtail (rp s) = of_nat (tailN s)" using n by (simp_all add: ring_nums_def)
  show ?thesis unfolding w by (rule of_nat_diff32 [OF le(1) b])
qed

lemma ring_nums_queue: "ring_nums s \<Longrightarrow> rqueue (rp s) = rlist (runq (rp s)) (runqhead (rp s)) (tailN s - headN s) \<and> p_ok (rp s)"
  using ring_nums_diff [of s] by (auto simp: rqueue_def p_ok_def ring_nums_def)

lemma ring_ok_nums: "ring_ok s \<Longrightarrow> ring_nums s"
  by (simp add: ring_ok_def)

lemma ring_ok_thief: "ring_ok s \<Longrightarrow> thieves s i = Some th \<Longrightarrow> thief_ok s th"
  by (simp add: ring_ok_def)

lemma ring_ok_room: "ring_ok s \<Longrightarrow> tailN s + length (pending (owner s)) \<le> headN s + 256"
  unfolding ring_ok_def ring_nums_def by (cases "owner s") simp_all

lemma owner_ok_same: "owner_ok s ow \<Longrightarrow> headN s' = headN s \<Longrightarrow> tailN s' = tailN s \<Longrightarrow> owner_ok s' ow"
  by (cases ow) simp_all

lemma owner_ok_head:
  "owner_ok s ow \<Longrightarrow> ring_nums s \<Longrightarrow> k \<le> tailN s - headN s \<Longrightarrow> headN s' = headN s + k \<Longrightarrow> tailN s' = tailN s \<Longrightarrow> owner_ok s' ow"
  by (cases ow) (simp_all add: ring_nums_def)

text \<open>Moving the head invalidates what a thief has copied, and nothing else does.\<close>

lemma thief_ok_head: "thief_ok s th \<Longrightarrow> 0 < k \<Longrightarrow> headN s' = headN s + k \<Longrightarrow> thief_ok s' th"
  unfolding thief_ok_def by auto

lemma thief_ok_same:
  "thief_ok s th \<Longrightarrow> headN s' = headN s \<Longrightarrow> tailN s \<le> tailN s' \<Longrightarrow> runq (rp s') = runq (rp s) \<Longrightarrow> thief_ok s' th"
  unfolding thief_ok_def by (auto split: option.splits)

text \<open>A slot behind the tail is in no thief's range.\<close>

lemma tail_slot:
  assumes "ring_nums s"
  shows "runqtail (rp s) + of_nat m = runqhead (rp s) + of_nat (tailN s - headN s + m)"
  using assms by (simp add: ring_nums_def of_nat_diff)

lemma thief_ok_write:
  assumes th: "thief_ok s th" and n: "ring_nums s" and room: "tailN s + m < headN s + 256"
    and s': "headN s' = headN s" "tailN s' = tailN s" "runq (rp s') = set_slot (runq (rp s)) (runqtail (rp s) + of_nat m) gp"
  shows "thief_ok s' th"
proof (cases "th_H th = headN s")
  case True
  have hm: "runqtail (rp s) + of_nat m = th_h th + of_nat (tailN s - headN s + m)"
    using tail_slot [OF n, of m] th True n by (simp add: thief_ok_def ring_nums_def)
  have len: "th_i th \<le> tailN s - headN s + m" "tailN s - headN s + m < 256"
    using th True room n by (auto simp: thief_ok_def ring_nums_def split: option.splits)
  have "length (runq (rp s)) = 256" using n by (simp add: ring_nums_def)
  then have "rlist (runq (rp s')) (th_h th) (th_i th) = rlist (runq (rp s)) (th_h th) (th_i th)"
    unfolding s'(3) hm by (intro rlist_set_outside len)
  then show ?thesis using th s'(1,2) True unfolding thief_ok_def by (auto split: option.splits)
qed (use th s' in \<open>simp add: thief_ok_def\<close>)

lemma ring_ok_locals:
  assumes ok: "ring_ok s"
    and same: "runq (rp s') = runq (rp s)" "runqhead (rp s') = runqhead (rp s)" "runqtail (rp s') = runqtail (rp s)"
      "headN s' = headN s" "tailN s' = tailN s" "ring_in s' = ring_in s" "ring_out s' = ring_out s"
    and owner: "owner s' = owner s \<or> pending (owner s') = [] \<and> owner_ok s (owner s')"
    and th: "\<And>i th. thieves s' i = Some th \<Longrightarrow> thief_ok s th"
  shows "ring_ok s'"
proof -
  have "thief_ok s' t" if "thieves s' i = Some t" for i t
    by (rule thief_ok_same [OF th [OF that]]) (simp_all add: same)
  moreover have "owner_ok s' (owner s')"
    by (rule owner_ok_same [of s]) (use owner ok same in \<open>auto simp: ring_ok_def\<close>)
  moreover have "rlist (runq (rp s)) (runqtail (rp s)) (length (pending (owner s'))) = pending (owner s')"
    using owner ok by (auto simp: ring_ok_def)
  moreover have "ring_nums s'" using ring_ok_nums [OF ok] by (simp add: ring_nums_def same)
  moreover have "rqueue (rp s') = rqueue (rp s)" by (simp add: rqueue_def same)
  ultimately show ?thesis using ok by (simp add: ring_ok_def same)
qed

lemma ring_ok_write:
  assumes ok: "ring_ok s" and room: "tailN s + length (pending (owner s)) < headN s + 256"
    and s': "runq (rp s') = set_slot (runq (rp s)) (runqtail (rp s) + of_nat (length (pending (owner s)))) gp"
      "runqhead (rp s') = runqhead (rp s)" "runqtail (rp s') = runqtail (rp s)"
      "headN s' = headN s" "tailN s' = tailN s" "ring_in s' = ring_in s" "ring_out s' = ring_out s" "thieves s' = thieves s"
    and ow: "pending (owner s') = pending (owner s) @ [gp]" "owner_ok s (owner s')"
  shows "ring_ok s'"
proof -
  note n = ring_ok_nums [OF ok]
  have l: "length (runq (rp s)) = 256" and le: "headN s \<le> tailN s" using n by (simp_all add: ring_nums_def)
  have n': "ring_nums s'" using n by (simp add: ring_nums_def s' set_slot_def)
  have "rlist (runq (rp s')) (runqhead (rp s)) (tailN s - headN s) = rlist (runq (rp s)) (runqhead (rp s)) (tailN s - headN s)"
    unfolding s'(1) tail_slot [OF n] by (rule rlist_set_outside) (use room le l in simp_all)
  then have q: "rqueue (rp s') = rqueue (rp s)" using ring_nums_queue [OF n] ring_nums_queue [OF n'] s' by simp
  have m: "length (pending (owner s)) < 256" using room le by simp
  have "rlist (runq (rp s')) (runqtail (rp s)) (length (pending (owner s)) + 1) = pending (owner s) @ [gp]"
    unfolding s'(1) rlist_set_end [OF m l] using ok by (simp add: ring_ok_def)
  then have p: "rlist (runq (rp s')) (runqtail (rp s')) (length (pending (owner s'))) = pending (owner s')"
    by (simp add: ow s'(3))
  have "thief_ok s' t" if "thieves s' i = Some t" for i t
    by (rule thief_ok_write [OF ring_ok_thief [OF ok] n room s'(4,5,1)]) (use that s'(8) in simp)
  moreover have "owner_ok s' (owner s')" by (rule owner_ok_same [OF ow(2) s'(4,5)])
  ultimately show ?thesis using ok n' q p by (simp add: ring_ok_def s')
qed

lemma ring_ok_publish:
  assumes ok: "ring_ok s" and k: "k \<le> length (pending (owner s))"
    and s': "runq (rp s') = runq (rp s)" "runqhead (rp s') = runqhead (rp s)" "runqtail (rp s') = runqtail (rp s) + of_nat k"
      "headN s' = headN s" "tailN s' = tailN s + k" "owner s' = Idle" "thieves s' = thieves s"
      "ring_in s' = ring_in s @ take k (pending (owner s))" "ring_out s' = ring_out s"
  shows "ring_ok s'"
proof -
  note n = ring_ok_nums [OF ok]
  have le: "headN s \<le> tailN s" using n by (simp add: ring_nums_def)
  have n': "ring_nums s'" using n ring_ok_room [OF ok] k by (simp add: ring_nums_def s')
  have d: "tailN s' - headN s' = (tailN s - headN s) + k" using le s' by simp
  have t: "runqtail (rp s) = runqhead (rp s) + of_nat (tailN s - headN s)" using tail_slot [OF n, of 0] by simp
  have "rlist (runq (rp s)) (runqtail (rp s)) k = take k (rlist (runq (rp s)) (runqtail (rp s)) (length (pending (owner s))))"
    by (simp only: rlist_take [OF k])
  also have "\<dots> = take k (pending (owner s))" using ok by (simp add: ring_ok_def)
  finally have "rqueue (rp s') = rqueue (rp s) @ take k (pending (owner s))"
    using ring_nums_queue [OF n] ring_nums_queue [OF n'] s'(1,2) by (simp add: d rlist_append flip: t)
  moreover have "thief_ok s' th" if "thieves s' i = Some th" for i th
    by (rule thief_ok_same [OF ring_ok_thief [OF ok]]) (use that s' in simp_all)
  ultimately show ?thesis using ok n' by (simp add: ring_ok_def s'(6,8,9))
qed

lemma ring_ok_take:
  assumes ok: "ring_ok s" and k: "k \<le> tailN s - headN s"
    and s': "runq (rp s') = runq (rp s)" "runqhead (rp s') = runqhead (rp s) + of_nat k" "runqtail (rp s') = runqtail (rp s)"
      "headN s' = headN s + k" "tailN s' = tailN s" "owner s' = owner s \<or> owner s' = Idle"
      "ring_in s' = ring_in s" "ring_out s' = ring_out s @ rlist (runq (rp s)) (runqhead (rp s)) k"
    and th: "\<And>i th. thieves s' i = Some th \<Longrightarrow> thieves s i = Some th"
  shows "ring_ok s'"
proof -
  note n = ring_ok_nums [OF ok]
  have n': "ring_nums s'" using n k by (auto simp: ring_nums_def s')
  have d: "tailN s' - headN s' = (tailN s - headN s) - k" by (simp add: s')
  have "rqueue (rp s) = rlist (runq (rp s)) (runqhead (rp s)) k @ rqueue (rp s')"
    unfolding conjunct1 [OF ring_nums_queue [OF n]] conjunct1 [OF ring_nums_queue [OF n']] d s'(1,2)
    by (rule rlist_append [of "runq (rp s)" "runqhead (rp s)" k "tailN s - headN s - k", unfolded le_add_diff_inverse [OF k]])
  moreover have "thief_ok s' t" if "thieves s' i = Some t" for i t
  proof (cases "k = 0")
    case True
    show ?thesis by (rule thief_ok_same [OF ring_ok_thief [OF ok th [OF that]]]) (use s' True in simp_all)
  next
    case False
    show ?thesis by (rule thief_ok_head [OF ring_ok_thief [OF ok th [OF that]], of k]) (use s' False in simp_all)
  qed
  moreover have "owner_ok s' (owner s')"
    using s'(6) owner_ok_head [OF _ n k s'(4,5), of "owner s"] ok by (auto simp: ring_ok_def)
  moreover have "rlist (runq (rp s')) (runqtail (rp s')) (length (pending (owner s'))) = pending (owner s')"
    using s'(6) ok by (auto simp: ring_ok_def s'(1,3))
  ultimately show ?thesis using ok n' by (simp add: ring_ok_def s'(7,8))
qed

text \<open>What the owner knows of the head it has loaded, and a thief of the head it has swapped.\<close>

lemma loaded_head:
  assumes "ring_ok s" "owner s = Loaded h H gs"
  shows "unat (runqtail (rp s) + of_nat (length gs) - h) = tailN s + length gs - H" "tailN s + length gs \<le> H + 256" "H \<le> headN s"
    "runqhead (rp s) = h \<Longrightarrow> H = headN s"
proof -
  have o: "h = of_nat H" "H \<le> headN s" "tailN s + length gs \<le> H + 256" and n: "ring_nums s" using assms by (simp_all add: ring_ok_def)
  have le: "headN s \<le> tailN s" using n by (simp add: ring_nums_def)
  have "tailN s + length gs - H < 2 ^ 32" using o(3) by simp
  moreover have "H \<le> tailN s + length gs" using o(2) le by simp
  ultimately have "unat (of_nat (tailN s + length gs) - of_nat H :: uint32) = tailN s + length gs - H" by (rule of_nat_diff32 [rotated])
  then show "unat (runqtail (rp s) + of_nat (length gs) - h) = tailN s + length gs - H"
    using n o(1) by (simp add: ring_nums_def)
  show "tailN s + length gs \<le> H + 256" "H \<le> headN s" using o by simp_all
  have "headN s - H < 2 ^ 32" using o(3) le by simp
  then show "runqhead (rp s) = h \<Longrightarrow> H = headN s" using of_nat_eq32 [OF o(2)] n o(1) by (simp add: ring_nums_def)
qed

lemma slow_no_throw:
  assumes "ring_ok s" "owner s = Loaded h H []"
  shows "runqput_try h (rp s) g gp \<noteq> None"
proof (cases "runqtail (rp s) - h < 256")
  case False
  have "unat (runqtail (rp s) - h) = 256"
    using False loaded_head(1,2) [OF assms] by (simp add: ring_less)
  then have e: "runqtail (rp s) - h = 256" by (simp add: word_unat_eq_iff)
  then have n: "(runqtail (rp s) - h) div 2 = 128" by simp
  show ?thesis unfolding runqput_try_def runqputslow_def Let_def n using False by (simp split: prod.split)
qed (simp add: runqput_try_def Let_def)

lemma steal_no_throw:
  assumes ok: "ring_ok s" and st: "owner s = Stealing gs"
  shows "steal_publish (rp s) (of_nat (length gs)) =
    (if gs = [] then Some (rp s, 0) else Some (store_tail (rp s) (runqtail (rp s) + of_nat (length gs - 1)), last gs))"
proof (cases gs)
  case (Cons g gs')
  have l: "length gs \<le> 128" and e: "headN s = tailN s" and r: "rlist (runq (rp s)) (runqtail (rp s)) (length gs) = gs"
    using ok st by (simp_all add: ring_ok_def)
  have u: "unat (of_nat (length gs) :: uint32) = length gs" using l by (simp add: unat_of_nat)
  have u': "unat (of_nat (length gs') :: uint32) = length gs'" using l Cons by (simp add: unat_of_nat)
  have nz: "(of_nat (length gs) :: uint32) \<noteq> 0" using u Cons by auto
  have d: "(of_nat (length gs) :: uint32) - 1 = of_nat (length gs')" using Cons by simp
  have ht: "runqtail (rp s) - runqhead (rp s) = 0" using e ring_ok_nums [OF ok] by (simp add: ring_nums_def)
  have sl: "slot (runq (rp s)) (runqtail (rp s) + of_nat (length gs')) = last gs"
    using arg_cong [OF r, of last] Cons by (simp add: rlist_def)
  have lt: "\<not> 256 \<le> 0 + (of_nat (length gs') :: uint32)" using u' l Cons by (simp add: word_le_nat_alt)
  have e: "steal_publish (rp s) (of_nat (length gs)) =
      (if of_nat (length gs') = (0 :: uint32) then Some (rp s, last gs)
       else Some (store_tail (rp s) (runqtail (rp s) + of_nat (length gs')), last gs))"
    unfolding steal_publish_def Let_def d ht sl if_not_P [OF nz] if_not_P [OF lt] by (rule refl)
  have t: "length gs - 1 = length gs'" "gs \<noteq> []" using Cons by simp_all
  show ?thesis
  proof (cases "gs' = []")
    case True
    then show ?thesis unfolding e t(1) using t(2) by (simp add: store_tail_def)
  next
    case False
    then have "(of_nat (length gs') :: uint32) \<noteq> 0" using u' by auto
    then show ?thesis unfolding e t(1) using t(2) by simp
  qed
qed (simp add: steal_publish_def)

lemma ring_ok_owner:
  assumes "ring_ok s" "owner s = Loaded h H []" "runqhead (rp s) = h" "k \<le> tailN s - H"
    "pp = (rp s)\<lparr>runqhead := h + of_nat k\<rparr>"
  shows "ring_ok (s\<lparr>rp := pp, headN := headN s + k, owner := Idle, ring_out := ring_out s @ rlist (runq (rp s)) h k\<rparr>)"
  unfolding assms(5) by (rule ring_ok_take [OF assms(1), of k]) (use assms(3,4) loaded_head(4) [OF assms(1-3)] in simp_all)

lemma ring_ok_step_owner:
  assumes "ring_ok s"
  shows "owner s = Loaded h H gs \<Longrightarrow> t = runqtail (rp s) + of_nat (length gs) \<Longrightarrow> t - h < 256 \<Longrightarrow>
      ring_ok (s\<lparr>rp := put_slot (rp s) t gp, owner := Loaded h H (gs @ [gp])\<rparr>)"
    and "owner s = Loaded h H [] \<Longrightarrow> \<not> runqtail (rp s) - h < 256 \<Longrightarrow> runqput_try h (rp s) g gp = Some (Done (pp, g')) \<Longrightarrow>
      ring_ok (s\<lparr>rp := pp, headN := headN s + 128, owner := Idle, ring_out := ring_out s @ rlist (runq (rp s)) h 128\<rparr>)"
    and "owner s = Loaded h H [] \<Longrightarrow> runqtail (rp s) \<noteq> h \<Longrightarrow> runqget_try h (rp s) = Done (pp, gp) \<Longrightarrow>
      ring_ok (s\<lparr>rp := pp, headN := headN s + 1, owner := Idle, ring_out := ring_out s @ [gp]\<rparr>)"
    and "owner s = Loaded h H [] \<Longrightarrow> runqdrain_try h (rp s) = Done (pp, hs) \<Longrightarrow>
      ring_ok (s\<lparr>rp := pp, headN := headN s + length hs, owner := Idle, ring_out := ring_out s @ hs\<rparr>)"
proof -
  assume a: "owner s = Loaded h H gs" "t = runqtail (rp s) + of_nat (length gs)" "t - h < 256"
  have l: "tailN s + length gs < H + 256" "H \<le> headN s" using a(3) loaded_head(1-3) [OF assms a(1)] unfolding ring_less a(2) by simp_all
  have o: "h = of_nat H" using assms a(1) by (simp add: ring_ok_def)
  show "ring_ok (s\<lparr>rp := put_slot (rp s) t gp, owner := Loaded h H (gs @ [gp])\<rparr>)"
    by (rule ring_ok_write [OF assms]) (use a l o in \<open>simp_all add: put_slot_def\<close>)
next
  assume a: "owner s = Loaded h H []" "\<not> runqtail (rp s) - h < 256" "runqput_try h (rp s) g gp = Some (Done (pp, g'))"
  have pp: "pp = (rp s)\<lparr>runqhead := h + 128\<rparr>" "runqhead (rp s) = h"
    using a(2,3) by (auto simp: runqput_try_def runqputslow_def Let_def cas_head_def split: if_splits bind_splits prod.splits)
  have "128 \<le> tailN s - H" using a(2) loaded_head(1,2) [OF assms a(1)] by (simp add: ring_less)
  then show "ring_ok (s\<lparr>rp := pp, headN := headN s + 128, owner := Idle, ring_out := ring_out s @ rlist (runq (rp s)) h 128\<rparr>)"
    using ring_ok_owner [OF assms a(1) pp(2), of 128 pp] pp(1) by simp
next
  assume a: "owner s = Loaded h H []" "runqtail (rp s) \<noteq> h" "runqget_try h (rp s) = Done (pp, gp)"
  have pp: "pp = (rp s)\<lparr>runqhead := h + of_nat 1\<rparr>" "runqhead (rp s) = h" "gp = slot (runq (rp s)) h"
    using a(2,3) by (auto simp: runqget_try_def Let_def cas_head_def split: if_splits)
  have "1 \<le> tailN s - H" using a(2) loaded_head(1) [OF assms a(1)] by (cases "tailN s - H") (simp_all add: unat_eq_zero)
  then show "ring_ok (s\<lparr>rp := pp, headN := headN s + 1, owner := Idle, ring_out := ring_out s @ [gp]\<rparr>)"
    using ring_ok_owner [OF assms a(1) pp(2), of 1 pp] pp(1,3) by (simp add: rlist_def)
next
  assume a: "owner s = Loaded h H []" "runqdrain_try h (rp s) = Done (pp, hs)"
  show "ring_ok (s\<lparr>rp := pp, headN := headN s + length hs, owner := Idle, ring_out := ring_out s @ hs\<rparr>)"
  proof (cases "runqtail (rp s) - h = 0")
    case True
    then have "pp = rp s" "hs = []" using a(2) by (simp_all add: runqdrain_try_def Let_def)
    then show ?thesis by (intro ring_ok_locals [OF assms]) (use ring_ok_thief [OF assms] in simp_all)
  next
    case False
    define k where "k = unat (runqtail (rp s) - h)"
    have pp: "pp = (rp s)\<lparr>runqhead := h + of_nat k\<rparr>" "runqhead (rp s) = h" "hs = rlist (runq (rp s)) h k"
      using a(2) False by (auto simp: runqdrain_try_def Let_def cas_head_def rlist_def k_def split: if_splits)
    have "k = tailN s - H" using loaded_head(1) [OF assms a(1)] by (simp add: k_def)
    then show ?thesis using ring_ok_owner [OF assms a(1) pp(2), of k pp] pp(1,3) by simp
  qed
qed

lemma ring_ok_step_steal:
  assumes "ring_ok s"
  shows "owner s = Stealing gs \<Longrightarrow> length gs < 128 \<Longrightarrow>
      ring_ok (s\<lparr>rp := (rp s)\<lparr>runq := grab_item p2 h (runq (rp s)) (runqtail (rp s)) (of_nat (length gs))\<rparr>,
        owner := Stealing (gs @ [slot (runq p2) (h + of_nat (length gs))])\<rparr>)"
    and "owner s = Stealing [] \<Longrightarrow> ring_ok (s\<lparr>rp := put_slot (rp s) (runqtail (rp s)) gp, owner := Stealing [gp]\<rparr>)"
    and "owner s = Stealing gs \<Longrightarrow> steal_publish (rp s) (of_nat (length gs)) = Some (pp, gp) \<Longrightarrow>
      ring_ok (s\<lparr>rp := pp, tailN := tailN s + (length gs - 1), owner := Idle, ring_in := ring_in s @ butlast gs\<rparr>)"
proof -
  assume a: "owner s = Stealing gs" "length gs < 128"
  then have "headN s = tailN s" using assms by (simp add: ring_ok_def)
  then show "ring_ok (s\<lparr>rp := (rp s)\<lparr>runq := grab_item p2 h (runq (rp s)) (runqtail (rp s)) (of_nat (length gs))\<rparr>,
        owner := Stealing (gs @ [slot (runq p2) (h + of_nat (length gs))])\<rparr>)"
    by (intro ring_ok_write [OF assms]) (use a in \<open>simp_all add: grab_item_def\<close>)
next
  assume a: "owner s = Stealing []"
  then have "headN s = tailN s" using assms by (simp add: ring_ok_def)
  then show "ring_ok (s\<lparr>rp := put_slot (rp s) (runqtail (rp s)) gp, owner := Stealing [gp]\<rparr>)"
    by (intro ring_ok_write [OF assms]) (use a in \<open>simp_all add: put_slot_def\<close>)
next
  assume a: "owner s = Stealing gs" "steal_publish (rp s) (of_nat (length gs)) = Some (pp, gp)"
  have "pp = store_tail (rp s) (runqtail (rp s) + of_nat (length gs - 1))"
    using a(2) unfolding steal_no_throw [OF assms a(1)] by (cases "gs = []") (simp_all add: store_tail_def)
  then show "ring_ok (s\<lparr>rp := pp, tailN := tailN s + (length gs - 1), owner := Idle, ring_in := ring_in s @ butlast gs\<rparr>)"
    by (intro ring_ok_publish [OF assms, of "length gs - 1"]) (use a(1) in \<open>simp_all add: store_tail_def butlast_conv_take\<close>)
qed

lemma ring_ok_thieves:
  assumes "ring_ok s" "thief_ok s th"
  shows "ring_ok (s\<lparr>thieves := (thieves s)(i \<mapsto> th)\<rparr>)"
  by (rule ring_ok_locals [OF assms(1)]) (use assms ring_ok_thief in \<open>auto split: if_splits\<close>)

lemma grab_count_le:
  assumes "ring_nums s" "h = runqhead (rp s)"
  shows "unat (grab_count h (runqtail (rp s))) \<le> tailN s - headN s"
proof -
  have "unat (grab_count h (runqtail (rp s))) \<le> unat (runqtail (rp s) - h)"
    unfolding grab_count_def Let_def half_up by simp
  then show ?thesis using ring_nums_diff [OF assms(1)] assms(2) by simp
qed

lemma ring_ok_step_thief:
  assumes "ring_ok s"
  shows "thieves s i = Some th \<Longrightarrow> th_n th = None \<Longrightarrow> n = grab_count (th_h th) (runqtail (rp s)) \<Longrightarrow> \<not> n > 128 \<Longrightarrow>
      thief_ok s (th\<lparr>th_n := Some n\<rparr>)"
    and "thieves s i = Some th \<Longrightarrow> th_n th = Some n \<Longrightarrow> th_i th < unat n \<Longrightarrow>
      thief_ok s (th\<lparr>th_batch := grab_item (rp s) (th_h th) (th_batch th) (th_bh th) (of_nat (th_i th)), th_i := th_i th + 1\<rparr>)"
    and "thieves s i = Some th \<Longrightarrow> th_n th = Some n \<Longrightarrow> th_i th = unat n \<Longrightarrow> headN s < th_H th + 2 ^ 32 \<Longrightarrow>
      grab_commit (th_h th) n (rp s) (th_batch th) = Done (pp, batch, k) \<Longrightarrow>
      ring_ok (s\<lparr>rp := pp, headN := headN s + unat k, thieves := (thieves s)(i := None),
        ring_out := ring_out s @ rlist batch (th_bh th) (unat k)\<rparr>)"
proof -
  note N = ring_ok_nums [OF assms]
  assume a: "thieves s i = Some th" "th_n th = None" "n = grab_count (th_h th) (runqtail (rp s))" "\<not> n > 128"
  note old = ring_ok_thief [OF assms a(1)]
  have "unat n \<le> 128" using a(4) by (simp add: word_less_nat_alt)
  moreover have "unat n \<le> tailN s - headN s" if "th_H th = headN s"
    unfolding a(3) by (rule grab_count_le [OF N]) (use old that N in \<open>simp add: thief_ok_def ring_nums_def\<close>)
  ultimately show "thief_ok s (th\<lparr>th_n := Some n\<rparr>)" using old a(2) by (simp add: thief_ok_def)
next
  assume a: "thieves s i = Some th" "th_n th = Some n" "th_i th < unat n"
  note old = ring_ok_thief [OF assms a(1)]
  have l: "th_i th < 256" "length (th_batch th) = 256" using old a(2,3) by (simp_all add: thief_ok_def)
  let ?b = "grab_item (rp s) (th_h th) (th_batch th) (th_bh th) (of_nat (th_i th))"
  have "rlist ?b (th_bh th) (th_i th + 1) = rlist (th_batch th) (th_bh th) (th_i th) @ [slot (runq (rp s)) (th_h th + of_nat (th_i th))]"
    unfolding grab_item_def Let_def by (rule rlist_set_end [OF l])
  moreover have "length ?b = 256" using l(2) by (simp add: grab_item_def set_slot_def)
  ultimately show "thief_ok s (th\<lparr>th_batch := ?b, th_i := th_i th + 1\<rparr>)"
    using old a(2,3) by (auto simp: thief_ok_def rlist_def)
next
  assume a: "thieves s i = Some th" "th_n th = Some n" "th_i th = unat n" "headN s < th_H th + 2 ^ 32"
    "grab_commit (th_h th) n (rp s) (th_batch th) = Done (pp, batch, k)"
  note old = ring_ok_thief [OF assms a(1)] and N = ring_ok_nums [OF assms]
  have pp: "pp = (rp s)\<lparr>runqhead := th_h th + n\<rparr>" "runqhead (rp s) = th_h th" "batch = th_batch th" "k = n"
    using a(5) by (auto simp: grab_commit_def cas_head_def split: if_splits)
  have "th_H th = headN s"
    by (rule of_nat_eq32) (use old pp(2) N a(4) in \<open>auto simp: thief_ok_def ring_nums_def\<close>)
  then have n: "unat n \<le> tailN s - headN s" "rlist batch (th_bh th) (unat n) = rlist (runq (rp s)) (runqhead (rp s)) (unat n)"
    using old a(2,3) pp(2,3) by (auto simp: thief_ok_def)
  show "ring_ok (s\<lparr>rp := pp, headN := headN s + unat k, thieves := (thieves s)(i := None),
      ring_out := ring_out s @ rlist batch (th_bh th) (unat k)\<rparr>)"
    by (rule ring_ok_take [OF assms n(1)]) (use pp n(2) in \<open>auto split: if_splits\<close>)
qed

lemma ring_ok_step:
  assumes "rstep s s'" "ring_ok s"
  shows "ring_ok s'"
  using assms(1)
proof (cases rule: rstep.cases)
  case owner_load
  have "owner_ok s (Loaded (runqhead (rp s)) (headN s) [])" using ring_ok_nums [OF assms(2)] by (simp add: ring_nums_def)
  then show ?thesis unfolding owner_load(1) by (intro ring_ok_locals [OF assms(2)]) (use ring_ok_thief [OF assms(2)] in auto)
next
  case (owner_publish h H gs)
  show ?thesis unfolding owner_publish(1)
    by (rule ring_ok_publish [OF assms(2), of "length gs"]) (use owner_publish(2) in \<open>simp_all add: store_tail_def\<close>)
next
  case steal_start
  have "headN s = tailN s"
    using ring_nums_diff [OF ring_ok_nums [OF assms(2)]] ring_ok_nums [OF assms(2)] steal_start(3) by (simp add: ring_nums_def)
  then show ?thesis unfolding steal_start(1) by (intro ring_ok_locals [OF assms(2)]) (use ring_ok_thief [OF assms(2)] in auto)
next
  case (steal_again gs)
  have "headN s = tailN s" using assms(2) steal_again(2) by (simp add: ring_ok_def)
  then show ?thesis unfolding steal_again(1) by (intro ring_ok_locals [OF assms(2)]) (use ring_ok_thief [OF assms(2)] in auto)
next
  case (thief_load_head batch i bh)
  have "thief_ok s \<lparr>th_h = runqhead (rp s), th_H = headN s, th_n = None, th_batch = batch, th_bh = bh, th_i = 0\<rparr>"
    using ring_ok_nums [OF assms(2)] thief_load_head(2) by (simp add: thief_ok_def ring_nums_def)
  then show ?thesis unfolding thief_load_head(1) by (rule ring_ok_thieves [OF assms(2)])
next
  case (thief_load_tail i th n)
  show ?thesis unfolding thief_load_tail(1)
    by (rule ring_ok_thieves [OF assms(2) ring_ok_step_thief(1) [OF assms(2) thief_load_tail(2-4,6)]])
next
  case (thief_copy i th n)
  show ?thesis unfolding thief_copy(1)
    by (rule ring_ok_thieves [OF assms(2) ring_ok_step_thief(2) [OF assms(2) thief_copy(2-4)]])
next
  case (thief_commit i th n pp batch k)
  show ?thesis unfolding thief_commit(1) by (rule ring_ok_step_thief(3) [OF assms(2) thief_commit(2-6)])
next
  case (owner_write h H gs t gp)
  then show ?thesis using ring_ok_step_owner(1) [OF assms(2)] by simp
next
  case (owner_put_slow h H g gp pp g')
  then show ?thesis using ring_ok_step_owner(2) [OF assms(2)] by simp
next
  case (owner_get h H pp gp)
  then show ?thesis using ring_ok_step_owner(3) [OF assms(2)] by simp
next
  case (owner_drain h H pp gs)
  then show ?thesis using ring_ok_step_owner(4) [OF assms(2)] by simp
next
  case (steal_copy gs p2 h)
  then show ?thesis using ring_ok_step_steal(1) [OF assms(2)] by simp
next
  case (steal_runnext gp)
  then show ?thesis using ring_ok_step_steal(2) [OF assms(2)] by simp
next
  case (steal_end gs pp gp)
  then show ?thesis using ring_ok_step_steal(3) [OF assms(2)] by simp
qed (use ring_ok_thief [OF assms(2)] in \<open>auto intro!: ring_ok_locals [OF assms(2)] split: if_splits\<close>)

lemma ring_reach_ok: "ring_reach s \<Longrightarrow> ring_ok s"
proof (induction rule: ring_reach.induct)
  case (reach_init s)
  then show ?case by (simp add: ring_init_def ring_ok_def ring_nums_def rqueue_def)
next
  case (reach_step s s')
  then show ?case by (blast intro: ring_ok_step)
qed

text \<open>The functions above, run to their end from a reachable state, are runs of these steps: \<open>ring_run s pp ins outs\<close>
  says that a run from \<open>s\<close> leaves the ring as \<open>pp\<close>, having published \<open>ins\<close> and taken out \<open>outs\<close>.\<close>

definition ring_run :: "ring \<Rightarrow> p \<Rightarrow> guintptr list \<Rightarrow> guintptr list \<Rightarrow> bool" where
  "ring_run s pp ins outs \<longleftrightarrow> (\<exists>s'. rstep\<^sup>*\<^sup>* s s' \<and> rp s' = pp \<and> owner s' = owner s \<and>
     ring_in s' = ring_in s @ ins \<and> ring_out s' = ring_out s @ outs)"

lemma reach_steps: "rstep\<^sup>*\<^sup>* s s' \<Longrightarrow> ring_reach s \<Longrightarrow> ring_reach s'"
  by (induction rule: rtranclp_induct) (auto intro: reach_step)

lemma run_same: "ring_run s (rp s) [] []"
  unfolding ring_run_def by (intro exI [of _ s]) simp

lemma run_runnext: "ring_run s ((rp s)\<lparr>runnext := gp\<rparr>) [] []"
  unfolding ring_run_def by (intro exI [of _ "s\<lparr>rp := (rp s)\<lparr>runnext := gp\<rparr>\<rparr>"]) (simp add: r_into_rtranclp runnext_change)

lemma run_two:
  assumes "rstep s s1" "rstep s1 s2" "rp s2 = pp" "owner s2 = owner s" "ring_in s2 = ring_in s @ ins" "ring_out s2 = ring_out s @ outs"
  shows "ring_run s pp ins outs"
proof -
  have "rstep\<^sup>*\<^sup>* s s2" using assms(1,2) by (rule converse_rtranclp_into_rtranclp [OF _ r_into_rtranclp [of rstep s1 s2]])
  then show ?thesis unfolding ring_run_def using assms(3-6) by (intro exI [of _ s2]) simp
qed

lemma steps_write:
  assumes "owner s = Loaded h H gs" "t = runqtail (rp s) + of_nat (length gs)" "isq sl q qs"
    "runqputbatch_loop h sl q (rp s) t n = (q', pp', t', n')" "unat (t - h) + r = 256"
  shows "\<exists>s'. rstep\<^sup>*\<^sup>* s s' \<and> rp s' = pp' \<and> owner s' = Loaded h H (gs @ take r qs) \<and>
    t' = runqtail pp' + of_nat (length (gs @ take r qs)) \<and> isq sl q' (drop r qs) \<and>
    ring_in s' = ring_in s \<and> ring_out s' = ring_out s \<and> tailN s' = tailN s \<and> headN s' = headN s"
  using assms
proof (induction h sl q "rp s" t n arbitrary: s gs qs r rule: runqputbatch_loop.induct)
  case (1 h sl q t n)
  show ?case
  proof (cases "\<not> q_empty q \<and> t - h < 256")
    case True
    obtain g qs' where qs: "qs = g # qs'" using True isq_empty [OF "1.prems"(3)] by (cases qs) auto
    obtain q1 gp where p: "q_pop sl q = (q1, gp)" by fastforce
    have q1: "isq sl q1 qs'" "gp = g" using isq_pop [OF "1.prems"(3) p] qs by simp_all
    define s1 where "s1 = s\<lparr>rp := put_slot (rp s) t gp, owner := Loaded h H (gs @ [gp])\<rparr>"
    have st: "rstep s s1" unfolding s1_def by (rule owner_write [OF "1.prems"(1,2)]) (use True in simp)
    have lt: "unat (t - h) < 256" using True by (simp add: ring_less)
    have "t + 1 - h = (t - h) + 1" by simp
    then have u: "unat (t + 1 - h) = unat (t - h) + 1" using lt by (simp only: unat_add_small) (simp add: unat_add_small)
    have e: "runqputbatch_loop h sl q1 (rp s1) (t + 1) (n + 1) = (q', pp', t', n')"
      using "1.prems"(4) True by (subst (asm) runqputbatch_loop.simps) (simp add: p s1_def)
    obtain r' where r: "r = Suc r'" using "1.prems"(5) lt by (cases r) auto
    have "\<exists>s'. rstep\<^sup>*\<^sup>* s1 s' \<and> rp s' = pp' \<and> owner s' = Loaded h H ((gs @ [gp]) @ take r' qs') \<and>
        t' = runqtail pp' + of_nat (length ((gs @ [gp]) @ take r' qs')) \<and> isq sl q' (drop r' qs') \<and>
        ring_in s' = ring_in s1 \<and> ring_out s' = ring_out s1 \<and> tailN s' = tailN s1 \<and> headN s' = headN s1"
      by (rule "1.hyps" [OF True p [symmetric] refl _ _ _ q1(1) e])
        (use "1.prems"(2,5) u r qs lt in \<open>simp_all add: s1_def put_slot_def\<close>)
    then show ?thesis using st q1(2) by (auto simp: qs r s1_def intro: converse_rtranclp_into_rtranclp)
  next
    case False
    then have e: "q' = q" "pp' = rp s" "t' = t" using "1.prems"(4) by (auto simp: runqputbatch_loop.simps)
    have "r = 0 \<or> qs = []" using False isq_empty [OF "1.prems"(3)] "1.prems"(5) by (auto simp: ring_less)
    then have "take r qs = [] \<and> drop r qs = qs" by auto
    then show ?thesis using e "1.prems"(1-3) by (intro exI [of _ s]) (simp del: length_take take_eq_Nil)
  qed
qed

lemma run_put_room:
  assumes "ring_ok s" "owner s = Idle" "length (rqueue (rp s)) < 256"
  shows "runqput_try (runqhead (rp s)) (rp s) sch g = Some (Done (store_tail (put_slot (rp s) (runqtail (rp s)) g) (runqtail (rp s) + 1), sch))"
    and "ring_run s (store_tail (put_slot (rp s) (runqtail (rp s)) g) (runqtail (rp s) + 1)) [g] []"
proof -
  have lt: "runqtail (rp s) - runqhead (rp s) < 256" using assms(3) by (simp add: rqueue_def ring_less)
  then show "runqput_try (runqhead (rp s)) (rp s) sch g = Some (Done (store_tail (put_slot (rp s) (runqtail (rp s)) g) (runqtail (rp s) + 1), sch))"
    by (simp add: runqput_try_def Let_def)
  define s1 where "s1 = s\<lparr>owner := Loaded (runqhead (rp s)) (headN s) []\<rparr>"
  define s2 where "s2 = s1\<lparr>rp := put_slot (rp s1) (runqtail (rp s1)) g, owner := Loaded (runqhead (rp s)) (headN s) ([] @ [g])\<rparr>"
  define s3 where "s3 = s2\<lparr>rp := store_tail (rp s2) (runqtail (rp s2) + of_nat (length ([] @ [g]))), tailN := tailN s2 + length ([] @ [g]),
       owner := Idle, ring_in := ring_in s2 @ [] @ [g]\<rparr>"
  have "rstep s s1" unfolding s1_def by (rule owner_load [OF assms(2)])
  moreover have "rstep s1 s2" unfolding s2_def by (rule owner_write) (use lt in \<open>simp_all add: s1_def\<close>)
  moreover have "rstep s2 s3" unfolding s3_def by (rule owner_publish [of _ "runqhead (rp s)" "headN s"]) (simp add: s2_def)
  ultimately have "rstep\<^sup>*\<^sup>* s s3" by auto
  then show "ring_run s (store_tail (put_slot (rp s) (runqtail (rp s)) g) (runqtail (rp s) + 1)) [g] []"
    unfolding ring_run_def by (intro exI [of _ s3]) (simp add: s1_def s2_def s3_def put_slot_def assms(2))
qed

lemma run_put_full:
  assumes "ring_ok s" "owner s = Idle" "length (rqueue (rp s)) = 256"
  shows "\<exists>pp sch'. runqput_try (runqhead (rp s)) (rp s) sch g = Some (Done (pp, sch')) \<and> ring_run s pp [] (take 128 (rqueue (rp s)))"
proof -
  have p: "p_ok (rp s)" using ring_nums_queue ring_ok_nums assms(1) by blast
  have ge: "\<not> runqtail (rp s) - runqhead (rp s) < 256" using assms(3) by (simp add: rqueue_def ring_less)
  define s1 where "s1 = s\<lparr>owner := Loaded (runqhead (rp s)) (headN s) []\<rparr>"
  have st: "rstep s s1" unfolding s1_def by (rule owner_load [OF assms(2)])
  then have "ring_ok s1" by (rule ring_ok_step [OF _ assms(1)])
  then have "runqput_try (runqhead (rp s)) (rp s1) sch g \<noteq> None" by (rule slow_no_throw [of _ _ "headN s"]) (simp add: s1_def)
  moreover have "runqput_try (runqhead (rp s)) (rp s) sch g \<noteq> Some Retry"
    using ge by (auto simp: runqput_try_def runqputslow_def Let_def cas_head_def split: if_splits bind_splits prod.splits)
  ultimately obtain pp sch' where e: "runqput_try (runqhead (rp s)) (rp s) sch g = Some (Done (pp, sch'))"
    by (cases "runqput_try (runqhead (rp s)) (rp s) sch g") (auto simp: s1_def, metis attempt.exhaust surj_pair)
  define s2 where "s2 = s1\<lparr>rp := pp, headN := headN s1 + 128, owner := Idle,
    ring_out := ring_out s1 @ rlist (runq (rp s1)) (runqhead (rp s)) 128\<rparr>"
  have "rstep s1 s2" unfolding s2_def by (rule owner_put_slow [of _ _ "headN s"]) (use ge e in \<open>simp_all add: s1_def\<close>)
  then have "ring_run s pp [] (take 128 (rqueue (rp s)))"
    by (rule run_two [OF st]) (use assms(2,3) advance_head [OF p, of 128] in \<open>simp_all add: s1_def s2_def\<close>)
  then show ?thesis using e by blast
qed

lemma run_get:
  assumes "ring_ok s" "owner s = Idle" "rqueue (rp s) \<noteq> []"
  shows "runqget_try (runqhead (rp s)) (rp s) = Done ((rp s)\<lparr>runqhead := runqhead (rp s) + 1\<rparr>, hd (rqueue (rp s)))"
    and "ring_run s ((rp s)\<lparr>runqhead := runqhead (rp s) + 1\<rparr>) [] [hd (rqueue (rp s))]"
proof -
  have p: "p_ok (rp s)" using ring_nums_queue ring_ok_nums assms(1) by blast
  show e: "runqget_try (runqhead (rp s)) (rp s) = Done ((rp s)\<lparr>runqhead := runqhead (rp s) + 1\<rparr>, hd (rqueue (rp s)))"
    using runqget_try_correct [OF p] assms(3) by simp
  have ne: "runqtail (rp s) \<noteq> runqhead (rp s)" using assms(3) by (auto simp: rqueue_def)
  define s1 where "s1 = s\<lparr>owner := Loaded (runqhead (rp s)) (headN s) []\<rparr>"
  have st: "rstep s s1" unfolding s1_def by (rule owner_load [OF assms(2)])
  define s2 where "s2 = s1\<lparr>rp := (rp s)\<lparr>runqhead := runqhead (rp s) + 1\<rparr>, headN := headN s1 + 1, owner := Idle,
    ring_out := ring_out s1 @ [hd (rqueue (rp s))]\<rparr>"
  have "rstep s1 s2" unfolding s2_def by (rule owner_get [of _ "runqhead (rp s)" "headN s"]) (use ne e in \<open>simp_all add: s1_def\<close>)
  then show "ring_run s ((rp s)\<lparr>runqhead := runqhead (rp s) + 1\<rparr>) [] [hd (rqueue (rp s))]"
    by (rule run_two [OF st]) (use assms(2) in \<open>simp_all add: s1_def s2_def\<close>)
qed

lemma run_drain:
  assumes "ring_ok s" "owner s = Idle"
  shows "\<exists>pp. runqdrain_try (runqhead (rp s)) (rp s) = Done (pp, rqueue (rp s)) \<and> runnext pp = runnext (rp s) \<and>
    ring_run s pp [] (rqueue (rp s)) \<and> rqueue pp = []"
proof (cases "runqtail (rp s) - runqhead (rp s) = 0")
  case True
  then have "rqueue (rp s) = []" by (simp add: rqueue_def)
  then show ?thesis using True run_same [of s] by (simp add: runqdrain_try_def Let_def)
next
  case False
  have p: "p_ok (rp s)" using ring_nums_queue ring_ok_nums assms(1) by blast
  then have le: "\<not> runqtail (rp s) - runqhead (rp s) > 256" by (simp add: p_ok_def word_less_nat_alt)
  define pp where "pp = (rp s)\<lparr>runqhead := runqhead (rp s) + (runqtail (rp s) - runqhead (rp s))\<rparr>"
  have e: "runqdrain_try (runqhead (rp s)) (rp s) = Done (pp, rqueue (rp s))"
    unfolding runqdrain_try_def Let_def using False le by (simp add: cas_head_def pp_def rqueue_def rlist_def)
  define s1 where "s1 = s\<lparr>owner := Loaded (runqhead (rp s)) (headN s) []\<rparr>"
  have st: "rstep s s1" unfolding s1_def by (rule owner_load [OF assms(2)])
  define s2 where "s2 = s1\<lparr>rp := pp, headN := headN s1 + length (rqueue (rp s)), owner := Idle, ring_out := ring_out s1 @ rqueue (rp s)\<rparr>"
  have "rstep s1 s2" unfolding s2_def by (rule owner_drain [of _ "runqhead (rp s)" "headN s"]) (use e in \<open>simp_all add: s1_def\<close>)
  then have "ring_run s pp [] (rqueue (rp s))"
    by (rule run_two [OF st]) (use assms(2) in \<open>simp_all add: s1_def s2_def\<close>)
  then show ?thesis using e by (simp add: pp_def rqueue_def)
qed

lemma run_batch:
  assumes "ring_ok s" "owner s = Idle" "isq (schedlink sch) q qs"
    and e: "runqputbatch (rp s) sch q qsize = (pp, sch', q')"
  shows "ring_run s pp (take (256 - length (rqueue (rp s))) qs) []"
proof -
  define r where "r = 256 - length (rqueue (rp s))"
  have p: "p_ok (rp s)" using ring_nums_queue ring_ok_nums assms(1) by blast
  define s1 where "s1 = s\<lparr>owner := Loaded (runqhead (rp s)) (headN s) []\<rparr>"
  have st: "rstep s s1" unfolding s1_def by (rule owner_load [OF assms(2)])
  obtain q1 pp1 t1 n1 where l: "runqputbatch_loop (runqhead (rp s)) (schedlink sch) q (rp s1) (runqtail (rp s)) 0 = (q1, pp1, t1, n1)"
    using prod_cases4 by blast
  have pp: "pp = store_tail pp1 t1" using e l by (simp add: runqputbatch_def s1_def Let_def split: if_splits prod.splits)
  have "unat (runqtail (rp s) - runqhead (rp s)) + r = 256" using p by (simp add: r_def p_ok_def rqueue_def)
  then obtain s2 where s2: "rstep\<^sup>*\<^sup>* s1 s2" "rp s2 = pp1" "owner s2 = Loaded (runqhead (rp s)) (headN s) (take r qs)"
      "t1 = runqtail pp1 + of_nat (length (take r qs))" "ring_in s2 = ring_in s" "ring_out s2 = ring_out s"
    using steps_write [of s1 "runqhead (rp s)" "headN s" "[]" "runqtail (rp s)" "schedlink sch" q qs 0 q1 pp1 t1 n1 r] assms(3) l
    by (auto simp: s1_def simp del: length_take)
  define s3 where "s3 = s2\<lparr>rp := store_tail (rp s2) (runqtail (rp s2) + of_nat (length (take r qs))), tailN := tailN s2 + length (take r qs),
       owner := Idle, ring_in := ring_in s2 @ take r qs\<rparr>"
  have "rstep s2 s3" unfolding s3_def by (rule owner_publish [OF s2(3)])
  then have "rstep\<^sup>*\<^sup>* s s3" using st s2(1) by auto
  then show ?thesis
    unfolding ring_run_def using s2 pp assms(2) by (intro exI [of _ s3]) (simp add: s3_def r_def del: length_take)
qed

lemma grab_count_half:
  "grab_count (runqhead pp) (runqtail pp) = of_nat (length (rqueue pp) - length (rqueue pp) div 2)"
proof -
  have "unat (grab_count (runqhead pp) (runqtail pp)) = length (rqueue pp) - length (rqueue pp) div 2"
    unfolding grab_count_def Let_def half_up by (simp add: rqueue_def)
  then have "(of_nat (unat (grab_count (runqhead pp) (runqtail pp))) :: uint32) = of_nat (length (rqueue pp) - length (rqueue pp) div 2)"
    by (rule arg_cong)
  then show ?thesis by simp
qed

lemma steps_grab_copy:
  assumes "thieves s i = Some th" "th_n th = Some n" "th_i th = 0" "j \<le> unat n"
  shows "rstep\<^sup>*\<^sup>* s (s\<lparr>thieves := (thieves s)(i \<mapsto>
    th\<lparr>th_batch := grab_copy (rp s) (th_h th) (th_batch th) (th_bh th) j, th_i := j\<rparr>)\<rparr>)" (is "rstep\<^sup>*\<^sup>* s (?T j)")
  using assms(4)
proof (induction j)
  case 0
  have "s = ?T 0" using assms(1,3) by (auto simp: fun_upd_idem)
  then show ?case by simp
next
  case (Suc j)
  let ?th = "th\<lparr>th_batch := grab_copy (rp s) (th_h th) (th_batch th) (th_bh th) j, th_i := j\<rparr>"
  have "rstep (?T j) ((?T j)\<lparr>thieves := (thieves (?T j))(i \<mapsto>
      ?th\<lparr>th_batch := grab_item (rp (?T j)) (th_h ?th) (th_batch ?th) (th_bh ?th) (of_nat (th_i ?th)), th_i := th_i ?th + 1\<rparr>)\<rparr>)"
    by (rule thief_copy [of _ _ _ n]) (use assms(2) Suc.prems in simp_all)
  then have "rstep (?T j) (?T (Suc j))" by (simp add: fun_upd_def cong: if_cong)
  then show ?case using Suc by (meson Suc_leD rtranclp.rtrancl_into_rtrancl)
qed

lemma run_grab:
  assumes "ring_ok s" "length batch = 256"
  defines "k \<equiv> length (rqueue (rp s)) - length (rqueue (rp s)) div 2"
  shows "\<exists>pp b. runqgrab (rp s) batch bh False = Some (pp, b, of_nat k) \<and> length b = 256 \<and>
    rlist b bh k = take k (rqueue (rp s)) \<and> ring_run s pp [] (take k (rqueue (rp s)))"
proof (cases "rqueue (rp s) = []")
  case True
  then have "grab_count (runqhead (rp s)) (runqtail (rp s)) = 0" unfolding grab_count_half by simp
  then show ?thesis using True assms(2) run_same [of s]
    by (simp add: k_def runqgrab_def runqgrab_try_def Let_def run_attempt_def)
next
  case False
  have p: "p_ok (rp s)" using ring_nums_queue ring_ok_nums assms(1) by blast
  obtain b where g: "runqgrab (rp s) batch bh False = Some ((rp s)\<lparr>runqhead := runqhead (rp s) + of_nat k\<rparr>, b, of_nat k)"
      "b = grab_copy (rp s) (runqhead (rp s)) batch bh k" "rlist b bh k = take k (rqueue (rp s))" "length b = 256" "1 \<le> k" "k \<le> 128"
    using runqgrab_some [OF p False assms(2), of bh False] unfolding k_def by blast
  have u: "unat (of_nat k :: uint32) = k" using g(6) by (simp add: unat_of_nat)
  have n: "grab_count (runqhead (rp s)) (runqtail (rp s)) = of_nat k" unfolding k_def by (rule grab_count_half)
  define th where "th = \<lparr>th_h = runqhead (rp s), th_H = headN s, th_n = None, th_batch = batch, th_bh = bh, th_i = 0\<rparr>"
  define s1 where "s1 = s\<lparr>thieves := (thieves s)(0 \<mapsto> th)\<rparr>"
  define s2 where "s2 = s1\<lparr>thieves := (thieves s1)(0 \<mapsto> th\<lparr>th_n := Some (of_nat k)\<rparr>)\<rparr>"
  define th3 where "th3 = th\<lparr>th_n := Some (of_nat k), th_batch := b, th_i := k\<rparr>"
  define s3 where "s3 = s2\<lparr>thieves := (thieves s2)(0 \<mapsto> th3)\<rparr>"
  define s4 where "s4 = s3\<lparr>rp := (rp s)\<lparr>runqhead := runqhead (rp s) + of_nat k\<rparr>, headN := headN s3 + unat (of_nat k :: uint32),
    thieves := (thieves s3)(0 := None), ring_out := ring_out s3 @ rlist b bh (unat (of_nat k :: uint32))\<rparr>"
  have "rstep s s1" unfolding s1_def th_def by (rule thief_load_head [OF assms(2)])
  moreover have "rstep s1 s2" unfolding s2_def
    by (rule thief_load_tail) (use n g(5,6) u in \<open>auto simp: s1_def th_def word_less_nat_alt\<close>)
  moreover have "rstep\<^sup>*\<^sup>* s2 s3"
    using steps_grab_copy [of s2 0 "th\<lparr>th_n := Some (of_nat k)\<rparr>" "of_nat k" k] u
    by (simp add: s2_def s3_def s1_def th3_def th_def g(2))
  moreover have "rstep s3 s4"
  proof -
    have "grab_commit (th_h th3) (of_nat k) (rp s3) (th_batch th3) = Done ((rp s)\<lparr>runqhead := runqhead (rp s) + of_nat k\<rparr>, b, of_nat k)"
      by (simp add: grab_commit_def cas_head_def s3_def s2_def s1_def th3_def th_def)
    then have "rstep s3 (s3\<lparr>rp := (rp s)\<lparr>runqhead := runqhead (rp s) + of_nat k\<rparr>, headN := headN s3 + unat (of_nat k :: uint32),
        thieves := (thieves s3)(0 := None), ring_out := ring_out s3 @ rlist b (th_bh th3) (unat (of_nat k :: uint32))\<rparr>)"
      by (intro thief_commit) (simp_all add: s3_def s2_def s1_def th3_def th_def u)
    then show ?thesis by (simp add: s4_def th3_def th_def)
  qed
  ultimately have "rstep\<^sup>*\<^sup>* s s4" by (meson converse_rtranclp_into_rtranclp rtranclp.rtrancl_into_rtrancl)
  then have "ring_run s ((rp s)\<lparr>runqhead := runqhead (rp s) + of_nat k\<rparr>) [] (take k (rqueue (rp s)))"
    unfolding ring_run_def by (intro exI [of _ s4]) (simp add: s4_def s3_def s2_def s1_def u g(3))
  then show ?thesis using g by blast
qed

lemma steps_steal_copy:
  assumes "owner s = Stealing []" "j \<le> 128"
  shows "rstep\<^sup>*\<^sup>* s (s\<lparr>rp := (rp s)\<lparr>runq := grab_copy p2 h (runq (rp s)) (runqtail (rp s)) j\<rparr>, owner := Stealing (rlist (runq p2) h j)\<rparr>)"
    (is "rstep\<^sup>*\<^sup>* s (?T j)")
  using assms(2)
proof (induction j)
  case 0
  have "s = ?T 0" using assms(1) by simp
  then show ?case by simp
next
  case (Suc j)
  have "rstep (?T j) ((?T j)\<lparr>rp := (rp (?T j))\<lparr>runq := grab_item p2 h (runq (rp (?T j))) (runqtail (rp (?T j))) (of_nat (length (rlist (runq p2) h j)))\<rparr>,
       owner := Stealing (rlist (runq p2) h j @ [slot (runq p2) (h + of_nat (length (rlist (runq p2) h j)))])\<rparr>)"
    by (rule steal_copy) (use Suc.prems in simp_all)
  then have "rstep (?T j) (?T (Suc j))" by (simp add: rlist_def)
  then show ?case using Suc by (meson Suc_leD rtranclp.rtrancl_into_rtrancl)
qed

lemma run_steal_end:
  assumes "ring_ok s" "owner s = Idle" "rqueue (rp s) = []"
    and c: "rstep\<^sup>*\<^sup>* (s\<lparr>owner := Stealing []\<rparr>) (s\<lparr>rp := (rp s)\<lparr>runq := r\<rparr>, owner := Stealing gs\<rparr>)"
  shows "\<exists>pp gp. steal_publish ((rp s)\<lparr>runq := r\<rparr>) (of_nat (length gs)) = Some (pp, gp) \<and> ring_run s pp (butlast gs) []"
proof -
  let ?s1 = "s\<lparr>owner := Stealing []\<rparr>" and ?s2 = "s\<lparr>rp := (rp s)\<lparr>runq := r\<rparr>, owner := Stealing gs\<rparr>"
  have "runqtail (rp s) - runqhead (rp s) = 0"
    using assms(3) by (metis length_0_conv length_rlist rqueue_def unat_eq_zero)
  then have st: "rstep s ?s1" by (intro steal_start [OF assms(2)]) simp
  have "ring_ok ?s2" using c ring_ok_step [OF st assms(1)]
    by (induction rule: rtranclp_induct) (auto intro: ring_ok_step)
  then obtain pp gp where e: "steal_publish (rp ?s2) (of_nat (length gs)) = Some (pp, gp)"
    using steal_no_throw [of ?s2 gs] by (cases "gs = []") simp_all
  let ?s3 = "?s2\<lparr>rp := pp, tailN := tailN ?s2 + (length gs - 1), owner := Idle, ring_in := ring_in ?s2 @ butlast gs\<rparr>"
  have "rstep ?s2 ?s3" by (rule steal_end [OF _ e]) simp
  then have "rstep\<^sup>*\<^sup>* s ?s3" using st c by (meson converse_rtranclp_into_rtranclp rtranclp.rtrancl_into_rtrancl)
  then have "ring_run s pp (butlast gs) []" unfolding ring_run_def using assms(2) by (intro exI [of _ ?s3]) simp
  then show ?thesis using e by simp
qed

lemma run_steal:
  assumes ok: "ring_ok s" "owner s = Idle" "rqueue (rp s) = []" and p2: "p_ok p2"
  shows "\<exists>pp p2' gp. runqsteal (rp s) p2 st = Some (pp, p2', gp) \<and>
    ring_run s pp (butlast (take (length (rqueue p2) - length (rqueue p2) div 2) (rqueue p2))) []"
proof (cases "rqueue p2 = []")
  case True
  then have n: "grab_count (runqhead p2) (runqtail p2) = 0" unfolding grab_count_half by simp
  have r: "(rp s)\<lparr>runq := runq (rp s)\<rparr> = rp s" by simp
  show ?thesis
  proof (cases "st \<and> runnext p2 \<noteq> 0")
    case runnext: True
    let ?s1 = "s\<lparr>owner := Stealing []\<rparr>"
    have "rstep ?s1 (?s1\<lparr>rp := put_slot (rp ?s1) (runqtail (rp ?s1)) (runnext p2), owner := Stealing [runnext p2]\<rparr>)"
      by (rule steal_runnext) simp
    then have "rstep\<^sup>*\<^sup>* ?s1 (s\<lparr>rp := (rp s)\<lparr>runq := set_slot (runq (rp s)) (runqtail (rp s)) (runnext p2)\<rparr>, owner := Stealing [runnext p2]\<rparr>)"
      by (simp add: put_slot_def r_into_rtranclp)
    then show ?thesis using run_steal_end [OF ok] runnext True
      by (fastforce simp: runqsteal_def runqgrab_def runqgrab_try_def Let_def n run_attempt_def)
  next
    case False
    then show ?thesis using run_same [of s] True
      by (cases st) (simp_all add: runqsteal_def runqgrab_def runqgrab_try_def Let_def n run_attempt_def steal_publish_def r)
  qed
next
  case False
  define k where "k = length (rqueue p2) - length (rqueue p2) div 2"
  have l: "length (runq (rp s)) = 256" using ring_ok_nums [OF ok(1)] by (simp add: ring_nums_def)
  obtain b where g: "runqgrab p2 (runq (rp s)) (runqtail (rp s)) st = Some (p2\<lparr>runqhead := runqhead p2 + of_nat k\<rparr>, b, of_nat k)"
      "b = grab_copy p2 (runqhead p2) (runq (rp s)) (runqtail (rp s)) k" "1 \<le> k" "k \<le> 128"
    using runqgrab_some [OF p2 False l, of "runqtail (rp s)" st] unfolding k_def by blast
  have t: "rlist (runq p2) (runqhead p2) k = take k (rqueue p2)"
    using advance_head [OF p2, of k] by (simp add: k_def)
  have lt: "length (take k (rqueue p2)) = k" by (simp add: k_def)
  obtain pp gp where "steal_publish ((rp s)\<lparr>runq := b\<rparr>) (of_nat k) = Some (pp, gp)" "ring_run s pp (butlast (take k (rqueue p2))) []"
    using run_steal_end [OF ok, where r = b and gs = "take k (rqueue p2)"] steps_steal_copy [of "s\<lparr>owner := Stealing []\<rparr>" k p2 "runqhead p2"] g(2,4)
    by (auto simp: t lt simp del: length_take)
  then show ?thesis using g(1) by (simp add: runqsteal_def k_def)
qed

lemma run_put:
  assumes "ring_ok s" "owner s = Idle"
  shows "\<exists>pp sch'. run_attempt (runqput_try (runqhead (rp s)) (rp s) sch g) = Some (pp, sch') \<and>
    (if length (rqueue (rp s)) < 256 then ring_run s pp [g] [] else ring_run s pp [] (take 128 (rqueue (rp s))))"
proof (cases "length (rqueue (rp s)) < 256")
  case True
  then show ?thesis using run_put_room [OF assms True] by (simp add: run_attempt_def)
next
  case False
  have "p_ok (rp s)" using ring_nums_queue ring_ok_nums assms(1) by blast
  then have "length (rqueue (rp s)) = 256" using False by (simp add: p_ok_def rqueue_def)
  then show ?thesis using run_put_full [OF assms, of sch g] by (auto simp: run_attempt_def)
qed

lemma run_runqput:
  assumes "ring_ok s" "owner s = Idle"
  shows "\<exists>pp sch'. runqput (rp s) sch g next = Some (pp, sch') \<and>
    (if next \<and> runnext (rp s) = 0 then ring_run s pp [] []
     else if length (rqueue (rp s)) < 256 then ring_run s pp [if next then runnext (rp s) else g] []
     else ring_run s pp [] (take 128 (rqueue (rp s))))"
proof (cases "next")
  case True
  define s1 where "s1 = s\<lparr>rp := (rp s)\<lparr>runnext := g\<rparr>\<rparr>"
  have st: "rstep s s1" unfolding s1_def by (rule runnext_change)
  have s1: "ring_ok s1" "owner s1 = Idle" "rqueue (rp s1) = rqueue (rp s)"
    using ring_ok_step [OF st assms(1)] assms(2) by (simp_all add: s1_def rqueue_def)
  have run: "ring_run s1 pp as bs \<Longrightarrow> ring_run s pp as bs" for pp as bs
    unfolding ring_run_def using st by (auto simp: s1_def intro: converse_rtranclp_into_rtranclp)
  show ?thesis
  proof (cases "runnext (rp s) = 0")
    case z: True
    then show ?thesis using True run_runnext [of s g] by (simp add: runqput_def)
  next
    case False
    then show ?thesis
      using run_put [OF s1(1,2), of sch "runnext (rp s)"] run True s1(3) by (auto simp: runqput_def s1_def split: if_splits)
  qed
next
  case False
  then show ?thesis using run_put [OF assms, of sch g] by (simp add: runqput_def)
qed

lemma run_runqget:
  assumes "ring_ok s" "owner s = Idle"
  shows "\<exists>pp. runqget (rp s) = Some (pp, if runnext (rp s) \<noteq> 0 then runnext (rp s) else if rqueue (rp s) = [] then 0 else hd (rqueue (rp s)),
      runnext (rp s) \<noteq> 0) \<and>
    ring_run s pp [] (if runnext (rp s) \<noteq> 0 then [] else take 1 (rqueue (rp s)))"
proof (cases "runnext (rp s) \<noteq> 0")
  case True
  then show ?thesis using run_runnext [of s 0] by (simp add: runqget_def)
next
  case False
  have p: "p_ok (rp s)" using ring_nums_queue ring_ok_nums assms(1) by blast
  show ?thesis
  proof (cases "rqueue (rp s) = []")
    case True
    then have "runqget_try (runqhead (rp s)) (rp s) = Done (rp s, 0)" using runqget_try_correct [OF p] by simp
    then show ?thesis using False True run_same [of s] by (simp add: runqget_def run_attempt_def)
  next
    case ne: False
    then have "take 1 (rqueue (rp s)) = [hd (rqueue (rp s))]" by (cases "rqueue (rp s)") auto
    then show ?thesis using run_get [OF assms ne] False ne by (simp add: runqget_def run_attempt_def)
  qed
qed

lemma run_runqdrain:
  assumes "ring_ok s" "owner s = Idle"
  shows "\<exists>pp sl' q. runqdrain (rp s) sl =
      Some (pp, sl', q, length (rqueue (rp s)) + (if runnext (rp s) \<noteq> 0 then 1 else 0)) \<and>
    ring_run s pp [] (rqueue (rp s)) \<and> rqueue pp = [] \<and> runnext pp = 0"
proof (cases "runnext (rp s) \<noteq> 0")
  case True
  define s1 where "s1 = s\<lparr>rp := (rp s)\<lparr>runnext := 0\<rparr>\<rparr>"
  have st: "rstep s s1" unfolding s1_def by (rule runnext_change)
  have s1: "ring_ok s1" "owner s1 = Idle" "rqueue (rp s1) = rqueue (rp s)"
    using ring_ok_step [OF st assms(1)] assms(2) by (simp_all add: s1_def rqueue_def)
  have run: "ring_run s1 pp as bs \<Longrightarrow> ring_run s pp as bs" for pp as bs
    unfolding ring_run_def using st by (auto simp: s1_def intro: converse_rtranclp_into_rtranclp)
  then show ?thesis using run_drain [OF s1(1,2)] s1(3) True
    by (auto simp: runqdrain_def run_attempt_def s1_def Let_def split: prod.split)
next
  case False
  then show ?thesis using run_drain [OF assms]
    by (auto simp: runqdrain_def run_attempt_def Let_def split: prod.split)
qed

subsection \<open>The random enumeration of the Ps\<close>

lemma gcd32_gcd: "unat (gcd32 a b) = gcd (unat a) (unat b)"
proof (induction a b rule: gcd32.induct)
  case (1 a b)
  show ?case
  proof (cases "b = 0")
    case True
    then show ?thesis by (simp add: gcd32.simps)
  next
    case False
    then have "unat (gcd32 a b) = gcd (unat b) (unat a mod unat b)"
      using 1 by (subst gcd32.simps) (simp add: unat_mod)
    then show ?thesis by (simp add: gcd_red_nat [symmetric])
  qed
qed

lemma coprimes_set: "set (coprimes (ord_reset count)) = {c \<in> of_nat ` {1 ..< unat count + 1}. gcd32 c count = 1}"
  unfolding ord_reset_def randomOrder.simps set_filter set_map set_upt by (rule refl)

lemma coprimes_reset:
  assumes "unat count < 2 ^ 32 - 1" "c \<in> set (coprimes (ord_reset count))"
  shows "coprime (unat c) (unat count)"
proof -
  have "gcd32 c count = 1" using assms(2) unfolding coprimes_set by simp
  then have "gcd (unat c) (unat count) = 1" using gcd32_gcd [of c count] by simp
  then show ?thesis by (simp add: coprime_iff_gcd_eq_1)
qed

lemma coprimes_length: "length (coprimes (ord_reset count)) \<le> unat count"
proof -
  have "length (coprimes (ord_reset count)) \<le> length (map (of_nat :: nat \<Rightarrow> uint32) [1 ..< unat count + 1])"
    unfolding ord_reset_def randomOrder.simps by (rule length_filter_le)
  then show ?thesis unfolding length_map length_upt by linarith
qed

lemma coprimes_nonempty:
  assumes "0 < count"
  shows "0 < length (coprimes (ord_reset count))" "length (coprimes (ord_reset count)) \<le> unat count"
proof -
  have c: "0 < unat count" using assms by (simp add: word_less_nat_alt)
  have "unat (gcd32 1 count) = 1" by (simp add: gcd32_gcd)
  then have "gcd32 1 count = 1" by (simp add: word_unat_eq_iff)
  moreover have "(1 :: uint32) \<in> of_nat ` {1 ..< unat count + 1}"
    by (rule image_eqI [of _ _ 1]) (use c in simp_all)
  ultimately have "1 \<in> set (coprimes (ord_reset count))" unfolding coprimes_set by (intro CollectI conjI)
  then show "0 < length (coprimes (ord_reset count))" by (rule length_pos_if_in_set)
  show "length (coprimes (ord_reset count)) \<le> unat count" by (rule coprimes_length)
qed

lemma ord_start_Some:
  assumes "0 < count" "unat count < 2 ^ 32 - 1"
  shows "\<exists>e. ord_start (ord_reset count) i = Some e \<and> enum_i e = 0 \<and> enum_count e = count \<and> pos e = i mod count \<and>
    inc e \<in> set (coprimes (ord_reset count))"
proof -
  define cs where "cs = coprimes (ord_reset count)"
  have l: "0 < length cs" "length cs \<le> unat count" unfolding cs_def by (rule coprimes_nonempty [OF assms(1)])+
  have "length cs < 2 ^ 32" using l(2) assms(2) by simp
  then have "unat (of_nat (length cs) :: uint32) = length cs" by (simp add: unat_of_nat_small)
  then have "unat (i div count mod of_nat (length cs)) < length cs" using l(1) by (simp add: unat_mod)
  then have m: "cs ! unat (i div count mod of_nat (length cs)) \<in> set cs" by (rule nth_mem)
  have c: "ord_count (ord_reset count) = count" by (simp add: ord_reset_def)
  have ne: "\<not> (count = 0 \<or> cs = [])" using assms(1) l(1) by auto
  show ?thesis
    unfolding ord_start_def c cs_def [symmetric] if_not_P [OF ne] option.inject
    by (rule exI, rule conjI, rule refl) (simp add: m)
qed

fun enum_run :: "nat \<Rightarrow> randomEnum \<Rightarrow> randomEnum" where
  "enum_run 0 e = e"
| "enum_run (Suc k) e = enum_next (enum_run k e)"

lemma enum_run_state:
  assumes c: "0 < unat (enum_count e)" "unat (enum_count e) < 2 ^ 31" and p: "unat (pos e) < unat (enum_count e)"
    and i: "unat (inc e) \<le> unat (enum_count e)" and z: "enum_i e = 0" and k: "k \<le> unat (enum_count e)"
  shows "enum_i (enum_run k e) = of_nat k \<and> unat (pos (enum_run k e)) = (unat (pos e) + k * unat (inc e)) mod unat (enum_count e) \<and>
    inc (enum_run k e) = inc e \<and> enum_count (enum_run k e) = enum_count e"
  using k
proof (induction k)
  case (Suc k)
  define q where "q = enum_run k e"
  have q: "enum_i q = of_nat k" "unat (pos q) = (unat (pos e) + k * unat (inc e)) mod unat (enum_count e)"
    "inc q = inc e" "enum_count q = enum_count e" using Suc unfolding q_def by simp_all
  have "unat (pos q) < unat (enum_count e)" using q(2) c(1) by simp
  then have "unat (pos q + inc e) = unat (pos q) + unat (inc e)" using i c(2) by (intro unat_add_small) simp
  then have "unat ((pos q + inc e) mod enum_count e) = (unat (pos e) + Suc k * unat (inc e)) mod unat (enum_count e)"
    unfolding unat_mod q(2) by (simp add: mod_add_left_eq mod_add_right_eq algebra_simps)
  then show ?case using q unfolding enum_run.simps q_def [symmetric] by (simp add: enum_next_def)
qed (use p z in simp)

lemma coprime_enum_inj:
  assumes "coprime a (n :: nat)" "(s + i * a) mod n = (s + j * a) mod n" "i < n" "j < n"
  shows "i = j"
proof -
  have aux: "i = j" if "i \<le> j" "(s + i * a) mod n = (s + j * a) mod n" "j < n" for i j
  proof -
    have "s + i * a \<le> s + j * a" using that(1) by simp
    then have "n dvd (s + j * a) - (s + i * a)" using that(2) by (simp only: mod_eq_dvd_iff_nat [symmetric])
    also have "(s + j * a) - (s + i * a) = (j - i) * a" by (simp add: diff_mult_distrib)
    finally have "n dvd j - i" using assms(1) by (simp add: coprime_dvd_mult_left_iff coprime_commute)
    then show ?thesis using that(1,3) by (auto dest: dvd_imp_le)
  qed
  show ?thesis using aux [of i j] aux [of j i] assms(2-4) by (metis nle_le)
qed

lemma enum_run_visits:
  assumes c: "0 < count" "unat count < 2 ^ 31"
    and e: "enum_count e = count" "enum_i e = 0" "pos e = i mod count" "inc e \<in> set (coprimes (ord_reset count))"
  shows "bij_betw (\<lambda>k. unat (enum_position (enum_run k e))) {0 ..< unat count} {0 ..< unat count} \<and>
    (\<forall>k \<le> unat count. enum_done (enum_run k e) \<longleftrightarrow> k = unat count)"
proof -
  define n where "n = unat count"
  define f where "f k = unat (enum_position (enum_run k e))" for k
  have n: "0 < n" "n < 2 ^ 31" using c by (simp_all add: n_def word_less_nat_alt)
  have p: "unat (pos e) < n" using n(1) by (simp add: e(3) n_def unat_mod)
  have co: "coprime (unat (inc e)) n" unfolding n_def by (rule coprimes_reset [OF _ e(4)]) (use c in simp)
  have le: "unat (inc e) \<le> n"
  proof -
    obtain c where "inc e = of_nat c" "c < n + 1" using e(4) unfolding coprimes_set n_def by auto
    then show ?thesis using n by (simp add: unat_of_nat)
  qed
  have run: "enum_i (enum_run k e) = of_nat k \<and> f k = (unat (pos e) + k * unat (inc e)) mod n \<and>
      enum_count (enum_run k e) = count" if "k \<le> n" for k
    using enum_run_state [of e k] n e(1,2) p le that by (simp add: n_def f_def enum_position_def)
  have "inj_on f {0 ..< n}"
  proof (rule inj_onI)
    fix j k assume jk: "j \<in> {0 ..< n}" "k \<in> {0 ..< n}" "f j = f k"
    then have "j < n" "k < n" by simp_all
    then show "j = k" using coprime_enum_inj [OF co, of "unat (pos e)" j k] run [of j] run [of k] jk(3) by simp
  qed
  moreover have "f ` {0 ..< n} \<subseteq> {0 ..< n}"
  proof (rule image_subsetI)
    fix k assume "k \<in> {0 ..< n}"
    then have "f k = (unat (pos e) + k * unat (inc e)) mod n" using run [of k] by simp
    then show "f k \<in> {0 ..< n}" using n(1) by simp
  qed
  ultimately have "bij_betw f {0 ..< n} {0 ..< n}"
    unfolding bij_betw_def by (intro conjI endo_inj_surj) simp_all
  moreover have "enum_done (enum_run k e) \<longleftrightarrow> k = n" if k: "k \<le> n" for k
  proof -
    have "unat (of_nat k :: uint32) = k" using k n(2) by (simp add: unat_of_nat)
    then have "(of_nat k :: uint32) = count \<longleftrightarrow> k = n" by (simp only: word_unat_eq_iff n_def)
    then show ?thesis using run [OF k] by (simp add: enum_done_def)
  qed
  ultimately show ?thesis unfolding n_def f_def by blast
qed

subsection \<open>Properties\<close>

text \<open>C39: the operations on the linked queues of goroutines implement lists: \<open>push\<close> adds at the head,
  \<open>pushBack\<close> at the tail, \<open>pushBackAll\<close> appends a whole queue, \<open>pop\<close> takes the head and returns nil on the empty
  queue, and \<open>popList\<close> hands all of them over; the links stay a nil-terminated path with the right tail.\<close>

theorem gQueue_operations:
  assumes q: "isq sl q gs" and g: "g \<noteq> 0" "g \<notin> set gs" and q2: "isq sl q2 hs" "set gs \<inter> set hs = {}"
  shows "(case q_push sl q g of (sl', q') \<Rightarrow> isq sl' q' (g # gs)) \<and>
    (case q_pushBack sl q g of (sl', q') \<Rightarrow> isq sl' q' (gs @ [g])) \<and>
    (case q_pushBackAll sl q q2 of (sl', q') \<Rightarrow> isq sl' q' (gs @ hs)) \<and>
    (case q_pop sl q of (q', g') \<Rightarrow> isq sl q' (tl gs) \<and> g' = (if gs = [] then 0 else hd gs)) \<and>
    (case q_popList q of (q', l) \<Rightarrow> isl sl l gs \<and> isq sl q' [])"
proof (intro conjI)
  show "case q_push sl q g of (sl', q') \<Rightarrow> isq sl' q' (g # gs)"
    using isq_push [OF q g] by (cases "q_push sl q g") simp
  show "case q_pushBack sl q g of (sl', q') \<Rightarrow> isq sl' q' (gs @ [g])"
    using isq_pushBack [OF q g] by (cases "q_pushBack sl q g") simp
  show "case q_pushBackAll sl q q2 of (sl', q') \<Rightarrow> isq sl' q' (gs @ hs)"
  proof (cases "hs = []")
    case True
    then show ?thesis using q q2(1) isq_tail_zero [OF q2(1)] by (simp add: q_pushBackAll_def)
  next
    case False
    then show ?thesis
      using isq_pushBackAll [OF q isq_batchq [OF q2(1) False] q2(2)] by (cases "q_pushBackAll sl q q2") simp
  qed
  show "case q_pop sl q of (q', g') \<Rightarrow> isq sl q' (tl gs) \<and> g' = (if gs = [] then 0 else hd gs)"
    using isq_pop [OF q] by (cases "q_pop sl q") simp
  show "case q_popList q of (q', l) \<Rightarrow> isl sl l gs \<and> isq sl q' []"
    using isq_popList [OF q] by (cases "q_popList q") simp
qed

theorem gQueue_operations_witness:
  "case q_pushBack ((\<lambda>_. 0)(4 := 7)) \<lparr>q_head = 4, q_tail = 7\<rparr> 9 of (sl', q') \<Rightarrow> isq sl' q' [4, 7, 9]"
  using gQueue_operations [of "(\<lambda>_. 0)(4 := 7)" "\<lparr>q_head = 4, q_tail = 7\<rparr>" "[4, 7]" 9 q_nil "[]"] isq_nil
  by (simp add: isq_def)

text \<open>C37: \<open>runqput\<close> without \<open>runnext\<close> never panics and loses nothing.  With room it adds the goroutine at the tail of
  the ring; on a full ring it moves the older half and then the new goroutine to the end of the global queue,
  in order, and accounts for them in \<open>runqsize\<close>.\<close>

theorem runqput_correct:
  assumes "p_ok pp" "isq (schedlink s) (s_runq s) gs"
    and "distinct (gs @ rqueue pp @ [g])" "0 \<notin> set (rqueue pp @ [g])"
  shows "\<exists>pp' s'. runqput pp s g False = Some (pp', s') \<and> p_ok pp' \<and>
    (if length (rqueue pp) < 256 then rqueue pp' = rqueue pp @ [g] \<and> s' = s
     else rqueue pp' = drop 128 (rqueue pp) \<and> runqsize s' = runqsize s + 129 \<and>
       isq (schedlink s') (s_runq s') (gs @ take 128 (rqueue pp) @ [g]))"
proof (cases "length (rqueue pp) < 256")
  case True
  then show ?thesis
    using runqput_try_room [OF assms(1) True, of s g] put_done [OF assms(1) True, of g]
    by (simp add: runqput_def run_attempt_def)
next
  case False
  then have full: "length (rqueue pp) = 256" using assms(1) by (simp add: p_ok_def rqueue_def)
  obtain s' where s': "runqput_try (runqhead pp) pp s g = Some (Done (pp\<lparr>runqhead := runqhead pp + 128\<rparr>, s'))"
    "isq (schedlink s') (s_runq s') (gs @ take 128 (rqueue pp) @ [g])" "runqsize s' = runqsize s + 129"
    using runqput_try_full [OF assms(1) full _ assms(4) _ assms(2)] assms(3) by auto
  then show ?thesis
    using advance_head [OF assms(1), of 128] full by (simp add: runqput_def run_attempt_def)
qed

theorem runqput_correct_witness:
  "\<exists>pp' s'. runqput \<lparr>runqhead = 0xFFFFFFFF, runqtail = 0xFFFFFFFF, runq = replicate 256 0, runnext = 0\<rparr>
     \<lparr>schedlink = (\<lambda>_. 0), s_runq = q_nil, runqsize = 0\<rparr> 5 False = Some (pp', s') \<and> rqueue pp' = [5]"
  using runqput_correct [of "\<lparr>runqhead = 0xFFFFFFFF, runqtail = 0xFFFFFFFF, runq = replicate 256 0, runnext = 0\<rparr>"
      "\<lparr>schedlink = (\<lambda>_. 0), s_runq = q_nil, runqsize = 0\<rparr>" "[]" 5] isq_nil
  by (auto simp: p_ok_def rqueue_def)

text \<open>C38: \<open>runqsteal\<close> into an empty ring takes the older half, rounded up, of the victim's queue: it returns the youngest
  of them, the others become the thief's queue in order, and the victim keeps the rest.  From an
  empty victim it takes nothing (or \<open>runnext\<close> when asked to).\<close>

theorem runqsteal_correct:
  assumes "p_ok pp" "p_ok p2" "rqueue pp = []" "rqueue p2 \<noteq> []"
  defines "k \<equiv> length (rqueue p2) - length (rqueue p2) div 2"
  shows "\<exists>pp' p2' gp. runqsteal pp p2 st = Some (pp', p2', gp) \<and> p_ok pp' \<and> p_ok p2' \<and>
    rqueue pp' @ [gp] = take k (rqueue p2) \<and> rqueue p2' = drop k (rqueue p2) \<and>
    runnext pp' = runnext pp \<and> runnext p2' = runnext p2"
proof -
  have len: "length (runq pp) = 256" and e: "unat (runqtail pp - runqhead pp) = 0"
    using assms(1,3) by (auto simp: p_ok_def rqueue_def dest: arg_cong [of _ _ length])
  then have ht: "runqtail pp = runqhead pp" by (simp add: unat_eq_zero)
  obtain r where r: "runqgrab p2 (runq pp) (runqtail pp) st = Some (p2\<lparr>runqhead := runqhead p2 + of_nat k\<rparr>, r, of_nat k)"
    "rlist r (runqtail pp) k = take k (rqueue p2)" "length r = 256" "1 \<le> k" "k \<le> 128"
    "p_ok (p2\<lparr>runqhead := runqhead p2 + of_nat k\<rparr>)" "rqueue (p2\<lparr>runqhead := runqhead p2 + of_nat k\<rparr>) = drop k (rqueue p2)"
    using runqgrab_some [OF assms(2,4) len, of "runqtail pp" st] unfolding k_def by blast
  obtain j where j: "k = j + 1" using r(4) by (metis le_add_diff_inverse2)
  have kz: "(of_nat k :: uint32) \<noteq> 0" using r(4,5) by (simp add: word_unat_eq_iff unat_of_nat)
  have kj: "(of_nat k :: uint32) - 1 = of_nat j" by (simp add: j)
  have jn: "unat (of_nat j :: uint32) = j" using r(5) j by (simp add: unat_of_nat)
  have tk: "rlist r (runqtail pp) j @ [slot r (runqtail pp + of_nat j)] = take k (rqueue p2)"
    unfolding r(2) [symmetric] unfolding j rlist_def by simp
  show ?thesis
  proof (cases "j = 0")
    case True
    then have "runqsteal pp p2 st = Some (pp\<lparr>runq := r\<rparr>, p2\<lparr>runqhead := runqhead p2 + of_nat k\<rparr>, slot r (runqtail pp))"
      unfolding runqsteal_def steal_publish_def Let_def r(1) using kz kj by simp
    then show ?thesis using r tk True e assms(1) by (simp add: p_ok_def rqueue_def)
  next
    case False
    then have jz: "(of_nat j :: uint32) \<noteq> 0" using jn by auto
    have "\<not> 256 \<le> (of_nat j :: uint32)" using jn r(5) j by (simp add: word_le_nat_alt)
    then have "runqsteal pp p2 st =
        Some (pp\<lparr>runq := r, runqtail := runqtail pp + of_nat j\<rparr>, p2\<lparr>runqhead := runqhead p2 + of_nat k\<rparr>, slot r (runqtail pp + of_nat j))"
      unfolding runqsteal_def steal_publish_def Let_def r(1) using kz kj jz ht by (simp add: store_tail_def)
    then show ?thesis using r tk jn j by (simp add: p_ok_def rqueue_def ht)
  qed
qed

theorem runqsteal_correct_witness:
  "\<exists>pp' p2' gp. runqsteal \<lparr>runqhead = 5, runqtail = 5, runq = replicate 256 0, runnext = 0\<rparr>
      \<lparr>runqhead = 0xFFFFFFFF, runqtail = 1, runq = (replicate 256 0)[255 := 7, 0 := 8], runnext = 3\<rparr> False = Some (pp', p2', gp) \<and>
    rqueue pp' @ [gp] = [7] \<and> rqueue p2' = [8]"
    (is "\<exists>pp' p2' gp. runqsteal ?P ?V False = Some (pp', p2', gp) \<and> _ pp' gp \<and> _ p2'")
proof -
  have v: "rqueue ?V = [7, 8]" "rqueue ?P = []" "p_ok ?P" "p_ok ?V"
    by (simp_all add: p_ok_def rqueue_def rlist_def upt_rec slot_def)
  have k: "length (rqueue ?V) - length (rqueue ?V) div 2 = 1" unfolding v(1) by simp
  have ne: "rqueue ?V \<noteq> []" unfolding v(1) by simp
  show ?thesis
    using runqsteal_correct [OF v(3,4,2) ne, of False, unfolded k v(1)] by (elim exE conjE, intro exI conjI) simp_all
qed

text \<open>C36: under every interleaving of the atomic steps of the owner (\<open>runqput\<close>, \<open>runqputbatch\<close>, \<open>runqget\<close>, \<open>runqdrain\<close>,
  and \<open>runqsteal\<close> into its own empty ring) with those of any number of thieves in \<open>runqgrab\<close>, with counters that wrap
  around: what has been published into the ring is, in order, what has been taken out of it followed by its present
  contents, so no goroutine is lost, duplicated or reordered; the ring never holds more than 256; and neither
  throw is reached (\<open>runq overflow\<close> in \<open>runqsteal\<close>, \<open>queue is not full\<close> in \<open>runqputslow\<close>).  The relation assumes that the
  head moves by less than \<open>2 ^ 32\<close> between a thief's load and its compare-and-swap.\<close>

theorem ring_no_loss:
  assumes "ring_reach s"
  shows "ring_in s = ring_out s @ rqueue (rp s) \<and> p_ok (rp s) \<and>
    (\<forall>h H sch g. owner s = Loaded h H [] \<longrightarrow> runqput_try h (rp s) sch g \<noteq> None) \<and>
    (\<forall>gs. owner s = Stealing gs \<longrightarrow> steal_publish (rp s) (of_nat (length gs)) \<noteq> None)"
proof (intro conjI allI impI)
  have ok: "ring_ok s" by (rule ring_reach_ok [OF assms])
  show "ring_in s = ring_out s @ rqueue (rp s)" "p_ok (rp s)"
    using ok ring_nums_queue by (simp_all add: ring_ok_def)
  show "runqput_try h (rp s) sch g \<noteq> None" if "owner s = Loaded h H []" for h H sch g
    by (rule slow_no_throw [OF ok that])
  show "steal_publish (rp s) (of_nat (length gs)) \<noteq> None" if "owner s = Stealing gs" for gs
    using steal_no_throw [OF ok that] by simp
qed

theorem ring_no_loss_witness:
  "\<exists>s. ring_reach s \<and> rqueue (rp s) = [9] \<and> ring_in s = ring_out s @ [9]"
proof -
  let ?s = "\<lparr>rp = \<lparr>runqhead = 0xFFFFFFFF, runqtail = 0xFFFFFFFF, runq = replicate 256 0, runnext = 0\<rparr>,
      headN = 0xFFFFFFFF, tailN = 0xFFFFFFFF, owner = Idle, thieves = Map.empty, ring_in = [], ring_out = []\<rparr>"
  have r: "ring_reach ?s" by (rule reach_init) (simp add: ring_init_def)
  have "ring_run ?s (store_tail (put_slot (rp ?s) (runqtail (rp ?s)) 9) (runqtail (rp ?s) + 1)) [9] []"
    by (rule run_put_room(2) [OF ring_reach_ok [OF r]]) (simp_all add: rqueue_def)
  then obtain s' where s': "rstep\<^sup>*\<^sup>* ?s s'" "ring_in s' = [9]" "ring_out s' = []" by (auto simp: ring_run_def)
  have "ring_reach s'" by (rule reach_steps [OF s'(1) r])
  then show ?thesis using ring_no_loss [of s'] s'(2,3) by (intro exI [of _ s']) simp
qed



text \<open>C40: for fewer than \<open>2 ^ 31\<close> Ps, the enumeration that starts at \<open>i\<close> is done after exactly \<open>count\<close> steps, and
  by then has visited every P exactly once.\<close>

theorem randomOrder_visits_all:
  assumes "0 < count" "unat count < 2 ^ 31"
  shows "\<exists>e. ord_start (ord_reset count) i = Some e \<and>
    bij_betw (\<lambda>k. unat (enum_position (enum_run k e))) {0 ..< unat count} {0 ..< unat count} \<and>
    (\<forall>k \<le> unat count. enum_done (enum_run k e) \<longleftrightarrow> k = unat count)"
proof -
  obtain e where e: "ord_start (ord_reset count) i = Some e" "enum_i e = 0" "enum_count e = count" "pos e = i mod count"
      "inc e \<in> set (coprimes (ord_reset count))"
    using ord_start_Some [OF assms(1), of i] assms(2) by auto
  then show ?thesis using enum_run_visits [OF assms e(3,2,4,5)] by blast
qed

theorem randomOrder_visits_all_witness:
  "\<exists>e. ord_start (ord_reset 6) 17 = Some e \<and>
    bij_betw (\<lambda>k. unat (enum_position (enum_run k e))) {0 ..< unat (6 :: uint32)} {0 ..< unat (6 :: uint32)}"
  using randomOrder_visits_all [of 6 17] by auto
end
