(* ===== verification/PageAddr.thy ===== *)
theory PageAddr
  imports PallocSum AddrRanges
begin

text \<open>
  Addresses, chunks and levels of the page allocator (\<open>runtime/mpagealloc.go\<close>, 64-bit configuration of
  \<open>mpagealloc_64bit.go\<close>).  The offset address space has \<open>2 ^ 48\<close> bytes, that is \<open>2 ^ 35\<close> pages or
  \<open>2 ^ 26\<close> chunks of 512 pages.  Level \<open>l\<close> of the summary tree divides it into entries of
  \<open>2 ^ levelLogPages l\<close> pages.  Levels and indices into a level are Go \<open>int\<close>s that are never
  negative, here natural numbers.
\<close>

subsection \<open>Constants\<close>

definition pageShift :: nat where "pageShift = 13"
definition pageSize :: uintptr where "pageSize = push_bit pageShift 1"
definition pallocChunkBytes :: uintptr where "pallocChunkBytes = pallocChunkPages * pageSize"
definition logPallocChunkBytes :: nat where "logPallocChunkBytes = logPallocChunkPages + pageShift"

definition summaryL0Bits :: nat where
  "summaryL0Bits = heapAddrBits - logPallocChunkBytes - (summaryLevels - 1) * summaryLevelBits"

definition pallocChunksL1Bits :: nat where "pallocChunksL1Bits = 13"
definition pallocChunksL2Bits :: nat where
  "pallocChunksL2Bits = heapAddrBits - logPallocChunkBytes - pallocChunksL1Bits"
definition pallocChunksL1Shift :: nat where "pallocChunksL1Shift = pallocChunksL2Bits"

definition levelBits :: "nat list" where
  "levelBits = [summaryL0Bits, summaryLevelBits, summaryLevelBits, summaryLevelBits, summaryLevelBits]"

definition levelShift :: "nat list" where
  "levelShift =
     [heapAddrBits - summaryL0Bits,
      heapAddrBits - summaryL0Bits - 1 * summaryLevelBits,
      heapAddrBits - summaryL0Bits - 2 * summaryLevelBits,
      heapAddrBits - summaryL0Bits - 3 * summaryLevelBits,
      heapAddrBits - summaryL0Bits - 4 * summaryLevelBits]"

definition levelLogPages :: "nat list" where
  "levelLogPages =
     [logPallocChunkPages + 4 * summaryLevelBits,
      logPallocChunkPages + 3 * summaryLevelBits,
      logPallocChunkPages + 2 * summaryLevelBits,
      logPallocChunkPages + 1 * summaryLevelBits,
      logPallocChunkPages]"

subsection \<open>Chunks\<close>

definition maxSearchAddr :: offAddr where "maxSearchAddr = maxOffAddr"

type_synonym chunkIdx = uint

definition chunkIndex :: "uintptr \<Rightarrow> chunkIdx" where
  "chunkIndex p = (p - arenaBaseOffset) div pallocChunkBytes"

definition chunkBase :: "chunkIdx \<Rightarrow> uintptr" where
  "chunkBase ci = ci * pallocChunkBytes + arenaBaseOffset"

definition chunkPageIndex :: "uintptr \<Rightarrow> uint" where
  "chunkPageIndex p = p mod pallocChunkBytes div pageSize"

definition ci_l1 :: "chunkIdx \<Rightarrow> uint" where
  "ci_l1 i = (if pallocChunksL1Bits = 0 then 0 else drop_bit pallocChunksL1Shift i)"

definition ci_l2 :: "chunkIdx \<Rightarrow> uint" where
  "ci_l2 i = (if pallocChunksL1Bits = 0 then i else i AND (push_bit pallocChunksL2Bits 1 - 1))"

subsection \<open>Levels\<close>

definition offAddrToLevelIndex :: "nat \<Rightarrow> offAddr \<Rightarrow> nat" where
  "offAddrToLevelIndex level addr = unat (drop_bit (levelShift ! level) (addr - arenaBaseOffset))"

definition levelIndexToOffAddr :: "nat \<Rightarrow> nat \<Rightarrow> offAddr" where
  "levelIndexToOffAddr level i = push_bit (levelShift ! level) (of_nat i) + arenaBaseOffset"

definition addrsToSummaryRange :: "nat \<Rightarrow> uintptr \<Rightarrow> uintptr \<Rightarrow> nat \<times> nat" where
  "addrsToSummaryRange level base limit =
     (unat (drop_bit (levelShift ! level) (base - arenaBaseOffset)),
      unat (drop_bit (levelShift ! level) ((limit - 1) - arenaBaseOffset)) + 1)"

definition blockAlignSummaryRange :: "nat \<Rightarrow> nat \<Rightarrow> nat \<Rightarrow> nat \<times> nat" where
  "blockAlignSummaryRange level lo hi =
     (let e = push_bit (levelBits ! level) 1
      in (unat (alignDown (of_nat lo) e), unat (alignUp (of_nat hi) e)))"

subsection \<open>The constants, evaluated\<close>

lemma page_consts:
  "pageSize = 0x2000" "pallocChunkBytes = 0x400000" "pallocChunkPages = 512"
  "pallocChunksL1Bits = 13" "pallocChunksL2Bits = 13" "pallocChunksL1Shift = 13"
  by (simp_all add: pageSize_def pageShift_def pallocChunkBytes_def pallocChunkPages_def pallocChunksL1Bits_def
      pallocChunksL2Bits_def pallocChunksL1Shift_def heapAddrBits_def logPallocChunkBytes_def logPallocChunkPages_def)

lemma level_consts:
  "levelBits = [14, 3, 3, 3, 3]" "levelShift = [34, 31, 28, 25, 22]" "levelLogPages = [21, 18, 15, 12, 9]"
  by (simp_all add: levelBits_def levelShift_def levelLogPages_def summaryL0Bits_def heapAddrBits_def
      logPallocChunkBytes_def logPallocChunkPages_def summaryLevels_def summaryLevelBits_def pageShift_def)

lemma less5_cases: "(l :: nat) < 5 \<Longrightarrow> l = 0 \<or> l = 1 \<or> l = 2 \<or> l = 3 \<or> l = 4"
  by linarith

text \<open>The logarithm of the pages of an entry, and its use in addresses.\<close>

definition lp :: "nat \<Rightarrow> nat" where
  "lp l = 9 + 3 * (4 - l)"

lemma level_nth:
  assumes "l < 5"
  shows "levelLogPages ! l = lp l" "levelShift ! l = lp l + 13" "levelBits ! l = (if l = 0 then 14 else 3)"
  using less5_cases [OF assms] by (auto simp: level_consts lp_def)

lemma lp_Suc: "l < 4 \<Longrightarrow> lp l = lp (Suc l) + 3"
  by (simp add: lp_def)

lemma lp_bounds: "9 \<le> lp l" "lp l \<le> 21"
  by (simp_all add: lp_def)

lemma lp_4 [simp]: "lp 4 = 9" and lp_0: "lp 0 = 21"
  by (simp_all add: lp_def)

subsection \<open>Addresses as page numbers\<close>

text \<open>\<open>page_of x\<close> is the page of an address, \<open>page_addr n\<close> the address of a page, in the offset view.\<close>

definition page_of :: "uintptr \<Rightarrow> nat" where
  "page_of x = off x div 2 ^ 13"

definition page_addr :: "nat \<Rightarrow> uintptr" where
  "page_addr n = of_nat (n * 2 ^ 13) + arenaBaseOffset"

lemma unat_drop: "unat (drop_bit k (x :: uint64)) = unat x div 2 ^ k"
  by (rule trans [OF unat_drop_bit_eq drop_bit_eq_div])

lemma off_page_addr:
  assumes "n < 2 ^ 51"
  shows "off (page_addr n) = n * 2 ^ 13"
proof -
  have "n * 2 ^ 13 < 2 ^ LENGTH(64)" using assms by simp
  then show ?thesis unfolding off_def page_addr_def by (simp only: add_diff_cancel_right' unat_of_nat_small)
qed

lemma page_of_addr [simp]: "n < 2 ^ 51 \<Longrightarrow> page_of (page_addr n) = n"
  by (simp add: page_of_def off_page_addr)

lemma page_addr_of: "2 ^ 13 dvd off x \<Longrightarrow> page_addr (page_of x) = x"
  by (simp add: page_of_def page_addr_def dvd_div_mult_self) (simp add: off_def)

lemma page_addr_add: "page_addr m + of_nat (n * 2 ^ 13) = page_addr (m + n)"
  by (simp add: page_addr_def algebra_simps)

lemma page_of_less: "off x < 2 ^ 48 \<Longrightarrow> page_of x < 2 ^ 35"
  by (simp add: page_of_def div_less_iff_less_mult)

lemma unat_chunkIndex: "unat (chunkIndex x) = page_of x div 512"
  by (simp add: chunkIndex_def page_consts unat_div page_of_def off_def div_mult2_eq [symmetric])

lemma off_chunkBase: "unat ci < 2 ^ 42 \<Longrightarrow> off (chunkBase ci) = unat ci * 2 ^ 22"
  by (simp add: off_def chunkBase_def page_consts unat_mult_small)

lemma chunkBase_page: "chunkBase (of_nat c) = page_addr (c * 512)"
  by (simp add: chunkBase_def page_addr_def page_consts)

lemma mod_offset: "unat x mod 2 ^ 22 = off x mod 2 ^ 22"
proof -
  have "unat x = unat ((x - arenaBaseOffset) + arenaBaseOffset)" by simp
  also have "\<dots> = (off x + unat arenaBaseOffset) mod 2 ^ 64"
    by (simp only: unat_word_ariths off_def) simp
  finally have "unat x = (off x + unat arenaBaseOffset) mod 2 ^ 64" .
  then have "unat x mod 2 ^ 22 = (off x + unat arenaBaseOffset) mod 2 ^ 22" by (simp add: mod_mod_cancel)
  also have "\<dots> = off x mod 2 ^ 22"
  proof -
    have "unat arenaBaseOffset = 2 ^ 22 * 0x3FFFE000000" by (simp add: arenaBaseOffset_def)
    then show ?thesis by (simp only: mod_mult_self2)
  qed
  finally show ?thesis .
qed

lemma unat_chunkPageIndex: "unat (chunkPageIndex x) = page_of x mod 512"
proof -
  have "unat (chunkPageIndex x) = unat x mod 2 ^ 22 div 2 ^ 13"
    by (simp add: chunkPageIndex_def page_consts unat_div unat_mod)
  also have "\<dots> = off x mod 2 ^ 22 div 2 ^ 13" by (simp only: mod_offset)
  also have "\<dots> = off x div 2 ^ 13 mod 512"
    by (simp add: drop_bit_take_bit [of 13 22, unfolded drop_bit_eq_div take_bit_eq_mod, simplified])
  finally show ?thesis by (simp add: page_of_def)
qed

lemma level_div: "n div 2 ^ (lp l + 13) = n div 2 ^ 13 div (2 :: nat) ^ lp l"
  by (simp only: div_mult2_eq [symmetric] power_add mult.commute)

lemma level_index:
  assumes "l < 5"
  shows "offAddrToLevelIndex l x = page_of x div 2 ^ lp l"
  unfolding offAddrToLevelIndex_def level_nth(2) [OF assms] unat_drop level_div page_of_def off_def by (rule refl)

lemma level_addr:
  assumes "l < 5"
  shows "levelIndexToOffAddr l i = page_addr (i * 2 ^ lp l)"
  using assms by (simp add: levelIndexToOffAddr_def level_nth page_addr_def push_bit_eq_mult power_add mult_ac)

lemma summary_range:
  assumes "l < 5"
  shows "addrsToSummaryRange l base limit = (page_of base div 2 ^ lp l, page_of (limit - 1) div 2 ^ lp l + 1)"
  unfolding addrsToSummaryRange_def level_nth(2) [OF assms] unat_drop level_div page_of_def off_def by (rule refl)

lemma unat_l1: "unat (ci_l1 ci) = unat ci div 2 ^ 13"
proof -
  have "ci_l1 ci = drop_bit 13 ci" unfolding ci_l1_def page_consts by (rule if_not_P) simp
  then show ?thesis by (simp only: unat_drop)
qed

lemma unat_l2: "unat (ci_l2 ci) = unat ci mod 2 ^ 13"
proof -
  have "ci_l2 ci = ci AND mask 13" by (simp add: ci_l2_def page_consts mask_eq_exp_minus_1)
  then have "ci_l2 ci = take_bit 13 ci" by (simp only: take_bit_eq_mask)
  then show ?thesis by (metis unsigned_take_bit_eq take_bit_eq_mod)
qed

end
