(* ===== verification/ScavIndex.thy ===== *)
theory ScavIndex
  imports PageAddr PallocBits
begin

text \<open>
  The scavenger's view of the page allocator (\<open>runtime/mgcscavenge.go\<close> and, for \<open>sysGrow\<close>,
  \<open>mpagealloc_64bit.go\<close>): the packed per-chunk data, the index over all chunks with its two search
  addresses, and the search of a chunk's bitmaps for free, unscavenged pages.

  \<open>chunks\<close> is a reserved array of \<open>2 ^ 26\<close> packed entries of which the index range \<open>[min, max)\<close> is mapped; an
  access outside faults, here \<open>None\<close>.  The addresses of the array and the page sizes of the system come from
  outside and are arguments.  \<open>alloc\<close>, \<open>free\<close>, \<open>nextGen\<close> and \<open>setEmpty\<close> are serialized by the heap lock, so
  the loads and stores of one call see each other.
\<close>

subsection \<open>Data of one chunk\<close>

definition logScavChunkInUseMax :: nat where "logScavChunkInUseMax = logPallocChunkPages + 1"
definition scavChunkInUseMask :: uint16 where "scavChunkInUseMask = push_bit logScavChunkInUseMax 1 - 1"
definition scavChunkMaxFlags :: nat where "scavChunkMaxFlags = 6"
definition scavChunkFlagsMask :: uint8 where "scavChunkFlagsMask = push_bit scavChunkMaxFlags 1 - 1"
definition scavChunkHasFree :: uint8 where "scavChunkHasFree = push_bit 0 1"

text \<open>\<open>uint16(scavChunkHiOccFrac * pallocChunkPages)\<close> with \<open>scavChunkHiOccFrac = 0.96875 = 31 / 32\<close>\<close>

definition scavChunkHiOccPages :: uint16 where "scavChunkHiOccPages = of_nat (31 * unat pallocChunkPages div 32)"

record scavChunkData =
  sc_inUse :: uint16
  sc_lastInUse :: uint16
  sc_gen :: uint32
  sc_flags :: uint8

definition unpackScavChunkData :: "uint64 \<Rightarrow> scavChunkData" where
  "unpackScavChunkData sc =
     \<lparr>sc_inUse = ucast sc,
      sc_lastInUse = ucast (drop_bit 16 sc) AND scavChunkInUseMask,
      sc_gen = ucast (drop_bit 32 sc),
      sc_flags = ucast (drop_bit (16 + logScavChunkInUseMax) sc) AND scavChunkFlagsMask\<rparr>"

definition pack :: "scavChunkData \<Rightarrow> uint64" where
  "pack sc = ucast (sc_inUse sc) OR push_bit 16 (ucast (sc_lastInUse sc)) OR
     push_bit (16 + logScavChunkInUseMax) (ucast (sc_flags sc)) OR push_bit 32 (ucast (sc_gen sc))"

definition isEmpty :: "scavChunkData \<Rightarrow> bool" where
  "isEmpty sc \<longleftrightarrow> sc_flags sc AND scavChunkHasFree = 0"

definition flags_setEmpty :: "scavChunkData \<Rightarrow> scavChunkData" where
  "flags_setEmpty sc = sc\<lparr>sc_flags := sc_flags sc AND NOT scavChunkHasFree\<rparr>"

definition setNonEmpty :: "scavChunkData \<Rightarrow> scavChunkData" where
  "setNonEmpty sc = sc\<lparr>sc_flags := sc_flags sc OR scavChunkHasFree\<rparr>"

definition shouldScavenge :: "scavChunkData \<Rightarrow> uint32 \<Rightarrow> bool \<Rightarrow> bool" where
  "shouldScavenge sc currGen force =
     (if isEmpty sc then False
      else if force then True
      else if sc_gen sc = currGen then sc_inUse sc < scavChunkHiOccPages \<and> sc_lastInUse sc < scavChunkHiOccPages
      else sc_inUse sc < scavChunkHiOccPages)"

definition chunk_alloc :: "scavChunkData \<Rightarrow> uint \<Rightarrow> uint32 \<Rightarrow> scavChunkData go" where
  "chunk_alloc sc npages newGen =
     (if ucast (sc_inUse sc) + npages > pallocChunkPages then None
      else
        let sc = (if sc_gen sc \<noteq> newGen then sc\<lparr>sc_lastInUse := sc_inUse sc, sc_gen := newGen\<rparr> else sc);
            sc = sc\<lparr>sc_inUse := sc_inUse sc + ucast npages\<rparr>
        in Some (if sc_inUse sc = ucast pallocChunkPages then flags_setEmpty sc else sc))"

definition chunk_free :: "scavChunkData \<Rightarrow> uint \<Rightarrow> uint32 \<Rightarrow> scavChunkData go" where
  "chunk_free sc npages newGen =
     (if ucast (sc_inUse sc) < npages then None
      else
        let sc = (if sc_gen sc \<noteq> newGen then sc\<lparr>sc_lastInUse := sc_inUse sc, sc_gen := newGen\<rparr> else sc);
            sc = sc\<lparr>sc_inUse := sc_inUse sc - ucast npages\<rparr>
        in Some (setNonEmpty sc))"

subsection \<open>The index\<close>

record scavengeIndex =
  si_chunks :: "nat \<Rightarrow> uint64"
  si_min :: uintptr
  si_max :: uintptr
  minHeapIdx :: uintptr
  searchAddrBg :: atomicOffAddr
  searchAddrForce :: atomicOffAddr
  freeHWM :: offAddr
  si_gen :: uint32
  si_test :: bool

definition si_load :: "scavengeIndex \<Rightarrow> chunkIdx \<Rightarrow> scavChunkData go" where
  "si_load s ci =
     (if unat ci < 2 ^ 26 \<and> si_min s \<le> ci \<and> ci < si_max s then Some (unpackScavChunkData (si_chunks s (unat ci))) else None)"

definition si_store :: "scavengeIndex \<Rightarrow> chunkIdx \<Rightarrow> scavChunkData \<Rightarrow> scavengeIndex go" where
  "si_store s ci d =
     (if unat ci < 2 ^ 26 \<and> si_min s \<le> ci \<and> ci < si_max s then Some (s\<lparr>si_chunks := (si_chunks s)(unat ci := pack d)\<rparr>) else None)"

text \<open>The retry loops of \<open>Clear\<close> and \<open>StoreMin\<close> end in their first round when nothing interferes.\<close>

definition Clear :: "atomicOffAddr \<Rightarrow> atomicOffAddr" where
  "Clear b = fst (Clear_step b b)"

definition StoreMin :: "uintptr \<Rightarrow> atomicOffAddr \<Rightarrow> atomicOffAddr" where
  "StoreMin addr b = fst (StoreMin_step addr b b)"

definition si_init :: "scavengeIndex \<Rightarrow> bool \<Rightarrow> scavengeIndex \<times> uintptr" where
  "si_init s tst =
     (s\<lparr>searchAddrBg := Clear (searchAddrBg s), searchAddrForce := Clear (searchAddrForce s),
        freeHWM := minOffAddr, si_test := tst, si_chunks := (\<lambda>_. 0)\<rparr>, 0)"

definition si_sysGrow :: "uintptr \<Rightarrow> uintptr \<Rightarrow> scavengeIndex \<Rightarrow> uintptr \<Rightarrow> uintptr \<Rightarrow> (scavengeIndex \<times> uintptr) go" where
  "si_sysGrow physPageSize chunksBase s base limit =
     (if base mod pallocChunkBytes \<noteq> 0 \<or> limit mod pallocChunkBytes \<noteq> 0 then None
      else
        let scSize = 8; haveMin = si_min s; haveMax = si_max s;
            needMin = alignDown (chunkIndex base) (physPageSize div scSize);
            needMax = alignUp (chunkIndex limit) (physPageSize div scSize);
            needMax = (if needMax < haveMin then haveMin else needMax);
            needMin = (if haveMax \<noteq> 0 \<and> needMin > haveMax then haveMax else needMin)
        in do {
          have' \<leftarrow> makeAddrRange (chunksBase + haveMin * scSize) (chunksBase + haveMax * scSize);
          need \<leftarrow> makeAddrRange (chunksBase + needMin * scSize) (chunksBase + needMax * scSize);
          need \<leftarrow> range_subtract need have';
          let s = (if range_size need \<noteq> 0 then
                     let s = (if haveMax = 0 \<or> needMin < haveMin then s\<lparr>si_min := needMin\<rparr> else s)
                     in if needMax > haveMax then s\<lparr>si_max := needMax\<rparr> else s
                   else s);
          Some (s, range_size need)
        })"

definition si_grow :: "uintptr \<Rightarrow> uintptr \<Rightarrow> scavengeIndex \<Rightarrow> uintptr \<Rightarrow> uintptr \<Rightarrow> (scavengeIndex \<times> uintptr) go" where
  "si_grow physPageSize chunksBase s base limit =
     (let baseIdx = chunkIndex base;
          s = (if minHeapIdx s = 0 \<or> baseIdx < minHeapIdx s then s\<lparr>minHeapIdx := baseIdx\<rparr> else s)
      in si_sysGrow physPageSize chunksBase s base limit)"

text \<open>The loop of \<open>find\<close>: the first chunk from \<open>i\<close> down to \<open>mn\<close> that should be scavenged.  With \<open>mn = 0\<close> the
  unsigned counter would wrap around below 0 and the next access fault.\<close>

function find_loop :: "scavengeIndex \<Rightarrow> bool \<Rightarrow> chunkIdx \<Rightarrow> chunkIdx \<Rightarrow> chunkIdx option go" where
  "find_loop s force mn i =
     (if i \<ge> mn then
        case si_load s i of
          None \<Rightarrow> None
        | Some d \<Rightarrow> if \<not> shouldScavenge d (si_gen s) force then find_loop s force mn (i - 1) else Some (Some i)
      else Some None)"
  by pat_completeness auto

definition si_find :: "scavengeIndex \<Rightarrow> bool \<Rightarrow> (scavengeIndex \<times> chunkIdx \<times> uint) go" where
  "si_find s force =
     (let cursor = (if force then searchAddrForce s else searchAddrBg s);
          store = (\<lambda>c. if force then s\<lparr>searchAddrForce := c\<rparr> else s\<lparr>searchAddrBg := c\<rparr>);
          (searchAddr, marked) = Load cursor
      in if searchAddr = minOffAddr then Some (s, 0, 0)
         else
           let start = chunkIndex searchAddr in
           do {
             r \<leftarrow> find_loop s force (minHeapIdx s) start;
             Some (case r of
               None \<Rightarrow> (store (Clear cursor), 0, 0)
             | Some i \<Rightarrow>
                 if i = start then (s, i, chunkPageIndex searchAddr)
                 else
                   let newSearchAddr = chunkBase i + pallocChunkBytes - pageSize in
                   (store (if marked then StoreUnmark searchAddr newSearchAddr cursor else StoreMin newSearchAddr cursor),
                    i, pallocChunkPages - 1))
           })"

definition si_alloc :: "scavengeIndex \<Rightarrow> chunkIdx \<Rightarrow> uint \<Rightarrow> scavengeIndex go" where
  "si_alloc s ci npages = do {
     sc \<leftarrow> si_load s ci;
     sc \<leftarrow> chunk_alloc sc npages (si_gen s);
     si_store s ci sc
   }"

definition si_free :: "scavengeIndex \<Rightarrow> chunkIdx \<Rightarrow> uint \<Rightarrow> uint \<Rightarrow> scavengeIndex go" where
  "si_free s ci page npages = do {
     sc \<leftarrow> si_load s ci;
     sc \<leftarrow> chunk_free sc npages (si_gen s);
     s \<leftarrow> si_store s ci sc;
     let addr = chunkBase ci + (page + npages - 1) * pageSize;
     let s = (if lessThan (freeHWM s) addr then s\<lparr>freeHWM := addr\<rparr> else s);
     let (searchAddr, _) = Load (searchAddrForce s);
     Some (if lessThan searchAddr addr then s\<lparr>searchAddrForce := StoreMarked addr (searchAddrForce s)\<rparr> else s)
   }"

definition nextGen :: "scavengeIndex \<Rightarrow> scavengeIndex" where
  "nextGen s =
     (let s = s\<lparr>si_gen := si_gen s + 1\<rparr>;
          (searchAddr, _) = Load (searchAddrBg s);
          s = (if lessThan searchAddr (freeHWM s) then s\<lparr>searchAddrBg := StoreMarked (freeHWM s) (searchAddrBg s)\<rparr> else s)
      in s\<lparr>freeHWM := minOffAddr\<rparr>)"

definition si_setEmpty :: "scavengeIndex \<Rightarrow> chunkIdx \<Rightarrow> scavengeIndex go" where
  "si_setEmpty s ci = do { v \<leftarrow> si_load s ci; si_store s ci (flags_setEmpty v) }"

subsection \<open>Searching the bitmaps of a chunk\<close>

definition maxPagesPerPhysPage :: uintptr where "maxPagesPerPhysPage = push_bit 19 1 div pageSize"

definition fill_apply :: "uint64 \<Rightarrow> uint64 \<Rightarrow> uint64" where
  "fill_apply x c = NOT ((((x AND c) + c) OR x) OR c)"

definition fillAligned :: "uint64 \<Rightarrow> uint \<Rightarrow> uint64 go" where
  "fillAligned x m =
     (if m = 1 then Some x
      else do {
        x \<leftarrow> (if m = 2 then Some (fill_apply x 0x5555555555555555)
              else if m = 4 then Some (fill_apply x 0x7777777777777777)
              else if m = 8 then Some (fill_apply x 0x7f7f7f7f7f7f7f7f)
              else if m = 16 then Some (fill_apply x 0x7fff7fff7fff7fff)
              else if m = 32 then Some (fill_apply x 0x7fffffff7fffffff)
              else if m = 64 then Some (fill_apply x 0x7fffffffffffffff)
              else None);
        Some (NOT ((x - drop_bit (unat (m - 1)) x) OR x))
      })"

text \<open>\<open>fillAligned(m.scavenged[i]|m.pallocBits[i], uint(minimum))\<close>\<close>

definition scav_word :: "pallocData \<Rightarrow> uintptr \<Rightarrow> nat \<Rightarrow> uint64 go" where
  "scav_word m minimum i =
     (if i < length (scavenged m) \<and> i < length (pallocBits m)
      then fillAligned (scavenged m ! i OR pallocBits m ! i) minimum else None)"

text \<open>The loops over \<open>i\<close> and \<open>j\<close> run downwards to 0; the argument is one more than the Go index.\<close>

primrec scav_skip :: "pallocData \<Rightarrow> uintptr \<Rightarrow> nat \<Rightarrow> nat option go" where
  "scav_skip m minimum 0 = Some None"
| "scav_skip m minimum (Suc i) = do {
     x \<leftarrow> scav_word m minimum i;
     if x \<noteq> NOT 0 then Some (Some i) else scav_skip m minimum i
   }"

primrec scav_extend :: "pallocData \<Rightarrow> uintptr \<Rightarrow> nat \<Rightarrow> uint \<Rightarrow> uint go" where
  "scav_extend m minimum 0 run = Some run"
| "scav_extend m minimum (Suc j) run = do {
     x \<leftarrow> scav_word m minimum j;
     let run = run + of_nat (LeadingZeros64 x);
     if x \<noteq> 0 then Some run else scav_extend m minimum j run
   }"

text \<open>The run of the word \<open>i\<close> that the search has stopped at: its end, and its length with the words below.\<close>

definition scav_run :: "pallocData \<Rightarrow> uintptr \<Rightarrow> nat \<Rightarrow> (uint \<times> uint) go" where
  "scav_run m minimum i = do {
     x \<leftarrow> scav_word m minimum i;
     let z1 = LeadingZeros64 (NOT x);
     let e = of_nat i * 64 + (64 - of_nat z1);
     run \<leftarrow> (if push_bit z1 x \<noteq> 0 then Some (of_nat (LeadingZeros64 (push_bit z1 x)))
             else scav_extend m minimum i (64 - of_nat z1));
     Some (run, e)
   }"

definition huge_adjust :: "uintptr \<Rightarrow> uintptr \<Rightarrow> uint \<Rightarrow> uint \<Rightarrow> uint \<Rightarrow> uint \<Rightarrow> uint \<times> uint" where
  "huge_adjust physPageSize physHugePageSize run e start sz =
     (if physHugePageSize > pageSize \<and> physHugePageSize > physPageSize then
        let pagesPerHugePage = physHugePageSize div pageSize;
            hugePageAbove = alignUp start pagesPerHugePage
        in if hugePageAbove \<le> e then
             let hugePageBelow = alignDown start pagesPerHugePage in
             if hugePageBelow \<ge> e - run then (hugePageBelow, sz + (start - hugePageBelow)) else (start, sz)
           else (start, sz)
      else (start, sz))"

definition findScavengeCandidate ::
  "uintptr \<Rightarrow> uintptr \<Rightarrow> pallocData \<Rightarrow> uint \<Rightarrow> uintptr \<Rightarrow> uintptr \<Rightarrow> (uint \<times> uint) go" where
  "findScavengeCandidate physPageSize physHugePageSize m searchIdx minimum mx =
     (if minimum AND (minimum - 1) \<noteq> 0 \<or> minimum = 0 then None
      else if minimum > maxPagesPerPhysPage then None
      else
        let mx = (if mx = 0 then minimum else alignUp mx minimum) in
        do {
          r \<leftarrow> scav_skip m minimum (unat (searchIdx div 64) + 1);
          case r of
            None \<Rightarrow> Some (0, 0)
          | Some i \<Rightarrow> do {
              (run, e) \<leftarrow> scav_run m minimum i;
              let sz = min run mx;
              let start = e - sz;
              Some (huge_adjust physPageSize physHugePageSize run e start sz)
            }
        })"

termination find_loop
proof (relation "measure (\<lambda>(s, force, mn, i). if si_load s i = None then 0 else unat i + 1)", goal_cases)
  case (2 s force mn i d)
  have l: "unat i < 2 ^ 26" using 2(2) by (auto simp: si_load_def split: if_splits)
  show ?case
  proof (cases "i = 0")
    case True
    then have "si_load s (i - 1) = None" by (simp add: si_load_def)
    then show ?thesis using 2(2) by simp
  next
    case False
    then have "unat (i - 1) < unat i" using l by (simp add: unat_sub_small word_le_nat_alt unat_gt_0 Suc_leI)
    then show ?thesis using 2(2) by simp
  qed
qed simp

declare find_loop.simps [simp del]

end
