(* ===== verification/PageAlloc.thy ===== *)
theory PageAlloc
  imports ScavIndex PallocFind PallocSummarize
begin

text \<open>
  The page allocator (\<open>runtime/mpagealloc.go\<close>, with \<open>sysGrow\<close> of \<open>mpagealloc_64bit.go\<close> and \<open>scavengeOne\<close> of
  \<open>mgcscavenge.go\<close>): its state, and every operation on it as a function to the new state.

  The summary levels are reserved arrays, all zero at first; level \<open>l\<close> is a function on indices, the length of its slice
  and, as capacity, the size of the reservation.  Re-slicing is checked against the capacity, indexing
  against the length.  The chunk bitmaps are a two-level sparse array; a missing second level is a nil pointer,
  whose use panics.  Memory obtained from the system is zero and never runs out.  What belongs to the system or to the
  rest of the heap is an \<open>env\<close>: page sizes, the addresses of the reserved arrays, and
  \<open>mheap_.arenas\<close>.  The heap lock is held throughout an operation, except between the halves of \<open>scavengeOne\<close>.
\<close>

subsection \<open>State\<close>

record env =
  physPageSize :: uintptr
  physHugePageSize :: uintptr
  sumBase :: "nat \<Rightarrow> uintptr"
  scavBase :: uintptr
  arenaMapped :: "uintptr \<Rightarrow> bool"

record pageAlloc =
  summary :: "nat \<Rightarrow> nat \<Rightarrow> pallocSum"
  sum_len :: "nat \<Rightarrow> nat"
  chunks :: "nat \<Rightarrow> (nat \<Rightarrow> pallocData) option"
  searchAddr :: offAddr
  pa_start :: chunkIdx
  pa_end :: chunkIdx
  inUse :: addrRanges
  scav_index :: scavengeIndex
  summaryMappedReady :: uintptr
  pa_test :: bool

definition sum_cap :: "nat \<Rightarrow> nat" where
  "sum_cap l = 2 ^ (heapAddrBits - levelShift ! l)"

definition sum_get :: "pageAlloc \<Rightarrow> nat \<Rightarrow> nat \<Rightarrow> pallocSum go" where
  "sum_get p l i = (if i < sum_len p l then Some (summary p l i) else None)"

definition sum_put :: "pageAlloc \<Rightarrow> nat \<Rightarrow> nat \<Rightarrow> pallocSum \<Rightarrow> pageAlloc go" where
  "sum_put p l i v =
     (if i < sum_len p l then Some (p\<lparr>summary := (summary p)(l := (summary p l)(i := v))\<rparr>) else None)"

text \<open>\<open>p.summary[l][a:b]\<close>, read or overwritten as a whole.\<close>

definition sum_slice :: "nat \<Rightarrow> nat \<Rightarrow> nat \<Rightarrow> pageAlloc \<Rightarrow> pallocSum list go" where
  "sum_slice l a b p = (if a \<le> b \<and> b \<le> sum_cap l then Some (map (summary p l) [a ..< b]) else None)"

definition sum_fill :: "nat \<Rightarrow> nat \<Rightarrow> nat \<Rightarrow> pallocSum \<Rightarrow> pageAlloc \<Rightarrow> pageAlloc go" where
  "sum_fill l a b v p =
     (if a \<le> b \<and> b \<le> sum_cap l
      then Some (p\<lparr>summary := (summary p)(l := (\<lambda>i. if a \<le> i \<and> i < b then v else summary p l i))\<rparr>) else None)"

text \<open>\<open>&p.chunks[ci.l1()][ci.l2()]\<close>, read or updated.\<close>

definition tryChunkOf :: "pageAlloc \<Rightarrow> chunkIdx \<Rightarrow> pallocData option go" where
  "tryChunkOf p ci =
     (if unat (ci_l1 ci) < 2 ^ pallocChunksL1Bits then
        Some (case chunks p (unat (ci_l1 ci)) of None \<Rightarrow> None | Some t \<Rightarrow> Some (t (unat (ci_l2 ci))))
      else None)"

definition chunkOf :: "pageAlloc \<Rightarrow> chunkIdx \<Rightarrow> pallocData go" where
  "chunkOf p ci = do { r \<leftarrow> tryChunkOf p ci; r }"

definition mod_chunk :: "chunkIdx \<Rightarrow> (pallocData \<Rightarrow> pallocData go) \<Rightarrow> pageAlloc \<Rightarrow> pageAlloc go" where
  "mod_chunk ci f p = do {
     m \<leftarrow> chunkOf p ci;
     t \<leftarrow> chunks p (unat (ci_l1 ci));
     m \<leftarrow> f m;
     Some (p\<lparr>chunks := (chunks p)(unat (ci_l1 ci) \<mapsto> t(unat (ci_l2 ci) := m))\<rparr>)
   }"

definition mod_scav :: "(scavengeIndex \<Rightarrow> scavengeIndex go) \<Rightarrow> pageAlloc \<Rightarrow> pageAlloc go" where
  "mod_scav f p = do { s \<leftarrow> f (scav_index p); Some (p\<lparr>scav_index := s\<rparr>) }"

definition pa_init :: "bool \<Rightarrow> pageAlloc" where
  "pa_init tst =
     (let s0 = \<lparr>si_chunks = (\<lambda>_. 0), si_min = 0, si_max = 0, minHeapIdx = 0, searchAddrBg = 0, searchAddrForce = 0,
                freeHWM = 0, si_gen = 0, si_test = False\<rparr>;
          (s, ready) = si_init s0 tst
      in \<lparr>summary = (\<lambda>_ _. 0), sum_len = (\<lambda>_. 0), chunks = Map.empty, searchAddr = maxSearchAddr, pa_start = 0, pa_end = 0,
          inUse = init, scav_index = s, summaryMappedReady = 0 + ready, pa_test = tst\<rparr>)"

subsection \<open>Updating the summaries\<close>

fun recompute_leaves :: "nat list \<Rightarrow> pageAlloc \<Rightarrow> pageAlloc go" where
  "recompute_leaves [] p = Some p"
| "recompute_leaves (c # cs) p = do {
     m \<leftarrow> chunkOf p (of_nat c);
     s \<leftarrow> summarize (pallocBits m);
     p \<leftarrow> sum_put p 4 c s;
     recompute_leaves cs p
   }"

text \<open>The lowest level; \<open>False\<close> with the new state when \<open>update\<close> returns early because nothing has changed.\<close>

definition update_leaves :: "pageAlloc \<Rightarrow> nat \<Rightarrow> nat \<Rightarrow> bool \<Rightarrow> bool \<Rightarrow> (pageAlloc \<times> bool) go" where
  "update_leaves p sc ec contig alloc =
     (if sc = ec then do {
        x \<leftarrow> sum_get p 4 sc;
        m \<leftarrow> chunkOf p (of_nat sc);
        y \<leftarrow> summarize (pallocBits m);
        if x = y then Some (p, False) else do { p \<leftarrow> sum_put p 4 sc y; Some (p, True) }
      }
      else if contig then do {
        p \<leftarrow> recompute_leaves [sc] p;
        p \<leftarrow> sum_fill 4 (sc + 1) ec (if alloc then 0 else freeChunkSum) p;
        p \<leftarrow> recompute_leaves [ec] p;
        Some (p, True)
      }
      else do { p \<leftarrow> recompute_leaves [sc ..< ec + 1] p; Some (p, True) })"

fun merge_entries :: "nat \<Rightarrow> nat list \<Rightarrow> bool \<Rightarrow> pageAlloc \<Rightarrow> (pageAlloc \<times> bool) go" where
  "merge_entries l [] changed p = Some (p, changed)"
| "merge_entries l (i # is) changed p = do {
     children \<leftarrow> sum_slice (l + 1) (i * 2 ^ (levelBits ! (l + 1))) ((i + 1) * 2 ^ (levelBits ! (l + 1))) p;
     s \<leftarrow> mergeSummaries children (levelLogPages ! (l + 1));
     old \<leftarrow> sum_get p l i;
     if old \<noteq> s then do { p \<leftarrow> sum_put p l i s; merge_entries l is True p }
     else merge_entries l is changed p
   }"

text \<open>\<open>for l := len(p.summary) - 2; l >= 0 && changed; l--\<close>; the first argument is \<open>l + 1\<close>.\<close>

fun update_up :: "nat \<Rightarrow> uintptr \<Rightarrow> uintptr \<Rightarrow> bool \<Rightarrow> pageAlloc \<Rightarrow> pageAlloc go" where
  "update_up 0 base limit changed p = Some p"
| "update_up (Suc l) base limit changed p =
     (if changed then
        let (lo, hi) = addrsToSummaryRange l base (limit + 1) in do {
          (p, changed) \<leftarrow> merge_entries l [lo ..< hi] False p;
          update_up l base limit changed p
        }
      else Some p)"

definition update :: "pageAlloc \<Rightarrow> uintptr \<Rightarrow> uintptr \<Rightarrow> bool \<Rightarrow> bool \<Rightarrow> pageAlloc go" where
  "update p base npages contig alloc =
     (let limit = base + npages * pageSize - 1; sc = chunkIndex base; ec = chunkIndex limit in do {
        (p, go_on) \<leftarrow> update_leaves p (unat sc) (unat ec) contig alloc;
        if go_on then update_up 4 base limit True p else Some p
      })"

subsection \<open>Marking a range as allocated\<close>

text \<open>One chunk of \<open>allocRange\<close>: count the scavenged pages, mark the range, tell the scavenger.\<close>

definition alloc_in_chunk :: "chunkIdx \<Rightarrow> uint \<Rightarrow> uint \<Rightarrow> pageAlloc \<times> uint \<Rightarrow> (pageAlloc \<times> uint) go" where
  "alloc_in_chunk c i n = (\<lambda>(p, scav). do {
     m \<leftarrow> chunkOf p c;
     k \<leftarrow> popcntRange (scavenged m) i n;
     p \<leftarrow> mod_chunk c (\<lambda>m. pallocData_allocRange m i n) p;
     p \<leftarrow> mod_scav (\<lambda>s. si_alloc s c n) p;
     Some (p, scav + k)
   })"

fun alloc_whole_chunks :: "nat list \<Rightarrow> pageAlloc \<times> uint \<Rightarrow> (pageAlloc \<times> uint) go" where
  "alloc_whole_chunks [] ps = Some ps"
| "alloc_whole_chunks (c # cs) (p, scav) = do {
     m \<leftarrow> chunkOf p (of_nat c);
     k \<leftarrow> popcntRange (scavenged m) 0 pallocChunkPages;
     p \<leftarrow> mod_chunk (of_nat c) (\<lambda>m. Some (pallocData_allocAll m)) p;
     p \<leftarrow> mod_scav (\<lambda>s. si_alloc s (of_nat c) pallocChunkPages) p;
     alloc_whole_chunks cs (p, scav + k)
   }"

definition pa_allocRange :: "pageAlloc \<Rightarrow> uintptr \<Rightarrow> uintptr \<Rightarrow> (pageAlloc \<times> uintptr) go" where
  "pa_allocRange p base npages =
     (let limit = base + npages * pageSize - 1;
          sc = chunkIndex base; ec = chunkIndex limit;
          si = chunkPageIndex base; ei = chunkPageIndex limit
      in do {
        (p, scav) \<leftarrow>
          (if sc = ec then alloc_in_chunk sc si (ei + 1 - si) (p, 0)
           else do {
             ps \<leftarrow> alloc_in_chunk sc si (pallocChunkPages - si) (p, 0);
             ps \<leftarrow> alloc_whole_chunks [unat sc + 1 ..< unat ec] ps;
             alloc_in_chunk ec 0 (ei + 1) ps
           });
        p \<leftarrow> update p base npages True True;
        Some (p, scav * pageSize)
      })"

subsection \<open>Freeing\<close>

definition free_in_chunk :: "chunkIdx \<Rightarrow> uint \<Rightarrow> uint \<Rightarrow> pageAlloc \<Rightarrow> pageAlloc go" where
  "free_in_chunk c i n p = do {
     p \<leftarrow> mod_chunk c (\<lambda>m. do { b \<leftarrow> free (pallocBits m) i n; Some (m\<lparr>pallocBits := b\<rparr>) }) p;
     mod_scav (\<lambda>s. si_free s c i n) p
   }"

fun free_whole_chunks :: "nat list \<Rightarrow> pageAlloc \<Rightarrow> pageAlloc go" where
  "free_whole_chunks [] p = Some p"
| "free_whole_chunks (c # cs) p = do {
     p \<leftarrow> mod_chunk (of_nat c) (\<lambda>m. Some (m\<lparr>pallocBits := freeAll (pallocBits m)\<rparr>)) p;
     p \<leftarrow> mod_scav (\<lambda>s. si_free s (of_nat c) 0 pallocChunkPages) p;
     free_whole_chunks cs p
   }"

definition lower_searchAddr :: "offAddr \<Rightarrow> pageAlloc \<Rightarrow> pageAlloc" where
  "lower_searchAddr b p = (if lessThan b (searchAddr p) then p\<lparr>searchAddr := b\<rparr> else p)"

definition pa_free :: "pageAlloc \<Rightarrow> uintptr \<Rightarrow> uintptr \<Rightarrow> pageAlloc go" where
  "pa_free p base npages =
     (let p = lower_searchAddr base p; limit = base + npages * pageSize - 1 in do {
        p \<leftarrow>
          (if npages = 1 then
             let i = chunkIndex base; pi = chunkPageIndex base in do {
               p \<leftarrow> mod_chunk i (\<lambda>m. do { b \<leftarrow> free1 (pallocBits m) pi; Some (m\<lparr>pallocBits := b\<rparr>) }) p;
               mod_scav (\<lambda>s. si_free s i pi 1) p
             }
           else
             let sc = chunkIndex base; ec = chunkIndex limit;
                 si = chunkPageIndex base; ei = chunkPageIndex limit
             in if sc = ec then free_in_chunk sc si (ei + 1 - si) p
                else do {
                  p \<leftarrow> free_in_chunk sc si (pallocChunkPages - si) p;
                  p \<leftarrow> free_whole_chunks [unat sc + 1 ..< unat ec] p;
                  free_in_chunk ec 0 (ei + 1) p
                });
        update p base npages True False
      })"

subsection \<open>Searching\<close>

definition findMappedAddr :: "env \<Rightarrow> pageAlloc \<Rightarrow> offAddr \<Rightarrow> offAddr go" where
  "findMappedAddr e p addr =
     (if pa_test p \<or> \<not> arenaMapped e addr then do {
        (vAddr, ok) \<leftarrow> findAddrGreaterEqual (inUse p) addr;
        Some (if ok then vAddr else maxOffAddr)
      }
      else Some addr)"

text \<open>The window \<open>firstFree\<close> of \<open>find\<close> and the closure \<open>foundFree\<close> that narrows it.\<close>

type_synonym window = "offAddr \<times> offAddr"

fun foundFree :: "window \<Rightarrow> offAddr \<Rightarrow> uintptr \<Rightarrow> window go" where
  "foundFree (base, bound) addr sz =
     (if lessEqual base addr \<and> lessEqual (off_add addr (sz - 1)) bound then Some (addr, off_add addr (sz - 1))
      else if \<not> (lessThan (off_add addr (sz - 1)) base \<or> lessThan bound addr) then None
      else Some (base, bound))"

text \<open>The loop over the entries of one level: \<open>Descend i\<close> is \<open>continue nextLevel\<close>.\<close>

datatype level_result = Scanned uint uint window | Descend nat window

fun scan_entries ::
  "nat \<Rightarrow> nat \<Rightarrow> uintptr \<Rightarrow> pallocSum list \<Rightarrow> nat \<Rightarrow> uint \<Rightarrow> uint \<Rightarrow> window \<Rightarrow> level_result go" where
  "scan_entries l i npages [] j base sz w = Some (Scanned base sz w)"
| "scan_entries l i npages (sm # entries) j base sz w =
     (if sm = 0 then scan_entries l i npages entries (j + 1) base 0 w
      else
        let logMaxPages = levelLogPages ! l in do {
          w \<leftarrow> foundFree w (levelIndexToOffAddr l (i + j)) (push_bit logMaxPages 1 * pageSize);
          let s = sum_start sm;
          if sz + s \<ge> npages then
            Some (Scanned (if sz = 0 then push_bit logMaxPages (of_nat j) else base) (sz + s) w)
          else if sum_max sm \<ge> npages then Some (Descend (i + j) w)
          else if sz = 0 \<or> s < push_bit logMaxPages 1 then
            let sz = sum_end sm in
            scan_entries l i npages entries (j + 1) (push_bit logMaxPages (of_nat (j + 1)) - sz) sz w
          else scan_entries l i npages entries (j + 1) base (sz + push_bit logMaxPages 1) w
        })"

text \<open>The loop over the levels; \<open>find_levels n\<close> has \<open>n\<close> levels to go and starts at level \<open>5 - n\<close>.  \<open>Inl\<close> is a return from the loop,
  \<open>Inr\<close> the chunk to look into.\<close>

fun find_levels :: "env \<Rightarrow> pageAlloc \<Rightarrow> uintptr \<Rightarrow> nat \<Rightarrow> nat \<Rightarrow> window \<Rightarrow> (uintptr \<times> offAddr + nat \<times> window) go" where
  "find_levels e p npages 0 i w = Some (Inr (i, w))"
| "find_levels e p npages (Suc n) i w =
     (let l = summaryLevels - Suc n;
          entriesPerBlock = 2 ^ (levelBits ! l);
          i = i * 2 ^ (levelBits ! l)
      in do {
        entries \<leftarrow> sum_slice l i (i + entriesPerBlock) p;
        let searchIdx = offAddrToLevelIndex l (searchAddr p);
        let j0 = (if searchIdx div entriesPerBlock * entriesPerBlock = i then searchIdx mod entriesPerBlock else 0);
        r \<leftarrow> scan_entries l i npages (drop j0 entries) j0 0 0 w;
        case r of
          Descend i w \<Rightarrow> find_levels e p npages n i w
        | Scanned base sz w \<Rightarrow>
            if sz \<ge> npages then do {
              let addr = off_add (levelIndexToOffAddr l i) (base * pageSize);
              sa \<leftarrow> findMappedAddr e p (fst w);
              Some (Inl (addr, sa))
            }
            else if l = 0 then Some (Inl (0, maxSearchAddr))
            else None
      })"

definition find_in_chunk :: "env \<Rightarrow> pageAlloc \<Rightarrow> uintptr \<Rightarrow> nat \<times> window \<Rightarrow> (uintptr \<times> offAddr) go" where
  "find_in_chunk e p npages = (\<lambda>(i, w). let ci = of_nat i in do {
     m \<leftarrow> chunkOf p ci;
     (j, searchIdx) \<leftarrow> palloc_find (pallocBits m) npages 0;
     if j = NOT 0 then None
     else
       let addr = chunkBase ci + j * pageSize;
           searchAddr = chunkBase ci + searchIdx * pageSize
       in do {
         w \<leftarrow> foundFree w searchAddr (chunkBase (ci + 1) - searchAddr);
         sa \<leftarrow> findMappedAddr e p (fst w);
         Some (addr, sa)
       }
   })"

definition find :: "env \<Rightarrow> pageAlloc \<Rightarrow> uintptr \<Rightarrow> (uintptr \<times> offAddr) go" where
  "find e p npages = do {
     r \<leftarrow> find_levels e p npages summaryLevels 0 (minOffAddr, maxOffAddr);
     case r of
       Inl v \<Rightarrow> Some v
     | Inr c \<Rightarrow> find_in_chunk e p npages c
   }"

subsection \<open>Allocating\<close>

text \<open>The fast path of \<open>alloc\<close>: the chunk of \<open>searchAddr\<close>; \<open>None\<close> inside when it does not apply.\<close>

definition alloc_near :: "pageAlloc \<Rightarrow> uintptr \<Rightarrow> (uintptr \<times> offAddr) option go" where
  "alloc_near p npages =
     (if pallocChunkPages - chunkPageIndex (searchAddr p) \<ge> npages then
        let i = chunkIndex (searchAddr p) in do {
          s \<leftarrow> sum_get p 4 (unat i);
          if sum_max s \<ge> npages then do {
            m \<leftarrow> chunkOf p i;
            (j, searchIdx) \<leftarrow> palloc_find (pallocBits m) npages (chunkPageIndex (searchAddr p));
            if j = NOT 0 then None
            else Some (Some (chunkBase i + j * pageSize, chunkBase i + searchIdx * pageSize))
          }
          else Some None
        }
      else Some None)"

definition pa_alloc :: "env \<Rightarrow> pageAlloc \<Rightarrow> uintptr \<Rightarrow> (pageAlloc \<times> uintptr \<times> uintptr) go" where
  "pa_alloc e p npages =
     (if chunkIndex (searchAddr p) \<ge> pa_end p then Some (p, 0, 0)
      else do {
        near \<leftarrow> alloc_near p npages;
        (addr, sa) \<leftarrow> (case near of Some v \<Rightarrow> Some v | None \<Rightarrow> find e p npages);
        if near = None \<and> addr = 0 then Some (if npages = 1 then p\<lparr>searchAddr := maxSearchAddr\<rparr> else p, 0, 0)
        else do {
          (p, scav) \<leftarrow> pa_allocRange p addr npages;
          Some (if lessThan (searchAddr p) sa then p\<lparr>searchAddr := sa\<rparr> else p, addr, scav)
        }
      })"

subsection \<open>Growing\<close>

text \<open>The closures of \<open>sysGrow\<close>.\<close>

definition addrRangeToSummaryRange :: "nat \<Rightarrow> addrRange \<Rightarrow> nat \<times> nat" where
  "addrRangeToSummaryRange level r =
     (case addrsToSummaryRange level (r_base r) (r_limit r) of (lo, hi) \<Rightarrow> blockAlignSummaryRange level lo hi)"

definition summaryRangeToSumAddrRange :: "env \<Rightarrow> nat \<Rightarrow> nat \<times> nat \<Rightarrow> addrRange" where
  "summaryRangeToSumAddrRange e level = (\<lambda>(lo, hi).
     mk_range (sumBase e level + alignDown (of_nat lo * 8) (physPageSize e))
       (sumBase e level + alignUp (of_nat hi * 8) (physPageSize e)))"

definition addrRangeToSumAddrRange :: "env \<Rightarrow> nat \<Rightarrow> addrRange \<Rightarrow> addrRange" where
  "addrRangeToSumAddrRange e level r = summaryRangeToSumAddrRange e level (addrRangeToSummaryRange level r)"

definition sysGrow_level :: "env \<Rightarrow> addrRange \<Rightarrow> nat \<Rightarrow> nat \<Rightarrow> pageAlloc \<Rightarrow> pageAlloc go" where
  "sysGrow_level e r inUseIndex l p =
     (let (needIdxBase, needIdxLimit) = addrRangeToSummaryRange l r in do {
        p \<leftarrow> (if needIdxLimit > sum_len p l then
                if needIdxLimit \<le> sum_cap l then Some (p\<lparr>sum_len := (sum_len p)(l := needIdxLimit)\<rparr>) else None
              else Some p);
        let need = summaryRangeToSumAddrRange e l (needIdxBase, needIdxLimit);
        need \<leftarrow> (if inUseIndex > 0 then range_subtract need (addrRangeToSumAddrRange e l (ranges (inUse p) ! (inUseIndex - 1)))
                  else Some need);
        need \<leftarrow> (if inUseIndex < length (ranges (inUse p)) then
                    range_subtract need (addrRangeToSumAddrRange e l (ranges (inUse p) ! inUseIndex))
                  else Some need);
        Some (if range_size need = 0 then p else p\<lparr>summaryMappedReady := summaryMappedReady p + range_size need\<rparr>)
      })"

fun sysGrow_levels :: "env \<Rightarrow> addrRange \<Rightarrow> nat \<Rightarrow> nat list \<Rightarrow> pageAlloc \<Rightarrow> pageAlloc go" where
  "sysGrow_levels e r inUseIndex [] p = Some p"
| "sysGrow_levels e r inUseIndex (l # ls) p = do {
     p \<leftarrow> sysGrow_level e r inUseIndex l p;
     sysGrow_levels e r inUseIndex ls p
   }"

definition pa_sysGrow :: "env \<Rightarrow> pageAlloc \<Rightarrow> uintptr \<Rightarrow> uintptr \<Rightarrow> pageAlloc go" where
  "pa_sysGrow e p base limit =
     (if base mod pallocChunkBytes \<noteq> 0 \<or> limit mod pallocChunkBytes \<noteq> 0 then None
      else do {
        r \<leftarrow> makeAddrRange base limit;
        p \<leftarrow> sysGrow_levels e r (findSucc (inUse p) base) [0 ..< summaryLevels] p;
        (s, n) \<leftarrow> si_sysGrow (physPageSize e) (scavBase e) (scav_index p) base limit;
        Some (p\<lparr>scav_index := s, summaryMappedReady := summaryMappedReady p + n\<rparr>)
      })"

fun grow_chunks :: "nat list \<Rightarrow> pageAlloc \<Rightarrow> pageAlloc go" where
  "grow_chunks [] p = Some p"
| "grow_chunks (c # cs) p =
     (let i = unat (ci_l1 (of_nat c)) in
      if i < 2 ^ pallocChunksL1Bits then
        let zero = \<lparr>pallocBits = replicate 8 0, scavenged = replicate 8 0\<rparr>;
            p = (if chunks p i = None then p\<lparr>chunks := (chunks p)(i \<mapsto> (\<lambda>_. zero))\<rparr> else p)
        in do {
          p \<leftarrow> mod_chunk (of_nat c) (\<lambda>m. do { b \<leftarrow> setRange (scavenged m) 0 pallocChunkPages; Some (m\<lparr>scavenged := b\<rparr>) }) p;
          grow_chunks cs p
        }
      else None)"

definition pa_grow :: "env \<Rightarrow> pageAlloc \<Rightarrow> uintptr \<Rightarrow> uintptr \<Rightarrow> pageAlloc go" where
  "pa_grow e p base sz =
     (let limit = alignUp (base + sz) pallocChunkBytes; base = alignDown base pallocChunkBytes in do {
        p \<leftarrow> pa_sysGrow e p base limit;
        (s, n) \<leftarrow> si_grow (physPageSize e) (scavBase e) (scav_index p) base limit;
        let p = p\<lparr>scav_index := s, summaryMappedReady := summaryMappedReady p + n\<rparr>;
        let firstGrowth = (pa_start p = 0);
        let start = chunkIndex base;
        let end' = chunkIndex limit;
        let p = (if firstGrowth \<or> start < pa_start p then p\<lparr>pa_start := start\<rparr> else p);
        let p = (if end' > pa_end p then p\<lparr>pa_end := end'\<rparr> else p);
        r \<leftarrow> makeAddrRange base limit;
        u \<leftarrow> add (inUse p) r;
        let p = lower_searchAddr base (p\<lparr>inUse := u\<rparr>);
        p \<leftarrow> grow_chunks [unat start ..< unat end'] p;
        update p base (sz div pageSize) True False
      })"

subsection \<open>Scavenging one run of a chunk\<close>

text \<open>\<open>scavengeOne\<close> holds the lock twice.  The first half finds a candidate and marks it allocated, so that
  nobody takes it while its memory is given back to the system; the second makes it free and scavenged.\<close>

definition scavengeOne_take :: "env \<Rightarrow> pageAlloc \<Rightarrow> chunkIdx \<Rightarrow> uint \<Rightarrow> uintptr \<Rightarrow> (pageAlloc \<times> (uint \<times> uint) option) go" where
  "scavengeOne_take e p ci searchIdx mx =
     (let maxPages = mx div pageSize + (if mx mod pageSize \<noteq> 0 then 1 else 0);
          minPages = (if physPageSize e div pageSize < 1 then 1 else physPageSize e div pageSize)
      in do {
        s \<leftarrow> sum_get p 4 (unat ci);
        (base, npages) \<leftarrow>
          (if sum_max s \<ge> minPages then do {
             m \<leftarrow> chunkOf p ci;
             findScavengeCandidate (physPageSize e) (physHugePageSize e) m searchIdx minPages maxPages
           } else Some (0, 0));
        if npages \<noteq> 0 then do {
          p \<leftarrow> mod_chunk ci (\<lambda>m. pallocData_allocRange m base npages) p;
          p \<leftarrow> update p (chunkBase ci + base * pageSize) npages True True;
          Some (p, Some (base, npages))
        }
        else do { p \<leftarrow> mod_scav (\<lambda>s. si_setEmpty s ci) p; Some (p, None) }
      })"

definition scavengeOne_return :: "pageAlloc \<Rightarrow> chunkIdx \<Rightarrow> uint \<Rightarrow> uint \<Rightarrow> (pageAlloc \<times> uintptr) go" where
  "scavengeOne_return p ci base npages =
     (let addr = chunkBase ci + base * pageSize; p = lower_searchAddr addr p in do {
        p \<leftarrow> mod_chunk ci (\<lambda>m. do { b \<leftarrow> free (pallocBits m) base npages; Some (m\<lparr>pallocBits := b\<rparr>) }) p;
        p \<leftarrow> update p addr npages True False;
        p \<leftarrow> mod_chunk ci (\<lambda>m. do { b \<leftarrow> setRange (scavenged m) base npages; Some (m\<lparr>scavenged := b\<rparr>) }) p;
        Some (p, npages * pageSize)
      })"

end
