(* ===== verification/PageTree.thy ===== *)
theory PageTree
  imports PageAlloc
begin

text \<open>
  The summary tree of the page allocator.  \<open>F n\<close> says whether page \<open>n\<close> of the address space is free;
  \<open>region F l i\<close> lists the pages of entry \<open>i\<close> of level \<open>l\<close>, and \<open>tree_ok S F\<close> says that every entry of every level is the
  summary of its region.  The main result: after a change of the bitmaps inside a range of pages,
  \<open>update\<close> of that range makes the tree describe the new state, although it stops early when a level has not changed.
\<close>

subsection \<open>Regions\<close>

definition region :: "(nat \<Rightarrow> bool) \<Rightarrow> nat \<Rightarrow> nat \<Rightarrow> bool list" where
  "region F l i = map F [i * 2 ^ lp l ..< (i + 1) * 2 ^ lp l]"

definition entries_of :: "nat \<Rightarrow> nat" where
  "entries_of l = 2 ^ (35 - lp l)"

definition level_ok :: "(nat \<Rightarrow> nat \<Rightarrow> pallocSum) \<Rightarrow> (nat \<Rightarrow> bool) \<Rightarrow> nat \<Rightarrow> bool" where
  "level_ok S F l \<longleftrightarrow> (\<forall>i<entries_of l. sums_to (S l i) (region F l i))"

definition tree_ok :: "(nat \<Rightarrow> nat \<Rightarrow> pallocSum) \<Rightarrow> (nat \<Rightarrow> bool) \<Rightarrow> bool" where
  "tree_ok S F \<longleftrightarrow> (\<forall>l<5. level_ok S F l)"

lemma length_region [simp]: "length (region F l i) = 2 ^ lp l"
  by (simp add: region_def)

lemma nth_region: "k < 2 ^ lp l \<Longrightarrow> region F l i ! k = F (i * 2 ^ lp l + k)"
  by (simp add: region_def)

lemma region_cong: "(\<And>n. n div 2 ^ lp l = i \<Longrightarrow> F n = G n) \<Longrightarrow> region F l i = region G l i"
  by (rule nth_equalityI) (simp_all add: nth_region)

lemma entries_of_Suc: "l < 4 \<Longrightarrow> entries_of (Suc l) = entries_of l * 8"
  using less5_cases [of l] by (auto simp: entries_of_def lp_def)

lemma upt_concat: "a \<le> b \<Longrightarrow> concat (map (\<lambda>j. [j * w ..< (j + 1) * w]) [a ..< b]) = [a * w ..< b * w]"
proof (induction b)
  case (Suc b)
  show ?case
  proof (cases "a = Suc b")
    case False
    then have ab: "a \<le> b" using Suc.prems by simp
    then have "[a * w ..< (b + 1) * w] = [a * w ..< b * w] @ [b * w ..< (b + 1) * w]"
      using upt_add_eq_append [of "a * w" "b * w" w] by (simp add: algebra_simps)
    then show ?thesis using Suc.IH [OF ab] ab by simp
  qed simp
qed simp

lemma region_split:
  assumes "l < 4"
  shows "region F l i = concat (map (region F (Suc l)) [i * 8 ..< (i + 1) * 8])"
proof -
  have "concat (map (region F (Suc l)) [i * 8 ..< (i + 1) * 8]) =
      map F (concat (map (\<lambda>j. [j * 2 ^ lp (Suc l) ..< (j + 1) * 2 ^ lp (Suc l)]) [i * 8 ..< (i + 1) * 8]))"
    by (simp only: region_def [abs_def] map_concat map_map comp_def)
  also have "\<dots> = map F [i * 8 * 2 ^ lp (Suc l) ..< (i + 1) * 8 * 2 ^ lp (Suc l)]" by (subst upt_concat) simp_all
  also have "\<dots> = region F l i" by (simp add: region_def lp_Suc [OF assms] power_add algebra_simps)
  finally show ?thesis ..
qed

lemma merge_children:
  assumes l: "l < 4" and c: "\<forall>j. i * 8 \<le> j \<and> j < (i + 1) * 8 \<longrightarrow> sums_to (S (Suc l) j) (region F (Suc l) j)"
  shows "\<exists>s. mergeSummaries (map (S (Suc l)) [i * 8 ..< (i + 1) * 8]) (lp (Suc l)) = Some s \<and> sums_to s (region F l i)"
proof -
  let ?is = "[i * 8 ..< (i + 1) * 8]"
  have "list_all2 sums_to (map (S (Suc l)) ?is) (map (region F (Suc l)) ?is)"
    using c by (simp add: list_all2_conv_all_nth)
  moreover have "length (map (region F (Suc l)) ?is) * 2 ^ lp (Suc l) \<le> 2 ^ 21"
  proof -
    have "length (map (region F (Suc l)) ?is) * 2 ^ lp (Suc l) = (2 :: nat) ^ lp l" by (simp add: lp_Suc [OF l] power_add)
    also have "\<dots> \<le> 2 ^ 21" by (rule power_increasing) (simp_all add: lp_bounds)
    finally show ?thesis .
  qed
  ultimately show ?thesis
    using mergeSummaries_sums [of "map (S (Suc l)) ?is" "map (region F (Suc l)) ?is" "lp (Suc l)"] region_split [OF l, of F i]
    by simp
qed

text \<open>A level that describes both the old and the new state passes this on to the levels above.\<close>

lemma level_up_both:
  assumes l: "l < 4" and "level_ok S F (Suc l)" "level_ok S F' (Suc l)" "level_ok T F l"
  shows "level_ok T F' l"
  unfolding level_ok_def
proof (intro allI impI)
  fix i assume i: "i < entries_of l"
  then have c: "j < entries_of (Suc l)" if "i * 8 \<le> j \<and> j < (i + 1) * 8" for j
    using that by (simp add: entries_of_Suc [OF l])
  obtain s where s: "mergeSummaries (map (S (Suc l)) [i * 8 ..< (i + 1) * 8]) (lp (Suc l)) = Some s" "sums_to s (region F l i)"
    using merge_children [OF l, of i S F] assms(2) c unfolding level_ok_def by blast
  have "sums_to s (region F' l i)"
    using merge_children [OF l, of i S F'] assms(3) c s(1) unfolding level_ok_def by auto
  moreover have "sums_to (T l i) (region F l i)" using assms(4) i by (simp add: level_ok_def)
  ultimately show "sums_to (T l i) (region F' l i)" using s(2) by (simp add: sums_to_def)
qed

subsection \<open>The levels above the leaves\<close>

lemma sum_cap_eq: "l < 5 \<Longrightarrow> sum_cap l = entries_of l"
  by (simp add: sum_cap_def entries_of_def level_nth heapAddrBits_def)

lemma merge_entries_ok:
  assumes l: "l < 4" and up: "level_ok (summary p) F (Suc l)"
    and bnd: "\<forall>i\<in>set is. i < sum_len p l \<and> i < entries_of l"
  shows "\<exists>f ch. merge_entries l is changed p = Some (p\<lparr>summary := (summary p)(l := f)\<rparr>, ch) \<and>
     (\<forall>i\<in>set is. sums_to (f i) (region F l i)) \<and> (\<forall>i. i \<notin> set is \<longrightarrow> f i = summary p l i) \<and>
     (ch \<or> \<not> changed \<and> f = summary p l)"
  using up bnd
proof (induction "is" arbitrary: p changed)
  case Nil
  then show ?case by (intro exI [of _ "summary p l"] exI [of _ changed]) simp
next
  case (Cons i "is")
  have i: "i < sum_len p l" "i < entries_of l" using Cons.prems(2) by simp_all
  then have c: "(i + 1) * 8 \<le> entries_of (Suc l)" by (simp add: entries_of_Suc [OF l])
  then have "\<forall>j. i * 8 \<le> j \<and> j < (i + 1) * 8 \<longrightarrow> sums_to (summary p (Suc l) j) (region F (Suc l) j)"
    using Cons.prems(1) by (simp add: level_ok_def)
  then obtain s where s: "mergeSummaries (map (summary p (Suc l)) [i * 8 ..< (i + 1) * 8]) (lp (Suc l)) = Some s"
      "sums_to s (region F l i)"
    using merge_children [OF l, of i "summary p" F] by blast
  define p1 where "p1 = (if summary p l i \<noteq> s then p\<lparr>summary := (summary p)(l := (summary p l)(i := s))\<rparr> else p)"
  define ch1 where "ch1 = (summary p l i \<noteq> s \<or> changed)"
  have step: "merge_entries l (i # is) changed p = merge_entries l is ch1 p1"
    using i c s(1) l unfolding p1_def ch1_def
    by (simp add: sum_slice_def sum_get_def sum_put_def level_nth sum_cap_eq del: upt_Suc mult_Suc)
  have s1: "summary p1 = (summary p)(l := (summary p l)(i := s))" "sum_len p1 = sum_len p"
    by (auto simp: p1_def)
  have a: "level_ok (summary p1) F (Suc l)" using Cons.prems(1) by (simp add: level_ok_def s1)
  have b: "\<forall>i\<in>set is. i < sum_len p1 l \<and> i < entries_of l" using Cons.prems(2) s1(2) by simp
  obtain f ch where f: "merge_entries l is ch1 p1 = Some (p1\<lparr>summary := (summary p1)(l := f)\<rparr>, ch)"
      "\<forall>i\<in>set is. sums_to (f i) (region F l i)" "\<forall>i. i \<notin> set is \<longrightarrow> f i = summary p1 l i" "ch \<or> \<not> ch1 \<and> f = summary p1 l"
    using Cons.IH [OF a b, of ch1] by (elim exE conjE) (rule that)
  have eq: "p1\<lparr>summary := (summary p1)(l := f)\<rparr> = p\<lparr>summary := (summary p)(l := f)\<rparr>" by (simp add: p1_def)
  have fi: "sums_to (f i) (region F l i)" using f(2,3) s(2) s1(1) by (cases "i \<in> set is") simp_all
  show ?case
  proof (intro exI conjI)
    show "merge_entries l (i # is) changed p = Some (p\<lparr>summary := (summary p)(l := f)\<rparr>, ch)"
      unfolding step f(1) eq ..
    show "\<forall>j\<in>set (i # is). sums_to (f j) (region F l j)" using f(2) fi by simp
    show "\<forall>j. j \<notin> set (i # is) \<longrightarrow> f j = summary p l j" using f(3) s1(1) by simp
    show "ch \<or> \<not> changed \<and> f = summary p l"
    proof (cases ch)
      case False
      then have "\<not> ch1" "f = summary p1 l" using f(4) by blast+
      then show ?thesis using s1(1) fun_upd_idem [of "summary p l" i s] by (simp add: ch1_def)
    qed simp
  qed
qed

lemma div_outside:
  fixes n w b e :: nat
  assumes "n div w < b div w \<or> e div w < n div w"
  shows "n < b \<or> e < n"
  using assms div_le_mono [of b n w] div_le_mono [of n e w] by linarith

lemma update_up_ok:
  assumes "l \<le> 4" and len: "\<forall>k<l. page_of (limit' - 1) div 2 ^ lp k < sum_len p k"
    and lim: "limit' = limit + 1" "page_of base \<le> page_of (limit' - 1)" "page_of (limit' - 1) < 2 ^ 35"
    and out: "\<forall>n. n < page_of base \<or> page_of (limit' - 1) < n \<longrightarrow> F' n = F n"
    and above: "\<forall>k. l \<le> k \<and> k < 5 \<longrightarrow> level_ok (summary p) F' k"
    and below: "\<forall>k<l. level_ok (summary p) F k"
    and ch: "changed \<or> level_ok (summary p) F l"
  shows "\<exists>S. update_up l base limit changed p = Some (p\<lparr>summary := S\<rparr>) \<and> tree_ok S F'"
  using assms(1) len above below ch
proof (induction l arbitrary: p changed)
  case 0
  then show ?case by (intro exI [of _ "summary p"]) (simp add: tree_ok_def)
next
  case (Suc l)
  have l: "l < 4" using Suc.prems(1) by simp
  have up: "level_ok (summary p) F' (Suc l)" using Suc.prems(1,3) by simp
  show ?case
  proof (cases changed)
    case False
    have "level_ok (summary p) F' k" if "k \<le> Suc l" for k
      using that
    proof (induction rule: inc_induct)
      case (step k)
      have "level_ok (summary p) F (Suc k)"
        using Suc.prems(4,5) False step(2) by (cases "Suc k = Suc l") auto
      then show ?case using level_up_both [of k "summary p" F F' "summary p"] step Suc.prems(4) l by simp
    qed (rule up)
    moreover have "level_ok (summary p) F' k" if "\<not> k \<le> Suc l" "k < 5" for k using Suc.prems(3) that by simp
    ultimately have "tree_ok (summary p) F'" unfolding tree_ok_def by blast
    then show ?thesis using False by (intro exI [of _ "summary p"]) simp
  next
    case True
    define lo where "lo = page_of base div 2 ^ lp l"
    define hi where "hi = page_of (limit' - 1) div 2 ^ lp l"
    have r: "addrsToSummaryRange l base (limit + 1) = (lo, hi + 1)"
      using l summary_range [of l base limit'] by (simp add: lim(1) lo_def hi_def)
    have hi: "hi < sum_len p l" "hi < entries_of l"
    proof -
      show "hi < sum_len p l" using Suc.prems(2) by (simp add: hi_def)
      have "35 = (35 - lp l) + lp l" using lp_bounds(2) [of l] by simp
      then have "page_of (limit' - 1) < 2 ^ (35 - lp l) * 2 ^ lp l" using lim(3) by (metis power_add)
      then show "hi < entries_of l" by (simp add: hi_def entries_of_def less_mult_imp_div_less)
    qed
    obtain f ch1 where f: "merge_entries l [lo ..< hi + 1] False p = Some (p\<lparr>summary := (summary p)(l := f)\<rparr>, ch1)"
      "\<forall>i\<in>set [lo ..< hi + 1]. sums_to (f i) (region F' l i)" "\<forall>i. i \<notin> set [lo ..< hi + 1] \<longrightarrow> f i = summary p l i"
      "ch1 \<or> \<not> False \<and> f = summary p l"
      using merge_entries_ok [OF l up, of "[lo ..< hi + 1]" False] hi by fastforce
    define p1 where "p1 = p\<lparr>summary := (summary p)(l := f)\<rparr>"
    have fl: "sums_to (f i) (region F' l i)" if i: "i < entries_of l" for i
    proof (cases "i \<in> set [lo ..< hi + 1]")
      case True
      then show ?thesis using f(2) by blast
    next
      case False
      have "i < lo \<or> hi < i" using False by auto
      have "region F' l i = region F l i"
      proof (rule region_cong)
        fix n assume "n div 2 ^ lp l = i"
        then have "n < page_of base \<or> page_of (limit' - 1) < n"
          using \<open>i < lo \<or> hi < i\<close> unfolding lo_def hi_def by (intro div_outside [of n "2 ^ lp l"]) simp
        then show "F' n = F n" by (rule out [rule_format])
      qed
      moreover have "sums_to (summary p l i) (region F l i)" using Suc.prems(4) i by (simp add: level_ok_def)
      ultimately show ?thesis using f(3) False by simp
    qed
    have a: "\<forall>k. l \<le> k \<and> k < 5 \<longrightarrow> level_ok (summary p1) F' k"
    proof (intro allI impI)
      fix k assume k: "l \<le> k \<and> k < 5"
      show "level_ok (summary p1) F' k"
        using fl k Suc.prems(3) by (cases "k = l") (simp_all add: level_ok_def p1_def)
    qed
    have b: "\<forall>k<l. level_ok (summary p1) F k" using Suc.prems(4) by (simp add: level_ok_def p1_def)
    have c: "ch1 \<or> level_ok (summary p1) F l" using f(4) Suc.prems(4) by (auto simp: level_ok_def p1_def)
    have d: "\<forall>k<l. page_of (limit' - 1) div 2 ^ lp k < sum_len p1 k" using Suc.prems(2) by (simp add: p1_def)
    have le: "l \<le> 4" using l by simp
    obtain S where S: "update_up l base limit ch1 p1 = Some (p1\<lparr>summary := S\<rparr>)" "tree_ok S F'"
      using Suc.IH [OF le d a b c] by (elim exE conjE) (rule that)
    have "update_up (Suc l) base limit changed p = update_up l base limit ch1 p1"
      unfolding update_up.simps r p1_def using True f(1) by simp
    then have "update_up (Suc l) base limit changed p = Some (p\<lparr>summary := S\<rparr>)"
      unfolding S(1) by (simp add: p1_def)
    then show ?thesis using S(2) by blast
  qed
qed

subsection \<open>The leaves\<close>

definition chunk_at :: "pageAlloc \<Rightarrow> nat \<Rightarrow> pallocData option" where
  "chunk_at p c = (case chunks p (c div 2 ^ 13) of None \<Rightarrow> None | Some t \<Rightarrow> Some (t (c mod 2 ^ 13)))"

lemma unat_chunk [simp]: "c < 2 ^ 26 \<Longrightarrow> unat (of_nat c :: uint64) = c"
  by (simp add: unat_of_nat_small)

lemma chunkOf_at: "unat ci < 2 ^ 26 \<Longrightarrow> chunkOf p ci = chunk_at p (unat ci)"
  by (cases "chunks p (unat ci div 2 ^ 13)")
    (simp_all add: chunkOf_def tryChunkOf_def unat_l1 unat_l2 page_consts chunk_at_def div_less_iff_less_mult)

text \<open>The bitmap of chunk \<open>c\<close> shows the state \<open>F\<close>.\<close>

definition shows_state :: "pageAlloc \<Rightarrow> (nat \<Rightarrow> bool) \<Rightarrow> nat \<Rightarrow> bool" where
  "shows_state p F c \<longleftrightarrow>
     (\<exists>m. chunk_at p c = Some m \<and> pageBits_ok (pallocBits m) \<and> free_list (pallocBits m) = region F 4 c)"

lemma entries_of_4: "entries_of 4 = 2 ^ 26"
  by (simp add: entries_of_def)

lemma shows_state_summary:
  assumes "shows_state p F c"
  shows "\<exists>m s. chunk_at p c = Some m \<and> summarize (pallocBits m) = Some s \<and> sums_to s (region F 4 c)"
  using assms summarize_sums unfolding shows_state_def by metis

lemma recompute_leaves_ok:
  assumes "\<forall>c\<in>set cs. c < sum_len p 4 \<and> c < 2 ^ 26 \<and> shows_state p F c"
  shows "\<exists>f. recompute_leaves cs p = Some (p\<lparr>summary := (summary p)(4 := f)\<rparr>) \<and>
     (\<forall>c\<in>set cs. sums_to (f c) (region F 4 c)) \<and> (\<forall>c. c \<notin> set cs \<longrightarrow> f c = summary p 4 c)"
  using assms
proof (induction cs arbitrary: p)
  case Nil
  then show ?case by (intro exI [of _ "summary p 4"]) simp
next
  case (Cons c cs)
  obtain m s where m: "chunk_at p c = Some m" "summarize (pallocBits m) = Some s" "sums_to s (region F 4 c)"
    using shows_state_summary [of p F c] Cons.prems by auto
  define p1 where "p1 = p\<lparr>summary := (summary p)(4 := (summary p 4)(c := s))\<rparr>"
  have c: "c < sum_len p 4" "c < 2 ^ 26" using Cons.prems by simp_all
  have step: "recompute_leaves (c # cs) p = recompute_leaves cs p1"
    using c m by (simp add: chunkOf_at sum_put_def p1_def)
  have "\<forall>c\<in>set cs. c < sum_len p1 4 \<and> c < 2 ^ 26 \<and> shows_state p1 F c"
    using Cons.prems by (simp add: p1_def shows_state_def chunk_at_def)
  then obtain f where f: "recompute_leaves cs p1 = Some (p1\<lparr>summary := (summary p1)(4 := f)\<rparr>)"
      "\<forall>c\<in>set cs. sums_to (f c) (region F 4 c)" "\<forall>c. c \<notin> set cs \<longrightarrow> f c = summary p1 4 c"
    by (drule_tac Cons.IH) (elim exE conjE, rule that)
  have eq: "p1\<lparr>summary := (summary p1)(4 := f)\<rparr> = p\<lparr>summary := (summary p)(4 := f)\<rparr>" by (simp add: p1_def)
  have fc: "sums_to (f c) (region F 4 c)" using f(2,3) m(3) by (cases "c \<in> set cs") (simp_all add: p1_def)
  show ?case
  proof (intro exI conjI)
    show "recompute_leaves (c # cs) p = Some (p\<lparr>summary := (summary p)(4 := f)\<rparr>)" unfolding step f(1) eq ..
    show "\<forall>j\<in>set (c # cs). sums_to (f j) (region F 4 j)" using f(2) fc by simp
    show "\<forall>j. j \<notin> set (c # cs) \<longrightarrow> f j = summary p 4 j" using f(3) by (simp add: p1_def)
  qed
qed

lemma update_leaves_ok:
  assumes ec: "sc \<le> ec" "ec < sum_len p 4" "ec < 2 ^ 26"
    and F: "level_ok (summary p) F 4" and out: "\<forall>c. c < sc \<or> ec < c \<longrightarrow> region F' 4 c = region F 4 c"
    and F': "\<forall>c. sc \<le> c \<and> c \<le> ec \<longrightarrow> shows_state p F' c"
    and contig: "contig \<longrightarrow> (\<forall>c. sc < c \<and> c < ec \<longrightarrow> region F' 4 c = replicate 512 (\<not> alloc))"
  shows "\<exists>f go. update_leaves p sc ec contig alloc = Some (p\<lparr>summary := (summary p)(4 := f)\<rparr>, go) \<and>
     level_ok ((summary p)(4 := f)) F' 4 \<and> (go \<or> f = summary p 4)"
proof -
  have all: "level_ok ((summary p)(4 := f)) F' 4"
    if "\<forall>c. sc \<le> c \<and> c \<le> ec \<longrightarrow> sums_to (f c) (region F' 4 c)" "\<forall>c. c < sc \<or> ec < c \<longrightarrow> f c = summary p 4 c" for f
    unfolding level_ok_def
  proof (intro allI impI)
    fix c assume c: "c < entries_of 4"
    show "sums_to (((summary p)(4 := f)) 4 c) (region F' 4 c)"
    proof (cases "sc \<le> c \<and> c \<le> ec")
      case False
      then have "c < sc \<or> ec < c" by auto
      then have e: "f c = summary p 4 c" "region F' 4 c = region F 4 c" using that(2) out by blast+
      have "sums_to (summary p 4 c) (region F 4 c)" using F c by (simp add: level_ok_def)
      then show ?thesis by (simp add: e)
    qed (use that(1) in simp)
  qed
  consider (one) "sc = ec" | (contig) "sc \<noteq> ec" contig | (many) "sc \<noteq> ec" "\<not> contig" by blast
  then show ?thesis
  proof cases
    case one
    obtain m s where m: "chunk_at p sc = Some m" "summarize (pallocBits m) = Some s" "sums_to s (region F' 4 sc)"
      using shows_state_summary [of p F' sc] F' ec by auto
    have sc: "sc < sum_len p 4" "sc < 2 ^ 26" using one ec by simp_all
    have e: "update_leaves p sc ec contig alloc =
        (if summary p 4 sc = s then Some (p, False) else Some (p\<lparr>summary := (summary p)(4 := (summary p 4)(sc := s))\<rparr>, True))"
      using one sc m by (simp add: update_leaves_def sum_get_def sum_put_def chunkOf_at)
    have l: "level_ok ((summary p)(4 := (summary p 4)(sc := s))) F' 4" by (rule all) (use one m(3) in auto)
    show ?thesis
    proof (cases "summary p 4 sc = s")
      case True
      then have "(summary p 4)(sc := s) = summary p 4" by (rule fun_upd_idem)
      then have "level_ok ((summary p)(4 := summary p 4)) F' 4" using l by simp
      then show ?thesis using e True by (intro exI [of _ "summary p 4"] exI [of _ False]) simp
    next
      case False
      then show ?thesis using e l by (intro exI [of _ "(summary p 4)(sc := s)"] exI [of _ True]) simp
    qed
  next
    case contig
    define v where "v = (if alloc then 0 else freeChunkSum)"
    have lt: "sc < ec" using contig ec(1) by simp
    have sv: "sums_to v (region F' 4 c)" if "sc < c" "c < ec" for c
      using assms(7) contig(2) that sums_to_free_chunk sums_to_full_chunk by (cases alloc) (simp_all add: v_def)
    have 1: "\<forall>c\<in>set [sc]. c < sum_len p 4 \<and> c < 2 ^ 26 \<and> shows_state p F' c" using ec F' lt by simp
    obtain f1 where f1: "recompute_leaves [sc] p = Some (p\<lparr>summary := (summary p)(4 := f1)\<rparr>)"
        "sums_to (f1 sc) (region F' 4 sc)" "\<forall>c. c \<noteq> sc \<longrightarrow> f1 c = summary p 4 c"
      using recompute_leaves_ok [OF 1] by auto
    define f2 where "f2 i = (if sc + 1 \<le> i \<and> i < ec then v else f1 i)" for i
    define p2 where "p2 = p\<lparr>summary := (summary p)(4 := f2)\<rparr>"
    have p2: "sum_fill 4 (sc + 1) ec v (p\<lparr>summary := (summary p)(4 := f1)\<rparr>) = Some p2"
    proof -
      have "(\<lambda>i. if sc + 1 \<le> i \<and> i < ec then v else summary (p\<lparr>summary := (summary p)(4 := f1)\<rparr>) 4 i) = f2"
        by (rule ext) (simp add: f2_def)
      then show ?thesis unfolding sum_fill_def p2_def using lt ec(3) by (simp add: sum_cap_eq entries_of_4)
    qed
    have 2: "\<forall>c\<in>set [ec]. c < sum_len p2 4 \<and> c < 2 ^ 26 \<and> shows_state p2 F' c"
      using ec F' lt by (simp add: p2_def shows_state_def chunk_at_def)
    obtain f3 where f3: "recompute_leaves [ec] p2 = Some (p2\<lparr>summary := (summary p2)(4 := f3)\<rparr>)"
        "sums_to (f3 ec) (region F' 4 ec)" "\<forall>c. c \<noteq> ec \<longrightarrow> f3 c = summary p2 4 c"
      using recompute_leaves_ok [OF 2] by auto
    have eq: "p2\<lparr>summary := (summary p2)(4 := f3)\<rparr> = p\<lparr>summary := (summary p)(4 := f3)\<rparr>" by (simp add: p2_def)
    have u: "update_leaves p sc ec contig alloc = Some (p\<lparr>summary := (summary p)(4 := f3)\<rparr>, True)"
      using contig f1(1) p2 f3(1) by (simp add: update_leaves_def v_def [symmetric] eq del: recompute_leaves.simps)
    have f3c: "f3 c = (if c = ec then f3 ec else if c = sc then f1 sc else if sc < c \<and> c < ec then v else summary p 4 c)" for c
      using f3(3) f1(3) lt by (auto simp: p2_def f2_def)
    have "level_ok ((summary p)(4 := f3)) F' 4"
    proof (rule all)
      show "\<forall>c. sc \<le> c \<and> c \<le> ec \<longrightarrow> sums_to (f3 c) (region F' 4 c)"
        using f3(2) f1(2) sv by (subst f3c) auto
      show "\<forall>c. c < sc \<or> ec < c \<longrightarrow> f3 c = summary p 4 c" using lt by (subst f3c) auto
    qed
    then show ?thesis using u by blast
  next
    case many
    have 1: "\<forall>c\<in>set [sc ..< ec + 1]. c < sum_len p 4 \<and> c < 2 ^ 26 \<and> shows_state p F' c" using ec F' by auto
    obtain f where f: "recompute_leaves [sc ..< ec + 1] p = Some (p\<lparr>summary := (summary p)(4 := f)\<rparr>)"
        "\<forall>c\<in>set [sc ..< ec + 1]. sums_to (f c) (region F' 4 c)" "\<forall>c. c \<notin> set [sc ..< ec + 1] \<longrightarrow> f c = summary p 4 c"
      using recompute_leaves_ok [OF 1] by blast
    have "level_ok ((summary p)(4 := f)) F' 4" by (rule all) (use f(2,3) in auto)
    moreover have "update_leaves p sc ec contig alloc = Some (p\<lparr>summary := (summary p)(4 := f)\<rparr>, True)"
      unfolding update_leaves_def using many f(1) by simp
    ultimately show ?thesis by blast
  qed
qed

subsection \<open>The whole update\<close>

lemma off_plus:
  assumes "off x + k < 2 ^ 64"
  shows "off (x + of_nat k) = off x + k"
proof -
  have k: "unat (of_nat k :: uint64) = k" using assms by (intro unat_of_nat_small) simp
  have "x + of_nat k - arenaBaseOffset = (x - arenaBaseOffset) + of_nat k" by simp
  moreover have "unat ((x - arenaBaseOffset) + of_nat k) = unat (x - arenaBaseOffset) + k"
    by (subst unat_add_small) (use assms k in \<open>simp_all add: off_def\<close>)
  ultimately show ?thesis by (simp only: off_def)
qed

text \<open>A range of \<open>n\<close> pages from page \<open>b\<close> on, as the code gives it: base address and number of pages.\<close>

definition is_range :: "uintptr \<Rightarrow> uintptr \<Rightarrow> nat \<Rightarrow> nat \<Rightarrow> bool" where
  "is_range base npages b n \<longleftrightarrow> off base = b * 2 ^ 13 \<and> unat npages = n \<and> 0 < n \<and> b + n \<le> 2 ^ 35"

lemma is_range_limit:
  assumes "is_range base npages b n"
  shows "off (base + npages * pageSize - 1) = (b + n) * 2 ^ 13 - 1" "page_of (base + npages * pageSize - 1) = b + n - 1"
    "page_of base = b"
proof -
  have n: "off base = b * 2 ^ 13" "0 < n" "b + n \<le> 2 ^ 35" "npages = of_nat n"
    using assms by (auto simp: is_range_def)
  then obtain k where k: "n = Suc k" by (cases n) simp
  have e: "base + npages * pageSize - 1 = base + of_nat (k * 2 ^ 13 + (2 ^ 13 - 1))"
    by (simp add: n(4) k page_consts algebra_simps)
  have "off (base + of_nat (k * 2 ^ 13 + (2 ^ 13 - 1))) = b * 2 ^ 13 + (k * 2 ^ 13 + (2 ^ 13 - 1))"
    unfolding n(1) [symmetric] by (rule off_plus) (use n(1,3) k in simp)
  then have "off (base + npages * pageSize - 1) = b * 2 ^ 13 + (k * 2 ^ 13 + (2 ^ 13 - 1))" unfolding e .
  then show o: "off (base + npages * pageSize - 1) = (b + n) * 2 ^ 13 - 1" by (simp add: k)
  show "page_of (base + npages * pageSize - 1) = b + n - 1" unfolding page_of_def o using k by simp
  show "page_of base = b" by (simp add: page_of_def n(1))
qed

lemma update_ok:
  assumes r: "is_range base npages b n"
    and len: "\<forall>l<5. (b + n - 1) div 2 ^ lp l < sum_len p l"
    and F: "tree_ok (summary p) F" and out: "\<forall>k. k < b \<or> b + n \<le> k \<longrightarrow> F' k = F k"
    and F': "\<forall>c. b div 512 \<le> c \<and> c \<le> (b + n - 1) div 512 \<longrightarrow> shows_state p F' c"
    and contig: "contig \<longrightarrow> (\<forall>c. b div 512 < c \<and> c < (b + n - 1) div 512 \<longrightarrow> region F' 4 c = replicate 512 (\<not> alloc))"
  shows "\<exists>S. update p base npages contig alloc = Some (p\<lparr>summary := S\<rparr>) \<and> tree_ok S F'"
proof -
  define limit where "limit = base + npages * pageSize - 1"
  define sc where "sc = b div 512"
  define ec where "ec = (b + n - 1) div 512"
  have n: "0 < n" "b + n \<le> 2 ^ 35" using r by (simp_all add: is_range_def)
  have lim: "page_of limit = b + n - 1" "page_of base = b" "limit = (limit + 1) - 1"
    using is_range_limit [OF r] by (simp_all add: limit_def)
  have ci: "unat (chunkIndex base) = sc" "unat (chunkIndex limit) = ec"
    by (simp_all add: unat_chunkIndex lim(1,2) sc_def ec_def)
  have ec: "sc \<le> ec" "ec < sum_len p 4" "ec < 2 ^ 26"
  proof -
    show "sc \<le> ec" unfolding sc_def ec_def by (rule div_le_mono) (use n in simp)
    show "ec < sum_len p 4" using len by (auto simp: ec_def dest: spec [of _ 4])
    show "ec < 2 ^ 26" unfolding ec_def using n by (simp add: div_less_iff_less_mult)
  qed
  have o: "\<forall>c. c < sc \<or> ec < c \<longrightarrow> region F' 4 c = region F 4 c"
  proof (intro allI impI region_cong)
    fix c k assume c: "c < sc \<or> ec < c" and k: "k div 2 ^ lp 4 = c"
    have "k < b \<or> b + n - 1 < k" using c k unfolding sc_def ec_def by (intro div_outside [of k 512]) simp
    then show "F' k = F k" using n by (intro out [rule_format]) linarith
  qed
  have l4: "level_ok (summary p) F 4" using F by (simp add: tree_ok_def)
  obtain f go where f: "update_leaves p sc ec contig alloc = Some (p\<lparr>summary := (summary p)(4 := f)\<rparr>, go)"
      "level_ok ((summary p)(4 := f)) F' 4" "go \<or> f = summary p 4"
    using update_leaves_ok [OF ec l4 o F' [folded sc_def ec_def] contig [folded sc_def ec_def]] by blast
  define p1 where "p1 = p\<lparr>summary := (summary p)(4 := f)\<rparr>"
  have "\<exists>S. update_up 4 base limit go p1 = Some (p1\<lparr>summary := S\<rparr>) \<and> tree_ok S F'"
  proof (rule update_up_ok [where limit' = "limit + 1" and F = F])
    show "\<forall>k<4. page_of (limit + 1 - 1) div 2 ^ lp k < sum_len p1 k" using len lim by (simp add: p1_def)
    show "page_of (limit + 1 - 1) < 2 ^ 35" "page_of base \<le> page_of (limit + 1 - 1)" using lim n by simp_all
    show "\<forall>k. k < page_of base \<or> page_of (limit + 1 - 1) < k \<longrightarrow> F' k = F k"
      using out lim n by (auto intro!: out [rule_format])
    show "\<forall>k. 4 \<le> k \<and> k < 5 \<longrightarrow> level_ok (summary p1) F' k"
    proof (intro allI impI)
      fix k :: nat assume "4 \<le> k \<and> k < 5"
      then have "k = 4" by simp
      then show "level_ok (summary p1) F' k" using f(2) by (simp add: p1_def)
    qed
    show "\<forall>k<4. level_ok (summary p1) F k" using F by (simp add: tree_ok_def level_ok_def p1_def)
    show "go \<or> level_ok (summary p1) F 4" using f(3) l4 by (auto simp: level_ok_def p1_def)
  qed simp_all
  then obtain S where S: "update_up 4 base limit go p1 = Some (p1\<lparr>summary := S\<rparr>)" "tree_ok S F'" by blast
  have "update p base npages contig alloc = (if go then update_up 4 base limit True p1 else Some p1)"
    unfolding update_def Let_def limit_def [symmetric] ci f(1) p1_def by simp
  also have "\<dots> = Some (p\<lparr>summary := S\<rparr>)"
  proof (cases go)
    case True
    then show ?thesis using S(1) by (simp add: p1_def)
  next
    case False
    have u: "update_up 4 base limit False q = Some q" for q :: pageAlloc by (simp add: numeral_eq_Suc)
    have "p1 = p1\<lparr>summary := S\<rparr>" using S(1) False u [of p1] by simp
    then show ?thesis using False by (simp add: p1_def)
  qed
  finally show ?thesis using S(2) by blast
qed

end
