(* ===== verification/PageState.thy ===== *)
theory PageState
  imports PageTree
begin

text \<open>
  The invariant of the page allocator and the effect of its bitmap operations.  A chunk shows a pair of sets, its
  allocated and its scavenged pages (\<open>has p c x\<close>); \<open>eff h p p'\<close> says that \<open>p'\<close> differs from \<open>p\<close> in the chunks only, where
  \<open>h\<close> has been applied.  \<open>page_free p n\<close> is the abstract state: page \<open>n\<close> is part of the heap and not allocated.
\<close>

subsection \<open>The counter of the scavenge index\<close>

definition cnt :: "scavengeIndex \<Rightarrow> nat \<Rightarrow> nat option" where
  "cnt s c = (if c < 2 ^ 26 then map_option (\<lambda>d. unat (sc_inUse d)) (si_load s (of_nat c)) else None)"

lemma inUse_pack: "sc_inUse (unpackScavChunkData (pack d)) = sc_inUse d"
proof (rule bit_word_eqI)
  fix n assume "n < LENGTH(16)"
  then show "bit (sc_inUse (unpackScavChunkData (pack d))) n \<longleftrightarrow> bit (sc_inUse d) n"
    by (simp add: unpackScavChunkData_def pack_def bit_simps logScavChunkInUseMax_def logPallocChunkPages_def)
qed

lemma chunk_inj: "c < 2 ^ 26 \<Longrightarrow> d < 2 ^ 26 \<Longrightarrow> (of_nat c :: uint64) = of_nat d \<longleftrightarrow> c = d"
  by (metis unat_chunk)

lemma cnt_load: "cnt s c = Some k \<Longrightarrow> \<exists>d. si_load s (of_nat c) = Some d \<and> unat (sc_inUse d) = k \<and> c < 2 ^ 26"
  by (auto simp: cnt_def split: if_splits)

lemma cnt_store:
  assumes "si_load s (of_nat c) = Some d0" "c < 2 ^ 26"
  shows "\<exists>s'. si_store s (of_nat c) d = Some s' \<and> cnt s' = (cnt s)(c \<mapsto> unat (sc_inUse d))"
proof -
  define s' where "s' = s\<lparr>si_chunks := (si_chunks s)(c := pack d)\<rparr>"
  have "si_store s (of_nat c) d = Some s'"
    using assms by (auto simp: si_store_def si_load_def s'_def split: if_splits)
  moreover have "cnt s' = (cnt s)(c \<mapsto> unat (sc_inUse d))"
  proof
    fix e
    show "cnt s' e = ((cnt s)(c \<mapsto> unat (sc_inUse d))) e"
    proof (cases "e = c")
      case True
      have "si_load s' (of_nat c) = Some (unpackScavChunkData (pack d))"
        using assms by (auto simp: si_load_def s'_def split: if_splits)
      then show ?thesis using True assms(2) by (simp add: cnt_def inUse_pack)
    next
      case False
      then have "e < 2 ^ 26 \<Longrightarrow> si_load s' (of_nat e) = si_load s (of_nat e)"
        using assms(2) by (simp add: si_load_def s'_def)
      then show ?thesis using False by (simp add: cnt_def)
    qed
  qed
  ultimately show ?thesis by blast
qed

lemma ucast16: "unat (ucast (x :: uint16) :: uint64) = unat x"
proof -
  have "unat x < 2 ^ LENGTH(16)" by (rule unsigned_less)
  then show ?thesis by (simp add: unsigned_ucast_eq take_bit_nat_eq_self_iff)
qed

lemma ucast_to16: "unat (n :: uint64) < 2 ^ 16 \<Longrightarrow> unat (ucast n :: uint16) = unat n"
  by (simp add: unsigned_ucast_eq take_bit_nat_eq_self_iff)

lemma chunk_alloc_inUse:
  assumes "unat (sc_inUse d) + unat n \<le> 512"
  shows "\<exists>d'. chunk_alloc d n g = Some d' \<and> unat (sc_inUse d') = unat (sc_inUse d) + unat n"
proof -
  have "unat (ucast (sc_inUse d) + n) = unat (sc_inUse d) + unat n"
    using assms by (subst unat_add_small) (simp_all add: ucast16)
  then have "\<not> ucast (sc_inUse d) + n > pallocChunkPages"
    using assms by (simp add: word_less_nat_alt page_consts)
  moreover have "unat (sc_inUse d + ucast n) = unat (sc_inUse d) + unat n"
    using assms by (subst unat_add_small) (simp_all add: ucast_to16)
  ultimately show ?thesis by (auto simp: chunk_alloc_def Let_def flags_setEmpty_def)
qed

lemma chunk_free_inUse:
  assumes "unat n \<le> unat (sc_inUse d)"
  shows "\<exists>d'. chunk_free d n g = Some d' \<and> unat (sc_inUse d') = unat (sc_inUse d) - unat n"
proof -
  have "unat (sc_inUse d) < 2 ^ LENGTH(16)" by (rule unsigned_less)
  then have n: "unat n < 2 ^ 16" using assms by simp
  have "\<not> ucast (sc_inUse d) < n" using assms by (simp add: word_less_nat_alt ucast16)
  moreover have "unat (sc_inUse d - ucast n) = unat (sc_inUse d) - unat n"
    using assms n by (subst unat_sub_small) (simp_all add: ucast_to16)
  ultimately show ?thesis by (simp add: chunk_free_def Let_def setNonEmpty_def)
qed

lemma si_alloc_cnt:
  assumes "cnt s c = Some k" "k + unat n \<le> 512"
  shows "\<exists>s'. si_alloc s (of_nat c) n = Some s' \<and> cnt s' = (cnt s)(c \<mapsto> k + unat n)"
proof -
  obtain d where d: "si_load s (of_nat c) = Some d" "unat (sc_inUse d) = k" "c < 2 ^ 26" using cnt_load [OF assms(1)] by blast
  obtain d' where d': "chunk_alloc d n (si_gen s) = Some d'" "unat (sc_inUse d') = k + unat n"
    using chunk_alloc_inUse [of d n "si_gen s"] d(2) assms(2) by auto
  show ?thesis using cnt_store [OF d(1,3), of d'] d(1) d' by (auto simp: si_alloc_def)
qed

lemma cnt_searchAddr [simp]: "cnt (s\<lparr>freeHWM := a\<rparr>) = cnt s" "cnt (s\<lparr>searchAddrForce := b\<rparr>) = cnt s"
  by (simp_all add: cnt_def si_load_def fun_eq_iff)

lemma si_free_cnt:
  assumes "cnt s c = Some k" "unat n \<le> k"
  shows "\<exists>s'. si_free s (of_nat c) i n = Some s' \<and> cnt s' = (cnt s)(c \<mapsto> k - unat n)"
proof -
  obtain d where d: "si_load s (of_nat c) = Some d" "unat (sc_inUse d) = k" "c < 2 ^ 26" using cnt_load [OF assms(1)] by blast
  obtain d' where d': "chunk_free d n (si_gen s) = Some d'" "unat (sc_inUse d') = k - unat n"
    using chunk_free_inUse [of n d "si_gen s"] d(2) assms(2) by auto
  obtain s1 where s1: "si_store s (of_nat c) d' = Some s1" "cnt s1 = (cnt s)(c \<mapsto> k - unat n)"
    using cnt_store [OF d(1,3), of d'] d'(2) by auto
  then show ?thesis using d(1) d'(1) by (simp add: si_free_def Let_def split_beta)
qed

subsection \<open>Chunks and effects\<close>

type_synonym chunk_view = "nat set \<times> nat set"

definition has :: "pageAlloc \<Rightarrow> nat \<Rightarrow> chunk_view \<Rightarrow> bool" where
  "has p c x \<longleftrightarrow>
     (\<exists>m. chunk_at p c = Some m \<and> pageBits_ok (pallocBits m) \<and> pageBits_ok (scavenged m) \<and>
        x = (pages (pallocBits m), pages (scavenged m)) \<and> cnt (scav_index p) c = Some (card (pages (pallocBits m))))"

definition same_rest :: "pageAlloc \<Rightarrow> pageAlloc \<Rightarrow> bool" where
  "same_rest p p' \<longleftrightarrow> p' = p\<lparr>chunks := chunks p', scav_index := scav_index p'\<rparr>"

definition eff :: "(nat \<Rightarrow> chunk_view \<Rightarrow> chunk_view) \<Rightarrow> pageAlloc \<Rightarrow> pageAlloc \<Rightarrow> bool" where
  "eff h p p' \<longleftrightarrow> same_rest p p' \<and> (\<forall>c x. has p c x \<longrightarrow> has p' c (h c x))"

lemma same_restD:
  assumes "same_rest p p'"
  shows "summary p' = summary p" "sum_len p' = sum_len p" "searchAddr p' = searchAddr p" "pa_end p' = pa_end p"
    "inUse p' = inUse p" "pa_start p' = pa_start p" "pa_test p' = pa_test p" "summaryMappedReady p' = summaryMappedReady p"
  using assms by (cases p, cases p', simp add: same_rest_def)+

lemma same_rest_trans: "same_rest p q \<Longrightarrow> same_rest q r \<Longrightarrow> same_rest p r"
  by (cases p, cases q, cases r) (simp add: same_rest_def)

lemma eff_comp: "eff h p q \<Longrightarrow> eff g q r \<Longrightarrow> eff (\<lambda>c. g c \<circ> h c) p r"
  unfolding eff_def comp_def by (blast intro: same_rest_trans)

lemma effD: "eff h p p' \<Longrightarrow> has p c x \<Longrightarrow> has p' c (h c x)"
  unfolding eff_def by blast

lemma eff_id: "eff (\<lambda>c x. x) p p"
  by (simp add: eff_def same_rest_def)

lemma eff_cong: "eff h p q \<Longrightarrow> (\<And>c x. has p c x \<Longrightarrow> g c x = h c x) \<Longrightarrow> eff g p q"
  by (simp add: eff_def)

lemma has_less: "has p c x \<Longrightarrow> c < 2 ^ 26"
  by (auto simp: has_def cnt_def split: if_splits)

lemma has_unique: "has p c x \<Longrightarrow> has p c y \<Longrightarrow> x = y"
  by (auto simp: has_def)

lemma has_subset: "has p c (B, V) \<Longrightarrow> B \<subseteq> {..<512} \<and> V \<subseteq> {..<512}"
  using pages_subset by (auto simp: has_def)

lemma mod_chunk_at:
  assumes "chunk_at p c = Some m" "c < 2 ^ 26" "f m = Some m'"
  shows "\<exists>p'. mod_chunk (of_nat c) f p = Some p' \<and> chunk_at p' = (chunk_at p)(c \<mapsto> m') \<and> p' = p\<lparr>chunks := chunks p'\<rparr>"
proof -
  have l: "unat (ci_l1 (of_nat c)) = c div 2 ^ 13" "unat (ci_l2 (of_nat c)) = c mod 2 ^ 13"
    using assms(2) by (simp_all only: unat_l1 unat_l2 unat_chunk)
  obtain t where t: "chunks p (c div 2 ^ 13) = Some t" "m = t (c mod 2 ^ 13)"
    using assms(1) by (auto simp: chunk_at_def split: option.splits)
  define p' where "p' = p\<lparr>chunks := (chunks p)(c div 2 ^ 13 \<mapsto> t(c mod 2 ^ 13 := m'))\<rparr>"
  have co: "chunkOf p (of_nat c) = Some m" using assms(1,2) chunkOf_at [of "of_nat c" p] by simp
  have "mod_chunk (of_nat c) f p = Some p'"
    unfolding mod_chunk_def co l t(1) p'_def using assms(3) by simp
  moreover have "chunk_at p' = (chunk_at p)(c \<mapsto> m')"
  proof
    fix d
    have "d = c \<longleftrightarrow> d div 2 ^ 13 = c div 2 ^ 13 \<and> d mod 2 ^ 13 = c mod 2 ^ 13" by (metis div_mult_mod_eq)
    then show "chunk_at p' d = ((chunk_at p)(c \<mapsto> m')) d"
      using t(1) by (auto simp: chunk_at_def p'_def)
  qed
  moreover have "p' = p\<lparr>chunks := chunks p'\<rparr>" by (simp add: p'_def)
  ultimately show ?thesis by blast
qed

text \<open>An operation on one chunk: new bitmaps, and the counter moved to match.\<close>

lemma eff_one:
  assumes h: "has p c (B, V)"
    and f: "\<And>m. pageBits_ok (pallocBits m) \<Longrightarrow> pageBits_ok (scavenged m) \<Longrightarrow> pages (pallocBits m) = B \<Longrightarrow> pages (scavenged m) = V \<Longrightarrow>
      \<exists>m'. f m = Some m' \<and> pageBits_ok (pallocBits m') \<and> pageBits_ok (scavenged m') \<and>
        pages (pallocBits m') = B' \<and> pages (scavenged m') = V'"
    and g: "\<And>s. cnt s c = Some (card B) \<Longrightarrow> \<exists>s'. g s = Some s' \<and> cnt s' = (cnt s)(c \<mapsto> card B')"
  shows "\<exists>p1 p2. mod_chunk (of_nat c) f p = Some p1 \<and> mod_scav g p1 = Some p2 \<and>
    eff (\<lambda>d x. if d = c then (B', V') else x) p p2"
proof -
  obtain m where m: "chunk_at p c = Some m" "pageBits_ok (pallocBits m)" "pageBits_ok (scavenged m)"
      "pages (pallocBits m) = B" "pages (scavenged m) = V" "cnt (scav_index p) c = Some (card B)"
    using h by (auto simp: has_def)
  have c: "c < 2 ^ 26" using h by (rule has_less)
  obtain m' where m': "f m = Some m'" "pageBits_ok (pallocBits m')" "pageBits_ok (scavenged m')"
      "pages (pallocBits m') = B'" "pages (scavenged m') = V'"
    using f [OF m(2-5)] by blast
  obtain p1 where p1: "mod_chunk (of_nat c) f p = Some p1" "chunk_at p1 = (chunk_at p)(c \<mapsto> m')" "p1 = p\<lparr>chunks := chunks p1\<rparr>"
    using mod_chunk_at [where f = f, OF m(1) c m'(1)] by blast
  have s1: "scav_index p1 = scav_index p" using arg_cong [OF p1(3), of scav_index] by simp
  obtain s' where s': "g (scav_index p1) = Some s'" "cnt s' = (cnt (scav_index p))(c \<mapsto> card B')"
    using g [of "scav_index p1"] m(6) s1 by auto
  define p2 where "p2 = p1\<lparr>scav_index := s'\<rparr>"
  have a2: "chunk_at p2 = (chunk_at p)(c \<mapsto> m')" "scav_index p2 = s'"
    using p1(2) by (simp_all add: p2_def chunk_at_def [abs_def])
  have "p2 = p\<lparr>chunks := chunks p2, scav_index := scav_index p2\<rparr>"
    unfolding p2_def by (subst p1(3)) simp
  then have "eff (\<lambda>d x. if d = c then (B', V') else x) p p2"
    unfolding eff_def same_rest_def using m'(2-5) s'(2) a2 by (auto simp: has_def)
  then show ?thesis using p1(1) s'(1) by (intro exI [of _ p1] exI [of _ p2]) (simp add: mod_scav_def p2_def)
qed

subsection \<open>Ranges of pages\<close>

definition slice :: "nat set \<Rightarrow> nat \<Rightarrow> nat set" where
  "slice R c = {k. k < 512 \<and> c * 512 + k \<in> R}"

definition alloc_view :: "nat set \<Rightarrow> nat \<Rightarrow> chunk_view \<Rightarrow> chunk_view" where
  "alloc_view R c = (\<lambda>(B, V). (B \<union> slice R c, V - slice R c))"

definition free_view :: "nat set \<Rightarrow> nat \<Rightarrow> chunk_view \<Rightarrow> chunk_view" where
  "free_view R c = (\<lambda>(B, V). (B - slice R c, V))"

lemma finite_slice [simp]: "finite (slice R c)"
  by (rule finite_subset [of _ "{..<512}"]) (auto simp: slice_def)

lemma card_pages_range: "card (page_range i n) = unat n"
  by simp

lemma has_finite: "has p c (B, V) \<Longrightarrow> finite B \<and> finite V \<and> card B \<le> 512"
  using has_subset [of p c B V] card_mono [of "{..<512}" B] finite_subset [of B "{..<512}"] finite_subset [of V "{..<512}"] by auto

lemma alloc_in_chunk_ok:
  assumes h: "has p c (B, V)" and i: "in_chunk i n" and d: "B \<inter> page_range i n = {}"
  shows "\<exists>p'. alloc_in_chunk (of_nat c) i n (p, scav) = Some (p', scav + of_nat (card (V \<inter> page_range i n))) \<and>
    eff (\<lambda>d x. if d = c then (B \<union> page_range i n, V - page_range i n) else x) p p'"
proof -
  obtain m where m: "chunk_at p c = Some m" "pageBits_ok (scavenged m)" "pages (scavenged m) = V" using h by (auto simp: has_def)
  have "finite B" using has_finite [OF h] by simp
  then have "card (B \<union> page_range i n) = card B + card (page_range i n)" by (rule card_Un_disjoint) (use d in simp_all)
  then have card: "card (B \<union> page_range i n) = card B + unat n" by simp
  have "card (B \<union> page_range i n) \<le> card {..<512 :: nat}" by (rule card_mono) (use has_subset [OF h] i in auto)
  then have le: "card B + unat n \<le> 512" using card by simp
  obtain p1 p2 where p: "mod_chunk (of_nat c) (\<lambda>m. pallocData_allocRange m i n) p = Some p1"
      "mod_scav (\<lambda>s. si_alloc s (of_nat c) n) p1 = Some p2"
      "eff (\<lambda>d x. if d = c then (B \<union> page_range i n, V - page_range i n) else x) p p2"
  proof (rule exE [OF eff_one [OF h, of "\<lambda>m. pallocData_allocRange m i n" "B \<union> page_range i n" "V - page_range i n"
          "\<lambda>s. si_alloc s (of_nat c) n"]])
    fix m :: pallocData assume m: "pageBits_ok (pallocBits m)" "pageBits_ok (scavenged m)" "pages (pallocBits m) = B" "pages (scavenged m) = V"
    obtain b where "allocRange (pallocBits m) i n = Some b" "pageBits_ok b" "pages b = B \<union> page_range i n"
      using setRange_pages [OF m(1) i] m(3) by (auto simp: allocRange_def)
    moreover obtain v where "clearRange (scavenged m) i n = Some v" "pageBits_ok v" "pages v = V - page_range i n"
      using clearRange_pages [OF m(2) i] m(4) by auto
    ultimately show "\<exists>m'. pallocData_allocRange m i n = Some m' \<and> pageBits_ok (pallocBits m') \<and> pageBits_ok (scavenged m') \<and>
        pages (pallocBits m') = B \<union> page_range i n \<and> pages (scavenged m') = V - page_range i n"
      by (simp add: pallocData_allocRange_def)
  next
    fix s assume "cnt s c = Some (card B)"
    then show "\<exists>s'. si_alloc s (of_nat c) n = Some s' \<and> cnt s' = (cnt s)(c \<mapsto> card (B \<union> page_range i n))"
      unfolding card using le by (rule si_alloc_cnt)
  qed blast
  have "chunkOf p (of_nat c) = Some m" using m(1) has_less [OF h] chunkOf_at [of "of_nat c" p] by simp
  then show ?thesis using p popcntRange_pages [OF m(2) i] m(3) by (simp add: alloc_in_chunk_def)
qed

lemma free_in_chunk_eff:
  assumes h: "has p c (B, V)" and d: "page_range i n \<subseteq> B"
    and f: "\<And>b. pageBits_ok b \<Longrightarrow> \<exists>b'. f b = Some b' \<and> pageBits_ok b' \<and> pages b' = pages b - page_range i n"
  shows "\<exists>p1 p2. mod_chunk (of_nat c) (\<lambda>m. do { b \<leftarrow> f (pallocBits m); Some (m\<lparr>pallocBits := b\<rparr>) }) p = Some p1 \<and>
    mod_scav (\<lambda>s. si_free s (of_nat c) i n) p1 = Some p2 \<and>
    eff (\<lambda>d x. if d = c then (B - page_range i n, V) else x) p p2"
proof (rule eff_one [OF h])
  fix m :: pallocData assume m: "pageBits_ok (pallocBits m)" "pageBits_ok (scavenged m)" "pages (pallocBits m) = B" "pages (scavenged m) = V"
  obtain b where "f (pallocBits m) = Some b" "pageBits_ok b" "pages b = B - page_range i n"
    using f [OF m(1)] m(3) by auto
  then show "\<exists>m'. do { b \<leftarrow> f (pallocBits m); Some (m\<lparr>pallocBits := b\<rparr>) } = Some m' \<and> pageBits_ok (pallocBits m') \<and>
      pageBits_ok (scavenged m') \<and> pages (pallocBits m') = B - page_range i n \<and> pages (scavenged m') = V"
    using m by simp
next
  have fin: "finite B" using has_finite [OF h] by simp
  have "card (B - page_range i n) = card B - card (page_range i n)" by (rule card_Diff_subset) (use d in auto)
  then have card: "card (B - page_range i n) = card B - unat n" by simp
  have le: "unat n \<le> card B" using card_mono [OF fin d] by simp
  fix s assume "cnt s c = Some (card B)"
  then show "\<exists>s'. si_free s (of_nat c) i n = Some s' \<and> cnt s' = (cnt s)(c \<mapsto> card (B - page_range i n))"
    unfolding card using le by (rule si_free_cnt)
qed

lemma free_in_chunk_ok:
  assumes "has p c (B, V)" "page_range i n \<subseteq> B" "in_chunk i n"
  shows "\<exists>p'. free_in_chunk (of_nat c) i n p = Some p' \<and> eff (\<lambda>d x. if d = c then (B - page_range i n, V) else x) p p'"
  using free_in_chunk_eff [OF assms(1,2), of "\<lambda>b. free b i n"] clearRange_pages [OF _ assms(3)]
  by (auto simp: free_in_chunk_def free_def)

lemma page_range_whole: "{0 ..< unat pallocChunkPages} = {..<512}"
  by (auto simp: page_consts)

lemma in_chunk_whole: "in_chunk 0 pallocChunkPages"
  by (simp add: page_consts)

lemma alloc_whole_chunks_ok:
  assumes "\<forall>c\<in>set cs. \<exists>V. has p c ({}, V)" "distinct cs"
  shows "\<exists>p' V. alloc_whole_chunks cs (p, scav) = Some (p', scav + of_nat (\<Sum>c\<leftarrow>cs. card (V c))) \<and>
    (\<forall>c\<in>set cs. has p c ({}, V c)) \<and> eff (\<lambda>d x. if d \<in> set cs then ({..<512}, {}) else x) p p'"
  using assms
proof (induction cs arbitrary: p scav)
  case Nil
  then show ?case using eff_id by (intro exI [of _ p]) simp
next
  case (Cons c cs)
  obtain V0 where h: "has p c ({}, V0)" using Cons.prems(1) by auto
  obtain m where m: "chunk_at p c = Some m" "pageBits_ok (scavenged m)" "pages (scavenged m) = V0" using h by (auto simp: has_def)
  obtain p1 p2 where p: "mod_chunk (of_nat c) (\<lambda>m. Some (pallocData_allocAll m)) p = Some p1"
      "mod_scav (\<lambda>s. si_alloc s (of_nat c) pallocChunkPages) p1 = Some p2"
      "eff (\<lambda>d x. if d = c then ({..<512}, {}) else x) p p2"
  proof (rule exE [OF eff_one [OF h, of "\<lambda>m. Some (pallocData_allocAll m)" "{..<512}" "{}"
          "\<lambda>s. si_alloc s (of_nat c) pallocChunkPages"]])
    fix m :: pallocData assume m: "pageBits_ok (pallocBits m)" "pageBits_ok (scavenged m)"
    then show "\<exists>m'. Some (pallocData_allocAll m) = Some m' \<and> pageBits_ok (pallocBits m') \<and> pageBits_ok (scavenged m') \<and>
        pages (pallocBits m') = {..<512} \<and> pages (scavenged m') = {}"
      using setAll_pages clearAll_pages by (simp add: pallocData_allocAll_def allocAll_def)
  next
    fix s assume "cnt s c = Some (card ({} :: nat set))"
    then show "\<exists>s'. si_alloc s (of_nat c) pallocChunkPages = Some s' \<and> cnt s' = (cnt s)(c \<mapsto> card {..<512 :: nat})"
      using si_alloc_cnt [of s c 0 pallocChunkPages] by (simp add: page_consts)
  qed blast
  have co: "chunkOf p (of_nat c) = Some m" using m(1) has_less [OF h] chunkOf_at [of "of_nat c" p] by simp
  have V0: "V0 \<inter> page_range 0 pallocChunkPages = V0" using has_subset [OF h] by (auto simp: page_consts)
  have k: "popcntRange (scavenged m) 0 pallocChunkPages = Some (of_nat (card V0))"
    using popcntRange_pages [OF m(2) in_chunk_whole] m(3) V0 by simp
  have step: "alloc_whole_chunks (c # cs) (p, scav) = alloc_whole_chunks cs (p2, scav + of_nat (card V0))"
    using co k p(1,2) by simp
  have keep: "has p2 d x" if "has p d x" "d \<noteq> c" for d x using effD [OF p(3) that(1)] that(2) by simp
  have "\<forall>d\<in>set cs. \<exists>V. has p2 d ({}, V)" using Cons.prems keep by (metis distinct.simps(2) list.set_intros(2))
  then obtain p3 V where q: "alloc_whole_chunks cs (p2, scav + of_nat (card V0)) =
        Some (p3, scav + of_nat (card V0) + of_nat (\<Sum>c\<leftarrow>cs. card (V c)))"
      "\<forall>d\<in>set cs. has p2 d ({}, V d)" "eff (\<lambda>d x. if d \<in> set cs then ({..<512}, {}) else x) p2 p3"
    using Cons.IH [of p2 "scav + of_nat (card V0)"] Cons.prems(2) by auto
  define V' where "V' = V(c := V0)"
  have V': "has p d ({}, V' d)" if "d \<in> set (c # cs)" for d
  proof (cases "d = c")
    case False
    then have "d \<in> set cs" using that by simp
    then obtain W where "has p d ({}, W)" using Cons.prems(1) by auto
    then have "W = V d" using keep [of d "({}, W)"] q(2) \<open>d \<in> set cs\<close> has_unique False by blast
    then show ?thesis using \<open>has p d ({}, W)\<close> False by (simp add: V'_def)
  qed (use h in \<open>simp add: V'_def\<close>)
  have "(\<Sum>c\<leftarrow>c # cs. card (V' c)) = card V0 + (\<Sum>c\<leftarrow>cs. card (V c))"
    using Cons.prems(2) by (auto simp: V'_def intro!: arg_cong [where f = sum_list])
  then have s: "scav + of_nat (card V0) + of_nat (\<Sum>c\<leftarrow>cs. card (V c)) = scav + of_nat (\<Sum>c\<leftarrow>c # cs. card (V' c))" by simp
  have "eff (\<lambda>d x. if d \<in> set (c # cs) then ({..<512}, {}) else x) p p3"
    by (rule eff_cong [OF eff_comp [OF p(3) q(3)]]) auto
  then show ?case unfolding step q(1) s using V' by blast
qed

lemma free_whole_chunks_ok:
  assumes "\<forall>c\<in>set cs. \<exists>V. has p c ({..<512}, V)" "distinct cs"
  shows "\<exists>p'. free_whole_chunks cs p = Some p' \<and> eff (\<lambda>d x. if d \<in> set cs then ({}, snd x) else x) p p'"
  using assms
proof (induction cs arbitrary: p)
  case Nil
  then show ?case using eff_id by simp
next
  case (Cons c cs)
  obtain V0 where h: "has p c ({..<512}, V0)" using Cons.prems(1) by auto
  have s: "page_range 0 pallocChunkPages \<subseteq> {..<512}" by (auto simp: page_consts)
  have f: "\<exists>b'. Some (freeAll b) = Some b' \<and> pageBits_ok b' \<and> pages b' = pages b - page_range 0 pallocChunkPages"
    if "pageBits_ok b" for b
    using clearAll_pages [OF that] pages_subset [of b] by (auto simp: freeAll_def page_consts)
  obtain p1 p2 where p: "mod_chunk (of_nat c) (\<lambda>m. Some (m\<lparr>pallocBits := freeAll (pallocBits m)\<rparr>)) p = Some p1"
      "mod_scav (\<lambda>s. si_free s (of_nat c) 0 pallocChunkPages) p1 = Some p2"
      "eff (\<lambda>d x. if d = c then ({}, V0) else x) p p2"
    using free_in_chunk_eff [OF h s f] by (auto simp: page_range_whole)
  have step: "free_whole_chunks (c # cs) p = free_whole_chunks cs p2" using p(1,2) by simp
  have "has p2 d x" if "has p d x" "d \<noteq> c" for d x using effD [OF p(3) that(1)] that(2) by simp
  then have "\<forall>d\<in>set cs. \<exists>V. has p2 d ({..<512}, V)" using Cons.prems by (metis distinct.simps(2) list.set_intros(2))
  then obtain p3 where q: "free_whole_chunks cs p2 = Some p3" "eff (\<lambda>d x. if d \<in> set cs then ({}, snd x) else x) p2 p3"
    using Cons.IH [of p2] Cons.prems(2) by auto
  have "eff (\<lambda>d x. if d \<in> set (c # cs) then ({}, snd x) else x) p p3"
    by (rule eff_cong [OF eff_comp [OF p(3) q(2)]]) (use has_unique [OF h] in auto)
  then show ?case unfolding step using q(1) by blast
qed

subsection \<open>The invariant\<close>

definition view :: "pageAlloc \<Rightarrow> nat \<Rightarrow> chunk_view" where
  "view p c = (THE x. has p c x)"

lemma view_eq: "has p c x \<Longrightarrow> view p c = x"
  unfolding view_def using has_unique by blast

definition chunk_set :: "pageAlloc \<Rightarrow> nat set" where
  "chunk_set p = {c. c * 2 ^ 22 \<in> addrs (ranges (inUse p))}"

definition page_free :: "pageAlloc \<Rightarrow> nat \<Rightarrow> bool" where
  "page_free p n \<longleftrightarrow> n div 512 \<in> chunk_set p \<and> n mod 512 \<notin> fst (view p (n div 512))"

definition page_used :: "pageAlloc \<Rightarrow> nat \<Rightarrow> bool" where
  "page_used p n \<longleftrightarrow> n div 512 \<in> chunk_set p \<and> n mod 512 \<in> fst (view p (n div 512))"

definition page_scav :: "pageAlloc \<Rightarrow> nat \<Rightarrow> bool" where
  "page_scav p n \<longleftrightarrow> n div 512 \<in> chunk_set p \<and> n mod 512 \<in> snd (view p (n div 512))"

definition chunk_ok :: "pageAlloc \<Rightarrow> nat \<Rightarrow> bool" where
  "chunk_ok p c \<longleftrightarrow> has p c (view p c) \<and> c < unat (pa_end p) \<and> (\<forall>l<5. c * 512 div 2 ^ lp l < sum_len p l)"

definition aligned_ranges :: "addrRange list \<Rightarrow> bool" where
  "aligned_ranges rs \<longleftrightarrow> (\<forall>r\<in>set rs. 2 ^ 22 dvd off (r_base r) \<and> 2 ^ 22 dvd off (r_limit r))"

text \<open>The ranges in use are made of whole chunks, without that of address 0; every chunk in use has its bitmaps, its
  counter and its summaries; the tree describes the free pages, and none of them is below \<open>searchAddr\<close>.\<close>

definition pa_ok :: "pageAlloc \<Rightarrow> bool" where
  "pa_ok p \<longleftrightarrow> addrRanges_ok (inUse p) \<and> aligned_ranges (ranges (inUse p)) \<and> 2 ^ 25 \<notin> chunk_set p \<and> (\<forall>c\<in>chunk_set p. chunk_ok p c) \<and>
     unat (pa_end p) \<le> sum_len p 4 \<and> unat (pa_end p) \<le> 2 ^ 26 \<and>
     tree_ok (summary p) (page_free p) \<and>
     page_of (searchAddr p) < 2 ^ 35 \<and> (\<forall>n. page_free p n \<longrightarrow> page_of (searchAddr p) \<le> n)"

lemma slice_mod: "k mod 512 \<in> slice R (k div 512) \<longleftrightarrow> k \<in> R"
  by (simp add: slice_def)

lemma slice_empty: "(\<And>k. k div 512 = c \<Longrightarrow> k \<notin> R) \<Longrightarrow> slice R c = {}"
  by (auto simp: slice_def)

lemma same_rest_chunk_set: "same_rest p p' \<Longrightarrow> chunk_set p' = chunk_set p"
  by (simp add: chunk_set_def same_restD)

lemma pa_ok_has: "pa_ok p \<Longrightarrow> c \<in> chunk_set p \<Longrightarrow> has p c (view p c)"
  by (simp add: pa_ok_def chunk_ok_def)

lemma eff_view: "eff h p p' \<Longrightarrow> has p c (view p c) \<Longrightarrow> view p' c = h c (view p c)"
  using effD view_eq by blast

text \<open>Changing the other fields leaves the chunks alone.\<close>

lemma has_fields [simp]:
  "has (p\<lparr>summary := S\<rparr>) = has p" "has (p\<lparr>searchAddr := a\<rparr>) = has p"
  by (simp_all add: has_def chunk_at_def fun_eq_iff)

lemma view_fields [simp]:
  "view (p\<lparr>summary := S\<rparr>) = view p" "view (p\<lparr>searchAddr := a\<rparr>) = view p"
  by (simp_all add: view_def fun_eq_iff)

lemma chunk_set_fields [simp]:
  "chunk_set (p\<lparr>summary := S\<rparr>) = chunk_set p" "chunk_set (p\<lparr>searchAddr := a\<rparr>) = chunk_set p"
  by (simp_all add: chunk_set_def)

lemma page_free_fields [simp]:
  "page_free (p\<lparr>summary := S\<rparr>) = page_free p" "page_free (p\<lparr>searchAddr := a\<rparr>) = page_free p"
  by (simp_all add: page_free_def fun_eq_iff)

lemma page_scav_fields [simp]:
  "page_scav (p\<lparr>summary := S\<rparr>) = page_scav p" "page_scav (p\<lparr>searchAddr := a\<rparr>) = page_scav p"
  by (simp_all add: page_scav_def fun_eq_iff)

text \<open>A changed set of chunk views with a fresh tree is again a good state.\<close>

lemma chunk_div: "(k :: nat) div 512 * 512 div 2 ^ lp l = k div 2 ^ lp l"
proof -
  have "9 + (lp l - 9) = lp l" using lp_bounds(1) [of l] by simp
  then have "(2 :: nat) ^ lp l = 2 ^ 9 * 2 ^ (lp l - 9)" by (metis power_add)
  then have e: "(2 :: nat) ^ lp l = 512 * 2 ^ (lp l - 9)" by simp
  show ?thesis unfolding e by (simp add: div_mult2_eq)
qed

lemma pa_ok_chunk_shows:
  assumes "has p c (B, V)" "c \<in> chunk_set p"
  shows "shows_state p (page_free p) c"
proof -
  obtain m where m: "chunk_at p c = Some m" "pageBits_ok (pallocBits m)" "pages (pallocBits m) = B" using assms(1) by (auto simp: has_def)
  have "free_list (pallocBits m) = region (page_free p) 4 c"
  proof (rule nth_equalityI)
    show l: "length (free_list (pallocBits m)) = length (region (page_free p) 4 c)" using m(2) by (simp add: pageBits_ok_length)
    fix k assume "k < length (free_list (pallocBits m))"
    then have k: "k < 512" using m(2) by (simp add: pageBits_ok_length)
    then have "page_free p (c * 512 + k) \<longleftrightarrow> k \<notin> B" using assms by (simp add: page_free_def view_eq)
    then show "free_list (pallocBits m) ! k = region (page_free p) 4 c ! k"
      using k m by (simp add: free_list_pages nth_region)
  qed
  then show ?thesis using m unfolding shows_state_def by blast
qed

text \<open>\<open>update\<close> may run on a state \<open>q\<close> that has the bitmaps already but not yet the counters of \<open>p1\<close>.\<close>

lemma eff_update:
  assumes ok: "pa_ok p" and e: "eff h p p1" and r: "is_range base npages b n"
    and inu: "\<forall>c. b div 512 \<le> c \<and> c \<le> (b + n - 1) div 512 \<longrightarrow> c \<in> chunk_set p"
    and out: "\<forall>k. k < b \<or> b + n \<le> k \<longrightarrow> page_free p1 k = page_free p k"
    and contig: "contig \<longrightarrow> (\<forall>c. b div 512 < c \<and> c < (b + n - 1) div 512 \<longrightarrow> region (page_free p1) 4 c = replicate 512 (\<not> alloc))"
    and sa: "page_of a < 2 ^ 35" "\<forall>k. page_free p1 k \<longrightarrow> page_of a \<le> k"
    and q: "chunks q = chunks p1" "sum_len q = sum_len p1" "summary q = summary p1"
  shows "\<exists>S. update q base npages contig alloc = Some (q\<lparr>summary := S\<rparr>) \<and> pa_ok (p1\<lparr>searchAddr := a, summary := S\<rparr>)"
proof -
  have s: "same_rest p p1" using e by (simp add: eff_def)
  note rest = same_restD [OF s] and cs = same_rest_chunk_set [OF s]
  have h1: "has p1 c (view p1 c)" if "c \<in> chunk_set p" for c
    using effD [OF e pa_ok_has [OF ok that]] view_eq by metis
  have len: "\<forall>l<5. (b + n - 1) div 2 ^ lp l < sum_len q l"
  proof (intro allI impI)
    fix l :: nat assume l: "l < 5"
    have "b div 512 \<le> (b + n - 1) div 512" using r by (intro div_le_mono) (auto simp: is_range_def)
    then have "(b + n - 1) div 512 \<in> chunk_set p" using inu by blast
    then have "(b + n - 1) div 512 * 512 div 2 ^ lp l < sum_len p l" using ok l by (simp add: pa_ok_def chunk_ok_def)
    then show "(b + n - 1) div 2 ^ lp l < sum_len q l" by (simp only: chunk_div q rest)
  qed
  have "\<forall>c. b div 512 \<le> c \<and> c \<le> (b + n - 1) div 512 \<longrightarrow> shows_state q (page_free p1) c"
  proof (intro allI impI)
    fix c assume "b div 512 \<le> c \<and> c \<le> (b + n - 1) div 512"
    then have "c \<in> chunk_set p" using inu by blast
    then have "shows_state p1 (page_free p1) c"
      using h1 [of c] cs by (intro pa_ok_chunk_shows [of p1 c "fst (view p1 c)" "snd (view p1 c)"]) simp_all
    then show "shows_state q (page_free p1) c" by (simp add: shows_state_def chunk_at_def q)
  qed
  moreover have "tree_ok (summary q) (page_free p)" using ok q(3) rest by (simp add: pa_ok_def)
  ultimately obtain S where S: "update q base npages contig alloc = Some (q\<lparr>summary := S\<rparr>)" "tree_ok S (page_free p1)"
    using update_ok [OF r len _ _ _ contig, of "page_free p"] out by blast
  have "pa_ok (p1\<lparr>searchAddr := a, summary := S\<rparr>)"
    unfolding pa_ok_def chunk_ok_def
    using ok S(2) rest h1 sa cs by (simp add: pa_ok_def chunk_ok_def)
  then show ?thesis using S(1) by blast
qed

lemma eff_update_ok:
  assumes "pa_ok p" "eff h p p1" "is_range base npages b n"
    "\<forall>c. b div 512 \<le> c \<and> c \<le> (b + n - 1) div 512 \<longrightarrow> c \<in> chunk_set p"
    "\<forall>k. k < b \<or> b + n \<le> k \<longrightarrow> page_free p1 k = page_free p k"
    "contig \<longrightarrow> (\<forall>c. b div 512 < c \<and> c < (b + n - 1) div 512 \<longrightarrow> region (page_free p1) 4 c = replicate 512 (\<not> alloc))"
    "page_of a < 2 ^ 35" "\<forall>k. page_free p1 k \<longrightarrow> page_of a \<le> k"
  shows "\<exists>S. update (p1\<lparr>searchAddr := a\<rparr>) base npages contig alloc = Some (p1\<lparr>searchAddr := a, summary := S\<rparr>) \<and>
    pa_ok (p1\<lparr>searchAddr := a, summary := S\<rparr>)"
  using eff_update [OF assms, of "p1\<lparr>searchAddr := a\<rparr>"] by simp

subsection \<open>Ranges, chunk by chunk\<close>

lemma slice_range:
  fixes b n c :: nat
  assumes n: "0 < n"
  defines "sc \<equiv> b div 512" and "ec \<equiv> (b + n - 1) div 512"
  shows "sc \<le> ec" "c < sc \<or> ec < c \<Longrightarrow> slice {b ..< b + n} c = {}"
    "sc = ec \<Longrightarrow> slice {b ..< b + n} sc = {b mod 512 ..< b mod 512 + n}" "sc = ec \<Longrightarrow> b mod 512 + n \<le> 512"
    "sc < ec \<Longrightarrow> slice {b ..< b + n} sc = {b mod 512 ..< 512}"
    "sc < c \<Longrightarrow> c < ec \<Longrightarrow> slice {b ..< b + n} c = {..<512}"
    "sc < ec \<Longrightarrow> slice {b ..< b + n} ec = {..< (b + n - 1) mod 512 + 1}"
    "sc = ec \<Longrightarrow> (b + n - 1) mod 512 + 1 = b mod 512 + n"
proof -
  have b: "b = sc * 512 + b mod 512" by (simp add: sc_def)
  have e: "b + n - 1 = ec * 512 + (b + n - 1) mod 512" by (simp add: ec_def)
  have m: "b mod 512 < 512" "(b + n - 1) mod 512 < 512" by simp_all
  show le: "sc \<le> ec" unfolding sc_def ec_def by (rule div_le_mono) (use n in simp)
  have mono: "x + 1 \<le> y \<Longrightarrow> x * 512 + 512 \<le> y * 512" for x y :: nat by simp
  show "slice {b ..< b + n} c = {}" if "c < sc \<or> ec < c"
  proof -
    have "c * 512 + 512 \<le> sc * 512 \<or> ec * 512 + 512 \<le> c * 512" using that mono [of c sc] mono [of ec c] by auto
    then have "c * 512 + k \<notin> {b ..< b + n}" if "k < 512" for k
      using b e m that n by (auto simp del: mod_less_divisor)
    then show ?thesis by (auto simp: slice_def)
  qed
  show "slice {b ..< b + n} sc = {b mod 512 ..< b mod 512 + n}" and "b mod 512 + n \<le> 512"
    and "(b + n - 1) mod 512 + 1 = b mod 512 + n" if eq: "sc = ec"
  proof -
    have n2: "n - 1 = (b + n - 1) mod 512 - b mod 512" "b mod 512 \<le> (b + n - 1) mod 512" using b e eq n by linarith+
    then show l: "b mod 512 + n \<le> 512" using m n by linarith
    show "(b + n - 1) mod 512 + 1 = b mod 512 + n" using n2 n by linarith
    have "k < 512 \<and> sc * 512 + k \<in> {b ..< b + n} \<longleftrightarrow> k \<in> {b mod 512 ..< b mod 512 + n}" for k
      using b l by (simp; linarith)
    then show "slice {b ..< b + n} sc = {b mod 512 ..< b mod 512 + n}" unfolding slice_def by blast
  qed
  show "slice {b ..< b + n} sc = {b mod 512 ..< 512}" if lt: "sc < ec"
  proof -
    have "sc * 512 + 512 \<le> b + n - 1" using mono [of sc ec] lt e by linarith
    then have "k < 512 \<and> sc * 512 + k \<in> {b ..< b + n} \<longleftrightarrow> k \<in> {b mod 512 ..< 512}" for k
      using b n by (simp; linarith)
    then show ?thesis unfolding slice_def by blast
  qed
  show "slice {b ..< b + n} c = {..<512}" if c: "sc < c" "c < ec"
  proof -
    have "sc * 512 + 512 \<le> c * 512" "c * 512 + 512 \<le> ec * 512" using mono [of sc c] mono [of c ec] c by linarith+
    then have "k < 512 \<and> c * 512 + k \<in> {b ..< b + n} \<longleftrightarrow> k \<in> {..<512}" for k
      using b e m n by (simp; linarith)
    then show ?thesis unfolding slice_def by blast
  qed
  show "slice {b ..< b + n} ec = {..< (b + n - 1) mod 512 + 1}" if lt: "sc < ec"
  proof -
    have "sc * 512 + 512 \<le> ec * 512" using mono [of sc ec] lt by linarith
    then have "k < 512 \<and> ec * 512 + k \<in> {b ..< b + n} \<longleftrightarrow> k \<in> {..< (b + n - 1) mod 512 + 1}" for k
      using b e m n by (simp; linarith)
    then show ?thesis unfolding slice_def by blast
  qed
qed

subsection \<open>Allocating a range\<close>

lemma range_chunks:
  fixes b n c :: nat
  assumes "0 < n" "b div 512 \<le> c" "c \<le> (b + n - 1) div 512"
  shows "\<exists>k\<in>{b ..< b + n}. k div 512 = c"
proof (cases "c = b div 512")
  case True
  then show ?thesis using assms(1) by (intro bexI [of _ b]) simp_all
next
  case False
  then have "b div 512 < c" using assms(2) by simp
  then have "b < c * 512" by (simp add: div_less_iff_less_mult)
  moreover have "c * 512 \<le> b + n - 1" using assms(3) by (simp add: less_eq_div_iff_mult_less_eq)
  ultimately show ?thesis using assms(1) by (intro bexI [of _ "c * 512"]) auto
qed

lemma card_scav:
  assumes "\<forall>c. b div 512 \<le> c \<and> c \<le> (b + n - 1) div 512 \<longrightarrow> c \<in> chunk_set p" "0 < n"
  shows "card {k \<in> {b ..< b + n}. page_scav p k} =
    (\<Sum>c\<in>{b div 512 .. (b + n - 1) div 512}. card (snd (view p c) \<inter> slice {b ..< b + n} c))"
proof -
  let ?I = "{b div 512 .. (b + n - 1) div 512}"
  let ?A = "\<lambda>c. (\<lambda>k. c * 512 + k) ` (snd (view p c) \<inter> slice {b ..< b + n} c)"
  have "{k \<in> {b ..< b + n}. page_scav p k} = (\<Union>c\<in>?I. ?A c)"
  proof (intro set_eqI iffI)
    fix k assume k: "k \<in> {k \<in> {b ..< b + n}. page_scav p k}"
    have "b div 512 \<le> k div 512" by (rule div_le_mono) (use k in simp)
    moreover have "k div 512 \<le> (b + n - 1) div 512" by (rule div_le_mono) (use k in auto)
    moreover have "k mod 512 \<in> snd (view p (k div 512)) \<inter> slice {b ..< b + n} (k div 512)"
      using k by (simp add: page_scav_def slice_def)
    then have "k \<in> ?A (k div 512)" by (rule rev_image_eqI) simp
    ultimately show "k \<in> (\<Union>c\<in>?I. ?A c)" by auto
  next
    fix k assume "k \<in> (\<Union>c\<in>?I. ?A c)"
    then obtain c r where c: "c \<in> ?I" "k = c * 512 + r" "r \<in> snd (view p c)" "r < 512" "c * 512 + r \<in> {b ..< b + n}"
      by (auto simp: slice_def)
    then show "k \<in> {k \<in> {b ..< b + n}. page_scav p k}" using assms(1) by (simp add: page_scav_def)
  qed
  moreover have "card (\<Union>c\<in>?I. ?A c) = (\<Sum>c\<in>?I. card (?A c))"
  proof (rule card_UN_disjoint)
    show "\<forall>i\<in>?I. \<forall>j\<in>?I. i \<noteq> j \<longrightarrow> ?A i \<inter> ?A j = {}"
    proof (intro ballI impI equals0I)
      fix i j x assume "i \<noteq> j" and x: "x \<in> ?A i \<inter> ?A j"
      have d: "x \<in> ?A c \<Longrightarrow> x div 512 = c" for c by (auto simp: slice_def)
      have "x div 512 = i" by (rule d) (rule IntD1 [OF x])
      moreover have "x div 512 = j" by (rule d) (rule IntD2 [OF x])
      ultimately show False using \<open>i \<noteq> j\<close> by simp
    qed
  qed simp_all
  moreover have "card (?A c) = card (snd (view p c) \<inter> slice {b ..< b + n} c)" for c
    by (rule card_image) (auto simp: inj_on_def)
  ultimately show ?thesis by simp
qed

lemma sum_ends: "sc < (ec :: nat) \<Longrightarrow> (\<Sum>c\<in>{sc .. ec}. f c) = f sc + (\<Sum>c\<leftarrow>[sc + 1 ..< ec]. f c) + (f ec :: nat)"
proof -
  assume lt: "sc < ec"
  have "{sc .. ec} = insert sc (insert ec {sc + 1 ..< ec})" using lt by auto
  then show ?thesis using lt by (simp add: sum_list_distinct_conv_sum_set)
qed

lemma pa_allocRange_chunks:
  assumes ok: "pa_ok p" and r: "is_range base npages b n" and free: "\<forall>k\<in>{b ..< b + n}. page_free p k"
  defines "R \<equiv> {b ..< b + n}" and "limit \<equiv> base + npages * pageSize - 1"
  shows "\<exists>p1. (if chunkIndex base = chunkIndex limit
       then alloc_in_chunk (chunkIndex base) (chunkPageIndex base) (chunkPageIndex limit + 1 - chunkPageIndex base) (p, 0)
       else do {
         ps \<leftarrow> alloc_in_chunk (chunkIndex base) (chunkPageIndex base) (pallocChunkPages - chunkPageIndex base) (p, 0);
         ps \<leftarrow> alloc_whole_chunks [unat (chunkIndex base) + 1 ..< unat (chunkIndex limit)] ps;
         alloc_in_chunk (chunkIndex limit) 0 (chunkPageIndex limit + 1) ps
       }) = Some (p1, of_nat (card {k \<in> R. page_scav p k})) \<and> eff (alloc_view R) p p1"
proof -
  define sc where "sc = b div 512"
  define ec where "ec = (b + n - 1) div 512"
  have n: "0 < n" "b + n \<le> 2 ^ 35" using r by (simp_all add: is_range_def)
  note sl = slice_range [where b = b, OF n(1), folded sc_def ec_def R_def]
  have lim: "page_of limit = b + n - 1" "page_of base = b" using is_range_limit [OF r] by (simp_all add: limit_def)
  have ci: "unat (chunkIndex base) = sc" "unat (chunkIndex limit) = ec" "unat (chunkPageIndex base) = b mod 512"
      "unat (chunkPageIndex limit) = (b + n - 1) mod 512"
    by (simp_all add: unat_chunkIndex unat_chunkPageIndex lim sc_def ec_def)
  have ec26: "ec < 2 ^ 26" unfolding ec_def using n by (simp add: div_less_iff_less_mult)
  have ci2: "chunkIndex base = of_nat sc" "chunkIndex limit = of_nat ec" unfolding ci(1,2) [symmetric] by simp_all
  have us: "unat (of_nat sc :: uint64) = sc" "unat (of_nat ec :: uint64) = ec" unfolding ci2 [symmetric] ci by (rule refl)+
  have inset: "c \<in> chunk_set p" if "sc \<le> c" "c \<le> ec" for c
  proof -
    have "\<exists>k\<in>R. k div 512 = c" using range_chunks [OF n(1), of b c] that by (simp add: sc_def ec_def R_def)
    then show ?thesis using free by (auto simp: page_free_def R_def)
  qed
  have h: "has p c (fst (view p c), snd (view p c))" if "sc \<le> c" "c \<le> ec" for c using pa_ok_has [OF ok inset [OF that]] by simp
  have disj: "fst (view p c) \<inter> slice R c = {}" if "sc \<le> c" "c \<le> ec" for c
  proof (rule equals0I)
    fix k assume k: "k \<in> fst (view p c) \<inter> slice R c"
    then have "page_free p (c * 512 + k)" using free by (auto simp: slice_def R_def)
    then show False using k by (simp add: page_free_def slice_def)
  qed
  have count: "card {k \<in> R. page_scav p k} = (\<Sum>c\<in>{sc .. ec}. card (snd (view p c) \<inter> slice R c))"
    using card_scav [of b n p] inset n(1) by (simp add: sc_def ec_def R_def)
  show ?thesis
  proof (cases "sc = ec")
    case True
    then have e: "chunkIndex base = chunkIndex limit" by (simp add: ci2)
    have le: "b mod 512 \<le> (b + n - 1) mod 512 + 1" "(b + n - 1) mod 512 + 1 - b mod 512 = n"
      using sl(8) [OF True] n(1) by simp_all
    have "unat (chunkPageIndex limit + 1) = (b + n - 1) mod 512 + 1"
      using ci(4) by (subst unat_add_small) simp_all
    then have m: "unat (chunkPageIndex limit + 1 - chunkPageIndex base) = n" using ci(3) le by (subst unat_sub_small) simp_all
    have pr: "page_range (chunkPageIndex base) (chunkPageIndex limit + 1 - chunkPageIndex base) = slice R sc"
      unfolding m ci(3) sl(3) [OF True] ..
    have ic: "in_chunk (chunkPageIndex base) (chunkPageIndex limit + 1 - chunkPageIndex base)"
      using m n(1) ci(3) sl(4) [OF True] by (simp add: word_less_nat_alt)
    obtain p1 where p1: "alloc_in_chunk (of_nat sc) (chunkPageIndex base) (chunkPageIndex limit + 1 - chunkPageIndex base) (p, 0) =
          Some (p1, 0 + of_nat (card (snd (view p sc) \<inter> slice R sc)))"
        "eff (\<lambda>d x. if d = sc then (fst (view p sc) \<union> slice R sc, snd (view p sc) - slice R sc) else x) p p1"
      using alloc_in_chunk_ok [OF h [of sc] ic, of 0] disj [of sc] True unfolding pr by auto
    have "eff (alloc_view R) p p1"
    proof (rule eff_cong [OF p1(2)])
      fix c x assume "has p c x"
      then show "alloc_view R c x = (if c = sc then (fst (view p sc) \<union> slice R sc, snd (view p sc) - slice R sc) else x)"
        using sl(2) [of c] view_eq True by (cases "c = sc") (auto simp: alloc_view_def split_beta neq_iff)
    qed
    then show ?thesis using p1(1) e ci2 True count by (intro exI [of _ p1]) simp
  next
    case False
    then have lt: "sc < ec" using sl(1) by simp
    then have e: "chunkIndex base \<noteq> chunkIndex limit" using ci by auto
    have m: "unat (pallocChunkPages - chunkPageIndex base) = 512 - b mod 512"
      using ci(3) by (subst unat_sub_small) (simp_all add: page_consts less_imp_le)
    have b512: "b mod 512 < 512" by simp
    have pr: "page_range (chunkPageIndex base) (pallocChunkPages - chunkPageIndex base) = slice R sc"
      unfolding m ci(3) sl(5) [OF lt] using b512 by simp
    have ic: "in_chunk (chunkPageIndex base) (pallocChunkPages - chunkPageIndex base)"
      using m ci(3) b512 by (simp add: word_less_nat_alt)
    obtain p1 where p1: "alloc_in_chunk (of_nat sc) (chunkPageIndex base) (pallocChunkPages - chunkPageIndex base) (p, 0) =
          Some (p1, 0 + of_nat (card (snd (view p sc) \<inter> slice R sc)))"
        "eff (\<lambda>d x. if d = sc then (fst (view p sc) \<union> slice R sc, snd (view p sc) - slice R sc) else x) p p1"
      using alloc_in_chunk_ok [OF h [of sc] ic, of 0] disj [of sc] lt unfolding pr by auto
    have keep1: "has p1 c (view p c)" if "sc < c" "c \<le> ec" for c
      using effD [OF p1(2), of c "view p c"] h [of c] that by simp
    have mid: "has p1 c ({}, snd (view p c))" if "sc < c" "c < ec" for c
    proof -
      have "fst (view p c) \<subseteq> {..<512}" using has_subset [OF h [of c]] that by simp
      then have "fst (view p c) = {}" using disj [of c] sl(6) [OF that] that by auto
      then show ?thesis using keep1 [of c] that by (metis less_imp_le prod.collapse)
    qed
    have "\<forall>c\<in>set [sc + 1 ..< ec]. \<exists>V. has p1 c ({}, V)"
      by (intro ballI exI, rule mid) simp_all
    then obtain p2 V where p2: "alloc_whole_chunks [sc + 1 ..< ec] (p1, 0 + of_nat (card (snd (view p sc) \<inter> slice R sc))) =
          Some (p2, 0 + of_nat (card (snd (view p sc) \<inter> slice R sc)) + of_nat (\<Sum>c\<leftarrow>[sc + 1 ..< ec]. card (V c)))"
        "\<forall>c\<in>set [sc + 1 ..< ec]. has p1 c ({}, V c)" "eff (\<lambda>d x. if d \<in> set [sc + 1 ..< ec] then ({..<512}, {}) else x) p1 p2"
      using alloc_whole_chunks_ok [of "[sc + 1 ..< ec]" p1] distinct_upt by blast
    have V: "card (V c) = card (snd (view p c) \<inter> slice R c)" if "c \<in> set [sc + 1 ..< ec]" for c
    proof -
      have c: "sc < c" "c < ec" using that by auto
      have "V c = snd (view p c)" using has_unique [OF mid [OF c]] p2(2) that by fastforce
      moreover have "snd (view p c) \<subseteq> {..<512}" using has_subset [OF h [of c]] c by simp
      ultimately show ?thesis using sl(6) [OF c] by (simp add: Int_absorb2)
    qed
    have m2: "unat (chunkPageIndex limit + 1) = (b + n - 1) mod 512 + 1" using ci(4) by (subst unat_add_small) simp_all
    have pr2: "page_range 0 (chunkPageIndex limit + 1) = slice R ec" unfolding m2 sl(7) [OF lt] by auto
    have e512: "(b + n - 1) mod 512 < 512" by simp
    have ic2: "in_chunk 0 (chunkPageIndex limit + 1)" using m2 e512 by (simp add: word_less_nat_alt)
    have "has p2 ec (view p ec)" using effD [OF p2(3) keep1 [OF lt order_refl]] by simp
    then have h2: "has p2 ec (fst (view p ec), snd (view p ec))" by simp
    obtain p3 where p3: "alloc_in_chunk (of_nat ec) 0 (chunkPageIndex limit + 1)
            (p2, 0 + of_nat (card (snd (view p sc) \<inter> slice R sc)) + of_nat (\<Sum>c\<leftarrow>[sc + 1 ..< ec]. card (V c))) =
          Some (p3, 0 + of_nat (card (snd (view p sc) \<inter> slice R sc)) + of_nat (\<Sum>c\<leftarrow>[sc + 1 ..< ec]. card (V c)) +
            of_nat (card (snd (view p ec) \<inter> slice R ec)))"
        "eff (\<lambda>d x. if d = ec then (fst (view p ec) \<union> slice R ec, snd (view p ec) - slice R ec) else x) p2 p3"
      using alloc_in_chunk_ok [OF h2 ic2] disj [of ec] lt unfolding pr2 by (auto simp: less_imp_le)
    have "eff (alloc_view R) p p3"
    proof (rule eff_cong [OF eff_comp [OF p1(2) eff_comp [OF p2(3) p3(2)]]])
      fix c x assume c: "has p c x"
      consider "c < sc \<or> ec < c" | "c = sc" | "c = ec" | "sc < c" "c < ec" by linarith
      then show "alloc_view R c x = (\<lambda>c. ((\<lambda>d x. if d = ec then (fst (view p ec) \<union> slice R ec, snd (view p ec) - slice R ec) else x) c \<circ>
          (\<lambda>d x. if d \<in> set [sc + 1 ..< ec] then ({..<512}, {}) else x) c) \<circ>
          (\<lambda>d x. if d = sc then (fst (view p sc) \<union> slice R sc, snd (view p sc) - slice R sc) else x) c) c x"
      proof cases
        case 1
        then show ?thesis using sl(2) [OF 1] lt by (auto simp: alloc_view_def split_beta)
      next
        case 2
        then show ?thesis using lt view_eq [OF c] by (simp add: alloc_view_def split_beta)
      next
        case 3
        then show ?thesis using lt view_eq [OF c] by (simp add: alloc_view_def split_beta)
      next
        case 4
        have "fst x \<subseteq> {..<512}" "snd x \<subseteq> {..<512}" using has_subset [of p c "fst x" "snd x"] c by simp_all
        then show ?thesis using sl(6) [OF 4] 4 by (auto simp: alloc_view_def split_beta)
      qed
    qed
    moreover have "(\<Sum>c\<leftarrow>[sc + 1 ..< ec]. card (V c)) = (\<Sum>c\<leftarrow>[sc + 1 ..< ec]. card (snd (view p c) \<inter> slice R c))"
      using V by (intro arg_cong [where f = sum_list] map_cong) simp_all
    then have "0 + of_nat (card (snd (view p sc) \<inter> slice R sc)) + of_nat (\<Sum>c\<leftarrow>[sc + 1 ..< ec]. card (V c)) +
        (of_nat (card (snd (view p ec) \<inter> slice R ec)) :: uint64) = of_nat (card {k \<in> R. page_scav p k})"
      unfolding count sum_ends [OF lt] by simp
    ultimately show ?thesis
      using p1(1) p2(1) p3(1) e unfolding ci2 us by (intro exI [of _ p3]) simp
  qed
qed

text \<open>Effects on single pages.\<close>

lemma alloc_view_pages:
  assumes "pa_ok p" "eff (alloc_view R) p p1"
  shows "page_free p1 k \<longleftrightarrow> page_free p k \<and> k \<notin> R" "page_scav p1 k \<longleftrightarrow> page_scav p k \<and> k \<notin> R"
proof -
  have s: "same_rest p p1" using assms(2) by (simp add: eff_def)
  have v: "view p1 c = alloc_view R c (view p c)" if "c \<in> chunk_set p" for c
    using eff_view [OF assms(2) pa_ok_has [OF assms(1) that]] .
  show "page_free p1 k \<longleftrightarrow> page_free p k \<and> k \<notin> R" "page_scav p1 k \<longleftrightarrow> page_scav p k \<and> k \<notin> R"
    using v [of "k div 512"] by (auto simp: page_free_def page_scav_def same_rest_chunk_set [OF s] alloc_view_def slice_mod split_beta)
qed

lemma free_view_pages:
  assumes "pa_ok p" "eff (free_view R) p p1" "\<forall>k\<in>R. k div 512 \<in> chunk_set p"
  shows "page_free p1 k \<longleftrightarrow> page_free p k \<or> k \<in> R" "page_scav p1 k \<longleftrightarrow> page_scav p k"
proof -
  have s: "same_rest p p1" using assms(2) by (simp add: eff_def)
  have v: "view p1 c = free_view R c (view p c)" if "c \<in> chunk_set p" for c
    using eff_view [OF assms(2) pa_ok_has [OF assms(1) that]] .
  show "page_free p1 k \<longleftrightarrow> page_free p k \<or> k \<in> R" "page_scav p1 k \<longleftrightarrow> page_scav p k"
    using v [of "k div 512"] assms(3)
    by (auto simp: page_free_def page_scav_def same_rest_chunk_set [OF s] free_view_def slice_mod split_beta)
qed

lemma middle_region:
  fixes b n c :: nat
  assumes "0 < n" "b div 512 < c" "c < (b + n - 1) div 512" "\<forall>k\<in>{b ..< b + n}. F k = v"
  shows "region F 4 c = replicate 512 v"
proof (rule nth_equalityI)
  fix k assume "k < length (region F 4 c)"
  then have k: "k < 512" by simp
  have "k \<in> slice {b ..< b + n} c" using slice_range(6) [OF assms(1-3)] k by simp
  then have "c * 512 + k \<in> {b ..< b + n}" by (simp add: slice_def)
  then show "region F 4 c ! k = replicate 512 v ! k" using k assms(4) by (simp add: nth_region)
qed simp

text \<open>What an operation keeps besides the pages.\<close>

definition same_heap :: "pageAlloc \<Rightarrow> pageAlloc \<Rightarrow> bool" where
  "same_heap p p' \<longleftrightarrow> inUse p' = inUse p \<and> pa_start p' = pa_start p \<and> pa_end p' = pa_end p \<and> sum_len p' = sum_len p \<and> pa_test p' = pa_test p"

lemma same_heap_rest: "same_rest p p1 \<Longrightarrow> same_heap p (p1\<lparr>searchAddr := a, summary := S\<rparr>)"
  by (simp add: same_heap_def same_restD)

lemma pa_allocRange_ok:
  assumes ok: "pa_ok p" and r: "is_range base npages b n" and free: "\<forall>k\<in>{b ..< b + n}. page_free p k"
  shows "\<exists>p'. pa_allocRange p base npages = Some (p', of_nat (card {k \<in> {b ..< b + n}. page_scav p k}) * pageSize) \<and>
    pa_ok p' \<and> same_heap p p' \<and> searchAddr p' = searchAddr p \<and>
    (\<forall>k. page_free p' k \<longleftrightarrow> page_free p k \<and> k \<notin> {b ..< b + n}) \<and>
    (\<forall>k. page_scav p' k \<longleftrightarrow> page_scav p k \<and> k \<notin> {b ..< b + n})"
proof -
  define R where "R = {b ..< b + n}"
  obtain p1 where p1: "(if chunkIndex base = chunkIndex (base + npages * pageSize - 1)
       then alloc_in_chunk (chunkIndex base) (chunkPageIndex base) (chunkPageIndex (base + npages * pageSize - 1) + 1 - chunkPageIndex base) (p, 0)
       else do {
         ps \<leftarrow> alloc_in_chunk (chunkIndex base) (chunkPageIndex base) (pallocChunkPages - chunkPageIndex base) (p, 0);
         ps \<leftarrow> alloc_whole_chunks [unat (chunkIndex base) + 1 ..< unat (chunkIndex (base + npages * pageSize - 1))] ps;
         alloc_in_chunk (chunkIndex (base + npages * pageSize - 1)) 0 (chunkPageIndex (base + npages * pageSize - 1) + 1) ps
       }) = Some (p1, of_nat (card {k \<in> R. page_scav p k}))" "eff (alloc_view R) p p1"
    using pa_allocRange_chunks [OF ok r free] unfolding R_def by blast
  note pg = alloc_view_pages [OF ok p1(2)]
  have n: "0 < n" using r by (simp add: is_range_def)
  have inu: "\<forall>c. b div 512 \<le> c \<and> c \<le> (b + n - 1) div 512 \<longrightarrow> c \<in> chunk_set p"
    using range_chunks [OF n] free by (fastforce simp: page_free_def)
  have s: "same_rest p p1" using p1(2) by (simp add: eff_def)
  have out: "\<forall>k. k < b \<or> b + n \<le> k \<longrightarrow> page_free p1 k = page_free p k" by (auto simp: pg R_def)
  have contig: "True \<longrightarrow> (\<forall>c. b div 512 < c \<and> c < (b + n - 1) div 512 \<longrightarrow> region (page_free p1) 4 c = replicate 512 (\<not> True))"
    using middle_region [OF n, of b _ "page_free p1" False] by (simp add: pg R_def)
  have sa: "page_of (searchAddr p) < 2 ^ 35" "\<forall>k. page_free p1 k \<longrightarrow> page_of (searchAddr p) \<le> k"
    using ok pg(1) by (simp_all add: pa_ok_def)
  obtain S where S: "update (p1\<lparr>searchAddr := searchAddr p\<rparr>) base npages True True = Some (p1\<lparr>searchAddr := searchAddr p, summary := S\<rparr>)"
      "pa_ok (p1\<lparr>searchAddr := searchAddr p, summary := S\<rparr>)"
    using eff_update_ok [OF ok p1(2) r inu out contig sa] by blast
  have p1': "p1\<lparr>searchAddr := searchAddr p\<rparr> = p1" using same_restD(3) [OF s] by (cases p1) simp
  define p' where "p' = p1\<lparr>searchAddr := searchAddr p, summary := S\<rparr>"
  have "pa_allocRange p base npages = Some (p', of_nat (card {k \<in> R. page_scav p k}) * pageSize)"
    unfolding pa_allocRange_def Let_def p1(1) using S(1) unfolding p1' by (simp add: p'_def [unfolded p1'])
  moreover have "same_heap p p'" unfolding p'_def by (rule same_heap_rest [OF s])
  ultimately show ?thesis
    using S(2) pg unfolding R_def [symmetric] by (intro exI [of _ p']) (simp add: p'_def)
qed

subsection \<open>Freeing a range\<close>

lemma pa_free_chunks:
  assumes ok: "\<forall>c. b div 512 \<le> c \<and> c \<le> (b + n - 1) div 512 \<longrightarrow> has p c (view p c)"
    and r: "is_range base npages b n"
    and used: "\<forall>k\<in>{b ..< b + n}. k mod 512 \<in> fst (view p (k div 512))"
  defines "R \<equiv> {b ..< b + n}" and "limit \<equiv> base + npages * pageSize - 1"
  shows "\<exists>p1. (if npages = 1 then do {
         p \<leftarrow> mod_chunk (chunkIndex base) (\<lambda>m. do { b \<leftarrow> free1 (pallocBits m) (chunkPageIndex base); Some (m\<lparr>pallocBits := b\<rparr>) }) p;
         mod_scav (\<lambda>s. si_free s (chunkIndex base) (chunkPageIndex base) 1) p
       }
       else if chunkIndex base = chunkIndex limit
       then free_in_chunk (chunkIndex base) (chunkPageIndex base) (chunkPageIndex limit + 1 - chunkPageIndex base) p
       else do {
         p \<leftarrow> free_in_chunk (chunkIndex base) (chunkPageIndex base) (pallocChunkPages - chunkPageIndex base) p;
         p \<leftarrow> free_whole_chunks [unat (chunkIndex base) + 1 ..< unat (chunkIndex limit)] p;
         free_in_chunk (chunkIndex limit) 0 (chunkPageIndex limit + 1) p
       }) = Some p1 \<and> eff (free_view R) p p1"
proof -
  define sc where "sc = b div 512"
  define ec where "ec = (b + n - 1) div 512"
  have n: "0 < n" "b + n \<le> 2 ^ 35" "unat npages = n" using r by (simp_all add: is_range_def)
  note sl = slice_range [where b = b, OF n(1), folded sc_def ec_def R_def]
  have lim: "page_of limit = b + n - 1" "page_of base = b" using is_range_limit [OF r] by (simp_all add: limit_def)
  have ci: "unat (chunkIndex base) = sc" "unat (chunkIndex limit) = ec" "unat (chunkPageIndex base) = b mod 512"
      "unat (chunkPageIndex limit) = (b + n - 1) mod 512"
    by (simp_all add: unat_chunkIndex unat_chunkPageIndex lim sc_def ec_def)
  have ci2: "chunkIndex base = of_nat sc" "chunkIndex limit = of_nat ec" unfolding ci(1,2) [symmetric] by simp_all
  have us: "unat (of_nat sc :: uint64) = sc" "unat (of_nat ec :: uint64) = ec" unfolding ci2 [symmetric] ci by (rule refl)+
  have h: "has p c (fst (view p c), snd (view p c))" if "sc \<le> c" "c \<le> ec" for c using ok that by (simp add: sc_def ec_def)
  have sub: "slice R c \<subseteq> fst (view p c)" for c
  proof
    fix k assume k: "k \<in> slice R c"
    then have "c * 512 + k \<in> R" "k < 512" by (simp_all add: slice_def)
    then show "k \<in> fst (view p c)" using used [rule_format, of "c * 512 + k"] by (simp add: R_def)
  qed
  have one: "eff (free_view R) p q" if "sc = ec" "eff (\<lambda>d x. if d = sc then (fst (view p sc) - slice R sc, snd (view p sc)) else x) p q" for q
  proof (rule eff_cong [OF that(2)])
    fix c x assume "has p c x"
    then show "free_view R c x = (if c = sc then (fst (view p sc) - slice R sc, snd (view p sc)) else x)"
      using sl(2) [of c] view_eq that(1) by (cases "c = sc") (auto simp: free_view_def split_beta neq_iff)
  qed
  consider (single) "npages = 1" | (same) "npages \<noteq> 1" "sc = ec" | (many) "npages \<noteq> 1" "sc < ec" using sl(1) by linarith
  then show ?thesis
  proof cases
    case single
    then have n1: "n = 1" using n(3) by simp
    then have eq: "sc = ec" by (simp add: sc_def ec_def)
    have pr: "page_range (chunkPageIndex base) 1 = slice R sc" using sl(3) [OF eq] ci(3) n1 by simp
    have i: "unat (chunkPageIndex base) < 512" by (simp add: ci(3))
    have f: "\<exists>b'. free1 b (chunkPageIndex base) = Some b' \<and> pageBits_ok b' \<and> pages b' = pages b - page_range (chunkPageIndex base) 1"
      if "pageBits_ok b" for b using pclear_pages [OF that i] by (simp add: free1_def)
    have s: "page_range (chunkPageIndex base) 1 \<subseteq> fst (view p sc)" unfolding pr by (rule sub)
    obtain p1 p2 where p: "mod_chunk (of_nat sc) (\<lambda>m. do { b \<leftarrow> free1 (pallocBits m) (chunkPageIndex base); Some (m\<lparr>pallocBits := b\<rparr>) }) p = Some p1"
        "mod_scav (\<lambda>s. si_free s (of_nat sc) (chunkPageIndex base) 1) p1 = Some p2"
        "eff (\<lambda>d x. if d = sc then (fst (view p sc) - slice R sc, snd (view p sc)) else x) p p2"
      using free_in_chunk_eff [OF h [of sc] s f] eq unfolding pr by auto
    then show ?thesis using single one [OF eq p(3)] ci2 by (intro exI [of _ p2]) simp
  next
    case same
    then have e: "chunkIndex base = chunkIndex limit" by (simp add: ci2)
    have le: "b mod 512 \<le> (b + n - 1) mod 512 + 1" "(b + n - 1) mod 512 + 1 - b mod 512 = n"
      using sl(8) [OF same(2)] n(1) by simp_all
    have "unat (chunkPageIndex limit + 1) = (b + n - 1) mod 512 + 1" using ci(4) by (subst unat_add_small) simp_all
    then have m: "unat (chunkPageIndex limit + 1 - chunkPageIndex base) = n" using ci(3) le by (subst unat_sub_small) simp_all
    have pr: "page_range (chunkPageIndex base) (chunkPageIndex limit + 1 - chunkPageIndex base) = slice R sc"
      unfolding m ci(3) sl(3) [OF same(2)] ..
    have ic: "in_chunk (chunkPageIndex base) (chunkPageIndex limit + 1 - chunkPageIndex base)"
      using m n(1) ci(3) sl(4) [OF same(2)] by (simp add: word_less_nat_alt)
    obtain p1 where p1: "free_in_chunk (of_nat sc) (chunkPageIndex base) (chunkPageIndex limit + 1 - chunkPageIndex base) p = Some p1"
        "eff (\<lambda>d x. if d = sc then (fst (view p sc) - slice R sc, snd (view p sc)) else x) p p1"
      using free_in_chunk_ok [OF h [of sc] _ ic] sub [of sc] same(2) unfolding pr by auto
    then show ?thesis using same e ci2 one [OF same(2) p1(2)] by (intro exI [of _ p1]) simp
  next
    case many
    then have lt: "sc < ec" and e: "chunkIndex base \<noteq> chunkIndex limit" using ci by auto
    have b512: "b mod 512 < 512" "(b + n - 1) mod 512 < 512" by simp_all
    have m: "unat (pallocChunkPages - chunkPageIndex base) = 512 - b mod 512"
      using ci(3) by (subst unat_sub_small) (simp_all add: page_consts less_imp_le)
    have pr: "page_range (chunkPageIndex base) (pallocChunkPages - chunkPageIndex base) = slice R sc"
      unfolding m ci(3) sl(5) [OF lt] using b512 by simp
    have ic: "in_chunk (chunkPageIndex base) (pallocChunkPages - chunkPageIndex base)"
      using m ci(3) b512 by (simp add: word_less_nat_alt)
    obtain p1 where p1: "free_in_chunk (of_nat sc) (chunkPageIndex base) (pallocChunkPages - chunkPageIndex base) p = Some p1"
        "eff (\<lambda>d x. if d = sc then (fst (view p sc) - slice R sc, snd (view p sc)) else x) p p1"
      using free_in_chunk_ok [OF h [of sc] _ ic] sub [of sc] lt unfolding pr by auto
    have keep1: "has p1 c (view p c)" if "sc < c" "c \<le> ec" for c
      using effD [OF p1(2), of c "view p c"] h [of c] that by simp
    have mid: "has p1 c ({..<512}, snd (view p c))" if "sc < c" "c < ec" for c
    proof -
      have "fst (view p c) \<subseteq> {..<512}" using has_subset [OF h [of c]] that by simp
      then have "fst (view p c) = {..<512}" using sub [of c] sl(6) [OF that] by auto
      then show ?thesis using keep1 [of c] that by (metis less_imp_le prod.collapse)
    qed
    have "\<forall>c\<in>set [sc + 1 ..< ec]. \<exists>V. has p1 c ({..<512}, V)"
      by (intro ballI exI, rule mid) simp_all
    then obtain p2 where p2: "free_whole_chunks [sc + 1 ..< ec] p1 = Some p2"
        "eff (\<lambda>d x. if d \<in> set [sc + 1 ..< ec] then ({}, snd x) else x) p1 p2"
      using free_whole_chunks_ok [of "[sc + 1 ..< ec]" p1] distinct_upt by blast
    have m2: "unat (chunkPageIndex limit + 1) = (b + n - 1) mod 512 + 1" using ci(4) by (subst unat_add_small) simp_all
    have pr2: "page_range 0 (chunkPageIndex limit + 1) = slice R ec" unfolding m2 sl(7) [OF lt] by auto
    have ic2: "in_chunk 0 (chunkPageIndex limit + 1)" using m2 b512 by (simp add: word_less_nat_alt)
    have "has p2 ec (view p ec)" using effD [OF p2(2) keep1 [OF lt order_refl]] by simp
    then have h2: "has p2 ec (fst (view p ec), snd (view p ec))" by simp
    obtain p3 where p3: "free_in_chunk (of_nat ec) 0 (chunkPageIndex limit + 1) p2 = Some p3"
        "eff (\<lambda>d x. if d = ec then (fst (view p ec) - slice R ec, snd (view p ec)) else x) p2 p3"
      using free_in_chunk_ok [OF h2 _ ic2] sub [of ec] unfolding pr2 by auto
    have "eff (free_view R) p p3"
    proof (rule eff_cong [OF eff_comp [OF p1(2) eff_comp [OF p2(2) p3(2)]]])
      fix c x assume c: "has p c x"
      consider "c < sc \<or> ec < c" | "c = sc" | "c = ec" | "sc < c" "c < ec" by linarith
      then show "free_view R c x = (\<lambda>c. ((\<lambda>d x. if d = ec then (fst (view p ec) - slice R ec, snd (view p ec)) else x) c \<circ>
          (\<lambda>d x. if d \<in> set [sc + 1 ..< ec] then ({}, snd x) else x) c) \<circ>
          (\<lambda>d x. if d = sc then (fst (view p sc) - slice R sc, snd (view p sc)) else x) c) c x"
      proof cases
        case 1
        then show ?thesis using sl(2) [OF 1] lt by (auto simp: free_view_def split_beta)
      next
        case 2
        then show ?thesis using lt view_eq [OF c] by (simp add: free_view_def split_beta)
      next
        case 3
        then show ?thesis using lt view_eq [OF c] by (simp add: free_view_def split_beta)
      next
        case 4
        have "fst x \<subseteq> {..<512}" using has_subset [of p c "fst x" "snd x"] c by simp
        then show ?thesis using sl(6) [OF 4] 4 by (auto simp: free_view_def split_beta)
      qed
    qed
    then show ?thesis using many(1) p1(1) p2(1) p3(1) e unfolding ci2 us by (intro exI [of _ p3]) simp
  qed
qed

lemma lower_searchAddr_eq: "lower_searchAddr b p = p\<lparr>searchAddr := (if lessThan b (searchAddr p) then b else searchAddr p)\<rparr>"
  by (simp add: lower_searchAddr_def)

lemma page_of_mono: "off x \<le> off y \<Longrightarrow> page_of x \<le> page_of y"
  by (simp add: page_of_def div_le_mono)

lemma pa_free_ok:
  assumes ok: "pa_ok p" and r: "is_range base npages b n" and used: "\<forall>k\<in>{b ..< b + n}. page_used p k"
  shows "\<exists>p'. pa_free p base npages = Some p' \<and> pa_ok p' \<and> same_heap p p' \<and>
    (\<forall>k. page_free p' k \<longleftrightarrow> page_free p k \<or> k \<in> {b ..< b + n}) \<and> (\<forall>k. page_scav p' k \<longleftrightarrow> page_scav p k)"
proof -
  define R where "R = {b ..< b + n}"
  define a where "a = (if lessThan base (searchAddr p) then base else searchAddr p)"
  define q where "q = p\<lparr>searchAddr := a\<rparr>"
  have n: "0 < n" "b + n \<le> 2 ^ 35" using r by (simp_all add: is_range_def)
  have lb: "page_of base = b" by (rule is_range_limit(3) [OF r])
  have inu: "\<forall>c. b div 512 \<le> c \<and> c \<le> (b + n - 1) div 512 \<longrightarrow> c \<in> chunk_set p"
    using range_chunks [OF n(1)] used by (fastforce simp: page_used_def)
  have q: "has q = has p" "view q = view p" by (simp_all add: q_def)
  have "\<forall>c. b div 512 \<le> c \<and> c \<le> (b + n - 1) div 512 \<longrightarrow> has q c (view q c)" using inu pa_ok_has [OF ok] by (simp add: q)
  moreover have "\<forall>k\<in>{b ..< b + n}. k mod 512 \<in> fst (view q (k div 512))" using used by (simp add: page_used_def q)
  ultimately obtain q1 where q1: "(if npages = 1 then do {
         p \<leftarrow> mod_chunk (chunkIndex base) (\<lambda>m. do { b \<leftarrow> free1 (pallocBits m) (chunkPageIndex base); Some (m\<lparr>pallocBits := b\<rparr>) }) q;
         mod_scav (\<lambda>s. si_free s (chunkIndex base) (chunkPageIndex base) 1) p
       }
       else if chunkIndex base = chunkIndex (base + npages * pageSize - 1)
       then free_in_chunk (chunkIndex base) (chunkPageIndex base) (chunkPageIndex (base + npages * pageSize - 1) + 1 - chunkPageIndex base) q
       else do {
         p \<leftarrow> free_in_chunk (chunkIndex base) (chunkPageIndex base) (pallocChunkPages - chunkPageIndex base) q;
         p \<leftarrow> free_whole_chunks [unat (chunkIndex base) + 1 ..< unat (chunkIndex (base + npages * pageSize - 1))] p;
         free_in_chunk (chunkIndex (base + npages * pageSize - 1)) 0 (chunkPageIndex (base + npages * pageSize - 1) + 1) p
       }) = Some q1" "eff (free_view R) q q1"
    using pa_free_chunks [OF _ r] unfolding R_def by blast
  define p1 where "p1 = q1\<lparr>searchAddr := searchAddr p\<rparr>"
  have sq: "same_rest q q1" using q1(2) by (simp add: eff_def)
  then have q1': "q1 = p1\<lparr>searchAddr := a\<rparr>" using same_restD(3) [OF sq] by (simp add: p1_def q_def)
  have "same_rest p p1" using sq by (cases p, cases q1) (simp add: same_rest_def p1_def q_def)
  then have e: "eff (free_view R) p p1" using q1(2) by (simp add: eff_def p1_def q)
  have inR: "\<forall>k\<in>R. k div 512 \<in> chunk_set p" using used by (simp add: page_used_def R_def)
  note pg = free_view_pages [OF ok e inR]
  have out: "\<forall>k. k < b \<or> b + n \<le> k \<longrightarrow> page_free p1 k = page_free p k" by (auto simp: pg R_def)
  have contig: "True \<longrightarrow> (\<forall>c. b div 512 < c \<and> c < (b + n - 1) div 512 \<longrightarrow> region (page_free p1) 4 c = replicate 512 (\<not> False))"
    using middle_region [OF n(1), of b _ "page_free p1" True] by (simp add: pg R_def)
  have sa: "page_of a < 2 ^ 35" "\<forall>k. page_free p1 k \<longrightarrow> page_of a \<le> k"
  proof -
    have "page_of (searchAddr p) < 2 ^ 35" using ok by (simp add: pa_ok_def)
    then show "page_of a < 2 ^ 35" using lb n by (simp add: a_def)
    have l: "page_of a \<le> b" "page_of a \<le> page_of (searchAddr p)"
      using lb page_of_mono [of base "searchAddr p"] page_of_mono [of "searchAddr p" base]
      by (auto simp: a_def lessThan_off not_less less_imp_le)
    then show "\<forall>k. page_free p1 k \<longrightarrow> page_of a \<le> k" using ok by (fastforce simp: pg R_def pa_ok_def)
  qed
  obtain S where S: "update (p1\<lparr>searchAddr := a\<rparr>) base npages True False = Some (p1\<lparr>searchAddr := a, summary := S\<rparr>)"
      "pa_ok (p1\<lparr>searchAddr := a, summary := S\<rparr>)"
    using eff_update_ok [OF ok e r inu out contig sa] by blast
  define p' where "p' = p1\<lparr>searchAddr := a, summary := S\<rparr>"
  have "pa_free p base npages = Some p'"
    unfolding pa_free_def lower_searchAddr_eq Let_def a_def [symmetric] q_def [symmetric] q1(1)
    using S(1) unfolding q1' [symmetric] by (simp add: p'_def q1')
  moreover have "same_heap p p'" unfolding p'_def by (rule same_heap_rest [OF \<open>same_rest p p1\<close>])
  ultimately show ?thesis using S(2) pg unfolding R_def [symmetric] by (intro exI [of _ p']) (simp add: p'_def)
qed
end
