(* ===== verification/PageFind.thy ===== *)
theory PageFind
  imports PageState
begin

text \<open>
  The search of the page allocator.  On a good state, \<open>find\<close> walks down the summary tree without a panic, finds the first
  run of \<open>npages\<close> free pages of the whole address space exactly when there is one, and returns with it an address
  below which no page is free.
\<close>

subsection \<open>The window of the first free page\<close>

definition valid_win :: "(nat \<Rightarrow> bool) \<Rightarrow> window \<Rightarrow> bool" where
  "valid_win F w \<longleftrightarrow> off (fst w) \<le> off (snd w) \<and> (\<forall>k. F k \<longrightarrow> off (fst w) \<le> k * 2 ^ 13)"

text \<open>While a block of \<open>m\<close> pages from \<open>s\<close> on is scanned and page \<open>t\<close> is reached, the window is the whole block and no page
  before \<open>t\<close> is free, or it lies before \<open>t\<close>.\<close>

definition scan_win :: "(nat \<Rightarrow> bool) \<Rightarrow> window \<Rightarrow> nat \<Rightarrow> nat \<Rightarrow> nat \<Rightarrow> bool" where
  "scan_win F w s m t \<longleftrightarrow> valid_win F w \<and>
     (off (fst w) = s * 2 ^ 13 \<and> off (snd w) = (s + m) * 2 ^ 13 - 1 \<and> (\<forall>k. F k \<longrightarrow> t \<le> k) \<or> off (snd w) < t * 2 ^ 13)"

lemma off_page_end:
  assumes "0 < m" "a + m \<le> 2 ^ 35"
  shows "off (off_add (page_addr a) (of_nat (m * 2 ^ 13) - 1)) = (a + m) * 2 ^ 13 - 1"
proof -
  obtain m' where m: "m = Suc m'" using assms(1) by (cases m) simp
  have a: "off (page_addr a) = a * 2 ^ 13" using assms(2) by (intro off_page_addr) simp
  have "(of_nat (m * 2 ^ 13) - 1 :: uint64) = of_nat (m' * 2 ^ 13 + (2 ^ 13 - 1))" by (simp add: m)
  moreover have "off (page_addr a + of_nat (m' * 2 ^ 13 + (2 ^ 13 - 1))) = off (page_addr a) + (m' * 2 ^ 13 + (2 ^ 13 - 1))"
    by (rule off_plus) (use a assms(2) m in simp)
  ultimately have "off (off_add (page_addr a) (of_nat (m * 2 ^ 13) - 1)) = a * 2 ^ 13 + (m' * 2 ^ 13 + (2 ^ 13 - 1))"
    unfolding off_add_def a by (simp only:)
  then show ?thesis by (simp add: m)
qed

lemma foundFree_ok:
  assumes w: "scan_win F w s m t" and s: "s \<le> t" "t + k \<le> s + m" "s + m \<le> 2 ^ 35" "0 < k" and sz: "sz = of_nat (k * 2 ^ 13)"
  shows "\<exists>w'. foundFree w (page_addr t) sz = Some w' \<and> scan_win F w' s m (t + k) \<and> scan_win F w' t k t"
proof -
  have e: "off (off_add (page_addr t) (sz - 1)) = (t + k) * 2 ^ 13 - 1" unfolding sz using s by (intro off_page_end) simp_all
  have b: "off (page_addr t) = t * 2 ^ 13" using s by (intro off_page_addr) simp
  consider (eq) "off (fst w) = s * 2 ^ 13" "off (snd w) = (s + m) * 2 ^ 13 - 1" "\<forall>k. F k \<longrightarrow> t \<le> k" | (before) "off (snd w) < t * 2 ^ 13"
    using w unfolding scan_win_def by blast
  then show ?thesis
  proof cases
    case eq
    have "s * 2 ^ 13 \<le> t * 2 ^ 13" "(t + k) * 2 ^ 13 - 1 \<le> (s + m) * 2 ^ 13 - 1" using s by simp_all
    then have "foundFree w (page_addr t) sz = Some (page_addr t, off_add (page_addr t) (sz - 1))"
      using eq e b by (cases w) (simp add: lessEqual_off)
    moreover have "scan_win F (page_addr t, off_add (page_addr t) (sz - 1)) s m (t + k)"
      "scan_win F (page_addr t, off_add (page_addr t) (sz - 1)) t k t"
      using eq(3) s(4) by (simp_all add: scan_win_def valid_win_def e b)
    ultimately show ?thesis by blast
  next
    case before
    have "t * 2 ^ 13 \<le> (t + k) * 2 ^ 13 - 1" using s(4) by simp
    then have "\<not> lessEqual (off_add (page_addr t) (sz - 1)) (snd w)" "lessThan (snd w) (page_addr t)"
      using before e b by (simp_all add: lessEqual_off lessThan_off)
    then have "foundFree w (page_addr t) sz = Some w" by (cases w) simp
    moreover have "off (snd w) < (t + k) * 2 ^ 13" using before by simp
    ultimately show ?thesis using w before unfolding scan_win_def by blast
  qed
qed

subsection \<open>Scanning a block of entries\<close>

definition blk :: "(nat \<Rightarrow> bool) \<Rightarrow> nat \<Rightarrow> nat \<Rightarrow> bool list" where
  "blk F a m = map F [a ..< a + m]"

lemma length_blk [simp]: "length (blk F a m) = m"
  by (simp add: blk_def)

lemma nth_blk: "k < m \<Longrightarrow> blk F a m ! k = F (a + k)"
  by (simp add: blk_def)

lemma blk_append: "blk F a m @ blk F (a + m) k = blk F a (m + k)"
  using upt_add_eq_append [of a "a + m" k] by (simp add: blk_def add.assoc flip: map_append)

lemma region_blk: "region F l i = blk F (i * 2 ^ lp l) (2 ^ lp l)"
  by (simp add: region_def blk_def algebra_simps)

lemma free_max_0: "free_max xs = 0 \<Longrightarrow> k < length xs \<Longrightarrow> \<not> xs ! k"
  using free_max_greatest [of xs k 1] by (auto simp: run_at_def)

lemma sums_to_nat:
  assumes "sums_to sm xs" "length xs \<le> 2 ^ 35"
  shows "unat (sum_start sm) = free_start xs" "unat (sum_max sm) = free_max xs" "unat (sum_end sm) = free_end xs"
proof -
  have "sum_start sm = of_nat (free_start xs)" "sum_max sm = of_nat (free_max xs)" "sum_end sm = of_nat (free_end xs)"
    using assms(1) unpack_fields [of sm] by (simp_all add: sums_to_def)
  then show "unat (sum_start sm) = free_start xs" "unat (sum_max sm) = free_max xs" "unat (sum_end sm) = free_end xs"
    using assms(2) free_start_le [of xs] free_max_le [of xs] free_end_le [of xs] by simp_all
qed

definition scan_result :: "nat \<Rightarrow> (nat \<Rightarrow> bool) \<Rightarrow> nat \<Rightarrow> nat \<Rightarrow> nat \<Rightarrow> level_result \<Rightarrow> bool" where
  "scan_result l F n i e r \<longleftrightarrow>
     (case r of
        Scanned base sz w \<Rightarrow>
          if n \<le> unat sz then first_fit (blk F (i * 2 ^ lp l) (e * 2 ^ lp l)) n (unat base) \<and> valid_win F w
          else free_max (blk F (i * 2 ^ lp l) (e * 2 ^ lp l)) < n
      | Descend i' w \<Rightarrow>
          i \<le> i' \<and> i' < i + e \<and> n \<le> free_max (region F l i') \<and>
          (\<forall>k. first_fit (region F l i') n k \<longrightarrow> first_fit (blk F (i * 2 ^ lp l) (e * 2 ^ lp l)) n ((i' - i) * 2 ^ lp l + k)) \<and>
          scan_win F w (i' * 2 ^ lp l) (2 ^ lp l) (i' * 2 ^ lp l))"

lemma scan_entries_ok:
  assumes l: "l < 5" and S: "\<forall>j<e. sums_to (summary p l (i + j)) (region F l (i + j))"
    and bound: "(i + e) * 2 ^ lp l \<le> 2 ^ 35" and n: "unat npages = n" "0 < n"
    and j: "j \<le> e"
    and fm: "free_max (blk F (i * 2 ^ lp l) (j * 2 ^ lp l)) < n"
    and sz: "unat sz = free_end (blk F (i * 2 ^ lp l) (j * 2 ^ lp l))"
    and base: "sz \<noteq> 0 \<longrightarrow> unat base + unat sz = j * 2 ^ lp l"
    and win: "scan_win F w (i * 2 ^ lp l) (e * 2 ^ lp l) ((i + j) * 2 ^ lp l)"
  shows "\<exists>r. scan_entries l i npages (map (summary p l) [i + j ..< i + e]) j base sz w = Some r \<and> scan_result l F n i e r"
  using j fm sz base win
proof (induction "e - j" arbitrary: j base sz w)
  case 0
  then have e: "j = e" by simp
  have "unat sz < n" using 0 free_end_max [of "blk F (i * 2 ^ lp l) (j * 2 ^ lp l)"] by simp
  then show ?case using 0 by (simp add: e scan_result_def)
next
  case (Suc d)
  define W where "W = (2 :: nat) ^ lp l"
  define xs where "xs = blk F (i * W) (j * W)"
  define ys where "ys = region F l (i + j)"
  define sm where "sm = summary p l (i + j)"
  have lt: "j < e" and d: "d = e - Suc j" using Suc.hyps(2) by simp_all
  have W: "0 < W" "W \<le> 2 ^ 21" unfolding W_def by (simp, rule power_increasing [OF lp_bounds(2)]) simp
  have len: "length xs = j * W" "length ys = W" by (simp_all add: xs_def ys_def W_def)
  have je: "(i + j + 1) * W \<le> (i + e) * W" using lt by (intro mult_le_mono) simp_all
  then have jb: "(i + j) * W + W \<le> 2 ^ 35" "j * W + W \<le> 2 ^ 35" using bound by (simp_all add: W_def algebra_simps)
  have xy: "xs @ ys = blk F (i * W) (Suc j * W)"
    using blk_append [of F "i * W" "j * W" W] by (simp add: xs_def ys_def region_blk W_def algebra_simps)
  have B: "\<exists>zs. blk F (i * W) (e * W) = (xs @ ys) @ zs"
  proof -
    have "e * W = Suc j * W + (e - Suc j) * W" using lt by (metis Suc_leI add_mult_distrib le_add_diff_inverse)
    then show ?thesis unfolding xy by (metis blk_append)
  qed
  have sm: "sums_to sm ys" using S lt by (simp add: sm_def ys_def)
  note sn = sums_to_nat [OF sm, unfolded len]
  have W35: "W \<le> 2 ^ 35" using W(2) by simp
  have se: "unat sz = free_end xs" "free_max xs < n" using Suc.prems by (simp_all add: xs_def W_def)
  have fle: "free_end xs \<le> j * W" "free_start ys \<le> W" "free_end ys \<le> W" "free_max ys \<le> W"
    using free_end_le [of xs] free_start_le [of ys] free_end_le [of ys] free_max_le [of ys] by (simp_all add: len)
  have list: "map (summary p l) [i + j ..< i + e] = sm # map (summary p l) [i + Suc j ..< i + e]"
    using lt by (simp add: sm_def upt_conv_Cons)
  have pb: "push_bit (lp l) (1 :: uint64) = of_nat W" "push_bit (lp l) (of_nat k :: uint64) = of_nat (k * W)" for k
    by (simp_all add: push_bit_eq_mult W_def)
  have uW: "unat (of_nat W :: uint64) = W" "unat (of_nat (j * W) :: uint64) = j * W" "unat (of_nat (Suc j * W) :: uint64) = Suc j * W"
    by (rule unat_of_nat_small, use jb W in simp)+
  note IH = Suc.hyps(1) [OF d, folded W_def, folded xy]
  show ?case
  proof (cases "sm = 0")
    case True
    then have z: "free_start ys = 0" "free_max ys = 0" "free_end ys = 0"
      using sn W35 by (simp_all add: sum_start_def sum_max_def sum_end_def)
    have "scan_win F w (i * W) (e * W) ((i + Suc j) * W)"
    proof -
      have nF: "\<not> F k" if "(i + j) * W \<le> k" "k < (i + j) * W + W" for k
      proof -
        have "\<not> ys ! (k - (i + j) * W)" by (rule free_max_0 [OF z(2)]) (use that len in simp)
        then show ?thesis using that by (simp add: ys_def region_blk W_def [symmetric] nth_blk)
      qed
      then have "(i + Suc j) * W \<le> k" if "F k" "(i + j) * W \<le> k" for k
        using that nF [of k] by (fastforce simp: algebra_simps)
      moreover have "(i + j) * W \<le> (i + Suc j) * W" by simp
      ultimately show ?thesis
        using Suc.prems(5) unfolding scan_win_def W_def [symmetric] by (meson less_le_trans mult_le_mono1)
    qed
    moreover have "free_max (xs @ ys) < n" using se(2) z free_end_max [of xs] by (simp add: free_max_append)
    moreover have "free_end (xs @ ys) = 0" using z W by (simp add: free_end_append len)
    ultimately show ?thesis using IH [of 0 base w] lt True unfolding list by simp
  next
    case False
    have addr: "levelIndexToOffAddr l (i + j) = page_addr ((i + j) * W)" using l by (simp add: level_addr W_def)
    have szw: "of_nat W * pageSize = (of_nat (W * 2 ^ 13) :: uint64)" by (simp add: page_consts)
    obtain w' where w': "foundFree w (page_addr ((i + j) * W)) (of_nat (W * 2 ^ 13)) = Some w'"
        "scan_win F w' (i * W) (e * W) ((i + j) * W + W)" "scan_win F w' ((i + j) * W) W ((i + j) * W)"
      using foundFree_ok [OF Suc.prems(5) [folded W_def], of W "of_nat (W * 2 ^ 13)"] je bound W(1)
      by (auto simp: W_def [symmetric] algebra_simps)
    have v': "valid_win F w'" using w'(2) by (simp add: scan_win_def)
    have add: "unat (sz + sum_start sm) = free_end xs + free_start ys"
      using se(1) sn(1) W35 fle jb by (subst unat_add_small) simp_all
    define rest where "rest base sz = scan_entries l i npages (map (summary p l) [i + Suc j ..< i + e]) (j + 1) base sz w'" for base sz
    have step: "scan_entries l i npages (map (summary p l) [i + j ..< i + e]) j base sz w =
        (if npages \<le> sz + sum_start sm then Some (Scanned (if sz = 0 then of_nat (j * W) else base) (sz + sum_start sm) w')
         else if npages \<le> sum_max sm then Some (Descend (i + j) w')
         else if sz = 0 \<or> sum_start sm < of_nat W then rest (of_nat (Suc j * W) - sum_end sm) (sum_end sm)
         else rest base (sz + of_nat W))"
      unfolding list scan_entries.simps rest_def if_not_P [OF False] Let_def level_nth(1) [OF l] pb addr szw w'(1)
      by (simp only: Option.bind.bind_lunit Suc_eq_plus1)
    consider (hit) "npages \<le> sz + sum_start sm" | (down) "\<not> npages \<le> sz + sum_start sm" "npages \<le> sum_max sm"
      | (new) "\<not> npages \<le> sz + sum_start sm" "\<not> npages \<le> sum_max sm" "sz = 0 \<or> sum_start sm < of_nat W"
      | (cont) "\<not> npages \<le> sz + sum_start sm" "\<not> npages \<le> sum_max sm" "sz \<noteq> 0" "\<not> sum_start sm < of_nat W"
      by blast
    then show ?thesis
    proof cases
      case hit
      then have le: "n \<le> free_end xs + free_start ys" using add n by (simp add: word_le_nat_alt)
      define b where "b = (if sz = 0 then of_nat (j * W) else base)"
      have "unat b = length xs - free_end xs"
        using Suc.prems(4) se(1) uW(2) by (cases "sz = 0") (simp_all add: b_def len W_def [symmetric])
      then have "first_fit (blk F (i * W) (e * W)) n (unat b)"
        using first_fit_boundary [OF se(2) le] B first_fit_append by metis
      then have "scan_result l F n i e (Scanned b (sz + sum_start sm) w')"
        using le add v' by (simp add: scan_result_def W_def)
      then show ?thesis unfolding step b_def using hit by simp
    next
      case down
      then have lt2: "free_end xs + free_start ys < n" "n \<le> free_max ys"
        using add n sn(2) W35 by (simp_all add: word_le_nat_alt)
      have "first_fit (blk F (i * W) (e * W)) n (j * W + k)" if "first_fit ys n k" for k
        using first_fit_inside [OF se(2) lt2(1) that] B first_fit_append unfolding len by metis
      then have "scan_result l F n i e (Descend (i + j) w')"
        using lt lt2(2) w'(3) by (simp add: scan_result_def W_def ys_def)
      then show ?thesis unfolding step using down by simp
    next
      case new
      then have lt2: "free_end xs + free_start ys < n" "free_max ys < n"
        using add n sn(2) W35 by (simp_all add: word_le_nat_alt)
      have fe: "free_end (xs @ ys) = free_end ys"
      proof (cases "free_end ys = W")
        case True
        then have "free_start ys = W" using free_end_all [of ys] free_start_all [of ys] len by simp
        then have "\<not> sum_start sm < of_nat W" using sn(1) W35 uW by (simp add: word_less_nat_alt)
        then have "free_end xs = 0" using new(3) se(1) by simp
        then show ?thesis using True by (simp add: free_end_append len)
      qed (simp add: free_end_append len)
      have fm2: "free_max (xs @ ys) < n" using se(2) lt2 by (simp add: free_max_append)
      have ue: "unat (sum_end sm) = free_end ys" using sn(3) W35 by simp
      have "unat (of_nat (Suc j * W) - sum_end sm) = Suc j * W - free_end ys"
        using uW(3) ue fle(3) by (subst unat_sub_small) simp_all
      then have bb: "unat (of_nat (Suc j * W) - sum_end sm) + unat (sum_end sm) = Suc j * W" using ue fle(3) by simp
      have sw: "scan_win F w' (i * W) (e * W) ((i + Suc j) * W)" using w'(2) by (simp add: algebra_simps)
      show ?thesis unfolding step rest_def using new IH [of "sum_end sm" "of_nat (Suc j * W) - sum_end sm" w'] lt fm2 ue fe bb sw by simp
    next
      case cont
      then have lt2: "free_end xs + free_start ys < n" "free_max ys < n" "W \<le> free_start ys"
        using add n sn(1,2) W35 uW by (simp_all add: word_le_nat_alt word_less_nat_alt)
      then have "free_start ys = W" using fle by simp
      then have "free_end ys = W" using free_end_all [of ys] free_start_all [of ys] len by simp
      then have fe: "free_end (xs @ ys) = W + free_end xs" by (simp add: free_end_append len)
      have fm2: "free_max (xs @ ys) < n" using se(2) lt2 by (simp add: free_max_append)
      have us: "unat (sz + of_nat W) = W + free_end xs"
        using se(1) uW(1) fle jb by (subst unat_add_small) simp_all
      have bb: "unat base + unat (sz + of_nat W) = Suc j * W" using Suc.prems(4) cont(3) us se(1) by (simp add: W_def [symmetric])
      have sw: "scan_win F w' (i * W) (e * W) ((i + Suc j) * W)" using w'(2) by (simp add: algebra_simps)
      show ?thesis unfolding step rest_def using cont IH [of "sz + of_nat W" base w'] lt fm2 us fe bb sw by simp
    qed
  qed
qed


subsection \<open>The levels\<close>

lemma first_fit_ex:
  assumes "n \<le> free_max xs"
  shows "\<exists>k. first_fit xs n k"
proof -
  obtain i where "run_at xs i (free_max xs)" using free_max_attained by blast
  then have "run_at xs i n" using assms by (auto simp: run_at_def)
  then have "run_at xs (LEAST i. run_at xs i n) n" by (rule LeastI)
  moreover have "\<forall>j<LEAST i. run_at xs i n. \<not> run_at xs j n" by (intro allI impI not_less_Least)
  ultimately show ?thesis unfolding first_fit_def by blast
qed

lemma none_free: "(\<And>k. k < length xs \<Longrightarrow> \<not> xs ! k) \<Longrightarrow> free_max xs = 0"
proof (rule ccontr)
  assume nf: "\<And>k. k < length xs \<Longrightarrow> \<not> xs ! k" and "free_max xs \<noteq> 0"
  then obtain i where "run_at xs i (free_max xs)" "0 < free_max xs" using free_max_attained by blast
  then have "i < length xs" "xs ! i" unfolding run_at_def by fastforce+
  then show False using nf by blast
qed

lemma first_fit_free: "first_fit (blk F a m) n k \<Longrightarrow> 0 < n \<Longrightarrow> k + n \<le> m \<and> (\<forall>t<n. F (a + k + t))"
  by (auto simp: first_fit_def run_at_def nth_blk add.assoc)

text \<open>The pages of the block of entries that the search looks at on level \<open>l\<close>; the whole space on the root.\<close>

definition level_pages :: "nat \<Rightarrow> nat" where
  "level_pages l = 2 ^ (levelBits ! l) * 2 ^ lp l"

lemma level_pages: "level_pages 0 = 2 ^ 35" "l < 4 \<Longrightarrow> level_pages (Suc l) = 2 ^ lp l"
  using level_nth(3) [of 0] level_nth(3) [of "Suc l"] by (simp_all add: level_pages_def lp_0 lp_Suc power_add)

lemma sum_slice_block:
  assumes "l < 5" "(i + e) * 2 ^ lp l \<le> 2 ^ 35"
  shows "sum_slice l i (i + e) p = Some (map (summary p l) [i ..< i + e])" "i + e \<le> entries_of l"
proof -
  have "lp l + (35 - lp l) = 35" using lp_bounds(2) [of l] by simp
  then have "(2 :: nat) ^ 35 = entries_of l * 2 ^ lp l" unfolding entries_of_def by (metis power_add mult.commute)
  then show e: "i + e \<le> entries_of l" using assms(2) by (metis mult_le_cancel2 zero_less_numeral zero_less_power)
  then show "sum_slice l i (i + e) p = Some (map (summary p l) [i ..< i + e])"
    by (simp add: sum_slice_def sum_cap_eq [OF assms(1)])
qed

text \<open>Skipping the entries before \<open>searchAddr\<close>.\<close>

lemma start_entry:
  assumes l: "l < 5" and low: "\<forall>k. F k \<longrightarrow> page_of sa \<le> k"
    and win: "scan_win F w (i * 2 ^ lp l) m (i * 2 ^ lp l)"
  defines "E \<equiv> 2 ^ (levelBits ! l)"
  defines "s \<equiv> offAddrToLevelIndex l sa"
  defines "j0 \<equiv> (if s div E * E = i then s mod E else 0)"
  shows "j0 < E" "free_max (blk F (i * 2 ^ lp l) (j0 * 2 ^ lp l)) = 0" "free_end (blk F (i * 2 ^ lp l) (j0 * 2 ^ lp l)) = 0"
    "scan_win F w (i * 2 ^ lp l) m ((i + j0) * 2 ^ lp l)"
proof -
  show "j0 < E" by (simp add: j0_def E_def)
  have s: "(i + j0) * 2 ^ lp l \<le> k \<or> j0 = 0" if "F k" for k
  proof (cases "s div E * E = i")
    case True
    then have "i + j0 = s" using div_mult_mod_eq [of s E] by (simp add: j0_def)
    also have "s * 2 ^ lp l \<le> page_of sa" by (simp add: s_def level_index [OF l])
    finally show ?thesis using low that le_trans by blast
  qed (simp add: j0_def)
  show fm: "free_max (blk F (i * 2 ^ lp l) (j0 * 2 ^ lp l)) = 0"
  proof (rule none_free)
    fix k assume "k < length (blk F (i * 2 ^ lp l) (j0 * 2 ^ lp l))"
    then have k: "k < j0 * 2 ^ lp l" by simp
    then have "j0 \<noteq> 0" by (cases "j0 = 0") simp_all
    moreover have "\<not> (i + j0) * 2 ^ lp l \<le> i * 2 ^ lp l + k" using k by (simp add: algebra_simps)
    ultimately have "\<not> (i + j0) * 2 ^ lp l \<le> i * 2 ^ lp l + k" "j0 \<noteq> 0" by blast+
    then show "\<not> blk F (i * 2 ^ lp l) (j0 * 2 ^ lp l) ! k" using s k by (auto simp: nth_blk)
  qed
  then show "free_end (blk F (i * 2 ^ lp l) (j0 * 2 ^ lp l)) = 0"
    using free_end_max [of "blk F (i * 2 ^ lp l) (j0 * 2 ^ lp l)"] by simp
  show "scan_win F w (i * 2 ^ lp l) m ((i + j0) * 2 ^ lp l)"
  proof (cases "j0 = 0")
    case False
    have "i * 2 ^ lp l \<le> (i + j0) * 2 ^ lp l" by simp
    then have "off (snd w) < i * 2 ^ lp l * 2 ^ 13 \<Longrightarrow> off (snd w) < (i + j0) * 2 ^ lp l * 2 ^ 13"
      by (meson less_le_trans mult_le_mono1)
    then show ?thesis using win s False unfolding scan_win_def by blast
  qed (use win in simp)
qed

text \<open>What the walk returns.\<close>

definition levels_result :: "(nat \<Rightarrow> bool) \<Rightarrow> (offAddr \<Rightarrow> bool) \<Rightarrow> nat \<Rightarrow> (uintptr \<times> offAddr + nat \<times> window) \<Rightarrow> bool" where
  "levels_result F P n r \<longleftrightarrow>
     (case r of
        Inl (addr, sa) \<Rightarrow>
          if free_max (blk F 0 (2 ^ 35)) < n then addr = 0 else (\<exists>k. first_fit (blk F 0 (2 ^ 35)) n k \<and> addr = page_addr k) \<and> P sa
      | Inr (c, w) \<Rightarrow>
          c < 2 ^ 26 \<and> n \<le> free_max (region F 4 c) \<and> scan_win F w (c * 512) 512 (c * 512) \<and>
          (\<forall>k. first_fit (region F 4 c) n k \<longrightarrow> first_fit (blk F 0 (2 ^ 35)) n (c * 512 + k)))"

lemma find_levels_ok:
  assumes tree: "tree_ok (summary p) F" and low: "\<forall>k. F k \<longrightarrow> page_of (searchAddr p) \<le> k"
    and n: "unat npages = n" "0 < n"
    and mapped: "\<And>w k. valid_win F w \<Longrightarrow> F k \<Longrightarrow> k < 2 ^ 35 \<Longrightarrow> \<exists>sa. findMappedAddr e p (fst w) = Some sa \<and> P sa"
    and d: "d \<le> 5"
    and bound: "i * level_pages (5 - d) + level_pages (5 - d) \<le> 2 ^ 35"
    and win: "d \<noteq> 0 \<Longrightarrow> scan_win F w (i * level_pages (5 - d)) (level_pages (5 - d)) (i * level_pages (5 - d))"
    and fm: "d < 5 \<Longrightarrow> n \<le> free_max (blk F (i * level_pages (5 - d)) (level_pages (5 - d)))"
    and link: "\<And>k. first_fit (blk F (i * level_pages (5 - d)) (level_pages (5 - d))) n k \<Longrightarrow>
      first_fit (blk F 0 (2 ^ 35)) n (i * level_pages (5 - d) + k)"
    and leaf: "d = 0 \<Longrightarrow> levels_result F P n (Inr (i, w))"
  shows "\<exists>r. find_levels e p npages d i w = Some r \<and> levels_result F P n r"
  using d bound win fm link leaf
proof (induction d arbitrary: i w)
  case 0
  then show ?case by simp
next
  case (Suc d)
  define l where "l = 4 - d"
  have l: "l < 5" "5 - Suc d = l" "5 - d = Suc l" "l = 0 \<longleftrightarrow> d = 4" using Suc.prems(1) by (auto simp: l_def)
  define E :: nat where "E = 2 ^ (levelBits ! l)"
  define W :: nat where "W = 2 ^ lp l"
  define i' where "i' = i * E"
  define sI where "sI = offAddrToLevelIndex l (searchAddr p)"
  define j0 where "j0 = (if sI div E * E = i' then sI mod E else 0)"
  have bp: "i * (E * W) = i' * W" "level_pages l = E * W" by (simp_all add: level_pages_def E_def W_def i'_def)
  note prems = Suc.prems(2-5) [unfolded l(2) bp]
  have bd: "(i' + E) * W \<le> 2 ^ 35" using prems(1) unfolding add_mult_distrib .
  have win: "scan_win F w (i' * W) (E * W) (i' * W)" using prems(2) by simp
  note sl = sum_slice_block [OF l(1) bd [unfolded W_def]]
  note st = start_entry [OF l(1) low win [unfolded W_def], folded E_def, folded sI_def, folded j0_def]
  have S: "\<forall>j<E. sums_to (summary p l (i' + j)) (region F l (i' + j))"
    using tree l(1) sl(2) by (simp add: tree_ok_def level_ok_def)
  obtain r where r: "scan_entries l i' npages (map (summary p l) [i' + j0 ..< i' + E]) j0 0 0 w = Some r" "scan_result l F n i' E r"
    using scan_entries_ok [OF l(1) S bd [unfolded W_def] n, of j0 0 0 w] st n(2) by auto
  have ent: "drop j0 (map (summary p l) [i' ..< i' + E]) = map (summary p l) [i' + j0 ..< i' + E]" by (simp add: drop_map)
  have lv: "summaryLevels - Suc d = l" by (simp add: summaryLevels_def l_def)
  have step: "find_levels e p npages (Suc d) i w = (case r of
        Descend i w \<Rightarrow> find_levels e p npages d i w
      | Scanned base sz w \<Rightarrow>
          if sz \<ge> npages then do {
            let addr = off_add (levelIndexToOffAddr l i') (base * pageSize);
            sa \<leftarrow> findMappedAddr e p (fst w);
            Some (Inl (addr, sa))
          }
          else if l = 0 then Some (Inl (0, maxSearchAddr))
          else None)"
    unfolding find_levels.simps lv Let_def
    unfolding E_def [symmetric] sI_def [symmetric]
    unfolding i'_def [symmetric] sl(1)
    unfolding Option.bind.bind_lunit j0_def [symmetric] ent r(1) by (rule refl)
  show ?case
  proof (cases r)
    case (Descend c w')
    have c: "i' \<le> c" "c < i' + E" "n \<le> free_max (region F l c)" "scan_win F w' (c * W) W (c * W)"
        "\<And>k. first_fit (region F l c) n k \<Longrightarrow> first_fit (blk F (i' * W) (E * W)) n ((c - i') * W + k)"
      using r(2) by (simp_all add: Descend scan_result_def W_def)
    have cb: "(c + 1) * W \<le> 2 ^ 35" using mult_le_mono1 [of "c + 1" "i' + E" W] c(2) bd by simp
    have cW: "i' * W + ((c - i') * W + k) = c * W + k" for k using c(1) by (simp flip: add_mult_distrib add.assoc)
    have lk: "first_fit (blk F 0 (2 ^ 35)) n (c * W + k)" if "first_fit (region F l c) n k" for k
      using prems(4) [OF c(5) [OF that]] unfolding cW .
    have reg: "region F l c = blk F (c * W) W" by (simp add: region_blk W_def)
    show ?thesis
    proof (cases "d = 0")
      case True
      then have l4: "l = 4" "W = 512" by (simp_all add: l_def W_def)
      then have "levels_result F P n (Inr (c, w'))" using c(3,4) cb lk by (simp add: levels_result_def)
      then show ?thesis unfolding step Descend using True by simp
    next
      case False
      then have "l < 4" by (simp add: l_def)
      then have b: "level_pages (5 - d) = W" by (simp add: l(3) level_pages W_def)
      have "\<exists>r. find_levels e p npages d c w' = Some r \<and> levels_result F P n r"
        using Suc.prems(1) cb c(3,4) lk False by (intro Suc.IH) (simp_all add: b reg algebra_simps)
      then show ?thesis unfolding step Descend by simp
    qed
  next
    case (Scanned base sz w')
    show ?thesis
    proof (cases "npages \<le> sz")
      case True
      then have "n \<le> unat sz" using n by (simp add: word_le_nat_alt)
      then have f: "first_fit (blk F (i' * W) (E * W)) n (unat base)" "valid_win F w'"
        using r(2) by (simp_all add: Scanned scan_result_def W_def)
      have ff: "first_fit (blk F 0 (2 ^ 35)) n (i' * W + unat base)" by (rule prems(4) [OF f(1)])
      then have "i' * W + unat base + n \<le> 2 ^ 35" "F (i' * W + unat base)" using first_fit_free [OF ff n(2)] n(2) by auto
      then obtain sa where sa: "findMappedAddr e p (fst w') = Some sa" "P sa" using mapped [OF f(2)] n(2) by fastforce
      have "base * pageSize = of_nat (unat base * 2 ^ 13)" by (simp add: page_consts)
      then have addr: "off_add (levelIndexToOffAddr l i') (base * pageSize) = page_addr (i' * W + unat base)"
        unfolding off_add_def level_addr [OF l(1)] W_def [symmetric] by (simp only: page_addr_add)
      have "\<not> free_max (blk F 0 (2 ^ 35)) < n" using first_fit_free_max [OF ff] by simp
      then have "levels_result F P n (Inl (page_addr (i' * W + unat base), sa))" using ff sa by (auto simp: levels_result_def)
      then show ?thesis unfolding step Scanned using True sa(1) by (simp add: addr Let_def)
    next
      case False
      then have "\<not> n \<le> unat sz" using n by (simp add: word_le_nat_alt)
      then have lt: "free_max (blk F (i' * W) (E * W)) < n" using r(2) by (simp add: Scanned scan_result_def W_def)
      then have l0: "l = 0" using prems(3) l(4) Suc.prems(1) by fastforce
      then have "E * W = 2 ^ 35" using bp(2) level_pages(1) by simp
      moreover have "i' = 0" using bd calculation by (simp add: algebra_simps W_def)
      ultimately have "free_max (blk F 0 (2 ^ 35)) < n" using lt by simp
      then have "levels_result F P n (Inl (0, maxSearchAddr))" by (simp add: levels_result_def)
      then show ?thesis unfolding step Scanned using False l0 by simp
    qed
  qed
qed

subsection \<open>The result of \<open>find\<close>\<close>

lemma chunk_in_use:
  assumes "pa_ok p" "x div 2 ^ 22 \<in> chunk_set p"
  shows "x \<in> addrs (ranges (inUse p))"
proof -
  obtain r where r: "r \<in> set (ranges (inUse p))" "x div 2 ^ 22 * 2 ^ 22 \<in> rset r"
    using assms(2) by (auto simp: chunk_set_def addrs_def)
  then have "2 ^ 22 dvd off (r_base r)" "2 ^ 22 dvd off (r_limit r)" using assms(1) by (auto simp: pa_ok_def aligned_ranges_def)
  then obtain a b where ab: "off (r_base r) = 2 ^ 22 * a" "off (r_limit r) = 2 ^ 22 * b" by (auto elim!: dvdE)
  then have "2 ^ 22 * a \<le> x div 2 ^ 22 * 2 ^ 22" "2 ^ 22 * (x div 2 ^ 22) < 2 ^ 22 * b" using r(2) by (simp_all add: rset_def mult.commute)
  then have "2 ^ 22 * a \<le> x" "x div 2 ^ 22 < b" using div_times_less_eq_dividend [of x "2 ^ 22"] by simp_all
  then have "x \<in> rset r" using ab by (simp add: rset_def div_less_iff_less_mult mult.commute)
  then show ?thesis using r(1) by (auto simp: addrs_def)
qed

lemma free_page_in_use: "pa_ok p \<Longrightarrow> page_free p k \<Longrightarrow> k * 2 ^ 13 \<in> addrs (ranges (inUse p))"
proof -
  have "k * 2 ^ 13 div 2 ^ 22 = k div 512"
    using div_mult_mult1 [of "2 ^ 13" k "2 ^ 9"] by (simp add: mult.commute)
  then show "pa_ok p \<Longrightarrow> page_free p k \<Longrightarrow> k * 2 ^ 13 \<in> addrs (ranges (inUse p))"
    by (intro chunk_in_use) (simp_all add: page_free_def)
qed

text \<open>An address that may become \<open>searchAddr\<close>.\<close>

definition good_hint :: "pageAlloc \<Rightarrow> offAddr \<Rightarrow> bool" where
  "good_hint p sa \<longleftrightarrow> page_of sa < 2 ^ 35 \<and> (\<forall>k. page_free p k \<longrightarrow> page_of sa \<le> k)"

lemma page_of_le: "off x \<le> k * 2 ^ 13 \<Longrightarrow> page_of x \<le> k"
  using div_le_mono [of "off x" "k * 2 ^ 13" "2 ^ 13"] by (simp add: page_of_def)

lemma good_hintI:
  assumes "page_free p k" "k < 2 ^ 35" "\<And>k. page_free p k \<Longrightarrow> off sa \<le> k * 2 ^ 13"
  shows "good_hint p sa"
  using assms(3) [THEN page_of_le] assms(1,2) unfolding good_hint_def by (meson le_less_trans)

lemma findMappedAddr_ok:
  assumes ok: "pa_ok p" and win: "valid_win (page_free p) w" and k: "page_free p k" "k < 2 ^ 35"
  shows "\<exists>sa. findMappedAddr e p (fst w) = Some sa \<and> good_hint p sa"
proof (cases "pa_test p \<or> \<not> arenaMapped e (fst w)")
  case False
  then show ?thesis using win by (auto simp: findMappedAddr_def valid_win_def intro!: good_hintI [OF k])
next
  case True
  have in_use: "page_free p k \<Longrightarrow> k * 2 ^ 13 \<in> addrs (ranges (inUse p))" for k by (rule free_page_in_use [OF ok])
  have low: "page_free p k \<Longrightarrow> off (fst w) \<le> k * 2 ^ 13" for k using win by (simp only: valid_win_def)
  have ex: "\<exists>x\<in>addrs (ranges (inUse p)). off (fst w) \<le> x" using low [OF k(1)] in_use [OF k(1)] by (rule bexI)
  then have ne: "ranges (inUse p) \<noteq> []" by (auto simp: addrs_def)
  have "rs_ok (ranges (inUse p))" using ok by (simp add: pa_ok_def addrRanges_ok_def)
  from findAddrGreaterEqual_spec [OF this ne, of "fst w"] ex obtain v where v: "findAddrGreaterEqual (inUse p) (fst w) = Some v" "snd v"
      "\<forall>x\<in>addrs (ranges (inUse p)). off (fst w) \<le> x \<longrightarrow> off (fst v) \<le> x" by auto
  have "good_hint p (fst v)"
    by (rule good_hintI [OF k]) (use v(3) low in_use in blast)
  then show ?thesis using v(1,2) True by (cases v) (simp add: findMappedAddr_def)
qed

lemma chunk_bitmap:
  assumes "pa_ok p" "c \<in> chunk_set p"
  shows "c < 2 ^ 26" "\<exists>m. chunkOf p (of_nat c) = Some m \<and> pageBits_ok (pallocBits m) \<and> free_list (pallocBits m) = region (page_free p) 4 c"
proof -
  show c: "c < 2 ^ 26" using assms by (fastforce simp: pa_ok_def chunk_ok_def)
  have "shows_state p (page_free p) c"
    using pa_ok_has [OF assms] assms(2) by (intro pa_ok_chunk_shows [of p c "fst (view p c)" "snd (view p c)"]) simp_all
  then show "\<exists>m. chunkOf p (of_nat c) = Some m \<and> pageBits_ok (pallocBits m) \<and> free_list (pallocBits m) = region (page_free p) 4 c"
    using c by (simp add: shows_state_def chunkOf_at)
qed

lemma page_addr_in_chunk: "chunkBase (of_nat c) + of_nat k * pageSize = page_addr (c * 512 + k)"
  by (simp add: chunkBase_page page_consts page_addr_def algebra_simps)

lemma find_in_chunk_ok:
  assumes ok: "pa_ok p" and n: "unat npages = n" "0 < n" and fm: "n \<le> free_max (region (page_free p) 4 c)"
    and c26: "c < 2 ^ 26" and win: "scan_win (page_free p) w (c * 512) 512 (c * 512)"
  shows "\<exists>k sa. find_in_chunk e p npages (c, w) = Some (page_addr (c * 512 + k), sa) \<and>
    first_fit (region (page_free p) 4 c) n k \<and> good_hint p sa"
proof -
  have reg: "region (page_free p) 4 c = blk (page_free p) (c * 512) 512" by (simp add: region_blk)
  obtain k where k: "first_fit (region (page_free p) 4 c) n k" using first_fit_ex [OF fm] by blast
  then have kF: "page_free p (c * 512 + k)" "k < 512" using first_fit_free [of "page_free p" "c * 512" 512 n k] n(2) by (force simp: reg)+
  then have "c \<in> chunk_set p" by (simp add: page_free_def)
  then obtain m where m: "chunkOf p (of_nat c) = Some m" "pageBits_ok (pallocBits m)"
      "free_list (pallocBits m) = region (page_free p) 4 c" using chunk_bitmap(2) [OF ok] by blast
  obtain r si where f: "palloc_find (pallocBits m) npages 0 = Some (r, si)" "found 0 (free_list (pallocBits m)) n r"
      "found 0 (free_list (pallocBits m)) 1 si"
    using palloc_find_found [OF m(2), of npages 0] n by (auto simp: word_less_nat_alt)
  have "\<not> free_max (region (page_free p) 4 c) < n" "\<not> free_max (region (page_free p) 4 c) < 1" using fm n(2) by simp_all
  then obtain k s where ks: "first_fit (region (page_free p) 4 c) n k" "r = of_nat k" "first_fit (region (page_free p) 4 c) 1 s" "si = of_nat s"
    using f(2,3) by (auto simp: found_def m(3))
  have s: "s < 512" "page_free p (c * 512 + s)" using first_fit_free [OF ks(3) [unfolded reg]] by force+
  have s0: "\<not> page_free p (c * 512 + t)" if "t < s" for t
    using ks(3) that s(1) unfolding reg first_fit_def run_at_def by (auto simp: nth_blk)
  have k512: "k < 512" using first_fit_free [OF ks(1) [unfolded reg] n(2)] n(2) by simp
  have ne: "(of_nat k :: uint64) \<noteq> NOT 0" using k512 by (intro small_idx) simp
  have sz: "chunkBase (of_nat c + 1) - page_addr (c * 512 + s) = of_nat ((512 - s) * 2 ^ 13)"
  proof -
    have "chunkBase (of_nat c + 1) = page_addr (c * 512 + s) + of_nat ((512 - s) * 2 ^ 13)"
      using chunkBase_page [of "Suc c"] s(1) unfolding page_addr_add by (simp add: add.commute)
    then show ?thesis by (simp only: add_diff_cancel_left')
  qed
  have "scan_win (page_free p) w (c * 512) 512 (c * 512 + s)"
  proof -
    have "c * 512 + s \<le> k" if "page_free p k" "c * 512 \<le> k" for k 
    proof (rule ccontr)
      assume "\<not> c * 512 + s \<le> k"
      then have "k - c * 512 < s" "c * 512 + (k - c * 512) = k" using that(2) by simp_all
      then show False using s0 that(1) by metis
    qed
    then show ?thesis using win unfolding scan_win_def by (meson le_add1 less_le_trans mult_le_mono1)
  qed
  then obtain w' where w': "foundFree w (page_addr (c * 512 + s)) (of_nat ((512 - s) * 2 ^ 13)) = Some w'"
      "scan_win (page_free p) w' (c * 512) 512 (c * 512 + s + (512 - s))"
    using foundFree_ok [of "page_free p" w "c * 512" 512 "c * 512 + s" "512 - s"] s(1) c26 by auto
  obtain sa where sa: "findMappedAddr e p (fst w') = Some sa" "good_hint p sa"
    using findMappedAddr_ok [OF ok _ s(2), of w' e] w'(2) s(1) c26 by (auto simp: scan_win_def)
  have "find_in_chunk e p npages (c, w) = Some (page_addr (c * 512 + k), sa)"
    unfolding find_in_chunk_def Let_def prod.case m(1) Option.bind.bind_lunit f(1) ks(2,4) if_not_P [OF ne]
      page_addr_in_chunk sz w'(1) sa(1) by (rule refl)
  then show ?thesis using ks(1) sa(2) by blast
qed

text \<open>\<open>find\<close> on a good state: the first run of the address space, or 0.\<close>

lemma find_ok:
  assumes ok: "pa_ok p" and n: "unat npages = n" "0 < n"
  shows "\<exists>addr sa. find e p npages = Some (addr, sa) \<and>
    (if free_max (blk (page_free p) 0 (2 ^ 35)) < n then addr = 0
     else (\<exists>k. first_fit (blk (page_free p) 0 (2 ^ 35)) n k \<and> addr = page_addr k) \<and> good_hint p sa)"
proof -
  have mapped: "\<exists>sa. findMappedAddr e p (fst w) = Some sa \<and> good_hint p sa"
    if "valid_win (page_free p) w" "page_free p k" "k < 2 ^ 35" for w k by (rule findMappedAddr_ok [OF ok that])
  have "scan_win (page_free p) (minOffAddr, maxOffAddr) 0 (2 ^ 35) 0"
    by (simp add: scan_win_def valid_win_def off_def minOffAddr_def maxOffAddr_def heapAddrBits_def)
  then have "\<exists>r. find_levels e p npages 5 0 (minOffAddr, maxOffAddr) = Some r \<and> levels_result (page_free p) (good_hint p) n r"
    using ok by (intro find_levels_ok [OF _ _ n mapped]) (simp_all add: pa_ok_def level_pages)
  then obtain r where r: "find_levels e p npages 5 0 (minOffAddr, maxOffAddr) = Some r" "levels_result (page_free p) (good_hint p) n r"
    by blast
  show ?thesis
  proof (cases r)
    case (Inl v)
    then show ?thesis using r by (cases v) (simp add: find_def summaryLevels_def levels_result_def)
  next
    case (Inr cw)
    obtain c w where cw: "cw = (c, w)" by (cases cw)
    have c: "c < 2 ^ 26" "n \<le> free_max (region (page_free p) 4 c)" "scan_win (page_free p) w (c * 512) 512 (c * 512)"
        "\<And>k. first_fit (region (page_free p) 4 c) n k \<Longrightarrow> first_fit (blk (page_free p) 0 (2 ^ 35)) n (c * 512 + k)"
      using r(2) by (simp_all add: Inr cw levels_result_def)
    obtain k sa where k: "find_in_chunk e p npages (c, w) = Some (page_addr (c * 512 + k), sa)"
        "first_fit (region (page_free p) 4 c) n k" "good_hint p sa"
      using find_in_chunk_ok [OF ok n c(2,1,3)] by blast
    have "find e p npages = Some (page_addr (c * 512 + k), sa)"
      unfolding find_def summaryLevels_def r(1) by (simp add: Inr cw k(1))
    moreover have "\<not> free_max (blk (page_free p) 0 (2 ^ 35)) < n" using first_fit_free_max [OF c(4) [OF k(2)]] by simp
    ultimately show ?thesis using c(4) [OF k(2)] k(3) by auto
  qed
qed

end
