(* ===== verification/PageHeap.thy ===== *)
theory PageHeap
  imports PageFind
begin

text \<open>
  The page allocator as its callers see it: a set of free pages from which \<open>alloc\<close> takes the first run that is long
  enough and to which \<open>free\<close> gives a run back, and the consequences for a heap that is used through them.
\<close>

subsection \<open>Allocating\<close>

text \<open>All pages of the address space, \<open>True\<close> for a free one.\<close>

definition heap_pages :: "pageAlloc \<Rightarrow> bool list" where
  "heap_pages p = blk (page_free p) 0 (2 ^ 35)"

lemma pa_ok_searchAddr: "pa_ok p \<Longrightarrow> good_hint p sa \<Longrightarrow> pa_ok (p\<lparr>searchAddr := sa\<rparr>)"
  by (simp add: pa_ok_def good_hint_def chunk_ok_def)

lemma first_fit_chunk:
  assumes "first_fit (region F 4 c) n k" "0 < n" "c < 2 ^ 26" "\<And>j. F j \<Longrightarrow> c * 512 \<le> j"
  shows "first_fit (blk F 0 (2 ^ 35)) n (c * 512 + k)"
proof -
  have reg: "region F 4 c = blk F (c * 512) 512" by (simp add: region_blk)
  have k: "k + n \<le> 512" "\<forall>t<n. F (c * 512 + k + t)" using first_fit_free [OF assms(1) [unfolded reg] assms(2)] by simp_all
  have "run_at (blk F 0 (2 ^ 35)) (c * 512 + k) n" using k assms(3) by (simp add: run_at_def nth_blk)
  moreover have "\<not> run_at (blk F 0 (2 ^ 35)) j n" if j: "j < c * 512 + k" for j
  proof
    assume r: "run_at (blk F 0 (2 ^ 35)) j n"
    then have Fj: "F (j + t)" if "t < n" for t using that unfolding run_at_def by (auto simp: nth_blk)
    then have "c * 512 \<le> j" using assms(4) [OF Fj [of 0]] assms(2) by simp
    then obtain i where i: "j = c * 512 + i" "i < k" using j by (auto simp: le_iff_add)
    then have "run_at (region F 4 c) i n" using k(1) Fj unfolding reg run_at_def by (auto simp: nth_blk add.assoc)
    then show False using assms(1) i(2) by (simp add: first_fit_def)
  qed
  ultimately show ?thesis by (simp add: first_fit_def)
qed

lemma page_split: "page_of x = page_of x div 512 * 512 + page_of x mod 512"
  by simp

lemma alloc_near_ok:
  assumes ok: "pa_ok p" and n: "unat npages = n" "0 < n" and c: "chunkIndex (searchAddr p) < pa_end p"
  shows "\<exists>r. alloc_near p npages = Some r \<and>
    (case r of None \<Rightarrow> True | Some (addr, sa) \<Rightarrow> (\<exists>k. first_fit (heap_pages p) n k \<and> addr = page_addr k) \<and> good_hint p sa)"
proof -
  define i where "i = chunkIndex (searchAddr p)"
  define c where "c = unat i"
  have ic: "i = of_nat c" by (simp add: c_def)
  have c2: "c < sum_len p 4" "c < 2 ^ 26" using c ok by (simp_all add: c_def i_def pa_ok_def word_less_nat_alt)
  have "page_of (searchAddr p) div 512 = c" by (simp add: c_def i_def unat_chunkIndex)
  then have sa: "page_of (searchAddr p) = c * 512 + unat (chunkPageIndex (searchAddr p))"
    using page_split [of "searchAddr p"] by (simp add: unat_chunkPageIndex)
  have low: "c * 512 + unat (chunkPageIndex (searchAddr p)) \<le> k" if "page_free p k" for k
    using ok that by (simp add: pa_ok_def flip: sa)
  have s: "sums_to (summary p 4 c) (region (page_free p) 4 c)"
    using ok c2(2) entries_of_4 by (simp add: pa_ok_def tree_ok_def level_ok_def)
  have reg: "region (page_free p) 4 c = blk (page_free p) (c * 512) 512" by (simp add: region_blk)
  have mx: "npages \<le> sum_max (summary p 4 c) \<longleftrightarrow> n \<le> free_max (region (page_free p) 4 c)"
    using sums_to_nat(2) [OF s] n by (simp add: word_le_nat_alt)
  have get: "sum_get p 4 (unat i) = Some (summary p 4 c)" using c2(1) by (simp add: sum_get_def c_def)
  have i512: "chunkPageIndex (searchAddr p) < 512" by (simp add: word_less_nat_alt unat_chunkPageIndex)
  show ?thesis
  proof (cases "npages \<le> pallocChunkPages - chunkPageIndex (searchAddr p) \<and> npages \<le> sum_max (summary p 4 c)")
    case False
    then have "alloc_near p npages = Some None"
      unfolding alloc_near_def i_def [symmetric] Let_def get Option.bind.bind_lunit by simp
    then show ?thesis by simp
  next
    case True
    then have fm: "n \<le> free_max (region (page_free p) 4 c)" by (simp add: mx)
    obtain k0 where "first_fit (region (page_free p) 4 c) n k0" using first_fit_ex [OF fm] by blast
    then have "page_free p (c * 512 + k0)" "k0 < 512" using first_fit_free [of "page_free p" "c * 512" 512 n k0] n(2) by (force simp: reg)+
    then have cs: "c \<in> chunk_set p" by (simp add: page_free_def)
    obtain m where m: "chunkOf p (of_nat c) = Some m" "pageBits_ok (pallocBits m)"
        "free_list (pallocBits m) = region (page_free p) 4 c" using chunk_bitmap(2) [OF ok cs] by blast
    have "\<forall>k<unat (chunkPageIndex (searchAddr p)). k \<in> pages (pallocBits m)"
    proof (intro allI impI)
      fix k assume k: "k < unat (chunkPageIndex (searchAddr p))"
      then have "\<not> page_free p (c * 512 + k)" using low [of "c * 512 + k"] by auto
      moreover have "k < 512" using k i512 by (simp add: word_less_nat_alt)
      ultimately show "k \<in> pages (pallocBits m)" using free_list_pages [OF m(2), of k] by (simp add: m(3) reg nth_blk)
    qed
    then obtain r si where f: "palloc_find (pallocBits m) npages (chunkPageIndex (searchAddr p)) = Some (r, si)"
        "found 0 (free_list (pallocBits m)) n r" "found 0 (free_list (pallocBits m)) 1 si"
      using palloc_find_found [OF m(2) _ i512, of npages] n by (auto simp: word_less_nat_alt)
    have "\<not> free_max (region (page_free p) 4 c) < n" "\<not> free_max (region (page_free p) 4 c) < 1" using fm n(2) by simp_all
    then obtain k s where ks: "first_fit (region (page_free p) 4 c) n k" "r = of_nat k" "first_fit (region (page_free p) 4 c) 1 s" "si = of_nat s"
      using f(2,3) by (auto simp: found_def m(3))
    have k512: "k < 512" using first_fit_free [OF ks(1) [unfolded reg] n(2)] n(2) by simp
    have ne: "(of_nat k :: uint64) \<noteq> NOT 0" using k512 by (intro small_idx) simp
    have low': "c * 512 \<le> j" if "page_free p j" for j using low [OF that] by simp
    have fit: "first_fit (heap_pages p) n (c * 512 + k)" "first_fit (heap_pages p) 1 (c * 512 + s)"
      unfolding heap_pages_def using ks(1,3) n(2) c2(2) low' by (intro first_fit_chunk; simp)+
    have s: "page_free p (c * 512 + s)" "s < 512" using first_fit_free [OF ks(3) [unfolded reg]] by force+
    have "good_hint p (page_addr (c * 512 + s))"
    proof (rule good_hintI [OF s(1)])
      fix j assume j: "page_free p j"
      have "c * 512 + s \<le> j"
      proof (rule ccontr)
        assume "\<not> c * 512 + s \<le> j"
        moreover from this have "run_at (heap_pages p) j 1" using j c2(2) s(2) by (simp add: run_at_def heap_pages_def nth_blk)
        ultimately show False using fit(2) by (simp add: first_fit_def)
      qed
      then show "off (page_addr (c * 512 + s)) \<le> j * 2 ^ 13" using c2(2) s(2) by (subst off_page_addr) simp_all
    qed (use c2(2) s(2) in simp)
    moreover have "alloc_near p npages = Some (Some (page_addr (c * 512 + k), page_addr (c * 512 + s)))"
      unfolding alloc_near_def i_def [symmetric] Let_def if_P [OF conjunct1 [OF True]] get Option.bind.bind_lunit
        if_P [OF conjunct2 [OF True]]
      unfolding ic m(1) f(1) Option.bind.bind_lunit prod.case ks(2,4) if_not_P [OF ne] page_addr_in_chunk by (rule refl)
    ultimately show ?thesis using fit(1) by auto
  qed
qed

lemma page_addr_nonzero:
  assumes "pa_ok p" "page_free p k" "k < 2 ^ 35"
  shows "page_addr k \<noteq> 0"
proof
  assume "page_addr k = 0"
  then have "k * 2 ^ 13 = off 0" using off_page_addr [of k] assms(3) by simp
  then have "k = 2 ^ 34" by (simp add: off_def arenaBaseOffset_def)
  then show False using assms(1,2) by (simp add: pa_ok_def page_free_def)
qed

lemma first_run_cases:
  assumes "0 < n"
  shows "free_max xs < n \<Longrightarrow> first_run xs n = None" "first_fit xs n k \<Longrightarrow> first_run xs n = Some k"
proof -
  show "first_fit xs n k \<Longrightarrow> first_run xs n = Some k" by (simp add: first_run_eq [OF assms])
  assume "free_max xs < n"
  then have "\<not> first_fit xs n i" for i using first_fit_free_max by fastforce
  then show "first_run xs n = None" using first_run_eq [OF assms] by (cases "first_run xs n") auto
qed

lemma searchAddr_beyond:
  assumes "pa_ok p" "pa_end p \<le> chunkIndex (searchAddr p)"
  shows "\<not> page_free p k"
proof
  assume k: "page_free p k"
  then have "k div 512 < unat (pa_end p)" using assms(1) by (auto simp: pa_ok_def chunk_ok_def page_free_def)
  moreover have "page_of (searchAddr p) div 512 \<le> k div 512" using assms(1) k by (intro div_le_mono) (simp add: pa_ok_def)
  moreover have "unat (pa_end p) \<le> page_of (searchAddr p) div 512" using assms(2) by (simp add: word_le_nat_alt unat_chunkIndex)
  ultimately show False by simp
qed

lemma heap_pages_none: "(\<And>k. \<not> page_free p k) \<Longrightarrow> free_max (heap_pages p) = 0"
  by (rule none_free) (simp add: heap_pages_def nth_blk)

lemma heap_pages_free: "free_max (heap_pages p) = 0 \<Longrightarrow> k < 2 ^ 35 \<Longrightarrow> \<not> page_free p k"
  using free_max_0 [of "heap_pages p" k] by (simp add: heap_pages_def nth_blk)

lemma page_free_bound: "pa_ok p \<Longrightarrow> page_free p k \<Longrightarrow> k < 2 ^ 35"
proof -
  assume "pa_ok p" "page_free p k"
  then have "k div 512 < 2 ^ 26" using chunk_bitmap(1) [of p "k div 512"] by (simp add: page_free_def)
  then show "k < 2 ^ 35" by (simp add: div_less_iff_less_mult)
qed

lemma exhausted_hint:
  assumes "pa_ok p" "free_max (heap_pages p) = 0"
  shows "good_hint p maxSearchAddr"
proof -
  have "\<not> page_free p k" for k using heap_pages_free [OF assms(2)] page_free_bound [OF assms(1)] by blast
  then show ?thesis by (simp add: good_hint_def maxSearchAddr_def maxOffAddr_def page_of_def off_def heapAddrBits_def)
qed

text \<open>What is left of an allocation once the run is chosen.\<close>

lemma alloc_finish:
  assumes ok: "pa_ok p" and n: "unat npages = n" "0 < n" and k: "first_fit (heap_pages p) n k" and sa: "good_hint p sa"
  shows "\<exists>p'. do {
      (p, scav) \<leftarrow> pa_allocRange p (page_addr k) npages;
      Some (if lessThan (searchAddr p) sa then p\<lparr>searchAddr := sa\<rparr> else p, page_addr k, scav)
    } = Some (p', page_addr k, of_nat (card {j \<in> {k ..< k + n}. page_scav p j}) * pageSize) \<and>
    page_addr k \<noteq> 0 \<and> pa_ok p' \<and> same_heap p p' \<and>
    (\<forall>j. page_free p' j \<longleftrightarrow> page_free p j \<and> j \<notin> {k ..< k + n}) \<and>
    (\<forall>j. page_scav p' j \<longleftrightarrow> page_scav p j \<and> j \<notin> {k ..< k + n})"
proof -
  have kn: "k + n \<le> 2 ^ 35" "\<forall>t<n. page_free p (k + t)"
    using first_fit_free [OF k [unfolded heap_pages_def] n(2)] by simp_all
  have r: "is_range (page_addr k) npages k n" using kn n by (simp add: is_range_def off_page_addr)
  have fr: "\<forall>j\<in>{k ..< k + n}. page_free p j"
  proof
    fix j assume "j \<in> {k ..< k + n}"
    then have "j - k < n" "k + (j - k) = j" by (simp_all add: less_diff_conv2)
    then show "page_free p j" using kn(2) by metis
  qed
  then obtain p1 where p1: "pa_allocRange p (page_addr k) npages = Some (p1, of_nat (card {j \<in> {k ..< k + n}. page_scav p j}) * pageSize)"
      "pa_ok p1" "same_heap p p1" "\<forall>j. page_free p1 j \<longleftrightarrow> page_free p j \<and> j \<notin> {k ..< k + n}"
      "\<forall>j. page_scav p1 j \<longleftrightarrow> page_scav p j \<and> j \<notin> {k ..< k + n}"
    using pa_allocRange_ok [OF ok r fr] by (elim exE conjE) (rule that)
  have nz: "page_addr k \<noteq> 0" using page_addr_nonzero [OF ok, of k] kn n(2) by force
  have "good_hint p1 sa" using sa p1(4) by (simp add: good_hint_def)
  then have ok': "pa_ok (p1\<lparr>searchAddr := sa\<rparr>)" by (rule pa_ok_searchAddr [OF p1(2)])
  show ?thesis unfolding p1(1) using p1(2-5) ok' nz by (auto simp: same_heap_def)
qed

definition alloc_post :: "pageAlloc \<Rightarrow> nat \<Rightarrow> pageAlloc \<Rightarrow> uintptr \<Rightarrow> uintptr \<Rightarrow> bool" where
  "alloc_post p n p' addr scav \<longleftrightarrow>
     (case first_run (heap_pages p) n of
       None \<Rightarrow> addr = 0 \<and> scav = 0 \<and> page_free p' = page_free p \<and> page_scav p' = page_scav p
     | Some k \<Rightarrow> addr = page_addr k \<and> addr \<noteq> 0 \<and>
         scav = of_nat (card {j \<in> {k ..< k + n}. page_scav p j}) * pageSize \<and>
         (\<forall>j. page_free p' j \<longleftrightarrow> page_free p j \<and> j \<notin> {k ..< k + n}) \<and>
         (\<forall>j. page_scav p' j \<longleftrightarrow> page_scav p j \<and> j \<notin> {k ..< k + n}))"

text \<open>How \<open>alloc\<close> goes on when \<open>searchAddr\<close> is inside the heap: with the address and the hint that the search gives.\<close>

definition alloc_rest :: "pageAlloc \<Rightarrow> uintptr \<Rightarrow> bool \<Rightarrow> uintptr \<Rightarrow> offAddr \<Rightarrow> (pageAlloc \<times> uintptr \<times> uintptr) go" where
  "alloc_rest p npages exhausted addr sa =
     (if exhausted then Some (if npages = 1 then p\<lparr>searchAddr := maxSearchAddr\<rparr> else p, 0, 0)
      else do {
        (p, scav) \<leftarrow> pa_allocRange p addr npages;
        Some (if lessThan (searchAddr p) sa then p\<lparr>searchAddr := sa\<rparr> else p, addr, scav)
      })"

lemma pa_alloc_choice:
  assumes ok: "pa_ok p" and n: "unat npages = n" "0 < n" and c: "\<not> pa_end p \<le> chunkIndex (searchAddr p)"
  obtains (exhausted) addr sa where "pa_alloc e p npages = alloc_rest p npages True addr sa" "free_max (heap_pages p) < n"
  | (found) k sa where "pa_alloc e p npages = alloc_rest p npages False (page_addr k) sa" "first_fit (heap_pages p) n k" "good_hint p sa"
proof -
  obtain near where near: "alloc_near p npages = Some near"
      "case near of None \<Rightarrow> True | Some (addr, sa) \<Rightarrow> (\<exists>k. first_fit (heap_pages p) n k \<and> addr = page_addr k) \<and> good_hint p sa"
    using alloc_near_ok [OF ok n] c by (auto simp: not_le)
  obtain addr sa where f: "find e p npages = Some (addr, sa)"
      "if free_max (heap_pages p) < n then addr = 0 else (\<exists>k. first_fit (heap_pages p) n k \<and> addr = page_addr k) \<and> good_hint p sa"
    using find_ok [OF ok n] unfolding heap_pages_def by blast
  obtain addr' sa' where c': "(case near of Some v \<Rightarrow> Some v | None \<Rightarrow> find e p npages) = Some (addr', sa')"
      "near = None \<and> free_max (heap_pages p) < n \<and> addr' = 0 \<or>
       (\<exists>k. first_fit (heap_pages p) n k \<and> addr' = page_addr k) \<and> good_hint p sa'"
    using near(2) f by (cases near) (auto split: if_splits)
  have step: "pa_alloc e p npages = alloc_rest p npages (near = None \<and> addr' = 0) addr' sa'"
    unfolding pa_alloc_def if_not_P [OF c] near(1) Option.bind.bind_lunit c'(1) prod.case alloc_rest_def by (rule refl)
  show ?thesis
  proof (cases "near = None \<and> free_max (heap_pages p) < n \<and> addr' = 0")
    case True
    then show ?thesis using exhausted [of addr' sa'] step by simp
  next
    case False
    then obtain k where k: "first_fit (heap_pages p) n k" "addr' = page_addr k" "good_hint p sa'" using c'(2) by blast
    obtain p' where "page_addr k \<noteq> 0" using alloc_finish [OF ok n k(1,3)] by blast
    then show ?thesis using found [of k sa'] step k by simp
  qed
qed

lemma pa_alloc_ok:
  assumes ok: "pa_ok p" and npages: "0 < npages"
  shows "\<exists>p' addr scav. pa_alloc e p npages = Some (p', addr, scav) \<and> pa_ok p' \<and> same_heap p p' \<and>
    alloc_post p (unat npages) p' addr scav"
proof -
  define n where "n = unat npages"
  have n: "unat npages = n" "0 < n" using npages by (simp_all add: n_def word_less_nat_alt)
  have same: "same_heap p p" by (simp add: same_heap_def)
  note fr = first_run_cases [OF n(2), of "heap_pages p"]
  show ?thesis
    unfolding n(1)
  proof (cases "pa_end p \<le> chunkIndex (searchAddr p)")
    case True
    then have "first_run (heap_pages p) n = None" using heap_pages_none [of p] searchAddr_beyond [OF ok] n(2) by (intro fr(1)) simp
    moreover have "pa_alloc e p npages = Some (p, 0, 0)" using True by (simp add: pa_alloc_def)
    ultimately show "\<exists>p' addr scav. pa_alloc e p npages = Some (p', addr, scav) \<and> pa_ok p' \<and> same_heap p p' \<and>
    alloc_post p n p' addr scav" using ok same by (simp add: alloc_post_def)
  next
    case False
    show "\<exists>p' addr scav. pa_alloc e p npages = Some (p', addr, scav) \<and> pa_ok p' \<and> same_heap p p' \<and>
    alloc_post p n p' addr scav"
    proof (rule pa_alloc_choice [OF ok n False, of e])
      fix addr sa assume step: "pa_alloc e p npages = alloc_rest p npages True addr sa" and none: "free_max (heap_pages p) < n"
      define p' where "p' = (if npages = 1 then p\<lparr>searchAddr := maxSearchAddr\<rparr> else p)"
      have "pa_ok p'"
      proof (cases "npages = 1")
        case one: True
        then have "good_hint p maxSearchAddr" using none n(1) by (intro exhausted_hint [OF ok]) simp
        then show ?thesis using one pa_ok_searchAddr [OF ok] by (simp add: p'_def)
      qed (use ok in \<open>simp add: p'_def\<close>)
      moreover have "pa_alloc e p npages = Some (p', 0, 0)" unfolding step p'_def by (simp add: alloc_rest_def)
      moreover have "same_heap p p'" "page_free p' = page_free p" "page_scav p' = page_scav p" by (simp_all add: p'_def same_heap_def)
      ultimately show ?thesis using fr(1) none by (simp add: alloc_post_def)
    next
      fix k sa assume step: "pa_alloc e p npages = alloc_rest p npages False (page_addr k) sa"
        and k: "first_fit (heap_pages p) n k" "good_hint p sa"
      obtain p' where p': "do {
          (p, scav) \<leftarrow> pa_allocRange p (page_addr k) npages;
          Some (if lessThan (searchAddr p) sa then p\<lparr>searchAddr := sa\<rparr> else p, page_addr k, scav)
        } = Some (p', page_addr k, of_nat (card {j \<in> {k ..< k + n}. page_scav p j}) * pageSize)"
        "page_addr k \<noteq> 0" "pa_ok p'" "same_heap p p'"
        "\<forall>j. page_free p' j \<longleftrightarrow> page_free p j \<and> j \<notin> {k ..< k + n}"
        "\<forall>j. page_scav p' j \<longleftrightarrow> page_scav p j \<and> j \<notin> {k ..< k + n}"
        using alloc_finish [OF ok n k] by (elim exE conjE) (rule that)
      have "pa_alloc e p npages = Some (p', page_addr k, of_nat (card {j \<in> {k ..< k + n}. page_scav p j}) * pageSize)"
        unfolding step alloc_rest_def using p'(1) by simp
      then show ?thesis using fr(2) [OF k(1)] p'(2-6) by (simp add: alloc_post_def)
    qed
  qed
qed

lemma page_used_free: "page_used p k \<longleftrightarrow> k div 512 \<in> chunk_set p \<and> \<not> page_free p k"
  by (auto simp: page_used_def page_free_def)

lemma same_heap_used: "same_heap p p' \<Longrightarrow> chunk_set p' = chunk_set p"
  by (simp add: same_heap_def chunk_set_def)

subsection \<open>A heap of one free chunk\<close>

text \<open>A state for examples: the chunk at \<open>0xc000000000\<close> is in use and all of its pages are free.\<close>

definition tree_of :: "(nat \<Rightarrow> bool) \<Rightarrow> nat \<Rightarrow> nat \<Rightarrow> pallocSum" where
  "tree_of F l i = packPallocSum (of_nat (free_start (region F l i))) (of_nat (free_max (region F l i))) (of_nat (free_end (region F l i)))"

lemma tree_of_ok: "tree_ok (tree_of F) F"
  unfolding tree_ok_def level_ok_def
proof (intro allI impI)
  fix l i :: nat
  have "length (region F l i) \<le> 2 ^ 21" using power_increasing [OF lp_bounds(2), of "2 :: nat" l] by simp
  then show "sums_to (tree_of F l i) (region F l i)" unfolding tree_of_def by (rule pack_sums_to)
qed

definition sample_env :: env where
  "sample_env = \<lparr>physPageSize = 0x1000, physHugePageSize = 0x200000, sumBase = (\<lambda>l. 0x7f0000000000 + of_nat l * 0x100000000),
     scavBase = 0x7f1000000000, arenaMapped = (\<lambda>_. False)\<rparr>"

definition sample_chunk :: nat where
  "sample_chunk = 0x2030000"

definition sample_index :: scavengeIndex where
  "sample_index = \<lparr>si_chunks = (\<lambda>_. 0), si_min = 0x2030000, si_max = 0x2030200, minHeapIdx = 0x2030000, searchAddrBg = 0, searchAddrForce = 0,
     freeHWM = minOffAddr, si_gen = 0, si_test = True\<rparr>"

definition sample_heap :: pageAlloc where
  "sample_heap = \<lparr>summary = tree_of (\<lambda>k. k div 512 = sample_chunk), sum_len = (\<lambda>_. 2 ^ 26),
     chunks = [0x1018 \<mapsto> (\<lambda>_. \<lparr>pallocBits = replicate 8 0, scavenged = replicate 8 0\<rparr>)], searchAddr = 0xc000000000,
     pa_start = 0x2030000, pa_end = 0x2030001, inUse = \<lparr>ranges = [mk_range 0xc000000000 0xc000400000], ranges_cap = 16, totalBytes = 0x400000\<rparr>,
     scav_index = sample_index, summaryMappedReady = 0, pa_test = True\<rparr>"

lemma pageBits_zero: "pageBits_ok (replicate 8 0)" "pages (replicate 8 0) = {}"
  by (simp_all add: pageBits_ok_def pallocChunkPages_def pages_def pb_bit_def)

lemma sample_has: "has sample_heap sample_chunk ({}, {})"
  by (simp add: has_def chunk_at_def sample_heap_def pageBits_zero cnt_def si_load_def sample_index_def unpackScavChunkData_def sample_chunk_def word_le_nat_alt word_less_nat_alt)

lemma sample_off: "off 0xc000000000 = sample_chunk * 2 ^ 22" "off 0xc000400000 = (sample_chunk + 1) * 2 ^ 22"
  by (simp_all add: off_def arenaBaseOffset_def sample_chunk_def)

lemma sample_chunk_set: "chunk_set sample_heap = {sample_chunk}"
  by (auto simp: chunk_set_def sample_heap_def addrs_def rset_def sample_off)

lemma sample_page_free: "page_free sample_heap k \<longleftrightarrow> k div 512 = sample_chunk"
  using view_eq [OF sample_has] by (auto simp: page_free_def sample_chunk_set)

lemma sample_heap_ok: "pa_ok sample_heap"
proof -
  have ps: "page_free sample_heap = (\<lambda>k. k div 512 = sample_chunk)" by (simp add: sample_page_free fun_eq_iff)
  have v: "view sample_heap sample_chunk = ({}, {})" by (rule view_eq [OF sample_has])
  have r: "addrRanges_ok (inUse sample_heap)"
    by (simp add: sample_heap_def addrRanges_ok_def rs_ok_def range_ok_def lower_seg_off rset_def)
      (simp add: off_def arenaBaseOffset_def)
  have a: "aligned_ranges (ranges (inUse sample_heap))" by (simp add: sample_heap_def aligned_ranges_def sample_off)
  have c: "chunk_ok sample_heap sample_chunk"
  proof -
    have "sample_chunk * 512 div 2 ^ lp l < 2 ^ 26" for l
      using div_le_mono2 [of "2 ^ 9" "2 ^ lp l" "sample_chunk * 512"] power_increasing [OF lp_bounds(1), of "2 :: nat" l]
      by (simp add: sample_chunk_def)
    then show ?thesis unfolding chunk_ok_def v using sample_has by (simp add: sample_heap_def sample_chunk_def)
  qed
  have s: "page_of (searchAddr sample_heap) = sample_chunk * 512" by (simp add: sample_heap_def page_of_def sample_off)
  have "sample_chunk * 512 \<le> k" if "k div 512 = sample_chunk" for k using that by auto
  then show ?thesis
    unfolding pa_ok_def ps sample_chunk_set s
    using r a c tree_of_ok by (simp add: sample_heap_def sample_chunk_def)
qed

lemma sample_first_run: "0 < n \<Longrightarrow> n \<le> 512 \<Longrightarrow> first_run (heap_pages sample_heap) n = Some (sample_chunk * 512)"
proof -
  assume n: "0 < n" "n \<le> 512"
  have "sample_chunk * 512 + 512 \<le> 2 ^ 35" by (simp add: sample_chunk_def)
  then have b: "k < 2 ^ 35" if "k < sample_chunk * 512 + 512" for k using that by (rule less_le_trans [rotated])
  have "run_at (heap_pages sample_heap) (sample_chunk * 512) n"
    using n by (auto simp: run_at_def heap_pages_def nth_blk sample_page_free sample_chunk_def)
  moreover have "\<not> run_at (heap_pages sample_heap) j n" if "j < sample_chunk * 512" for j
  proof
    assume r: "run_at (heap_pages sample_heap) j n"
    then have "page_free sample_heap j" using n(1) b [of j] that unfolding run_at_def by (force simp: heap_pages_def nth_blk)
    then have "sample_chunk * 512 \<le> j" by (auto simp: sample_page_free)
    then show False using that by simp
  qed
  ultimately show "first_run (heap_pages sample_heap) n = Some (sample_chunk * 512)"
    using n(1) by (simp add: first_run_eq first_fit_def)
qed

lemma sample_page_addr: "page_addr (sample_chunk * 512) = 0xc000000000"
  by (simp add: page_addr_def sample_chunk_def arenaBaseOffset_def)

subsection \<open>Allocating and freeing\<close>

text \<open>C4: \<open>alloc\<close> on a good state never panics and keeps the invariant.  It returns the first run of \<open>npages\<close> free
  pages in address order, takes exactly these pages and reports how many bytes of them were scavenged; if there is no such
  run, it returns 0 and changes no page.  The radix tree of summaries, \<open>searchAddr\<close> and the fast path are not visible.\<close>

theorem pa_alloc_correct:
  assumes "pa_ok p" "0 < npages"
  shows "\<exists>p' addr scav. pa_alloc e p npages = Some (p', addr, scav) \<and> pa_ok p' \<and>
    (case first_run (heap_pages p) (unat npages) of
       None \<Rightarrow> addr = 0 \<and> scav = 0 \<and> page_free p' = page_free p \<and> page_scav p' = page_scav p
     | Some k \<Rightarrow> addr = page_addr k \<and> addr \<noteq> 0 \<and>
         scav = of_nat (card {j \<in> {k ..< k + unat npages}. page_scav p j}) * pageSize \<and>
         (\<forall>j. page_free p' j \<longleftrightarrow> page_free p j \<and> j \<notin> {k ..< k + unat npages}) \<and>
         (\<forall>j. page_scav p' j \<longleftrightarrow> page_scav p j \<and> j \<notin> {k ..< k + unat npages}))"
  using pa_alloc_ok [OF assms, of e] unfolding alloc_post_def by blast

theorem pa_alloc_correct_witness:
  "\<exists>p' scav. pa_alloc sample_env sample_heap 3 = Some (p', 0xc000000000, scav) \<and> pa_ok p' \<and>
     \<not> page_free p' (sample_chunk * 512 + 2) \<and> page_free p' (sample_chunk * 512 + 3)"
proof -
  have r: "first_run (heap_pages sample_heap) (unat (3 :: uint64)) = Some (sample_chunk * 512)"
    using sample_first_run [of 3] by simp
  from pa_alloc_correct [OF sample_heap_ok, of 3 sample_env] show ?thesis
    unfolding r by (auto simp: sample_page_addr sample_page_free)
qed

text \<open>C5: \<open>free\<close> of a run of allocated pages never panics and keeps the invariant; exactly these pages become
  free, and what is scavenged stays as it is.\<close>

theorem pa_free_correct:
  assumes "pa_ok p" "is_range base npages b n" "\<forall>k\<in>{b ..< b + n}. page_used p k"
  shows "\<exists>p'. pa_free p base npages = Some p' \<and> pa_ok p' \<and>
    (\<forall>k. page_free p' k \<longleftrightarrow> page_free p k \<or> k \<in> {b ..< b + n}) \<and>
    (\<forall>k. page_used p' k \<longleftrightarrow> page_used p k \<and> k \<notin> {b ..< b + n}) \<and> page_scav p' = page_scav p"
proof -
  obtain p' where p': "pa_free p base npages = Some p'" "pa_ok p'" "same_heap p p'"
      "\<forall>k. page_free p' k \<longleftrightarrow> page_free p k \<or> k \<in> {b ..< b + n}" "\<forall>k. page_scav p' k \<longleftrightarrow> page_scav p k"
    using pa_free_ok [OF assms] by (elim exE conjE) (rule that)
  have "page_used p' k \<longleftrightarrow> page_used p k \<and> k \<notin> {b ..< b + n}" for k
    using p'(4) [rule_format, of k] assms(3) same_heap_used [OF p'(3)] by (auto simp: page_used_free)
  then show ?thesis using p' by (auto simp: fun_eq_iff)
qed

definition sample_pages :: "nat set" where
  "sample_pages = {sample_chunk * 512 ..< sample_chunk * 512 + 3}"

lemma sample_pages_free: "k \<in> sample_pages \<Longrightarrow> k div 512 = sample_chunk"
  unfolding sample_pages_def by (rule div_nat_eqI) simp_all

lemma sample_alloc:
  "\<exists>p1 scav. pa_alloc sample_env sample_heap 3 = Some (p1, 0xc000000000, scav) \<and> pa_ok p1 \<and> same_heap sample_heap p1 \<and>
     (\<forall>j. page_free p1 j \<longleftrightarrow> page_free sample_heap j \<and> j \<notin> sample_pages) \<and> (\<forall>k\<in>sample_pages. page_used p1 k)"
proof -
  have r: "first_run (heap_pages sample_heap) (unat (3 :: uint64)) = Some (sample_chunk * 512)"
    using sample_first_run [of 3] by simp
  from pa_alloc_ok [OF sample_heap_ok, of 3 sample_env] obtain p1 scav where
      p1: "pa_alloc sample_env sample_heap 3 = Some (p1, 0xc000000000, scav)" "pa_ok p1" "same_heap sample_heap p1"
      "\<forall>j. page_free p1 j \<longleftrightarrow> page_free sample_heap j \<and> j \<notin> sample_pages"
    unfolding alloc_post_def r by (auto simp: sample_page_addr sample_pages_def)
  have "\<forall>k\<in>sample_pages. page_used p1 k"
    using sample_pages_free by (simp add: page_used_free p1(4) same_heap_used [OF p1(3)] sample_chunk_set)
  then show ?thesis using p1 by blast
qed

lemma sample_range: "is_range 0xc000000000 3 (sample_chunk * 512) 3"
  by (simp add: is_range_def sample_off sample_chunk_def)

theorem pa_free_correct_witness:
  "\<exists>p1 p2 scav. pa_alloc sample_env sample_heap 3 = Some (p1, 0xc000000000, scav) \<and>
     pa_free p1 0xc000000000 3 = Some p2 \<and> pa_ok p2 \<and> page_free p2 = page_free sample_heap"
proof -
  obtain p1 scav where p1: "pa_alloc sample_env sample_heap 3 = Some (p1, 0xc000000000, scav)" "pa_ok p1"
      "\<forall>j. page_free p1 j \<longleftrightarrow> page_free sample_heap j \<and> j \<notin> sample_pages" "\<forall>k\<in>sample_pages. page_used p1 k"
    using sample_alloc by blast
  obtain p2 where p2: "pa_free p1 0xc000000000 3 = Some p2" "pa_ok p2" "\<forall>k. page_free p2 k \<longleftrightarrow> page_free p1 k \<or> k \<in> sample_pages"
    using pa_free_correct [OF p1(2) sample_range p1(4) [unfolded sample_pages_def]] unfolding sample_pages_def by blast
  have "page_free p2 = page_free sample_heap"
    using p1(3) p2(3) sample_pages_free by (auto simp: fun_eq_iff sample_page_free)
  then show ?thesis using p1(1) p2(1,2) by blast
qed

text \<open>C6: memory that is freed can be had again: after \<open>free\<close> of a run, \<open>alloc\<close> of the same size succeeds, at this run or
  at a lower address.\<close>

theorem free_then_alloc:
  assumes "pa_ok p" "is_range base npages b n" "\<forall>k\<in>{b ..< b + n}. page_used p k"
  shows "\<exists>p1 p2 addr scav. pa_free p base npages = Some p1 \<and> pa_alloc e p1 npages = Some (p2, addr, scav) \<and>
    pa_ok p2 \<and> addr \<noteq> 0 \<and> page_of addr \<le> b"
proof -
  obtain p1 where p1: "pa_free p base npages = Some p1" "pa_ok p1"
      "\<forall>k. page_free p1 k \<longleftrightarrow> page_free p k \<or> k \<in> {b ..< b + n}"
    using pa_free_ok [OF assms] by (elim exE conjE) (rule that)
  have n: "unat npages = n" "0 < n" "b + n \<le> 2 ^ 35" using assms(2) by (simp_all add: is_range_def)
  have "run_at (heap_pages p1) b n" using n p1(3) by (simp add: run_at_def heap_pages_def nth_blk)
  then have "n \<le> free_max (heap_pages p1)" by (rule free_max_greatest)
  then obtain k where k: "first_fit (heap_pages p1) n k" using first_fit_ex by blast
  then have "k \<le> b" using \<open>run_at (heap_pages p1) b n\<close> unfolding first_fit_def by (meson not_less)
  have "0 < npages" using n by (simp add: word_less_nat_alt)
  with pa_alloc_ok [OF p1(2), of npages e] obtain p2 scav where "pa_alloc e p1 npages = Some (p2, page_addr k, scav)" "pa_ok p2" "page_addr k \<noteq> 0"
    unfolding n(1) alloc_post_def first_run_cases(2) [OF n(2) k] by auto
  moreover have "page_of (page_addr k) = k" using \<open>k \<le> b\<close> n by simp
  ultimately show ?thesis using p1(1) \<open>k \<le> b\<close> by auto
qed

theorem free_then_alloc_witness:
  "\<exists>p0 p1 p2 addr s scav. pa_alloc sample_env sample_heap 3 = Some (p0, 0xc000000000, s) \<and> pa_free p0 0xc000000000 3 = Some p1 \<and>
     pa_alloc sample_env p1 3 = Some (p2, addr, scav) \<and> pa_ok p2 \<and> addr \<noteq> 0 \<and> page_of addr \<le> sample_chunk * 512"
proof -
  obtain p0 s where p0: "pa_alloc sample_env sample_heap 3 = Some (p0, 0xc000000000, s)" "pa_ok p0" "\<forall>k\<in>sample_pages. page_used p0 k"
    using sample_alloc by blast
  from free_then_alloc [OF p0(2) sample_range p0(3) [unfolded sample_pages_def], of sample_env] show ?thesis using p0(1) by blast
qed

subsection \<open>Spans\<close>

text \<open>A span is what \<open>alloc\<close> hands out: its base address and its number of pages.\<close>

type_synonym span = "uintptr \<times> uintptr"

definition span_pages :: "span \<Rightarrow> nat set" where
  "span_pages s = {page_of (fst s) ..< page_of (fst s) + unat (snd s)}"

end
