(* ===== verification/PageGrow.thy ===== *)
theory PageGrow
  imports PageHeap
begin

text \<open>
  Growing the heap.  \<open>grow\<close> takes a fresh, chunk-aligned part of the address space into the page allocator: it maps the
  summaries and the scavenger's index, creates bitmaps and makes the new pages free and scavenged.  On a state that only
  \<open>init\<close>, \<open>grow\<close> and the other operations have touched it cannot throw, in particular the pruning of the ranges
  to map never splits one, and the invariant of the page allocator holds from \<open>init\<close> on.
\<close>

subsection \<open>The environment\<close>

text \<open>The physical page size is a power of two between 4 KiB and 512 KiB (checked by \<open>mallocinit\<close>), and the reserved
  arrays lie in user space.\<close>

definition env_ok :: "env \<Rightarrow> bool" where
  "env_ok e \<longleftrightarrow> (\<exists>j. 12 \<le> j \<and> j \<le> 19 \<and> physPageSize e = 2 ^ j) \<and>
     (\<forall>l<5. unat (sumBase e l) + 2 ^ 30 \<le> 2 ^ 47) \<and> unat (scavBase e) + 2 ^ 30 \<le> 2 ^ 47"

lemma off_user:
  assumes "unat (x :: uintptr) < 2 ^ 47"
  shows "off x = unat x + 2 ^ 47"
proof -
  have "x - arenaBaseOffset = x + of_nat (2 ^ 47)" by (simp add: arenaBaseOffset_def)
  moreover have "unat (x + of_nat (2 ^ 47)) = unat x + 2 ^ 47"
    using assms by (subst unat_add_small) simp_all
  ultimately show ?thesis unfolding off_def by (simp only:)
qed

lemma off_reserved:
  assumes "unat x + 2 ^ 30 \<le> 2 ^ 47" "unat y < 2 ^ 30"
  shows "off (x + y) = 2 ^ 47 + unat x + unat y"
proof -
  have "unat (x + y) = unat x + unat y" using assms by (subst unat_add_small) simp_all
  then show ?thesis using assms by (simp add: off_user)
qed

subsection \<open>Pruning\<close>

lemma subtract_below:
  assumes "off (r_base b) \<le> off (r_base a)"
  shows "\<exists>r. range_subtract a b = Some r \<and> off (r_limit r) \<le> max (off (r_limit a)) (2 ^ 47)"
proof -
  have z: "off 0 = 2 ^ 47" by (simp add: off_def arenaBaseOffset_def)
  show ?thesis using assms by (auto simp: range_subtract_def lessThan_off lessEqual_off z)
qed

lemma subtract_above: "off (r_limit a) \<le> off (r_limit b) \<Longrightarrow> \<exists>r. range_subtract a b = Some r"
  by (auto simp: range_subtract_def lessThan_off lessEqual_off)

subsection \<open>Ranges of summaries\<close>

definition dn :: "nat \<Rightarrow> nat \<Rightarrow> nat" where
  "dn k x = x div 2 ^ k * 2 ^ k"

definition up2 :: "nat \<Rightarrow> nat \<Rightarrow> nat" where
  "up2 k x = (x + (2 ^ k - 1)) div 2 ^ k * 2 ^ k"

lemma dn_mono: "x \<le> y \<Longrightarrow> dn k x \<le> dn k y"
  by (simp add: dn_def div_le_mono)

lemma up2_mono: "x \<le> y \<Longrightarrow> up2 k x \<le> up2 k y"
  by (simp add: up2_def div_le_mono)

lemma dn_le: "dn k x \<le> x"
  by (simp add: dn_def)

lemma le_up2: "x \<le> up2 k x"
proof -
  have "(x + (2 ^ k - 1)) mod 2 ^ k < (2 :: nat) ^ k" by simp
  moreover have "up2 k x + (x + (2 ^ k - 1)) mod 2 ^ k = x + (2 ^ k - 1)" unfolding up2_def by (rule div_mult_mod_eq)
  moreover have "1 \<le> (2 :: nat) ^ k" by simp
  ultimately show ?thesis by linarith
qed

lemma up2_less: "up2 k x < x + 2 ^ k"
proof -
  have "up2 k x \<le> x + (2 ^ k - 1)" unfolding up2_def by simp
  moreover have "1 \<le> (2 :: nat) ^ k" by simp
  ultimately show ?thesis by linarith
qed

lemma up2_bound: "x \<le> 2 ^ m \<Longrightarrow> k \<le> m \<Longrightarrow> up2 k x \<le> 2 ^ m"
proof -
  assume x: "x \<le> 2 ^ m" and k: "k \<le> m"
  have e: "2 ^ m = 2 ^ (m - k) * (2 :: nat) ^ k" using k by (simp add: power_add [symmetric])
  have "(x + (2 ^ k - 1)) div 2 ^ k < 2 ^ (m - k) + 1"
  proof (subst div_less_iff_less_mult)
    have "x + (2 ^ k - 1) < 2 ^ m + 2 ^ k" by (rule add_le_less_mono [OF x]) simp
    then show "x + (2 ^ k - 1) < (2 ^ (m - k) + 1) * 2 ^ k" by (simp add: e add_mult_distrib)
  qed simp
  then have "(x + (2 ^ k - 1)) div 2 ^ k * 2 ^ k \<le> 2 ^ (m - k) * 2 ^ k" by (intro mult_le_mono1) simp
  then show ?thesis by (simp add: up2_def e)
qed

lemma push_bit_one: "push_bit k (1 :: 'a::len word) = 2 ^ k"
  by (simp add: push_bit_eq_mult)

text \<open>What the closures of \<open>sysGrow\<close> compute for a range from page \<open>b\<close> up to page \<open>m\<close>, inclusive.\<close>

lemma summary_indices:
  assumes l: "l < 5" and p: "page_of (r_base r) = b" "page_of (r_limit r - 1) = m" "m < 2 ^ 35"
  shows "addrRangeToSummaryRange l r = (dn (levelBits ! l) (b div 2 ^ lp l), up2 (levelBits ! l) (m div 2 ^ lp l + 1))"
    "b \<le> m \<Longrightarrow> dn (levelBits ! l) (b div 2 ^ lp l) \<le> 2 ^ 26" "up2 (levelBits ! l) (m div 2 ^ lp l + 1) \<le> entries_of l"
proof -
  have lb: "levelBits ! l \<le> 14" "levelBits ! l \<le> 35 - lp l" using less5_cases [OF l] by (auto simp: level_consts lp_def)
  have e: "35 - lp l \<le> 26" "35 - lp l + lp l = 35" using lp_bounds [of l] by simp_all
  have m1: "m div 2 ^ lp l < 2 ^ (35 - lp l)"
    using p(3) by (simp add: div_less_iff_less_mult power_add [symmetric] e(2))
  have m2: "m div 2 ^ lp l + 1 \<le> 2 ^ (35 - lp l)" using m1 by simp
  show u: "up2 (levelBits ! l) (m div 2 ^ lp l + 1) \<le> entries_of l" unfolding entries_of_def by (rule up2_bound [OF m2 lb(2)])
  have s: "2 ^ (35 - lp l) \<le> (2 :: nat) ^ 26" using e(1) by (rule power_increasing) simp
  have bnd: "b div 2 ^ lp l < 2 ^ 64"
  proof -
    have "page_of (r_base r) < 2 ^ 51" unfolding page_of_def using off_less [of "r_base r"] by (simp add: div_less_iff_less_mult)
    then have "b div 2 ^ lp l < 2 ^ 51" using p(1) div_le_dividend [of b "2 ^ lp l"] by linarith
    then show ?thesis by simp
  qed
  have ub: "unat (of_nat (b div 2 ^ lp l) :: uint64) = b div 2 ^ lp l" using bnd by (intro unat_of_nat_small) simp
  have um: "unat (of_nat (m div 2 ^ lp l + 1) :: uint64) = m div 2 ^ lp l + 1" by (intro unat_of_nat_small) (use m2 s in simp)
  have "m div 2 ^ lp l + 1 + (2 ^ (levelBits ! l) - 1) < 2 ^ 64"
  proof -
    have "(2 :: nat) ^ (levelBits ! l) \<le> 2 ^ 14" using lb(1) by (rule power_increasing) simp
    then show ?thesis using m2 s by simp
  qed
  then have "unat (alignUp (of_nat (m div 2 ^ lp l + 1)) (2 ^ (levelBits ! l))) = up2 (levelBits ! l) (m div 2 ^ lp l + 1)"
    using lb(1) by (subst unat_alignUp) (simp_all only: um up2_def)
  moreover have "unat (alignDown (of_nat (b div 2 ^ lp l)) (2 ^ (levelBits ! l))) = dn (levelBits ! l) (b div 2 ^ lp l)"
    by (simp only: unat_alignDown ub dn_def)
  ultimately show "addrRangeToSummaryRange l r = (dn (levelBits ! l) (b div 2 ^ lp l), up2 (levelBits ! l) (m div 2 ^ lp l + 1))"
    unfolding addrRangeToSummaryRange_def summary_range [OF l] p(1,2) blockAlignSummaryRange_def Let_def push_bit_one
    by (simp only: prod.case)
  assume "b \<le> m"
  then have "b div 2 ^ lp l \<le> 2 ^ 26" using div_le_mono [of b m "2 ^ lp l"] m1 s by linarith
  then show "dn (levelBits ! l) (b div 2 ^ lp l) \<le> 2 ^ 26" using dn_le le_trans by blast
qed

lemma sum_range_off:
  assumes e: "env_ok e" and l: "l < 5" and b: "lo \<le> 2 ^ 26" "hi \<le> 2 ^ 26" and j: "physPageSize e = 2 ^ j" "12 \<le> j" "j \<le> 19"
  shows "off (r_base (summaryRangeToSumAddrRange e l (lo, hi))) = 2 ^ 47 + unat (sumBase e l) + dn j (lo * 8)"
    "off (r_limit (summaryRangeToSumAddrRange e l (lo, hi))) = 2 ^ 47 + unat (sumBase e l) + up2 j (hi * 8)"
proof -
  have s: "unat (sumBase e l) + 2 ^ 30 \<le> 2 ^ 47" using e l by (simp add: env_ok_def)
  have u: "unat (of_nat x * 8 :: uint64) = x * 8" if "x \<le> 2 ^ 26" for x :: nat
  proof -
    have "unat (of_nat (x * 8) :: uint64) = x * 8" using that by (intro unat_of_nat_small) simp
    then show ?thesis by simp
  qed
  have jj: "(2 :: nat) ^ j \<le> 2 ^ 19" using j(3) by (rule power_increasing) simp
  have d: "unat (alignDown (of_nat lo * 8) (2 ^ j)) = dn j (lo * 8)" by (simp only: unat_alignDown u [OF b(1)] dn_def)
  have a: "unat (alignUp (of_nat hi * 8) (2 ^ j)) = up2 j (hi * 8)"
    using b(2) jj j(3) by (subst unat_alignUp) (simp_all only: u [OF b(2)] up2_def, simp_all)
  have "dn j (lo * 8) < 2 ^ 30" using dn_le [of j "lo * 8"] b(1) by simp
  then show "off (r_base (summaryRangeToSumAddrRange e l (lo, hi))) = 2 ^ 47 + unat (sumBase e l) + dn j (lo * 8)"
    unfolding summaryRangeToSumAddrRange_def j(1) by (simp add: off_reserved [OF s] d)
  have "up2 j (hi * 8) < 2 ^ 30" using up2_less [of j "hi * 8"] b(2) jj by simp
  then show "off (r_limit (summaryRangeToSumAddrRange e l (lo, hi))) = 2 ^ 47 + unat (sumBase e l) + up2 j (hi * 8)"
    unfolding summaryRangeToSumAddrRange_def j(1) by (simp add: off_reserved [OF s] a)
qed

text \<open>A range of whole pages below the top of the address space, by its first and its last page.\<close>

definition range_pages :: "addrRange \<Rightarrow> nat \<Rightarrow> nat \<Rightarrow> bool" where
  "range_pages r b m \<longleftrightarrow> page_of (r_base r) = b \<and> page_of (r_limit r - 1) = m \<and> b \<le> m \<and> m < 2 ^ 35"

lemma sum_addr_range:
  assumes e: "env_ok e" and l: "l < 5" and r: "range_pages r b m"
  obtains j where "off (r_base (addrRangeToSumAddrRange e l r)) = 2 ^ 47 + unat (sumBase e l) + dn j (dn (levelBits ! l) (b div 2 ^ lp l) * 8)"
    "off (r_limit (addrRangeToSumAddrRange e l r)) = 2 ^ 47 + unat (sumBase e l) + up2 j (up2 (levelBits ! l) (m div 2 ^ lp l + 1) * 8)"
    "physPageSize e = 2 ^ j" "j \<le> 19"
proof -
  obtain j where j: "physPageSize e = 2 ^ j" "12 \<le> j" "j \<le> 19" using e by (auto simp: env_ok_def)
  have r': "page_of (r_base r) = b" "page_of (r_limit r - 1) = m" "m < 2 ^ 35" "b \<le> m" using r by (simp_all add: range_pages_def)
  note i = summary_indices [OF l r'(1-3)]
  have "entries_of l \<le> 2 ^ 26" unfolding entries_of_def using lp_bounds [of l] by (intro power_increasing) simp_all
  then have "up2 (levelBits ! l) (m div 2 ^ lp l + 1) \<le> 2 ^ 26" using i(3) by simp
  from sum_range_off [OF e l i(2) [OF r'(4)] this j] show ?thesis
    using that [of j] j(1,3) unfolding addrRangeToSumAddrRange_def i(1) by blast
qed

lemma pow2_exp_inj: "(2 ^ i :: uint64) = 2 ^ j \<Longrightarrow> i \<le> 19 \<Longrightarrow> j \<le> 19 \<Longrightarrow> i = j"
proof -
  assume e: "(2 ^ i :: uint64) = 2 ^ j" and b: "i \<le> 19" "j \<le> 19"
  have u: "unat (2 ^ k :: uint64) = 2 ^ k" if "k \<le> 19" for k
  proof -
    have "(2 :: nat) ^ k \<le> 2 ^ 19" using that by (rule power_increasing) simp
    then have "unat (of_nat (2 ^ k) :: uint64) = 2 ^ k" by (intro unat_of_nat_small) simp
    then show ?thesis by simp
  qed
  have "(2 :: nat) ^ i = 2 ^ j" using arg_cong [OF e, of unat] unfolding u [OF b(1)] u [OF b(2)] .
  then show ?thesis by simp
qed

text \<open>The summaries of ranges lie in the order of the ranges.\<close>

lemma sum_addr_mono:
  assumes e: "env_ok e" and l: "l < 5" and r: "range_pages r b m" and s: "range_pages s b' m'"
  shows "b \<le> b' \<Longrightarrow> off (r_base (addrRangeToSumAddrRange e l r)) \<le> off (r_base (addrRangeToSumAddrRange e l s))"
    "m \<le> m' \<Longrightarrow> off (r_limit (addrRangeToSumAddrRange e l r)) \<le> off (r_limit (addrRangeToSumAddrRange e l s))"
    "2 ^ 47 \<le> off (r_limit (addrRangeToSumAddrRange e l r))"
proof -
  obtain j where j: "off (r_base (addrRangeToSumAddrRange e l r)) = 2 ^ 47 + unat (sumBase e l) + dn j (dn (levelBits ! l) (b div 2 ^ lp l) * 8)"
    "off (r_limit (addrRangeToSumAddrRange e l r)) = 2 ^ 47 + unat (sumBase e l) + up2 j (up2 (levelBits ! l) (m div 2 ^ lp l + 1) * 8)"
    "physPageSize e = 2 ^ j" "j \<le> 19" by (rule sum_addr_range [OF e l r])
  obtain i where i: "off (r_base (addrRangeToSumAddrRange e l s)) = 2 ^ 47 + unat (sumBase e l) + dn i (dn (levelBits ! l) (b' div 2 ^ lp l) * 8)"
    "off (r_limit (addrRangeToSumAddrRange e l s)) = 2 ^ 47 + unat (sumBase e l) + up2 i (up2 (levelBits ! l) (m' div 2 ^ lp l + 1) * 8)"
    "physPageSize e = 2 ^ i" "i \<le> 19" by (rule sum_addr_range [OF e l s])
  have ij: "i = j" using pow2_exp_inj [OF _ i(4) j(4)] i(3) j(3) by simp
  show "off (r_base (addrRangeToSumAddrRange e l r)) \<le> off (r_base (addrRangeToSumAddrRange e l s))" if "b \<le> b'"
    unfolding j(1) i(1) ij by (intro add_left_mono dn_mono mult_le_mono1 div_le_mono that)
  show "off (r_limit (addrRangeToSumAddrRange e l r)) \<le> off (r_limit (addrRangeToSumAddrRange e l s))" if "m \<le> m'"
    unfolding j(2) i(2) ij by (intro add_left_mono up2_mono mult_le_mono1 add_right_mono div_le_mono that)
  show "2 ^ 47 \<le> off (r_limit (addrRangeToSumAddrRange e l r))" unfolding j(2) by simp
qed

subsection \<open>Mapping the summaries\<close>

text \<open>What \<open>sysGrow\<close> finds when the new range \<open>r\<close> is disjoint from those in use: the ranges before the insertion index end
  at or below it, the others start at or above its end.\<close>

definition fits :: "addrRange list \<Rightarrow> nat \<Rightarrow> addrRange \<Rightarrow> nat \<Rightarrow> nat \<Rightarrow> bool" where
  "fits rs i r b m \<longleftrightarrow> range_pages r b m \<and> i \<le> length rs \<and>
     (\<forall>k<length rs. \<exists>b' m'. range_pages (rs ! k) b' m' \<and> (k < i \<longrightarrow> b' \<le> b) \<and> (i \<le> k \<longrightarrow> m \<le> m'))"

definition len_for :: "nat \<Rightarrow> nat \<Rightarrow> nat" where
  "len_for l m = up2 (levelBits ! l) (m div 2 ^ lp l + 1)"

lemma sysGrow_level_ok:
  assumes e: "env_ok e" and l: "l < 5" and f: "fits (ranges (inUse p)) i r b m"
  shows "\<exists>R. sysGrow_level e r i l p = Some (p\<lparr>sum_len := (sum_len p)(l := max (sum_len p l) (len_for l m)), summaryMappedReady := R\<rparr>)"
proof -
  define rs where "rs = ranges (inUse p)"
  define S where "S = addrRangeToSumAddrRange e l"
  have r: "range_pages r b m" "i \<le> length rs" using f by (simp_all add: fits_def rs_def)
  have idx: "addrRangeToSummaryRange l r = (dn (levelBits ! l) (b div 2 ^ lp l), len_for l m)" "len_for l m \<le> sum_cap l"
    using summary_indices [OF l, of r b m] r(1) sum_cap_eq [OF l] by (simp_all add: range_pages_def len_for_def)
  have need: "summaryRangeToSumAddrRange e l (dn (levelBits ! l) (b div 2 ^ lp l), len_for l m) = S r"
    by (simp add: S_def addrRangeToSumAddrRange_def idx(1))
  obtain n1 where n1: "(if i > 0 then range_subtract (S r) (S (rs ! (i - 1))) else Some (S r)) = Some n1"
      "off (r_limit n1) \<le> max (off (r_limit (S r))) (2 ^ 47)"
  proof (cases "i > 0")
    case True
    then have "i - 1 < length rs" "i - 1 < i" using r(2) by simp_all
    then obtain b' m' where "range_pages (rs ! (i - 1)) b' m'" "b' \<le> b" using f unfolding fits_def rs_def by blast
    then have "off (r_base (S (rs ! (i - 1)))) \<le> off (r_base (S r))" unfolding S_def using sum_addr_mono(1) [OF e l _ r(1)] by blast
    from subtract_below [OF this] show ?thesis using that True by auto
  next
    case False
    then show ?thesis using that [of "S r"] by simp
  qed
  obtain n2 where n2: "(if i < length rs then range_subtract n1 (S (rs ! i)) else Some n1) = Some n2"
  proof (cases "i < length rs")
    case True
    then obtain b' m' where s: "range_pages (rs ! i) b' m'" "m \<le> m'" using f unfolding fits_def rs_def by blast
    have "off (r_limit (S r)) \<le> off (r_limit (S (rs ! i)))" unfolding S_def by (rule sum_addr_mono(2) [OF e l r(1) s])
    moreover have "2 ^ 47 \<le> off (r_limit (S (rs ! i)))" unfolding S_def by (rule sum_addr_mono(3) [OF e l s(1) r(1)])
    ultimately have "off (r_limit n1) \<le> off (r_limit (S (rs ! i)))" using n1(2) by linarith
    from subtract_above [OF this] show ?thesis using that True by auto
  next
    case False
    then show ?thesis using that [of n1] by simp
  qed
  define L where "L = (sum_len p)(l := max (sum_len p l) (len_for l m))"
  have len: "(if len_for l m > sum_len p l then if len_for l m \<le> sum_cap l then Some (p\<lparr>sum_len := (sum_len p)(l := len_for l m)\<rparr>) else None
      else Some p) = Some (p\<lparr>sum_len := L\<rparr>)"
    using idx(2) by (simp add: L_def max_def)
  have u: "inUse (p\<lparr>sum_len := L\<rparr>) = inUse p" by simp
  have s1: "(if i > 0 then range_subtract (S r) (addrRangeToSumAddrRange e l (ranges (inUse (p\<lparr>sum_len := L\<rparr>)) ! (i - 1))) else Some (S r)) = Some n1"
    using n1(1) unfolding S_def rs_def u .
  have s2: "(if i < length (ranges (inUse (p\<lparr>sum_len := L\<rparr>))) then range_subtract n1 (addrRangeToSumAddrRange e l (ranges (inUse (p\<lparr>sum_len := L\<rparr>)) ! i)) else Some n1) = Some n2"
    using n2 unfolding S_def rs_def u .
  have "sysGrow_level e r i l p = Some (if range_size n2 = 0 then p\<lparr>sum_len := L\<rparr>
      else (p\<lparr>sum_len := L\<rparr>)\<lparr>summaryMappedReady := summaryMappedReady (p\<lparr>sum_len := L\<rparr>) + range_size n2\<rparr>)"
    unfolding sysGrow_level_def idx(1) Let_def prod.case need len Option.bind.bind_lunit s1 s2 by (rule refl)
  also have "\<dots> = Some (p\<lparr>sum_len := L, summaryMappedReady := summaryMappedReady p + range_size n2\<rparr>)" by (cases p) simp
  finally show ?thesis unfolding L_def by blast
qed

lemma sysGrow_levels_ok:
  assumes e: "env_ok e"
  shows "\<forall>l\<in>set ls. l < 5 \<Longrightarrow> fits (ranges (inUse p)) i r b m \<Longrightarrow>
    \<exists>L R. sysGrow_levels e r i ls p = Some (p\<lparr>sum_len := L, summaryMappedReady := R\<rparr>) \<and>
      (\<forall>l. sum_len p l \<le> L l) \<and> (\<forall>l\<in>set ls. len_for l m \<le> L l)"
proof (induction ls arbitrary: p)
  case Nil
  show ?case by (intro exI [of _ "sum_len p"] exI [of _ "summaryMappedReady p"]) simp
next
  case (Cons l ls)
  obtain R1 where R1: "sysGrow_level e r i l p = Some (p\<lparr>sum_len := (sum_len p)(l := max (sum_len p l) (len_for l m)), summaryMappedReady := R1\<rparr>)"
    using sysGrow_level_ok [OF e _ Cons.prems(2), of l] Cons.prems(1) by auto
  define p1 where "p1 = p\<lparr>sum_len := (sum_len p)(l := max (sum_len p l) (len_for l m)), summaryMappedReady := R1\<rparr>"
  have "fits (ranges (inUse p1)) i r b m" using Cons.prems(2) by (simp add: p1_def)
  then obtain L R where L: "sysGrow_levels e r i ls p1 = Some (p1\<lparr>sum_len := L, summaryMappedReady := R\<rparr>)"
      "\<forall>l. sum_len p1 l \<le> L l" "\<forall>l\<in>set ls. len_for l m \<le> L l"
    using Cons.IH [of p1] Cons.prems(1) by auto
  have a: "sum_len p k \<le> L k" "len_for l m \<le> L l" for k
    using L(2) [rule_format, of k] L(2) [rule_format, of l] by (auto simp: p1_def split: if_splits)
  have "sysGrow_levels e r i (l # ls) p = Some (p\<lparr>sum_len := L, summaryMappedReady := R\<rparr>)"
    using R1 L(1) by (simp add: p1_def)
  then show ?case using a L(3) by auto
qed

subsection \<open>The scavenger's index\<close>

text \<open>The part of the index that is mapped: whole physical pages that cover the chunks in use, or nothing yet.\<close>

definition index_ok :: "env \<Rightarrow> scavengeIndex \<Rightarrow> nat set \<Rightarrow> bool" where
  "index_ok e s C \<longleftrightarrow>
     (if C = {} then si_min s = 0 \<and> si_max s = 0
      else unat (physPageSize e div 8) dvd unat (si_min s) \<and> unat (physPageSize e div 8) dvd unat (si_max s) \<and>
        unat (si_max s) \<le> 2 ^ 26 \<and> (\<forall>c\<in>C. unat (si_min s) \<le> c \<and> c < unat (si_max s)))"

lemma env_pages:
  assumes "env_ok e"
  obtains k where "physPageSize e div 8 = 2 ^ k" "unat (2 ^ k :: uint64) = 2 ^ k" "k \<le> 16"
proof -
  obtain j where j: "12 \<le> j" "j \<le> 19" "physPageSize e = 2 ^ j" using assms by (auto simp: env_ok_def)
  have u: "unat (2 ^ i :: uint64) = 2 ^ i" if "i \<le> 19" for i
  proof -
    have "(2 :: nat) ^ i \<le> 2 ^ 19" using that by (rule power_increasing) simp
    then have "unat (of_nat (2 ^ i) :: uint64) = 2 ^ i" by (intro unat_of_nat_small) simp
    then show ?thesis by simp
  qed
  have "(2 :: nat) ^ j = 2 ^ (j - 3) * 2 ^ 3" using j(1) by (simp only: power_add [symmetric]) simp
  then have "unat (2 ^ j div 8 :: uint64) = unat (2 ^ (j - 3) :: uint64)" using u j(2) by (simp add: unat_div)
  then have "physPageSize e div 8 = 2 ^ (j - 3)" unfolding j(3) by (simp add: word_unat_eq_iff)
  then show ?thesis using that [of "j - 3"] u j(2) by simp
qed

lemma dn_dvd_le: "2 ^ k dvd h \<Longrightarrow> h \<le> x \<Longrightarrow> h \<le> dn k x"
proof -
  assume h: "2 ^ k dvd h" "h \<le> x"
  then have "h = h div 2 ^ k * 2 ^ k" by simp
  also have "\<dots> \<le> dn k x" unfolding dn_def by (intro mult_le_mono1 div_le_mono h(2))
  finally show ?thesis .
qed

lemma up2_dvd_le: "2 ^ k dvd h \<Longrightarrow> x \<le> h \<Longrightarrow> up2 k x \<le> h"
proof -
  assume h: "2 ^ k dvd h" "x \<le> h"
  then obtain q where q: "h = q * 2 ^ k" by (metis dvd_div_mult_self)
  have "x + (2 ^ k - 1) < (q + 1) * 2 ^ k" using add_le_less_mono [OF h(2), of "2 ^ k - 1" "2 ^ k"] by (simp add: q)
  then have "(x + (2 ^ k - 1)) div 2 ^ k < q + 1" by (subst div_less_iff_less_mult) simp_all
  then have "up2 k x \<le> q * 2 ^ k" unfolding up2_def by (intro mult_le_mono1) simp
  then show ?thesis by (simp add: q)
qed

lemma dvd_dn: "2 ^ k dvd dn k x" and dvd_up2: "2 ^ k dvd up2 k x"
  by (simp_all add: dn_def up2_def)

text \<open>The pruning of the range that the new chunks need by the range there is, on indices instead of addresses.\<close>

lemma index_prune:
  fixes B :: uintptr
  assumes B: "unat B + 2 ^ 30 \<le> 2 ^ 47" and le: "unat h0 \<le> 2 ^ 26" "unat h1 \<le> 2 ^ 26" "unat a \<le> 2 ^ 26" "unat z \<le> 2 ^ 26"
    and c: "h0 \<le> h1" "a < z" "\<not> (a < h0 \<and> h1 < z)"
  obtains n where "makeAddrRange (B + h0 * 8) (B + h1 * 8) = Some (mk_range (B + h0 * 8) (B + h1 * 8))"
    "makeAddrRange (B + a * 8) (B + z * 8) = Some (mk_range (B + a * 8) (B + z * 8))"
    "range_subtract (mk_range (B + a * 8) (B + z * 8)) (mk_range (B + h0 * 8) (B + h1 * 8)) = Some n"
    "range_size n = 0 \<longleftrightarrow> h0 \<le> a \<and> z \<le> h1"
proof -
  have off: "off (B + x * 8) = 2 ^ 47 + unat B + 8 * unat x" if "unat x \<le> 2 ^ 26" for x
  proof -
    have x: "unat (x * 8) = 8 * unat x" using that by (subst unat_mult_small) simp_all
    have "unat (x * 8) < 2 ^ 30" unfolding x using that by simp
    from off_reserved [OF B this] show ?thesis unfolding x .
  qed
  note o = off [OF le(1)] off [OF le(2)] off [OF le(3)] off [OF le(4)]
  have mk: "makeAddrRange (B + x * 8) (B + y * 8) = Some (mk_range (B + x * 8) (B + y * 8))"
    if "unat x \<le> 2 ^ 26" "unat y \<le> 2 ^ 26" for x y
  proof -
    have "lower_seg (B + x * 8)" "lower_seg (B + y * 8)" by (simp_all only: lower_seg_off off [OF that(1)] off [OF that(2)])
    then show ?thesis unfolding makeAddrRange_def lower_seg_def by simp
  qed
  have z0: "off 0 = 2 ^ 47" by (simp add: off_def arenaBaseOffset_def)
  have sz: "range_size r = 0 \<longleftrightarrow> off (r_limit r) \<le> off (r_base r)" for r
  proof -
    have "range_size r = 0 \<longleftrightarrow> unat (range_size r) = 0" by (simp add: unat_eq_0)
    then show ?thesis by (simp add: unat_range_size)
  qed
  have c': "unat h0 \<le> unat h1" "unat a < unat z" "\<not> (unat a < unat h0 \<and> unat h1 < unat z)"
    using c by (simp_all add: word_le_nat_alt word_less_nat_alt)
  define n where "n = (if h0 \<le> a \<and> z \<le> h1 then mk_range 0 0
      else if h1 < z \<and> a < h1 then mk_range (B + h1 * 8) (B + z * 8)
      else if a < h0 \<and> h0 < z then mk_range (B + a * 8) (B + h0 * 8)
      else mk_range (B + a * 8) (B + z * 8))"
  have "range_subtract (mk_range (B + a * 8) (B + z * 8)) (mk_range (B + h0 * 8) (B + h1 * 8)) = Some n"
    using c' unfolding range_subtract_def n_def lessThan_off lessEqual_off addrRange.simps o word_le_nat_alt word_less_nat_alt by simp
  moreover have "range_size n = 0 \<longleftrightarrow> h0 \<le> a \<and> z \<le> h1"
    using c' unfolding sz n_def word_le_nat_alt word_less_nat_alt by (auto simp: o)
  ultimately show ?thesis using that mk le by blast
qed

text \<open>New chunks \<open>lo ..< hi\<close>, in bytes: aligned bounds in one segment of the address space.\<close>

definition new_chunks :: "uintptr \<Rightarrow> uintptr \<Rightarrow> nat \<Rightarrow> nat \<Rightarrow> bool" where
  "new_chunks base limit lo hi \<longleftrightarrow> off base = lo * 2 ^ 22 \<and> off limit = hi * 2 ^ 22 \<and> lo < hi \<and> hi \<le> 2 ^ 26 \<and>
     lower_seg base = lower_seg limit"

lemma new_chunks_index: "new_chunks base limit lo hi \<Longrightarrow> unat (chunkIndex base) = lo \<and> unat (chunkIndex limit) = hi"
  by (simp add: new_chunks_def unat_chunkIndex page_of_def)

lemma new_chunks_aligned:
  assumes "off base = lo * 2 ^ 22"
  shows "base mod pallocChunkBytes = 0"
proof -
  have "unat base mod 2 ^ 22 = 0" unfolding mod_offset assms by simp
  then have "unat (base mod pallocChunkBytes) = 0" by (simp add: page_consts unat_mod)
  then show ?thesis by (simp add: unat_eq_0)
qed

lemma disjoint_prune:
  assumes d: "2 ^ k dvd h0" "2 ^ k dvd h1" and c: "h0 \<le> (c :: nat)" "c < h1" and "c \<notin> {lo ..< hi}"
  shows "\<not> (dn k lo < h0 \<and> h1 < up2 k hi)"
proof
  assume "dn k lo < h0 \<and> h1 < up2 k hi"
  then have "lo < h0" "h1 < hi" using dn_dvd_le [OF d(1), of lo] up2_dvd_le [OF d(2), of hi] by (meson leD not_le_imp_less)+
  then show False using c assms(5) by simp
qed

lemma si_sysGrow_ok:
  assumes e: "env_ok e" and i: "index_ok e s C" and n: "new_chunks base limit lo hi"
    and d: "C \<inter> {lo ..< hi} = {} \<or> {lo ..< hi} \<subseteq> C"
  shows "\<exists>mn mx R. si_sysGrow (physPageSize e) (scavBase e) s base limit = Some (s\<lparr>si_min := mn, si_max := mx\<rparr>, R) \<and>
    index_ok e (s\<lparr>si_min := mn, si_max := mx\<rparr>) (C \<union> {lo ..< hi})"
proof -
  obtain k where k: "physPageSize e div 8 = 2 ^ k" "unat (2 ^ k :: uint64) = 2 ^ k" "k \<le> 16" by (rule env_pages [OF e])
  have B: "unat (scavBase e) + 2 ^ 30 \<le> 2 ^ 47" using e by (simp add: env_ok_def)
  have lh: "lo < hi" "hi \<le> 2 ^ 26" using n by (simp_all add: new_chunks_def)
  define a z where "a = alignDown (chunkIndex base) (2 ^ k)" and "z = alignUp (chunkIndex limit) (2 ^ k)"
  have k26: "(2 :: nat) ^ k \<le> 2 ^ 16" using k(3) by (rule power_increasing) simp
  have ua: "unat a = dn k lo" using new_chunks_index [OF n] by (simp add: a_def unat_alignDown dn_def)
  have uz: "unat z = up2 k hi" using new_chunks_index [OF n] lh k(3) k26 by (simp add: z_def unat_alignUp up2_def)
  have b: "dn k lo \<le> lo" "hi \<le> up2 k hi" "up2 k hi \<le> 2 ^ 26" using dn_le le_up2 up2_bound [OF lh(2)] k(3) by auto
  define h0 h1 where "h0 = si_min s" and "h1 = si_max s"
  define z' where "z' = (if z < h0 then h0 else z)"
  define a' where "a' = (if h1 \<noteq> 0 \<and> a > h1 then h1 else a)"
  have h: "unat h0 \<le> unat h1" "unat h1 \<le> 2 ^ 26" "h1 \<noteq> 0 \<longleftrightarrow> C \<noteq> {}" "h1 = 0 \<Longrightarrow> h0 = 0"
    using i by (auto simp: index_ok_def h0_def h1_def split: if_splits)
  have az: "unat a' = (if h1 \<noteq> 0 then min (unat a) (unat h1) else unat a)" "unat z' = max (unat z) (unat h0)"
    by (auto simp: a'_def z'_def word_less_nat_alt)
  have le: "unat h0 \<le> 2 ^ 26" "unat h1 \<le> 2 ^ 26" "unat a' \<le> 2 ^ 26" "unat z' \<le> 2 ^ 26"
    using h(1,2) b lh az ua uz by (auto simp: min_def)
  have lt: "a' < z'" using az ua uz b lh by (auto simp: word_less_nat_alt)
  have nospan: "\<not> (a' < h0 \<and> h1 < z')"
  proof (cases "C = {}")
    case True
    then show ?thesis using h by (auto simp: word_less_nat_alt)
  next
    case False
    then have c: "2 ^ k dvd unat h0" "2 ^ k dvd unat h1" "\<forall>c\<in>C. unat h0 \<le> c \<and> c < unat h1"
      using i k by (auto simp: index_ok_def h0_def h1_def)
    from d show ?thesis
    proof
      assume "C \<inter> {lo ..< hi} = {}"
      then obtain x where x: "unat h0 \<le> x" "x < unat h1" "x \<notin> {lo ..< hi}" using False c(3) by blast
      from disjoint_prune [OF c(1,2) x] show ?thesis using x(1,2) unfolding word_less_nat_alt az ua uz by auto
    next
      assume "{lo ..< hi} \<subseteq> C"
      then have "unat h0 \<le> lo" using lh(1) c(3) by auto
      then have "unat h0 \<le> dn k lo" by (rule dn_dvd_le [OF c(1)])
      then show ?thesis using h(1) unfolding word_less_nat_alt az ua uz by auto
    qed
  qed
  obtain m where m: "makeAddrRange (scavBase e + h0 * 8) (scavBase e + h1 * 8) = Some (mk_range (scavBase e + h0 * 8) (scavBase e + h1 * 8))"
    "makeAddrRange (scavBase e + a' * 8) (scavBase e + z' * 8) = Some (mk_range (scavBase e + a' * 8) (scavBase e + z' * 8))"
    "range_subtract (mk_range (scavBase e + a' * 8) (scavBase e + z' * 8)) (mk_range (scavBase e + h0 * 8) (scavBase e + h1 * 8)) = Some m"
    "range_size m = 0 \<longleftrightarrow> h0 \<le> a' \<and> z' \<le> h1"
    using index_prune [OF B le _ lt nospan] h(1) by (auto simp: word_le_nat_alt)
  define mn where "mn = (if range_size m \<noteq> 0 \<and> (h1 = 0 \<or> a' < h0) then a' else h0)"
  define mx where "mx = (if range_size m \<noteq> 0 \<and> z' > h1 then z' else h1)"
  have "si_sysGrow (physPageSize e) (scavBase e) s base limit = Some (s\<lparr>si_min := mn, si_max := mx\<rparr>, range_size m)"
    unfolding si_sysGrow_def Let_def k(1) a_def [symmetric] z_def [symmetric] h0_def [symmetric] h1_def [symmetric]
      z'_def [symmetric] a'_def [symmetric] m(1-3) Option.bind.bind_lunit
    using n by (simp add: new_chunks_def new_chunks_aligned mn_def mx_def h0_def h1_def)
  moreover have "index_ok e (s\<lparr>si_min := mn, si_max := mx\<rparr>) (C \<union> {lo ..< hi})"
  proof -
    have um: "unat mn = (if h1 = 0 then unat a else min (unat a) (unat h0))"
      using m(4) h lt az unfolding mn_def word_less_nat_alt word_le_nat_alt by auto
    have ux: "unat mx = max (unat z) (unat h1)"
      using m(4) h lt az unfolding mx_def word_less_nat_alt word_le_nat_alt by auto
    have dv: "2 ^ k dvd unat mn" "2 ^ k dvd unat mx"
      using i k h(3) dvd_dn dvd_up2 unfolding um ux ua uz
      by (auto simp: index_ok_def h0_def h1_def min_def max_def split: if_splits)
    have old: "unat h0 \<le> c \<and> c < unat h1" if "c \<in> C" for c
    proof -
      have "C \<noteq> {}" using that by blast
      then show ?thesis using i that by (simp add: index_ok_def h0_def h1_def)
    qed
    have "unat mn \<le> c \<and> c < unat mx" if "c \<in> C \<union> {lo ..< hi}" for c
    proof (cases "c \<in> C")
      case True
      then show ?thesis using old [OF True] h(3) unfolding um ux by auto
    next
      case False
      then show ?thesis using that b(1,2) unfolding um ux ua uz by auto
    qed
    moreover have "unat mx \<le> 2 ^ 26" unfolding ux uz using b(3) h(2) by simp
    ultimately show ?thesis using dv lh k by (simp add: index_ok_def)
  qed
  ultimately show ?thesis by blast
qed

subsection \<open>Bitmaps for the new chunks\<close>

definition fresh_chunk :: pallocData where
  "fresh_chunk = \<lparr>pallocBits = replicate 8 0, scavenged = replicate 8 0\<rparr>"

text \<open>The bitmaps of a chunk, zero where there are none yet.\<close>

definition cell :: "pageAlloc \<Rightarrow> nat \<Rightarrow> pallocData" where
  "cell p c = (case chunks p (c div 2 ^ 13) of None \<Rightarrow> fresh_chunk | Some t \<Rightarrow> t (c mod 2 ^ 13))"

definition grown_chunk :: "pallocData \<Rightarrow> bool" where
  "grown_chunk m \<longleftrightarrow> pageBits_ok (pallocBits m) \<and> pageBits_ok (scavenged m) \<and> pages (pallocBits m) = {} \<and> pages (scavenged m) = {..<512}"

lemma chunk_at_cell: "chunk_at p c = Some m \<Longrightarrow> cell p c = m"
  by (auto simp: chunk_at_def cell_def split: option.splits)

lemma cell_cong: "chunks p = chunks q \<Longrightarrow> cell p = cell q"
  by (simp add: cell_def fun_eq_iff)

lemma chunk_at_cong: "chunks p = chunks q \<Longrightarrow> chunk_at p = chunk_at q"
  by (simp add: chunk_at_def fun_eq_iff)

text \<open>The operation on one chunk of \<open>grow\<close>: its second-level array is created when it is missing.\<close>

definition with_table :: "nat \<Rightarrow> pageAlloc \<Rightarrow> pageAlloc" where
  "with_table i p = (if chunks p i = None then p\<lparr>chunks := (chunks p)(i \<mapsto> (\<lambda>_. fresh_chunk))\<rparr> else p)"

lemma with_table_at:
  "cell (with_table i p) c = cell p c"
  "chunk_at p c = Some m \<Longrightarrow> chunk_at (with_table i p) c = Some m"
  "chunk_at (with_table (c div 2 ^ 13) p) c = Some (cell p c)"
  "with_table i p = p\<lparr>chunks := chunks (with_table i p)\<rparr>"
  by (auto simp: with_table_def cell_def chunk_at_def split: option.splits)

lemma setRange_whole:
  obtains b where "setRange (replicate 8 0) 0 pallocChunkPages = Some b" "pageBits_ok b" "pages b = {..<512}"
proof -
  from pb.set_range [OF pageBits_zero(1) in_chunk_whole] show ?thesis
    using that page_range_whole by (auto simp: pageBits_zero(2))
qed

lemma grow_one:
  assumes c: "c < 2 ^ 26" and f: "cell p c = fresh_chunk"
  shows "\<exists>q m. grow_chunks (c # cs) p = grow_chunks cs q \<and> q = p\<lparr>chunks := chunks q\<rparr> \<and> grown_chunk m \<and> chunk_at q c = Some m \<and>
    (\<forall>d. d \<noteq> c \<longrightarrow> cell q d = cell p d) \<and> (\<forall>d x. d \<noteq> c \<longrightarrow> chunk_at p d = Some x \<longrightarrow> chunk_at q d = Some x)"
proof -
  define p1 where "p1 = with_table (c div 2 ^ 13) p"
  obtain b where b: "setRange (replicate 8 0) 0 pallocChunkPages = Some b" "pageBits_ok b" "pages b = {..<512}" by (rule setRange_whole)
  define f where "f = (\<lambda>m :: pallocData. do { b \<leftarrow> setRange (scavenged m) 0 pallocChunkPages; Some (m\<lparr>scavenged := b\<rparr>) })"
  have at: "chunk_at p1 c = Some fresh_chunk" using with_table_at(3) [of c p] assms(2) by (simp add: p1_def)
  have fm: "f fresh_chunk = Some (fresh_chunk\<lparr>scavenged := b\<rparr>)" using b(1) by (simp add: f_def fresh_chunk_def)
  obtain q where q: "mod_chunk (of_nat c) f p1 = Some q" "chunk_at q = (chunk_at p1)(c \<mapsto> fresh_chunk\<lparr>scavenged := b\<rparr>)"
      "q = p1\<lparr>chunks := chunks q\<rparr>"
    using mod_chunk_at [where f = f, OF at c fm] by blast
  have l1: "unat (ci_l1 (of_nat c)) = c div 2 ^ 13" using c by (simp only: unat_l1 unat_chunk)
  have "c div 2 ^ 13 < 2 ^ pallocChunksL1Bits" using c by (simp add: page_consts div_less_iff_less_mult)
  then have step: "grow_chunks (c # cs) p = grow_chunks cs q"
    using q(1) unfolding grow_chunks.simps Let_def l1 f_def p1_def with_table_def fresh_chunk_def by simp
  have qp: "q = p\<lparr>chunks := chunks q\<rparr>" using q(3) with_table_at(4) [of "c div 2 ^ 13" p] unfolding p1_def [symmetric]
    by (metis pageAlloc.surjective pageAlloc.update_convs(3))
  have cell: "cell q d = cell p d" if "d \<noteq> c" for d
  proof (cases "chunk_at p1 d")
    case (Some x)
    then have "chunk_at q d = Some x" using q(2) that by simp
    then show ?thesis using chunk_at_cell Some with_table_at(1) [of "c div 2 ^ 13" p d] by (simp add: p1_def)
  next
    case None
    then have "chunk_at q d = None" using q(2) that by simp
    then have "cell q d = cell p1 d" using None by (auto simp: chunk_at_def cell_def split: option.splits)
    then show ?thesis using with_table_at(1) by (simp add: p1_def)
  qed
  have keep: "chunk_at q d = Some x" if "d \<noteq> c" "chunk_at p d = Some x" for d x
    using with_table_at(2) [OF that(2)] q(2) that(1) by (simp add: p1_def)
  have "grown_chunk (fresh_chunk\<lparr>scavenged := b\<rparr>)" using b pageBits_zero by (simp add: grown_chunk_def fresh_chunk_def)
  then show ?thesis
    using step qp q(2) cell keep by (intro exI [of _ q] exI [of _ "fresh_chunk\<lparr>scavenged := b\<rparr>"]) simp
qed

lemma grow_chunks_ok:
  assumes "\<forall>c\<in>set cs. c < 2 ^ 26 \<and> cell p c = fresh_chunk" "distinct cs"
  shows "\<exists>q. grow_chunks cs p = Some q \<and> q = p\<lparr>chunks := chunks q\<rparr> \<and> (\<forall>c\<in>set cs. \<exists>m. chunk_at q c = Some m \<and> grown_chunk m) \<and>
    (\<forall>d. d \<notin> set cs \<longrightarrow> cell q d = cell p d) \<and> (\<forall>d x. d \<notin> set cs \<longrightarrow> chunk_at p d = Some x \<longrightarrow> chunk_at q d = Some x)"
  using assms
proof (induction cs arbitrary: p)
  case Nil
  show ?case by (intro exI [of _ p]) simp
next
  case (Cons c cs)
  obtain p1 m where p1: "grow_chunks (c # cs) p = grow_chunks cs p1" "p1 = p\<lparr>chunks := chunks p1\<rparr>" "grown_chunk m" "chunk_at p1 c = Some m"
      "\<forall>d. d \<noteq> c \<longrightarrow> cell p1 d = cell p d" "\<forall>d x. d \<noteq> c \<longrightarrow> chunk_at p d = Some x \<longrightarrow> chunk_at p1 d = Some x"
    using grow_one [of c p cs] Cons.prems(1) by auto
  have "\<forall>d\<in>set cs. d < 2 ^ 26 \<and> cell p1 d = fresh_chunk" using Cons.prems p1(5) by auto
  then obtain q where q: "grow_chunks cs p1 = Some q" "q = p1\<lparr>chunks := chunks q\<rparr>" "\<forall>c\<in>set cs. \<exists>m. chunk_at q c = Some m \<and> grown_chunk m"
      "\<forall>d. d \<notin> set cs \<longrightarrow> cell q d = cell p1 d" "\<forall>d x. d \<notin> set cs \<longrightarrow> chunk_at p1 d = Some x \<longrightarrow> chunk_at q d = Some x"
    using Cons.IH [of p1] Cons.prems(2) by auto
  have "q = p\<lparr>chunks := chunks q\<rparr>" using q(2) p1(2) by (metis pageAlloc.surjective pageAlloc.update_convs(3))
  moreover have "chunk_at q c = Some m" using q(5) p1(4) Cons.prems(2) by simp
  ultimately show ?case
    using p1 q by (intro exI [of _ q]) auto
qed

subsection \<open>The ranges in use\<close>

lemma add_bounds:
  assumes ok: "rs_ok (ranges a)" and add: "add a r = Some a'" and s: "s \<in> set (ranges a')"
  shows "\<exists>t\<in>set (ranges a) \<union> {r}. r_base s = r_base t" "\<exists>t\<in>set (ranges a) \<union> {r}. r_limit s = r_limit t"
proof -
  define i where "i = findSucc a (r_base r)"
  have i: "i \<le> length (ranges a)" using findSucc_is_succ [OF ok, of "r_base r"] by (simp add: i_def is_succ_def)
  define dn up where "dn = (i > 0 \<and> r_limit (ranges a ! (i - 1)) = r_base r)" and "up = (i < length (ranges a) \<and> r_limit r = r_base (ranges a ! i))"
  have a': "a' = add_at a r i up dn" using add by (auto simp: add_def Let_def i_def up_def dn_def split: if_splits)
  have j: "dn \<Longrightarrow> ranges a ! (i - 1) \<in> set (ranges a)" "up \<Longrightarrow> ranges a ! i \<in> set (ranges a)" using i by (auto simp: dn_def up_def)
  have sub: "x \<in> set (ranges a)" if "x \<in> set (take n (ranges a)) \<or> x \<in> set (drop n (ranges a))" for x n
    using that by (auto dest: in_set_takeD in_set_dropD)
  have upd: "x = y \<or> x \<in> set (ranges a)" if "x \<in> set ((ranges a)[n := y])" for x y n
    using that set_update_subset_insert [of "ranges a" n y] by auto
  consider "up \<and> dn" | "\<not> up \<and> dn" | "up \<and> \<not> dn" | "\<not> up \<and> \<not> dn" by blast
  then have "(\<exists>t\<in>set (ranges a) \<union> {r}. r_base s = r_base t) \<and> (\<exists>t\<in>set (ranges a) \<union> {r}. r_limit s = r_limit t)"
  proof cases
    case 1
    then have "s \<in> set ((ranges a)[i - 1 := (ranges a ! (i - 1))\<lparr>r_limit := r_limit (ranges a ! i)\<rparr>]) \<or> s \<in> set (drop (i + 1) (ranges a))"
      using s by (auto simp: a' add_at_def Let_def dest: in_set_takeD)
    then have "s \<in> set ((ranges a)[i - 1 := (ranges a ! (i - 1))\<lparr>r_limit := r_limit (ranges a ! i)\<rparr>]) \<or> s \<in> set (ranges a)"
      by (auto dest: in_set_dropD)
    then show ?thesis using upd j 1 by fastforce
  next
    case 2
    then have "s \<in> set ((ranges a)[i - 1 := (ranges a ! (i - 1))\<lparr>r_limit := r_limit r\<rparr>])"
      using s by (simp add: a' add_at_def Let_def)
    then show ?thesis using upd j 2 by fastforce
  next
    case 3
    then have "s \<in> set ((ranges a)[i := (ranges a ! i)\<lparr>r_base := r_base r\<rparr>])"
      using s by (simp add: a' add_at_def Let_def)
    then show ?thesis using upd j 3 by fastforce
  next
    case 4
    then have "s = r \<or> s \<in> set (ranges a)" using s sub by (auto simp: a' add_at_def Let_def)
    then show ?thesis by auto
  qed
  then show "\<exists>t\<in>set (ranges a) \<union> {r}. r_base s = r_base t" "\<exists>t\<in>set (ranges a) \<union> {r}. r_limit s = r_limit t" by blast+
qed

lemma chunk_set_less: "pa_ok p \<Longrightarrow> c \<in> chunk_set p \<Longrightarrow> c < 2 ^ 26"
  using pa_ok_has has_less by blast

lemma chunks_pages:
  assumes "lo < hi" "hi \<le> 2 ^ 26"
  shows "lo * 512 \<le> hi * 512 - 1" "hi * 512 - 1 < (2 :: nat) ^ 35"
proof -
  have "lo * 512 < hi * 512" "hi * 512 \<le> 2 ^ 26 * 512" using assms by simp_all
  then show "lo * 512 \<le> hi * 512 - 1" "hi * 512 - 1 < (2 :: nat) ^ 35" by (arith, simp)
qed

lemma range_in_use:
  assumes ok: "pa_ok p" and r: "r \<in> set (ranges (inUse p))"
  obtains lo hi where "off (r_base r) = lo * 2 ^ 22" "off (r_limit r) = hi * 2 ^ 22" "lo < hi" "hi \<le> 2 ^ 26"
    "range_pages r (lo * 512) (hi * 512 - 1)"
proof -
  have "2 ^ 22 dvd off (r_base r)" "2 ^ 22 dvd off (r_limit r)" using ok r by (auto simp: pa_ok_def aligned_ranges_def)
  then obtain lo hi where lh: "off (r_base r) = lo * 2 ^ 22" "off (r_limit r) = hi * 2 ^ 22" by (metis dvd_div_mult_self)
  have "off (r_base r) < off (r_limit r)" using ok r by (auto simp: pa_ok_def addrRanges_ok_def rs_ok_def range_ok_def)
  then have l: "lo < hi" unfolding lh by simp
  then have "(hi - 1) * 2 ^ 22 \<in> rset r" unfolding rset_def lh by simp
  then have "hi - 1 \<in> chunk_set p" using r by (auto simp: chunk_set_def addrs_def)
  then have h: "hi \<le> 2 ^ 26" using chunk_set_less [OF ok] by fastforce
  have "off (r_limit r - 1) = hi * 2 ^ 22 - 1" using off_minus [of 1 "r_limit r"] l by (simp add: lh)
  moreover have "hi * 2 ^ 22 - 1 = (hi * 512 - 1) * 2 ^ 13 + (2 ^ 13 - 1)" using l by (simp add: algebra_simps)
  ultimately have "page_of (r_limit r - 1) = hi * 512 - 1" by (simp add: page_of_def)
  moreover have "page_of (r_base r) = lo * 512" by (simp add: page_of_def lh)
  ultimately have "range_pages r (lo * 512) (hi * 512 - 1)"
    using chunks_pages [OF l h] by (simp only: range_pages_def)
  then show ?thesis using that lh l h by blast
qed

lemma new_range:
  assumes "new_chunks base limit lo hi"
  shows "makeAddrRange base limit = Some (mk_range base limit)" "range_ok (mk_range base limit)"
    "c * 2 ^ 22 \<in> rset (mk_range base limit) \<longleftrightarrow> c \<in> {lo ..< hi}" "range_pages (mk_range base limit) (lo * 512) (hi * 512 - 1)"
proof -
  have n: "off base = lo * 2 ^ 22" "off limit = hi * 2 ^ 22" "lo < hi" "hi \<le> 2 ^ 26" "lower_seg base = lower_seg limit"
    using assms by (simp_all add: new_chunks_def)
  show "makeAddrRange base limit = Some (mk_range base limit)" using n(5) by (simp add: makeAddrRange_def lower_seg_def)
  show "range_ok (mk_range base limit)" using n by (simp add: range_ok_def)
  show "c * 2 ^ 22 \<in> rset (mk_range base limit) \<longleftrightarrow> c \<in> {lo ..< hi}" by (simp add: rset_def n)
  have "off (limit - 1) = hi * 2 ^ 22 - 1" using off_minus [of 1 limit] n by simp
  moreover have "hi * 2 ^ 22 - 1 = (hi * 512 - 1) * 2 ^ 13 + (2 ^ 13 - 1)" using n by (simp add: algebra_simps)
  ultimately have "page_of (limit - 1) = hi * 512 - 1" by (simp add: page_of_def)
  moreover have "page_of base = lo * 512" using n(1) by (simp add: page_of_def)
  ultimately show "range_pages (mk_range base limit) (lo * 512) (hi * 512 - 1)"
    using chunks_pages [OF n(3,4)] by (simp only: range_pages_def addrRange.simps)
qed

lemma new_disjoint:
  assumes ok: "pa_ok p" and n: "new_chunks base limit lo hi" and d: "chunk_set p \<inter> {lo ..< hi} = {}"
  shows "rset (mk_range base limit) \<inter> addrs (ranges (inUse p)) = {}"
proof (rule ccontr)
  assume "rset (mk_range base limit) \<inter> addrs (ranges (inUse p)) \<noteq> {}"
  then obtain x r where x: "x \<in> rset (mk_range base limit)" "r \<in> set (ranges (inUse p))" "x \<in> rset r" by (auto simp: addrs_def)
  obtain a b where ab: "off (r_base r) = a * 2 ^ 22" "off (r_limit r) = b * 2 ^ 22" using range_in_use [OF ok x(2)] by metis
  have nn: "off base = lo * 2 ^ 22" "off limit = hi * 2 ^ 22" using n by (simp_all add: new_chunks_def)
  define c where "c = x div 2 ^ 22"
  have "a \<le> c" "c < b" "lo \<le> c" "c < hi"
    using x(1,3) unfolding rset_def ab addrRange.simps nn c_def by (simp_all add: less_eq_div_iff_mult_less_eq div_less_iff_less_mult)
  then have "c * 2 ^ 22 \<in> rset r" "c \<in> {lo ..< hi}" unfolding rset_def ab by simp_all
  then have "c \<in> chunk_set p \<inter> {lo ..< hi}" using x(2) by (auto simp: chunk_set_def addrs_def)
  then show False using d by blast
qed

lemma new_fits:
  assumes ok: "pa_ok p" and n: "new_chunks base limit lo hi" and d: "chunk_set p \<inter> {lo ..< hi} = {}"
  shows "fits (ranges (inUse p)) (findSucc (inUse p) base) (mk_range base limit) (lo * 512) (hi * 512 - 1)"
proof -
  define rs where "rs = ranges (inUse p)"
  have rs: "rs_ok rs" using ok by (simp add: pa_ok_def addrRanges_ok_def rs_def)
  have nn: "off base = lo * 2 ^ 22" "off limit = hi * 2 ^ 22" "lo < hi" using n by (simp_all add: new_chunks_def)
  have succ: "is_succ rs (r_base (mk_range base limit)) (findSucc (inUse p) base)"
    using findSucc_is_succ [of "inUse p" base] rs by (simp add: rs_def)
  have disj: "rset (mk_range base limit) \<inter> addrs rs = {}" using new_disjoint [OF ok n d] by (simp add: rs_def)
  have "\<exists>L U. rs = L @ U \<and> findSucc (inUse p) base = length L \<and>
      (\<forall>s\<in>set L. off (r_limit s) \<le> off base) \<and> (\<forall>s\<in>set U. off limit \<le> off (r_base s))"
  proof (rule add_neighbours [OF rs new_range(2) [OF n] disj succ])
    fix L U
    assume "rs = L @ U" "findSucc (inUse p) base = length L" "\<forall>s\<in>set L. off (r_limit s) \<le> off (r_base (mk_range base limit))"
      "\<forall>s\<in>set U. off (r_limit (mk_range base limit)) \<le> off (r_base s)"
    then show ?thesis by (intro exI [of _ L] exI [of _ U]) simp
  qed
  then obtain L U where LU: "rs = L @ U" "findSucc (inUse p) base = length L"
      "\<forall>s\<in>set L. off (r_limit s) \<le> off base" "\<forall>s\<in>set U. off limit \<le> off (r_base s)" by blast
  have "\<exists>b' m'. range_pages (rs ! k) b' m' \<and> (k < length L \<longrightarrow> b' \<le> lo * 512) \<and> (length L \<le> k \<longrightarrow> hi * 512 - 1 \<le> m')"
    if k: "k < length rs" for k
  proof -
    have in_rs: "rs ! k \<in> set (ranges (inUse p))" using k by (simp add: rs_def)
    obtain a b where ab: "off (r_base (rs ! k)) = a * 2 ^ 22" "off (r_limit (rs ! k)) = b * 2 ^ 22" "a < b" "b \<le> 2 ^ 26"
        "range_pages (rs ! k) (a * 512) (b * 512 - 1)" by (rule range_in_use [OF ok in_rs])
    have "a * 512 \<le> lo * 512" if "k < length L"
    proof -
      have "rs ! k \<in> set L" using that LU(1) by (simp add: nth_append)
      then have "b * 2 ^ 22 \<le> lo * 2 ^ 22" using LU(3) ab(2) nn(1) by auto
      then show ?thesis using ab(3) by simp
    qed
    moreover have "hi * 512 - 1 \<le> b * 512 - 1" if "length L \<le> k"
    proof -
      have "rs ! k \<in> set U" using that k LU(1) by (simp add: nth_append)
      then have "hi * 2 ^ 22 \<le> a * 2 ^ 22" using LU(4) ab(1) nn(2) by auto
      then have "hi \<le> b" using ab(3) by simp
      then show ?thesis by (simp add: diff_le_mono)
    qed
    ultimately show ?thesis using ab(5) by blast
  qed
  then show ?thesis unfolding fits_def LU(2) using new_range(4) [OF n] LU(1) by (auto simp: rs_def [symmetric])
qed

subsection \<open>Growing\<close>

text \<open>The invariant of the page allocator together with what holds outside the chunks in use: no bitmap there has ever been
  written, nor has the scavenger's index.\<close>

definition grow_ok :: "env \<Rightarrow> pageAlloc \<Rightarrow> bool" where
  "grow_ok e p \<longleftrightarrow> pa_ok p \<and> index_ok e (scav_index p) (chunk_set p) \<and>
     (\<forall>c<2 ^ 26. c \<notin> chunk_set p \<longrightarrow> cell p c = fresh_chunk \<and> si_chunks (scav_index p) c = 0)"

lemma align_id:
  assumes "(x :: uintptr) mod pallocChunkBytes = 0"
  shows "alignDown x pallocChunkBytes = x" "alignUp x pallocChunkBytes = x"
proof -
  have e: "pallocChunkBytes = 2 ^ 22" by (simp add: page_consts)
  have m: "unat x mod 2 ^ 22 = 0" using arg_cong [OF assms, of unat] by (simp add: unat_mod page_consts)
  have "unat x = unat x div 2 ^ 22 * 2 ^ 22" using div_mult_mod_eq [of "unat x" "2 ^ 22"] unfolding m by (simp only: add_0_right)
  then obtain q where q: "unat x = q * 2 ^ 22" by blast
  have "unat (alignDown x (2 ^ 22)) = unat x" by (simp only: unat_alignDown q) simp
  then show "alignDown x pallocChunkBytes = x" by (simp add: e word_unat_eq_iff)
  have "unat x < 2 ^ 64" by (rule unat_less_2p64)
  then have "q < 2 ^ 42" by (simp add: q)
  then have "unat x + (2 ^ 22 - 1) < 2 ^ 64" by (simp add: q)
  from unat_alignUp [OF this] have "unat (alignUp x (2 ^ 22)) = (q * 2 ^ 22 + (2 ^ 22 - 1)) div 2 ^ 22 * 2 ^ 22" unfolding q by simp
  also have "\<dots> = unat x" by (simp add: q)
  finally show "alignUp x pallocChunkBytes = x" by (simp add: e word_unat_eq_iff)
qed

lemma cnt_in_index: "unat (si_min s) \<le> c \<Longrightarrow> c < unat (si_max s) \<Longrightarrow> c < 2 ^ 26 \<Longrightarrow>
    cnt s c = Some (unat (sc_inUse (unpackScavChunkData (si_chunks s c))))"
  by (simp add: cnt_def si_load_def word_le_nat_alt word_less_nat_alt)

lemma index_bounds: "index_ok e s C \<Longrightarrow> c \<in> C \<Longrightarrow> unat (si_min s) \<le> c \<and> c < unat (si_max s)"
  by (auto simp: index_ok_def split: if_splits)

lemma new_pages:
  assumes "new_chunks base (base + sz) lo hi"
  shows "is_range base (sz div pageSize) (lo * 512) ((hi - lo) * 512)"
proof -
  have n: "off base = lo * 2 ^ 22" "off (base + sz) = hi * 2 ^ 22" "lo < hi" "hi \<le> 2 ^ 26" using assms by (simp_all add: new_chunks_def)
  have "unat ((base + sz) - base) = hi * 2 ^ 22 - lo * 2 ^ 22" using unat_diff_off [of base "base + sz"] n by simp
  then have "unat sz = (hi - lo) * 2 ^ 22" by (simp add: diff_mult_distrib)
  then have "unat (sz div pageSize) = (hi - lo) * 512" by (simp add: page_consts unat_div)
  moreover have "lo * 512 + (hi - lo) * 512 \<le> 2 ^ 35" using n(3,4) by (simp add: diff_mult_distrib)
  ultimately show ?thesis using n by (simp add: is_range_def)
qed

text \<open>The steps of \<open>grow\<close> up to \<open>update\<close>: the state \<open>q\<close> that \<open>update\<close> starts from.\<close>

definition grown :: "env \<Rightarrow> pageAlloc \<Rightarrow> nat \<Rightarrow> nat \<Rightarrow> uintptr \<Rightarrow> pageAlloc \<Rightarrow> bool" where
  "grown e p lo hi base q \<longleftrightarrow>
     summary q = summary p \<and> pa_test q = pa_test p \<and> addrRanges_ok (inUse q) \<and> aligned_ranges (ranges (inUse q)) \<and>
     chunk_set q = chunk_set p \<union> {lo ..< hi} \<and> index_ok e (scav_index q) (chunk_set q) \<and> si_chunks (scav_index q) = si_chunks (scav_index p) \<and>
     (\<forall>l. sum_len p l \<le> sum_len q l) \<and> (\<forall>l<5. len_for l (hi * 512 - 1) \<le> sum_len q l) \<and>
     unat (pa_end q) = max (unat (pa_end p)) hi \<and> searchAddr q = (if lessThan base (searchAddr p) then base else searchAddr p) \<and>
     (\<forall>c\<in>{lo ..< hi}. \<exists>m. chunk_at q c = Some m \<and> grown_chunk m) \<and>
     (\<forall>c. c \<notin> {lo ..< hi} \<longrightarrow> cell q c = cell p c) \<and> (\<forall>c x. c \<notin> {lo ..< hi} \<longrightarrow> chunk_at p c = Some x \<longrightarrow> chunk_at q c = Some x)"

lemma pa_sysGrow_ok:
  assumes e: "env_ok e" and g: "grow_ok e p" and n: "new_chunks base limit lo hi" and d: "chunk_set p \<inter> {lo ..< hi} = {}"
  shows "\<exists>L R mn mx. pa_sysGrow e p base limit = Some (p\<lparr>sum_len := L, scav_index := (scav_index p)\<lparr>si_min := mn, si_max := mx\<rparr>, summaryMappedReady := R\<rparr>) \<and>
    index_ok e ((scav_index p)\<lparr>si_min := mn, si_max := mx\<rparr>) (chunk_set p \<union> {lo ..< hi}) \<and>
    (\<forall>l. sum_len p l \<le> L l) \<and> (\<forall>l<5. len_for l (hi * 512 - 1) \<le> L l)"
proof -
  have ok: "pa_ok p" and i: "index_ok e (scav_index p) (chunk_set p)" using g by (simp_all add: grow_ok_def)
  have al: "base mod pallocChunkBytes = 0" "limit mod pallocChunkBytes = 0" using n by (auto simp: new_chunks_def intro: new_chunks_aligned)
  obtain L R where L: "sysGrow_levels e (mk_range base limit) (findSucc (inUse p) base) [0 ..< summaryLevels] p = Some (p\<lparr>sum_len := L, summaryMappedReady := R\<rparr>)"
      "\<forall>l. sum_len p l \<le> L l" "\<forall>l\<in>set [0 ..< summaryLevels]. len_for l (hi * 512 - 1) \<le> L l"
    using sysGrow_levels_ok [OF e _ new_fits [OF ok n d], of "[0 ..< summaryLevels]"] by (auto simp: summaryLevels_def)
  obtain mn mx R2 where s: "si_sysGrow (physPageSize e) (scavBase e) (scav_index p) base limit = Some ((scav_index p)\<lparr>si_min := mn, si_max := mx\<rparr>, R2)"
      "index_ok e ((scav_index p)\<lparr>si_min := mn, si_max := mx\<rparr>) (chunk_set p \<union> {lo ..< hi})"
    using si_sysGrow_ok [OF e i n disjI1 [OF d]] by blast
  have "pa_sysGrow e p base limit =
      Some (p\<lparr>sum_len := L, scav_index := (scav_index p)\<lparr>si_min := mn, si_max := mx\<rparr>, summaryMappedReady := R + R2\<rparr>)"
    unfolding pa_sysGrow_def using al new_range(1) [OF n] L(1) s(1) by simp
  moreover have "\<forall>l<5. len_for l (hi * 512 - 1) \<le> L l" using L(3) by (simp add: summaryLevels_def)
  ultimately show ?thesis using L(2) s(2) by blast
qed

text \<open>The last part of \<open>grow\<close> after the two parts of \<open>sysGrow\<close>, without \<open>update\<close>.\<close>

definition grow_tail :: "pageAlloc \<Rightarrow> uintptr \<Rightarrow> uintptr \<Rightarrow> pageAlloc go" where
  "grow_tail p base limit =
     (let p = (if pa_start p = 0 \<or> chunkIndex base < pa_start p then p\<lparr>pa_start := chunkIndex base\<rparr> else p);
          p = (if chunkIndex limit > pa_end p then p\<lparr>pa_end := chunkIndex limit\<rparr> else p)
      in do {
        r \<leftarrow> makeAddrRange base limit;
        u \<leftarrow> add (inUse p) r;
        grow_chunks [unat (chunkIndex base) ..< unat (chunkIndex limit)] (lower_searchAddr base (p\<lparr>inUse := u\<rparr>))
      })"

lemma pa_grow_eq:
  assumes "new_chunks base (base + sz) lo hi"
  shows "pa_grow e p base sz = do {
    p \<leftarrow> pa_sysGrow e p base (base + sz);
    (s, n) \<leftarrow> si_grow (physPageSize e) (scavBase e) (scav_index p) base (base + sz);
    p \<leftarrow> grow_tail (p\<lparr>scav_index := s, summaryMappedReady := summaryMappedReady p + n\<rparr>) base (base + sz);
    update p base (sz div pageSize) True False
  }"
proof -
  have al: "base mod pallocChunkBytes = 0" "(base + sz) mod pallocChunkBytes = 0"
    using assms by (auto simp: new_chunks_def intro: new_chunks_aligned)
  show ?thesis
    unfolding pa_grow_def align_id [OF al(1)] align_id [OF al(2)] grow_tail_def Let_def bind_assoc
    by (intro arg_cong [of _ _ "Option.bind _"] ext) (auto simp: split_beta intro!: arg_cong [of _ _ "Option.bind _"] ext)
qed

lemma si_grow_ok:
  assumes e: "env_ok e" and i: "index_ok e s C" and n: "new_chunks base limit lo hi" and d: "{lo ..< hi} \<subseteq> C"
  shows "\<exists>s' R. si_grow (physPageSize e) (scavBase e) s base limit = Some (s', R) \<and> index_ok e s' C \<and> si_chunks s' = si_chunks s"
proof -
  define s1 where "s1 = (if minHeapIdx s = 0 \<or> chunkIndex base < minHeapIdx s then s\<lparr>minHeapIdx := chunkIndex base\<rparr> else s)"
  have s1: "si_min s1 = si_min s" "si_max s1 = si_max s" by (simp_all add: s1_def)
  have "index_ok e s1 C" using i unfolding index_ok_def s1 .
  from si_sysGrow_ok [OF e this n disjI2 [OF d]] obtain mn mx R where
    s: "si_sysGrow (physPageSize e) (scavBase e) s1 base limit = Some (s1\<lparr>si_min := mn, si_max := mx\<rparr>, R)"
       "index_ok e (s1\<lparr>si_min := mn, si_max := mx\<rparr>) (C \<union> {lo ..< hi})" by blast
  have "C \<union> {lo ..< hi} = C" using d by blast
  then have "index_ok e (s1\<lparr>si_min := mn, si_max := mx\<rparr>) C" using s(2) by simp
  moreover have "si_grow (physPageSize e) (scavBase e) s base limit = Some (s1\<lparr>si_min := mn, si_max := mx\<rparr>, R)"
    unfolding si_grow_def Let_def s1_def [symmetric] by (rule s(1))
  ultimately show ?thesis by (intro exI conjI) (assumption | simp add: s1_def)+
qed

lemma grow_tail_ok:
  assumes ok: "pa_ok p" and p1: "p1 = p\<lparr>sum_len := L, scav_index := s, summaryMappedReady := R\<rparr>"
    and n: "new_chunks base limit lo hi" and d: "chunk_set p \<inter> {lo ..< hi} = {}"
    and f: "\<forall>c\<in>{lo ..< hi}. cell p c = fresh_chunk"
    and i: "index_ok e s (chunk_set p \<union> {lo ..< hi})" "si_chunks s = si_chunks (scav_index p)"
    and L: "\<forall>l. sum_len p l \<le> L l" "\<forall>l<5. len_for l (hi * 512 - 1) \<le> L l"
  shows "\<exists>q. grow_tail p1 base limit = Some q \<and> grown e p lo hi base q"
proof -
  have ci: "unat (chunkIndex base) = lo" "unat (chunkIndex limit) = hi" using new_chunks_index [OF n] by blast+
  have hi: "hi \<le> 2 ^ 26" using n by (simp add: new_chunks_def)
  define p2 where "p2 = (if pa_start p1 = 0 \<or> chunkIndex base < pa_start p1 then p1\<lparr>pa_start := chunkIndex base\<rparr> else p1)"
  define p3 where "p3 = (if chunkIndex limit > pa_end p2 then p2\<lparr>pa_end := chunkIndex limit\<rparr> else p2)"
  have f3: "inUse p3 = inUse p" "chunks p3 = chunks p" "summary p3 = summary p" "sum_len p3 = L" "scav_index p3 = s" "pa_test p3 = pa_test p"
      "searchAddr p3 = searchAddr p" "unat (pa_end p3) = max (unat (pa_end p)) hi"
    by (auto simp: p3_def p2_def p1 ci word_less_nat_alt)
  obtain u where u: "add (inUse p) (mk_range base limit) = Some u" "addrRanges_ok u" "addrs (ranges u) = addrs (ranges (inUse p)) \<union> rset (mk_range base limit)"
    using ars.add_law [OF _ new_range(2) [OF n] new_disjoint [OF ok n d]] ok by (auto simp: pa_ok_def)
  define p4 where "p4 = lower_searchAddr base (p3\<lparr>inUse := u\<rparr>)"
  have f4: "chunks p4 = chunks p" "summary p4 = summary p" "sum_len p4 = L" "scav_index p4 = s" "inUse p4 = u" "pa_test p4 = pa_test p"
      "searchAddr p4 = (if lessThan base (searchAddr p) then base else searchAddr p)" "unat (pa_end p4) = max (unat (pa_end p)) hi"
    by (simp_all add: p4_def lower_searchAddr_def f3)
  have "\<forall>c\<in>set [lo ..< hi]. c < 2 ^ 26 \<and> cell p4 c = fresh_chunk" using f hi cell_cong [OF f4(1)] by auto
  then obtain q where q: "grow_chunks [lo ..< hi] p4 = Some q" "q = p4\<lparr>chunks := chunks q\<rparr>" "\<forall>c\<in>set [lo ..< hi]. \<exists>m. chunk_at q c = Some m \<and> grown_chunk m"
      "\<forall>d. d \<notin> set [lo ..< hi] \<longrightarrow> cell q d = cell p4 d" "\<forall>d x. d \<notin> set [lo ..< hi] \<longrightarrow> chunk_at p4 d = Some x \<longrightarrow> chunk_at q d = Some x"
    using grow_chunks_ok [of "[lo ..< hi]" p4] by auto
  have fq: "summary q = summary p" "sum_len q = L" "scav_index q = s" "inUse q = u" "pa_test q = pa_test p"
      "searchAddr q = (if lessThan base (searchAddr p) then base else searchAddr p)" "unat (pa_end q) = max (unat (pa_end p)) hi"
    using arg_cong [OF q(2), of summary] arg_cong [OF q(2), of sum_len] arg_cong [OF q(2), of scav_index] arg_cong [OF q(2), of inUse]
      arg_cong [OF q(2), of pa_test] arg_cong [OF q(2), of searchAddr] arg_cong [OF q(2), of pa_end] by (simp_all add: f4)
  have cs: "chunk_set q = chunk_set p \<union> {lo ..< hi}" 
    unfolding chunk_set_def fq(4) u(3) Un_iff new_range(3) [OF n] by (rule set_eqI) (simp only: mem_Collect_eq Un_iff)
  have al: "aligned_ranges (ranges u)"
  proof -
    have "rs_ok (ranges (inUse p))" using ok by (simp add: pa_ok_def addrRanges_ok_def)
    note b = add_bounds [OF this u(1)]
    have "2 ^ 22 dvd off (r_base t)" "2 ^ 22 dvd off (r_limit t)" if "t \<in> set (ranges (inUse p)) \<union> {mk_range base limit}" for t
      using that ok n by (auto simp: pa_ok_def aligned_ranges_def new_chunks_def)
    then show ?thesis unfolding aligned_ranges_def using b by metis
  qed
  have "grow_tail p1 base limit = Some q"
    unfolding grow_tail_def Let_def p2_def [symmetric] p3_def [symmetric] new_range(1) [OF n] f3(1) Option.bind.bind_lunit u(1) ci
      p4_def [symmetric] by (rule q(1))
  moreover have "grown e p lo hi base q"
    unfolding grown_def using fq u(2) al cs i L q(3-5) cell_cong [OF f4(1)] chunk_at_cong [OF f4(1)] by auto
  ultimately show ?thesis by blast
qed

lemma grown_has:
  assumes g: "grow_ok e p" and q: "grown e p lo hi base q" and d: "chunk_set p \<inter> {lo ..< hi} = {}" and hi: "hi \<le> 2 ^ 26"
  shows "c \<in> chunk_set p \<Longrightarrow> has q c (view p c)" "c \<in> {lo ..< hi} \<Longrightarrow> has q c ({}, {..<512})"
proof -
  have q': "index_ok e (scav_index q) (chunk_set q)" "chunk_set q = chunk_set p \<union> {lo ..< hi}"
      "si_chunks (scav_index q) = si_chunks (scav_index p)"
    using q unfolding grown_def by blast+
  have cnt: "cnt (scav_index q) c = Some (unat (sc_inUse (unpackScavChunkData (si_chunks (scav_index p) c))))"
    if "c \<in> chunk_set p \<union> {lo ..< hi}" "c < 2 ^ 26" for c
    using cnt_in_index [of "scav_index q" c] index_bounds [OF q'(1), of c] that q'(2,3) by simp
  show "has q c (view p c)" if c: "c \<in> chunk_set p"
  proof -
    have ok: "pa_ok p" and i: "index_ok e (scav_index p) (chunk_set p)" using g by (simp_all add: grow_ok_def)
    have c26: "c < 2 ^ 26" by (rule chunk_set_less [OF ok c])
    have nc: "c \<notin> {lo ..< hi}" using c d by blast
    have "cnt (scav_index p) c = Some (unat (sc_inUse (unpackScavChunkData (si_chunks (scav_index p) c))))"
      using cnt_in_index [of "scav_index p" c] index_bounds [OF i c] c26 by simp
    then have "cnt (scav_index q) c = cnt (scav_index p) c" using cnt [OF UnI1 [OF c] c26] by simp
    moreover have "chunk_at q c = Some x" if "chunk_at p c = Some x" for x using q nc that by (simp add: grown_def)
    ultimately show ?thesis using pa_ok_has [OF ok c] unfolding has_def by auto
  qed
  show "has q c ({}, {..<512})" if c: "c \<in> {lo ..< hi}"
  proof -
    have c26: "c < 2 ^ 26" using c hi by simp
    have "c \<notin> chunk_set p" using c d by blast
    then have "si_chunks (scav_index p) c = 0" using g c26 by (simp add: grow_ok_def)
    then have "cnt (scav_index q) c = Some 0" using cnt [OF UnI2 [OF c] c26] by (simp add: unpackScavChunkData_def)
    moreover obtain m where "chunk_at q c = Some m" "grown_chunk m" using q c unfolding grown_def by blast
    ultimately show ?thesis by (auto simp: has_def grown_chunk_def)
  qed
qed

lemma grown_pages:
  assumes g: "grow_ok e p" and q: "grown e p lo hi base q" and d: "chunk_set p \<inter> {lo ..< hi} = {}" and hi: "hi \<le> 2 ^ 26"
  shows "page_free q k \<longleftrightarrow> page_free p k \<or> k div 512 \<in> {lo ..< hi}" "page_used q k \<longleftrightarrow> page_used p k"
    "page_scav q k \<longleftrightarrow> page_scav p k \<or> k div 512 \<in> {lo ..< hi}"
proof -
  have cs: "chunk_set q = chunk_set p \<union> {lo ..< hi}" using q by (simp add: grown_def)
  have v: "view q c = (if c \<in> {lo ..< hi} then ({}, {..<512}) else view p c)" if "c \<in> chunk_set q" for c
    using that grown_has [OF assms] view_eq unfolding cs by (metis Un_iff)
  have nn: "\<not> (c \<in> chunk_set p \<and> c \<in> {lo ..< hi})" for c using d by blast
  show "page_free q k \<longleftrightarrow> page_free p k \<or> k div 512 \<in> {lo ..< hi}" "page_used q k \<longleftrightarrow> page_used p k"
    "page_scav q k \<longleftrightarrow> page_scav p k \<or> k div 512 \<in> {lo ..< hi}"
    using v [of "k div 512"] nn [of "k div 512"] cs by (auto simp: page_free_def page_used_def page_scav_def)
qed

text \<open>What \<open>grow\<close> promises for the chunks \<open>lo ..< hi\<close>.\<close>

definition grow_post :: "pageAlloc \<Rightarrow> nat \<Rightarrow> nat \<Rightarrow> pageAlloc \<Rightarrow> bool" where
  "grow_post p lo hi p' \<longleftrightarrow> chunk_set p' = chunk_set p \<union> {lo ..< hi} \<and>
     (\<forall>k. page_free p' k \<longleftrightarrow> page_free p k \<or> k div 512 \<in> {lo ..< hi}) \<and> (\<forall>k. page_used p' k \<longleftrightarrow> page_used p k) \<and>
     (\<forall>k. page_scav p' k \<longleftrightarrow> page_scav p k \<or> k div 512 \<in> {lo ..< hi})"

lemma div_range: "lo * 512 \<le> k \<and> k < lo * 512 + (hi - lo) * 512 \<longleftrightarrow> k div 512 \<in> {lo ..< hi}"
  if "lo < hi" for k :: nat
  using that by (auto simp: less_eq_div_iff_mult_less_eq div_less_iff_less_mult diff_mult_distrib)

lemma grown_update:
  assumes g: "grow_ok e p" and q: "grown e p lo hi base q" and d: "chunk_set p \<inter> {lo ..< hi} = {}" "2 ^ 25 \<notin> {lo ..< hi}"
    and n: "new_chunks base (base + sz) lo hi"
  shows "\<exists>S. update q base (sz div pageSize) True False = Some (q\<lparr>summary := S\<rparr>) \<and> pa_ok (q\<lparr>summary := S\<rparr>)"
proof -
  have ok: "pa_ok p" using g by (simp add: grow_ok_def)
  have lh: "lo < hi" "hi \<le> 2 ^ 26" "off base = lo * 2 ^ 22" using n by (simp_all add: new_chunks_def)
  note pg = grown_pages [OF g q d(1) lh(2)] and hs = grown_has [OF g q d(1) lh(2)]
  have qf: "summary q = summary p" "addrRanges_ok (inUse q)" "aligned_ranges (ranges (inUse q))" "chunk_set q = chunk_set p \<union> {lo ..< hi}"
      "\<forall>l. sum_len p l \<le> sum_len q l" "\<forall>l<5. len_for l (hi * 512 - 1) \<le> sum_len q l" "unat (pa_end q) = max (unat (pa_end p)) hi"
      "searchAddr q = (if lessThan base (searchAddr p) then base else searchAddr p)"
    using q unfolding grown_def by blast+
  define b k where "b = lo * 512" and "k = (hi - lo) * 512"
  have r: "is_range base (sz div pageSize) b k" unfolding b_def k_def by (rule new_pages [OF n])
  have bk: "b + k - 1 = hi * 512 - 1" using lh(1) by (simp add: b_def k_def diff_mult_distrib)
  have len: "c * 512 div 2 ^ lp l < sum_len q l" if "l < 5" "c < hi" for c l
  proof -
    have "c * 512 div 2 ^ lp l \<le> (hi * 512 - 1) div 2 ^ lp l" using chunks_pages(1) [OF that(2) lh(2)] by (rule div_le_mono)
    also have "\<dots> < len_for l (hi * 512 - 1)" unfolding len_for_def using le_up2 [of "(hi * 512 - 1) div 2 ^ lp l + 1" "levelBits ! l"] by simp
    finally show ?thesis using qf(6) that(1) by (meson less_le_trans)
  qed
  have hs': "has q c (view q c)" if "c \<in> chunk_set q" for c using that hs view_eq unfolding qf(4) by (metis Un_iff)
  have len': "\<forall>l<5. (b + k - 1) div 2 ^ lp l < sum_len q l"
  proof (intro allI impI)
    fix l :: nat assume l: "l < 5"
    have "(hi * 512 - 1) div 2 ^ lp l < len_for l (hi * 512 - 1)"
      unfolding len_for_def using le_up2 [of "(hi * 512 - 1) div 2 ^ lp l + 1" "levelBits ! l"] by simp
    then show "(b + k - 1) div 2 ^ lp l < sum_len q l" unfolding bk using qf(6) l by (meson less_le_trans)
  qed
  have tree: "tree_ok (summary q) (page_free p)" using ok qf(1) by (simp add: pa_ok_def)
  have out: "\<forall>j. j < b \<or> b + k \<le> j \<longrightarrow> page_free q j = page_free p j"
    using pg(1) div_range [OF lh(1)] unfolding b_def k_def by (meson not_le)
  have c_in: "c \<in> {lo ..< hi}" if "b div 512 \<le> c" "c \<le> (b + k - 1) div 512" for c
  proof -
    have "(hi * 512 - 1) div 512 < hi" using lh(1) by (simp add: div_less_iff_less_mult)
    then have "c < hi" using that(2) unfolding bk by (rule le_less_trans [rotated])
    moreover have "lo \<le> c" using that(1) by (simp add: b_def)
    ultimately show ?thesis by simp
  qed
  have sh: "\<forall>c. b div 512 \<le> c \<and> c \<le> (b + k - 1) div 512 \<longrightarrow> shows_state q (page_free q) c"
  proof (intro allI impI)
    fix c assume "b div 512 \<le> c \<and> c \<le> (b + k - 1) div 512"
    then have "c \<in> {lo ..< hi}" using c_in by simp
    then show "shows_state q (page_free q) c" using pa_ok_chunk_shows [OF hs(2)] qf(4) by blast
  qed
  have contig: "True \<longrightarrow> (\<forall>c. b div 512 < c \<and> c < (b + k - 1) div 512 \<longrightarrow> region (page_free q) 4 c = replicate 512 (\<not> False))"
  proof (intro impI allI)
    fix c assume "b div 512 < c \<and> c < (b + k - 1) div 512"
    then have "c \<in> {lo ..< hi}" using c_in by simp
    then show "region (page_free q) 4 c = replicate 512 (\<not> False)"
      by (intro nth_equalityI) (simp_all add: nth_region pg(1))
  qed
  obtain S where S: "update q base (sz div pageSize) True False = Some (q\<lparr>summary := S\<rparr>)" "tree_ok S (page_free q)"
    using update_ok [OF r len' tree out sh contig] by blast
  have end_ok: "c < unat (pa_end q)" if "c \<in> chunk_set q" for c
    using that ok qf(7) unfolding qf(4) by (auto simp: pa_ok_def chunk_ok_def)
  have lens: "c * 512 div 2 ^ lp l < sum_len q l" if "c \<in> chunk_set q" "l < 5" for c l
    using that len ok qf(5) unfolding qf(4) pa_ok_def chunk_ok_def by (metis Un_iff atLeastLessThan_iff less_le_trans)
  have e4: "unat (pa_end q) \<le> sum_len q 4"
  proof -
    have "hi \<le> len_for 4 (hi * 512 - 1)"
    proof -
      have "(hi * 512 - 1) div 2 ^ lp 4 + 1 = hi" using lh(1) by (simp add: div_nat_eqI)
      then show ?thesis unfolding len_for_def using le_up2 by metis
    qed
    then have "hi \<le> sum_len q 4" using qf(6) by (meson le_trans numeral_less_iff semiring_norm)
    moreover have "unat (pa_end p) \<le> sum_len q 4" using ok qf(5) by (auto simp: pa_ok_def intro: le_trans)
    ultimately show ?thesis by (simp add: qf(7))
  qed
  have sa: "page_of (searchAddr q) < 2 ^ 35" "\<forall>j. page_free q j \<longrightarrow> page_of (searchAddr q) \<le> j"
  proof -
    have pb: "page_of base = lo * 512" using lh(3) by (simp add: page_of_def)
    have le: "page_of (searchAddr q) \<le> page_of base" "page_of (searchAddr q) \<le> page_of (searchAddr p)"
      unfolding qf(8) lessThan_off by (auto intro: page_of_mono)
    show "page_of (searchAddr q) < 2 ^ 35" using le(2) ok by (simp add: pa_ok_def)
    show "\<forall>j. page_free q j \<longrightarrow> page_of (searchAddr q) \<le> j"
    proof (intro allI impI)
      fix j assume "page_free q j"
      then consider "page_free p j" | "lo \<le> j div 512" unfolding pg(1) by auto
      then show "page_of (searchAddr q) \<le> j"
      proof cases
        case 1
        then have "page_of (searchAddr p) \<le> j" using ok by (simp add: pa_ok_def)
        then show ?thesis using le(2) by simp
      next
        case 2
        then have "lo * 512 \<le> j" by (simp add: less_eq_div_iff_mult_less_eq)
        then show ?thesis using le(1) pb by simp
      qed
    qed
  qed
  have "pa_ok (q\<lparr>summary := S\<rparr>)"
    unfolding pa_ok_def chunk_ok_def
    using qf(2,3) hs' end_ok lens e4 S(2) sa d(2) ok lh(2) qf(4,7) by (auto simp: pa_ok_def)
  then show ?thesis using S(1) by blast
qed

lemma pa_grow_ok:
  assumes e: "env_ok e" and g: "grow_ok e p" and n: "new_chunks base (base + sz) lo hi"
    and d: "chunk_set p \<inter> {lo ..< hi} = {}" "2 ^ 25 \<notin> {lo ..< hi}"
  shows "\<exists>p'. pa_grow e p base sz = Some p' \<and> grow_ok e p' \<and> grow_post p lo hi p'"
proof -
  have ok: "pa_ok p" using g by (simp add: grow_ok_def)
  have hi: "hi \<le> 2 ^ 26" using n by (simp add: new_chunks_def)
  obtain L R mn mx where 1: "pa_sysGrow e p base (base + sz) =
      Some (p\<lparr>sum_len := L, scav_index := (scav_index p)\<lparr>si_min := mn, si_max := mx\<rparr>, summaryMappedReady := R\<rparr>)"
    "index_ok e ((scav_index p)\<lparr>si_min := mn, si_max := mx\<rparr>) (chunk_set p \<union> {lo ..< hi})"
    "\<forall>l. sum_len p l \<le> L l" "\<forall>l<5. len_for l (hi * 512 - 1) \<le> L l"
    using pa_sysGrow_ok [OF e g n d(1)] by blast
  obtain s2 R2 where 2: "si_grow (physPageSize e) (scavBase e) ((scav_index p)\<lparr>si_min := mn, si_max := mx\<rparr>) base (base + sz) = Some (s2, R2)"
      "index_ok e s2 (chunk_set p \<union> {lo ..< hi})" "si_chunks s2 = si_chunks ((scav_index p)\<lparr>si_min := mn, si_max := mx\<rparr>)"
    using si_grow_ok [OF e 1(2) n] by blast
  have f: "\<forall>c\<in>{lo ..< hi}. cell p c = fresh_chunk"
  proof
    fix c assume "c \<in> {lo ..< hi}"
    then have "c < 2 ^ 26" "c \<notin> chunk_set p" using d(1) hi by auto
    then show "cell p c = fresh_chunk" using g by (simp add: grow_ok_def)
  qed
  obtain q where q: "grow_tail (p\<lparr>sum_len := L, scav_index := s2, summaryMappedReady := R + R2\<rparr>) base (base + sz) = Some q" "grown e p lo hi base q"
    using grow_tail_ok [OF ok refl n d(1) f 2(2) _ 1(3,4)] 2(3) by auto
  obtain S where S: "update q base (sz div pageSize) True False = Some (q\<lparr>summary := S\<rparr>)" "pa_ok (q\<lparr>summary := S\<rparr>)"
    using grown_update [OF g q(2) d n] by blast
  have "pa_grow e p base sz = Some (q\<lparr>summary := S\<rparr>)"
    unfolding pa_grow_eq [OF n] 1(1) using 2(1) q(1) S(1) by simp
  moreover have "grow_post p lo hi (q\<lparr>summary := S\<rparr>)"
    using grown_pages [OF g q(2) d(1) hi] q(2) unfolding grown_def grow_post_def
    by (simp add: page_used_def)
  moreover have "grow_ok e (q\<lparr>summary := S\<rparr>)"
  proof -
    have c: "chunk_set q = chunk_set p \<union> {lo ..< hi}" "index_ok e (scav_index q) (chunk_set q)" "si_chunks (scav_index q) = si_chunks (scav_index p)"
        "\<forall>c. c \<notin> {lo ..< hi} \<longrightarrow> cell q c = cell p c" using q(2) unfolding grown_def by blast+
    have "cell (q\<lparr>summary := S\<rparr>) = cell q" by (rule cell_cong) simp
    then show ?thesis using S(2) c g unfolding grow_ok_def by simp
  qed
  ultimately show ?thesis by blast
qed

subsection \<open>The empty page allocator\<close>

lemma sums_none: "\<forall>x\<in>set xs. \<not> x \<Longrightarrow> sums_to 0 xs"
proof -
  assume x: "\<forall>x\<in>set xs. \<not> x"
  have t: "takeWhile id ys = []" if "\<forall>y\<in>set ys. \<not> y" for ys using that by (cases ys) auto
  have "takeWhile id xs = []" "takeWhile id (rev xs) = []" by (rule t, use x in simp)+
  then have "free_start xs = 0" "free_end xs = 0" by (simp_all add: free_start_def free_end_def)
  moreover have "free_max xs = 0" by (rule none_free) (use x nth_mem in blast)
  ultimately show ?thesis by (simp add: sums_to_def unpack_def)
qed

lemma init_ok: "grow_ok e (pa_init t)"
proof -
  have r: "ranges (inUse (pa_init t)) = []" by (simp add: pa_init_def init_def split_beta Let_def)
  have cs: "chunk_set (pa_init t) = {}" by (simp add: chunk_set_def r)
  have nf: "\<not> page_free (pa_init t) n" for n by (simp add: page_free_def cs)
  have sa: "page_of maxSearchAddr < 2 ^ 35"
    by (simp add: page_of_def maxSearchAddr_def maxOffAddr_def off_def heapAddrBits_def push_bit_eq_mult)
  have tree: "tree_ok (\<lambda>_ _. 0) (page_free (pa_init t))"
    unfolding tree_ok_def level_ok_def
  proof (intro allI impI sums_none)
    show "\<forall>x\<in>set (region (page_free (pa_init t)) l i). \<not> x" for l i
      unfolding region_def set_map using nf by blast
  qed
  have "pa_ok (pa_init t)"
    unfolding pa_ok_def using cs nf sa tree
    by (simp add: pa_init_def init_def split_beta Let_def addrRanges_ok_def aligned_ranges_def)
  moreover have "index_ok e (scav_index (pa_init t)) {}" by (simp add: index_ok_def pa_init_def si_init_def split_beta Let_def)
  moreover have "cell (pa_init t) c = fresh_chunk \<and> si_chunks (scav_index (pa_init t)) c = 0" for c
    by (simp add: cell_def pa_init_def si_init_def split_beta Let_def)
  ultimately show ?thesis by (simp add: grow_ok_def cs)
qed

end
