(* ===== verification/PageCache.thy ===== *)
theory PageCache
  imports PageAlloc
begin

text \<open>
  The per-P page cache (\<open>runtime/mpagecache.go\<close>): an aligned block of 64 pages with a bitmap of the free ones
  and a bitmap of the scavenged ones.  \<open>alloc\<close> takes pages from it without a lock; \<open>allocToCache\<close> fills it from
  the page allocator and \<open>flush\<close> gives back what is left.
\<close>

record pageCache =
  pc_base :: uintptr
  pc_cache :: uint64
  pc_scav :: uint64

definition pc_zero :: pageCache where
  "pc_zero = \<lparr>pc_base = 0, pc_cache = 0, pc_scav = 0\<rparr>"

definition pageCachePages :: uintptr where
  "pageCachePages = 64"

definition pc_empty :: "pageCache \<Rightarrow> bool" where
  "pc_empty c \<longleftrightarrow> pc_cache c = 0"

definition pc_allocN :: "pageCache \<Rightarrow> uintptr \<Rightarrow> (pageCache \<times> uintptr \<times> uintptr) go" where
  "pc_allocN c npages = do {
     i \<leftarrow> findBitRange64 (pc_cache c) npages;
     if i \<ge> 64 then Some (c, 0, 0)
     else
       let mask = push_bit (unat i) (push_bit (unat npages) 1 - 1);
           scav = OnesCount64 (pc_scav c AND mask)
       in Some (c\<lparr>pc_cache := pc_cache c AND NOT mask, pc_scav := pc_scav c AND NOT mask\<rparr>,
            pc_base c + i * pageSize, of_nat scav * pageSize)
   }"

definition pc_alloc :: "pageCache \<Rightarrow> uintptr \<Rightarrow> (pageCache \<times> uintptr \<times> uintptr) go" where
  "pc_alloc c npages =
     (if pc_cache c = 0 then Some (c, 0, 0)
      else if npages = 1 then
        let i = TrailingZeros64 (pc_cache c);
            scav = drop_bit i (pc_scav c) AND 1
        in Some (c\<lparr>pc_cache := pc_cache c AND NOT (push_bit i 1), pc_scav := pc_scav c AND NOT (push_bit i 1)\<rparr>,
             pc_base c + of_nat i * pageSize, scav * pageSize)
      else pc_allocN c npages)"

fun flush_bits :: "pageCache \<Rightarrow> chunkIdx \<Rightarrow> uint \<Rightarrow> nat list \<Rightarrow> pageAlloc \<Rightarrow> pageAlloc go" where
  "flush_bits c ci pi [] p = Some p"
| "flush_bits c ci pi (i # is) p = do {
     p \<leftarrow> (if pc_cache c AND push_bit i 1 \<noteq> 0 then do {
              p \<leftarrow> mod_chunk ci (\<lambda>m. do { b \<leftarrow> free1 (pallocBits m) (pi + of_nat i); Some (m\<lparr>pallocBits := b\<rparr>) }) p;
              mod_scav (\<lambda>s. si_free s ci (pi + of_nat i) 1) p
            } else Some p);
     p \<leftarrow> (if pc_scav c AND push_bit i 1 \<noteq> 0 then
              mod_chunk ci (\<lambda>m. do { b \<leftarrow> setRange (scavenged m) (pi + of_nat i) 1; Some (m\<lparr>scavenged := b\<rparr>) }) p
            else Some p);
     flush_bits c ci pi is p
   }"

definition flush :: "pageCache \<Rightarrow> pageAlloc \<Rightarrow> (pageCache \<times> pageAlloc) go" where
  "flush c p =
     (if pc_empty c then Some (c, p)
      else
        let ci = chunkIndex (pc_base c); pi = chunkPageIndex (pc_base c) in do {
          p \<leftarrow> flush_bits c ci pi [0 ..< 64] p;
          let p = lower_searchAddr (pc_base c) p;
          p \<leftarrow> update p (pc_base c) pageCachePages False False;
          Some (pc_zero, p)
        })"

text \<open>The first half of \<open>allocToCache\<close>: which block to take, \<open>None\<close> inside when there is no free page.\<close>

definition cache_block :: "env \<Rightarrow> pageAlloc \<Rightarrow> (chunkIdx \<times> pageCache) option go" where
  "cache_block e p =
     (let ci = chunkIndex (searchAddr p) in do {
        s \<leftarrow> sum_get p 4 (unat ci);
        if s \<noteq> 0 then do {
          chunk \<leftarrow> chunkOf p ci;
          (j, _) \<leftarrow> palloc_find (pallocBits chunk) 1 (chunkPageIndex (searchAddr p));
          if j = NOT 0 then None
          else do {
            b \<leftarrow> pages64 (pallocBits chunk) j;
            v \<leftarrow> block64 (scavenged chunk) j;
            Some (Some (ci, \<lparr>pc_base = chunkBase ci + alignDown j 64 * pageSize, pc_cache = NOT b, pc_scav = v\<rparr>))
          }
        }
        else do {
          (addr, _) \<leftarrow> find e p 1;
          if addr = 0 then Some None
          else
            let ci = chunkIndex addr in do {
              chunk \<leftarrow> chunkOf p ci;
              b \<leftarrow> pages64 (pallocBits chunk) (chunkPageIndex addr);
              v \<leftarrow> block64 (scavenged chunk) (chunkPageIndex addr);
              Some (Some (ci, \<lparr>pc_base = alignDown addr (64 * pageSize), pc_cache = NOT b, pc_scav = v\<rparr>))
            }
        }
      })"

definition allocToCache :: "env \<Rightarrow> pageAlloc \<Rightarrow> (pageAlloc \<times> pageCache) go" where
  "allocToCache e p =
     (if chunkIndex (searchAddr p) \<ge> pa_end p then Some (p, pc_zero)
      else do {
        r \<leftarrow> cache_block e p;
        case r of
          None \<Rightarrow> Some (p\<lparr>searchAddr := maxSearchAddr\<rparr>, pc_zero)
        | Some (ci, c) \<Rightarrow>
            let cpi = chunkPageIndex (pc_base c) in do {
              p \<leftarrow> mod_chunk ci (\<lambda>m. do {
                     b \<leftarrow> allocPages64 (pallocBits m) cpi (pc_cache c);
                     v \<leftarrow> clearBlock64 (scavenged m) cpi (pc_cache c AND pc_scav c);
                     Some (m\<lparr>pallocBits := b, scavenged := v\<rparr>)
                   }) p;
              p \<leftarrow> update p (pc_base c) pageCachePages False True;
              p \<leftarrow> mod_scav (\<lambda>s. si_alloc s ci (of_nat (OnesCount64 (pc_cache c)))) p;
              Some (p\<lparr>searchAddr := pc_base c + pageSize * (pageCachePages - 1)\<rparr>, c)
            }
      })"

end
