(* ===== verification/CacheHeap.thy ===== *)
theory CacheHeap
  imports PageHeap PageCache
begin

text \<open>
  The page cache against the sets of pages it stands for: \<open>alloc\<close> takes the first run of free pages of the cached block,
  \<open>allocToCache\<close> moves the free pages of the first block that has any into a cache, and \<open>flush\<close> gives them back.
\<close>

subsection \<open>Allocating from the cache\<close>

definition cache_pages :: "uint64 \<Rightarrow> bool list" where
  "cache_pages w = map (bit w) [0 ..< 64]"

lemma cache_pages_word: "cache_pages w = word_free (NOT w)"
  by (simp add: cache_pages_def word_free_def bit_not_iff)

definition page_mask :: "nat \<Rightarrow> nat \<Rightarrow> uint64" where
  "page_mask i n = push_bit i (push_bit n 1 - 1)"

lemma bit_page_mask: "i + n \<le> 64 \<Longrightarrow> bit (page_mask i n) j \<longleftrightarrow> i \<le> j \<and> j < i + n"
  unfolding page_mask_def push_bit_of_1 mask_eq_decr_exp [symmetric] by (auto simp: bit_simps)

lemma page_mask_one: "page_mask i 1 = push_bit i 1"
  by (simp add: page_mask_def)

text \<open>What \<open>alloc\<close> does to the cache when it takes \<open>n\<close> pages from \<open>i\<close> on.\<close>

definition takes_pages :: "pageCache \<Rightarrow> nat \<Rightarrow> nat \<Rightarrow> pageCache \<Rightarrow> bool" where
  "takes_pages c i n c' \<longleftrightarrow> pc_base c' = pc_base c \<and>
     (\<forall>j. bit (pc_cache c') j \<longleftrightarrow> bit (pc_cache c) j \<and> j \<notin> {i ..< i + n}) \<and>
     (\<forall>j. bit (pc_scav c') j \<longleftrightarrow> bit (pc_scav c) j \<and> j \<notin> {i ..< i + n})"

lemma takes_pages_mask:
  assumes "i + n \<le> 64"
  shows "takes_pages c i n (c\<lparr>pc_cache := pc_cache c AND NOT (page_mask i n), pc_scav := pc_scav c AND NOT (page_mask i n)\<rparr>)"
  using assms bit_imp_le_length by (fastforce simp: takes_pages_def bit_and_iff bit_not_iff bit_page_mask)

lemma pc_allocN_ok:
  assumes n: "0 < n" "n \<le> 64" "npages = of_nat n"
  shows "\<exists>c' addr scav. pc_allocN c npages = Some (c', addr, scav) \<and>
    (case first_run (cache_pages (pc_cache c)) n of
       None \<Rightarrow> c' = c \<and> addr = 0 \<and> scav = 0
     | Some i \<Rightarrow> addr = pc_base c + of_nat i * pageSize \<and>
         scav = of_nat (card {j \<in> {i ..< i + n}. bit (pc_scav c) j}) * pageSize \<and> takes_pages c i n c')"
proof -
  obtain j where j: "findBitRange64 (pc_cache c) npages = Some j"
      "if free_max (cache_pages (pc_cache c)) < n then j = 64 else unat j < 64 \<and> first_fit (cache_pages (pc_cache c)) n (unat j)"
    using findBitRange64_word [OF n(1,2), of "NOT (pc_cache c)"] by (auto simp: n(3) cache_pages_word)
  show ?thesis
  proof (cases "free_max (cache_pages (pc_cache c)) < n")
    case True
    then show ?thesis using j first_run_cases(1) [OF n(1) True] by (simp add: pc_allocN_def)
  next
    case False
    define i where "i = unat j"
    have ff: "first_fit (cache_pages (pc_cache c)) n i" and i: "i < 64" using j False by (simp_all add: i_def)
    have b: "i + n \<le> 64" using ff by (simp add: first_fit_def run_at_def cache_pages_def)
    have ji: "j = of_nat i" "\<not> 64 \<le> j" using i by (simp_all add: i_def word_le_nat_alt)
    have m: "push_bit (unat j) (push_bit (unat npages) 1 - 1) = page_mask i n" using n by (simp add: page_mask_def i_def)
    have "OnesCount64 (pc_scav c AND page_mask i n) = card {j \<in> {i ..< i + n}. bit (pc_scav c) j}"
      unfolding OnesCount64_card by (rule arg_cong [of _ _ card]) (auto simp: bit_and_iff bit_page_mask [OF b])
    moreover have "pc_allocN c npages = Some
        (c\<lparr>pc_cache := pc_cache c AND NOT (page_mask i n), pc_scav := pc_scav c AND NOT (page_mask i n)\<rparr>,
         pc_base c + of_nat i * pageSize, of_nat (OnesCount64 (pc_scav c AND page_mask i n)) * pageSize)"
      unfolding pc_allocN_def j(1) Option.bind.bind_lunit m Let_def using ji by simp
    ultimately show ?thesis using first_run_cases(2) [OF n(1) ff] takes_pages_mask [OF b, of c] by simp
  qed
qed

lemma pc_alloc_ok:
  assumes "0 < n" "n \<le> 64"
  shows "\<exists>c' addr scav. pc_alloc c (of_nat n) = Some (c', addr, scav) \<and>
    (case first_run (cache_pages (pc_cache c)) n of
       None \<Rightarrow> c' = c \<and> addr = 0 \<and> scav = 0
     | Some i \<Rightarrow> addr = pc_base c + of_nat i * pageSize \<and>
         scav = of_nat (card {j \<in> {i ..< i + n}. bit (pc_scav c) j}) * pageSize \<and> takes_pages c i n c')"
proof -
  consider (empty) "pc_cache c = 0" | (one) "pc_cache c \<noteq> 0" "n = 1" | (many) "pc_cache c \<noteq> 0" "n \<noteq> 1" by blast
  then show ?thesis
  proof cases
    case empty
    then have "free_max (cache_pages (pc_cache c)) = 0" by (intro none_free) (simp add: cache_pages_def)
    then have "first_run (cache_pages (pc_cache c)) n = None" using assms(1) by (intro first_run_cases) simp_all
    then show ?thesis using empty by (simp add: pc_alloc_def)
  next
    case one
    define i where "i = TrailingZeros64 (pc_cache c)"
    have i: "i < 64" using one(1) by (simp add: i_def TrailingZeros64_less_iff)
    have "NOT (pc_cache c) \<noteq> NOT 0" using one(1) by (simp only: bit.compl_eq_compl_iff not_False_eq_True)
    from word_free_first [OF this] have "first_fit (cache_pages (pc_cache c)) 1 i" by (simp only: cache_pages_word i_def bit.double_compl)
    then have fr: "first_run (cache_pages (pc_cache c)) n = Some i" using one(2) by (intro first_run_cases) simp_all
    have "{j \<in> {i ..< i + 1}. bit (pc_scav c) j} = (if bit (pc_scav c) i then {i} else {})" by auto
    then have "drop_bit i (pc_scav c) AND 1 = of_nat (card {j \<in> {i ..< i + 1}. bit (pc_scav c) j})"
      by (simp add: and_one_eq bit_iff_odd_drop_bit odd_iff_mod_2_eq_one)
    then have "pc_alloc c (of_nat n) = Some
        (c\<lparr>pc_cache := pc_cache c AND NOT (page_mask i n), pc_scav := pc_scav c AND NOT (page_mask i n)\<rparr>,
         pc_base c + of_nat i * pageSize, of_nat (card {j \<in> {i ..< i + n}. bit (pc_scav c) j}) * pageSize)"
      unfolding pc_alloc_def Let_def i_def [symmetric] using one by (simp add: page_mask_one [simplified])
    then show ?thesis using fr takes_pages_mask [of i n c] i one(2) by simp
  next
    case many
    have "(of_nat n :: uint64) \<noteq> 1" using many(2) assms(2) 
    proof -
      have "unat (of_nat n :: uint64) = n" using assms(2) by (intro unat_of_nat_small) simp
      then show ?thesis using many(2) by auto
    qed
    then have "pc_alloc c (of_nat n) = pc_allocN c (of_nat n)" using many by (simp add: pc_alloc_def)
    then show ?thesis using pc_allocN_ok [OF assms refl, of c] by simp
  qed
qed

text \<open>C9: \<open>pageCache.alloc\<close> of up to 64 pages takes the first run of free pages of the cached block, clears both bitmaps there
  and nowhere else and counts the scavenged bytes; without such a run it changes nothing and returns 0.  The fast path
  for one page agrees.\<close>

theorem pc_alloc_first_fit:
  assumes "0 < n" "n \<le> 64"
  shows "\<exists>c' addr scav. pc_alloc c (of_nat n) = Some (c', addr, scav) \<and>
    (case first_run (cache_pages (pc_cache c)) n of
       None \<Rightarrow> c' = c \<and> addr = 0 \<and> scav = 0
     | Some i \<Rightarrow> addr = pc_base c + of_nat i * pageSize \<and>
         scav = of_nat (card {j \<in> {i ..< i + n}. bit (pc_scav c) j}) * pageSize \<and> takes_pages c i n c')"
  by (rule pc_alloc_ok [OF assms])

definition sample_cache :: pageCache where
  "sample_cache = \<lparr>pc_base = 0xc000000000, pc_cache = 0xF0B, pc_scav = 0x300\<rparr>"

theorem pc_alloc_first_fit_witness:
  "\<exists>c' scav. pc_alloc sample_cache 4 = Some (c', 0xc000010000, scav) \<and> scav = 2 * pageSize \<and> takes_pages sample_cache 8 4 c'"
proof -
  have b: "bit (0xF0B :: uint64) k \<longleftrightarrow> k \<in> {0, 1, 3, 8, 9, 10, 11}" if "k < 12" for k
    using that by (auto simp: less_Suc_eq numeral_eq_Suc bit_numeral_rec)
  have "run_at (cache_pages 0xF0B) 8 4" using b by (auto simp: run_at_def cache_pages_def less_Suc_eq numeral_eq_Suc)
  moreover have "\<not> run_at (cache_pages 0xF0B) j 4" if "j < 8" for j
  proof
    assume "run_at (cache_pages 0xF0B) j 4"
    then have *: "bit (0xF0B :: uint64) (j + k)" if "k < 4" for k using that by (auto simp: run_at_def cache_pages_def)
    show False using *[of 0] *[of 1] *[of 2] *[of 3] \<open>j < 8\<close> b [of j] b [of "j + 1"] b [of "j + 2"] b [of "j + 3"] by auto
  qed
  ultimately have "first_run (cache_pages (pc_cache sample_cache)) 4 = Some 8"
    by (intro first_run_cases) (simp_all add: first_fit_def sample_cache_def)
  moreover have "{j \<in> {8 ..< 8 + 4}. bit (pc_scav sample_cache) j} = {8, 9}"
    by (auto simp: sample_cache_def less_Suc_eq numeral_eq_Suc bit_numeral_rec)
  ultimately show ?thesis
    using pc_alloc_first_fit [of 4 sample_cache] by (simp add: sample_cache_def page_consts)
qed

subsection \<open>Choosing the block\<close>

lemma unpack_zero:
  assumes "unpack x = (0, 0, 0)"
  shows "x = 0"
proof (rule bit_word_eqI)
  fix k assume k: "k < LENGTH(64)"
  have hi: "x AND push_bit 63 1 = 0" using assms by (auto simp: unpack_def packed_constants split: if_splits)
  have lo: "x AND mask 21 = 0" "drop_bit 21 x AND mask 21 = 0" "drop_bit 42 x AND mask 21 = 0"
    using assms hi by (auto simp: unpack_def packed_constants mask_eq_exp_minus_1 split: if_splits)
  have l: "\<not> bit x j" if "j < 21" for j using that arg_cong [OF lo(1), of "\<lambda>w. bit w j"] by (simp add: bit_simps)
  have m: "\<not> bit x (21 + j)" if "j < 21" for j using that arg_cong [OF lo(2), of "\<lambda>w. bit w j"] by (simp add: bit_simps add.commute)
  have h: "\<not> bit x (42 + j)" if "j < 21" for j using that arg_cong [OF lo(3), of "\<lambda>w. bit w j"] by (simp add: bit_simps add.commute)
  have t: "\<not> bit x 63" using arg_cong [OF hi, of "\<lambda>w. bit w 63"] by (simp add: bit_simps)
  have "k \<le> 63" using k by simp
  then consider "k < 21" | "21 \<le> k" "k < 42" | "42 \<le> k" "k < 63" | "k = 63" by linarith
  then show "bit x k \<longleftrightarrow> bit 0 k"
    using l [of k] m [of "k - 21"] h [of "k - 42"] t by cases (auto simp: less_diff_conv2)
qed

lemma first_page: "first_fit (heap_pages p) 1 k \<longleftrightarrow> k < 2 ^ 35 \<and> page_free p k \<and> (\<forall>j<k. \<not> page_free p j)"
  by (auto simp: first_fit_one heap_pages_def nth_blk)

lemma chunk_words:
  assumes ok: "pa_ok p" and c: "c \<in> chunk_set p" and i: "unat i < 512"
  shows "\<exists>m b v. chunkOf p (of_nat c) = Some m \<and> pageBits_ok (pallocBits m) \<and> pageBits_ok (scavenged m) \<and>
    view p c = (pages (pallocBits m), pages (scavenged m)) \<and> free_list (pallocBits m) = region (page_free p) 4 c \<and>
    pages64 (pallocBits m) i = Some b \<and> block64 (scavenged m) i = Some v \<and>
    (\<forall>r<64. bit b r \<longleftrightarrow> \<not> page_free p (c * 512 + unat i div 64 * 64 + r)) \<and>
    (\<forall>r<64. bit v r \<longleftrightarrow> page_scav p (c * 512 + unat i div 64 * 64 + r))"
proof -
  have c26: "c < 2 ^ 26" by (rule chunk_bitmap(1) [OF ok c])
  obtain m where m: "chunk_at p c = Some m" "pageBits_ok (pallocBits m)" "pageBits_ok (scavenged m)"
      "view p c = (pages (pallocBits m), pages (scavenged m))"
    using pa_ok_has [OF ok c] by (auto simp: has_def)
  have co: "chunkOf p (of_nat c) = Some m" using m(1) c26 chunkOf_at [of "of_nat c" p] by simp
  have fl: "free_list (pallocBits m) = region (page_free p) 4 c" using chunk_bitmap(2) [OF ok c] co by auto
  obtain b where b: "block64 (pallocBits m) i = Some b" "\<forall>r<64. bit b r \<longleftrightarrow> unat i div 64 * 64 + r \<in> pages (pallocBits m)"
    using block64_pages [OF m(2) i] by blast
  obtain v where v: "block64 (scavenged m) i = Some v" "\<forall>r<64. bit v r \<longleftrightarrow> unat i div 64 * 64 + r \<in> pages (scavenged m)"
    using block64_pages [OF m(3) i] by blast
  have "page_free p (c * 512 + unat i div 64 * 64 + r) \<longleftrightarrow> unat i div 64 * 64 + r \<notin> pages (pallocBits m)"
    "page_scav p (c * 512 + unat i div 64 * 64 + r) \<longleftrightarrow> unat i div 64 * 64 + r \<in> pages (scavenged m)" if "r < 64" for r
  proof -
    have "unat i div 64 < 8" using i by simp
    then have "unat i div 64 * 64 + r < 512" using that by simp
    then have "(c * 512 + unat i div 64 * 64 + r) div 512 = c" "(c * 512 + unat i div 64 * 64 + r) mod 512 = unat i div 64 * 64 + r"
      by (simp_all add: add.assoc)
    then show "page_free p (c * 512 + unat i div 64 * 64 + r) \<longleftrightarrow> unat i div 64 * 64 + r \<notin> pages (pallocBits m)"
      "page_scav p (c * 512 + unat i div 64 * 64 + r) \<longleftrightarrow> unat i div 64 * 64 + r \<in> pages (scavenged m)"
      using c m(4) by (simp_all add: page_free_def page_scav_def)
  qed
  then show ?thesis using co m fl b v by (intro exI [of _ m] exI [of _ b] exI [of _ v]) (simp add: pages64_def)
qed

lemma div_block_512: "(k :: nat) div 512 * 512 + k mod 512 div 64 * 64 = k div 64 * 64"
proof -
  define q where "q = k div 512"
  define r where "r = k mod 512"
  have "k = 64 * (q * 8) + r" by (simp add: q_def r_def)
  then have "k div 64 = q * 8 + r div 64" by simp
  then show ?thesis by (simp add: q_def [symmetric] r_def [symmetric])
qed

lemma below_hint_used:
  assumes "pageBits_ok b" "free_list b = region F 4 c" "(i :: uint64) < 512" "\<And>k. F k \<Longrightarrow> c * 512 + unat i \<le> k"
  shows "\<forall>k<unat i. k \<in> pages b"
proof (intro allI impI)
  fix k assume k: "k < unat i"
  then have "\<not> F (c * 512 + k)" using assms(4) [of "c * 512 + k"] by auto
  moreover have "k < 512" using k assms(3) by (simp add: word_less_nat_alt)
  ultimately show "k \<in> pages b" using free_list_pages [OF assms(1), of k] by (simp add: assms(2) nth_region)
qed

lemma page_addr_block: "alignDown (page_addr k) (64 * pageSize) = page_addr (k div 64 * 64)"
proof -
  define b where "b = k div 64 * 64"
  define r where "r = k mod 64"
  have k: "k = b + r" "r < 64" by (simp_all add: b_def r_def)
  have "page_addr b = of_nat (k div 64) * of_nat (2 ^ 19) + of_nat 0x1FFFF0000000 * of_nat (2 ^ 19)"
    by (simp add: page_addr_def b_def arenaBaseOffset_def)
  then have pb: "page_addr b = of_nat ((k div 64 + 0x1FFFF0000000) * 2 ^ 19)" by (simp add: algebra_simps)
  have "unat (page_addr b) = (k div 64 + 0x1FFFF0000000) * 2 ^ 19 mod 2 ^ 64" unfolding pb by (simp only: unat_of_nat) simp
  then have d: "unat (page_addr b) mod 2 ^ 19 = 0" by (simp only: mod_mod_cancel le_imp_power_dvd) simp
  obtain q where q: "unat (page_addr b) = 2 ^ 19 * q" using d by (auto elim!: dvdE simp: mod_eq_0_iff_dvd)
  have "2 ^ 19 * q < 2 ^ 19 * 2 ^ 45" using unat_less_2p64 [of "page_addr b"] by (simp add: q)
  then have ql: "q < 2 ^ 45" by simp
  have e: "page_addr k = page_addr b + of_nat (r * 2 ^ 13)" by (simp add: k(1) page_addr_def algebra_simps)
  have u: "unat (of_nat (r * 2 ^ 13) :: uint64) = r * 2 ^ 13" using k(2) by (intro unat_of_nat_small) simp
  have "2 ^ 19 * q + r * 2 ^ 13 < 2 ^ LENGTH(64)" using ql k(2) by simp
  then have "unat (page_addr b) + unat (of_nat (r * 2 ^ 13) :: uint64) < 2 ^ LENGTH(64)" by (simp only: q u)
  then have "unat (page_addr k) = 2 ^ 19 * q + r * 2 ^ 13" unfolding e by (simp only: unat_add_small q u)
  then have "unat (page_addr k) div 2 ^ 19 * 2 ^ 19 = unat (page_addr b)" using k(2) by (simp add: q)
  then have "unat (alignDown (page_addr k) (2 ^ 19)) = unat (page_addr b)" by (simp only: unat_alignDown)
  then have "alignDown (page_addr k) (2 ^ 19) = page_addr (k div 64 * 64)" by (simp only: word_unat_eq_iff b_def)
  then show ?thesis by (simp add: page_consts)
qed

lemma alignDown_small: "k < 512 \<Longrightarrow> alignDown (of_nat k) 64 = of_nat (k div 64 * 64)"
proof -
  assume k: "k < 512"
  have "unat (alignDown (of_nat k) (2 ^ 6)) = k div 64 * 64" using k by (simp only: unat_alignDown) simp
  moreover have "unat (of_nat (k div 64 * 64) :: uint64) = k div 64 * 64" using k by (intro unat_of_nat_small) simp
  ultimately show ?thesis by (simp add: word_unat_eq_iff)
qed

text \<open>The block of the first free page \<open>k\<close>, as \<open>cache_block\<close> returns it.\<close>

definition block_of :: "pageAlloc \<Rightarrow> nat \<Rightarrow> chunkIdx \<times> pageCache \<Rightarrow> bool" where
  "block_of p k r \<longleftrightarrow> fst r = of_nat (k div 512) \<and> pc_base (snd r) = page_addr (k div 64 * 64) \<and>
     (\<forall>r'<64. bit (pc_cache (snd r)) r' \<longleftrightarrow> page_free p (k div 64 * 64 + r')) \<and>
     (\<forall>r'<64. bit (pc_scav (snd r)) r' \<longleftrightarrow> page_scav p (k div 64 * 64 + r'))"

lemma block_ofI:
  assumes "unat i = k mod 512"
    and "\<forall>r<64. bit b r \<longleftrightarrow> \<not> page_free p (k div 512 * 512 + unat i div 64 * 64 + r)"
    and "\<forall>r<64. bit v r \<longleftrightarrow> page_scav p (k div 512 * 512 + unat i div 64 * 64 + r)"
  shows "block_of p k (of_nat (k div 512), \<lparr>pc_base = page_addr (k div 64 * 64), pc_cache = NOT b, pc_scav = v\<rparr>)"
proof -
  have "k div 512 * 512 + k mod 512 div 64 * 64 = k div 64 * 64"
    by (rule div_block_512)
  then show ?thesis using assms by (simp add: block_of_def bit_not_iff)
qed

lemma cache_block_ok:
  assumes ok: "pa_ok p" and c: "chunkIndex (searchAddr p) < pa_end p"
  shows "if free_max (heap_pages p) = 0 then cache_block e p = Some None
    else \<exists>k r. first_fit (heap_pages p) 1 k \<and> cache_block e p = Some (Some r) \<and> block_of p k r"
proof -
  define ci where "ci = chunkIndex (searchAddr p)"
  define c where "c = unat ci"
  have ic: "ci = of_nat c" by (simp add: c_def)
  have c2: "c < sum_len p 4" "c < 2 ^ 26" using c ok by (simp_all add: c_def ci_def pa_ok_def word_less_nat_alt)
  have "page_of (searchAddr p) div 512 = c" by (simp add: c_def ci_def unat_chunkIndex)
  then have sa: "page_of (searchAddr p) = c * 512 + unat (chunkPageIndex (searchAddr p))"
    using page_split [of "searchAddr p"] by (simp add: unat_chunkPageIndex)
  have low: "c * 512 + unat (chunkPageIndex (searchAddr p)) \<le> k" if "page_free p k" for k
    using ok that by (simp add: pa_ok_def flip: sa)
  have s: "sums_to (summary p 4 c) (region (page_free p) 4 c)"
    using ok c2(2) entries_of_4 by (simp add: pa_ok_def tree_ok_def level_ok_def)
  have reg: "region (page_free p) 4 c = blk (page_free p) (c * 512) 512" by (simp add: region_blk)
  have get: "sum_get p 4 (unat ci) = Some (summary p 4 c)" using c2(1) by (simp add: sum_get_def c_def)
  have i512: "chunkPageIndex (searchAddr p) < 512" by (simp add: word_less_nat_alt unat_chunkPageIndex)
  show ?thesis
  proof (cases "summary p 4 c = 0")
    case False
    have fm: "free_max (region (page_free p) 4 c) \<noteq> 0"
    proof
      assume z: "free_max (region (page_free p) 4 c) = 0"
      then have "unpack (summary p 4 c) = (0, 0, 0)"
        using s free_start_max [of "region (page_free p) 4 c"] free_end_max [of "region (page_free p) 4 c"] by (simp add: sums_to_def)
      then show False using unpack_zero False by blast
    qed
    then have "1 \<le> free_max (region (page_free p) 4 c)" by simp
    then obtain k0 where "first_fit (region (page_free p) 4 c) 1 k0" using first_fit_ex by blast
    then have "page_free p (c * 512 + k0)" "k0 < 512" using first_fit_free [of "page_free p" "c * 512" 512 1 k0] by (force simp: reg)+
    then have cs: "c \<in> chunk_set p" by (simp add: page_free_def)
    obtain m where m: "chunkOf p (of_nat c) = Some m" "pageBits_ok (pallocBits m)"
        "free_list (pallocBits m) = region (page_free p) 4 c" using chunk_bitmap(2) [OF ok cs] by blast
    have "\<forall>k<unat (chunkPageIndex (searchAddr p)). k \<in> pages (pallocBits m)" by (rule below_hint_used [OF m(2,3) i512 low])
    then obtain r si where f: "palloc_find (pallocBits m) 1 (chunkPageIndex (searchAddr p)) = Some (r, si)"
        "found 0 (free_list (pallocBits m)) 1 r"
      using palloc_find_found [OF m(2) _ i512, of 1] by (auto simp: word_less_nat_alt)
    then obtain j where j: "first_fit (region (page_free p) 4 c) 1 j" "r = of_nat j" using fm by (auto simp: found_def m(3))
    have j512: "j < 512" using first_fit_free [OF j(1) [unfolded reg]] by simp
    have ne: "(of_nat j :: uint64) \<noteq> NOT 0" using j512 by (intro small_idx) simp
    have uj: "unat (of_nat j :: uint64) = j" using j512 by (intro unat_of_nat_small) simp
    have fit: "first_fit (heap_pages p) 1 (c * 512 + j)"
      unfolding heap_pages_def using j(1) c2(2) low by (intro first_fit_chunk) (force simp: le_trans)+
    obtain b v where bv: "pages64 (pallocBits m) (of_nat j) = Some b" "block64 (scavenged m) (of_nat j) = Some v"
        "\<forall>r<64. bit b r \<longleftrightarrow> \<not> page_free p (c * 512 + unat (of_nat j :: uint64) div 64 * 64 + r)"
        "\<forall>r<64. bit v r \<longleftrightarrow> page_scav p (c * 512 + unat (of_nat j :: uint64) div 64 * 64 + r)"
      using chunk_words [OF ok cs, of "of_nat j"] m(1) j512 uj by auto
    have kd: "(c * 512 + j) div 512 = c" "(c * 512 + j) mod 512 = j" "c * 512 + j div 64 * 64 = (c * 512 + j) div 64 * 64"
      using j512 div_block_512 [of "c * 512 + j"] by simp_all
    have "cache_block e p = Some (Some (of_nat c, \<lparr>pc_base = page_addr ((c * 512 + j) div 64 * 64), pc_cache = NOT b, pc_scav = v\<rparr>))"
      unfolding cache_block_def ci_def [symmetric] Let_def get Option.bind.bind_lunit if_P [OF False]
      unfolding ic m(1) f(1) Option.bind.bind_lunit prod.case j(2) if_not_P [OF ne] bv(1,2) alignDown_small [OF j512]
        page_addr_in_chunk kd(3) by (rule refl)
    moreover have "block_of p (c * 512 + j) (of_nat ((c * 512 + j) div 512), \<lparr>pc_base = page_addr ((c * 512 + j) div 64 * 64), pc_cache = NOT b, pc_scav = v\<rparr>)"
      using bv(3,4) uj kd by (intro block_ofI [of "of_nat j :: uint64"]) simp_all
    moreover have "free_max (heap_pages p) \<noteq> 0" using first_fit_free_max [OF fit] by simp
    ultimately show ?thesis using fit kd(1) by auto
  next
    case True
    obtain addr sa where f: "find e p 1 = Some (addr, sa)"
        "if free_max (heap_pages p) < 1 then addr = 0 else (\<exists>k. first_fit (heap_pages p) 1 k \<and> addr = page_addr k) \<and> good_hint p sa"
      using find_ok [OF ok unat_1 zero_less_one, of e] unfolding heap_pages_def by blast
    show ?thesis
    proof (cases "free_max (heap_pages p) = 0")
      case none: True
      then have "cache_block e p = Some None"
        unfolding cache_block_def ci_def [symmetric] Let_def get using True f by simp
      then show ?thesis using none by simp
    next
      case some: False
      then obtain k where k: "first_fit (heap_pages p) 1 k" "addr = page_addr k" using f(2) by auto
      have kp: "k < 2 ^ 35" "page_free p k" using k(1) unfolding first_page by simp_all
      have cs: "k div 512 \<in> chunk_set p" using kp(2) by (simp add: page_free_def)
      have nz: "page_addr k \<noteq> 0" using page_addr_nonzero [OF ok kp(2,1)] .
      have po: "page_of (page_addr k) = k" using kp(1) by simp
      have ux: "unat (chunkIndex (page_addr k)) = k div 512" "unat (chunkPageIndex (page_addr k)) = k mod 512"
        by (simp_all only: unat_chunkIndex unat_chunkPageIndex po)
      then have cx: "chunkIndex (page_addr k) = of_nat (k div 512)" by (simp flip: ux(1))
      obtain m b v where bv: "chunkOf p (of_nat (k div 512)) = Some m"
          "pages64 (pallocBits m) (chunkPageIndex (page_addr k)) = Some b" "block64 (scavenged m) (chunkPageIndex (page_addr k)) = Some v"
          "\<forall>r<64. bit b r \<longleftrightarrow> \<not> page_free p (k div 512 * 512 + unat (chunkPageIndex (page_addr k)) div 64 * 64 + r)"
          "\<forall>r<64. bit v r \<longleftrightarrow> page_scav p (k div 512 * 512 + unat (chunkPageIndex (page_addr k)) div 64 * 64 + r)"
        using chunk_words [OF ok cs, of "chunkPageIndex (page_addr k)"] unfolding ux(2) by auto
      have "cache_block e p = Some (Some (of_nat (k div 512), \<lparr>pc_base = page_addr (k div 64 * 64), pc_cache = NOT b, pc_scav = v\<rparr>))"
        unfolding cache_block_def ci_def [symmetric] Let_def get Option.bind.bind_lunit
        using True f(1) nz bv(1-3) by (simp add: k(2) cx page_addr_block)
      moreover have "block_of p k (of_nat (k div 512), \<lparr>pc_base = page_addr (k div 64 * 64), pc_cache = NOT b, pc_scav = v\<rparr>)"
        by (rule block_ofI [OF ux(2) bv(4,5)])
      ultimately show ?thesis using some k(1) by auto
    qed
  qed
qed

subsection \<open>Filling the cache\<close>

lemma card_block_pages: "card (block_pages i w) = OnesCount64 w"
proof -
  have "block_pages i w = (\<lambda>r. unat i div 64 * 64 + r) ` {r. bit w r}"
    using bit_imp_le_length [of w] by (fastforce simp: block_pages_def)
  then show ?thesis by (simp add: card_image inj_on_def OnesCount64_card)
qed

text \<open>The pages of a block as a slice of its chunk.\<close>

lemma block_slice:
  assumes i: "unat (i :: uint64) = b * 64 mod 512" and R: "\<And>r. r < 64 \<Longrightarrow> bit w r \<longleftrightarrow> b * 64 + r \<in> R" and sub: "\<And>j. j \<in> R \<Longrightarrow> j div 64 = b"
  shows "slice R (b div 8) = block_pages i w" "d \<noteq> b div 8 \<Longrightarrow> slice R d = {}"
proof -
  have ib: "unat i div 64 = b mod 8"
  proof -
    have "unat i = b mod 8 * 64" using i mod_mult_mult2 [of b 64 8] by simp
    then show ?thesis by simp
  qed
  have split: "b div 8 * 512 + k = b * 64 + k mod 64" if "k div 64 = b mod 8" for k
  proof -
    define q r where qr: "q = b div 8" "r = b mod 8"
    have k: "k = r * 64 + k mod 64" using that div_mult_mod_eq [of k 64] by (simp add: qr)
    have b: "b = q * 8 + r" by (simp add: qr)
    have "q * 512 + k = q * 512 + (r * 64 + k mod 64)" using k by (rule arg_cong)
    also have "\<dots> = b * 64 + k mod 64" by (simp add: b)
    finally show ?thesis by (simp add: qr)
  qed
  have dv: "(d * 512 + k) div 64 = d * 8 + k div 64" for d k :: nat
  proof -
    have "d * 512 + k = d * 8 * 64 + k" by simp
    then show ?thesis by (simp only: div_mult_self3)
  qed
  show "slice R (b div 8) = block_pages i w"
  proof (intro set_eqI iffI)
    fix k assume "k \<in> slice R (b div 8)"
    then have k: "k < 512" "b div 8 * 512 + k \<in> R" by (simp_all add: slice_def)
    then have "b div 8 * 8 + k div 64 = b" using sub dv by metis
    then have kb: "k div 64 = b mod 8" by (metis add_left_cancel div_mult_mod_eq)
    then have "bit w (k mod 64)" using R [of "k mod 64"] k(2) split [OF kb] by simp
    then show "k \<in> block_pages i w" by (simp add: in_block_pages ib kb)
  next
    fix k assume "k \<in> block_pages i w"
    then have k: "k div 64 = b mod 8" "bit w (k mod 64)" by (simp_all add: in_block_pages ib)
    then have "b div 8 * 512 + k \<in> R" using R [of "k mod 64"] split [OF k(1)] by simp
    moreover have "k < 512"
    proof -
      have "k div 64 < 8" using k(1) by simp
      then show ?thesis by (simp add: div_less_iff_less_mult)
    qed
    ultimately show "k \<in> slice R (b div 8)" by (simp add: slice_def)
  qed
  show "slice R d = {}" if "d \<noteq> b div 8"
  proof -
    have "(d * 512 + k) div 64 \<noteq> b" if "k < 512" for k
    proof
      assume "(d * 512 + k) div 64 = b"
      then have "b = d * 8 + k div 64" by (simp only: dv)
      then have "b div 8 = d" using that by simp
      then show False using \<open>d \<noteq> b div 8\<close> by simp
    qed
    then show ?thesis using sub by (fastforce simp: slice_def)
  qed
qed

lemma block_range:
  fixes b :: nat
  assumes "b * 64 + 64 \<le> 2 ^ 35"
  shows "is_range (page_addr (b * 64)) 64 (b * 64) 64" "unat (chunkPageIndex (page_addr (b * 64))) = b * 64 mod 512"
    "unat (chunkIndex (page_addr (b * 64))) = b div 8" "(b * 64 + 64 - 1) div 512 = b div 8" "b * 64 div 512 = b div 8"
proof -
  have po: "page_of (page_addr (b * 64)) = b * 64" using assms by simp
  show d: "b * 64 div 512 = b div 8" using div_mult_mult2 [of 64 b 8] by simp
  show "is_range (page_addr (b * 64)) 64 (b * 64) 64" using assms by (simp add: is_range_def off_page_addr)
  show "unat (chunkPageIndex (page_addr (b * 64))) = b * 64 mod 512" "unat (chunkIndex (page_addr (b * 64))) = b div 8"
    by (simp_all only: unat_chunkIndex unat_chunkPageIndex po d)
  have "b * 64 + 63 = (b mod 8 * 64 + 63) + b div 8 * 512"
  proof -
    have "b = b div 8 * 8 + b mod 8" by simp
    then show ?thesis by linarith
  qed
  moreover have "b mod 8 * 64 + 63 < 512" using mod_less_divisor [of 8 b] by linarith
  moreover have "(x + q * 512) div 512 = q" if "x < 512" for x q :: nat using that by simp
  ultimately have "(b * 64 + 63) div 512 = b div 8" by presburger
  then show "(b * 64 + 64 - 1) div 512 = b div 8" by simp
qed

lemma take_block:
  assumes ok: "pa_ok p" and c: "b div 8 \<in> chunk_set p" and i: "unat (i :: uint64) = b * 64 mod 512"
    and w: "\<forall>r<64. bit w r \<longleftrightarrow> page_free p (b * 64 + r)" and v: "\<forall>r<64. bit v r \<longleftrightarrow> page_scav p (b * 64 + r)"
  defines "R \<equiv> {j. j div 64 = b \<and> page_free p j}"
  shows "\<exists>p1 p2. mod_chunk (of_nat (b div 8)) (\<lambda>m. do {
       x \<leftarrow> allocPages64 (pallocBits m) i w;
       y \<leftarrow> clearBlock64 (scavenged m) i (w AND v);
       Some (m\<lparr>pallocBits := x, scavenged := y\<rparr>)
     }) p = Some p1 \<and> mod_scav (\<lambda>s. si_alloc s (of_nat (b div 8)) (of_nat (OnesCount64 w))) p1 = Some p2 \<and> eff (alloc_view R) p p2"
proof -
  define c' where "c' = b div 8"
  define B where "B = fst (view p c')"
  define V where "V = snd (view p c')"
  have h: "has p c' (B, V)" using pa_ok_has [OF ok c] by (simp add: B_def V_def c'_def)
  have wR: "bit w r \<longleftrightarrow> b * 64 + r \<in> R" if "r < 64" for r using w that by (simp add: R_def)
  have sl: "slice R c' = block_pages i w" "d \<noteq> c' \<Longrightarrow> slice R d = {}" for d
    unfolding c'_def by (rule block_slice [OF i wR]; simp add: R_def)+
  have i512: "unat i < 512" by (simp add: i)
  have disj: "B \<inter> slice R c' = {}" by (auto simp: slice_def R_def page_free_def B_def)
  have Vv: "V - block_pages i (w AND v) = V - slice R c'"
  proof (intro set_eqI iffI)
    fix k assume k: "k \<in> V - block_pages i (w AND v)"
    have "k \<notin> slice R c'"
    proof
      assume s: "k \<in> slice R c'"
      then have kw: "k div 64 = unat i div 64" "bit w (k mod 64)" by (simp_all add: sl in_block_pages)
      have kR: "c' * 512 + k \<in> R" "k < 512" using s by (simp_all add: slice_def)
      then have "b * 64 + k mod 64 = c' * 512 + k"
      proof -
        have "(c' * 512 + k) div 64 = b" using kR by (simp add: R_def)
        moreover have "(c' * 512 + k) mod 64 = k mod 64"
        proof -
          have "c' * 512 + k = c' * 8 * 64 + k" by simp
          then show ?thesis by (simp only: mod_mult_self3)
        qed
        ultimately show ?thesis by (metis div_mult_mod_eq)
      qed
      moreover have "page_scav p (c' * 512 + k)" using k kR(2) c by (simp add: page_scav_def V_def c'_def)
      ultimately have "bit v (k mod 64)" using v by simp
      then have "k \<in> block_pages i (w AND v)" using kw by (simp add: in_block_pages bit_and_iff)
      then show False using k by simp
    qed
    then show "k \<in> V - slice R c'" using k by simp
  qed (auto simp: sl in_block_pages bit_and_iff)
  have card: "card (B \<union> slice R c') = card B + OnesCount64 w"
    using has_finite [OF h] disj by (subst card_Un_disjoint [OF _ finite_slice]) (simp_all add: sl card_block_pages)
  have "card (B \<union> slice R c') \<le> card {..<512 :: nat}" using has_subset [OF h] by (intro card_mono) (auto simp: slice_def)
  then have le: "card B + unat (of_nat (OnesCount64 w) :: uint64) \<le> 512" "unat (of_nat (OnesCount64 w) :: uint64) = OnesCount64 w"
    using card by simp_all
  obtain p1 p2 where p: "mod_chunk (of_nat c') (\<lambda>m. do {
       x \<leftarrow> allocPages64 (pallocBits m) i w;
       y \<leftarrow> clearBlock64 (scavenged m) i (w AND v);
       Some (m\<lparr>pallocBits := x, scavenged := y\<rparr>)
     }) p = Some p1" "mod_scav (\<lambda>s. si_alloc s (of_nat c') (of_nat (OnesCount64 w))) p1 = Some p2"
     "eff (\<lambda>d x. if d = c' then (B \<union> slice R c', V - slice R c') else x) p p2"
  proof (rule exE [OF eff_one [OF h, of "\<lambda>m. do {
       x \<leftarrow> allocPages64 (pallocBits m) i w;
       y \<leftarrow> clearBlock64 (scavenged m) i (w AND v);
       Some (m\<lparr>pallocBits := x, scavenged := y\<rparr>)
     }" "B \<union> slice R c'" "V - slice R c'" "\<lambda>s. si_alloc s (of_nat c') (of_nat (OnesCount64 w))"]])
    fix m :: pallocData assume m: "pageBits_ok (pallocBits m)" "pageBits_ok (scavenged m)" "pages (pallocBits m) = B" "pages (scavenged m) = V"
    obtain x where x: "setBlock64 (pallocBits m) i w = Some x" "pageBits_ok x" "pages x = B \<union> slice R c'"
      using setBlock64_pages [OF m(1) i512, of w] by (auto simp: m sl)
    obtain y where y: "clearBlock64 (scavenged m) i (w AND v) = Some y" "pageBits_ok y" "pages y = V - slice R c'"
      using clearBlock64_pages [OF m(2) i512, of "w AND v"] unfolding m Vv by blast
    show "\<exists>m'. do {
       x \<leftarrow> allocPages64 (pallocBits m) i w;
       y \<leftarrow> clearBlock64 (scavenged m) i (w AND v);
       Some (m\<lparr>pallocBits := x, scavenged := y\<rparr>)
     } = Some m' \<and> pageBits_ok (pallocBits m') \<and> pageBits_ok (scavenged m') \<and>
        pages (pallocBits m') = B \<union> slice R c' \<and> pages (scavenged m') = V - slice R c'"
      using x y by (simp add: allocPages64_def)
  next
    fix s assume "cnt s c' = Some (card B)"
    from si_alloc_cnt [OF this le(1)] show "\<exists>s'. si_alloc s (of_nat c') (of_nat (OnesCount64 w)) = Some s' \<and>
        cnt s' = (cnt s)(c' \<mapsto> card (B \<union> slice R c'))" unfolding card le(2) .
  qed blast
  have "eff (alloc_view R) p p2"
  proof (rule eff_cong [OF p(3)])
    fix d x assume "has p d x"
    then show "alloc_view R d x = (if d = c' then (B \<union> slice R c', V - slice R c') else x)"
      using has_unique [OF h, of x] sl(2) [of d] by (cases "d = c'") (auto simp: alloc_view_def split_beta)
  qed
  then show ?thesis using p(1,2) unfolding c'_def by blast
qed

lemma mod_scav_summary:
  assumes "mod_scav g p1 = Some p2"
  shows "mod_scav g (p1\<lparr>summary := S\<rparr>) = Some (p2\<lparr>summary := S\<rparr>)" "chunks p2 = chunks p1" "sum_len p2 = sum_len p1" "summary p2 = summary p1"
    "searchAddr p2 = searchAddr p1"
  using assms by (auto simp: mod_scav_def bind_eq_Some_conv)

text \<open>The state of the cache that takes the free pages of block \<open>b\<close> of 64 pages.\<close>

definition caches_block :: "pageAlloc \<Rightarrow> nat \<Rightarrow> pageCache \<Rightarrow> bool" where
  "caches_block p b c \<longleftrightarrow> pc_base c = page_addr (b * 64) \<and>
     (\<forall>r<64. bit (pc_cache c) r \<longleftrightarrow> page_free p (b * 64 + r)) \<and> (\<forall>r<64. bit (pc_scav c) r \<longleftrightarrow> page_scav p (b * 64 + r))"

definition fill_post :: "pageAlloc \<Rightarrow> pageAlloc \<Rightarrow> pageCache \<Rightarrow> bool" where
  "fill_post p p' c \<longleftrightarrow>
     (case first_run (heap_pages p) 1 of
        None \<Rightarrow> c = pc_zero \<and> page_free p' = page_free p \<and> page_scav p' = page_scav p
      | Some k \<Rightarrow> caches_block p (k div 64) c \<and>
          (\<forall>j. page_free p' j \<longleftrightarrow> page_free p j \<and> j div 64 \<noteq> k div 64) \<and>
          (\<forall>j. page_scav p' j \<longleftrightarrow> page_scav p j \<and> \<not> (j div 64 = k div 64 \<and> page_free p j)))"

lemma allocToCache_some:
  assumes ok: "pa_ok p" and k: "first_fit (heap_pages p) 1 k" and r: "cache_block e p = Some (Some r)" "block_of p k r"
    and c: "chunkIndex (searchAddr p) < pa_end p"
  shows "\<exists>p' c. allocToCache e p = Some (p', c) \<and> pa_ok p' \<and> same_heap p p' \<and> fill_post p p' c"
proof -
  define b where "b = k div 64"
  define ch where "ch = snd r"
  define R where "R = {j. j div 64 = b \<and> page_free p j}"
  have kp: "k < 2 ^ 35" "page_free p k" "\<And>j. j < k \<Longrightarrow> \<not> page_free p j" using k unfolding first_page by simp_all
  have b35: "b * 64 + 64 \<le> 2 ^ 35"
  proof -
    have "b < 2 ^ 29" using kp(1) by (simp add: b_def div_less_iff_less_mult)
    then have "(b + 1) * 64 \<le> 2 ^ 29 * 64" by (intro mult_le_mono1) simp
    then show ?thesis by simp
  qed
  note br = block_range [OF b35]
  have kb: "k div 512 = b div 8" by (simp add: b_def div_mult2_eq [symmetric])
  have rr: "r = (of_nat (b div 8), ch)" "caches_block p b ch"
    using r(2) by (cases r; simp add: block_of_def caches_block_def ch_def b_def [symmetric] kb)+
  have base: "pc_base ch = page_addr (b * 64)" using rr(2) by (simp add: caches_block_def)
  have cs: "b div 8 \<in> chunk_set p" using kp(2) kb by (simp add: page_free_def)
  obtain p1 p2 where p: "mod_chunk (of_nat (b div 8)) (\<lambda>m. do {
       x \<leftarrow> allocPages64 (pallocBits m) (chunkPageIndex (page_addr (b * 64))) (pc_cache ch);
       y \<leftarrow> clearBlock64 (scavenged m) (chunkPageIndex (page_addr (b * 64))) (pc_cache ch AND pc_scav ch);
       Some (m\<lparr>pallocBits := x, scavenged := y\<rparr>)
     }) p = Some p1" "mod_scav (\<lambda>s. si_alloc s (of_nat (b div 8)) (of_nat (OnesCount64 (pc_cache ch)))) p1 = Some p2" "eff (alloc_view R) p p2"
    using take_block [OF ok cs br(2), of "pc_cache ch" "pc_scav ch"] rr(2) unfolding R_def caches_block_def by blast
  note ms = mod_scav_summary [OF p(2)]
  note pg = alloc_view_pages [OF ok p(3)]
  have s: "same_rest p p2" using p(3) by (simp add: eff_def)
  have inu: "\<forall>c. b * 64 div 512 \<le> c \<and> c \<le> (b * 64 + 64 - 1) div 512 \<longrightarrow> c \<in> chunk_set p"
    using cs unfolding br(4,5) by (metis le_antisym)
  have "j div 64 \<noteq> b" if "j < b * 64 \<or> b * 64 + 64 \<le> j" for j
  proof
    assume "j div 64 = b"
    then have "b * 64 \<le> j \<and> j < b * 64 + 64" using div_mult_mod_eq [of j 64] mod_less_divisor [of 64 j] by linarith
    then show False using that by linarith
  qed
  then have out: "\<forall>j. j < b * 64 \<or> b * 64 + 64 \<le> j \<longrightarrow> page_free p2 j = page_free p j" by (simp add: pg R_def)
  have sa: "page_of (searchAddr p) < 2 ^ 35" "\<forall>j. page_free p2 j \<longrightarrow> page_of (searchAddr p) \<le> j"
    using ok pg(1) by (simp_all add: pa_ok_def)
  obtain S where S: "update p1 (page_addr (b * 64)) 64 False True = Some (p1\<lparr>summary := S\<rparr>)"
      "pa_ok (p2\<lparr>searchAddr := searchAddr p, summary := S\<rparr>)"
    using eff_update [OF ok p(3) br(1) inu out _ sa, of False True p1] ms(2-4) by auto
  define q where "q = p2\<lparr>summary := S, searchAddr := page_addr (b * 64) + pageSize * (pageCachePages - 1)\<rparr>"
  have hint: "good_hint p2 (page_addr (b * 64 + 63))"
  proof -
    have "page_of (page_addr (b * 64 + 63)) = b * 64 + 63" using b35 by simp
    moreover have "b * 64 + 63 \<le> j" if "page_free p2 j" for j
    proof -
      have j: "page_free p j" "j div 64 \<noteq> b" using that by (auto simp: pg R_def)
      then have "k \<le> j" using kp(3) [of j] by (meson not_le)
      then have "b < j div 64" using j(2) div_le_mono [of k j 64] by (simp add: b_def)
      then have "(b + 1) * 64 \<le> j div 64 * 64" by (intro mult_le_mono1) simp
      also have "j div 64 * 64 \<le> j" by simp
      finally show ?thesis by simp
    qed
    ultimately show ?thesis using b35 by (simp add: good_hint_def)
  qed
  have sax: "page_addr (b * 64) + pageSize * (pageCachePages - 1) = page_addr (b * 64 + 63)"
    by (simp add: page_addr_def page_consts pageCachePages_def)
  have "good_hint (p2\<lparr>searchAddr := searchAddr p, summary := S\<rparr>) (page_addr (b * 64 + 63))" using hint by (simp add: good_hint_def)
  from pa_ok_searchAddr [OF S(2) this] have "pa_ok q" by (simp add: q_def sax)
  moreover have "allocToCache e p = Some (q, ch)"
  proof -
    have nc: "\<not> pa_end p \<le> chunkIndex (searchAddr p)" using c by (simp add: not_le)
    show ?thesis
      unfolding allocToCache_def if_not_P [OF nc] r(1) rr(1) Option.bind.bind_lunit option.case prod.case Let_def base p(1) pageCachePages_def S(1) ms(1)
      by (simp add: q_def pageCachePages_def)
  qed
  moreover have "same_heap p q" unfolding q_def using same_restD [OF s] by (simp add: same_heap_def)
  moreover have "fill_post p q ch"
    using first_run_cases(2) [OF zero_less_one k] rr(2) by (auto simp: fill_post_def q_def b_def [symmetric] pg R_def)
  ultimately show ?thesis by blast
qed

lemma allocToCache_ok:
  assumes ok: "pa_ok p"
  shows "\<exists>p' c. allocToCache e p = Some (p', c) \<and> pa_ok p' \<and> same_heap p p' \<and> fill_post p p' c"
proof (cases "free_max (heap_pages p) = 0")
  case True
  then have fr: "first_run (heap_pages p) 1 = None" by (intro first_run_cases) simp_all
  define q where "q = (if pa_end p \<le> chunkIndex (searchAddr p) then p else p\<lparr>searchAddr := maxSearchAddr\<rparr>)"
  have "pa_ok q" using ok pa_ok_searchAddr [OF ok exhausted_hint [OF ok True]] by (simp add: q_def)
  moreover have "allocToCache e p = Some (q, pc_zero)"
    using cache_block_ok [OF ok, of e] True by (auto simp: allocToCache_def q_def not_le)
  moreover have "fill_post p q pc_zero" "same_heap p q" unfolding fill_post_def fr by (simp_all add: q_def same_heap_def)
  ultimately show ?thesis by blast
next
  case False
  have c: "chunkIndex (searchAddr p) < pa_end p"
    using heap_pages_none [of p] searchAddr_beyond [OF ok] False by (meson not_le)
  obtain k r where "first_fit (heap_pages p) 1 k" "cache_block e p = Some (Some r)" "block_of p k r"
    using cache_block_ok [OF ok c, of e] False by auto
  then show ?thesis by (rule allocToCache_some [OF ok _ _ _ c])
qed

subsection \<open>Flushing the cache\<close>

lemma and_push_bit_one: "(x :: uint64) AND push_bit i 1 \<noteq> 0 \<longleftrightarrow> bit x i"
proof
  assume "x AND push_bit i 1 \<noteq> 0"
  then obtain k where "bit (x AND push_bit i 1) k" by (metis bit_word_eqI bit_0_eq bot_apply bot_bool_def)
  then show "bit x i" by (auto simp: bit_simps)
next
  assume b: "bit x i"
  then have "bit (x AND push_bit i 1) i" using bit_imp_le_length [OF b] by (simp add: bit_simps)
  then show "x AND push_bit i 1 \<noteq> 0" by auto
qed

lemma mod_scav_id: "mod_scav Some p = Some p"
  by (simp add: mod_scav_def)

lemma scav_one_ok:
  assumes h: "has p c (B, V)" and i: "unat i < 512"
  shows "\<exists>p'. mod_chunk (of_nat c) (\<lambda>m. do { b \<leftarrow> setRange (scavenged m) i 1; Some (m\<lparr>scavenged := b\<rparr>) }) p = Some p' \<and>
    eff (\<lambda>d x. if d = c then (B, insert (unat i) V) else x) p p'"
proof -
  have ic: "in_chunk i 1" using i by simp
  have "\<exists>p1 p2. mod_chunk (of_nat c) (\<lambda>m. do { b \<leftarrow> setRange (scavenged m) i 1; Some (m\<lparr>scavenged := b\<rparr>) }) p = Some p1 \<and>
    mod_scav Some p1 = Some p2 \<and> eff (\<lambda>d x. if d = c then (B, insert (unat i) V) else x) p p2"
  proof (rule eff_one [OF h])
    fix m :: pallocData assume m: "pageBits_ok (pallocBits m)" "pageBits_ok (scavenged m)" "pages (pallocBits m) = B" "pages (scavenged m) = V"
    obtain b where "setRange (scavenged m) i 1 = Some b" "pageBits_ok b" "pages b = V \<union> page_range i 1"
      using setRange_pages [OF m(2) ic] m(4) by auto
    then show "\<exists>m'. do { b \<leftarrow> setRange (scavenged m) i 1; Some (m\<lparr>scavenged := b\<rparr>) } = Some m' \<and> pageBits_ok (pallocBits m') \<and>
        pageBits_ok (scavenged m') \<and> pages (pallocBits m') = B \<and> pages (scavenged m') = insert (unat i) V"
      using m by simp
  qed auto
  then show ?thesis by (auto simp: mod_scav_id)
qed

lemma free_one_ok:
  assumes h: "has p c (B, V)" and i: "unat i < 512" "unat i \<in> B"
  shows "\<exists>p'. do {
      p \<leftarrow> mod_chunk (of_nat c) (\<lambda>m. do { b \<leftarrow> free1 (pallocBits m) i; Some (m\<lparr>pallocBits := b\<rparr>) }) p;
      mod_scav (\<lambda>s. si_free s (of_nat c) i 1) p
    } = Some p' \<and> eff (\<lambda>d x. if d = c then (B - {unat i}, V) else x) p p'"
proof -
  have pr: "page_range i 1 = {unat i}" by simp
  have "page_range i 1 \<subseteq> B" using i(2) by simp
  moreover have "\<exists>b'. free1 b i = Some b' \<and> pageBits_ok b' \<and> pages b' = pages b - page_range i 1" if "pageBits_ok b" for b
    using pclear_pages [OF that i(1)] unfolding pr by (simp add: free1_def)
  ultimately obtain p1 p2 where "mod_chunk (of_nat c) (\<lambda>m. do { b \<leftarrow> free1 (pallocBits m) i; Some (m\<lparr>pallocBits := b\<rparr>) }) p = Some p1"
      "mod_scav (\<lambda>s. si_free s (of_nat c) i 1) p1 = Some p2" "eff (\<lambda>d x. if d = c then (B - page_range i 1, V) else x) p p2"
    using free_in_chunk_eff [OF h, of i 1 "\<lambda>b. free1 b i"] by blast
  then show ?thesis unfolding pr by auto
qed

definition at_bits :: "nat \<Rightarrow> uint64 \<Rightarrow> nat set \<Rightarrow> nat set" where
  "at_bits s w I = {s + i | i. i \<in> I \<and> bit w i}"

lemma at_bits_insert: "at_bits s w (insert i I) = (if bit w i then insert (s + i) (at_bits s w I) else at_bits s w I)"
  by (auto simp: at_bits_def)

lemma in_at_bits: "s + i \<in> at_bits s w I \<longleftrightarrow> i \<in> I \<and> bit w i"
  by (auto simp: at_bits_def)

lemma flush_bits_ok:
  assumes "has p c (B, V)" and pi: "unat pi + 64 \<le> 512" and "set is \<subseteq> {..<64}" "distinct is" "at_bits (unat pi) (pc_cache ch) (set is) \<subseteq> B"
  shows "\<exists>p'. flush_bits ch (of_nat c) pi is p = Some p' \<and>
    eff (\<lambda>d x. if d = c then (B - at_bits (unat pi) (pc_cache ch) (set is), V \<union> at_bits (unat pi) (pc_scav ch) (set is)) else x) p p'"
  using assms(1,3-5)
proof (induction "is" arbitrary: p B V)
  case Nil
  have "eff (\<lambda>d x. if d = c then (B, V) else x) p p"
    by (rule eff_cong [OF eff_id]) (use has_unique [OF Nil(1)] in auto)
  then show ?case by (simp add: at_bits_def)
next
  case (Cons i "is")
  define o' where "o' = unat pi"
  have i: "i < 64" "i \<notin> set is" using Cons.prems by simp_all
  have ui: "unat (pi + of_nat i) = o' + i"
  proof -
    have "unat (of_nat i :: uint64) = i" using i by (intro unat_of_nat_small) simp
    then show ?thesis using pi i by (subst unat_add_small) (simp_all add: o'_def)
  qed
  have i512: "unat (pi + of_nat i) < 512" using pi i by (simp add: ui o'_def)
  define B1 where "B1 = (if bit (pc_cache ch) i then B - {o' + i} else B)"
  define V1 where "V1 = (if bit (pc_scav ch) i then insert (o' + i) V else V)"
  have keep: "eff (\<lambda>d x. if d = c then (B', V') else x) q q" if "has q c (B', V')" for q B' V'
    by (rule eff_cong [OF eff_id]) (use has_unique [OF that] in auto)
  have sub: "bit (pc_cache ch) i \<Longrightarrow> o' + i \<in> B" "at_bits o' (pc_cache ch) (set is) \<subseteq> B1"
    using Cons.prems(4) i by (auto simp: at_bits_insert o'_def [symmetric] B1_def) (auto simp: at_bits_def)
  obtain p1 where p1: "(if pc_cache ch AND push_bit i 1 \<noteq> 0 then do {
              p \<leftarrow> mod_chunk (of_nat c) (\<lambda>m. do { b \<leftarrow> free1 (pallocBits m) (pi + of_nat i); Some (m\<lparr>pallocBits := b\<rparr>) }) p;
              mod_scav (\<lambda>s. si_free s (of_nat c) (pi + of_nat i) 1) p
            } else Some p) = Some p1" "eff (\<lambda>d x. if d = c then (B1, V) else x) p p1"
    using free_one_ok [OF Cons.prems(1) i512] sub(1) keep [OF Cons.prems(1)] unfolding and_push_bit_one ui B1_def by (cases "bit (pc_cache ch) i") auto
  have h1: "has p1 c (B1, V)" using effD [OF p1(2) Cons.prems(1)] by simp
  obtain p2 where p2: "(if pc_scav ch AND push_bit i 1 \<noteq> 0 then
              mod_chunk (of_nat c) (\<lambda>m. do { b \<leftarrow> setRange (scavenged m) (pi + of_nat i) 1; Some (m\<lparr>scavenged := b\<rparr>) }) p1
            else Some p1) = Some p2" "eff (\<lambda>d x. if d = c then (B1, V1) else x) p1 p2"
    using scav_one_ok [OF h1 i512] keep [OF h1] unfolding and_push_bit_one ui V1_def by (cases "bit (pc_scav ch) i") auto
  have h2: "has p2 c (B1, V1)" using effD [OF p2(2) h1] by simp
  obtain p3 where p3: "flush_bits ch (of_nat c) pi is p2 = Some p3"
      "eff (\<lambda>d x. if d = c then (B1 - at_bits o' (pc_cache ch) (set is), V1 \<union> at_bits o' (pc_scav ch) (set is)) else x) p2 p3"
    using Cons.IH [OF h2] Cons.prems(2,3) sub(2) unfolding o'_def by auto
  have step: "flush_bits ch (of_nat c) pi (i # is) p = Some p3" unfolding flush_bits.simps p1(1) Option.bind.bind_lunit p2(1) p3(1) ..
  have B3: "B1 - at_bits o' (pc_cache ch) (set is) = B - at_bits o' (pc_cache ch) (set (i # is))"
    by (auto simp: at_bits_insert B1_def)
  have V3: "V1 \<union> at_bits o' (pc_scav ch) (set is) = V \<union> at_bits o' (pc_scav ch) (set (i # is))"
    by (auto simp: at_bits_insert V1_def)
  have "eff (\<lambda>d x. if d = c then (B - at_bits o' (pc_cache ch) (set (i # is)), V \<union> at_bits o' (pc_scav ch) (set (i # is))) else x) p p3"
    by (rule eff_cong [OF eff_comp [OF eff_comp [OF p1(2) p2(2)] p3(2)]]) (simp add: B3 V3)
  then show ?case unfolding step o'_def by blast
qed

definition flush_view :: "nat set \<Rightarrow> nat set \<Rightarrow> nat \<Rightarrow> chunk_view \<Rightarrow> chunk_view" where
  "flush_view A D c = (\<lambda>(B, V). (B - slice A c, V \<union> slice D c))"

lemma flush_view_pages:
  assumes "pa_ok p" "eff (flush_view A D) p p1" "\<forall>k\<in>A \<union> D. k div 512 \<in> chunk_set p"
  shows "page_free p1 k \<longleftrightarrow> page_free p k \<or> k \<in> A" "page_scav p1 k \<longleftrightarrow> page_scav p k \<or> k \<in> D"
proof -
  have s: "same_rest p p1" using assms(2) by (simp add: eff_def)
  have v: "view p1 c = flush_view A D c (view p c)" if "c \<in> chunk_set p" for c
    using eff_view [OF assms(2) pa_ok_has [OF assms(1) that]] .
  show "page_free p1 k \<longleftrightarrow> page_free p k \<or> k \<in> A" "page_scav p1 k \<longleftrightarrow> page_scav p k \<or> k \<in> D"
    using v [of "k div 512"] assms(3)
    by (auto simp: page_free_def page_scav_def same_rest_chunk_set [OF s] flush_view_def slice_mod split_beta)
qed

text \<open>The pages of block \<open>b\<close> whose bit is set.\<close>

definition block_set :: "nat \<Rightarrow> uint64 \<Rightarrow> nat set" where
  "block_set b w = {j. j div 64 = b \<and> bit w (j mod 64)}"

lemma block_set_slice:
  assumes i: "unat (i :: uint64) = b * 64 mod 512"
  shows "slice (block_set b w) (b div 8) = at_bits (unat i) w {0 ..< 64}" "d \<noteq> b div 8 \<Longrightarrow> slice (block_set b w) d = {}"
proof -
  have "unat i = b mod 8 * 64" using i mod_mult_mult2 [of b 64 8] by simp
  then have e: "block_pages i w = at_bits (unat i) w {0 ..< 64}" by (auto simp: block_pages_def at_bits_def)
  have R: "bit w r \<longleftrightarrow> b * 64 + r \<in> block_set b w" if "r < 64" for r using that by (simp add: block_set_def)
  have sub: "j div 64 = b" if "j \<in> block_set b w" for j using that by (simp add: block_set_def)
  show "slice (block_set b w) (b div 8) = at_bits (unat i) w {0 ..< 64}" unfolding e [symmetric] by (rule block_slice(1) [OF i R sub])
  show "d \<noteq> b div 8 \<Longrightarrow> slice (block_set b w) d = {}" by (rule block_slice(2) [OF i R sub])
qed

lemma block_set_range:
  assumes "k \<in> block_set b w"
  shows "b * 64 \<le> k" "k < b * 64 + 64" "k = b * 64 + k mod 64" "bit w (k mod 64)"
proof -
  have d: "k div 64 = b" "bit w (k mod 64)" using assms by (simp_all add: block_set_def)
  then show e: "k = b * 64 + k mod 64" "bit w (k mod 64)" using div_mult_mod_eq [of k 64] by simp_all
  have "k mod 64 < 64" by simp
  then show "b * 64 \<le> k" "k < b * 64 + 64" using e(1) by linarith+
qed

lemma flush_ok:
  assumes ok: "pa_ok p" and base: "pc_base c = page_addr (b * 64)" and b: "b * 64 + 64 \<le> 2 ^ 35"
    and ne: "pc_cache c \<noteq> 0" and used: "\<forall>k\<in>block_set b (pc_cache c). page_used p k"
  shows "\<exists>p'. flush c p = Some (pc_zero, p') \<and> pa_ok p' \<and> same_heap p p' \<and>
    (\<forall>k. page_free p' k \<longleftrightarrow> page_free p k \<or> k \<in> block_set b (pc_cache c)) \<and>
    (\<forall>k. page_scav p' k \<longleftrightarrow> page_scav p k \<or> k \<in> block_set b (pc_scav c))"
proof -
  define A where "A = block_set b (pc_cache c)"
  define D where "D = block_set b (pc_scav c)"
  define i where "i = chunkPageIndex (page_addr (b * 64))"
  define a where "a = (if lessThan (pc_base c) (searchAddr p) then pc_base c else searchAddr p)"
  note br = block_range [OF b, folded i_def]
  have inC: "k div 512 = b div 8" if "k div 64 = b" for k :: nat using that by (simp add: div_mult2_eq [symmetric] flip: that)
  obtain r where r: "bit (pc_cache c) r" using ne by (metis bit_word_eqI bit_0_eq bot_apply bot_bool_def)
  then have "r < 64" using bit_imp_le_length by force
  then have "b * 64 + r \<in> A" using r by (simp add: A_def block_set_def)
  then have cs: "b div 8 \<in> chunk_set p" using used inC [of "b * 64 + r"] \<open>r < 64\<close> by (auto simp: A_def page_used_def)
  have h: "has p (b div 8) (fst (view p (b div 8)), snd (view p (b div 8)))" using pa_ok_has [OF ok cs] by simp
  have sA: "slice A (b div 8) = at_bits (unat i) (pc_cache c) {0 ..< 64}" "d \<noteq> b div 8 \<Longrightarrow> slice A d = {}" for d
    unfolding A_def by (rule block_set_slice [OF br(2)])+
  have sD: "slice D (b div 8) = at_bits (unat i) (pc_scav c) {0 ..< 64}" "d \<noteq> b div 8 \<Longrightarrow> slice D d = {}" for d
    unfolding D_def by (rule block_set_slice [OF br(2)])+
  have i512: "unat i + 64 \<le> 512"
  proof -
    have "unat i = b mod 8 * 64" using br(2) mod_mult_mult2 [of b 64 8] by simp
    moreover have "(b mod 8 + 1) * 64 \<le> 8 * 64" by (intro mult_le_mono1) (simp add: Suc_leI)
    ultimately show ?thesis by simp
  qed
  have "slice A (b div 8) \<subseteq> fst (view p (b div 8))"
  proof
    fix k assume "k \<in> slice A (b div 8)"
    then have k: "b div 8 * 512 + k \<in> A" "k < 512" by (simp_all add: slice_def)
    then have "page_used p (b div 8 * 512 + k)" using used by (simp add: A_def)
    then show "k \<in> fst (view p (b div 8))" using k(2) by (simp add: page_used_def)
  qed
  then obtain p1 where p1: "flush_bits c (of_nat (b div 8)) i [0 ..< 64] p = Some p1"
      "eff (\<lambda>d x. if d = b div 8 then (fst (view p (b div 8)) - slice A (b div 8), snd (view p (b div 8)) \<union> slice D (b div 8)) else x) p p1"
    using flush_bits_ok [OF h i512, of "[0 ..< 64]" c] by (auto simp: sA sD atLeast0LessThan)
  have e: "eff (flush_view A D) p p1"
  proof (rule eff_cong [OF p1(2)])
    fix d x assume "has p d x"
    then show "flush_view A D d x = (if d = b div 8 then (fst (view p (b div 8)) - slice A (b div 8), snd (view p (b div 8)) \<union> slice D (b div 8)) else x)"
      using view_eq sA(2) [of d] sD(2) [of d] by (cases "d = b div 8") (auto simp: flush_view_def split_beta)
  qed
  have "\<forall>k\<in>A \<union> D. k div 512 \<in> chunk_set p" using cs inC by (auto simp: A_def D_def block_set_def)
  note pg = flush_view_pages [OF ok e this]
  have s: "same_rest p p1" using e by (simp add: eff_def)
  have inu: "\<forall>c. b * 64 div 512 \<le> c \<and> c \<le> (b * 64 + 64 - 1) div 512 \<longrightarrow> c \<in> chunk_set p"
    using cs unfolding br(4,5) by (metis le_antisym)
  have out: "\<forall>k. k < b * 64 \<or> b * 64 + 64 \<le> k \<longrightarrow> page_free p1 k = page_free p k"
    using block_set_range(1,2) [of _ b "pc_cache c"] by (fastforce simp: pg A_def)
  have sa: "page_of a < 2 ^ 35" "\<forall>k. page_free p1 k \<longrightarrow> page_of a \<le> k"
  proof -
    have lb: "page_of (pc_base c) = b * 64" using b by (simp add: base)
    have "page_of (searchAddr p) < 2 ^ 35" using ok by (simp add: pa_ok_def)
    then show "page_of a < 2 ^ 35" using lb b by (simp add: a_def)
    have l: "page_of a \<le> b * 64" "page_of a \<le> page_of (searchAddr p)"
      using lb page_of_mono [of "pc_base c" "searchAddr p"] page_of_mono [of "searchAddr p" "pc_base c"]
      by (auto simp: a_def lessThan_off not_less less_imp_le)
    show "\<forall>k. page_free p1 k \<longrightarrow> page_of a \<le> k"
    proof (intro allI impI)
      fix k assume "page_free p1 k"
      then consider "page_free p k" | "k \<in> A" using pg(1) by blast
      then show "page_of a \<le> k"
      proof cases
        case 1
        then have "page_of (searchAddr p) \<le> k" using ok by (simp add: pa_ok_def)
        then show ?thesis using l(2) by simp
      next
        case 2
        then show ?thesis using l(1) block_set_range(1) [of k b "pc_cache c"] by (simp add: A_def)
      qed
    qed
  qed
  obtain S where S: "update (p1\<lparr>searchAddr := a\<rparr>) (page_addr (b * 64)) 64 False False = Some (p1\<lparr>searchAddr := a, summary := S\<rparr>)"
      "pa_ok (p1\<lparr>searchAddr := a, summary := S\<rparr>)"
    using eff_update_ok [OF ok e br(1) inu out _ sa, of False False] by auto
  define p' where "p' = p1\<lparr>searchAddr := a, summary := S\<rparr>"
  have ci: "chunkIndex (page_addr (b * 64)) = of_nat (b div 8)" by (simp flip: br(3))
  have low: "lower_searchAddr (page_addr (b * 64)) p1 = p1\<lparr>searchAddr := a\<rparr>"
    unfolding lower_searchAddr_eq a_def base using same_restD(3) [OF s] by simp
  have "\<not> pc_empty c" using ne by (simp add: pc_empty_def)
  then have "flush c p = Some (pc_zero, p')"
    unfolding flush_def base i_def [symmetric] ci Let_def p1(1) Option.bind.bind_lunit low pageCachePages_def S(1)
    by (simp add: p'_def)
  moreover have "same_heap p p'" unfolding p'_def by (rule same_heap_rest [OF s])
  ultimately show ?thesis using S(2) pg unfolding A_def [symmetric] D_def [symmetric] by (intro exI [of _ p']) (simp add: p'_def)
qed

text \<open>C7: \<open>allocToCache\<close> on a good state never panics and keeps the invariant: it takes every free page of the aligned block
  of 64 pages that holds the first free page of the heap, with their scavenged bits, and nothing else; the cache is empty when
  no page is free.\<close>

theorem allocToCache_correct:
  assumes "pa_ok p"
  shows "\<exists>p' c. allocToCache e p = Some (p', c) \<and> pa_ok p' \<and>
    (case first_run (heap_pages p) 1 of
       None \<Rightarrow> c = pc_zero \<and> page_free p' = page_free p \<and> page_scav p' = page_scav p
     | Some k \<Rightarrow> caches_block p (k div 64) c \<and>
         (\<forall>j. page_free p' j \<longleftrightarrow> page_free p j \<and> j div 64 \<noteq> k div 64) \<and>
         (\<forall>j. page_scav p' j \<longleftrightarrow> page_scav p j \<and> \<not> (j div 64 = k div 64 \<and> page_free p j)))"
  using allocToCache_ok [OF assms, of e] unfolding fill_post_def by blast

theorem allocToCache_correct_witness:
  "\<exists>p' c. allocToCache sample_env sample_heap = Some (p', c) \<and> pa_ok p' \<and> pc_base c = 0xc000000000 \<and>
     bit (pc_cache c) 63 \<and> \<not> page_free p' (sample_chunk * 512 + 63) \<and> page_free p' (sample_chunk * 512 + 64)"
proof -
  have r: "first_run (heap_pages sample_heap) 1 = Some (sample_chunk * 512)" using sample_first_run [of 1] by simp
  have d: "sample_chunk * 512 div 64 = sample_chunk * 8" by (simp add: sample_chunk_def)
  from allocToCache_correct [OF sample_heap_ok, of sample_env] obtain p' c where
      "allocToCache sample_env sample_heap = Some (p', c)" "pa_ok p'" "caches_block sample_heap (sample_chunk * 8) c"
      "\<forall>j. page_free p' j \<longleftrightarrow> page_free sample_heap j \<and> j div 64 \<noteq> sample_chunk * 8"
    unfolding r by (auto simp: d)
  then show ?thesis
    using sample_page_addr by (intro exI [of _ p'] exI [of _ c]) (simp add: caches_block_def sample_page_free sample_chunk_def)
qed

lemma flush_filled:
  assumes "pa_ok p1" "same_heap p p1" "fill_post p p1 c" "first_run (heap_pages p) 1 = Some k"
  shows "\<exists>p2. flush c p1 = Some (pc_zero, p2) \<and> pa_ok p2 \<and> page_free p2 = page_free p \<and> page_scav p2 = page_scav p"
proof -
  define b where "b = k div 64"
  have c: "caches_block p b c" "\<And>j. page_free p1 j \<longleftrightarrow> page_free p j \<and> j div 64 \<noteq> b"
      "\<And>j. page_scav p1 j \<longleftrightarrow> page_scav p j \<and> \<not> (j div 64 = b \<and> page_free p j)"
    using assms(3,4) by (simp_all add: fill_post_def b_def)
  have k: "k < 2 ^ 35" "page_free p k" using assms(4) first_run_eq [of 1 "heap_pages p" k] unfolding first_page by simp_all
  have b35: "b * 64 + 64 \<le> 2 ^ 35"
  proof -
    have "b < 2 ^ 29" using k(1) by (simp add: b_def div_less_iff_less_mult)
    then have "(b + 1) * 64 \<le> 2 ^ 29 * 64" by (intro mult_le_mono1) simp
    then show ?thesis by simp
  qed
  have split: "b * 64 + j mod 64 = j" if "j div 64 = b" for j using that div_mult_mod_eq [of j 64] by simp
  have cb: "j \<in> block_set b (pc_cache c) \<longleftrightarrow> j div 64 = b \<and> page_free p j" "j \<in> block_set b (pc_scav c) \<longleftrightarrow> j div 64 = b \<and> page_scav p j" for j
    using c(1) split [of j] unfolding block_set_def caches_block_def by (auto dest!: spec [of _ "j mod 64"])
  have "k \<in> block_set b (pc_cache c)" using k(2) unfolding cb by (simp add: b_def)
  then have ne: "pc_cache c \<noteq> 0" by (auto simp: block_set_def)
  have "\<forall>j\<in>block_set b (pc_cache c). page_used p1 j"
  proof
    fix j assume "j \<in> block_set b (pc_cache c)"
    then have "j div 64 = b" "page_free p j" unfolding cb by blast+
    moreover from this have "j div 512 \<in> chunk_set p" by (simp add: page_free_def)
    ultimately show "page_used p1 j" unfolding page_used_free c(2) same_heap_used [OF assms(2)] by blast
  qed
  then obtain p2 where p2: "flush c p1 = Some (pc_zero, p2)" "pa_ok p2"
      "\<forall>j. page_free p2 j \<longleftrightarrow> page_free p1 j \<or> j \<in> block_set b (pc_cache c)"
      "\<forall>j. page_scav p2 j \<longleftrightarrow> page_scav p1 j \<or> j \<in> block_set b (pc_scav c)"
    using flush_ok [OF assms(1) _ b35 ne] c(1) unfolding caches_block_def by blast
  have "page_free p2 j \<longleftrightarrow> page_free p j" for j using p2(3) [rule_format, of j] cb(1) [of j] c(2) [of j] by blast
  moreover have "page_scav p2 j \<longleftrightarrow> page_scav p j" for j using p2(4) [rule_format, of j] cb(2) [of j] c(3) [of j] by blast
  ultimately have "page_free p2 = page_free p" "page_scav p2 = page_scav p" by (simp_all add: fun_eq_iff)
  then show ?thesis using p2(1,2) by blast
qed

text \<open>C8: \<open>flush\<close> undoes \<open>allocToCache\<close>: the same pages are free and scavenged afterwards as before.\<close>

theorem allocToCache_flush:
  assumes "pa_ok p"
  shows "\<exists>p1 c p2. allocToCache e p = Some (p1, c) \<and> flush c p1 = Some (pc_zero, p2) \<and> pa_ok p2 \<and>
    page_free p2 = page_free p \<and> page_scav p2 = page_scav p"
proof -
  obtain p1 c where p1: "allocToCache e p = Some (p1, c)" "pa_ok p1" "same_heap p p1" "fill_post p p1 c"
    using allocToCache_ok [OF assms, of e] by blast
  show ?thesis
  proof (cases "first_run (heap_pages p) 1")
    case None
    then have n: "c = pc_zero" "page_free p1 = page_free p" "page_scav p1 = page_scav p" using p1(4) by (simp_all add: fill_post_def)
    have "flush c p1 = Some (pc_zero, p1)" by (simp add: n flush_def pc_empty_def pc_zero_def)
    then show ?thesis using p1(1,2) n by blast
  next
    case (Some k)
    from flush_filled [OF p1(2,3,4) this] show ?thesis using p1(1) by blast
  qed
qed

theorem allocToCache_flush_witness:
  "\<exists>p1 c p2. allocToCache sample_env sample_heap = Some (p1, c) \<and> flush c p1 = Some (pc_zero, p2) \<and> pa_ok p2 \<and>
     page_free p2 = page_free sample_heap"
  using allocToCache_flush [OF sample_heap_ok, of sample_env] by blast

end
