(* ===== verification/PageLife.thy ===== *)
theory PageLife
  imports PageGrow CacheHeap
begin

text \<open>
  The life of the heap.  Starting from \<open>init\<close>, the heap grows, spans are allocated from the page allocator or through the
  page caches of the Ps, are freed, and caches are filled and flushed.  Every operation keeps the chunks that are not in use
  untouched, so that the heap can always grow; who holds which pages is an abstract account, a \<open>page_store\<close>, whose
  laws the page allocator satisfies.
\<close>

subsection \<open>What an operation leaves alone\<close>

text \<open>Outside the chunks \<open>C\<close> the bitmaps and the index are the same, and the bounds of the index everywhere.\<close>

definition frame :: "nat set \<Rightarrow> pageAlloc \<Rightarrow> pageAlloc \<Rightarrow> bool" where
  "frame C p p' \<longleftrightarrow> (\<forall>c. c \<notin> C \<longrightarrow> cell p' c = cell p c \<and> si_chunks (scav_index p') c = si_chunks (scav_index p) c) \<and>
     si_min (scav_index p') = si_min (scav_index p) \<and> si_max (scav_index p') = si_max (scav_index p)"

named_theorems frames \<open>what the steps of the page allocator leave alone\<close>

lemma frame_refl: "frame C p p"
  by (simp add: frame_def)

lemma frame_trans: "frame C p q \<Longrightarrow> frame D q r \<Longrightarrow> C \<subseteq> E \<Longrightarrow> D \<subseteq> E \<Longrightarrow> frame E p r"
  unfolding frame_def by (metis subsetD)

lemma frame_mono: "frame C p q \<Longrightarrow> C \<subseteq> E \<Longrightarrow> frame E p q"
  unfolding frame_def by blast

lemma frame_fields: "chunks q = chunks p \<Longrightarrow> scav_index q = scav_index p \<Longrightarrow> frame C p q"
  by (simp add: frame_def cell_cong [of q p])

lemma frame_mod_chunk [frames]: "mod_chunk ci f p = Some p' \<Longrightarrow> frame {unat ci} p p'"
proof -
  assume "mod_chunk ci f p = Some p'"
  then obtain t m where t: "chunks p (unat ci div 2 ^ 13) = Some t"
      "p' = p\<lparr>chunks := (chunks p)(unat ci div 2 ^ 13 \<mapsto> t(unat ci mod 2 ^ 13 := m))\<rparr>"
    by (auto simp: mod_chunk_def unat_l1 unat_l2 bind_eq_Some_conv)
  have ne: "d div 2 ^ 13 = unat ci div 2 ^ 13 \<Longrightarrow> d mod 2 ^ 13 = unat ci mod 2 ^ 13 \<Longrightarrow> d = unat ci" for d
    by (metis div_mult_mod_eq)
  show ?thesis using t(1) ne unfolding t(2) by (auto simp: frame_def cell_def split: option.splits)
qed

lemma si_store_keeps: "si_store s ci d = Some s' \<Longrightarrow> s' = s\<lparr>si_chunks := (si_chunks s)(unat ci := pack d)\<rparr>"
  by (simp add: si_store_def split: if_splits)

lemma si_alloc_keeps: "si_alloc s ci n = Some s' \<Longrightarrow>
    (\<forall>c. c \<noteq> unat ci \<longrightarrow> si_chunks s' c = si_chunks s c) \<and> si_min s' = si_min s \<and> si_max s' = si_max s"
  by (auto simp: si_alloc_def bind_eq_Some_conv dest!: si_store_keeps)

lemma si_free_keeps: "si_free s ci i n = Some s' \<Longrightarrow>
    (\<forall>c. c \<noteq> unat ci \<longrightarrow> si_chunks s' c = si_chunks s c) \<and> si_min s' = si_min s \<and> si_max s' = si_max s"
  by (auto simp: si_free_def bind_eq_Some_conv Let_def split_beta dest!: si_store_keeps)

lemma si_setEmpty_keeps: "si_setEmpty s ci = Some s' \<Longrightarrow>
    (\<forall>c. c \<noteq> unat ci \<longrightarrow> si_chunks s' c = si_chunks s c) \<and> si_min s' = si_min s \<and> si_max s' = si_max s"
  by (auto simp: si_setEmpty_def bind_eq_Some_conv dest!: si_store_keeps)

lemma frame_mod_scav:
  assumes "mod_scav f p = Some p'"
    "\<And>s s'. f s = Some s' \<Longrightarrow> (\<forall>c. c \<noteq> k \<longrightarrow> si_chunks s' c = si_chunks s c) \<and> si_min s' = si_min s \<and> si_max s' = si_max s"
  shows "frame {k} p p'"
  using assms by (auto simp: mod_scav_def bind_eq_Some_conv frame_def cell_def)

lemma frame_scav [frames]:
  "mod_scav (\<lambda>s. si_alloc s ci n) p = Some p' \<Longrightarrow> frame {unat ci} p p'"
  "mod_scav (\<lambda>s. si_free s ci i n) p = Some p' \<Longrightarrow> frame {unat ci} p p'"
  "mod_scav (\<lambda>s. si_setEmpty s ci) p = Some p' \<Longrightarrow> frame {unat ci} p p'"
  by (erule frame_mod_scav, erule si_alloc_keeps si_free_keeps si_setEmpty_keeps)+

subsection \<open>Updating the summaries changes nothing else\<close>

definition only_sums :: "pageAlloc \<Rightarrow> pageAlloc \<Rightarrow> bool" where
  "only_sums p q \<longleftrightarrow> q = p\<lparr>summary := summary q\<rparr>"

lemma only_sums_refl: "only_sums p p"
  by (simp add: only_sums_def)

lemma only_sums_trans: "only_sums p q \<Longrightarrow> only_sums q r \<Longrightarrow> only_sums p r"
  by (cases p, cases q, cases r) (simp add: only_sums_def)

lemma only_sums_frame: "only_sums p q \<Longrightarrow> frame C p q"
  by (intro frame_fields) (cases p, cases q, simp add: only_sums_def)+

lemma only_sums_put: "sum_put p l i v = Some q \<Longrightarrow> only_sums p q"
  by (auto simp: sum_put_def only_sums_def split: if_splits)

lemma only_sums_fill: "sum_fill l a b v p = Some q \<Longrightarrow> only_sums p q"
  by (auto simp: sum_fill_def only_sums_def split: if_splits)

lemma only_sums_leaves: "recompute_leaves cs p = Some q \<Longrightarrow> only_sums p q"
proof (induction cs arbitrary: p)
  case (Cons c cs)
  then obtain s p1 where "sum_put p 4 c s = Some p1" "recompute_leaves cs p1 = Some q" by (auto simp: bind_eq_Some_conv)
  then show ?case using Cons.IH only_sums_put only_sums_trans by blast
qed (simp add: only_sums_refl)

lemma only_sums_update_leaves: "update_leaves p sc ec contig alloc = Some (q, b) \<Longrightarrow> only_sums p q"
  by (auto simp: update_leaves_def bind_eq_Some_conv only_sums_refl split: if_splits
      dest!: only_sums_put only_sums_leaves only_sums_fill intro: only_sums_trans)

lemma only_sums_merge: "merge_entries l js changed p = Some (q, b) \<Longrightarrow> only_sums p q"
proof (induction js arbitrary: p changed)
  case (Cons j js)
  then obtain p1 ch where "only_sums p p1" "merge_entries l js ch p1 = Some (q, b)"
    by (auto simp: bind_eq_Some_conv split: if_splits dest!: only_sums_put intro: that that [OF only_sums_refl])
  then show ?case using Cons.IH only_sums_trans by blast
qed (simp add: only_sums_refl)

lemma only_sums_up: "update_up l base limit changed p = Some q \<Longrightarrow> only_sums p q"
proof (induction l arbitrary: p changed)
  case (Suc l)
  show ?case
  proof (cases changed)
    case True
    obtain lo hi where "addrsToSummaryRange l base (limit + 1) = (lo, hi)" by force
    then obtain p1 ch where "merge_entries l [lo ..< hi] False p = Some (p1, ch)" "update_up l base limit ch p1 = Some q"
      using Suc.prems True by (auto simp: bind_eq_Some_conv)
    then show ?thesis using Suc.IH only_sums_merge only_sums_trans by blast
  qed (use Suc.prems in \<open>simp add: only_sums_refl\<close>)
qed (simp add: only_sums_refl)

lemma only_sums_update: "update p base npages contig alloc = Some q \<Longrightarrow> only_sums p q"
proof -
  assume "update p base npages contig alloc = Some q"
  then obtain p1 b where "update_leaves p (unat (chunkIndex base)) (unat (chunkIndex (base + npages * pageSize - 1))) contig alloc = Some (p1, b)"
      "(if b then update_up 4 base (base + npages * pageSize - 1) True p1 else Some p1) = Some q"
    by (auto simp: update_def Let_def bind_eq_Some_conv)
  note s1 = only_sums_update_leaves [OF this(1)]
  show ?thesis
  proof (cases b)
    case True
    then have "only_sums p1 q" using only_sums_up \<open>(if b then _ else _) = Some q\<close> by simp
    then show ?thesis by (rule only_sums_trans [OF s1])
  next
    case False
    then show ?thesis using s1 \<open>(if b then _ else _) = Some q\<close> by simp
  qed
qed

lemma frame_update [frames]: "update p base npages contig alloc = Some q \<Longrightarrow> frame C p q"
  by (intro only_sums_frame only_sums_update)

subsection \<open>The operations stay within their chunks\<close>

lemma frame_alloc_in_chunk: "alloc_in_chunk c i n (p, k) = Some (p', k') \<Longrightarrow> frame {unat c} p p'"
  by (auto simp: alloc_in_chunk_def bind_eq_Some_conv dest!: frames intro: frame_trans [of "{unat c}" _ _ "{unat c}"])

lemma frame_free_in_chunk: "free_in_chunk c i n p = Some p' \<Longrightarrow> frame {unat c} p p'"
  by (auto simp: free_in_chunk_def bind_eq_Some_conv dest!: frames intro: frame_trans [of "{unat c}" _ _ "{unat c}"])

lemma frame_alloc_whole: "alloc_whole_chunks cs (p, k) = Some (p', k') \<Longrightarrow> frame ((\<lambda>c. unat (of_nat c :: uint64)) ` set cs) p p'"
proof (induction cs arbitrary: p k)
  case (Cons c cs)
  then obtain f g p1 p2 k1 where s: "mod_chunk (of_nat c) f p = Some p1" "mod_scav (\<lambda>s. si_alloc s (of_nat c) pallocChunkPages) p1 = Some p2"
      "alloc_whole_chunks cs (p2, k1) = Some (p', k')"
    by (auto simp: bind_eq_Some_conv)
  have "frame {unat (of_nat c :: uint64)} p p2" using s(1,2) by (auto dest!: frames intro: frame_trans)
  then show ?case using Cons.IH [OF s(3)] by (rule frame_trans) auto
qed (simp add: frame_refl)

lemma frame_free_whole: "free_whole_chunks cs p = Some p' \<Longrightarrow> frame ((\<lambda>c. unat (of_nat c :: uint64)) ` set cs) p p'"
proof (induction cs arbitrary: p)
  case (Cons c cs)
  then obtain f p1 p2 where s: "mod_chunk (of_nat c) f p = Some p1" "mod_scav (\<lambda>s. si_free s (of_nat c) 0 pallocChunkPages) p1 = Some p2"
      "free_whole_chunks cs p2 = Some p'"
    by (auto simp: bind_eq_Some_conv)
  have "frame {unat (of_nat c :: uint64)} p p2" using s(1,2) by (auto dest!: frames intro: frame_trans)
  then show ?case using Cons.IH [OF s(3)] by (rule frame_trans) auto
qed (simp add: frame_refl)

lemma range_chunk_idx:
  assumes "is_range base npages b n"
  shows "unat (chunkIndex base) = b div 512" "unat (chunkIndex (base + npages * pageSize - 1)) = (b + n - 1) div 512"
    "b div 512 \<le> (b + n - 1) div 512" "(b + n - 1) div 512 < 2 ^ 26"
proof -
  have n: "0 < n" "b + n \<le> 2 ^ 35" using assms by (simp_all add: is_range_def)
  show "unat (chunkIndex base) = b div 512" "unat (chunkIndex (base + npages * pageSize - 1)) = (b + n - 1) div 512"
    using is_range_limit [OF assms] by (simp_all add: unat_chunkIndex)
  show "b div 512 \<le> (b + n - 1) div 512" by (rule div_le_mono) (use n in simp)
  show "(b + n - 1) div 512 < 2 ^ 26" using n by (simp add: div_less_iff_less_mult)
qed

lemma upt_chunks: "h < 2 ^ 26 \<Longrightarrow> (\<lambda>c. unat (of_nat c :: uint64)) ` set [l ..< h] = {l ..< h}"
proof -
  assume h: "h < 2 ^ 26"
  have "(\<lambda>c. unat (of_nat c :: uint64)) ` {l ..< h} = (\<lambda>c. c) ` {l ..< h}" by (rule image_cong) (use h in auto)
  then show ?thesis by simp
qed

text \<open>The chunks of a range.\<close>

definition range_chunk_set :: "nat \<Rightarrow> nat \<Rightarrow> nat set" where
  "range_chunk_set b n = {b div 512 .. (b + n - 1) div 512}"

lemma frame_allocRange:
  assumes r: "is_range base npages b n" and a: "pa_allocRange p base npages = Some (p', s)"
  shows "frame (range_chunk_set b n) p p'"
proof -
  note i = range_chunk_idx [OF r]
  define sc ec where "sc = chunkIndex base" and "ec = chunkIndex (base + npages * pageSize - 1)"
  have u: "unat sc = b div 512" "unat ec = (b + n - 1) div 512" by (simp_all add: sc_def ec_def i)
  define body where "body = (if sc = ec then alloc_in_chunk sc (chunkPageIndex base) (chunkPageIndex (base + npages * pageSize - 1) + 1 - chunkPageIndex base) (p, 0)
       else do {
         ps \<leftarrow> alloc_in_chunk sc (chunkPageIndex base) (pallocChunkPages - chunkPageIndex base) (p, 0);
         ps \<leftarrow> alloc_whole_chunks [unat sc + 1 ..< unat ec] ps;
         alloc_in_chunk ec 0 (chunkPageIndex (base + npages * pageSize - 1) + 1) ps
       })"
  obtain p1 k where p1: "body = Some (p1, k)" "update p1 base npages True True = Some p'"
    using a unfolding pa_allocRange_def Let_def sc_def [symmetric] ec_def [symmetric] body_def [symmetric] by (auto simp: bind_eq_Some_conv)
  have "frame (range_chunk_set b n) p p1"
  proof (cases "sc = ec")
    case True
    then have "frame {unat sc} p p1" using p1(1) frame_alloc_in_chunk by (simp add: body_def)
    then show ?thesis by (rule frame_mono) (use i(3) u in \<open>simp add: range_chunk_set_def\<close>)
  next
    case False
    then obtain q k1 q' k2 where s: "alloc_in_chunk sc (chunkPageIndex base) (pallocChunkPages - chunkPageIndex base) (p, 0) = Some (q, k1)"
        "alloc_whole_chunks [unat sc + 1 ..< unat ec] (q, k1) = Some (q', k2)"
        "alloc_in_chunk ec 0 (chunkPageIndex (base + npages * pageSize - 1) + 1) (q', k2) = Some (p1, k)"
      using p1(1) by (auto simp: body_def bind_eq_Some_conv)
    have f: "frame {b div 512} p q" "frame {b div 512 + 1 ..< (b + n - 1) div 512} q q'" "frame {(b + n - 1) div 512} q' p1"
      using frame_alloc_in_chunk [OF s(1)] frame_alloc_whole [OF s(2)] frame_alloc_in_chunk [OF s(3)] upt_chunks [of "unat ec"] i(4) by (simp_all add: u)
    have "frame (range_chunk_set b n) p q'" by (rule frame_trans [OF f(1,2)]) (use i(3) in \<open>auto simp: range_chunk_set_def\<close>)
    then show ?thesis by (rule frame_trans [OF _ f(3)]) (use i(3) in \<open>auto simp: range_chunk_set_def\<close>)
  qed
  then show ?thesis by (rule frame_trans [OF _ frame_update [OF p1(2)]]) auto
qed

lemma frame_free:
  assumes r: "is_range base npages b n" and f: "pa_free p base npages = Some p'"
  shows "frame (range_chunk_set b n) p p'"
proof -
  note i = range_chunk_idx [OF r]
  define sc ec where "sc = chunkIndex base" and "ec = chunkIndex (base + npages * pageSize - 1)"
  have u: "unat sc = b div 512" "unat ec = (b + n - 1) div 512" by (simp_all add: sc_def ec_def i)
  define p0 where "p0 = lower_searchAddr base p"
  have f0: "frame C p p0" for C by (rule frame_fields) (simp_all add: p0_def lower_searchAddr_def)
  define one where "one = do {
      p \<leftarrow> mod_chunk sc (\<lambda>m. do { b \<leftarrow> free1 (pallocBits m) (chunkPageIndex base); Some (m\<lparr>pallocBits := b\<rparr>) }) p0;
      mod_scav (\<lambda>s. si_free s sc (chunkPageIndex base) 1) p
    }"
  define many where "many = (if sc = ec then free_in_chunk sc (chunkPageIndex base) (chunkPageIndex (base + npages * pageSize - 1) + 1 - chunkPageIndex base) p0
      else do {
        p \<leftarrow> free_in_chunk sc (chunkPageIndex base) (pallocChunkPages - chunkPageIndex base) p0;
        p \<leftarrow> free_whole_chunks [unat sc + 1 ..< unat ec] p;
        free_in_chunk ec 0 (chunkPageIndex (base + npages * pageSize - 1) + 1) p
      })"
  obtain p1 where p1: "(if npages = 1 then one else many) = Some p1" "update p1 base npages True False = Some p'"
    using f unfolding pa_free_def Let_def sc_def [symmetric] ec_def [symmetric] p0_def [symmetric] one_def [symmetric] many_def [symmetric]
    by (auto simp: bind_eq_Some_conv)
  have sub: "{unat sc} \<subseteq> range_chunk_set b n" using i(3) u by (simp add: range_chunk_set_def)
  have "frame (range_chunk_set b n) p0 p1"
  proof (cases "npages = 1")
    case True
    then have "frame {unat sc} p0 p1" using p1(1) by (auto simp: one_def bind_eq_Some_conv dest!: frames intro: frame_trans)
    then show ?thesis by (rule frame_mono [OF _ sub])
  next
    case n1: False
    show ?thesis
    proof (cases "sc = ec")
      case True
      then have "frame {unat sc} p0 p1" using p1(1) n1 frame_free_in_chunk by (simp add: many_def)
      then show ?thesis by (rule frame_mono [OF _ sub])
    next
      case False
      then obtain q q' where s: "free_in_chunk sc (chunkPageIndex base) (pallocChunkPages - chunkPageIndex base) p0 = Some q"
          "free_whole_chunks [unat sc + 1 ..< unat ec] q = Some q'"
          "free_in_chunk ec 0 (chunkPageIndex (base + npages * pageSize - 1) + 1) q' = Some p1"
        using p1(1) n1 by (auto simp: many_def bind_eq_Some_conv)
      have f: "frame {b div 512} p0 q" "frame {b div 512 + 1 ..< (b + n - 1) div 512} q q'" "frame {(b + n - 1) div 512} q' p1"
        using frame_free_in_chunk [OF s(1)] frame_free_whole [OF s(2)] frame_free_in_chunk [OF s(3)] upt_chunks [of "unat ec"] i(4) by (simp_all add: u)
      have "frame (range_chunk_set b n) p0 q'" by (rule frame_trans [OF f(1,2)]) (use i(3) in \<open>auto simp: range_chunk_set_def\<close>)
      then show ?thesis by (rule frame_trans [OF _ f(3)]) (use i(3) in \<open>auto simp: range_chunk_set_def\<close>)
    qed
  qed
  then have "frame (range_chunk_set b n) p p1" by (rule frame_trans [OF f0]) auto
  then show ?thesis by (rule frame_trans [OF _ frame_update [OF p1(2)]]) auto
qed

lemma frame_alloc:
  assumes ok: "pa_ok p" and n: "0 < npages" and a: "pa_alloc e p npages = Some (p', addr, scav)"
  shows "frame (chunk_set p) p p'"
proof (cases "pa_end p \<le> chunkIndex (searchAddr p)")
  case True
  then show ?thesis using a by (simp add: pa_alloc_def frame_refl)
next
  case False
  define m where "m = unat npages"
  have m: "unat npages = m" "0 < m" using n by (simp_all add: m_def word_less_nat_alt)
  show ?thesis
  proof (rule pa_alloc_choice [OF ok m False, of e])
    fix addr' sa assume "pa_alloc e p npages = alloc_rest p npages True addr' sa"
    then have "p' = p \<or> p' = p\<lparr>searchAddr := maxSearchAddr\<rparr>" using a by (auto simp: alloc_rest_def split: if_splits)
    then show ?thesis by (intro frame_fields) auto
  next
    fix k sa assume step: "pa_alloc e p npages = alloc_rest p npages False (page_addr k) sa" and k: "first_fit (heap_pages p) m k"
    have kn: "k + m \<le> 2 ^ 35" "\<forall>t<m. page_free p (k + t)" using first_fit_free [OF k [unfolded heap_pages_def] m(2)] by simp_all
    have r: "is_range (page_addr k) npages k m" using kn m by (simp add: is_range_def off_page_addr)
    obtain q where q: "pa_allocRange p (page_addr k) npages = Some (q, scav)" "p' = q \<or> p' = q\<lparr>searchAddr := sa\<rparr>"
      using a step by (auto simp: alloc_rest_def bind_eq_Some_conv split: if_splits)
    have "page_free p j" if "j \<in> {k ..< k + m}" for j using that kn(2) [rule_format, of "j - k"] by (simp add: less_diff_conv2)
    then have "range_chunk_set k m \<subseteq> chunk_set p"
      using range_chunks [OF m(2), of k] by (fastforce simp: range_chunk_set_def page_free_def)
    then have "frame (chunk_set p) p q" by (rule frame_mono [OF frame_allocRange [OF r q(1)]])
    moreover have "frame {} q p'" using q(2) by (intro frame_fields) auto
    ultimately show ?thesis by (rule frame_trans) simp_all
  qed
qed

lemma frame_fill:
  assumes ok: "pa_ok p" and a: "allocToCache e p = Some (p', c)"
  shows "frame (chunk_set p) p p'"
proof (cases "pa_end p \<le> chunkIndex (searchAddr p)")
  case True
  then show ?thesis using a by (simp add: allocToCache_def frame_refl)
next
  case False
  then obtain r where r: "cache_block e p = Some r" using a by (auto simp: allocToCache_def bind_eq_Some_conv)
  show ?thesis
  proof (cases r)
    case None
    then have "p' = p\<lparr>searchAddr := maxSearchAddr\<rparr>" using a False r by (simp add: allocToCache_def)
    then show ?thesis by (intro frame_fields) simp_all
  next
    case (Some ic)
    obtain k where k: "first_fit (heap_pages p) 1 k" "block_of p k ic"
      using cache_block_ok [OF ok, of e] False r Some by (auto simp: not_le split: if_splits)
    have fr: "page_free p k" "k < 2 ^ 35" using k(1) unfolding first_page by simp_all
    obtain ci b where ic: "ic = (ci, b)" by force
    have "k div 512 < 2 ^ 26" using fr(2) by (simp add: div_less_iff_less_mult)
    then have ci: "unat ci \<in> chunk_set p" using k(2) fr(1) by (simp add: block_of_def ic page_free_def)
    obtain f g p1 p2 p3 n where s: "mod_chunk ci f p = Some p1" "update p1 (pc_base b) pageCachePages False True = Some p2"
        "mod_scav (\<lambda>s. si_alloc s ci n) p2 = Some p3" "chunks p' = chunks p3" "scav_index p' = scav_index p3"
      using a False r Some by (auto simp: allocToCache_def ic bind_eq_Some_conv Let_def)
    have "frame {unat ci} p p2" by (rule frame_trans [OF frame_mod_chunk [OF s(1)] frame_update [OF s(2)]]) auto
    then have "frame {unat ci} p p3" by (rule frame_trans [OF _ frame_scav(1) [OF s(3)]]) auto
    then have "frame {unat ci} p p'" by (rule frame_trans [OF _ frame_fields [OF s(4,5)]]) auto
    then show ?thesis by (rule frame_mono) (use ci in simp)
  qed
qed

lemma frame_flush_bits: "flush_bits c ci pi is p = Some p' \<Longrightarrow> frame {unat ci} p p'"
proof (induction "is" arbitrary: p)
  case (Cons i "is")
  let ?one = "do {
      p \<leftarrow> mod_chunk ci (\<lambda>m. do { b \<leftarrow> free1 (pallocBits m) (pi + of_nat i); Some (m\<lparr>pallocBits := b\<rparr>) }) p;
      mod_scav (\<lambda>s. si_free s ci (pi + of_nat i) 1) p
    }"
  obtain p1 p2 where s: "(if pc_cache c AND push_bit i 1 \<noteq> 0 then ?one else Some p) = Some p1"
      "(if pc_scav c AND push_bit i 1 \<noteq> 0 then
          mod_chunk ci (\<lambda>m. do { b \<leftarrow> setRange (scavenged m) (pi + of_nat i) 1; Some (m\<lparr>scavenged := b\<rparr>) }) p1
        else Some p1) = Some p2"
      "flush_bits c ci pi is p2 = Some p'"
    using Cons.prems unfolding flush_bits.simps bind_eq_Some_conv by blast
  have "frame {unat ci} p p1"
    using s(1) by (auto simp: bind_eq_Some_conv frame_refl split: if_splits dest!: frames intro: frame_trans)
  moreover have "frame {unat ci} p1 p2" using s(2) by (auto simp: frame_refl split: if_splits dest!: frames)
  ultimately show ?case using Cons.IH [OF s(3)] by (meson frame_trans subset_refl)
qed (simp add: frame_refl)

lemma frame_flush: "flush c p = Some (c', p') \<Longrightarrow> frame {unat (chunkIndex (pc_base c))} p p'"
proof (cases "pc_empty c")
  case False
  assume "flush c p = Some (c', p')"
  then obtain p1 where s: "flush_bits c (chunkIndex (pc_base c)) (chunkPageIndex (pc_base c)) [0 ..< 64] p = Some p1"
      "update (lower_searchAddr (pc_base c) p1) (pc_base c) pageCachePages False False = Some p'"
    using False by (auto simp: flush_def bind_eq_Some_conv Let_def)
  have "frame {} p1 (lower_searchAddr (pc_base c) p1)" by (rule frame_fields) (simp_all add: lower_searchAddr_def)
  from frame_trans [OF frame_flush_bits [OF s(1)] this] frame_update [OF s(2)] show ?thesis
    by (meson empty_subsetI frame_trans subset_refl)
qed (simp add: flush_def frame_refl)

lemma grow_ok_frame:
  assumes "grow_ok e p" "pa_ok p'" "chunk_set p' = chunk_set p" "frame (chunk_set p) p p'"
  shows "grow_ok e p'"
proof -
  have "index_ok e (scav_index p') C = index_ok e (scav_index p) C" for C
    using assms(4) unfolding index_ok_def frame_def by simp
  then show ?thesis using assms unfolding grow_ok_def frame_def by simp
qed

subsection \<open>Who holds which pages\<close>

text \<open>An account assigns to every owner its pages: owners share nothing, and together they hold exactly the pages in use.\<close>

definition accounts :: "('o \<Rightarrow> nat set) \<Rightarrow> nat set \<Rightarrow> bool" where
  "accounts f U \<longleftrightarrow> (\<forall>o1 o2. o1 \<noteq> o2 \<longrightarrow> f o1 \<inter> f o2 = {}) \<and> U = (\<Union>w. f w)"

lemma accounts_add: "accounts f U \<Longrightarrow> R \<inter> U = {} \<Longrightarrow> accounts (f(w := f w \<union> R)) (U \<union> R)"
proof -
  assume a: "accounts f U" "R \<inter> U = {}"
  have d: "f o1 \<inter> f o2 = {}" if "o1 \<noteq> o2" for o1 o2 using a(1) that by (simp add: accounts_def)
  have U: "U = (\<Union>w. f w)" using a(1) by (simp add: accounts_def)
  then have "f v \<inter> R = {}" for v using a(2) by blast
  then have "(f(w := f w \<union> R)) o1 \<inter> (f(w := f w \<union> R)) o2 = {}" if "o1 \<noteq> o2" for o1 o2
    using d [of o1 o2] d [of o2 o1] that by (auto simp: Int_Un_distrib Int_Un_distrib2)
  moreover have "U \<union> R = (\<Union>v. (f(w := f w \<union> R)) v)"
  proof (intro set_eqI iffI)
    fix x assume "x \<in> U \<union> R"
    then consider v where "x \<in> f v" | "x \<in> R" using U by blast
    then show "x \<in> (\<Union>v. (f(w := f w \<union> R)) v)"
    proof cases
      case (1 v)
      then show ?thesis by (intro UN_I [of v]) auto
    next
      case 2
      then show ?thesis by (intro UN_I [of w]) auto
    qed
  next
    fix x assume "x \<in> (\<Union>v. (f(w := f w \<union> R)) v)"
    then show "x \<in> U \<union> R" using U by (auto split: if_splits)
  qed
  ultimately show ?thesis by (simp add: accounts_def)
qed

lemma accounts_remove: "accounts f U \<Longrightarrow> R \<subseteq> f w \<Longrightarrow> accounts (f(w := f w - R)) (U - R)"
proof -
  assume a: "accounts f U" "R \<subseteq> f w"
  have d: "f o1 \<inter> f o2 = {}" if "o1 \<noteq> o2" for o1 o2 using a(1) that by (simp add: accounts_def)
  have U: "U = (\<Union>w. f w)" using a(1) by (simp add: accounts_def)
  have "(f(w := f w - R)) o1 \<inter> (f(w := f w - R)) o2 = {}" if "o1 \<noteq> o2" for o1 o2
    using d [OF that] by auto
  moreover have "U - R = (\<Union>v. (f(w := f w - R)) v)"
  proof (intro set_eqI iffI)
    fix x assume x: "x \<in> U - R"
    then obtain v where "x \<in> f v" using U by blast
    then show "x \<in> (\<Union>v. (f(w := f w - R)) v)" using x by (intro UN_I [of v]) auto
  next
    fix x assume "x \<in> (\<Union>v. (f(w := f w - R)) v)"
    then obtain v where v: "x \<in> (f(w := f w - R)) v" by blast
    have "x \<notin> R" if "v \<noteq> w" using v d [OF that] a(2) that by auto
    then show "x \<in> U - R" using v U by (cases "v = w") auto
  qed
  ultimately show ?thesis by (simp add: accounts_def)
qed

text \<open>What the holders of pages rely on: taking yields pages that nobody has, and only pages in use are given back.\<close>

locale page_store =
  fixes good :: "'s \<Rightarrow> bool" and used :: "'s \<Rightarrow> nat set"
    and takes :: "'s \<Rightarrow> nat set \<Rightarrow> 's \<Rightarrow> bool" and gives :: "'s \<Rightarrow> nat set \<Rightarrow> 's \<Rightarrow> bool"
  assumes take_law: "good p \<Longrightarrow> takes p R p' \<Longrightarrow> good p' \<and> R \<inter> used p = {} \<and> used p' = used p \<union> R"
    and give_law: "good p \<Longrightarrow> R \<subseteq> used p \<Longrightarrow> gives p R p' \<Longrightarrow> good p' \<and> used p' = used p - R"
begin

lemma take_account:
  assumes "good p" "accounts f (used p)" "takes p R p'"
  shows "good p'" "accounts (f(w := f w \<union> R)) (used p')"
  using take_law [OF assms(1,3)] accounts_add [OF assms(2)] by simp_all

lemma give_account:
  assumes "good p" "accounts f (used p)" "R \<subseteq> f w" "gives p R p'"
  shows "good p'" "accounts (f(w := f w - R)) (used p')"
proof -
  have "R \<subseteq> used p" using assms(2,3) by (auto simp: accounts_def)
  from give_law [OF assms(1) this assms(4)] show "good p'" "accounts (f(w := f w - R)) (used p')"
    using accounts_remove [OF assms(2,3)] by simp_all
qed

end

text \<open>Pages that change hands stay in use.\<close>

lemma accounts_move:
  assumes a: "accounts f U" and R: "R \<subseteq> f v" and ne: "v \<noteq> w"
  shows "accounts (f(v := f v - R, w := f w \<union> R)) U"
proof -
  have "R \<subseteq> U" using a R by (auto simp: accounts_def)
  then have "U - R \<union> R = U" by blast
  then show ?thesis
    using accounts_add [OF accounts_remove [OF a R], of R w] ne by (simp add: fun_upd_other Int_Diff)
qed

subsection \<open>The page allocator is a page store\<close>

text \<open>The pages that a page cache holds.\<close>

definition cached :: "pageCache \<Rightarrow> nat set" where
  "cached c = {page_of (pc_base c) + r |r. r < 64 \<and> bit (pc_cache c) r}"

definition cache_ok :: "pageCache \<Rightarrow> bool" where
  "cache_ok c \<longleftrightarrow> pc_cache c = 0 \<or> (\<exists>b. pc_base c = page_addr (b * 64) \<and> b * 64 + 64 \<le> 2 ^ 35)"

lemma cached_zero: "pc_cache c = 0 \<Longrightarrow> cached c = {}"
  by (simp add: cached_def)

lemma cached_block:
  assumes "pc_base c = page_addr (b * 64)" "b * 64 + 64 \<le> 2 ^ 35"
  shows "cached c = block_set b (pc_cache c)"
proof -
  have p: "page_of (pc_base c) = b * 64" using assms by simp
  show ?thesis
  proof (intro set_eqI iffI)
    fix j assume "j \<in> cached c"
    then show "j \<in> block_set b (pc_cache c)" by (auto simp: cached_def p block_set_def)
  next
    fix j assume j: "j \<in> block_set b (pc_cache c)"
    note r = block_set_range [OF j]
    show "j \<in> cached c" unfolding cached_def p mem_Collect_eq by (intro exI [of _ "j mod 64"]) (use r in simp)
  qed
qed

lemma fill_cached:
  assumes ok: "pa_ok p" and f: "allocToCache e p = Some (p', c)"
  shows "cache_ok c" "page_used p' j \<longleftrightarrow> page_used p j \<or> j \<in> cached c" "j \<in> cached c \<Longrightarrow> page_free p j"
proof -
  have post: "pa_ok p'" "same_heap p p'" "fill_post p p' c" using allocToCache_ok [OF ok, of e] f by auto
  have "cache_ok c \<and> (page_used p' j \<longleftrightarrow> page_used p j \<or> j \<in> cached c) \<and> (j \<in> cached c \<longrightarrow> page_free p j)"
  proof (cases "first_run (heap_pages p) 1")
    case None
    then show ?thesis using post by (auto simp: fill_post_def cache_ok_def pc_zero_def cached_def page_used_free same_heap_used)
  next
    case (Some k)
    define b where "b = k div 64"
    have c: "caches_block p b c" "\<And>j. page_free p' j \<longleftrightarrow> page_free p j \<and> j div 64 \<noteq> b"
      using post(3) Some by (simp_all add: fill_post_def b_def)
    have "k < 2 ^ 35" using Some first_run_eq [of 1 "heap_pages p" k] unfolding first_page by simp
    then have "b < 2 ^ 29" by (simp add: b_def div_less_iff_less_mult)
    then have "(b + 1) * 64 \<le> 2 ^ 29 * 64" by (intro mult_le_mono1) simp
    then have b35: "b * 64 + 64 \<le> 2 ^ 35" by simp
    have split: "b * 64 + j mod 64 = j" if "j div 64 = b" for j using that div_mult_mod_eq [of j 64] by simp
    have cb: "j \<in> cached c \<longleftrightarrow> j div 64 = b \<and> page_free p j" for j
      using c(1) split [of j] b35 unfolding caches_block_def by (auto simp: cached_block block_set_def dest!: spec [of _ "j mod 64"])
    have "page_free p j \<Longrightarrow> j div 512 \<in> chunk_set p" by (simp add: page_free_def)
    then have "page_used p' j \<longleftrightarrow> page_used p j \<or> j \<in> cached c"
      using cb [of j] by (auto simp: page_used_free c(2) same_heap_used [OF post(2)])
    then show ?thesis using c(1) b35 cb by (auto simp: cache_ok_def caches_block_def)
  qed
  then show "cache_ok c" "page_used p' j \<longleftrightarrow> page_used p j \<or> j \<in> cached c" "j \<in> cached c \<Longrightarrow> page_free p j" by blast+
qed

lemma flush_cached:
  assumes ok: "pa_ok p" and c: "cache_ok c" and u: "\<forall>j\<in>cached c. page_used p j"
  shows "\<exists>c' p'. flush c p = Some (c', p') \<and> pc_cache c' = 0 \<and> pa_ok p' \<and> same_heap p p' \<and> frame (chunk_set p) p p' \<and>
    (\<forall>j. page_used p' j \<longleftrightarrow> page_used p j \<and> j \<notin> cached c)"
proof (cases "pc_cache c = 0")
  case True
  then have "flush c p = Some (c, p)" by (simp add: flush_def pc_empty_def)
  then show ?thesis using True ok by (simp add: cached_zero same_heap_def frame_refl)
next
  case False
  then obtain b where b: "pc_base c = page_addr (b * 64)" "b * 64 + 64 \<le> 2 ^ 35" using c by (auto simp: cache_ok_def)
  note cb = cached_block [OF b]
  obtain p' where p': "flush c p = Some (pc_zero, p')" "pa_ok p'" "same_heap p p'"
      "\<forall>k. page_free p' k \<longleftrightarrow> page_free p k \<or> k \<in> block_set b (pc_cache c)"
    using flush_ok [OF ok b False] u unfolding cb by blast
  obtain r where r: "bit (pc_cache c) r" using False by (metis bit_word_eqI bit_0_eq bot_apply bot_bool_def)
  then have "r < 64" using bit_imp_le_length by force
  then have "page_used p (b * 64 + r)" using r u by (simp add: cb block_set_def)
  moreover have "(b * 64 + r) div 512 = b * 64 div 512" using \<open>r < 64\<close> by (simp add: div_mult2_eq [of _ 64 8, simplified])
  ultimately have "unat (chunkIndex (pc_base c)) \<in> chunk_set p"
    using b by (simp add: unat_chunkIndex page_used_def)
  then have "frame (chunk_set p) p p'" by (intro frame_mono [OF frame_flush [OF p'(1)]]) simp
  moreover have "page_used p' j \<longleftrightarrow> page_used p j \<and> j \<notin> cached c" for j
    unfolding cb by (auto simp: page_used_free p'(4) same_heap_used [OF p'(3)])
  ultimately show ?thesis using p'(1-3) by (auto simp: pc_zero_def)
qed

text \<open>The calls that take pages out of the page allocator and those that give pages back.\<close>

inductive heap_takes :: "env \<Rightarrow> pageAlloc \<Rightarrow> nat set \<Rightarrow> pageAlloc \<Rightarrow> bool" for e where
  alloc: "pa_alloc e p npages = Some (p', addr, scav) \<Longrightarrow> 0 < npages \<Longrightarrow>
    heap_takes e p (if addr = 0 then {} else span_pages (addr, npages)) p'"
| fill: "allocToCache e p = Some (p', c) \<Longrightarrow> heap_takes e p (cached c) p'"

inductive heap_gives :: "pageAlloc \<Rightarrow> nat set \<Rightarrow> pageAlloc \<Rightarrow> bool" where
  free: "is_range base npages b n \<Longrightarrow> pa_free p base npages = Some p' \<Longrightarrow> heap_gives p (span_pages (base, npages)) p'"
| flush: "cache_ok c \<Longrightarrow> flush c p = Some (c', p') \<Longrightarrow> heap_gives p (cached c) p'"

lemma alloc_takes:
  assumes g: "grow_ok e p" and a: "pa_alloc e p npages = Some (p', addr, scav)" "0 < npages"
  shows "grow_ok e p'" "addr \<noteq> 0 \<Longrightarrow> is_range addr npages (page_of addr) (unat npages)"
    "addr = 0 \<Longrightarrow> page_used p' = page_used p"
    "addr \<noteq> 0 \<Longrightarrow> page_used p' j \<longleftrightarrow> page_used p j \<or> j \<in> span_pages (addr, npages)"
    "addr \<noteq> 0 \<Longrightarrow> j \<in> span_pages (addr, npages) \<Longrightarrow> page_free p j"
proof -
  have ok: "pa_ok p" using g by (simp add: grow_ok_def)
  define n where "n = unat npages"
  have n: "unat npages = n" "0 < n" using a(2) by (simp_all add: n_def word_less_nat_alt)
  have post: "pa_ok p'" "same_heap p p'" "alloc_post p n p' addr scav" using pa_alloc_ok [OF ok a(2), of e] a(1) n(1) by auto
  show "grow_ok e p'" by (rule grow_ok_frame [OF g post(1) same_heap_used [OF post(2)] frame_alloc [OF ok a(2,1)]])
  show "page_used p' = page_used p" if "addr = 0"
    using post(3) that by (auto simp: alloc_post_def page_used_free same_heap_used [OF post(2)] fun_eq_iff split: option.splits)
  assume nz: "addr \<noteq> 0"
  then obtain k where k: "first_run (heap_pages p) n = Some k" "addr = page_addr k" "\<And>j. page_free p' j \<longleftrightarrow> page_free p j \<and> j \<notin> {k ..< k + n}"
    using post(3) by (auto simp: alloc_post_def split: option.splits)
  have ff: "first_fit (heap_pages p) n k" using k(1) first_run_eq [OF n(2)] by blast
  then have kn: "k + n \<le> 2 ^ 35" "\<And>t. t < n \<Longrightarrow> page_free p (k + t)"
    using first_fit_free [OF ff [unfolded heap_pages_def] n(2)] by simp_all
  have po: "page_of addr = k" using kn(1) n(2) by (simp add: k(2))
  have sp: "span_pages (addr, npages) = {k ..< k + n}" by (simp add: span_pages_def po n(1))
  show "is_range addr npages (page_of addr) (unat npages)" using kn(1) n po by (simp add: is_range_def k(2) off_page_addr)
  show fr: "page_free p j" if "j \<in> span_pages (addr, npages)" for j using that kn(2) [of "j - k"] by (simp add: sp less_diff_conv2)
  have "page_free p j \<Longrightarrow> j div 512 \<in> chunk_set p" by (simp add: page_free_def)
  then show "page_used p' j \<longleftrightarrow> page_used p j \<or> j \<in> span_pages (addr, npages)"
    using fr [of j] by (auto simp: page_used_free k(3) sp same_heap_used [OF post(2)])
qed

lemma fill_takes:
  assumes g: "grow_ok e p" and f: "allocToCache e p = Some (p', c)"
  shows "grow_ok e p'"
proof -
  have ok: "pa_ok p" using g by (simp add: grow_ok_def)
  then have "pa_ok p'" "same_heap p p'" using allocToCache_ok [OF ok, of e] f by auto
  then show ?thesis by (intro grow_ok_frame [OF g _ same_heap_used frame_fill [OF ok f]])
qed

lemma free_gives:
  assumes g: "grow_ok e p" and r: "is_range base npages b n" and u: "\<forall>k\<in>span_pages (base, npages). page_used p k"
  shows "\<exists>p'. pa_free p base npages = Some p' \<and> grow_ok e p' \<and> (\<forall>k. page_used p' k \<longleftrightarrow> page_used p k \<and> k \<notin> span_pages (base, npages))"
proof -
  have ok: "pa_ok p" using g by (simp add: grow_ok_def)
  have sp: "span_pages (base, npages) = {b ..< b + n}" "0 < n" using is_range_limit(3) [OF r] r by (simp_all add: span_pages_def is_range_def)
  obtain p' where p': "pa_free p base npages = Some p'" "pa_ok p'" "same_heap p p'" "\<And>k. page_free p' k \<longleftrightarrow> page_free p k \<or> k \<in> {b ..< b + n}"
    using pa_free_ok [OF ok r] u unfolding sp by blast
  have "range_chunk_set b n \<subseteq> chunk_set p"
    using range_chunks [OF sp(2), of b] u unfolding sp by (fastforce simp: range_chunk_set_def page_used_def)
  then have "frame (chunk_set p) p p'" by (rule frame_mono [OF frame_free [OF r p'(1)]])
  then have "grow_ok e p'" by (rule grow_ok_frame [OF g p'(2) same_heap_used [OF p'(3)]])
  moreover have "page_used p' k \<longleftrightarrow> page_used p k \<and> k \<notin> span_pages (base, npages)" for k
    by (auto simp: page_used_free p'(4) sp same_heap_used [OF p'(3)])
  ultimately show ?thesis using p'(1) by blast
qed

interpretation heap: page_store "grow_ok e" "\<lambda>p. {k. page_used p k}" "heap_takes e" heap_gives for e
proof unfold_locales
  fix p R p' assume g: "grow_ok e p" and t: "heap_takes e p R p'"
  have ok: "pa_ok p" using g by (simp add: grow_ok_def)
  have nf: "\<not> (page_used p j \<and> page_free p j)" for j by (simp add: page_used_free)
  from t show "grow_ok e p' \<and> R \<inter> {k. page_used p k} = {} \<and> {k. page_used p' k} = {k. page_used p k} \<union> R"
  proof cases
    case (alloc npages addr scav)
    note a = alloc_takes [OF g alloc(2,3)]
    show ?thesis using a nf unfolding alloc(1) by (cases "addr = 0") auto
  next
    case (fill c)
    show ?thesis using fill_takes [OF g fill(2)] fill_cached [OF ok fill(2)] nf unfolding fill(1) by auto
  qed
next
  fix p R p' assume g: "grow_ok e p" and R: "R \<subseteq> {k. page_used p k}" and t: "heap_gives p R p'"
  have ok: "pa_ok p" using g by (simp add: grow_ok_def)
  from t show "grow_ok e p' \<and> {k. page_used p' k} = {k. page_used p k} - R"
  proof cases
    case (free base npages b n)
    then show ?thesis using free_gives [OF g free(2)] R by auto
  next
    case (flush c c')
    have "\<forall>j\<in>cached c. page_used p j" using R flush(1) by auto
    from flush_cached [OF ok flush(2) this] flush(3) have "pa_ok p'" "same_heap p p'" "frame (chunk_set p) p p'"
        "\<forall>j. page_used p' j \<longleftrightarrow> page_used p j \<and> j \<notin> cached c" by auto
    then show ?thesis using grow_ok_frame [OF g] same_heap_used flush(1) by auto
  qed
qed

subsection \<open>Runs of the heap\<close>

text \<open>A heap in use: the page allocator, the spans handed out and the page caches of the Ps.  A span is taken from the page
  allocator or, if it is small, from the cache of a P, which is filled when it is empty and flushed when the P goes away;
  \<open>grow\<close> gets chunks that are not in use, without the one of address 0.\<close>

type_synonym life = "pageAlloc \<times> span set \<times> pageCache list"

datatype owner = Span span | Cache nat

fun owned :: "span set \<Rightarrow> pageCache list \<Rightarrow> owner \<Rightarrow> nat set" where
  "owned S cs (Span s) = (if s \<in> S then span_pages s else {})"
| "owned S cs (Cache i) = (if i < length cs then cached (cs ! i) else {})"

inductive life_step :: "env \<Rightarrow> life \<Rightarrow> life \<Rightarrow> bool" for e where
  grow: "new_chunks base (base + sz) lo hi \<Longrightarrow> chunk_set p \<inter> {lo ..< hi} = {} \<Longrightarrow> 2 ^ 25 \<notin> {lo ..< hi} \<Longrightarrow>
    pa_grow e p base sz = Some p' \<Longrightarrow> life_step e (p, S, cs) (p', S, cs)"
| alloc: "pa_alloc e p npages = Some (p', addr, scav) \<Longrightarrow> 0 < npages \<Longrightarrow> addr \<noteq> 0 \<Longrightarrow>
    life_step e (p, S, cs) (p', insert (addr, npages) S, cs)"
| exhausted: "pa_alloc e p npages = Some (p', 0, scav) \<Longrightarrow> 0 < npages \<Longrightarrow> life_step e (p, S, cs) (p', S, cs)"
| free: "(base, npages) \<in> S \<Longrightarrow> pa_free p base npages = Some p' \<Longrightarrow> life_step e (p, S, cs) (p', S - {(base, npages)}, cs)"
| fill: "i < length cs \<Longrightarrow> pc_empty (cs ! i) \<Longrightarrow> allocToCache e p = Some (p', c) \<Longrightarrow> life_step e (p, S, cs) (p', S, cs[i := c])"
| cache_alloc: "i < length cs \<Longrightarrow> 0 < n \<Longrightarrow> n \<le> 64 \<Longrightarrow> pc_alloc (cs ! i) (of_nat n) = Some (c, addr, scav) \<Longrightarrow> addr \<noteq> 0 \<Longrightarrow>
    life_step e (p, S, cs) (p, insert (addr, of_nat n) S, cs[i := c])"
| flush: "i < length cs \<Longrightarrow> flush (cs ! i) p = Some (c, p') \<Longrightarrow> life_step e (p, S, cs) (p', S, cs[i := c])"

definition life_ok :: "env \<Rightarrow> life \<Rightarrow> bool" where
  "life_ok e = (\<lambda>(p, S, cs). grow_ok e p \<and> (\<forall>s\<in>S. is_range (fst s) (snd s) (page_of (fst s)) (unat (snd s))) \<and>
     (\<forall>c\<in>set cs. cache_ok c) \<and> accounts (owned S cs) {k. page_used p k})"

lemma owned_insert: "owned (insert s S) cs = (owned S cs)(Span s := owned S cs (Span s) \<union> span_pages s)"
proof
  fix w show "owned (insert s S) cs w = ((owned S cs)(Span s := owned S cs (Span s) \<union> span_pages s)) w" by (cases w) auto
qed

lemma owned_delete: "s \<in> S \<Longrightarrow> owned (S - {s}) cs = (owned S cs)(Span s := owned S cs (Span s) - span_pages s)"
proof
  fix w assume "s \<in> S"
  then show "owned (S - {s}) cs w = ((owned S cs)(Span s := owned S cs (Span s) - span_pages s)) w" by (cases w) auto
qed

lemma owned_cache: "i < length cs \<Longrightarrow> owned S (cs[i := c]) = (owned S cs)(Cache i := cached c)"
proof
  fix w assume "i < length cs"
  then show "owned S (cs[i := c]) w = ((owned S cs)(Cache i := cached c)) w" by (cases w) (auto simp: nth_list_update)
qed

lemma cache_takes:
  assumes c: "cache_ok c" and n: "0 < n" "n \<le> 64" and a: "pc_alloc c (of_nat n) = Some (c', addr, scav)" "addr \<noteq> 0"
  shows "cache_ok c'" "is_range addr (of_nat n) (page_of addr) n" "cached c' = cached c - span_pages (addr, of_nat n)"
    "span_pages (addr, of_nat n) \<subseteq> cached c"
proof -
  obtain i where i: "first_run (cache_pages (pc_cache c)) n = Some i" "addr = pc_base c + of_nat i * pageSize" "takes_pages c i n c'"
    using pc_alloc_ok [OF n, of c] a by (auto split: option.splits)
  have ff: "first_fit (cache_pages (pc_cache c)) n i" using i(1) first_run_eq [OF n(1)] by blast
  then have in64: "i + n \<le> 64" and b64: "\<And>t. t < n \<Longrightarrow> cache_pages (pc_cache c) ! (i + t)"
    by (simp_all add: first_fit_def run_at_def) (simp_all add: cache_pages_def)
  have bits: "bit (pc_cache c) (i + t)" if "t < n" for t using b64 [OF that] in64 that by (simp add: cache_pages_def)
  have "pc_cache c \<noteq> 0" using bits [of 0] n(1) by auto
  then obtain b where b: "pc_base c = page_addr (b * 64)" "b * 64 + 64 \<le> 2 ^ 35" using c by (auto simp: cache_ok_def)
  have "addr = page_addr (b * 64) + of_nat (i * 2 ^ 13)" by (simp add: i(2) b(1) page_consts)
  then have ad: "addr = page_addr (b * 64 + i)" unfolding page_addr_add .
  have po: "page_of addr = b * 64 + i" using b(2) in64 n by (simp add: ad)
  have un: "unat (of_nat n :: uint64) = n" using n(2) by (intro unat_of_nat_small) simp
  have sp: "span_pages (addr, of_nat n) = {b * 64 + i ..< b * 64 + i + n}" by (simp add: span_pages_def po un)
  have pb: "page_of (pc_base c) = b * 64" using b by simp
  show "cache_ok c'" using b i(3) by (auto simp: cache_ok_def takes_pages_def)
  show "is_range addr (of_nat n) (page_of addr) n" unfolding po using b(2) in64 n by (simp add: is_range_def ad off_page_addr un)
  show "span_pages (addr, of_nat n) \<subseteq> cached c"
  proof
    fix j assume "j \<in> span_pages (addr, of_nat n)"
    then obtain r where r: "j = b * 64 + (i + r)" "r < n" unfolding sp by (intro that [of "j - b * 64 - i"]) auto
    show "j \<in> cached c" unfolding cached_def pb mem_Collect_eq by (intro exI [of _ "i + r"]) (use r bits [OF r(2)] in64 in simp)
  qed
  show "cached c' = cached c - span_pages (addr, of_nat n)"
    using i(3) unfolding cached_def sp takes_pages_def by (auto simp: pb)
qed

lemma life_ok_step:
  assumes e: "env_ok e" and l: "life_ok e (p, S, cs)" and st: "life_step e (p, S, cs) (p', S', cs')"
  shows "life_ok e (p', S', cs')"
proof -
  have g: "grow_ok e p" and rg: "\<forall>s\<in>S. is_range (fst s) (snd s) (page_of (fst s)) (unat (snd s))" and c: "\<forall>c\<in>set cs. cache_ok c"
    and acc: "accounts (owned S cs) {k. page_used p k}" using l by (simp_all add: life_ok_def)
  have ok: "pa_ok p" using g by (simp add: grow_ok_def)
  from st show ?thesis
  proof cases
    case (grow base sz lo hi)
    then obtain q where q: "pa_grow e p base sz = Some q" "grow_ok e q" "grow_post p lo hi q" using pa_grow_ok [OF e g] by blast
    then have "page_used q = page_used p" by (simp add: grow_post_def fun_eq_iff)
    then show ?thesis using q(1,2) grow rg c acc by (simp add: life_ok_def)
  next
    case (alloc npages addr scav)
    note a = alloc_takes [OF g alloc(3,4)]
    have t: "heap_takes e p (span_pages (addr, npages)) p'" using heap_takes.alloc [OF alloc(3,4)] alloc(5) by simp
    show ?thesis
      using heap.take_account(2) [OF g acc t, of "Span (addr, npages)"] a(1,2) alloc rg c by (auto simp: life_ok_def owned_insert)
  next
    case (exhausted npages scav)
    note a = alloc_takes [OF g exhausted(3,4)]
    show ?thesis using a(1,3) exhausted rg c acc by (simp add: life_ok_def)
  next
    case (free base npages)
    have r: "is_range base npages (page_of base) (unat npages)" using rg free(3) by auto
    have t: "heap_gives p (span_pages (base, npages)) p'" by (rule heap_gives.free [OF r free(4)])
    have "span_pages (base, npages) \<subseteq> owned S cs (Span (base, npages))" using free(3) by simp
    from heap.give_account [OF g acc this t] show ?thesis using free rg c by (auto simp: life_ok_def owned_delete)
  next
    case (fill i c')
    have "owned S cs (Cache i) = {}" using fill by (simp add: cached_zero pc_empty_def)
    then have "owned S cs' = (owned S cs)(Cache i := owned S cs (Cache i) \<union> cached c')" using fill by (simp add: owned_cache)
    then show ?thesis
      using heap.take_account(1) [OF g acc heap_takes.fill [OF fill(5)]] heap.take_account(2) [OF g acc heap_takes.fill [OF fill(5)], of "Cache i"] fill_cached(1) [OF ok fill(5)] fill rg c set_update_subset_insert [of cs i c']
      by (auto simp: life_ok_def)
  next
    case (cache_alloc i n c' addr scav)
    have ci: "cache_ok (cs ! i)" using c cache_alloc(4) by simp
    note t = cache_takes [OF ci cache_alloc(5-8)]
    have un: "unat (of_nat n :: uint64) = n" using cache_alloc(6) by (intro unat_of_nat_small) simp
    have "owned S' cs' = (owned S cs)(Cache i := owned S cs (Cache i) - span_pages (addr, of_nat n),
        Span (addr, of_nat n) := owned S cs (Span (addr, of_nat n)) \<union> span_pages (addr, of_nat n))"
      using cache_alloc t(3) by (simp add: owned_insert owned_cache fun_upd_twist)
    moreover have "span_pages (addr, of_nat n) \<subseteq> owned S cs (Cache i)" using t(4) cache_alloc(4) by simp
    ultimately have "accounts (owned S' cs') {k. page_used p k}" using accounts_move [OF acc, of "span_pages (addr, of_nat n)" "Cache i" "Span (addr, of_nat n)"] by simp
    then show ?thesis
      using g t(1,2) un cache_alloc rg c set_update_subset_insert [of cs i c'] by (auto simp: life_ok_def)
  next
    case (flush i c')
    have ci: "cache_ok (cs ! i)" using c flush(3) by simp
    have sub: "cached (cs ! i) \<subseteq> owned S cs (Cache i)" using flush(3) by simp
    have "\<forall>j\<in>cached (cs ! i). page_used p j" using acc sub unfolding accounts_def by blast
    from flush_cached [OF ok ci this] flush(4) have c': "pc_cache c' = 0" by simp
    have "owned S cs' = (owned S cs)(Cache i := owned S cs (Cache i) - cached (cs ! i))" using flush c' by (simp add: owned_cache cached_zero)
    then show ?thesis
      using heap.give_account [OF g acc sub heap_gives.flush [OF ci flush(4)]] c' flush rg c set_update_subset_insert [of cs i c']
      by (auto simp: life_ok_def cache_ok_def)
  qed
qed

lemma life_ok_init: "life_ok e (pa_init t, {}, replicate n pc_zero)"
proof -
  have cs: "chunk_set (pa_init t) = {}" by (simp add: chunk_set_def pa_init_def init_def split_beta Let_def)
  have "owned {} (replicate n pc_zero) = (\<lambda>_. {})"
  proof
    fix w show "owned {} (replicate n pc_zero) w = {}" by (cases w) (auto simp: cached_zero pc_zero_def)
  qed
  then show ?thesis using init_ok [of e t] by (simp add: life_ok_def cache_ok_def pc_zero_def accounts_def page_used_def cs)
qed

lemma life_run_ok:
  assumes "env_ok e" "(life_step e)\<^sup>*\<^sup>* (pa_init t, {}, replicate n pc_zero) (p, S, cs)"
  shows "life_ok e (p, S, cs)"
proof -
  have "(life_step e)\<^sup>*\<^sup>* x y \<Longrightarrow> life_ok e x \<Longrightarrow> life_ok e y" for x y
  proof (induction rule: rtranclp_induct)
    case (step y z)
    obtain p S cs p' S' cs' where "y = (p, S, cs)" "z = (p', S', cs')" by (metis prod_cases3)
    then show ?case using step life_ok_step [OF assms(1)] by blast
  qed simp
  then show ?thesis using assms(2) life_ok_init by blast
qed

lemma life_progress:
  assumes e: "env_ok e" and l: "life_ok e (p, S, cs)"
  shows "0 < npages \<Longrightarrow> pa_alloc e p npages \<noteq> None" "s \<in> S \<Longrightarrow> pa_free p (fst s) (snd s) \<noteq> None"
    "allocToCache e p \<noteq> None" "c \<in> set cs \<Longrightarrow> flush c p \<noteq> None" "0 < n \<Longrightarrow> n \<le> 64 \<Longrightarrow> pc_alloc c (of_nat n) \<noteq> None"
    "new_chunks base (base + sz) lo hi \<Longrightarrow> chunk_set p \<inter> {lo ..< hi} = {} \<Longrightarrow> 2 ^ 25 \<notin> {lo ..< hi} \<Longrightarrow> pa_grow e p base sz \<noteq> None"
proof -
  have g: "grow_ok e p" and acc: "accounts (owned S cs) {k. page_used p k}" using l by (simp_all add: life_ok_def)
  have ok: "pa_ok p" using g by (simp add: grow_ok_def)
  show "0 < npages \<Longrightarrow> pa_alloc e p npages \<noteq> None" using pa_alloc_ok [OF ok, of npages e] by auto
  show "allocToCache e p \<noteq> None" using allocToCache_ok [OF ok, of e] by auto
  show "pc_alloc c (of_nat n) \<noteq> None" if "0 < n" "n \<le> 64" using pc_alloc_ok [OF that, of c] by auto
  show "pa_grow e p base sz \<noteq> None" if "new_chunks base (base + sz) lo hi" "chunk_set p \<inter> {lo ..< hi} = {}" "2 ^ 25 \<notin> {lo ..< hi}"
    using pa_grow_ok [OF e g that] by auto
  show "pa_free p (fst s) (snd s) \<noteq> None" if s: "s \<in> S"
  proof -
    have "span_pages s \<subseteq> owned S cs (Span s)" using s by simp
    then have "\<forall>k\<in>span_pages s. page_used p k" using acc unfolding accounts_def by blast
    moreover have "is_range (fst s) (snd s) (page_of (fst s)) (unat (snd s))" using l s by (simp add: life_ok_def)
    ultimately show ?thesis using free_gives [OF g, of "fst s" "snd s" "page_of (fst s)" "unat (snd s)"] by auto
  qed
  show "flush c p \<noteq> None" if c: "c \<in> set cs"
  proof -
    obtain i where i: "i < length cs" "cs ! i = c" using c by (metis in_set_conv_nth)
    then have "cached c \<subseteq> owned S cs (Cache i)" by simp
    then have "\<forall>k\<in>cached c. page_used p k" using acc unfolding accounts_def by blast
    moreover have "cache_ok c" using l c by (simp add: life_ok_def)
    ultimately show ?thesis using flush_cached [OF ok] by blast
  qed
qed

subsection \<open>Properties\<close>

text \<open>C1: from \<open>init\<close> on, in every run in which the heap grows by fresh chunks, spans are allocated (from the page allocator or
  through page caches) and freed, and caches are filled and flushed, no page belongs to two spans, to two caches or to a
  span and a cache; the allocated pages are exactly theirs.\<close>

theorem heap_pages_have_one_owner:
  assumes "env_ok e" "(life_step e)\<^sup>*\<^sup>* (pa_init t, {}, replicate n pc_zero) (p, S, cs)"
  shows "pa_ok p \<and> (\<forall>s\<in>S. \<forall>u\<in>S. s \<noteq> u \<longrightarrow> span_pages s \<inter> span_pages u = {}) \<and>
    (\<forall>i<length cs. \<forall>j<length cs. i \<noteq> j \<longrightarrow> cached (cs ! i) \<inter> cached (cs ! j) = {}) \<and>
    (\<forall>s\<in>S. \<forall>i<length cs. span_pages s \<inter> cached (cs ! i) = {}) \<and>
    {k. page_used p k} = (\<Union>s\<in>S. span_pages s) \<union> (\<Union>i<length cs. cached (cs ! i))"
proof -
  have l: "life_ok e (p, S, cs)" by (rule life_run_ok [OF assms])
  then have acc: "owned S cs v \<inter> owned S cs w = {}" if "v \<noteq> w" for v w using that by (simp add: life_ok_def accounts_def)
  have un: "{k. page_used p k} = (\<Union>w. owned S cs w)" using l by (simp add: life_ok_def accounts_def)
  have "(\<Union>w. owned S cs w) = (\<Union>s\<in>S. span_pages s) \<union> (\<Union>i<length cs. cached (cs ! i))"
  proof (intro set_eqI iffI)
    fix x assume "x \<in> (\<Union>w. owned S cs w)"
    then obtain w where "x \<in> owned S cs w" by blast
    then show "x \<in> (\<Union>s\<in>S. span_pages s) \<union> (\<Union>i<length cs. cached (cs ! i))" by (cases w) (auto split: if_splits)
  next
    fix x assume "x \<in> (\<Union>s\<in>S. span_pages s) \<union> (\<Union>i<length cs. cached (cs ! i))"
    then consider s where "s \<in> S" "x \<in> span_pages s" | i where "i < length cs" "x \<in> cached (cs ! i)" by blast
    then show "x \<in> (\<Union>w. owned S cs w)"
    proof cases
      case (1 s)
      then show ?thesis by (intro UN_I [of "Span s"]) simp_all
    next
      case (2 i)
      then show ?thesis by (intro UN_I [of "Cache i"]) simp_all
    qed
  qed
  moreover have "span_pages s \<inter> span_pages u = {}" if "s \<in> S" "u \<in> S" "s \<noteq> u" for s u using acc [of "Span s" "Span u"] that by simp
  moreover have "cached (cs ! i) \<inter> cached (cs ! j) = {}" if "i < length cs" "j < length cs" "i \<noteq> j" for i j
    using acc [of "Cache i" "Cache j"] that by simp
  moreover have "span_pages s \<inter> cached (cs ! i) = {}" if "s \<in> S" "i < length cs" for s i using acc [of "Span s" "Cache i"] that by simp
  ultimately show ?thesis using l un by (auto simp: life_ok_def grow_ok_def)
qed

text \<open>C2: no call in such a run panics: whatever size is asked for, whichever span is freed, cache filled or flushed, and
  whatever fresh chunks the heap grows by.\<close>

theorem heap_never_panics:
  assumes "env_ok e" "(life_step e)\<^sup>*\<^sup>* (pa_init t, {}, replicate n pc_zero) (p, S, cs)"
  shows "(\<forall>npages. 0 < npages \<longrightarrow> pa_alloc e p npages \<noteq> None) \<and> (\<forall>s\<in>S. pa_free p (fst s) (snd s) \<noteq> None) \<and>
    allocToCache e p \<noteq> None \<and> (\<forall>c\<in>set cs. flush c p \<noteq> None \<and> (\<forall>m. 0 < m \<and> m \<le> 64 \<longrightarrow> pc_alloc c (of_nat m) \<noteq> None)) \<and>
    (\<forall>base sz lo hi. new_chunks base (base + sz) lo hi \<and> chunk_set p \<inter> {lo ..< hi} = {} \<and> 2 ^ 25 \<notin> {lo ..< hi} \<longrightarrow>
      pa_grow e p base sz \<noteq> None)"
  using life_progress [OF assms(1) life_run_ok [OF assms]] by blast

text \<open>C3: \<open>grow\<close> adds exactly the new chunks: all their pages become free and are marked scavenged, other pages keep their
  state, and the summaries describe the result.\<close>

theorem pa_grow_correct:
  assumes "env_ok e" "grow_ok e p" "new_chunks base (base + sz) lo hi" "chunk_set p \<inter> {lo ..< hi} = {}" "2 ^ 25 \<notin> {lo ..< hi}"
  shows "\<exists>p'. pa_grow e p base sz = Some p' \<and> grow_ok e p' \<and> chunk_set p' = chunk_set p \<union> {lo ..< hi} \<and>
    (\<forall>k. page_free p' k \<longleftrightarrow> page_free p k \<or> k div 512 \<in> {lo ..< hi}) \<and> (\<forall>k. page_used p' k \<longleftrightarrow> page_used p k) \<and>
    (\<forall>k. page_scav p' k \<longleftrightarrow> page_scav p k \<or> k div 512 \<in> {lo ..< hi})"
  using pa_grow_ok [OF assms] unfolding grow_post_def .

subsection \<open>A run\<close>

text \<open>The first growth of a heap on linux/amd64: 64 MiB at \<open>0xc000000000\<close>.\<close>

lemma sample_env_ok: "env_ok sample_env"
proof -
  have "\<forall>l<5. unat (0x7f0000000000 + of_nat l * 0x100000000 :: uint64) + 2 ^ 30 \<le> 2 ^ 47"
  proof (intro allI impI)
    fix l :: nat assume "l < 5"
    then have "l = 0 \<or> l = 1 \<or> l = 2 \<or> l = 3 \<or> l = 4" by (rule less5_cases)
    then show "unat (0x7f0000000000 + of_nat l * 0x100000000 :: uint64) + 2 ^ 30 \<le> 2 ^ 47"
      by (elim disjE) simp_all
  qed
  then show ?thesis by (auto simp: env_ok_def sample_env_def intro!: exI [of _ 12])
qed

lemma sample_new: "new_chunks 0xc000000000 (0xc000000000 + 0x4000000) sample_chunk (sample_chunk + 16)"
  by (simp add: new_chunks_def off_def arenaBaseOffset_def sample_chunk_def lower_seg_def)

lemma sample_grown:
  obtains p where "pa_grow sample_env (pa_init False) 0xc000000000 0x4000000 = Some p" "grow_ok sample_env p"
    "\<And>k. page_free p k \<longleftrightarrow> k div 512 \<in> {sample_chunk ..< sample_chunk + 16}" "\<And>k. \<not> page_used p k"
proof -
  have cs: "chunk_set (pa_init False) = {}" by (simp add: chunk_set_def pa_init_def init_def split_beta Let_def)
  have "chunk_set (pa_init False) \<inter> {sample_chunk ..< sample_chunk + 16} = {}" "2 ^ 25 \<notin> {sample_chunk ..< sample_chunk + 16}"
    by (simp_all add: cs sample_chunk_def)
  from pa_grow_ok [OF sample_env_ok init_ok sample_new this] show ?thesis
    using that by (auto simp: grow_post_def page_free_def page_used_def cs)
qed

lemma grown_first_run:
  assumes f: "\<And>k. page_free p k \<longleftrightarrow> k div 512 \<in> {sample_chunk ..< sample_chunk + 16}" and n: "0 < n" "n \<le> 512"
  shows "first_run (heap_pages p) n = Some (sample_chunk * 512)"
proof -
  have "sample_chunk * 512 + 512 \<le> 2 ^ 35" by (simp add: sample_chunk_def)
  then have b: "k < 2 ^ 35" if "k < sample_chunk * 512 + 512" for k using that by (rule less_le_trans [rotated])
  have "run_at (heap_pages p) (sample_chunk * 512) n"
    using n by (auto simp: run_at_def heap_pages_def nth_blk f sample_chunk_def)
  moreover have "\<not> run_at (heap_pages p) j n" if "j < sample_chunk * 512" for j
  proof
    assume r: "run_at (heap_pages p) j n"
    then have "page_free p j" using n(1) b [of j] that unfolding run_at_def by (force simp: heap_pages_def nth_blk)
    then have "sample_chunk * 512 \<le> j" by (auto simp: f less_eq_div_iff_mult_less_eq)
    then show False using that by simp
  qed
  ultimately show ?thesis using n(1) by (simp add: first_run_eq first_fit_def)
qed

lemma sample_run:
  "\<exists>p c. (life_step sample_env)\<^sup>*\<^sup>* (pa_init False, {}, replicate 1 pc_zero) (p, {(0xc000000000, 3)}, [c])"
proof -
  obtain p where p: "pa_grow sample_env (pa_init False) 0xc000000000 0x4000000 = Some p" "grow_ok sample_env p"
    "\<And>k. page_free p k \<longleftrightarrow> k div 512 \<in> {sample_chunk ..< sample_chunk + 16}" using sample_grown by metis
  have cs: "chunk_set (pa_init False) = {}" by (simp add: chunk_set_def pa_init_def init_def split_beta Let_def)
  have s1: "life_step sample_env (pa_init False, {}, [pc_zero]) (p, {}, [pc_zero])"
    by (rule life_step.grow [OF sample_new _ _ p(1)]) (simp_all add: cs sample_chunk_def)
  have ok: "pa_ok p" using p(2) by (simp add: grow_ok_def)
  obtain p1 addr scav where p1: "pa_alloc sample_env p 3 = Some (p1, addr, scav)" "pa_ok p1" "alloc_post p 3 p1 addr scav"
    using pa_alloc_ok [OF ok, of 3 sample_env] by auto
  have a: "addr = 0xc000000000" "addr \<noteq> 0"
    using p1(3) grown_first_run [OF p(3), of 3] by (simp_all add: alloc_post_def sample_page_addr)
  have s2: "life_step sample_env (p, {}, [pc_zero]) (p1, {(0xc000000000, 3)}, [pc_zero])"
    using life_step.alloc [OF p1(1) _ a(2), of "{}" "[pc_zero]"] by (simp add: a(1))
  obtain p2 c where p2: "allocToCache sample_env p1 = Some (p2, c)" using allocToCache_ok [OF p1(2), of sample_env] by blast
  have "life_step sample_env (p1, {(0xc000000000, 3)}, [pc_zero]) (p2, {(0xc000000000, 3)}, [pc_zero][0 := c])"
    by (rule life_step.fill [OF _ _ p2]) (simp_all add: pc_empty_def pc_zero_def)
  then have s3: "life_step sample_env (p1, {(0xc000000000, 3)}, [pc_zero]) (p2, {(0xc000000000, 3)}, [c])" by simp
  have "(life_step sample_env)\<^sup>*\<^sup>* (pa_init False, {}, [pc_zero]) (p2, {(0xc000000000, 3)}, [c])"
    using s1 s2 s3 by (meson rtranclp.rtrancl_refl rtranclp.rtrancl_into_rtrancl)
  then show ?thesis by auto
qed

theorem heap_pages_have_one_owner_witness:
  "\<exists>p c. (life_step sample_env)\<^sup>*\<^sup>* (pa_init False, {}, replicate 1 pc_zero) (p, {(0xc000000000, 3)}, [c]) \<and>
     span_pages (0xc000000000, 3) \<inter> cached c = {} \<and> {k. page_used p k} = span_pages (0xc000000000, 3) \<union> cached c"
proof -
  obtain p c where r: "(life_step sample_env)\<^sup>*\<^sup>* (pa_init False, {}, replicate 1 pc_zero) (p, {(0xc000000000, 3)}, [c])"
    using sample_run by blast
  from heap_pages_have_one_owner [OF sample_env_ok r]
  have "span_pages (0xc000000000, 3) \<inter> cached c = {}" "{k. page_used p k} = span_pages (0xc000000000, 3) \<union> cached c"
    by (simp_all add: lessThan_Suc)
  then show ?thesis using r by blast
qed

theorem heap_never_panics_witness:
  "\<exists>p c. (life_step sample_env)\<^sup>*\<^sup>* (pa_init False, {}, replicate 1 pc_zero) (p, {(0xc000000000, 3)}, [c]) \<and>
     pa_alloc sample_env p 7 \<noteq> None \<and> pa_free p 0xc000000000 3 \<noteq> None \<and> flush c p \<noteq> None"
proof -
  obtain p c where r: "(life_step sample_env)\<^sup>*\<^sup>* (pa_init False, {}, replicate 1 pc_zero) (p, {(0xc000000000, 3)}, [c])"
    using sample_run by blast
  from heap_never_panics [OF sample_env_ok r] show ?thesis using r by (intro exI [of _ p] exI [of _ c]) simp
qed

theorem pa_grow_correct_witness:
  "\<exists>p. pa_grow sample_env (pa_init False) 0xc000000000 0x4000000 = Some p \<and> chunk_set p = {sample_chunk ..< sample_chunk + 16} \<and>
     page_free p (sample_chunk * 512) \<and> page_scav p (sample_chunk * 512) \<and> \<not> page_free p (sample_chunk * 512 - 1)"
proof -
  have cs: "chunk_set (pa_init False) = {}" by (simp add: chunk_set_def pa_init_def init_def split_beta Let_def)
  have "chunk_set (pa_init False) \<inter> {sample_chunk ..< sample_chunk + 16} = {}" "2 ^ 25 \<notin> {sample_chunk ..< sample_chunk + 16}"
    by (simp_all add: cs sample_chunk_def)
  from pa_grow_correct [OF sample_env_ok init_ok sample_new this] obtain p where
    p: "pa_grow sample_env (pa_init False) 0xc000000000 0x4000000 = Some p" "chunk_set p = {} \<union> {sample_chunk ..< sample_chunk + 16}"
      "\<forall>k. page_free p k \<longleftrightarrow> page_free (pa_init False) k \<or> k div 512 \<in> {sample_chunk ..< sample_chunk + 16}"
      "\<forall>k. page_scav p k \<longleftrightarrow> page_scav (pa_init False) k \<or> k div 512 \<in> {sample_chunk ..< sample_chunk + 16}"
    unfolding cs by (elim exE conjE) (rule that)
  have nf: "\<not> page_free (pa_init False) k" for k by (simp add: page_free_def cs)
  have "page_free p (sample_chunk * 512)" "page_scav p (sample_chunk * 512)" "\<not> page_free p (sample_chunk * 512 - 1)"
    unfolding p(3) [rule_format] p(4) [rule_format] using nf by (simp_all add: sample_chunk_def)
  then show ?thesis using p(1,2) by blast
qed

end
