(* ===== verification/ScavCorrect.thy ===== *)
theory ScavCorrect
  imports PageHeap
begin

text \<open>
  The scavenger's bit tricks and its index.  \<open>pack\<close> and \<open>unpackScavChunkData\<close> are inverse and the updates keep the
  data packable; \<open>fillAligned\<close> is the group-wise test its comment describes; \<open>find\<close> of the index
  returns the highest chunk worth scavenging.
\<close>

subsection \<open>Packed data\<close>

definition data_ok :: "scavChunkData \<Rightarrow> bool" where
  "data_ok d \<longleftrightarrow> unat (sc_inUse d) \<le> 512 \<and> unat (sc_lastInUse d) \<le> 512 \<and> unat (sc_flags d) < 2 ^ 6"

lemma small_word_bit: "unat (x :: 'a::len word) < 2 ^ k \<Longrightarrow> bit x n \<Longrightarrow> n < k"
proof (rule ccontr)
  assume x: "unat x < 2 ^ k" "bit x n" "\<not> n < k"
  have "take_bit k (unat x) = unat x" using x(1) by (simp add: take_bit_nat_eq_self)
  then have "bit (take_bit k (unat x)) n" using x(2) by (simp add: bit_unsigned_iff)
  then show False using x(3) by (simp add: bit_take_bit_iff)
qed

lemma scav_consts: "logScavChunkInUseMax = 10" "scavChunkInUseMask = mask 10" "scavChunkFlagsMask = mask 6" "scavChunkHasFree = 1"
  by (simp_all add: logScavChunkInUseMax_def logPallocChunkPages_def scavChunkInUseMask_def scavChunkFlagsMask_def
      scavChunkMaxFlags_def scavChunkHasFree_def mask_eq_exp_minus_1)

lemma field_cases:
  fixes n :: nat
  assumes "n < 64"
  obtains (u) "n < 16" | (l) k where "n = 16 + k" "k < 10" | (f) k where "n = 26 + k" "k < 6" | (g) k where "n = 32 + k" "k < 32"
proof -
  consider "n < 16" | "16 \<le> n" "n < 26" | "26 \<le> n" "n < 32" | "32 \<le> n" using assms by linarith
  then show ?thesis
    by cases (use that assms in \<open>auto simp: le_iff_add\<close>)
qed

lemma bit_pack:
  "bit (pack d) n \<longleftrightarrow> n < 64 \<and> (bit (sc_inUse d) n \<or> 16 \<le> n \<and> bit (sc_lastInUse d) (n - 16) \<or>
    26 \<le> n \<and> bit (sc_flags d) (n - 26) \<or> 32 \<le> n \<and> bit (sc_gen d) (n - 32))"
  by (auto simp: pack_def scav_consts bit_simps less_imp_diff_less)

lemma bit_pack_fields:
  assumes "data_ok d"
  shows "k < 16 \<Longrightarrow> bit (pack d) k \<longleftrightarrow> bit (sc_inUse d) k" "k < 10 \<Longrightarrow> bit (pack d) (16 + k) \<longleftrightarrow> bit (sc_lastInUse d) k"
    "k < 6 \<Longrightarrow> bit (pack d) (26 + k) \<longleftrightarrow> bit (sc_flags d) k" "k < 32 \<Longrightarrow> bit (pack d) (32 + k) \<longleftrightarrow> bit (sc_gen d) k"
proof -
  have l: "\<not> bit (sc_lastInUse d) j" if "10 \<le> j" for j using assms small_word_bit [of "sc_lastInUse d" 10 j] that by (auto simp: data_ok_def)
  have f: "\<not> bit (sc_flags d) j" if "6 \<le> j" for j using assms small_word_bit [of "sc_flags d" 6 j] that by (auto simp: data_ok_def)
  have u: "\<not> bit (sc_inUse d) j" if "16 \<le> j" for j using bit_imp_le_length [of "sc_inUse d" j] that by auto
  show "k < 16 \<Longrightarrow> bit (pack d) k \<longleftrightarrow> bit (sc_inUse d) k" "k < 10 \<Longrightarrow> bit (pack d) (16 + k) \<longleftrightarrow> bit (sc_lastInUse d) k"
    "k < 6 \<Longrightarrow> bit (pack d) (26 + k) \<longleftrightarrow> bit (sc_flags d) k" "k < 32 \<Longrightarrow> bit (pack d) (32 + k) \<longleftrightarrow> bit (sc_gen d) k"
    using l f u by (simp_all add: bit_pack)
qed

lemma unpack_pack_data:
  assumes "data_ok d"
  shows "unpackScavChunkData (pack d) = d"
proof -
  note b = bit_pack_fields [OF assms]
  have l: "\<not> bit (sc_lastInUse d) j" if "\<not> j < 10" for j using assms small_word_bit [of "sc_lastInUse d" 10 j] that by (auto simp: data_ok_def)
  have f: "\<not> bit (sc_flags d) j" if "\<not> j < 6" for j using assms small_word_bit [of "sc_flags d" 6 j] that by (auto simp: data_ok_def)
  have "ucast (pack d) = sc_inUse d" by (rule bit_word_eqI) (simp add: bit_simps b)
  moreover have "ucast (drop_bit 16 (pack d)) AND scavChunkInUseMask = sc_lastInUse d"
  proof (rule bit_word_eqI)
    fix n assume "n < LENGTH(16)"
    then show "bit (ucast (drop_bit 16 (pack d)) AND scavChunkInUseMask) n \<longleftrightarrow> bit (sc_lastInUse d) n"
      using b(2) [of n] l [of n] by (cases "n < 10") (simp_all add: scav_consts bit_simps)
  qed
  moreover have "ucast (drop_bit 32 (pack d)) = sc_gen d" by (rule bit_word_eqI) (simp add: bit_simps b)
  moreover have "ucast (drop_bit 26 (pack d)) AND scavChunkFlagsMask = sc_flags d"
  proof (rule bit_word_eqI)
    fix n assume "n < LENGTH(8)"
    then show "bit (ucast (drop_bit 26 (pack d)) AND scavChunkFlagsMask) n \<longleftrightarrow> bit (sc_flags d) n"
      using b(3) [of n] f [of n] by (cases "n < 6") (simp_all add: scav_consts bit_simps)
  qed
  ultimately show ?thesis by (simp add: unpackScavChunkData_def scav_consts(1))
qed

lemma pack_unpack: "pack (unpackScavChunkData w) = w"
proof (rule bit_word_eqI)
  fix n assume "n < LENGTH(64)"
  then have n: "n < 64" by simp
  from n show "bit (pack (unpackScavChunkData w)) n \<longleftrightarrow> bit w n"
    by (cases rule: field_cases) (simp_all add: bit_pack unpackScavChunkData_def scav_consts bit_simps)
qed

text \<open>The 64 bits of a packed \<open>scavChunkData\<close> lose nothing: unpacking what was packed gives the same data when
  the counters and flags have the sizes the comments promise, and packing what was unpacked gives the same word.\<close>

theorem scavChunkData_roundtrip:
  assumes "data_ok d"
  shows "unpackScavChunkData (pack d) = d \<and> pack (unpackScavChunkData w) = w"
  using unpack_pack_data [OF assms] pack_unpack by blast

theorem scavChunkData_roundtrip_witness:
  "unpackScavChunkData (pack \<lparr>sc_inUse = 512, sc_lastInUse = 17, sc_gen = 0xffffffff, sc_flags = 1\<rparr>) =
     \<lparr>sc_inUse = 512, sc_lastInUse = 17, sc_gen = 0xffffffff, sc_flags = 1\<rparr> \<and> pack (unpackScavChunkData 0xdeadbeef12345678) = 0xdeadbeef12345678"
  by (rule scavChunkData_roundtrip) (simp add: data_ok_def)

subsection \<open>Updates of the packed data\<close>

lemma flags_bits:
  assumes "unat (x :: uint8) < 2 ^ 6"
  shows "unat (x AND NOT 1) < 2 ^ 6" "unat (x OR 1) < 2 ^ 6"
proof -
  have "x AND NOT 1 \<le> x" by (rule word_and_le2)
  then show "unat (x AND NOT 1) < 2 ^ 6" using assms by (simp add: word_le_nat_alt)
  have x: "x AND mask 6 = x"
    by (rule bit_word_eqI) (use small_word_bit [OF assms] in \<open>auto simp: bit_simps\<close>)
  have "(x OR 1) AND mask 6 = (x AND mask 6) OR (1 AND mask 6)" by (rule bit.conj_disj_distrib2)
  also have "(1 :: uint8) AND mask 6 = 1" by (simp add: mask_eq_exp_minus_1)
  finally have "(x OR 1) AND mask 6 = x OR 1" by (simp only: x)
  moreover have "(x OR 1) AND mask 6 \<le> mask 6" by (rule word_and_le1)
  ultimately have "x OR 1 \<le> mask 6" by simp
  then show "unat (x OR 1) < 2 ^ 6" by (simp add: word_le_nat_alt mask_eq_exp_minus_1)
qed

lemma ucast_512: "unat n \<le> 512 \<Longrightarrow> unat (ucast (n :: uint64) :: uint16) = unat n"
  by (intro ucast_to16) simp

lemma flag_tests: "((f :: uint8) AND NOT 1) AND 1 = 0" "(f OR 1) AND 1 \<noteq> 0"
  by (auto intro!: bit_word_eqI simp: bit_simps dest: arg_cong [of _ _ "\<lambda>w. bit w 0"])

lemma chunk_alloc_ok:
  assumes d: "data_ok d" and n: "unat n \<le> 512"
  shows "if unat (sc_inUse d) + unat n \<le> 512
     then \<exists>d'. chunk_alloc d n g = Some d' \<and> data_ok d' \<and> unat (sc_inUse d') = unat (sc_inUse d) + unat n \<and> sc_gen d' = g \<and>
       sc_lastInUse d' = (if sc_gen d = g then sc_lastInUse d else sc_inUse d) \<and>
       isEmpty d' = (isEmpty d \<or> unat (sc_inUse d) + unat n = 512)
     else chunk_alloc d n g = None"
proof -
  define d1 where "d1 = (if sc_gen d \<noteq> g then d\<lparr>sc_lastInUse := sc_inUse d, sc_gen := g\<rparr> else d)"
  have ok: "unat (sc_inUse d) \<le> 512" "unat (sc_lastInUse d1) \<le> 512" "unat (sc_flags d) < 2 ^ 6"
    using d by (auto simp: d1_def data_ok_def)
  have d1: "sc_inUse d1 = sc_inUse d" "sc_gen d1 = g" "sc_flags d1 = sc_flags d"
      "sc_lastInUse d1 = (if sc_gen d = g then sc_lastInUse d else sc_inUse d)" by (simp_all add: d1_def)
  have c512: "unat pallocChunkPages = 512" "ucast pallocChunkPages = (512 :: uint16)" by (simp_all add: page_consts)
  have sum64: "unat (ucast (sc_inUse d) + n) = unat (sc_inUse d) + unat n"
    using ok(1) n by (subst unat_add_small) (simp_all add: ucast16)
  have tooM: "pallocChunkPages < ucast (sc_inUse d) + n \<longleftrightarrow> 512 < unat (sc_inUse d) + unat n"
    by (simp only: word_less_nat_alt c512 sum64)
  show ?thesis
  proof (cases "unat (sc_inUse d) + unat n \<le> 512")
    case True
    have s: "unat (sc_inUse d + ucast n) = unat (sc_inUse d) + unat n"
      using True ucast_512 [OF n] by (subst unat_add_small) simp_all
    have full: "sc_inUse d + ucast n = 512 \<longleftrightarrow> unat (sc_inUse d) + unat n = 512" using s by (simp add: word_unat_eq_iff)
    define d2 where "d2 = d1\<lparr>sc_inUse := sc_inUse d1 + ucast n\<rparr>"
    have d2: "chunk_alloc d n g = Some (if unat (sc_inUse d) + unat n = 512 then flags_setEmpty d2 else d2)"
      using True tooM by (simp add: chunk_alloc_def Let_def d1_def [symmetric] d2_def d1(1) c512(2) full)
    show ?thesis
      using True ok flags_bits [OF ok(3)] s d1 flag_tests
      by (auto simp: d2 d2_def data_ok_def flags_setEmpty_def isEmpty_def scav_consts)
  next
    case False
    then show ?thesis using tooM by (simp add: chunk_alloc_def)
  qed
qed

lemma chunk_free_ok:
  assumes d: "data_ok d" and n: "unat n \<le> 512"
  shows "if unat n \<le> unat (sc_inUse d)
     then \<exists>d'. chunk_free d n g = Some d' \<and> data_ok d' \<and> unat (sc_inUse d') = unat (sc_inUse d) - unat n \<and> sc_gen d' = g \<and>
       sc_lastInUse d' = (if sc_gen d = g then sc_lastInUse d else sc_inUse d) \<and> \<not> isEmpty d'
     else chunk_free d n g = None"
proof (cases "unat n \<le> unat (sc_inUse d)")
  case True
  have ok: "unat (sc_inUse d) \<le> 512" "unat (sc_lastInUse d) \<le> 512" "unat (sc_flags d) < 2 ^ 6"
    using d by (auto simp: data_ok_def)
  have s: "unat (sc_inUse d - ucast n) = unat (sc_inUse d) - unat n"
    using True ucast_512 [OF n] by (subst unat_sub_small) simp_all
  have "chunk_free d n g = Some (setNonEmpty ((if sc_gen d \<noteq> g then d\<lparr>sc_lastInUse := sc_inUse d, sc_gen := g\<rparr> else d)
      \<lparr>sc_inUse := sc_inUse d - ucast n\<rparr>))"
    using True by (simp add: chunk_free_def Let_def word_less_nat_alt ucast16)
  then show ?thesis
    using True ok flags_bits [OF ok(3)] s flag_tests by (auto simp: data_ok_def setNonEmpty_def isEmpty_def scav_consts)
next
  case False
  then show ?thesis by (simp add: chunk_free_def word_less_nat_alt ucast16)
qed

text \<open>C11: \<open>alloc\<close> and \<open>free\<close> of a \<open>scavChunkData\<close> keep it storable.  They panic exactly when more pages are taken than
  the chunk has or given back than are in use; otherwise the count is right, the previous count is remembered on a new
  generation, and the chunk has something to scavenge after every \<open>free\<close> and nothing when it is full.\<close>

theorem scavChunkData_updates:
  assumes "data_ok d" "unat n \<le> 512"
  shows "(if unat (sc_inUse d) + unat n \<le> 512
     then \<exists>d'. chunk_alloc d n g = Some d' \<and> data_ok d' \<and> unat (sc_inUse d') = unat (sc_inUse d) + unat n \<and> sc_gen d' = g \<and>
       sc_lastInUse d' = (if sc_gen d = g then sc_lastInUse d else sc_inUse d) \<and>
       isEmpty d' = (isEmpty d \<or> unat (sc_inUse d) + unat n = 512)
     else chunk_alloc d n g = None) \<and>
    (if unat n \<le> unat (sc_inUse d)
     then \<exists>d'. chunk_free d n g = Some d' \<and> data_ok d' \<and> unat (sc_inUse d') = unat (sc_inUse d) - unat n \<and> sc_gen d' = g \<and>
       sc_lastInUse d' = (if sc_gen d = g then sc_lastInUse d else sc_inUse d) \<and> \<not> isEmpty d'
     else chunk_free d n g = None)"
  by (rule conjI [OF chunk_alloc_ok [OF assms] chunk_free_ok [OF assms]])

theorem scavChunkData_updates_witness:
  "\<exists>d'. chunk_alloc \<lparr>sc_inUse = 500, sc_lastInUse = 17, sc_gen = 3, sc_flags = 1\<rparr> 12 4 = Some d' \<and> unat (sc_inUse d') = 512 \<and>
     sc_lastInUse d' = 500 \<and> isEmpty d'"
  using scavChunkData_updates [of "\<lparr>sc_inUse = 500, sc_lastInUse = 17, sc_gen = 3, sc_flags = 1\<rparr>" 12 4] by (auto simp: data_ok_def)

subsection \<open>Groups of bits\<close>

text \<open>\<open>grp m k x\<close> is the value of the \<open>k\<close>-th group of \<open>m\<close> bits.\<close>

definition grp :: "nat \<Rightarrow> nat \<Rightarrow> uint64 \<Rightarrow> nat" where
  "grp m k x = unat x div 2 ^ (k * m) mod 2 ^ m"

lemma bit_grp: "r < m \<Longrightarrow> bit x (k * m + r) \<longleftrightarrow> bit (grp m k x) r"
proof -
  assume r: "r < m"
  have "bit (unat x) (k * m + r) \<longleftrightarrow> bit (take_bit m (drop_bit (k * m) (unat x))) r"
    using r by (simp add: bit_take_bit_iff bit_drop_bit_eq)
  then show ?thesis using r by (simp add: grp_def bit_unsigned_iff take_bit_eq_mod drop_bit_eq_div bit_imp_le_length)
qed

lemma grp_less: "grp m k x < 2 ^ m"
  by (simp add: grp_def)

lemma grp_eqI: "n < 2 ^ m \<Longrightarrow> (\<And>r. r < m \<Longrightarrow> bit x (k * m + r) \<longleftrightarrow> bit n r) \<Longrightarrow> grp m k x = n"
proof (rule bit_eqI)
  fix r assume n: "n < 2 ^ m" and b: "\<And>r. r < m \<Longrightarrow> bit x (k * m + r) \<longleftrightarrow> bit n r"
  have big: "\<not> bit v r" if "v < 2 ^ m" "\<not> r < m" for v :: nat
    using that by (metis bit_take_bit_iff take_bit_nat_eq_self)
  show "bit (grp m k x) r \<longleftrightarrow> bit n r"
    using b [of r] bit_grp [of r m x k] big [OF n] big [OF grp_less] by (cases "r < m") auto
qed

text \<open>Without a carry out of a group, sums are computed group by group.\<close>

lemma low_groups:
  fixes A B :: nat
  assumes "\<And>j. j < k \<Longrightarrow> A div 2 ^ (j * m) mod 2 ^ m + B div 2 ^ (j * m) mod 2 ^ m < 2 ^ m"
  shows "A mod 2 ^ (k * m) + B mod 2 ^ (k * m) < 2 ^ (k * m)"
  using assms
proof (induction k)
  case (Suc k)
  have e: "n mod 2 ^ (Suc k * m) = 2 ^ (k * m) * (n div 2 ^ (k * m) mod 2 ^ m) + n mod 2 ^ (k * m)" for n :: nat
    using mod_mult2_eq [of n "2 ^ (k * m)" "2 ^ m"] by (simp add: power_add mult.commute)
  have IH: "A mod 2 ^ (k * m) + B mod 2 ^ (k * m) < 2 ^ (k * m)" by (rule Suc.IH) (simp add: Suc.prems)
  define d where "d = A div 2 ^ (k * m) mod 2 ^ m + B div 2 ^ (k * m) mod 2 ^ m"
  have "d + 1 \<le> 2 ^ m" using Suc.prems [of k] by (simp add: d_def)
  then have "2 ^ (k * m) * (d + 1) \<le> 2 ^ (k * m) * 2 ^ m" by (rule mult_le_mono2)
  moreover have "A mod 2 ^ (Suc k * m) + B mod 2 ^ (Suc k * m) = 2 ^ (k * m) * d + (A mod 2 ^ (k * m) + B mod 2 ^ (k * m))"
    unfolding e d_def by (simp add: algebra_simps)
  ultimately show ?case using IH by (simp add: power_add algebra_simps)
qed simp

lemma grp_add:
  assumes c: "\<And>j. j \<le> k \<Longrightarrow> grp m j a + grp m j b < 2 ^ m" and k: "(k + 1) * m \<le> 64"
  shows "grp m k (a + b) = grp m k a + grp m k b"
proof -
  define A where "A = unat a"
  define B where "B = unat b"
  have lo: "A mod 2 ^ (k * m) + B mod 2 ^ (k * m) < 2 ^ (k * m)"
    by (rule low_groups) (use c in \<open>simp add: grp_def A_def B_def\<close>)
  have "(A + B) div 2 ^ (k * m) = A div 2 ^ (k * m) + B div 2 ^ (k * m)"
    using div_add1_eq [of A B "2 ^ (k * m)"] lo by simp
  then have "(A + B) div 2 ^ (k * m) mod 2 ^ m = (A div 2 ^ (k * m) mod 2 ^ m + B div 2 ^ (k * m) mod 2 ^ m) mod 2 ^ m"
    by (simp add: mod_add_eq)
  also have "\<dots> = grp m k a + grp m k b" using c [of k] by (simp add: grp_def A_def B_def)
  finally have s: "(A + B) div 2 ^ (k * m) mod 2 ^ m = grp m k a + grp m k b" .
  have "unat (a + b) = (A + B) mod 2 ^ 64" by (simp add: unat_word_ariths A_def B_def)
  moreover have "(A + B) mod 2 ^ 64 div 2 ^ (k * m) mod 2 ^ m = (A + B) div 2 ^ (k * m) mod 2 ^ m"
  proof -
    have e: "k * m + m \<le> 64" using k by (simp add: algebra_simps)
    have "take_bit m (drop_bit (k * m) (take_bit 64 (A + B))) = take_bit m (drop_bit (k * m) (A + B))"
      by (rule bit_eqI) (use e in \<open>auto simp: bit_simps\<close>)
    then show ?thesis by (simp add: take_bit_eq_mod drop_bit_eq_div)
  qed
  ultimately show ?thesis using s by (simp add: grp_def)
qed

lemma top_bit: "0 < m \<Longrightarrow> n < 2 ^ m \<Longrightarrow> bit (n :: nat) (m - 1) \<longleftrightarrow> 2 ^ (m - 1) \<le> n"
proof -
  assume m: "0 < m" "n < 2 ^ m"
  obtain m' where "m = Suc m'" using m(1) by (cases m) simp_all
  then have "n div 2 ^ (m - 1) < 2" using m(2) by (simp add: div_less_iff_less_mult)
  then consider "n div 2 ^ (m - 1) = 0" | "n div 2 ^ (m - 1) = 1" by linarith
  then show "bit n (m - 1) \<longleftrightarrow> 2 ^ (m - 1) \<le> n"
  proof cases
    case 1
    then have "n < 2 ^ (m - 1)" by (simp only: div_eq_0_iff) simp
    then show ?thesis using 1 by (simp add: bit_iff_odd)
  next
    case 2
    then have "\<not> n < 2 ^ (m - 1)" by (metis div_less zero_neq_one)
    then show ?thesis using 2 by (simp add: bit_iff_odd)
  qed
qed

subsection \<open>Filling groups\<close>

definition group_mask :: "nat \<Rightarrow> uint64 \<Rightarrow> bool" where
  "group_mask m c \<longleftrightarrow> (\<forall>i\<in>set [0 ..< 64]. bit c i = (i mod m \<noteq> m - 1))"

lemma group_masks:
  "group_mask 2 0x5555555555555555" "group_mask 4 0x7777777777777777" "group_mask 8 0x7f7f7f7f7f7f7f7f"
  "group_mask 16 0x7fff7fff7fff7fff" "group_mask 32 0x7fffffff7fffffff" "group_mask 64 0x7fffffffffffffff"
  unfolding group_mask_def by code_simp+

lemma group_bits:
  assumes "group_mask m c" "1 < m" "k * m + m \<le> 64"
  shows "grp m k c = 2 ^ (m - 1) - 1" "grp m k (x AND c) = grp m k x mod 2 ^ (m - 1)"
proof -
  have b: "bit c (k * m + r) \<longleftrightarrow> r < m - 1" if "r < m" for r using assms that unfolding group_mask_def by auto
  have mk: "2 ^ (m - 1) - 1 = (mask (m - 1) :: nat)" by (simp add: mask_eq_exp_minus_1)
  have le: "mask (m - 1) < (2 ^ m :: nat)" unfolding mk [symmetric]
    using power_increasing [of "m - 1" m "2 :: nat"] by (simp add: less_le_trans [of _ "2 ^ (m - 1)"])
  show "grp m k c = 2 ^ (m - 1) - 1" unfolding mk
    by (rule grp_eqI [OF le]) (use b in \<open>auto simp: bit_mask_iff\<close>)
  show "grp m k (x AND c) = grp m k x mod 2 ^ (m - 1)"
  proof (rule grp_eqI)
    show "grp m k x mod 2 ^ (m - 1) < 2 ^ m" using grp_less [of m k x] mod_less_eq_dividend le_less_trans by blast
    fix r assume r: "r < m"
    have "bit (grp m k x mod 2 ^ (m - 1)) r \<longleftrightarrow> r < m - 1 \<and> bit (grp m k x) r"
      using bit_take_bit_iff [of "m - 1" "grp m k x" r] by (simp add: take_bit_eq_mod)
    then show "bit (x AND c) (k * m + r) \<longleftrightarrow> bit (grp m k x mod 2 ^ (m - 1)) r"
      using b [OF r] bit_grp [OF r, of x k] unfolding bit_and_iff by blast
  qed
qed

lemma fill_apply_bit:
  assumes c: "group_mask m c" and m: "1 < m" "k * m + m \<le> 64" and r: "r < m"
  shows "bit (fill_apply x c) (k * m + r) \<longleftrightarrow> r = m - 1 \<and> grp m k x = 0"
proof -
  have small: "grp m j (x AND c) + grp m j c < 2 ^ m" if "j \<le> k" for j
  proof -
    have "j * m + m \<le> 64" using that m(2) mult_le_mono1 [of j k m] by linarith
    note g = group_bits [OF c m(1) this]
    have "(2 :: nat) ^ m = 2 ^ (m - 1) + 2 ^ (m - 1)" using m(1) by (simp add: power_eq_if)
    moreover have "grp m j x mod 2 ^ (m - 1) < 2 ^ (m - 1)" by simp
    ultimately show ?thesis unfolding g by linarith
  qed
  have km: "(k + 1) * m \<le> 64" using m(2) by (simp add: algebra_simps)
  note g = group_bits [OF c m]
  have add: "grp m k ((x AND c) + c) = grp m k x mod 2 ^ (m - 1) + (2 ^ (m - 1) - 1)"
    using grp_add [OF small km] unfolding g by simp
  have cb: "bit c (k * m + r) \<longleftrightarrow> r \<noteq> m - 1" using c m r unfolding group_mask_def by auto
  have n: "k * m + r < 64" using m(2) r by simp
  show ?thesis
  proof (cases "r = m - 1")
    case False
    then show ?thesis using cb n unfolding fill_apply_def bit_not_iff bit_or_iff by simp
  next
    case True
    have "bit ((x AND c) + c) (k * m + r) \<longleftrightarrow> 2 ^ (m - 1) \<le> grp m k x mod 2 ^ (m - 1) + (2 ^ (m - 1) - 1)"
      using bit_grp [OF r, of "(x AND c) + c" k] top_bit [of m "grp m k ((x AND c) + c)"] grp_less [of m k "(x AND c) + c"] m(1)
      by (simp add: True add)
    moreover have "2 ^ (m - 1) \<le> v + (2 ^ (m - 1) - 1) \<longleftrightarrow> 0 < v" for v :: nat
      using zero_less_power [of "2 :: nat" "m - 1"] by linarith
    ultimately have s: "bit ((x AND c) + c) (k * m + r) \<longleftrightarrow> grp m k x mod 2 ^ (m - 1) \<noteq> 0" by simp
    have t: "bit x (k * m + r) \<longleftrightarrow> 2 ^ (m - 1) \<le> grp m k x"
      using bit_grp [OF r, of x k] top_bit [of m "grp m k x"] grp_less [of m k x] m(1) by (simp add: True)
    have "grp m k x mod 2 ^ (m - 1) = 0 \<and> \<not> 2 ^ (m - 1) \<le> grp m k x \<longleftrightarrow> grp m k x = 0"
      using less_le_trans [of 0 "2 ^ (m - 1)" "grp m k x"] by (cases "2 ^ (m - 1) \<le> grp m k x") auto
    then show ?thesis using s t cb n True unfolding fill_apply_def bit_not_iff bit_or_iff by auto
  qed
qed

lemma word_grp_eqI:
  assumes "0 < m" "64 = q * m" "\<And>j. j < q \<Longrightarrow> grp m j a = grp m j b"
  shows "a = b"
proof (rule bit_word_eqI)
  fix n assume "n < LENGTH(64)"
  then have "n div m < q" using assms(1,2) by (simp add: div_less_iff_less_mult)
  then have "grp m (n div m) a = grp m (n div m) b" by (rule assms(3))
  then show "bit a n \<longleftrightarrow> bit b n" using bit_grp [of "n mod m" m _ "n div m"] assms(1) by simp
qed

lemma spread_bit:
  fixes y :: uint64
  assumes y: "\<And>j r. j * m + m \<le> 64 \<Longrightarrow> r < m \<Longrightarrow> bit y (j * m + r) \<longleftrightarrow> r = m - 1 \<and> z j"
    and m: "1 < m" "64 = q * m" and k: "k < q" "r < m"
  shows "bit (NOT ((y - drop_bit (m - 1) y) OR y)) (k * m + r) \<longleftrightarrow> \<not> z k"
proof -
  define t where "t = drop_bit (m - 1) y"
  define s :: uint64 where "s = horner_sum of_bool 2 (map (\<lambda>i. i mod m < m - 1 \<and> z (i div m)) [0 ..< 64])"
  have jm: "j * m + m \<le> 64" if "j < q" for j using that m(2) mult_le_mono1 [of "j + 1" q m] by (simp add: add.commute)
  have bs: "bit s (j * m + r) \<longleftrightarrow> r < m - 1 \<and> z j" if "j < q" "r < m" for j r
  proof -
    have "j * m + r < 64" using jm [OF that(1)] that(2) by simp
    moreover have "(j * m + r) mod m = r" "(j * m + r) div m = j" using that(2) by simp_all
    ultimately show ?thesis by (simp add: s_def bit_horner_sum_bit_word_iff)
  qed
  have bt: "bit t (j * m + r) \<longleftrightarrow> r = 0 \<and> z j" if jr: "j < q" "r < m" for j r
  proof (cases r)
    case 0
    have "m - 1 + (j * m + r) = j * m + (m - 1)" using 0 by simp
    then have "bit t (j * m + r) \<longleftrightarrow> bit y (j * m + (m - 1))" by (simp only: t_def bit_drop_bit_eq comp_def)
    then show ?thesis using y [OF jm [OF jr(1)], of "m - 1"] m(1) 0 by simp
  next
    case (Suc r')
    have "m - 1 + (j * m + r) = (j + 1) * m + r'" using Suc m(1) by simp
    then have b: "bit t (j * m + r) \<longleftrightarrow> bit y ((j + 1) * m + r')" by (simp only: t_def bit_drop_bit_eq comp_def)
    have "\<not> bit y ((j + 1) * m + r')"
    proof (cases "j + 1 < q")
      case True
      have "r' < m - 1" using Suc jr(2) by simp
      then show ?thesis using y [OF jm [OF True], of r'] by simp
    next
      case False
      then have "64 \<le> (j + 1) * m" using m(2) mult_le_mono1 [of q "j + 1" m] by simp
      then show ?thesis using bit_imp_le_length [of y "(j + 1) * m + r'"] by auto
    qed
    then show ?thesis using b Suc by simp
  qed
  have p: "2 ^ (m - 1) < (2 ^ m :: nat)" using m(1) by (intro power_strict_increasing) simp_all
  have gy: "grp m j y = (if z j then 2 ^ (m - 1) else 0)" if "j < q" for j
    by (rule grp_eqI) (use p y [OF jm [OF that]] in \<open>auto simp: bit_simps\<close>)
  have gt: "grp m j t = (if z j then 1 else 0)" if "j < q" for j
  proof (rule grp_eqI)
    have "(1 :: nat) < 2 ^ m" using m(1) by (intro one_less_power) simp_all
    then show "(if z j then 1 else 0) < (2 ^ m :: nat)" by simp
    fix r assume "r < m"
    then show "bit t (j * m + r) \<longleftrightarrow> bit (if z j then 1 else 0 :: nat) r"
      using bt [OF that] by (auto simp only: bit_1_iff bit_0_eq bot_apply bot_bool_def split: if_splits)
  qed
  have mk: "2 ^ (m - 1) - 1 = (mask (m - 1) :: nat)" by (simp add: mask_eq_exp_minus_1)
  have gs: "grp m j s = (if z j then 2 ^ (m - 1) - 1 else 0)" if "j < q" for j
  proof (rule grp_eqI)
    show "(if z j then 2 ^ (m - 1) - 1 else 0) < (2 ^ m :: nat)" using p by (simp add: less_imp_diff_less del: One_nat_def)
    fix r assume "r < m"
    then show "bit s (j * m + r) \<longleftrightarrow> bit (if z j then 2 ^ (m - 1) - 1 else 0 :: nat) r"
      unfolding mk using bs [OF that] by (simp add: bit_mask_iff)
  qed
  have "s + t = y"
  proof (rule word_grp_eqI [OF _ m(2)])
    show "0 < m" using m(1) by simp
    fix j assume j: "j < q"
    have "grp m i s + grp m i t < 2 ^ m" if "i \<le> j" for i using p gs [of i] gt [of i] that j by simp
    moreover have "(j + 1) * m \<le> 64" using jm [OF j] by (simp add: add.commute)
    ultimately have "grp m j (s + t) = grp m j s + grp m j t" by (rule grp_add)
    then show "grp m j (s + t) = grp m j y" using gs [OF j] gt [OF j] gy [OF j] by simp
  qed
  then have yt: "y - t = s" by (metis add_diff_cancel_right')
  have "k * m + r < 64" using jm [OF k(1)] k(2) by simp
  then show ?thesis
    using bs [OF k] y [OF jm [OF k(1)] k(2)] k(2) unfolding t_def [symmetric] yt bit_not_iff bit_or_iff by auto
qed

text \<open>\<open>fillAligned(x, m)\<close> for the powers of two up to 64 sets, in every aligned group of \<open>m\<close> bits, all bits when one of
  them is set and none otherwise, and panics for every other \<open>m\<close>.\<close>

lemma grp_zero_iff:
  assumes n: "0 < n"
  shows "grp n k x = 0 \<longleftrightarrow> (\<forall>j<64. j div n = k \<longrightarrow> \<not> bit (x :: uint64) j)"
proof
  assume z: "grp n k x = 0"
  show "\<forall>j<64. j div n = k \<longrightarrow> \<not> bit x j"
  proof (intro allI impI)
    fix j assume "j div n = k"
    then have "j = k * n + j mod n" by (metis div_mult_mod_eq)
    then show "\<not> bit x j" using bit_grp [of "j mod n" n x k] n z by simp
  qed
next
  assume z: "\<forall>j<64. j div n = k \<longrightarrow> \<not> bit x j"
  show "grp n k x = 0"
  proof (rule grp_eqI)
    fix r assume "r < n"
    then show "bit x (k * n + r) \<longleftrightarrow> bit (0 :: nat) r"
      using z bit_imp_le_length [of x "k * n + r"] by auto
  qed (use n in simp)
qed

lemma fill_groups:
  fixes x :: uint64
  assumes c: "group_mask n c" and n: "1 < n" "64 = q * n" and i: "i < 64"
  shows "bit (NOT ((fill_apply x c - drop_bit (n - 1) (fill_apply x c)) OR fill_apply x c)) i \<longleftrightarrow>
    (\<exists>j<64. j div n = i div n \<and> bit x j)"
proof -
  have k: "i div n < q" "i mod n < n" using i n by (simp_all add: div_less_iff_less_mult)
  have "bit (NOT ((fill_apply x c - drop_bit (n - 1) (fill_apply x c)) OR fill_apply x c)) (i div n * n + i mod n) \<longleftrightarrow>
      \<not> grp n (i div n) x = 0"
    using fill_apply_bit [OF c n(1)] by (intro spread_bit [OF _ n k]) auto
  then show ?thesis using grp_zero_iff [of n "i div n" x] n(1) by auto
qed

text \<open>C10: \<open>fillAligned(x, m)\<close> for the powers of two up to 64 sets, in every aligned group of \<open>m\<close> bits, all bits when one of
  them is set and none otherwise, and panics for every other \<open>m\<close>.\<close>

theorem fillAligned_correct:
  "if m \<in> {1, 2, 4, 8, 16, 32, 64}
   then \<exists>y. fillAligned x m = Some y \<and>
     (\<forall>i<64. bit y i \<longleftrightarrow> (\<exists>j<64. j div unat m = i div unat m \<and> bit x j))
   else fillAligned x m = None"
proof (cases "m \<in> {1, 2, 4, 8, 16, 32, 64}")
  case False
  then show ?thesis by (simp add: fillAligned_def)
next
  case True
  have one: ?thesis if "m = 1" using that by (auto simp: fillAligned_def)
  have g: ?thesis if "group_mask n c" "1 < n" "64 = q * n" "unat m = n"
      "fillAligned x m = Some (NOT ((fill_apply x c - drop_bit (n - 1) (fill_apply x c)) OR fill_apply x c))" for n q c
    using True fill_groups [OF that(1,2,3)] that(4,5) by auto
  consider "m = 1" | "m = 2" | "m = 4" | "m = 8" | "m = 16" | "m = 32" | "m = 64" using True by auto
  then show ?thesis
    by cases (rule one g [OF group_masks(1), of 32] g [OF group_masks(2), of 16] g [OF group_masks(3), of 8]
        g [OF group_masks(4), of 4] g [OF group_masks(5), of 2] g [OF group_masks(6), of 1]; simp add: fillAligned_def)+
qed

theorem fillAligned_correct_witness:
  "\<exists>y. fillAligned 0x0100a3 8 = Some y \<and> bit y 16 \<and> bit y 23 \<and> \<not> bit y 24 \<and> bit y 7"
proof -
  have b: "bit (0x0100a3 :: uint64) 16" "bit (0x0100a3 :: uint64) 0" by (simp_all add: bit_numeral_rec)
  have nb: "\<not> (\<exists>j<64. j div unat (8 :: uint64) = 24 div unat (8 :: uint64) \<and> bit (0x0100a3 :: uint64) j)"
  proof
    assume "\<exists>j<64. j div unat (8 :: uint64) = 24 div unat (8 :: uint64) \<and> bit (0x0100a3 :: uint64) j"
    then obtain j where j: "j div 8 = 3" "bit (0x0100a3 :: uint64) j" by auto
    have "j < 17" by (rule small_word_bit [OF _ j(2)]) simp
    then show False using j(1) by simp
  qed
  obtain y where y: "fillAligned 0x0100a3 8 = Some y"
    "\<forall>i<64. bit y i \<longleftrightarrow> (\<exists>j<64. j div unat (8 :: uint64) = i div unat (8 :: uint64) \<and> bit (0x0100a3 :: uint64) j)"
    using fillAligned_correct [of 8 "0x0100a3"] by auto
  have "bit y 16" using y(2) [rule_format, of 16] b(1) by (auto intro!: exI [of _ 16])
  moreover have "bit y 23" using y(2) [rule_format, of 23] b(1) by (auto intro!: exI [of _ 16])
  moreover have "bit y 7" using y(2) [rule_format, of 7] b(2) by (auto intro!: exI [of _ 0])
  moreover have "\<not> bit y 24" using y(2) [rule_format, of 24] nb by simp
  ultimately show ?thesis using y(1) by blast
qed

end
