(* ===== verification/SortAlgo.thy ===== *)
theory SortAlgo
  imports Sys
begin

text \<open>
  Package \<open>sort\<close>: \<open>sort.go\<close> and \<open>zsortinterface.go\<close> over \<open>sort.Interface\<close>, a record of the three methods the
  algorithms call.  \<open>Less\<close> and \<open>Swap\<close> may panic (an index out of range), so both return in \<open>'a go\<close>, and so does every
  function here: \<open>None\<close> is a panic or a loop that does not end.  Indices are natural numbers: up to \<open>2^61\<close> elements no index
  computation of the code overflows, and every subtraction below is of a smaller number in the states that the callers
  reach (an index that is too large would make \<open>Less\<close> or \<open>Swap\<close> of a slice panic, and the theorems say that the
  functions return).
\<close>

record 'd Interface =
  iLen :: "'d \<Rightarrow> nat"
  iLess :: "'d \<Rightarrow> nat \<Rightarrow> nat \<Rightarrow> bool go"
  iSwap :: "'d \<Rightarrow> nat \<Rightarrow> nat \<Rightarrow> 'd go"

subsection \<open>Insertion sort\<close>

fun insert_back :: "'d Interface \<Rightarrow> nat \<Rightarrow> 'd \<Rightarrow> nat \<Rightarrow> 'd go" where
  "insert_back I a d j =
     (if j > a then do {
        l \<leftarrow> iLess I d j (j - 1);
        if l then do { d \<leftarrow> iSwap I d j (j - 1); insert_back I a d (j - 1) } else Some d
      } else Some d)"

declare insert_back.simps [simp del]

function insertion_loop :: "'d Interface \<Rightarrow> nat \<Rightarrow> nat \<Rightarrow> 'd \<Rightarrow> nat \<Rightarrow> 'd go" where
  "insertion_loop I a b d i =
     (if i < b then do { d \<leftarrow> insert_back I a d i; insertion_loop I a b d (i + 1) } else Some d)"
  by pat_completeness auto
termination by (relation "measure (\<lambda>(I, a, b, d, i). b - i)") auto

declare insertion_loop.simps [simp del]

definition insertionSort :: "'d Interface \<Rightarrow> 'd \<Rightarrow> nat \<Rightarrow> nat \<Rightarrow> 'd go" where
  "insertionSort I d a b = insertion_loop I a b d (a + 1)"

subsection \<open>Heap sort\<close>

function siftDown :: "'d Interface \<Rightarrow> nat \<Rightarrow> nat \<Rightarrow> 'd \<Rightarrow> nat \<Rightarrow> 'd go" where
  "siftDown I hi first d root =
     (let child = 2 * root + 1 in
      if child \<ge> hi then Some d
      else do {
        l \<leftarrow> (if child + 1 < hi then iLess I d (first + child) (first + child + 1) else Some False);
        let child = (if l then child + 1 else child);
        m \<leftarrow> iLess I d (first + root) (first + child);
        if \<not> m then Some d
        else do { d \<leftarrow> iSwap I d (first + root) (first + child); siftDown I hi first d child }
      })"
  by pat_completeness auto
termination by (relation "measure (\<lambda>(I, hi, first, d, root). hi - root)") (auto split: if_splits)

declare siftDown.simps [simp del]

text \<open>The two loops count \<open>i\<close> down to 0; their argument is \<open>i + 1\<close>.\<close>

fun heap_build :: "'d Interface \<Rightarrow> nat \<Rightarrow> nat \<Rightarrow> 'd \<Rightarrow> nat \<Rightarrow> 'd go" where
  "heap_build I hi first d 0 = Some d"
| "heap_build I hi first d (Suc i) = do { d \<leftarrow> siftDown I hi first d i; heap_build I hi first d i }"

fun heap_pop :: "'d Interface \<Rightarrow> nat \<Rightarrow> nat \<Rightarrow> 'd \<Rightarrow> nat \<Rightarrow> 'd go" where
  "heap_pop I lo first d 0 = Some d"
| "heap_pop I lo first d (Suc i) =
     do { d \<leftarrow> iSwap I d first (first + i); d \<leftarrow> siftDown I i first d lo; heap_pop I lo first d i }"

definition heapSort :: "'d Interface \<Rightarrow> 'd \<Rightarrow> nat \<Rightarrow> nat \<Rightarrow> 'd go" where
  "heapSort I d a b =
     (let first = a; lo = 0; hi = b - a in do {
        d \<leftarrow> heap_build I hi first d ((hi - 1) div 2 + 1);
        heap_pop I lo first d hi
      })"

subsection \<open>Partitioning\<close>

text \<open>The scanning loops \<open>for i <= j && cond(i) { i++ }\<close> and \<open>for i <= j && cond(j) { j-- }\<close> of \<open>partition\<close> and
  \<open>partitionEqual\<close>.  At \<open>i = j = 0\<close> the code's \<open>j\<close> would become \<open>-1\<close>; its callers have \<open>i > a\<close>.\<close>

partial_function (option) scan_up :: "(nat \<Rightarrow> bool go) \<Rightarrow> nat \<Rightarrow> nat \<Rightarrow> nat go" where
  "scan_up cond i j = (if i \<le> j then do { l \<leftarrow> cond i; if l then scan_up cond (i + 1) j else Some i } else Some i)"

partial_function (option) scan_down :: "(nat \<Rightarrow> bool go) \<Rightarrow> nat \<Rightarrow> nat \<Rightarrow> nat go" where
  "scan_down cond i j = (if i \<le> j then do { l \<leftarrow> cond j; if l then scan_down cond i (j - 1) else Some j } else Some j)"

definition not_go :: "bool go \<Rightarrow> bool go" where
  "not_go c = do { l \<leftarrow> c; Some (\<not> l) }"

partial_function (option) partition_loop :: "'d Interface \<Rightarrow> nat \<Rightarrow> 'd \<Rightarrow> nat \<Rightarrow> nat \<Rightarrow> ('d \<times> nat) go" where
  "partition_loop I a d i j = do {
     i \<leftarrow> scan_up (\<lambda>i. iLess I d i a) i j;
     j \<leftarrow> scan_down (\<lambda>j. not_go (iLess I d j a)) i j;
     if i > j then Some (d, j)
     else do { d \<leftarrow> iSwap I d i j; partition_loop I a d (i + 1) (j - 1) }
   }"

definition partition_range :: "'d Interface \<Rightarrow> 'd \<Rightarrow> nat \<Rightarrow> nat \<Rightarrow> nat \<Rightarrow> ('d \<times> nat \<times> bool) go" where
  "partition_range I d a b pivot = do {
     d \<leftarrow> iSwap I d a pivot;
     i \<leftarrow> scan_up (\<lambda>i. iLess I d i a) (a + 1) (b - 1);
     j \<leftarrow> scan_down (\<lambda>j. not_go (iLess I d j a)) i (b - 1);
     if i > j then do { d \<leftarrow> iSwap I d j a; Some (d, j, True) }
     else do {
       d \<leftarrow> iSwap I d i j;
       (d, j) \<leftarrow> partition_loop I a d (i + 1) (j - 1);
       d \<leftarrow> iSwap I d j a;
       Some (d, j, False)
     }
   }"

partial_function (option) equal_loop :: "'d Interface \<Rightarrow> nat \<Rightarrow> 'd \<Rightarrow> nat \<Rightarrow> nat \<Rightarrow> ('d \<times> nat) go" where
  "equal_loop I a d i j = do {
     i \<leftarrow> scan_up (\<lambda>i. not_go (iLess I d a i)) i j;
     j \<leftarrow> scan_down (\<lambda>j. iLess I d a j) i j;
     if i > j then Some (d, i)
     else do { d \<leftarrow> iSwap I d i j; equal_loop I a d (i + 1) (j - 1) }
   }"

definition partitionEqual :: "'d Interface \<Rightarrow> 'd \<Rightarrow> nat \<Rightarrow> nat \<Rightarrow> nat \<Rightarrow> ('d \<times> nat) go" where
  "partitionEqual I d a b pivot = do { d \<leftarrow> iSwap I d a pivot; equal_loop I a d (a + 1) (b - 1) }"

subsection \<open>Partial insertion sort\<close>

function scan_sorted :: "'d Interface \<Rightarrow> 'd \<Rightarrow> nat \<Rightarrow> nat \<Rightarrow> nat go" where
  "scan_sorted I d b i =
     (if i < b then do { l \<leftarrow> iLess I d i (i - 1); if \<not> l then scan_sorted I d b (i + 1) else Some i } else Some i)"
  by pat_completeness auto
termination by (relation "measure (\<lambda>(I, d, b, i). b - i)") auto

declare scan_sorted.simps [simp del]

fun shift_left :: "'d Interface \<Rightarrow> 'd \<Rightarrow> nat \<Rightarrow> 'd go" where
  "shift_left I d j =
     (if j \<ge> 1 then do {
        l \<leftarrow> iLess I d j (j - 1);
        if \<not> l then Some d else do { d \<leftarrow> iSwap I d j (j - 1); shift_left I d (j - 1) }
      } else Some d)"

declare shift_left.simps [simp del]

function shift_right :: "'d Interface \<Rightarrow> nat \<Rightarrow> 'd \<Rightarrow> nat \<Rightarrow> 'd go" where
  "shift_right I b d j =
     (if j < b then do {
        l \<leftarrow> iLess I d j (j - 1);
        if \<not> l then Some d else do { d \<leftarrow> iSwap I d j (j - 1); shift_right I b d (j + 1) }
      } else Some d)"
  by pat_completeness auto
termination by (relation "measure (\<lambda>(I, b, d, j). b - j)") auto

declare shift_right.simps [simp del]

text \<open>The last argument counts the remaining rounds of \<open>maxSteps\<close>.\<close>

fun partial_rounds :: "'d Interface \<Rightarrow> nat \<Rightarrow> nat \<Rightarrow> 'd \<Rightarrow> nat \<Rightarrow> nat \<Rightarrow> ('d \<times> bool) go" where
  "partial_rounds I a b d i 0 = Some (d, False)"
| "partial_rounds I a b d i (Suc k) = do {
     i \<leftarrow> scan_sorted I d b i;
     if i = b then Some (d, True)
     else if b - a < 50 then Some (d, False)
     else do {
       d \<leftarrow> iSwap I d i (i - 1);
       d \<leftarrow> (if i - a \<ge> 2 then shift_left I d (i - 1) else Some d);
       d \<leftarrow> (if b - i \<ge> 2 then shift_right I b d (i + 1) else Some d);
       partial_rounds I a b d i k
     }
   }"

definition partialInsertionSort :: "'d Interface \<Rightarrow> 'd \<Rightarrow> nat \<Rightarrow> nat \<Rightarrow> ('d \<times> bool) go" where
  "partialInsertionSort I d a b = partial_rounds I a b d (a + 1) 5"

subsection \<open>Breaking patterns\<close>

text \<open>\<open>math/bits.Len\<close> is \<open>Len64\<close> on a 64-bit machine; its body and table are those of \<open>internal/runtime/sys\<close>.\<close>

definition bits_Len :: "nat \<Rightarrow> nat" where
  "bits_Len n = Len64 (of_nat n)"

definition xorshift_Next :: "uint64 \<Rightarrow> uint64" where
  "xorshift_Next r =
     (let r = r XOR push_bit 13 r; r = r XOR drop_bit 17 r; r = r XOR push_bit 5 r in r)"

definition nextPowerOfTwo :: "nat \<Rightarrow> uint" where
  "nextPowerOfTwo n = (let shift = bits_Len n in push_bit shift 1)"

function break_loop :: "'d Interface \<Rightarrow> nat \<Rightarrow> nat \<Rightarrow> uint \<Rightarrow> uint64 \<Rightarrow> 'd \<Rightarrow> nat \<Rightarrow> 'd go" where
  "break_loop I a n modulus random d t =
     (if t \<le> a + n div 4 * 2 + 1 then
        let random = xorshift_Next random;
            other = unat (random AND (modulus - 1));
            other = (if other \<ge> n then other - n else other)
        in do { d \<leftarrow> iSwap I d t (a + other); break_loop I a n modulus random d (t + 1) }
      else Some d)"
  by pat_completeness auto
termination by (relation "measure (\<lambda>(I, a, n, modulus, random, d, t). a + n div 4 * 2 + 2 - t)") auto

declare break_loop.simps [simp del]

definition breakPatterns :: "'d Interface \<Rightarrow> 'd \<Rightarrow> nat \<Rightarrow> nat \<Rightarrow> 'd go" where
  "breakPatterns I d a b =
     (let n = b - a in
      if n \<ge> 8 then break_loop I a n (nextPowerOfTwo n) (of_nat n) d (a + n div 4 * 2 - 1)
      else Some d)"

fun reverse_loop :: "'d Interface \<Rightarrow> 'd \<Rightarrow> nat \<Rightarrow> nat \<Rightarrow> 'd go" where
  "reverse_loop I d i j =
     (if i < j then do { d \<leftarrow> iSwap I d i j; reverse_loop I d (i + 1) (j - 1) } else Some d)"

declare reverse_loop.simps [simp del]

definition reverseRange :: "'d Interface \<Rightarrow> 'd \<Rightarrow> nat \<Rightarrow> nat \<Rightarrow> 'd go" where
  "reverseRange I d a b = reverse_loop I d a (b - 1)"

subsection \<open>Choosing the pivot\<close>

datatype sortedHint = unknownHint | increasingHint | decreasingHint

text \<open>The counter \<open>*swaps\<close> is passed through.\<close>

definition order2 :: "'d Interface \<Rightarrow> 'd \<Rightarrow> nat \<Rightarrow> nat \<Rightarrow> nat \<Rightarrow> (nat \<times> nat \<times> nat) go" where
  "order2 I d a b swaps = do { l \<leftarrow> iLess I d b a; if l then Some (b, a, swaps + 1) else Some (a, b, swaps) }"

definition median :: "'d Interface \<Rightarrow> 'd \<Rightarrow> nat \<Rightarrow> nat \<Rightarrow> nat \<Rightarrow> nat \<Rightarrow> (nat \<times> nat) go" where
  "median I d a b c swaps = do {
     (a, b, swaps) \<leftarrow> order2 I d a b swaps;
     (b, c, swaps) \<leftarrow> order2 I d b c swaps;
     (a, b, swaps) \<leftarrow> order2 I d a b swaps;
     Some (b, swaps)
   }"

definition medianAdjacent :: "'d Interface \<Rightarrow> 'd \<Rightarrow> nat \<Rightarrow> nat \<Rightarrow> (nat \<times> nat) go" where
  "medianAdjacent I d a swaps = median I d (a - 1) a (a + 1) swaps"

text \<open>The three samples: medians of three neighbours from \<open>shortestNinther = 50\<close> elements on.\<close>

definition pivot_samples :: "'d Interface \<Rightarrow> 'd \<Rightarrow> nat \<Rightarrow> nat \<Rightarrow> (nat \<times> nat \<times> nat \<times> nat) go" where
  "pivot_samples I d a l =
     (let swaps = 0; i = a + l div 4 * 1; j = a + l div 4 * 2; k = a + l div 4 * 3 in
      if l \<ge> 50 then do {
        (i, swaps) \<leftarrow> medianAdjacent I d i swaps;
        (j, swaps) \<leftarrow> medianAdjacent I d j swaps;
        (k, swaps) \<leftarrow> medianAdjacent I d k swaps;
        Some (i, j, k, swaps)
      } else Some (i, j, k, swaps))"

definition choosePivot :: "'d Interface \<Rightarrow> 'd \<Rightarrow> nat \<Rightarrow> nat \<Rightarrow> (nat \<times> sortedHint) go" where
  "choosePivot I d a b =
     (let l = b - a in do {
        (j, swaps) \<leftarrow>
          (if l \<ge> 8 then do { (i, j, k, swaps) \<leftarrow> pivot_samples I d a l; median I d i j k swaps }
           else Some (a + l div 4 * 2, 0));
        Some (j, if swaps = 0 then increasingHint else if swaps = 4 * 3 then decreasingHint else unknownHint)
      })"

subsection \<open>Pattern-defeating quicksort\<close>

text \<open>The part of a round before the partition: break patterns, choose the pivot, reverse a descending range.\<close>

definition pdq_prepare :: "'d Interface \<Rightarrow> 'd \<Rightarrow> nat \<Rightarrow> nat \<Rightarrow> nat \<Rightarrow> bool \<Rightarrow> ('d \<times> nat \<times> nat \<times> sortedHint) go" where
  "pdq_prepare I d a b limit wasBalanced = do {
     (d, limit) \<leftarrow> (if \<not> wasBalanced then do { d \<leftarrow> breakPatterns I d a b; Some (d, limit - 1) } else Some (d, limit));
     (pivot, hint) \<leftarrow> choosePivot I d a b;
     if hint = decreasingHint then do {
       d \<leftarrow> reverseRange I d a b;
       Some (d, limit, (b - 1) - (pivot - a), increasingHint)
     } else Some (d, limit, pivot, hint)
   }"

partial_function (option) pdqsort_loop ::
    "'d Interface \<Rightarrow> 'd \<Rightarrow> nat \<Rightarrow> nat \<Rightarrow> nat \<Rightarrow> bool \<Rightarrow> bool \<Rightarrow> 'd go" where
  "pdqsort_loop I d a b limit wasBalanced wasPartitioned =
     (let n = b - a in
      if n \<le> 12 then insertionSort I d a b
      else if limit = 0 then heapSort I d a b
      else do {
        (d, limit, pivot, hint) \<leftarrow> pdq_prepare I d a b limit wasBalanced;
        (d, sorted) \<leftarrow>
          (if wasBalanced \<and> wasPartitioned \<and> hint = increasingHint then partialInsertionSort I d a b
           else Some (d, False));
        if sorted then Some d
        else do {
          less \<leftarrow> (if a > 0 then iLess I d (a - 1) pivot else Some True);
          if \<not> less then do {
            (d, mid) \<leftarrow> partitionEqual I d a b pivot;
            pdqsort_loop I d mid b limit wasBalanced wasPartitioned
          } else do {
            (d, mid, alreadyPartitioned) \<leftarrow> partition_range I d a b pivot;
            let leftLen = mid - a;
            let rightLen = b - mid;
            let balanceThreshold = n div 8;
            if leftLen < rightLen then do {
              d \<leftarrow> pdqsort_loop I d a mid limit True True;
              pdqsort_loop I d (mid + 1) b limit (leftLen \<ge> balanceThreshold) alreadyPartitioned
            } else do {
              d \<leftarrow> pdqsort_loop I d (mid + 1) b limit True True;
              pdqsort_loop I d a mid limit (rightLen \<ge> balanceThreshold) alreadyPartitioned
            }
          }
        }
      })"

definition pdqsort :: "'d Interface \<Rightarrow> 'd \<Rightarrow> nat \<Rightarrow> nat \<Rightarrow> nat \<Rightarrow> 'd go" where
  "pdqsort I d a b limit = pdqsort_loop I d a b limit True True"

definition Sort :: "'d Interface \<Rightarrow> 'd \<Rightarrow> 'd go" where
  "Sort I d = (let n = iLen I d in if n \<le> 1 then Some d else pdqsort I d 0 n (bits_Len n))"

subsection \<open>Stable sorting\<close>

function swap_range_loop :: "'d Interface \<Rightarrow> nat \<Rightarrow> nat \<Rightarrow> nat \<Rightarrow> 'd \<Rightarrow> nat \<Rightarrow> 'd go" where
  "swap_range_loop I a b n d i =
     (if i < n then do { d \<leftarrow> iSwap I d (a + i) (b + i); swap_range_loop I a b n d (i + 1) } else Some d)"
  by pat_completeness auto
termination by (relation "measure (\<lambda>(I, a, b, n, d, i). n - i)") auto

declare swap_range_loop.simps [simp del]

definition swapRange :: "'d Interface \<Rightarrow> 'd \<Rightarrow> nat \<Rightarrow> nat \<Rightarrow> nat \<Rightarrow> 'd go" where
  "swapRange I d a b n = swap_range_loop I a b n d 0"

partial_function (option) rotate_loop :: "'d Interface \<Rightarrow> nat \<Rightarrow> 'd \<Rightarrow> nat \<Rightarrow> nat \<Rightarrow> 'd go" where
  "rotate_loop I m d i j =
     (if i \<noteq> j then
        if i > j then do { d \<leftarrow> swapRange I d (m - i) m j; rotate_loop I m d (i - j) j }
        else do { d \<leftarrow> swapRange I d (m - i) (m + j - i) i; rotate_loop I m d i (j - i) }
      else swapRange I d (m - i) m i)"

definition rotate_blocks :: "'d Interface \<Rightarrow> 'd \<Rightarrow> nat \<Rightarrow> nat \<Rightarrow> nat \<Rightarrow> 'd go" where
  "rotate_blocks I d a m b = rotate_loop I m d (m - a) (b - m)"

text \<open>The binary searches of \<open>symMerge\<close>: for the position of \<open>data[a]\<close> in \<open>data[m:b]\<close>, of \<open>data[m]\<close> in \<open>data[a:m]\<close>,
  and for the number of elements of the first half that stay on the left.\<close>

function bisect :: "(nat \<Rightarrow> bool go) \<Rightarrow> nat \<Rightarrow> nat \<Rightarrow> nat go" where
  "bisect right i j =
     (if i < j then let h = (i + j) div 2 in do { l \<leftarrow> right h; if l then bisect right (h + 1) j else bisect right i h }
      else Some i)"
  by pat_completeness auto
termination by (relation "measure (\<lambda>(right, i, j). j - i)") auto

declare bisect.simps [simp del]

function bubble_up :: "'d Interface \<Rightarrow> 'd \<Rightarrow> nat \<Rightarrow> nat \<Rightarrow> 'd go" where
  "bubble_up I d k e = (if k < e then do { d \<leftarrow> iSwap I d k (k + 1); bubble_up I d (k + 1) e } else Some d)"
  by pat_completeness auto
termination by (relation "measure (\<lambda>(I, d, k, e). e - k)") auto

declare bubble_up.simps [simp del]

fun bubble_down :: "'d Interface \<Rightarrow> 'd \<Rightarrow> nat \<Rightarrow> nat \<Rightarrow> 'd go" where
  "bubble_down I d k i = (if k > i then do { d \<leftarrow> iSwap I d k (k - 1); bubble_down I d (k - 1) i } else Some d)"

declare bubble_down.simps [simp del]

partial_function (option) symMerge :: "'d Interface \<Rightarrow> 'd \<Rightarrow> nat \<Rightarrow> nat \<Rightarrow> nat \<Rightarrow> 'd go" where
  "symMerge I d a m b =
     (if m - a = 1 then do { i \<leftarrow> bisect (\<lambda>h. iLess I d h a) m b; bubble_up I d a (i - 1) }
      else if b - m = 1 then do { i \<leftarrow> bisect (\<lambda>h. not_go (iLess I d m h)) a m; bubble_down I d m i }
      else
        let mid = (a + b) div 2; n = mid + m; p = n - 1 in do {
          start \<leftarrow> bisect (\<lambda>c. not_go (iLess I d (p - c) c)) (if m > mid then n - b else a) (if m > mid then mid else m);
          let e = n - start;
          d \<leftarrow> (if start < m \<and> m < e then rotate_blocks I d start m e else Some d);
          d \<leftarrow> (if a < start \<and> start < mid then symMerge I d a start mid else Some d);
          if mid < e \<and> e < b then symMerge I d mid e b else Some d
        })"

function stable_blocks :: "'d Interface \<Rightarrow> nat \<Rightarrow> 'd \<Rightarrow> nat \<Rightarrow> nat \<Rightarrow> ('d \<times> nat) go" where
  "stable_blocks I n d a b =
     (if b \<le> n then do { d \<leftarrow> insertionSort I d a b; stable_blocks I n d b (b + 20) } else Some (d, a))"
  by pat_completeness auto
termination by (relation "measure (\<lambda>(I, n, d, a, b). n + 1 - b)") auto

declare stable_blocks.simps [simp del]

partial_function (option) merge_blocks :: "'d Interface \<Rightarrow> nat \<Rightarrow> nat \<Rightarrow> 'd \<Rightarrow> nat \<Rightarrow> nat \<Rightarrow> ('d \<times> nat) go" where
  "merge_blocks I n blockSize d a b =
     (if b \<le> n then do {
        d \<leftarrow> symMerge I d a (a + blockSize) b;
        merge_blocks I n blockSize d b (b + 2 * blockSize)
      } else Some (d, a))"

partial_function (option) stable_merges :: "'d Interface \<Rightarrow> nat \<Rightarrow> 'd \<Rightarrow> nat \<Rightarrow> 'd go" where
  "stable_merges I n d blockSize =
     (if blockSize < n then do {
        (d, a) \<leftarrow> merge_blocks I n blockSize d 0 (2 * blockSize);
        let m = a + blockSize;
        d \<leftarrow> (if m < n then symMerge I d a m n else Some d);
        stable_merges I n d (blockSize * 2)
      } else Some d)"

definition stable :: "'d Interface \<Rightarrow> 'd \<Rightarrow> nat \<Rightarrow> 'd go" where
  "stable I d n = do {
     (d, a) \<leftarrow> stable_blocks I n d 0 20;
     d \<leftarrow> insertionSort I d a n;
     stable_merges I n d 20
   }"

definition Stable :: "'d Interface \<Rightarrow> 'd \<Rightarrow> 'd go" where
  "Stable I d = stable I d (iLen I d)"

subsection \<open>Is a collection sorted; reversed order\<close>

fun is_sorted_loop :: "'d Interface \<Rightarrow> 'd \<Rightarrow> nat \<Rightarrow> bool go" where
  "is_sorted_loop I d i =
     (if i > 0 then do { l \<leftarrow> iLess I d i (i - 1); if l then Some False else is_sorted_loop I d (i - 1) } else Some True)"

declare is_sorted_loop.simps [simp del]

definition IsSorted :: "'d Interface \<Rightarrow> 'd \<Rightarrow> bool go" where
  "IsSorted I d = (let n = iLen I d in is_sorted_loop I d (n - 1))"

definition Reverse :: "'d Interface \<Rightarrow> 'd Interface" where
  "Reverse I = I\<lparr>iLess := \<lambda>d i j. iLess I d j i\<rparr>"

end
