(* ===== verification/SortBounds.thy ===== *)
theory SortBounds
  imports SortAlgo Perm
begin

text \<open>
  The sorting algorithms never leave the bounds of the collection, return, and only rearrange its elements, whatever
  \<open>Less\<close> answers: the locale \<open>collection\<close> is the contract of \<open>sort.Interface\<close> without any assumption on the order.
\<close>

subsection \<open>The random numbers of \<open>breakPatterns\<close>\<close>

lemma other_less:
  fixes r :: uint64
  assumes "0 < n" "n < 2 ^ 63"
  shows "unat (r AND (nextPowerOfTwo n - 1)) < 2 * n"
proof -
  define l where "l = bits_Len n"
  have u: "unat (of_nat n :: uint64) = n" using assms by (simp add: unat_of_nat_small)
  have "is_bit_len n l" using Len64_bit_len [of "of_nat n"] unfolding l_def bits_Len_def u by simp
  then have l: "n < 2 ^ l" "l \<noteq> 0" "2 ^ (l - 1) \<le> n" using assms by (auto simp: is_bit_len_def)
  have "r AND (nextPowerOfTwo n - 1) = take_bit l r"
    unfolding nextPowerOfTwo_def Let_def l_def [symmetric] push_bit_one_minus_one take_bit_eq_mask ..
  then have "unat (r AND (nextPowerOfTwo n - 1)) = take_bit l (unat r)" by (simp add: unsigned_take_bit_eq)
  also have "\<dots> < 2 ^ l" by simp
  also have "\<dots> = 2 * 2 ^ (l - 1)" using l(2) by (metis power_eq_if)
  also have "\<dots> \<le> 2 * n" using l(3) by simp
  finally show ?thesis .
qed

subsection \<open>The contract\<close>

locale collection =
  fixes I :: "'d Interface" and elems :: "'d \<Rightarrow> 'x list" and lt :: "'x \<Rightarrow> 'x \<Rightarrow> bool"
  assumes Len: "iLen I d = length (elems d)"
    and Less: "i < length (elems d) \<Longrightarrow> j < length (elems d) \<Longrightarrow> iLess I d i j = Some (lt (elems d ! i) (elems d ! j))"
    and Swap: "i < length (elems d) \<Longrightarrow> j < length (elems d) \<Longrightarrow>
      \<exists>d'. iSwap I d i j = Some d' \<and> elems d' = swap_at (elems d) i j"
begin

lemma swapped:
  assumes "i < length (elems d)" "j < length (elems d)" "\<And>d'. elems d' = swap_at (elems d) i j \<Longrightarrow> Q d'"
  shows "returns (iSwap I d i j) Q"
  using Swap [OF assms(1,2)] assms(3) by (auto simp: returns_def)

lemma swapped_in:
  assumes "a \<le> i" "i < b" "a \<le> j" "j < b" "b \<le> length (elems d)"
    "\<And>d'. elems d' = swap_at (elems d) i j \<Longrightarrow> perm_in a b (elems d) (elems d') \<Longrightarrow> length (elems d') = length (elems d) \<Longrightarrow> Q d'"
  shows "returns (iSwap I d i j) Q"
  by (rule swapped) (use assms perm_in_swap [of a i b j "elems d"] in \<open>auto simp: perm_in_length\<close>)

lemma swapE:
  assumes "a \<le> i" "i < b" "a \<le> j" "j < b" "b \<le> length (elems d)"
  obtains d' where "iSwap I d i j = Some d'" "elems d' = swap_at (elems d) i j" "perm_in a b (elems d) (elems d')"
    "length (elems d') = length (elems d)"
  using Swap [of i d j] perm_in_swap [OF assms] assms by auto

text \<open>The next step of a computation that has rearranged \<open>[a, b)\<close> so far.\<close>

lemma perm_step:
  assumes "returns m (\<lambda>d'. perm_in a b (elems d1) (elems d'))" "perm_in a b (elems d) (elems d1)"
  shows "returns m (\<lambda>d'. perm_in a b (elems d) (elems d'))"
  using assms(1) by (rule returns_mono) (rule perm_in_trans [OF assms(2)])

subsection \<open>Insertion sort and heap sort\<close>

lemma insert_back_perm:
  "j < b \<Longrightarrow> b \<le> length (elems d) \<Longrightarrow> a \<le> j \<Longrightarrow> returns (insert_back I a d j) (\<lambda>d'. perm_in a b (elems d) (elems d'))"
proof (induction j arbitrary: d)
  case (Suc j)
  show ?case
  proof (cases "a < Suc j \<and> lt (elems d ! Suc j) (elems d ! j)")
    case True
    have "returns (iSwap I d (Suc j) j) (\<lambda>d'. returns (insert_back I a d' j) (\<lambda>d''. perm_in a b (elems d) (elems d'')))"
      by (rule swapped_in [where a = a and b = b]) (use Suc True in \<open>auto intro!: perm_step [OF Suc.IH]\<close>)
    then show ?thesis using True Suc.prems by (subst insert_back.simps) (simp add: Less)
  next
    case False
    then show ?thesis using Suc.prems by (subst insert_back.simps) (auto simp: Less)
  qed
qed (simp add: insert_back.simps)

lemma insertion_loop_perm:
  "b \<le> length (elems d) \<Longrightarrow> a \<le> i \<Longrightarrow> returns (insertion_loop I a b d i) (\<lambda>d'. perm_in a b (elems d) (elems d'))"
proof (induction "b - i" arbitrary: i d)
  case 0
  then show ?case by (subst insertion_loop.simps) simp
next
  case (Suc n)
  have "returns (insert_back I a d i) (\<lambda>d1. returns (insertion_loop I a b d1 (i + 1)) (\<lambda>d'. perm_in a b (elems d) (elems d')))"
    by (rule returns_mono [OF insert_back_perm [where b = b]])
      (use Suc in \<open>auto intro!: perm_step [OF Suc.hyps(1)] simp: perm_in_length\<close>)
  then show ?case using Suc.hyps(2) by (subst insertion_loop.simps) simp
qed

lemma insertionSort_perm:
  "b \<le> length (elems d) \<Longrightarrow> returns (insertionSort I d a b) (\<lambda>d'. perm_in a b (elems d) (elems d'))"
  unfolding insertionSort_def by (rule insertion_loop_perm) simp_all

lemma siftDown_perm:
  "first + hi \<le> length (elems d) \<Longrightarrow>
    returns (siftDown I hi first d root) (\<lambda>d'. perm_in (first + root) (first + hi) (elems d) (elems d'))"
proof (induction "hi - root" arbitrary: root d rule: less_induct)
  case less
  show ?case
  proof (cases "2 * root + 1 \<ge> hi")
    case True
    then show ?thesis by (subst siftDown.simps) simp
  next
    case False
    define l where "l \<longleftrightarrow> 2 * root + 2 < hi \<and> lt (elems d ! (first + (2 * root + 1))) (elems d ! (first + (2 * root + 1) + 1))"
    define child where "child = (if l then 2 * root + 2 else 2 * root + 1)"
    have c: "root < child" "child < hi" using False by (auto simp: child_def l_def)
    have eq: "siftDown I hi first d root =
      (if \<not> lt (elems d ! (first + root)) (elems d ! (first + child)) then Some d
       else iSwap I d (first + root) (first + child) \<bind> (\<lambda>d. siftDown I hi first d child))"
      using False less.prems by (subst siftDown.simps) (simp add: Less Let_def child_def l_def)
    have "returns (iSwap I d (first + root) (first + child))
      (\<lambda>d1. returns (siftDown I hi first d1 child) (\<lambda>d'. perm_in (first + root) (first + hi) (elems d) (elems d')))"
    proof (rule swapped_in [where a = "first + root" and b = "first + hi"])
      fix d1 assume d1: "perm_in (first + root) (first + hi) (elems d) (elems d1)" "length (elems d1) = length (elems d)"
      have "returns (siftDown I hi first d1 child) (\<lambda>d'. perm_in (first + child) (first + hi) (elems d1) (elems d'))"
        using c less.prems d1(2) by (intro less.hyps) simp_all
      then show "returns (siftDown I hi first d1 child) (\<lambda>d'. perm_in (first + root) (first + hi) (elems d) (elems d'))"
        by (rule returns_mono, intro perm_in_trans [OF d1(1)], elim perm_in_mono) (use c in simp_all)
    qed (use c less.prems in simp_all)
    then show ?thesis unfolding eq by simp
  qed
qed

lemma heap_build_perm:
  "first + hi \<le> length (elems d) \<Longrightarrow> returns (heap_build I hi first d k) (\<lambda>d'. perm_in first (first + hi) (elems d) (elems d'))"
proof (induction k arbitrary: d)
  case (Suc i)
  show ?case
    unfolding heap_build.simps returns_bind
    by (rule returns_mono [OF siftDown_perm])
      (use Suc in \<open>auto intro!: perm_step [OF Suc.IH] intro: perm_in_mono simp: perm_in_length\<close>)
qed simp

lemma heap_pop_perm:
  "k \<le> hi \<Longrightarrow> first + hi \<le> length (elems d) \<Longrightarrow>
    returns (heap_pop I 0 first d k) (\<lambda>d'. perm_in first (first + hi) (elems d) (elems d'))"
proof (induction k arbitrary: d)
  case (Suc i)
  have "returns (iSwap I d first (first + i)) (\<lambda>d1. returns (siftDown I i first d1 0)
    (\<lambda>d2. returns (heap_pop I 0 first d2 i) (\<lambda>d'. perm_in first (first + hi) (elems d) (elems d'))))"
  proof (rule swapped_in [where a = first and b = "first + hi"])
    fix d1 assume d1: "perm_in first (first + hi) (elems d) (elems d1)" "length (elems d1) = length (elems d)"
    show "returns (siftDown I i first d1 0) (\<lambda>d2. returns (heap_pop I 0 first d2 i) (\<lambda>d'. perm_in first (first + hi) (elems d) (elems d')))"
    proof (rule returns_mono [OF siftDown_perm])
      fix d2 assume "perm_in (first + 0) (first + i) (elems d1) (elems d2)"
      then have d2: "perm_in first (first + hi) (elems d1) (elems d2)" using Suc.prems by (auto intro: perm_in_mono)
      then have "length (elems d2) = length (elems d)" using d1(2) by (simp add: perm_in_length)
      then show "returns (heap_pop I 0 first d2 i) (\<lambda>d'. perm_in first (first + hi) (elems d) (elems d'))"
        using Suc.prems by (intro perm_step [OF Suc.IH perm_in_trans [OF d1(1) d2]]) simp_all
    qed (use Suc.prems d1 in simp)
  qed (use Suc.prems in simp_all)
  then show ?case by simp
qed simp

lemma heapSort_perm:
  assumes "a \<le> b" "b \<le> length (elems d)"
  shows "returns (heapSort I d a b) (\<lambda>d'. perm_in a b (elems d) (elems d'))"
proof -
  have l: "a + (b - a) = b" using assms by simp
  have "returns (heap_build I (b - a) a d ((b - a - 1) div 2 + 1)) (\<lambda>d1. perm_in a b (elems d) (elems d1))"
    by (rule heap_build_perm [of a "b - a", unfolded l, OF assms(2)])
  then have "returns (heap_build I (b - a) a d ((b - a - 1) div 2 + 1))
    (\<lambda>d1. returns (heap_pop I 0 a d1 (b - a)) (\<lambda>d'. perm_in a b (elems d) (elems d')))"
  proof (rule returns_mono)
    fix d1 assume d1: "perm_in a b (elems d) (elems d1)"
    have "returns (heap_pop I 0 a d1 (b - a)) (\<lambda>d'. perm_in a b (elems d1) (elems d'))"
      using heap_pop_perm [of "b - a" "b - a" a d1] assms l perm_in_length [OF d1] by simp
    then show "returns (heap_pop I 0 a d1 (b - a)) (\<lambda>d'. perm_in a b (elems d) (elems d'))" by (rule perm_step) (rule d1)
  qed
  then show ?thesis unfolding heapSort_def Let_def returns_bind .
qed

subsection \<open>Partitioning\<close>

lemma not_go_Some [simp]: "not_go (Some l) = Some (\<not> l)"
  by (simp add: not_go_def)

lemma scan_up_range:
  assumes "\<And>k. i \<le> k \<Longrightarrow> k \<le> j \<Longrightarrow> cond k = Some (P k)" "i \<le> j + 1"
  shows "returns (scan_up cond i j) (\<lambda>r. i \<le> r \<and> r \<le> j + 1 \<and> (\<forall>k. i \<le> k \<longrightarrow> k < r \<longrightarrow> P k) \<and> (r \<le> j \<longrightarrow> \<not> P r))"
  using assms
proof (induction "j + 1 - i" arbitrary: i)
  case 0
  then show ?case by (subst scan_up.simps) simp
next
  case (Suc n)
  show ?case
  proof (cases "P i")
    case True
    have "returns (scan_up cond (i + 1) j) (\<lambda>r. i + 1 \<le> r \<and> r \<le> j + 1 \<and> (\<forall>k. i + 1 \<le> k \<longrightarrow> k < r \<longrightarrow> P k) \<and> (r \<le> j \<longrightarrow> \<not> P r))"
      using Suc.hyps(2) Suc.prems by (intro Suc.hyps(1)) simp_all
    then have "returns (scan_up cond (i + 1) j) (\<lambda>r. i \<le> r \<and> r \<le> j + 1 \<and> (\<forall>k. i \<le> k \<longrightarrow> k < r \<longrightarrow> P k) \<and> (r \<le> j \<longrightarrow> \<not> P r))"
      by (rule returns_mono) (metis True Suc_eq_plus1 Suc_leD le_antisym not_less_eq_eq)
    then show ?thesis using Suc True by (subst scan_up.simps) simp
  qed (use Suc in \<open>subst scan_up.simps, auto\<close>)
qed

lemma scan_down_range:
  assumes "\<And>k. i \<le> k \<Longrightarrow> k \<le> j \<Longrightarrow> cond k = Some (P k)" "0 < i" "i \<le> j + 1"
  shows "returns (scan_down cond i j) (\<lambda>r. i \<le> r + 1 \<and> r \<le> j \<and> (\<forall>k. r < k \<longrightarrow> k \<le> j \<longrightarrow> P k) \<and> (i \<le> r \<longrightarrow> \<not> P r))"
  using assms
proof (induction j)
  case 0
  then show ?case by (subst scan_down.simps) simp
next
  case (Suc j)
  show ?case
  proof (cases "i \<le> Suc j \<and> P (Suc j)")
    case True
    have "returns (scan_down cond i j) (\<lambda>r. i \<le> r + 1 \<and> r \<le> j \<and> (\<forall>k. r < k \<longrightarrow> k \<le> j \<longrightarrow> P k) \<and> (i \<le> r \<longrightarrow> \<not> P r))"
      using Suc.prems True by (intro Suc.IH) simp_all
    then have "returns (scan_down cond i j) (\<lambda>r. i \<le> r + 1 \<and> r \<le> Suc j \<and> (\<forall>k. r < k \<longrightarrow> k \<le> Suc j \<longrightarrow> P k) \<and> (i \<le> r \<longrightarrow> \<not> P r))"
      by (rule returns_mono) (metis True le_Suc_eq)
    then show ?thesis using Suc.prems True by (subst scan_down.simps) simp
  qed (use Suc.prems in \<open>subst scan_down.simps, auto\<close>)
qed

text \<open>\<open>split_at\<close>: the elements of \<open>[i, r)\<close> satisfy \<open>P\<close>, those of \<open>[r, j]\<close> do not.  Both partition loops establish
  it, for \<open>P\<close> a comparison with the element at \<open>a\<close>, outside \<open>[i, j]\<close>.\<close>

definition split_at :: "('x \<Rightarrow> bool) \<Rightarrow> 'x list \<Rightarrow> nat \<Rightarrow> nat \<Rightarrow> nat \<Rightarrow> bool" where
  "split_at P xs i r j \<longleftrightarrow> i \<le> r \<and> r \<le> j + 1 \<and> (\<forall>k. i \<le> k \<longrightarrow> k < r \<longrightarrow> P (xs ! k)) \<and> (\<forall>k. r \<le> k \<longrightarrow> k \<le> j \<longrightarrow> \<not> P (xs ! k))"

definition split_pair :: "('x \<Rightarrow> bool) \<Rightarrow> 'x list \<Rightarrow> nat \<Rightarrow> nat \<Rightarrow> nat \<Rightarrow> nat \<Rightarrow> bool" where
  "split_pair P xs i i1 j1 j \<longleftrightarrow> i \<le> i1 \<and> i1 < j1 \<and> j1 \<le> j \<and> j < length xs \<and> (\<forall>k. i \<le> k \<longrightarrow> k < i1 \<longrightarrow> P (xs ! k)) \<and>
     \<not> P (xs ! i1) \<and> (\<forall>k. j1 < k \<longrightarrow> k \<le> j \<longrightarrow> \<not> P (xs ! k)) \<and> P (xs ! j1)"

text \<open>The two scans stop at the border, or at a pair of elements on the wrong sides.\<close>

lemma scans_meet:
  assumes "\<And>k. i \<le> k \<Longrightarrow> k \<le> j \<Longrightarrow> up k = Some (P (xs ! k))" "\<And>k. i \<le> k \<Longrightarrow> k \<le> j \<Longrightarrow> down k = Some (\<not> P (xs ! k))"
    "0 < i" "i \<le> j + 1" "j < length xs"
  obtains (border) i1 j1 where "scan_up up i j = Some i1" "scan_down down i1 j = Some j1" "i1 = j1 + 1" "split_at P xs i i1 j"
  | (pair) i1 j1 where "scan_up up i j = Some i1" "scan_down down i1 j = Some j1" "split_pair P xs i i1 j1 j"
proof -
  obtain i1 where i1: "scan_up up i j = Some i1" "i \<le> i1" "i1 \<le> j + 1" "\<And>k. i \<le> k \<Longrightarrow> k < i1 \<Longrightarrow> P (xs ! k)"
    "i1 \<le> j \<Longrightarrow> \<not> P (xs ! i1)"
    by (rule returnsE [OF scan_up_range [OF assms(1,4)]]) blast+
  obtain j1 where j1: "scan_down down i1 j = Some j1" "i1 \<le> j1 + 1" "j1 \<le> j" "\<And>k. j1 < k \<Longrightarrow> k \<le> j \<Longrightarrow> \<not> P (xs ! k)"
    "i1 \<le> j1 \<Longrightarrow> P (xs ! j1)"
    by (rule returnsE [OF scan_down_range [of i1 j down "\<lambda>k. \<not> P (xs ! k)"]]) (use assms(2,3) i1(2,3) in auto)
  show thesis
  proof (cases "i1 > j1")
    case True
    then show ?thesis using i1 j1 by (intro border [of i1 j1]) (auto simp: split_at_def)
  next
    case False
    then have "i1 < j1" using i1(5) j1(3,5) by (cases "i1 = j1") auto
    then show ?thesis using i1 j1 assms(5) by (intro pair [of i1 j1]) (simp_all add: split_pair_def)
  qed
qed

lemma split_at_extend:
  assumes s: "split_at P ys (i1 + 1) r (j1 - 1)" and p: "perm_in (i1 + 1) (j1 - 1 + 1) (swap_at xs i1 j1) ys"
    and b: "split_pair P xs i i1 j1 j"
  shows "split_at P ys i r j" "perm_in i (j + 1) xs ys"
proof -
  have lt: "i \<le> i1" "i1 < j1" "j1 \<le> j" "j < length xs" using b by (simp_all add: split_pair_def)
  have out: "ys ! k = swap_at xs i1 j1 ! k" if "k < length xs" "k < i1 + 1 \<or> j1 \<le> k" for k
    using perm_in_outside [OF p] that lt by simp
  have "P (ys ! k)" if "i \<le> k" "k < r" for k
  proof (cases "k \<le> i1")
    case True
    then show ?thesis using out [of k] that b lt by (auto simp: nth_swap_at split_pair_def)
  next
    case False
    then show ?thesis using s that by (simp add: split_at_def)
  qed
  moreover have "\<not> P (ys ! k)" if "r \<le> k" "k \<le> j" for k
  proof (cases "j1 \<le> k")
    case True
    then show ?thesis using out [of k] that b lt by (auto simp: nth_swap_at split_pair_def)
  next
    case False
    then show ?thesis using s that by (simp add: split_at_def)
  qed
  ultimately show "split_at P ys i r j" using s lt by (auto simp: split_at_def)
  have "perm_in i (j + 1) xs (swap_at xs i1 j1)" using lt by (intro perm_in_swap) simp_all
  then show "perm_in i (j + 1) xs ys" by (rule perm_in_trans) (rule perm_in_mono [OF p], use lt in simp_all)
qed

lemma partition_loop_split:
  "a < i \<Longrightarrow> i \<le> j + 1 \<Longrightarrow> j < length (elems d) \<Longrightarrow>
    returns (partition_loop I a d i j) (\<lambda>(d', j'). perm_in i (j + 1) (elems d) (elems d') \<and> j' \<le> j \<and>
      split_at (\<lambda>x. lt x (elems d ! a)) (elems d') i (j' + 1) j)"
proof (induction "j + 1 - i" arbitrary: i j d rule: less_induct)
  case less
  define P where "P = (\<lambda>x. lt x (elems d ! a))"
  have up: "\<And>k. i \<le> k \<Longrightarrow> k \<le> j \<Longrightarrow> iLess I d k a = Some (P (elems d ! k))"
    and down: "\<And>k. i \<le> k \<Longrightarrow> k \<le> j \<Longrightarrow> not_go (iLess I d k a) = Some (\<not> P (elems d ! k))"
    and i: "0 < i" using less.prems by (simp_all add: Less P_def)
  show ?case
  proof (rule scans_meet [where P = P and xs = "elems d", OF up down i less.prems(2,3)])
    fix i1 j1 assume border: "scan_up (\<lambda>k. iLess I d k a) i j = Some i1" "scan_down (\<lambda>k. not_go (iLess I d k a)) i1 j = Some j1"
      "i1 = j1 + 1" "split_at P (elems d) i i1 j"
    then show ?thesis by (subst partition_loop.simps) (simp add: P_def split_at_def)
  next
    fix i1 j1 assume pair: "scan_up (\<lambda>k. iLess I d k a) i j = Some i1" "scan_down (\<lambda>k. not_go (iLess I d k a)) i1 j = Some j1"
      "split_pair P (elems d) i i1 j1 j"
    then have lt: "i \<le> i1" "i1 < j1" "j1 \<le> j" by (simp_all add: split_pair_def)
    have "returns (iSwap I d i1 j1) (\<lambda>d1. returns (partition_loop I a d1 (i1 + 1) (j1 - 1))
      (\<lambda>(d', j'). perm_in i (j + 1) (elems d) (elems d') \<and> j' \<le> j \<and> split_at P (elems d') i (j' + 1) j))"
    proof (rule swapped)
      fix d1 assume d1: "elems d1 = swap_at (elems d) i1 j1"
      have a: "swap_at (elems d) i1 j1 ! a = elems d ! a" using less.prems lt by (simp add: nth_swap_at)
      have "returns (partition_loop I a d1 (i1 + 1) (j1 - 1))
        (\<lambda>(d', j'). perm_in (i1 + 1) (j1 - 1 + 1) (elems d1) (elems d') \<and> j' \<le> j1 - 1 \<and>
          split_at (\<lambda>x. lt x (elems d1 ! a)) (elems d') (i1 + 1) (j' + 1) (j1 - 1))"
        using lt less.prems d1 by (intro less.hyps) simp_all
      then show "returns (partition_loop I a d1 (i1 + 1) (j1 - 1))
        (\<lambda>(d', j'). perm_in i (j + 1) (elems d) (elems d') \<and> j' \<le> j \<and> split_at P (elems d') i (j' + 1) j)"
        unfolding d1 a P_def [symmetric]
      proof (rule returns_mono2, elim conjE)
        fix d' j' assume p: "perm_in (i1 + 1) (j1 - 1 + 1) (swap_at (elems d) i1 j1) (elems d')" and "j' \<le> j1 - 1"
          and s: "split_at P (elems d') (i1 + 1) (j' + 1) (j1 - 1)"
        then show "perm_in i (j + 1) (elems d) (elems d') \<and> j' \<le> j \<and> split_at P (elems d') i (j' + 1) j"
          using split_at_extend [OF s p pair(3)] lt by simp
      qed
    qed (use lt less.prems in simp_all)
    then show ?thesis using pair(1,2) lt by (subst partition_loop.simps) (simp add: P_def)
  qed
qed

lemma equal_loop_split:
  "a < i \<Longrightarrow> i \<le> j + 1 \<Longrightarrow> j < length (elems d) \<Longrightarrow>
    returns (equal_loop I a d i j) (\<lambda>(d', i'). perm_in i (j + 1) (elems d) (elems d') \<and>
      split_at (\<lambda>x. \<not> lt (elems d ! a) x) (elems d') i i' j)"
proof (induction "j + 1 - i" arbitrary: i j d rule: less_induct)
  case less
  define P where "P = (\<lambda>x. \<not> lt (elems d ! a) x)"
  have up: "\<And>k. i \<le> k \<Longrightarrow> k \<le> j \<Longrightarrow> not_go (iLess I d a k) = Some (P (elems d ! k))"
    and down: "\<And>k. i \<le> k \<Longrightarrow> k \<le> j \<Longrightarrow> iLess I d a k = Some (\<not> P (elems d ! k))"
    and i: "0 < i" using less.prems by (simp_all add: Less P_def)
  show ?case
  proof (rule scans_meet [where P = P and xs = "elems d", OF up down i less.prems(2,3)])
    fix i1 j1 assume border: "scan_up (\<lambda>k. not_go (iLess I d a k)) i j = Some i1" "scan_down (\<lambda>k. iLess I d a k) i1 j = Some j1"
      "i1 = j1 + 1" "split_at P (elems d) i i1 j"
    then show ?thesis by (subst equal_loop.simps) (simp add: P_def)
  next
    fix i1 j1 assume pair: "scan_up (\<lambda>k. not_go (iLess I d a k)) i j = Some i1" "scan_down (\<lambda>k. iLess I d a k) i1 j = Some j1"
      "split_pair P (elems d) i i1 j1 j"
    then have lt: "i \<le> i1" "i1 < j1" "j1 \<le> j" by (simp_all add: split_pair_def)
    have "returns (iSwap I d i1 j1) (\<lambda>d1. returns (equal_loop I a d1 (i1 + 1) (j1 - 1))
      (\<lambda>(d', i'). perm_in i (j + 1) (elems d) (elems d') \<and> split_at P (elems d') i i' j))"
    proof (rule swapped)
      fix d1 assume d1: "elems d1 = swap_at (elems d) i1 j1"
      have a: "swap_at (elems d) i1 j1 ! a = elems d ! a" using less.prems lt by (simp add: nth_swap_at)
      have "returns (equal_loop I a d1 (i1 + 1) (j1 - 1))
        (\<lambda>(d', i'). perm_in (i1 + 1) (j1 - 1 + 1) (elems d1) (elems d') \<and>
          split_at (\<lambda>x. \<not> lt (elems d1 ! a) x) (elems d') (i1 + 1) i' (j1 - 1))"
        using lt less.prems d1 by (intro less.hyps) simp_all
      then show "returns (equal_loop I a d1 (i1 + 1) (j1 - 1))
        (\<lambda>(d', i'). perm_in i (j + 1) (elems d) (elems d') \<and> split_at P (elems d') i i' j)"
        unfolding d1 a P_def [symmetric]
      proof (rule returns_mono2, elim conjE)
        fix d' i' assume p: "perm_in (i1 + 1) (j1 - 1 + 1) (swap_at (elems d) i1 j1) (elems d')"
          and s: "split_at P (elems d') (i1 + 1) i' (j1 - 1)"
        then show "perm_in i (j + 1) (elems d) (elems d') \<and> split_at P (elems d') i i' j"
          using split_at_extend [OF s p pair(3)] by simp
      qed
    qed (use lt less.prems in simp_all)
    then show ?thesis using pair(1,2) lt by (subst equal_loop.simps) (simp add: P_def)
  qed
qed

lemma pivot_placed:
  assumes s: "split_at (\<lambda>x. lt x (xs ! a)) xs (a + 1) (j + 1) (b - 1)" and b: "a < b" "b \<le> length xs"
  shows "a \<le> j" "j < b" "\<And>k. a \<le> k \<Longrightarrow> k < j \<Longrightarrow> lt (swap_at xs j a ! k) (swap_at xs j a ! j)"
    "\<And>k. j < k \<Longrightarrow> k < b \<Longrightarrow> \<not> lt (swap_at xs j a ! k) (swap_at xs j a ! j)" "swap_at xs j a ! j = xs ! a"
proof -
  show j: "a \<le> j" "j < b" using s b by (auto simp: split_at_def)
  show "lt (swap_at xs j a ! k) (swap_at xs j a ! j)" if "a \<le> k" "k < j" for k
    using s b j that by (cases "k = a") (auto simp: split_at_def nth_swap_at)
  show "\<not> lt (swap_at xs j a ! k) (swap_at xs j a ! j)" if "j < k" "k < b" for k
    using s b j that by (auto simp: split_at_def nth_swap_at)
  show "swap_at xs j a ! j = xs ! a" using j b by (simp add: nth_swap_at)
qed

definition partitioned :: "'x list \<Rightarrow> 'x list \<Rightarrow> nat \<Rightarrow> nat \<Rightarrow> nat \<Rightarrow> bool" where
  "partitioned xs ys a mid b \<longleftrightarrow> perm_in a b xs ys \<and> a \<le> mid \<and> mid < b \<and>
     (\<forall>k. a \<le> k \<longrightarrow> k < mid \<longrightarrow> lt (ys ! k) (ys ! mid)) \<and> (\<forall>k. mid < k \<longrightarrow> k < b \<longrightarrow> \<not> lt (ys ! k) (ys ! mid))"

lemma place_pivot:
  assumes p: "perm_in a b xs (elems d)" and s: "split_at (\<lambda>x. lt x (elems d ! a)) (elems d) (a + 1) (j + 1) (b - 1)"
    and b: "a < b" "b \<le> length xs"
  shows "returns (iSwap I d j a) (\<lambda>d'. partitioned xs (elems d') a j b)"
proof -
  have b': "b \<le> length (elems d)" using b p by (simp add: perm_in_length)
  note pp = pivot_placed [OF s b(1) b']
  show ?thesis
  proof (rule swapped_in [where a = a and b = b])
    fix d' assume d': "elems d' = swap_at (elems d) j a" "perm_in a b (elems d) (elems d')"
    show "partitioned xs (elems d') a j b"
      unfolding partitioned_def using pp perm_in_trans [OF p d'(2)] by (simp add: d'(1))
  qed (use b' b pp(1,2) in simp_all)
qed

lemma partition_range_ok:
  assumes b: "a < b" "b \<le> length (elems d)" and pv: "a \<le> pivot" "pivot < b"
  shows "returns (partition_range I d a b pivot) (\<lambda>(d', mid, _). partitioned (elems d) (elems d') a mid b)"
proof -
  obtain d1 where d1: "iSwap I d a pivot = Some d1" "perm_in a b (elems d) (elems d1)" "length (elems d1) = length (elems d)"
    by (rule swapE [of a a b pivot d]) (use b pv in simp_all)
  define P where "P = (\<lambda>x. lt x (elems d1 ! a))"
  have up: "\<And>k. a + 1 \<le> k \<Longrightarrow> k \<le> b - 1 \<Longrightarrow> iLess I d1 k a = Some (P (elems d1 ! k))"
    and down: "\<And>k. a + 1 \<le> k \<Longrightarrow> k \<le> b - 1 \<Longrightarrow> not_go (iLess I d1 k a) = Some (\<not> P (elems d1 ! k))"
    and i: "0 < a + 1" "a + 1 \<le> b - 1 + 1" "b - 1 < length (elems d1)" using b d1(3) by (simp_all add: Less P_def)
  show ?thesis
  proof (rule scans_meet [where P = P and xs = "elems d1", OF up down i])
    fix i1 j1 assume border: "scan_up (\<lambda>k. iLess I d1 k a) (a + 1) (b - 1) = Some i1"
      "scan_down (\<lambda>k. not_go (iLess I d1 k a)) i1 (b - 1) = Some j1" "i1 = j1 + 1" "split_at P (elems d1) (a + 1) i1 (b - 1)"
    then show ?thesis using place_pivot [OF d1(2), of j1] b d1(1) by (simp add: P_def partition_range_def)
  next
    fix i1 j1 assume pair: "scan_up (\<lambda>k. iLess I d1 k a) (a + 1) (b - 1) = Some i1"
      "scan_down (\<lambda>k. not_go (iLess I d1 k a)) i1 (b - 1) = Some j1" "split_pair P (elems d1) (a + 1) i1 j1 (b - 1)"
    then have lt: "a + 1 \<le> i1" "i1 < j1" "j1 \<le> b - 1" by (simp_all add: split_pair_def)
    obtain d2 where d2: "iSwap I d1 i1 j1 = Some d2" "elems d2 = swap_at (elems d1) i1 j1" "length (elems d2) = length (elems d1)"
      by (rule swapE [of a i1 b j1 d1]) (use lt b d1(3) in simp_all)
    have a: "elems d2 ! a = elems d1 ! a" using b lt d1(3) by (simp add: d2(2) nth_swap_at)
    have "returns (partition_loop I a d2 (i1 + 1) (j1 - 1))
      (\<lambda>(d3, j). perm_in (i1 + 1) (j1 - 1 + 1) (elems d2) (elems d3) \<and> j \<le> j1 - 1 \<and>
        split_at (\<lambda>x. lt x (elems d2 ! a)) (elems d3) (i1 + 1) (j + 1) (j1 - 1))"
      using lt b d1(3) d2(3) by (intro partition_loop_split) simp_all
    then have "returns (partition_loop I a d2 (i1 + 1) (j1 - 1))
      (\<lambda>(d3, j). returns (iSwap I d3 j a) (\<lambda>d'. partitioned (elems d) (elems d') a j b))"
      unfolding a P_def [symmetric]
    proof (rule returns_mono2, elim conjE)
      fix d3 j assume p: "perm_in (i1 + 1) (j1 - 1 + 1) (elems d2) (elems d3)"
        and s: "split_at P (elems d3) (i1 + 1) (j + 1) (j1 - 1)"
      note e = split_at_extend [OF s p [unfolded d2(2)] pair(3)]
      have q: "perm_in a b (elems d) (elems d3)"
        by (rule perm_in_trans [OF d1(2)], rule perm_in_mono [OF e(2)]) (use b in simp_all)
      have "elems d3 ! a = elems d1 ! a" using perm_in_outside [OF e(2), of a] b d1(3) by simp
      then have "split_at (\<lambda>x. lt x (elems d3 ! a)) (elems d3) (a + 1) (j + 1) (b - 1)" using e(1) by (simp add: P_def)
      then show "returns (iSwap I d3 j a) (\<lambda>d'. partitioned (elems d) (elems d') a j b)"
        by (rule place_pivot [OF q]) (rule b)+
    qed
    then show ?thesis using pair(1,2) lt d1(1) d2(1) by (simp add: partition_range_def split_def)
  qed
qed

definition equal_part :: "'x list \<Rightarrow> 'x list \<Rightarrow> 'x \<Rightarrow> nat \<Rightarrow> nat \<Rightarrow> nat \<Rightarrow> bool" where
  "equal_part xs ys p a mid b \<longleftrightarrow> perm_in a b xs ys \<and> a < mid \<and> mid \<le> b \<and> ys ! a = p \<and>
     (\<forall>k. a < k \<longrightarrow> k < mid \<longrightarrow> \<not> lt p (ys ! k)) \<and> (\<forall>k. mid \<le> k \<longrightarrow> k < b \<longrightarrow> lt p (ys ! k))"

lemma partitionEqual_ok:
  assumes b: "a < b" "b \<le> length (elems d)" and pv: "a \<le> pivot" "pivot < b"
  shows "returns (partitionEqual I d a b pivot) (\<lambda>(d', mid). equal_part (elems d) (elems d') (elems d ! pivot) a mid b)"
proof -
  obtain d1 where d1: "iSwap I d a pivot = Some d1" "elems d1 = swap_at (elems d) a pivot"
    "perm_in a b (elems d) (elems d1)" "length (elems d1) = length (elems d)"
    by (rule swapE [of a a b pivot d]) (use b pv in simp_all)
  have a: "elems d1 ! a = elems d ! pivot" using b pv by (simp add: d1(2) nth_swap_at)
  have "returns (equal_loop I a d1 (a + 1) (b - 1)) (\<lambda>(d', mid). perm_in (a + 1) (b - 1 + 1) (elems d1) (elems d') \<and>
    split_at (\<lambda>x. \<not> lt (elems d1 ! a) x) (elems d') (a + 1) mid (b - 1))"
    using b d1(4) by (intro equal_loop_split) simp_all
  then have "returns (equal_loop I a d1 (a + 1) (b - 1)) (\<lambda>(d', mid). equal_part (elems d) (elems d') (elems d ! pivot) a mid b)"
    unfolding a
  proof (rule returns_mono2, elim conjE)
    fix d' mid assume p: "perm_in (a + 1) (b - 1 + 1) (elems d1) (elems d')"
      and s: "split_at (\<lambda>x. \<not> lt (elems d ! pivot) x) (elems d') (a + 1) mid (b - 1)"
    have "perm_in a b (elems d) (elems d')"
      by (rule perm_in_trans [OF d1(3)], rule perm_in_mono [OF p]) (use b in simp_all)
    moreover have "elems d' ! a = elems d ! pivot" using perm_in_outside [OF p, of a] b d1(4) by (simp add: a)
    ultimately show "equal_part (elems d) (elems d') (elems d ! pivot) a mid b"
      using s b by (auto simp: split_at_def equal_part_def)
  qed
  then show ?thesis by (simp add: partitionEqual_def d1(1))
qed

subsection \<open>Before the partition\<close>

lemma scan_sorted_range:
  assumes "1 \<le> i" "i \<le> b" "b \<le> length (elems d)"
  shows "returns (scan_sorted I d b i) (\<lambda>r. i \<le> r \<and> r \<le> b \<and> (\<forall>k. i \<le> k \<longrightarrow> k < r \<longrightarrow> \<not> lt (elems d ! k) (elems d ! (k - 1))))"
  using assms
proof (induction "b - i" arbitrary: i)
  case 0
  then show ?case by (subst scan_sorted.simps) simp
next
  case (Suc n)
  show ?case
  proof (cases "lt (elems d ! i) (elems d ! (i - 1))")
    case False
    have "returns (scan_sorted I d b (i + 1))
      (\<lambda>r. i + 1 \<le> r \<and> r \<le> b \<and> (\<forall>k. i + 1 \<le> k \<longrightarrow> k < r \<longrightarrow> \<not> lt (elems d ! k) (elems d ! (k - 1))))"
      using Suc.hyps(2) Suc.prems by (intro Suc.hyps(1)) simp_all
    then have "returns (scan_sorted I d b (i + 1))
      (\<lambda>r. i \<le> r \<and> r \<le> b \<and> (\<forall>k. i \<le> k \<longrightarrow> k < r \<longrightarrow> \<not> lt (elems d ! k) (elems d ! (k - 1))))"
      by (rule returns_mono) (metis False Suc_eq_plus1 Suc_leD le_antisym not_less_eq_eq)
    then show ?thesis using Suc False by (subst scan_sorted.simps) (simp add: Less)
  qed (use Suc in \<open>subst scan_sorted.simps, auto simp: Less\<close>)
qed

text \<open>\<open>shift_left\<close> stops at index 0, not at the lower end of the range: how far it goes is up to \<open>Less\<close>.\<close>

lemma shift_left_perm:
  "j < b \<Longrightarrow> b \<le> length (elems d) \<Longrightarrow> returns (shift_left I d j) (\<lambda>d'. perm_in 0 b (elems d) (elems d'))"
proof (induction j arbitrary: d)
  case (Suc j)
  show ?case
  proof (cases "lt (elems d ! Suc j) (elems d ! j)")
    case True
    obtain d1 where d1: "iSwap I d (Suc j) j = Some d1" "perm_in 0 b (elems d) (elems d1)" "length (elems d1) = length (elems d)"
      by (rule swapE [of 0 "Suc j" b j d]) (use Suc.prems in simp_all)
    have "returns (shift_left I d1 j) (\<lambda>d'. perm_in 0 b (elems d) (elems d'))"
      using Suc.prems d1(3) by (intro perm_step [OF Suc.IH d1(2)]) simp_all
    then show ?thesis using True Suc.prems d1(1) by (subst shift_left.simps) (simp add: Less)
  next
    case False
    then show ?thesis using Suc.prems by (subst shift_left.simps) (simp add: Less)
  qed
qed (simp add: shift_left.simps)

lemma shift_right_perm:
  "a < j \<Longrightarrow> b \<le> length (elems d) \<Longrightarrow> returns (shift_right I b d j) (\<lambda>d'. perm_in a b (elems d) (elems d'))"
proof (induction "b - j" arbitrary: j d)
  case 0
  then show ?case by (subst shift_right.simps) simp
next
  case (Suc n)
  show ?case
  proof (cases "lt (elems d ! j) (elems d ! (j - 1))")
    case True
    obtain d1 where d1: "iSwap I d j (j - 1) = Some d1" "perm_in a b (elems d) (elems d1)" "length (elems d1) = length (elems d)"
      by (rule swapE [of a j b "j - 1" d]) (use Suc in simp_all)
    have "returns (shift_right I b d1 (j + 1)) (\<lambda>d'. perm_in a b (elems d) (elems d'))"
      using Suc.prems Suc.hyps(2) d1(3) by (intro perm_step [OF Suc.hyps(1) d1(2)]) simp_all
    then show ?thesis using True Suc.prems Suc.hyps(2) d1(1) by (subst shift_right.simps) (simp add: Less)
  next
    case False
    then show ?thesis using Suc.prems Suc.hyps(2) by (subst shift_right.simps) (simp add: Less)
  qed
qed

lemma partial_rounds_perm:
  "a < i \<Longrightarrow> i \<le> b \<Longrightarrow> b \<le> length (elems d) \<Longrightarrow> returns (partial_rounds I a b d i k) (\<lambda>(d', _). perm_in 0 b (elems d) (elems d'))"
proof (induction k arbitrary: i d)
  case (Suc k)
  obtain i1 where i1: "scan_sorted I d b i = Some i1" "i \<le> i1" "i1 \<le> b"
    by (rule returnsE [OF scan_sorted_range [of i b d]]) (use Suc.prems in auto)
  show ?case
  proof (cases "i1 = b \<or> b - a < 50")
    case True
    then show ?thesis using i1(1) by auto
  next
    case False
    obtain d1 where d1: "iSwap I d i1 (i1 - 1) = Some d1" "perm_in 0 b (elems d) (elems d1)" "length (elems d1) = length (elems d)"
      by (rule swapE [of 0 i1 b "i1 - 1" d]) (use Suc.prems False i1 in simp_all)
    have "returns (if 2 \<le> i1 - a then shift_left I d1 (i1 - 1) else Some d1) (\<lambda>d'. perm_in 0 b (elems d) (elems d'))"
      using perm_step [OF shift_left_perm d1(2), of "i1 - 1"] d1(2,3) Suc.prems i1 False by auto
    then obtain d2 where d2: "(if 2 \<le> i1 - a then shift_left I d1 (i1 - 1) else Some d1) = Some d2" "perm_in 0 b (elems d) (elems d2)"
      by (rule returnsE)
    have "returns (if 2 \<le> b - i1 then shift_right I b d2 (i1 + 1) else Some d2) (\<lambda>d'. perm_in 0 b (elems d) (elems d'))"
      using perm_step [OF shift_right_perm d2(2), of "i1 + 1"] d2(2) perm_in_length [OF d2(2)] Suc.prems by auto
    then obtain d3 where d3: "(if 2 \<le> b - i1 then shift_right I b d2 (i1 + 1) else Some d2) = Some d3" "perm_in 0 b (elems d) (elems d3)"
      by (rule returnsE)
    have "returns (partial_rounds I a b d3 i1 k) (\<lambda>(d', _). perm_in 0 b (elems d3) (elems d'))"
      using Suc.prems i1 perm_in_length [OF d3(2)] by (intro Suc.IH) simp_all
    then have "returns (partial_rounds I a b d3 i1 k) (\<lambda>(d', _). perm_in 0 b (elems d) (elems d'))"
      by (rule returns_mono2) (rule perm_in_trans [OF d3(2)])
    then show ?thesis using False i1(1) d1(1) d2(1) d3(1) by simp
  qed
qed simp

lemma partialInsertionSort_perm:
  "a < b \<Longrightarrow> b \<le> length (elems d) \<Longrightarrow> returns (partialInsertionSort I d a b) (\<lambda>(d', _). perm_in 0 b (elems d) (elems d'))"
  unfolding partialInsertionSort_def by (rule partial_rounds_perm) simp_all

lemma break_loop_perm:
  assumes m: "\<And>r :: uint64. unat (r AND (modulus - 1)) < 2 * n" and t: "n div 4 * 2 + 1 < n" "a \<le> t" and b: "a + n \<le> length (elems d)"
  shows "returns (break_loop I a n modulus random d t) (\<lambda>d'. perm_in a (a + n) (elems d) (elems d'))"
  using t b
proof (induction "a + n div 4 * 2 + 2 - t" arbitrary: t random d)
  case 0
  then show ?case by (subst break_loop.simps) simp
next
  case (Suc k)
  define r where "r = xorshift_Next random"
  define other where "other = (if unat (r AND (modulus - 1)) \<ge> n then unat (r AND (modulus - 1)) - n else unat (r AND (modulus - 1)))"
  have other: "other < n" using m [of r] by (auto simp: other_def)
  obtain d1 where d1: "iSwap I d t (a + other) = Some d1" "perm_in a (a + n) (elems d) (elems d1)" "length (elems d1) = length (elems d)"
    by (rule swapE [of a t "a + n" "a + other" d]) (use Suc other in simp_all)
  have "returns (break_loop I a n modulus r d1 (t + 1)) (\<lambda>d'. perm_in a (a + n) (elems d) (elems d'))"
    using Suc.prems Suc.hyps(2) d1(3) by (intro perm_step [OF Suc.hyps(1) d1(2)]) simp_all
  moreover have "break_loop I a n modulus random d t = break_loop I a n modulus r d1 (t + 1)"
  proof -
    have "t \<le> a + n div 4 * 2 + 1" using Suc.hyps(2) by simp
    then show ?thesis using d1(1) by (subst break_loop.simps) (simp add: Let_def flip: r_def other_def)
  qed
  ultimately show ?case by simp
qed

lemma quarters: "8 \<le> (l::nat) \<Longrightarrow> 2 \<le> l div 4 \<and> l div 4 * 4 \<le> l"
  using div_le_mono [of 8 l 4] by simp

lemma breakPatterns_perm:
  assumes "a \<le> b" "b \<le> length (elems d)" "length (elems d) < 2 ^ 63"
  shows "returns (breakPatterns I d a b) (\<lambda>d'. perm_in a b (elems d) (elems d'))"
proof (cases "b - a \<ge> 8")
  case True
  define n where "n = b - a"
  have n: "a + n = b" "8 \<le> n" "n < 2 ^ 63" using assms True by (simp_all add: n_def)
  have m: "unat (r AND (nextPowerOfTwo n - 1)) < 2 * n" for r :: uint64 using n by (intro other_less) simp_all
  have t: "n div 4 * 2 + 1 < n" "a \<le> a + n div 4 * 2 - 1" using quarters [of n] n(2) by linarith+
  have "a + n \<le> length (elems d)" using assms n by simp
  from break_loop_perm [OF m t this] show ?thesis using n(1,2) unfolding breakPatterns_def n_def [symmetric] Let_def by simp
next
  case False
  then show ?thesis by (simp add: breakPatterns_def)
qed

lemma reverse_loop_perm:
  "a \<le> i \<Longrightarrow> j < b \<Longrightarrow> b \<le> length (elems d) \<Longrightarrow> returns (reverse_loop I d i j) (\<lambda>d'. perm_in a b (elems d) (elems d'))"
proof (induction j arbitrary: i d)
  case (Suc j)
  show ?case
  proof (cases "i < Suc j")
    case True
    obtain d1 where d1: "iSwap I d i (Suc j) = Some d1" "perm_in a b (elems d) (elems d1)" "length (elems d1) = length (elems d)"
      by (rule swapE [of a i b "Suc j" d]) (use True Suc.prems in simp_all)
    have "returns (reverse_loop I d1 (i + 1) j) (\<lambda>d'. perm_in a b (elems d) (elems d'))"
      using Suc.prems d1(3) by (intro perm_step [OF Suc.IH d1(2)]) simp_all
    then show ?thesis using True d1(1) by (subst reverse_loop.simps) simp
  qed (simp add: reverse_loop.simps)
qed (simp add: reverse_loop.simps)

lemma reverseRange_perm:
  "a < b \<Longrightarrow> b \<le> length (elems d) \<Longrightarrow> returns (reverseRange I d a b) (\<lambda>d'. perm_in a b (elems d) (elems d'))"
  unfolding reverseRange_def by (rule reverse_loop_perm) simp_all

lemma median_range:
  assumes "a \<le> x" "x < b" "a \<le> y" "y < b" "a \<le> z" "z < b" "b \<le> length (elems d)"
  obtains m s' where "median I d x y z s = Some (m, s')" "a \<le> m" "m < b"
proof -
  have "\<exists>m s'. median I d x y z s = Some (m, s') \<and> m \<in> {x, y, z}" using assms by (simp add: median_def order2_def Less)
  then show ?thesis using that assms by blast
qed

lemma pivot_samples_range:
  assumes "a < a + l div 4 * 1" "a + l div 4 * 1 + 1 < b" "a < a + l div 4 * 2" "a + l div 4 * 2 + 1 < b"
    "a < a + l div 4 * 3" "a + l div 4 * 3 + 1 < b" and b: "b \<le> length (elems d)"
  obtains i j k s where "pivot_samples I d a l = Some (i, j, k, s)" "a \<le> i" "i < b" "a \<le> j" "j < b" "a \<le> k" "k < b"
proof -
  have adj: "\<exists>m s'. medianAdjacent I d i s = Some (m, s') \<and> a \<le> m \<and> m < b" if i: "a < i" "i + 1 < b" for i s
  proof -
    obtain m s' where "median I d (i - 1) i (i + 1) s = Some (m, s')" "a \<le> m" "m < b"
      by (rule median_range [of a "i - 1" b i "i + 1" d s]) (use i b in simp_all)
    then show ?thesis by (simp add: medianAdjacent_def)
  qed
  show ?thesis
  proof (cases "l \<ge> 50")
    case True
    from adj [OF assms(1,2)] obtain i s1 where 1: "medianAdjacent I d (a + l div 4 * 1) 0 = Some (i, s1)" "a \<le> i" "i < b" by blast
    from adj [OF assms(3,4)] obtain j s2 where 2: "medianAdjacent I d (a + l div 4 * 2) s1 = Some (j, s2)" "a \<le> j" "j < b" by blast
    from adj [OF assms(5,6)] obtain k s3 where 3: "medianAdjacent I d (a + l div 4 * 3) s2 = Some (k, s3)" "a \<le> k" "k < b" by blast
    show ?thesis using True 1 2 3 by (intro that [of i j k s3]) (simp_all add: pivot_samples_def)
  next
    case False
    then show ?thesis using assms by (intro that [of "a + l div 4 * 1" "a + l div 4 * 2" "a + l div 4 * 3" 0])
      (simp_all add: pivot_samples_def)
  qed
qed

lemma choosePivot_range:
  assumes "a < b" "b \<le> length (elems d)"
  shows "returns (choosePivot I d a b) (\<lambda>(pivot, _). a \<le> pivot \<and> pivot < b)"
proof -
  define l where "l = b - a"
  have l: "a + l = b" "0 < l" using assms by (simp_all add: l_def)
  have q: "l div 4 * 4 \<le> l" "l div 4 * 2 < l" using l(2) div_times_less_eq_dividend [of l 4] by linarith+
  show ?thesis
  proof (cases "8 \<le> l")
    case False
    then show ?thesis using q l by (auto simp: choosePivot_def Let_def simp flip: l_def)
  next
    case True
    have ijk: "a < a + l div 4 * 1" "a + l div 4 * 1 + 1 < b" "a < a + l div 4 * 2" "a + l div 4 * 2 + 1 < b"
      "a < a + l div 4 * 3" "a + l div 4 * 3 + 1 < b" using quarters [OF True] q(1) l by linarith+
    obtain i j k s where e: "pivot_samples I d a l = Some (i, j, k, s)" "a \<le> i" "i < b" "a \<le> j" "j < b" "a \<le> k" "k < b"
      by (rule pivot_samples_range [OF ijk assms(2)])
    obtain m s' where m: "median I d i j k s = Some (m, s')" "a \<le> m" "m < b"
      by (rule median_range [of a i b j k d s]) (use e assms in simp_all)
    have "choosePivot I d a b = Some (m, if s' = 0 then increasingHint else if s' = 4 * 3 then decreasingHint else unknownHint)"
      unfolding choosePivot_def Let_def l_def [symmetric] using True e(1) m(1) by simp
    then show ?thesis using m by simp
  qed
qed

subsection \<open>Pattern-defeating quicksort\<close>

text \<open>What the first half of a round gives: the range rearranged, a pivot in it; the elements may have been reversed.\<close>

lemma pdq_prepare_range:
  assumes "a < b" "b \<le> length (elems d)" "length (elems d) < 2 ^ 63"
  obtains d' limit' pivot hint where "pdq_prepare I d a b limit wasBalanced = Some (d', limit', pivot, hint)"
    "perm_in a b (elems d) (elems d')" "a \<le> pivot" "pivot < b"
proof -
  have "returns (if \<not> wasBalanced then do { d \<leftarrow> breakPatterns I d a b; Some (d, limit - 1) } else Some (d, limit))
    (\<lambda>(d1, _). perm_in a b (elems d) (elems d1))"
    using breakPatterns_perm [of a b d] assms by simp
  then obtain d1 limit1 where d1: "(if \<not> wasBalanced then do { d \<leftarrow> breakPatterns I d a b; Some (d, limit - 1) } else Some (d, limit)) = Some (d1, limit1)"
    "perm_in a b (elems d) (elems d1)" by (auto simp: returns_def)
  have len: "length (elems d1) = length (elems d)" by (rule perm_in_length [OF d1(2)])
  obtain pivot hint where p: "choosePivot I d1 a b = Some (pivot, hint)" "a \<le> pivot" "pivot < b"
    using choosePivot_range [of a b d1] assms len by (auto simp: returns_def)
  show ?thesis
  proof (cases "hint = decreasingHint")
    case False
    then show ?thesis using d1 p by (intro that [of d1 limit1 pivot hint]) (simp_all add: pdq_prepare_def)
  next
    case True
    obtain d2 where d2: "reverseRange I d1 a b = Some d2" "perm_in a b (elems d1) (elems d2)"
      by (rule returnsE [OF reverseRange_perm [of a b d1]]) (use assms len in simp_all)
    have "a \<le> (b - 1) - (pivot - a)" "(b - 1) - (pivot - a) < b" using p assms by linarith+
    then show ?thesis using True d1 d2 p perm_in_trans [OF d1(2) d2(2)]
      by (intro that [of d2 limit1 "(b - 1) - (pivot - a)" increasingHint]) (simp_all add: pdq_prepare_def)
  qed
qed

text \<open>One round of \<open>pdqsort\<close> on a range of more than 12 elements: it ends with a successful partial insertion sort, or goes
  on after one of the two partitions, on one or on two shorter ranges.\<close>

lemma pdqsort_round:
  assumes len: "12 < b - a" "limit \<noteq> 0" "b \<le> length (elems d)" "length (elems d) < 2 ^ 63"
  obtains (finish) d1 d' where "perm_in a b (elems d) (elems d1)" "partialInsertionSort I d1 a b = Some (d', True)"
      "pdqsort_loop I d a b limit wb wp = Some d'"
  | (same) d1 d2 d3 pivot mid limit' wb' wp' where "perm_in a b (elems d) (elems d1)"
      "d2 = d1 \<or> partialInsertionSort I d1 a b = Some (d2, False)" "a \<le> pivot" "pivot < b"
      "0 < a" "\<not> lt (elems d2 ! (a - 1)) (elems d2 ! pivot)" "equal_part (elems d2) (elems d3) (elems d2 ! pivot) a mid b"
      "pdqsort_loop I d a b limit wb wp = pdqsort_loop I d3 mid b limit' wb' wp'"
  | (parts) d1 d2 d3 mid limit' wb' wp' where "perm_in a b (elems d) (elems d1)"
      "d2 = d1 \<or> partialInsertionSort I d1 a b = Some (d2, False)" "partitioned (elems d2) (elems d3) a mid b"
      "pdqsort_loop I d a b limit wb wp =
         do { d \<leftarrow> pdqsort_loop I d3 a mid limit' True True; pdqsort_loop I d (mid + 1) b limit' wb' wp' } \<or>
       pdqsort_loop I d a b limit wb wp =
         do { d \<leftarrow> pdqsort_loop I d3 (mid + 1) b limit' True True; pdqsort_loop I d a mid limit' wb' wp' }"
proof -
  have ab: "a < b" using len by linarith
  obtain d1 limit1 pivot hint where d1: "pdq_prepare I d a b limit wb = Some (d1, limit1, pivot, hint)"
    "perm_in a b (elems d) (elems d1)" "a \<le> pivot" "pivot < b" by (rule pdq_prepare_range [OF ab len(3,4)])
  have len1: "length (elems d1) = length (elems d)" by (rule perm_in_length [OF d1(2)])
  have "returns (if wb \<and> wp \<and> hint = increasingHint then partialInsertionSort I d1 a b else Some (d1, False))
    (\<lambda>(d2, srt). length (elems d2) = length (elems d) \<and> (d2 = d1 \<and> \<not> srt \<or> partialInsertionSort I d1 a b = Some (d2, srt)))"
    using partialInsertionSort_perm [of a b d1] ab len len1 by (auto simp: returns_def perm_in_length)
  then obtain d2 srt where d2: "(if wb \<and> wp \<and> hint = increasingHint then partialInsertionSort I d1 a b else Some (d1, False)) = Some (d2, srt)"
    "length (elems d2) = length (elems d)" "d2 = d1 \<and> \<not> srt \<or> partialInsertionSort I d1 a b = Some (d2, srt)"
    by (auto simp: returns_def)
  define less where "less \<longleftrightarrow> (a > 0 \<longrightarrow> lt (elems d2 ! (a - 1)) (elems d2 ! pivot))"
  have less: "(if a > 0 then iLess I d2 (a - 1) pivot else Some True) = Some less"
    using d1(3,4) len d2(2) by (simp add: less_def Less)
  have b2: "b \<le> length (elems d2)" using len(3) d2(2) by simp
  note step = pdqsort_loop.simps [of I d a b limit wb wp, unfolded Let_def d1(1)]
  show thesis
  proof (cases srt)
    case True
    then show ?thesis using d1 d2 len by (intro finish [of d1 d2]) (simp_all add: step)
  next
    case srt: False
    show ?thesis
    proof (cases less)
      case False
      obtain d3 mid where "partitionEqual I d2 a b pivot = Some (d3, mid)" "equal_part (elems d2) (elems d3) (elems d2 ! pivot) a mid b"
        using partitionEqual_ok [OF ab b2 d1(3,4)] by (auto simp: returns_def)
      then show ?thesis using False srt d1 d2 less len by (intro same [of d1 d2 pivot d3 mid limit1 wb wp]) (simp_all add: step less_def)
    next
      case True
      obtain d3 mid al where p: "partition_range I d2 a b pivot = Some (d3, mid, al)" "partitioned (elems d2) (elems d3) a mid b"
        using partition_range_ok [OF ab b2 d1(3,4)] by (auto simp: returns_def)
      have "pdqsort_loop I d a b limit wb wp =
        (if mid - a < b - mid
         then do { d \<leftarrow> pdqsort_loop I d3 a mid limit1 True True; pdqsort_loop I d (mid + 1) b limit1 (mid - a \<ge> (b - a) div 8) al }
         else do { d \<leftarrow> pdqsort_loop I d3 (mid + 1) b limit1 True True; pdqsort_loop I d a mid limit1 (b - mid \<ge> (b - a) div 8) al })"
        using True srt d2(1) less len p(1) by (simp add: step)
      then show ?thesis using p(2) d1(2) d2(3) srt
        by (intro parts [of d1 d2 d3 mid limit1 "if mid - a < b - mid then mid - a \<ge> (b - a) div 8 else b - mid \<ge> (b - a) div 8" al]) auto
    qed
  qed
qed

lemma pdqsort_loop_short: "b - a \<le> 12 \<or> limit = 0 \<Longrightarrow>
    pdqsort_loop I d a b limit wb wp = (if b - a \<le> 12 then insertionSort I d a b else heapSort I d a b)"
  by (subst pdqsort_loop.simps) (auto simp: Let_def)

text \<open>Whatever \<open>Less\<close> answers, \<open>pdqsort\<close> returns with the elements rearranged, all below \<open>b\<close>.\<close>

lemma pdqsort_loop_perm:
  "a \<le> b \<Longrightarrow> b \<le> length (elems d) \<Longrightarrow> length (elems d) < 2 ^ 63 \<Longrightarrow>
    returns (pdqsort_loop I d a b limit wb wp) (\<lambda>d'. perm_in 0 b (elems d) (elems d'))"
proof (induction "b - a" arbitrary: a b d limit wb wp rule: less_induct)
  case less
  have IH: "returns (pdqsort_loop I e x y l u v) (\<lambda>d'. perm_in 0 b (elems d) (elems d'))"
    if "x \<le> y" "y \<le> b" "y - x < b - a" "perm_in 0 b (elems d) (elems e)" for e x y l u v
  proof -
    have "returns (pdqsort_loop I e x y l u v) (\<lambda>d'. perm_in 0 y (elems e) (elems d'))"
      using that less.prems perm_in_length [OF that(4)] by (intro less.hyps) simp_all
    then show ?thesis by (rule returns_mono) (rule perm_in_trans [OF that(4)], rule perm_in_mono, use that(2) in auto)
  qed
  have prep: "perm_in 0 b (elems d) (elems d2)"
    if "perm_in a b (elems d) (elems d1)" "d2 = d1 \<or> partialInsertionSort I d1 a b = Some (d2, r)" "a < b" for d1 d2 r
  proof -
    have p1: "perm_in 0 b (elems d) (elems d1)" by (rule perm_in_mono [OF that(1)]) simp_all
    have "returns (partialInsertionSort I d1 a b) (\<lambda>(d', _). perm_in 0 b (elems d1) (elems d'))"
      using that less.prems perm_in_length [OF p1] by (intro partialInsertionSort_perm) simp_all
    then have "perm_in 0 b (elems d1) (elems d2)" using that(2) by (auto simp: returns_def)
    with p1 show ?thesis by (rule perm_in_trans)
  qed
  show ?case
  proof (cases "b - a \<le> 12 \<or> limit = 0")
    case True
    have "returns (insertionSort I d a b) (\<lambda>d'. perm_in 0 b (elems d) (elems d'))"
      by (rule returns_mono [OF insertionSort_perm]) (use less.prems in \<open>auto intro: perm_in_mono\<close>)
    moreover have "returns (heapSort I d a b) (\<lambda>d'. perm_in 0 b (elems d) (elems d'))"
      by (rule returns_mono [OF heapSort_perm]) (use less.prems in \<open>auto intro: perm_in_mono\<close>)
    ultimately show ?thesis by (simp add: pdqsort_loop_short [OF True])
  next
    case False
    then have len: "12 < b - a" "limit \<noteq> 0" "a < b" by linarith+
    show ?thesis
    proof (rule pdqsort_round [OF len(1,2) less.prems(2,3), of wb wp])
      fix d1 d' assume "perm_in a b (elems d) (elems d1)" "partialInsertionSort I d1 a b = Some (d', True)"
        "pdqsort_loop I d a b limit wb wp = Some d'"
      then show ?thesis using prep len(3) by auto
    next
      fix d1 d2 d3 pivot mid limit' wb' wp' assume p: "perm_in a b (elems d) (elems d1)"
        "d2 = d1 \<or> partialInsertionSort I d1 a b = Some (d2, False)"
        "equal_part (elems d2) (elems d3) (elems d2 ! pivot) a mid b"
        "pdqsort_loop I d a b limit wb wp = pdqsort_loop I d3 mid b limit' wb' wp'"
      then have m: "perm_in a b (elems d2) (elems d3)" "a < mid" "mid \<le> b" by (simp_all add: equal_part_def)
      have "perm_in 0 b (elems d) (elems d3)"
        by (rule perm_in_trans [OF prep [OF p(1,2) len(3)]], rule perm_in_mono [OF m(1)]) simp_all
      then show ?thesis unfolding p(4) using m by (intro IH) simp_all
    next
      fix d1 d2 d3 mid limit' wb' wp' assume p: "perm_in a b (elems d) (elems d1)"
        "d2 = d1 \<or> partialInsertionSort I d1 a b = Some (d2, False)" "partitioned (elems d2) (elems d3) a mid b"
        and eq: "pdqsort_loop I d a b limit wb wp =
            do { d \<leftarrow> pdqsort_loop I d3 a mid limit' True True; pdqsort_loop I d (mid + 1) b limit' wb' wp' } \<or>
          pdqsort_loop I d a b limit wb wp =
            do { d \<leftarrow> pdqsort_loop I d3 (mid + 1) b limit' True True; pdqsort_loop I d a mid limit' wb' wp' }"
      then have m: "perm_in a b (elems d2) (elems d3)" "a \<le> mid" "mid < b" by (simp_all add: partitioned_def)
      have p3: "perm_in 0 b (elems d) (elems d3)"
        by (rule perm_in_trans [OF prep [OF p(1,2) len(3)]], rule perm_in_mono [OF m(1)]) simp_all
      have "returns (pdqsort_loop I d3 a mid limit' True True) (\<lambda>d4. returns (pdqsort_loop I d4 (mid + 1) b limit' wb' wp')
        (\<lambda>d'. perm_in 0 b (elems d) (elems d')))"
        by (rule returns_mono [OF IH]) (use p3 m in \<open>auto intro!: IH\<close>)
      moreover have "returns (pdqsort_loop I d3 (mid + 1) b limit' True True) (\<lambda>d4. returns (pdqsort_loop I d4 a mid limit' wb' wp')
        (\<lambda>d'. perm_in 0 b (elems d) (elems d')))"
        by (rule returns_mono [OF IH]) (use p3 m in \<open>auto intro!: IH\<close>)
      ultimately show ?thesis using eq by auto
    qed
  qed
qed

lemma Sort_perm:
  assumes "length (elems d) < 2 ^ 63"
  shows "returns (Sort I d) (\<lambda>d'. mset (elems d') = mset (elems d))"
proof -
  have "returns (pdqsort_loop I d 0 (length (elems d)) (bits_Len (length (elems d))) True True) (\<lambda>d'. perm_in 0 (length (elems d)) (elems d) (elems d'))"
    by (rule pdqsort_loop_perm) (use assms in simp_all)
  then have "returns (pdqsort_loop I d 0 (length (elems d)) (bits_Len (length (elems d))) True True) (\<lambda>d'. mset (elems d') = mset (elems d))"
    by (rule returns_mono) (rule perm_in_mset)
  then show ?thesis by (simp add: Sort_def Len pdqsort_def Let_def)
qed

end
end
