(* ===== verification/SortOrder.thy ===== *)
theory SortOrder
  imports SortBounds
begin

text \<open>
  The sorting algorithms sort.  The locale adds to \<open>collection\<close> what the documentation of \<open>Interface.Less\<close> asks for: the
  order is transitive, and so is its negation; irreflexivity makes it a strict weak order.
\<close>

locale ordered_collection = collection +
  assumes lt_irrefl: "\<not> lt x x"
    and lt_trans: "lt x y \<Longrightarrow> lt y z \<Longrightarrow> lt x z"
    and not_lt_trans: "\<not> lt x y \<Longrightarrow> \<not> lt y z \<Longrightarrow> \<not> lt x z"
begin

abbreviation le :: "'b \<Rightarrow> 'b \<Rightarrow> bool" where
  "le x y \<equiv> \<not> lt y x"

lemma le_trans': "le x y \<Longrightarrow> le y z \<Longrightarrow> le x z"
  using not_lt_trans by blast

lemma lt_le: "lt x y \<Longrightarrow> le x y"
  using lt_irrefl lt_trans by blast

lemma lt_le_trans: "lt x y \<Longrightarrow> le y z \<Longrightarrow> lt x z"
  using not_lt_trans by blast

lemma le_lt_trans: "le x y \<Longrightarrow> lt y z \<Longrightarrow> lt x z"
  using not_lt_trans by blast

definition sorted_in :: "nat \<Rightarrow> nat \<Rightarrow> 'b list \<Rightarrow> bool" where
  "sorted_in a b xs \<longleftrightarrow> (\<forall>i j. a \<le> i \<longrightarrow> i < j \<longrightarrow> j < b \<longrightarrow> le (xs ! i) (xs ! j))"

lemma sorted_in_short: "b \<le> a + 1 \<Longrightarrow> sorted_in a b xs"
  by (simp add: sorted_in_def)

lemma sorted_in_adjacent:
  assumes "\<And>k. a < k \<Longrightarrow> k < b \<Longrightarrow> le (xs ! (k - 1)) (xs ! k)"
  shows "sorted_in a b xs"
proof -
  have "le (xs ! i) (xs ! j)" if "a \<le> i" "i < j" "j < b" for i j
    using that(2,3)
  proof (induction j)
    case (Suc j)
    have s: "le (xs ! j) (xs ! Suc j)" using assms [of "Suc j"] Suc.prems that(1) by simp
    show ?case
    proof (cases "i = j")
      case False
      then have "le (xs ! i) (xs ! j)" using Suc by simp
      then show ?thesis using s by (rule le_trans')
    qed (use s in simp)
  qed simp
  then show ?thesis by (simp add: sorted_in_def)
qed

lemma sorted_in_cong:
  assumes "\<And>k. a \<le> k \<Longrightarrow> k < b \<Longrightarrow> ys ! k = xs ! k"
  shows "sorted_in a b ys \<longleftrightarrow> sorted_in a b xs"
  using assms by (auto simp: sorted_in_def)

lemma sorted_in_outside:
  assumes "perm_in a b xs ys" "y \<le> a \<or> b \<le> x" "y \<le> length xs"
  shows "sorted_in x y ys \<longleftrightarrow> sorted_in x y xs"
  by (rule sorted_in_cong) (use assms in \<open>auto intro!: perm_in_outside\<close>)

subsection \<open>Insertion\<close>

text \<open>\<open>[a, hi)\<close> is sorted except for the element at \<open>j\<close>, which is below those after it.\<close>

definition inserting :: "nat \<Rightarrow> nat \<Rightarrow> nat \<Rightarrow> 'b list \<Rightarrow> bool" where
  "inserting a j hi xs \<longleftrightarrow> (\<forall>p q. a \<le> p \<longrightarrow> p < q \<longrightarrow> q < hi \<longrightarrow> p \<noteq> j \<longrightarrow> q \<noteq> j \<longrightarrow> le (xs ! p) (xs ! q)) \<and>
     (\<forall>q. j < q \<longrightarrow> q < hi \<longrightarrow> lt (xs ! j) (xs ! q))"

lemma inserting_stop:
  assumes i: "inserting a j hi xs" and "j < hi" "a \<le> j" and s: "a < j \<Longrightarrow> le (xs ! (j - 1)) (xs ! j)"
  shows "sorted_in a hi xs"
proof -
  have "le (xs ! p) (xs ! q)" if pq: "a \<le> p" "p < q" "q < hi" for p q
  proof -
    consider "p = j" | "q = j" "p = j - 1" | "q = j" "p < j - 1" | "p \<noteq> j" "q \<noteq> j" using pq by linarith
    then show ?thesis
    proof cases
      case 1
      then show ?thesis using i pq by (auto simp: inserting_def dest: lt_le)
    next
      case 3
      then have "le (xs ! p) (xs ! (j - 1))" using i pq assms(2) by (auto simp: inserting_def)
      moreover have "le (xs ! (j - 1)) (xs ! q)" using s 3 pq by simp
      ultimately show ?thesis by (rule le_trans')
    qed (use i s pq in \<open>auto simp: inserting_def\<close>)
  qed
  then show ?thesis by (simp add: sorted_in_def)
qed

lemma inserting_swap:
  assumes i: "inserting a j hi xs" and "a < j" "j < hi" "hi \<le> length xs" and s: "lt (xs ! j) (xs ! (j - 1))"
  shows "inserting a (j - 1) hi (swap_at xs j (j - 1))"
proof -
  have nth: "swap_at xs j (j - 1) ! k = (if k = j then xs ! (j - 1) else if k = j - 1 then xs ! j else xs ! k)" if "k < hi" for k
    using assms that by (simp add: nth_swap_at)
  show ?thesis
    unfolding inserting_def
  proof (intro conjI allI impI)
    fix p q assume pq: "a \<le> p" "p < q" "q < hi" "p \<noteq> j - 1" "q \<noteq> j - 1"
    show "le (swap_at xs j (j - 1) ! p) (swap_at xs j (j - 1) ! q)"
      using i pq assms(2,3) nth [of p] nth [of q] by (auto simp: inserting_def)
  next
    fix q assume q: "j - 1 < q" "q < hi"
    show "lt (swap_at xs j (j - 1) ! (j - 1)) (swap_at xs j (j - 1) ! q)"
      using i q assms(2,3) s nth [of q] nth [of "j - 1"] by (auto simp: inserting_def)
  qed
qed

lemma insert_back_sorted:
  "inserting a j hi (elems d) \<Longrightarrow> a \<le> j \<Longrightarrow> j < hi \<Longrightarrow> hi \<le> length (elems d) \<Longrightarrow>
    returns (insert_back I a d j) (\<lambda>d'. sorted_in a hi (elems d'))"
proof (induction j arbitrary: d)
  case 0
  then show ?case using inserting_stop [OF 0(1)] by (subst insert_back.simps) simp
next
  case (Suc j)
  show ?case
  proof (cases "a < Suc j \<and> lt (elems d ! Suc j) (elems d ! j)")
    case True
    obtain d1 where d1: "iSwap I d (Suc j) j = Some d1" "elems d1 = swap_at (elems d) (Suc j) j"
      by (rule swapE [of a "Suc j" hi j d]) (use Suc.prems True in simp_all)
    have "inserting a j hi (elems d1)" using inserting_swap [OF Suc.prems(1)] Suc.prems True d1(2) by simp
    then have "returns (insert_back I a d1 j) (\<lambda>d'. sorted_in a hi (elems d'))"
      using Suc.prems True d1(2) by (intro Suc.IH) simp_all
    then show ?thesis using True Suc.prems d1(1) by (subst insert_back.simps) (simp add: Less)
  next
    case False
    then have "sorted_in a hi (elems d)" using inserting_stop [OF Suc.prems(1)] Suc.prems by auto
    then show ?thesis using False Suc.prems by (subst insert_back.simps) (auto simp: Less)
  qed
qed

lemma insertion_loop_sorted:
  "sorted_in a i (elems d) \<Longrightarrow> a \<le> i \<Longrightarrow> b \<le> length (elems d) \<Longrightarrow>
    returns (insertion_loop I a b d i) (\<lambda>d'. sorted_in a b (elems d'))"
proof (induction "b - i" arbitrary: i d)
  case 0
  then show ?case by (subst insertion_loop.simps) (auto simp: sorted_in_def)
next
  case (Suc n)
  have "inserting a i (i + 1) (elems d)" using Suc.prems(1) by (auto simp: inserting_def sorted_in_def less_Suc_eq)
  from insert_back_sorted [OF this] Suc
  have 1: "returns (insert_back I a d i) (\<lambda>d1. sorted_in a (i + 1) (elems d1))" by simp
  have 2: "returns (insert_back I a d i) (\<lambda>d1. perm_in a b (elems d) (elems d1))"
    using Suc by (intro insert_back_perm) simp_all
  have "returns (insert_back I a d i) (\<lambda>d1. returns (insertion_loop I a b d1 (i + 1)) (\<lambda>d'. sorted_in a b (elems d')))"
    by (rule returns_mono [OF returns_conj [OF 1 2]])
      (use Suc in \<open>auto intro!: Suc.hyps(1) simp: perm_in_length\<close>)
  moreover have "i < b" using Suc.hyps(2) by simp
  ultimately show ?case by (subst insertion_loop.simps) simp
qed

lemma insertionSort_sorted: "b \<le> length (elems d) \<Longrightarrow> returns (insertionSort I d a b) (\<lambda>d'. sorted_in a b (elems d'))"
  unfolding insertionSort_def by (rule insertion_loop_sorted) (simp_all add: sorted_in_short)

subsection \<open>Heap sort\<close>

text \<open>A heap with the greatest element at the top, in the range of \<open>n\<close> elements from \<open>f\<close>: below nodes from \<open>l\<close> on, and
  the same except between \<open>root\<close> and its children.\<close>

definition max_heap :: "nat \<Rightarrow> nat \<Rightarrow> nat \<Rightarrow> 'b list \<Rightarrow> bool" where
  "max_heap f l n xs \<longleftrightarrow> (\<forall>c<n. 0 < c \<longrightarrow> l \<le> parent c \<longrightarrow> le (xs ! (f + c)) (xs ! (f + parent c)))"

definition max_heap_but :: "nat \<Rightarrow> nat \<Rightarrow> nat \<Rightarrow> nat \<Rightarrow> 'b list \<Rightarrow> bool" where
  "max_heap_but f l n root xs \<longleftrightarrow>
     (\<forall>c<n. 0 < c \<longrightarrow> l \<le> parent c \<longrightarrow> parent c \<noteq> root \<longrightarrow> le (xs ! (f + c)) (xs ! (f + parent c))) \<and>
     (\<forall>c<n. 0 < c \<longrightarrow> 0 < root \<longrightarrow> l \<le> parent root \<longrightarrow> parent c = root \<longrightarrow> le (xs ! (f + c)) (xs ! (f + parent root)))"

lemma max_heap_stop:
  assumes "max_heap_but f l n root xs" "\<And>c. c < n \<Longrightarrow> 0 < c \<Longrightarrow> parent c = root \<Longrightarrow> le (xs ! (f + c)) (xs ! (f + root))"
  shows "max_heap f l n xs"
  unfolding max_heap_def
proof (intro allI impI)
  fix c assume c: "c < n" "0 < c" "l \<le> parent c"
  show "le (xs ! (f + c)) (xs ! (f + parent c))"
  proof (cases "parent c = root")
    case True
    then show ?thesis using assms(2) [OF c(1,2)] by simp
  next
    case False
    then show ?thesis using assms(1) c unfolding max_heap_but_def by blast
  qed
qed

lemma max_heap_swap:
  assumes h: "max_heap_but f l n root xs" and lr: "l \<le> root" and ch: "child < n" "0 < child" "parent child = root"
    and len: "f + n \<le> length xs" and lt: "lt (xs ! (f + root)) (xs ! (f + child))"
    and great: "\<And>c. c < n \<Longrightarrow> 0 < c \<Longrightarrow> parent c = root \<Longrightarrow> le (xs ! (f + c)) (xs ! (f + child))"
  shows "max_heap_but f l n child (swap_at xs (f + root) (f + child))"
proof -
  have rc: "root < child" using ch(2,3) parent_less by blast
  have nth: "swap_at xs (f + root) (f + child) ! (f + k) =
      (if k = root then xs ! (f + child) else if k = child then xs ! (f + root) else xs ! (f + k))" if "k < n" for k
    using that ch(1) rc len by (simp add: nth_swap_at)
  show ?thesis
    unfolding max_heap_but_def
  proof (intro conjI allI impI)
    fix c assume c: "c < n" "0 < c" "l \<le> parent c" "parent c \<noteq> child"
    have pc: "parent c < n" "parent c < c" using c(1) parent_less [OF c(2)] by simp_all
    consider "parent c = root" "c = child" | "parent c = root" "c \<noteq> child" "c \<noteq> root" | "parent c \<noteq> root" "c = root"
      | "parent c \<noteq> root" "c \<noteq> root" "c \<noteq> child"
      using ch(3) pc(2) by (metis less_irrefl)
    then show "le (swap_at xs (f + root) (f + child) ! (f + c)) (swap_at xs (f + root) (f + child) ! (f + parent c))"
    proof cases
      case 1
      then show ?thesis using nth [OF c(1)] nth [OF pc(1)] lt rc by (auto dest: lt_le)
    next
      case 2
      then show ?thesis using nth [OF c(1)] nth [OF pc(1)] great [OF c(1,2)] by simp
    next
      case 3
      then have "le (xs ! (f + child)) (xs ! (f + parent root))" using h ch c unfolding max_heap_but_def by blast
      then show ?thesis using 3 nth [OF c(1)] nth [OF pc(1)] c(4) by simp
    next
      case 4
      then have "le (xs ! (f + c)) (xs ! (f + parent c))" using h c unfolding max_heap_but_def by blast
      then show ?thesis using 4 nth [OF c(1)] nth [OF pc(1)] c(4) by simp
    qed
  next
    fix c assume c: "c < n" "0 < c" "0 < child" "l \<le> parent child" "parent c = child"
    have "child < c" using parent_less [OF c(2)] c(5) by simp
    then have ne: "c \<noteq> root" "c \<noteq> child" using rc by simp_all
    have "le (xs ! (f + c)) (xs ! (f + child))" using h c rc lr unfolding max_heap_but_def by (metis less_irrefl order_trans less_imp_le)
    then show "le (swap_at xs (f + root) (f + child) ! (f + c)) (swap_at xs (f + root) (f + child) ! (f + parent child))"
      using ne nth [OF c(1)] nth [of root] ch rc by simp
  qed
qed

lemma siftDown_heap:
  "max_heap_but first l hi root (elems d) \<Longrightarrow> l \<le> root \<Longrightarrow> first + hi \<le> length (elems d) \<Longrightarrow>
    returns (siftDown I hi first d root) (\<lambda>d'. max_heap first l hi (elems d'))"
proof (induction "hi - root" arbitrary: root d rule: less_induct)
  case less
  show ?case
  proof (cases "2 * root + 1 \<ge> hi")
    case True
    then have "max_heap first l hi (elems d)" by (intro max_heap_stop [OF less.prems(1)]) (auto simp: parent_iff)
    then show ?thesis using True by (subst siftDown.simps) simp
  next
    case False
    define b where "b \<longleftrightarrow> 2 * root + 2 < hi \<and> lt (elems d ! (first + (2 * root + 1))) (elems d ! (first + (2 * root + 1) + 1))"
    define child where "child = (if b then 2 * root + 2 else 2 * root + 1)"
    have c: "root < child" "child < hi" "0 < child" "parent child = root" using False by (auto simp: child_def b_def)
    have great: "le (elems d ! (first + c)) (elems d ! (first + child))" if "c < hi" "0 < c" "parent c = root" for c
    proof -
      have "c = 2 * root + 1 \<or> c = 2 * root + 2" using that parent_iff by blast
      then show ?thesis using that(1) lt_irrefl by (auto simp: child_def b_def dest: lt_le)
    qed
    have eq: "siftDown I hi first d root =
      (if \<not> lt (elems d ! (first + root)) (elems d ! (first + child)) then Some d
       else iSwap I d (first + root) (first + child) \<bind> (\<lambda>d. siftDown I hi first d child))"
      using False less.prems by (subst siftDown.simps) (simp add: Less Let_def child_def b_def)
    show ?thesis
    proof (cases "lt (elems d ! (first + root)) (elems d ! (first + child))")
      case False
      have "max_heap first l hi (elems d)"
        by (rule max_heap_stop [OF less.prems(1)], rule le_trans' [OF great False])
      then show ?thesis using False by (simp add: eq)
    next
      case True
      obtain d1 where d1: "iSwap I d (first + root) (first + child) = Some d1" "elems d1 = swap_at (elems d) (first + root) (first + child)"
        by (rule swapE [of first "first + root" "first + hi" "first + child" d]) (use c less.prems in simp_all)
      have "max_heap_but first l hi child (elems d1)"
        unfolding d1(2) by (rule max_heap_swap [OF less.prems(1,2) c(2-4) less.prems(3) True great])
      then have "returns (siftDown I hi first d1 child) (\<lambda>d'. max_heap first l hi (elems d'))"
        using c less.prems d1(2) by (intro less.hyps) simp_all
      then show ?thesis using True d1(1) by (simp add: eq)
    qed
  qed
qed

lemma max_heap_root: "max_heap f 0 n xs \<Longrightarrow> c < n \<Longrightarrow> le (xs ! (f + c)) (xs ! f)"
proof (induction c rule: less_induct)
  case (less c)
  show ?case
  proof (cases "c = 0")
    case True
    then show ?thesis using lt_irrefl by simp
  next
    case False
    then have "parent c < c" by simp
    then have "le (xs ! (f + parent c)) (xs ! f)" using less by simp
    with _ show ?thesis by (rule le_trans') (use False less.prems in \<open>simp add: max_heap_def\<close>)
  qed
qed

lemma heap_build_heap:
  "max_heap first k hi (elems d) \<Longrightarrow> first + hi \<le> length (elems d) \<Longrightarrow>
    returns (heap_build I hi first d k) (\<lambda>d'. max_heap first 0 hi (elems d'))"
proof (induction k arbitrary: d)
  case (Suc i)
  have "max_heap_but first i hi i (elems d)" using Suc.prems(1) by (auto simp: max_heap_def max_heap_but_def)
  then have 1: "returns (siftDown I hi first d i) (\<lambda>d1. max_heap first i hi (elems d1))"
    using Suc.prems(2) by (intro siftDown_heap) simp_all
  have 2: "returns (siftDown I hi first d i) (\<lambda>d1. perm_in (first + i) (first + hi) (elems d) (elems d1))"
    using Suc.prems(2) by (rule siftDown_perm)
  have "returns (siftDown I hi first d i) (\<lambda>d1. returns (heap_build I hi first d1 i) (\<lambda>d'. max_heap first 0 hi (elems d')))"
    by (rule returns_mono [OF returns_conj [OF 1 2]]) (use Suc in \<open>auto intro!: Suc.IH simp: perm_in_length\<close>)
  then show ?case by simp
qed simp

text \<open>The heap of \<open>k\<close> elements, all below the sorted ones that follow.\<close>

definition heap_and_sorted :: "nat \<Rightarrow> nat \<Rightarrow> nat \<Rightarrow> 'b list \<Rightarrow> bool" where
  "heap_and_sorted f k n xs \<longleftrightarrow> max_heap f 0 k xs \<and> sorted_in (f + k) (f + n) xs \<and>
     (\<forall>p q. f \<le> p \<longrightarrow> p < f + k \<longrightarrow> f + k \<le> q \<longrightarrow> q < f + n \<longrightarrow> le (xs ! p) (xs ! q))"

lemma heap_pop_step:
  assumes h: "heap_and_sorted f (Suc i) n xs" and i: "i < n" "f + n \<le> length xs"
    and s: "ys = swap_at xs f (f + i)" and z: "max_heap f 0 i zs" "perm_in f (f + i) ys zs"
  shows "heap_and_sorted f i n zs"
proof -
  have ynth: "ys ! k = (if k = f then xs ! (f + i) else if k = f + i then xs ! f else xs ! k)" if "k < f + n" for k
    using that i by (simp add: s nth_swap_at)
  have out: "zs ! k = ys ! k" if "f + i \<le> k" "k < f + n" for k
    using perm_in_outside [OF z(2), of k] that i by (simp add: s)
  have max: "le (xs ! k) (xs ! f)" if "f \<le> k" "k \<le> f + i" for k
    using max_heap_root [of f "Suc i" xs "k - f"] h that by (simp add: heap_and_sorted_def)
  have top: "zs ! (f + i) = xs ! f" using out [of "f + i"] ynth [of "f + i"] i by auto
  have rest: "zs ! k = xs ! k" if "f + i < k" "k < f + n" for k using out [of k] ynth [of k] that by simp
  have low: "le (zs ! p) (xs ! f)" if "f \<le> p" "p < f + i" for p
  proof -
    have "le (ys ! k) (xs ! f)" if "f \<le> k" "k < f + i" for k using ynth [of k] max [of k] max [of "f + i"] that i by auto
    from perm_in_all [where P = "\<lambda>y. le y (xs ! f)", OF z(2) _ this that] show ?thesis using i by (simp add: s)
  qed
  have above: "le (xs ! f) (zs ! q)" if "f + i \<le> q" "q < f + n" for q
  proof (cases "q = f + i")
    case True
    then show ?thesis by (simp add: top lt_irrefl)
  next
    case False
    then show ?thesis using rest [of q] h that by (simp add: heap_and_sorted_def)
  qed
  have "sorted_in (f + i) (f + n) zs"
    unfolding sorted_in_def
  proof (intro allI impI)
    fix p q assume pq: "f + i \<le> p" "p < q" "q < f + n"
    show "le (zs ! p) (zs ! q)"
    proof (cases "p = f + i")
      case True
      then show ?thesis using above [of q] pq by (simp add: top)
    next
      case False
      then show ?thesis using rest [of p] rest [of q] h pq by (simp add: heap_and_sorted_def sorted_in_def)
    qed
  qed
  moreover have "le (zs ! p) (zs ! q)" if "f \<le> p" "p < f + i" "f + i \<le> q" "q < f + n" for p q
    by (rule le_trans' [OF low [OF that(1,2)] above [OF that(3,4)]])
  ultimately show ?thesis using z(1) by (simp add: heap_and_sorted_def)
qed

lemma heap_pop_sorted:
  "heap_and_sorted first k n (elems d) \<Longrightarrow> k \<le> n \<Longrightarrow> first + n \<le> length (elems d) \<Longrightarrow>
    returns (heap_pop I 0 first d k) (\<lambda>d'. sorted_in first (first + n) (elems d'))"
proof (induction k arbitrary: d)
  case 0
  then show ?case by (simp add: heap_and_sorted_def)
next
  case (Suc i)
  obtain d1 where d1: "iSwap I d first (first + i) = Some d1" "elems d1 = swap_at (elems d) first (first + i)"
    by (rule swapE [of first first "first + n" "first + i" d]) (use Suc.prems in simp_all)
  have top: "max_heap first 0 (Suc i) (elems d)" using Suc.prems(1) by (simp add: heap_and_sorted_def)
  have "max_heap_but first 0 i 0 (elems d1)"
    unfolding max_heap_but_def
  proof (intro conjI allI impI)
    fix c assume c: "c < i" "0 < c" "parent c \<noteq> 0"
    have "parent c < c" using c(2) by (rule parent_less)
    then have "elems d1 ! (first + c) = elems d ! (first + c)" "elems d1 ! (first + parent c) = elems d ! (first + parent c)"
      using c Suc.prems by (simp_all add: d1(2) nth_swap_at)
    then show "le (elems d1 ! (first + c)) (elems d1 ! (first + parent c))" using top c by (simp add: max_heap_def)
  qed simp
  then have 1: "returns (siftDown I i first d1 0) (\<lambda>d2. max_heap first 0 i (elems d2))"
    using Suc.prems d1(2) by (intro siftDown_heap) simp_all
  have 2: "returns (siftDown I i first d1 0) (\<lambda>d2. perm_in (first + 0) (first + i) (elems d1) (elems d2))"
    using Suc.prems d1(2) by (intro siftDown_perm) simp
  have "returns (siftDown I i first d1 0) (\<lambda>d2. returns (heap_pop I 0 first d2 i) (\<lambda>d'. sorted_in first (first + n) (elems d')))"
  proof (rule returns_mono [OF returns_conj [OF 1 2]], elim conjE)
    fix d2 assume d2: "max_heap first 0 i (elems d2)" "perm_in (first + 0) (first + i) (elems d1) (elems d2)"
    have "heap_and_sorted first i n (elems d2)"
      using heap_pop_step [OF Suc.prems(1) _ Suc.prems(3) d1(2) d2(1)] d2(2) Suc.prems(2) by simp
    then show "returns (heap_pop I 0 first d2 i) (\<lambda>d'. sorted_in first (first + n) (elems d'))"
      using Suc.prems d1(2) perm_in_length [OF d2(2)] by (intro Suc.IH) simp_all
  qed
  then show ?case using d1(1) by simp
qed

lemma heapSort_sorted:
  assumes "a \<le> b" "b \<le> length (elems d)"
  shows "returns (heapSort I d a b) (\<lambda>d'. sorted_in a b (elems d'))"
proof -
  define n where "n = b - a"
  have n: "a + n = b" using assms by (simp add: n_def)
  have "max_heap a ((n - 1) div 2 + 1) n (elems d)" by (auto simp: max_heap_def)
  then have 1: "returns (heap_build I n a d ((n - 1) div 2 + 1)) (\<lambda>d1. max_heap a 0 n (elems d1))"
    using n assms by (intro heap_build_heap) simp_all
  have 2: "returns (heap_build I n a d ((n - 1) div 2 + 1)) (\<lambda>d1. perm_in a (a + n) (elems d) (elems d1))"
    using n assms by (intro heap_build_perm) simp_all
  have "returns (heap_build I n a d ((n - 1) div 2 + 1)) (\<lambda>d1. returns (heap_pop I 0 a d1 n) (\<lambda>d'. sorted_in a (a + n) (elems d')))"
  proof (rule returns_mono [OF returns_conj [OF 1 2]], elim conjE)
    fix d1 assume d1: "max_heap a 0 n (elems d1)" "perm_in a (a + n) (elems d) (elems d1)"
    then have "heap_and_sorted a n n (elems d1)" by (simp add: heap_and_sorted_def sorted_in_def)
    then show "returns (heap_pop I 0 a d1 n) (\<lambda>d'. sorted_in a (a + n) (elems d'))"
      using perm_in_length [OF d1(2)] n assms by (intro heap_pop_sorted) simp_all
  qed
  then show ?thesis unfolding heapSort_def Let_def returns_bind n_def [symmetric] n .
qed

subsection \<open>Partial insertion sort\<close>

text \<open>The element before the range is a lower bound: what \<open>pdqsort\<close> knows about its ranges.\<close>

definition bounded_below :: "nat \<Rightarrow> nat \<Rightarrow> 'b list \<Rightarrow> bool" where
  "bounded_below a b xs \<longleftrightarrow> a = 0 \<or> (\<forall>k. a \<le> k \<longrightarrow> k < b \<longrightarrow> le (xs ! (a - 1)) (xs ! k))"

lemma bounded_below_perm:
  assumes "perm_in a b xs ys" "b \<le> length xs" "bounded_below a b xs"
  shows "bounded_below a b ys"
proof (cases "a = 0 \<or> b \<le> a")
  case False
  then have o: "ys ! (a - 1) = xs ! (a - 1)" using assms(2) by (intro perm_in_outside [OF assms(1)]) linarith+
  have "le (xs ! (a - 1)) (ys ! k)" if "a \<le> k" "k < b" for k
    by (rule perm_in_all [where P = "le (xs ! (a - 1))", OF assms(1,2) _ that]) (use assms(3) False in \<open>auto simp: bounded_below_def\<close>)
  then show ?thesis unfolding bounded_below_def o by blast
qed (auto simp: bounded_below_def)

text \<open>Then \<open>shift_left\<close> does not leave the range, and is the insertion of insertion sort.\<close>

lemma shift_left_insert_back:
  "bounded_below a b (elems d) \<Longrightarrow> a \<le> j \<Longrightarrow> j < b \<Longrightarrow> b \<le> length (elems d) \<Longrightarrow> shift_left I d j = insert_back I a d j"
proof (induction j arbitrary: d)
  case 0
  then show ?case by (simp add: shift_left.simps insert_back.simps)
next
  case (Suc j)
  show ?case
  proof (cases "a < Suc j")
    case False
    then have "\<not> lt (elems d ! Suc j) (elems d ! j)" using Suc.prems by (auto simp: bounded_below_def)
    then show ?thesis using Suc.prems False by (subst shift_left.simps, subst insert_back.simps) (simp add: Less)
  next
    case True
    obtain d1 where d1: "iSwap I d (Suc j) j = Some d1" "perm_in a b (elems d) (elems d1)" "length (elems d1) = length (elems d)"
      by (rule swapE [of a "Suc j" b j d]) (use True Suc.prems in simp_all)
    have "shift_left I d1 j = insert_back I a d1 j"
      using bounded_below_perm [OF d1(2)] Suc.prems True d1(3) by (intro Suc.IH) simp_all
    then show ?thesis using Suc.prems True d1(1) by (subst shift_left.simps, subst insert_back.simps) (simp add: Less)
  qed
qed

lemma partial_rounds_sorted:
  "sorted_in a i (elems d) \<Longrightarrow> bounded_below a b (elems d) \<Longrightarrow> a < i \<Longrightarrow> i \<le> b \<Longrightarrow> b \<le> length (elems d) \<Longrightarrow>
    returns (partial_rounds I a b d i k) (\<lambda>(d', s). perm_in a b (elems d) (elems d') \<and> (s \<longrightarrow> sorted_in a b (elems d')))"
proof (induction k arbitrary: i d)
  case (Suc k)
  obtain i1 where i1: "scan_sorted I d b i = Some i1" "i \<le> i1" "i1 \<le> b"
    "\<And>k. i \<le> k \<Longrightarrow> k < i1 \<Longrightarrow> \<not> lt (elems d ! k) (elems d ! (k - 1))"
    by (rule returnsE [OF scan_sorted_range [of i b d]]) (use Suc.prems in auto)
  have s1: "sorted_in a i1 (elems d)"
  proof (rule sorted_in_adjacent)
    fix k assume "a < k" "k < i1"
    then show "le (elems d ! (k - 1)) (elems d ! k)"
      using i1(4) [of k] Suc.prems(1) by (cases "k < i") (auto simp: sorted_in_def)
  qed
  show ?case
  proof (cases "i1 = b \<or> b - a < 50")
    case True
    then show ?thesis using i1(1) s1 by auto
  next
    case False
    then have i1b: "a < i1" "i1 < b" using i1 Suc.prems by simp_all
    obtain d1 where d1: "iSwap I d i1 (i1 - 1) = Some d1" "elems d1 = swap_at (elems d) i1 (i1 - 1)"
      "perm_in a b (elems d) (elems d1)" "length (elems d1) = length (elems d)"
      by (rule swapE [of a i1 b "i1 - 1" d]) (use i1b Suc.prems in simp_all)
    have ins: "inserting a (i1 - 1) i1 (elems d1)"
      using s1 Suc.prems i1b by (auto simp: inserting_def sorted_in_def d1(2) nth_swap_at)
    have bb1: "bounded_below a b (elems d1)" by (rule bounded_below_perm [OF d1(3) Suc.prems(5,2)])
    have "returns (if 2 \<le> i1 - a then shift_left I d1 (i1 - 1) else Some d1)
      (\<lambda>d2. sorted_in a i1 (elems d2) \<and> perm_in a b (elems d) (elems d2))"
    proof (cases "2 \<le> i1 - a")
      case True
      have e: "shift_left I d1 (i1 - 1) = insert_back I a d1 (i1 - 1)"
        by (rule shift_left_insert_back [OF bb1]) (use i1b Suc.prems d1(4) in simp_all)
      have "returns (insert_back I a d1 (i1 - 1)) (\<lambda>d2. sorted_in a i1 (elems d2))"
        by (rule insert_back_sorted [OF ins]) (use i1b Suc.prems d1(4) in simp_all)
      moreover have "returns (insert_back I a d1 (i1 - 1)) (\<lambda>d2. perm_in a b (elems d) (elems d2))"
        by (rule perm_step [OF insert_back_perm d1(3)]) (use i1b Suc.prems d1(4) in simp_all)
      ultimately have "returns (insert_back I a d1 (i1 - 1)) (\<lambda>d2. sorted_in a i1 (elems d2) \<and> perm_in a b (elems d) (elems d2))"
        by (rule returns_conj)
      then show ?thesis using True unfolding e by simp
    next
      case False
      then show ?thesis using d1(3) sorted_in_short [of i1 a] by simp
    qed
    then obtain d2 where d2: "(if 2 \<le> i1 - a then shift_left I d1 (i1 - 1) else Some d1) = Some d2"
      "sorted_in a i1 (elems d2)" "perm_in a b (elems d) (elems d2)" by (auto simp: returns_def)
    have len2: "length (elems d2) = length (elems d)" by (rule perm_in_length [OF d2(3)])
    have "returns (if 2 \<le> b - i1 then shift_right I b d2 (i1 + 1) else Some d2) (\<lambda>d3. perm_in i1 b (elems d2) (elems d3))"
      using shift_right_perm [of i1 "i1 + 1" b d2] len2 Suc.prems by simp
    then obtain d3 where d3: "(if 2 \<le> b - i1 then shift_right I b d2 (i1 + 1) else Some d2) = Some d3"
      "perm_in i1 b (elems d2) (elems d3)" by (auto simp: returns_def)
    have p3: "perm_in a b (elems d) (elems d3)"
      by (rule perm_in_trans [OF d2(3)], rule perm_in_mono [OF d3(2)]) (use i1b in simp_all)
    have "sorted_in a i1 (elems d3)"
      using d2(2) sorted_in_outside [OF d3(2), of i1 a] i1b len2 Suc.prems by simp
    then have "returns (partial_rounds I a b d3 i1 k) (\<lambda>(d', s). perm_in a b (elems d3) (elems d') \<and> (s \<longrightarrow> sorted_in a b (elems d')))"
      using bounded_below_perm [OF p3 Suc.prems(5,2)] i1b Suc.prems perm_in_length [OF p3] by (intro Suc.IH) simp_all
    then have "returns (partial_rounds I a b d3 i1 k) (\<lambda>(d', s). perm_in a b (elems d) (elems d') \<and> (s \<longrightarrow> sorted_in a b (elems d')))"
      by (rule returns_mono2) (blast intro: perm_in_trans [OF p3])
    then show ?thesis using False i1(1) d1(1) d2(1) d3(1) by simp
  qed
qed simp

lemma partialInsertionSort_sorted:
  "bounded_below a b (elems d) \<Longrightarrow> a < b \<Longrightarrow> b \<le> length (elems d) \<Longrightarrow>
    returns (partialInsertionSort I d a b) (\<lambda>(d', s). perm_in a b (elems d) (elems d') \<and> (s \<longrightarrow> sorted_in a b (elems d')))"
  unfolding partialInsertionSort_def by (rule partial_rounds_sorted) (simp_all add: sorted_in_short)

subsection \<open>Pattern-defeating quicksort\<close>

lemma sorted_in_glue:
  assumes "sorted_in a mid xs" "sorted_in (mid + 1) b xs" "a \<le> mid" "mid < b"
    and lo: "\<And>k. a \<le> k \<Longrightarrow> k < mid \<Longrightarrow> le (xs ! k) (xs ! mid)" and hi: "\<And>k. mid < k \<Longrightarrow> k < b \<Longrightarrow> le (xs ! mid) (xs ! k)"
  shows "sorted_in a b xs"
  unfolding sorted_in_def
proof (intro allI impI)
  fix i j assume ij: "a \<le> i" "i < j" "j < b"
  consider "j < mid" | "j = mid" | "i = mid" | "mid < i" | "i < mid" "mid < j" using ij by linarith
  then show "le (xs ! i) (xs ! j)"
  proof cases
    case 5
    show ?thesis by (rule le_trans' [OF lo [OF ij(1) 5(1)] hi [OF 5(2) ij(3)]])
  qed (use assms ij in \<open>auto simp: sorted_in_def\<close>)
qed

text \<open>The two parts of a partition, sorted one after the other in any order.\<close>

lemma partitioned_sorted:
  assumes p: "partitioned xs ys a mid b" and len: "b \<le> length xs"
    and q: "perm_in a mid ys zs" "sorted_in a mid zs" and r: "perm_in (mid + 1) b zs ws" "sorted_in (mid + 1) b ws"
  shows "perm_in a b xs ws" "sorted_in a b ws"
proof -
  have m: "perm_in a b xs ys" "a \<le> mid" "mid < b" using p by (simp_all add: partitioned_def)
  have l: "length ys = length xs" "length zs = length xs" using perm_in_length [OF m(1)] perm_in_length [OF q(1)] by simp_all
  have "perm_in a b xs zs" by (rule perm_in_trans [OF m(1)], rule perm_in_mono [OF q(1)]) (use m in simp_all)
  then show "perm_in a b xs ws" by (rule perm_in_trans, intro perm_in_mono [OF r(1)]) (use m in simp_all)
  have mid: "ws ! mid = ys ! mid"
    using perm_in_outside [OF q(1), of mid] perm_in_outside [OF r(1), of mid] l m len by simp
  have lo: "le (ws ! k) (ws ! mid)" if "a \<le> k" "k < mid" for k
  proof -
    have "le (zs ! k) (ys ! mid)"
      by (rule perm_in_all [where P = "\<lambda>x. le x (ys ! mid)", OF q(1) _ _ that])
        (use p l m len in \<open>auto simp: partitioned_def dest: lt_le\<close>)
    then show ?thesis using perm_in_outside [OF r(1), of k] l that m len by (simp add: mid)
  qed
  have hi: "le (ws ! mid) (ws ! k)" if "mid < k" "k < b" for k
  proof -
    have "le (ys ! mid) (zs ! k)" if "mid + 1 \<le> k" "k < b" for k
      using perm_in_outside [OF q(1), of k] that p l len by (simp add: partitioned_def)
    from perm_in_all [where P = "le (ys ! mid)", OF r(1) _ this] that show ?thesis using l len by (simp add: mid)
  qed
  have "sorted_in a mid ws" using sorted_in_outside [OF r(1), of mid a] q(2) l m len by simp
  then show "sorted_in a b ws" by (rule sorted_in_glue [OF _ r(2) m(2,3) lo hi])
qed

text \<open>With the other order of the two parts the range \<open>[mid + 1, b)\<close> is sorted first.\<close>

lemma partitioned_sorted':
  assumes p: "partitioned xs ys a mid b" and len: "b \<le> length xs"
    and q: "perm_in (mid + 1) b ys zs" "sorted_in (mid + 1) b zs" and r: "perm_in a mid zs ws" "sorted_in a mid ws"
  shows "perm_in a b xs ws" "sorted_in a b ws"
proof -
  have m: "perm_in a b xs ys" "a \<le> mid" "mid < b" using p by (simp_all add: partitioned_def)
  have l: "length ys = length xs" "length zs = length xs" using perm_in_length [OF m(1)] perm_in_length [OF q(1)] by simp_all
  have "perm_in a b xs zs" by (rule perm_in_trans [OF m(1)], rule perm_in_mono [OF q(1)]) (use m in simp_all)
  then show "perm_in a b xs ws" by (rule perm_in_trans, intro perm_in_mono [OF r(1)]) (use m in simp_all)
  have mid: "ws ! mid = ys ! mid"
    using perm_in_outside [OF q(1), of mid] perm_in_outside [OF r(1), of mid] l m len by simp
  have lo: "le (ws ! k) (ws ! mid)" if "a \<le> k" "k < mid" for k
  proof -
    have "le (zs ! k) (ys ! mid)" if "a \<le> k" "k < mid" for k
      using perm_in_outside [OF q(1), of k] that p l m len by (auto simp: partitioned_def dest: lt_le)
    from perm_in_all [where P = "\<lambda>x. le x (ys ! mid)", OF r(1) _ this that] show ?thesis using l m len by (simp add: mid)
  qed
  have hi: "le (ws ! mid) (ws ! k)" if "mid < k" "k < b" for k
  proof -
    have "le (ys ! mid) (zs ! k)"
      by (rule perm_in_all [where P = "le (ys ! mid)", OF q(1)]) (use p l m len that in \<open>auto simp: partitioned_def\<close>)
    then show ?thesis using perm_in_outside [OF r(1), of k] l that m len by (simp add: mid)
  qed
  have "sorted_in (mid + 1) b ws" using sorted_in_outside [OF r(1), of b "mid + 1"] q(2) l m len by simp
  then show "sorted_in a b ws" by (rule sorted_in_glue [OF r(2) _ m(2,3) lo hi])
qed

text \<open>After \<open>partitionEqual\<close> the lower part is done, when the pivot is not above the element before the range.\<close>

lemma equal_part_cross:
  assumes e: "equal_part xs ys p a mid b" and len: "b \<le> length xs" and bb: "bounded_below a b xs" and a: "0 < a" "le p (xs ! (a - 1))"
    and ij: "a \<le> i" "i < mid" "i \<le> j" "j < b"
  shows "le (ys ! i) (ys ! j)"
proof -
  have m: "perm_in a b xs ys" "ys ! a = p" using e by (simp_all add: equal_part_def)
  have "le (xs ! (a - 1)) (ys ! j)"
    by (rule perm_in_all [where P = "le (xs ! (a - 1))", OF m(1) len]) (use bb a ij in \<open>auto simp: bounded_below_def\<close>)
  then have "le p (ys ! j)" by (rule le_trans' [OF a(2)])
  moreover have "le (ys ! i) p" using e ij lt_irrefl by (cases "i = a") (auto simp: equal_part_def)
  ultimately show ?thesis using le_trans' by blast
qed

lemma bounded_below_equal:
  assumes "equal_part xs ys p a mid b" "b \<le> length xs" "bounded_below a b xs" "0 < a" "le p (xs ! (a - 1))"
  shows "bounded_below mid b ys"
  using equal_part_cross [OF assms, of "mid - 1"] assms(1) by (auto simp: bounded_below_def equal_part_def)

lemma equal_part_sorted:
  assumes e: "equal_part xs ys p a mid b" and len: "b \<le> length xs" and bb: "bounded_below a b xs" and a: "0 < a" "le p (xs ! (a - 1))"
    and q: "perm_in mid b ys zs" "sorted_in mid b zs"
  shows "perm_in a b xs zs" "sorted_in a b zs"
proof -
  have m: "perm_in a b xs ys" "a < mid" "mid \<le> b" using e by (simp_all add: equal_part_def)
  have l: "length ys = length xs" using perm_in_length [OF m(1)] by simp
  note cross = equal_part_cross [OF e len bb a]
  show pz: "perm_in a b xs zs" by (rule perm_in_trans [OF m(1)], rule perm_in_mono [OF q(1)]) (use m in simp_all)
  show "sorted_in a b zs"
    unfolding sorted_in_def
  proof (intro allI impI)
    fix i j assume ij: "a \<le> i" "i < j" "j < b"
    show "le (zs ! i) (zs ! j)"
    proof (cases "i < mid")
      case True
      have i: "zs ! i = ys ! i" using perm_in_outside [OF q(1), of i] True m l len by simp
      show ?thesis
      proof (cases "j < mid")
        case True
        then show ?thesis using perm_in_outside [OF q(1), of j] cross [of i j] ij i m l len by simp
      next
        case False
        have "le (ys ! i) (zs ! j)"
          by (rule perm_in_all [where P = "le (ys ! i)", OF q(1)]) (use cross [of i] ij True False l len in auto)
        then show ?thesis by (simp add: i)
      qed
    next
      case False
      then show ?thesis using q(2) ij by (simp add: sorted_in_def)
    qed
  qed
qed

lemma bounded_below_outside:
  assumes "perm_in x y xs ys" "b \<le> length xs" "b \<le> x \<or> y < a" "bounded_below a b xs"
  shows "bounded_below a b ys"
proof (cases "a = 0 \<or> b \<le> a")
  case False
  have out: "ys ! k = xs ! k" if "a - 1 \<le> k" "k < b" for k
    by (rule perm_in_outside [OF assms(1)]) (use assms(2,3) that in linarith)+
  have "ys ! (a - 1) = xs ! (a - 1)" using False by (intro out) linarith+
  then show ?thesis using assms(4) out False by (simp add: bounded_below_def)
qed (auto simp: bounded_below_def)

lemma partitioned_bounds:
  assumes "partitioned xs ys a mid b" "b \<le> length xs" "bounded_below a b xs"
  shows "bounded_below a mid ys" "bounded_below (mid + 1) b ys"
  using assms bounded_below_perm [of a b xs ys] by (auto simp: partitioned_def bounded_below_def)

lemma pdqsort_loop_sorted:
  "a \<le> b \<Longrightarrow> b \<le> length (elems d) \<Longrightarrow> length (elems d) < 2 ^ 63 \<Longrightarrow> bounded_below a b (elems d) \<Longrightarrow>
    returns (pdqsort_loop I d a b limit wb wp) (\<lambda>d'. perm_in a b (elems d) (elems d') \<and> sorted_in a b (elems d'))"
proof (induction "b - a" arbitrary: a b d limit wb wp rule: less_induct)
  case less
  have prep: "perm_in a b (elems d) (elems d2)"
    if "perm_in a b (elems d) (elems d1)" "d2 = d1 \<or> partialInsertionSort I d1 a b = Some (d2, r)" "a < b" for d1 d2 r
  proof -
    have "returns (partialInsertionSort I d1 a b) (\<lambda>(d', s). perm_in a b (elems d1) (elems d') \<and> (s \<longrightarrow> sorted_in a b (elems d')))"
      using that less.prems perm_in_length [OF that(1)] bounded_below_perm [OF that(1) less.prems(2,4)]
      by (intro partialInsertionSort_sorted) simp_all
    then have "perm_in a b (elems d1) (elems d2)" using that(2) by (auto simp: returns_def)
    with that(1) show ?thesis by (rule perm_in_trans)
  qed
  show ?case
  proof (cases "b - a \<le> 12 \<or> limit = 0")
    case True
    then show ?thesis using less.prems
      by (simp add: pdqsort_loop_short [OF True] returns_conj insertionSort_perm heapSort_perm insertionSort_sorted heapSort_sorted)
  next
    case False
    then have len: "12 < b - a" "limit \<noteq> 0" "a < b" by linarith+
    show ?thesis
    proof (rule pdqsort_round [OF len(1,2) less.prems(2,3), of wb wp])
      fix d1 d' assume p: "perm_in a b (elems d) (elems d1)" "partialInsertionSort I d1 a b = Some (d', True)"
        "pdqsort_loop I d a b limit wb wp = Some d'"
      have "returns (partialInsertionSort I d1 a b) (\<lambda>(d', s). perm_in a b (elems d1) (elems d') \<and> (s \<longrightarrow> sorted_in a b (elems d')))"
        using len less.prems perm_in_length [OF p(1)] bounded_below_perm [OF p(1) less.prems(2,4)]
        by (intro partialInsertionSort_sorted) simp_all
      then show ?thesis using p perm_in_trans [OF p(1)] by simp
    next
      fix d1 d2 d3 pivot mid limit' wb' wp' assume p: "perm_in a b (elems d) (elems d1)"
        "d2 = d1 \<or> partialInsertionSort I d1 a b = Some (d2, False)" "0 < a" "\<not> lt (elems d2 ! (a - 1)) (elems d2 ! pivot)"
        "equal_part (elems d2) (elems d3) (elems d2 ! pivot) a mid b"
        "pdqsort_loop I d a b limit wb wp = pdqsort_loop I d3 mid b limit' wb' wp'"
      have p2: "perm_in a b (elems d) (elems d2)" by (rule prep [OF p(1,2) len(3)])
      have l2: "b \<le> length (elems d2)" using perm_in_length [OF p2] less.prems by simp
      have bb2: "bounded_below a b (elems d2)" by (rule bounded_below_perm [OF p2 less.prems(2,4)])
      have m: "perm_in a b (elems d2) (elems d3)" "a < mid" "mid \<le> b" using p(5) by (simp_all add: equal_part_def)
      note eq = equal_part_sorted [OF p(5) l2 bb2 p(3,4)]
      have bb3: "bounded_below mid b (elems d3)"
by (rule bounded_below_equal [OF p(5) l2 bb2 p(3,4)])
      have "returns (pdqsort_loop I d3 mid b limit' wb' wp') (\<lambda>d'. perm_in mid b (elems d3) (elems d') \<and> sorted_in mid b (elems d'))"
        using m less.prems bb3 perm_in_length [OF p2] perm_in_length [OF m(1)] by (intro less.hyps) simp_all
      then show ?thesis unfolding p(6)
        by (rule returns_mono) (use eq perm_in_trans [OF p2] in blast)
    next
      fix d1 d2 d3 mid limit' wb' wp' assume p: "perm_in a b (elems d) (elems d1)"
        "d2 = d1 \<or> partialInsertionSort I d1 a b = Some (d2, False)" "partitioned (elems d2) (elems d3) a mid b"
        and eq: "pdqsort_loop I d a b limit wb wp =
            do { d \<leftarrow> pdqsort_loop I d3 a mid limit' True True; pdqsort_loop I d (mid + 1) b limit' wb' wp' } \<or>
          pdqsort_loop I d a b limit wb wp =
            do { d \<leftarrow> pdqsort_loop I d3 (mid + 1) b limit' True True; pdqsort_loop I d a mid limit' wb' wp' }"
      have p2: "perm_in a b (elems d) (elems d2)" by (rule prep [OF p(1,2) len(3)])
      have l2: "b \<le> length (elems d2)" using perm_in_length [OF p2] less.prems by simp
      have m: "perm_in a b (elems d2) (elems d3)" "a \<le> mid" "mid < b" using p(3) by (simp_all add: partitioned_def)
      have l3: "length (elems d3) = length (elems d)" using perm_in_length [OF p2] perm_in_length [OF m(1)] by simp
      note bb3 = partitioned_bounds [OF p(3) l2 bounded_below_perm [OF p2 less.prems(2,4)]]
      have lo: "returns (pdqsort_loop I e a mid l u v) (\<lambda>d'. perm_in a mid (elems e) (elems d') \<and> sorted_in a mid (elems d'))"
        if "bounded_below a mid (elems e)" "length (elems e) = length (elems d)" for e l u v
        using m less.prems that by (intro less.hyps) simp_all
      have hi: "returns (pdqsort_loop I e (mid + 1) b l u v) (\<lambda>d'. perm_in (mid + 1) b (elems e) (elems d') \<and> sorted_in (mid + 1) b (elems d'))"
        if "bounded_below (mid + 1) b (elems e)" "length (elems e) = length (elems d)" for e l u v
        using m less.prems that by (intro less.hyps) simp_all
      have 1: "returns (pdqsort_loop I d3 a mid limit' True True) (\<lambda>d4. returns (pdqsort_loop I d4 (mid + 1) b limit' wb' wp')
        (\<lambda>d'. perm_in a b (elems d) (elems d') \<and> sorted_in a b (elems d')))"
      proof (rule returns_mono [OF lo [OF bb3(1) l3]], elim conjE)
        fix d4 assume d4: "perm_in a mid (elems d3) (elems d4)" "sorted_in a mid (elems d4)"
        have "bounded_below (mid + 1) b (elems d4)" "length (elems d4) = length (elems d)"
          using bounded_below_outside [OF d4(1) _ _ bb3(2)] perm_in_length [OF d4(1)] l3 less.prems m by simp_all
        then show "returns (pdqsort_loop I d4 (mid + 1) b limit' wb' wp') (\<lambda>d'. perm_in a b (elems d) (elems d') \<and> sorted_in a b (elems d'))"
          by (rule returns_mono [OF hi]) (use partitioned_sorted [OF p(3) l2 d4] perm_in_trans [OF p2] in blast)
      qed
      have 2: "returns (pdqsort_loop I d3 (mid + 1) b limit' True True) (\<lambda>d4. returns (pdqsort_loop I d4 a mid limit' wb' wp')
        (\<lambda>d'. perm_in a b (elems d) (elems d') \<and> sorted_in a b (elems d')))"
      proof (rule returns_mono [OF hi [OF bb3(2) l3]], elim conjE)
        fix d4 assume d4: "perm_in (mid + 1) b (elems d3) (elems d4)" "sorted_in (mid + 1) b (elems d4)"
        have "bounded_below a mid (elems d4)" "length (elems d4) = length (elems d)"
          using bounded_below_outside [OF d4(1) _ _ bb3(1)] perm_in_length [OF d4(1)] l3 less.prems m by simp_all
        then show "returns (pdqsort_loop I d4 a mid limit' wb' wp') (\<lambda>d'. perm_in a b (elems d) (elems d') \<and> sorted_in a b (elems d'))"
          by (rule returns_mono [OF lo]) (use partitioned_sorted' [OF p(3) l2 d4] perm_in_trans [OF p2] in blast)
      qed
      show ?thesis using eq 1 2 by (elim disjE) simp_all
    qed
  qed
qed

lemma Sort_sorted:
  assumes "length (elems d) < 2 ^ 63"
  shows "returns (Sort I d) (\<lambda>d'. mset (elems d') = mset (elems d) \<and> sorted_in 0 (length (elems d)) (elems d'))"
proof -
  have "returns (pdqsort_loop I d 0 (length (elems d)) (bits_Len (length (elems d))) True True)
    (\<lambda>d'. perm_in 0 (length (elems d)) (elems d) (elems d') \<and> sorted_in 0 (length (elems d)) (elems d'))"
    by (rule pdqsort_loop_sorted) (use assms in \<open>simp_all add: bounded_below_def\<close>)
  then have "returns (pdqsort_loop I d 0 (length (elems d)) (bits_Len (length (elems d))) True True)
    (\<lambda>d'. mset (elems d') = mset (elems d) \<and> sorted_in 0 (length (elems d)) (elems d'))"
    by (rule returns_mono) (auto dest: perm_in_mset)
  then show ?thesis by (auto simp: Sort_def Len pdqsort_def Let_def sorted_in_def)
qed

end

end
