(* ===== verification/StableSort.thy ===== *)
theory StableSort
  imports SortOrder
begin

text \<open>
  \<open>sort.Stable\<close>: the rotation of two blocks by swapping blocks of the same length, the in-place merge \<open>SymMerge\<close>, and the
  bottom-up merge sort.  Lists are cut into the blocks the code works on, so that moving a block is an equation of lists.
\<close>

lemma swap_at_parts: "swap_at (A @ x # B @ y # C) (length A) (length A + 1 + length B) = A @ y # B @ x # C"
proof -
  have "(A @ x # B @ y # C) ! (length A + 1 + length B) = y"
    using nth_append_length [of "A @ x # B" y C] by simp
  moreover have "(A @ x # B @ y # C)[length A := y, length A + 1 + length B := x] = A @ y # B @ x # C"
    using list_update_length [of "A @ y # B" y C x] by simp
  ultimately show ?thesis by (simp add: swap_at_def)
qed

context collection
begin

subsection \<open>Blocks\<close>

lemma swap_parts:
  assumes "elems d = A @ x # B @ y # C" "i = length A" "j = length A + 1 + length B"
  obtains d' where "iSwap I d i j = Some d'" "elems d' = A @ y # B @ x # C"
  using Swap [of i d j] swap_at_parts [of A x B y C] assms by auto

lemma swap_range_loop_parts:
  assumes "length U = length V" "length U1 = length V1" "elems d = A @ V1 @ U @ M @ U1 @ V @ C"
    "a = length A" "b = length A + length V1 + length U + length M" "n = length V1 + length V"
  shows "returns (swap_range_loop I a b n d (length V1)) (\<lambda>d'. elems d' = A @ V1 @ V @ M @ U1 @ U @ C)"
  using assms
proof (induction U V arbitrary: U1 V1 d rule: list_induct2)
  case Nil
  then show ?case by (subst swap_range_loop.simps) simp
next
  case (Cons u U v V)
  have "elems d = (A @ V1) @ u # (U @ M @ U1) @ v # V @ C" using Cons.prems by simp
  moreover have "a + length V1 = length (A @ V1)" "b + length V1 = length (A @ V1) + 1 + length (U @ M @ U1)"
    using Cons.prems by simp_all
  ultimately obtain d1 where d1: "iSwap I d (a + length V1) (b + length V1) = Some d1"
    "elems d1 = (A @ V1) @ v # (U @ M @ U1) @ u # V @ C" by (rule swap_parts)
  have "returns (swap_range_loop I a b n d1 (length (V1 @ [v]))) (\<lambda>d'. elems d' = A @ (V1 @ [v]) @ V @ M @ (U1 @ [u]) @ U @ C)"
    using Cons.prems d1(2) Cons.hyps by (intro Cons.IH) simp_all
  then show ?case using d1(1) Cons.prems by (subst swap_range_loop.simps) simp
qed

lemma swapRange_parts:
  assumes "elems d = A @ U @ M @ V @ C" "length U = length V" "a = length A" "b = length A + length U + length M" "n = length U"
  shows "returns (swapRange I d a b n) (\<lambda>d'. elems d' = A @ V @ M @ U @ C)"
  using swap_range_loop_parts [of U V "[]" "[]" d A M C a b n] assms by (simp add: swapRange_def)

text \<open>\<open>rotate\<close> exchanges the blocks \<open>U\<close> and \<open>V\<close>: Gries and Mills' algorithm by induction on their lengths.\<close>

lemma rotate_loop_parts:
  "elems d = A @ U @ V @ C \<Longrightarrow> U \<noteq> [] \<Longrightarrow> V \<noteq> [] \<Longrightarrow> m = length A + length U \<Longrightarrow>
    returns (rotate_loop I m d (length U) (length V)) (\<lambda>d'. elems d' = A @ V @ U @ C)"
proof (induction "length U + length V" arbitrary: d A U V C m rule: less_induct)
  case less
  consider "length U = length V" | "length V < length U" | "length U < length V" by linarith
  then show ?case
  proof cases
    case 1
    then have "returns (swapRange I d (m - length U) m (length U)) (\<lambda>d'. elems d' = A @ V @ U @ C)"
      using swapRange_parts [of d A U "[]" V C "length A" m "length U"] less.prems by simp
    then show ?thesis using 1 by (subst rotate_loop.simps) simp
  next
    case 2
    define U1 U2 where "U1 = take (length V) U" and "U2 = drop (length V) U"
    have U: "U = U1 @ U2" "length U1 = length V" "U2 \<noteq> []" using 2 by (auto simp: U1_def U2_def)
    have "returns (swapRange I d (m - length U) m (length V)) (\<lambda>d1. elems d1 = A @ V @ U2 @ U1 @ C)"
      using less.prems U by (intro swapRange_parts) simp_all
    then have "returns (swapRange I d (m - length U) m (length V))
      (\<lambda>d1. returns (rotate_loop I m d1 (length U2) (length V)) (\<lambda>d'. elems d' = A @ V @ U @ C))"
    proof (rule returns_mono)
      fix d1 assume d1: "elems d1 = A @ V @ U2 @ U1 @ C"
      have "returns (rotate_loop I m d1 (length U2) (length U1)) (\<lambda>d'. elems d' = (A @ V) @ U1 @ U2 @ C)"
        using less.prems U d1 by (intro less.hyps) auto
      then show "returns (rotate_loop I m d1 (length U2) (length V)) (\<lambda>d'. elems d' = A @ V @ U @ C)" using U by simp
    qed
    then show ?thesis using 2 U by (subst rotate_loop.simps) simp
  next
    case 3
    define V1 V2 where "V1 = take (length V - length U) V" and "V2 = drop (length V - length U) V"
    have V: "V = V1 @ V2" "length V2 = length U" "V1 \<noteq> []" using 3 by (auto simp: V1_def V2_def)
    have "returns (swapRange I d (m - length U) (m + length V - length U) (length U)) (\<lambda>d1. elems d1 = A @ V2 @ V1 @ U @ C)"
      using less.prems V by (intro swapRange_parts) simp_all
    then have "returns (swapRange I d (m - length U) (m + length V - length U) (length U))
      (\<lambda>d1. returns (rotate_loop I m d1 (length U) (length V1)) (\<lambda>d'. elems d' = A @ V @ U @ C))"
    proof (rule returns_mono)
      fix d1 assume d1: "elems d1 = A @ V2 @ V1 @ U @ C"
      have "returns (rotate_loop I m d1 (length V2) (length V1)) (\<lambda>d'. elems d' = A @ V1 @ V2 @ U @ C)"
        using less.prems V d1 by (intro less.hyps) auto
      then show "returns (rotate_loop I m d1 (length U) (length V1)) (\<lambda>d'. elems d' = A @ V @ U @ C)" using V by simp
    qed
    then show ?thesis using 3 V by (subst rotate_loop.simps) simp
  qed
qed

lemma rotate_parts:
  assumes "elems d = A @ U @ V @ C" "U \<noteq> []" "V \<noteq> []" "a = length A" "m = length A + length U" "b = length A + length U + length V"
  shows "returns (rotate_blocks I d a m b) (\<lambda>d'. elems d' = A @ V @ U @ C)"
  using rotate_loop_parts [OF assms(1-3,5)] assms(4-6) by (simp add: rotate_blocks_def)

lemma bubble_up_parts:
  "elems d = A @ x # B @ C \<Longrightarrow> k = length A \<Longrightarrow> e = length A + length B \<Longrightarrow>
    returns (bubble_up I d k e) (\<lambda>d'. elems d' = A @ B @ x # C)"
proof (induction B arbitrary: A d k)
  case Nil
  then show ?case by (subst bubble_up.simps) simp
next
  case (Cons y B)
  obtain d1 where d1: "iSwap I d k (k + 1) = Some d1" "elems d1 = A @ y # [] @ x # B @ C"
    by (rule swap_parts [of d A x "[]" y "B @ C"]) (use Cons.prems in simp_all)
  have "returns (bubble_up I d1 (k + 1) e) (\<lambda>d'. elems d' = (A @ [y]) @ B @ x # C)"
    using Cons.prems d1(2) by (intro Cons.IH) simp_all
  then show ?case using d1(1) Cons.prems by (subst bubble_up.simps) simp
qed

lemma bubble_down_parts:
  "elems d = A @ B @ x # C \<Longrightarrow> k = length A + length B \<Longrightarrow> i = length A \<Longrightarrow>
    returns (bubble_down I d k i) (\<lambda>d'. elems d' = A @ x # B @ C)"
proof (induction B arbitrary: C d k rule: rev_induct)
  case Nil
  then show ?case by (subst bubble_down.simps) simp
next
  case (snoc y B)
  obtain d1 where d1: "iSwap I d (k - 1) k = Some d1" "elems d1 = (A @ B) @ x # [] @ y # C"
    by (rule swap_parts [of d "A @ B" y "[]" x C]) (use snoc.prems in simp_all)
  obtain d2 where d2: "iSwap I d k (k - 1) = Some d2" "elems d2 = (A @ B) @ x # y # C"
  proof -
    have "k < length (elems d)" "k - 1 < length (elems d)" using snoc.prems by simp_all
    then show ?thesis using Swap [of k d "k - 1"] Swap [of "k - 1" d k] d1 that by (auto simp: swap_at_commute [of _ k])
  qed
  have "returns (bubble_down I d2 (k - 1) i) (\<lambda>d'. elems d' = A @ x # B @ y # C)"
    using snoc.prems d2(2) by (intro snoc.IH) simp_all
  then show ?case using d2(1) snoc.prems by (subst bubble_down.simps) simp
qed

text \<open>The binary search ends at a border of its condition.\<close>

lemma bisect_border:
  assumes "\<And>k. i \<le> k \<Longrightarrow> k < j \<Longrightarrow> right k = Some (P k)" "i \<le> j"
  obtains r where "bisect right i j = Some r" "i \<le> r" "r \<le> j" "i < r \<longrightarrow> P (r - 1)" "r < j \<longrightarrow> \<not> P r"
proof -
  have "\<exists>r. bisect right i j = Some r \<and> i \<le> r \<and> r \<le> j \<and> (i < r \<longrightarrow> P (r - 1)) \<and> (r < j \<longrightarrow> \<not> P r)"
    using assms
  proof (induction "j - i" arbitrary: i j rule: less_induct)
    case less
    show ?case
    proof (cases "i < j")
      case True
      define h where "h = (i + j) div 2"
      have h: "i \<le> h" "h < j" using True by (simp_all add: h_def)
      show ?thesis
      proof (cases "P h")
        case True
        obtain r where "bisect right (h + 1) j = Some r" "h + 1 \<le> r" "r \<le> j" "h + 1 < r \<longrightarrow> P (r - 1)" "r < j \<longrightarrow> \<not> P r"
          using less.hyps [of j "h + 1"] less.prems(1) h by force
        then show ?thesis using True h less.prems(1) [OF h]
          by (subst bisect.simps) (auto simp flip: h_def intro: le_antisym)
      next
        case False
        obtain r where "bisect right i h = Some r" "i \<le> r" "r \<le> h" "i < r \<longrightarrow> P (r - 1)" "r < h \<longrightarrow> \<not> P r"
          using less.hyps [of h i] less.prems(1) h by force
        then show ?thesis using False h less.prems(1) [OF h]
          by (subst bisect.simps) (auto simp flip: h_def intro: le_antisym)
      qed
    qed (use less.prems in \<open>subst bisect.simps, simp\<close>)
  qed
  then show ?thesis using that by blast
qed

end

subsection \<open>Stability\<close>

context ordered_collection
begin

definition eqv :: "'b \<Rightarrow> 'b \<Rightarrow> bool" where
  "eqv x y \<longleftrightarrow> le x y \<and> le y x"

text \<open>Equal elements keep their order: of every class of equal elements, \<open>ys\<close> has the same subsequence as \<open>xs\<close>.\<close>

definition stable_perm :: "'b list \<Rightarrow> 'b list \<Rightarrow> bool" where
  "stable_perm xs ys \<longleftrightarrow> mset ys = mset xs \<and> (\<forall>z. filter (eqv z) ys = filter (eqv z) xs)"

lemma stable_perm_refl [simp]: "stable_perm xs xs"
  by (simp add: stable_perm_def)

lemma stable_perm_trans: "stable_perm xs ys \<Longrightarrow> stable_perm ys zs \<Longrightarrow> stable_perm xs zs"
  by (simp add: stable_perm_def)

lemma stable_perm_append: "stable_perm xs xs' \<Longrightarrow> stable_perm ys ys' \<Longrightarrow> stable_perm (xs @ ys) (xs' @ ys')"
  by (simp add: stable_perm_def)

lemma stable_perm_length: "stable_perm xs ys \<Longrightarrow> length ys = length xs"
  unfolding stable_perm_def by (metis size_mset)

lemma stable_perm_set: "stable_perm xs ys \<Longrightarrow> set ys = set xs"
  unfolding stable_perm_def by (metis set_mset_mset)

text \<open>Moving elements before others that are strictly greater is stable.\<close>

lemma stable_perm_swap:
  assumes "\<And>x y. x \<in> set X \<Longrightarrow> y \<in> set Y \<Longrightarrow> lt y x"
  shows "stable_perm (X @ Y) (Y @ X)"
proof -
  have "filter (eqv z) X = [] \<or> filter (eqv z) Y = []" for z
  proof (rule ccontr)
    assume "\<not> (filter (eqv z) X = [] \<or> filter (eqv z) Y = [])"
    then obtain x y where "x \<in> set X" "eqv z x" "y \<in> set Y" "eqv z y" by (auto simp: filter_empty_conv)
    then have "lt y x" "le x z" "le z y" using assms by (simp_all add: eqv_def)
    then show False using le_trans' by blast
  qed
  then have "filter (eqv z) (Y @ X) = filter (eqv z) (X @ Y)" for z by (metis append.right_neutral append_Nil filter_append)
  then show ?thesis by (simp add: stable_perm_def)
qed

definition merged :: "'b list \<Rightarrow> 'b list \<Rightarrow> bool" where
  "merged xs ys \<longleftrightarrow> stable_perm xs ys \<and> sorted_wrt le ys"

lemma sorted_wrt_nth: "sorted_wrt le xs \<Longrightarrow> i \<le> j \<Longrightarrow> j < length xs \<Longrightarrow> le (xs ! i) (xs ! j)"
  by (cases "i = j") (simp_all add: lt_irrefl sorted_wrt_iff_nth_less)

lemma sorted_wrt_last: "sorted_wrt le (xs @ [y]) \<Longrightarrow> x \<in> set (xs @ [y]) \<Longrightarrow> le x y"
  by (auto simp: sorted_wrt_append lt_irrefl)

lemma last_below: "sorted_wrt le xs \<Longrightarrow> xs \<noteq> [] \<Longrightarrow> x \<in> set xs \<Longrightarrow> le x (last xs)"
  using sorted_wrt_last [of "butlast xs" "last xs" x] by simp

lemma hd_above: "sorted_wrt le xs \<Longrightarrow> xs \<noteq> [] \<Longrightarrow> x \<in> set xs \<Longrightarrow> le (hd xs) x"
  by (cases xs) (auto simp: lt_irrefl)

text \<open>One pair decides, for sorted blocks, that all elements of one are below all of the other.\<close>

lemma blocks_le:
  assumes "sorted_wrt le xs" "sorted_wrt le ys" "xs \<noteq> [] \<Longrightarrow> ys \<noteq> [] \<Longrightarrow> le (last xs) (hd ys)" "x \<in> set xs" "y \<in> set ys"
  shows "le x y"
proof -
  have "xs \<noteq> []" "ys \<noteq> []" using assms(4,5) by auto
  then have "le x (last xs)" "le (last xs) (hd ys)" "le (hd ys) y" using last_below hd_above assms by auto
  then show ?thesis using le_trans' by blast
qed

lemma blocks_lt:
  assumes "sorted_wrt le xs" "sorted_wrt le ys" "xs \<noteq> [] \<Longrightarrow> ys \<noteq> [] \<Longrightarrow> lt (last xs) (hd ys)" "x \<in> set xs" "y \<in> set ys"
  shows "lt x y"
proof -
  have "xs \<noteq> []" "ys \<noteq> []" using assms(4,5) by auto
  then have "le x (last xs)" "lt (last xs) (hd ys)" "le (hd ys) y" using last_below hd_above assms by auto
  then show ?thesis using le_lt_trans lt_le_trans by blast
qed

text \<open>The two short cuts of \<open>symMerge\<close>.\<close>

lemma merge_one_left:
  assumes e: "elems d = A @ x # Y @ C" and s: "sorted_wrt le Y" and i: "a = length A" "m = a + 1" "b = m + length Y"
  shows "returns (do { i \<leftarrow> bisect (\<lambda>h. iLess I d h a) m b; bubble_up I d a (i - 1) })
    (\<lambda>d'. \<exists>Z. elems d' = A @ Z @ C \<and> merged (x # Y) Z)"
proof -
  have nth: "elems d ! (m + k) = Y ! k" if "k < length Y" for k using that e i by (simp add: nth_append)
  have x: "elems d ! a = x" using e i by simp
  have right: "iLess I d h a = Some (lt (Y ! (h - m)) x)" if "m \<le> h" "h < b" for h
    using nth [of "h - m"] x that e i by (simp add: Less)
  obtain r where r: "bisect (\<lambda>h. iLess I d h a) m b = Some r" "m \<le> r" "r \<le> b"
    "m < r \<longrightarrow> lt (Y ! (r - 1 - m)) x" "r < b \<longrightarrow> \<not> lt (Y ! (r - m)) x"
    by (rule bisect_border [of m b "\<lambda>h. iLess I d h a" "\<lambda>h. lt (Y ! (h - m)) x", OF right]) (use i in auto)
  define Y1 Y2 where "Y1 = take (r - m) Y" and "Y2 = drop (r - m) Y"
  have Y: "Y = Y1 @ Y2" "length Y1 = r - m" using r i by (simp_all add: Y1_def Y2_def)
  have s12: "sorted_wrt le Y1" "sorted_wrt le Y2" "\<And>u v. u \<in> set Y1 \<Longrightarrow> v \<in> set Y2 \<Longrightarrow> le u v"
    using s unfolding Y(1) sorted_wrt_append by blast+
  have low: "lt y x" if "y \<in> set Y1" for y
  proof -
    have "Y1 \<noteq> []" using that by auto
    then have "m < r" using Y(2) by (cases "m < r") auto
    then have "r - 1 - m < length Y1" "length Y1 - 1 = r - 1 - m" using Y(2) by linarith+
    then have "last Y1 = Y ! (r - 1 - m)" using \<open>Y1 \<noteq> []\<close> by (simp add: Y(1) last_conv_nth nth_append)
    then have "lt (last Y1) x" using r(4) \<open>m < r\<close> by simp
    then show ?thesis by (rule le_lt_trans [OF last_below [OF s12(1) \<open>Y1 \<noteq> []\<close> that]])
  qed
  have high: "le x y" if "y \<in> set Y2" for y
  proof -
    have "Y2 \<noteq> []" using that by auto
    then have "hd Y2 = Y ! (r - m)" "r < b" using i r(2) by (auto simp: Y2_def hd_drop_conv_nth)
    then have "le x (hd Y2)" using r(5) by simp
    then show ?thesis using hd_above [OF s12(2) \<open>Y2 \<noteq> []\<close> that] by (rule le_trans')
  qed
  have "stable_perm ([x] @ Y1) (Y1 @ [x])" by (rule stable_perm_swap) (simp add: low)
  from stable_perm_append [OF this stable_perm_refl [of Y2]]
  have "merged (x # Y) (Y1 @ x # Y2)"
    using s12 low high by (auto simp: merged_def Y(1) sorted_wrt_append dest: lt_le)
  moreover have "returns (bubble_up I d a (r - 1)) (\<lambda>d'. elems d' = A @ Y1 @ x # Y2 @ C)"
    by (rule bubble_up_parts) (use e i Y r in simp_all)
  ultimately have "returns (bubble_up I d a (r - 1)) (\<lambda>d'. \<exists>Z. elems d' = A @ Z @ C \<and> merged (x # Y) Z)"
    by (elim returns_mono) (auto intro!: exI [of _ "Y1 @ x # Y2"])
  then show ?thesis using r(1) by simp
qed

lemma merge_one_right:
  assumes e: "elems d = A @ X @ y # C" and s: "sorted_wrt le X" and i: "a = length A" "m = a + length X"
  shows "returns (do { i \<leftarrow> bisect (\<lambda>h. not_go (iLess I d m h)) a m; bubble_down I d m i })
    (\<lambda>d'. \<exists>Z. elems d' = A @ Z @ C \<and> merged (X @ [y]) Z)"
proof -
  have nth: "elems d ! (a + k) = X ! k" if "k < length X" for k using that e i by (simp add: nth_append)
  have y: "elems d ! m = y" using e i by (simp add: nth_append)
  have right: "not_go (iLess I d m h) = Some (\<not> lt y (X ! (h - a)))" if "a \<le> h" "h < m" for h
    using nth [of "h - a"] y that e i by (simp add: Less)
  obtain r where r: "bisect (\<lambda>h. not_go (iLess I d m h)) a m = Some r" "a \<le> r" "r \<le> m"
    "a < r \<longrightarrow> \<not> lt y (X ! (r - 1 - a))" "r < m \<longrightarrow> lt y (X ! (r - a))"
    by (rule bisect_border [of a m "\<lambda>h. not_go (iLess I d m h)" "\<lambda>h. \<not> lt y (X ! (h - a))", OF right]) (use i in auto)
  define X1 X2 where "X1 = take (r - a) X" and "X2 = drop (r - a) X"
  have X: "X = X1 @ X2" "length X1 = r - a" using r i by (simp_all add: X1_def X2_def)
  have s12: "sorted_wrt le X1" "sorted_wrt le X2" "\<And>u v. u \<in> set X1 \<Longrightarrow> v \<in> set X2 \<Longrightarrow> le u v"
    using s unfolding X(1) sorted_wrt_append by blast+
  have low: "le x y" if "x \<in> set X1" for x
  proof -
    have "X1 \<noteq> []" using that by auto
    then have "a < r" using X(2) by (cases "a < r") auto
    then have "r - 1 - a < length X1" "length X1 - 1 = r - 1 - a" using X(2) by linarith+
    then have "last X1 = X ! (r - 1 - a)" using \<open>X1 \<noteq> []\<close> by (simp add: X(1) last_conv_nth nth_append)
    then have "le (last X1) y" using r(4) \<open>a < r\<close> by simp
    then show ?thesis by (rule le_trans' [OF last_below [OF s12(1) \<open>X1 \<noteq> []\<close> that]])
  qed
  have high: "lt y x" if "x \<in> set X2" for x
  proof -
    have "X2 \<noteq> []" using that by auto
    then have "hd X2 = X ! (r - a)" "r < m" using i r(2) by (auto simp: X2_def hd_drop_conv_nth)
    then have "lt y (hd X2)" using r(5) by simp
    then show ?thesis using hd_above [OF s12(2) \<open>X2 \<noteq> []\<close> that] by (rule lt_le_trans)
  qed
  have "stable_perm (X2 @ [y]) ([y] @ X2)" by (rule stable_perm_swap) (simp add: high)
  from stable_perm_append [OF stable_perm_refl [of X1] this]
  have "merged (X @ [y]) (X1 @ y # X2)"
    using s12 low high by (auto simp: merged_def X(1) sorted_wrt_append dest: lt_le)
  moreover have "returns (bubble_down I d m r) (\<lambda>d'. elems d' = (A @ X1) @ y # X2 @ C)"
    by (rule bubble_down_parts) (use e i X r in simp_all)
  ultimately have "returns (bubble_down I d m r) (\<lambda>d'. \<exists>Z. elems d' = A @ Z @ C \<and> merged (X @ [y]) Z)"
    by (elim returns_mono) (auto intro!: exI [of _ "X1 @ y # X2"])
  then show ?thesis using r(1) by simp
qed

lemma merged_block_ends:
  assumes "merged (X1 @ Y1) Z1" "merged (X2 @ Y2) Z2" "sorted_wrt le (X1 @ X2)" "sorted_wrt le (Y1 @ Y2)"
    "\<forall>x\<in>set X1. \<forall>y\<in>set Y2. le x y" "\<forall>y\<in>set Y1. \<forall>x\<in>set X2. lt y x"
  shows "merged ((X1 @ X2) @ (Y1 @ Y2)) (Z1 @ Z2)"
proof -
  have "stable_perm (X2 @ Y1) (Y1 @ X2)" by (rule stable_perm_swap) (use assms(6) in blast)
  from stable_perm_append [OF stable_perm_refl [of X1] stable_perm_append [OF this stable_perm_refl [of Y2]]]
  have "stable_perm ((X1 @ X2) @ (Y1 @ Y2)) ((X1 @ Y1) @ (X2 @ Y2))" by simp
  moreover have "stable_perm ((X1 @ Y1) @ (X2 @ Y2)) (Z1 @ Z2)"
    using assms(1,2) by (simp add: merged_def stable_perm_append del: append_assoc)
  ultimately have st: "stable_perm ((X1 @ X2) @ (Y1 @ Y2)) (Z1 @ Z2)" by (rule stable_perm_trans)
  have "set Z1 = set X1 \<union> set Y1" "set Z2 = set X2 \<union> set Y2"
    using assms(1,2) stable_perm_set unfolding merged_def by (metis set_append)+
  then have "le u v" if "u \<in> set Z1" "v \<in> set Z2" for u v
    using that assms(3-6) by (auto simp: sorted_wrt_append dest: lt_le)
  then show ?thesis using assms(1,2) st by (simp add: merged_def sorted_wrt_append)
qed

lemma merged_trivial: "X = [] \<or> Y = [] \<Longrightarrow> sorted_wrt le X \<Longrightarrow> sorted_wrt le Y \<Longrightarrow> merged (X @ Y) (X @ Y)"
  by (auto simp: merged_def)

text \<open>The symmetric search: it splits the two sorted blocks so that the first parts of both fill the left half.\<close>

lemma sym_search_split:
  assumes e: "elems d = A @ X @ Y @ C" and s: "sorted_wrt le X" "sorted_wrt le Y"
    and i: "a = length A" "m = a + length X" "b = m + length Y" and long: "2 \<le> length X" "2 \<le> length Y" and mid: "mid = (a + b) div 2"
  obtains start X1 X2 Y1 Y2 where
    "bisect (\<lambda>c. not_go (iLess I d (mid + m - 1 - c) c)) (if m > mid then mid + m - b else a) (if m > mid then mid else m) = Some start"
    "X = X1 @ X2" "Y = Y1 @ Y2" "start = a + length X1" "mid + m - start = m + length Y1" "mid = a + length X1 + length Y1"
    "\<forall>x\<in>set X1. \<forall>y\<in>set Y2. le x y" "\<forall>y\<in>set Y1. \<forall>x\<in>set X2. lt y x"
proof -
  define lo where "lo = (if m > mid then mid + m - b else a)"
  define hi where "hi = (if m > mid then mid else m)"
  define P where "P c \<longleftrightarrow> \<not> lt (elems d ! (mid + m - 1 - c)) (elems d ! c)" for c
  have m2: "2 * mid \<le> a + b" "a + b \<le> 2 * mid + 1" using mid by linarith+
  have bnd: "a \<le> lo" "lo \<le> hi" "hi \<le> m" "hi \<le> mid" "mid + m - lo \<le> b" "m \<le> mid + m - hi"
    using m2 i long by (auto simp: lo_def hi_def)
  have len: "length (elems d) = b + length C" using e i by simp
  have right: "not_go (iLess I d (mid + m - 1 - c) c) = Some (P c)" if "lo \<le> c" "c < hi" for c
    using that bnd len i long by (simp add: Less P_def)
  obtain start where st: "bisect (\<lambda>c. not_go (iLess I d (mid + m - 1 - c) c)) lo hi = Some start" "lo \<le> start" "start \<le> hi"
    "lo < start \<longrightarrow> P (start - 1)" "start < hi \<longrightarrow> \<not> P start"
    by (rule bisect_border [OF right bnd(2)])
  define e1 where "e1 = mid + m - start"
  have e1: "m \<le> e1" "e1 \<le> b" "e1 + start = mid + m" using st(2,3) bnd by (simp_all add: e1_def)
  define X1 X2 where "X1 = take (start - a) X" and "X2 = drop (start - a) X"
  define Y1 Y2 where "Y1 = take (e1 - m) Y" and "Y2 = drop (e1 - m) Y"
  have XY: "X = X1 @ X2" "Y = Y1 @ Y2" "length X1 = start - a" "length Y1 = e1 - m"
    using st(2,3) bnd e1 i by (simp_all add: X1_def X2_def Y1_def Y2_def)
  have s12: "sorted_wrt le X1" "sorted_wrt le X2" "sorted_wrt le Y1" "sorted_wrt le Y2"
    using s unfolding XY(1,2) sorted_wrt_append by blast+
  have xnth: "elems d ! (a + k) = X ! k" if "k < length X" for k using that e i by (simp add: nth_append)
  have ynth: "elems d ! (m + k) = Y ! k" if "k < length Y" for k using that e i by (simp add: nth_append)
  have "le (last X1) (hd Y2)" if "X1 \<noteq> []" "Y2 \<noteq> []"
  proof -
    have "0 < length X1" "0 < length Y2" using that by simp_all
    then have lt: "a < start" "e1 < b" using XY(3,4) i e1(1) by (simp_all add: Y2_def)
    then have "lo < start" using e1 bnd(1) m2 st(2) i by (auto simp: lo_def split: if_splits)
    then have "P (start - 1)" using st(4) by blast
    moreover have "mid + m - 1 - (start - 1) = m + (e1 - m)" using \<open>lo < start\<close> e1 by linarith
    moreover have "start - 1 = a + (start - 1 - a)" using lt by linarith
    moreover have "last X1 = X ! (start - 1 - a)"
    proof -
      have "start - 1 - a < length X1" "length X1 - 1 = start - 1 - a" using XY(3) lt by linarith+
      then show ?thesis using that by (simp add: XY(1) last_conv_nth nth_append)
    qed
    moreover have "hd Y2 = Y ! (e1 - m)" using that by (simp add: Y2_def hd_drop_conv_nth)
    moreover have "start - 1 - a < length X" "e1 - m < length Y" using lt st(3) bnd(3) i e1(1) by linarith+
    ultimately show ?thesis unfolding P_def using xnth ynth by metis
  qed
  then have le: "\<forall>x\<in>set X1. \<forall>y\<in>set Y2. le x y" using blocks_le [OF s12(1,4)] by blast
  have "lt (last Y1) (hd X2)" if "Y1 \<noteq> []" "X2 \<noteq> []"
  proof -
    have "0 < length Y1" "0 < length X2" using that by simp_all
    then have lt: "m < e1" "start < m" using XY(3,4) i st(2) bnd(1) by (simp_all add: X2_def)
    then have "start < hi" using e1 by (auto simp: hi_def)
    then have "\<not> P start" using st(5) by blast
    moreover have "mid + m - 1 - start = m + (e1 - 1 - m)" using lt e1 by linarith
    moreover have "start = a + (start - a)" using st(2) bnd(1) by linarith
    moreover have "last Y1 = Y ! (e1 - 1 - m)"
    proof -
      have "e1 - 1 - m < length Y1" "length Y1 - 1 = e1 - 1 - m" using XY(4) lt by linarith+
      then show ?thesis using that by (simp add: XY(2) last_conv_nth nth_append)
    qed
    moreover have "hd X2 = X ! (start - a)" using that by (simp add: X2_def hd_drop_conv_nth)
    moreover have "start - a < length X" "e1 - 1 - m < length Y" using lt e1(2) i st(2) bnd(1) by linarith+
    ultimately show ?thesis unfolding P_def using xnth ynth by metis
  qed
  then have lt: "\<forall>y\<in>set Y1. \<forall>x\<in>set X2. lt y x" using blocks_lt [OF s12(3,2)] by blast
  have "start = a + length X1" "mid + m - start = m + length Y1" "mid = a + length X1 + length Y1"
    using XY(3,4) st(2,3) bnd e1 by (simp_all add: e1_def)
  with st(1) [unfolded lo_def hi_def] XY(1,2) show ?thesis using le lt by (intro that [of start X1 X2 Y1 Y2])
qed

lemma symMerge_merged:
  "elems d = A @ X @ Y @ C \<Longrightarrow> X \<noteq> [] \<Longrightarrow> Y \<noteq> [] \<Longrightarrow> sorted_wrt le X \<Longrightarrow> sorted_wrt le Y \<Longrightarrow>
    a = length A \<Longrightarrow> m = a + length X \<Longrightarrow> b = m + length Y \<Longrightarrow>
    returns (symMerge I d a m b) (\<lambda>d'. \<exists>Z. elems d' = A @ Z @ C \<and> merged (X @ Y) Z)"
proof (induction "length X + length Y" arbitrary: d A X Y C a m b rule: less_induct)
  case less
  consider "length X = 1" | "length X \<noteq> 1" "length Y = 1" | "2 \<le> length X" "2 \<le> length Y"
    using less.prems(2,3) by (cases X; cases Y) (auto simp: Suc_le_eq)
  then show ?case
  proof cases
    case 1
    then obtain x where "X = [x]" by (auto simp: length_Suc_conv)
    then show ?thesis using merge_one_left [of d A x Y C a m b] less.prems by (subst symMerge.simps) simp
  next
    case 2
    then obtain y where "Y = [y]" by (auto simp: length_Suc_conv)
    then show ?thesis using merge_one_right [of d A X y C a m] less.prems 2(1) by (subst symMerge.simps) simp
  next
    case 3
    define mid where "mid = (a + b) div 2"
    obtain start X1 X2 Y1 Y2 where
      st: "bisect (\<lambda>c. not_go (iLess I d (mid + m - 1 - c) c)) (if m > mid then mid + m - b else a) (if m > mid then mid else m) = Some start"
      and X: "X = X1 @ X2" and Y: "Y = Y1 @ Y2" and pos: "start = a + length X1" "mid + m - start = m + length Y1" "mid = a + length X1 + length Y1"
      and le: "\<forall>x\<in>set X1. \<forall>y\<in>set Y2. le x y" and lt: "\<forall>y\<in>set Y1. \<forall>x\<in>set X2. lt y x"
      by (rule sym_search_split [OF less.prems(1,4-8) 3 mid_def])
    have s: "sorted_wrt le X1" "sorted_wrt le X2" "sorted_wrt le Y1" "sorted_wrt le Y2"
      using less.prems(4,5) unfolding X Y sorted_wrt_append by blast+
    have "returns (if start < m \<and> m < m + length Y1 then rotate_blocks I d start m (m + length Y1) else Some d)
      (\<lambda>d1. elems d1 = A @ (X1 @ Y1) @ (X2 @ Y2) @ C)"
    proof (cases "start < m \<and> m < m + length Y1")
      case True
      then have "returns (rotate_blocks I d start m (m + length Y1)) (\<lambda>d1. elems d1 = (A @ X1) @ Y1 @ X2 @ (Y2 @ C))"
        using less.prems X Y pos by (intro rotate_parts) auto
      then show ?thesis using True by simp
    next
      case False
      then have "X2 = [] \<or> Y1 = []" using pos(1) less.prems(7) X by auto
      then show ?thesis using False less.prems(1) X Y by auto
    qed
    then obtain d1 where d1: "(if start < m \<and> m < m + length Y1 then rotate_blocks I d start m (m + length Y1) else Some d) = Some d1"
      "elems d1 = A @ (X1 @ Y1) @ (X2 @ Y2) @ C" by (rule returnsE)
    have sizes: "length X1 + length Y1 < length X + length Y" "length X2 + length Y2 < length X + length Y"
      using pos(3) mid_def less.prems(7,8) 3 X Y by (auto simp: )
    have "returns (if a < start \<and> start < mid then symMerge I d1 a start mid else Some d1)
      (\<lambda>d2. \<exists>Z1. elems d2 = A @ Z1 @ (X2 @ Y2) @ C \<and> merged (X1 @ Y1) Z1)"
    proof (cases "a < start \<and> start < mid")
      case True
      then have "X1 \<noteq> []" "Y1 \<noteq> []" using pos by auto
      then show ?thesis using less.hyps [OF sizes(1), of d1 A "(X2 @ Y2) @ C" a start mid] True d1(2) s pos less.prems(6) by simp
    next
      case False
      then have "X1 = [] \<or> Y1 = []" using pos by auto
      then show ?thesis using merged_trivial [of X1 Y1] d1(2) s False by (auto intro!: exI [of _ "X1 @ Y1"])
    qed
    then obtain d2 Z1 where d2: "(if a < start \<and> start < mid then symMerge I d1 a start mid else Some d1) = Some d2"
      "elems d2 = A @ Z1 @ (X2 @ Y2) @ C" "merged (X1 @ Y1) Z1" by (auto simp: returns_def)
    have lz: "length Z1 = length X1 + length Y1" using d2(3) stable_perm_length [of "X1 @ Y1" Z1] by (simp add: merged_def)
    have "returns (if mid < m + length Y1 \<and> m + length Y1 < b then symMerge I d2 mid (m + length Y1) b else Some d2)
      (\<lambda>d3. \<exists>Z2. elems d3 = (A @ Z1) @ Z2 @ C \<and> merged (X2 @ Y2) Z2)"
    proof (cases "mid < m + length Y1 \<and> m + length Y1 < b")
      case True
      then have "X2 \<noteq> []" "Y2 \<noteq> []" using pos less.prems(7,8) X Y by auto
      then show ?thesis using less.hyps [OF sizes(2), of d2 "A @ Z1" C mid "m + length Y1" b] True d2(2) s pos less.prems(6-8) lz X Y by simp
    next
      case False
      then have "X2 = [] \<or> Y2 = []" using pos less.prems(7,8) X Y by auto
      then show ?thesis using merged_trivial [of X2 Y2] d2(2) s False by (auto intro!: exI [of _ "X2 @ Y2"])
    qed
    then have "returns (if mid < m + length Y1 \<and> m + length Y1 < b then symMerge I d2 mid (m + length Y1) b else Some d2)
      (\<lambda>d'. \<exists>Z. elems d' = A @ Z @ C \<and> merged (X @ Y) Z)"
    proof (rule returns_mono, elim exE conjE)
      fix d3 Z2 assume "elems d3 = (A @ Z1) @ Z2 @ C" "merged (X2 @ Y2) Z2"
      then show "\<exists>Z. elems d3 = A @ Z @ C \<and> merged (X @ Y) Z"
        using merged_block_ends [OF d2(3) _ less.prems(4,5) [unfolded X Y] le lt] by (intro exI [of _ "Z1 @ Z2"]) (simp add: X Y)
    qed
    moreover have "symMerge I d a m b = (if mid < m + length Y1 \<and> m + length Y1 < b then symMerge I d2 mid (m + length Y1) b else Some d2)"
    proof -
      have ne: "m - a \<noteq> 1" "b - m \<noteq> 1" using 3 less.prems(7,8) by simp_all
      show ?thesis
        unfolding symMerge.simps [of I d a m b] Let_def mid_def [symmetric] if_not_P [OF ne(1)] if_not_P [OF ne(2)] st
          Option.bind.bind_lunit pos(2) d1(1) d2(1) ..
    qed
    ultimately show ?thesis by simp
  qed
qed

subsection \<open>The merge sort\<close>

lemma sorted_in_part:
  assumes "a \<le> b" "b \<le> length xs"
  shows "sorted_in a b xs \<longleftrightarrow> sorted_wrt le (take (b - a) (drop a xs))"
proof
  assume s: "sorted_in a b xs"
  show "sorted_wrt le (take (b - a) (drop a xs))"
    unfolding sorted_wrt_iff_nth_less using s assms by (auto simp: sorted_in_def)
next
  assume "sorted_wrt le (take (b - a) (drop a xs))"
  then have s: "le (xs ! (a + i)) (xs ! (a + j))" if "i < j" "j < b - a" for i j
    using that assms unfolding sorted_wrt_iff_nth_less by auto
  show "sorted_in a b xs"
    unfolding sorted_in_def
  proof (intro allI impI)
    fix i j assume "a \<le> i" "i < j" "j < b"
    then show "le (xs ! i) (xs ! j)" using s [of "i - a" "j - a"] by simp
  qed
qed

lemma sorted_in_whole: "n = length xs \<Longrightarrow> sorted_in 0 n xs \<longleftrightarrow> sorted_wrt le xs"
  using sorted_in_part [of 0 n xs] by simp

text \<open>A step that sorts a range, stably.\<close>

definition sorts :: "nat \<Rightarrow> nat \<Rightarrow> 'b list \<Rightarrow> 'b list \<Rightarrow> bool" where
  "sorts a b xs ys \<longleftrightarrow> stable_perm xs ys \<and> perm_in a b xs ys \<and> sorted_in a b ys"

lemma symMerge_sorts:
  assumes "sorted_in a m (elems d)" "sorted_in m b (elems d)" "a < m" "m < b" "b \<le> length (elems d)"
  shows "returns (symMerge I d a m b) (\<lambda>d'. sorts a b (elems d) (elems d'))"
proof -
  define A X Y C where "A = take a (elems d)" and "X = take (m - a) (drop a (elems d))" and "Y = take (b - m) (drop m (elems d))"
    and "C = drop b (elems d)"
  have m: "drop m (elems d) = Y @ C" using assms unfolding Y_def C_def by (metis append_take_drop_id drop_drop le_add_diff_inverse2 less_imp_le)
  have "drop a (elems d) = X @ drop m (elems d)"
    using assms unfolding X_def by (metis append_take_drop_id drop_drop le_add_diff_inverse2 less_imp_le)
  then have e: "elems d = A @ X @ Y @ C" unfolding A_def m by (metis append_take_drop_id m)
  have l: "length A = a" "length X = m - a" "length Y = b - m" using assms by (simp_all add: A_def X_def Y_def)
  have s: "sorted_wrt le X" "sorted_wrt le Y" using assms sorted_in_part unfolding X_def Y_def by simp_all
  have "returns (symMerge I d a m b) (\<lambda>d'. \<exists>Z. elems d' = A @ Z @ C \<and> merged (X @ Y) Z)"
    by (rule symMerge_merged [OF e _ _ s]) (use l assms in auto)
  then show ?thesis
  proof (rule returns_mono, elim exE conjE)
    fix d' Z assume d': "elems d' = A @ Z @ C" and z: "merged (X @ Y) Z"
    have st: "stable_perm (X @ Y) Z" "sorted_wrt le Z" using z by (simp_all add: merged_def)
    have lz: "length Z = b - a" using stable_perm_length [OF st(1)] l assms by simp
    have st': "stable_perm (elems d) (elems d')"
      using stable_perm_append [OF stable_perm_refl [of A] stable_perm_append [OF st(1) stable_perm_refl [of C]]]
      by (simp add: e d')
    have "elems d' ! k = elems d ! k" if "k < a \<or> b \<le> k" for k
      using that l lz assms by (auto simp: e d' nth_append)
    then have p: "perm_in a b (elems d) (elems d')"
      using st' stable_perm_length [OF st'] by (simp add: perm_in_def stable_perm_def)
    have "take (b - a) (drop a (elems d')) = Z" using l lz by (simp add: d')
    then have "sorted_in a b (elems d')"
      using sorted_in_part [of a b "elems d'"] st(2) assms perm_in_length [OF p] by simp
    then show "sorts a b (elems d) (elems d')" using p st' by (simp add: sorts_def)
  qed
qed

lemma swap_adjacent_stable:
  assumes "0 < j" "j < length xs" "lt (xs ! j) (xs ! (j - 1))"
  shows "stable_perm xs (swap_at xs j (j - 1))"
proof -
  define A C x y where "A = take (j - 1) xs" and "C = drop (j + 1) xs" and "x = xs ! (j - 1)" and "y = xs ! j"
  have "xs = A @ xs ! (j - 1) # drop (Suc (j - 1)) xs" unfolding A_def using assms by (intro id_take_nth_drop) simp
  moreover have "drop j xs = xs ! j # C" unfolding C_def using assms by (simp add: Cons_nth_drop_Suc)
  ultimately have e: "xs = A @ x # [] @ y # C" using assms by (simp add: x_def y_def)
  have "swap_at xs j (j - 1) = swap_at xs (length A) (length A + 1 + length ([] :: 'b list))"
    using assms swap_at_commute by (simp add: A_def)
  also have "\<dots> = A @ y # [] @ x # C" by (subst e) (rule swap_at_parts)
  finally have s: "swap_at xs j (j - 1) = A @ [y] @ [x] @ C" by simp
  have "stable_perm ([x] @ [y]) ([y] @ [x])" by (rule stable_perm_swap) (use assms in \<open>simp add: x_def y_def\<close>)
  from stable_perm_append [OF stable_perm_refl [of A] stable_perm_append [OF this stable_perm_refl [of C]]]
  show ?thesis unfolding s by (subst e) simp
qed

lemma insert_back_stable: "j < length (elems d) \<Longrightarrow> returns (insert_back I a d j) (\<lambda>d'. stable_perm (elems d) (elems d'))"
proof (induction j arbitrary: d)
  case (Suc j)
  show ?case
  proof (cases "a < Suc j \<and> lt (elems d ! Suc j) (elems d ! j)")
    case True
    obtain d1 where d1: "iSwap I d (Suc j) j = Some d1" "elems d1 = swap_at (elems d) (Suc j) j"
      by (rule swapE [of 0 "Suc j" "length (elems d)" j d]) (use Suc.prems in simp_all)
    have st: "stable_perm (elems d) (elems d1)" using swap_adjacent_stable [of "Suc j" "elems d"] True Suc.prems d1(2) by simp
    have "returns (insert_back I a d1 j) (\<lambda>d'. stable_perm (elems d) (elems d'))"
      by (rule returns_mono [OF Suc.IH]) (use Suc.prems d1(2) st stable_perm_trans in auto)
    then show ?thesis using True Suc.prems d1(1) by (subst insert_back.simps) (simp add: Less)
  next
    case False
    then show ?thesis using Suc.prems by (subst insert_back.simps) (auto simp: Less)
  qed
qed (simp add: insert_back.simps)

lemma insertion_loop_stable:
  "b \<le> length (elems d) \<Longrightarrow> returns (insertion_loop I a b d i) (\<lambda>d'. stable_perm (elems d) (elems d'))"
proof (induction "b - i" arbitrary: i d)
  case 0
  then show ?case by (subst insertion_loop.simps) simp
next
  case (Suc n)
  have "returns (insert_back I a d i) (\<lambda>d1. returns (insertion_loop I a b d1 (i + 1)) (\<lambda>d'. stable_perm (elems d) (elems d')))"
  proof (rule returns_mono [OF insert_back_stable])
    fix d1 assume st: "stable_perm (elems d) (elems d1)"
    have "returns (insertion_loop I a b d1 (i + 1)) (\<lambda>d'. stable_perm (elems d1) (elems d'))"
      using Suc.hyps(2) Suc.prems stable_perm_length [OF st] by (intro Suc.hyps(1)) simp_all
    then show "returns (insertion_loop I a b d1 (i + 1)) (\<lambda>d'. stable_perm (elems d) (elems d'))"
      by (rule returns_mono) (rule stable_perm_trans [OF st])
  qed (use Suc in simp)
  moreover have "i < b" using Suc.hyps(2) by simp
  ultimately show ?case by (subst insertion_loop.simps) simp
qed

lemma insertionSort_sorts:
  assumes "b \<le> length (elems d)"
  shows "returns (insertionSort I d a b) (\<lambda>d'. sorts a b (elems d) (elems d'))"
proof -
  have "returns (insertionSort I d a b) (\<lambda>d'. stable_perm (elems d) (elems d'))"
    unfolding insertionSort_def by (rule insertion_loop_stable [OF assms])
  then show ?thesis
    unfolding sorts_def by (intro returns_conj insertionSort_perm insertionSort_sorted assms)
qed

text \<open>\<open>runs s lo hi n\<close>: the blocks of \<open>s\<close> elements that start in \<open>[lo, hi)\<close> are sorted, the last one cut off at \<open>n\<close>.\<close>

definition runs :: "nat \<Rightarrow> nat \<Rightarrow> nat \<Rightarrow> nat \<Rightarrow> 'b list \<Rightarrow> bool" where
  "runs s lo hi n xs \<longleftrightarrow> (\<forall>k. lo \<le> k * s \<longrightarrow> k * s < hi \<longrightarrow> sorted_in (k * s) (min (k * s + s) n) xs)"

lemma runs_perm:
  assumes "runs s lo hi n xs" "perm_in a b xs ys" "n \<le> length xs" "\<And>k. lo \<le> k * s \<Longrightarrow> k * s < hi \<Longrightarrow> k * s + s \<le> a \<or> b \<le> k * s"
  shows "runs s lo hi n ys"
  unfolding runs_def
proof (intro allI impI)
  fix k assume k: "lo \<le> k * s" "k * s < hi"
  have "min (k * s + s) n \<le> a \<or> b \<le> k * s" using assms(4) [OF k] by linarith
  then show "sorted_in (k * s) (min (k * s + s) n) ys"
    using assms(1,3) k sorted_in_outside [OF assms(2), of "min (k * s + s) n" "k * s"] by (simp add: runs_def)
qed

lemma block_le: "k * s < q * s \<Longrightarrow> k * s + s \<le> q * (s :: nat)"
proof -
  assume "k * s < q * s"
  then have "Suc k * s \<le> q * s" by (intro mult_le_mono1) (metis Suc_leI mult_less_cancel2)
  then show ?thesis by simp
qed

lemma runs_extend:
  assumes "runs s 0 (q * s) n xs" "sorted_in (q * s) (min (q * s + s) n) xs" "0 < s"
  shows "runs s 0 (q * s + s) n xs"
  unfolding runs_def
proof (intro allI impI)
  fix k assume k: "0 \<le> k * s" "k * s < q * s + s"
  then have "k * s < Suc q * s" by simp
  then have "k < q \<or> k = q" by (metis less_SucE mult_less_cancel2)
  then show "sorted_in (k * s) (min (k * s + s) n) xs" using assms by (auto simp: runs_def)
qed

lemma stable_blocks_runs:
  "runs 20 0 (q * 20) n (elems d) \<Longrightarrow> n = length (elems d) \<Longrightarrow> q * 20 \<le> n \<Longrightarrow>
    returns (stable_blocks I n d (q * 20) (q * 20 + 20)) (\<lambda>(d', a). \<exists>q'. a = q' * 20 \<and> n < a + 20 \<and> a \<le> n \<and>
      runs 20 0 a n (elems d') \<and> stable_perm (elems d) (elems d'))"
proof (induction "n - q * 20" arbitrary: q d rule: less_induct)
  case less
  show ?case
  proof (cases "q * 20 + 20 \<le> n")
    case False
    then show ?thesis using less.prems by (subst stable_blocks.simps) auto
  next
    case True
    have "returns (insertionSort I d (q * 20) (q * 20 + 20)) (\<lambda>d1. sorts (q * 20) (q * 20 + 20) (elems d) (elems d1))"
      using True less.prems by (intro insertionSort_sorts) simp
    then obtain d1 where d1: "insertionSort I d (q * 20) (q * 20 + 20) = Some d1" "sorts (q * 20) (q * 20 + 20) (elems d) (elems d1)"
      by (rule returnsE)
    have st: "stable_perm (elems d) (elems d1)" and p: "perm_in (q * 20) (q * 20 + 20) (elems d) (elems d1)"
      and so: "sorted_in (q * 20) (min (q * 20 + 20) n) (elems d1)" using d1(2) True by (simp_all add: sorts_def)
    have "runs 20 0 (q * 20) n (elems d1)" by (rule runs_perm [OF less.prems(1) p]) (use less.prems in auto)
    from runs_extend [OF this so] have "runs 20 0 (Suc q * 20) n (elems d1)" by (simp add: add.commute)
    then have "returns (stable_blocks I n d1 (Suc q * 20) (Suc q * 20 + 20)) (\<lambda>(d', a). \<exists>q'. a = q' * 20 \<and> n < a + 20 \<and> a \<le> n \<and>
      runs 20 0 a n (elems d') \<and> stable_perm (elems d1) (elems d'))"
      using True less.prems perm_in_length [OF p] by (intro less.hyps) simp_all
    then have "returns (stable_blocks I n d1 (Suc q * 20) (Suc q * 20 + 20)) (\<lambda>(d', a). \<exists>q'. a = q' * 20 \<and> n < a + 20 \<and> a \<le> n \<and>
      runs 20 0 a n (elems d') \<and> stable_perm (elems d) (elems d'))"
      by (rule returns_mono2) (use stable_perm_trans [OF st] in blast)
    moreover have "stable_blocks I n d (q * 20) (q * 20 + 20) = stable_blocks I n d1 (Suc q * 20) (Suc q * 20 + 20)"
      using True d1(1) by (subst stable_blocks.simps) (simp add: add.commute)
    ultimately show ?thesis by simp
  qed
qed

text \<open>A round of merges: blocks of \<open>s\<close> from \<open>a\<close> on, of \<open>2 s\<close> before.\<close>

lemma runs_pair:
  assumes "runs s a n n xs" "a = q * (2 * s)" "0 < s"
  shows "a < n \<Longrightarrow> sorted_in a (min (a + s) n) xs" "a + s < n \<Longrightarrow> sorted_in (a + s) (min (a + s + s) n) xs"
proof -
  have k: "a = (2 * q) * s" "a + s = (2 * q + 1) * s" using assms(2) by simp_all
  show "sorted_in a (min (a + s) n) xs" if "a < n" using assms(1) that unfolding runs_def by (metis k(1) order_refl)
  show "sorted_in (a + s) (min (a + s + s) n) xs" if "a + s < n"
    using assms(1) that unfolding runs_def by (metis k(2) le_add1)
qed

lemma runs_rest:
  assumes "runs s a n n xs" "perm_in a (a + 2 * s) xs ys" "length xs = n" "a = q * (2 * s)" "0 < s"
  shows "runs s (a + 2 * s) n n ys"
proof -
  have "runs s (a + 2 * s) n n xs" using assms(1) by (auto simp: runs_def)
  then show ?thesis by (rule runs_perm [OF _ assms(2)]) (use assms in auto)
qed

lemma merge_blocks_runs:
  "runs (2 * s) 0 a n (elems d) \<Longrightarrow> runs s a n n (elems d) \<Longrightarrow> a = q * (2 * s) \<Longrightarrow> a \<le> n \<Longrightarrow> n = length (elems d) \<Longrightarrow> 0 < s \<Longrightarrow>
    returns (merge_blocks I n s d a (a + 2 * s)) (\<lambda>(d', a'). \<exists>q'. a' = q' * (2 * s) \<and> n < a' + 2 * s \<and> a' \<le> n \<and>
      runs (2 * s) 0 a' n (elems d') \<and> runs s a' n n (elems d') \<and> stable_perm (elems d) (elems d'))"
proof (induction "n - a" arbitrary: a q d rule: less_induct)
  case less
  show ?case
  proof (cases "a + 2 * s \<le> n")
    case False
    then show ?thesis using less.prems by (subst merge_blocks.simps) auto
  next
    case True
    have "sorted_in a (a + s) (elems d)" "sorted_in (a + s) (a + 2 * s) (elems d)"
      using runs_pair [OF less.prems(2,3,6)] True less.prems(6) by (simp_all add: min_def mult_2 add.assoc)
    then have "returns (symMerge I d a (a + s) (a + 2 * s)) (\<lambda>d1. sorts a (a + 2 * s) (elems d) (elems d1))"
      using True less.prems by (intro symMerge_sorts) simp_all
    then obtain d1 where d1: "symMerge I d a (a + s) (a + 2 * s) = Some d1" "sorts a (a + 2 * s) (elems d) (elems d1)"
      by (rule returnsE)
    have st: "stable_perm (elems d) (elems d1)" and p: "perm_in a (a + 2 * s) (elems d) (elems d1)"
      and so: "sorted_in a (min (a + 2 * s) n) (elems d1)" using d1(2) True by (simp_all add: sorts_def)
    have "runs (2 * s) 0 a n (elems d1)"
      by (rule runs_perm [OF less.prems(1) p]) (use less.prems(3,5) block_le in auto)
    then have "runs (2 * s) 0 (a + 2 * s) n (elems d1)"
      using runs_extend [of "2 * s" q n "elems d1"] so less.prems(3,6) by simp
    moreover have "runs s (a + 2 * s) n n (elems d1)" by (rule runs_rest [OF less.prems(2) p]) (use less.prems in auto)
    moreover have "a + 2 * s = Suc q * (2 * s)" using less.prems(3) by simp
    ultimately have "returns (merge_blocks I n s d1 (a + 2 * s) (a + 2 * s + 2 * s)) (\<lambda>(d', a'). \<exists>q'. a' = q' * (2 * s) \<and> n < a' + 2 * s \<and> a' \<le> n \<and>
      runs (2 * s) 0 a' n (elems d') \<and> runs s a' n n (elems d') \<and> stable_perm (elems d1) (elems d'))"
      using True less.prems perm_in_length [OF p] by (intro less.hyps [of "a + 2 * s" d1 "Suc q"]) simp_all
    then have "returns (merge_blocks I n s d1 (a + 2 * s) (a + 2 * s + 2 * s)) (\<lambda>(d', a'). \<exists>q'. a' = q' * (2 * s) \<and> n < a' + 2 * s \<and> a' \<le> n \<and>
      runs (2 * s) 0 a' n (elems d') \<and> runs s a' n n (elems d') \<and> stable_perm (elems d) (elems d'))"
      by (rule returns_mono2) (use stable_perm_trans [OF st] in blast)
    then show ?thesis using True d1(1) by (subst merge_blocks.simps) simp
  qed
qed

lemma stable_merges_sorted:
  "runs s 0 n n (elems d) \<Longrightarrow> n = length (elems d) \<Longrightarrow> 0 < s \<Longrightarrow>
    returns (stable_merges I n d s) (\<lambda>d'. stable_perm (elems d) (elems d') \<and> sorted_in 0 n (elems d'))"
proof (induction "n - s" arbitrary: s d rule: less_induct)
  case less
  show ?case
  proof (cases "s < n")
    case False
    have "sorted_in 0 n (elems d)"
    proof (cases "n = 0")
      case True
      then show ?thesis by (simp add: sorted_in_def)
    next
      case n: False
      then have "sorted_in (0 * s) (min (0 * s + s) n) (elems d)" using less.prems(1) unfolding runs_def by (metis le0 mult_0 neq0_conv)
      then show ?thesis using False by (simp add: min_def split: if_splits)
    qed
    then show ?thesis using False by (subst stable_merges.simps) simp
  next
    case True
    have "returns (merge_blocks I n s d 0 (0 + 2 * s)) (\<lambda>(d', a'). \<exists>q'. a' = q' * (2 * s) \<and> n < a' + 2 * s \<and> a' \<le> n \<and>
      runs (2 * s) 0 a' n (elems d') \<and> runs s a' n n (elems d') \<and> stable_perm (elems d) (elems d'))"
      by (rule merge_blocks_runs [where q = 0]) (use less.prems in \<open>simp_all add: runs_def\<close>)
    then obtain d1 a q where d1: "merge_blocks I n s d 0 (2 * s) = Some (d1, a)" "a = q * (2 * s)" "n < a + 2 * s" "a \<le> n"
      "runs (2 * s) 0 a n (elems d1)" "runs s a n n (elems d1)" "stable_perm (elems d) (elems d1)" by (auto simp: returns_def)
    have len: "length (elems d1) = n" using stable_perm_length [OF d1(7)] less.prems(2) by simp
    have "returns (if a + s < n then symMerge I d1 a (a + s) n else Some d1)
      (\<lambda>d2. stable_perm (elems d) (elems d2) \<and> runs (2 * s) 0 n n (elems d2))"
    proof (cases "a + s < n")
      case True
      have "sorted_in a (a + s) (elems d1)" "sorted_in (a + s) n (elems d1)"
        using runs_pair [OF d1(6,2) less.prems(3)] True d1(3) by (simp_all add: min_def mult_2 split: if_splits)
      then have "returns (symMerge I d1 a (a + s) n) (\<lambda>d2. sorts a n (elems d1) (elems d2))"
        using True less.prems(3) len by (intro symMerge_sorts) simp_all
      then have "returns (symMerge I d1 a (a + s) n) (\<lambda>d2. stable_perm (elems d) (elems d2) \<and> runs (2 * s) 0 n n (elems d2))"
      proof (rule returns_mono)
        fix d2 assume s2: "sorts a n (elems d1) (elems d2)"
        have p: "perm_in a n (elems d1) (elems d2)" "sorted_in a n (elems d2)" using s2 by (simp_all add: sorts_def)
        have "runs (2 * s) 0 a n (elems d2)" by (rule runs_perm [OF d1(5) p(1)]) (use d1(2) len block_le in auto)
        then have "runs (2 * s) 0 (a + 2 * s) n (elems d2)"
          using runs_extend [of "2 * s" q n "elems d2"] p(2) d1(2,3) less.prems(3) by (simp add: min_def split: if_splits)
        then have "runs (2 * s) 0 n n (elems d2)" using d1(3) by (auto simp: runs_def)
        then show "stable_perm (elems d) (elems d2) \<and> runs (2 * s) 0 n n (elems d2)"
          using s2 stable_perm_trans [OF d1(7)] by (simp add: sorts_def)
      qed
      then show ?thesis using True by simp
    next
      case False
      have "sorted_in a (min (a + 2 * s) n) (elems d1)"
      proof (cases "a < n")
        case True
        then show ?thesis using runs_pair(1) [OF d1(6,2) less.prems(3)] False by (simp add: min_def split: if_splits)
      qed (auto simp: sorted_in_def)
      then have "runs (2 * s) 0 (a + 2 * s) n (elems d1)" using runs_extend [of "2 * s" q n "elems d1"] d1(2,5) less.prems(3) by simp
      then have "runs (2 * s) 0 n n (elems d1)" using d1(3) by (auto simp: runs_def)
      then show ?thesis using False d1(7) by simp
    qed
    then obtain d2 where d2: "(if a + s < n then symMerge I d1 a (a + s) n else Some d1) = Some d2"
      "stable_perm (elems d) (elems d2)" "runs (2 * s) 0 n n (elems d2)" by (auto simp: returns_def)
    have "returns (stable_merges I n d2 (2 * s)) (\<lambda>d'. stable_perm (elems d2) (elems d') \<and> sorted_in 0 n (elems d'))"
      using True d2(3) stable_perm_length [OF d2(2)] less.prems by (intro less.hyps) simp_all
    then have "returns (stable_merges I n d2 (2 * s)) (\<lambda>d'. stable_perm (elems d) (elems d') \<and> sorted_in 0 n (elems d'))"
      by (rule returns_mono) (use stable_perm_trans [OF d2(2)] in blast)
    moreover have "stable_merges I n d s = stable_merges I n d2 (2 * s)"
      using True d1(1) d2(1) by (subst stable_merges.simps) (simp add: mult.commute)
    ultimately show ?thesis by simp
  qed
qed

lemma Stable_sorted:
  "returns (Stable I d) (\<lambda>d'. stable_perm (elems d) (elems d') \<and> sorted_in 0 (length (elems d)) (elems d'))"
proof -
  define n where "n = length (elems d)"
  have "returns (stable_blocks I n d (0 * 20) (0 * 20 + 20)) (\<lambda>(d', a). \<exists>q'. a = q' * 20 \<and> n < a + 20 \<and> a \<le> n \<and>
      runs 20 0 a n (elems d') \<and> stable_perm (elems d) (elems d'))"
    by (rule stable_blocks_runs) (simp_all add: runs_def n_def)
  then obtain d1 a q where d1: "stable_blocks I n d 0 20 = Some (d1, a)" "a = q * 20" "n < a + 20" "a \<le> n"
    "runs 20 0 a n (elems d1)" "stable_perm (elems d) (elems d1)" by (auto simp: returns_def)
  have len1: "length (elems d1) = n" using stable_perm_length [OF d1(6)] by (simp add: n_def)
  obtain d2 where d2: "insertionSort I d1 a n = Some d2" "sorts a n (elems d1) (elems d2)"
    by (rule returnsE [OF insertionSort_sorts [of n d1 a]]) (use len1 in simp_all)
  have st: "stable_perm (elems d) (elems d2)" using d2(2) stable_perm_trans [OF d1(6)] by (simp add: sorts_def)
  have p: "perm_in a n (elems d1) (elems d2)" "sorted_in a n (elems d2)" using d2(2) by (simp_all add: sorts_def)
  have "runs 20 0 a n (elems d2)" by (rule runs_perm [OF d1(5) p(1)]) (use d1(2) len1 in auto)
  then have "runs 20 0 (a + 20) n (elems d2)"
    using runs_extend [of 20 q n "elems d2"] p(2) d1(2,3) by (simp add: min_def split: if_splits)
  then have "runs 20 0 n n (elems d2)" using d1(3) by (auto simp: runs_def)
  then have "returns (stable_merges I n d2 20) (\<lambda>d'. stable_perm (elems d2) (elems d') \<and> sorted_in 0 n (elems d'))"
    using stable_perm_length [OF st] by (intro stable_merges_sorted) (simp_all add: n_def)
  then have "returns (stable_merges I n d2 20) (\<lambda>d'. stable_perm (elems d) (elems d') \<and> sorted_in 0 n (elems d'))"
    by (rule returns_mono) (use stable_perm_trans [OF st] in blast)
  then show ?thesis using d1(1) d2(1) by (simp add: Stable_def stable_def Len flip: n_def)
qed

end

end
