(* ===== verification/SortSlices.thy ===== *)
theory SortSlices
  imports StableSort
begin

text \<open>
  The slice types of \<open>sort.go\<close>, \<open>Reverse\<close> and \<open>IsSorted\<close>, and binary search (\<open>search.go\<close>).  The contracts of
  \<open>SortBounds\<close> and \<open>SortOrder\<close> are interpreted here on the slice types.  \<open>int\<close> is a 64-bit word read with \<open>sint\<close>, a
  string a list of bytes, a \<open>float64\<close> the 64 bits of its IEEE 754 representation.
\<close>

unbundle bit_operations_syntax

subsection \<open>Slices as collections\<close>

definition at :: "'x list \<Rightarrow> nat \<Rightarrow> 'x go" where
  "at x i = (if i < length x then Some (x ! i) else None)"

definition slice_Len :: "'x list \<Rightarrow> nat" where
  "slice_Len x = length x"

definition slice_Less :: "('x \<Rightarrow> 'x \<Rightarrow> bool) \<Rightarrow> 'x list \<Rightarrow> nat \<Rightarrow> nat \<Rightarrow> bool go" where
  "slice_Less lt x i j = do { a \<leftarrow> at x i; b \<leftarrow> at x j; Some (lt a b) }"

definition slice_Swap :: "'x list \<Rightarrow> nat \<Rightarrow> nat \<Rightarrow> 'x list go" where
  "slice_Swap x i j = do { b \<leftarrow> at x j; a \<leftarrow> at x i; Some (x[i := b, j := a]) }"

definition slice :: "('x \<Rightarrow> 'x \<Rightarrow> bool) \<Rightarrow> 'x list Interface" where
  "slice lt = \<lparr>iLen = slice_Len, iLess = slice_Less lt, iSwap = slice_Swap\<rparr>"

definition int_less :: "uint64 \<Rightarrow> uint64 \<Rightarrow> bool" where
  "int_less a b \<longleftrightarrow> sint a < sint b"

definition IntSlice :: "uint64 list Interface" where
  "IntSlice = slice int_less"

fun str_less :: "uint8 list \<Rightarrow> uint8 list \<Rightarrow> bool" where
  "str_less s [] \<longleftrightarrow> False"
| "str_less [] (b # t) \<longleftrightarrow> True"
| "str_less (a # s) (b # t) \<longleftrightarrow> a < b \<or> a = b \<and> str_less s t"

definition StringSlice :: "uint8 list list Interface" where
  "StringSlice = slice str_less"

text \<open>\<open>==\<close> and \<open><\<close> of IEEE 754: sign and magnitude, the zeros are equal, a NaN compares false with everything.\<close>

definition float_nan :: "uint64 \<Rightarrow> bool" where
  "float_nan x \<longleftrightarrow> x AND 0x7FFFFFFFFFFFFFFF > 0x7FF0000000000000"

definition float_value :: "uint64 \<Rightarrow> int" where
  "float_value x = (let m = int (unat (x AND 0x7FFFFFFFFFFFFFFF)) in if bit x 63 then - m else m)"

definition float_eq :: "uint64 \<Rightarrow> uint64 \<Rightarrow> bool" where
  "float_eq x y \<longleftrightarrow> \<not> float_nan x \<and> \<not> float_nan y \<and> float_value x = float_value y"

definition float_less :: "uint64 \<Rightarrow> uint64 \<Rightarrow> bool" where
  "float_less x y \<longleftrightarrow> \<not> float_nan x \<and> \<not> float_nan y \<and> float_value x < float_value y"

definition isNaN :: "uint64 \<Rightarrow> bool" where
  "isNaN f \<longleftrightarrow> \<not> float_eq f f"

definition Float64Slice :: "uint64 list Interface" where
  "Float64Slice = slice (\<lambda>a b. float_less a b \<or> isNaN a \<and> \<not> isNaN b)"

subsection \<open>Binary search\<close>

text \<open>\<open>int(uint(i+j) >> 1)\<close> is the shift of the 64 bits of \<open>i + j\<close>, whose sum may leave the range of \<open>int\<close>.  The closure
  may panic, so it returns in \<open>'a go\<close>.\<close>

partial_function (option) Search_loop :: "(uint64 \<Rightarrow> bool go) \<Rightarrow> uint64 \<Rightarrow> uint64 \<Rightarrow> uint64 go" where
  "Search_loop f i j =
     (if sint i < sint j then
        let h = drop_bit 1 (i + j) in do { r \<leftarrow> f h; if \<not> r then Search_loop f (h + 1) j else Search_loop f i h }
      else Some i)"

definition Search :: "uint64 \<Rightarrow> (uint64 \<Rightarrow> bool go) \<Rightarrow> uint64 go" where
  "Search n f = Search_loop f 0 n"

partial_function (option) Find_loop :: "(uint64 \<Rightarrow> uint64 go) \<Rightarrow> uint64 \<Rightarrow> uint64 \<Rightarrow> uint64 go" where
  "Find_loop cmp i j =
     (if sint i < sint j then
        let h = drop_bit 1 (i + j) in do { r \<leftarrow> cmp h; if sint r > 0 then Find_loop cmp (h + 1) j else Find_loop cmp i h }
      else Some i)"

definition Find :: "uint64 \<Rightarrow> (uint64 \<Rightarrow> uint64 go) \<Rightarrow> (uint64 \<times> bool) go" where
  "Find n cmp = do {
     i \<leftarrow> Find_loop cmp 0 n;
     if sint i < sint n then do { r \<leftarrow> cmp i; Some (i, r = 0) } else Some (i, False)
   }"

definition SearchInts :: "uint64 list \<Rightarrow> uint64 \<Rightarrow> uint64 go" where
  "SearchInts a x = Search (of_nat (length a)) (\<lambda>i. do { y \<leftarrow> idx a i; Some (sint y \<ge> sint x) })"

definition SearchStrings :: "uint8 list list \<Rightarrow> uint8 list \<Rightarrow> uint64 go" where
  "SearchStrings a x = Search (of_nat (length a)) (\<lambda>i. do { y \<leftarrow> idx a i; Some (\<not> str_less y x) })"

definition SearchFloat64s :: "uint64 list \<Rightarrow> uint64 \<Rightarrow> uint64 go" where
  "SearchFloat64s a x = Search (of_nat (length a)) (\<lambda>i. do { y \<leftarrow> idx a i; Some (float_less x y \<or> float_eq x y) })"

subsection \<open>Interpretations\<close>

lemma slice_Less_ok: "i < length x \<Longrightarrow> j < length x \<Longrightarrow> slice_Less lt x i j = Some (lt (x ! i) (x ! j))"
  by (simp add: slice_Less_def at_def)

lemma slice_Swap_ok: "i < length x \<Longrightarrow> j < length x \<Longrightarrow> slice_Swap x i j = Some (swap_at x i j)"
  by (simp add: slice_Swap_def at_def swap_at_def)

interpretation any_slice: collection "slice lt" "\<lambda>x. x" lt for lt
  by unfold_locales (simp_all add: slice_def slice_Len_def slice_Less_ok slice_Swap_ok)

definition weak_order :: "('x \<Rightarrow> 'x \<Rightarrow> bool) \<Rightarrow> bool" where
  "weak_order lt \<longleftrightarrow> (\<forall>x. \<not> lt x x) \<and> (\<forall>x y z. lt x y \<longrightarrow> lt y z \<longrightarrow> lt x z) \<and> (\<forall>x y z. \<not> lt x y \<longrightarrow> \<not> lt y z \<longrightarrow> \<not> lt x z)"

lemma weak_order_key: "weak_order (\<lambda>a b. key a < (key b :: 'k::linorder))"
  by (auto simp: weak_order_def)

lemma ordered_slice:
  assumes "weak_order lt"
  shows "ordered_collection (slice lt) (\<lambda>x. x) lt"
proof (intro ordered_collection.intro ordered_collection_axioms.intro any_slice.collection_axioms)
  fix x y z
  show "\<not> lt x x" "lt x y \<Longrightarrow> lt y z \<Longrightarrow> lt x z" "\<not> lt x y \<Longrightarrow> \<not> lt y z \<Longrightarrow> \<not> lt x z"
    using assms unfolding weak_order_def by blast+
qed

interpretation ints: ordered_collection IntSlice "\<lambda>x. x" int_less
  unfolding IntSlice_def by (rule ordered_slice) (simp add: int_less_def [abs_def] weak_order_key)

lemma str_less_irrefl: "\<not> str_less s s"
  by (induction s) simp_all

lemma str_less_trans: "str_less s t \<Longrightarrow> str_less t u \<Longrightarrow> str_less s u"
  by (induction s t arbitrary: u rule: str_less.induct) (case_tac u; auto)+

lemma str_less_total: "str_less s t \<or> s = t \<or> str_less t s"
proof (induction s t rule: str_less.induct)
  case (1 s)
  then show ?case by (cases s) simp_all
next
  case (3 a s b t)
  then show ?case by (cases a b rule: linorder_cases) auto
qed simp

interpretation strings: ordered_collection StringSlice "\<lambda>x. x" str_less
  unfolding StringSlice_def
proof (rule ordered_slice, unfold weak_order_def, intro conjI allI impI)
  fix s t u :: "uint8 list" assume "\<not> str_less s t" "\<not> str_less t u"
  then show "\<not> str_less s u" using str_less_total str_less_trans by metis
qed (auto simp: str_less_irrefl intro: str_less_trans)

text \<open>A NaN sorts before every number: the order of \<open>Float64Slice\<close> is that of a rank.\<close>

definition float_rank :: "uint64 \<Rightarrow> int" where
  "float_rank x = (if float_nan x then - (2 ^ 64) else float_value x)"

lemma float_value_bound: "- (2 ^ 64) < float_value x"
proof -
  define v where "v = x AND 0x7FFFFFFFFFFFFFFF"
  have "0 \<le> uint v" "uint v < 2 ^ 64" using unsigned_greater_eq [of v] unsigned_less [of v] by simp_all
  then have "- (2 ^ 64) < uint v" "- (2 ^ 64) < - uint v" by linarith+
  then show ?thesis unfolding float_value_def Let_def v_def [symmetric] by simp
qed

lemma float64_less: "float_less a b \<or> isNaN a \<and> \<not> isNaN b \<longleftrightarrow> float_rank a < float_rank b"
  using float_value_bound [of a] float_value_bound [of b]
  by (auto simp: float_less_def isNaN_def float_eq_def float_rank_def)

interpretation floats: ordered_collection Float64Slice "\<lambda>x. x" "\<lambda>a b. float_less a b \<or> isNaN a \<and> \<not> isNaN b"
  unfolding Float64Slice_def by (rule ordered_slice) (simp add: float64_less weak_order_key)

context ordered_collection
begin

text \<open>\<open>Reverse\<close> of a collection is a collection with the opposite order.\<close>

lemma reversed: "ordered_collection (Reverse I) elems (\<lambda>x y. lt y x)"
proof unfold_locales
  show "iLen (Reverse I) d = length (elems d)" for d by (simp add: Reverse_def Len)
  show "iLess (Reverse I) d i j = Some (lt (elems d ! j) (elems d ! i))" if "i < length (elems d)" "j < length (elems d)" for d i j
    using Less [OF that(2,1)] by (simp add: Reverse_def)
  show "\<exists>d'. iSwap (Reverse I) d i j = Some d' \<and> elems d' = swap_at (elems d) i j" if "i < length (elems d)" "j < length (elems d)" for d i j
    using Swap [OF that] by (simp add: Reverse_def)
qed (use lt_irrefl lt_trans not_lt_trans in blast)+

lemma is_sorted_loop_iff:
  "i < length (elems d) \<or> i = 0 \<Longrightarrow> is_sorted_loop I d i = Some (\<forall>k. 0 < k \<longrightarrow> k \<le> i \<longrightarrow> le (elems d ! (k - 1)) (elems d ! k))"
proof (induction i)
  case 0
  then show ?case by (subst is_sorted_loop.simps) simp
next
  case (Suc i)
  then show ?case by (subst is_sorted_loop.simps) (auto simp: Less le_Suc_eq)
qed

lemma IsSorted_iff: "IsSorted I d = Some (sorted_in 0 (length (elems d)) (elems d))"
proof -
  have "is_sorted_loop I d (length (elems d) - 1) =
      Some (\<forall>k. 0 < k \<longrightarrow> k \<le> length (elems d) - 1 \<longrightarrow> le (elems d ! (k - 1)) (elems d ! k))"
    by (rule is_sorted_loop_iff) linarith
  also have "(\<forall>k. 0 < k \<longrightarrow> k \<le> length (elems d) - 1 \<longrightarrow> le (elems d ! (k - 1)) (elems d ! k)) = sorted_in 0 (length (elems d)) (elems d)"
    by (auto intro!: sorted_in_adjacent) (auto simp: sorted_in_def)
  finally show ?thesis by (simp add: IsSorted_def Len Let_def)
qed

end

interpretation reversed_ints: ordered_collection "Reverse IntSlice" "\<lambda>x. x" "\<lambda>a b. int_less b a"
  by (rule ints.reversed)

interpretation reversed_floats: ordered_collection "Reverse Float64Slice" "\<lambda>x. x" "\<lambda>a b. float_less b a \<or> isNaN b \<and> \<not> isNaN a"
  by (rule floats.reversed)

subsection \<open>Binary search is correct\<close>

lemma sint64: "sint (x :: uint64) = (if unat x < 2 ^ 63 then int (unat x) else int (unat x) - 2 ^ 64)"
proof -
  define n where "n = unat x"
  have n: "uint x = int n" "n < 2 ^ 64" using unat_less_2p64 [of x] by (simp_all add: n_def)
  have "(int n + 2 ^ 63) mod 2 ^ 64 = (if n < 2 ^ 63 then int n + 2 ^ 63 else int n - 2 ^ 63)"
  proof (cases "n < 2 ^ 63")
    case False
    then have "(int n - 2 ^ 63 + 2 ^ 64) mod 2 ^ 64 = int n - 2 ^ 63" using n(2) by (simp only: mod_add_self2) simp
    then show ?thesis using False by (simp add: add.commute)
  qed simp
  then show ?thesis unfolding n_def [symmetric]
    by (simp add: sint_uint signed_take_bit_eq_take_bit_shift take_bit_eq_mod n(1))
qed

lemma sint_nonneg: "0 \<le> sint (x :: uint64) \<Longrightarrow> unat x < 2 ^ 63"
proof (rule ccontr)
  assume a: "0 \<le> sint x" "\<not> unat x < 2 ^ 63"
  have "int (unat x) < 2 ^ 64" using unat_less_2p64 [of x] by (metis of_nat_less_numeral_power_cancel_iff)
  then show False using a unfolding sint64 [of x] if_not_P [OF a(2)] by linarith
qed

lemma sint_less:
  fixes x y :: uint64
  assumes "unat x < 2 ^ 63" "unat y < 2 ^ 63"
  shows "sint x < sint y \<longleftrightarrow> unat x < unat y"
  unfolding sint64 [of x] sint64 [of y] if_P [OF assms(1)] if_P [OF assms(2)] by (rule of_nat_less_iff)

lemma midpoint:
  fixes i j :: uint64
  assumes "unat i < unat j" "unat j < 2 ^ 63"
  shows "unat (drop_bit 1 (i + j)) = (unat i + unat j) div 2"
proof -
  have "unat (i + j) = unat i + unat j" using assms by (intro unat_add_small) simp
  moreover have "unat (drop_bit 1 (i + j)) = unat (i + j) div 2 ^ 1" by (metis unat_drop_bit_eq drop_bit_eq_div)
  ultimately show ?thesis by simp
qed

text \<open>What the search guarantees for a border of \<open>P\<close> in \<open>[i, j)\<close>, monotone or not.\<close>

definition border_in :: "(nat \<Rightarrow> bool) \<Rightarrow> nat \<Rightarrow> nat \<Rightarrow> nat \<Rightarrow> bool" where
  "border_in P i j r \<longleftrightarrow> i \<le> r \<and> r \<le> j \<and> (i < r \<longrightarrow> \<not> P (r - 1)) \<and> (r < j \<longrightarrow> P r)"

lemma border_step:
  assumes "i \<le> h" "h < j" "if P h then border_in P i h r else border_in P (h + 1) j r"
  shows "border_in P i j r"
  using assms by (auto simp: border_in_def split: if_splits)

lemma Search_loop_border:
  "unat i \<le> unat j \<Longrightarrow> unat j < 2 ^ 63 \<Longrightarrow> (\<And>k. unat i \<le> unat k \<Longrightarrow> unat k < unat j \<Longrightarrow> f k = Some (P (unat k))) \<Longrightarrow>
    returns (Search_loop f i j) (\<lambda>r. border_in P (unat i) (unat j) (unat r))"
proof (induction "unat j - unat i" arbitrary: i j rule: less_induct)
  case less
  have s: "sint i < sint j \<longleftrightarrow> unat i < unat j" using less.prems by (intro sint_less) simp_all
  show ?case
  proof (cases "unat i < unat j")
    case False
    then show ?thesis using less.prems s by (subst Search_loop.simps) (simp add: border_in_def)
  next
    case True
    define h where "h = drop_bit 1 (i + j)"
    have h: "unat h = (unat i + unat j) div 2" unfolding h_def using True less.prems(2) by (rule midpoint)
    then have hb: "unat i \<le> unat h" "unat h < unat j" using True by linarith+
    then have h1: "unat (h + 1) = unat h + 1" using unat_add_small [of h 1] less.prems(2) by simp
    have f: "f h = Some (P (unat h))" by (rule less.prems(3) [OF hb])
    have "returns (if P (unat h) then Search_loop f i h else Search_loop f (h + 1) j) (\<lambda>r. border_in P (unat i) (unat j) (unat r))"
    proof (cases "P (unat h)")
      case True
      have "returns (Search_loop f i h) (\<lambda>r. border_in P (unat i) (unat h) (unat r))"
        using hb less.prems by (intro less.hyps) simp_all
      then show ?thesis using True border_step [OF hb, of P] by (auto elim!: returns_mono)
    next
      case False
      have "returns (Search_loop f (h + 1) j) (\<lambda>r. border_in P (unat (h + 1)) (unat j) (unat r))"
        using hb h1 less.prems by (intro less.hyps) simp_all
      then show ?thesis using False h1 border_step [OF hb, of P] by (auto elim!: returns_mono)
    qed
    then show ?thesis unfolding Search_loop.simps [of f i j] Let_def h_def [symmetric] using True s f by (simp split: if_splits)
  qed
qed

lemma Find_loop_Search: "(\<And>k. unat i \<le> unat k \<Longrightarrow> unat k < unat j \<Longrightarrow> \<exists>r. cmp k = Some r) \<Longrightarrow> unat i \<le> unat j \<Longrightarrow> unat j < 2 ^ 63 \<Longrightarrow>
    Find_loop cmp i j = Search_loop (\<lambda>k. do { r \<leftarrow> cmp k; Some (\<not> sint r > 0) }) i j"
proof (induction "unat j - unat i" arbitrary: i j rule: less_induct)
  case less
  have s: "sint i < sint j \<longleftrightarrow> unat i < unat j" using less.prems by (intro sint_less) simp_all
  show ?case
  proof (cases "unat i < unat j")
    case False
    then show ?thesis using s by (subst Search_loop.simps, subst Find_loop.simps) simp
  next
    case True
    define h where "h = drop_bit 1 (i + j)"
    have h: "unat h = (unat i + unat j) div 2" unfolding h_def using True less.prems(3) by (rule midpoint)
    then have hb: "unat i \<le> unat h" "unat h < unat j" using True by linarith+
    then have h1: "unat (h + 1) = unat h + 1" using unat_add_small [of h 1] less.prems(3) by simp
    obtain r where r: "cmp h = Some r" using less.prems(1) [OF hb] by blast
    have "Find_loop cmp (h + 1) j = Search_loop (\<lambda>k. do { r \<leftarrow> cmp k; Some (\<not> sint r > 0) }) (h + 1) j"
      "Find_loop cmp i h = Search_loop (\<lambda>k. do { r \<leftarrow> cmp k; Some (\<not> sint r > 0) }) i h"
      using hb h1 less.prems by (intro less.hyps; simp)+
    then show ?thesis
      unfolding Search_loop.simps [of _ i j] Find_loop.simps [of _ i j] Let_def h_def [symmetric] using True s r by simp
  qed
qed

text \<open>With a monotone predicate the border splits the range.\<close>

lemma border_monotone:
  assumes "border_in P 0 n r" "\<And>i j. i < j \<Longrightarrow> j < n \<Longrightarrow> P i \<Longrightarrow> P j"
  shows "k < r \<Longrightarrow> \<not> P k" "r \<le> k \<Longrightarrow> k < n \<Longrightarrow> P k"
proof -
  show "\<not> P k" if "k < r"
  proof
    assume "P k"
    moreover have "r \<le> n" "\<not> P (r - 1)" using assms(1) that by (auto simp: border_in_def)
    moreover from this have "k = r - 1 \<or> k < r - 1" "r - 1 < n" using that by linarith+
    ultimately show False using assms(2) [of k "r - 1"] by auto
  qed
  show "P k" if "r \<le> k" "k < n"
  proof (cases "k = r")
    case False
    then show ?thesis using assms(1) assms(2) [of r k] that by (auto simp: border_in_def)
  qed (use assms(1) that in \<open>auto simp: border_in_def\<close>)
qed

lemma Search_split:
  assumes "0 \<le> sint n" "\<And>k. unat k < unat n \<Longrightarrow> f k = Some (P (unat k))" "\<And>i j. i < j \<Longrightarrow> j < unat n \<Longrightarrow> P i \<Longrightarrow> P j"
  shows "\<exists>r. Search n f = Some r \<and> unat r \<le> unat n \<and> (\<forall>k<unat r. \<not> P k) \<and> (\<forall>k. unat r \<le> k \<and> k < unat n \<longrightarrow> P k)"
proof -
  have "returns (Search_loop f 0 n) (\<lambda>r. border_in P (unat (0 :: uint64)) (unat n) (unat r))"
    by (rule Search_loop_border) (use sint_nonneg [OF assms(1)] assms(2) in simp_all)
  then obtain r where r: "Search n f = Some r" "border_in P 0 (unat n) (unat r)" by (auto simp: returns_def Search_def)
  then have "unat r \<le> unat n" by (simp add: border_in_def)
  then show ?thesis using r(1) border_monotone [OF r(2) assms(3)] by (intro exI [of _ r] conjI allI impI) auto
qed

lemma Find_split:
  assumes "0 \<le> sint n" "\<And>k. unat k < unat n \<Longrightarrow> cmp k = Some (c (unat k))"
    "\<And>i j. i < j \<Longrightarrow> j < unat n \<Longrightarrow> sint (c i) \<le> 0 \<Longrightarrow> sint (c j) \<le> 0"
  shows "\<exists>r. Find n cmp = Some (r, unat r < unat n \<and> c (unat r) = 0) \<and> unat r \<le> unat n \<and> (\<forall>k<unat r. sint (c k) > 0) \<and>
    (\<forall>k. unat r \<le> k \<and> k < unat n \<longrightarrow> sint (c k) \<le> 0)"
proof -
  have n: "unat n < 2 ^ 63" by (rule sint_nonneg [OF assms(1)])
  have "\<exists>r. Search n (\<lambda>k. do { r \<leftarrow> cmp k; Some (\<not> sint r > 0) }) = Some r \<and> unat r \<le> unat n \<and>
      (\<forall>k<unat r. \<not> sint (c k) \<le> 0) \<and> (\<forall>k. unat r \<le> k \<and> k < unat n \<longrightarrow> sint (c k) \<le> 0)"
    by (rule Search_split [OF assms(1)]) (use assms(2,3) in \<open>auto simp: not_less\<close>)
  then obtain r where r: "Search n (\<lambda>k. do { r \<leftarrow> cmp k; Some (\<not> sint r > 0) }) = Some r" "unat r \<le> unat n"
    "\<forall>k<unat r. \<not> sint (c k) \<le> 0" "\<forall>k. unat r \<le> k \<and> k < unat n \<longrightarrow> sint (c k) \<le> 0" by blast
  have "Find_loop cmp 0 n = Some r"
    using r(1) Find_loop_Search [of 0 n cmp] assms(2) n by (simp add: Search_def)
  moreover have "sint r < sint n \<longleftrightarrow> unat r < unat n" using r(2) n by (intro sint_less) simp_all
  ultimately have "Find n cmp = Some (r, unat r < unat n \<and> c (unat r) = 0)" using assms(2) [of r] by (simp add: Find_def)
  then show ?thesis using r(2-4) by (intro exI [of _ r]) auto
qed

lemma SearchInts_split:
  assumes "sorted (map sint (a :: uint64 list))" "length a < 2 ^ 63"
  shows "\<exists>r. SearchInts a x = Some r \<and> (\<forall>y\<in>set (take (unat r) a). sint y < sint x) \<and> (\<forall>y\<in>set (drop (unat r) a). sint x \<le> sint y)"
proof -
  have n: "unat (of_nat (length a) :: uint64) = length a" using assms(2) by (intro unat_of_nat_small) simp
  have "\<exists>r. Search (of_nat (length a)) (\<lambda>i. do { y \<leftarrow> idx a i; Some (sint y \<ge> sint x) }) = Some r \<and> unat r \<le> unat (of_nat (length a) :: uint64) \<and>
      (\<forall>k<unat r. \<not> sint x \<le> sint (a ! k)) \<and> (\<forall>k. unat r \<le> k \<and> k < unat (of_nat (length a) :: uint64) \<longrightarrow> sint x \<le> sint (a ! k))"
  proof (rule Search_split)
    show "0 \<le> sint (of_nat (length a) :: uint64)" unfolding sint64 n using assms(2) by simp
    show "do { y \<leftarrow> idx a k; Some (sint y \<ge> sint x) } = Some (sint x \<le> sint (a ! unat k))" if "unat k < unat (of_nat (length a) :: uint64)" for k
      using that unfolding n by (simp add: idx_ok)
    show "sint x \<le> sint (a ! j)" if "i < j" "j < unat (of_nat (length a) :: uint64)" "sint x \<le> sint (a ! i)" for i j
      using that assms(1) sorted_nth_mono [OF assms(1), of i j] unfolding n by simp
  qed
  then show ?thesis unfolding n SearchInts_def by (auto simp: in_set_conv_nth not_le)
qed

subsection \<open>Sorting slices\<close>

lemma Sort_slice:
  assumes "weak_order lt" "length x < 2 ^ 63"
  obtains y where "Sort (slice lt) x = Some y" "mset y = mset x" "sorted_wrt (\<lambda>a b. \<not> lt b a) y" "IsSorted (slice lt) y = Some True"
proof -
  note o = ordered_slice [OF assms(1)]
  obtain y where y: "Sort (slice lt) x = Some y" "mset y = mset x" "ordered_collection.sorted_in lt 0 (length x) y"
    using ordered_collection.Sort_sorted [OF o, of x] assms(2) by (auto simp: returns_def)
  have l: "length x = length y" using y(2) by (metis size_mset)
  have s: "sorted_wrt (\<lambda>a b. \<not> lt b a) y" using y(3) unfolding ordered_collection.sorted_in_whole [OF o l] .
  have "IsSorted (slice lt) y = Some (ordered_collection.sorted_in lt 0 (length y) y)"
    by (rule ordered_collection.IsSorted_iff [OF o])
  then show ?thesis using y(3) l by (intro that [OF y(1,2) s]) simp
qed

lemma Stable_slice:
  assumes "weak_order lt"
  obtains y where "Stable (slice lt) x = Some y" "mset y = mset x" "sorted_wrt (\<lambda>a b. \<not> lt b a) y"
    "\<forall>z. filter (\<lambda>b. \<not> lt b z \<and> \<not> lt z b) y = filter (\<lambda>b. \<not> lt b z \<and> \<not> lt z b) x"
proof -
  note o = ordered_slice [OF assms(1)]
  obtain y where y: "Stable (slice lt) x = Some y" "ordered_collection.stable_perm lt x y" "ordered_collection.sorted_in lt 0 (length x) y"
    using ordered_collection.Stable_sorted [OF o, of x] by (auto simp: returns_def)
  have f: "mset y = mset x" "\<forall>z. filter (\<lambda>b. \<not> lt b z \<and> \<not> lt z b) y = filter (\<lambda>b. \<not> lt b z \<and> \<not> lt z b) x"
    using y(2) unfolding ordered_collection.stable_perm_def [OF o] ordered_collection.eqv_def [OF o] by blast+
  have l: "length x = length y" using f(1) by (metis size_mset)
  show ?thesis using y(3) unfolding ordered_collection.sorted_in_whole [OF o l] by (intro that [OF y(1) f(1) _ f(2)])
qed

lemma int_sort_unique:
  assumes "mset y = mset x" "sorted (map sint (y :: uint64 list))"
  shows "sort_key sint x = y"
proof (rule properties_for_sort_key)
  fix k assume "k \<in> set y"
  show "filter (\<lambda>a. sint k = sint a) y = filter (\<lambda>a. sint k = sint a) x"
  proof -
    have e: "(\<lambda>a. sint k = sint a) = (\<lambda>a. a = k)" by (auto dest: signed_word_eqI)
    have "filter (\<lambda>a. a = k) zs = replicate (count (mset zs) k) k" for zs :: "uint64 list" by (induction zs) auto
    then show ?thesis unfolding e by (simp add: assms(1))
  qed
qed (use assms in simp_all)

subsection \<open>Properties\<close>



text \<open>C12: if \<open>Less\<close> is a strict weak order, as \<open>Interface.Less\<close> requires, \<open>sort.Sort\<close> (pattern-defeating quicksort
  with its insertion and heap sort) sorts, and \<open>IsSorted\<close> says so.\<close>

theorem Sort_sorts:
  assumes "weak_order lt" "length x < 2 ^ 61"
  shows "\<exists>y. Sort (slice lt) x = Some y \<and> mset y = mset x \<and> sorted_wrt (\<lambda>a b. \<not> lt b a) y \<and> IsSorted (slice lt) y = Some True"
  by (rule Sort_slice [OF assms(1), of x]) (use assms(2) in auto)

theorem Sort_sorts_witness:
  "\<exists>y. Sort (slice (\<lambda>a b :: nat. a mod 10 < b mod 10)) (rev [0..<100]) = Some y \<and> mset y = mset (rev [0..<100]) \<and>
     sorted_wrt (\<lambda>a b. \<not> b mod 10 < a mod 10) y \<and> IsSorted (slice (\<lambda>a b. a mod 10 < b mod 10)) y = Some True"
  by (rule Sort_sorts) (simp_all add: weak_order_def)

text \<open>C13: \<open>sort.Stable\<close> on the order of a key is the stable sort of the library: equal elements keep their order.\<close>

theorem Stable_is_stable_sort:
  assumes "length x < 2 ^ 61"
  shows "Stable (slice (\<lambda>a b. key a < (key b :: 'k::linorder))) x = Some (sort_key key x)"
proof -
  obtain y where y: "Stable (slice (\<lambda>a b. key a < key b)) x = Some y" "mset y = mset x" "sorted_wrt (\<lambda>a b. \<not> key b < key a) y"
    "\<forall>z. filter (\<lambda>b. \<not> key b < key z \<and> \<not> key z < key b) y = filter (\<lambda>b. \<not> key b < key z \<and> \<not> key z < key b) x"
    by (rule Stable_slice [OF weak_order_key])
  have e: "(\<lambda>b. \<not> key b < key z \<and> \<not> key z < key b) = (\<lambda>b. key z = key b)" for z by auto
  have "sorted (map key y)" using y(3) by (simp add: not_less sorted_map)
  moreover have "filter (\<lambda>b. k = key b) y = filter (\<lambda>b. k = key b) x" if "k \<in> key ` set y" for k
    using y(4) that unfolding e by blast
  ultimately have "sort_key key x = y" using y(2) by (intro properties_for_sort_key) auto
  then show ?thesis using y(1) by simp
qed

theorem Stable_is_stable_sort_witness:
  "Stable (slice (\<lambda>a b. fst a < (fst b :: nat))) [(2, ''x''), (1, ''y''), (2, ''a''), (1, ''b'')] =
     Some [(1, ''y''), (1, ''b''), (2, ''x''), (2, ''a'')]"
  using Stable_is_stable_sort [of "[(2 :: nat, ''x''), (1, ''y''), (2, ''a''), (1, ''b'')]" fst] by simp

text \<open>C15: on the slice types: \<open>IntSlice\<close> is sorted by value, also downwards through \<open>Reverse\<close>, \<open>StringSlice\<close> in
  lexical order, and \<open>Float64Slice\<close> with all NaNs first (\<open>float_rank\<close>), although \<open><\<close> alone is no order on them.\<close>

theorem slices_sort:
  assumes "length x < 2 ^ 61" "length s < 2 ^ 61"
  shows "Sort IntSlice x = Some (sort_key sint x) \<and> Sort (Reverse IntSlice) x = Some (rev (sort_key sint x)) \<and>
    (\<exists>y. Sort StringSlice s = Some y \<and> mset y = mset s \<and> sorted_wrt (\<lambda>a b. \<not> str_less b a) y) \<and>
    (\<exists>y. Sort Float64Slice x = Some y \<and> mset y = mset x \<and> sorted (map float_rank y))"
proof (intro conjI)
  have l: "length x < 2 ^ 63" "length s < 2 ^ 63" using assms by simp_all
  obtain y where y: "Sort IntSlice x = Some y" "mset y = mset x" "sorted_wrt (\<lambda>a b. \<not> int_less b a) y"
    unfolding IntSlice_def by (rule Sort_slice [OF _ l(1), of int_less]) (simp_all add: int_less_def [abs_def] weak_order_key)
  show "Sort IntSlice x = Some (sort_key sint x)"
    using y int_sort_unique [of y x] by (simp add: int_less_def not_less sorted_map)
  obtain z where z: "Sort (Reverse IntSlice) x = Some z" "mset z = mset x" "reversed_ints.sorted_in 0 (length x) z"
    using reversed_ints.Sort_sorted [OF l(1)] by (auto simp: returns_def)
  then have lz: "length x = length z" by (metis size_mset)
  have "sorted_wrt (\<lambda>a b. sint b \<le> sint a) z"
    using z(3) unfolding reversed_ints.sorted_in_whole [OF lz] by (simp add: int_less_def not_less)
  then have "sorted (map sint (rev z))" by (simp add: sorted_map sorted_wrt_rev)
  then show "Sort (Reverse IntSlice) x = Some (rev (sort_key sint x))"
    using int_sort_unique [of "rev z" x] z by (metis mset_rev rev_rev_ident)
  show "\<exists>y. Sort StringSlice s = Some y \<and> mset y = mset s \<and> sorted_wrt (\<lambda>a b. \<not> str_less b a) y"
  proof -
    obtain y where "Sort StringSlice s = Some y" "mset y = mset s" "strings.sorted_in 0 (length s) y"
      using strings.Sort_sorted [OF l(2)] by (auto simp: returns_def)
    moreover from this(2) have "length s = length y" by (metis size_mset)
    ultimately show ?thesis by (simp add: strings.sorted_in_whole)
  qed
  show "\<exists>y. Sort Float64Slice x = Some y \<and> mset y = mset x \<and> sorted (map float_rank y)"
  proof -
    obtain y where y: "Sort Float64Slice x = Some y" "mset y = mset x" "floats.sorted_in 0 (length x) y"
      using floats.Sort_sorted [OF l(1)] by (auto simp: returns_def)
    then have ly: "length x = length y" by (metis size_mset)
    have "sorted (map float_rank y)"
      using y(3) unfolding floats.sorted_in_whole [OF ly] by (simp add: float64_less not_less sorted_map)
    then show ?thesis using y by blast
  qed
qed

theorem slices_sort_witness:
  "Sort IntSlice [3, - 1, 2] = Some [- 1, 2, 3] \<and> Sort (Reverse IntSlice) [3, - 1, 2] = Some [3, 2, - 1] \<and>
    (\<exists>y. Sort StringSlice [[98], [97, 98]] = Some y \<and> mset y = mset [[98], [97, 98]] \<and> sorted_wrt (\<lambda>a b. \<not> str_less b a) y) \<and>
    (\<exists>y. Sort Float64Slice [3, - 1, 2] = Some y \<and> mset y = mset [3, - 1, 2] \<and> sorted (map float_rank y))"
  using slices_sort [of "[3, - 1, 2]" "[[98], [97, 98]]"] by (simp add: insort_key.simps)

text \<open>C16: \<open>sort.Search\<close> calls \<open>f\<close> in \<open>[0, n)\<close> only, for every \<open>n\<close> that is not negative up to the largest \<open>int\<close>
  (the sum \<open>i+j\<close> may leave its range), and returns the border of a monotone \<open>f\<close>.\<close>

theorem Search_finds_border:
  assumes "0 \<le> sint n" "\<And>k. unat k < unat n \<Longrightarrow> f k = Some (P (unat k))" "\<And>i j. i < j \<Longrightarrow> j < unat n \<Longrightarrow> P i \<Longrightarrow> P j"
  shows "\<exists>r. Search n f = Some r \<and> unat r \<le> unat n \<and> (\<forall>k<unat r. \<not> P k) \<and> (\<forall>k. unat r \<le> k \<and> k < unat n \<longrightarrow> P k)"
  by (rule Search_split) (use assms in auto)

theorem Search_finds_border_witness:
  "\<exists>r. Search 0x7FFFFFFFFFFFFFFF (\<lambda>k. if unat k < unat (0x7FFFFFFFFFFFFFFF :: uint64) then Some (unat k \<ge> 2 ^ 62 + 5) else None) = Some r \<and>
     unat r = 2 ^ 62 + 5"
proof -
  define n :: uint64 where "n = 0x7FFFFFFFFFFFFFFF"
  define f where "f = (\<lambda>k :: uint64. if unat k < unat n then Some (unat k \<ge> 2 ^ 62 + 5) else None)"
  have n: "unat n = 2 ^ 63 - 1" "0 \<le> sint n" by (simp_all add: n_def)
  obtain r where r: "Search n f = Some r" "unat r \<le> unat n" "\<forall>k<unat r. \<not> k \<ge> 2 ^ 62 + 5"
    "\<forall>k. unat r \<le> k \<and> k < unat n \<longrightarrow> k \<ge> 2 ^ 62 + 5"
    using Search_finds_border [OF n(2), of f "\<lambda>k. k \<ge> 2 ^ 62 + 5"] by (auto simp: f_def)
  have "\<not> unat r < 2 ^ 62 + 5" using r(4) n(1) by auto
  moreover have "\<not> unat r > 2 ^ 62 + 5" using r(3) by auto
  ultimately show ?thesis using r(1) unfolding n_def f_def by (intro exI [of _ r]) simp
qed

text \<open>C17: \<open>sort.Find\<close> returns the first index whose comparison is not positive, and whether it is zero there;
  \<open>SearchInts\<close> splits a sorted slice into the elements below \<open>x\<close> and the others.\<close>

theorem Find_and_SearchInts:
  assumes "0 \<le> sint n" "\<And>k. unat k < unat n \<Longrightarrow> cmp k = Some (c (unat k))"
    "\<And>i j. i < j \<Longrightarrow> j < unat n \<Longrightarrow> sint (c i) \<le> 0 \<Longrightarrow> sint (c j) \<le> 0"
    "sorted (map sint a)" "length a < 2 ^ 63"
  shows "(\<exists>r. Find n cmp = Some (r, unat r < unat n \<and> c (unat r) = 0) \<and> unat r \<le> unat n \<and> (\<forall>k<unat r. sint (c k) > 0) \<and>
      (\<forall>k. unat r \<le> k \<and> k < unat n \<longrightarrow> sint (c k) \<le> 0)) \<and>
    (\<exists>r. SearchInts a x = Some r \<and> (\<forall>y\<in>set (take (unat r) a). sint y < sint x) \<and> (\<forall>y\<in>set (drop (unat r) a). sint x \<le> sint y))"
proof
  show "\<exists>r. Find n cmp = Some (r, unat r < unat n \<and> c (unat r) = 0) \<and> unat r \<le> unat n \<and> (\<forall>k<unat r. sint (c k) > 0) \<and>
      (\<forall>k. unat r \<le> k \<and> k < unat n \<longrightarrow> sint (c k) \<le> 0)"
    by (rule Find_split) (use assms in auto)
  show "\<exists>r. SearchInts a x = Some r \<and> (\<forall>y\<in>set (take (unat r) a). sint y < sint x) \<and> (\<forall>y\<in>set (drop (unat r) a). sint x \<le> sint y)"
    by (rule SearchInts_split [OF assms(4,5)])
qed

theorem Find_and_SearchInts_witness:
  "(\<exists>r. Find 3 (\<lambda>k. Some (if k = 0 then 1 else 0)) = Some (r, True) \<and> 0 < unat r) \<and>
    (\<exists>r. SearchInts [2, 4, 6, 8] 5 = Some r \<and> (\<forall>y\<in>set (take (unat r) [2, 4, 6, 8 :: uint64]). sint y < sint (5 :: uint64)))"
proof -
  define c :: "nat \<Rightarrow> uint64" where "c k = (if k = 0 then 1 else 0)" for k
  have h: "0 \<le> sint (3 :: uint64)" "sorted (map sint [2, 4, 6, 8 :: uint64])" "length [2, 4, 6, 8 :: uint64] < 2 ^ 63" by simp_all
  have cmp: "(if k = 0 then 1 else 0) = c (unat k)" for k :: uint64 by (simp add: c_def unat_eq_0)
  have "(\<exists>r. Find 3 (\<lambda>k. Some (c (unat k))) = Some (r, unat r < unat (3 :: uint64) \<and> c (unat r) = 0) \<and> unat r \<le> unat (3 :: uint64) \<and>
      (\<forall>k<unat r. sint (c k) > 0) \<and> (\<forall>k. unat r \<le> k \<and> k < unat (3 :: uint64) \<longrightarrow> sint (c k) \<le> 0)) \<and>
    (\<exists>r. SearchInts [2, 4, 6, 8] 5 = Some r \<and> (\<forall>y\<in>set (take (unat r) [2, 4, 6, 8 :: uint64]). sint y < sint (5 :: uint64)) \<and>
      (\<forall>y\<in>set (drop (unat r) [2, 4, 6, 8 :: uint64]). sint (5 :: uint64) \<le> sint y))"
    by (rule Find_and_SearchInts [OF h(1) refl _ h(2,3)]) (simp add: c_def)
  then obtain r where r: "Find 3 (\<lambda>k. Some (c (unat k))) = Some (r, unat r < unat (3 :: uint64) \<and> c (unat r) = 0)"
    "\<forall>k. unat r \<le> k \<and> k < unat (3 :: uint64) \<longrightarrow> sint (c k) \<le> 0" "\<forall>k<unat r. sint (c k) > 0"
    "\<exists>r. SearchInts [2, 4, 6, 8] 5 = Some r \<and> (\<forall>y\<in>set (take (unat r) [2, 4, 6, 8 :: uint64]). sint y < sint (5 :: uint64))" by blast
  have "0 < unat r" using r(2) [rule_format, of 0] by (auto simp: c_def)
  moreover have "\<not> 1 < unat r" using r(3) [rule_format, of 1] by (auto simp: c_def)
  ultimately have "unat r = 1" by simp
  then have "Find 3 (\<lambda>k. Some (if k = 0 then 1 else 0)) = Some (r, True)" using r(1) by (simp add: cmp) (simp add: c_def)
  then show ?thesis using r(4) \<open>0 < unat r\<close> by blast
qed

end
