(* ===== verification/Spec2Isabelle.thy ===== *)
theory Spec2Isabelle
  imports PallocFind PallocSummarize AddrRanges Heap Utf8Valid JsonIndent RunQueue PageLife ScavCorrect SortSlices
begin

text \<open>
  A model of parts of the Go 1.23 distribution (\<open>src/go-go1.23.5/src\<close>), for a 64-bit little-endian target (linux/amd64),
  and the theorems that make these parts correct.  File names below are relative to that directory.

  \<^bold>\<open>The parts and how they interact.\<close>
  The runtime's memory side is one stack.  Bitmaps of 512 pages record the pages in use of a chunk of memory; packed summaries
  describe larger and larger regions by the free pages at their start, at their end and in their longest run; the page
  allocator keeps five levels of summaries over the bitmaps of the 48-bit address space, searches them for the first run that
  is long enough, and tells the scavenger's index which chunks are worth returning to the system; each processor takes whole
  blocks of 64 pages into a page cache, from which small requests are served without a lock.  The scheduler's side is the
  queue of runnable goroutines of a processor, from which other processors steal.  Outside the runtime, \<open>container/heap\<close>
  works over an interface and orders the actions of the go command; \<open>sort\<close> works over an interface as well; \<open>encoding/json\<close>
  checks, compacts, indents and escapes JSON text with one state machine; \<open>unicode/utf8\<close> is used by it and by everything
  that handles text.

  \<^bold>\<open>Theories and sources.\<close>  A definition has the name of the function it models; \<open>pa_\<close>, \<open>pc_\<close> and \<open>si_\<close> mark methods of the
  page allocator, the page cache and the scavenger's index whose names would clash.  Loops and closures are functions of
  their own (\<open>_loop\<close>, or named after what they do).
  \<^item> \<open>Prelude\<close>: Go's machine integers as words, indexing with its bounds check, \<open>'a go = 'a option\<close> for code that may panic,
    bits of words.  \<open>Sys\<close>: \<open>runtime/internal/sys/intrinsics.go\<close>, the portable bodies of the bit operations.
  \<^item> \<open>PageBits\<close>, \<open>PallocBits\<close>, \<open>PallocFind\<close>, \<open>PallocSummarize\<close>: \<open>runtime/mpallocbits.go\<close>, every method; \<open>PallocSum\<close>:
    \<open>pallocSum\<close> and \<open>mergeSummaries\<close> of \<open>runtime/mpagealloc.go\<close>.
  \<^item> \<open>AddrRanges\<close>: \<open>runtime/mranges.go\<close>, with the alignment helpers of \<open>runtime/stubs.go\<close>.
  \<^item> \<open>PageAddr\<close>, \<open>ScavIndex\<close>, \<open>PageAlloc\<close>, \<open>PageCache\<close>: the addresses and levels, the scavenger's index with the search for
    candidates (\<open>runtime/mgcscavenge.go\<close>), the page allocator (\<open>runtime/mpagealloc.go\<close>, \<open>mpagealloc_64bit.go\<close>) and the page
    cache (\<open>runtime/mpagecache.go\<close>).  The state is the record \<open>pageAlloc\<close>, field by field that of the code; a level of
    summaries is a function with the length and the capacity of its slice, the chunks are a two-level sparse array.
  \<^item> \<open>PageTree\<close>, \<open>PageState\<close>, \<open>PageFind\<close>, \<open>PageHeap\<close>, \<open>CacheHeap\<close>, \<open>PageGrow\<close>, \<open>PageLife\<close>, \<open>ScavCorrect\<close>: the proofs about them.
  \<^item> \<open>RunQueue\<close>: the run queues, lists of goroutines and random order of \<open>runtime/proc.go\<close>.
  \<^item> \<open>Perm\<close>, \<open>Heap\<close>: \<open>container/heap/heap.go\<close> over a record of its five methods, and the \<open>actionQueue\<close> of
    \<open>cmd/go/internal/work/action.go\<close>.
  \<^item> \<open>SortAlgo\<close>, \<open>SortBounds\<close>, \<open>SortOrder\<close>, \<open>StableSort\<close>, \<open>SortSlices\<close>: \<open>sort/zsortinterface.go\<close>, \<open>sort/sort.go\<close> and
    \<open>sort/search.go\<close> over a record of the methods of \<open>sort.Interface\<close>, and the slice types.
  \<^item> \<open>Utf8\<close>, \<open>Utf8Valid\<close>: \<open>unicode/utf8/utf8.go\<close>, complete.
  \<^item> \<open>JsonScanner\<close>, \<open>JsonIndent\<close>: \<open>encoding/json/scanner.go\<close>, complete, \<open>indent.go\<close>, complete, and \<open>isValidNumber\<close> of \<open>encode.go\<close>.

  \<^bold>\<open>What the lemmas show.\<close>
  \<^item> Bitmaps: \<open>pages b\<close> is the set of page numbers of a bitmap, \<open>free_list b\<close> the list of its 512 pages; every operation is
    described on them, the searches find the first fit and \<open>summarize\<close> computes \<open>region_sum\<close>, the specification of a summary.
  \<^item> Page allocator: \<open>pa_ok\<close> is its invariant (each summary describes the pages below it, the hint for the search is a lower
    bound of the free pages, the scavenger's index counts the pages in use), \<open>page_free p n\<close> its abstract state.  \<open>PageTree\<close> shows
    that \<open>update\<close> repairs the summaries although it stops early, \<open>PageFind\<close> that the search over the levels finds the first run in
    address order.  The locale \<open>page_store\<close> says what its users may rely on: who holds which pages is an account that
    grow, alloc, free and the cache operations move pages in; it is interpreted on the model, and gives that no page ever has two
    owners and that no operation panics, in every run from \<open>init\<close>.
  \<^item> Run queues: the ring stands for the list of goroutines between its two counters, whatever the 32-bit counters are; reads by other processors that
    are interleaved with the owner's steps lose and duplicate nothing.
  \<^item> Sorting: the locale \<open>collection\<close> has the laws of \<open>Len\<close>, \<open>Less\<close> and \<open>Swap\<close>, and gives, with no assumption on the answers of
    \<open>Less\<close>, that the sort returns, stays in bounds and rearranges; \<open>ordered_collection\<close> adds a strict weak order, and gives
    sortedness and stability.  Both are interpreted on the slice types.
  \<^item> Heaps: the locale of the heap interface gives the heap order; it is interpreted on the action queue.
  \<^item> UTF-8 and JSON: decoding against the table of well-formed byte sequences of the Unicode standard, validity against an inductive
    grammar of JSON texts, \<open>Compact\<close> and \<open>Indent\<close> against reference functions on the text.

  \<^bold>\<open>Bounds, termination and parameters.\<close>
  A loop is a structural or measured recursion where it ends for every argument.  Where that depends on the state it is a
  \<open>partial_function\<close> in the option monad, \<open>None\<close> standing for a panic or for no return, and the theorems say that the call
  returns; no fuel is used.  Loops with a compare-and-swap are attempts: a function of the value that another thread may have
  left, with a result that asks for another attempt.  Indices of \<open>heap\<close> and \<open>sort\<close> are natural numbers; their theorems
  bound the length by \<open>2^61\<close>, up to which no index of the code overflows.  What belongs to the operating
  system or to the rest of the heap is the record \<open>env\<close> of \<open>PageAlloc\<close> (page sizes, addresses of the reserved arrays, the arena
  map), with \<open>env_ok\<close> for what \<open>mallocinit\<close> checks.  Memory obtained from the system is zero and does not run out.

  \<^bold>\<open>Not modelled.\<close>
  Of the page allocator, \<open>enableChunkHugePages\<close> (advice to the system) and the loop that drives \<open>scavengeOne\<close>.  Of the memory
  side, spans, size classes, the collector and the pacing of the scavenger: they are raw memory behind unsafe pointers,
  concurrent with assembly barriers, or floating-point control.  Of \<open>sort\<close>, the wrappers that swap through \<open>reflect\<close>, and the
  second copy of the algorithms generated for \<open>slices\<close>.  Of \<open>encoding/json\<close>, everything driven by \<open>reflect\<close>.  The compiler, the linker and
  the other packages are not reached: the compiler is mostly generated rewrite rules, the others work on files, processes and the network.
\<close>

end
